(* ===== verification/Prelude.thy ===== *)
theory Prelude
  imports Main "HOL-Library.Word" "HOL-Library.Monad_Syntax"
begin

text \<open>
  Shared vocabulary of the development.

  \<^item> C integers: \<open>byte\<close>, \<open>uint\<close> and \<open>ulong\<close> are words of their width on the 64-bit
    Linux build of the interpreter. Signed \<open>int\<close> and \<open>long\<close> values are mathematical integers;
    where an operation can leave the range the model passes it through \<open>i32\<close> or \<open>i64\<close>,
    which wrap as two's complement does. \<open>cdiv\<close> and \<open>cmod\<close> truncate towards zero.
  \<^item> Undefined behaviour: a function that reads or writes through a pointer returns an
    \<open>option\<close>, and \<open>None\<close> stands for a NULL or dangling dereference, an array access out of
    range, or a loop that does not stop. A theorem that a call yields \<open>Some\<close> therefore says
    that the call is memory safe and returns.
  \<^item> The allocators abort the process when memory is exhausted (\<open>__zend_malloc\<close>,
    \<open>_emalloc\<close> in Zend/zend_alloc.h), so a call that returns got its memory; only the
    recoverable reallocation reports failure, and that outcome is part of the model.
\<close>

unbundle bit_operations_syntax

type_synonym byte = "8 word"
type_synonym uint = "32 word"
type_synonym ulong = "64 word"
type_synonym addr = nat

named_theorems store_simps "reading and writing cells of a store"

subsection \<open>Results of the C functions\<close>

datatype zresult = SUCCESS | FAILURE

text \<open>A call that ends in \<open>zend_error(E_ERROR, ...)\<close> leaves the engine by a long jump.\<close>

datatype 'a guarded = Bailout | Returned 'a

subsection \<open>Signed C arithmetic\<close>

definition i32 :: "int \<Rightarrow> int" where
  "i32 x = (x + 2147483648) mod 4294967296 - 2147483648"

definition i64 :: "int \<Rightarrow> int" where
  "i64 x = (x + 9223372036854775808) mod 18446744073709551616 - 9223372036854775808"

definition cdiv :: "int \<Rightarrow> int \<Rightarrow> int" where
  "cdiv a b = sgn a * sgn b * (\<bar>a\<bar> div \<bar>b\<bar>)"

definition cmod :: "int \<Rightarrow> int \<Rightarrow> int" where
  "cmod a b = a - cdiv a b * b"

lemma i32_id: "\<lbrakk>-2147483648 \<le> x; x < 2147483648\<rbrakk> \<Longrightarrow> i32 x = x"
  by (simp add: i32_def)

lemma i64_id: "\<lbrakk>-9223372036854775808 \<le> x; x < 9223372036854775808\<rbrakk> \<Longrightarrow> i64 x = x"
  by (simp add: i64_def)

lemma i32_range: "-2147483648 \<le> i32 x \<and> i32 x < 2147483648"
proof -
  have "0 \<le> (x + 2147483648) mod 4294967296" "(x + 2147483648) mod 4294967296 < 4294967296"
    by simp_all
  then show ?thesis unfolding i32_def by linarith
qed

lemma cdiv_nonneg: "\<lbrakk>0 \<le> a; 0 < b\<rbrakk> \<Longrightarrow> cdiv a b = a div b"
  by (cases "a = 0") (auto simp: cdiv_def)

lemma cmod_nonneg: "\<lbrakk>0 \<le> a; 0 < b\<rbrakk> \<Longrightarrow> cmod a b = a mod b"
  by (simp add: cmod_def cdiv_nonneg minus_div_mult_eq_mod)

subsection \<open>Options and lists\<close>

lemma bind_eq_Some_iff: "Option.bind x f = Some y \<longleftrightarrow> (\<exists>z. x = Some z \<and> f z = Some y)"
  by (cases x) auto

definition last_opt :: "'a list \<Rightarrow> 'a option" where
  "last_opt xs = (if xs = [] then None else Some (last xs))"

definition head_opt :: "'a list \<Rightarrow> 'a option" where
  "head_opt xs = (case xs of [] \<Rightarrow> None | x # _ \<Rightarrow> Some x)"

lemma last_opt_simps [simp]:
  "last_opt [] = None" "last_opt (xs @ [x]) = Some x" "last_opt (x # y # xs) = last_opt (y # xs)"
  "last_opt [x] = Some x"
  by (simp_all add: last_opt_def)

lemma head_opt_simps [simp]: "head_opt [] = None" "head_opt (x # xs) = Some x"
  by (simp_all add: head_opt_def)

lemma last_opt_rev: "last_opt (rev xs) = head_opt xs"
  by (cases xs) simp_all

lemma head_opt_rev: "head_opt (rev xs) = last_opt xs"
  by (cases xs rule: rev_cases) simp_all

lemma last_opt_None_iff [simp]: "last_opt xs = None \<longleftrightarrow> xs = []"
  by (simp add: last_opt_def)

lemma head_opt_None_iff [simp]: "head_opt xs = None \<longleftrightarrow> xs = []"
  by (cases xs) simp_all

lemma last_opt_append: "last_opt (xs @ ys) = (if ys = [] then last_opt xs else last_opt ys)"
  by (simp add: last_opt_def)

lemma head_opt_in: "head_opt xs = Some x \<Longrightarrow> x \<in> set xs"
  by (cases xs) auto

lemma last_opt_in: "last_opt xs = Some x \<Longrightarrow> x \<in> set xs"
  by (cases xs rule: rev_cases) auto

lemma last_opt_Cons: "last_opt (x # xs) = (if xs = [] then Some x else last_opt xs)"
  by (simp add: last_opt_def)

lemma head_opt_append: "head_opt (xs @ ys) = (if xs = [] then head_opt ys else head_opt xs)"
  by (cases xs) simp_all

lemma head_opt_SomeD: "head_opt xs = Some x \<Longrightarrow> \<exists>ys. xs = x # ys"
  by (cases xs) simp_all

lemma last_opt_SomeD: "last_opt xs = Some x \<Longrightarrow> \<exists>ys. xs = ys @ [x]"
  by (cases xs rule: rev_cases) simp_all

end
