(* ===== verification/Glob.thy ===== *)
theory Glob
  imports Prelude
begin

text \<open>
  Pathname matching (win32/glob.c, win32/glob.h): a pattern is copied and unescaped, its braces and
  tilde are expanded, it is compiled into a string over 16-bit characters in which the magic ones
  carry \<open>M_QUOTE\<close>, and the compiled pattern is walked segment by segment over the directories.

  A C string is the list of its characters without the NUL, and a pointer into it the list from
  there on, so \<open>*p\<close> is \<open>peek p\<close>, which is \<open>EOS\<close> at the end; reading past the NUL is \<open>None\<close>. The buffers \<open>patbuf\<close>
  and \<open>pathbuf\<close> have \<open>MAXPATHLEN\<close> characters, and a write behind their end is \<open>None\<close> (\<open>in_buffer\<close>), so that every
  write stands behind the check the code makes. The operating system is a record of
  functions: \<open>readdir\<close> as the list of names \<open>opendir\<close> gives access to, file status and the home
  directories. Allocation succeeds.
\<close>

type_synonym Char = "16 word"

datatype file_kind = Directory | Symlink | Other_File

record glob_env =
  MAXPATHLEN :: nat
  PHP_WIN32 :: bool
  arg_max_bytes :: nat
  env_HOME :: "byte list option"
  pw_self :: "byte list option"
  pw_user :: "byte list \<Rightarrow> byte list option"
  sys_lstat :: "byte list \<Rightarrow> file_kind option"
  sys_stat :: "byte list \<Rightarrow> file_kind option"
  sys_opendir :: "byte list \<Rightarrow> byte list list option"

text \<open>\<open>gl_pathc\<close> is the length of \<open>gl_pathv\<close>; the reserved leading slots stay NULL and are only counted.\<close>

record glob_t =
  gl_matchc :: int
  gl_offs :: nat
  gl_flags :: uint
  gl_pathv :: "byte list list"
  gl_errfunc :: "(byte list \<Rightarrow> bool) option"
  gl_limit :: nat

subsection \<open>Characters and flags\<close>

definition EOS :: Char where "EOS = 0"
definition DOT :: Char where "DOT = 46"
definition LBRACKET :: Char where "LBRACKET = 91"
definition NOT_CHAR :: Char where "NOT_CHAR = 33"
definition QUESTION :: Char where "QUESTION = 63"
definition QUOTE :: Char where "QUOTE = 92"
definition RANGE :: Char where "RANGE = 45"
definition RBRACKET :: Char where "RBRACKET = 93"
definition STAR :: Char where "STAR = 42"
definition TILDE :: Char where "TILDE = 126"
definition LBRACE :: Char where "LBRACE = 123"
definition RBRACE :: Char where "RBRACE = 125"
definition SLASH :: Char where "SLASH = 47"
definition COMMA :: Char where "COMMA = 44"
definition M_QUOTE :: Char where "M_QUOTE = 0x8000"
definition M_PROTECT :: Char where "M_PROTECT = 0x4000"
definition M_ASCII :: Char where "M_ASCII = 0x00ff"

definition CHAR' :: "Char \<Rightarrow> Char" where "CHAR' c = c AND M_ASCII"
definition META :: "Char \<Rightarrow> Char" where "META c = c OR M_QUOTE"

definition M_ALL :: Char where "M_ALL = META STAR"
definition M_END :: Char where "M_END = META RBRACKET"
definition M_NOT :: Char where "M_NOT = META NOT_CHAR"
definition M_ONE :: Char where "M_ONE = META QUESTION"
definition M_RNG :: Char where "M_RNG = META RANGE"
definition M_SET :: Char where "M_SET = META LBRACKET"

definition ismeta :: "Char \<Rightarrow> bool" where "ismeta c \<longleftrightarrow> c AND M_QUOTE \<noteq> 0"

lemmas glob_chars = EOS_def DOT_def LBRACKET_def NOT_CHAR_def QUESTION_def QUOTE_def RANGE_def
  RBRACKET_def STAR_def TILDE_def LBRACE_def RBRACE_def SLASH_def COMMA_def

lemmas glob_metas = M_QUOTE_def M_PROTECT_def M_ASCII_def META_def M_ALL_def M_END_def M_NOT_def
  M_ONE_def M_RNG_def M_SET_def

definition GLOB_APPEND :: uint where "GLOB_APPEND = 0x0001"
definition GLOB_DOOFFS :: uint where "GLOB_DOOFFS = 0x0002"
definition GLOB_ERR :: uint where "GLOB_ERR = 0x0004"
definition GLOB_MARK :: uint where "GLOB_MARK = 0x0008"
definition GLOB_NOCHECK :: uint where "GLOB_NOCHECK = 0x0010"
definition GLOB_NOSORT :: uint where "GLOB_NOSORT = 0x0020"
definition GLOB_BRACE :: uint where "GLOB_BRACE = 0x0080"
definition GLOB_MAGCHAR :: uint where "GLOB_MAGCHAR = 0x0100"
definition GLOB_NOMAGIC :: uint where "GLOB_NOMAGIC = 0x0200"
definition GLOB_TILDE :: uint where "GLOB_TILDE = 0x0800"
definition GLOB_NOESCAPE :: uint where "GLOB_NOESCAPE = 0x1000"
definition GLOB_LIMIT :: uint where "GLOB_LIMIT = 0x2000"

definition GLOB_NOSPACE :: int where "GLOB_NOSPACE = -1"
definition GLOB_ABORTED :: int where "GLOB_ABORTED = -2"
definition GLOB_NOMATCH :: int where "GLOB_NOMATCH = -3"

definition has :: "glob_t \<Rightarrow> uint \<Rightarrow> bool" where
  "has g flag \<longleftrightarrow> gl_flags g AND flag \<noteq> 0"

definition IS_SLASH :: "glob_env \<Rightarrow> Char \<Rightarrow> bool" where
  "IS_SLASH env c \<longleftrightarrow> c = SLASH \<or> PHP_WIN32 env \<and> c = QUOTE"

definition SEP :: "glob_env \<Rightarrow> Char" where
  "SEP env = (if PHP_WIN32 env then QUOTE else SLASH)"

definition peek :: "Char list \<Rightarrow> Char" where
  "peek p = (case p of [] \<Rightarrow> EOS | c # _ \<Rightarrow> c)"

text \<open>The first \<open>n\<close> characters of a buffer are written, the \<open>EOS\<close> among them where the code writes one.\<close>

definition in_buffer :: "glob_env \<Rightarrow> nat \<Rightarrow> 'a option \<Rightarrow> 'a option" where
  "in_buffer env n x = (if n \<le> MAXPATHLEN env then x else None)"

lemma in_buffer_simps [simp]:
  "n \<le> MAXPATHLEN env \<Longrightarrow> in_buffer env n x = x" "in_buffer env n x = Some y \<longleftrightarrow> n \<le> MAXPATHLEN env \<and> x = Some y"
  by (simp_all add: in_buffer_def)

lemma peek_simps [simp]: "peek [] = EOS" "peek (c # p) = c"
  by (simp_all add: peek_def)

subsection \<open>Copying the pattern\<close>

text \<open>The escaping loop; \<open>n\<close> is the room left before \<open>bufend\<close>.\<close>

fun protect :: "nat \<Rightarrow> byte list \<Rightarrow> Char list" where
  "protect 0 p = []"
| "protect (Suc n) [] = []"
| "protect (Suc n) (c # p) =
     (if ucast c = QUOTE
      then (case p of [] \<Rightarrow> [QUOTE OR M_PROTECT] | c' # p' \<Rightarrow> (ucast c' OR M_PROTECT) # protect n p')
      else ucast c # protect n p)"

definition copy_pattern :: "glob_env \<Rightarrow> uint \<Rightarrow> byte list \<Rightarrow> Char list" where
  "copy_pattern env flags pattern =
     (if flags AND GLOB_NOESCAPE \<noteq> 0 then take (MAXPATHLEN env - 1) (map ucast pattern)
      else protect (MAXPATHLEN env - 1) pattern)"

subsection \<open>Tilde expansion\<close>

definition copy_home :: "glob_env \<Rightarrow> byte list \<Rightarrow> Char list \<Rightarrow> Char list" where
  "copy_home env h p = take (MAXPATHLEN env - 1) (map scast h @ p)"

definition globtilde :: "glob_env \<Rightarrow> Char list \<Rightarrow> glob_t \<Rightarrow> Char list" where
  "globtilde env pattern g =
     (if peek pattern \<noteq> TILDE \<or> \<not> has g GLOB_TILDE then pattern
      else
        let user = take (2 * (MAXPATHLEN env - 1)) (takeWhile (\<lambda>c. c \<noteq> SLASH) (tl pattern));
            p = drop (length user) (tl pattern);
            name = takeWhile (\<lambda>c. c \<noteq> 0) (map ucast user)
        in (case (if name = []
                  then (case env_HOME env of Some h \<Rightarrow> Some h
                        | None \<Rightarrow> if PHP_WIN32 env then None else pw_self env)
                  else if PHP_WIN32 env then None else pw_user env name) of
              None \<Rightarrow> pattern
            | Some h \<Rightarrow> copy_home env h p))"

subsection \<open>Compiling the pattern\<close>

text \<open>
  The inside of a bracket expression, from its first character to the closing bracket: what is
  written and where the input continues.
\<close>

definition set_item :: "Char \<Rightarrow> Char list \<Rightarrow> (Char list \<times> Char list) option" where
  "set_item c q =
     (if peek q = RANGE \<and> peek (tl q) \<noteq> RBRACKET
      then (case q of _ # e # q' \<Rightarrow> Some ([CHAR' c, M_RNG, CHAR' e], q') | _ \<Rightarrow> None)
      else Some ([CHAR' c], q))"

lemma set_item_shorter: "set_item c q = Some (out, r) \<Longrightarrow> length r \<le> length q"
  by (auto simp: set_item_def split: if_splits list.splits)

function compile_set :: "Char list \<Rightarrow> (Char list \<times> Char list) option" where
  "compile_set [] = None"
| "compile_set (c # q) =
     (case set_item c q of
        Some (out, x # q') \<Rightarrow>
          if x = RBRACKET then Some (out, q')
          else map_option (\<lambda>(out', r). (out @ out', r)) (compile_set (x # q'))
      | _ \<Rightarrow> None)"
  by pat_completeness auto

termination
  by (relation "measure length") (auto dest!: set_item_shorter)

lemma compile_set_shorter: "compile_set q = Some (out, r) \<Longrightarrow> length r < length q"
proof (induction q arbitrary: out r rule: compile_set.induct)
  case (2 c q)
  then obtain out1 x q' where s: "set_item c q = Some (out1, x # q')"
    by (auto split: option.splits list.splits)
  then show ?case
    using 2 set_item_shorter [OF s] by (fastforce split: if_splits)
qed simp

function compile :: "Char option \<Rightarrow> Char list \<Rightarrow> (Char list \<times> bool) option" where
  "compile prev [] = Some ([], False)"
| "compile prev (c # q) =
     (if c = LBRACKET then
        let neg = (peek q = NOT_CHAR); q1 = (if neg then tl q else q) in
        if q1 = [] \<or> RBRACKET \<notin> set (tl q1)
        then map_option (\<lambda>(out, m). (LBRACKET # out, m)) (compile (Some LBRACKET) q)
        else (case compile_set q1 of
                None \<Rightarrow> None
              | Some (out, r) \<Rightarrow>
                  map_option (\<lambda>(out', _). (M_SET # (if neg then [M_NOT] else []) @ out @ M_END # out', True))
                    (compile (Some M_END) r))
      else if c = QUESTION
      then map_option (\<lambda>(out, _). (M_ONE # out, True)) (compile (Some M_ONE) q)
      else if c = STAR
      then map_option (\<lambda>(out, _). ((if prev = Some M_ALL then [] else [M_ALL]) @ out, True))
             (compile (Some M_ALL) q)
      else map_option (\<lambda>(out, m). (CHAR' c # out, m)) (compile (Some (CHAR' c)) q))"
  by pat_completeness auto

termination
  by (relation "measure (length \<circ> snd)") (auto dest!: compile_set_shorter split: if_splits)

subsection \<open>Matching a name\<close>

text \<open>
  The pattern pointer runs through the whole rest of the pattern; \<open>rest\<close> is the length of what lies
  behind \<open>patend\<close>, so \<open>pat < patend\<close> is \<open>length pat > rest\<close>. A set is scanned to its \<open>M_END\<close>, also
  beyond \<open>patend\<close>.
\<close>

fun scan_set :: "Char \<Rightarrow> bool \<Rightarrow> Char list \<Rightarrow> (bool \<times> Char list) option" where
  "scan_set k ok [] = None"
| "scan_set k ok (c # p) =
     (if c = M_END then Some (ok, p)
      else if peek p = M_RNG
      then (case p of
              _ # e # p' \<Rightarrow> scan_set k (if c \<le> k \<and> k \<le> e then True else ok) p'
            | _ \<Rightarrow> None)
      else scan_set k (if c = k then True else ok) p)"

lemma scan_set_shorter: "scan_set k ok p = Some (r, q) \<Longrightarrow> length q < length p"
proof (induction k ok p rule: scan_set.induct)
  case (2 k ok c p)
  then show ?case by (auto split: if_splits list.splits) fastforce+
qed simp

function match :: "Char list \<Rightarrow> Char list \<Rightarrow> nat \<Rightarrow> bool option"
  and match_star :: "Char list \<Rightarrow> Char list \<Rightarrow> nat \<Rightarrow> bool option" where
  "match name [] rest = Some (name = [])"
| "match name (c # pat) rest =
     (if length (c # pat) \<le> rest then Some (name = [])
      else if c = M_ALL then if length pat = rest then Some True else match_star name pat rest
      else if c = M_ONE then (case name of [] \<Rightarrow> Some False | _ # n \<Rightarrow> match n pat rest)
      else if c = M_SET then
        (case name of [] \<Rightarrow> Some False
         | k # n \<Rightarrow>
             let neg = (peek pat = M_NOT) in
             (case scan_set k False (if neg then tl pat else pat) of
                None \<Rightarrow> None
              | Some (ok, p) \<Rightarrow> if ok = neg then Some False else match n p rest))
      else (case name of [] \<Rightarrow> Some False | x # n \<Rightarrow> if x \<noteq> c then Some False else match n pat rest))"
| "match_star name pat rest =
     (case match name pat rest of
        None \<Rightarrow> None
      | Some True \<Rightarrow> Some True
      | Some False \<Rightarrow> (case name of [] \<Rightarrow> Some False | _ # n \<Rightarrow> match_star n pat rest))"
  by pat_completeness auto

termination
  by (relation "measures [\<lambda>a. case a of Inl (_, p, _) \<Rightarrow> length p | Inr (_, p, _) \<Rightarrow> length p,
      \<lambda>a. case a of Inl _ \<Rightarrow> 0 | Inr (n, _, _) \<Rightarrow> Suc (length n)]")
    (auto dest!: scan_set_shorter split: if_splits)

subsection \<open>Walking the directories\<close>

text \<open>Conversion to bytes into a buffer of \<open>len\<close>; \<open>None\<close> is the overflow result.\<close>

definition g_Ctoc :: "Char list \<Rightarrow> nat \<Rightarrow> byte list option" where
  "g_Ctoc str len = (let bs = takeWhile (\<lambda>b. b \<noteq> 0) (map ucast str) in
     if length bs < len then Some bs else None)"

definition g_lstat :: "glob_env \<Rightarrow> Char list \<Rightarrow> file_kind option" where
  "g_lstat env fn = Option.bind (g_Ctoc fn (MAXPATHLEN env)) (sys_lstat env)"

definition g_stat :: "glob_env \<Rightarrow> Char list \<Rightarrow> file_kind option" where
  "g_stat env fn = Option.bind (g_Ctoc fn (MAXPATHLEN env)) (sys_stat env)"

definition g_opendir :: "glob_env \<Rightarrow> Char list \<Rightarrow> byte list list option" where
  "g_opendir env str =
     (if str = [] then sys_opendir env [46]
      else Option.bind (g_Ctoc str (MAXPATHLEN env)) (sys_opendir env))"

definition globextend :: "glob_env \<Rightarrow> Char list \<Rightarrow> glob_t \<Rightarrow> int \<times> glob_t" where
  "globextend env path g =
     (let newsize = 8 * (2 + length (gl_pathv g) + gl_offs g);
          len = length path + 1;
          g1 = g\<lparr>gl_limit := gl_limit g + len\<rparr>
      in (case g_Ctoc path len of
            None \<Rightarrow> (GLOB_NOSPACE, g1)
          | Some copy \<Rightarrow>
              let g2 = g1\<lparr>gl_pathv := gl_pathv g1 @ [copy]\<rparr> in
              if has g2 GLOB_LIMIT \<and> newsize + gl_limit g2 \<ge> arg_max_bytes env then (GLOB_NOSPACE, g2)
              else (0, g2)))"

text \<open>The end of the pattern: the path is added if it exists, marked if it is a directory.\<close>

definition glob_end :: "glob_env \<Rightarrow> Char list \<Rightarrow> glob_t \<Rightarrow> (int \<times> glob_t) option" where
  "glob_end env path g =
     (case g_lstat env path of
        None \<Rightarrow> Some (0, g)
      | Some kind \<Rightarrow> do {
          mark \<leftarrow> (if has g GLOB_MARK
                   then map_option (\<lambda>c. \<not> IS_SLASH env c \<and>
                     (kind = Directory \<or> kind = Symlink \<and> g_stat env path = Some Directory)) (last_opt path)
                   else Some False);
          (if mark \<and> length path + 1 > MAXPATHLEN env - 1 then Some (1, g)
           else in_buffer env (length path + (if mark then 2 else 1))
             (Some (globextend env (if mark then path @ [SEP env] else path)
                  (g\<lparr>gl_matchc := gl_matchc g + 1\<rparr>)))) })"

definition segment :: "glob_env \<Rightarrow> Char list \<Rightarrow> Char list" where
  "segment env pattern = takeWhile (\<lambda>c. \<not> IS_SLASH env c) pattern"

definition behind :: "glob_env \<Rightarrow> Char list \<Rightarrow> Char list" where
  "behind env pattern = dropWhile (\<lambda>c. \<not> IS_SLASH env c) pattern"

lemma segment_behind: "segment env p @ behind env p = p"
  by (simp add: segment_def behind_def)

lemma behind_shorter: "c \<in> set (segment env p) \<Longrightarrow> length (behind env p) < length p"
  using segment_behind [of env p] by (metis length_append length_pos_if_in_set less_add_same_cancel2)

lemma slashes_shorter:
  "p \<noteq> [] \<Longrightarrow> length (dropWhile (IS_SLASH env) (behind env p)) < length p"
  by (cases p) (auto simp: behind_def less_Suc_eq_le
      intro: le_trans [OF length_dropWhile_le] length_dropWhile_le)

text \<open>
  \<open>path\<close> is what lies between \<open>pathbuf\<close> and \<open>pathend\<close>. \<open>glob3_entries\<close> is the loop over the names of
  the directory, for the segment \<open>seg\<close> with the pattern \<open>rest\<close> behind it.
\<close>

function glob2 :: "glob_env \<Rightarrow> Char list \<Rightarrow> Char list \<Rightarrow> glob_t \<Rightarrow> (int \<times> glob_t) option"
  and glob3 :: "glob_env \<Rightarrow> Char list \<Rightarrow> Char list \<Rightarrow> Char list \<Rightarrow> glob_t \<Rightarrow> (int \<times> glob_t) option"
  and glob3_entries ::
    "glob_env \<Rightarrow> Char list \<Rightarrow> Char list \<Rightarrow> Char list \<Rightarrow> byte list list \<Rightarrow> glob_t \<Rightarrow> (int \<times> glob_t) option" where
  "glob2 env path pattern g =
     (if pattern = [] then in_buffer env (length path + 1) (glob_end env path g)
      else
        let seg = segment env pattern; p = behind env pattern in
        if length path + length seg > MAXPATHLEN env - 1 then Some (1, g)
        else in_buffer env (length path + length seg)
          (if \<exists>c \<in> set seg. ismeta c then glob3 env path seg p g
           else
             let slashes = takeWhile (IS_SLASH env) p in
             if length path + length seg + length slashes > MAXPATHLEN env - 1 then Some (1, g)
             else in_buffer env (length path + length seg + length slashes)
               (glob2 env (path @ seg @ slashes) (dropWhile (IS_SLASH env) p) g)))"
| "glob3 env path seg rest g =
     (if length path > MAXPATHLEN env - 1 then Some (1, g)
      else in_buffer env (length path + 1) (case g_opendir env path of
        Some names \<Rightarrow> glob3_entries env path seg rest names g
      | None \<Rightarrow>
          (case gl_errfunc g of
             None \<Rightarrow> Some (0, g)
           | Some f \<Rightarrow> Some
               (case g_Ctoc path (MAXPATHLEN env) of
                  None \<Rightarrow> (GLOB_ABORTED, g)
                | Some buf \<Rightarrow> if f buf \<or> has g GLOB_ERR then (GLOB_ABORTED, g) else (0, g)))))"
| "glob3_entries env path seg rest [] g = Some (0, g)"
| "glob3_entries env path seg rest (name # names) g =
     (if peek (map ucast name) = DOT \<and> peek (seg @ rest) \<noteq> DOT then glob3_entries env path seg rest names g
      else if length path + length name + 1 \<ge> MAXPATHLEN env - 1 then Some (1, g)
      else in_buffer env (length path + length name + 1) (case match (map ucast name) (seg @ rest) (length rest) of
          None \<Rightarrow> None
        | Some False \<Rightarrow> glob3_entries env path seg rest names g
        | Some True \<Rightarrow>
            (case glob2 env (path @ map ucast name) rest g of
               None \<Rightarrow> None
             | Some (err, g') \<Rightarrow> if err \<noteq> 0 then Some (err, g') else glob3_entries env path seg rest names g')))"
  by pat_completeness auto

termination
  by (relation "measures
      [\<lambda>a. case a of Inl (_, _, p, _) \<Rightarrow> length p | Inr (Inl (_, _, _, p, _)) \<Rightarrow> length p
         | Inr (Inr (_, _, _, p, _, _)) \<Rightarrow> length p,
       \<lambda>a. case a of Inl _ \<Rightarrow> 0 | Inr (Inl _) \<Rightarrow> 2 | Inr (Inr _) \<Rightarrow> 1,
       \<lambda>a. case a of Inr (Inr (_, _, _, _, names, _)) \<Rightarrow> length names | _ \<Rightarrow> 0]")
    (auto dest: behind_shorter slashes_shorter)

declare glob2.simps [simp del] glob3.simps [simp del]

subsection \<open>One pattern\<close>

text \<open>
  \<open>qsort\<close> with \<open>strcmp\<close>: paths that compare as equal are equal, so the order of the result does not
  depend on the sorting algorithm.
\<close>

fun strcmp :: "byte list \<Rightarrow> byte list \<Rightarrow> int" where
  "strcmp [] [] = 0"
| "strcmp [] (y # ys) = - uint y"
| "strcmp (x # xs) [] = uint x"
| "strcmp (x # xs) (y # ys) = (if x = y then strcmp xs ys else uint x - uint y)"

fun insert_path :: "byte list \<Rightarrow> byte list list \<Rightarrow> byte list list" where
  "insert_path p [] = [p]"
| "insert_path p (q # qs) = (if strcmp p q \<le> 0 then p # q # qs else q # insert_path p qs)"

definition sort_paths :: "byte list list \<Rightarrow> byte list list" where
  "sort_paths ps = foldr insert_path ps []"

definition glob1 :: "glob_env \<Rightarrow> Char list \<Rightarrow> glob_t \<Rightarrow> (int \<times> glob_t) option" where
  "glob1 env pattern g = (if pattern = [] then Some (0, g) else glob2 env [] pattern g)"

text \<open>
  Compilation writes into the buffer the tilde expansion may have filled, but never past the
  character it reads.
\<close>

definition glob0 :: "glob_env \<Rightarrow> Char list \<Rightarrow> glob_t \<Rightarrow> (int \<times> glob_t) option" where
  "glob0 env pattern g = do {
     let qpat = globtilde env pattern g;
     let oldpathc = length (gl_pathv g);
     (pat, magic) \<leftarrow> compile None qpat;
     _ \<leftarrow> in_buffer env (length pat + 1) (Some ());
     (err, g1) \<leftarrow> glob1 env pat (g\<lparr>gl_flags := (if magic then gl_flags g OR GLOB_MAGCHAR else gl_flags g),
       gl_limit := 0\<rparr>);
     (if err \<noteq> 0 then Some (err, g1)
      else if length (gl_pathv g1) = oldpathc
      then if has g1 GLOB_NOCHECK \<or> has g1 GLOB_NOMAGIC \<and> \<not> has g1 GLOB_MAGCHAR
           then Some (globextend env pattern g1)
           else Some (GLOB_NOMATCH, g1)
      else if has g1 GLOB_NOSORT then Some (0, g1)
      else Some (0, g1\<lparr>gl_pathv := take oldpathc (gl_pathv g1) @ sort_paths (drop oldpathc (gl_pathv g1))\<rparr>)) }"

subsection \<open>Braces\<close>

text \<open>
  Positions count from behind the opening brace. \<open>skip_set\<close> is the bracket skip both loops of
  \<open>globexp2\<close> share: the position of the closing bracket, or \<open>i\<close> itself if there is none.
\<close>

definition char_at :: "Char list \<Rightarrow> nat \<Rightarrow> Char" where
  "char_at p i = (if i < length p then p ! i else EOS)"

definition skip_set :: "Char list \<Rightarrow> nat \<Rightarrow> nat" where
  "skip_set p i = (let j = Suc i + length (takeWhile (\<lambda>c. c \<noteq> RBRACKET) (drop (Suc i) p)) in
     if j < length p then j else i)"

lemma skip_set_ge: "i \<le> skip_set p i"
  by (simp add: skip_set_def Let_def)

function find_brace :: "Char list \<Rightarrow> nat \<Rightarrow> nat \<Rightarrow> nat option" where
  "find_brace p pe i =
     (if pe \<ge> length p then None
      else if p ! pe = LBRACKET then find_brace p (Suc (skip_set p pe)) i
      else if p ! pe = LBRACE then find_brace p (Suc pe) (Suc i)
      else if p ! pe = RBRACE then if i = 0 then Some pe else find_brace p (Suc pe) (i - 1)
      else find_brace p (Suc pe) i)"
  by pat_completeness auto

termination
proof (relation "measure (\<lambda>(p, pe, i). length p - pe)", goal_cases)
  case (2 p pe i)
  then show ?case using skip_set_ge [of pe p] by auto
qed auto

declare find_brace.simps [simp del]

text \<open>
  The patterns \<open>globexp2\<close> passes on: one per alternative, from \<open>pl\<close> up to the separator at \<open>pm\<close>. The
  bracket skip starts by moving \<open>pl\<close> to the bracket, as the code does.
\<close>

function alternatives :: "Char list \<Rightarrow> Char list \<Rightarrow> nat \<Rightarrow> nat \<Rightarrow> nat \<Rightarrow> nat \<Rightarrow> Char list list" where
  "alternatives before p pe pl pm i =
     (if pm > pe then []
      else let c = char_at p pm in
        if c = LBRACKET then alternatives before p pe pm (Suc (skip_set p pm)) i
        else if c = LBRACE then alternatives before p pe pl (Suc pm) (Suc i)
        else if c = RBRACE \<and> i \<noteq> 0 then alternatives before p pe pl (Suc pm) (i - 1)
        else if c = RBRACE \<or> c = COMMA \<and> i = 0
        then (before @ take (pm - pl) (drop pl p) @ drop (Suc pe) p) # alternatives before p pe (Suc pm) (Suc pm) i
        else alternatives before p pe pl (Suc pm) i)"
  by pat_completeness auto

termination
proof (relation "measure (\<lambda>(before, p, pe, pl, pm, i). Suc pe - pm)", goal_cases)
  case (2 before p pe pl pm i c)
  then show ?case using skip_set_ge [of pm p] by auto
qed auto

declare alternatives.simps [simp del]

lemma find_brace_less: "find_brace p pe i = Some k \<Longrightarrow> k < length p"
  by (induction p pe i rule: find_brace.induct)
    (subst (asm) (2) find_brace.simps, auto split: if_splits)

lemma alternatives_shorter:
  "\<lbrakk>a \<in> set (alternatives before p pe pl pm i); pe < length p\<rbrakk> \<Longrightarrow> length a \<le> length before + length p - 1"
proof (induction before p pe pl pm i rule: alternatives.induct)
  case (1 before p pe pl pm i)
  show ?case
  proof (cases "pm > pe")
    case False
    have "length (take (pm - pl) (drop pl p)) \<le> pe" using False by simp
    then have "length (before @ take (pm - pl) (drop pl p) @ drop (Suc pe) p) \<le> length before + length p - 1"
      using 1(7) by simp
    with 1(1-5) [OF False refl] 1(6,7) False show ?thesis
      by (auto simp: alternatives.simps [of before p pe pl pm i] Let_def split: if_splits)
  qed (use 1(6) in \<open>simp add: alternatives.simps\<close>)
qed

definition protected_braces :: "Char list \<Rightarrow> bool" where
  "protected_braces pattern \<longleftrightarrow> pattern = [LBRACE, RBRACE]"

lemma before_brace: "LBRACE \<in> set pattern \<Longrightarrow>
  length (takeWhile (\<lambda>c. c \<noteq> LBRACE) pattern) < length pattern"
  by (induction pattern) auto

text \<open>
  \<open>globexp2\<close> always asks its caller to return, so only the first opening brace of a pattern is looked
  at; an unmatched one leaves the pattern cut off in front of it. The results of the alternatives
  are dropped, and the return value is 0.
\<close>

function globexp1 :: "glob_env \<Rightarrow> Char list \<Rightarrow> glob_t \<Rightarrow> (int \<times> glob_t) option" where
  "globexp1 env pattern g =
     (if protected_braces pattern \<or> LBRACE \<notin> set pattern then glob0 env pattern g
      else \<comment> \<open>\<open>globexp2\<close>\<close>
        let before = takeWhile (\<lambda>c. c \<noteq> LBRACE) pattern; p = drop (Suc (length before)) pattern in
        (case find_brace p 0 0 of
           None \<Rightarrow> in_buffer env (length before + 1) (glob0 env before g)
         | Some pe \<Rightarrow>
             map_option (\<lambda>g. (0, g))
               (fold (\<lambda>a r. Option.bind r (\<lambda>g. map_option snd (in_buffer env (length a + 1) (globexp1 env a g))))
                 (alternatives before p pe 0 0 0) (Some g))))"
  by pat_completeness auto

termination
proof (relation "measure (\<lambda>(env, pattern, g). length pattern)")
  fix env :: glob_env and pattern :: "Char list" and g :: glob_t and before p pe a and x and y :: glob_t
  assume b: "\<not> (protected_braces pattern \<or> LBRACE \<notin> set pattern)"
    and d: "before = takeWhile (\<lambda>c. c \<noteq> LBRACE) pattern" "p = drop (Suc (length before)) pattern"
    and f: "find_brace p 0 0 = Some pe" "a \<in> set (alternatives before p pe 0 0 0)"
  have "length before < length pattern" using before_brace b by (simp add: d)
  moreover have "length a \<le> length before + length p - 1"
    using alternatives_shorter [OF f(2) find_brace_less [OF f(1)]] .
  moreover have "0 < length p" using find_brace_less [OF f(1)] by linarith
  ultimately show "((env, a, y), env, pattern, g) \<in> measure (\<lambda>(env, pattern, g). length pattern)"
    by (simp add: d(2))
qed simp

declare globexp1.simps [simp del]

subsection \<open>The interface\<close>

definition glob :: "glob_env \<Rightarrow> byte list \<Rightarrow> uint \<Rightarrow> (byte list \<Rightarrow> bool) option \<Rightarrow> glob_t \<Rightarrow>
    (int \<times> glob_t) option" where
  "glob env pattern flags0 errfunc g =
     (let flags = (if PHP_WIN32 env then flags0 OR GLOB_NOESCAPE else flags0);
          g1 = (if flags AND GLOB_APPEND = 0
                then g\<lparr>gl_pathv := [], gl_offs := (if flags AND GLOB_DOOFFS = 0 then 0 else gl_offs g)\<rparr>
                else g);
          g2 = g1\<lparr>gl_flags := flags AND NOT GLOB_MAGCHAR, gl_errfunc := errfunc, gl_matchc := 0\<rparr>;
          patbuf = copy_pattern env flags pattern
      in in_buffer env (length patbuf + 1) (if flags AND GLOB_BRACE \<noteq> 0 then globexp1 env patbuf g2 else glob0 env patbuf g2))"

definition globfree :: "glob_t \<Rightarrow> glob_t" where
  "globfree g = g\<lparr>gl_pathv := []\<rparr>"

end
