(* ===== verification/GlobMatch.thy ===== *)
theory GlobMatch
  imports Glob
begin

text \<open>
  What patterns mean. \<open>item\<close> is the abstract syntax of a pattern without separators, \<open>matches\<close> its
  meaning, \<open>print\<close> its concrete syntax and \<open>encode\<close> its compiled form. \<open>compile\<close> takes the concrete
  syntax to the compiled form and \<open>match\<close> decides the meaning of that. For arbitrary pattern text,
  \<open>compile\<close> still produces the compiled form of some items, which is what keeps \<open>match\<close> inside the
  pattern.
\<close>

datatype elem = Single Char | Range Char Char

datatype item = Lit Char | One | Any | Set bool "elem list"

fun elem_has :: "Char \<Rightarrow> elem \<Rightarrow> bool" where
  "elem_has k (Single c) \<longleftrightarrow> c = k"
| "elem_has k (Range a b) \<longleftrightarrow> a \<le> k \<and> k \<le> b"

fun matches :: "item list \<Rightarrow> Char list \<Rightarrow> bool" where
  "matches [] n \<longleftrightarrow> n = []"
| "matches (Lit c # is) n \<longleftrightarrow> (case n of [] \<Rightarrow> False | x # n' \<Rightarrow> x = c \<and> matches is n')"
| "matches (One # is) n \<longleftrightarrow> (case n of [] \<Rightarrow> False | _ # n' \<Rightarrow> matches is n')"
| "matches (Any # is) n \<longleftrightarrow> (\<exists>k \<le> length n. matches is (drop k n))"
| "matches (Set neg es # is) n \<longleftrightarrow>
     (case n of [] \<Rightarrow> False | x # n' \<Rightarrow> (\<exists>e \<in> set es. elem_has x e) \<noteq> neg \<and> matches is n')"

fun encode_elem :: "elem \<Rightarrow> Char list" where
  "encode_elem (Single c) = [c]"
| "encode_elem (Range a b) = [a, M_RNG, b]"

fun encode_item :: "item \<Rightarrow> Char list" where
  "encode_item (Lit c) = [c]"
| "encode_item One = [M_ONE]"
| "encode_item Any = [M_ALL]"
| "encode_item (Set neg es) = M_SET # (if neg then [M_NOT] else []) @ concat (map encode_elem es) @ [M_END]"

definition encode :: "item list \<Rightarrow> Char list" where
  "encode is = concat (map encode_item is)"

lemma encode_simps [simp]: "encode [] = []" "encode (i # is) = encode_item i @ encode is"
  by (simp_all add: encode_def)

lemma encode_append [simp]: "encode (is @ js) = encode is @ encode js"
  by (simp add: encode_def)

text \<open>Plain characters are bytes, so none of them is a magic one.\<close>

fun plain_elem :: "elem \<Rightarrow> bool" where
  "plain_elem (Single c) \<longleftrightarrow> c < 0x100"
| "plain_elem (Range a b) \<longleftrightarrow> a < 0x100 \<and> b < 0x100"

fun plain :: "item \<Rightarrow> bool" where
  "plain (Lit c) \<longleftrightarrow> c < 0x100"
| "plain (Set neg es) \<longleftrightarrow> (\<forall>e \<in> set es. plain_elem e)"
| "plain _ \<longleftrightarrow> True"

lemma metas_distinct [simp]:
  "M_ALL \<noteq> M_ONE" "M_ALL \<noteq> M_SET" "M_ONE \<noteq> M_SET" "M_ONE \<noteq> M_ALL" "M_SET \<noteq> M_ALL" "M_SET \<noteq> M_ONE"
  "M_END \<noteq> M_RNG" "M_RNG \<noteq> M_END" "M_END \<noteq> M_NOT" "M_NOT \<noteq> M_END" "M_NOT \<noteq> M_RNG" "M_RNG \<noteq> M_NOT"
  "EOS \<noteq> M_RNG" "EOS \<noteq> M_NOT" "EOS \<noteq> RANGE" "M_ALL \<noteq> M_END" "M_END \<noteq> M_ALL" "EOS \<noteq> NOT_CHAR"
  by (simp_all add: glob_metas glob_chars)

lemma plain_not_meta:
  assumes "(c :: Char) < 0x100"
  shows "c \<noteq> M_ALL" "c \<noteq> M_ONE" "c \<noteq> M_SET" "c \<noteq> M_END" "c \<noteq> M_RNG" "c \<noteq> M_NOT"
    "M_ALL \<noteq> c" "M_END \<noteq> c" "M_RNG \<noteq> c" "M_NOT \<noteq> c"
  using assms by (auto simp: glob_metas glob_chars)

subsection \<open>Matching decides the meaning\<close>

lemma peek_elems: "\<forall>e \<in> set es. plain_elem e \<Longrightarrow>
  peek (concat (map encode_elem es) @ M_END # r) \<noteq> M_RNG \<and> peek (concat (map encode_elem es) @ M_END # r) \<noteq> M_NOT"
  by (cases es; cases "hd es") (auto simp: plain_not_meta)

lemma scan_set_encode:
  "\<forall>e \<in> set es. plain_elem e \<Longrightarrow>
   scan_set k ok (concat (map encode_elem es) @ M_END # r) = Some (ok \<or> (\<exists>e \<in> set es. elem_has k e), r)"
proof (induction es arbitrary: ok)
  case (Cons e es)
  then have p: "peek (concat (map encode_elem es) @ M_END # r) \<noteq> M_RNG" using peek_elems by simp
  show ?case
  proof (cases e)
    case (Single c)
    then show ?thesis using Cons p by (auto simp: plain_not_meta)
  next
    case (Range a b)
    then show ?thesis using Cons by (auto simp: plain_not_meta)
  qed
qed simp

lemma ex_le_Suc: "(\<exists>k \<le> Suc n. Q k) \<longleftrightarrow> Q 0 \<or> (\<exists>k \<le> n. Q (Suc k))"
proof
  assume "\<exists>k \<le> Suc n. Q k"
  then obtain k where "k \<le> Suc n" "Q k" by blast
  then show "Q 0 \<or> (\<exists>k \<le> n. Q (Suc k))" by (cases k) auto
qed auto

lemma match_star_ex:
  assumes "\<And>n. match n pat rest = Some (P n)"
  shows "match_star name pat rest = Some (\<exists>k \<le> length name. P (drop k name))"
proof (induction name)
  case Nil
  then show ?case using assms by (auto split: bool.splits)
next
  case (Cons x name)
  have "(\<exists>k \<le> length (x # name). P (drop k (x # name))) \<longleftrightarrow> P (x # name) \<or> (\<exists>k \<le> length name. P (drop k name))"
    using ex_le_Suc [of "length name" "\<lambda>k. P (drop k (x # name))"] by simp
  then show ?case using assms Cons by (auto split: bool.splits)
qed

lemma match_encode:
  assumes "\<forall>i \<in> set is. plain i"
  shows "match name (encode is @ rest) (length rest) = Some (matches is name)"
  using assms
proof (induction "is" arbitrary: name)
  case Nil
  then show ?case by (cases rest) auto
next
  case (Cons i "is")
  have IH: "match n (encode is @ rest) (length rest) = Some (matches is n)" for n using Cons by simp
  show ?case
  proof (cases i)
    case (Lit c)
    then show ?thesis using Cons.prems IH by (auto simp: plain_not_meta split: list.splits)
  next
    case One
    then show ?thesis using IH by (auto split: list.splits)
  next
    case Any
    have "matches (Any # is) name" if "encode is = []"
      using that by (cases "is"; cases "hd is") (auto intro: exI [of _ "length name"])
    then show ?thesis using Any match_star_ex [OF IH] by auto
  next
    case (Set neg es)
    then have es: "\<forall>e \<in> set es. plain_elem e" using Cons.prems by simp
    let ?p = "concat (map encode_elem es) @ M_END # encode is @ rest"
    have n: "peek (if neg then M_NOT # ?p else ?p) = M_NOT \<longleftrightarrow> neg"
      using peek_elems [OF es, of "encode is @ rest"] by simp
    have "(if neg then tl (if neg then M_NOT # ?p else ?p) else (if neg then M_NOT # ?p else ?p)) = ?p" by simp
    note s = scan_set_encode [OF es, of _ False "encode is @ rest"]
    have "encode (i # is) @ rest = M_SET # (if neg then M_NOT # ?p else ?p)" using Set by simp
    then show ?thesis
      using s IH n Set by (auto simp: Let_def split: list.splits)
  qed
qed

subsection \<open>Compiling arbitrary text\<close>

lemma CHAR_plain [simp]: "CHAR' c < 0x100"
proof -
  have "CHAR' c \<le> 0xff" unfolding CHAR'_def M_ASCII_def by (rule word_and_le1)
  then show ?thesis by (rule le_less_trans) simp
qed

lemma CHAR_byte: "c < 0x100 \<Longrightarrow> CHAR' c = c"
proof -
  assume "c < 0x100"
  then have "unat c < 256" by (simp add: word_less_nat_alt)
  have "CHAR' c = take_bit 8 c" by (simp add: CHAR'_def M_ASCII_def take_bit_eq_mask mask_numeral)
  also have "\<dots> = c" using \<open>unat c < 256\<close> by (intro word_unat_eq_iff [THEN iffD2])
      (simp add: unsigned_take_bit_eq take_bit_nat_eq_self)
  finally show ?thesis .
qed

lemma compile_set_ok:
  assumes "q \<noteq> []" "RBRACKET \<in> set (tl q)"
  shows "\<exists>es r. compile_set q = Some (concat (map encode_elem es), r) \<and> (\<forall>e \<in> set es. plain_elem e) \<and>
    length (concat (map encode_elem es)) + length r < length q"
  using assms
proof (induction q rule: compile_set.induct)
  case (2 c q)
  obtain e x q' where s: "set_item c q = Some (encode_elem e, x # q')" and e: "plain_elem e"
    and l: "length (encode_elem e) + length (x # q') = Suc (length q)" and r: "x = RBRACKET \<or> RBRACKET \<in> set q'"
  proof (cases "peek q = RANGE \<and> peek (tl q) \<noteq> RBRACKET")
    case True
    have "RANGE \<noteq> RBRACKET" by (simp add: glob_chars)
    then obtain a b q2 where q: "q = a # b # q2" "RBRACKET \<in> set q2"
      using True 2(3) by (cases q; cases "tl q") (auto simp: glob_chars)
    then obtain x q' where "q2 = x # q'" by (cases q2) auto
    then show ?thesis using that [of "Range (CHAR' c) (CHAR' b)" x q'] True q by (auto simp: set_item_def)
  next
    case False
    obtain x q' where "q = x # q'" using 2(3) by (cases q) auto
    then show ?thesis using that [of "Single (CHAR' c)" x q'] False 2(3) by (auto simp: set_item_def)
  qed
  show ?case
  proof (cases "x = RBRACKET")
    case True
    then show ?thesis using s e l by (intro exI [of _ "[e]"] exI [of _ q']) simp
  next
    case False
    then obtain es r where "compile_set (x # q') = Some (concat (map encode_elem es), r)"
      "\<forall>e \<in> set es. plain_elem e" "length (concat (map encode_elem es)) + length r < length (x # q')"
      using 2(1) [OF s refl refl False] False r by (auto simp del: compile_set.simps)
    then show ?thesis using s e l False
      by (intro exI [of _ "e # es"] exI [of _ r]) (simp add: compile_set.simps(2) [of c q] del: compile_set.simps)
  qed
qed simp

lemma compile_total:
  "\<exists>is m. compile prev q = Some (encode is, m) \<and> (\<forall>i \<in> set is. plain i) \<and> length (encode is) \<le> length q"
proof (induction prev q rule: compile.induct)
  case (1 prev)
  then show ?case by (intro exI [of _ "[]"] exI [of _ False]) simp
next
  case (2 prev c q)
  define neg where "neg = (peek q = NOT_CHAR)"
  define q1 where "q1 = (if neg then tl q else q)"
  have q1: "length q1 + (if neg then 1 else 0) = length q"
    by (cases q) (auto simp: q1_def neg_def)
  consider (open_bracket) "c = LBRACKET" "q1 = [] \<or> RBRACKET \<notin> set (tl q1)" | (bracket) "c = LBRACKET" "q1 \<noteq> []" "RBRACKET \<in> set (tl q1)"
    | (one) "c = QUESTION" | (star) "c = STAR" | (lit) "c \<noteq> LBRACKET" "c \<noteq> QUESTION" "c \<noteq> STAR" by blast
  then show ?case
  proof cases
    case open_bracket
    then obtain "is" m where "compile (Some LBRACKET) q = Some (encode is, m)" "\<forall>i \<in> set is. plain i"
      "length (encode is) \<le> length q"
      using 2(1) [OF open_bracket(1) neg_def q1_def open_bracket(2)] by blast
    then show ?thesis using open_bracket
      by (intro exI [of _ "Lit LBRACKET # is"]) (simp add: Let_def flip: neg_def q1_def, simp add: glob_chars)
  next
    case bracket
    obtain es r where es: "compile_set q1 = Some (concat (map encode_elem es), r)" "\<forall>e \<in> set es. plain_elem e"
      "length (concat (map encode_elem es)) + length r < length q1"
      using compile_set_ok [OF bracket(2,3)] by blast
    have "\<not> (q1 = [] \<or> RBRACKET \<notin> set (tl q1))" using bracket by simp
    from 2(2) [OF bracket(1) neg_def q1_def this es(1) refl] obtain "is" m where
      "compile (Some M_END) r = Some (encode is, m)" "\<forall>i \<in> set is. plain i" "length (encode is) \<le> length r"
      by blast
    then show ?thesis using bracket es q1
      by (intro exI [of _ "Set neg es # is"]) (auto simp: Let_def simp flip: neg_def q1_def split: if_splits)
  next
    case one
    then obtain "is" m where "compile (Some M_ONE) q = Some (encode is, m)" "\<forall>i \<in> set is. plain i"
      "length (encode is) \<le> length q"
      using 2(3) by (auto simp: glob_chars)
    then show ?thesis using one by (intro exI [of _ "One # is"] exI [of _ True]) (simp add: glob_chars)
  next
    case star
    then obtain "is" m where i: "compile (Some M_ALL) q = Some (encode is, m)" "\<forall>i \<in> set is. plain i"
      "length (encode is) \<le> length q"
      using 2(4) by (auto simp: glob_chars)
    have s: "STAR \<noteq> LBRACKET" "STAR \<noteq> QUESTION" by (simp_all add: glob_chars)
    show ?thesis
    proof (cases "prev = Some M_ALL")
      case True
      then show ?thesis using star i s by (intro exI [of _ "is"] exI [of _ True]) simp
    next
      case False
      then show ?thesis using star i s by (intro exI [of _ "Any # is"] exI [of _ True]) simp
    qed
  next
    case lit
    then obtain "is" m where "compile (Some (CHAR' c)) q = Some (encode is, m)" "\<forall>i \<in> set is. plain i"
      "length (encode is) \<le> length q"
      using 2(5) by auto
    then show ?thesis using lit by (intro exI [of _ "Lit (CHAR' c) # is"]) simp
  qed
qed

subsection \<open>Compiling concrete syntax\<close>

fun print_elem :: "elem \<Rightarrow> Char list" where
  "print_elem (Single c) = [c]"
| "print_elem (Range a b) = [a, RANGE, b]"

fun print_item :: "item \<Rightarrow> Char list" where
  "print_item (Lit c) = [c]"
| "print_item One = [QUESTION]"
| "print_item Any = [STAR]"
| "print_item (Set neg es) = LBRACKET # (if neg then [NOT_CHAR] else []) @ concat (map print_elem es) @ [RBRACKET]"

definition print :: "item list \<Rightarrow> Char list" where
  "print is = concat (map print_item is)"

lemma print_simps [simp]: "print [] = []" "print (i # is) = print_item i @ print is"
  by (simp_all add: print_def)

text \<open>
  What can be written down: in a set, a closing bracket stands first or not at all, a minus first or
  between the ends of a range, an exclamation mark not first unless the set is negated.
\<close>

fun elem_start :: "elem \<Rightarrow> Char" where
  "elem_start (Single c) = c" | "elem_start (Range a b) = a"

definition inner_ok :: "elem \<Rightarrow> bool" where
  "inner_ok e \<longleftrightarrow> plain_elem e \<and> elem_start e \<noteq> RBRACKET \<and> elem_start e \<noteq> RANGE \<and>
     (\<forall>a b. e = Range a b \<longrightarrow> b \<noteq> RBRACKET)"

fun writable :: "item \<Rightarrow> bool" where
  "writable (Lit c) \<longleftrightarrow> c < 0x100 \<and> c \<noteq> LBRACKET \<and> c \<noteq> QUESTION \<and> c \<noteq> STAR"
| "writable (Set neg es) \<longleftrightarrow> (case es of [] \<Rightarrow> False
     | e # es' \<Rightarrow> plain_elem e \<and> (\<forall>a b. e = Range a b \<longrightarrow> b \<noteq> RBRACKET) \<and>
         (\<not> neg \<longrightarrow> elem_start e \<noteq> NOT_CHAR) \<and> (\<forall>e \<in> set es'. inner_ok e))"
| "writable _ \<longleftrightarrow> True"

text \<open>Adjacent stars become one.\<close>

fun collapse :: "bool \<Rightarrow> item list \<Rightarrow> item list" where
  "collapse star [] = []"
| "collapse star (Any # is) = (if star then collapse True is else Any # collapse True is)"
| "collapse star (i # is) = i # collapse False is"

lemma matches_Any: "matches (Any # Any # is) n = matches (Any # is) n"
proof
  assume "matches (Any # Any # is) n"
  then obtain j k where "j \<le> length n" "k \<le> length n - j" "matches is (drop (k + j) n)" by auto
  then show "matches (Any # is) n" by (auto intro!: exI [of _ "k + j"])
next
  assume "matches (Any # is) n"
  then show "matches (Any # Any # is) n"
    unfolding matches.simps(4) [of "Any # is"] by (intro exI [of _ 0]) simp
qed

lemma matches_collapse:
  "(\<forall>n. matches (collapse False is) n = matches is n) \<and>
   (\<forall>n. matches (Any # collapse True is) n = matches (Any # is) n)"
proof (induction "is")
  case (Cons i "is")
  then show ?case
  proof (cases i)
    case Any
    then show ?thesis using Cons matches_Any by (auto simp del: matches.simps)
  qed (use Cons in \<open>auto split: list.splits\<close>)
qed simp

lemma peek_elem_start: "peek (print_elem e @ r) = elem_start e"
  by (cases e) simp_all

lemma set_item_print:
  assumes "plain_elem e" "\<forall>a b. e = Range a b \<longrightarrow> b \<noteq> RBRACKET"
  obtains ps where "print_elem e = elem_start e # ps"
    and "\<And>r. peek r \<noteq> RANGE \<Longrightarrow> set_item (elem_start e) (ps @ r) = Some (encode_elem e, r)"
  by (rule that [of "tl (print_elem e)"]; use assms in \<open>cases e; auto simp: set_item_def CHAR_byte\<close>)

lemma compile_set_print:
  assumes "plain_elem e" "\<forall>a b. e = Range a b \<longrightarrow> b \<noteq> RBRACKET" "\<forall>e \<in> set es. inner_ok e"
  shows "compile_set (concat (map print_elem (e # es)) @ RBRACKET # r) = Some (concat (map encode_elem (e # es)), r)"
  using assms
proof (induction es arbitrary: e)
  case Nil
  obtain ps where ps: "print_elem e = elem_start e # ps"
    "\<And>r. peek r \<noteq> RANGE \<Longrightarrow> set_item (elem_start e) (ps @ r) = Some (encode_elem e, r)"
    using Nil(1,2) by (rule set_item_print) blast
  have "peek (RBRACKET # r) \<noteq> RANGE" by (simp add: glob_chars)
  from ps(2) [OF this] show ?case by (simp add: ps(1))
next
  case (Cons e' es)
  obtain ps where ps: "print_elem e = elem_start e # ps"
    "\<And>r. peek r \<noteq> RANGE \<Longrightarrow> set_item (elem_start e) (ps @ r) = Some (encode_elem e, r)"
    using Cons.prems(1,2) by (rule set_item_print) blast
  let ?r = "concat (map print_elem (e' # es)) @ RBRACKET # r"
  have e': "plain_elem e'" "\<forall>a b. e' = Range a b \<longrightarrow> b \<noteq> RBRACKET" "elem_start e' \<noteq> RBRACKET" "elem_start e' \<noteq> RANGE"
    using Cons.prems(3) by (auto simp: inner_ok_def)
  obtain q where q: "?r = elem_start e' # q" using e'(1,2) by (rule set_item_print) simp
  have c: "compile_set (elem_start e' # q) = Some (concat (map encode_elem (e' # es)), r)"
    using Cons.IH [OF e'(1,2)] Cons.prems(3) unfolding q by simp
  have "set_item (elem_start e) (ps @ ?r) = Some (encode_elem e, ?r)"
    using e'(4) by (intro ps(2)) (simp only: q peek_simps, simp)
  then have i: "set_item (elem_start e) (ps @ elem_start e' # q) = Some (encode_elem e, elem_start e' # q)"
    unfolding q .
  have "concat (map print_elem (e # e' # es)) @ RBRACKET # r = elem_start e # ps @ elem_start e' # q"
    using q ps(1) by simp
  moreover have "compile_set (elem_start e # ps @ elem_start e' # q) =
      Some (encode_elem e @ concat (map encode_elem (e' # es)), r)"
    using i c e'(3) by (simp add: compile_set.simps(2) [of "elem_start e"] del: compile_set.simps list.map concat.simps)
  ultimately show ?case by (simp del: compile_set.simps)
qed

lemma compile_print:
  assumes "\<forall>i \<in> set is. writable i"
  shows "\<exists>m. compile prev (print is) = Some (encode (collapse (prev = Some M_ALL) is), m)"
  using assms
proof (induction "is" arbitrary: prev)
  case (Cons i "is")
  have IH: "\<exists>m. compile p (print is) = Some (encode (collapse (p = Some M_ALL) is), m)" for p
    using Cons by simp
  have chars: "QUESTION \<noteq> LBRACKET" "STAR \<noteq> LBRACKET" "STAR \<noteq> QUESTION" by (simp_all add: glob_chars)
  show ?case
  proof (cases i)
    case (Lit c)
    then have c: "c < 0x100" "c \<noteq> LBRACKET" "c \<noteq> QUESTION" "c \<noteq> STAR" using Cons.prems by simp_all
    then show ?thesis using IH [of "Some c"] Lit by (auto simp: CHAR_byte plain_not_meta)
  next
    case One
    then show ?thesis using IH [of "Some M_ONE"] chars by auto
  next
    case Any
    then show ?thesis using IH [of "Some M_ALL"] chars by auto
  next
    case (Set neg es)
    then obtain e es' where es: "es = e # es'" "plain_elem e" "\<forall>a b. e = Range a b \<longrightarrow> b \<noteq> RBRACKET"
      "\<not> neg \<longrightarrow> elem_start e \<noteq> NOT_CHAR" "\<forall>e \<in> set es'. inner_ok e"
      using Cons.prems by (auto split: list.splits)
    let ?q1 = "concat (map print_elem es) @ RBRACKET # print is"
    let ?q = "if neg then NOT_CHAR # ?q1 else ?q1"
    have n: "(peek ?q = NOT_CHAR) = neg" using es(1,4) by (simp add: peek_elem_start)
    have t: "(if neg then tl ?q else ?q) = ?q1" by simp
    have b: "\<not> (?q1 = [] \<or> RBRACKET \<notin> set (tl ?q1))" using es(1) by (cases e) simp_all
    note s = compile_set_print [OF es(2,3,5), folded es(1), of "print is"]
    obtain m where m: "compile (Some M_END) (print is) = Some (encode (collapse False is), m)"
      using IH [of "Some M_END"] by auto
    have "print (i # is) = LBRACKET # ?q" using Set by simp
    then show ?thesis unfolding Set using n t b s m by (auto simp: Let_def)
  qed
qed (auto intro: exI [of _ False])

text \<open>What the compiled form of a written pattern matches.\<close>

lemma plain_collapse: "\<forall>i \<in> set is. writable i \<Longrightarrow> \<forall>i \<in> set (collapse star is). plain i"
  by (induction star "is" rule: collapse.induct) (auto simp: inner_ok_def split: list.splits)

lemma compile_match:
  assumes "\<forall>i \<in> set is. writable i"
  shows "\<exists>pat m. compile None (print is) = Some (pat, m) \<and> (\<forall>name. match name pat 0 = Some (matches is name))"
proof -
  obtain m where m: "compile None (print is) = Some (encode (collapse False is), m)"
    using compile_print [OF assms, of None] by auto
  have "match name (encode (collapse False is)) 0 = Some (matches is name)" for name
    using match_encode [OF plain_collapse [OF assms], of name False "[]"] matches_collapse [of "is"] by simp
  then show ?thesis using m by blast
qed

end
