(* ===== verification/GlobSafe.thy ===== *)
theory GlobSafe
  imports GlobMatch
begin

text \<open>
  Safety and soundness of the walk. Every set in a compiled pattern is closed, in each of its
  suffixes, so \<open>match\<close> never leaves the pattern and the walk returns; and it only ever appends
  paths of files that exist.
\<close>

subsection \<open>Matching stays inside the pattern\<close>

definition set_body :: "Char list \<Rightarrow> Char list" where
  "set_body p = (if peek p = M_NOT then tl p else p)"

definition sets_closed :: "Char list \<Rightarrow> bool" where
  "sets_closed pat \<longleftrightarrow> (\<forall>ys zs k. pat = ys @ M_SET # zs \<longrightarrow> scan_set k False (set_body zs) \<noteq> None)"

lemma sets_closed_suffix: "sets_closed (ys @ zs) \<Longrightarrow> sets_closed zs"
  unfolding sets_closed_def by (metis append.assoc)

lemma sets_closed_Cons: "sets_closed (c # p) \<Longrightarrow> sets_closed p"
  using sets_closed_suffix [of "[c]" p] by simp

lemma sets_closedD: "sets_closed (M_SET # p) \<Longrightarrow> scan_set k False (set_body p) \<noteq> None"
  unfolding sets_closed_def by blast

lemma scan_set_suffix: "scan_set k ok p = Some (r, q) \<Longrightarrow> \<exists>ys. p = ys @ q"
proof (induction k ok p rule: scan_set.induct)
  case (2 k ok c p)
  show ?case
  proof (cases "c = M_END \<or> peek p \<noteq> M_RNG")
    case True
    then show ?thesis using 2 by (auto split: if_splits)
  next
    case False
    then obtain a e p' where p: "p = a # e # p'"
      using 2(3) by (auto split: list.splits)
    then obtain ys where "p' = ys @ q" using False 2 by auto
    then show ?thesis using p by (intro exI [of _ "c # a # e # ys"]) simp
  qed
qed simp

lemma set_body_suffix: "\<exists>ys. p = ys @ set_body p"
  by (cases p) (auto simp: set_body_def)

lemma match_star_total: "(\<And>n. match n pat rest \<noteq> None) \<Longrightarrow> match_star name pat rest \<noteq> None"
proof (induction name)
  case Nil
  then show ?case using Nil [of "[]"] by (auto split: option.splits bool.splits)
next
  case (Cons x name)
  then show ?case using Cons(2) [of "x # name"] by (auto split: option.splits bool.splits)
qed

lemma match_total: "sets_closed pat \<Longrightarrow> match name pat rest \<noteq> None"
proof (induction "length pat" arbitrary: name pat rule: less_induct)
  case less
  show ?case
  proof (cases pat)
    case (Cons c p)
    have IH: "match n q rest \<noteq> None" if suffix: "\<exists>ys. p = ys @ q" for n q
    proof -
      obtain ys where p: "p = ys @ q" using suffix by blast
      then have "sets_closed q" using less(2) Cons sets_closed_suffix [of "c # ys" q] by simp
      then show ?thesis using p Cons by (intro less(1)) simp_all
    qed
    consider "c = M_ALL" | "c = M_SET" | "c \<noteq> M_ALL" "c \<noteq> M_SET" by blast
    then show ?thesis
    proof cases
      case 1
      then show ?thesis using Cons match_star_total [of p rest] IH by auto
    next
      case 2
      then have s: "scan_set k False (set_body p) \<noteq> None" for k using less(2) Cons sets_closedD by blast
      have m: "match n q rest \<noteq> None" if "scan_set k False (set_body p) = Some (ok, q)" for n k ok q
        using scan_set_suffix [OF that] set_body_suffix [of p] IH by (metis append.assoc)
      then show ?thesis using 2 Cons
      proof (cases name)
        case (Cons k n)
        obtain ok q where "scan_set k False (set_body p) = Some (ok, q)" using s [of k] by auto
        then show ?thesis using m [of k ok q n] 2 Cons \<open>pat = c # p\<close> by (auto simp: Let_def set_body_def)
      qed auto
    next
      case 3
      then show ?thesis using Cons IH [of p] by (auto split: list.splits)
    qed
  qed simp
qed

lemma elems_no_set: "\<forall>e \<in> set es. plain_elem e \<Longrightarrow> M_SET \<notin> set (concat (map encode_elem es))"
proof (induction es)
  case (Cons e es)
  then show ?case by (cases e) (auto simp: plain_not_meta metas_distinct glob_metas glob_chars)
qed simp

lemma set_body_elems: "\<forall>e \<in> set es. plain_elem e \<Longrightarrow>
  set_body ((if neg then [M_NOT] else []) @ concat (map encode_elem es) @ M_END # r) = concat (map encode_elem es) @ M_END # r"
  using peek_elems [of es r] by (simp add: set_body_def)

lemma sets_closed_skip: "\<lbrakk>sets_closed p; M_SET \<notin> set xs\<rbrakk> \<Longrightarrow> sets_closed (xs @ p)"
  unfolding sets_closed_def
proof (intro allI impI)
  fix ys zs k
  assume "\<forall>ys zs k. p = ys @ M_SET # zs \<longrightarrow> scan_set k False (set_body zs) \<noteq> None" "M_SET \<notin> set xs"
    "xs @ p = ys @ M_SET # zs"
  then show "scan_set k False (set_body zs) \<noteq> None"
    by (fastforce simp: append_eq_append_conv2 append_eq_Cons_conv)
qed

lemma sets_closed_encode: "\<forall>i \<in> set is. plain i \<Longrightarrow> sets_closed (encode is)"
proof (induction "is")
  case Nil
  then show ?case by (simp add: sets_closed_def)
next
  case (Cons i "is")
  then have IH: "sets_closed (encode is)" by simp
  show ?case
  proof (cases i)
    case (Set neg es)
    then have es: "\<forall>e \<in> set es. plain_elem e" using Cons by simp
    let ?p = "((if neg then [M_NOT] else []) @ concat (map encode_elem es) @ [M_END]) @ encode is"
    have "sets_closed ?p"
      using elems_no_set [OF es] IH by (intro sets_closed_skip) (auto simp: glob_metas glob_chars)
    moreover have "scan_set k False (set_body ?p) \<noteq> None" for k
      using set_body_elems [OF es, of neg "encode is"] scan_set_encode [OF es, of k False "encode is"] by simp
    ultimately have "sets_closed (M_SET # ?p)"
      unfolding sets_closed_def by (auto simp: Cons_eq_append_conv)
    then show ?thesis using Set by simp
  next
    case (Lit c)
    then have "c \<noteq> M_SET" using Cons by (auto dest: plain_not_meta(3))
    then have "M_SET \<notin> set [c]" by simp
    then show ?thesis using sets_closed_skip [OF IH, of "[c]"] Lit by simp
  qed (use sets_closed_skip [OF IH, of "[M_ONE]"] sets_closed_skip [OF IH, of "[M_ALL]"] in simp_all)
qed

subsection \<open>The walk returns\<close>

lemma glob_end_total: "\<lbrakk>sys_lstat env [] = None; length path < MAXPATHLEN env\<rbrakk> \<Longrightarrow> glob_end env path g \<noteq> None"
  by (cases path)
    (auto simp: glob_end_def g_lstat_def g_Ctoc_def last_opt_def in_buffer_def split: option.split)

text \<open>The outcomes of one directory entry.\<close>

abbreviation hidden :: "byte list \<Rightarrow> Char list \<Rightarrow> bool" where
  "hidden name pat \<equiv> peek (map ucast name) = DOT \<and> peek pat \<noteq> DOT"

abbreviation overlong :: "glob_env \<Rightarrow> Char list \<Rightarrow> byte list \<Rightarrow> bool" where
  "overlong env path name \<equiv> MAXPATHLEN env - 1 \<le> length path + length name + 1"

lemma name_fits: "\<not> overlong env path name \<Longrightarrow> in_buffer env (length path + length name + 1) x = x"
  by simp

lemma glob3_entries_skip: "hidden name (seg @ rest) \<Longrightarrow>
  glob3_entries env path seg rest (name # names) g = glob3_entries env path seg rest names g"
  by simp

lemma glob3_entries_overlong: "\<lbrakk>\<not> hidden name (seg @ rest); overlong env path name\<rbrakk> \<Longrightarrow>
  glob3_entries env path seg rest (name # names) g = Some (1, g)"
  by (simp only: glob3_entries.simps if_False if_True)

lemma glob3_entries_no:
  "\<lbrakk>\<not> hidden name (seg @ rest); \<not> overlong env path name; match (map ucast name) (seg @ rest) (length rest) = Some False\<rbrakk> \<Longrightarrow>
   glob3_entries env path seg rest (name # names) g = glob3_entries env path seg rest names g"
proof -
  assume a: "\<not> hidden name (seg @ rest)" "\<not> overlong env path name" "match (map ucast name) (seg @ rest) (length rest) = Some False"
  show ?thesis by (simp only: glob3_entries.simps a if_False option.case bool.case name_fits [OF a(2)])
qed

lemma glob3_entries_yes:
  "\<lbrakk>\<not> hidden name (seg @ rest); \<not> overlong env path name; match (map ucast name) (seg @ rest) (length rest) = Some True\<rbrakk> \<Longrightarrow>
   glob3_entries env path seg rest (name # names) g = do {
     (err, g') \<leftarrow> glob2 env (path @ map ucast name) rest g;
     (if err \<noteq> 0 then Some (err, g') else glob3_entries env path seg rest names g') }"
  by (cases "glob2 env (path @ map ucast name) rest g") (auto simp: name_fits simp del: split_paired_Ex)

lemma entry_cases [case_names skip overlong undef no yes]:
  "\<lbrakk>hidden name (seg @ rest) \<Longrightarrow> thesis;
    \<lbrakk>\<not> hidden name (seg @ rest); overlong env path name\<rbrakk> \<Longrightarrow> thesis;
    \<lbrakk>\<not> hidden name (seg @ rest); match (map ucast name) (seg @ rest) (length rest) = None\<rbrakk> \<Longrightarrow> thesis;
    \<lbrakk>\<not> hidden name (seg @ rest); \<not> overlong env path name; match (map ucast name) (seg @ rest) (length rest) = Some False\<rbrakk> \<Longrightarrow> thesis;
    \<lbrakk>\<not> hidden name (seg @ rest); \<not> overlong env path name; match (map ucast name) (seg @ rest) (length rest) = Some True\<rbrakk> \<Longrightarrow> thesis\<rbrakk>
   \<Longrightarrow> thesis"
  by (cases "match (map ucast name) (seg @ rest) (length rest)") (metis (full_types))+

lemma glob2_total:
  assumes "sys_lstat env [] = None"
  shows "\<lbrakk>sets_closed pattern; length path < MAXPATHLEN env\<rbrakk> \<Longrightarrow> glob2 env path pattern g \<noteq> None"
    and "\<lbrakk>sets_closed (seg @ rest); 0 < MAXPATHLEN env\<rbrakk> \<Longrightarrow> glob3 env path' seg rest g' \<noteq> None"
    and "\<lbrakk>sets_closed (seg' @ rest'); 0 < MAXPATHLEN env\<rbrakk> \<Longrightarrow> glob3_entries env path'' seg' rest' names g'' \<noteq> None"
  using assms
proof (induction env path pattern g and env path' seg rest g' and env path'' seg' rest' names g''
    rule: glob2_glob3_glob3_entries.induct)
  case (1 env path pattern g)
  have "sets_closed (dropWhile (IS_SLASH env) (behind env pattern))"
    using "1.prems"(1) sets_closed_suffix segment_behind takeWhile_dropWhile_id by metis
  then show ?case using 1 glob_end_total segment_behind [of env pattern] by (simp add: glob2.simps [of env path] Let_def)
next
  case (2 env path seg rest g)
  then show ?case by (auto simp: glob3.simps split: option.splits)
next
  case (4 env path seg rest name names g)
  have r: "sets_closed rest" using "4.prems"(1) sets_closed_suffix by blast
  show ?case
  proof (rule entry_cases [of name seg rest _ env path])
    assume "hidden name (seg @ rest)"
    then show ?thesis using "4.IH"(1) "4.prems" glob3_entries_skip by metis
  next
    assume "\<not> hidden name (seg @ rest)" "overlong env path name"
    then show ?thesis using glob3_entries_overlong by (metis option.simps(3))
  next
    assume "match (map ucast name) (seg @ rest) (length rest) = None"
    then show ?thesis using match_total [OF "4.prems"(1)] by metis
  next
    assume no: "\<not> hidden name (seg @ rest)" "\<not> overlong env path name"
      "match (map ucast name) (seg @ rest) (length rest) = Some False"
    then show ?thesis using "4.IH"(4) [OF no refl] "4.prems" glob3_entries_no [OF no] by metis
  next
    assume yes: "\<not> hidden name (seg @ rest)" "\<not> overlong env path name"
      "match (map ucast name) (seg @ rest) (length rest) = Some True"
    have len: "length (path @ map ucast name) < MAXPATHLEN env" using yes(2) by simp
    obtain err g' where g': "glob2 env (path @ map ucast name) rest g = Some (err, g')"
      using "4.IH"(2) [OF yes refl r len "4.prems"(3)] by auto
    then show ?thesis
      using "4.IH"(3) [OF yes refl g' refl _ "4.prems"] glob3_entries_yes [OF yes, of names g] by simp
  qed
qed simp

lemma bind_total: "\<lbrakk>x \<noteq> None; \<And>y. x = Some y \<Longrightarrow> f y \<noteq> None\<rbrakk> \<Longrightarrow> Option.bind x f \<noteq> None"
  by (cases x) auto

lemma globtilde_length: "length pattern < MAXPATHLEN env \<Longrightarrow> length (globtilde env pattern g) < MAXPATHLEN env"
  by (auto simp: globtilde_def copy_home_def Let_def split: option.split)

lemma glob0_total:
  assumes "sys_lstat env [] = None" "length pattern < MAXPATHLEN env"
  shows "glob0 env pattern g \<noteq> None"
proof -
  obtain "is" m where c: "compile None (globtilde env pattern g) = Some (encode is, m)" "\<forall>i \<in> set is. plain i"
      "length (encode is) \<le> length (globtilde env pattern g)"
    using compile_total by blast
  let ?g = "g\<lparr>gl_flags := (if m then gl_flags g OR GLOB_MAGCHAR else gl_flags g), gl_limit := 0\<rparr>"
  have len: "length (encode is) + 1 \<le> MAXPATHLEN env" using c(3) globtilde_length [OF assms(2), of g] by linarith
  have "length ([] :: Char list) < MAXPATHLEN env" using assms(2) by simp
  then have "glob2 env [] (encode is) ?g \<noteq> None" by (rule glob2_total(1) [OF assms(1) sets_closed_encode [OF c(2)]])
  then have "glob1 env (encode is) ?g \<noteq> None" by (simp add: glob1_def)
  then obtain err g1 where "glob1 env (encode is) ?g = Some (err, g1)" by auto
  then show ?thesis using c(1) len by (simp add: glob0_def Let_def)
qed

lemma fold_bind_total:
  "(\<And>a g. a \<in> set as \<Longrightarrow> f a g \<noteq> None) \<Longrightarrow> fold (\<lambda>a r. Option.bind r (\<lambda>g. map_option snd (f a g))) as (Some g) \<noteq> None"
proof (induction as arbitrary: g)
  case (Cons a as)
  obtain r where "f a g = Some r" using Cons(2) [of a g] by auto
  then show ?case using Cons(1) [of "snd r"] Cons(2) by simp
qed simp

lemma globexp1_total: "\<lbrakk>sys_lstat env [] = None; length pattern < MAXPATHLEN env\<rbrakk> \<Longrightarrow> globexp1 env pattern g \<noteq> None"
proof (induction env pattern g rule: globexp1.induct)
  case (1 env pattern g)
  show ?case
  proof (cases "protected_braces pattern \<or> LBRACE \<notin> set pattern")
    case False
    let ?before = "takeWhile (\<lambda>c. c \<noteq> LBRACE) pattern"
    let ?p = "drop (Suc (length ?before)) pattern"
    have before: "length ?before < length pattern" using before_brace False by blast
    show ?thesis
    proof (cases "find_brace ?p 0 0")
      case (Some pe)
      have "in_buffer env (length a + 1) (globexp1 env a g) \<noteq> None" if a: "a \<in> set (alternatives ?before ?p pe 0 0 0)" for a g
      proof -
        have "length a \<le> length ?before + length ?p - 1" by (rule alternatives_shorter [OF a find_brace_less [OF Some]])
        then have "length a < MAXPATHLEN env" using before 1(3) by simp
        then show ?thesis using 1(1) [OF False refl refl Some a refl 1(2)] by simp
      qed
      then have "fold (\<lambda>a r. Option.bind r (\<lambda>g. map_option snd (in_buffer env (length a + 1) (globexp1 env a g)))) (alternatives ?before ?p pe 0 0 0) (Some g) \<noteq> None"
        by (rule fold_bind_total)
      then show ?thesis using False Some by (auto simp: globexp1.simps [of env pattern] Let_def)
    next
      case None
      have "length ?before < MAXPATHLEN env" using before 1(3) by simp
      then show ?thesis using False None glob0_total [OF 1(2), of ?before g] by (auto simp: globexp1.simps [of env pattern] Let_def)
    qed
  qed (use 1(2,3) glob0_total in \<open>simp add: globexp1.simps [of env pattern]\<close>)
qed

lemma copy_pattern_length: "0 < MAXPATHLEN env \<Longrightarrow> length (copy_pattern env flags pattern) < MAXPATHLEN env"
proof -
  assume m: "0 < MAXPATHLEN env"
  have "length (protect n p) \<le> n" for n p by (induction n p rule: protect.induct) (auto split: list.split)
  then have "length (protect (MAXPATHLEN env - 1) pattern) \<le> MAXPATHLEN env - 1" .
  then show ?thesis using m unfolding copy_pattern_def by (auto intro: le_less_trans)
qed

end
