(* ===== verification/GlobWalk.thy ===== *)
theory GlobWalk
  imports GlobSafe
begin

text \<open>
  What the walk adds to the result: paths of existing files only, in the order of \<open>strcmp\<close>. A
  pattern without separators yields exactly the names of the directory it matches.
\<close>

subsection \<open>Invariants of the walk\<close>

lemma walk_invariant:
  assumes I_refl: "\<And>g. I g g" and I_trans: "\<And>a b c. \<lbrakk>I a b; I b c\<rbrakk> \<Longrightarrow> I a c"
    and step: "\<And>path g err g'. glob_end env path g = Some (err, g') \<Longrightarrow> I g g'"
  shows "glob2 env path pattern g = Some (err, g') \<Longrightarrow> I g g'"
    and "glob3 env path' seg rest g1 = Some (err, g') \<Longrightarrow> I g1 g'"
    and "glob3_entries env path'' seg' rest' names g2 = Some (err, g') \<Longrightarrow> I g2 g'"
  using step
proof (induction env path pattern g and env path' seg rest g1 and env path'' seg' rest' names g2
    arbitrary: err g' and err g' and err g' rule: glob2_glob3_glob3_entries.induct)
  case (1 env path pattern g)
  then show ?case using I_refl by (auto simp: glob2.simps [of env path pattern] Let_def split: if_splits)
next
  case (2 env path seg rest g)
  then show ?case using I_refl by (auto simp: glob3.simps split: option.splits if_splits)
next
  case (3 env path seg rest g)
  then show ?case using I_refl by simp
next
  case (4 env path seg rest name names g)
  show ?case
  proof (rule entry_cases [of name seg rest _ env path])
    assume "hidden name (seg @ rest)"
    then show ?thesis using "4.IH"(1) "4.prems" glob3_entries_skip by metis
  next
    assume "\<not> hidden name (seg @ rest)" "overlong env path name"
    then have "g' = g" using glob3_entries_overlong "4.prems"(1) by (metis option.inject prod.inject)
    then show ?thesis using I_refl by simp
  next
    assume "\<not> hidden name (seg @ rest)" "match (map ucast name) (seg @ rest) (length rest) = None"
    then show ?thesis using "4.prems"(1) I_refl by (auto split: if_splits)
  next
    assume no: "\<not> hidden name (seg @ rest)" "\<not> overlong env path name"
      "match (map ucast name) (seg @ rest) (length rest) = Some False"
    then show ?thesis using "4.IH"(4) [OF no refl] "4.prems" glob3_entries_no [OF no] by metis
  next
    assume yes: "\<not> hidden name (seg @ rest)" "\<not> overlong env path name"
      "match (map ucast name) (seg @ rest) (length rest) = Some True"
    obtain e g1 where g1: "glob2 env (path @ map ucast name) rest g = Some (e, g1)"
      "(if e \<noteq> 0 then Some (e, g1) else glob3_entries env path seg rest names g1) = Some (err, g')"
      using "4.prems"(1) unfolding glob3_entries_yes [OF yes, of names g]
      by (cases "glob2 env (path @ map ucast name) rest g") (auto simp del: glob3_entries.simps)
    have I1: "I g g1" by (rule "4.IH"(2) [OF yes refl g1(1) "4.prems"(2)])
    show ?thesis
    proof (cases "e = 0")
      case True
      then have "\<not> e \<noteq> 0" "glob3_entries env path seg rest names g1 = Some (err, g')" using g1(2) by simp_all
      with "4.IH"(3) [OF yes refl g1(1) refl] "4.prems"(2) have "I g1 g'" by blast
      with I1 show ?thesis by (rule I_trans)
    qed (use g1(2) I1 in simp)
  qed
qed

text \<open>The result grows by paths of existing files; everything else but the counters stays.\<close>

definition found :: "glob_env \<Rightarrow> bool \<Rightarrow> byte list \<Rightarrow> bool" where
  "found env mark p \<longleftrightarrow> sys_lstat env p \<noteq> None \<or>
     mark \<and> (\<exists>q. p = q @ [ucast (SEP env)] \<and> (sys_lstat env q = Some Directory \<or>
       sys_lstat env q = Some Symlink \<and> sys_stat env q = Some Directory))"

definition grows :: "glob_env \<Rightarrow> glob_t \<Rightarrow> glob_t \<Rightarrow> bool" where
  "grows env g g' \<longleftrightarrow> gl_flags g' = gl_flags g \<and> gl_offs g' = gl_offs g \<and> gl_errfunc g' = gl_errfunc g \<and>
     (\<exists>ps. gl_pathv g' = gl_pathv g @ ps \<and> (\<forall>p \<in> set ps. found env (has g GLOB_MARK) p \<and> 0 \<notin> set p))"

lemma grows_refl: "grows env g g"
  by (simp add: grows_def)

lemma grows_trans: "\<lbrakk>grows env a b; grows env b c\<rbrakk> \<Longrightarrow> grows env a c"
  unfolding grows_def has_def by (metis append.assoc Un_iff set_append)

definition bytes_of :: "Char list \<Rightarrow> byte list" where
  "bytes_of path = takeWhile (\<lambda>b. b \<noteq> 0) (map ucast path)"

lemma g_Ctoc_bytes: "g_Ctoc path len = (if length (bytes_of path) < len then Some (bytes_of path) else None)"
  by (simp add: g_Ctoc_def bytes_of_def Let_def)

lemma bytes_of_le: "length (bytes_of path) \<le> length path"
  unfolding bytes_of_def using length_takeWhile_le [of "\<lambda>b. b \<noteq> 0" "map ucast path :: byte list"] by simp

lemma bytes_of_nul_free [simp]: "0 \<notin> set (bytes_of path)"
  by (auto simp: bytes_of_def dest: set_takeWhileD)

lemma globextend_ok:
  "globextend env path g = (err, g') \<Longrightarrow> gl_pathv g' = gl_pathv g @ [bytes_of path] \<and> gl_flags g' = gl_flags g \<and>
     gl_offs g' = gl_offs g \<and> gl_errfunc g' = gl_errfunc g \<and> gl_matchc g' = gl_matchc g"
  using bytes_of_le [of path] by (auto simp: globextend_def g_Ctoc_bytes Let_def split: if_splits)

lemma bytes_of_snoc: "bytes_of (path @ [c]) =
   (if 0 \<in> set (map ucast path :: byte list) \<or> ucast c = (0 :: byte) then bytes_of path else bytes_of path @ [ucast c])"
  by (auto simp: bytes_of_def takeWhile_append intro!: takeWhile_eq_all_conv [THEN iffD2, symmetric])

lemma glob_end_grows: "glob_end env path g = Some (err, g') \<Longrightarrow> grows env g g'"
proof -
  assume e: "glob_end env path g = Some (err, g')"
  show ?thesis
  proof (cases "g_lstat env path")
    case None
    then show ?thesis using e grows_refl by (simp add: glob_end_def)
  next
    case (Some kind)
    then have l: "sys_lstat env (bytes_of path) = Some kind"
      by (auto simp: g_lstat_def g_Ctoc_bytes bind_eq_Some_iff split: if_splits)
    obtain mark where m: "(if has g GLOB_MARK
          then map_option (\<lambda>c. \<not> IS_SLASH env c \<and>
            (kind = Directory \<or> kind = Symlink \<and> g_stat env path = Some Directory)) (last_opt path)
          else Some False) = Some mark"
      and r0: "(if mark \<and> length path + 1 > MAXPATHLEN env - 1 then Some (1, g)
         else in_buffer env (length path + (if mark then 2 else 1))
           (Some (globextend env (if mark then path @ [SEP env] else path) (g\<lparr>gl_matchc := gl_matchc g + 1\<rparr>)))) = Some (err, g')"
      using e Some unfolding glob_end_def by (auto simp: bind_eq_Some_iff simp del: if_split in_buffer_simps)
    have r: "(if mark \<and> length path + 1 > MAXPATHLEN env - 1 then Some (1, g)
         else Some (globextend env (if mark then path @ [SEP env] else path) (g\<lparr>gl_matchc := gl_matchc g + 1\<rparr>))) = Some (err, g')"
      using r0 by (simp only: in_buffer_simps(2) if_split_eq1 split: if_split_asm) (simp_all add: in_buffer_def split: if_splits)
    have "mark \<Longrightarrow> has g GLOB_MARK \<and> (kind = Directory \<or> kind = Symlink \<and> sys_stat env (bytes_of path) = Some Directory)"
      using m by (auto simp: g_stat_def g_Ctoc_bytes bind_eq_Some_iff split: if_splits)
    then have "found env (has g GLOB_MARK) (bytes_of (if mark then path @ [SEP env] else path))"
      using l by (auto simp: found_def bytes_of_snoc)
    then show ?thesis
      using r grows_refl globextend_ok [of env "if mark then path @ [SEP env] else path" "g\<lparr>gl_matchc := gl_matchc g + 1\<rparr>" err g']
      by (auto simp: grows_def split: if_splits)
  qed
qed

lemmas walk_grows = walk_invariant [of "grows env" for env, OF grows_refl grows_trans glob_end_grows]

lemma glob1_grows: "glob1 env pattern g = Some (err, g') \<Longrightarrow> grows env g g'"
  using walk_grows(1) grows_refl by (auto simp: glob1_def split: if_splits)

subsection \<open>The order of the result\<close>

lemma insert_path_set [simp]: "set (insert_path p qs) = insert p (set qs)"
  by (induction qs) auto

lemma sort_paths_set [simp]: "set (sort_paths ps) = set ps"
  unfolding sort_paths_def by (induction ps) auto

lemma sort_paths_length [simp]: "length (sort_paths ps) = length ps"
proof -
  have "length (insert_path p qs) = Suc (length qs)" for p qs by (induction qs) auto
  then show ?thesis unfolding sort_paths_def by (induction ps) auto
qed

text \<open>The order of \<open>strcmp\<close> is total, and only equal strings compare as equal.\<close>

lemma strcmp_refl [simp]: "strcmp p p = 0"
  by (induction p) auto

lemma byte_bounds: "0 \<le> uint (x :: byte)" "uint x < 256"
  by (simp_all add: uint_lt2p [of x, simplified])

lemma strcmp_total: "strcmp p q \<le> 0 \<or> strcmp q p \<le> 0"
  by (induction p q rule: strcmp.induct) (auto simp: byte_bounds)

lemma strcmp_trans:
  assumes "0 \<notin> set p" "0 \<notin> set q" "strcmp p q \<le> 0" "strcmp q r \<le> 0"
  shows "strcmp p r \<le> 0"
  using assms
proof (induction p r arbitrary: q rule: strcmp.induct)
  case (3 x xs)
  then show ?case
  proof (cases q)
    case (Cons y ys)
    then have "0 < uint y" using 3 by (auto simp: word_neq_0_conv [symmetric] uint_0_iff less_le)
    then show ?thesis using 3 Cons by simp
  next
    case Nil
    have "0 < uint x" using 3 by (auto simp: uint_0_iff less_le)
    then show ?thesis using 3 Nil by simp
  qed
next
  case (4 x xs z zs)
  show ?case
  proof (cases q)
    case (Cons y ys)
    have xy: "uint x \<le> uint y" using "4.prems"(3) unfolding Cons by (cases "x = y") simp_all
    have yz: "uint y \<le> uint z" using "4.prems"(4) unfolding Cons by (cases "y = z") simp_all
    show ?thesis
    proof (cases "x = z")
      case True
      then have "y = z" using xy yz by (simp add: word_uint_eq_iff)
      then show ?thesis using True "4.IH" [OF True, of ys] "4.prems" unfolding Cons by simp
    qed (use xy yz in simp)
  next
    case Nil
    have "0 < uint x" using "4.prems"(1) by (auto simp: uint_0_iff less_le)
    then show ?thesis using "4.prems"(3) Nil by simp
  qed
qed (auto simp: byte_bounds)

abbreviation path_sorted :: "byte list list \<Rightarrow> bool" where
  "path_sorted \<equiv> sorted_wrt (\<lambda>p q. strcmp p q \<le> 0)"

lemma insert_path_sorted:
  "\<lbrakk>path_sorted qs; 0 \<notin> set p; \<forall>q \<in> set qs. 0 \<notin> set q\<rbrakk> \<Longrightarrow> path_sorted (insert_path p qs)"
proof (induction qs)
  case (Cons q qs)
  then show ?case using strcmp_trans [of p q] strcmp_total [of p q] by auto
qed simp

lemma sort_paths_sorted: "\<forall>p \<in> set ps. 0 \<notin> set p \<Longrightarrow> path_sorted (sort_paths ps)"
proof (induction ps)
  case (Cons p ps)
  then show ?case
    using insert_path_sorted [of "sort_paths ps" p] by (simp add: sort_paths_def [of "p # ps"] sort_paths_def [of ps, symmetric])
qed (simp add: sort_paths_def)

subsection \<open>One pattern\<close>

lemma flag_or [simp]: "\<lbrakk>f AND GLOB_MAGCHAR = 0\<rbrakk> \<Longrightarrow> (x OR GLOB_MAGCHAR) AND f = x AND f"
  by (simp add: word_bw_comms bit.conj_disj_distrib)

lemma flag_magchar [simp]:
  "GLOB_MARK AND GLOB_MAGCHAR = 0" "GLOB_NOCHECK AND GLOB_MAGCHAR = 0" "GLOB_NOSORT AND GLOB_MAGCHAR = 0"
  "GLOB_NOMAGIC AND GLOB_MAGCHAR = 0" "GLOB_LIMIT AND GLOB_MAGCHAR = 0" "GLOB_TILDE AND GLOB_MAGCHAR = 0"
  "GLOB_BRACE AND GLOB_MAGCHAR = 0" "GLOB_APPEND AND GLOB_MAGCHAR = 0" "GLOB_ERR AND GLOB_MAGCHAR = 0"
  by (simp_all add: GLOB_MARK_def GLOB_NOCHECK_def GLOB_NOSORT_def GLOB_NOMAGIC_def GLOB_LIMIT_def
      GLOB_TILDE_def GLOB_BRACE_def GLOB_APPEND_def GLOB_ERR_def GLOB_MAGCHAR_def)

text \<open>What \<open>glob0\<close> adds, when the pattern itself cannot be returned.\<close>

definition keeps :: "glob_t \<Rightarrow> glob_t \<Rightarrow> bool" where
  "keeps g g' \<longleftrightarrow> (\<forall>f. f AND GLOB_MAGCHAR = 0 \<longrightarrow> gl_flags g' AND f = gl_flags g AND f)"

lemma keeps_has: "\<lbrakk>keeps g g'; f AND GLOB_MAGCHAR = 0\<rbrakk> \<Longrightarrow> has g' f = has g f"
  by (simp add: keeps_def has_def)

lemma glob0_adds:
  assumes "glob0 env pattern g = Some (err, g')" "\<not> has g GLOB_NOCHECK" "\<not> has g GLOB_NOMAGIC"
  shows "keeps g g' \<and> (\<exists>ps. gl_pathv g' = gl_pathv g @ ps \<and>
    (\<forall>p \<in> set ps. found env (has g GLOB_MARK) p \<and> 0 \<notin> set p) \<and> (err = 0 \<longrightarrow> has g GLOB_NOSORT \<or> path_sorted ps))"
proof -
  obtain pat m where c: "compile None (globtilde env pattern g) = Some (pat, m)"
    using assms(1) by (auto simp: glob0_def Let_def bind_eq_Some_iff)
  let ?g = "g\<lparr>gl_flags := (if m then gl_flags g OR GLOB_MAGCHAR else gl_flags g), gl_limit := 0\<rparr>"
  obtain e g1 where g1: "glob1 env pat ?g = Some (e, g1)"
    using assms(1) c by (auto simp: glob0_def Let_def bind_eq_Some_iff)
  have "grows env ?g g1" using glob1_grows [OF g1] .
  then obtain ps where ps: "gl_pathv g1 = gl_pathv g @ ps" "gl_flags g1 = gl_flags ?g"
    "\<forall>p \<in> set ps. found env (has ?g GLOB_MARK) p \<and> 0 \<notin> set p"
    by (auto simp: grows_def)
  have k: "keeps g g1" using ps(2) by (auto simp: keeps_def)
  have n: "\<not> has g1 GLOB_NOCHECK" "\<not> has g1 GLOB_NOMAGIC" "has ?g GLOB_MARK = has g GLOB_MARK"
    "has g1 GLOB_NOSORT = has g GLOB_NOSORT"
    using keeps_has [OF k] assms(2,3) by (simp_all add: has_def)
  consider "e \<noteq> 0" "(err, g') = (e, g1)" | "e = 0" "ps = []" "(err, g') = (GLOB_NOMATCH, g1)"
    | "e = 0" "has g GLOB_NOSORT" "(err, g') = (0, g1)"
    | "e = 0" "(err, g') = (0, g1\<lparr>gl_pathv := gl_pathv g @ sort_paths ps\<rparr>)"
    using assms(1) c g1 n ps(1) by (auto simp: glob0_def Let_def bind_eq_Some_iff split: if_splits)
  then show ?thesis
  proof cases
    case 4
    then show ?thesis using k ps(3) n(3) sort_paths_sorted [of ps] by (auto simp: keeps_def)
  qed (use k ps n in \<open>auto simp: GLOB_NOMATCH_def\<close>)
qed

lemma fold_bind_invariant:
  assumes "fold (\<lambda>a r. Option.bind r (\<lambda>g. map_option snd (f a g))) as (Some g) = Some g'"
    and "\<And>a g err g'. \<lbrakk>a \<in> set as; f a g = Some (err, g'); J g\<rbrakk> \<Longrightarrow> J g'" and "J g"
  shows "J g'"
  using assms
proof (induction as arbitrary: g)
  case (Cons a as)
  show ?case
  proof (cases "f a g")
    case None
    have "fold (\<lambda>a r. Option.bind r (\<lambda>g. map_option snd (f a g))) as None = None" by (induction as) auto
    then show ?thesis using None Cons(2) by simp
  next
    case (Some r)
    have "J (snd r)" using Cons.prems(2) [of a g "fst r" "snd r"] Cons.prems(3) Some by simp
    moreover have "fold (\<lambda>a r. Option.bind r (\<lambda>g. map_option snd (f a g))) as (Some (snd r)) = Some g'"
      using Cons.prems(1) Some by simp
    ultimately show ?thesis
    proof (intro Cons.IH [of "snd r"])
      fix b h err h'
      assume "b \<in> set as" "f b h = Some (err, h')" "J h"
      then show "J h'" using Cons.prems(2) [of b h err h'] by simp
    qed
  qed
qed simp

text \<open>Braces: every alternative adds to the same result.\<close>

definition adds_found :: "glob_env \<Rightarrow> glob_t \<Rightarrow> glob_t \<Rightarrow> bool" where
  "adds_found env g g' \<longleftrightarrow> keeps g g' \<and>
     (\<exists>ps. gl_pathv g' = gl_pathv g @ ps \<and> (\<forall>p \<in> set ps. found env (has g GLOB_MARK) p \<and> 0 \<notin> set p))"

lemma adds_found_refl: "adds_found env g g"
  by (simp add: adds_found_def keeps_def)

lemma adds_found_trans: "\<lbrakk>adds_found env a b; adds_found env b c\<rbrakk> \<Longrightarrow> adds_found env a c"
proof -
  assume ab: "adds_found env a b" and bc: "adds_found env b c"
  have m: "has b GLOB_MARK = has a GLOB_MARK" using ab keeps_has by (auto simp: adds_found_def)
  have k: "keeps a c" using ab bc by (simp add: adds_found_def keeps_def)
  obtain ps where ps: "gl_pathv b = gl_pathv a @ ps" "\<forall>p \<in> set ps. found env (has a GLOB_MARK) p \<and> 0 \<notin> set p"
    using ab by (auto simp: adds_found_def)
  obtain qs where qs: "gl_pathv c = gl_pathv b @ qs" "\<forall>p \<in> set qs. found env (has a GLOB_MARK) p \<and> 0 \<notin> set p"
    using bc m by (auto simp: adds_found_def)
  have "gl_pathv c = gl_pathv a @ ps @ qs" "\<forall>p \<in> set (ps @ qs). found env (has a GLOB_MARK) p \<and> 0 \<notin> set p"
    using ps qs by auto
  with k show ?thesis unfolding adds_found_def by blast
qed

lemma adds_found_has: "\<lbrakk>adds_found env g g'; f AND GLOB_MAGCHAR = 0\<rbrakk> \<Longrightarrow> has g' f = has g f"
  by (simp add: adds_found_def keeps_has)

lemma glob0_adds_found:
  "\<lbrakk>glob0 env pattern g = Some (err, g'); \<not> has g GLOB_NOCHECK; \<not> has g GLOB_NOMAGIC\<rbrakk> \<Longrightarrow> adds_found env g g'"
  using glob0_adds [of env pattern g err g'] unfolding adds_found_def by blast

lemma globexp1_adds_found:
  "\<lbrakk>globexp1 env pattern g = Some (err, g'); \<not> has g GLOB_NOCHECK; \<not> has g GLOB_NOMAGIC\<rbrakk> \<Longrightarrow> adds_found env g g'"
proof (induction env pattern g arbitrary: err g' rule: globexp1.induct)
  case (1 env pattern g)
  let ?before = "takeWhile (\<lambda>c. c \<noteq> LBRACE) pattern"
  let ?p = "drop (Suc (length ?before)) pattern"
  consider (plain) "protected_braces pattern \<or> LBRACE \<notin> set pattern"
    | (unmatched) "\<not> (protected_braces pattern \<or> LBRACE \<notin> set pattern)" "find_brace ?p 0 0 = None"
    | (braces) pe where "\<not> (protected_braces pattern \<or> LBRACE \<notin> set pattern)" "find_brace ?p 0 0 = Some pe"
    by (cases "find_brace ?p 0 0") auto
  then show ?case
  proof cases
    case plain
    then show ?thesis using "1.prems" glob0_adds_found by (simp add: globexp1.simps [of env pattern])
  next
    case unmatched
    then show ?thesis using "1.prems" glob0_adds_found [of env ?before g] by (simp add: globexp1.simps [of env pattern] Let_def)
  next
    case braces
    let ?as = "alternatives ?before ?p pe 0 0 0"
    have "fold (\<lambda>a r. Option.bind r (\<lambda>g. map_option snd (in_buffer env (length a + 1) (globexp1 env a g)))) ?as (Some g) = Some g'"
      using "1.prems"(1) braces by (auto simp: globexp1.simps [of env pattern] Let_def)
    moreover have "adds_found env g h'"
      if "a \<in> set ?as" "in_buffer env (length a + 1) (globexp1 env a h) = Some (e, h')" "adds_found env g h" for a h e h'
    proof -
      have "\<not> has h GLOB_NOCHECK" "\<not> has h GLOB_NOMAGIC"
        using adds_found_has [OF that(3)] "1.prems"(2,3) by simp_all
      then have "adds_found env h h'" using "1.IH" [OF braces(1) refl refl braces(2) that(1) refl] that(2) by fastforce
      with that(3) show ?thesis by (rule adds_found_trans)
    qed
    ultimately show ?thesis using adds_found_refl by (rule fold_bind_invariant)
  qed
qed

end
