(* ===== verification/GlobSpec.thy ===== *)
theory GlobSpec
  imports GlobWalk
begin

text \<open>
  The contract of \<open>glob\<close>: it always returns, every path it adds exists, and for a pattern without
  separators the result is the sorted list of the names of the current directory the pattern
  matches, in the sense of \<open>matches\<close>.
\<close>

subsection \<open>One directory\<close>

text \<open>A name a directory can hold, short enough for the path buffer.\<close>

definition good_name :: "glob_env \<Rightarrow> byte list \<Rightarrow> bool" where
  "good_name env n \<longleftrightarrow> 0 \<notin> set n \<and> n \<noteq> [] \<and> length n + 1 < MAXPATHLEN env - 1 \<and> sys_lstat env n \<noteq> None"

definition selected :: "item list \<Rightarrow> byte list list \<Rightarrow> byte list list" where
  "selected is names = filter (\<lambda>n. matches is (map ucast n) \<and> (hd n = 46 \<longrightarrow> is \<noteq> [] \<and> hd is = Lit DOT)) names"

lemma ucast_byte_Char [simp]: "(ucast (ucast (b :: byte) :: Char) :: byte) = b"
  by (rule bit_word_eqI) (simp add: bit_simps)

lemma ucast_byte_less [simp]: "(ucast (b :: byte) :: Char) < 0x100"
proof -
  have "unat b < 2 ^ 8" using unsigned_less [of b] by simp
  then show ?thesis by (simp add: word_less_nat_alt unsigned_ucast_eq take_bit_nat_eq_self)
qed

lemma bytes_of_name [simp]: "0 \<notin> set n \<Longrightarrow> bytes_of (map ucast n) = n"
  by (simp add: bytes_of_def comp_def takeWhile_eq_all_conv) (metis)

lemma good_nameD: "good_name env n \<Longrightarrow> g_Ctoc (map ucast n) (MAXPATHLEN env) = Some n"
  by (auto simp: good_name_def g_Ctoc_bytes)

lemma glob_end_name:
  assumes "good_name env n" "\<not> has g GLOB_MARK" "\<not> has g GLOB_LIMIT"
  shows "\<exists>g'. glob_end env (map ucast n) g = Some (0, g') \<and> gl_pathv g' = gl_pathv g @ [n] \<and>
    gl_flags g' = gl_flags g"
  using assms good_nameD [OF assms(1)]
  by (auto simp: glob_end_def g_lstat_def good_name_def globextend_def g_Ctoc_bytes Let_def has_def)

lemma glob2_end: "length path < MAXPATHLEN env \<Longrightarrow> glob2 env path [] g = glob_end env path g"
  by (simp add: glob2.simps)

lemma ucast_DOT: "(ucast (b :: byte) :: Char) = DOT \<longleftrightarrow> b = 46"
proof -
  have "DOT = ucast (46 :: byte)" by (simp add: DOT_def)
  then show ?thesis by (metis ucast_byte_Char)
qed

lemma glob3_entries_spec:
  assumes "\<forall>n \<in> set names. good_name env n" "\<And>n. match (map ucast n) seg 0 = Some (P n)"
    "\<not> has g GLOB_MARK" "\<not> has g GLOB_LIMIT"
  shows "\<exists>g'. glob3_entries env [] seg [] names g = Some (0, g') \<and>
    gl_pathv g' = gl_pathv g @ filter (\<lambda>n. P n \<and> (hd n = 46 \<longrightarrow> peek seg = DOT)) names \<and> gl_flags g' = gl_flags g"
  using assms(1,3,4)
proof (induction names arbitrary: g)
  case (Cons n names)
  have n: "good_name env n" "n \<noteq> []" "length n + 1 < MAXPATHLEN env - 1"
    using Cons.prems(1) by (auto simp: good_name_def)
  have h: "peek (map ucast n) = DOT \<longleftrightarrow> hd n = 46" using n(2) by (cases n) (simp_all add: ucast_DOT)
  have o: "\<not> overlong env [] n" using n(3) by simp
  show ?case
  proof (cases "hd n = 46 \<and> peek seg \<noteq> DOT")
    case True
    then show ?thesis using Cons h glob3_entries_skip [of n seg "[]" env "[]" names g] by simp
  next
    case visible: False
    then have v: "\<not> hidden n (seg @ [])" using h by simp
    have m: "match (map ucast n) (seg @ []) (length []) = Some (P n)" using assms(2) by simp
    show ?thesis
    proof (cases "P n")
      case False
      then show ?thesis using Cons m glob3_entries_no [OF v o, of names g] by simp
    next
      case True
      obtain g1 where g1: "glob_end env (map ucast n) g = Some (0, g1)" "gl_pathv g1 = gl_pathv g @ [n]" "gl_flags g1 = gl_flags g"
        using glob_end_name [OF n(1) Cons.prems(2,3)] by blast
      moreover obtain g' where "glob3_entries env [] seg [] names g1 = Some (0, g')"
        "gl_pathv g' = gl_pathv g1 @ filter (\<lambda>n. P n \<and> (hd n = 46 \<longrightarrow> peek seg = DOT)) names" "gl_flags g' = gl_flags g1"
        using Cons.IH [of g1] Cons.prems g1(3) by (auto simp: has_def)
      ultimately show ?thesis using True visible m glob3_entries_yes [OF v o, of names g] n(3) by (simp add: glob2_end)
    qed
  qed
qed simp

subsection \<open>A written pattern\<close>

definition pattern_text :: "item list \<Rightarrow> byte list" where
  "pattern_text is = map ucast (print is)"

lemma writable_bytes:
  assumes "\<forall>i \<in> set is. writable i"
  shows "\<forall>c \<in> set (print is). c < 0x100"
proof -
  have e: "\<forall>c \<in> set (print_elem e). c < 0x100" if "plain_elem e" for e
    using that by (cases e) (simp_all add: glob_chars)
  have "\<forall>c \<in> set (print_item i). c < 0x100" if w: "writable i" for i
  proof (cases i)
    case (Set neg es)
    then have "\<forall>e \<in> set es. plain_elem e" using w by (auto simp: inner_ok_def split: list.splits)
    then show ?thesis using e Set by (auto simp: glob_chars)
  qed (use w in \<open>auto simp: glob_chars\<close>)
  then show ?thesis using assms by (auto simp: print_def)
qed

lemma ucast_ucast_byte: "(c :: Char) < 0x100 \<Longrightarrow> (ucast (ucast c :: byte) :: Char) = c"
proof -
  assume "c < 0x100"
  have "(ucast (ucast c :: byte) :: Char) = take_bit 8 c" by (rule bit_word_eqI) (auto simp: bit_simps)
  also have "\<dots> = c" using CHAR_byte [OF \<open>c < 0x100\<close>] by (simp add: CHAR'_def M_ASCII_def take_bit_eq_mask mask_numeral)
  finally show ?thesis .
qed

lemma pattern_text_chars:
  assumes "\<forall>i \<in> set is. writable i"
  shows "map ucast (pattern_text is) = print is"
  using writable_bytes [OF assms] by (induction "print is") (auto simp: pattern_text_def ucast_ucast_byte map_idI)

lemma protect_plain: "QUOTE \<notin> set (map ucast p) \<Longrightarrow> protect n p = take n (map ucast p)"
  by (induction n p rule: protect.induct) auto

lemma copy_pattern_text:
  assumes "\<forall>i \<in> set is. writable i" "length (print is) < MAXPATHLEN env"
    "flags AND GLOB_NOESCAPE \<noteq> 0 \<or> QUOTE \<notin> set (print is)"
  shows "copy_pattern env flags (pattern_text is) = print is"
  using assms pattern_text_chars [OF assms(1)] protect_plain [of "pattern_text is"] by (auto simp: copy_pattern_def)

text \<open>The compiled form is no longer and brings no separator in.\<close>

lemma encode_elem_chars: "set (encode_elem e) \<subseteq> insert M_RNG (set (print_elem e))"
  by (cases e) auto

definition metas :: "Char set" where
  "metas = {M_ALL, M_END, M_NOT, M_ONE, M_RNG, M_SET}"

lemma encode_item_chars: "set (encode_item i) \<subseteq> metas \<union> set (print_item i)"
  using encode_elem_chars by (cases i) (fastforce simp: metas_def)+

lemma encode_collapse_chars: "set (encode (collapse star is)) \<subseteq> metas \<union> set (print is)"
proof (induction star "is" rule: collapse.induct)
  case (2 star "is")
  then show ?case by (cases star) (auto simp: metas_def)
qed (use encode_item_chars in \<open>auto simp del: encode_item.simps print_item.simps\<close>)

lemma encode_collapse_length: "length (encode (collapse star is)) \<le> length (print is)"
proof -
  have e: "length (encode_elem e) = length (print_elem e)" for e by (cases e) auto
  have "length (encode_item i) = length (print_item i)" for i
    by (cases i) (auto simp: length_concat comp_def e)
  then show ?thesis
  proof (induction star "is" rule: collapse.induct)
    case (2 star "is")
    then show ?case by auto
  qed (auto simp del: encode_item.simps print_item.simps)
qed

lemma metas_not_slash: "c \<in> metas \<Longrightarrow> \<not> IS_SLASH env c"
  by (auto simp: metas_def IS_SLASH_def glob_metas glob_chars)

lemma segment_encode:
  assumes "\<forall>c \<in> set (print is). \<not> IS_SLASH env c"
  shows "segment env (encode (collapse star is)) = encode (collapse star is)"
    "behind env (encode (collapse star is)) = []"
  using assms encode_collapse_chars [of star "is"] metas_not_slash [of _ env]
  by (auto simp: segment_def behind_def takeWhile_eq_all_conv dropWhile_eq_Nil_conv)

lemma encode_collapse_meta:
  assumes "i \<in> set is" "\<forall>c. i \<noteq> Lit c"
  shows "\<exists>c \<in> set (encode (collapse False is)). ismeta c"
proof -
  have m: "ismeta M_ALL" "ismeta M_ONE" "ismeta M_SET" by (simp_all add: ismeta_def glob_metas glob_chars)
  have "(\<exists>c \<in> set (encode (collapse star is)). ismeta c) \<or> star" for star
    using assms(1)
  proof (induction star "is" rule: collapse.induct)
    case (2 star "is")
    then show ?case using m by auto
  qed (use m assms(2) in auto)
  from this [of False] show ?thesis by simp
qed

lemma peek_encode_DOT: "peek (encode (collapse False is)) = DOT \<longleftrightarrow> is \<noteq> [] \<and> hd is = Lit DOT"
  by (cases "is"; cases "hd is") (auto simp: glob_metas glob_chars)

subsection \<open>From the interface to the walk\<close>

definition effective_flags :: "glob_env \<Rightarrow> uint \<Rightarrow> uint" where
  "effective_flags env flags = (if PHP_WIN32 env then flags OR GLOB_NOESCAPE else flags)"

text \<open>A fresh call that lists: nothing appended, marked, limited or substituted, no home directories.\<close>

definition listing :: "uint \<Rightarrow> bool" where
  "listing flags \<longleftrightarrow> flags AND (GLOB_APPEND OR GLOB_MARK OR GLOB_NOCHECK OR GLOB_NOMAGIC OR GLOB_NOSORT OR GLOB_TILDE OR GLOB_LIMIT) = 0"

lemma or_flags: "(x :: uint) AND (f OR h) = 0 \<longleftrightarrow> x AND f = 0 \<and> x AND h = 0"
  by (auto simp: bit_eq_iff bit_simps)

lemma noescape_flags:
  "(x OR GLOB_NOESCAPE) AND (GLOB_APPEND OR GLOB_MARK OR GLOB_NOCHECK OR GLOB_NOMAGIC OR GLOB_NOSORT OR GLOB_TILDE OR GLOB_LIMIT) =
   x AND (GLOB_APPEND OR GLOB_MARK OR GLOB_NOCHECK OR GLOB_NOMAGIC OR GLOB_NOSORT OR GLOB_TILDE OR GLOB_LIMIT)"
  "(x OR GLOB_NOESCAPE) AND GLOB_BRACE = x AND GLOB_BRACE" "(x OR GLOB_NOESCAPE) AND GLOB_APPEND = x AND GLOB_APPEND"
  "(x OR GLOB_NOESCAPE) AND GLOB_MARK = x AND GLOB_MARK" "(x OR GLOB_NOESCAPE) AND GLOB_NOCHECK = x AND GLOB_NOCHECK"
  "(x OR GLOB_NOESCAPE) AND GLOB_NOMAGIC = x AND GLOB_NOMAGIC" "(x OR GLOB_NOESCAPE) AND GLOB_NOSORT = x AND GLOB_NOSORT"
  by (simp_all add: bit.conj_disj_distrib2 GLOB_MARK_def GLOB_NOCHECK_def GLOB_NOSORT_def GLOB_NOMAGIC_def GLOB_LIMIT_def
      GLOB_TILDE_def GLOB_BRACE_def GLOB_APPEND_def GLOB_NOESCAPE_def)

lemma listing_effective [simp]: "listing (effective_flags env flags) = listing flags"
  by (simp add: effective_flags_def listing_def noescape_flags(1))

text \<open>The state a call starts the walk in.\<close>

definition started :: "glob_env \<Rightarrow> uint \<Rightarrow> (byte list \<Rightarrow> bool) option \<Rightarrow> glob_t \<Rightarrow> glob_t" where
  "started env flags errfunc g =
     (let f = effective_flags env flags in
      (if f AND GLOB_APPEND = 0
       then g\<lparr>gl_pathv := [], gl_offs := (if f AND GLOB_DOOFFS = 0 then 0 else gl_offs g)\<rparr> else g)
      \<lparr>gl_flags := f AND NOT GLOB_MAGCHAR, gl_errfunc := errfunc, gl_matchc := 0\<rparr>)"

lemma glob_started: "glob env pattern flags errfunc g =
  (let f = effective_flags env flags; patbuf = copy_pattern env f pattern
   in in_buffer env (length patbuf + 1)
        (if f AND GLOB_BRACE \<noteq> 0 then globexp1 env patbuf (started env flags errfunc g)
         else glob0 env patbuf (started env flags errfunc g)))"
  by (simp only: glob_def started_def effective_flags_def Let_def)

lemma masked_flag: "f AND GLOB_MAGCHAR = 0 \<Longrightarrow> (x AND NOT GLOB_MAGCHAR) AND f = x AND (f :: uint)"
  by (auto simp: bit_eq_iff bit_simps)

lemma started_has: "f AND GLOB_MAGCHAR = 0 \<Longrightarrow> has (started env flags errfunc g) f \<longleftrightarrow> effective_flags env flags AND f \<noteq> 0"
  by (simp add: started_def has_def masked_flag Let_def)

lemma started_listing:
  assumes "listing flags"
  shows "gl_pathv (started env flags errfunc g) = []" "\<not> has (started env flags errfunc g) GLOB_MARK"
    "\<not> has (started env flags errfunc g) GLOB_NOCHECK" "\<not> has (started env flags errfunc g) GLOB_NOMAGIC"
    "\<not> has (started env flags errfunc g) GLOB_NOSORT" "\<not> has (started env flags errfunc g) GLOB_TILDE"
    "\<not> has (started env flags errfunc g) GLOB_LIMIT"
proof -
  have "listing (effective_flags env flags)" using assms by simp
  then have l: "effective_flags env flags AND GLOB_APPEND = 0 \<and> effective_flags env flags AND GLOB_MARK = 0 \<and>
      effective_flags env flags AND GLOB_NOCHECK = 0 \<and> effective_flags env flags AND GLOB_NOMAGIC = 0 \<and>
      effective_flags env flags AND GLOB_NOSORT = 0 \<and> effective_flags env flags AND GLOB_TILDE = 0 \<and>
      effective_flags env flags AND GLOB_LIMIT = 0"
    unfolding listing_def or_flags by blast
  then show "gl_pathv (started env flags errfunc g) = []" by (simp add: started_def Let_def)
  show "\<not> has (started env flags errfunc g) GLOB_MARK"
    "\<not> has (started env flags errfunc g) GLOB_NOCHECK" "\<not> has (started env flags errfunc g) GLOB_NOMAGIC"
    "\<not> has (started env flags errfunc g) GLOB_NOSORT" "\<not> has (started env flags errfunc g) GLOB_TILDE"
    "\<not> has (started env flags errfunc g) GLOB_LIMIT"
    using l by (simp_all add: started_has)
qed

lemma globtilde_off: "\<not> has g GLOB_TILDE \<Longrightarrow> globtilde env pattern g = pattern"
  by (simp add: globtilde_def)

text \<open>A pattern the interface hands to \<open>glob0\<close> as it was written.\<close>

definition taken_literally :: "glob_env \<Rightarrow> uint \<Rightarrow> item list \<Rightarrow> bool" where
  "taken_literally env flags is \<longleftrightarrow> (\<forall>i \<in> set is. writable i) \<and> length (print is) < MAXPATHLEN env \<and>
     (PHP_WIN32 env \<or> flags AND GLOB_NOESCAPE \<noteq> 0 \<or> QUOTE \<notin> set (print is)) \<and>
     (flags AND GLOB_BRACE = 0 \<or> LBRACE \<notin> set (print is))"

lemma glob_literally:
  assumes "taken_literally env flags is"
  shows "glob env (pattern_text is) flags errfunc g = glob0 env (print is) (started env flags errfunc g)"
proof -
  have w: "\<forall>i \<in> set is. writable i" "length (print is) < MAXPATHLEN env"
    using assms by (simp_all add: taken_literally_def)
  have e: "effective_flags env flags AND GLOB_NOESCAPE \<noteq> 0 \<or> QUOTE \<notin> set (print is)"
    using assms by (auto simp: taken_literally_def effective_flags_def bit.conj_disj_distrib2 GLOB_NOESCAPE_def)
  have "effective_flags env flags AND GLOB_BRACE = 0 \<or> LBRACE \<notin> set (print is)"
    using assms by (auto simp: taken_literally_def effective_flags_def noescape_flags)
  then show ?thesis
    using w(2) by (auto simp: glob_started Let_def copy_pattern_text [OF w e] globexp1.simps)
qed

lemma glob0_result:
  assumes "listing flags" "taken_literally env flags is"
    and w: "\<And>m. glob1 env (encode (collapse False is))
        ((started env flags errfunc g)\<lparr>gl_flags := (if m then gl_flags (started env flags errfunc g) OR GLOB_MAGCHAR
           else gl_flags (started env flags errfunc g)), gl_limit := 0\<rparr>) = Some (0, g1 m) \<and> gl_pathv (g1 m) = ps \<and>
        gl_flags (g1 m) = (if m then gl_flags (started env flags errfunc g) OR GLOB_MAGCHAR
           else gl_flags (started env flags errfunc g))"
  shows "\<exists>g'. glob env (pattern_text is) flags errfunc g = Some (if ps = [] then GLOB_NOMATCH else 0, g') \<and>
    gl_pathv g' = sort_paths ps"
proof -
  let ?s = "started env flags errfunc g"
  have wr: "\<forall>i \<in> set is. writable i" using assms(2) by (simp add: taken_literally_def)
  obtain m where m: "compile None (print is) = Some (encode (collapse False is), m)"
    using compile_print [OF wr, of None] by auto
  have h: "has (g1 m) f = has ?s f" if "f AND GLOB_MAGCHAR = 0" for f
    using that w [of m] by (cases m) (simp_all add: has_def)
  have n: "\<not> has (g1 m) GLOB_NOCHECK" "\<not> has (g1 m) GLOB_NOMAGIC" "\<not> has (g1 m) GLOB_NOSORT"
    using h started_listing [OF assms(1)] by simp_all
  have len: "length (encode (collapse False is)) < MAXPATHLEN env"
    using encode_collapse_length [of False "is"] assms(2) by (simp add: taken_literally_def)
  have "glob0 env (print is) ?s = Some (if ps = [] then (GLOB_NOMATCH, g1 m) else (0, (g1 m)\<lparr>gl_pathv := sort_paths ps\<rparr>))"
    using m w [of m] n len started_listing(1) [OF assms(1)] globtilde_off [OF started_listing(6) [OF assms(1)]]
    by (simp add: glob0_def Let_def)
  then show ?thesis using w [of m] by (simp add: glob_literally [OF assms(2)] sort_paths_def)
qed

lemma glob_directory:
  assumes "taken_literally env flags is" "listing flags"
    and "\<forall>c \<in> set (print is). \<not> IS_SLASH env c" "i \<in> set is" "\<forall>c. i \<noteq> Lit c"
    and "sys_opendir env [46] = Some names" "\<forall>n \<in> set names. good_name env n"
  shows "\<exists>g'. glob env (pattern_text is) flags errfunc g =
      Some (if selected is names = [] then GLOB_NOMATCH else 0, g') \<and> gl_pathv g' = sort_paths (selected is names)"
proof -
  let ?s = "started env flags errfunc g"
  let ?p = "encode (collapse False is)"
  define g0 where "g0 m = ?s\<lparr>gl_flags := (if m then gl_flags ?s OR GLOB_MAGCHAR else gl_flags ?s), gl_limit := 0\<rparr>" for m
  have wr: "\<forall>i \<in> set is. writable i" and len: "length (print is) < MAXPATHLEN env"
    using assms(1) by (simp_all add: taken_literally_def)
  have meta: "\<exists>c \<in> set ?p. ismeta c" using encode_collapse_meta [OF assms(4,5)] .
  then have ne: "?p \<noteq> []" by auto
  have pl: "length ?p \<le> MAXPATHLEN env - 1" using encode_collapse_length [of False "is"] len by linarith
  have room: "Suc 0 \<le> MAXPATHLEN env" using len by linarith
  have m: "match name ?p 0 = Some (matches is name)" for name
    using match_encode [OF plain_collapse [OF wr], of name False "[]"] matches_collapse [of "is"] by simp
  have "\<exists>g1. glob1 env ?p (g0 m) = Some (0, g1) \<and> gl_pathv g1 = selected is names \<and> gl_flags g1 = gl_flags (g0 m)" for m
  proof -
    have h: "has (g0 m) f = has ?s f" if "f AND GLOB_MAGCHAR = 0" for f
      using that by (cases m) (simp_all add: g0_def has_def)
    have "\<not> has (g0 m) GLOB_MARK" "\<not> has (g0 m) GLOB_LIMIT" "gl_pathv (g0 m) = []"
      using h started_listing [OF assms(2)] by (simp_all add: g0_def)
    with glob3_entries_spec [OF assms(7), of ?p "\<lambda>n. matches is (map ucast n)" "g0 m"] obtain g1 where
      "glob3_entries env [] ?p [] names (g0 m) = Some (0, g1)" "gl_pathv g1 = selected is names"
      "gl_flags g1 = gl_flags (g0 m)"
      using m peek_encode_DOT [of "is"] by (auto simp: selected_def)
    then show ?thesis
      using ne pl room meta segment_encode [OF assms(3), of False] assms(6)
      by (auto simp: glob1_def glob2.simps [of env "[]" ?p] Let_def glob3.simps g_opendir_def)
  qed
  then obtain g1 where "glob1 env ?p (g0 m) = Some (0, g1 m) \<and> gl_pathv (g1 m) = selected is names \<and>
      gl_flags (g1 m) = gl_flags (g0 m)" for m by metis
  then show ?thesis by (intro glob0_result [OF assms(2,1), of _ _ g1]) (simp add: g0_def)
qed

lemma masked_not [simp]: "(x :: uint) AND f = 0 \<Longrightarrow> (x AND NOT GLOB_MAGCHAR) AND f = 0"
  by (auto simp: bit_eq_iff bit_simps)

lemma started_fresh:
  assumes "flags AND GLOB_APPEND = 0"
  shows "gl_pathv (started env flags errfunc g) = []"
  using assms by (simp add: started_def effective_flags_def noescape_flags Let_def)

lemma started_lacks:
  assumes "flags AND f = 0" "f \<in> {GLOB_MARK, GLOB_NOCHECK, GLOB_NOMAGIC, GLOB_NOSORT}"
  shows "\<not> has (started env flags errfunc g) f"
proof -
  have "f AND GLOB_MAGCHAR = 0" "effective_flags env flags AND f = flags AND f"
    using assms(2) by (auto simp: effective_flags_def noescape_flags)
  then show ?thesis using started_has assms(1) by simp
qed

lemma glob_total:
  assumes "sys_lstat env [] = None" "0 < MAXPATHLEN env"
  shows "\<exists>err g'. glob env pattern flags errfunc g = Some (err, g')"
proof -
  have "length (copy_pattern env (effective_flags env flags) pattern) < MAXPATHLEN env"
    by (rule copy_pattern_length [OF assms(2)])
  then show ?thesis
    using globexp1_total [OF assms(1)] glob0_total [OF assms(1)] by (auto simp: glob_started Let_def)
qed

text \<open>What a path in the result stands for.\<close>

definition listed_path :: "glob_env \<Rightarrow> uint \<Rightarrow> byte list \<Rightarrow> bool" where
  "listed_path env flags p \<longleftrightarrow> 0 \<notin> set p \<and>
    (sys_lstat env p \<noteq> None \<or>
     flags AND GLOB_MARK \<noteq> 0 \<and> (\<exists>q. p = q @ [ucast (SEP env)] \<and> (sys_lstat env q = Some Directory \<or>
       sys_lstat env q = Some Symlink \<and> sys_stat env q = Some Directory)))"

lemma glob_lists:
  assumes "glob env pattern flags errfunc g = Some (err, g')"
    and "flags AND GLOB_APPEND = 0" "flags AND GLOB_NOCHECK = 0" "flags AND GLOB_NOMAGIC = 0" "p \<in> set (gl_pathv g')"
  shows "listed_path env flags p"
proof -
  let ?s = "started env flags errfunc g"
  have "\<not> has ?s GLOB_NOCHECK" "\<not> has ?s GLOB_NOMAGIC" using started_lacks assms(3,4) by simp_all
  then have "adds_found env ?s g'"
    using assms(1) globexp1_adds_found [of env _ ?s err g'] glob0_adds_found [of env _ ?s err g']
    by (auto simp: glob_started Let_def split: if_splits)
  moreover have "has ?s GLOB_MARK \<Longrightarrow> flags AND GLOB_MARK \<noteq> 0" using started_lacks by blast
  ultimately show ?thesis using started_fresh [OF assms(2)] assms(5)
    by (auto simp: adds_found_def found_def listed_path_def)
qed

subsection \<open>What the interface guarantees\<close>

text \<open>A directory for the examples: a plain name, a name in brackets, a hidden one and a subdirectory.\<close>

definition demo_names :: "byte list list" where
  "demo_names = [[99, 97], [91, 97, 93], [46, 97], [98, 97]]"

definition demo_env :: glob_env where
  "demo_env = \<lparr>MAXPATHLEN = 64, PHP_WIN32 = False, arg_max_bytes = 65536, env_HOME = None, pw_self = None,
     pw_user = (\<lambda>_. None),
     sys_lstat = (\<lambda>p. if p = [98, 97] then Some Directory else if p \<in> set demo_names then Some Other_File else None),
     sys_stat = (\<lambda>p. if p = [98, 97] then Some Directory else if p \<in> set demo_names then Some Other_File else None),
     sys_opendir = (\<lambda>p. if p = [46] then Some demo_names else None)\<rparr>"

definition empty_glob :: glob_t where
  "empty_glob = \<lparr>gl_matchc = 0, gl_offs = 0, gl_flags = 0, gl_pathv = [], gl_errfunc = None, gl_limit = 0\<rparr>"

text \<open>C9. A written pattern, made of literal characters, question marks, stars and bracket
  expressions with ranges and negation, compiles to a form \<open>match\<close> accepts a name for exactly
  when the pattern means that name, for every name.\<close>
theorem glob_pattern_meaning:
  assumes "\<forall>i \<in> set is. writable i"
  shows "\<exists>pat m. compile None (print is) = Some (pat, m) \<and> (\<forall>name. match name pat 0 = Some (matches is name))"
  using assms by (rule compile_match)

theorem glob_pattern_meaning_witness:
  "\<exists>pat m. compile None [97, STAR, LBRACKET, 98, RANGE, 100, RBRACKET] = Some (pat, m) \<and>
     match [97, 120, 99] pat 0 = Some True \<and> match [97, 120, 101] pat 0 = Some False"
proof -
  have m: "matches [Lit 97, Any, Set False [Range 98 100]] [97, 120, 99]"
    "\<not> matches [Lit 97, Any, Set False [Range 98 100]] [97, 120, 101]"
    by (simp_all add: ex_le_Suc)
  have "\<forall>i \<in> set [Lit 97, Any, Set False [Range 98 100]]. writable i" by (simp add: glob_chars)
  from glob_pattern_meaning [OF this] obtain pat m where
    "compile None [97, STAR, LBRACKET, 98, RANGE, 100, RBRACKET] = Some (pat, m)"
    "\<forall>name. match name pat 0 = Some (matches [Lit 97, Any, Set False [Range 98 100]] name)" by auto
  then show ?thesis using m by (intro exI [of _ pat] exI [of _ "_ :: bool"]) (simp del: matches.simps)
qed

text \<open>C12. Any pattern text compiles, however its brackets are placed: the compiled form is that of
  some items over byte characters and never longer than the text, so compiling in place stays
  behind the read position, and every suffix of it keeps \<open>match\<close> inside the pattern, for every name.\<close>
theorem glob_compile_in_place:
  "\<exists>is m. compile None text' = Some (encode is, m) \<and> (\<forall>i \<in> set is. plain i) \<and>
     length (encode is) \<le> length text' \<and>
     (\<forall>k name rest. match name (drop k (encode is)) rest \<noteq> None)"
proof -
  obtain "is" m where c: "compile None text' = Some (encode is, m)" "\<forall>i \<in> set is. plain i"
    "length (encode is) \<le> length text'" using compile_total by blast
  have "sets_closed (drop k (encode is))" for k
    using sets_closed_encode [OF c(2)] sets_closed_suffix [of "take k (encode is)" "drop k (encode is)"] by simp
  then show ?thesis using c match_total by blast
qed

theorem glob_compile_in_place_witness:
  "\<exists>pat m. compile None [LBRACKET, NOT_CHAR, RANGE, STAR, RBRACKET, LBRACKET] = Some (pat, m) \<and> length pat \<le> 6 \<and>
     match [97] (drop 1 pat) 0 \<noteq> None"
proof -
  obtain "is" m where "compile None [LBRACKET, NOT_CHAR, RANGE, STAR, RBRACKET, LBRACKET] = Some (encode is, m)"
    "length (encode is) \<le> 6" "match [97] (drop 1 (encode is)) 0 \<noteq> None"
    using glob_compile_in_place [of "[LBRACKET, NOT_CHAR, RANGE, STAR, RBRACKET, LBRACKET]"] by auto
  then show ?thesis by blast
qed

text \<open>C10. \<open>glob\<close> never writes behind the \<open>MAXPATHLEN\<close> characters of \<open>patbuf\<close> (in \<open>glob\<close>, \<open>globexp2\<close> and the
  compilation of \<open>glob0\<close>) and of \<open>pathbuf\<close> (in \<open>glob2\<close>, \<open>glob3\<close> and for the mark), reads no pattern behind its end,
  and returns: for every pattern, flag word, error function, file system, directory listing with names of any length and result
  buffer, as long as the empty path does not exist. Such a write is \<open>None\<close> in the model (\<open>in_buffer\<close>).\<close>
theorem glob_returns:
  assumes "sys_lstat env [] = None" "0 < MAXPATHLEN env"
  shows "\<exists>err g'. glob env pattern flags errfunc g = Some (err, g')"
  using assms by (rule glob_total)

theorem glob_returns_witness: "\<exists>err g'. glob demo_env [123, 91, 97, 44, 42] 0x80 None empty_glob = Some (err, g')"
  by (rule glob_returns) (simp_all add: demo_env_def demo_names_def)

text \<open>C11. Unless the caller asks for the pattern itself to be returned, every path a fresh call
  leaves in the result exists, or is the marked form of an existing directory, and is a proper C
  string; this covers brace alternatives and calls that end with an error.\<close>
theorem glob_paths_exist:
  assumes "glob env pattern flags errfunc g = Some (err, g')"
    and "flags AND GLOB_APPEND = 0" "flags AND GLOB_NOCHECK = 0" "flags AND GLOB_NOMAGIC = 0"
  shows "\<forall>p \<in> set (gl_pathv g'). 0 \<notin> set p \<and>
    (sys_lstat env p \<noteq> None \<or>
     flags AND GLOB_MARK \<noteq> 0 \<and> (\<exists>q. p = q @ [ucast (SEP env)] \<and> (sys_lstat env q = Some Directory \<or>
       sys_lstat env q = Some Symlink \<and> sys_stat env q = Some Directory)))"
  using glob_lists [OF assms] unfolding listed_path_def by blast

theorem glob_paths_exist_witness:
  "\<exists>err g'. glob demo_env [42] GLOB_MARK None empty_glob = Some (err, g') \<and>
     (\<forall>p \<in> set (gl_pathv g'). sys_lstat demo_env p \<noteq> None \<or>
       (\<exists>q. p = q @ [47] \<and> (sys_lstat demo_env q = Some Directory \<or>
          sys_lstat demo_env q = Some Symlink \<and> sys_stat demo_env q = Some Directory)))"
proof -
  have "sys_lstat demo_env [] = None" by (simp add: demo_env_def demo_names_def)
  moreover have "0 < MAXPATHLEN demo_env" by (simp add: demo_env_def)
  ultimately obtain err g' where r: "glob demo_env [42] GLOB_MARK None empty_glob = Some (err, g')"
    using glob_total by blast
  have f: "GLOB_MARK AND GLOB_APPEND = 0" "GLOB_MARK AND GLOB_NOCHECK = 0" "GLOB_MARK AND GLOB_NOMAGIC = 0"
    "(ucast (SEP demo_env) :: byte) = 47"
    by (simp_all add: GLOB_MARK_def GLOB_APPEND_def GLOB_NOCHECK_def GLOB_NOMAGIC_def SEP_def demo_env_def SLASH_def)
  show ?thesis using glob_paths_exist [OF r f(1-3)] r unfolding f(4) by blast
qed

text \<open>C16. A fresh call without braces returns its paths in the order of \<open>strcmp\<close>, unless it is
  told not to sort.\<close>
theorem glob_result_sorted:
  assumes "glob env pattern flags errfunc g = Some (0, g')"
    and "flags AND (GLOB_APPEND OR GLOB_BRACE OR GLOB_NOCHECK OR GLOB_NOMAGIC OR GLOB_NOSORT) = 0"
  shows "sorted_wrt (\<lambda>p q. strcmp p q \<le> 0) (gl_pathv g')"
proof -
  let ?s = "started env flags errfunc g"
  have l: "flags AND GLOB_APPEND = 0" "flags AND GLOB_BRACE = 0" "flags AND GLOB_NOCHECK = 0"
    "flags AND GLOB_NOMAGIC = 0" "flags AND GLOB_NOSORT = 0"
    using assms(2) unfolding or_flags by blast+
  have h: "\<not> has ?s GLOB_NOCHECK" "\<not> has ?s GLOB_NOMAGIC" "\<not> has ?s GLOB_NOSORT"
    using started_lacks l by simp_all
  have "effective_flags env flags AND GLOB_BRACE = 0"
    using l(2) by (simp add: effective_flags_def noescape_flags)
  then have "glob0 env (copy_pattern env (effective_flags env flags) pattern) ?s = Some (0, g')"
    using assms(1) by (simp add: glob_started Let_def)
  from glob0_adds [OF this h(1,2)] show ?thesis using h(3) started_fresh [OF l(1)] by auto
qed

theorem glob_result_sorted_witness:
  "\<exists>g'. glob demo_env [42, 97] 0 None empty_glob = Some (0, g') \<and> sorted_wrt (\<lambda>p q. strcmp p q \<le> 0) (gl_pathv g')"
proof -
  have t: "taken_literally demo_env 0 [Any, Lit 97]"
    by (simp add: taken_literally_def demo_env_def glob_chars)
  have p: "pattern_text [Any, Lit 97] = [42, 97]" by (simp add: pattern_text_def STAR_def)
  have s: "selected [Any, Lit 97] demo_names \<noteq> []"
    by (simp add: selected_def demo_names_def ex_le_Suc DOT_def)
  obtain g' where "glob demo_env [42, 97] 0 None empty_glob = Some (0, g')"
    using glob_directory [OF t _ _ _ _ _ _, of Any demo_names None empty_glob] s
    by (auto simp: p listing_def good_name_def demo_env_def demo_names_def IS_SLASH_def glob_chars)
  then show ?thesis using glob_result_sorted [of demo_env "[42, 97]" 0 None empty_glob g'] by simp
qed

text \<open>A pattern without separators that the interface takes as it is written and that is not
  all literal returns exactly the names of the current directory it matches, sorted, where a name
  that starts with a dot counts only if the pattern starts with one; with no such name the result
  is \<open>GLOB_NOMATCH\<close>.\<close>
theorem glob_directory_spec:
  assumes "taken_literally env flags is" "listing flags"
    and "\<forall>c \<in> set (print is). \<not> IS_SLASH env c" "i \<in> set is" "\<forall>c. i \<noteq> Lit c"
    and "sys_opendir env [46] = Some names" "\<forall>n \<in> set names. good_name env n"
  shows "\<exists>g'. glob env (pattern_text is) flags errfunc g =
      Some (if selected is names = [] then GLOB_NOMATCH else 0, g') \<and> gl_pathv g' = sort_paths (selected is names)"
  using assms by (rule glob_directory)

theorem glob_directory_spec_witness:
  "\<exists>g'. glob demo_env [42, 97] 0 None empty_glob = Some (0, g') \<and> gl_pathv g' = [[98, 97], [99, 97]]"
proof -
  have t: "taken_literally demo_env 0 [Any, Lit 97]"
    by (simp add: taken_literally_def demo_env_def glob_chars)
  have p: "pattern_text [Any, Lit 97] = [42, 97]" by (simp add: pattern_text_def STAR_def)
  have s: "sort_paths (selected [Any, Lit 97] demo_names) = [[98, 97], [99, 97]]"
    "selected [Any, Lit 97] demo_names \<noteq> []"
    by (simp_all add: selected_def demo_names_def ex_le_Suc DOT_def sort_paths_def)
  show ?thesis
    using glob_directory_spec [OF t, of Any demo_names None empty_glob] s
    by (simp add: p listing_def good_name_def demo_env_def demo_names_def IS_SLASH_def glob_chars)
qed

end
