(* ===== verification/GlobTree.thy ===== *)
theory GlobTree
  imports GlobSpec
begin

text \<open>
  Patterns with separators: what \<open>glob\<close> returns for them is described by a walk over the tree of
  directories, one part of the pattern after the other, that knows nothing of the compiled form, the
  path buffer and the order of the recursion.
\<close>

subsection \<open>The paths a pattern stands for\<close>

text \<open>The pattern is the list of its parts, written with a slash between any two.\<close>

fun joined :: "item list list \<Rightarrow> item list" where
  "joined [] = []"
| "joined [is] = is"
| "joined (is # ps) = is @ Lit SLASH # joined ps"

definition literal :: "item list \<Rightarrow> bool" where
  "literal is \<longleftrightarrow> (\<forall>i \<in> set is. \<exists>c. i = Lit c)"

definition names_in :: "glob_env \<Rightarrow> byte list \<Rightarrow> byte list list" where
  "names_in env path = (case sys_opendir env (if path = [] then [46] else path) of None \<Rightarrow> [] | Some names \<Rightarrow> names)"

text \<open>A literal part is appended as it is; any other part gives one path for each name it selects.\<close>

definition steps :: "glob_env \<Rightarrow> byte list \<Rightarrow> item list \<Rightarrow> byte list list" where
  "steps env path is =
     (if literal is then [path @ pattern_text is] else map (append path) (selected is (names_in env path)))"

fun paths_of :: "glob_env \<Rightarrow> byte list \<Rightarrow> item list list \<Rightarrow> byte list list" where
  "paths_of env path [] = []"
| "paths_of env path [is] = filter (\<lambda>q. sys_lstat env q \<noteq> None) (steps env path is)"
| "paths_of env path (is # ps) = concat (map (\<lambda>q. paths_of env (q @ [47]) ps) (steps env path is))"

text \<open>Names and parts of at most \<open>L\<close> characters, so that paths fit the buffer.\<close>

definition names_within :: "glob_env \<Rightarrow> nat \<Rightarrow> bool" where
  "names_within env L \<longleftrightarrow> (\<forall>d names. sys_opendir env d = Some names \<longrightarrow>
     (\<forall>n \<in> set names. n \<noteq> [] \<and> 0 \<notin> set n \<and> length n \<le> L))"

definition part_within :: "glob_env \<Rightarrow> nat \<Rightarrow> item list \<Rightarrow> bool" where
  "part_within env L is \<longleftrightarrow> (\<forall>i \<in> set is. writable i) \<and> EOS \<notin> set (print is) \<and>
     (\<forall>c \<in> set (print is). \<not> IS_SLASH env c) \<and> length (print is) \<le> L"

lemma names_withinD: "\<lbrakk>names_within env L; n \<in> set (names_in env path)\<rbrakk> \<Longrightarrow> n \<noteq> [] \<and> 0 \<notin> set n \<and> length n \<le> L"
  by (cases "sys_opendir env (if path = [] then [46] else path)") (auto simp: names_within_def names_in_def)

subsection \<open>The compiled parts\<close>

lemma collapse_append: "collapse star (is @ Lit c # js) = collapse star is @ Lit c # collapse False js"
  by (induction star "is" rule: collapse.induct) auto

lemma encode_joined: "encode (collapse False (joined (is # js # ps))) =
  encode (collapse False is) @ SLASH # encode (collapse False (joined (js # ps)))"
  by (simp add: collapse_append)

lemma collapse_literal: "literal is \<Longrightarrow> collapse star is = is \<and> encode is = print is"
proof (induction "is" arbitrary: star)
  case (Cons i "is")
  then obtain c where "i = Lit c" "literal is" by (auto simp: literal_def)
  then show ?case using Cons.IH [of False] by simp
qed simp

lemma byte_not_meta: "c < 0x100 \<Longrightarrow> \<not> ismeta (c :: Char)"
proof -
  assume "c < 0x100"
  then have "c AND M_QUOTE = (c AND M_ASCII) AND M_QUOTE" using CHAR_byte by (simp only: CHAR'_def)
  then show ?thesis by (simp add: ismeta_def and.assoc M_ASCII_def M_QUOTE_def)
qed

lemma literal_not_meta: "\<lbrakk>literal is; \<forall>i \<in> set is. writable i\<rbrakk> \<Longrightarrow> \<forall>c \<in> set (print is). \<not> ismeta c"
  using writable_bytes byte_not_meta by blast

lemma part_segment:
  assumes "part_within env L is" "rest = [] \<or> (\<exists>r. rest = SLASH # r)"
  shows "segment env (encode (collapse False is) @ rest) = encode (collapse False is)"
    "behind env (encode (collapse False is) @ rest) = rest"
proof -
  have s: "\<forall>c \<in> set (encode (collapse False is)). \<not> IS_SLASH env c"
    using assms(1) encode_collapse_chars [of False "is"] metas_not_slash [of _ env] by (auto simp: part_within_def)
  moreover have "takeWhile (\<lambda>c. \<not> IS_SLASH env c) rest = []" "dropWhile (\<lambda>c. \<not> IS_SLASH env c) rest = rest"
    using assms(2) by (auto simp: IS_SLASH_def)
  ultimately show "segment env (encode (collapse False is) @ rest) = encode (collapse False is)"
    "behind env (encode (collapse False is) @ rest) = rest"
    by (simp_all add: segment_def behind_def takeWhile_append dropWhile_append takeWhile_eq_all_conv [THEN iffD2]
        dropWhile_eq_Nil_conv [THEN iffD2])
qed

lemma part_length: "part_within env L is \<Longrightarrow> length (encode (collapse False is)) \<le> L"
  using encode_collapse_length [of False "is"] by (simp add: part_within_def)

text \<open>A literal segment and one separator can be moved to the path.\<close>

lemma glob2_literal_end:
  assumes "\<forall>c \<in> set seg. \<not> ismeta c" "segment env seg = seg" "behind env seg = []" "length path + length seg < MAXPATHLEN env"
  shows "glob2 env path seg g = glob_end env (path @ seg) g"
  using assms by (cases "seg = []") (auto simp: glob2.simps [of env path] Let_def glob2_end)

lemma glob2_literal_slash:
  assumes "\<forall>c \<in> set seg. \<not> ismeta c" "segment env (seg @ SLASH # p) = seg" "behind env (seg @ SLASH # p) = SLASH # p"
    and "length path + length seg + 1 < MAXPATHLEN env"
  shows "glob2 env path (seg @ SLASH # p) g = glob2 env (path @ seg @ [SLASH]) p g"
proof -
  have sl: "IS_SLASH env SLASH" by (simp add: IS_SLASH_def)
  have nm: "\<not> (\<exists>c \<in> set seg. ismeta c)" using assms(1) by blast
  have l: "glob2 env path (seg @ SLASH # p) g =
     (let slashes = takeWhile (IS_SLASH env) p in
      if length path + length seg + Suc (length slashes) > MAXPATHLEN env - 1 then Some (1, g)
      else glob2 env (path @ seg @ SLASH # slashes) (dropWhile (IS_SLASH env) p) g)"
    using assms(2-4) nm sl by (simp add: glob2.simps [of env path "seg @ SLASH # p"] Let_def)
  show ?thesis
  proof (cases "p \<noteq> [] \<and> IS_SLASH env (hd p)")
    case True
    then have "p \<noteq> []" "segment env p = []" "behind env p = p" by (cases p; simp add: segment_def behind_def)+
    then have "glob2 env (path @ seg @ [SLASH]) p g =
     (let slashes = takeWhile (IS_SLASH env) p in
      if Suc (length path + length seg) + length slashes > MAXPATHLEN env - 1 then Some (1, g)
      else glob2 env ((path @ seg @ [SLASH]) @ slashes) (dropWhile (IS_SLASH env) p) g)"
      using assms(4) by (simp add: glob2.simps [of env "path @ seg @ [SLASH]" p] Let_def)
    then show ?thesis unfolding l by (simp add: Let_def)
  next
    case False
    then have "takeWhile (IS_SLASH env) p = []" "dropWhile (IS_SLASH env) p = p" by (cases p; simp)+
    moreover have "length path + length seg + 1 \<le> MAXPATHLEN env - 1" using assms(4) by linarith
    ultimately show ?thesis unfolding l using assms(4) by (simp add: Let_def)
  qed
qed

subsection \<open>The walk\<close>

definition plain_mode :: "glob_t \<Rightarrow> bool" where
  "plain_mode g \<longleftrightarrow> \<not> has g GLOB_MARK \<and> \<not> has g GLOB_LIMIT \<and> gl_errfunc g = None"

definition adds :: "glob_t \<Rightarrow> byte list list \<Rightarrow> glob_t \<Rightarrow> bool" where
  "adds g ps g' \<longleftrightarrow> gl_pathv g' = gl_pathv g @ ps \<and> gl_flags g' = gl_flags g \<and> gl_errfunc g' = gl_errfunc g"

lemma adds_mode: "adds g ps g' \<Longrightarrow> plain_mode g' = plain_mode g"
  by (simp add: adds_def plain_mode_def has_def)

lemma adds_refl: "adds g [] g"
  by (simp add: adds_def)

lemma adds_trans: "\<lbrakk>adds a ps b; adds b qs c\<rbrakk> \<Longrightarrow> adds a (ps @ qs) c"
  by (simp add: adds_def)

lemma glob_end_adds:
  assumes "0 \<notin> set q" "length q \<le> MAXPATHLEN env - 1" "0 < MAXPATHLEN env" "plain_mode g"
  shows "\<exists>g'. glob_end env (map ucast q) g = Some (0, g') \<and> adds g (filter (\<lambda>q. sys_lstat env q \<noteq> None) [q]) g'"
proof -
  have c: "g_Ctoc (map ucast q) n = (if length q < n then Some q else None)" for n
    using assms(1) by (simp add: g_Ctoc_bytes)
  have "length q < MAXPATHLEN env" using assms(2,3) by linarith
  then show ?thesis using assms(4)
    by (cases "sys_lstat env q")
      (auto simp: glob_end_def g_lstat_def c adds_def plain_mode_def globextend_def Let_def has_def)
qed

lemma glob3_entries_adds:
  assumes "\<forall>n \<in> set names. n \<noteq> [] \<and> \<not> overlong env path n"
    and "\<And>n. match (map ucast n) (seg @ rest) (length rest) = Some (P n)"
    and "\<And>n g. \<lbrakk>n \<in> set names; plain_mode g\<rbrakk> \<Longrightarrow>
      \<exists>g'. glob2 env (path @ map ucast n) rest g = Some (0, g') \<and> adds g (F n) g'"
    and "plain_mode g"
  shows "\<exists>g'. glob3_entries env path seg rest names g = Some (0, g') \<and>
    adds g (concat (map F (filter (\<lambda>n. P n \<and> (hd n = 46 \<longrightarrow> peek (seg @ rest) = DOT)) names))) g'"
  using assms(1,3,4)
proof (induction names arbitrary: g)
  case Nil
  then show ?case by (auto simp: adds_refl)
next
  case (Cons n names)
  have n: "n \<noteq> []" and o: "\<not> overlong env path n" using Cons.prems(1) by auto
  have h: "peek (map ucast n) = DOT \<longleftrightarrow> hd n = 46" using n by (cases n) (simp_all add: ucast_DOT)
  have IH: "\<exists>g'. glob3_entries env path seg rest names g1 = Some (0, g') \<and>
    adds g1 (concat (map F (filter (\<lambda>n. P n \<and> (hd n = 46 \<longrightarrow> peek (seg @ rest) = DOT)) names))) g'"
    if "plain_mode g1" for g1
    using Cons.IH [OF _ _ that] Cons.prems(1,2) by simp
  show ?case
  proof (cases "hd n = 46 \<and> peek (seg @ rest) \<noteq> DOT")
    case True
    then show ?thesis using IH [OF Cons.prems(3)] h glob3_entries_skip [of n seg rest env path names g] by simp
  next
    case visible: False
    then have v: "\<not> hidden n (seg @ rest)" using h by simp
    show ?thesis
    proof (cases "P n")
      case False
      then show ?thesis using IH [OF Cons.prems(3)] assms(2) [of n] glob3_entries_no [OF v o, of names g] by simp
    next
      case True
      obtain g1 where g1: "glob2 env (path @ map ucast n) rest g = Some (0, g1)" "adds g (F n) g1"
        using Cons.prems(2) [of n g] Cons.prems(3) by auto
      obtain g' where "glob3_entries env path seg rest names g1 = Some (0, g')"
        "adds g1 (concat (map F (filter (\<lambda>n. P n \<and> (hd n = 46 \<longrightarrow> peek (seg @ rest) = DOT)) names))) g'"
        using IH [of g1] adds_mode [OF g1(2)] Cons.prems(3) by blast
      then show ?thesis
        using True visible g1 assms(2) [of n] glob3_entries_yes [OF v o, of names g] adds_trans [OF g1(2)] by auto
    qed
  qed
qed

text \<open>One part that is not literal, followed by anything that adds \<open>F n\<close> behind the name \<open>n\<close>.\<close>

lemma peek_magic_part:
  assumes "\<not> literal is"
  shows "peek (encode (collapse False is) @ rest) = DOT \<longleftrightarrow> is \<noteq> [] \<and> hd is = Lit DOT"
proof -
  have "encode (collapse False is) \<noteq> []"
    using assms encode_collapse_meta [of _ "is"] unfolding literal_def by fastforce
  then have "peek (encode (collapse False is) @ rest) = peek (encode (collapse False is))"
    by (cases "encode (collapse False is)") simp_all
  then show ?thesis by (simp add: peek_encode_DOT)
qed

lemma glob2_magic:
  assumes w: "names_within env L" "part_within env L is" "\<not> literal is"
    and path: "0 \<notin> set path" "length path + Suc L < MAXPATHLEN env - 1"
    and rest: "rest = [] \<or> (\<exists>r. rest = SLASH # r)"
    and F: "\<And>n g. \<lbrakk>n \<in> set (names_in env path); plain_mode g\<rbrakk> \<Longrightarrow>
      \<exists>g'. glob2 env (map ucast (path @ n)) rest g = Some (0, g') \<and> adds g (F n) g'"
    and g: "plain_mode g"
  shows "\<exists>g'. glob2 env (map ucast path) (encode (collapse False is) @ rest) g = Some (0, g') \<and>
    adds g (concat (map F (selected is (names_in env path)))) g'"
proof -
  let ?p = "encode (collapse False is)"
  have wr: "\<forall>i \<in> set is. writable i" using w(2) by (simp add: part_within_def)
  have meta: "\<exists>c \<in> set ?p. ismeta c" using w(3) encode_collapse_meta [of _ "is"] unfolding literal_def by blast
  have m: "match name (?p @ rest) (length rest) = Some (matches is name)" for name
    using match_encode [OF plain_collapse [OF wr], of name False rest] matches_collapse [of "is"] by simp
  have len: "length ?p \<le> L" by (rule part_length [OF w(2)])
  have o: "g_opendir env (map ucast path) = sys_opendir env (if path = [] then [46] else path)"
  proof -
    have "length path < MAXPATHLEN env" using path(2) by linarith
    then show ?thesis using path(1) by (simp add: g_opendir_def g_Ctoc_bytes)
  qed
  have g2: "glob2 env (map ucast path) (?p @ rest) g = glob3 env (map ucast path) ?p rest g"
    using meta len path(2) part_segment [OF w(2) rest]
    by (auto simp: glob2.simps [of env "map ucast path" "?p @ rest"] Let_def)
  show ?thesis
  proof (cases "sys_opendir env (if path = [] then [46] else path)")
    case None
    then have "names_in env path = []" by (simp add: names_in_def)
    then show ?thesis using None g2 o path(2) g
      by (auto simp: glob3.simps plain_mode_def selected_def adds_refl)
  next
    case (Some names)
    then have names: "names_in env path = names" by (simp add: names_in_def)
    have ok: "\<forall>n \<in> set names. n \<noteq> [] \<and> \<not> overlong env (map ucast path) n"
      using names_withinD [OF w(1), of _ path] path(2) by (fastforce simp: names)
    have "glob3 env (map ucast path) ?p rest g = glob3_entries env (map ucast path) ?p rest names g"
      using Some o path(2) by (simp add: glob3.simps)
    then show ?thesis
      using glob3_entries_adds [OF ok m, of F g] F g g2 peek_magic_part [OF w(3), of rest]
      by (simp add: names selected_def)
  qed
qed

lemma part_text:
  assumes "part_within env L is"
  shows "map ucast (pattern_text is) = print is" "0 \<notin> set (pattern_text is)" "length (pattern_text is) \<le> L"
proof -
  show m: "map ucast (pattern_text is) = print is" using assms pattern_text_chars by (simp add: part_within_def)
  have "EOS \<notin> set (print is)" using assms by (simp add: part_within_def)
  moreover have "(ucast (0 :: byte) :: Char) = EOS" by (simp add: EOS_def)
  ultimately show "0 \<notin> set (pattern_text is)" by (metis m image_eqI set_map)
  show "length (pattern_text is) \<le> L" using assms by (simp add: part_within_def pattern_text_def)
qed

lemma steps_within:
  assumes "names_within env L" "part_within env L is" "q \<in> set (steps env path is)" "0 \<notin> set path"
  shows "0 \<notin> set q" "length q \<le> length path + L"
  using assms part_text [OF assms(2)] names_withinD [OF assms(1), of _ path]
  by (fastforce simp: steps_def selected_def split: if_splits)+

lemma slash_byte [simp]: "(ucast (47 :: byte) :: Char) = SLASH"
  by (simp add: SLASH_def)

lemma glob2_literal_part:
  assumes "part_within env L is" "literal is" "length path + Suc L < MAXPATHLEN env - 1"
  shows "glob2 env (map ucast path) (encode (collapse False is)) g = glob_end env (map ucast (path @ pattern_text is)) g"
    "glob2 env (map ucast path) (encode (collapse False is) @ SLASH # p) g =
     glob2 env (map ucast ((path @ pattern_text is) @ [47])) p g"
proof -
  have p: "encode (collapse False is) = print is" using collapse_literal [OF assms(2)] by simp
  have nm: "\<forall>c \<in> set (print is). \<not> ismeta c"
    using assms(1,2) literal_not_meta by (simp add: part_within_def)
  have len: "length (print is) \<le> L" using assms(1) by (simp add: part_within_def)
  have t: "map ucast (pattern_text is) = print is" by (rule part_text(1) [OF assms(1)])
  show "glob2 env (map ucast path) (encode (collapse False is)) g = glob_end env (map ucast (path @ pattern_text is)) g"
    using glob2_literal_end [OF nm, of env "map ucast path" g] part_segment [OF assms(1), of "[]"] len assms(3)
    by (simp add: p t)
  show "glob2 env (map ucast path) (encode (collapse False is) @ SLASH # p) g =
     glob2 env (map ucast ((path @ pattern_text is) @ [47])) p g"
    using glob2_literal_slash [OF nm, of env p "map ucast path" g] part_segment [OF assms(1), of "SLASH # p"] len assms(3)
    by (simp add: p t SLASH_def)
qed

lemma glob2_slash:
  fixes path :: "byte list"
  assumes "length path + 1 < MAXPATHLEN env"
  shows "glob2 env (map ucast path) (SLASH # p) g = glob2 env (map ucast (path @ [47])) p g"
  using glob2_literal_slash [of "[]" env p "map ucast path" g] assms
  by (simp add: segment_def behind_def IS_SLASH_def SLASH_def)

lemma glob2_walk:
  assumes "names_within env L" "\<forall>is \<in> set ps. part_within env L is" "ps \<noteq> []" "0 \<notin> set path"
    and "length path + length ps * Suc L < MAXPATHLEN env - 1" "plain_mode g"
  shows "\<exists>g'. glob2 env (map ucast path) (encode (collapse False (joined ps))) g = Some (0, g') \<and>
    adds g (paths_of env path ps) g'"
  using assms(2-6)
proof (induction ps arbitrary: path g)
  case (Cons "is" ps)
  have w: "part_within env L is" using Cons.prems(1) by simp
  have len: "length path + Suc L < MAXPATHLEN env - 1" using Cons.prems(4) by simp
  have step: "0 \<notin> set q \<and> length q \<le> length path + L" if "q \<in> set (steps env path is)" for q
    using steps_within [OF assms(1) w that Cons.prems(3)] by blast
  show ?case
  proof (cases ps)
    case Nil
    show ?thesis
    proof (cases "literal is")
      case True
      then have s: "steps env path is = [path @ pattern_text is]" by (simp add: steps_def)
      have "length (path @ pattern_text is) \<le> MAXPATHLEN env - 1" using step [of "path @ pattern_text is"] len s by simp
      with glob_end_adds [of "path @ pattern_text is" env g] step [of "path @ pattern_text is"] s len Cons.prems(5)
      show ?thesis by (simp add: Nil glob2_literal_part(1) [OF w True len])
    next
      case False
      have "\<exists>g'. glob2 env (map ucast (path @ n)) [] g = Some (0, g') \<and>
          adds g (filter (\<lambda>q. sys_lstat env q \<noteq> None) [path @ n]) g'" if "n \<in> set (names_in env path)" "plain_mode g" for n g
      proof -
        have n: "0 \<notin> set (path @ n)" "length (path @ n) < MAXPATHLEN env" "length (path @ n) \<le> MAXPATHLEN env - 1"
          using names_withinD [OF assms(1) that(1)] Cons.prems(3) len by auto
        then show ?thesis using that(2) glob_end_adds [of "path @ n" env g] by (simp add: glob2_end)
      qed
      note glob2_magic [OF assms(1) w False Cons.prems(3) len _ this Cons.prems(5)]
      moreover have "concat (map (\<lambda>n. filter (\<lambda>q. sys_lstat env q \<noteq> None) [path @ n]) ns) =
          filter (\<lambda>q. sys_lstat env q \<noteq> None) (map (append path) ns)" for ns by (induction ns) auto
      ultimately show ?thesis using False by (simp add: Nil steps_def)
    qed
  next
    case (Cons js ps')
    let ?rest = "encode (collapse False (joined ps))"
    have e: "encode (collapse False (joined (is # ps))) = encode (collapse False is) @ SLASH # ?rest"
      unfolding Cons by (rule encode_joined)
    have p: "paths_of env path (is # ps) = concat (map (\<lambda>q. paths_of env (q @ [47]) ps) (steps env path is))"
      by (simp add: Cons)
    have IH: "\<exists>g'. glob2 env (map ucast (q @ [47])) ?rest g = Some (0, g') \<and> adds g (paths_of env (q @ [47]) ps) g'"
      if "0 \<notin> set q \<and> length q \<le> length path + L" "plain_mode g" for q g
    proof (rule Cons.IH)
      show "length (q @ [47]) + length ps * Suc L < MAXPATHLEN env - 1" using that(1) Cons.prems(4) by simp
    qed (use that Cons.prems(1) Cons in auto)
    show ?thesis
    proof (cases "literal is")
      case True
      then have s: "steps env path is = [path @ pattern_text is]" by (simp add: steps_def)
      show ?thesis
        unfolding e p glob2_literal_part(2) [OF w True len] using IH [OF step Cons.prems(5)] s by simp
    next
      case False
      have "\<exists>g'. glob2 env (map ucast (path @ n)) (SLASH # ?rest) g = Some (0, g') \<and>
          adds g (paths_of env ((path @ n) @ [47]) ps) g'" if n: "n \<in> set (names_in env path)" "plain_mode g" for n g
      proof -
        have q: "0 \<notin> set (path @ n) \<and> length (path @ n) \<le> length path + L"
          using names_withinD [OF assms(1) n(1)] Cons.prems(3) by simp
        then have "length (path @ n) + 1 < MAXPATHLEN env" using len by linarith
        from glob2_slash [OF this] show ?thesis using IH [OF q n(2)] by simp
      qed
      note glob2_magic [OF assms(1) w False Cons.prems(3) len _ this Cons.prems(5)]
      then show ?thesis unfolding e p using False by (simp add: steps_def comp_def)
    qed
  qed
qed simp

subsection \<open>From the interface\<close>

lemma glob_tree:
  assumes "taken_literally env flags (joined ps)" "listing flags" "joined ps \<noteq> []"
    and "names_within env L" "\<forall>is \<in> set ps. part_within env L is" "length ps * Suc L < MAXPATHLEN env - 1"
  shows "\<exists>g'. glob env (pattern_text (joined ps)) flags None g =
      Some (if paths_of env [] ps = [] then GLOB_NOMATCH else 0, g') \<and> gl_pathv g' = sort_paths (paths_of env [] ps)"
proof -
  let ?s = "started env flags None g"
  let ?p = "encode (collapse False (joined ps))"
  define g0 where "g0 m = ?s\<lparr>gl_flags := (if m then gl_flags ?s OR GLOB_MAGCHAR else gl_flags ?s), gl_limit := 0\<rparr>" for m
  have ne: "ps \<noteq> []" using assms(3) by auto
  have "?p \<noteq> []" using assms(3) by (cases "joined ps"; cases "hd (joined ps)") auto
  moreover have "\<exists>g1. glob2 env [] ?p (g0 m) = Some (0, g1) \<and> adds (g0 m) (paths_of env [] ps) g1" for m
  proof -
    have h: "has (g0 m) f = has ?s f" if "f AND GLOB_MAGCHAR = 0" for f
      using that by (cases m) (simp_all add: g0_def has_def)
    have "plain_mode (g0 m)"
      using h started_listing [OF assms(2)] by (simp add: plain_mode_def) (simp add: g0_def started_def Let_def)
    then show ?thesis using glob2_walk [OF assms(4,5) ne, of "[]" "g0 m"] assms(6) by simp
  qed
  moreover have "gl_pathv (g0 m) = []" for m using started_listing(1) [OF assms(2)] by (simp add: g0_def)
  ultimately have "\<exists>g1. glob1 env ?p (g0 m) = Some (0, g1) \<and> gl_pathv g1 = paths_of env [] ps \<and> gl_flags g1 = gl_flags (g0 m)" for m
    by (auto simp: glob1_def adds_def)
  then obtain g1 where "glob1 env ?p (g0 m) = Some (0, g1 m) \<and> gl_pathv (g1 m) = paths_of env [] ps \<and>
      gl_flags (g1 m) = gl_flags (g0 m)" for m by metis
  then show ?thesis by (intro glob0_result [OF assms(2,1), of _ _ g1]) (simp add: g0_def)
qed

text \<open>A directory with two subdirectories for the example.\<close>

definition demo_dirs :: glob_env where
  "demo_dirs = \<lparr>MAXPATHLEN = 64, PHP_WIN32 = False, arg_max_bytes = 65536, env_HOME = None, pw_self = None,
     pw_user = (\<lambda>_. None),
     sys_lstat = (\<lambda>p. if p \<in> {[98, 47, 120], [97, 47, 120]} then Some Other_File else None),
     sys_stat = (\<lambda>p. if p \<in> {[98, 47, 120], [97, 47, 120]} then Some Other_File else None),
     sys_opendir = (\<lambda>p. if p = [46] then Some [[98], [46, 99], [97], [99]]
       else if p = [98, 47] then Some [[120], [121]] else if p = [97, 47] then Some [[120]] else None)\<rparr>"

text \<open>C3. A pattern of any number of parts, taken as it is written, returns the sorted list of the
  paths of the abstract walk: a literal part leads to the path that is written, any other part to
  every name of the directory reached that it matches, a name with a leading dot only if the part
  starts with one, unreadable directories give nothing, and what the last part leads to counts if it
  exists. With no such path the result is \<open>GLOB_NOMATCH\<close>.\<close>
theorem glob_tree_spec:
  assumes "taken_literally env flags (joined ps)" "listing flags" "joined ps \<noteq> []"
    and "names_within env L" "\<forall>is \<in> set ps. part_within env L is" "length ps * Suc L < MAXPATHLEN env - 1"
  shows "\<exists>g'. glob env (pattern_text (joined ps)) flags None g =
      Some (if paths_of env [] ps = [] then GLOB_NOMATCH else 0, g') \<and> gl_pathv g' = sort_paths (paths_of env [] ps)"
  using assms by (rule glob_tree)

theorem glob_tree_spec_witness:
  "\<exists>g'. glob demo_dirs [42, 47, 120] 0 None empty_glob = Some (0, g') \<and> gl_pathv g' = [[97, 47, 120], [98, 47, 120]]"
proof -
  let ?ps = "[[Any], [Lit 120]]"
  have t: "taken_literally demo_dirs 0 (joined ?ps)"
    by (simp add: taken_literally_def demo_dirs_def glob_chars)
  have p: "pattern_text (joined ?ps) = [42, 47, 120]" by (simp add: pattern_text_def glob_chars)
  have w: "names_within demo_dirs 2" "\<forall>is \<in> set ?ps. part_within demo_dirs 2 is"
    by (simp_all add: names_within_def demo_dirs_def part_within_def IS_SLASH_def glob_chars)
  have "names_in demo_dirs [] = [[98], [46, 99], [97], [99]]" by (simp add: names_in_def demo_dirs_def)
  then have "selected [Any] (names_in demo_dirs []) = [[98], [97], [99]]"
    by (simp add: selected_def ex_le_Suc DOT_def)
  then have s: "paths_of demo_dirs [] ?ps = [[98, 47, 120], [97, 47, 120]]"
    by (simp add: steps_def literal_def pattern_text_def demo_dirs_def)
  have "listing 0" "joined ?ps \<noteq> []" "length ?ps * Suc 2 < MAXPATHLEN demo_dirs - 1"
    by (simp_all add: listing_def demo_dirs_def)
  from glob_tree_spec [OF t this(1,2) w this(3), of empty_glob] show ?thesis
    unfolding p s by (simp add: sort_paths_def)
qed

end
