(* ===== verification/PhpDir.thy ===== *)
theory PhpDir
  imports GlobTree
begin

text \<open>
  The directory functions on top of pathname matching (ext/standard/dir.c, with \<open>HAVE_GLOB\<close>, without
  \<open>ZTS\<close>): \<open>glob_quote\<close> turns a string into a pattern for that string, and \<open>glob\<close> checks its arguments,
  calls the library and filters the result. The library function is an argument of \<open>php_glob\<close>:
  win32/glob.c is one (\<open>glob\<close> of the theory Glob), the one of the C library another. A PHP string
  is the list of its bytes and may contain NUL; what the library sees ends there.
\<close>

subsection \<open>Quoting\<close>

text \<open>The buffer: allocated and unwritten bytes are \<open>None\<close>; \<open>d\<close> is the write position.\<close>

definition put_byte :: "byte \<Rightarrow> byte option list \<times> nat \<Rightarrow> (byte option list \<times> nat) option" where
  "put_byte c st = (case st of (buf, d) \<Rightarrow> if d < length buf then Some (buf[d := Some c], Suc d) else None)"

definition special :: "byte \<Rightarrow> bool" where
  "special c \<longleftrightarrow> c = 42 \<or> c = 63 \<or> c = 91 \<or> c = 93 \<or> c = 126 \<or> c = 123 \<or> c = 125"

fun quote_loop :: "byte list \<Rightarrow> byte option list \<times> nat \<Rightarrow> (byte option list \<times> nat) option" where
  "quote_loop [] st = Some st"
| "quote_loop (c # s) st = do {
     st \<leftarrow> (if special c then do { st \<leftarrow> put_byte 91 st; st \<leftarrow> put_byte c st; put_byte 93 st }
            else put_byte c st);
     quote_loop s st }"

text \<open>
  The size is computed in \<open>int\<close>, where overflow is undefined; \<open>erealloc\<close> leaves the first
  \<open>buf_len\<close> bytes. The result is the block behind the returned string, and the length of the string.
\<close>

definition glob_quote :: "byte list \<Rightarrow> (byte option list \<times> nat) option" where
  "glob_quote pattern =
     (let pattern_len = length pattern in
      if int pattern_len * 3 > 2147483647 then None
      else do {
        (buf, buf_len) \<leftarrow> quote_loop pattern (replicate (pattern_len * 3) None, 0);
        Some (take buf_len buf, buf_len) })"

subsection \<open>The glob function\<close>

record dir_env =
  max_path :: nat
  open_basedir :: "byte list option"
  basedir_refuses :: "byte list \<Rightarrow> bool"
  vcwd_stat :: "byte list \<Rightarrow> file_kind option"

datatype dir_warning = Pattern_Too_Long | Invalid_Flags

datatype dir_value = Return_False | Return_Array "byte list list"

definition GLOB_ONLYDIR :: ulong where "GLOB_ONLYDIR = 0x40000000"
definition GLOB_FLAGMASK :: ulong where "GLOB_FLAGMASK = NOT GLOB_ONLYDIR"

definition GLOB_AVAILABLE_FLAGS :: ulong where
  "GLOB_AVAILABLE_FLAGS = ucast GLOB_BRACE OR ucast GLOB_MARK OR ucast GLOB_NOSORT OR ucast GLOB_NOCHECK OR
     ucast GLOB_NOESCAPE OR ucast GLOB_ERR OR GLOB_ONLYDIR"

definition basedir_set :: "dir_env \<Rightarrow> bool" where
  "basedir_set de \<longleftrightarrow> (case open_basedir de of None \<Rightarrow> False | Some d \<Rightarrow> d \<noteq> [])"

definition no_results :: "dir_env \<Rightarrow> byte list \<Rightarrow> dir_value" where
  "no_results de pattern =
     (if basedir_set de \<and> vcwd_stat de pattern \<noteq> Some Directory then Return_False else Return_Array [])"

text \<open>The loop over the paths: the array and whether a path was withheld.\<close>

fun collect_paths :: "dir_env \<Rightarrow> ulong \<Rightarrow> byte list list \<Rightarrow> byte list list \<Rightarrow> bool \<Rightarrow> byte list list \<times> bool" where
  "collect_paths de flags [] arr limited = (arr, limited)"
| "collect_paths de flags (p # ps) arr limited =
     (if basedir_set de \<and> basedir_refuses de p then collect_paths de flags ps arr True
      else if flags AND GLOB_ONLYDIR \<noteq> 0 \<and> vcwd_stat de p \<noteq> Some Directory
      then collect_paths de flags ps arr limited
      else collect_paths de flags ps (arr @ [p]) limited)"

definition zero_glob :: glob_t where
  "zero_glob = \<lparr>gl_matchc = 0, gl_offs = 0, gl_flags = 0, gl_pathv = [], gl_errfunc = None, gl_limit = 0\<rparr>"

type_synonym glob_function = "byte list \<Rightarrow> uint \<Rightarrow> (byte list \<Rightarrow> bool) option \<Rightarrow> glob_t \<Rightarrow> (int \<times> glob_t) option"

definition php_glob :: "dir_env \<Rightarrow> glob_function \<Rightarrow> byte list \<Rightarrow> ulong \<Rightarrow> (dir_warning list \<times> dir_value) option" where
  "php_glob de libglob pattern flags =
     (if length pattern \<ge> max_path de then Some ([Pattern_Too_Long], Return_False)
      else if GLOB_AVAILABLE_FLAGS AND flags \<noteq> flags then Some ([Invalid_Flags], Return_False)
      else
        let cpattern = takeWhile (\<lambda>b. b \<noteq> 0) pattern in
        do {
          (ret, globbuf) \<leftarrow> libglob cpattern (ucast (flags AND GLOB_FLAGMASK)) None zero_glob;
          Some ([],
            if ret \<noteq> 0 then if ret = GLOB_NOMATCH then no_results de cpattern else Return_False
            else if gl_pathv globbuf = [] then no_results de cpattern
            else (case collect_paths de flags (gl_pathv globbuf) [] False of (arr, basedir_limit) \<Rightarrow>
              if basedir_limit \<and> arr = [] then Return_False else Return_Array arr)) })"

subsection \<open>What quoting produces\<close>

definition quoted :: "byte list \<Rightarrow> byte list" where
  "quoted s = concat (map (\<lambda>c. if special c then [91, c, 93] else [c]) s)"

lemma quoted_simps [simp]: "quoted [] = []"
  "quoted (c # s) = (if special c then 91 # c # 93 # quoted s else c # quoted s)"
  by (simp_all add: quoted_def)

lemma quoted_length: "length s \<le> length (quoted s)" "length (quoted s) \<le> 3 * length s"
  by (induction s) auto

definition buffer_of :: "nat \<Rightarrow> byte list \<Rightarrow> byte option list" where
  "buffer_of n out = map Some out @ replicate (n - length out) None"

lemma put_byte_ok: "length out < n \<Longrightarrow>
  put_byte c (buffer_of n out, length out) = Some (buffer_of n (out @ [c]), length (out @ [c]))"
proof -
  assume "length out < n"
  then obtain m where "n = Suc (length out + m)" using less_iff_Suc_add by auto
  then show ?thesis by (simp add: put_byte_def buffer_of_def list_update_append)
qed

lemma quote_loop_ok: "length out + 3 * length s \<le> n \<Longrightarrow>
  quote_loop s (buffer_of n out, length out) = Some (buffer_of n (out @ quoted s), length (out @ quoted s))"
proof (induction s arbitrary: out)
  case (Cons c s)
  show ?case
  proof (cases "special c")
    case True
    have "put_byte 91 (buffer_of n out, length out) = Some (buffer_of n (out @ [91]), length (out @ [91]))"
      "put_byte c (buffer_of n (out @ [91]), length (out @ [91])) = Some (buffer_of n (out @ [91, c]), length (out @ [91, c]))"
      "put_byte 93 (buffer_of n (out @ [91, c]), length (out @ [91, c])) =
        Some (buffer_of n (out @ [91, c, 93]), length (out @ [91, c, 93]))"
      using put_byte_ok [of out n 91] put_byte_ok [of "out @ [91]" n c] put_byte_ok [of "out @ [91, c]" n 93] Cons.prems
      by simp_all
    then show ?thesis using True Cons.IH [of "out @ [91, c, 93]"] Cons.prems by simp
  next
    case False
    then show ?thesis using put_byte_ok [of out n c] Cons.IH [of "out @ [c]"] Cons.prems by simp
  qed
qed simp

lemma glob_quote_ok: "int (length s) * 3 \<le> 2147483647 \<Longrightarrow>
  glob_quote s = Some (map Some (quoted s), length (quoted s))"
  using quote_loop_ok [of "[]" s "3 * length s"]
  by (simp add: glob_quote_def buffer_of_def Let_def mult.commute)

text \<open>The pattern as items.\<close>

definition quote_item :: "byte \<Rightarrow> item" where
  "quote_item c = (if special c then Set False [Single (ucast c)] else Lit (ucast c))"

lemma byte_Char_eq [simp]: "(ucast (b :: byte) :: Char) = ucast c \<longleftrightarrow> b = c"
  by (metis ucast_byte_Char)

lemma byte_chars: "(ucast (b :: byte) :: Char) = LBRACKET \<longleftrightarrow> b = 91" "(ucast b :: Char) = QUESTION \<longleftrightarrow> b = 63"
  "(ucast b :: Char) = STAR \<longleftrightarrow> b = 42" "(ucast b :: Char) = NOT_CHAR \<longleftrightarrow> b = 33"
  "(ucast b :: Char) = SLASH \<longleftrightarrow> b = 47" "(ucast b :: Char) = QUOTE \<longleftrightarrow> b = 92" "(ucast b :: Char) = LBRACE \<longleftrightarrow> b = 123"
  using byte_Char_eq [of b 91] byte_Char_eq [of b 63] byte_Char_eq [of b 42] byte_Char_eq [of b 33]
    byte_Char_eq [of b 47] byte_Char_eq [of b 92] byte_Char_eq [of b 123]
  by (simp_all add: glob_chars)

lemma quote_writable: "\<forall>i \<in> set (map quote_item s). writable i"
  by (auto simp: quote_item_def special_def byte_chars NOT_CHAR_def)

lemma quote_print: "print (map quote_item s) = map ucast (quoted s)"
  by (induction s) (auto simp: quote_item_def glob_chars)

lemma quote_text: "pattern_text (map quote_item s) = quoted s"
  by (simp add: pattern_text_def quote_print comp_def)

lemma quote_matches: "matches (map quote_item s) name \<longleftrightarrow> name = map ucast s"
  by (induction s arbitrary: name) (auto simp: quote_item_def split: list.splits)

subsection \<open>A contract for the library function\<close>

text \<open>
  What \<open>php_glob\<close> needs of a library: where its environment is sane it returns, and, not asked to
  give the pattern back, it lists only what is there.
\<close>

locale glob_library =
  fixes libglob :: "'e \<Rightarrow> glob_function" and sane :: "'e \<Rightarrow> bool" and listed :: "'e \<Rightarrow> uint \<Rightarrow> byte list \<Rightarrow> bool"
  assumes returns: "sane e \<Longrightarrow> \<exists>err g'. libglob e pattern flags errfunc g = Some (err, g')"
    and lists: "\<lbrakk>libglob e pattern flags errfunc g = Some (err, g'); flags AND GLOB_APPEND = 0; flags AND GLOB_NOCHECK = 0;
      flags AND GLOB_NOMAGIC = 0; p \<in> set (gl_pathv g')\<rbrakk> \<Longrightarrow> listed e flags p"
begin

lemma php_glob_returns: "sane e \<Longrightarrow> \<exists>ws v. php_glob de (libglob e) pattern flags = Some (ws, v)"
  using returns [of e "takeWhile (\<lambda>b. b \<noteq> 0) pattern" "ucast (flags AND GLOB_FLAGMASK)" None zero_glob]
  by (auto simp: php_glob_def Let_def)

end

lemma collect_paths_spec: "collect_paths de flags ps arr limited =
  (arr @ filter (\<lambda>p. \<not> (basedir_set de \<and> basedir_refuses de p) \<and>
      (flags AND GLOB_ONLYDIR \<noteq> 0 \<longrightarrow> vcwd_stat de p = Some Directory)) ps,
   limited \<or> (\<exists>p \<in> set ps. basedir_set de \<and> basedir_refuses de p))"
  by (induction ps arbitrary: arr limited) auto

lemma available_flags:
  assumes "GLOB_AVAILABLE_FLAGS AND flags = flags"
  shows "(ucast (flags AND GLOB_FLAGMASK) :: uint) AND GLOB_APPEND = 0"
    "(ucast (flags AND GLOB_FLAGMASK) :: uint) AND GLOB_NOMAGIC = 0"
    "(ucast (flags AND GLOB_FLAGMASK) :: uint) AND GLOB_TILDE = 0"
    "(ucast (flags AND GLOB_FLAGMASK) :: uint) AND GLOB_LIMIT = 0"
proof -
  have e: "(ucast (flags AND GLOB_FLAGMASK) :: uint) AND x = ucast (flags AND GLOB_FLAGMASK AND GLOB_AVAILABLE_FLAGS) AND x" for x
  proof -
    have "flags AND GLOB_FLAGMASK AND GLOB_AVAILABLE_FLAGS = (GLOB_AVAILABLE_FLAGS AND flags) AND GLOB_FLAGMASK"
      by (simp only: ac_simps)
    then show ?thesis using assms by simp
  qed
  have z: "(ucast (flags AND GLOB_FLAGMASK AND GLOB_AVAILABLE_FLAGS) :: uint) AND x = 0"
    if "(ucast GLOB_AVAILABLE_FLAGS :: uint) AND x = 0" for x
    using that by (auto simp: bit_eq_iff bit_simps)
  show "(ucast (flags AND GLOB_FLAGMASK) :: uint) AND GLOB_APPEND = 0"
    "(ucast (flags AND GLOB_FLAGMASK) :: uint) AND GLOB_NOMAGIC = 0"
    "(ucast (flags AND GLOB_FLAGMASK) :: uint) AND GLOB_TILDE = 0"
    "(ucast (flags AND GLOB_FLAGMASK) :: uint) AND GLOB_LIMIT = 0"
    unfolding e by (rule z, simp add: GLOB_AVAILABLE_FLAGS_def GLOB_BRACE_def GLOB_MARK_def GLOB_NOSORT_def GLOB_NOCHECK_def
      GLOB_NOESCAPE_def GLOB_ERR_def GLOB_ONLYDIR_def GLOB_APPEND_def GLOB_NOMAGIC_def GLOB_TILDE_def GLOB_LIMIT_def)+
qed

lemma library_flag:
  assumes "f AND ucast GLOB_ONLYDIR = 0"
  shows "(ucast (flags AND GLOB_FLAGMASK) :: uint) AND f = 0 \<longleftrightarrow> flags AND ucast f = 0"
proof -
  have "\<not> bit GLOB_ONLYDIR n" if "bit f n" "n < 32" for n
    using assms that by (auto simp: bit_eq_iff bit_simps)
  moreover have "n < 32 \<and> n < 64" if "bit f n" for n using bit_imp_le_length [OF that] by simp
  ultimately show ?thesis by (auto simp: bit_eq_iff bit_simps GLOB_FLAGMASK_def)
qed

lemma php_glob_array:
  assumes "php_glob de libglob pattern flags = Some (ws, Return_Array ps)" "p \<in> set ps"
  obtains err g' where
    "libglob (takeWhile (\<lambda>b. b \<noteq> 0) pattern) (ucast (flags AND GLOB_FLAGMASK)) None zero_glob = Some (err, g')"
    "p \<in> set (gl_pathv g')" "GLOB_AVAILABLE_FLAGS AND flags = flags"
    "\<not> (basedir_set de \<and> basedir_refuses de p)" "flags AND GLOB_ONLYDIR \<noteq> 0 \<longrightarrow> vcwd_stat de p = Some Directory"
  using assms by (auto simp: php_glob_def Let_def bind_eq_Some_iff collect_paths_spec no_results_def split: if_splits)

context glob_library
begin

lemma php_glob_listed:
  assumes "php_glob de (libglob e) pattern flags = Some (ws, Return_Array ps)" "p \<in> set ps"
    "flags AND ucast GLOB_NOCHECK = 0"
  shows "listed e (ucast (flags AND GLOB_FLAGMASK)) p"
proof -
  from assms(1,2) obtain err g' where
    g: "libglob e (takeWhile (\<lambda>b. b \<noteq> 0) pattern) (ucast (flags AND GLOB_FLAGMASK)) None zero_glob = Some (err, g')"
    "p \<in> set (gl_pathv g')" "GLOB_AVAILABLE_FLAGS AND flags = flags"
    by (rule php_glob_array)
  have "(ucast (flags AND GLOB_FLAGMASK) :: uint) AND GLOB_NOCHECK = 0"
    using assms(3) by (subst library_flag) (simp_all add: GLOB_NOCHECK_def GLOB_ONLYDIR_def)
  then show ?thesis using lists [OF g(1)] available_flags [OF g(3)] g(2) by simp
qed

end

text \<open>win32/glob.c is such a library.\<close>

interpretation win32: glob_library glob "\<lambda>env. sys_lstat env [] = None \<and> 0 < MAXPATHLEN env" listed_path
  by unfold_locales (use glob_total glob_lists in blast)+

subsection \<open>Finding a quoted name\<close>

lemma quoted_nul: "0 \<notin> set s \<Longrightarrow> takeWhile (\<lambda>b. b \<noteq> 0) (quoted s) = quoted s"
  by (induction s) (auto simp: special_def)

lemma quoted_chars: "set (quoted s) \<subseteq> {91, 93} \<union> set s"
  by (induction s) auto

lemma selected_quoted:
  assumes "s \<noteq> []"
  shows "selected (map quote_item s) names = filter (\<lambda>n. n = s) names"
proof -
  have "hd (map quote_item s) = Lit DOT" if "hd s = 46"
    using that assms by (cases s) (auto simp: quote_item_def special_def DOT_def)
  moreover have "map ucast n = (map ucast s :: Char list) \<longleftrightarrow> n = s" for n
    by (metis (no_types) inj_map_eq_map injI byte_Char_eq)
  ultimately show ?thesis using assms unfolding selected_def quote_matches by (intro filter_cong) auto
qed

text \<open>A path as the list of its components, and what it takes for every quoted one to be found: it is listed once in the directory in front of it.\<close>

fun split_path :: "byte list \<Rightarrow> byte list list" where
  "split_path [] = [[]]"
| "split_path (c # s) = (if c = 47 then [] # split_path s
     else (case split_path s of [] \<Rightarrow> [[c]] | p # ps \<Rightarrow> (c # p) # ps))"

fun listed_along :: "glob_env \<Rightarrow> byte list \<Rightarrow> byte list list \<Rightarrow> bool" where
  "listed_along env path [] = True"
| "listed_along env path (c # cs) \<longleftrightarrow>
     ((\<exists>x \<in> set c. special x) \<longrightarrow> count_list (names_in env path) c = 1) \<and> listed_along env (path @ c @ [47]) cs"

fun join_path :: "byte list list \<Rightarrow> byte list" where
  "join_path [] = []"
| "join_path [c] = c"
| "join_path (c # cs) = c @ 47 # join_path cs"

lemma split_path_not_Nil [simp]: "split_path s \<noteq> []"
  by (induction s) (auto split: list.split)

lemma join_split: "join_path (split_path s) = s"
proof (induction s)
  case (Cons c s)
  then show ?case by (cases "split_path s"; cases "tl (split_path s)") auto
qed simp

lemma split_path_chars: "c \<in> set (split_path s) \<Longrightarrow> set c \<subseteq> set s - {47}"
proof (induction s arbitrary: c)
  case (Cons x s)
  obtain p ps where s: "split_path s = p # ps" by (cases "split_path s") auto
  show ?case using Cons.prems Cons.IH s by (fastforce split: if_splits)
qed simp

lemma split_path_items: "joined (map (map quote_item) (split_path s)) = map quote_item s"
proof (induction s)
  case (Cons c s)
  obtain p ps where s: "split_path s = p # ps" by (cases "split_path s") auto
  have "quote_item 47 = Lit SLASH" by (simp add: quote_item_def special_def SLASH_def)
  then show ?case using Cons s by (cases ps) auto
qed simp

lemma filter_once: "count_list names c = 1 \<Longrightarrow> filter (\<lambda>n. n = c) names = [c]"
proof -
  have "filter (\<lambda>n. n = c) names = replicate (count_list names c) c" by (induction names) auto
  then show "count_list names c = 1 \<Longrightarrow> ?thesis" by simp
qed

lemma quoted_plain: "\<not> (\<exists>x \<in> set c. special x) \<Longrightarrow> quoted c = c"
  by (induction c) auto

lemma quoted_literal: "literal (map quote_item c) \<longleftrightarrow> \<not> (\<exists>x \<in> set c. special x)"
  by (auto simp: literal_def quote_item_def)

lemma quoted_steps:
  assumes "(\<exists>x \<in> set c. special x) \<longrightarrow> count_list (names_in env path) c = 1"
  shows "steps env path (map quote_item c) = [path @ c]"
proof (cases "\<exists>x \<in> set c. special x")
  case True
  then have "c \<noteq> []" by auto
  then show ?thesis using True assms selected_quoted filter_once [of "names_in env path" c]
    by (simp add: steps_def quoted_literal)
next
  case False
  then show ?thesis using quoted_plain [OF False] by (simp add: steps_def quoted_literal quote_text)
qed

lemma quoted_paths:
  assumes "listed_along env path cs" "cs \<noteq> []" "sys_lstat env (path @ join_path cs) \<noteq> None"
  shows "paths_of env path (map (map quote_item) cs) = [path @ join_path cs]"
  using assms
proof (induction cs arbitrary: path)
  case (Cons c cs)
  then have s: "steps env path (map quote_item c) = [path @ c]" by (intro quoted_steps) simp
  show ?case
  proof (cases cs)
    case Nil
    then show ?thesis using s Cons.prems(3) by simp
  next
    case (Cons d ds)
    then show ?thesis using s Cons.IH [of "path @ c @ [47]"] Cons.prems by simp
  qed
qed simp

lemma quoted_part:
  assumes "0 \<notin> set c" "\<forall>x \<in> set c. \<not> IS_SLASH env (ucast x)" "length (quoted c) \<le> L"
  shows "part_within env L (map quote_item c)"
proof -
  have cs: "x = 91 \<or> x = 93 \<or> x \<in> set c" if "x \<in> set (quoted c)" for x using that quoted_chars by blast
  have "\<not> IS_SLASH env (ucast (91 :: byte))" "\<not> IS_SLASH env (ucast (93 :: byte))" by (simp_all add: IS_SLASH_def glob_chars)
  then have "\<not> IS_SLASH env (ucast x)" if "x \<in> set (quoted c)" for x using cs [OF that] assms(2) by blast
  moreover have "0 \<notin> set (quoted c)" using cs assms(1) by fastforce
  moreover have "(ucast (x :: byte) :: Char) = EOS \<longleftrightarrow> x = 0" for x
    using byte_Char_eq [of x 0] by (simp add: EOS_def)
  ultimately show ?thesis using assms(3) quote_writable by (auto simp: part_within_def quote_print eq_commute [of EOS])
qed

text \<open>What the path and its surroundings have to be like.\<close>

definition findable :: "glob_env \<Rightarrow> nat \<Rightarrow> byte list \<Rightarrow> bool" where
  "findable env L s \<longleftrightarrow> s \<noteq> [] \<and> 0 \<notin> set s \<and> \<not> (PHP_WIN32 env \<and> 92 \<in> set s) \<and> sys_lstat env s \<noteq> None \<and>
     listed_along env [] (split_path s) \<and> names_within env L \<and> (\<forall>c \<in> set (split_path s). length (quoted c) \<le> L) \<and>
     length (split_path s) * Suc L < MAXPATHLEN env - 1"

lemma glob_quoted:
  assumes "listing f" "f AND GLOB_BRACE = 0 \<or> 123 \<notin> set s" "PHP_WIN32 env \<or> f AND GLOB_NOESCAPE \<noteq> 0 \<or> 92 \<notin> set s"
    and "length (quoted s) < MAXPATHLEN env" "findable env L s"
  shows "\<exists>g'. glob env (quoted s) f None g = Some (0, g') \<and> gl_pathv g' = [s]"
proof -
  let ?ps = "map (map quote_item) (split_path s)"
  have j: "joined ?ps = map quote_item s" by (rule split_path_items)
  have cs: "c = 91 \<or> c = 93 \<or> c \<in> set s" if "c \<in> set (quoted s)" for c using that quoted_chars by blast
  have "92 \<in> set s" if "92 \<in> set (quoted s)" using cs [OF that] by simp
  moreover have "123 \<in> set s" if "123 \<in> set (quoted s)" using cs [OF that] by simp
  ultimately have t: "taken_literally env f (joined ?ps)"
    unfolding j using quote_writable assms(2-4)
    by (auto simp: taken_literally_def quote_print image_iff byte_chars eq_commute [of _ "ucast _"])
  have f: "s \<noteq> []" "0 \<notin> set s" "\<not> (PHP_WIN32 env \<and> 92 \<in> set s)" "sys_lstat env s \<noteq> None"
    "listed_along env [] (split_path s)" "names_within env L" "\<forall>c \<in> set (split_path s). length (quoted c) \<le> L"
    "length (split_path s) * Suc L < MAXPATHLEN env - 1"
    using assms(5) unfolding findable_def by blast+
  have w: "\<forall>is \<in> set ?ps. part_within env L is"
  proof
    fix "is" assume "is \<in> set ?ps"
    then obtain c where c: "c \<in> set (split_path s)" "is = map quote_item c" by auto
    have sub: "set c \<subseteq> set s - {47}" by (rule split_path_chars [OF c(1)])
    have "\<not> IS_SLASH env (ucast x)" if "x \<in> set c" for x
      using sub that f(3) by (auto simp: IS_SLASH_def byte_chars)
    then show "part_within env L is" unfolding c(2) using sub f(2,7) c(1) by (intro quoted_part) auto
  qed
  have p: "paths_of env [] ?ps = [s]"
    using quoted_paths [OF f(5)] f(4) by (simp add: join_split)
  have "joined ?ps \<noteq> []" "length ?ps * Suc L < MAXPATHLEN env - 1" using f(1,8) by (simp_all add: j)
  from glob_tree [OF t assms(1) this(1) f(6) w this(2), of g] show ?thesis
    by (simp add: p j quote_text sort_paths_def)
qed

lemma php_glob_quoted:
  assumes "flags = 0 \<or> flags = ucast GLOB_NOESCAPE" "PHP_WIN32 env \<or> flags \<noteq> 0 \<or> 92 \<notin> set s"
    and "length (quoted s) < MAXPATHLEN env" "max_path de = MAXPATHLEN env" "open_basedir de = None"
    and "findable env L s"
  shows "php_glob de (glob env) (quoted s) flags = Some ([], Return_Array [s])"
proof -
  define f :: uint where "f = ucast (flags AND GLOB_FLAGMASK)"
  have f: "f = 0 \<and> flags = 0 \<or> f = GLOB_NOESCAPE \<and> flags = 0x1000"
    using assms(1) by (auto simp: f_def GLOB_NOESCAPE_def GLOB_FLAGMASK_def GLOB_ONLYDIR_def)
  then have l: "listing f" "f AND GLOB_BRACE = 0" and e: "PHP_WIN32 env \<or> f AND GLOB_NOESCAPE \<noteq> 0 \<or> 92 \<notin> set s"
    using assms(2) by (auto simp: listing_def GLOB_MARK_def GLOB_NOCHECK_def GLOB_NOSORT_def GLOB_NOMAGIC_def GLOB_LIMIT_def
        GLOB_TILDE_def GLOB_BRACE_def GLOB_APPEND_def GLOB_NOESCAPE_def)
  have a: "GLOB_AVAILABLE_FLAGS AND flags = flags" "flags AND GLOB_ONLYDIR = 0"
    using f by (auto simp: GLOB_AVAILABLE_FLAGS_def GLOB_BRACE_def GLOB_MARK_def GLOB_NOSORT_def GLOB_NOCHECK_def
        GLOB_NOESCAPE_def GLOB_ERR_def GLOB_ONLYDIR_def)
  have n: "0 \<notin> set s" using assms(6) by (simp add: findable_def)
  obtain g' where "glob env (quoted s) f None zero_glob = Some (0, g')" "gl_pathv g' = [s]"
    using glob_quoted [OF l(1) _ e assms(3,6)] l(2) by blast
  then show ?thesis
    using a assms(3,4,5) by (simp add: php_glob_def quoted_nul [OF n] Let_def basedir_set_def flip: f_def)
qed

subsection \<open>Properties of the directory functions\<close>

definition demo_dir :: dir_env where
  "demo_dir = \<lparr>max_path = 64, open_basedir = None, basedir_refuses = (\<lambda>_. False),
     vcwd_stat = sys_stat demo_env\<rparr>"

text \<open>C13. Quoting stays inside the buffer of three bytes per input byte: the block it returns is
  fully written and holds the input with each special character put in brackets, and is as long as
  the string.\<close>
theorem glob_quote_spec:
  assumes "int (length s) * 3 \<le> 2147483647"
  shows "glob_quote s = Some (map Some (concat (map (\<lambda>c. if special c then [91, c, 93] else [c]) s)),
    length (concat (map (\<lambda>c. if special c then [91, c, 93] else [c]) s)))"
  using glob_quote_ok [OF assms] unfolding quoted_def .

theorem glob_quote_spec_witness:
  "glob_quote [97, 42, 93] = Some (map Some [97, 91, 42, 93, 91, 93, 93], 7)"
proof -
  have "int (length [97 :: byte, 42, 93]) * 3 \<le> 2147483647" by simp
  from glob_quote_spec [OF this] show ?thesis by (simp add: special_def)
qed

text \<open>C1. Round trip: the pattern \<open>glob_quote\<close> makes, copied and compiled the way \<open>glob\<close> does it, is a
  form that matches the quoted string and no other name. This holds for every string without NUL
  whose pattern fits the buffer, as long as a backslash in it is not taken for an escape, that is
  with \<open>GLOB_NOESCAPE\<close> or without a backslash.\<close>
theorem glob_quote_roundtrip:
  assumes "glob_quote s = Some (block, len)" "0 \<notin> set s" "len < MAXPATHLEN env"
    and "flags AND GLOB_NOESCAPE \<noteq> 0 \<or> 92 \<notin> set s"
  shows "\<exists>q pat m. block = map Some q \<and> len = length q \<and> compile None (copy_pattern env flags q) = Some (pat, m) \<and>
    (\<forall>name. match name pat 0 = Some (name = map ucast s))"
proof -
  have "int (length s) * 3 \<le> 2147483647"
    using assms(1) by (auto simp: glob_quote_def Let_def split: if_splits)
  then have b: "block = map Some (quoted s)" "len = length (quoted s)" using assms(1) glob_quote_ok by simp_all
  have "QUOTE \<notin> set (map ucast (quoted s))" if "92 \<notin> set s"
  proof -
    have "92 \<notin> set (quoted s)" using that quoted_chars [of s] by auto
    then show ?thesis using byte_chars(6) by (metis (no_types, lifting) imageE list.set_map)
  qed
  then have c: "copy_pattern env flags (quoted s) = map ucast (quoted s)"
    using assms(3,4) protect_plain [of "quoted s"] by (auto simp: copy_pattern_def b(2))
  obtain pat m where "compile None (map ucast (quoted s)) = Some (pat, m)"
    "\<forall>name. match name pat 0 = Some (name = map ucast s)"
    using compile_match [OF quote_writable [of s]] by (auto simp: quote_print quote_matches)
  then show ?thesis using b c by metis
qed

theorem glob_quote_roundtrip_witness:
  "\<exists>pat m. compile None (copy_pattern demo_env 0 [97, 91, 42, 93]) = Some (pat, m) \<and> match [97, STAR] pat 0 = Some True \<and>
     match [97, 98] pat 0 = Some False"
proof -
  have g: "glob_quote [97, 42] = Some (map Some [97, 91, 42, 93], 4)"
    by (simp add: glob_quote_ok special_def)
  have "0 \<notin> set [97 :: byte, 42]" "4 < MAXPATHLEN demo_env" "0 AND GLOB_NOESCAPE \<noteq> 0 \<or> 92 \<notin> set [97 :: byte, 42]"
    by (simp_all add: demo_env_def)
  from glob_quote_roundtrip [OF g this] obtain q pat m where q: "map Some [97 :: byte, 91, 42, 93] = map Some q"
    and p: "compile None (copy_pattern demo_env 0 q) = Some (pat, m)" "\<forall>name. match name pat 0 = Some (name = map ucast [97 :: byte, 42])"
    by blast
  from q have "q = [97, 91, 42, 93]" by (metis inj_Some list.inj_map_strong option.inject)
  with p(1) have "compile None (copy_pattern demo_env 0 [97, 91, 42, 93]) = Some (pat, m)" by simp
  moreover have "match [97, STAR] pat 0 = Some True" "match [97, 98] pat 0 = Some False"
    using p(2) [THEN spec, of "[97, STAR]"] p(2) [THEN spec, of "[97, 98]"] by (simp_all add: STAR_def)
  ultimately show ?thesis by blast
qed

text \<open>C14. Over win32/glob.c, \<open>glob\<close> always returns; the array it returns holds only paths the
  library lists as existing (unless the pattern itself was asked for), that \<open>open_basedir\<close> allows,
  and that are directories if only those were asked for.\<close>
theorem php_glob_entries:
  assumes "sys_lstat env [] = None" "0 < MAXPATHLEN env"
  shows "\<exists>ws v. php_glob de (glob env) pattern flags = Some (ws, v) \<and>
    (\<forall>ps. v = Return_Array ps \<longrightarrow> (\<forall>p \<in> set ps.
       (flags AND ucast GLOB_NOCHECK = 0 \<longrightarrow> listed_path env (ucast (flags AND GLOB_FLAGMASK)) p) \<and>
       \<not> (basedir_set de \<and> basedir_refuses de p) \<and>
       (flags AND GLOB_ONLYDIR \<noteq> 0 \<longrightarrow> vcwd_stat de p = Some Directory)))"
proof -
  obtain ws v where r: "php_glob de (glob env) pattern flags = Some (ws, v)"
    using win32.php_glob_returns [of env] assms by blast
  then show ?thesis using win32.php_glob_listed php_glob_array by (metis (no_types, lifting))
qed

theorem php_glob_entries_witness:
  "\<exists>ws v. php_glob demo_dir (glob demo_env) [42] 0x40000000 = Some (ws, v) \<and>
    (\<forall>ps. v = Return_Array ps \<longrightarrow> (\<forall>p \<in> set ps. vcwd_stat demo_dir p = Some Directory))"
proof -
  have "sys_lstat demo_env [] = None" "0 < MAXPATHLEN demo_env" by (simp_all add: demo_env_def demo_names_def)
  from php_glob_entries [OF this, of demo_dir "[42]" "0x40000000"] show ?thesis
    by (auto simp: GLOB_ONLYDIR_def)
qed

text \<open>A directory with a subdirectory \<open>[d]\<close> that holds the files \<open>a*\<close> and \<open>ab\<close>.\<close>

definition demo_tree :: glob_env where
  "demo_tree = \<lparr>MAXPATHLEN = 64, PHP_WIN32 = False, arg_max_bytes = 65536, env_HOME = None, pw_self = None,
     pw_user = (\<lambda>_. None),
     sys_lstat = (\<lambda>p. if p = [91, 100, 93] then Some Directory
       else if p \<in> {[91, 100, 93, 47, 97, 42], [91, 100, 93, 47, 97, 98], [100]} then Some Other_File else None),
     sys_stat = (\<lambda>p. if p = [91, 100, 93] then Some Directory
       else if p \<in> {[91, 100, 93, 47, 97, 42], [91, 100, 93, 47, 97, 98], [100]} then Some Other_File else None),
     sys_opendir = (\<lambda>p. if p = [46] then Some [[91, 100, 93], [100]]
       else if p = [91, 100, 93, 47] then Some [[97, 98], [97, 42]] else None)\<rparr>"

text \<open>C2. Globbing for the quoted path of a file returns exactly that file, whatever special
  characters its components have; a backslash in it must not be taken as an escape, and every
  component that is quoted must be listed once in its directory.\<close>
theorem glob_finds_quoted_path:
  assumes "glob_quote s = Some (map Some q, len)" "findable env L s"
    and "flags = 0 \<or> flags = ucast GLOB_NOESCAPE" "PHP_WIN32 env \<or> flags \<noteq> 0 \<or> 92 \<notin> set s"
    and "len < MAXPATHLEN env" "max_path de = MAXPATHLEN env" "open_basedir de = None"
  shows "php_glob de (glob env) q flags = Some ([], Return_Array [s])"
proof -
  have "int (length s) * 3 \<le> 2147483647"
    using assms(1) by (auto simp: glob_quote_def Let_def split: if_splits)
  then have "map Some q = map Some (quoted s)" "len = length (quoted s)" using assms(1) glob_quote_ok [of s] by auto
  then have "q = quoted s" "length (quoted s) < MAXPATHLEN env" using assms(5) by (simp_all add: inj_map_eq_map)
  then show ?thesis using php_glob_quoted [OF assms(3,4) _ assms(6,7,2)] by simp
qed

theorem glob_finds_quoted_path_witness:
  "php_glob demo_dir (glob demo_tree) [91, 91, 93, 100, 91, 93, 93, 47, 97, 91, 42, 93] 0 =
     Some ([], Return_Array [[91, 100, 93, 47, 97, 42]])"
proof -
  have "glob_quote [91, 100, 93, 47, 97, 42] = Some (map Some [91, 91, 93, 100, 91, 93, 93, 47, 97, 91, 42, 93], 12)"
    by (simp add: glob_quote_ok special_def)
  moreover have "findable demo_tree 7 [91, 100, 93, 47, 97, 42]"
    by (simp add: findable_def demo_tree_def special_def names_in_def names_within_def)
  ultimately show ?thesis
    by (rule glob_finds_quoted_path) (simp_all add: demo_dir_def demo_tree_def)
qed

subsection \<open>Where the code falls short\<close>

text \<open>The returned block has no room for the NUL every PHP string ends with.\<close>

lemma glob_quote_unterminated: "glob_quote s = Some (block, len) \<Longrightarrow> length block = len"
  using glob_quote_ok [of s] by (auto simp: glob_quote_def Let_def split: if_splits)

lemma protect_Nil [simp]: "protect n [] = []"
  by (cases n) simp_all

text \<open>A backslash is not quoted, so with escapes on the pattern for a backslash and a letter finds the letter.\<close>

lemma glob_quote_backslash:
  "glob_quote [92, 97] = Some (map Some [92, 97], 2)"
  "\<exists>pat m. compile None (copy_pattern demo_env 0 [92, 97]) = Some (pat, m) \<and>
     match [97] pat 0 = Some True \<and> match [92, 97] pat 0 = Some False"
proof -
  show "glob_quote [92, 97] = Some (map Some [92, 97], 2)" by (simp add: glob_quote_ok special_def)
  have "copy_pattern demo_env 0 [92, 97] = [0x4061]"
    using protect.simps(3) [of 62 92 "[97]"] by (simp add: copy_pattern_def demo_env_def QUOTE_def M_PROTECT_def)
  moreover have "compile None [0x4061] = Some ([0x61], False)"
    by (simp add: glob_chars CHAR'_def M_ASCII_def)
  moreover have "match [97] [0x61] 0 = Some True" "match [92, 97] [0x61] 0 = Some False"
    by (simp_all add: glob_metas glob_chars)
  ultimately show "\<exists>pat m. compile None (copy_pattern demo_env 0 [92, 97]) = Some (pat, m) \<and>
     match [97] pat 0 = Some True \<and> match [92, 97] pat 0 = Some False"
    by (auto simp del: compile.simps match.simps)
qed

text \<open>
  With \<open>GLOB_BRACE\<close> a quoted brace is still taken for one: the pattern for the name made of a letter
  between braces is globbed as a single opening bracket.
\<close>

lemma glob_quote_braces:
  "2 \<le> MAXPATHLEN env \<Longrightarrow> globexp1 env (map ucast (quoted [123, 97, 125])) g = glob0 env [LBRACKET] g"
proof -
  let ?p = "map ucast (quoted [123, 97, 125]) :: Char list"
  assume "2 \<le> MAXPATHLEN env"
  have p: "?p = [LBRACKET, LBRACE, RBRACKET, 97, LBRACKET, RBRACE, RBRACKET]"
    by (simp add: special_def glob_chars)
  have "find_brace [RBRACKET, 97, LBRACKET, RBRACE, RBRACKET] 0 0 = None"
    by (simp add: find_brace.simps skip_set_def Let_def glob_chars)
  then show ?thesis
    unfolding p using \<open>2 \<le> MAXPATHLEN env\<close> by (subst globexp1.simps) (simp add: protected_braces_def glob_chars Let_def)
qed

text \<open>An alternative with a bracket expression loses what stands in front of the bracket.\<close>

lemma brace_alternative_cut:
  "alternatives [] [97, 98, LBRACKET, 99, RBRACKET, 100, COMMA, 101, RBRACE] 8 0 0 0 =
     [[LBRACKET, 99, RBRACKET, 100], [101]]"
  by (simp add: alternatives.simps skip_set_def char_at_def Let_def glob_chars)

end
