(* ===== verification/Url.thy ===== *)
theory Url
  imports Prelude
begin

text \<open>
  URL encoding (ext/standard/url.c, without \<open>CHARSET_EBCDIC\<close>). The encoders write into a buffer of
  three bytes per input byte and one for the NUL; the decoders work in place, reading ahead of where
  they write. A buffer is the list of its bytes, allocated and unwritten ones being \<open>None\<close> in the
  encoders; access out of range is \<open>None\<close>.
\<close>

subsection \<open>Encoding\<close>

definition hexchars :: "byte list" where
  "hexchars = [48, 49, 50, 51, 52, 53, 54, 55, 56, 57, 65, 66, 67, 68, 69, 70]"

definition store_byte :: "byte option list \<Rightarrow> nat \<Rightarrow> byte \<Rightarrow> byte option list option" where
  "store_byte buf i c = (if i < length buf then Some (buf[i := Some c]) else None)"

definition escaped :: "byte \<Rightarrow> bool" where
  "escaped c \<longleftrightarrow> c < 48 \<and> c \<noteq> 45 \<and> c \<noteq> 46 \<or> c < 65 \<and> c > 57 \<or> c > 90 \<and> c < 97 \<and> c \<noteq> 95 \<or> c > 122"

definition raw_escaped :: "byte \<Rightarrow> bool" where
  "raw_escaped c \<longleftrightarrow> c < 48 \<and> c \<noteq> 45 \<and> c \<noteq> 46 \<or> c < 65 \<and> c > 57 \<or> c > 90 \<and> c < 97 \<and> c \<noteq> 95 \<or> c > 122 \<and> c \<noteq> 126"

definition hex_digit :: "byte \<Rightarrow> byte option" where
  "hex_digit n = (if unat n < length hexchars then Some (hexchars ! unat n) else None)"

fun url_encode_loop :: "byte list \<Rightarrow> byte option list \<Rightarrow> nat \<Rightarrow> (byte option list \<times> nat) option" where
  "url_encode_loop [] buf to = Some (buf, to)"
| "url_encode_loop (c # from) buf to =
     (if c = 32 then do { buf \<leftarrow> store_byte buf to 43; url_encode_loop from buf (to + 1) }
      else if escaped c then do {
        buf \<leftarrow> store_byte buf to 37;
        d \<leftarrow> hex_digit (drop_bit 4 c);
        buf \<leftarrow> store_byte buf (to + 1) d;
        d \<leftarrow> hex_digit (c AND 15);
        buf \<leftarrow> store_byte buf (to + 2) d;
        url_encode_loop from buf (to + 3) }
      else do { buf \<leftarrow> store_byte buf to c; url_encode_loop from buf (to + 1) })"

text \<open>\<open>*new_length\<close> is the difference of the pointers, cut to an \<open>int\<close>.\<close>

definition php_url_encode :: "byte list \<Rightarrow> (byte option list \<times> int) option" where
  "php_url_encode s = do {
     (buf, to) \<leftarrow> url_encode_loop s (replicate (3 * length s + 1) None) 0;
     buf \<leftarrow> store_byte buf to 0;
     Some (buf, i32 (int to)) }"

text \<open>
  The raw encoder first stores the byte and then overwrites it if it has to be escaped. Its index \<open>y\<close> is
  an \<open>int\<close>, whose overflow is undefined; it is looked at after all increments of one byte.
\<close>

fun raw_encode_loop :: "byte list \<Rightarrow> byte option list \<Rightarrow> nat \<Rightarrow> (byte option list \<times> nat) option" where
  "raw_encode_loop [] buf y = (if y > 2147483647 then None else Some (buf, y))"
| "raw_encode_loop (c # s) buf y = (if y > 2147483647 then None else do {
     buf \<leftarrow> store_byte buf y c;
     (if raw_escaped c then do {
        buf \<leftarrow> store_byte buf y 37;
        d \<leftarrow> hex_digit (drop_bit 4 c);
        buf \<leftarrow> store_byte buf (y + 1) d;
        d \<leftarrow> hex_digit (c AND 15);
        buf \<leftarrow> store_byte buf (y + 2) d;
        raw_encode_loop s buf (y + 3) }
      else raw_encode_loop s buf (y + 1)) })"

definition php_raw_url_encode :: "byte list \<Rightarrow> (byte option list \<times> int) option" where
  "php_raw_url_encode s = do {
     (buf, y) \<leftarrow> raw_encode_loop s (replicate (3 * length s + 1) None) 0;
     buf \<leftarrow> store_byte buf y 0;
     Some (buf, int y) }"

subsection \<open>Decoding in place\<close>

definition isxdigit :: "byte \<Rightarrow> bool" where
  "isxdigit c \<longleftrightarrow> 48 \<le> c \<and> c \<le> 57 \<or> 65 \<le> c \<and> c \<le> 70 \<or> 97 \<le> c \<and> c \<le> 102"

definition isupper :: "byte \<Rightarrow> bool" where "isupper c \<longleftrightarrow> 65 \<le> c \<and> c \<le> 90"

definition hex_value :: "byte \<Rightarrow> int" where
  "hex_value c0 = (let c = (if isupper c0 then c0 + 32 else c0) in
     if 48 \<le> c \<and> c \<le> 57 then uint c - 48 else uint c - 97 + 10)"

definition php_htoi :: "byte \<Rightarrow> byte \<Rightarrow> int" where
  "php_htoi s0 s1 = hex_value s0 * 16 + hex_value s1"

definition read_byte :: "byte list \<Rightarrow> nat \<Rightarrow> byte option" where
  "read_byte buf i = (if i < length buf then Some (buf ! i) else None)"

definition write_byte :: "byte list \<Rightarrow> nat \<Rightarrow> byte \<Rightarrow> byte list option" where
  "write_byte buf i c = (if i < length buf then Some (buf[i := c]) else None)"

text \<open>
  \<open>form\<close> tells the two decoders apart; \<open>len\<close> is the number of bytes left, before the loop
  condition counts it down.
\<close>

fun url_decode_loop :: "bool \<Rightarrow> byte list \<Rightarrow> nat \<Rightarrow> nat \<Rightarrow> nat \<Rightarrow> (byte list \<times> nat) option" where
  "url_decode_loop form buf dest data 0 = Some (buf, dest)"
| "url_decode_loop form buf dest data (Suc len) = do {
     c \<leftarrow> read_byte buf data;
     (if form \<and> c = 43 then do { buf \<leftarrow> write_byte buf dest 32; url_decode_loop form buf (dest + 1) (data + 1) len }
      else do {
        hex \<leftarrow> (if c = 37 \<and> len \<ge> 2 then do {
             a \<leftarrow> read_byte buf (data + 1);
             b \<leftarrow> read_byte buf (data + 2);
             Some (if isxdigit a \<and> isxdigit b then Some (a, b) else None) } else Some None);
        (case hex of
           Some (a, b) \<Rightarrow> do {
             buf \<leftarrow> write_byte buf dest (word_of_int (php_htoi a b));
             url_decode_loop form buf (dest + 1) (data + 3) (len - 2) }
         | None \<Rightarrow> do { buf \<leftarrow> write_byte buf dest c; url_decode_loop form buf (dest + 1) (data + 1) len }) }) }"

text \<open>A negative length would count down past the ends of the string.\<close>

definition php_url_decode :: "byte list \<Rightarrow> int \<Rightarrow> (byte list \<times> int) option" where
  "php_url_decode str len = (if len < 0 then None else do {
     (buf, dest) \<leftarrow> url_decode_loop True str 0 0 (nat len);
     buf \<leftarrow> write_byte buf dest 0;
     Some (buf, int dest) })"

definition php_raw_url_decode :: "byte list \<Rightarrow> int \<Rightarrow> (byte list \<times> int) option" where
  "php_raw_url_decode str len = (if len < 0 then None else do {
     (buf, dest) \<leftarrow> url_decode_loop False str 0 0 (nat len);
     buf \<leftarrow> write_byte buf dest 0;
     Some (buf, int dest) })"

subsection \<open>The functions on strings\<close>

text \<open>The text behind a length in an encoder's buffer, and the string a PHP function gets; no string has a negative length.\<close>

definition urlencode :: "byte list \<Rightarrow> byte list option" where
  "urlencode s = do { (buf, n) \<leftarrow> php_url_encode s; if n < 0 then None else those (take (nat n) buf) }"

definition rawurlencode :: "byte list \<Rightarrow> byte list option" where
  "rawurlencode s = do { (buf, n) \<leftarrow> php_raw_url_encode s; if n < 0 then None else those (take (nat n) buf) }"

definition urldecode :: "byte list \<Rightarrow> byte list option" where
  "urldecode s = do { (buf, n) \<leftarrow> php_url_decode (s @ [0]) (int (length s)); Some (take (nat n) buf) }"

definition rawurldecode :: "byte list \<Rightarrow> byte list option" where
  "rawurldecode s = do { (buf, n) \<leftarrow> php_raw_url_decode (s @ [0]) (int (length s)); Some (take (nat n) buf) }"

subsection \<open>What encoding produces\<close>

definition hex :: "byte \<Rightarrow> byte list" where
  "hex c = [37, hexchars ! unat (drop_bit 4 c), hexchars ! unat (c AND 15)]"

definition encoded :: "(byte \<Rightarrow> byte list) \<Rightarrow> byte list \<Rightarrow> byte list" where
  "encoded f s = concat (map f s)"

definition url_form :: "byte \<Rightarrow> byte list" where
  "url_form c = (if c = 32 then [43] else if escaped c then hex c else [c])"

definition raw_form :: "byte \<Rightarrow> byte list" where
  "raw_form c = (if raw_escaped c then hex c else [c])"

lemma encoded_simps [simp]: "encoded f [] = []" "encoded f (c # s) = f c @ encoded f s"
  by (simp_all add: encoded_def)

lemma nibbles: "unat (drop_bit 4 (c :: byte)) = unat c div 16" "unat (c AND 15) = unat c mod 16"
proof -
  show "unat (drop_bit 4 c) = unat c div 16" by (simp add: unat_drop_bit_eq drop_bit_nat_def)
  have "c AND 15 = take_bit 4 c" by (simp add: take_bit_eq_mask mask_numeral)
  then show "unat (c AND 15) = unat c mod 16" by (simp add: unsigned_take_bit_eq take_bit_nat_def)
qed

lemma nibbles_less: "unat (drop_bit 4 (c :: byte)) < 16" "unat (c AND 15) < 16"
proof -
  have "unat c < 256" using unsigned_less [of c] by simp
  then show "unat (drop_bit 4 c) < 16" "unat (c AND 15) < 16" by (simp_all add: nibbles)
qed

lemma hex_digits: "hex_digit (drop_bit 4 c) = Some (hexchars ! unat (drop_bit 4 c))"
  "hex_digit (c AND 15) = Some (hexchars ! unat (c AND 15))"
  using nibbles_less [of c] by (simp_all add: hex_digit_def hexchars_def)

definition room :: "nat \<Rightarrow> byte list \<Rightarrow> byte option list" where
  "room n out = map Some out @ replicate (n - length out) None"

lemma store_room: "length out < n \<Longrightarrow> store_byte (room n out) (length out) c = Some (room n (out @ [c]))"
proof -
  assume "length out < n"
  then obtain m where "n = Suc (length out + m)" using less_iff_Suc_add by auto
  then show ?thesis by (simp add: store_byte_def room_def list_update_append)
qed

lemma store_again: "length out < n \<Longrightarrow> store_byte (room n (out @ [c])) (length out) d = Some (room n (out @ [d]))"
  by (simp add: store_byte_def room_def list_update_append)

lemma store_hex:
  assumes "length out + 3 \<le> n"
  shows "store_byte (room n (out @ [x])) (length out + 1) y = Some (room n (out @ [x, y]))"
    "store_byte (room n (out @ [x, y])) (length out + 2) z = Some (room n (out @ [x, y, z]))"
  using assms store_room [of "out @ [x]" n y] store_room [of "out @ [x, y]" n z] by simp_all

lemma url_encode_loop_ok: "length out + 3 * length s \<le> n \<Longrightarrow>
  url_encode_loop s (room n out) (length out) = Some (room n (out @ encoded url_form s), length (out @ encoded url_form s))"
proof (induction s arbitrary: out)
  case (Cons c s)
  have l: "length out < n" using Cons.prems by simp
  consider "c = 32" | "c \<noteq> 32" "escaped c" | "c \<noteq> 32" "\<not> escaped c" by blast
  then show ?case
  proof cases
    case 2
    let ?x = "out @ hex c"
    have "url_encode_loop s (room n ?x) (length ?x) = Some (room n (?x @ encoded url_form s), length (?x @ encoded url_form s))"
      using Cons.IH [of ?x] Cons.prems by (simp add: hex_def)
    moreover have "url_form c = hex c" using 2 by (simp add: url_form_def)
    ultimately show ?thesis
      using 2 store_room [OF l, of 37] store_hex [of out n] Cons.prems
      by (simp add: hex_digits hex_def numeral_3_eq_3)
  qed (use Cons.IH [of "out @ [43]"] Cons.IH [of "out @ [c]"] Cons.prems store_room [OF l] in
      \<open>simp_all add: url_form_def [of c] url_form_def [of 32]\<close>)
qed simp

lemma raw_encode_loop_ok: "\<lbrakk>length out + 3 * length s \<le> n; length out + 3 * length s \<le> 2147483647\<rbrakk> \<Longrightarrow>
  raw_encode_loop s (room n out) (length out) = Some (room n (out @ encoded raw_form s), length (out @ encoded raw_form s))"
proof (induction s arbitrary: out)
  case (Cons c s)
  have l: "length out < n" using Cons.prems by simp
  show ?case
  proof (cases "raw_escaped c")
    case True
    let ?x = "out @ hex c"
    have "raw_encode_loop s (room n ?x) (length ?x) = Some (room n (?x @ encoded raw_form s), length (?x @ encoded raw_form s))"
      using Cons.IH [of ?x] Cons.prems by (simp add: hex_def)
    moreover have "raw_form c = hex c" using True by (simp add: raw_form_def)
    ultimately show ?thesis
      using True store_room [OF l, of c] store_again [OF l, of c 37] store_hex [of out n] Cons.prems
      by (simp add: hex_digits hex_def numeral_3_eq_3)
  qed (use Cons.IH [of "out @ [c]"] Cons.prems store_room [OF l] in \<open>simp_all add: raw_form_def [of c]\<close>)
qed simp

lemma hex_length: "length (hex c) = 3" by (simp add: hex_def)

lemma encoded_length: "(\<And>c. length (f c) \<le> 3) \<Longrightarrow> length (encoded f s) \<le> 3 * length s"
  by (induction s) (auto intro: add_mono)

lemma those_Some: "those (map Some xs) = Some xs"
  by (induction xs) simp_all

lemma room_take: "length out \<le> n \<Longrightarrow> take (length out) (room n out) = map Some out"
  by (simp add: room_def)

lemma urlencode_ok: "length s \<le> 715827882 \<Longrightarrow> urlencode s = Some (encoded url_form s)"
proof -
  assume small: "length s \<le> 715827882"
  let ?e = "encoded url_form s" and ?n = "3 * length s + 1"
  have l: "length ?e \<le> 3 * length s" by (rule encoded_length) (simp add: url_form_def hex_length)
  then have "store_byte (room ?n ?e) (length ?e) 0 = Some (room ?n (?e @ [0]))" by (intro store_room) simp
  moreover have "take (length ?e) (room ?n (?e @ [0])) = map Some ?e" by (simp add: room_def)
  moreover have "url_encode_loop s (replicate ?n None) 0 = Some (room ?n ?e, length ?e)"
    using url_encode_loop_ok [of "[]" s ?n] by (simp add: room_def)
  moreover have "i32 (int (length ?e)) = int (length ?e)" using l small by (intro i32_id) simp_all
  ultimately show ?thesis by (simp add: urlencode_def php_url_encode_def those_Some)
qed

lemma rawurlencode_ok: "length s \<le> 715827882 \<Longrightarrow> rawurlencode s = Some (encoded raw_form s)"
proof -
  assume small: "length s \<le> 715827882"
  let ?e = "encoded raw_form s" and ?n = "3 * length s + 1"
  have l: "length ?e \<le> 3 * length s" by (rule encoded_length) (simp add: raw_form_def hex_length)
  then have "store_byte (room ?n ?e) (length ?e) 0 = Some (room ?n (?e @ [0]))" by (intro store_room) simp
  moreover have "take (length ?e) (room ?n (?e @ [0])) = map Some ?e" by (simp add: room_def)
  moreover have "raw_encode_loop s (replicate ?n None) 0 = Some (room ?n ?e, length ?e)"
    using raw_encode_loop_ok [of "[]" s ?n] small by (simp add: room_def)
  ultimately show ?thesis by (simp add: rawurlencode_def php_raw_url_encode_def those_Some)
qed

subsection \<open>What decoding produces\<close>

fun decoded :: "bool \<Rightarrow> byte list \<Rightarrow> byte list" where
  "decoded form [] = []"
| "decoded form (c # s) =
     (if form \<and> c = 43 then 32 # decoded form s
      else case s of
        a # b # s' \<Rightarrow>
          if c = 37 \<and> isxdigit a \<and> isxdigit b then word_of_int (php_htoi a b) # decoded form s' else c # decoded form s
      | _ \<Rightarrow> c # decoded form s)"

lemma decoded_other:
  assumes "\<not> (form \<and> c = 43)" "\<And>x y s'. s = x # y # s' \<Longrightarrow> \<not> (c = 37 \<and> isxdigit x \<and> isxdigit y)"
  shows "decoded form (c # s) = c # decoded form s"
proof (cases s)
  case (Cons x t)
  then show ?thesis using assms by (cases t) auto
qed (use assms(1) in auto)

lemma list_ahead: "\<lbrakk>take len (drop data buf) = c # r; data + len \<le> length buf\<rbrakk> \<Longrightarrow>
  \<exists>l. len = Suc l \<and> data < length buf \<and> buf ! data = c \<and> take l (drop (Suc data) buf) = r"
  by (cases len) (auto simp: Cons_nth_drop_Suc [symmetric])

text \<open>Writing stays behind reading, so decoding in place is decoding.\<close>

lemma url_decode_loop_ok:
  assumes "take len (drop data buf) = rest" "dest \<le> data" "data + len \<le> length buf"
  shows "\<exists>buf' dest'. url_decode_loop form buf dest data len = Some (buf', dest') \<and>
    dest' \<le> data + len \<and> length buf' = length buf \<and> take dest' buf' = take dest buf @ decoded form rest"
  using assms
proof (induction "length rest" arbitrary: rest len data buf dest rule: less_induct)
  case less
  show ?case
  proof (cases rest)
    case Nil
    then have "len = 0" using less.prems by auto
    then show ?thesis using Nil less.prems by simp
  next
    case (Cons c s)
    then obtain l where len: "len = Suc l" "data < length buf" "buf ! data = c" and b1: "take l (drop (Suc data) buf) = s"
      using list_ahead [of len data buf c s] less.prems(1,3) by auto
    have dt: "take (Suc dest) (buf[dest := x]) = take dest buf @ [x]" for x
      using len less.prems(2) by (simp add: take_Suc_conv_app_nth)
    have rd: "read_byte buf data = Some c" using len by (simp add: read_byte_def)
    have wr: "write_byte buf dest x = Some (buf[dest := x])" for x
      using len less.prems(2) by (simp add: write_byte_def)
    have go: "\<exists>buf' dest'. url_decode_loop form (buf[dest := x]) (dest + 1) n l' = Some (buf', dest') \<and>
        dest' \<le> data + len \<and> length buf' = length buf \<and> take dest' buf' = take dest buf @ x # decoded form t"
      if t: "take l' (drop n buf) = t" "length t < length rest" "data < n" "n + l' = data + len" for x n l' t
    proof -
      have "take l' (drop n (buf[dest := x])) = t" using t(1,3) less.prems(2) by (simp add: drop_update_cancel)
      then show ?thesis
        using less.hyps [OF t(2), of l' n "buf[dest := x]" "dest + 1"] t(3,4) less.prems(2,3) dt by auto
    qed
    show ?thesis
    proof (cases "form \<and> c = 43")
      case True
      then show ?thesis using go [of l "Suc data" s 32] b1 rd wr len Cons by simp
    next
      case no_plus: False
      show ?thesis
      proof (cases "\<exists>x y s'. s = x # y # s' \<and> c = 37 \<and> isxdigit x \<and> isxdigit y")
        case True
        then obtain x y s' where s: "s = x # y # s'" "c = 37" "isxdigit x" "isxdigit y" by blast
        obtain l1 where l1: "l = Suc l1" "Suc data < length buf" "buf ! Suc data = x" "take l1 (drop (Suc (Suc data)) buf) = y # s'"
          using list_ahead [of l "Suc data" buf x "y # s'"] b1 s(1) len(1) less.prems(3) by auto
        obtain l2 where l2: "l1 = Suc l2" "Suc (Suc data) < length buf" "buf ! Suc (Suc data) = y"
          "take l2 (drop (Suc (Suc (Suc data))) buf) = s'"
          using list_ahead [of l1 "Suc (Suc data)" buf y s'] l1 len(1) less.prems(3) by auto
        have "read_byte buf (data + 1) = Some x" "read_byte buf (data + 2) = Some y"
          using l1 l2 by (simp_all add: read_byte_def)
        then show ?thesis
          using go [of l2 "data + 3" s' "word_of_int (php_htoi x y)"] s no_plus rd wr l1(1) l2 len(1) Cons
          by (simp add: numeral_3_eq_3)
      next
        case False
        have "decoded form (c # s) = c # decoded form s" using False by (intro decoded_other [OF no_plus]) blast
        moreover have "url_decode_loop form buf dest data len = url_decode_loop form (buf[dest := c]) (dest + 1) (data + 1) l"
        proof (cases "c = 37 \<and> 2 \<le> l")
          case True
          then obtain x s1 where s1: "s = x # s1" using b1 len less.prems(3) by (cases s) auto
          obtain l1 where l1: "l = Suc l1" "Suc data < length buf" "buf ! Suc data = x" "take l1 (drop (Suc (Suc data)) buf) = s1"
            using list_ahead [of l "Suc data" buf x s1] b1 s1 len(1) less.prems(3) by auto
          then obtain y s2 where s2: "s1 = y # s2" using True len less.prems(3) by (cases s1) auto
          obtain l2 where l2: "l1 = Suc l2" "Suc (Suc data) < length buf" "buf ! Suc (Suc data) = y"
            using list_ahead [of l1 "Suc (Suc data)" buf y s2] l1 s2 len(1) less.prems(3) by auto
          have "read_byte buf (data + 1) = Some x" "read_byte buf (data + 2) = Some y"
            using l1 l2 by (simp_all add: read_byte_def)
          moreover have "\<not> (isxdigit x \<and> isxdigit y)" using False s1 s2 True by blast
          ultimately show ?thesis using no_plus rd wr len(1) True by auto
        next
          case f: False
          then show ?thesis using no_plus rd wr len(1) by (auto simp: not_le)
        qed
        ultimately show ?thesis using go [of l "Suc data" s c] b1 len Cons by simp
      qed
    qed
  qed
qed

lemma urldecode_ok: "urldecode s = Some (decoded True s)"
proof -
  have t: "take (length s) (drop 0 (s @ [0])) = s" "0 + length s \<le> length (s @ [0])" by simp_all
  obtain buf dest where r: "url_decode_loop True (s @ [0]) 0 0 (length s) = Some (buf, dest)" "dest \<le> length s"
    "length buf = length s + 1" "take dest buf = decoded True s"
    using url_decode_loop_ok [OF t(1) _ t(2), of 0 True] by auto
  then show ?thesis by (simp add: urldecode_def php_url_decode_def write_byte_def)
qed

lemma rawurldecode_ok: "rawurldecode s = Some (decoded False s)"
proof -
  have t: "take (length s) (drop 0 (s @ [0])) = s" "0 + length s \<le> length (s @ [0])" by simp_all
  obtain buf dest where r: "url_decode_loop False (s @ [0]) 0 0 (length s) = Some (buf, dest)" "dest \<le> length s"
    "length buf = length s + 1" "take dest buf = decoded False s"
    using url_decode_loop_ok [OF t(1) _ t(2), of 0 False] by auto
  then show ?thesis by (simp add: rawurldecode_def php_raw_url_decode_def write_byte_def)
qed

subsection \<open>Round trip\<close>

lemma hexchars_value: "n < 16 \<Longrightarrow> isxdigit (hexchars ! n) \<and> hex_value (hexchars ! n) = int n"
proof -
  have "\<forall>n < 16. isxdigit (hexchars ! n) \<and> hex_value (hexchars ! n) = int n"
    by (simp add: All_less_Suc numeral_eq_Suc) (simp add: hexchars_def isxdigit_def hex_value_def isupper_def)
  then show "n < 16 \<Longrightarrow> ?thesis" by blast
qed

lemma decoded_hex: "decoded form (hex c @ t) = c # decoded form t"
proof -
  let ?h = "hexchars ! unat (drop_bit 4 c)" and ?l = "hexchars ! unat (c AND 15)"
  have v: "hex_value ?h = int (unat (drop_bit 4 c))" "hex_value ?l = int (unat (c AND 15))" "isxdigit ?h" "isxdigit ?l"
    using hexchars_value [OF nibbles_less(1) [of c]] hexchars_value [OF nibbles_less(2) [of c]] by simp_all
  have "unat (drop_bit 4 c) * 16 + unat (c AND 15) = unat c" unfolding nibbles by simp
  then have "php_htoi ?h ?l = int (unat c)" unfolding php_htoi_def v by (metis of_nat_add of_nat_mult of_nat_numeral)
  then have "(word_of_int (php_htoi ?h ?l) :: byte) = c" by simp
  then show ?thesis by (simp add: hex_def v(3,4))
qed

lemma decoded_plain: "\<lbrakk>c \<noteq> 43; c \<noteq> 37\<rbrakk> \<Longrightarrow> decoded form (c # t) = c # decoded form t"
  by (auto split: list.split)

lemma unescaped: "\<not> escaped c \<Longrightarrow> c \<noteq> 43 \<and> c \<noteq> 37" "\<not> raw_escaped c \<Longrightarrow> c \<noteq> 43 \<and> c \<noteq> 37"
  by (auto simp: escaped_def raw_escaped_def)

lemma decoded_url: "decoded True (encoded url_form s) = s"
proof (induction s)
  case (Cons c s)
  consider "c = 32" | "c \<noteq> 32" "escaped c" | "c \<noteq> 43" "c \<noteq> 37" "c \<noteq> 32" "\<not> escaped c"
    using unescaped(1) by blast
  then show ?case
  proof cases
    case 2
    then show ?thesis using Cons decoded_hex by (simp add: url_form_def [of c])
  next
    case 3
    then show ?thesis using Cons decoded_plain [of c] by (simp add: url_form_def [of c] del: decoded.simps)
  qed (use Cons in \<open>simp add: url_form_def [of 32]\<close>)
qed simp

lemma decoded_raw: "decoded False (encoded raw_form s) = s"
proof (induction s)
  case (Cons c s)
  show ?case
  proof (cases "raw_escaped c")
    case True
    then show ?thesis using Cons decoded_hex by (simp add: raw_form_def [of c])
  next
    case False
    then have "c \<noteq> 43" "c \<noteq> 37" using unescaped(2) by blast+
    then show ?thesis using False Cons decoded_plain [of c] by (simp add: raw_form_def [of c] del: decoded.simps)
  qed
qed simp

subsection \<open>Properties\<close>

text \<open>C36. \<open>urldecode\<close> undoes \<open>urlencode\<close> and \<open>rawurldecode\<close> undoes \<open>rawurlencode\<close>, for every
  string of at most 715827882 bytes, so that three times its length is an \<open>int\<close>; neither direction leaves its buffer, and the encoded text has only letters, digits, minus,
  dot, underscore, percent and plus (tilde instead of plus for the raw form).\<close>
theorem url_roundtrip:
  assumes "length s \<le> 715827882"
  shows "\<exists>e r. urlencode s = Some e \<and> urldecode e = Some s \<and> rawurlencode s = Some r \<and> rawurldecode r = Some s \<and>
     length e \<le> 3 * length s \<and> length r \<le> 3 * length s \<and>
     list_all (\<lambda>c. \<not> escaped c \<or> c = 37 \<or> c = 43) e \<and> list_all (\<lambda>c. \<not> raw_escaped c \<or> c = 37) r"
proof -
  have "list_all (\<lambda>d. \<not> escaped d \<and> \<not> raw_escaped d) hexchars"
    by (simp add: hexchars_def escaped_def raw_escaped_def)
  then have x: "\<not> escaped (hexchars ! n) \<and> \<not> raw_escaped (hexchars ! n)" if "n < 16" for n
    using that by (simp add: list_all_length hexchars_def)
  have h: "d = 37 \<or> \<not> escaped d \<and> \<not> raw_escaped d" if "d \<in> set (hex c)" for c d
    using that x [OF nibbles_less(1) [of c]] x [OF nibbles_less(2) [of c]] by (auto simp: hex_def)
  have "list_all (\<lambda>c. \<not> escaped c \<or> c = 37 \<or> c = 43) (encoded url_form s)"
    using h by (induction s) (auto simp: url_form_def list_all_iff)
  moreover have "list_all (\<lambda>c. \<not> raw_escaped c \<or> c = 37) (encoded raw_form s)"
    using h by (induction s) (auto simp: raw_form_def list_all_iff)
  moreover have "length (encoded url_form s) \<le> 3 * length s" "length (encoded raw_form s) \<le> 3 * length s"
    by (rule encoded_length, simp add: url_form_def raw_form_def hex_length)+
  ultimately show ?thesis
    by (simp add: urlencode_ok [OF assms] urldecode_ok rawurlencode_ok [OF assms] rawurldecode_ok decoded_url decoded_raw)
qed

theorem url_roundtrip_witness:
  "\<exists>e r. urlencode [32, 37, 97] = Some e \<and> urldecode e = Some [32, 37, 97] \<and> rawurlencode [32, 37, 97] = Some r \<and>
     rawurldecode r = Some [32, 37, 97]"
proof -
  have "length [32 :: byte, 37, 97] \<le> 715827882" by simp
  from url_roundtrip [OF this] show ?thesis by blast
qed

subsection \<open>Longer strings\<close>

text \<open>
  For a string of bytes to be escaped whose length is beyond that bound the index of the raw encoder
  overflows; the other encoder writes all of the text but gives a negative length.
\<close>

lemma raw_loop_overflow: "\<lbrakk>y \<le> n; 2147483647 < y + 3 * length s; list_all raw_escaped s; y + 3 * length s \<le> n\<rbrakk> \<Longrightarrow>
  raw_encode_loop s (room n out) y = None \<or> length out \<noteq> y"
proof (induction s arbitrary: y out)
  case (Cons c s)
  show ?case
  proof (cases "length out = y \<and> y \<le> 2147483647")
    case True
    then have l: "length out < n" "length out + 3 \<le> n" using Cons.prems(4) by simp_all
    have "raw_encode_loop s (room n (out @ hex c)) (y + 3) = None"
      using Cons.IH [of "y + 3" "out @ hex c"] Cons.prems True by (simp add: hex_length)
    then show ?thesis
      using True Cons.prems(3) store_room [OF l(1), of c] store_again [OF l(1), of c 37] store_hex [OF l(2)]
      by (auto simp: hex_digits hex_def numeral_3_eq_3)
  qed auto
qed simp

lemma rawurlencode_overflow: "\<lbrakk>715827882 < length s; list_all raw_escaped s\<rbrakk> \<Longrightarrow> php_raw_url_encode s = None"
  using raw_loop_overflow [of 0 "3 * length s + 1" s "[]"] by (simp add: php_raw_url_encode_def room_def)

end
