(* ===== verification/Base64.thy ===== *)
theory Base64
  imports Prelude
begin

text \<open>
  Base64 (ext/standard/base64.c). The encoder writes four bytes per started group of three and a
  NUL; the decoder writes into a buffer one byte larger than its input, with the index \<open>j\<close> of the
  current byte and the count \<open>i\<close> of digits seen. Buffers are lists of bytes, \<open>None\<close> being allocated
  and unwritten; reading such a byte, or any access out of range, is \<open>None\<close>.
\<close>

subsection \<open>Tables\<close>

definition base64_table :: "byte list" where
  "base64_table = map word_of_nat ([65..<91] @ [97..<123] @ [48..<58] @ [43, 47])"

definition base64_pad :: byte where "base64_pad = 61"

definition base64_reverse_table :: "byte \<Rightarrow> int" where
  "base64_reverse_table c =
     (if 65 \<le> c \<and> c \<le> 90 then uint c - 65
      else if 97 \<le> c \<and> c \<le> 122 then uint c - 97 + 26
      else if 48 \<le> c \<and> c \<le> 57 then uint c - 48 + 52
      else if c = 43 then 62 else if c = 47 then 63
      else if c = 9 \<or> c = 10 \<or> c = 13 \<or> c = 32 then -1
      else -2)"

subsection \<open>Encoding\<close>

definition put :: "byte \<Rightarrow> byte option list \<times> nat \<Rightarrow> (byte option list \<times> nat) option" where
  "put c st = (case st of (buf, p) \<Rightarrow> if p < length buf then Some (buf[p := Some c], Suc p) else None)"

definition digit :: "byte \<Rightarrow> byte option" where
  "digit n = (if unat n < length base64_table then Some (base64_table ! unat n) else None)"

definition put_digit :: "byte \<Rightarrow> byte option list \<times> nat \<Rightarrow> (byte option list \<times> nat) option" where
  "put_digit n st = do { c \<leftarrow> digit n; put c st }"

fun encode_loop :: "byte list \<Rightarrow> byte option list \<times> nat \<Rightarrow> (byte option list \<times> nat) option" where
  "encode_loop (a # b # c # rest) st = do {
     st \<leftarrow> put_digit (drop_bit 2 a) st;
     st \<leftarrow> put_digit (push_bit 4 (a AND 3) + drop_bit 4 b) st;
     st \<leftarrow> put_digit (push_bit 2 (b AND 15) + drop_bit 6 c) st;
     st \<leftarrow> put_digit (c AND 63) st;
     encode_loop rest st }"
| "encode_loop [a, b] st = do {
     st \<leftarrow> put_digit (drop_bit 2 a) st;
     st \<leftarrow> put_digit (push_bit 4 (a AND 3) + drop_bit 4 b) st;
     st \<leftarrow> put_digit (push_bit 2 (b AND 15)) st;
     put base64_pad st }"
| "encode_loop [a] st = do {
     st \<leftarrow> put_digit (drop_bit 2 a) st;
     st \<leftarrow> put_digit (push_bit 4 (a AND 3)) st;
     st \<leftarrow> put base64_pad st;
     put base64_pad st }"
| "encode_loop [] st = Some st"

text \<open>
  The lengths are C \<open>int\<close>s. \<open>Some None\<close> is the NULL result for a length that is too large; the size of the
  result is multiplied in \<open>int\<close>, where overflow is undefined, before it is widened for the allocation, and
  \<open>*ret_length\<close> is the number of bytes written cut to an \<open>int\<close>.
\<close>

definition php_base64_encode :: "byte list \<Rightarrow> (byte option list \<times> int) option option" where
  "php_base64_encode str =
     (let len = length str in
      if i32 (int len + 2) < 0 \<or> (len + 2) div 3 \<ge> 2 ^ 30 then Some None
      else if (len + 2) div 3 * 4 > 2147483647 then None
      else do {
        st \<leftarrow> encode_loop str (replicate ((len + 2) div 3 * 4 + 1) None, 0);
        st' \<leftarrow> put 0 st;
        Some (Some (fst st', i32 (int (snd st)))) })"

subsection \<open>Decoding\<close>

definition store :: "byte option list \<Rightarrow> nat \<Rightarrow> int \<Rightarrow> byte option list option" where
  "store buf j v = (if j < length buf then Some (buf[j := Some (word_of_int v)]) else None)"

definition or_store :: "byte option list \<Rightarrow> nat \<Rightarrow> int \<Rightarrow> byte option list option" where
  "or_store buf j v = (if j < length buf
     then map_option (\<lambda>c. buf[j := Some (c OR word_of_int v)]) (buf ! j) else None)"

text \<open>One digit \<open>ch\<close>.\<close>

definition decode_digit :: "int \<Rightarrow> byte option list \<Rightarrow> nat \<Rightarrow> nat \<Rightarrow> (byte option list \<times> nat) option" where
  "decode_digit ch buf i j =
     (if i mod 4 = 0 then map_option (\<lambda>b. (b, j)) (store buf j (ch * 4))
      else if i mod 4 = 1 then do {
        b \<leftarrow> or_store buf j (ch div 16);
        map_option (\<lambda>b. (b, j + 1)) (store b (j + 1) (ch mod 16 * 16)) }
      else if i mod 4 = 2 then do {
        b \<leftarrow> or_store buf j (ch div 4);
        map_option (\<lambda>b. (b, j + 1)) (store b (j + 1) (ch mod 4 * 64)) }
      else map_option (\<lambda>b. (b, j + 1)) (or_store buf j ch))"

text \<open>
  The loop reads \<open>*current\<close> before it looks at the length, so it needs the NUL behind the string.
  \<open>str\<close> is the input from \<open>current\<close> on; the result is the last character read, or \<open>Some None\<close> for a
  NULL result.
\<close>

fun decode_loop :: "bool \<Rightarrow> byte list \<Rightarrow> nat \<Rightarrow> byte option list \<Rightarrow> nat \<Rightarrow> nat \<Rightarrow>
    (int \<times> byte option list \<times> nat \<times> nat) option option" where
  "decode_loop strict [] len buf i j = None"
| "decode_loop strict (c # str) len buf i j =
     (if c = 0 \<or> len = 0 then Some (Some (uint c, buf, i, j))
      else
        let len = len - 1 in
        if c = base64_pad then
          (case str of
             [] \<Rightarrow> None
           | d # _ \<Rightarrow>
               if d \<noteq> 61 \<and> (i mod 4 = 1 \<or> strict \<and> len > 0) then Some None
               else decode_loop strict str len buf i j)
        else
          let ch = base64_reverse_table c in
          if \<not> strict \<and> ch < 0 \<or> ch = -1 then decode_loop strict str len buf i j
          else if ch = -2 then Some None
          else (case decode_digit ch buf i j of
                  None \<Rightarrow> None
                | Some (buf', j') \<Rightarrow> decode_loop strict str len buf' (i + 1) j'))"

text \<open>For a negative length no buffer can be allocated and the request ends.\<close>

definition php_base64_decode_ex :: "byte list \<Rightarrow> int \<Rightarrow> bool \<Rightarrow> (byte option list \<times> int) option option" where
  "php_base64_decode_ex str len strict = (if len < 0 then None else do {
     r \<leftarrow> decode_loop strict str (nat len) (replicate (nat len + 1) None) 0 0;
     (case r of
        None \<Rightarrow> Some None
      | Some (ch, buf, i, j) \<Rightarrow>
          if ch = uint base64_pad \<and> i mod 4 = 1 then Some None
          else do {
            buf \<leftarrow> (if ch = uint base64_pad \<and> i mod 4 = 2 then store buf (j + 1) 0
                    else if ch = uint base64_pad \<and> i mod 4 = 3 then store buf j 0
                    else Some buf);
            buf \<leftarrow> store buf j 0;
            Some (Some (buf, int j)) }) })"

definition php_base64_decode :: "byte list \<Rightarrow> int \<Rightarrow> (byte option list \<times> int) option option" where
  "php_base64_decode str len = php_base64_decode_ex str len False"

subsection \<open>What encoding produces\<close>

definition sym :: "byte \<Rightarrow> byte" where
  "sym n = base64_table ! unat n"

fun encoded :: "byte list \<Rightarrow> byte list" where
  "encoded (a # b # c # rest) =
     sym (drop_bit 2 a) # sym (push_bit 4 (a AND 3) + drop_bit 4 b) # sym (push_bit 2 (b AND 15) + drop_bit 6 c) #
     sym (c AND 63) # encoded rest"
| "encoded [a, b] =
     [sym (drop_bit 2 a), sym (push_bit 4 (a AND 3) + drop_bit 4 b), sym (push_bit 2 (b AND 15)), base64_pad]"
| "encoded [a] = [sym (drop_bit 2 a), sym (push_bit 4 (a AND 3)), base64_pad, base64_pad]"
| "encoded [] = []"

lemma encoding_length: "length (encoded s) = (length s + 2) div 3 * 4"
proof (induction s rule: encoded.induct)
  case (1 a b c rest)
  have "(length (a # b # c # rest) + 2) div 3 = (length rest + 2 + 3) div 3" by simp
  then show ?case using 1 by (simp only: div_add_self2) simp
qed simp_all

lemma byte_bit_less: "bit (w :: byte) n \<Longrightarrow> n < 8"
  using bit_imp_le_length [of w n] by simp

lemma byte_bit_off: "8 \<le> n \<Longrightarrow> \<not> bit (w :: byte) n"
  using byte_bit_less by (meson leD)

lemma byte_eqI: "(\<And>n. n \<in> set [0, 1, 2, 3, 4, 5, 6, 7] \<Longrightarrow> bit (x :: byte) n = bit y n) \<Longrightarrow> x = y"
  by (rule bit_word_eqI) (simp add: less_Suc_eq numeral_eq_Suc)

lemma low_bits: "a AND 3 = take_bit 2 (a :: byte)" "a AND 15 = take_bit 4 a" "a AND 63 = take_bit 6 a"
  by (simp_all add: take_bit_eq_mask mask_numeral)

lemma sextet_or: "push_bit 4 (a AND 3) + drop_bit 4 (b :: byte) = push_bit 4 (take_bit 2 a) OR drop_bit 4 b"
  "push_bit 2 (b AND 15) + drop_bit 6 (c :: byte) = push_bit 2 (take_bit 4 b) OR drop_bit 6 c"
  unfolding low_bits by (rule disjunctive_add, auto simp: bit_simps dest: byte_bit_less)+

lemma six_bits: "\<lbrakk>\<not> bit (w :: byte) 6; \<not> bit w 7\<rbrakk> \<Longrightarrow> unat w < 64"
proof -
  assume w: "\<not> bit w 6" "\<not> bit w 7"
  have "take_bit 6 w = w" by (rule byte_eqI) (use w in \<open>auto simp: bit_simps\<close>)
  then have "unat w = unat (take_bit 6 w)" by simp
  also have "\<dots> < 2 ^ 6" unfolding unsigned_take_bit_eq by (rule take_bit_nat_less_exp)
  finally show ?thesis by simp
qed

lemma sextets_less: "unat (drop_bit 2 (a :: byte)) < 64"
  "unat (push_bit 4 (a AND 3) + drop_bit 4 b) < 64" "unat (push_bit 2 (b AND 15) + drop_bit 6 c) < 64"
  "unat (c AND 63) < 64" "unat (push_bit 4 (a AND 3)) < 64" "unat (push_bit 2 (b AND 15)) < 64"
  unfolding sextet_or unfolding low_bits by (rule six_bits, (simp add: bit_simps byte_bit_off)+)+

lemma bit_small: "bit (w :: byte) (Suc (Suc 0)) = bit w 2" "bit w (Suc (Suc (Suc 0))) = bit w 3"
  by (simp_all add: numeral_2_eq_2 numeral_3_eq_3)

text \<open>The bits of a group of three bytes, put together again.\<close>

lemma regroup:
  "push_bit 2 (drop_bit 2 a) OR drop_bit 4 (push_bit 4 (a AND 3) + drop_bit 4 b) = (a :: byte)"
  "push_bit 4 (take_bit 4 (push_bit 4 (a AND 3) + drop_bit 4 b)) OR drop_bit 2 (push_bit 2 (b AND 15) + drop_bit 6 c) = b"
  "push_bit 6 (take_bit 2 (push_bit 2 (b AND 15) + drop_bit 6 c)) OR (c AND 63) = (c :: byte)"
  "push_bit 2 (drop_bit 2 a) OR drop_bit 4 (push_bit 4 (a AND 3)) = a"
  "push_bit 4 (take_bit 4 (push_bit 4 (a AND 3) + drop_bit 4 b)) OR drop_bit 2 (push_bit 2 (b AND 15)) = b"
  unfolding sextet_or unfolding low_bits by (rule byte_eqI, auto simp: bit_simps byte_bit_off bit_small)+

lemma of_int_shift: "(word_of_int (uint (w :: byte) * 4) :: byte) = push_bit 2 w"
  "(word_of_int (uint w div 16) :: byte) = drop_bit 4 w" "(word_of_int (uint w mod 16 * 16) :: byte) = push_bit 4 (take_bit 4 w)"
  "(word_of_int (uint w div 4) :: byte) = drop_bit 2 w" "(word_of_int (uint w mod 4 * 64) :: byte) = push_bit 6 (take_bit 2 w)"
proof -
  have "uint w * 4 = push_bit 2 (uint w)" "uint w mod 16 * 16 = push_bit 4 (take_bit 4 (uint w))"
    "uint w mod 4 * 64 = push_bit 6 (take_bit 2 (uint w))" "uint w div 16 = drop_bit 4 (uint w)" "uint w div 4 = drop_bit 2 (uint w)"
    by (simp_all add: push_bit_eq_mult take_bit_eq_mod drop_bit_eq_div)
  then show "(word_of_int (uint w * 4) :: byte) = push_bit 2 w"
    "(word_of_int (uint w div 16) :: byte) = drop_bit 4 w" "(word_of_int (uint w mod 16 * 16) :: byte) = push_bit 4 (take_bit 4 w)"
    "(word_of_int (uint w div 4) :: byte) = drop_bit 2 w" "(word_of_int (uint w mod 4 * 64) :: byte) = push_bit 6 (take_bit 2 w)"
    by (auto intro!: byte_eqI simp: bit_simps)
qed

lemma table_reverse: "map base64_reverse_table base64_table = map int [0..<64]"
  by (simp add: base64_table_def base64_reverse_table_def upt_rec)

lemma table_chars: "list_all (\<lambda>c. c \<noteq> 0 \<and> c \<noteq> base64_pad) base64_table"
  by (simp add: base64_table_def base64_pad_def)

lemma sym_ok:
  assumes "unat n < 64"
  shows "digit n = Some (sym n)" "base64_reverse_table (sym n) = uint n" "sym n \<noteq> 0" "sym n \<noteq> base64_pad"
proof -
  have l: "length base64_table = 64" by (simp add: base64_table_def)
  show "digit n = Some (sym n)" using assms l by (simp add: digit_def sym_def)
  have "map base64_reverse_table base64_table ! unat n = map int [0..<64] ! unat n" by (simp only: table_reverse)
  then show "base64_reverse_table (sym n) = uint n" using assms l by (simp add: sym_def)
  show "sym n \<noteq> 0" "sym n \<noteq> base64_pad" using assms l table_chars by (auto simp: sym_def list_all_length)
qed

definition room :: "nat \<Rightarrow> byte list \<Rightarrow> byte option list" where
  "room n out = map Some out @ replicate (n - length out) None"

lemma put_room: "length out < n \<Longrightarrow> put c (room n out, length out) = Some (room n (out @ [c]), length (out @ [c]))"
proof -
  assume "length out < n"
  then obtain m where "n = Suc (length out + m)" using less_iff_Suc_add by auto
  then show ?thesis by (simp add: put_def room_def list_update_append)
qed

lemma put_digit_room: "\<lbrakk>length out < n; unat w < 64\<rbrakk> \<Longrightarrow>
  put_digit w (room n out, length out) = Some (room n (out @ [sym w]), length (out @ [sym w]))"
  using put_room [of out n "sym w"] by (simp add: put_digit_def sym_ok(1))

lemma encode_loop_ok: "length out + length (encoded s) \<le> n \<Longrightarrow>
  encode_loop s (room n out, length out) = Some (room n (out @ encoded s), length (out @ encoded s))"
proof (induction s arbitrary: out rule: encoded.induct)
  case (1 a b c rest)
  let ?d1 = "sym (drop_bit 2 a)" and ?d2 = "sym (push_bit 4 (a AND 3) + drop_bit 4 b)"
    and ?d3 = "sym (push_bit 2 (b AND 15) + drop_bit 6 c)" and ?d4 = "sym (c AND 63)"
  show ?case
    using put_digit_room [of out n "drop_bit 2 a"] put_digit_room [of "out @ [?d1]" n "push_bit 4 (a AND 3) + drop_bit 4 b"]
      put_digit_room [of "out @ [?d1, ?d2]" n "push_bit 2 (b AND 15) + drop_bit 6 c"]
      put_digit_room [of "out @ [?d1, ?d2, ?d3]" n "c AND 63"] "1.IH" [of "out @ [?d1, ?d2, ?d3, ?d4]"] "1.prems" sextets_less
    by simp
next
  case (2 a b)
  let ?d1 = "sym (drop_bit 2 a)" and ?d2 = "sym (push_bit 4 (a AND 3) + drop_bit 4 b)"
    and ?d3 = "sym (push_bit 2 (b AND 15))"
  show ?case
    using put_digit_room [of out n "drop_bit 2 a"] put_digit_room [of "out @ [?d1]" n "push_bit 4 (a AND 3) + drop_bit 4 b"]
      put_digit_room [of "out @ [?d1, ?d2]" n "push_bit 2 (b AND 15)"]
      put_room [of "out @ [?d1, ?d2, ?d3]" n base64_pad] "2.prems" sextets_less
    by simp
next
  case (3 a)
  let ?d1 = "sym (drop_bit 2 a)" and ?d2 = "sym (push_bit 4 (a AND 3))"
  show ?case
    using put_digit_room [of out n "drop_bit 2 a"] put_digit_room [of "out @ [?d1]" n "push_bit 4 (a AND 3)"]
      put_room [of "out @ [?d1, ?d2]" n base64_pad] put_room [of "out @ [?d1, ?d2, base64_pad]" n base64_pad]
      "3.prems" sextets_less
    by simp
qed simp

lemma encode_ok:
  assumes "length s \<le> 1610612733"
  shows "php_base64_encode s = Some (Some (map Some (encoded s @ [0]), int (length (encoded s))))"
proof -
  have "(length s + 2) div 3 \<le> 1610612735 div 3" using assms by (intro div_le_mono) simp
  then have small: "(length s + 2) div 3 * 4 \<le> 2147483644" by simp
  have int_length: "i32 (int (length (encoded s))) = int (length (encoded s))"
    using small by (intro i32_id) (simp_all add: encoding_length)
  let ?n = "(length s + 2) div 3 * 4 + 1"
  have l: "length (encoded s) = ?n - 1" by (simp add: encoding_length)
  have "encode_loop s (replicate ?n None, 0) = Some (room ?n (encoded s), length (encoded s))"
    using encode_loop_ok [of "[]" s ?n] l by (simp add: room_def)
  moreover have "put 0 (room ?n (encoded s), length (encoded s)) = Some (room ?n (encoded s @ [0]), length (encoded s) + 1)"
    using put_room [of "encoded s" ?n 0] l by simp
  moreover have "room ?n (encoded s @ [0]) = map Some (encoded s @ [0])" using l by (simp add: room_def)
  moreover have "\<not> i32 (int (length s) + 2) < 0" "\<not> (length s + 2) div 3 \<ge> 2 ^ 30" "\<not> (length s + 2) div 3 * 4 > 2147483647"
    using assms small i32_id [of "int (length s) + 2"] by auto
  ultimately show ?thesis using int_length by (simp add: php_base64_encode_def Let_def)
qed

subsection \<open>Decoding encoded text\<close>

lemma uint_pad: "uint base64_pad = 61"
  by (simp add: base64_pad_def)

lemma uint_not_neg: "\<not> uint (w :: byte) < 0" "uint w \<noteq> -1" "uint w \<noteq> -2"
proof -
  have "0 \<le> uint w" by simp
  then show "\<not> uint w < 0" "uint w \<noteq> -1" "uint w \<noteq> -2" by linarith+
qed

lemma decode_sym: "unat w < 64 \<Longrightarrow> decode_loop strict (sym w # str) (Suc len) buf i j =
  (case decode_digit (uint w) buf i j of None \<Rightarrow> None | Some (buf', j') \<Rightarrow> decode_loop strict str len buf' (i + 1) j')"
  using sym_ok(2-4) [of w] uint_not_neg [of w] by (simp add: Let_def)

lemma decode_pad_last: "i mod 4 \<noteq> 1 \<Longrightarrow> decode_loop strict [base64_pad, 0] (Suc 0) buf i j = Some (Some (0, buf, i, j))"
  by (simp add: base64_pad_def Let_def)

lemma decode_pad_pad: "i mod 4 \<noteq> 1 \<Longrightarrow>
  decode_loop strict [base64_pad, base64_pad, 0] (Suc (Suc 0)) buf i j = Some (Some (0, buf, i, j))"
  by (simp add: base64_pad_def Let_def)

declare decode_loop.simps [simp del]

lemma digit_0: "\<lbrakk>i mod 4 = 0; j < length buf\<rbrakk> \<Longrightarrow>
  decode_digit (uint w) buf i j = Some (buf[j := Some (push_bit 2 w)], j)"
  using of_int_shift [of w] by (simp add: decode_digit_def store_def)

lemma digit_1: "\<lbrakk>i mod 4 = 1; j + 1 < length buf; buf ! j = Some x\<rbrakk> \<Longrightarrow>
  decode_digit (uint w) buf i j = Some (buf[j := Some (x OR drop_bit 4 w), j + 1 := Some (push_bit 4 (take_bit 4 w))], j + 1)"
  using of_int_shift [of w] by (simp add: decode_digit_def store_def or_store_def)

lemma digit_2: "\<lbrakk>i mod 4 = 2; j + 1 < length buf; buf ! j = Some x\<rbrakk> \<Longrightarrow>
  decode_digit (uint w) buf i j = Some (buf[j := Some (x OR drop_bit 2 w), j + 1 := Some (push_bit 6 (take_bit 2 w))], j + 1)"
  using of_int_shift [of w] by (simp add: decode_digit_def store_def or_store_def)

lemma digit_3: "\<lbrakk>i mod 4 = 3; j < length buf; buf ! j = Some x\<rbrakk> \<Longrightarrow>
  decode_digit (uint w) buf i j = Some (buf[j := Some (x OR w)], j + 1)"
  by (simp add: decode_digit_def or_store_def)

lemma phases: "i mod 4 = (0 :: nat) \<Longrightarrow> (Suc i) mod 4 = 1 \<and> (Suc (Suc i)) mod 4 = 2 \<and> (Suc (Suc (Suc i))) mod 4 = 3 \<and> (Suc (Suc (Suc (Suc i)))) mod 4 = 0"
  by presburger

text \<open>Two, three and four digits from a group boundary on.\<close>

lemma two_digits:
  assumes "i mod 4 = 0" "(Suc j) < length buf" "unat w < 64" "unat x < 64"
  shows "decode_loop strict (sym w # sym x # str) (Suc (Suc len)) buf i j =
    decode_loop strict str len
      (buf[j := Some (push_bit 2 w OR drop_bit 4 x), (Suc j) := Some (push_bit 4 (take_bit 4 x))]) (Suc (Suc i)) (Suc j)"
  using assms phases [OF assms(1)] digit_0 [of i j buf w] digit_1 [of "Suc i" j "buf[j := Some (push_bit 2 w)]" "push_bit 2 w" x]
  by (simp add: decode_sym)

lemma three_digits:
  assumes "i mod 4 = 0" "(Suc (Suc j)) < length buf" "unat w < 64" "unat x < 64" "unat y < 64"
  shows "decode_loop strict (sym w # sym x # sym y # str) (Suc (Suc (Suc len))) buf i j =
    decode_loop strict str len
      (buf[j := Some (push_bit 2 w OR drop_bit 4 x), (Suc j) := Some (push_bit 4 (take_bit 4 x) OR drop_bit 2 y),
        (Suc (Suc j)) := Some (push_bit 6 (take_bit 2 y))]) (Suc (Suc (Suc i))) (Suc (Suc j))"
  using assms phases [OF assms(1)] two_digits [of i j buf w x strict "sym y # str" "Suc len"]
    digit_2 [of "Suc (Suc i)" "Suc j" "buf[j := Some (push_bit 2 w OR drop_bit 4 x), (Suc j) := Some (push_bit 4 (take_bit 4 x))]"
      "push_bit 4 (take_bit 4 x)" y]
  by (simp add: decode_sym)

lemma four_digits:
  assumes "i mod 4 = 0" "(Suc (Suc j)) < length buf" "unat w < 64" "unat x < 64" "unat y < 64" "unat z < 64"
  shows "decode_loop strict (sym w # sym x # sym y # sym z # str) (Suc (Suc (Suc (Suc len)))) buf i j =
    decode_loop strict str len
      (buf[j := Some (push_bit 2 w OR drop_bit 4 x), (Suc j) := Some (push_bit 4 (take_bit 4 x) OR drop_bit 2 y),
        (Suc (Suc j)) := Some (push_bit 6 (take_bit 2 y) OR z)]) (Suc (Suc (Suc (Suc i)))) (Suc (Suc (Suc j)))"
  using assms phases [OF assms(1)] three_digits [of i j buf w x y strict "sym z # str" "Suc len"]
    digit_3 [of "Suc (Suc (Suc i))" "Suc (Suc j)" "buf[j := Some (push_bit 2 w OR drop_bit 4 x),
      (Suc j) := Some (push_bit 4 (take_bit 4 x) OR drop_bit 2 y), (Suc (Suc j)) := Some (push_bit 6 (take_bit 2 y))]"
      "push_bit 6 (take_bit 2 y)" z]
  by (simp add: decode_sym)

lemma take_grow:
  assumes "take j buf = map Some out" "length out = j"
  shows "j < length buf \<Longrightarrow> take (Suc j) (buf[j := Some a]) = map Some (out @ [a])"
    "(Suc j) < length buf \<Longrightarrow> take (Suc (Suc j)) (buf[j := Some a, (Suc j) := Some b]) = map Some (out @ [a, b])"
    "(Suc (Suc j)) < length buf \<Longrightarrow> take (Suc (Suc (Suc j))) (buf[j := Some a, (Suc j) := Some b, (Suc (Suc j)) := Some c]) = map Some (out @ [a, b, c])"
  using assms by (simp_all add: take_Suc_conv_app_nth numeral_2_eq_2 numeral_3_eq_3)

lemma decode_encoded:
  assumes "take (length out) buf = map Some out" "i mod 4 = 0" "length out + length (encoded s) < length buf"
  shows "\<exists>buf' i'. decode_loop strict (encoded s @ [0]) (length (encoded s)) buf i (length out) =
      Some (Some (0, buf', i', length (out @ s))) \<and> length buf' = length buf \<and>
      take (length (out @ s)) buf' = map Some (out @ s)"
  using assms
proof (induction s arbitrary: out buf i rule: encoded.induct)
  case (1 a b c rest)
  let ?j = "length out"
  let ?buf = "buf[?j := Some a, (Suc ?j) := Some b, (Suc (Suc ?j)) := Some c]"
  have "take (length (out @ [a, b, c])) ?buf = map Some (out @ [a, b, c])"
    using take_grow(3) [OF "1.prems"(1) refl, of a b c] "1.prems"(3) by simp
  then obtain buf' i' where "decode_loop strict (encoded rest @ [0]) (length (encoded rest)) ?buf (Suc (Suc (Suc (Suc i)))) (length (out @ [a, b, c])) =
      Some (Some (0, buf', i', length ((out @ [a, b, c]) @ rest)))" "length buf' = length ?buf"
    "take (length ((out @ [a, b, c]) @ rest)) buf' = map Some ((out @ [a, b, c]) @ rest)"
    using "1.IH" [of "out @ [a, b, c]" ?buf "Suc (Suc (Suc (Suc i)))"] "1.prems"(2,3) by auto
  moreover have "decode_loop strict (encoded (a # b # c # rest) @ [0]) (length (encoded (a # b # c # rest))) buf i ?j =
      decode_loop strict (encoded rest @ [0]) (length (encoded rest)) ?buf (Suc (Suc (Suc (Suc i)))) ((Suc (Suc (Suc ?j))))"
    using four_digits [of i ?j buf "drop_bit 2 a" "push_bit 4 (a AND 3) + drop_bit 4 b" "push_bit 2 (b AND 15) + drop_bit 6 c"
        "c AND 63" strict "encoded rest @ [0]" "length (encoded rest)", unfolded regroup] sextets_less "1.prems"(2,3)
    by simp
  ultimately show ?case by simp
next
  case (2 a b)
  let ?j = "length out"
  let ?z = "push_bit 6 (take_bit 2 (push_bit 2 (b AND 15)))"
  let ?buf = "buf[?j := Some a, (Suc ?j) := Some b, (Suc (Suc ?j)) := Some ?z]"
  have "decode_loop strict (encoded [a, b] @ [0]) (length (encoded [a, b])) buf i ?j =
      decode_loop strict [base64_pad, 0] (Suc 0) ?buf (Suc (Suc (Suc i))) ((Suc (Suc ?j)))"
    using three_digits [of i ?j buf "drop_bit 2 a" "push_bit 4 (a AND 3) + drop_bit 4 b" "push_bit 2 (b AND 15)"
        strict "[base64_pad, 0]" "Suc 0", unfolded regroup] sextets_less "2.prems"(2,3)
    by simp
  also have "\<dots> = Some (Some (0, ?buf, (Suc (Suc (Suc i))), (Suc (Suc ?j))))"
    using phases [OF "2.prems"(2)] by (intro decode_pad_last) simp
  finally show ?case
    using take_grow(3) [OF "2.prems"(1) refl, of a b ?z] take_grow(2) [OF "2.prems"(1) refl, of a b] "2.prems"(3) by simp
next
  case (3 a)
  let ?j = "length out"
  let ?z = "push_bit 4 (take_bit 4 (push_bit 4 (a AND 3)))"
  let ?buf = "buf[?j := Some a, (Suc ?j) := Some ?z]"
  have "decode_loop strict (encoded [a] @ [0]) (length (encoded [a])) buf i ?j =
      decode_loop strict [base64_pad, base64_pad, 0] (Suc (Suc 0)) ?buf (Suc (Suc i)) ((Suc ?j))"
    using two_digits [of i ?j buf "drop_bit 2 a" "push_bit 4 (a AND 3)" strict "[base64_pad, base64_pad, 0]" "Suc (Suc 0)", unfolded regroup]
      sextets_less "3.prems"(2,3)
    by simp
  also have "\<dots> = Some (Some (0, ?buf, (Suc (Suc i)), (Suc ?j)))"
    using phases [OF "3.prems"(2)] by (intro decode_pad_pad) simp
  finally show ?case
    using take_grow(1) [OF "3.prems"(1) refl, of a] "3.prems"(3) by simp
qed (auto simp: decode_loop.simps)

lemma decode_ok:
  "\<exists>buf. php_base64_decode_ex (encoded s @ [0]) (int (length (encoded s))) strict = Some (Some (buf, int (length s))) \<and>
    take (length s) buf = map Some s \<and> buf ! length s = Some 0"
proof -
  let ?n = "length (encoded s) + 1"
  obtain buf i where r: "decode_loop strict (encoded s @ [0]) (length (encoded s)) (replicate ?n None) 0 0 =
      Some (Some (0, buf, i, length s))" "length buf = ?n" "take (length s) buf = map Some s"
    using decode_encoded [of "[]" "replicate ?n None" 0 s strict] by auto
  have "length s \<le> length (encoded s)" by (simp add: encoding_length)
  then show ?thesis using r by (simp add: php_base64_decode_ex_def store_def uint_pad)
qed

subsection \<open>Properties\<close>

text \<open>C37. Decoding, strict or not, undoes encoding for every string whose encoded form has a length a C
  \<open>int\<close> can hold, that is up to 1610612733 bytes; both stay inside the buffers they allocate and end what they write with a NUL; the
  encoded text has four characters per started group of three bytes, none of them a NUL.\<close>
theorem base64_roundtrip:
  assumes "length s \<le> 1610612733"
  shows "\<exists>e buf. php_base64_encode s = Some (Some (map Some (e @ [0]), int (length e))) \<and> 0 \<notin> set e \<and>
    length e = (length s + 2) div 3 * 4 \<and>
    php_base64_decode_ex (e @ [0]) (int (length e)) strict = Some (Some (buf, int (length s))) \<and>
    take (length s) buf = map Some s \<and> buf ! length s = Some 0"
proof -
  have "0 \<notin> set (encoded s)"
    using sym_ok(3) sextets_less by (induction s rule: encoded.induct) (auto simp: base64_pad_def)
  then show ?thesis using encode_ok [OF assms] encoding_length [of s] decode_ok [of s strict] by blast
qed

theorem base64_roundtrip_witness:
  "\<exists>e buf. php_base64_encode [80, 72, 80, 255] = Some (Some (map Some (e @ [0]), 8)) \<and> length e = 8 \<and>
    php_base64_decode_ex (e @ [0]) 8 True = Some (Some (buf, 4)) \<and> take 4 buf = map Some [80, 72, 80, 255]"
proof -
  have l: "length [80 :: byte, 72, 80, 255] = 4" "(4 + 2) div 3 * 4 = (8 :: nat)" by simp_all
  have "length [80 :: byte, 72, 80, 255] \<le> 1610612733" by simp
  from base64_roundtrip [OF this, of True, unfolded l] show ?thesis by (metis of_nat_numeral)
qed

subsection \<open>The check behind the loop\<close>

text \<open>
  The code that should reject a lone digit runs only if the loop stopped at a padding character; on a
  string that ends in its NUL the loop stops at a NUL, so that code never runs and a lone digit decodes
  to the empty string.
\<close>

lemma decode_loop_stops_at_nul:
  "decode_loop strict (s @ [0]) (length s) buf i j = Some (Some (ch, r)) \<Longrightarrow> ch = 0"
proof (induction s arbitrary: buf i j)
  case Nil
  then show ?case by (simp add: decode_loop.simps)
next
  case (Cons c s)
  note eq = decode_loop.simps(2) [of strict c "s @ [0]" "Suc (length s)" buf i j]
  show ?case
    using Cons.prems Cons.IH [of buf i j] Cons.IH [of _ "i + 1"]
    by (simp add: eq Let_def del: decode_loop.simps split: if_splits list.splits option.splits prod.splits)
qed

lemma decode_lone_digit: "\<exists>buf. php_base64_decode_ex [81, 0] 1 True = Some (Some (buf, 0))"
  by (simp add: php_base64_decode_ex_def decode_loop.simps base64_pad_def base64_reverse_table_def decode_digit_def store_def)

subsection \<open>The check of the length\<close>

text \<open>
  The guard in front of the allocation compares the number of groups with 2 to the 30th, which no length
  that is an \<open>int\<close> reaches; from 2 to the 29th groups on the multiplication behind it overflows.
\<close>

lemma encode_guard_never_fires: "length s \<le> 2147483645 \<Longrightarrow> php_base64_encode s \<noteq> Some None"
  using i32_id [of "int (length s) + 2"] by (auto simp: php_base64_encode_def Let_def bind_eq_Some_iff)

lemma encode_overflow: "\<lbrakk>1610612734 \<le> length s; length s \<le> 2147483645\<rbrakk> \<Longrightarrow> php_base64_encode s = None"
proof -
  assume l: "1610612734 \<le> length s" "length s \<le> 2147483645"
  have "\<not> i32 (int (length s) + 2) < 0" using l i32_id [of "int (length s) + 2"] by simp
  moreover have "1610612736 div 3 \<le> (length s + 2) div 3" "(length s + 2) div 3 \<le> 2147483647 div 3"
    using l by (intro div_le_mono, simp)+
  then have "(length s + 2) div 3 * 4 > 2147483647" "\<not> (length s + 2) div 3 \<ge> 2 ^ 30" by simp_all
  ultimately show ?thesis by (simp add: php_base64_encode_def Let_def)
qed

end
