(* ===== verification/SplHeap.thy ===== *)
theory SplHeap
  imports Prelude "HOL-Library.Multiset"
begin

text \<open>
  The binary heap behind SplHeap and SplPriorityQueue (ext/spl/spl_heap.c): an array whose first
  \<open>count\<close> slots are live. A comparison may run a user's method, so it threads that method's state and
  the engine's exception flag, and may raise the flag; it does not touch the heap. Unwritten slots are
  \<open>None\<close>, and reading one or leaving the array is \<open>None\<close>. The logs record the calls of the element
  constructor and destructor, which count references.
\<close>

subsection \<open>State\<close>

record 'a ptr_heap =
  elements :: "'a option list"
  count_of :: nat
  max_size :: nat
  corrupted :: bool
  ctor_log :: "'a list"
  dtor_log :: "'a list"

type_synonym 'u exec = "'u \<times> bool"

type_synonym ('a, 'u) cmp_func = "'a \<Rightarrow> 'a \<Rightarrow> 'u exec \<Rightarrow> int \<times> 'u exec"

definition PTR_HEAP_BLOCK_SIZE :: nat where "PTR_HEAP_BLOCK_SIZE = 64"

text \<open>\<open>EG(exception)\<close>\<close>

definition thrown :: "'u exec \<Rightarrow> bool" where
  "thrown st = snd st"

subsection \<open>Comparison\<close>

text \<open>
  A user's \<open>compare\<close> returns a long, or \<open>None\<close> when it throws; the long is narrowed to \<open>int\<close>. Without
  one, values compare by the engine's \<open>compare_function\<close>, a parameter.
\<close>

type_synonym ('a, 'u) user_compare = "'a \<Rightarrow> 'a \<Rightarrow> 'u \<Rightarrow> int option \<times> 'u"

definition call_compare :: "('a, 'u) user_compare \<Rightarrow> 'a \<Rightarrow> 'a \<Rightarrow> 'u exec \<Rightarrow> int \<times> 'u exec" where
  "call_compare f a b st =
     (case f a b (fst st) of (None, u) \<Rightarrow> (0, (u, True)) | (Some lval, u) \<Rightarrow> (i32 lval, (u, False)))"

definition spl_ptr_heap_zval_max_cmp ::
    "('a \<Rightarrow> 'a \<Rightarrow> int) \<Rightarrow> ('a, 'u) user_compare option \<Rightarrow> ('a, 'u) cmp_func" where
  "spl_ptr_heap_zval_max_cmp compare_function fptr_cmp a b st =
     (if thrown st then (0, st)
      else (case fptr_cmp of Some f \<Rightarrow> call_compare f a b st | None \<Rightarrow> (compare_function a b, st)))"

definition spl_ptr_heap_zval_min_cmp ::
    "('a \<Rightarrow> 'a \<Rightarrow> int) \<Rightarrow> ('a, 'u) user_compare option \<Rightarrow> ('a, 'u) cmp_func" where
  "spl_ptr_heap_zval_min_cmp compare_function fptr_cmp a b st =
     (if thrown st then (0, st)
      else (case fptr_cmp of Some f \<Rightarrow> call_compare f a b st | None \<Rightarrow> (compare_function b a, st)))"

subsection \<open>Operations\<close>

definition get_slot :: "'a option list \<Rightarrow> nat \<Rightarrow> 'a option" where
  "get_slot els k = (if k < length els then els ! k else None)"

definition set_slot :: "'a option list \<Rightarrow> nat \<Rightarrow> 'a \<Rightarrow> 'a option list option" where
  "set_slot els k x = (if k < length els then Some (els[k := Some x]) else None)"

definition spl_ptr_heap_init :: "'a ptr_heap" where
  "spl_ptr_heap_init = \<lparr>elements = replicate PTR_HEAP_BLOCK_SIZE None, count_of = 0, max_size = PTR_HEAP_BLOCK_SIZE,
     corrupted = False, ctor_log = [], dtor_log = []\<rparr>"

fun sift_up :: "('a, 'u) cmp_func \<Rightarrow> 'a \<Rightarrow> 'a option list \<Rightarrow> nat \<Rightarrow> 'u exec \<Rightarrow>
    ('a option list \<times> nat \<times> 'u exec) option" where
  "sift_up cmp elem els i st =
     (if i = 0 then Some (els, i, st)
      else (case get_slot els ((i - 1) div 2) of
          None \<Rightarrow> None
        | Some p \<Rightarrow>
            (case cmp p elem st of (r, st') \<Rightarrow>
               if r < 0
               then (case set_slot els i p of None \<Rightarrow> None | Some els' \<Rightarrow> sift_up cmp elem els' ((i - 1) div 2) st')
               else Some (els, i, st'))))"

declare sift_up.simps [simp del]

definition spl_ptr_heap_insert :: "('a, 'u) cmp_func \<Rightarrow> 'a ptr_heap \<Rightarrow> 'a \<Rightarrow> 'u exec \<Rightarrow> ('a ptr_heap \<times> 'u exec) option" where
  "spl_ptr_heap_insert cmp heap elem st = do {
     let heap1 = (if count_of heap + 1 > max_size heap
       then heap\<lparr>elements := elements heap @ replicate (max_size heap) None, max_size := max_size heap * 2\<rparr>
       else heap);
     (els, i, st') \<leftarrow> sift_up cmp elem (elements heap1) (count_of heap1) st;
     els' \<leftarrow> set_slot els i elem;
     Some (heap1\<lparr>elements := els', count_of := count_of heap1 + 1, corrupted := corrupted heap1 \<or> thrown st',
       ctor_log := ctor_log heap1 @ [elem]\<rparr>, st') }"

text \<open>\<open>Some None\<close> is the NULL an empty heap gives.\<close>

definition spl_ptr_heap_top :: "'a ptr_heap \<Rightarrow> 'a option option" where
  "spl_ptr_heap_top heap = (if count_of heap = 0 then Some None else map_option Some (get_slot (elements heap) 0))"

function sift_down :: "('a, 'u) cmp_func \<Rightarrow> 'a \<Rightarrow> nat \<Rightarrow> nat \<Rightarrow> 'a option list \<Rightarrow> nat \<Rightarrow> 'u exec \<Rightarrow>
    ('a option list \<times> nat \<times> 'u exec) option" where
  "sift_down cmp bottom n limit els i st =
     (if i < limit then
        let j = i * 2 + 1 in
        (case get_slot els j of
           None \<Rightarrow> None
         | Some l \<Rightarrow>
             (case (if j \<noteq> n
                    then (case get_slot els (j + 1) of None \<Rightarrow> None | Some r \<Rightarrow> Some (cmp r l st))
                    else Some (0, st)) of
                None \<Rightarrow> None
              | Some (c, st1) \<Rightarrow>
                  let j' = (if c > 0 then j + 1 else j) in
                  (case get_slot els j' of
                     None \<Rightarrow> None
                   | Some x \<Rightarrow>
                       (case cmp bottom x st1 of (d, st2) \<Rightarrow>
                          if d < 0
                          then (case set_slot els i x of
                                  None \<Rightarrow> None
                                | Some els' \<Rightarrow> sift_down cmp bottom n limit els' j' st2)
                          else Some (els, i, st2)))))
      else Some (els, i, st))"
  by pat_completeness auto

termination
  by (relation "measure (\<lambda>(cmp, bottom, n, limit, els, i, st). limit - i)") (auto split: if_splits)

declare sift_down.simps [simp del]

definition spl_ptr_heap_delete_top :: "('a, 'u) cmp_func \<Rightarrow> 'a ptr_heap \<Rightarrow> 'u exec \<Rightarrow>
    ('a option \<times> 'a ptr_heap \<times> 'u exec) option" where
  "spl_ptr_heap_delete_top cmp heap st =
     (if count_of heap = 0 then Some (None, heap, st)
      else do {
        let limit = (count_of heap - 1) div 2;
        top \<leftarrow> get_slot (elements heap) 0;
        let n = count_of heap - 1;
        bottom \<leftarrow> get_slot (elements heap) n;
        (els, i, st') \<leftarrow> sift_down cmp bottom n limit (elements heap) 0 st;
        els' \<leftarrow> set_slot els i bottom;
        Some (Some top, heap\<lparr>elements := els', count_of := n, corrupted := corrupted heap \<or> thrown st',
          dtor_log := dtor_log heap @ [top]\<rparr>, st') })"

definition spl_ptr_heap_clone :: "'a ptr_heap \<Rightarrow> 'a ptr_heap option" where
  "spl_ptr_heap_clone from = do {
     xs \<leftarrow> those (take (count_of from) (elements from));
     Some (from\<lparr>ctor_log := xs, dtor_log := []\<rparr>) }"

definition spl_ptr_heap_destroy :: "'a ptr_heap \<Rightarrow> 'a list option" where
  "spl_ptr_heap_destroy heap = do {
     xs \<leftarrow> those (take (count_of heap) (elements heap));
     Some (dtor_log heap @ xs) }"

subsection \<open>Methods\<close>

text \<open>Exceptions the methods throw themselves, apart from those of a user's comparison.\<close>

datatype heap_error = Heap_Corrupted | Extract_From_Empty | Peek_At_Empty

type_synonym ('a, 'u) method_result = "((heap_error + 'a) \<times> 'a ptr_heap \<times> 'u exec) option"

definition SplHeap_insert :: "('a, 'u) cmp_func \<Rightarrow> 'a ptr_heap \<Rightarrow> 'a \<Rightarrow> 'u exec \<Rightarrow>
    ((heap_error + bool) \<times> 'a ptr_heap \<times> 'u exec) option" where
  "SplHeap_insert cmp heap value st =
     (if corrupted heap then Some (Inl Heap_Corrupted, heap, st)
      else map_option (\<lambda>(h, st'). (Inr True, h, st')) (spl_ptr_heap_insert cmp heap value st))"

definition SplHeap_extract :: "('a, 'u) cmp_func \<Rightarrow> 'a ptr_heap \<Rightarrow> 'u exec \<Rightarrow> ('a, 'u) method_result" where
  "SplHeap_extract cmp heap st =
     (if corrupted heap then Some (Inl Heap_Corrupted, heap, st)
      else do {
        (value, h, st') \<leftarrow> spl_ptr_heap_delete_top cmp heap st;
        Some (case value of None \<Rightarrow> (Inl Extract_From_Empty, h, st') | Some v \<Rightarrow> (Inr v, h, st')) })"

definition SplHeap_top :: "'a ptr_heap \<Rightarrow> (heap_error + 'a) option" where
  "SplHeap_top heap =
     (if corrupted heap then Some (Inl Heap_Corrupted)
      else map_option (\<lambda>v. case v of None \<Rightarrow> Inl Peek_At_Empty | Some x \<Rightarrow> Inr x) (spl_ptr_heap_top heap))"

definition spl_ptr_heap_count :: "'a ptr_heap \<Rightarrow> int" where
  "spl_ptr_heap_count heap = int (count_of heap)"

definition SplHeap_count :: "'a ptr_heap \<Rightarrow> int" where
  "SplHeap_count heap = spl_ptr_heap_count heap"

definition SplHeap_isEmpty :: "'a ptr_heap \<Rightarrow> bool" where
  "SplHeap_isEmpty heap \<longleftrightarrow> spl_ptr_heap_count heap = 0"

text \<open>The top, or \<open>Some None\<close> for PHP's null; unlike \<open>top\<close>, whatever the corruption flag.\<close>

definition SplHeap_current :: "'a ptr_heap \<Rightarrow> 'a option option" where
  "SplHeap_current heap = (if count_of heap = 0 then Some None else map_option Some (get_slot (elements heap) 0))"

definition SplHeap_recoverFromCorruption :: "'a ptr_heap \<Rightarrow> 'a ptr_heap" where
  "SplHeap_recoverFromCorruption heap = heap\<lparr>corrupted := False\<rparr>"

text \<open>\<open>next\<close> deletes the top without looking at the corruption flag.\<close>

definition SplHeap_next :: "('a, 'u) cmp_func \<Rightarrow> 'a ptr_heap \<Rightarrow> 'u exec \<Rightarrow> ('a ptr_heap \<times> 'u exec) option" where
  "SplHeap_next cmp heap st = map_option (\<lambda>(_, h, st'). (h, st')) (spl_ptr_heap_delete_top cmp heap st)"

definition SplHeap_valid :: "'a ptr_heap \<Rightarrow> bool" where
  "SplHeap_valid heap \<longleftrightarrow> count_of heap \<noteq> 0"

definition SplHeap_key :: "'a ptr_heap \<Rightarrow> int" where
  "SplHeap_key heap = int (count_of heap) - 1"

definition spl_heap_it_valid :: "'a ptr_heap \<Rightarrow> zresult" where
  "spl_heap_it_valid heap = (if count_of heap \<noteq> 0 then SUCCESS else FAILURE)"

definition spl_heap_it_get_current_data :: "'a ptr_heap \<Rightarrow> (heap_error + 'a option) option" where
  "spl_heap_it_get_current_data heap =
     (if corrupted heap then Some (Inl Heap_Corrupted)
      else if count_of heap = 0 then Some (Inr None)
      else map_option (\<lambda>x. Inr (Some x)) (get_slot (elements heap) 0))"

definition spl_heap_it_get_current_key :: "'a ptr_heap \<Rightarrow> int" where
  "spl_heap_it_get_current_key heap = int (count_of heap)"

definition spl_heap_it_move_forward :: "('a, 'u) cmp_func \<Rightarrow> 'a ptr_heap \<Rightarrow> 'u exec \<Rightarrow>
    ((heap_error + unit) \<times> 'a ptr_heap \<times> 'u exec) option" where
  "spl_heap_it_move_forward cmp heap st =
     (if corrupted heap then Some (Inl Heap_Corrupted, heap, st)
      else map_option (\<lambda>(_, h, st'). (Inr (), h, st')) (spl_ptr_heap_delete_top cmp heap st))"

subsection \<open>The heap as a list\<close>

definition holds :: "'a ptr_heap \<Rightarrow> 'a list \<Rightarrow> bool" where
  "holds h xs \<longleftrightarrow> count_of h = length xs \<and> length (elements h) = max_size h \<and> length xs \<le> max_size h \<and> 0 < max_size h \<and>
     take (length xs) (elements h) = map Some xs"

lemma holds_nth: "\<lbrakk>holds h xs; k < length xs\<rbrakk> \<Longrightarrow> elements h ! k = Some (xs ! k)"
proof -
  assume h: "holds h xs" and k: "k < length xs"
  have "take (length xs) (elements h) = map Some xs" using h by (simp add: holds_def)
  from arg_cong [OF this, of "\<lambda>l. l ! k"] show ?thesis using k by simp
qed

definition parent :: "nat \<Rightarrow> nat" where
  "parent k = (k - 1) div 2"

lemma parent_less [simp]: "0 < k \<Longrightarrow> parent k < k"
  by (auto simp: parent_def)

text \<open>\<open>c a b\<close> is what the comparison returns, whatever else it does; \<open>a\<close> may stand above \<open>b\<close> if it is
  not negative. Every parent may stand above its children.\<close>

definition pure_cmp :: "('a, 'u) cmp_func \<Rightarrow> ('a \<Rightarrow> 'a \<Rightarrow> int) \<Rightarrow> bool" where
  "pure_cmp cmp c \<longleftrightarrow> (\<forall>a b st. fst (cmp a b st) = c a b)"

definition comparison :: "('a \<Rightarrow> 'a \<Rightarrow> int) \<Rightarrow> bool" where
  "comparison c \<longleftrightarrow> (\<forall>a b. c a b \<le> 0 \<longrightarrow> 0 \<le> c b a) \<and> (\<forall>x y z. 0 \<le> c x y \<longrightarrow> 0 \<le> c y z \<longrightarrow> 0 \<le> c x z)"

definition heap_ordered :: "('a \<Rightarrow> 'a \<Rightarrow> int) \<Rightarrow> 'a list \<Rightarrow> bool" where
  "heap_ordered c xs \<longleftrightarrow> (\<forall>k < length xs. 0 < k \<longrightarrow> 0 \<le> c (xs ! parent k) (xs ! k))"

lemma comparisonD:
  assumes "comparison c"
  shows "c a b \<le> 0 \<Longrightarrow> 0 \<le> c b a" "\<lbrakk>0 \<le> c x y; 0 \<le> c y z\<rbrakk> \<Longrightarrow> 0 \<le> c x z" "0 \<le> c a a"
  using assms unfolding comparison_def by (blast, blast, metis linear)

text \<open>The order with one position, \<open>i\<close>, under way up or down.\<close>

definition rising :: "('a \<Rightarrow> 'a \<Rightarrow> int) \<Rightarrow> 'a list \<Rightarrow> nat \<Rightarrow> bool" where
  "rising c xs i \<longleftrightarrow> (\<forall>k < length xs. 0 < k \<longrightarrow> k \<noteq> i \<longrightarrow> 0 \<le> c (xs ! parent k) (xs ! k)) \<and>
     (\<forall>k < length xs. 0 < k \<longrightarrow> parent k = i \<longrightarrow> 0 < i \<longrightarrow> 0 \<le> c (xs ! parent i) (xs ! k))"

definition sinking :: "('a \<Rightarrow> 'a \<Rightarrow> int) \<Rightarrow> 'a list \<Rightarrow> nat \<Rightarrow> bool" where
  "sinking c xs i \<longleftrightarrow> (\<forall>k < length xs. 0 < k \<longrightarrow> parent k \<noteq> i \<longrightarrow> 0 \<le> c (xs ! parent k) (xs ! k)) \<and>
     (\<forall>k < length xs. 0 < k \<longrightarrow> parent k = i \<longrightarrow> 0 < i \<longrightarrow> 0 \<le> c (xs ! parent i) (xs ! k))"

definition swap :: "'a list \<Rightarrow> nat \<Rightarrow> nat \<Rightarrow> 'a list" where
  "swap xs i j = xs[i := xs ! j, j := xs ! i]"

lemma swap_length [simp]: "length (swap xs i j) = length xs"
  by (simp add: swap_def)

lemma swap_mset: "\<lbrakk>i < length xs; j < length xs\<rbrakk> \<Longrightarrow> mset (swap xs i j) = mset xs"
  using mset_swap [of j xs i] by (cases "i = j") (simp_all add: swap_def list_update_swap)

lemma swap_nth: "\<lbrakk>i < length xs; j < length xs; k < length xs\<rbrakk> \<Longrightarrow>
  swap xs i j ! k = (if k = j then xs ! i else if k = i then xs ! j else xs ! k)"
  by (simp add: swap_def nth_list_update)

lemma rising_swap:
  assumes c: "comparison c" and r: "rising c xs i" and i: "0 < i" "i < length xs" and lt: "c (xs ! parent i) (xs ! i) < 0"
  shows "rising c (swap xs i (parent i)) (parent i)"
proof -
  let ?p = "parent i"
  have p: "?p < i" "?p < length xs" using i by (auto intro: less_trans [OF parent_less])
  have up: "0 \<le> c (xs ! i) (xs ! ?p)" using comparisonD(1) [OF c] lt by simp
  note nth = swap_nth [OF i(2) p(2)]
  have r1: "0 \<le> c (xs ! parent k) (xs ! k)" if "k < length xs" "0 < k" "k \<noteq> i" for k
    using r that unfolding rising_def by blast
  have r2: "0 \<le> c (xs ! ?p) (xs ! k)" if "k < length xs" "0 < k" "parent k = i" for k
    using r that i(1) unfolding rising_def by blast
  have tr: "0 \<le> c (xs ! i) (xs ! k)" if "k < length xs" "0 < k" "k \<noteq> i" "parent k = ?p" for k
    using r1 [OF that(1-3)] that(4) up comparisonD(2) [OF c] by metis
  show ?thesis
    unfolding rising_def swap_length
  proof (intro conjI allI impI)
    fix k assume k: "k < length xs" "0 < k" "k \<noteq> ?p"
    have pk: "parent k < length xs" using k parent_less [of k] by linarith
    show "0 \<le> c (swap xs i ?p ! parent k) (swap xs i ?p ! k)"
    proof (cases "k = i")
      case False
      then show ?thesis using k r1 [of k] r2 [of k] tr [of k] p by (auto simp: nth [OF k(1)] nth [OF pk])
    qed (use up p i in \<open>auto simp: nth [OF i(2)] nth [OF p(2)]\<close>)
  next
    fix k assume k: "k < length xs" "0 < k" "parent k = ?p" "0 < ?p"
    have pp: "parent ?p < ?p" "parent ?p < length xs" using k(4) p(2) parent_less [of ?p] by linarith+
    have top: "0 \<le> c (xs ! parent ?p) (xs ! ?p)" using r1 [of ?p] p k(4) by simp
    have kp: "k \<noteq> ?p" using k(3) parent_less [OF k(2)] by auto
    have "0 \<le> c (xs ! parent ?p) (xs ! k)" if "k \<noteq> i"
      using comparisonD(2) [OF c top] r1 [OF k(1,2) that] k(3) by simp
    then show "0 \<le> c (swap xs i ?p ! parent ?p) (swap xs i ?p ! k)"
      using top pp p kp by (auto simp: nth [OF k(1)] nth [OF pp(2)])
  qed
qed

lemma rising_done:
  assumes "rising c xs i" "i = 0 \<or> 0 \<le> c (xs ! parent i) (xs ! i)"
  shows "heap_ordered c xs"
  using assms unfolding rising_def heap_ordered_def by (metis less_irrefl)

lemma sinking_swap:
  assumes c: "comparison c" and s: "sinking c xs i" and j: "parent j = i" "0 < j" "j < length xs"
    and lt: "c (xs ! i) (xs ! j) < 0"
    and best: "\<And>k. \<lbrakk>k < length xs; 0 < k; parent k = i\<rbrakk> \<Longrightarrow> 0 \<le> c (xs ! j) (xs ! k)"
  shows "sinking c (swap xs i j) j"
proof -
  have i: "i < j" "i < length xs" using j parent_less [of j] by linarith+
  have up: "0 \<le> c (xs ! j) (xs ! i)" using comparisonD(1) [OF c] lt by simp
  note nth = swap_nth [OF i(2) j(3)]
  have s1: "0 \<le> c (xs ! parent k) (xs ! k)" if "k < length xs" "0 < k" "parent k \<noteq> i" for k
    using s that unfolding sinking_def by blast
  have s2: "0 < i \<Longrightarrow> 0 \<le> c (xs ! parent i) (xs ! j)" using s j unfolding sinking_def by blast
  show ?thesis
    unfolding sinking_def swap_length
  proof (intro conjI allI impI)
    fix k assume k: "k < length xs" "0 < k" "parent k \<noteq> j"
    have "parent k < k" using k(2) by simp
    then have pk: "parent k < length xs" "parent k \<noteq> k" using k(1) by auto
    consider "k = j" | "k \<noteq> j" "parent k = i" | "k = i" | "k \<noteq> j" "k \<noteq> i" "parent k \<noteq> i" by blast
    then show "0 \<le> c (swap xs i j ! parent k) (swap xs i j ! k)"
    proof cases
      case 1
      then show ?thesis using up i j by (simp add: nth)
    next
      case 2
      then show ?thesis using best [OF k(1,2)] pk(2) k i j by (auto simp: nth)
    next
      case 3
      then show ?thesis using s2 k pk i j parent_less [OF k(2)] by (auto simp: nth)
    next
      case 4
      then show ?thesis using s1 [OF k(1,2)] k pk i j by (auto simp: nth)
    qed
  next
    fix k assume k: "k < length xs" "0 < k" "parent k = j" "0 < j"
    have "k \<noteq> j" "k \<noteq> i" using k(2,3) parent_less [of k] i by auto
    then show "0 \<le> c (swap xs i j ! parent j) (swap xs i j ! k)"
      using s1 [OF k(1,2)] k i j by (simp add: nth)
  qed
qed

lemma sinking_done:
  assumes "sinking c xs i" "\<And>k. \<lbrakk>k < length xs; 0 < k; parent k = i\<rbrakk> \<Longrightarrow> 0 \<le> c (xs ! i) (xs ! k)"
  shows "heap_ordered c xs"
  using assms unfolding sinking_def heap_ordered_def by metis

lemma children: "parent k = i \<and> 0 < k \<longleftrightarrow> k = 2 * i + 1 \<or> k = 2 * i + 2"
  unfolding parent_def by presburger

subsection \<open>Sifting\<close>

text \<open>The array with the element under way put into its hole.\<close>

lemma take_put: "\<lbrakk>take n els = map Some xs; n \<le> length els\<rbrakk> \<Longrightarrow> take n (els[k := Some x]) = map Some (xs[k := x])"
  by (simp add: take_update_swap map_update)

lemma sift_up_ok:
  assumes "n \<le> length els" "length xs = n" "i < n" "take n (els[i := Some elem]) = map Some xs"
  shows "\<exists>els' i' st' ys. sift_up cmp elem els i st = Some (els', i', st') \<and> i' < n \<and> length els' = length els \<and>
    take n (els'[i' := Some elem]) = map Some ys \<and> mset ys = mset xs \<and>
    (\<forall>c. pure_cmp cmp c \<longrightarrow> comparison c \<longrightarrow> rising c xs i \<longrightarrow> heap_ordered c ys)"
  using assms
proof (induction cmp elem els i st arbitrary: xs rule: sift_up.induct)
  case (1 cmp elem els i st)
  have e: "xs ! i = elem"
    using arg_cong [OF "1.prems"(4), of "\<lambda>l. l ! i"] "1.prems"(1-3) by simp
  show ?case
  proof (cases "i = 0")
    case True
    then show ?thesis using "1.prems" rising_done [of _ xs 0]
      by (intro exI [of _ els] exI [of _ i] exI [of _ st] exI [of _ xs]) (auto simp: sift_up.simps)
  next
    case False
    let ?p = "parent i"
    have p: "?p < i" "?p < length xs" using False "1.prems"(2,3) by (simp_all add: less_trans [OF parent_less])
    have "els ! ?p = Some (xs ! ?p)"
      using arg_cong [OF "1.prems"(4), of "\<lambda>l. l ! ?p"] "1.prems"(1-3) p by simp
    then have gp: "get_slot els ((i - 1) div 2) = Some (xs ! ?p)"
      using p "1.prems"(1-3) by (simp add: get_slot_def parent_def)
    obtain r st' where r: "cmp (xs ! ?p) elem st = (r, st')" by (rule prod.exhaust)
    show ?thesis
    proof (cases "r < 0")
      case False
      have "0 \<le> c (xs ! ?p) (xs ! i)" if "pure_cmp cmp c" for c
        using that r False e unfolding pure_cmp_def by (metis fst_conv not_less)
      then have "\<forall>c. pure_cmp cmp c \<longrightarrow> comparison c \<longrightarrow> rising c xs i \<longrightarrow> heap_ordered c xs"
        using rising_done by blast
      then show ?thesis using gp r False \<open>i \<noteq> 0\<close> "1.prems"
        by (intro exI [of _ els] exI [of _ i] exI [of _ st'] exI [of _ xs]) (auto simp: sift_up.simps)
    next
      case True
      let ?els = "els[i := Some (xs ! ?p)]" and ?xs = "swap xs i ?p"
      have st: "set_slot els i (xs ! ?p) = Some ?els" using "1.prems"(1,3) by (simp add: set_slot_def)
      have "take n (?els[?p := Some elem]) = map Some ?xs"
        using take_put [OF "1.prems"(4), of i "xs ! ?p"] take_put [of n "els[i := Some (xs ! ?p)]" "xs[i := xs ! ?p]" ?p elem]
          "1.prems"(1) e p by (simp add: swap_def)
      then obtain els' i' st2 ys where IH: "sift_up cmp elem ?els ?p st' = Some (els', i', st2)" "i' < n"
        "length els' = length ?els" "take n (els'[i' := Some elem]) = map Some ys" "mset ys = mset ?xs"
        "\<forall>c. pure_cmp cmp c \<longrightarrow> comparison c \<longrightarrow> rising c ?xs ?p \<longrightarrow> heap_ordered c ys"
        using "1.IH" [OF False gp r [symmetric] True st, folded parent_def, of ?xs] "1.prems"(1,2,3) p by auto
      have "sift_up cmp elem els i st = sift_up cmp elem ?els ?p st'"
        using False gp r True st by (simp add: sift_up.simps [of cmp elem els i st] parent_def)
      moreover have "mset ys = mset xs" using IH(5) swap_mset [of i xs ?p] p "1.prems"(2,3) by simp
      moreover have "rising c ?xs ?p" if "pure_cmp cmp c" "comparison c" "rising c xs i" for c
      proof (rule rising_swap [OF that(2,3)])
        show "c (xs ! ?p) (xs ! i) < 0" using that(1) r True e unfolding pure_cmp_def by (metis fst_conv)
      qed (use False "1.prems"(2,3) in simp_all)
      ultimately show ?thesis using IH by auto
    qed
  qed
qed

lemma sift_down_ok:
  assumes "n < length els" "length xs = n" "i \<le> n" "take n (els[i := Some bottom]) = map Some xs" "els ! n = Some bottom"
  shows "\<exists>els' i' st' ys. sift_down cmp bottom n (n div 2) els i st = Some (els', i', st') \<and> i' \<le> n \<and>
    length els' = length els \<and> take n (els'[i' := Some bottom]) = map Some ys \<and> mset ys = mset xs \<and>
    (\<forall>c. pure_cmp cmp c \<longrightarrow> comparison c \<longrightarrow> sinking c xs i \<longrightarrow> heap_ordered c ys)"
  using assms
proof (induction "n - i" arbitrary: xs els i st rule: less_induct)
  case less
  show ?case
  proof (cases "i < n div 2")
    case False
    have "\<not> (k < length xs \<and> 0 < k \<and> parent k = i)" for k
      using False less.prems(2) children [of k i] by presburger
    then have "\<forall>c. pure_cmp cmp c \<longrightarrow> comparison c \<longrightarrow> sinking c xs i \<longrightarrow> heap_ordered c xs"
      using sinking_done by blast
    then show ?thesis using False less.prems
      by (intro exI [of _ els] exI [of _ i] exI [of _ st] exI [of _ xs]) (simp add: sift_down.simps)
  next
    case True
    define j where "j = i * 2 + 1"
    have j: "j < n" "j + 1 \<le> n" "i < n" "i < j" "j \<noteq> n" "parent j = i" "0 < j" using True by (auto simp: j_def parent_def)
    have at: "els ! k = Some (xs ! k)" if "k < n" "k \<noteq> i" for k
      using arg_cong [OF less.prems(4), of "\<lambda>l. l ! k"] that less.prems(1,2) by simp
    have e: "xs ! i = bottom"
      using arg_cong [OF less.prems(4), of "\<lambda>l. l ! i"] j less.prems(1,2) by simp
    define R where "R = (if j + 1 = n then bottom else xs ! (j + 1))"
    have gl: "get_slot els j = Some (xs ! j)" using at [of j] j less.prems(1) by (simp add: get_slot_def)
    have gr: "get_slot els (j + 1) = Some R"
      using at [of "j + 1"] j less.prems(1,5) by (auto simp: get_slot_def R_def)
    obtain a st1 where a: "cmp R (xs ! j) st = (a, st1)" by (rule prod.exhaust)
    define j' where "j' = (if a > 0 then j + 1 else j)"
    define x where "x = (if a > 0 then R else xs ! j)"
    have gx: "get_slot els j' = Some x" using gl gr by (simp add: j'_def x_def)
    obtain d st2 where d: "cmp bottom x st1 = (d, st2)" by (rule prod.exhaust)
    have step: "sift_down cmp bottom n (n div 2) els i st =
        (if d < 0 then (case set_slot els i x of None \<Rightarrow> None
           | Some els' \<Rightarrow> sift_down cmp bottom n (n div 2) els' j' st2) else Some (els, i, st2))"
      using True gl gr a gx d j(5) unfolding j'_def j_def
      by (cases "a > 0") (simp_all add: sift_down.simps [of cmp bottom n "n div 2" els i st] Let_def split: option.split)
    have child: "k = j \<or> k = j + 1" if "0 < k" "parent k = i" for k
      using that children [of k i] by (auto simp: j_def)
    show ?thesis
    proof (cases "d < 0")
      case False
      have "0 \<le> c (xs ! i) (xs ! k)" if c: "pure_cmp cmp c" "comparison c" and k: "k < length xs" "0 < k" "parent k = i" for c k
      proof -
        have v: "c R (xs ! j) = a" "c bottom x = d" using c(1) a d unfolding pure_cmp_def by (metis fst_conv)+
        then have b: "0 \<le> c bottom x" using False by simp
        have xj: "0 \<le> c x (xs ! j)" using v(1) comparisonD(3) [OF c(2)] by (auto simp: x_def)
        have xr: "0 \<le> c x R" using v(1) comparisonD(1) [OF c(2)] comparisonD(3) [OF c(2)] by (auto simp: x_def)
        have "xs ! k = xs ! j \<or> xs ! k = R" using child [OF k(2,3)] k(1) less.prems(2) by (auto simp: R_def)
        then show ?thesis using b xj xr comparisonD(2) [OF c(2)] unfolding e by metis
      qed
      then have "\<forall>c. pure_cmp cmp c \<longrightarrow> comparison c \<longrightarrow> sinking c xs i \<longrightarrow> heap_ordered c xs"
        using sinking_done by blast
      then show ?thesis using step False less.prems
        by (intro exI [of _ els] exI [of _ i] exI [of _ st2] exI [of _ xs]) simp
    next
      case neg: True
      let ?els = "els[i := Some x]"
      have st: "set_slot els i x = Some ?els" using less.prems(1) j(3) by (simp add: set_slot_def)
      have n': "?els ! n = Some bottom" using less.prems(5) j(3) by simp
      show ?thesis
      proof (cases "j' = n")
        case True
        then have xb: "x = bottom" using j(1) by (auto simp: j'_def x_def R_def split: if_splits)
        have stop: "sift_down cmp bottom n (n div 2) ?els n st2 = Some (?els, n, st2)"
        proof -
          have "\<not> n < n div 2" by linarith
          then show ?thesis by (subst sift_down.simps) (simp only: if_False)
        qed
        have "take n (?els[n := Some bottom]) = map Some xs" using less.prems(4) xb by simp
        moreover have "\<not> (pure_cmp cmp c \<and> comparison c)" for c
          using comparisonD(3) [of c bottom] d neg xb unfolding pure_cmp_def by (metis fst_conv not_less)
        ultimately show ?thesis using step neg st stop True less.prems(1)
          by (intro exI [of _ ?els] exI [of _ n] exI [of _ st2] exI [of _ xs]) auto
      next
        case False
        let ?xs = "swap xs i j'"
        have j': "j' < n" "parent j' = i" "0 < j'" "i < j'" "x = xs ! j'"
          using False j children [of "j + 1" i] by (auto simp: j'_def x_def R_def j_def split: if_splits)
        have "take n (?els[j' := Some bottom]) = map Some ?xs"
          using take_put [OF less.prems(4), of i x] take_put [of n ?els "xs[i := x]" j' bottom] less.prems(1) e j'(5)
          by (simp add: swap_def)
        moreover have "n - j' < n - i" using j' by simp
        ultimately obtain els' i' st3 ys where IH: "sift_down cmp bottom n (n div 2) ?els j' st2 = Some (els', i', st3)"
          "i' \<le> n" "length els' = length ?els" "take n (els'[i' := Some bottom]) = map Some ys" "mset ys = mset ?xs"
          "\<forall>c. pure_cmp cmp c \<longrightarrow> comparison c \<longrightarrow> sinking c ?xs j' \<longrightarrow> heap_ordered c ys"
          using less.hyps [of j' ?els ?xs st2] less.prems(1,2) j'(1) n' by auto
        have "sinking c ?xs j'" if c: "pure_cmp cmp c" "comparison c" "sinking c xs i" for c
        proof (rule sinking_swap [OF c(2,3) j'(2,3)])
          have v: "c R (xs ! j) = a" "c bottom x = d" using c(1) a d unfolding pure_cmp_def by (metis fst_conv)+
          show "c (xs ! i) (xs ! j') < 0" using v(2) neg e j'(5) by simp
          fix k assume k: "k < length xs" "0 < k" "parent k = i"
          have "xs ! k = xs ! j \<or> xs ! k = R" using child [OF k(2,3)] k(1) less.prems(2) by (auto simp: R_def)
          moreover have "0 \<le> c x (xs ! j)" using v(1) comparisonD(3) [OF c(2)] by (auto simp: x_def)
          moreover have "0 \<le> c x R" using v(1) comparisonD(1) [OF c(2)] comparisonD(3) [OF c(2)] by (auto simp: x_def)
          ultimately show "0 \<le> c (xs ! j') (xs ! k)" using j'(5) by metis
        qed (use j'(1) less.prems(2) in simp)
        moreover have "mset ys = mset xs" using IH(5) swap_mset [of i xs j'] j(3) j'(1) less.prems(2) by simp
        ultimately show ?thesis using step neg st IH by auto
      qed
    qed
  qed
qed

subsection \<open>The operations\<close>

lemma sift_up_last:
  assumes "length els' = m" "length xs < m" "take (length xs) els' = map Some xs"
  shows "\<exists>els2 i st' ys. sift_up cmp x els' (length xs) st = Some (els2, i, st') \<and> i \<le> length xs \<and> length els2 = m \<and>
    take (length xs + 1) (els2[i := Some x]) = map Some ys \<and> mset ys = add_mset x (mset xs) \<and>
    (\<forall>c. pure_cmp cmp c \<longrightarrow> comparison c \<longrightarrow> heap_ordered c xs \<longrightarrow> heap_ordered c ys)"
proof -
  have t: "take (length xs + 1) (els'[length xs := Some x]) = map Some (xs @ [x])"
    using assms by (simp add: take_Suc_conv_app_nth)
  have r: "rising c (xs @ [x]) (length xs)" if "heap_ordered c xs" for c
    unfolding rising_def
  proof (intro conjI allI impI)
    fix k assume k: "k < length (xs @ [x])" "0 < k" "k \<noteq> length xs"
    then have "k < length xs" "parent k < length xs" using less_trans [OF parent_less] by simp_all
    then show "0 \<le> c ((xs @ [x]) ! parent k) ((xs @ [x]) ! k)" using that k(2) by (simp add: heap_ordered_def nth_append)
  next
    fix k assume "k < length (xs @ [x])" "0 < k" "parent k = length xs"
    then have False using parent_less [of k] by simp
    then show "0 \<le> c ((xs @ [x]) ! parent (length xs)) ((xs @ [x]) ! k)" ..
  qed
  obtain els2 i st' ys where "sift_up cmp x els' (length xs) st = Some (els2, i, st')" "i < length xs + 1"
    "length els2 = length els'" "take (length xs + 1) (els2[i := Some x]) = map Some ys" "mset ys = mset (xs @ [x])"
    "\<forall>c. pure_cmp cmp c \<longrightarrow> comparison c \<longrightarrow> rising c (xs @ [x]) (length xs) \<longrightarrow> heap_ordered c ys"
    using sift_up_ok [OF _ _ _ t, of cmp st] assms by auto
  then show ?thesis using r assms(1) by (intro exI [of _ els2] exI [of _ i] exI [of _ st'] exI [of _ ys]) auto
qed

lemma insert_ok:
  assumes "holds h xs"
  shows "\<exists>h' st' ys. spl_ptr_heap_insert cmp h x st = Some (h', st') \<and> holds h' ys \<and> mset ys = add_mset x (mset xs) \<and>
    corrupted h' = (corrupted h \<or> thrown st') \<and> ctor_log h' = ctor_log h @ [x] \<and> dtor_log h' = dtor_log h \<and>
    (\<forall>c. pure_cmp cmp c \<longrightarrow> comparison c \<longrightarrow> heap_ordered c xs \<longrightarrow> heap_ordered c ys)"
proof -
  define h1 where "h1 = (if count_of h + 1 > max_size h
       then h\<lparr>elements := elements h @ replicate (max_size h) None, max_size := max_size h * 2\<rparr> else h)"
  have h1: "length (elements h1) = max_size h1" "length xs < max_size h1" "take (length xs) (elements h1) = map Some xs"
    "count_of h1 = length xs" "corrupted h1 = corrupted h" "ctor_log h1 = ctor_log h" "dtor_log h1 = dtor_log h"
    using assms by (auto simp: h1_def holds_def)
  obtain els i st' ys where r: "sift_up cmp x (elements h1) (length xs) st = Some (els, i, st')" "i \<le> length xs"
    "length els = max_size h1" "take (length xs + 1) (els[i := Some x]) = map Some ys" "mset ys = add_mset x (mset xs)"
    "\<forall>c. pure_cmp cmp c \<longrightarrow> comparison c \<longrightarrow> heap_ordered c xs \<longrightarrow> heap_ordered c ys"
    using sift_up_last [OF h1(1-3), of cmp x st] by blast
  have "length ys = length xs + 1" using arg_cong [OF r(5), of size] by simp
  moreover have "set_slot els i x = Some (els[i := Some x])" using r(2,3) h1(2) by (simp add: set_slot_def)
  moreover have "spl_ptr_heap_insert cmp h x st = do {
     (els, i, st') \<leftarrow> sift_up cmp x (elements h1) (count_of h1) st;
     els' \<leftarrow> set_slot els i x;
     Some (h1\<lparr>elements := els', count_of := count_of h1 + 1, corrupted := corrupted h1 \<or> thrown st',
       ctor_log := ctor_log h1 @ [x]\<rparr>, st') }"
    by (simp add: spl_ptr_heap_insert_def h1_def Let_def)
  ultimately show ?thesis
    using r h1 by (intro exI [of _ "h1\<lparr>elements := els[i := Some x], count_of := count_of h1 + 1,
      corrupted := corrupted h1 \<or> thrown st', ctor_log := ctor_log h1 @ [x]\<rparr>"] exI [of _ st'] exI [of _ ys])
      (simp add: holds_def Suc_le_eq)
qed

lemma delete_top_ok:
  assumes "holds h xs" "xs \<noteq> []"
  shows "\<exists>h' st' ys. spl_ptr_heap_delete_top cmp h st = Some (Some (hd xs), h', st') \<and> holds h' ys \<and>
    mset xs = add_mset (hd xs) (mset ys) \<and> corrupted h' = (corrupted h \<or> thrown st') \<and>
    ctor_log h' = ctor_log h \<and> dtor_log h' = dtor_log h @ [hd xs] \<and>
    (\<forall>c. pure_cmp cmp c \<longrightarrow> comparison c \<longrightarrow> heap_ordered c xs \<longrightarrow> heap_ordered c ys)"
proof -
  define n where "n = length xs - 1"
  have len: "length xs = Suc n" "n < length (elements h)" "count_of h = Suc n"
    using assms by (auto simp: n_def holds_def neq_Nil_conv)
  have at: "elements h ! k = Some (xs ! k)" if "k \<le> n" for k
    using holds_nth [OF assms(1)] that len(1) by simp
  let ?b = "xs ! n"
  let ?xs = "take n (xs[0 := ?b])"
  have "take (length xs) (elements h) = map Some xs" using assms(1) by (simp add: holds_def)
  from arg_cong [OF this, of "take n"] have "take n (elements h) = map Some (take n xs)"
    using len(1) by (simp add: take_map min_def)
  then have t: "take n ((elements h)[0 := Some ?b]) = map Some ?xs"
    by (simp add: take_update_swap map_update)
  have m: "mset xs = add_mset (hd xs) (mset ?xs)"
  proof (cases n)
    case 0
    then show ?thesis using len(1) by (cases xs) auto
  next
    case (Suc m)
    obtain x ys where xs: "xs = x # ys" using assms(2) by (cases xs) auto
    then obtain zs b where ys: "ys = zs @ [b]" using len(1) Suc by (cases ys rule: rev_cases) auto
    then show ?thesis using len(1) Suc xs by (simp add: nth_append)
  qed
  have s: "sinking c ?xs 0" if "heap_ordered c xs" for c
    unfolding sinking_def
  proof (intro conjI allI impI)
    fix k assume k: "k < length ?xs" "0 < k" "parent k \<noteq> 0"
    then have "k < n" "parent k < n" using less_trans [OF parent_less [OF k(2)]] by simp_all
    then show "0 \<le> c (?xs ! parent k) (?xs ! k)" using that k len(1) by (simp add: heap_ordered_def)
  qed simp
  obtain els i st' ys where r: "sift_down cmp ?b n (n div 2) (elements h) 0 st = Some (els, i, st')" "i \<le> n"
    "length els = length (elements h)" "take n (els[i := Some ?b]) = map Some ys" "mset ys = mset ?xs"
    "\<forall>c. pure_cmp cmp c \<longrightarrow> comparison c \<longrightarrow> sinking c ?xs 0 \<longrightarrow> heap_ordered c ys"
    using sift_down_ok [OF len(2) _ _ t at [of n], of cmp st] len(1) by auto
  have "length ys = n" using arg_cong [OF r(5), of size] len(1) by simp
  moreover have "get_slot (elements h) 0 = Some (hd xs)" "get_slot (elements h) n = Some ?b"
    using at [of 0] at [of n] len by (auto simp: get_slot_def hd_conv_nth [OF assms(2)])
  moreover have "set_slot els i ?b = Some (els[i := Some ?b])" using r(2,3) len(2) by (simp add: set_slot_def)
  ultimately show ?thesis
    using r s m assms(1) len
    by (intro exI [of _ "h\<lparr>elements := els[i := Some ?b], count_of := n, corrupted := corrupted h \<or> thrown st',
      dtor_log := dtor_log h @ [hd xs]\<rparr>"] exI [of _ st'] exI [of _ ys])
      (simp add: spl_ptr_heap_delete_top_def Let_def holds_def)
qed

lemma top_ok: "holds h xs \<Longrightarrow> spl_ptr_heap_top h = Some (case xs of [] \<Rightarrow> None | x # _ \<Rightarrow> Some x)"
proof (cases xs)
  case (Cons x ys)
  assume "holds h xs"
  then have "elements h ! 0 = Some x" "0 < length (elements h)"
    using Cons holds_nth [of h xs 0] by (auto simp: holds_def)
  then show ?thesis using \<open>holds h xs\<close> Cons by (simp add: spl_ptr_heap_top_def holds_def get_slot_def)
qed (simp add: spl_ptr_heap_top_def holds_def)

text \<open>The top may stand above every element.\<close>

lemma heap_top_max:
  assumes "comparison c" "heap_ordered c xs" "k < length xs"
  shows "0 \<le> c (hd xs) (xs ! k)"
  using assms(3)
proof (induction k rule: less_induct)
  case (less k)
  have h: "hd xs = xs ! 0" using less.prems by (cases xs) auto
  show ?case
  proof (cases "k = 0")
    case False
    then have "0 \<le> c (hd xs) (xs ! parent k)" using less parent_less [of k] by simp
    moreover have "0 \<le> c (xs ! parent k) (xs ! k)" using assms(2) less.prems False by (simp add: heap_ordered_def)
    ultimately show ?thesis using comparisonD(2) [OF assms(1)] by blast
  qed (use h comparisonD(3) [OF assms(1)] in simp)
qed

end
