(* ===== verification/SplPqueue.thy ===== *)
theory SplPqueue
  imports SplHeap
begin

unbundle bit_operations_syntax

text \<open>
  SplPriorityQueue (ext/spl/spl_heap.c): a heap of nodes, each a PHP array with the keys \<open>data\<close> and
  \<open>priority\<close>, compared by priority; the extraction flags choose what \<open>extract\<close> and \<open>top\<close> hand out.
\<close>

subsection \<open>Nodes\<close>

type_synonym 'a node = "(string \<times> 'a) list"

definition SPL_PQUEUE_EXTR_MASK :: int where "SPL_PQUEUE_EXTR_MASK = 3"
definition SPL_PQUEUE_EXTR_BOTH :: int where "SPL_PQUEUE_EXTR_BOTH = 3"
definition SPL_PQUEUE_EXTR_DATA :: int where "SPL_PQUEUE_EXTR_DATA = 1"
definition SPL_PQUEUE_EXTR_PRIORITY :: int where "SPL_PQUEUE_EXTR_PRIORITY = 2"

lemmas flag_defs = SPL_PQUEUE_EXTR_MASK_def SPL_PQUEUE_EXTR_BOTH_def SPL_PQUEUE_EXTR_DATA_def SPL_PQUEUE_EXTR_PRIORITY_def

text \<open>What an extraction gives: the node itself or one of its elements.\<close>

datatype 'a extracted = Whole "'a node" | Element 'a

definition spl_pqueue_extract_helper :: "'a node \<Rightarrow> int \<Rightarrow> 'a extracted option" where
  "spl_pqueue_extract_helper value flags =
     (if flags AND SPL_PQUEUE_EXTR_BOTH = SPL_PQUEUE_EXTR_BOTH then Some (Whole value)
      else if 0 < flags AND SPL_PQUEUE_EXTR_BOTH then
        (if flags AND SPL_PQUEUE_EXTR_DATA = SPL_PQUEUE_EXTR_DATA
         then map_option Element (map_of value ''data'')
         else map_option Element (map_of value ''priority''))
      else None)"

text \<open>A node that lacks its priority compares equal to every other, after an error message.\<close>

definition spl_ptr_pqueue_zval_cmp ::
    "('a extracted \<Rightarrow> 'a extracted \<Rightarrow> int) \<Rightarrow> ('a extracted, 'u) user_compare option \<Rightarrow> ('a node, 'u) cmp_func" where
  "spl_ptr_pqueue_zval_cmp compare_function fptr_cmp a b st =
     (case (spl_pqueue_extract_helper a SPL_PQUEUE_EXTR_PRIORITY, spl_pqueue_extract_helper b SPL_PQUEUE_EXTR_PRIORITY) of
        (Some pa, Some pb) \<Rightarrow>
          (if thrown st then (0, st)
           else (case fptr_cmp of
               Some f \<Rightarrow> call_compare f pa pb st
             | None \<Rightarrow> (compare_function pa pb, st)))
      | _ \<Rightarrow> (0, st))"

subsection \<open>Methods\<close>

record 'a pqueue =
  heap_of :: "'a node ptr_heap"
  flags_of :: int

definition spl_pqueue_new :: "'a pqueue" where
  "spl_pqueue_new = \<lparr>heap_of = spl_ptr_heap_init, flags_of = SPL_PQUEUE_EXTR_DATA\<rparr>"

datatype pqueue_error = Heap_Error heap_error | Unable_To_Extract

definition SplPriorityQueue_insert :: "('a node, 'u) cmp_func \<Rightarrow> 'a pqueue \<Rightarrow> 'a \<Rightarrow> 'a \<Rightarrow> 'u exec \<Rightarrow>
    ((pqueue_error + bool) \<times> 'a pqueue \<times> 'u exec) option" where
  "SplPriorityQueue_insert cmp q data priority st =
     (if corrupted (heap_of q) then Some (Inl (Heap_Error Heap_Corrupted), q, st)
      else do {
        let elem = [(''data'', data), (''priority'', priority)];
        (h, st') \<leftarrow> spl_ptr_heap_insert cmp (heap_of q) elem st;
        Some (Inr True, q\<lparr>heap_of := h\<rparr>, st') })"

definition SplPriorityQueue_extract :: "('a node, 'u) cmp_func \<Rightarrow> 'a pqueue \<Rightarrow> 'u exec \<Rightarrow>
    ((pqueue_error + 'a extracted) \<times> 'a pqueue \<times> 'u exec) option" where
  "SplPriorityQueue_extract cmp q st =
     (if corrupted (heap_of q) then Some (Inl (Heap_Error Heap_Corrupted), q, st)
      else do {
        (value, h, st') \<leftarrow> spl_ptr_heap_delete_top cmp (heap_of q) st;
        Some (case value of
            None \<Rightarrow> (Inl (Heap_Error Extract_From_Empty), q\<lparr>heap_of := h\<rparr>, st')
          | Some v \<Rightarrow>
              (case spl_pqueue_extract_helper v (flags_of q) of
                 None \<Rightarrow> (Inl Unable_To_Extract, q\<lparr>heap_of := h\<rparr>, st')
               | Some value_out \<Rightarrow> (Inr value_out, q\<lparr>heap_of := h\<rparr>, st'))) })"

definition SplPriorityQueue_top :: "'a pqueue \<Rightarrow> (pqueue_error + 'a extracted) option" where
  "SplPriorityQueue_top q =
     (if corrupted (heap_of q) then Some (Inl (Heap_Error Heap_Corrupted))
      else map_option
        (\<lambda>value. case value of
            None \<Rightarrow> Inl (Heap_Error Peek_At_Empty)
          | Some v \<Rightarrow>
              (case spl_pqueue_extract_helper v (flags_of q) of
                 None \<Rightarrow> Inl Unable_To_Extract
               | Some value_out \<Rightarrow> Inr value_out))
        (spl_ptr_heap_top (heap_of q)))"

definition SplPriorityQueue_current :: "'a pqueue \<Rightarrow> 'a extracted option option" where
  "SplPriorityQueue_current q =
     (if count_of (heap_of q) = 0 then Some None
      else (case get_slot (elements (heap_of q)) 0 of
          None \<Rightarrow> None
        | Some element \<Rightarrow> Some (spl_pqueue_extract_helper element (flags_of q))))"

definition spl_pqueue_it_get_current_data :: "'a pqueue \<Rightarrow> (heap_error + 'a extracted option) option" where
  "spl_pqueue_it_get_current_data q =
     (if corrupted (heap_of q) then Some (Inl Heap_Corrupted)
      else if count_of (heap_of q) = 0 then Some (Inr None)
      else (case get_slot (elements (heap_of q)) 0 of
          None \<Rightarrow> None
        | Some element \<Rightarrow> Some (Inr (spl_pqueue_extract_helper element (flags_of q)))))"

definition SplPriorityQueue_setExtractFlags :: "int \<Rightarrow> 'a pqueue \<Rightarrow> int \<times> 'a pqueue" where
  "SplPriorityQueue_setExtractFlags value q =
     (let f = value AND SPL_PQUEUE_EXTR_MASK in (f, q\<lparr>flags_of := f\<rparr>))"

end
