(* ===== verification/SplHeapSpec.thy ===== *)
theory SplHeapSpec
  imports SplPqueue
begin

text \<open>
  What the heaps of SplHeap and SplPqueue promise: under any comparison, a throwing one included, no
  element is lost or released twice; under a comparison that orders its values, extraction sorts.
\<close>

subsection \<open>Any sequence of operations\<close>

datatype 'a heap_op = Insert 'a | Delete_Top | Recover

fun run_ops :: "('a, 'u) cmp_func \<Rightarrow> 'a heap_op list \<Rightarrow> 'a ptr_heap \<Rightarrow> 'u exec \<Rightarrow> ('a ptr_heap \<times> 'u exec) option" where
  "run_ops cmp [] h st = Some (h, st)"
| "run_ops cmp (Insert x # ops) h st =
     (case spl_ptr_heap_insert cmp h x st of None \<Rightarrow> None | Some (h', st') \<Rightarrow> run_ops cmp ops h' st')"
| "run_ops cmp (Delete_Top # ops) h st =
     (case spl_ptr_heap_delete_top cmp h st of None \<Rightarrow> None | Some (_, h', st') \<Rightarrow> run_ops cmp ops h' st')"
| "run_ops cmp (Recover # ops) h st = run_ops cmp ops (SplHeap_recoverFromCorruption h) st"

definition balanced :: "'a ptr_heap \<Rightarrow> bool" where
  "balanced h \<longleftrightarrow> (\<exists>xs. holds h xs \<and> mset (ctor_log h) = mset (dtor_log h) + mset xs)"

lemma balanced_init: "balanced spl_ptr_heap_init"
  unfolding balanced_def by (rule exI [of _ "[]"]) (simp add: holds_def spl_ptr_heap_init_def PTR_HEAP_BLOCK_SIZE_def)

lemma balanced_insert:
  assumes "balanced h"
  shows "\<exists>h' st'. spl_ptr_heap_insert cmp h x st = Some (h', st') \<and> balanced h'"
proof -
  obtain xs where xs: "holds h xs" "mset (ctor_log h) = mset (dtor_log h) + mset xs"
    using assms unfolding balanced_def by blast
  obtain h' st' ys where "spl_ptr_heap_insert cmp h x st = Some (h', st')" "holds h' ys" "mset ys = add_mset x (mset xs)"
    "ctor_log h' = ctor_log h @ [x]" "dtor_log h' = dtor_log h"
    using insert_ok [OF xs(1), of cmp x st] by blast
  then show ?thesis using xs(2) by (auto simp: balanced_def)
qed

lemma balanced_delete_top:
  assumes "balanced h"
  shows "\<exists>v h' st'. spl_ptr_heap_delete_top cmp h st = Some (v, h', st') \<and> balanced h'"
proof -
  obtain xs where xs: "holds h xs" "mset (ctor_log h) = mset (dtor_log h) + mset xs"
    using assms unfolding balanced_def by blast
  show ?thesis
  proof (cases "xs = []")
    case True
    then have "spl_ptr_heap_delete_top cmp h st = Some (None, h, st)"
      using xs(1) by (simp add: spl_ptr_heap_delete_top_def holds_def)
    then show ?thesis using assms by blast
  next
    case False
    obtain h' st' ys where "spl_ptr_heap_delete_top cmp h st = Some (Some (hd xs), h', st')" "holds h' ys"
      "mset xs = add_mset (hd xs) (mset ys)" "ctor_log h' = ctor_log h" "dtor_log h' = dtor_log h @ [hd xs]"
      using delete_top_ok [OF xs(1) False, of cmp st] by blast
    then show ?thesis using xs(2) by (auto simp: balanced_def)
  qed
qed

lemma balanced_recover: "balanced h \<Longrightarrow> balanced (SplHeap_recoverFromCorruption h)"
  by (simp add: balanced_def holds_def SplHeap_recoverFromCorruption_def)

lemma balanced_run: "balanced h \<Longrightarrow> \<exists>h' st'. run_ops cmp ops h st = Some (h', st') \<and> balanced h'"
proof (induction ops arbitrary: h st)
  case (Cons a ops)
  show ?case
  proof (cases a)
    case (Insert x)
    then show ?thesis using Cons.IH balanced_insert [OF Cons.prems, of cmp x st] by auto
  next
    case Delete_Top
    then show ?thesis using Cons.IH balanced_delete_top [OF Cons.prems, of cmp st] by auto
  next
    case Recover
    then show ?thesis using Cons.IH balanced_recover [OF Cons.prems] by auto
  qed
qed simp

lemma those_map_Some [simp]: "those (map Some xs) = Some xs"
  by (induction xs) simp_all

lemma balanced_destroy: "balanced h \<Longrightarrow> \<exists>log. spl_ptr_heap_destroy h = Some log \<and> mset log = mset (ctor_log h)"
  by (auto simp: balanced_def holds_def spl_ptr_heap_destroy_def)

text \<open>C38. Under any comparison that leaves the heap it is called from alone, however inconsistent its answers
  and whatever else it changes, a user's \<open>compare\<close> that throws at any point included, every sequence
  of insertions, removals of the top and recoveries on a new heap stays inside the array and ends, and destroying
  the heap then has released every inserted element exactly as often as it was acquired: nothing leaks and
  nothing is freed twice. A \<open>compare\<close> that inserts into or extracts from the heap that is calling it is not covered.\<close>

theorem spl_heap_no_leak:
  "\<exists>h st'. run_ops cmp ops spl_ptr_heap_init st = Some (h, st') \<and>
     (\<exists>log. spl_ptr_heap_destroy h = Some log \<and> mset log = mset (ctor_log h))"
  using balanced_run [OF balanced_init, of cmp ops st] balanced_destroy by blast

subsection \<open>A comparison that orders its values\<close>

text \<open>On the values of \<open>S\<close> and while no exception is pending, the comparison answers \<open>c\<close> and throws nothing.\<close>

definition quiet :: "'a set \<Rightarrow> ('a, 'u) cmp_func \<Rightarrow> ('a \<Rightarrow> 'a \<Rightarrow> int) \<Rightarrow> bool" where
  "quiet S cmp c \<longleftrightarrow>
     (\<forall>a \<in> S. \<forall>b \<in> S. \<forall>st. \<not> thrown st \<longrightarrow> fst (cmp a b st) = c a b \<and> \<not> thrown (snd (cmp a b st)))"

definition purified :: "('a \<Rightarrow> 'a \<Rightarrow> int) \<Rightarrow> ('a, 'u) cmp_func \<Rightarrow> ('a, 'u) cmp_func" where
  "purified c cmp a b st = (c a b, snd (cmp a b st))"

definition within :: "'a set \<Rightarrow> 'a option list \<Rightarrow> bool" where
  "within S els \<longleftrightarrow> (\<forall>x. Some x \<in> set els \<longrightarrow> x \<in> S)"

lemma within_get: "\<lbrakk>within S els; get_slot els k = Some x\<rbrakk> \<Longrightarrow> x \<in> S"
  by (auto simp: within_def get_slot_def split: if_splits) (metis nth_mem)

lemma within_set: "\<lbrakk>within S els; set_slot els k x = Some els'; x \<in> S\<rbrakk> \<Longrightarrow> within S els'"
  using set_update_subset_insert [of els k "Some x"] by (fastforce simp: within_def set_slot_def split: if_splits)

lemma pure_purified: "pure_cmp (purified c cmp) c"
  by (simp add: pure_cmp_def purified_def)

lemma quiet_step:
  assumes "quiet S cmp c" "\<not> thrown st" "a \<in> S" "b \<in> S" "cmp a b st = (r, st')"
  shows "purified c cmp a b st = (r, st')" "\<not> thrown st'"
proof -
  have "fst (cmp a b st) = c a b \<and> \<not> thrown (snd (cmp a b st))" using assms(1-4) unfolding quiet_def by blast
  then show "purified c cmp a b st = (r, st')" "\<not> thrown st'" using assms(5) by (simp_all add: purified_def)
qed

lemma sift_up_quiet:
  "\<lbrakk>quiet S cmp c; elem \<in> S; within S els; \<not> thrown st\<rbrakk> \<Longrightarrow>
     sift_up (purified c cmp) elem els i st = sift_up cmp elem els i st \<and>
     pred_option (\<lambda>(els', _, st'). within S els' \<and> \<not> thrown st') (sift_up cmp elem els i st)"
proof (induction cmp elem els i st rule: sift_up.induct)
  case (1 cmp elem els i st)
  note defs = sift_up.simps [of cmp elem els i st] sift_up.simps [of "purified c cmp" elem els i st]
  show ?case
  proof (cases "i = 0 \<or> get_slot els ((i - 1) div 2) = None")
    case False
    then obtain p where p: "i \<noteq> 0" "get_slot els ((i - 1) div 2) = Some p" by auto
    obtain r st' where r: "cmp p elem st = (r, st')" by (rule prod.exhaust)
    have pS: "p \<in> S" using within_get [OF "1.prems"(3) p(2)] .
    note q = quiet_step [OF "1.prems"(1,4) pS "1.prems"(2) r]
    show ?thesis
    proof (cases "r < 0 \<and> set_slot els i p \<noteq> None")
      case True
      then obtain els' where e: "r < 0" "set_slot els i p = Some els'" by blast
      then show ?thesis
        using "1.IH" [OF p r [symmetric] e "1.prems"(1,2) within_set [OF "1.prems"(3) e(2) pS] q(2)] p r q
        by (simp add: defs)
    qed (use p r q "1.prems"(3) in \<open>auto simp: defs\<close>)
  qed (use "1.prems" in \<open>auto simp: defs\<close>)
qed

lemma sift_down_quiet:
  "\<lbrakk>quiet S cmp c; bottom \<in> S; within S els; \<not> thrown st\<rbrakk> \<Longrightarrow>
     sift_down (purified c cmp) bottom n limit els i st = sift_down cmp bottom n limit els i st \<and>
     pred_option (\<lambda>(els', _, st'). within S els' \<and> \<not> thrown st') (sift_down cmp bottom n limit els i st)"
proof (induction "limit - i" arbitrary: els i st rule: less_induct)
  case less
  define j where "j = i * 2 + 1"
  show ?case
  proof (cases "i < limit \<and> get_slot els j \<noteq> None \<and> (j \<noteq> n \<longrightarrow> get_slot els (j + 1) \<noteq> None)")
    case False
    have "sift_down f bottom n limit els i st = None" if "i < limit" for f :: "('a, 'b) cmp_func"
      using False that by (subst sift_down.simps) (cases "get_slot els j", auto simp: j_def)
    moreover have "sift_down f bottom n limit els i st = Some (els, i, st)" if "\<not> i < limit" for f :: "('a, 'b) cmp_func"
      using that by (subst sift_down.simps) simp
    ultimately show ?thesis using less.prems(3,4) by (cases "i < limit") simp_all
  next
    case True
    then obtain l where l: "i < limit" "get_slot els j = Some l" by auto
    define first where "first f = (if j \<noteq> n then map_option (\<lambda>r. f r l st) (get_slot els (j + 1)) else Some (0, st))"
      for f :: "('a, 'b) cmp_func"
    have "first cmp \<noteq> None" using True by (simp add: first_def del: not_None_eq)
    then obtain a st1 where a: "first cmp = Some (a, st1)" by force
    have a': "first (purified c cmp) = Some (a, st1) \<and> \<not> thrown st1"
    proof (cases "j = n")
      case False
      then obtain r where r: "get_slot els (j + 1) = Some r" "cmp r l st = (a, st1)" using a by (auto simp: first_def)
      show ?thesis
        using quiet_step [OF less.prems(1,4) within_get [OF less.prems(3) r(1)] within_get [OF less.prems(3) l(2)] r(2)]
          r(1) False by (simp add: first_def)
    qed (use a less.prems(4) in \<open>simp add: first_def\<close>)
    have unfolded: "sift_down f bottom n limit els i st =
       (let j' = (if a > 0 then j + 1 else j) in
        case get_slot els j' of None \<Rightarrow> None
        | Some x \<Rightarrow> (case f bottom x st1 of (d, st2) \<Rightarrow>
            if d < 0 then (case set_slot els i x of None \<Rightarrow> None | Some els' \<Rightarrow> sift_down f bottom n limit els' j' st2)
            else Some (els, i, st2)))" if "first f = Some (a, st1)" for f :: "('a, 'b) cmp_func"
    proof (subst sift_down.simps)
    qed (use that l in \<open>auto simp: first_def j_def split: if_splits option.splits\<close>)
    define j' where "j' = (if a > 0 then j + 1 else j)"
    show ?thesis
    proof (cases "get_slot els j'")
      case None
      then show ?thesis using a a' by (simp add: unfolded j'_def Let_def)
    next
      case (Some x)
      obtain d st2 where d: "cmp bottom x st1 = (d, st2)" by (rule prod.exhaust)
      have xS: "x \<in> S" using within_get [OF less.prems(3) Some] .
      note q = quiet_step [OF less.prems(1) conjunct2 [OF a'] less.prems(2) xS d]
      have "i < j'" by (simp add: j'_def j_def)
      then have "limit - j' < limit - i" using l(1) by simp
      then show ?thesis
        using less.hyps [OF _ less.prems(1,2) within_set [OF less.prems(3) _ xS] q(2)] less.prems(3) Some d q a a'
        by (auto simp: unfolded j'_def Let_def split: option.split)
    qed
  qed
qed

lemma insert_quiet:
  assumes "quiet S cmp c" "x \<in> S" "within S (elements h)" "\<not> thrown st"
  shows "spl_ptr_heap_insert (purified c cmp) h x st = spl_ptr_heap_insert cmp h x st"
    "spl_ptr_heap_insert cmp h x st = Some (h', st') \<Longrightarrow> within S (elements h') \<and> \<not> thrown st'"
proof -
  define h1 where "h1 = (if count_of h + 1 > max_size h
    then h\<lparr>elements := elements h @ replicate (max_size h) None, max_size := max_size h * 2\<rparr> else h)"
  have "within S (elements h1)" using assms(3) by (auto simp: within_def h1_def)
  note quiet = sift_up_quiet [OF assms(1,2) this assms(4), of "count_of h1"]
  have eq: "spl_ptr_heap_insert f h x st = do {
     (els, i, st') \<leftarrow> sift_up f x (elements h1) (count_of h1) st;
     els' \<leftarrow> set_slot els i x;
     Some (h1\<lparr>elements := els', count_of := count_of h1 + 1, corrupted := corrupted h1 \<or> thrown st',
       ctor_log := ctor_log h1 @ [x]\<rparr>, st') }" for f
    by (simp add: spl_ptr_heap_insert_def h1_def Let_def)
  show "spl_ptr_heap_insert (purified c cmp) h x st = spl_ptr_heap_insert cmp h x st"
    unfolding eq using quiet by simp
  show "spl_ptr_heap_insert cmp h x st = Some (h', st') \<Longrightarrow> within S (elements h') \<and> \<not> thrown st'"
    unfolding eq using quiet within_set [OF _ _ assms(2)] by (auto simp: bind_eq_Some_iff)
qed

lemma delete_top_quiet:
  assumes "quiet S cmp c" "within S (elements h)" "\<not> thrown st"
  shows "spl_ptr_heap_delete_top (purified c cmp) h st = spl_ptr_heap_delete_top cmp h st"
    "spl_ptr_heap_delete_top cmp h st = Some (v, h', st') \<Longrightarrow> within S (elements h') \<and> \<not> thrown st'"
proof -
  note quiet = sift_down_quiet [OF assms(1) within_get [OF assms(2)] assms(2,3)]
  show "spl_ptr_heap_delete_top (purified c cmp) h st = spl_ptr_heap_delete_top cmp h st"
    using quiet by (auto simp: spl_ptr_heap_delete_top_def Let_def intro!: Option.bind_cong)
  assume r: "spl_ptr_heap_delete_top cmp h st = Some (v, h', st')"
  show "within S (elements h') \<and> \<not> thrown st'"
  proof (cases "count_of h = 0")
    case False
    then obtain b els i where b: "get_slot (elements h) (count_of h - 1) = Some b"
      "sift_down cmp b (count_of h - 1) ((count_of h - 1) div 2) (elements h) 0 st = Some (els, i, st')"
      "set_slot els i b = Some (elements h')"
      using r by (auto simp: spl_ptr_heap_delete_top_def bind_eq_Some_iff Let_def)
    then show ?thesis using quiet [OF b(1), of "count_of h - 1" "(count_of h - 1) div 2" 0]
        within_set [OF _ b(3) within_get [OF assms(2) b(1)]] by simp
  qed (use r assms(2,3) in \<open>simp add: spl_ptr_heap_delete_top_def\<close>)
qed

definition ordered_heap :: "'a set \<Rightarrow> ('a \<Rightarrow> 'a \<Rightarrow> int) \<Rightarrow> 'a ptr_heap \<Rightarrow> 'a list \<Rightarrow> bool" where
  "ordered_heap S c h xs \<longleftrightarrow> holds h xs \<and> heap_ordered c xs \<and> \<not> corrupted h \<and> within S (elements h)"

lemma ordered_init: "ordered_heap S c spl_ptr_heap_init []"
  by (simp add: ordered_heap_def holds_def spl_ptr_heap_init_def PTR_HEAP_BLOCK_SIZE_def heap_ordered_def within_def)

lemma insert_ordered:
  assumes "quiet S cmp c" "comparison c" "\<not> thrown st" "ordered_heap S c h xs" "x \<in> S"
  shows "\<exists>h' st' ys. spl_ptr_heap_insert cmp h x st = Some (h', st') \<and> \<not> thrown st' \<and> ordered_heap S c h' ys \<and>
    mset ys = add_mset x (mset xs)"
proof -
  have h: "holds h xs" "heap_ordered c xs" "\<not> corrupted h" "within S (elements h)" using assms(4) by (simp_all add: ordered_heap_def)
  obtain h' st' ys where r: "spl_ptr_heap_insert (purified c cmp) h x st = Some (h', st')" "holds h' ys"
    "mset ys = add_mset x (mset xs)" "corrupted h' = (corrupted h \<or> thrown st')"
    "\<forall>c'. pure_cmp (purified c cmp) c' \<longrightarrow> comparison c' \<longrightarrow> heap_ordered c' xs \<longrightarrow> heap_ordered c' ys"
    using insert_ok [OF h(1), of "purified c cmp" x st] by blast
  have "heap_ordered c ys" using r(5) pure_purified assms(2) h(2) by blast
  moreover have "spl_ptr_heap_insert cmp h x st = Some (h', st')" using r(1) insert_quiet(1) [OF assms(1,5) h(4) assms(3)] by metis
  moreover from this have "within S (elements h') \<and> \<not> thrown st'" by (rule insert_quiet(2) [OF assms(1,5) h(4) assms(3)])
  ultimately show ?thesis using r(2-4) h(3) unfolding ordered_heap_def by blast
qed

lemma delete_top_ordered:
  assumes "quiet S cmp c" "comparison c" "\<not> thrown st" "ordered_heap S c h xs" "xs \<noteq> []"
  shows "\<exists>h' st' ys. spl_ptr_heap_delete_top cmp h st = Some (Some (hd xs), h', st') \<and> \<not> thrown st' \<and>
    ordered_heap S c h' ys \<and> mset xs = add_mset (hd xs) (mset ys)"
proof -
  have h: "holds h xs" "heap_ordered c xs" "\<not> corrupted h" "within S (elements h)" using assms(4) by (simp_all add: ordered_heap_def)
  obtain h' st' ys where r: "spl_ptr_heap_delete_top (purified c cmp) h st = Some (Some (hd xs), h', st')" "holds h' ys"
    "mset xs = add_mset (hd xs) (mset ys)" "corrupted h' = (corrupted h \<or> thrown st')"
    "\<forall>c'. pure_cmp (purified c cmp) c' \<longrightarrow> comparison c' \<longrightarrow> heap_ordered c' xs \<longrightarrow> heap_ordered c' ys"
    using delete_top_ok [OF h(1) assms(5), of "purified c cmp" st] by blast
  have "heap_ordered c ys" using r(5) pure_purified assms(2) h(2) by blast
  moreover have "spl_ptr_heap_delete_top cmp h st = Some (Some (hd xs), h', st')"
    using r(1) delete_top_quiet(1) [OF assms(1) h(4) assms(3)] by metis
  moreover from this have "within S (elements h') \<and> \<not> thrown st'" by (rule delete_top_quiet(2) [OF assms(1) h(4) assms(3)])
  ultimately show ?thesis using r(2-4) h(3) unfolding ordered_heap_def by blast
qed

lemma top_max: "\<lbrakk>comparison c; heap_ordered c xs; y \<in> set xs\<rbrakk> \<Longrightarrow> 0 \<le> c (hd xs) y"
  using heap_top_max by (metis in_set_conv_nth)

subsection \<open>Sorting with a heap\<close>

fun insert_all :: "('a, 'u) cmp_func \<Rightarrow> 'a list \<Rightarrow> 'a ptr_heap \<Rightarrow> 'u exec \<Rightarrow> ('a ptr_heap \<times> 'u exec) option" where
  "insert_all cmp [] h st = Some (h, st)"
| "insert_all cmp (x # xs) h st =
     (case SplHeap_insert cmp h x st of Some (Inr True, h', st') \<Rightarrow> insert_all cmp xs h' st' | _ \<Rightarrow> None)"

fun extract_all :: "('a, 'u) cmp_func \<Rightarrow> nat \<Rightarrow> 'a ptr_heap \<Rightarrow> 'u exec \<Rightarrow> ('a list \<times> 'a ptr_heap \<times> 'u exec) option" where
  "extract_all cmp 0 h st = Some ([], h, st)"
| "extract_all cmp (Suc n) h st =
     (case SplHeap_extract cmp h st of
        Some (Inr x, h', st') \<Rightarrow> map_option (\<lambda>(xs, h2, st2). (x # xs, h2, st2)) (extract_all cmp n h' st')
      | _ \<Rightarrow> None)"

lemma insert_all_ok:
  assumes "quiet S cmp c" "comparison c"
  shows "\<lbrakk>\<not> thrown st; ordered_heap S c h ys; set xs \<subseteq> S\<rbrakk> \<Longrightarrow> \<exists>h' st' zs. insert_all cmp xs h st = Some (h', st') \<and> \<not> thrown st' \<and>
    ordered_heap S c h' zs \<and> mset zs = mset xs + mset ys"
proof (induction xs arbitrary: h st ys)
  case (Cons x xs)
  obtain h' st' zs where r: "spl_ptr_heap_insert cmp h x st = Some (h', st')" "\<not> thrown st'" "ordered_heap S c h' zs"
    "mset zs = add_mset x (mset ys)"
    using insert_ordered [OF assms Cons.prems(1,2), of x] Cons.prems(3) by auto
  then have "SplHeap_insert cmp h x st = Some (Inr True, h', st')"
    using Cons.prems(2) by (simp add: SplHeap_insert_def ordered_heap_def)
  then show ?case using Cons.IH [OF r(2,3)] r(4) Cons.prems(3) by simp
qed auto

lemma extract_all_ok:
  assumes "quiet S cmp c" "comparison c"
  shows "\<lbrakk>\<not> thrown st; ordered_heap S c h xs; length xs = n\<rbrakk> \<Longrightarrow> \<exists>ys h' st'. extract_all cmp n h st = Some (ys, h', st') \<and>
    mset ys = mset xs \<and> sorted_wrt (\<lambda>x y. 0 \<le> c x y) ys \<and> ordered_heap S c h' []"
proof (induction n arbitrary: h st xs)
  case (Suc n)
  then have ne: "xs \<noteq> []" by auto
  obtain h' st' ys where r: "spl_ptr_heap_delete_top cmp h st = Some (Some (hd xs), h', st')" "\<not> thrown st'"
    "ordered_heap S c h' ys" "mset xs = add_mset (hd xs) (mset ys)"
    using delete_top_ordered [OF assms Suc.prems(1,2) ne] by blast
  have "length ys = n" using arg_cong [OF r(4), of size] Suc.prems(3) by simp
  then obtain zs h2 st2 where IH: "extract_all cmp n h' st' = Some (zs, h2, st2)" "mset zs = mset ys"
    "sorted_wrt (\<lambda>x y. 0 \<le> c x y) zs" "ordered_heap S c h2 []"
    using Suc.IH [OF r(2,3)] by blast
  have "SplHeap_extract cmp h st = Some (Inr (hd xs), h', st')"
    using r(1) Suc.prems(2) by (simp add: SplHeap_extract_def ordered_heap_def)
  moreover have "0 \<le> c (hd xs) y" if "y \<in> set zs" for y
  proof (rule top_max [OF assms(2)])
    show "heap_ordered c xs" using Suc.prems(2) by (simp add: ordered_heap_def)
    have "set zs = set ys" using IH(2) by (metis set_mset_mset)
    moreover have "set ys \<subseteq> set xs" using arg_cong [OF r(4), of set_mset] by auto
    ultimately show "y \<in> set xs" using that by blast
  qed
  ultimately show ?case using IH r(4) by auto
qed auto

lemma ordered_nil_isEmpty: "ordered_heap S c h [] \<Longrightarrow> SplHeap_isEmpty h"
  by (simp add: ordered_heap_def holds_def SplHeap_isEmpty_def spl_ptr_heap_count_def)

text \<open>C39. With a comparison that throws nothing and is a total preorder, inserting any values into a new heap and
  extracting as many yields exactly these values, each before those it may stand above, and leaves the heap
  empty; no method reports an error.\<close>

theorem spl_heap_sorts:
  assumes "quiet UNIV cmp c" "comparison c" "\<not> thrown st"
  shows "\<exists>h st1 ys h2 st2. insert_all cmp xs spl_ptr_heap_init st = Some (h, st1) \<and>
    extract_all cmp (length xs) h st1 = Some (ys, h2, st2) \<and> mset ys = mset xs \<and>
    sorted_wrt (\<lambda>x y. 0 \<le> c x y) ys \<and> SplHeap_isEmpty h2"
proof -
  obtain h st1 zs where i: "insert_all cmp xs spl_ptr_heap_init st = Some (h, st1)" "\<not> thrown st1"
    "ordered_heap UNIV c h zs" "mset zs = mset xs"
    using insert_all_ok [OF assms(1,2,3) ordered_init, of xs] by auto
  have "length zs = length xs" using arg_cong [OF i(4), of size] by simp
  then show ?thesis using extract_all_ok [OF assms(1,2) i(2,3)] i(1,4) ordered_nil_isEmpty by metis
qed

definition less_int :: "int \<Rightarrow> int \<Rightarrow> int" where
  "less_int a b = (if a < b then -1 else if a = b then 0 else 1)"

lemma less_int_ok: "comparison less_int" "quiet UNIV (spl_ptr_heap_zval_max_cmp less_int None) less_int"
  by (auto simp: comparison_def less_int_def quiet_def spl_ptr_heap_zval_max_cmp_def split: if_splits)

lemma spl_heap_sorts_witness:
  "\<exists>h st1 ys h2 st2. insert_all (spl_ptr_heap_zval_max_cmp less_int None) [3, 8, 5] spl_ptr_heap_init ((), False) = Some (h, st1) \<and>
    extract_all (spl_ptr_heap_zval_max_cmp less_int None) (length [3, 8, 5 :: int]) h st1 = Some (ys, h2, st2) \<and>
    mset ys = mset [3, 8, 5] \<and> sorted_wrt (\<lambda>x y. 0 \<le> less_int x y) ys \<and> SplHeap_isEmpty h2"
  by (rule spl_heap_sorts [OF less_int_ok(2,1)]) (simp add: thrown_def)

subsection \<open>The priority queue\<close>

text \<open>A node the queue makes, and what an extraction under the given flags yields for it.\<close>

definition node :: "'a \<times> 'a \<Rightarrow> 'a node" where
  "node x = [(''data'', fst x), (''priority'', snd x)]"

definition unnode :: "'a node \<Rightarrow> 'a \<times> 'a" where
  "unnode v = (the (map_of v ''data''), the (map_of v ''priority''))"

definition view :: "int \<Rightarrow> 'a \<times> 'a \<Rightarrow> pqueue_error + 'a extracted" where
  "view flags x =
     (if flags mod 4 = 3 then Inr (Whole (node x))
      else if flags mod 4 = 1 then Inr (Element (fst x))
      else if flags mod 4 = 2 then Inr (Element (snd x))
      else Inl Unable_To_Extract)"

definition prio_cmp :: "('a extracted \<Rightarrow> 'a extracted \<Rightarrow> int) \<Rightarrow> 'a node \<Rightarrow> 'a node \<Rightarrow> int" where
  "prio_cmp f a b = f (Element (snd (unnode a))) (Element (snd (unnode b)))"

lemma unnode_node [simp]: "unnode (node x) = x"
  by (simp add: unnode_def node_def)

lemma node_unnode: "v \<in> range node \<Longrightarrow> node (unnode v) = v"
  by auto

lemma and_3: "(x :: int) AND 3 = x mod 4"
  using take_bit_eq_mask [of 2 x] by (simp add: take_bit_eq_mod mask_eq_exp_minus_1)

lemma helper_node:
  "spl_pqueue_extract_helper (node x) (flags mod 4) = (case view flags x of Inl _ \<Rightarrow> None | Inr v \<Rightarrow> Some v)"
proof -
  have "flags mod 4 \<in> {0..3}" by auto
  then have "flags mod 4 = 0 \<or> flags mod 4 = 1 \<or> flags mod 4 = 2 \<or> flags mod 4 = 3" by auto
  then show ?thesis by (auto simp: view_def spl_pqueue_extract_helper_def flag_defs node_def)
qed

lemma priority_node: "spl_pqueue_extract_helper (node x) SPL_PQUEUE_EXTR_PRIORITY = Some (Element (snd x))"
  using helper_node [of x 2] by (simp add: view_def SPL_PQUEUE_EXTR_PRIORITY_def)

lemma pqueue_quiet: "quiet (range node) (spl_ptr_pqueue_zval_cmp f None) (prio_cmp f)"
  by (auto simp: quiet_def spl_ptr_pqueue_zval_cmp_def priority_node prio_cmp_def)

lemma prio_comparison: "comparison (\<lambda>x y. f (Element x) (Element y)) \<Longrightarrow> comparison (prio_cmp f)"
  unfolding comparison_def prio_cmp_def by blast

fun queue_all :: "('a node, 'u) cmp_func \<Rightarrow> ('a \<times> 'a) list \<Rightarrow> 'a pqueue \<Rightarrow> 'u exec \<Rightarrow> ('a pqueue \<times> 'u exec) option" where
  "queue_all cmp [] q st = Some (q, st)"
| "queue_all cmp (x # xs) q st =
     (case SplPriorityQueue_insert cmp q (fst x) (snd x) st of
        Some (Inr True, q', st') \<Rightarrow> queue_all cmp xs q' st' | _ \<Rightarrow> None)"

fun drain :: "('a node, 'u) cmp_func \<Rightarrow> nat \<Rightarrow> 'a pqueue \<Rightarrow> 'u exec \<Rightarrow> ((pqueue_error + 'a extracted) list \<times> 'a pqueue) option" where
  "drain cmp 0 q st = Some ([], q)"
| "drain cmp (Suc n) q st =
     (case SplPriorityQueue_extract cmp q st of
        None \<Rightarrow> None
      | Some (r, q', st') \<Rightarrow> map_option (\<lambda>(rs, q2). (r # rs, q2)) (drain cmp n q' st'))"

lemma queue_all_heap:
  "insert_all cmp (map node xs) (heap_of q) st = Some (h, st') \<Longrightarrow> queue_all cmp xs q st = Some (q\<lparr>heap_of := h\<rparr>, st')"
proof (induction xs arbitrary: q st)
  case (Cons x xs)
  obtain h1 st1 where h1: "SplHeap_insert cmp (heap_of q) (node x) st = Some (Inr True, h1, st1)"
    "insert_all cmp (map node xs) h1 st1 = Some (h, st')"
    using Cons.prems by (auto split: option.splits prod.splits sum.splits bool.splits)
  then have "SplPriorityQueue_insert cmp q (fst x) (snd x) st = Some (Inr True, q\<lparr>heap_of := h1\<rparr>, st1)"
    by (auto simp: SplHeap_insert_def SplPriorityQueue_insert_def node_def split: if_splits)
  then show ?case using Cons.IH [of "q\<lparr>heap_of := h1\<rparr>" st1] h1(2) by simp
qed simp

lemma drain_heap:
  "\<lbrakk>extract_all cmp n (heap_of q) st = Some (ns, h, st'); set ns \<subseteq> range node; flags_of q = f mod 4\<rbrakk> \<Longrightarrow>
     drain cmp n q st = Some (map (\<lambda>v. view f (unnode v)) ns, q\<lparr>heap_of := h\<rparr>)"
proof (induction n arbitrary: q st ns)
  case (Suc n)
  obtain x h1 st1 zs where h1: "SplHeap_extract cmp (heap_of q) st = Some (Inr x, h1, st1)"
    "extract_all cmp n h1 st1 = Some (zs, h, st')" "ns = x # zs"
    using Suc.prems(1) by (auto split: option.splits prod.splits sum.splits)
  have "spl_pqueue_extract_helper x (flags_of q) = (case view f (unnode x) of Inl _ \<Rightarrow> None | Inr v \<Rightarrow> Some v)"
    using helper_node [of "unnode x" f] node_unnode [of x] Suc.prems(2,3) h1(3) by simp
  moreover have "view f (unnode x) = Inl e \<Longrightarrow> e = Unable_To_Extract" for e
    by (auto simp: view_def split: if_splits)
  moreover note calc = calculation
  have "SplPriorityQueue_extract cmp q st = Some (view f (unnode x), q\<lparr>heap_of := h1\<rparr>, st1)"
  proof -
    have "\<not> corrupted (heap_of q)" "spl_ptr_heap_delete_top cmp (heap_of q) st = Some (Some x, h1, st1)"
      using h1(1) by (auto simp: SplHeap_extract_def bind_eq_Some_iff split: if_splits option.splits)
    then show ?thesis
      using calc by (cases "view f (unnode x)") (auto simp: SplPriorityQueue_extract_def)
  qed
  then show ?case using Suc.IH [of "q\<lparr>heap_of := h1\<rparr>" st1 zs] h1(2,3) Suc.prems(2,3) by simp
qed simp

text \<open>C40. With the engine's comparison a total preorder on priorities, inserting any data with priorities into a
  new queue, setting any extraction flags and extracting as many elements goes through the inserted pairs in
  non-increasing order of priority, each once; every extraction gives the part of the pair that the flags' low
  two bits select. Flags whose low bits are zero make every extraction report an error, and the element is gone
  all the same.\<close>

theorem spl_pqueue_extracts_by_priority:
  assumes "comparison (\<lambda>x y. compare_function (Element x) (Element y))" "\<not> thrown st"
  shows "\<exists>q st1 ys q2. queue_all (spl_ptr_pqueue_zval_cmp compare_function None) xs spl_pqueue_new st = Some (q, st1) \<and>
    drain (spl_ptr_pqueue_zval_cmp compare_function None) (length xs) (snd (SplPriorityQueue_setExtractFlags flags q)) st1 =
      Some (map (view flags) ys, q2) \<and>
    mset ys = mset xs \<and> sorted_wrt (\<lambda>x y. 0 \<le> compare_function (Element (snd x)) (Element (snd y))) ys \<and>
    SplHeap_isEmpty (heap_of q2)"
proof -
  let ?cmp = "spl_ptr_pqueue_zval_cmp compare_function None" and ?f = compare_function
  have c: "quiet (range node) ?cmp (prio_cmp ?f)" "comparison (prio_cmp ?f)"
    using pqueue_quiet prio_comparison [OF assms(1)] by blast+
  have sub: "set (map node xs) \<subseteq> range node" by auto
  obtain h st1 zs where i: "insert_all ?cmp (map node xs) (heap_of spl_pqueue_new) st = Some (h, st1)"
    "\<not> thrown st1" "ordered_heap (range node) (prio_cmp ?f) h zs" "mset zs = mset (map node xs)"
    using insert_all_ok [OF c assms(2) ordered_init sub] by (auto simp: spl_pqueue_new_def)
  let ?q = "spl_pqueue_new\<lparr>heap_of := h\<rparr>" and ?q' = "spl_pqueue_new\<lparr>heap_of := h, flags_of := flags mod 4\<rparr>"
  have "length zs = length xs" using arg_cong [OF i(4), of size] by simp
  then obtain ns h2 st2 where e: "extract_all ?cmp (length xs) h st1 = Some (ns, h2, st2)" "mset ns = mset zs"
    "sorted_wrt (\<lambda>x y. 0 \<le> prio_cmp ?f x y) ns" "ordered_heap (range node) (prio_cmp ?f) h2 []"
    using extract_all_ok [OF c i(2,3)] by blast
  have ns: "set ns \<subseteq> range node" using arg_cong [OF trans [OF e(2) i(4)], of set_mset] by auto
  have "drain ?cmp (length xs) ?q' st1 = Some (map (\<lambda>v. view flags (unnode v)) ns, ?q'\<lparr>heap_of := h2\<rparr>)"
    using drain_heap [of ?cmp "length xs" ?q' st1 ns h2 st2 flags] e(1) ns by simp
  moreover have "snd (SplPriorityQueue_setExtractFlags flags ?q) = ?q'"
    by (simp add: SplPriorityQueue_setExtractFlags_def SPL_PQUEUE_EXTR_MASK_def and_3 Let_def)
  moreover have "mset (map unnode ns) = mset xs"
    using arg_cong [OF trans [OF e(2) i(4)], of "image_mset unnode"] by (simp add: multiset.map_comp comp_def)
  moreover have "sorted_wrt (\<lambda>x y. 0 \<le> ?f (Element (snd x)) (Element (snd y))) (map unnode ns)"
    using e(3) by (simp add: sorted_wrt_map prio_cmp_def)
  ultimately show ?thesis
    using queue_all_heap [OF i(1)] ordered_nil_isEmpty [OF e(4)]
    by (intro exI [of _ ?q] exI [of _ st1] exI [of _ "map unnode ns"] exI [of _ "?q'\<lparr>heap_of := h2\<rparr>"])
      (simp add: comp_def)
qed

definition less_element :: "int extracted \<Rightarrow> int extracted \<Rightarrow> int" where
  "less_element a b = (case (a, b) of (Element x, Element y) \<Rightarrow> less_int x y | _ \<Rightarrow> 0)"

lemma spl_pqueue_extracts_by_priority_witness:
  "\<exists>q st1 ys q2. queue_all (spl_ptr_pqueue_zval_cmp less_element None) [(1, 5), (2, 9)] spl_pqueue_new ((), False) = Some (q, st1) \<and>
    drain (spl_ptr_pqueue_zval_cmp less_element None) (length [(1, 5), (2 :: int, 9 :: int)])
      (snd (SplPriorityQueue_setExtractFlags 2 q)) st1 = Some (map (view 2) ys, q2) \<and>
    mset ys = mset [(1, 5), (2, 9)] \<and> sorted_wrt (\<lambda>x y. 0 \<le> less_element (Element (snd x)) (Element (snd y))) ys \<and>
    SplHeap_isEmpty (heap_of q2)"
  by (rule spl_pqueue_extracts_by_priority) (use less_int_ok(1) in \<open>simp_all add: less_element_def thrown_def\<close>)

subsection \<open>Where the methods differ from each other\<close>

text \<open>The iterator's key counts the elements; the method's is one less.\<close>

lemma iterator_key_off_by_one: "spl_heap_it_get_current_key h = SplHeap_key h + 1"
  by (simp add: spl_heap_it_get_current_key_def SplHeap_key_def)

text \<open>A user's \<open>compare\<close> that answers \<open>2 ^ 32\<close> counts as equality.\<close>

lemma compare_narrowed: "fst (spl_ptr_heap_zval_max_cmp f (Some (\<lambda>a b u. (Some (2 ^ 32), u))) a b (u, False)) = 0"
  by (simp add: spl_ptr_heap_zval_max_cmp_def thrown_def call_compare_def i32_def)

text \<open>On a corrupted heap \<open>next\<close> removes the top, where \<open>extract\<close> and the iterator refuse.\<close>

lemma next_ignores_corruption:
  assumes "holds h xs" "xs \<noteq> []" "corrupted h"
  shows "SplHeap_extract cmp h st = Some (Inl Heap_Corrupted, h, st)"
    "spl_heap_it_move_forward cmp h st = Some (Inl Heap_Corrupted, h, st)"
    "\<exists>h' st' ys. SplHeap_next cmp h st = Some (h', st') \<and> holds h' ys \<and> mset xs = add_mset (hd xs) (mset ys)"
proof -
  show "\<exists>h' st' ys. SplHeap_next cmp h st = Some (h', st') \<and> holds h' ys \<and> mset xs = add_mset (hd xs) (mset ys)"
    using delete_top_ok [OF assms(1,2), of cmp st] by (force simp: SplHeap_next_def)
qed (use assms(3) in \<open>simp_all add: SplHeap_extract_def spl_heap_it_move_forward_def\<close>)

end
