(* ===== verification/Linked.thy ===== *)
theory Linked
  imports Prelude
begin

text \<open>
  Doubly linked lists in a store of cells, shared by the hash table (its global list and its
  collision chains) and by \<open>zend_llist\<close>.

  A store maps an address to the cell allocated there; an address outside its domain is not
  allocated, and reading or writing it is undefined behaviour (\<open>None\<close>). \<open>poke\<close> is the
  assignment \<open>p->field = v\<close>; \<open>poke_opt\<close> is the guarded one, \<open>if (p) p->field = v\<close>. \<open>view\<close>
  projects a store onto one field. \<open>dll\<close> says that two link fields thread a list of addresses
  in both directions.

  The locale \<open>links\<close> is the interface of a cell type with two independent link fields; its
  lemmas are the pointer surgery the programs share: appending at the tail, pushing at the head,
  unlinking a node, and relinking a whole array of nodes.
\<close>

subsection \<open>Stores\<close>

definition poke :: "addr \<Rightarrow> ('b \<Rightarrow> 'b) \<Rightarrow> (addr \<rightharpoonup> 'b) \<Rightarrow> (addr \<rightharpoonup> 'b) option" where
  "poke a f m = (case m a of None \<Rightarrow> None | Some b \<Rightarrow> Some (m(a \<mapsto> f b)))"

definition poke_opt :: "addr option \<Rightarrow> ('b \<Rightarrow> 'b) \<Rightarrow> (addr \<rightharpoonup> 'b) \<Rightarrow> (addr \<rightharpoonup> 'b) option" where
  "poke_opt p f m = (case p of None \<Rightarrow> Some m | Some a \<Rightarrow> poke a f m)"

definition view :: "('b \<Rightarrow> 'c) \<Rightarrow> (addr \<rightharpoonup> 'b) \<Rightarrow> addr \<rightharpoonup> 'c" where
  "view g m = (\<lambda>a. map_option g (m a))"

lemma poke_eq [store_simps]: "m a = Some b \<Longrightarrow> poke a f m = Some (m(a \<mapsto> f b))"
  by (simp add: poke_def)

lemma poke_opt_simps [simp]: "poke_opt None f m = Some m" "poke_opt (Some a) f m = poke a f m"
  by (simp_all add: poke_opt_def)

lemma poke_Some_iff: "poke a f m = Some m' \<longleftrightarrow> (\<exists>b. m a = Some b \<and> m' = m(a \<mapsto> f b))"
  by (auto simp: poke_def split: option.splits)

lemma poke_exists: "a \<in> dom m \<Longrightarrow> \<exists>m'. poke a f m = Some m'"
  by (auto simp: poke_def)

lemma poke_opt_exists: "(\<And>a. p = Some a \<Longrightarrow> a \<in> dom m) \<Longrightarrow> \<exists>m'. poke_opt p f m = Some m'"
  by (cases p) (auto simp: poke_def)

lemma poke_dom: "poke a f m = Some m' \<Longrightarrow> dom m' = dom m"
  by (auto simp: poke_Some_iff split: if_splits)

lemma poke_opt_dom: "poke_opt p f m = Some m' \<Longrightarrow> dom m' = dom m"
  by (cases p) (auto simp: poke_dom)

lemma poke_view: "\<lbrakk>poke a f m = Some m'; \<And>b. g (f b) = g b\<rbrakk> \<Longrightarrow> view g m' = view g m"
  by (auto simp: poke_Some_iff view_def fun_eq_iff)

lemma poke_opt_view: "\<lbrakk>poke_opt p f m = Some m'; \<And>b. g (f b) = g b\<rbrakk> \<Longrightarrow> view g m' = view g m"
  by (cases p) (auto simp: poke_view)

lemma view_upd [simp]: "view g (m(a \<mapsto> b)) = (view g m)(a \<mapsto> g b)"
  by (auto simp: view_def)

lemma view_del [simp]: "view g (m(a := None)) = (view g m)(a := None)"
  by (auto simp: view_def)

lemma dom_view [simp]: "dom (view g m) = dom m"
  by (auto simp: view_def dom_def)

lemma view_apply: "view g m a = map_option g (m a)"
  by (simp add: view_def)

lemma view_SomeI: "m a = Some b \<Longrightarrow> view g m a = Some (g b)"
  by (simp add: view_def)

lemma view_factor: "view e m' = view e m \<Longrightarrow> view (\<lambda>b. g (e b)) m' = view (\<lambda>b. g (e b)) m"
proof -
  have "view (\<lambda>b. g (e b)) n = (\<lambda>a. map_option g (view e n a))" for n
    by (simp add: view_def option.map_comp comp_def)
  then show "view e m' = view e m \<Longrightarrow> view (\<lambda>b. g (e b)) m' = view (\<lambda>b. g (e b)) m" by simp
qed

text \<open>A field that survives the erasure \<open>e\<close> is preserved by everything that preserves \<open>e\<close>.\<close>

lemma view_via: "\<lbrakk>view e m' = view e m; \<And>b. g (e b) = g b\<rbrakk> \<Longrightarrow> view g m' = view g m"
  using view_factor [of e m' m g] by simp

lemma view_eq_SomeE:
  assumes "view e m' = view e m" "m' a = Some b"
  obtains b' where "m a = Some b'" "e b' = e b"
proof -
  have "map_option e (m a) = Some (e b)"
    using fun_cong [OF assms(1), of a] assms(2) by (simp add: view_def)
  then show ?thesis using that by auto
qed

lemma view_eq_dom: "view g m = view g' m' \<Longrightarrow> dom m = dom m'"
  by (metis dom_view)

subsection \<open>Paths\<close>

fun path :: "('a \<rightharpoonup> 'a option) \<Rightarrow> 'a option \<Rightarrow> 'a list \<Rightarrow> 'a option \<Rightarrow> bool" where
  "path f s [] e = (s = e)"
| "path f s (x # xs) e = (s = Some x \<and> (\<exists>y. f x = Some y \<and> path f y xs e))"

lemma path_append [simp]: "path f s (xs @ ys) e = (\<exists>m. path f s xs m \<and> path f m ys e)"
  by (induction xs arbitrary: s) auto

lemma path_None: "path f None xs e \<longleftrightarrow> xs = [] \<and> e = None"
  by (cases xs) auto

lemma path_cong: "(\<And>x. x \<in> set xs \<Longrightarrow> f x = g x) \<Longrightarrow> path f s xs e = path g s xs e"
  by (induction xs arbitrary: s) auto

lemma path_upd_notin [simp]: "a \<notin> set xs \<Longrightarrow> path (f(a := v)) s xs e = path f s xs e"
  by (rule path_cong) auto

lemma path_head: "path f s xs None \<Longrightarrow> s = head_opt xs"
  by (cases xs) auto

lemma path_dom: "path f s xs e \<Longrightarrow> set xs \<subseteq> dom f"
  by (induction xs arbitrary: s) auto

lemma path_Cons_Some: "path f (Some a) (x # xs) e \<longleftrightarrow> x = a \<and> (\<exists>y. f a = Some y \<and> path f y xs e)"
  by auto

lemma path_view_Cons:
  "path (view g m) p (q # qs) None \<longleftrightarrow>
    p = Some q \<and> (\<exists>b. m q = Some b \<and> path (view g m) (g b) qs None)"
  by (auto simp: view_def)

lemma path_det: "\<lbrakk>path f s xs None; path f s ys None\<rbrakk> \<Longrightarrow> xs = ys"
proof (induction xs arbitrary: s ys)
  case Nil
  then show ?case by (cases ys) auto
next
  case (Cons x xs)
  then show ?case by (cases ys) auto
qed

lemma path_distinct: "path f s xs None \<Longrightarrow> distinct xs"
proof (induction xs arbitrary: s)
  case Nil
  then show ?case by simp
next
  case (Cons x xs)
  then obtain y where y: "f x = Some y" "path f y xs None" by auto
  have "x \<notin> set xs"
  proof
    assume "x \<in> set xs"
    then obtain us vs where xs: "xs = us @ x # vs" by (auto simp: in_set_conv_decomp)
    with y have "path f y vs None" by auto
    with y(2) have "xs = vs" by (rule path_det)
    with xs show False by simp
  qed
  with Cons.IH y(2) show ?case by simp
qed

text \<open>Unlinking \<open>a\<close>: its predecessor, or the head, is made to skip it.\<close>

lemma path_unlink:
  assumes "path f s (us @ a # vs) None"
    and f': "f' = (case last_opt us of None \<Rightarrow> f | Some l \<Rightarrow> f(l := f a))"
    and s': "s' = (if us = [] then the (f a) else s)"
  shows "path f' s' (us @ vs) None"
proof (cases us rule: rev_cases)
  case Nil
  with assms show ?thesis by auto
next
  case (snoc ws l)
  from assms(1) have "distinct (us @ a # vs)" by (rule path_distinct)
  with assms snoc show ?thesis by auto
qed

lemma path_snoc_link:
  assumes "path f s xs None" "a \<notin> set xs" "f a = Some None"
    and f': "f' = (case last_opt xs of None \<Rightarrow> f | Some l \<Rightarrow> f(l := Some (Some a)))"
    and s': "s' = (if xs = [] then Some a else s)"
  shows "path f' s' (xs @ [a]) None"
proof (cases xs rule: rev_cases)
  case Nil
  with assms show ?thesis by auto
next
  case (snoc ws l)
  from assms(1) have "distinct xs" by (rule path_distinct)
  with assms snoc show ?thesis by auto
qed

subsection \<open>Doubly linked lists\<close>

definition dll :: "('b \<Rightarrow> addr option) \<Rightarrow> ('b \<Rightarrow> addr option) \<Rightarrow> (addr \<rightharpoonup> 'b) \<Rightarrow>
    addr option \<Rightarrow> addr option \<Rightarrow> addr list \<Rightarrow> bool" where
  "dll gn gp m hp tp xs \<longleftrightarrow> path (view gn m) hp xs None \<and> path (view gp m) tp (rev xs) None"

lemma dll_Nil [simp]: "dll gn gp m hp tp [] \<longleftrightarrow> hp = None \<and> tp = None"
  by (simp add: dll_def)

lemma dll_head: "dll gn gp m hp tp xs \<Longrightarrow> hp = head_opt xs"
  by (auto simp: dll_def dest: path_head)

lemma dll_tail: "dll gn gp m hp tp xs \<Longrightarrow> tp = last_opt xs"
  by (auto simp: dll_def head_opt_rev dest: path_head)

lemma dll_distinct: "dll gn gp m hp tp xs \<Longrightarrow> distinct xs"
  by (auto simp: dll_def dest: path_distinct)

lemma dll_dom: "dll gn gp m hp tp xs \<Longrightarrow> set xs \<subseteq> dom m"
  by (auto simp: dll_def dest!: path_dom)

lemma dll_det: "\<lbrakk>dll gn gp m hp tp xs; dll gn gp m hp tp' ys\<rbrakk> \<Longrightarrow> xs = ys"
  by (auto simp: dll_def dest: path_det)

lemma dll_cong_on:
  assumes "\<And>x. x \<in> set xs \<Longrightarrow> view gn m' x = view gn m x"
    and "\<And>x. x \<in> set xs \<Longrightarrow> view gp m' x = view gp m x"
  shows "dll gn gp m' hp tp xs = dll gn gp m hp tp xs"
proof -
  have "path (view gn m') hp xs None = path (view gn m) hp xs None"
    by (rule path_cong) (simp add: assms(1))
  moreover have "path (view gp m') tp (rev xs) None = path (view gp m) tp (rev xs) None"
    by (rule path_cong) (simp add: assms(2))
  ultimately show ?thesis by (simp add: dll_def)
qed

lemma dll_view_cong:
  "\<lbrakk>view gn m' = view gn m; view gp m' = view gp m\<rbrakk> \<Longrightarrow> dll gn gp m' = dll gn gp m"
  by (intro ext) (simp add: dll_def)

lemma dll_dual: "dll gn gp m hp tp xs = dll gp gn m tp hp (rev xs)"
  by (auto simp: dll_def)

lemma dll_next:
  assumes "dll gn gp m hp tp (us @ a # vs)" "m a = Some b"
  shows "gn b = head_opt vs"
proof -
  from assms have "path (view gn m) (gn b) vs None"
    by (auto simp: dll_def view_def)
  then show ?thesis by (rule path_head)
qed

lemma dll_prev:
  assumes "dll gn gp m hp tp (us @ a # vs)" "m a = Some b"
  shows "gp b = last_opt us"
proof -
  from assms(1) have "dll gp gn m tp hp (rev vs @ a # rev us)"
    by (simp add: dll_dual [of gn])
  then have "gp b = head_opt (rev us)" using assms(2) by (rule dll_next)
  then show ?thesis by (simp add: head_opt_rev)
qed

lemma poke_view_upd:
  "\<lbrakk>poke a f m = Some m'; \<And>b. g (f b) = v\<rbrakk> \<Longrightarrow> view g m' = (view g m)(a \<mapsto> v)"
  by (auto simp: poke_Some_iff)

lemma poke_opt_view_upd:
  "\<lbrakk>poke_opt p f m = Some m'; \<And>b. g (f b) = v\<rbrakk> \<Longrightarrow>
    view g m' = (case p of None \<Rightarrow> view g m | Some a \<Rightarrow> (view g m)(a \<mapsto> v))"
  by (cases p) (auto dest: poke_view_upd)

lemma poke_opt_other: "\<lbrakk>poke_opt p f m = Some m'; p \<noteq> Some x\<rbrakk> \<Longrightarrow> m' x = m x"
  by (cases p) (auto simp: poke_Some_iff)

lemma poke_other: "\<lbrakk>poke a f m = Some m'; a \<noteq> x\<rbrakk> \<Longrightarrow> m' x = m x"
  by (auto simp: poke_Some_iff)

text \<open>A list is threaded when every cell points to its neighbours in the array.\<close>

lemma path_nthI:
  assumes "\<And>i. i < length ys \<Longrightarrow> f (ys ! i) = Some (if Suc i < length ys then Some (ys ! Suc i) else None)"
  shows "path f (head_opt ys) ys None"
  using assms
proof (induction ys)
  case Nil
  then show ?case by simp
next
  case (Cons y ys)
  have "path f (head_opt ys) ys None"
  proof (rule Cons.IH)
    fix i assume "i < length ys"
    then show "f (ys ! i) = Some (if Suc i < length ys then Some (ys ! Suc i) else None)"
      using Cons.prems [of "Suc i"] by simp
  qed
  moreover have "f y = Some (head_opt ys)"
    using Cons.prems [of 0] by (cases ys) simp_all
  ultimately show ?case by simp
qed

lemma dll_nthI:
  assumes "\<And>i. i < length ys \<Longrightarrow>
      view gn m (ys ! i) = Some (if Suc i < length ys then Some (ys ! Suc i) else None)"
    and "\<And>i. i < length ys \<Longrightarrow>
      view gp m (ys ! i) = Some (if 0 < i then Some (ys ! (i - 1)) else None)"
  shows "dll gn gp m (head_opt ys) (last_opt ys) ys"
proof -
  have "path (view gn m) (head_opt ys) ys None"
    by (rule path_nthI) (rule assms(1))
  moreover have "path (view gp m) (head_opt (rev ys)) (rev ys) None"
  proof (rule path_nthI)
    fix i assume i: "i < length (rev ys)"
    let ?j = "length ys - Suc i"
    have "view gp m (ys ! ?j) = Some (if 0 < ?j then Some (ys ! (?j - 1)) else None)"
      by (rule assms(2)) (use i in simp)
    moreover have "0 < ?j \<longleftrightarrow> Suc i < length ys" by auto
    ultimately show "view gp m (rev ys ! i) =
        Some (if Suc i < length (rev ys) then Some (rev ys ! Suc i) else None)"
      using i by (auto simp: rev_nth)
  qed
  ultimately show ?thesis by (simp add: dll_def head_opt_rev)
qed

subsection \<open>Pointer surgery\<close>

locale links =
  fixes gn gp :: "'b \<Rightarrow> addr option" and sn sp :: "addr option \<Rightarrow> 'b \<Rightarrow> 'b"
  assumes gn_sn [simp]: "gn (sn v b) = v" and gp_sp [simp]: "gp (sp v b) = v"
    and gn_sp [simp]: "gn (sp v b) = gn b" and gp_sn [simp]: "gp (sn v b) = gp b"
begin

text \<open>\<open>p->next = head; p->prev = NULL; if (head) head->prev = p;\<close>\<close>

lemma push_front:
  assumes "dll gn gp m hp tp xs" "m a = Some b" "a \<notin> set xs"
    and m1: "m1 = m(a \<mapsto> sp None (sn hp b))" and m2: "poke_opt hp (sp (Some a)) m1 = Some m2"
  shows "dll gn gp m2 (Some a) (if xs = [] then Some a else tp) (a # xs)"
proof -
  have hp: "hp = head_opt xs" and tp: "tp = last_opt xs"
    using assms(1) by (rule dll_head, rule dll_tail)
  have vn: "view gn m2 = (view gn m)(a \<mapsto> hp)"
    using poke_opt_view [OF m2, of gn] m1 by simp
  have vp: "view gp m2 = (case hp of None \<Rightarrow> (view gp m)(a \<mapsto> None)
      | Some x \<Rightarrow> (view gp m)(a \<mapsto> None, x \<mapsto> Some a))"
    using poke_opt_view_upd [OF m2, of gp "Some a"] by (simp add: m1 split: option.splits)
  have "path (view gn m2) (Some a) (a # xs) None"
    using assms(1,3) vn by (simp add: dll_def)
  moreover have "path (view gp m2) (if xs = [] then Some a else tp) (rev xs @ [a]) None"
  proof (rule path_snoc_link [where f = "(view gp m)(a \<mapsto> None)" and s = tp])
    show "path ((view gp m)(a \<mapsto> None)) tp (rev xs) None"
      using assms(1,3) by (simp add: dll_def)
    show "view gp m2 = (case last_opt (rev xs) of None \<Rightarrow> (view gp m)(a \<mapsto> None)
        | Some l \<Rightarrow> (view gp m)(a \<mapsto> None, l \<mapsto> Some a))"
      using vp by (simp add: hp last_opt_rev)
  qed (use assms(3) tp in auto)
  ultimately show ?thesis by (simp add: dll_def)
qed

text \<open>\<open>if (prev) prev->next = next; if (next) next->prev = prev;\<close>\<close>

lemma unlink:
  assumes d: "dll gn gp m hp tp (us @ a # vs)" and b: "m a = Some b"
    and m1: "poke_opt (gp b) (sn (gn b)) m = Some m1"
    and m2: "poke_opt (gn b) (sp (gp b)) m1 = Some m2"
  shows "dll gn gp m2 (if us = [] then gn b else hp) (if vs = [] then gp b else tp) (us @ vs)"
proof -
  have n: "gn b = head_opt vs" and p: "gp b = last_opt us"
    using d b by (rule dll_next, rule dll_prev)
  have vn: "view gn m2 = (case last_opt us of None \<Rightarrow> view gn m
      | Some l \<Rightarrow> (view gn m)(l := view gn m a))"
    using poke_opt_view [OF m2, of gn] poke_opt_view_upd [OF m1, of gn "gn b"] b p
    by (simp add: view_SomeI split: option.splits)
  have vp: "view gp m2 = (case last_opt (rev vs) of None \<Rightarrow> view gp m
      | Some l \<Rightarrow> (view gp m)(l := view gp m a))"
    using poke_opt_view_upd [OF m2, of gp "gp b"] poke_opt_view [OF m1, of gp] b n
    by (simp add: view_SomeI last_opt_rev split: option.splits)
  have "path (view gn m2) (if us = [] then gn b else hp) (us @ vs) None"
    by (rule path_unlink [OF _ vn]) (use d b in \<open>auto simp: dll_def view_SomeI\<close>)
  moreover have "path (view gp m2) (if vs = [] then gp b else tp) (rev vs @ rev us) None"
    by (rule path_unlink [OF _ vp]) (use d b in \<open>auto simp: dll_def view_SomeI\<close>)
  ultimately show ?thesis by (simp add: dll_def)
qed

lemma unlink_defined:
  assumes d: "dll gn gp m hp tp (us @ a # vs)" and b: "m a = Some b"
  obtains m1 m2 where "poke_opt (gp b) (sn (gn b)) m = Some m1"
    and "poke_opt (gn b) (sp (gp b)) m1 = Some m2"
proof -
  have n: "gn b = head_opt vs" and p: "gp b = last_opt us"
    using d b by (rule dll_next, rule dll_prev)
  have sub: "set us \<union> set vs \<subseteq> dom m" using dll_dom [OF d] by auto
  have "\<And>x. gp b = Some x \<Longrightarrow> x \<in> dom m"
    using p sub by (auto dest!: last_opt_SomeD)
  then obtain m1 where m1: "poke_opt (gp b) (sn (gn b)) m = Some m1"
    using poke_opt_exists by blast
  have "\<And>x. gn b = Some x \<Longrightarrow> x \<in> dom m1"
    unfolding poke_opt_dom [OF m1] using n sub by (auto dest!: head_opt_SomeD)
  then obtain m2 where "poke_opt (gn b) (sp (gp b)) m1 = Some m2"
    using poke_opt_exists by blast
  with m1 show ?thesis by (rule that)
qed

end

text \<open>Swapping the two link fields reverses the list; the tail operations follow.\<close>

sublocale links \<subseteq> dual: links gp gn sp sn
  by unfold_locales simp_all

context links
begin

text \<open>\<open>p->prev = tail; p->next = NULL; if (tail) tail->next = p;\<close>\<close>

lemma push_back:
  assumes d: "dll gn gp m hp tp xs" and b: "m a = Some b" and "a \<notin> set xs"
    and m1: "m1 = m(a \<mapsto> sn None (sp tp b))" and m2: "poke_opt tp (sn (Some a)) m1 = Some m2"
  shows "dll gn gp m2 (if xs = [] then Some a else hp) (Some a) (xs @ [a])"
proof -
  have "dll gp gn m tp hp (rev xs)" using d by (simp add: dll_dual [of gn])
  then have "dll gp gn m2 (Some a) (if rev xs = [] then Some a else hp) (a # rev xs)"
    using b _ m1 m2 by (rule dual.push_front) (use assms(3) in simp)
  then show ?thesis by (simp add: dll_dual [of gn])
qed

end

end
