(* ===== verification/ZendHash.thy ===== *)
theory ZendHash
  imports Linked
begin

text \<open>
  The engine's hash table (Zend/zend_hash.c, Zend/zend_hash.h): data layout and the operations
  on one element. Every bucket is linked twice: into the collision chain of its slot
  (\<open>pNext\<close>, \<open>pLast\<close>, headed by \<open>arBuckets[h & nTableMask]\<close>) and into the global list that
  keeps insertion order (\<open>pListNext\<close>, \<open>pListLast\<close>, between \<open>pListHead\<close> and \<open>pListTail\<close>).

  The buckets a table owns live in its store \<open>cells\<close>; \<open>brk\<close> is the next address its allocator
  hands out. \<open>grow_ok n\<close> says whether the recoverable reallocation to \<open>n\<close> slots succeeds.
  \<open>dtor_log\<close> records the calls of \<open>pDestructor\<close>, in order. Functions return \<open>None\<close> on undefined
  behaviour; the address written to \<open>*pDest\<close> (or \<open>*pData\<close>) is that of the bucket holding the data.

  Keys are C strings: a pointer with the bytes it points to, \<open>nKeyLength\<close> of them, the final NUL
  counted. The pointer matters because the lookups accept a bucket whose key pointer is the
  caller's before they compare anything else. \<open>KeyOf a\<close> points behind bucket \<open>a\<close>, \<open>Interned\<close>
  into the interned strings, \<open>Caller\<close> anywhere else; \<open>Indet\<close> is a pointer field that was never
  written.
\<close>

subsection \<open>Data layout\<close>

datatype cptr = NullP | Interned nat | KeyOf addr | Caller nat | Indet

record cstr =
  ptr :: cptr
  bytes :: "byte list"

fun IS_INTERNED :: "cptr \<Rightarrow> bool" where
  "IS_INTERNED (Interned _) = True"
| "IS_INTERNED _ = False"

record 'v bucket =
  bh :: ulong
  nKeyLength :: nat
  pData :: 'v
  pInline :: bool
  pListNext :: "addr option"
  pListLast :: "addr option"
  pNext :: "addr option"
  pLast :: "addr option"
  arKey :: cstr
  kroom :: nat

record 'v hashtable =
  nTableSize :: uint
  nTableMask :: uint
  nNumOfElements :: uint
  nNextFreeElement :: ulong
  pInternalPointer :: "addr option"
  pListHead :: "addr option"
  pListTail :: "addr option"
  arBuckets :: "addr option list"
  pDestructor :: bool
  persistent :: bool
  nApplyCount :: byte
  bApplyProtection :: bool
  cells :: "addr \<rightharpoonup> 'v bucket"
  brk :: addr
  grow_ok :: "nat \<Rightarrow> bool"
  dtor_log :: "'v list"

datatype hash_flag = HASH_UPDATE | HASH_ADD | HASH_NEXT_INSERT

datatype del_flag = HASH_DEL_KEY | HASH_DEL_INDEX | HASH_DEL_KEY_QUICK

subsection \<open>The hash function\<close>

definition hash_step :: "ulong \<Rightarrow> byte \<Rightarrow> ulong" where
  "hash_step h c = (push_bit 5 h + h) + scast c"

fun hash_tail :: "ulong \<Rightarrow> byte list \<Rightarrow> ulong" where
  "hash_tail h [c7, c6, c5, c4, c3, c2, c1] =
     hash_step (hash_step (hash_step (hash_step (hash_step (hash_step (hash_step h c7) c6) c5) c4) c3) c2) c1"
| "hash_tail h [c6, c5, c4, c3, c2, c1] =
     hash_step (hash_step (hash_step (hash_step (hash_step (hash_step h c6) c5) c4) c3) c2) c1"
| "hash_tail h [c5, c4, c3, c2, c1] =
     hash_step (hash_step (hash_step (hash_step (hash_step h c5) c4) c3) c2) c1"
| "hash_tail h [c4, c3, c2, c1] = hash_step (hash_step (hash_step (hash_step h c4) c3) c2) c1"
| "hash_tail h [c3, c2, c1] = hash_step (hash_step (hash_step h c3) c2) c1"
| "hash_tail h [c2, c1] = hash_step (hash_step h c2) c1"
| "hash_tail h [c1] = hash_step h c1"
| "hash_tail h cs = h"

fun hash_loop :: "ulong \<Rightarrow> byte list \<Rightarrow> ulong" where
  "hash_loop h (c1 # c2 # c3 # c4 # c5 # c6 # c7 # c8 # cs) =
     hash_loop (hash_step (hash_step (hash_step (hash_step (hash_step (hash_step (hash_step
       (hash_step h c1) c2) c3) c4) c5) c6) c7) c8) cs"
| "hash_loop h cs = hash_tail h cs"

definition zend_inline_hash_func :: "byte list \<Rightarrow> ulong" where
  "zend_inline_hash_func key = hash_loop 5381 key"

definition bucket_index :: "ulong \<Rightarrow> uint \<Rightarrow> nat" where
  "bucket_index h msk = unat (h AND ucast msk)"

subsection \<open>Macros\<close>

definition CONNECT_TO_BUCKET_DLLIST ::
    "addr \<Rightarrow> addr option \<Rightarrow> (addr \<rightharpoonup> 'v bucket) \<Rightarrow> (addr \<rightharpoonup> 'v bucket) option" where
  "CONNECT_TO_BUCKET_DLLIST element list_head m = do {
     m1 \<leftarrow> poke element (\<lambda>b. b\<lparr>pNext := list_head, pLast := None\<rparr>) m;
     poke_opt list_head (\<lambda>b. b\<lparr>pLast := Some element\<rparr>) m1 }"

definition CONNECT_TO_GLOBAL_DLLIST :: "addr \<Rightarrow> 'v hashtable \<Rightarrow> 'v hashtable option" where
  "CONNECT_TO_GLOBAL_DLLIST element ht = do {
     m1 \<leftarrow> poke element (\<lambda>b. b\<lparr>pListLast := pListTail ht, pListNext := None\<rparr>) (cells ht);
     m2 \<leftarrow> poke_opt (pListTail ht) (\<lambda>b. b\<lparr>pListNext := Some element\<rparr>) m1;
     Some (ht\<lparr>cells := m2, pListTail := Some element,
       pListHead := (case pListHead ht of None \<Rightarrow> Some element | Some x \<Rightarrow> Some x),
       pInternalPointer :=
         (case pInternalPointer ht of None \<Rightarrow> Some element | Some x \<Rightarrow> Some x)\<rparr>) }"

definition CHECK_INIT :: "'v hashtable \<Rightarrow> 'v hashtable" where
  "CHECK_INIT ht =
     (if nTableMask ht = 0
      then ht\<lparr>arBuckets := replicate (unat (nTableSize ht)) None, nTableMask := nTableSize ht - 1\<rparr>
      else ht)"

definition call_dtor :: "'v \<Rightarrow> 'v hashtable \<Rightarrow> 'v hashtable" where
  "call_dtor d ht = (if pDestructor ht then ht\<lparr>dtor_log := dtor_log ht @ [d]\<rparr> else ht)"

definition UPDATE_DATA :: "addr \<Rightarrow> 'v \<Rightarrow> bool \<Rightarrow> 'v hashtable \<Rightarrow> 'v hashtable option" where
  "UPDATE_DATA p d ptr_sized ht = do {
     m \<leftarrow> poke p (\<lambda>b. b\<lparr>pData := d, pInline := ptr_sized\<rparr>) (cells ht);
     Some (ht\<lparr>cells := m\<rparr>) }"

text \<open>Reading \<open>arBuckets[i]\<close>.\<close>

definition slot :: "'v hashtable \<Rightarrow> nat \<Rightarrow> addr option option" where
  "slot ht i = (if i < length (arBuckets ht) then Some (arBuckets ht ! i) else None)"

text \<open>The loops \<open>while (p != NULL) \<dots> p = p->pNext\<close> that search a chain.\<close>

partial_function (option) chain_find ::
    "('v bucket \<Rightarrow> bool) \<Rightarrow> (addr \<rightharpoonup> 'v bucket) \<Rightarrow> addr option \<Rightarrow> addr option option" where
  "chain_find P m p =
     (case p of None \<Rightarrow> Some None
      | Some a \<Rightarrow> (case m a of None \<Rightarrow> None
          | Some b \<Rightarrow> if P b then Some (Some a) else chain_find P m (pNext b)))"

subsection \<open>Creation\<close>

text \<open>The loop never shifts by 32, which is undefined, since it is only run for \<open>nSize < 0x80000000\<close>.\<close>

function init_shift :: "nat \<Rightarrow> uint \<Rightarrow> nat" where
  "init_shift i nSize = (if i < 32 \<and> (push_bit i 1 :: uint) < nSize then init_shift (i + 1) nSize else i)"
  by pat_completeness auto

termination
  by (relation "measure (\<lambda>(i, nSize). 32 - i)") auto

declare init_shift.simps [simp del]

definition zend_hash_init :: "uint \<Rightarrow> bool \<Rightarrow> bool \<Rightarrow> (nat \<Rightarrow> bool) \<Rightarrow> 'v hashtable" where
  "zend_hash_init nSize dtor persist grow =
     \<lparr>nTableSize = (if nSize \<ge> 0x80000000 then 0x80000000 else push_bit (init_shift 3 nSize) 1),
      nTableMask = 0, nNumOfElements = 0, nNextFreeElement = 0,
      pInternalPointer = None, pListHead = None, pListTail = None,
      arBuckets = [None], pDestructor = dtor, persistent = persist,
      nApplyCount = 0, bApplyProtection = True,
      cells = Map.empty, brk = 0, grow_ok = grow, dtor_log = []\<rparr>"

definition zend_hash_init_ex ::
    "uint \<Rightarrow> bool \<Rightarrow> bool \<Rightarrow> bool \<Rightarrow> (nat \<Rightarrow> bool) \<Rightarrow> 'v hashtable" where
  "zend_hash_init_ex nSize dtor persist protect grow =
     (zend_hash_init nSize dtor persist grow)\<lparr>bApplyProtection := protect\<rparr>"

definition zend_hash_set_apply_protection :: "'v hashtable \<Rightarrow> bool \<Rightarrow> 'v hashtable" where
  "zend_hash_set_apply_protection ht protect = ht\<lparr>bApplyProtection := protect\<rparr>"

subsection \<open>Rehashing and resizing\<close>

partial_function (option) rehash_loop ::
    "uint \<Rightarrow> addr option \<Rightarrow> (addr \<rightharpoonup> 'v bucket) \<Rightarrow> addr option list \<Rightarrow>
      ((addr \<rightharpoonup> 'v bucket) \<times> addr option list) option" where
  "rehash_loop msk p m bks =
     (case p of None \<Rightarrow> Some (m, bks)
      | Some a \<Rightarrow> (case m a of None \<Rightarrow> None
          | Some b \<Rightarrow>
              (let i = bucket_index (bh b) msk in
               if i < length bks
               then Option.bind (CONNECT_TO_BUCKET_DLLIST a (bks ! i) m)
                      (\<lambda>m'. rehash_loop msk (pListNext b) m' (bks[i := Some a]))
               else None)))"

definition zend_hash_rehash :: "'v hashtable \<Rightarrow> 'v hashtable option" where
  "zend_hash_rehash ht =
     (if nNumOfElements ht = 0 then Some ht
      else do {
        (m, bks) \<leftarrow> rehash_loop (nTableMask ht) (pListHead ht) (cells ht)
                     (replicate (unat (nTableSize ht)) None);
        Some (ht\<lparr>cells := m, arBuckets := bks\<rparr>) })"

definition zend_hash_do_resize :: "'v hashtable \<Rightarrow> (zresult \<times> 'v hashtable) option" where
  "zend_hash_do_resize ht =
     (let size = push_bit 1 (nTableSize ht) in
      if size > 0 then
        if persistent ht \<or> grow_ok ht (unat size) then do {
          ht' \<leftarrow> zend_hash_rehash
            (ht\<lparr>arBuckets := arBuckets ht @ replicate (unat size - length (arBuckets ht)) None,
                nTableSize := size, nTableMask := size - 1\<rparr>);
          Some (SUCCESS, ht') }
        else Some (FAILURE, ht)
      else Some (SUCCESS, ht))"

definition ZEND_HASH_IF_FULL_DO_RESIZE :: "'v hashtable \<Rightarrow> 'v hashtable option" where
  "ZEND_HASH_IF_FULL_DO_RESIZE ht =
     (if nNumOfElements ht > nTableSize ht then map_option snd (zend_hash_do_resize ht)
      else Some ht)"

subsection \<open>Insertion and update\<close>

text \<open>\<open>p->arKey == arKey || (p->h == h && p->nKeyLength == nKeyLength && !memcmp(\<dots>))\<close>\<close>

definition key_match :: "cstr \<Rightarrow> ulong \<Rightarrow> 'v bucket \<Rightarrow> bool" where
  "key_match k h b \<longleftrightarrow> ptr (arKey b) = ptr k \<or>
     (bh b = h \<and> nKeyLength b = length (bytes k) \<and>
      take (length (bytes k)) (bytes (arKey b)) = bytes k)"

definition index_match :: "ulong \<Rightarrow> 'v bucket \<Rightarrow> bool" where
  "index_match h b \<longleftrightarrow> nKeyLength b = 0 \<and> bh b = h"

text \<open>
  A new bucket for a string key: an interned key is shared, any other key is copied behind the
  bucket.
\<close>

definition new_str_bucket :: "addr \<Rightarrow> cstr \<Rightarrow> ulong \<Rightarrow> 'v \<Rightarrow> bool \<Rightarrow> 'v bucket" where
  "new_str_bucket a k h d ptr_sized =
     \<lparr>bh = h, nKeyLength = length (bytes k), pData = d, pInline = ptr_sized,
      pListNext = None, pListLast = None, pNext = None, pLast = None,
      arKey = (if IS_INTERNED (ptr k) then k else \<lparr>ptr = KeyOf a, bytes = bytes k\<rparr>),
      kroom = (if IS_INTERNED (ptr k) then 0 else length (bytes k))\<rparr>"

definition new_index_bucket :: "ulong \<Rightarrow> 'v \<Rightarrow> bool \<Rightarrow> 'v bucket" where
  "new_index_bucket h d ptr_sized =
     \<lparr>bh = h, nKeyLength = 0, pData = d, pInline = ptr_sized,
      pListNext = None, pListLast = None, pNext = None, pLast = None,
      arKey = \<lparr>ptr = NullP, bytes = []\<rparr>, kroom = 0\<rparr>"

text \<open>
  Allocating bucket \<open>b\<close>, linking it at the head of chain \<open>nIndex\<close> and at the tail of the global
  list, and counting it.
\<close>

definition link_new_bucket :: "'v bucket \<Rightarrow> nat \<Rightarrow> 'v hashtable \<Rightarrow> (addr \<times> 'v hashtable) option" where
  "link_new_bucket b nIndex ht = do {
     let p = brk ht;
     head \<leftarrow> slot ht nIndex;
     m \<leftarrow> CONNECT_TO_BUCKET_DLLIST p head ((cells ht)(p \<mapsto> b));
     ht1 \<leftarrow> CONNECT_TO_GLOBAL_DLLIST p (ht\<lparr>cells := m, brk := Suc p\<rparr>);
     Some (p, ht1\<lparr>arBuckets := (arBuckets ht1)[nIndex := Some p],
                  nNumOfElements := nNumOfElements ht1 + 1\<rparr>) }"

definition put_str ::
    "'v hashtable \<Rightarrow> cstr \<Rightarrow> ulong \<Rightarrow> 'v \<Rightarrow> bool \<Rightarrow> hash_flag \<Rightarrow>
      (zresult \<times> addr option \<times> 'v hashtable) option" where
  "put_str ht k h d ptr_sized flag = do {
     let nIndex = bucket_index h (nTableMask ht);
     head \<leftarrow> slot ht nIndex;
     found \<leftarrow> chain_find (key_match k h) (cells ht) head;
     (case found of
        Some p \<Rightarrow>
          if flag = HASH_ADD then Some (FAILURE, None, ht)
          else do {
            b \<leftarrow> cells ht p;
            ht' \<leftarrow> UPDATE_DATA p d ptr_sized (call_dtor (pData b) ht);
            Some (SUCCESS, Some p, ht') }
      | None \<Rightarrow> do {
          (p, ht1) \<leftarrow> link_new_bucket (new_str_bucket (brk ht) k h d ptr_sized) nIndex ht;
          ht2 \<leftarrow> ZEND_HASH_IF_FULL_DO_RESIZE ht1;
          Some (SUCCESS, Some p, ht2) }) }"

definition zend_hash_add_or_update ::
    "'v hashtable \<Rightarrow> cstr \<Rightarrow> 'v \<Rightarrow> bool \<Rightarrow> hash_flag \<Rightarrow>
      (zresult \<times> addr option \<times> 'v hashtable) option" where
  "zend_hash_add_or_update ht k d ptr_sized flag =
     (if length (bytes k) = 0 then Some (FAILURE, None, ht)
      else put_str (CHECK_INIT ht) k (zend_inline_hash_func (bytes k)) d ptr_sized flag)"

definition zend_hash_index_update_or_next_insert ::
    "'v hashtable \<Rightarrow> ulong \<Rightarrow> 'v \<Rightarrow> bool \<Rightarrow> hash_flag \<Rightarrow>
      (zresult \<times> addr option \<times> 'v hashtable) option" where
  "zend_hash_index_update_or_next_insert ht0 h0 d ptr_sized flag = do {
     let ht = CHECK_INIT ht0;
     let h = (if flag = HASH_NEXT_INSERT then nNextFreeElement ht else h0);
     let nIndex = bucket_index h (nTableMask ht);
     let next_free = (if nNextFreeElement ht \<le>s h
           then if h < 0x7FFFFFFFFFFFFFFF then h + 1 else 0x7FFFFFFFFFFFFFFF
           else nNextFreeElement ht);
     head \<leftarrow> slot ht nIndex;
     found \<leftarrow> chain_find (index_match h) (cells ht) head;
     (case found of
        Some p \<Rightarrow>
          if flag = HASH_NEXT_INSERT \<or> flag = HASH_ADD then Some (FAILURE, None, ht)
          else do {
            b \<leftarrow> cells ht p;
            ht' \<leftarrow> UPDATE_DATA p d ptr_sized (call_dtor (pData b) ht);
            Some (SUCCESS, Some p, ht'\<lparr>nNextFreeElement := next_free\<rparr>) }
      | None \<Rightarrow> do {
          (p, ht1) \<leftarrow> link_new_bucket (new_index_bucket h d ptr_sized) nIndex ht;
          ht2 \<leftarrow> ZEND_HASH_IF_FULL_DO_RESIZE (ht1\<lparr>nNextFreeElement := next_free\<rparr>);
          Some (SUCCESS, Some p, ht2) }) }"

definition zend_hash_quick_add_or_update ::
    "'v hashtable \<Rightarrow> cstr \<Rightarrow> ulong \<Rightarrow> 'v \<Rightarrow> bool \<Rightarrow> hash_flag \<Rightarrow>
      (zresult \<times> addr option \<times> 'v hashtable) option" where
  "zend_hash_quick_add_or_update ht k h d ptr_sized flag =
     (if length (bytes k) = 0
      then zend_hash_index_update_or_next_insert ht h d ptr_sized HASH_UPDATE
      else put_str (CHECK_INIT ht) k h d ptr_sized flag)"

text \<open>\<open>dummy\<close> is the value of the pointer constant \<open>(void *) 1\<close>.\<close>

definition zend_hash_add_empty_element ::
    "'v \<Rightarrow> 'v hashtable \<Rightarrow> cstr \<Rightarrow> (zresult \<times> addr option \<times> 'v hashtable) option" where
  "zend_hash_add_empty_element dummy ht k = zend_hash_add_or_update ht k dummy True HASH_ADD"

subsection \<open>Deletion\<close>

text \<open>
  Taking bucket \<open>p\<close> out of the global list; \<open>pInternalPointer\<close> moves on when it was there.
\<close>

definition unlink_global :: "addr \<Rightarrow> 'v bucket \<Rightarrow> 'v hashtable \<Rightarrow> 'v hashtable option" where
  "unlink_global p b ht = do {
     m1 \<leftarrow> poke_opt (pListLast b) (\<lambda>c. c\<lparr>pListNext := pListNext b\<rparr>) (cells ht);
     m2 \<leftarrow> poke_opt (pListNext b) (\<lambda>c. c\<lparr>pListLast := pListLast b\<rparr>) m1;
     Some (ht\<lparr>cells := m2,
       pListHead := (if pListLast b = None then pListNext b else pListHead ht),
       pListTail := (if pListNext b = None then pListLast b else pListTail ht),
       pInternalPointer :=
         (if pInternalPointer ht = Some p then pListNext b else pInternalPointer ht)\<rparr>) }"

text \<open>The end of a deletion: the destructor sees the data, then the bucket is freed.\<close>

definition free_bucket :: "addr \<Rightarrow> 'v bucket \<Rightarrow> 'v hashtable \<Rightarrow> 'v hashtable" where
  "free_bucket p b ht =
     (let ht1 = call_dtor (pData b) ht in ht1\<lparr>cells := (cells ht1)(p := None)\<rparr>)"

definition del_match :: "byte list \<Rightarrow> ulong \<Rightarrow> 'v bucket \<Rightarrow> bool" where
  "del_match key h b \<longleftrightarrow> bh b = h \<and> nKeyLength b = length key \<and>
     (nKeyLength b = 0 \<or> take (length key) (bytes (arKey b)) = key)"

definition zend_hash_del_key_or_index ::
    "'v hashtable \<Rightarrow> byte list \<Rightarrow> ulong \<Rightarrow> del_flag \<Rightarrow> (zresult \<times> 'v hashtable) option" where
  "zend_hash_del_key_or_index ht key h0 flag = do {
     let h = (if flag = HASH_DEL_KEY then zend_inline_hash_func key else h0);
     let nIndex = bucket_index h (nTableMask ht);
     head \<leftarrow> slot ht nIndex;
     found \<leftarrow> chain_find (del_match key h) (cells ht) head;
     (case found of
        None \<Rightarrow> Some (FAILURE, ht)
      | Some p \<Rightarrow> do {
          b \<leftarrow> cells ht p;
          (m1, bks) \<leftarrow>
            (if head = Some p then Some (cells ht, (arBuckets ht)[nIndex := pNext b])
             else do {
               l \<leftarrow> pLast b;
               m \<leftarrow> poke l (\<lambda>c. c\<lparr>pNext := pNext b\<rparr>) (cells ht);
               Some (m, arBuckets ht) });
          m2 \<leftarrow> poke_opt (pNext b) (\<lambda>c. c\<lparr>pLast := pLast b\<rparr>) m1;
          ht1 \<leftarrow> unlink_global p b (ht\<lparr>cells := m2, arBuckets := bks\<rparr>);
          let ht2 = free_bucket p b ht1;
          Some (SUCCESS, ht2\<lparr>nNumOfElements := nNumOfElements ht2 - 1\<rparr>) }) }"

definition zend_hash_del :: "'v hashtable \<Rightarrow> byte list \<Rightarrow> (zresult \<times> 'v hashtable) option" where
  "zend_hash_del ht key = zend_hash_del_key_or_index ht key 0 HASH_DEL_KEY"

definition zend_hash_index_del :: "'v hashtable \<Rightarrow> ulong \<Rightarrow> (zresult \<times> 'v hashtable) option" where
  "zend_hash_index_del ht h = zend_hash_del_key_or_index ht [] h HASH_DEL_INDEX"

definition zend_hash_apply_deleter ::
    "'v hashtable \<Rightarrow> addr \<Rightarrow> (addr option \<times> 'v hashtable) option" where
  "zend_hash_apply_deleter ht p = do {
     b \<leftarrow> cells ht p;
     (m1, bks) \<leftarrow>
       (case pLast b of
          Some l \<Rightarrow> do {
            m \<leftarrow> poke l (\<lambda>c. c\<lparr>pNext := pNext b\<rparr>) (cells ht);
            Some (m, arBuckets ht) }
        | None \<Rightarrow> do {
            let nIndex = bucket_index (bh b) (nTableMask ht);
            _ \<leftarrow> slot ht nIndex;
            Some (cells ht, (arBuckets ht)[nIndex := pNext b]) });
     m2 \<leftarrow> poke_opt (pNext b) (\<lambda>c. c\<lparr>pLast := pLast b\<rparr>) m1;
     ht1 \<leftarrow> unlink_global p b (ht\<lparr>cells := m2, arBuckets := bks\<rparr>);
     Some (pListNext b, free_bucket p b (ht1\<lparr>nNumOfElements := nNumOfElements ht1 - 1\<rparr>)) }"

subsection \<open>Lookup\<close>

definition zend_hash_find :: "'v hashtable \<Rightarrow> cstr \<Rightarrow> addr option option" where
  "zend_hash_find ht k = do {
     let h = zend_inline_hash_func (bytes k);
     head \<leftarrow> slot ht (bucket_index h (nTableMask ht));
     chain_find (key_match k h) (cells ht) head }"

definition zend_hash_index_find :: "'v hashtable \<Rightarrow> ulong \<Rightarrow> addr option option" where
  "zend_hash_index_find ht h = do {
     head \<leftarrow> slot ht (bucket_index h (nTableMask ht));
     chain_find (index_match h) (cells ht) head }"

definition zend_hash_quick_find :: "'v hashtable \<Rightarrow> cstr \<Rightarrow> ulong \<Rightarrow> addr option option" where
  "zend_hash_quick_find ht k h =
     (if length (bytes k) = 0 then zend_hash_index_find ht h
      else do {
        head \<leftarrow> slot ht (bucket_index h (nTableMask ht));
        chain_find (key_match k h) (cells ht) head })"

definition zend_hash_exists :: "'v hashtable \<Rightarrow> cstr \<Rightarrow> bool option" where
  "zend_hash_exists ht k = do {
     let h = zend_inline_hash_func (bytes k);
     head \<leftarrow> slot ht (bucket_index h (nTableMask ht));
     p \<leftarrow> chain_find (key_match k h) (cells ht) head;
     Some (p \<noteq> None) }"

definition zend_hash_index_exists :: "'v hashtable \<Rightarrow> ulong \<Rightarrow> bool option" where
  "zend_hash_index_exists ht h = do {
     head \<leftarrow> slot ht (bucket_index h (nTableMask ht));
     p \<leftarrow> chain_find (index_match h) (cells ht) head;
     Some (p \<noteq> None) }"

definition zend_hash_quick_exists :: "'v hashtable \<Rightarrow> cstr \<Rightarrow> ulong \<Rightarrow> bool option" where
  "zend_hash_quick_exists ht k h =
     (if length (bytes k) = 0 then zend_hash_index_exists ht h
      else do {
        head \<leftarrow> slot ht (bucket_index h (nTableMask ht));
        p \<leftarrow> chain_find (key_match k h) (cells ht) head;
        Some (p \<noteq> None) })"

definition zend_hash_num_elements :: "'v hashtable \<Rightarrow> uint" where
  "zend_hash_num_elements ht = nNumOfElements ht"

definition zend_hash_next_free_element :: "'v hashtable \<Rightarrow> ulong" where
  "zend_hash_next_free_element ht = nNextFreeElement ht"

text \<open>The loops are executable by their equations.\<close>

declare chain_find.simps [code]
  rehash_loop.simps [code]

end
