(* ===== verification/ZendHashInv.thy ===== *)
theory ZendHashInv
  imports ZendHash
begin

text \<open>
  The invariant of the hash table and the pointer lemmas behind it.

  \<open>chains_ok\<close> says that slot \<open>i\<close> heads a doubly linked chain of exactly the buckets whose hash
  selects \<open>i\<close>; \<open>order_ok\<close> says everything else (global list, sizes, counters, ownership, keys);
  \<open>hash_ok ht ps\<close> is both, for the addresses \<open>ps\<close> in insertion order. \<open>hash_repr ht kvs\<close> is
  the abstraction: the table represents the ordered association list \<open>kvs\<close>.
\<close>

subsection \<open>Abstract keys and entries\<close>

datatype hkey = KInt ulong | KStr "byte list"

definition bkey :: "'v bucket \<Rightarrow> hkey" where
  "bkey b = (if nKeyLength b = 0 then KInt (bh b) else KStr (take (nKeyLength b) (bytes (arKey b))))"

definition bentry :: "'v bucket \<Rightarrow> hkey \<times> 'v" where
  "bentry b = (bkey b, pData b)"

text \<open>
  Per bucket: a string key carries its own hash, and its pointer is either shared with the
  interned strings or points behind this very bucket.
\<close>

definition bucket_ok :: "addr \<Rightarrow> 'v bucket \<Rightarrow> bool" where
  "bucket_ok a b \<longleftrightarrow>
     (nKeyLength b \<noteq> 0 \<longrightarrow> nKeyLength b \<le> length (bytes (arKey b)) \<and>
        bh b = zend_inline_hash_func (take (nKeyLength b) (bytes (arKey b)))) \<and>
     (case ptr (arKey b) of Caller _ \<Rightarrow> False | KeyOf x \<Rightarrow> x = a | _ \<Rightarrow> True)"

definition bslot :: "uint \<Rightarrow> 'v bucket \<Rightarrow> nat" where
  "bslot msk b = bucket_index (bh b) msk"

definition chains_ok :: "(addr \<rightharpoonup> 'v bucket) \<Rightarrow> uint \<Rightarrow> addr option list \<Rightarrow> addr set \<Rightarrow> bool" where
  "chains_ok m msk bks A \<longleftrightarrow> (\<exists>ch. \<forall>i < length bks.
     dll pNext pLast m (bks ! i) (last_opt (ch i)) (ch i) \<and>
     set (ch i) = {a \<in> A. view (bslot msk) m a = Some i})"

definition table_size_ok :: "uint \<Rightarrow> bool" where
  "table_size_ok n \<longleftrightarrow> (\<exists>k. 3 \<le> k \<and> k \<le> 31 \<and> n = push_bit k 1)"

definition order_ok :: "'v hashtable \<Rightarrow> addr list \<Rightarrow> bool" where
  "order_ok ht ps \<longleftrightarrow>
     dll pListNext pListLast (cells ht) (pListHead ht) (pListTail ht) ps \<and>
     dom (cells ht) = set ps \<and> (\<forall>a \<in> set ps. a < brk ht) \<and>
     table_size_ok (nTableSize ht) \<and>
     (if nTableMask ht = 0 then ps = [] \<and> arBuckets ht = [None]
      else nTableMask ht = nTableSize ht - 1 \<and> length (arBuckets ht) = unat (nTableSize ht)) \<and>
     nNumOfElements ht = of_nat (length ps) \<and>
     (\<forall>a. pInternalPointer ht = Some a \<longrightarrow> a \<in> set ps) \<and>
     (\<forall>a b. cells ht a = Some b \<longrightarrow> bucket_ok a b) \<and>
     distinct (map (view bkey (cells ht)) ps)"

definition hash_ok :: "'v hashtable \<Rightarrow> addr list \<Rightarrow> bool" where
  "hash_ok ht ps \<longleftrightarrow> order_ok ht ps \<and>
     chains_ok (cells ht) (nTableMask ht) (arBuckets ht) (set ps)"

definition entries :: "'v hashtable \<Rightarrow> addr list \<Rightarrow> (hkey \<times> 'v) list" where
  "entries ht ps = map (\<lambda>a. the (view bentry (cells ht) a)) ps"

definition hash_repr :: "'v hashtable \<Rightarrow> (hkey \<times> 'v) list \<Rightarrow> bool" where
  "hash_repr ht kvs \<longleftrightarrow> (\<exists>ps. hash_ok ht ps \<and> kvs = entries ht ps)"

text \<open>A caller's key pointer is coherent when every bucket sharing it holds that very key.\<close>

definition coherent :: "'v hashtable \<Rightarrow> cstr \<Rightarrow> bool" where
  "coherent ht k \<longleftrightarrow> (\<forall>b \<in> ran (cells ht). ptr (arKey b) = ptr k \<longrightarrow> bkey b = KStr (bytes k))"

subsection \<open>The two lists of a bucket as instances of the link interface\<close>

interpretation chain: links pNext pLast "\<lambda>v b. b\<lparr>pNext := v\<rparr>" "\<lambda>v b. b\<lparr>pLast := v\<rparr>"
  by unfold_locales simp_all

interpretation global: links pListNext pListLast "\<lambda>v b. b\<lparr>pListNext := v\<rparr>" "\<lambda>v b. b\<lparr>pListLast := v\<rparr>"
  by unfold_locales simp_all

text \<open>
  Chain surgery leaves every other field alone: \<open>same_mod_chain\<close> compares stores up to the
  chain links, \<open>same_mod_global\<close> up to the links of the global list.
\<close>

definition no_chain :: "'v bucket \<Rightarrow> 'v bucket" where
  "no_chain b = b\<lparr>pNext := None, pLast := None\<rparr>"

definition no_global :: "'v bucket \<Rightarrow> 'v bucket" where
  "no_global b = b\<lparr>pListNext := None, pListLast := None\<rparr>"

lemma no_chain_simps [simp]:
  "pListNext (no_chain b) = pListNext b" "pListLast (no_chain b) = pListLast b"
  "bh (no_chain b) = bh b" "pData (no_chain b) = pData b" "nKeyLength (no_chain b) = nKeyLength b"
  "arKey (no_chain b) = arKey b" "bkey (no_chain b) = bkey b" "bentry (no_chain b) = bentry b"
  "bslot msk (no_chain b) = bslot msk b" "bucket_ok a (no_chain b) = bucket_ok a b"
  by (simp_all add: no_chain_def bkey_def bentry_def bslot_def bucket_ok_def)

lemma no_global_simps [simp]:
  "pNext (no_global b) = pNext b" "pLast (no_global b) = pLast b"
  "bh (no_global b) = bh b" "pData (no_global b) = pData b" "nKeyLength (no_global b) = nKeyLength b"
  "arKey (no_global b) = arKey b" "bkey (no_global b) = bkey b" "bentry (no_global b) = bentry b"
  "bslot msk (no_global b) = bslot msk b" "bucket_ok a (no_global b) = bucket_ok a b"
  by (simp_all add: no_global_def bkey_def bentry_def bslot_def bucket_ok_def)

lemma view_bucket_ok:
  assumes "view e m' = view e m" "\<And>a b. bucket_ok a (e b) = bucket_ok a b"
    and "\<forall>a b. m a = Some b \<longrightarrow> bucket_ok a b" "m' a = Some b"
  shows "bucket_ok a b"
  using view_eq_SomeE [OF assms(1,4)] assms(2,3) by metis

subsection \<open>Chains\<close>

lemma chains_okI:
  "(\<And>i. i < length bks \<Longrightarrow> dll pNext pLast m (bks ! i) (last_opt (ch i)) (ch i)) \<Longrightarrow>
   (\<And>i. i < length bks \<Longrightarrow> set (ch i) = {a \<in> A. view (bslot msk) m a = Some i}) \<Longrightarrow>
   chains_ok m msk bks A"
  by (auto simp: chains_ok_def)

lemma chains_okE:
  assumes "chains_ok m msk bks A"
  obtains ch where "\<forall>i < length bks. dll pNext pLast m (bks ! i) (last_opt (ch i)) (ch i)"
    and "\<forall>i < length bks. set (ch i) = {a \<in> A. view (bslot msk) m a = Some i}"
  using assms unfolding chains_ok_def by blast

lemma chains_ok_empty: "chains_ok m msk (replicate n None) {}"
  by (rule chains_okI [where ch = "\<lambda>_. []"]) simp_all

lemma chains_ok_cong:
  fixes m m' :: "addr \<rightharpoonup> 'v bucket"
  assumes "view pNext m' = view pNext m" "view pLast m' = view pLast m" "view bh m' = view bh m"
  shows "chains_ok m' msk bks A = chains_ok m msk bks A"
proof -
  have "view (bslot msk) m' = view (bslot msk) m"
    using view_factor [OF assms(3), of "\<lambda>h. bucket_index h msk"] by (simp add: bslot_def [abs_def])
  then show ?thesis
    unfolding chains_ok_def dll_view_cong [OF assms(1,2)] by simp
qed


lemma chains_ok_slot:
  assumes "chains_ok m msk bks A" "i < length bks"
  obtains xs where "dll pNext pLast m (bks ! i) (last_opt xs) xs"
    and "set xs = {a \<in> A. view (bslot msk) m a = Some i}"
  using assms(1) by (rule chains_okE) (use assms(2) that in blast)

lemma CONNECT_chain_frame:
  assumes "CONNECT_TO_BUCKET_DLLIST a hp m = Some m'"
  shows "view no_chain m' = view no_chain m" and "dom m' = dom m"
    and "\<And>x. \<lbrakk>x \<noteq> a; hp \<noteq> Some x\<rbrakk> \<Longrightarrow> m' x = m x"
proof -
  from assms obtain m1 where m1: "poke a (\<lambda>b. b\<lparr>pNext := hp, pLast := None\<rparr>) m = Some m1"
    and m2: "poke_opt hp (\<lambda>b. b\<lparr>pLast := Some a\<rparr>) m1 = Some m'"
    by (auto simp: CONNECT_TO_BUCKET_DLLIST_def bind_eq_Some_iff)
  have "view no_chain m1 = view no_chain m"
    using m1 by (rule poke_view) (simp add: no_chain_def)
  moreover have "view no_chain m' = view no_chain m1"
    using m2 by (rule poke_opt_view) (simp add: no_chain_def)
  ultimately show "view no_chain m' = view no_chain m" by simp
  then show "dom m' = dom m" by (rule view_eq_dom)
  fix x assume "x \<noteq> a" "hp \<noteq> Some x"
  then show "m' x = m x" using poke_other [OF m1, of x] poke_opt_other [OF m2, of x] by simp
qed

text \<open>Linking a new bucket at the head of its chain.\<close>

lemma chains_ok_push:
  assumes ok: "chains_ok m msk bks A" and b: "m a = Some b" and "a \<notin> A" "A \<subseteq> dom m"
    and i: "bslot msk b = i" "i < length bks"
  obtains m' where "CONNECT_TO_BUCKET_DLLIST a (bks ! i) m = Some m'"
    and "chains_ok m' msk (bks[i := Some a]) (insert a A)"
proof -
  obtain ch where "\<forall>j < length bks. dll pNext pLast m (bks ! j) (last_opt (ch j)) (ch j)"
    and "\<forall>j < length bks. set (ch j) = {a \<in> A. view (bslot msk) m a = Some j}"
    using ok by (rule chains_okE)
  then have ch: "\<And>j. j < length bks \<Longrightarrow> dll pNext pLast m (bks ! j) (last_opt (ch j)) (ch j)"
    and sch: "\<And>j. j < length bks \<Longrightarrow> set (ch j) = {a \<in> A. view (bslot msk) m a = Some j}"
    by blast+
  have a_ch: "a \<notin> set (ch j)" if "j < length bks" for j
    using sch [OF that] assms(3) by auto
  have hp: "bks ! i = head_opt (ch i)" using ch [OF i(2)] by (rule dll_head)
  let ?m1 = "m(a \<mapsto> b\<lparr>pNext := bks ! i, pLast := None\<rparr>)"
  have m1: "poke a (\<lambda>b. b\<lparr>pNext := bks ! i, pLast := None\<rparr>) m = Some ?m1"
    using b by (simp add: poke_eq)
  have "\<And>x. bks ! i = Some x \<Longrightarrow> x \<in> dom ?m1"
    using hp dll_dom [OF ch [OF i(2)]] by (auto dest!: head_opt_SomeD)
  then obtain m2 where m2: "poke_opt (bks ! i) (\<lambda>b. b\<lparr>pLast := Some a\<rparr>) ?m1 = Some m2"
    using poke_opt_exists by blast
  have con: "CONNECT_TO_BUCKET_DLLIST a (bks ! i) m = Some m2"
    unfolding CONNECT_TO_BUCKET_DLLIST_def using m1 m2 by simp
  note fr = CONNECT_chain_frame [OF con]
  have vs: "view (bslot msk) m2 = view (bslot msk) m"
    using fr(1) by (rule view_via) simp
  let ?ch = "ch(i := a # ch i)"
  have "chains_ok m2 msk (bks[i := Some a]) (insert a A)"
  proof (rule chains_okI [where ch = ?ch])
    fix j assume j: "j < length (bks[i := Some a])"
    show "dll pNext pLast m2 (bks[i := Some a] ! j) (last_opt (?ch j)) (?ch j)"
    proof (cases "j = i")
      case True
      have "dll pNext pLast m2 (Some a) (if ch i = [] then Some a else last_opt (ch i)) (a # ch i)"
        by (rule chain.push_front [OF ch [OF i(2)] b a_ch [OF i(2)] _ m2]) simp
      then show ?thesis using True i(2)
        by (cases "ch i") auto
    next
      case False
      have dj: "dll pNext pLast m (bks ! j) (last_opt (ch j)) (ch j)" using ch j by simp
      have same: "m2 x = m x" if "x \<in> set (ch j)" for x
      proof (rule fr(3))
        show "x \<noteq> a" using a_ch j that by auto
        show "bks ! i \<noteq> Some x"
        proof
          assume "bks ! i = Some x"
          then have "x \<in> set (ch i)" using hp by (simp add: head_opt_in)
          with that False j i(2) show False using sch [of i] sch [of j] by simp
        qed
      qed
      have "dll pNext pLast m2 (bks ! j) (last_opt (ch j)) (ch j)"
        by (subst dll_cong_on [where m = m]) (simp_all add: view_apply same dj)
      then show ?thesis using False by simp
    qed
    show "set (?ch j) = {x \<in> insert a A. view (bslot msk) m2 x = Some j}"
      using j sch [of j] i b unfolding vs by (auto simp: view_apply)
  qed
  with con show ?thesis by (rule that)
qed

text \<open>Unlinking a bucket from its chain, in either order of the two pointer writes.\<close>

lemma chains_ok_unlink:
  assumes ok: "chains_ok m msk bks A" and b: "m a = Some b" and "a \<in> A"
    and i: "bslot msk b = i" "i < length bks"
  obtains m1 m2 where "poke_opt (pLast b) (\<lambda>c. c\<lparr>pNext := pNext b\<rparr>) m = Some m1"
    and "poke_opt (pNext b) (\<lambda>c. c\<lparr>pLast := pLast b\<rparr>) m1 = Some m2"
    and "chains_ok m2 msk (if pLast b = None then bks[i := pNext b] else bks) (A - {a})"
    and "bks ! i = Some a \<longleftrightarrow> pLast b = None"
    and "m2 a = Some b" "view no_chain m2 = view no_chain m"
proof -
  obtain ch where "\<forall>j < length bks. dll pNext pLast m (bks ! j) (last_opt (ch j)) (ch j)"
    and "\<forall>j < length bks. set (ch j) = {a \<in> A. view (bslot msk) m a = Some j}"
    using ok by (rule chains_okE)
  then have ch: "\<And>j. j < length bks \<Longrightarrow> dll pNext pLast m (bks ! j) (last_opt (ch j)) (ch j)"
    and sch: "\<And>j. j < length bks \<Longrightarrow> set (ch j) = {a \<in> A. view (bslot msk) m a = Some j}"
    by blast+
  have "a \<in> set (ch i)" using sch [OF i(2)] assms(3) b i(1) by (simp add: view_apply)
  then obtain us vs where uv: "ch i = us @ a # vs" by (auto simp: in_set_conv_decomp)
  have di: "dll pNext pLast m (bks ! i) (last_opt (us @ a # vs)) (us @ a # vs)"
    using ch [OF i(2)] uv by simp
  have nx: "pNext b = head_opt vs" and pv: "pLast b = last_opt us"
    using di b by (rule dll_next, rule dll_prev)
  have dist: "distinct (us @ a # vs)" using di by (rule dll_distinct)
  obtain m1 m2 where m1: "poke_opt (pLast b) (\<lambda>c. c\<lparr>pNext := pNext b\<rparr>) m = Some m1"
    and m2: "poke_opt (pNext b) (\<lambda>c. c\<lparr>pLast := pLast b\<rparr>) m1 = Some m2"
    using chain.unlink_defined [OF di b] by blast
  have hd: "bks ! i = Some a \<longleftrightarrow> pLast b = None"
    using dll_head [OF di] pv dist by (cases us) auto
  have nc: "view no_chain m2 = view no_chain m"
    using poke_opt_view [OF m2, of no_chain] poke_opt_view [OF m1, of no_chain]
    by (simp add: no_chain_def)
  have vs: "view (bslot msk) m2 = view (bslot msk) m"
    using nc by (rule view_via) simp
  have "pLast b \<noteq> Some a" "pNext b \<noteq> Some a"
    using nx pv dist by (auto dest: head_opt_in last_opt_in)
  then have keep: "m2 a = Some b"
    using poke_opt_other [OF m1, of a] poke_opt_other [OF m2, of a] b by simp
  let ?ch = "ch(i := us @ vs)"
  let ?bks = "if pLast b = None then bks[i := pNext b] else bks"
  have "chains_ok m2 msk ?bks (A - {a})"
  proof (rule chains_okI [where ch = ?ch])
    fix j assume j: "j < length ?bks"
    then have jb: "j < length bks" by (simp split: if_splits)
    show "dll pNext pLast m2 (?bks ! j) (last_opt (?ch j)) (?ch j)"
    proof (cases "j = i")
      case True
      have "dll pNext pLast m2 (if us = [] then pNext b else bks ! i)
          (if vs = [] then pLast b else last_opt (us @ a # vs)) (us @ vs)"
        by (rule chain.unlink [OF di b m1 m2])
      then show ?thesis using True i(2) pv
        by (auto simp: last_opt_append last_opt_Cons split: if_splits)
    next
      case False
      have dj: "dll pNext pLast m (bks ! j) (last_opt (ch j)) (ch j)" using ch jb by simp
      have same: "m2 x = m x" if "x \<in> set (ch j)" for x
      proof -
        have "x \<notin> set (ch i)"
          using that False jb i(2) sch [of i] sch [of j] by simp
        then have "x \<notin> set (us @ vs)" using uv by simp
        then have "pNext b \<noteq> Some x" "pLast b \<noteq> Some x"
          using nx pv by (auto dest!: head_opt_SomeD last_opt_SomeD)
        then show ?thesis using poke_opt_other [OF m1, of x] poke_opt_other [OF m2, of x] by simp
      qed
      have "dll pNext pLast m2 (bks ! j) (last_opt (ch j)) (ch j)"
        by (subst dll_cong_on [where m = m]) (simp_all add: view_apply same dj)
      then show ?thesis using False by simp
    qed
    show "set (?ch j) = {x \<in> A - {a}. view (bslot msk) m2 x = Some j}"
      using jb sch [of j] uv dist i b unfolding vs by (auto simp: view_apply)
  qed
  with m1 m2 show ?thesis using hd keep nc by (rule that)
qed

text \<open>The two writes of an unlinking commute.\<close>

lemma poke_opt_swap:
  assumes "poke_opt p f m = Some m1" "poke_opt q g m1 = Some m2" "\<And>b. f (g b) = g (f b)"
  obtains m1' where "poke_opt q g m = Some m1'" "poke_opt p f m1' = Some m2"
proof (cases p; cases q)
  fix x y assume pq: "p = Some x" "q = Some y"
  then obtain b where b: "m x = Some b" "m1 = m(x \<mapsto> f b)" using assms(1) by (auto simp: poke_Some_iff)
  then obtain c where c: "(m(x \<mapsto> f b)) y = Some c" "m2 = m(x \<mapsto> f b, y \<mapsto> g c)"
    using assms(2) pq by (auto simp: poke_Some_iff)
  show thesis
  proof (cases "x = y")
    case True
    then show thesis using b c pq assms(3) by (intro that [of "m(x \<mapsto> g b)"]) (auto simp: poke_def)
  next
    case False
    then show thesis using b c pq
      by (intro that [of "m(y \<mapsto> g c)"]) (auto simp: poke_def fun_upd_twist)
  qed
qed (use assms that in auto)

text \<open>Cells that no chain reaches may change, appear or be freed.\<close>

lemma chains_ok_other:
  fixes m :: "addr \<rightharpoonup> 'v bucket"
  assumes "chains_ok m msk bks A" "\<And>x. x \<in> A \<Longrightarrow> m' x = m x"
  shows "chains_ok m' msk bks A"
proof -
  obtain ch where "\<forall>j < length bks. dll pNext pLast m (bks ! j) (last_opt (ch j)) (ch j)"
    and "\<forall>j < length bks. set (ch j) = {a \<in> A. view (bslot msk) m a = Some j}"
    using assms(1) by (rule chains_okE)
  then have ch: "\<And>j. j < length bks \<Longrightarrow> dll pNext pLast m (bks ! j) (last_opt (ch j)) (ch j)"
    and sch: "\<And>j. j < length bks \<Longrightarrow> set (ch j) = {a \<in> A. view (bslot msk) m a = Some j}"
    by blast+
  show ?thesis
  proof (rule chains_okI [where ch = ch])
    fix j assume j: "j < length bks"
    have "\<And>x. x \<in> set (ch j) \<Longrightarrow> m' x = m x" using sch [OF j] assms(2) by simp
    then show "dll pNext pLast m' (bks ! j) (last_opt (ch j)) (ch j)"
      by (subst dll_cong_on [where m = m]) (simp_all add: view_apply ch [OF j])
    show "set (ch j) = {x \<in> A. view (bslot msk) m' x = Some j}"
      using sch [OF j] assms(2) by (auto simp: view_apply)
  qed
qed

end
