(* ===== verification/ZendHashOps.thy ===== *)
theory ZendHashOps
  imports ZendHashInv "HOL-Library.AList"
begin

text \<open>
  What the one-element operations of the hash table do to the invariant and to the represented
  association list: lookup, linking a new bucket, updating in place, growing and rehashing, and
  deletion.
\<close>

subsection \<open>Slots\<close>

lemma bucket_index_0 [simp]: "bucket_index h 0 = 0"
  by (simp add: bucket_index_def)

lemma unat_two_power: "k < 32 \<Longrightarrow> unat ((2::uint) ^ k) = 2 ^ k"
proof -
  assume "k < 32"
  then have "(2::nat) ^ k < 2 ^ 32" by (intro power_strict_increasing) simp_all
  then show ?thesis using unat_of_nat [where ?'a = 32, of "2 ^ k"] by simp
qed

lemma table_size_le: "table_size_ok n \<Longrightarrow> 8 \<le> n"
proof -
  assume "table_size_ok n"
  then obtain k where k: "3 \<le> k" "k \<le> 31" "n = push_bit k 1"
    by (auto simp: table_size_ok_def)
  have "(2::nat) ^ 3 \<le> 2 ^ k"
    by (rule power_increasing) (use k in simp_all)
  then show ?thesis using k by (simp add: word_le_nat_alt unat_two_power)
qed

lemma table_size_pos: "table_size_ok n \<Longrightarrow> n - 1 \<noteq> 0" "table_size_ok n \<Longrightarrow> n \<noteq> 0"
  using table_size_le [of n] by (auto simp: word_le_nat_alt)

lemma bucket_index_less:
  assumes "0 < n"
  shows "bucket_index h (n - 1) < unat n"
proof -
  have "h AND ucast (n - 1) \<le> (ucast (n - 1) :: ulong)" by (rule word_and_le1)
  then have "bucket_index h (n - 1) \<le> unat (ucast (n - 1) :: ulong)"
    by (simp add: bucket_index_def word_le_nat_alt)
  also have "unat (ucast (n - 1) :: ulong) = unat (n - 1)"
  proof -
    have "unat (n - 1) < 2 ^ LENGTH(32)" by (rule unsigned_less)
    then show ?thesis by (simp add: unsigned_ucast_eq take_bit_eq_mod)
  qed
  also have "\<dots> < unat n" using assms by (simp add: unat_minus_one word_gt_0 unat_gt_0)
  finally show ?thesis .
qed

lemma order_ok_index: "order_ok ht ps \<Longrightarrow> bucket_index h (nTableMask ht) < length (arBuckets ht)"
proof -
  assume o: "order_ok ht ps"
  then have "0 < nTableSize ht"
    using table_size_pos(2) by (auto simp: order_ok_def word_gt_0)
  then show ?thesis
    using o bucket_index_less [of "nTableSize ht" h] by (auto simp: order_ok_def split: if_splits)
qed

lemma slot_ok:
  "order_ok ht ps \<Longrightarrow> slot ht (bucket_index h (nTableMask ht)) =
     Some (arBuckets ht ! bucket_index h (nTableMask ht))"
  by (simp add: slot_def order_ok_index)

lemma live_cell: "order_ok ht ps \<Longrightarrow> a \<in> set ps \<Longrightarrow> \<exists>b. cells ht a = Some b"
  by (auto simp: order_ok_def dom_def)

subsection \<open>Lookup\<close>

lemma chain_find_path:
  assumes "path (view pNext m) p xs None"
  shows "chain_find P m p = Some (List.find (\<lambda>a. P (the (m a))) xs)"
  using assms
proof (induction xs arbitrary: p)
  case Nil
  then show ?case by (simp add: chain_find.simps)
next
  case (Cons x xs)
  then have "p = Some x" "\<exists>y. view pNext m x = Some y \<and> path (view pNext m) y xs None" by auto
  moreover from this obtain b where "m x = Some b" "path (view pNext m) (pNext b) xs None"
    unfolding view_apply [of pNext m x] by blast
  ultimately show ?case using Cons.IH by (subst chain_find.simps) simp
qed

lemma find_unique:
  assumes "a \<in> set xs" "P a" "\<And>x. \<lbrakk>x \<in> set xs; P x\<rbrakk> \<Longrightarrow> x = a"
  shows "List.find P xs = Some a"
proof (cases "List.find P xs")
  case None
  then show ?thesis using assms(1,2) by (auto simp: find_None_iff)
next
  case (Some x)
  then have "x \<in> set xs" "P x" by (auto simp: find_Some_iff)
  then show ?thesis using Some assms(3) by simp
qed

lemma find_SomeD: "List.find P xs = Some a \<Longrightarrow> a \<in> set xs \<and> P a"
  by (induction xs) (auto split: if_splits)

definition pos_of :: "'v hashtable \<Rightarrow> addr list \<Rightarrow> hkey \<Rightarrow> addr option" where
  "pos_of ht ps k = List.find (\<lambda>a. view bkey (cells ht) a = Some k) ps"

lemma pos_of_Some:
  assumes "pos_of ht ps k = Some a"
  obtains b where "a \<in> set ps" "cells ht a = Some b" "bkey b = k"
  using find_SomeD [OF assms [unfolded pos_of_def]] by (auto simp: view_apply)

lemma keys_unique:
  assumes "order_ok ht ps" "a \<in> set ps" "a' \<in> set ps"
    and "view bkey (cells ht) a = view bkey (cells ht) a'"
  shows "a = a'"
  using assms by (auto simp: order_ok_def distinct_map inj_on_def)

lemma pos_of_eq:
  assumes "order_ok ht ps" "cells ht a = Some b"
  shows "pos_of ht ps (bkey b) = Some a"
proof -
  have a: "a \<in> set ps" using assms by (auto simp: order_ok_def)
  show ?thesis unfolding pos_of_def
    by (rule find_unique [OF a]) (use keys_unique [OF assms(1)] a assms(2) in \<open>auto simp: view_apply\<close>)
qed

lemma pos_of_None: "pos_of ht ps k = None \<longleftrightarrow> k \<notin> fst ` set (entries ht ps)" if "order_ok ht ps"
proof -
  have "pos_of ht ps k = None \<longleftrightarrow> (\<forall>a \<in> set ps. view bkey (cells ht) a \<noteq> Some k)"
    by (auto simp: pos_of_def find_None_iff)
  moreover have "\<exists>b. cells ht a = Some b" if "a \<in> set ps" for a
    using \<open>order_ok ht ps\<close> that by (auto simp: order_ok_def dom_def)
  ultimately show ?thesis
    by (force simp: entries_def view_apply bentry_def)
qed

lemma chain_lookup:
  assumes ok: "hash_ok ht ps"
    and P: "\<And>a b. cells ht a = Some b \<Longrightarrow> P b \<longleftrightarrow> bkey b = k"
    and i: "\<And>a b. \<lbrakk>cells ht a = Some b; bkey b = k\<rbrakk> \<Longrightarrow> bh b = h"
  shows "chain_find P (cells ht) (arBuckets ht ! bucket_index h (nTableMask ht)) =
    Some (pos_of ht ps k)"
proof -
  have o: "order_ok ht ps" and c: "chains_ok (cells ht) (nTableMask ht) (arBuckets ht) (set ps)"
    using ok by (auto simp: hash_ok_def)
  let ?i = "bucket_index h (nTableMask ht)"
  obtain xs where d: "dll pNext pLast (cells ht) (arBuckets ht ! ?i) (last_opt xs) xs"
    and sx: "set xs = {a \<in> set ps. view (bslot (nTableMask ht)) (cells ht) a = Some ?i}"
    using c order_ok_index [OF o] by (rule chains_ok_slot)
  have cf: "chain_find P (cells ht) (arBuckets ht ! ?i) =
      Some (List.find (\<lambda>a. P (the (cells ht a))) xs)"
    using d by (auto simp: dll_def intro: chain_find_path)
  have live: "\<exists>b. cells ht a = Some b" if "a \<in> set ps" for a
    using o that by (auto simp: order_ok_def dom_def)
  have "List.find (\<lambda>a. P (the (cells ht a))) xs = pos_of ht ps k"
  proof (cases "pos_of ht ps k")
    case None
    then have "\<forall>a \<in> set ps. view bkey (cells ht) a \<noteq> Some k"
      by (auto simp: pos_of_def find_None_iff)
    then have "\<forall>a \<in> set xs. \<not> P (the (cells ht a))"
      using sx live P by (auto simp: view_apply)
    then show ?thesis using None by (auto simp: find_None_iff)
  next
    case (Some a)
    then obtain b where a: "a \<in> set ps" "cells ht a = Some b" "bkey b = k" by (rule pos_of_Some)
    have "List.find (\<lambda>a. P (the (cells ht a))) xs = Some a"
    proof (rule find_unique)
      show "a \<in> set xs" using a sx i by (simp add: view_apply bslot_def)
      show "P (the (cells ht a))" using a P by simp
      fix x assume x: "x \<in> set xs" "P (the (cells ht x))"
      then obtain c where "x \<in> set ps" "cells ht x = Some c" using sx live by auto
      then show "x = a"
        using keys_unique [OF o, of x a] x(2) P a by (simp add: view_apply)
    qed
    then show ?thesis using Some by simp
  qed
  then show ?thesis using cf by simp
qed

lemma key_match_iff:
  assumes "bucket_ok a b" "ptr (arKey b) = ptr k \<longrightarrow> bkey b = KStr (bytes k)" "bytes k \<noteq> []"
  shows "key_match k (zend_inline_hash_func (bytes k)) b \<longleftrightarrow> bkey b = KStr (bytes k)"
proof
  assume "key_match k (zend_inline_hash_func (bytes k)) b"
  then show "bkey b = KStr (bytes k)"
    using assms(2,3) by (cases "ptr (arKey b) = ptr k") (simp_all add: key_match_def bkey_def)
next
  assume b: "bkey b = KStr (bytes k)"
  then have n: "nKeyLength b \<noteq> 0" "take (nKeyLength b) (bytes (arKey b)) = bytes k"
    by (auto simp: bkey_def split: if_splits)
  moreover have "nKeyLength b = length (bytes k)"
    using assms(1) n(1) length_take [of "nKeyLength b" "bytes (arKey b)", unfolded n(2)]
    by (simp add: bucket_ok_def)
  ultimately show "key_match k (zend_inline_hash_func (bytes k)) b"
    using assms(1) by (auto simp: key_match_def bucket_ok_def)
qed

lemma index_match_iff: "index_match h b \<longleftrightarrow> bkey b = KInt h"
  by (auto simp: index_match_def bkey_def)

lemma bkey_KStr_hash: "\<lbrakk>bucket_ok a b; bkey b = KStr s\<rbrakk> \<Longrightarrow> bh b = zend_inline_hash_func s"
  by (auto simp: bucket_ok_def bkey_def split: if_splits)

lemma bkey_KInt_hash: "bkey b = KInt h \<Longrightarrow> bh b = h"
  by (auto simp: bkey_def split: if_splits)

lemma hash_ok_bucket: "\<lbrakk>hash_ok ht ps; cells ht a = Some b\<rbrakk> \<Longrightarrow> bucket_ok a b"
  by (auto simp: hash_ok_def order_ok_def)

lemma str_chain_lookup:
  assumes ok: "hash_ok ht ps" and co: "coherent ht k" and "bytes k \<noteq> []"
    and h: "h = zend_inline_hash_func (bytes k)"
  shows "chain_find (key_match k h) (cells ht) (arBuckets ht ! bucket_index h (nTableMask ht)) =
    Some (pos_of ht ps (KStr (bytes k)))"
proof (rule chain_lookup [OF ok])
  fix a b assume ab: "cells ht a = Some b"
  note bo = hash_ok_bucket [OF ok ab]
  show "key_match k h b \<longleftrightarrow> bkey b = KStr (bytes k)"
    unfolding h by (rule key_match_iff [OF bo _ assms(3)]) (use co ab in \<open>auto simp: coherent_def ran_def\<close>)
  assume "bkey b = KStr (bytes k)"
  then show "bh b = h" unfolding h by (rule bkey_KStr_hash [OF bo])
qed

lemma index_chain_lookup:
  assumes ok: "hash_ok ht ps"
  shows "chain_find (index_match h) (cells ht) (arBuckets ht ! bucket_index h (nTableMask ht)) =
    Some (pos_of ht ps (KInt h))"
  by (rule chain_lookup [OF ok]) (simp_all add: index_match_iff bkey_KInt_hash)

text \<open>The data found at a position is what the association list holds under the key.\<close>

definition data_at :: "'v hashtable \<Rightarrow> addr \<Rightarrow> 'v option" where
  "data_at ht a = view pData (cells ht) a"

lemma map_of_entries:
  assumes "order_ok ht ps"
  shows "map_of (entries ht ps) k = Option.bind (pos_of ht ps k) (data_at ht)"
proof -
  have "map_of (map (\<lambda>a. the (view bentry m a)) ps) k =
      Option.bind (List.find (\<lambda>a. view bkey m a = Some k) ps) (view pData m)"
    if "set ps \<subseteq> dom m" for m :: "addr \<rightharpoonup> 'a bucket"
    using that by (induction ps) (auto simp: view_apply bentry_def)
  then show ?thesis
    using assms by (auto simp: entries_def pos_of_def data_at_def [abs_def] order_ok_def)
qed

subsection \<open>What an operation leaves alone\<close>

definition same_control :: "'v hashtable \<Rightarrow> 'v hashtable \<Rightarrow> bool" where
  "same_control ht' ht \<longleftrightarrow> pDestructor ht' = pDestructor ht \<and> persistent ht' = persistent ht \<and>
     nApplyCount ht' = nApplyCount ht \<and> bApplyProtection ht' = bApplyProtection ht \<and>
     grow_ok ht' = grow_ok ht"

lemma same_control_refl [simp]: "same_control ht ht"
  by (simp add: same_control_def)

lemma same_control_trans: "\<lbrakk>same_control a b; same_control b c\<rbrakk> \<Longrightarrow> same_control a c"
  by (simp add: same_control_def)

text \<open>Fields the invariant does not mention.\<close>

lemma hash_ok_irrelevant [simp]:
  "hash_ok (ht\<lparr>nNextFreeElement := n\<rparr>) ps = hash_ok ht ps"
  "hash_ok (ht\<lparr>nApplyCount := c\<rparr>) ps = hash_ok ht ps"
  "hash_ok (ht\<lparr>bApplyProtection := p\<rparr>) ps = hash_ok ht ps"
  "hash_ok (ht\<lparr>dtor_log := l\<rparr>) ps = hash_ok ht ps"
  by (simp_all add: hash_ok_def order_ok_def)

lemma entries_irrelevant [simp]:
  "entries (ht\<lparr>nNextFreeElement := n\<rparr>) ps = entries ht ps"
  "entries (ht\<lparr>nApplyCount := c\<rparr>) ps = entries ht ps"
  "entries (ht\<lparr>bApplyProtection := p\<rparr>) ps = entries ht ps"
  "entries (ht\<lparr>dtor_log := l\<rparr>) ps = entries ht ps"
  by (simp_all add: entries_def)

subsection \<open>Stores that differ in the links only\<close>

lemma order_ok_chain_cong:
  assumes o: "order_ok ht ps" and v: "view no_chain m' = view no_chain (cells ht)"
    and l: "length bks' = length (arBuckets ht)" "nTableMask ht \<noteq> 0"
  shows "order_ok (ht\<lparr>cells := m', arBuckets := bks'\<rparr>) ps"
    and "entries (ht\<lparr>cells := m', arBuckets := bks'\<rparr>) ps = entries ht ps"
proof -
  have "view pListNext m' = view pListNext (cells ht)" "view pListLast m' = view pListLast (cells ht)"
    "view bkey m' = view bkey (cells ht)"
    using v by (rule view_via, simp)+
  moreover have "dom m' = dom (cells ht)" using v by (rule view_eq_dom)
  moreover have "bucket_ok a b" if "m' a = Some b" for a b
    using view_bucket_ok [OF v] o that by (simp add: order_ok_def)
  ultimately show "order_ok (ht\<lparr>cells := m', arBuckets := bks'\<rparr>) ps"
    using o l by (simp add: order_ok_def dll_def)
  have "view bentry m' = view bentry (cells ht)" using v by (rule view_via) simp
  then show "entries (ht\<lparr>cells := m', arBuckets := bks'\<rparr>) ps = entries ht ps"
    by (simp add: entries_def)
qed

subsection \<open>Initialising the slots\<close>

lemma CHECK_INIT_ok:
  assumes "hash_ok ht ps"
  shows "hash_ok (CHECK_INIT ht) ps" and "nTableMask (CHECK_INIT ht) \<noteq> 0"
proof -
  have o: "order_ok ht ps" and c: "chains_ok (cells ht) (nTableMask ht) (arBuckets ht) (set ps)"
    using assms by (auto simp: hash_ok_def)
  have sz: "nTableSize ht - 1 \<noteq> 0" using o table_size_pos by (auto simp: order_ok_def)
  show "nTableMask (CHECK_INIT ht) \<noteq> 0" using sz by (simp add: CHECK_INIT_def)
  show "hash_ok (CHECK_INIT ht) ps"
  proof (cases "nTableMask ht = 0")
    case True
    then have "ps = []" using o by (simp add: order_ok_def)
    then show ?thesis using True o sz chains_ok_empty
      by (auto simp: hash_ok_def order_ok_def CHECK_INIT_def)
  next
    case False
    then show ?thesis using assms by (simp add: CHECK_INIT_def)
  qed
qed

lemma CHECK_INIT_same [simp]:
  "cells (CHECK_INIT ht) = cells ht" "entries (CHECK_INIT ht) ps = entries ht ps"
  "brk (CHECK_INIT ht) = brk ht" "nNextFreeElement (CHECK_INIT ht) = nNextFreeElement ht"
  "dtor_log (CHECK_INIT ht) = dtor_log ht" "same_control (CHECK_INIT ht) ht"
  "pDestructor (CHECK_INIT ht) = pDestructor ht" "pos_of (CHECK_INIT ht) ps k = pos_of ht ps k"
  "pInternalPointer (CHECK_INIT ht) = pInternalPointer ht"
  "coherent (CHECK_INIT ht) kk = coherent ht kk" "data_at (CHECK_INIT ht) = data_at ht"
  by (simp_all add: CHECK_INIT_def entries_def same_control_def pos_of_def coherent_def
      data_at_def fun_eq_iff)

subsection \<open>Updating in place\<close>

lemma entries_data_update:
  assumes o: "order_ok ht ps" and b: "cells ht p = Some b" "bkey b' = bkey b"
    and "set qs \<subseteq> set ps" "distinct qs" "p \<in> set qs"
  shows "map (\<lambda>a. the (view bentry ((cells ht)(p \<mapsto> b')) a)) qs =
    AList.update (bkey b) (pData b') (map (\<lambda>a. the (view bentry (cells ht) a)) qs)"
  using assms(4-)
proof (induction qs)
  case Nil
  then show ?case by simp
next
  case (Cons q qs)
  have live: "a \<in> set ps \<Longrightarrow> \<exists>c. cells ht a = Some c" for a
    using o by (auto simp: order_ok_def dom_def)
  have p: "p \<in> set ps" using o b by (auto simp: order_ok_def)
  show ?case
  proof (cases "q = p")
    case True
    have "map (\<lambda>a. the (view bentry ((cells ht)(p \<mapsto> b')) a)) qs =
        map (\<lambda>a. the (view bentry (cells ht) a)) qs"
      using Cons.prems True by (intro map_cong) (auto simp: view_apply)
    then show ?thesis using True b Cons.prems(2) by (simp add: view_apply bentry_def)
  next
    case False
    obtain c where c: "cells ht q = Some c" using live Cons.prems(1) by auto
    have "bkey c \<noteq> bkey b"
      using keys_unique [OF o, of q p] False Cons.prems(1) p b(1) c by (auto simp: view_apply)
    then show ?thesis using Cons False c by (simp add: view_apply bentry_def)
  qed
qed

lemma update_in_place_ok:
  assumes ok: "hash_ok ht ps" and b: "cells ht p = Some b"
  obtains ht' where "UPDATE_DATA p d i ht = Some ht'" and "hash_ok ht' ps"
    and "entries ht' ps = AList.update (bkey b) d (entries ht ps)"
    and "same_control ht' ht" "nNextFreeElement ht' = nNextFreeElement ht"
    and "dtor_log ht' = dtor_log ht" "brk ht' = brk ht"
    and "pInternalPointer ht' = pInternalPointer ht"
    and "data_at ht' p = Some d"
proof -
  let ?b = "b\<lparr>pData := d, pInline := i\<rparr>"
  let ?m = "(cells ht)(p \<mapsto> ?b)"
  let ?ht = "ht\<lparr>cells := ?m\<rparr>"
  have o: "order_ok ht ps" and c: "chains_ok (cells ht) (nTableMask ht) (arBuckets ht) (set ps)"
    using ok by (auto simp: hash_ok_def)
  have u: "UPDATE_DATA p d i ht = Some ?ht"
    using b by (simp add: UPDATE_DATA_def poke_eq)
  have same: "view g ?m = view g (cells ht)" if "g ?b = g b" for g :: "'a bucket \<Rightarrow> 'z"
    using that b by (auto simp: view_def)
  have vs: "view pListNext ?m = view pListNext (cells ht)" "view pListLast ?m = view pListLast (cells ht)"
    "view pNext ?m = view pNext (cells ht)" "view pLast ?m = view pLast (cells ht)"
    "view bh ?m = view bh (cells ht)" "view bkey ?m = view bkey (cells ht)"
    by (rule same, simp add: bkey_def)+
  have "bucket_ok a c" if "?m a = Some c" for a c
    using that o b by (auto simp: order_ok_def bucket_ok_def split: if_splits)
  moreover have p: "p \<in> set ps" using o b by (auto simp: order_ok_def)
  moreover have "dom ?m = dom (cells ht)" using vs(1) by (rule view_eq_dom)
  ultimately have "order_ok ?ht ps" using o vs by (simp add: order_ok_def dll_def)
  moreover have "chains_ok ?m (nTableMask ht) (arBuckets ht) (set ps)"
    using c chains_ok_cong [OF vs(3,4,5)] by simp
  ultimately have h: "hash_ok ?ht ps" by (simp add: hash_ok_def)
  have d: "distinct ps" using o by (auto simp: order_ok_def dest: dll_distinct)
  have "entries ?ht ps = AList.update (bkey b) d (entries ht ps)"
    using entries_data_update [OF o b, of ?b ps] p d by (simp add: entries_def bkey_def)
  then show ?thesis
    by (intro that [OF u h]) (simp_all add: same_control_def data_at_def view_apply)
qed

lemma call_dtor_ok:
  "hash_ok (call_dtor d ht) ps = hash_ok ht ps" "entries (call_dtor d ht) ps = entries ht ps"
  "cells (call_dtor d ht) = cells ht" "brk (call_dtor d ht) = brk ht"
  "same_control (call_dtor d ht) ht" "nNextFreeElement (call_dtor d ht) = nNextFreeElement ht"
  "pInternalPointer (call_dtor d ht) = pInternalPointer ht"
  "dtor_log (call_dtor d ht) = dtor_log ht @ (if pDestructor ht then [d] else [])"
  "pListHead (call_dtor d ht) = pListHead ht"
  by (simp_all add: call_dtor_def hash_ok_def order_ok_def entries_def same_control_def)

subsection \<open>Rehashing\<close>

lemma rehash_loop_ok:
  assumes "path (view pListNext m) p vs None" "chains_ok m msk bks A"
    and "set vs \<inter> A = {}" "A \<subseteq> dom m" "\<And>h. bucket_index h msk < length bks"
  shows "\<exists>m' bks'. rehash_loop msk p m bks = Some (m', bks') \<and>
    chains_ok m' msk bks' (A \<union> set vs) \<and> length bks' = length bks \<and>
    view no_chain m' = view no_chain m"
  using assms
proof (induction vs arbitrary: p m bks A)
  case Nil
  then show ?case by (simp add: rehash_loop.simps)
next
  case (Cons v vs)
  from Cons.prems(1) have "p = Some v" "\<exists>y. view pListNext m v = Some y \<and> path (view pListNext m) y vs None"
    by auto
  then obtain b where b: "p = Some v" "m v = Some b" "path (view pListNext m) (pListNext b) vs None"
    unfolding view_apply [of pListNext m v] by blast
  have dv: "v \<notin> set vs" using path_distinct [OF Cons.prems(1)] by simp
  let ?i = "bucket_index (bh b) msk"
  obtain m1 where m1: "CONNECT_TO_BUCKET_DLLIST v (bks ! ?i) m = Some m1"
    and c1: "chains_ok m1 msk (bks[?i := Some v]) (insert v A)"
    by (rule chains_ok_push [OF Cons.prems(2) b(2)])
      (use Cons.prems(3-5) in \<open>auto simp: bslot_def\<close>)
  note fr = CONNECT_chain_frame [OF m1]
  have "view pListNext m1 = view pListNext m" using fr(1) by (rule view_via) simp
  then have "path (view pListNext m1) (pListNext b) vs None" using b(3) by simp
  then obtain m' bks' where "rehash_loop msk (pListNext b) m1 (bks[?i := Some v]) = Some (m', bks')"
    "chains_ok m' msk bks' (insert v A \<union> set vs)" "length bks' = length bks"
    "view no_chain m' = view no_chain m1"
    using Cons.IH [OF _ c1] Cons.prems(3-5) dv fr(2) b(2) by force
  then show ?case
    using b(1,2) m1 Cons.prems(5) fr(1) by (subst rehash_loop.simps) (simp add: Let_def)
qed

definition quiet :: "'v hashtable \<Rightarrow> 'v hashtable \<Rightarrow> bool" where
  "quiet ht' ht \<longleftrightarrow> same_control ht' ht \<and> nNextFreeElement ht' = nNextFreeElement ht \<and>
     dtor_log ht' = dtor_log ht \<and> brk ht' = brk ht \<and> pInternalPointer ht' = pInternalPointer ht \<and>
     view no_chain (cells ht') = view no_chain (cells ht)"

lemma quiet_refl [simp]: "quiet ht ht"
  by (simp add: quiet_def)

lemma quiet_same: "quiet ht' ht \<Longrightarrow> entries ht' ps = entries ht ps"
  "quiet ht' ht \<Longrightarrow> data_at ht' = data_at ht"
  "quiet ht' ht \<Longrightarrow> dom (cells ht') = dom (cells ht)"
proof -
  assume q: "quiet ht' ht"
  then have v: "view no_chain (cells ht') = view no_chain (cells ht)" by (simp add: quiet_def)
  have "view bentry (cells ht') = view bentry (cells ht)" using v by (rule view_via) simp
  then show "entries ht' ps = entries ht ps" by (simp add: entries_def)
  have "view pData (cells ht') = view pData (cells ht)" using v by (rule view_via) simp
  then show "data_at ht' = data_at ht" by (simp add: data_at_def fun_eq_iff)
  show "dom (cells ht') = dom (cells ht)" using v by (rule view_eq_dom)
qed

text \<open>
  Rehashing needs only the global list: whatever the slots held, they come out consistent.
\<close>

lemma zend_hash_rehash_ok:
  assumes o: "order_ok ht ps" and n: "nNumOfElements ht \<noteq> 0" "nTableMask ht \<noteq> 0"
  shows "\<exists>ht'. zend_hash_rehash ht = Some ht' \<and> hash_ok ht' ps \<and> quiet ht' ht \<and>
    nTableMask ht' = nTableMask ht \<and> nTableSize ht' = nTableSize ht"
proof -
  let ?bks = "replicate (unat (nTableSize ht)) (None :: addr option)"
  have lb: "length ?bks = length (arBuckets ht)" using o n by (simp add: order_ok_def)
  have "\<exists>m' bks'. rehash_loop (nTableMask ht) (pListHead ht) (cells ht) ?bks = Some (m', bks') \<and>
      chains_ok m' (nTableMask ht) bks' ({} \<union> set ps) \<and> length bks' = length ?bks \<and>
      view no_chain m' = view no_chain (cells ht)"
  proof (rule rehash_loop_ok)
    show "path (view pListNext (cells ht)) (pListHead ht) ps None"
      using o by (simp add: order_ok_def dll_def)
    show "chains_ok (cells ht) (nTableMask ht) ?bks {}" by (rule chains_ok_empty)
    show "bucket_index h (nTableMask ht) < length ?bks" for h
      unfolding lb using o by (rule order_ok_index)
  qed simp_all
  then obtain m' bks' where r: "rehash_loop (nTableMask ht) (pListHead ht) (cells ht) ?bks = Some (m', bks')"
    and c: "chains_ok m' (nTableMask ht) bks' (set ps)" and l: "length bks' = length (arBuckets ht)"
    and v: "view no_chain m' = view no_chain (cells ht)"
    using lb by auto
  let ?ht = "ht\<lparr>cells := m', arBuckets := bks'\<rparr>"
  have "zend_hash_rehash ht = Some ?ht" using n r by (simp add: zend_hash_rehash_def)
  moreover have "hash_ok ?ht ps"
    using order_ok_chain_cong(1) [OF o v l n(2)] c by (simp add: hash_ok_def)
  moreover have "quiet ?ht ht" using v by (simp add: quiet_def same_control_def)
  ultimately show ?thesis by auto
qed

lemma double_size:
  assumes "table_size_ok n" "push_bit 1 n > 0"
  shows "table_size_ok (push_bit 1 n)"
proof -
  obtain k where k: "3 \<le> k" "k \<le> 31" "n = push_bit k 1"
    using assms(1) by (auto simp: table_size_ok_def)
  have "k \<noteq> 31" using assms(2) k(3) by auto
  then show ?thesis
    using k by (auto simp: table_size_ok_def push_bit_push_bit intro!: exI [of _ "Suc k"])
qed

lemma resize_ok:
  assumes ok: "hash_ok ht ps" and m: "nTableMask ht \<noteq> 0"
  shows "\<exists>ht'. ZEND_HASH_IF_FULL_DO_RESIZE ht = Some ht' \<and> hash_ok ht' ps \<and> quiet ht' ht"
proof (cases "nNumOfElements ht > nTableSize ht \<and> push_bit 1 (nTableSize ht) > 0 \<and>
    (persistent ht \<or> grow_ok ht (unat (push_bit 1 (nTableSize ht))))")
  case False
  then show ?thesis
    using ok by (auto simp: ZEND_HASH_IF_FULL_DO_RESIZE_def zend_hash_do_resize_def Let_def)
next
  case True
  have o: "order_ok ht ps" using ok by (simp add: hash_ok_def)
  let ?size = "push_bit 1 (nTableSize ht)"
  have sz: "table_size_ok ?size" 
    by (rule double_size) (use o True in \<open>simp_all add: order_ok_def\<close>)
  let ?ht = "ht\<lparr>arBuckets := arBuckets ht @ replicate (unat ?size - length (arBuckets ht)) None,
                nTableSize := ?size, nTableMask := ?size - 1\<rparr>"
  have "unat (nTableSize ht) \<le> unat ?size"
  proof -
    obtain k where k: "k \<le> 31" "nTableSize ht = push_bit k 1"
      using o by (auto simp: order_ok_def table_size_ok_def)
    moreover have "k \<noteq> 31" using True k by auto
    ultimately show ?thesis
      using unat_two_power [of k] unat_two_power [of "Suc k"] by (simp add: mult.commute)
  qed
  then have "order_ok ?ht ps"
    using o m sz table_size_pos(1) [OF sz] by (simp add: order_ok_def)
  moreover have "nNumOfElements ?ht \<noteq> 0" using True by auto
  moreover have "nTableMask ?ht \<noteq> 0" using table_size_pos(1) [OF sz] by simp
  ultimately obtain ht' where r: "zend_hash_rehash ?ht = Some ht'" "hash_ok ht' ps" "quiet ht' ?ht"
    using zend_hash_rehash_ok by blast
  then show ?thesis using True
    by (auto simp: ZEND_HASH_IF_FULL_DO_RESIZE_def zend_hash_do_resize_def Let_def quiet_def
        same_control_def)
qed

subsection \<open>Linking a new bucket\<close>

lemma link_new_bucket_ok:
  assumes ok: "hash_ok ht ps" and msk: "nTableMask ht \<noteq> 0"
    and b: "bucket_ok (brk ht) b" "bslot (nTableMask ht) b = i"
    and new: "bkey b \<notin> fst ` set (entries ht ps)"
  shows "\<exists>ht'. link_new_bucket b i ht = Some (brk ht, ht') \<and> hash_ok ht' (ps @ [brk ht]) \<and>
    entries ht' (ps @ [brk ht]) = entries ht ps @ [bentry b] \<and> same_control ht' ht \<and>
    nNextFreeElement ht' = nNextFreeElement ht \<and> dtor_log ht' = dtor_log ht \<and>
    nTableMask ht' = nTableMask ht \<and> data_at ht' (brk ht) = Some (pData b) \<and>
    pInternalPointer ht' =
      (case pInternalPointer ht of None \<Rightarrow> Some (brk ht) | Some x \<Rightarrow> Some x)"
proof -
  have o: "order_ok ht ps" and c: "chains_ok (cells ht) (nTableMask ht) (arBuckets ht) (set ps)"
    using ok by (auto simp: hash_ok_def)
  let ?p = "brk ht"
  let ?m0 = "(cells ht)(?p \<mapsto> b)"
  have p: "?p \<notin> set ps" "cells ht ?p = None"
    using o by (auto simp: order_ok_def domIff)
  have i: "i < length (arBuckets ht)"
    using order_ok_index [OF o] b(2) by (auto simp: bslot_def)
  have c0: "chains_ok ?m0 (nTableMask ht) (arBuckets ht) (set ps)"
    by (rule chains_ok_other [OF c]) (use p(1) in auto)
  obtain m1 where m1: "CONNECT_TO_BUCKET_DLLIST ?p (arBuckets ht ! i) ?m0 = Some m1"
    and c1: "chains_ok m1 (nTableMask ht) ((arBuckets ht)[i := Some ?p]) (insert ?p (set ps))"
    by (rule chains_ok_push [OF c0 _ p(1) _ b(2) i]) (use o in \<open>auto simp: order_ok_def\<close>)
  note fr = CONNECT_chain_frame [OF m1]
  have "view pListNext m1 = view pListNext ?m0" "view pListLast m1 = view pListLast ?m0"
    using fr(1) by (rule view_via, simp)+
  then have d1: "dll pListNext pListLast m1 (pListHead ht) (pListTail ht) ps"
    using o p(1) by (simp add: order_ok_def dll_def)
  obtain b1 where b1: "m1 ?p = Some b1" "no_chain b1 = no_chain b"
    using fun_cong [OF fr(1), of ?p] by (auto simp: view_apply)
  let ?m2 = "m1(?p \<mapsto> b1\<lparr>pListLast := pListTail ht, pListNext := None\<rparr>)"
  have "\<And>x. pListTail ht = Some x \<Longrightarrow> x \<in> dom ?m2"
    using dll_tail [OF d1] dll_dom [OF d1] by (auto dest: last_opt_in)
  then obtain m3 where m3: "poke_opt (pListTail ht) (\<lambda>b. b\<lparr>pListNext := Some ?p\<rparr>) ?m2 = Some m3"
    using poke_opt_exists by blast
  let ?head = "case pListHead ht of None \<Rightarrow> Some ?p | Some x \<Rightarrow> Some x"
  have "dll pListNext pListLast m3 (if ps = [] then Some ?p else pListHead ht) (Some ?p) (ps @ [?p])"
    by (rule global.push_back [OF d1 b1(1) p(1) _ m3]) simp
  moreover have "?head = (if ps = [] then Some ?p else pListHead ht)"
    using dll_head [OF d1] by (auto split: option.splits)
  ultimately have d3: "dll pListNext pListLast m3 ?head (Some ?p) (ps @ [?p])" by simp
  have ng: "view no_global m3 = view no_global m1"
  proof -
    have "view no_global m3 = view no_global ?m2"
      using m3 by (rule poke_opt_view) (simp add: no_global_def)
    also have "\<dots> = (view no_global m1)(?p \<mapsto> no_global b1)"
      by (simp add: no_global_def)
    also have "\<dots> = view no_global m1"
      using b1(1) by (intro fun_upd_idem) (simp add: view_apply)
    finally show ?thesis .
  qed
  have c3: "chains_ok m3 (nTableMask ht) ((arBuckets ht)[i := Some ?p]) (set (ps @ [?p]))"
  proof -
    have "view pNext m3 = view pNext m1" "view pLast m3 = view pLast m1" "view bh m3 = view bh m1"
      using ng by (rule view_via, simp)+
    note same = this
    show ?thesis unfolding chains_ok_cong [OF same] using c1 by simp
  qed
  have via: "view g m3 = (view g (cells ht))(?p \<mapsto> g b)"
    if "\<And>b. g (no_chain b) = g b" "\<And>b. g (no_global b) = g b" for g :: "'a bucket \<Rightarrow> 'z"
    using view_via [OF ng, of g] view_via [OF fr(1), of g] that by simp
  have dom3: "dom m3 = insert ?p (set ps)"
    using view_eq_dom [OF ng] fr(2) o by (simp add: order_ok_def)
  have bo: "bucket_ok a x" if "m3 a = Some x" for a x
  proof (rule view_bucket_ok [OF ng _ _ that])
    have "\<forall>a y. ?m0 a = Some y \<longrightarrow> bucket_ok a y" using b(1) o by (simp add: order_ok_def)
    then have "bucket_ok a y" if "m1 a = Some y" for a y
      by (rule view_bucket_ok [OF fr(1) _ _ that, rotated]) simp
    then show "\<forall>a y. m1 a = Some y \<longrightarrow> bucket_ok a y" by blast
  qed simp
  let ?ht = "ht\<lparr>cells := m3, brk := Suc ?p, pListTail := Some ?p, pListHead := ?head,
    pInternalPointer := (case pInternalPointer ht of None \<Rightarrow> Some ?p | Some x \<Rightarrow> Some x),
    arBuckets := (arBuckets ht)[i := Some ?p], nNumOfElements := nNumOfElements ht + 1\<rparr>"
  have lk: "link_new_bucket b i ht = Some (?p, ?ht)"
    using i m1 m3 b1(1)
    by (simp add: link_new_bucket_def slot_def CONNECT_TO_GLOBAL_DLLIST_def poke_eq Let_def)
  have keys: "distinct (map (view bkey m3) (ps @ [?p]))"
  proof -
    have mp: "map (view bkey m3) ps = map (view bkey (cells ht)) ps"
      using p(1) by (intro map_cong) (auto simp: via)
    have new': "Some (bkey b) \<notin> set (map (view bkey (cells ht)) ps)"
    proof -
      have "pos_of ht ps (bkey b) = None" using pos_of_None [OF o] new by blast
      then show ?thesis by (auto simp: pos_of_def find_None_iff)
    qed
    have last: "view bkey m3 ?p = Some (bkey b)" by (simp add: via)
    have d: "distinct (map (view bkey (cells ht)) ps)" using o by (simp add: order_ok_def)
    show ?thesis
      unfolding map_append mp distinct_append using d new' last by simp
  qed
  have "\<forall>a. pInternalPointer ?ht = Some a \<longrightarrow> a \<in> set (ps @ [?p])"
    using o by (auto simp: order_ok_def split: option.splits)
  moreover have "\<forall>a \<in> set (ps @ [?p]). a < Suc ?p" using o by (auto simp: order_ok_def)
  ultimately have "order_ok ?ht (ps @ [?p])"
    using o msk d3 dom3 bo keys by (simp add: order_ok_def)
  then have "hash_ok ?ht (ps @ [?p])" using c3 by (simp add: hash_ok_def)
  moreover have "entries ?ht (ps @ [?p]) = entries ht ps @ [bentry b]"
    using p(1) by (simp add: entries_def via)
  moreover have "data_at ?ht ?p = Some (pData b)" by (simp add: data_at_def via)
  ultimately show ?thesis using lk by (auto simp: same_control_def)
qed

subsection \<open>Insertion and update\<close>

text \<open>
  \<open>put_done\<close>: the table after a successful write of \<open>d\<close> under \<open>key\<close>. The represented list is
  updated in place, or extended at its end; an overwritten value went through the destructor.
\<close>

definition put_done ::
    "'v hashtable \<Rightarrow> addr list \<Rightarrow> hkey \<Rightarrow> 'v \<Rightarrow> addr option \<Rightarrow> 'v hashtable \<Rightarrow> addr list \<Rightarrow> bool" where
  "put_done ht ps key d dest ht' ps' \<longleftrightarrow>
     hash_ok ht' ps' \<and> entries ht' ps' = AList.update key d (entries ht ps) \<and>
     ps' = (if pos_of ht ps key = None then ps @ [brk ht] else ps) \<and>
     dest = Some (case pos_of ht ps key of None \<Rightarrow> brk ht | Some p \<Rightarrow> p) \<and>
     Option.bind dest (data_at ht') = Some d \<and> same_control ht' ht \<and>
     dtor_log ht' = dtor_log ht @
       (case map_of (entries ht ps) key of Some old \<Rightarrow> if pDestructor ht then [old] else [] | None \<Rightarrow> []) \<and>
     pInternalPointer ht' =
       (if pos_of ht ps key = None \<and> pInternalPointer ht = None then Some (brk ht)
        else pInternalPointer ht)"

lemma order_ok_of: "hash_ok ht ps \<Longrightarrow> order_ok ht ps"
  by (simp add: hash_ok_def)

lemma update_new: "k \<notin> fst ` set kvs \<Longrightarrow> AList.update k v kvs = kvs @ [(k, v)]"
  by (induction kvs) auto

lemma pos_of_map_of_None:
  "order_ok ht ps \<Longrightarrow> pos_of ht ps key = None \<Longrightarrow> map_of (entries ht ps) key = None"
  by (simp add: map_of_entries)

lemma put_existing:
  assumes ok: "hash_ok ht ps" and p: "pos_of ht ps key = Some p"
  obtains b ht' where "cells ht p = Some b"
    and "UPDATE_DATA p d i (call_dtor (pData b) ht) = Some ht'"
    and "put_done ht ps key d (Some p) ht' ps" "nNextFreeElement ht' = nNextFreeElement ht"
proof -
  obtain b where b: "p \<in> set ps" "cells ht p = Some b" "bkey b = key" using p by (rule pos_of_Some)
  let ?ht = "call_dtor (pData b) ht"
  have ok': "hash_ok ?ht ps" and b': "cells ?ht p = Some b" using ok b(2) by (simp_all add: call_dtor_ok)
  obtain ht' where u: "UPDATE_DATA p d i ?ht = Some ht'" "hash_ok ht' ps"
    "entries ht' ps = AList.update (bkey b) d (entries ?ht ps)" "same_control ht' ?ht"
    "nNextFreeElement ht' = nNextFreeElement ?ht" "dtor_log ht' = dtor_log ?ht" "brk ht' = brk ?ht"
    "pInternalPointer ht' = pInternalPointer ?ht" "data_at ht' p = Some d"
    using update_in_place_ok [OF ok' b'] by blast
  have "map_of (entries ht ps) key = Some (pData b)"
    using map_of_entries [OF order_ok_of [OF ok]] p b(2) by (simp add: data_at_def view_apply)
  then have "put_done ht ps key d (Some p) ht' ps"
    using u b(3) p same_control_trans [OF u(4) call_dtor_ok(5)] by (simp add: put_done_def call_dtor_ok)
  moreover have "nNextFreeElement ht' = nNextFreeElement ht" using u(5) by (simp add: call_dtor_ok)
  ultimately show ?thesis using that b(2) u(1) by blast
qed

lemma put_new:
  assumes ok: "hash_ok ht ps" and msk: "nTableMask ht \<noteq> 0"
    and b: "bucket_ok (brk ht) b" "bslot (nTableMask ht) b = i" "pData b = d" "bkey b = key"
    and new: "pos_of ht ps key = None"
  obtains ht1 ht2 where "link_new_bucket b i ht = Some (brk ht, ht1)"
    and "ZEND_HASH_IF_FULL_DO_RESIZE (ht1\<lparr>nNextFreeElement := n\<rparr>) = Some ht2"
    and "put_done ht ps key d (Some (brk ht)) ht2 (ps @ [brk ht])"
    and "nNextFreeElement ht2 = n" "nNextFreeElement ht1 = nNextFreeElement ht"
proof -
  have o: "order_ok ht ps" using ok by (rule order_ok_of)
  have k: "bkey b \<notin> fst ` set (entries ht ps)" using new pos_of_None [OF o] b(4) by simp
  obtain ht1 where l: "link_new_bucket b i ht = Some (brk ht, ht1)" "hash_ok ht1 (ps @ [brk ht])"
    "entries ht1 (ps @ [brk ht]) = entries ht ps @ [bentry b]" "same_control ht1 ht"
    "nNextFreeElement ht1 = nNextFreeElement ht" "dtor_log ht1 = dtor_log ht"
    "nTableMask ht1 = nTableMask ht" "data_at ht1 (brk ht) = Some (pData b)"
    "pInternalPointer ht1 = (case pInternalPointer ht of None \<Rightarrow> Some (brk ht) | Some x \<Rightarrow> Some x)"
    using link_new_bucket_ok [OF ok msk b(1,2) k] by blast
  let ?ht1 = "ht1\<lparr>nNextFreeElement := n\<rparr>"
  have "hash_ok ?ht1 (ps @ [brk ht])" "nTableMask ?ht1 \<noteq> 0"
    using l(2,7) msk by simp_all
  then obtain ht2 where r: "ZEND_HASH_IF_FULL_DO_RESIZE ?ht1 = Some ht2"
    "hash_ok ht2 (ps @ [brk ht])" "quiet ht2 ?ht1"
    using resize_ok by blast
  have e: "entries ht2 (ps @ [brk ht]) = entries ht ps @ [bentry b]"
    unfolding quiet_same(1) [OF r(3)] entries_irrelevant by (rule l(3))
  have sc: "same_control ht2 ht"
    using r(3) l(4) by (auto simp: quiet_def same_control_def)
  have da: "data_at ht2 (brk ht) = Some d"
    using quiet_same(2) [OF r(3)] l(8) b(3) by (simp add: data_at_def)
  have "put_done ht ps key d (Some (brk ht)) ht2 (ps @ [brk ht])"
    using r e sc da l(6,9) k new b(3,4) pos_of_map_of_None [OF o new]
    by (auto simp: put_done_def update_new bentry_def quiet_def split: option.splits)
  moreover have "nNextFreeElement ht2 = n" using r(3) by (simp add: quiet_def)
  ultimately show ?thesis using that l(1,5) r(1) by blast
qed

lemma new_str_bucket_ok:
  "bytes k \<noteq> [] \<Longrightarrow> bucket_ok a (new_str_bucket a k (zend_inline_hash_func (bytes k)) d i)"
  "bytes k \<noteq> [] \<Longrightarrow> bkey (new_str_bucket a k h d i) = KStr (bytes k)"
  "bslot msk (new_str_bucket a k h d i) = bucket_index h msk"
  "pData (new_str_bucket a k h d i) = d"
  by (cases "ptr k"; simp add: new_str_bucket_def bucket_ok_def bkey_def bslot_def)+

lemma new_index_bucket_ok:
  "bucket_ok a (new_index_bucket h d i)" "bkey (new_index_bucket h d i) = KInt h"
  "bslot msk (new_index_bucket h d i) = bucket_index h msk" "pData (new_index_bucket h d i) = d"
  by (simp_all add: new_index_bucket_def bucket_ok_def bkey_def bslot_def)

lemma put_str_ok:
  assumes ok: "hash_ok ht ps" and msk: "nTableMask ht \<noteq> 0" and co: "coherent ht k"
    and k: "bytes k \<noteq> []" and h: "h = zend_inline_hash_func (bytes k)"
  shows "if flag = HASH_ADD \<and> pos_of ht ps (KStr (bytes k)) \<noteq> None
    then put_str ht k h d i flag = Some (FAILURE, None, ht)
    else \<exists>dest ht' ps'. put_str ht k h d i flag = Some (SUCCESS, dest, ht') \<and>
      put_done ht ps (KStr (bytes k)) d dest ht' ps' \<and> nNextFreeElement ht' = nNextFreeElement ht"
proof -
  note [simp] = slot_ok [OF order_ok_of [OF ok]] str_chain_lookup [OF ok co k h] Let_def
  show ?thesis
  proof (cases "pos_of ht ps (KStr (bytes k))")
    case (Some p)
    obtain b ht' where "cells ht p = Some b"
      and "UPDATE_DATA p d i (call_dtor (pData b) ht) = Some ht'"
      and "put_done ht ps (KStr (bytes k)) d (Some p) ht' ps" "nNextFreeElement ht' = nNextFreeElement ht"
      using ok Some by (rule put_existing)
    then show ?thesis using Some by (auto simp: put_str_def)
  next
    case None
    let ?b = "new_str_bucket (brk ht) k h d i"
    obtain ht1 ht2 where l: "link_new_bucket ?b (bucket_index h (nTableMask ht)) ht = Some (brk ht, ht1)"
      and r: "ZEND_HASH_IF_FULL_DO_RESIZE (ht1\<lparr>nNextFreeElement := nNextFreeElement ht\<rparr>) = Some ht2"
      and p: "put_done ht ps (KStr (bytes k)) d (Some (brk ht)) ht2 (ps @ [brk ht])"
      and n: "nNextFreeElement ht2 = nNextFreeElement ht" "nNextFreeElement ht1 = nNextFreeElement ht"
      by (rule put_new [OF ok msk _ _ _ _ None, where b = ?b and i = "bucket_index h (nTableMask ht)"
            and n = "nNextFreeElement ht" and d = d])
        (simp_all add: new_str_bucket_ok k h)
    have "ht1\<lparr>nNextFreeElement := nNextFreeElement ht\<rparr> = ht1" using n(2) by simp
    then show ?thesis using None l r p n(1) by (auto simp: put_str_def)
  qed
qed

definition next_free :: "ulong \<Rightarrow> ulong \<Rightarrow> ulong" where
  "next_free n h = (if n \<le>s h then if h < 0x7FFFFFFFFFFFFFFF then h + 1 else 0x7FFFFFFFFFFFFFFF else n)"

lemma index_update_ok:
  assumes ok: "hash_ok ht0 ps"
    and h: "h = (if flag = HASH_NEXT_INSERT then nNextFreeElement ht0 else h0)"
  shows "if (flag = HASH_ADD \<or> flag = HASH_NEXT_INSERT) \<and> pos_of ht0 ps (KInt h) \<noteq> None
    then zend_hash_index_update_or_next_insert ht0 h0 d i flag = Some (FAILURE, None, CHECK_INIT ht0)
    else \<exists>dest ht' ps'. zend_hash_index_update_or_next_insert ht0 h0 d i flag = Some (SUCCESS, dest, ht') \<and>
      put_done (CHECK_INIT ht0) ps (KInt h) d dest ht' ps' \<and>
      nNextFreeElement ht' = next_free (nNextFreeElement ht0) h"
proof -
  define ht where "ht = CHECK_INIT ht0"
  have ok': "hash_ok ht ps" and msk: "nTableMask ht \<noteq> 0"
    using CHECK_INIT_ok [OF ok] by (simp_all add: ht_def)
  have n0: "nNextFreeElement ht = nNextFreeElement ht0" and pos: "pos_of ht0 ps = pos_of ht ps"
    by (simp_all add: ht_def fun_eq_iff)
  let ?n = "next_free (nNextFreeElement ht0) h"
  let ?i = "bucket_index h (nTableMask ht)"
  have hh: "(if flag = HASH_NEXT_INSERT then nNextFreeElement ht else h0) = h" using h n0 by simp
  have nf: "(if nNextFreeElement ht \<le>s h then if h < 0x7FFFFFFFFFFFFFFF then h + 1
      else 0x7FFFFFFFFFFFFFFF else nNextFreeElement ht) = ?n"
    by (simp only: next_free_def n0)
  have def: "zend_hash_index_update_or_next_insert ht0 h0 d i flag =
    (case pos_of ht ps (KInt h) of
        Some p \<Rightarrow>
          if flag = HASH_NEXT_INSERT \<or> flag = HASH_ADD then Some (FAILURE, None, ht)
          else do {
            b \<leftarrow> cells ht p;
            ht' \<leftarrow> UPDATE_DATA p d i (call_dtor (pData b) ht);
            Some (SUCCESS, Some p, ht'\<lparr>nNextFreeElement := ?n\<rparr>) }
      | None \<Rightarrow> do {
          (p, ht1) \<leftarrow> link_new_bucket (new_index_bucket h d i) ?i ht;
          ht2 \<leftarrow> ZEND_HASH_IF_FULL_DO_RESIZE (ht1\<lparr>nNextFreeElement := ?n\<rparr>);
          Some (SUCCESS, Some p, ht2) })"
    unfolding zend_hash_index_update_or_next_insert_def Let_def ht_def [symmetric] hh nf
      slot_ok [OF order_ok_of [OF ok']] bind.bind_lunit index_chain_lookup [OF ok'] ..
  show ?thesis
  proof (cases "pos_of ht ps (KInt h)")
    case (Some p)
    then obtain b ht' where u: "cells ht p = Some b"
      "UPDATE_DATA p d i (call_dtor (pData b) ht) = Some ht'"
      "put_done ht ps (KInt h) d (Some p) ht' ps"
      using put_existing [OF ok'] by metis
    have "put_done ht ps (KInt h) d (Some p) (ht'\<lparr>nNextFreeElement := ?n\<rparr>) ps"
      using u(3) Some by (simp add: put_done_def data_at_def same_control_def)
    then show ?thesis unfolding def pos ht_def [symmetric] using Some u by auto
  next
    case None
    let ?b = "new_index_bucket h d i"
    obtain ht1 ht2 where "link_new_bucket ?b ?i ht = Some (brk ht, ht1)"
      and "ZEND_HASH_IF_FULL_DO_RESIZE (ht1\<lparr>nNextFreeElement := ?n\<rparr>) = Some ht2"
      and "put_done ht ps (KInt h) d (Some (brk ht)) ht2 (ps @ [brk ht])"
      and "nNextFreeElement ht2 = ?n"
      by (rule put_new [OF ok' msk _ _ _ _ None, where b = ?b and i = ?i and n = ?n and d = d])
        (simp_all add: new_index_bucket_ok)
    then show ?thesis unfolding def pos ht_def [symmetric] using None by auto
  qed
qed

end
