(* ===== verification/ZendHashDelete.thy ===== *)
theory ZendHashDelete
  imports ZendHashOps
begin

text \<open>
  Deletion from the hash table: taking one bucket out of its chain and of the global list, as
  \<open>zend_hash_del_key_or_index\<close> and \<open>zend_hash_apply_deleter\<close> do it.
\<close>

text \<open>
  \<open>del_done\<close>: the table after bucket \<open>p\<close>, between \<open>us\<close> and \<open>vs\<close> in the order, is gone. Its data
  went through the destructor, and an internal pointer that stood on it moved to the next element.
\<close>

definition del_done :: "'v hashtable \<Rightarrow> addr list \<Rightarrow> addr \<Rightarrow> addr list \<Rightarrow> 'v hashtable \<Rightarrow> bool" where
  "del_done ht us p vs ht' \<longleftrightarrow>
     hash_ok ht' (us @ vs) \<and> entries ht' us = entries ht us \<and> entries ht' vs = entries ht vs \<and>
     same_control ht' ht \<and> nNextFreeElement ht' = nNextFreeElement ht \<and>
     nTableMask ht' = nTableMask ht \<and>
     dtor_log ht' = dtor_log ht @
       (if pDestructor ht then [snd (the (view bentry (cells ht) p))] else []) \<and>
     pInternalPointer ht' =
       (if pInternalPointer ht = Some p then head_opt vs else pInternalPointer ht) \<and>
     brk ht' = brk ht \<and> cells ht' p = None"

lemma entries_append: "entries ht (us @ vs) = entries ht us @ entries ht vs"
  by (simp add: entries_def)

lemma unlink_bucket_ok:
  assumes ok: "hash_ok ht (us @ p # vs)" and b: "cells ht p = Some b"
  obtains m1 m2 ht1 where
    "poke_opt (pLast b) (\<lambda>c. c\<lparr>pNext := pNext b\<rparr>) (cells ht) = Some m1"
    "poke_opt (pNext b) (\<lambda>c. c\<lparr>pLast := pLast b\<rparr>) m1 = Some m2"
    "unlink_global p b (ht\<lparr>cells := m2, arBuckets :=
       (if pLast b = None then (arBuckets ht)[bucket_index (bh b) (nTableMask ht) := pNext b]
        else arBuckets ht)\<rparr>) = Some ht1"
    "arBuckets ht ! bucket_index (bh b) (nTableMask ht) = Some p \<longleftrightarrow> pLast b = None"
    "pListNext b = head_opt vs"
    "del_done ht us p vs (free_bucket p b (ht1\<lparr>nNumOfElements := nNumOfElements ht1 - 1\<rparr>))"
proof -
  let ?ps = "us @ p # vs"
  let ?i = "bucket_index (bh b) (nTableMask ht)"
  have o: "order_ok ht ?ps" and c: "chains_ok (cells ht) (nTableMask ht) (arBuckets ht) (set ?ps)"
    using ok by (auto simp: hash_ok_def)
  have msk: "nTableMask ht \<noteq> 0" using o by (auto simp: order_ok_def)
  have dist: "distinct ?ps" using o by (auto simp: order_ok_def dest: dll_distinct)
  obtain m1 m2 where m1: "poke_opt (pLast b) (\<lambda>c. c\<lparr>pNext := pNext b\<rparr>) (cells ht) = Some m1"
    and m2: "poke_opt (pNext b) (\<lambda>c. c\<lparr>pLast := pLast b\<rparr>) m1 = Some m2"
    and c2: "chains_ok m2 (nTableMask ht)
      (if pLast b = None then (arBuckets ht)[?i := pNext b] else arBuckets ht) (set ?ps - {p})"
    and hd: "arBuckets ht ! ?i = Some p \<longleftrightarrow> pLast b = None"
    and keep: "m2 p = Some b" and nc: "view no_chain m2 = view no_chain (cells ht)"
    by (rule chains_ok_unlink [OF c b _ _ order_ok_index [OF o]]) (auto simp: bslot_def)
  have "view pListNext m2 = view pListNext (cells ht)" "view pListLast m2 = view pListLast (cells ht)"
    using nc by (rule view_via, simp)+
  then have d2: "dll pListNext pListLast m2 (pListHead ht) (pListTail ht) ?ps"
    using o by (simp add: order_ok_def dll_def)
  have nx: "pListNext b = head_opt vs" and pv: "pListLast b = last_opt us"
    using d2 keep by (rule dll_next, rule dll_prev)
  obtain m3 m4 where m3: "poke_opt (pListLast b) (\<lambda>c. c\<lparr>pListNext := pListNext b\<rparr>) m2 = Some m3"
    and m4: "poke_opt (pListNext b) (\<lambda>c. c\<lparr>pListLast := pListLast b\<rparr>) m3 = Some m4"
    using global.unlink_defined [OF d2 keep] by blast
  have d4: "dll pListNext pListLast m4 (if us = [] then pListNext b else pListHead ht)
      (if vs = [] then pListLast b else pListTail ht) (us @ vs)"
    by (rule global.unlink [OF d2 keep m3 m4])
  have ng: "view no_global m4 = view no_global m2"
    using poke_opt_view [OF m4, of no_global] poke_opt_view [OF m3, of no_global]
    by (simp add: no_global_def)
  have via: "view g m4 = view g (cells ht)"
    if "\<And>b. g (no_chain b) = g b" "\<And>b. g (no_global b) = g b" for g :: "'a bucket \<Rightarrow> 'z"
    using view_via [OF ng, of g] view_via [OF nc, of g] that by simp
  let ?bks = "if pLast b = None then (arBuckets ht)[?i := pNext b] else arBuckets ht"
  let ?ht1 = "ht\<lparr>cells := m4, arBuckets := ?bks,
    pListHead := (if pListLast b = None then pListNext b else pListHead ht),
    pListTail := (if pListNext b = None then pListLast b else pListTail ht),
    pInternalPointer := (if pInternalPointer ht = Some p then pListNext b else pInternalPointer ht)\<rparr>"
  have u: "unlink_global p b (ht\<lparr>cells := m2, arBuckets := ?bks\<rparr>) = Some ?ht1"
    using m3 m4 by (simp add: unlink_global_def)
  let ?m5 = "m4(p := None)"
  let ?ht2 = "free_bucket p b (?ht1\<lparr>nNumOfElements := nNumOfElements ?ht1 - 1\<rparr>)"
  have cells2: "cells ?ht2 = ?m5" by (simp add: free_bucket_def call_dtor_def Let_def)
  have c5: "chains_ok ?m5 (nTableMask ht) ?bks (set (us @ vs))"
  proof -
    have "view pNext m4 = view pNext m2" "view pLast m4 = view pLast m2" "view bh m4 = view bh m2"
      using ng by (rule view_via, simp)+
    note same = this
    have "chains_ok m4 (nTableMask ht) ?bks (set (us @ vs))"
      unfolding chains_ok_cong [OF same] using c2 dist by (simp add: insert_Diff_if)
    then show ?thesis by (rule chains_ok_other) (use dist in auto)
  qed
  have d5: "dll pListNext pListLast ?m5 (if us = [] then pListNext b else pListHead ht)
      (if vs = [] then pListLast b else pListTail ht) (us @ vs)"
    by (subst dll_cong_on [where m = m4]) (use dist d4 in auto)
  have dom5: "dom ?m5 = set (us @ vs)"
    using view_eq_dom [OF ng] view_eq_dom [OF nc] o dist by (auto simp: order_ok_def)
  have bo: "bucket_ok a x" if "?m5 a = Some x" for a x
  proof -
    have x: "m4 a = Some x" using that by (simp split: if_splits)
    have "\<forall>a y. cells ht a = Some y \<longrightarrow> bucket_ok a y" using o by (simp add: order_ok_def)
    then have "bucket_ok a y" if "m2 a = Some y" for a y
      by (rule view_bucket_ok [OF nc _ _ that, rotated]) simp
    then have "\<forall>a y. m2 a = Some y \<longrightarrow> bucket_ok a y" by blast
    then show ?thesis by (rule view_bucket_ok [OF ng _ _ x, rotated]) simp
  qed
  have mp: "map (view g ?m5) qs = map (view g (cells ht)) qs"
    if "\<And>b. g (no_chain b) = g b" "\<And>b. g (no_global b) = g b" "p \<notin> set qs"
    for g :: "'a bucket \<Rightarrow> 'z" and qs
    using that via [of g] by (intro map_cong) auto
  have keys: "distinct (map (view bkey ?m5) (us @ vs))"
    unfolding mp [of bkey "us @ vs"] using o dist
    by (subst mp) (auto simp: order_ok_def)
  have "order_ok ?ht2 (us @ vs)"
  proof -
    have "pInternalPointer ?ht2 = Some a \<longrightarrow> a \<in> set (us @ vs)" for a
      using o nx by (auto simp: free_bucket_def call_dtor_def Let_def order_ok_def dest: head_opt_in)
    moreover have "\<forall>a \<in> set (us @ vs). a < brk ht" using o by (simp add: order_ok_def)
    moreover have "length ?bks = length (arBuckets ht)" by simp
    ultimately show ?thesis
      using o msk d5 dom5 bo keys nx pv unfolding order_ok_def cells2
      by (simp add: free_bucket_def call_dtor_def Let_def)
  qed
  then have h: "hash_ok ?ht2 (us @ vs)"
    using c5 unfolding hash_ok_def cells2 by (simp add: free_bucket_def call_dtor_def Let_def)
  have ent: "entries ?ht2 qs = entries ht qs" if "p \<notin> set qs" for qs
    unfolding entries_def cells2 using mp [of bentry qs] that by (auto simp: map_eq_conv)
  have "del_done ht us p vs ?ht2"
    using h ent [of us] ent [of vs] dist b nx cells2 unfolding del_done_def
    by (simp add: free_bucket_def call_dtor_def Let_def same_control_def view_apply bentry_def)
  with m1 m2 u hd nx show ?thesis by (rule that)
qed

lemma del_match_iff:
  assumes "bucket_ok a b"
  shows "key \<noteq> [] \<Longrightarrow> del_match key (zend_inline_hash_func key) b \<longleftrightarrow> bkey b = KStr key"
    and "del_match [] h b \<longleftrightarrow> bkey b = KInt h"
proof -
  show "del_match [] h b \<longleftrightarrow> bkey b = KInt h"
    by (auto simp: del_match_def bkey_def)
  assume key: "key \<noteq> []"
  show "del_match key (zend_inline_hash_func key) b \<longleftrightarrow> bkey b = KStr key"
  proof
    assume "del_match key (zend_inline_hash_func key) b"
    then show "bkey b = KStr key" using key by (auto simp: del_match_def bkey_def)
  next
    assume b: "bkey b = KStr key"
    then have n: "nKeyLength b \<noteq> 0" "take (nKeyLength b) (bytes (arKey b)) = key"
      by (auto simp: bkey_def split: if_splits)
    moreover have "nKeyLength b = length key"
      using assms n(1) length_take [of "nKeyLength b" "bytes (arKey b)", unfolded n(2)]
      by (simp add: bucket_ok_def)
    ultimately show "del_match key (zend_inline_hash_func key) b"
      using assms by (auto simp: del_match_def bucket_ok_def)
  qed
qed

lemma pos_of_split:
  assumes "pos_of ht ps k = Some p"
  obtains us vs where "ps = us @ p # vs"
  using assms by (rule pos_of_Some) (use that in \<open>auto simp: in_set_conv_decomp\<close>)

lemma apply_deleter_ok:
  assumes ok: "hash_ok ht (us @ p # vs)"
  obtains ht' where "zend_hash_apply_deleter ht p = Some (head_opt vs, ht')"
    and "del_done ht us p vs ht'"
proof -
  obtain b where b: "cells ht p = Some b"
    using live_cell [OF order_ok_of [OF ok], of p] by auto
  obtain m1 m2 ht1 where u:
    "poke_opt (pLast b) (\<lambda>c. c\<lparr>pNext := pNext b\<rparr>) (cells ht) = Some m1"
    "poke_opt (pNext b) (\<lambda>c. c\<lparr>pLast := pLast b\<rparr>) m1 = Some m2"
    "unlink_global p b (ht\<lparr>cells := m2, arBuckets :=
       (if pLast b = None then (arBuckets ht)[bucket_index (bh b) (nTableMask ht) := pNext b]
        else arBuckets ht)\<rparr>) = Some ht1"
    "pListNext b = head_opt vs"
    "del_done ht us p vs (free_bucket p b (ht1\<lparr>nNumOfElements := nNumOfElements ht1 - 1\<rparr>))"
    using unlink_bucket_ok [OF ok b] by metis
  have "zend_hash_apply_deleter ht p =
      Some (head_opt vs, free_bucket p b (ht1\<lparr>nNumOfElements := nNumOfElements ht1 - 1\<rparr>))"
    using b u(1-4) slot_ok [OF order_ok_of [OF ok]]
    by (cases "pLast b") (simp_all add: zend_hash_apply_deleter_def Let_def)
  then show ?thesis using u(5) by (rule that)
qed

lemma free_bucket_count:
  "(free_bucket p b ht)\<lparr>nNumOfElements := nNumOfElements (free_bucket p b ht) - 1\<rparr> =
    free_bucket p b (ht\<lparr>nNumOfElements := nNumOfElements ht - 1\<rparr>)"
  by (simp add: free_bucket_def call_dtor_def Let_def)

lemma del_key_or_index_ok:
  assumes ok: "hash_ok ht ps"
    and k: "key \<noteq> [] \<and> (flag = HASH_DEL_KEY \<or> h0 = zend_inline_hash_func key) \<and> k = KStr key \<or>
      key = [] \<and> flag \<noteq> HASH_DEL_KEY \<and> k = KInt h0"
  shows "case pos_of ht ps k of
      None \<Rightarrow> zend_hash_del_key_or_index ht key h0 flag = Some (FAILURE, ht)
    | Some p \<Rightarrow> \<exists>us vs ht'. ps = us @ p # vs \<and>
        zend_hash_del_key_or_index ht key h0 flag = Some (SUCCESS, ht') \<and> del_done ht us p vs ht'"
proof -
  define h where "h = (if flag = HASH_DEL_KEY then zend_inline_hash_func key else h0)"
  note sl = slot_ok [OF order_ok_of [OF ok]]
  have cf: "chain_find (del_match key h) (cells ht) (arBuckets ht ! bucket_index h (nTableMask ht)) =
      Some (pos_of ht ps k)"
  proof (rule chain_lookup [OF ok])
    fix a b assume ab: "cells ht a = Some b"
    note bo = hash_ok_bucket [OF ok ab]
    show "del_match key h b \<longleftrightarrow> bkey b = k"
      using k del_match_iff [OF bo] by (auto simp: h_def split: if_splits)
    assume "bkey b = k"
    then show "bh b = h"
      using k bkey_KStr_hash [OF bo] bkey_KInt_hash [of b] by (auto simp: h_def)
  qed
  show ?thesis
  proof (cases "pos_of ht ps k")
    case None
    then show ?thesis using cf sl
      by (simp add: zend_hash_del_key_or_index_def Let_def h_def [symmetric])
  next
    case (Some p)
    obtain b where b: "cells ht p = Some b" "bkey b = k" using Some by (rule pos_of_Some)
    have bh: "bh b = h"
      using k bkey_KStr_hash [OF hash_ok_bucket [OF ok b(1)]] bkey_KInt_hash [of b] b(2)
      by (auto simp: h_def)
    obtain us vs where uv: "ps = us @ p # vs" using Some by (rule pos_of_split)
    obtain m1 m2 ht1 where u:
      "poke_opt (pLast b) (\<lambda>c. c\<lparr>pNext := pNext b\<rparr>) (cells ht) = Some m1"
      "poke_opt (pNext b) (\<lambda>c. c\<lparr>pLast := pLast b\<rparr>) m1 = Some m2"
      "unlink_global p b (ht\<lparr>cells := m2, arBuckets :=
         (if pLast b = None then (arBuckets ht)[bucket_index (bh b) (nTableMask ht) := pNext b]
          else arBuckets ht)\<rparr>) = Some ht1"
      "arBuckets ht ! bucket_index (bh b) (nTableMask ht) = Some p \<longleftrightarrow> pLast b = None"
      "del_done ht us p vs (free_bucket p b (ht1\<lparr>nNumOfElements := nNumOfElements ht1 - 1\<rparr>))"
      using unlink_bucket_ok [OF ok [unfolded uv] b(1)] by metis
    have "zend_hash_del_key_or_index ht key h0 flag =
        Some (SUCCESS, free_bucket p b (ht1\<lparr>nNumOfElements := nNumOfElements ht1 - 1\<rparr>))"
      using cf sl [of h] Some b u(1-4) bh
      by (cases "pLast b")
        (simp_all add: zend_hash_del_key_or_index_def Let_def h_def [symmetric] free_bucket_count)
    then show ?thesis using Some u(5) uv by auto
  qed
qed

text \<open>On the represented list a deletion is the deletion of the key.\<close>

lemma del_done_entries:
  assumes o: "order_ok ht (us @ p # vs)" and b: "cells ht p = Some b"
    and d: "del_done ht us p vs ht'"
  shows "entries ht' (us @ vs) = AList.delete (bkey b) (entries ht (us @ p # vs))"
proof -
  have other: "fst e \<noteq> bkey b" if mem: "e \<in> set (entries ht qs)" "set qs \<subseteq> set us \<union> set vs" for e qs
  proof -
    obtain a where a: "a \<in> set us \<union> set vs" "e = the (view bentry (cells ht) a)"
      using mem by (auto simp: entries_def)
    obtain c where c: "cells ht a = Some c" using live_cell [OF o, of a] a(1) by auto
    have "distinct (us @ p # vs)" using o by (auto simp: order_ok_def dest: dll_distinct)
    then have "a \<noteq> p" using a(1) by auto
    then show ?thesis using keys_unique [OF o, of a p] a b c by (auto simp: view_apply bentry_def)
  qed
  have "AList.delete (bkey b) (entries ht qs) = entries ht qs" if "set qs \<subseteq> set us \<union> set vs" for qs
    by (auto simp: AList.delete_eq filter_id_conv dest: other [OF _ that])
  then show ?thesis
    using d b by (simp add: del_done_def entries_append AList.delete_eq)
      (simp add: entries_def view_apply bentry_def)
qed

end
