(* ===== verification/ZendHashBulk.thy ===== *)
theory ZendHashBulk
  imports ZendHash
begin

text \<open>
  The operations of Zend/zend_hash.c that walk a whole table: internal pointer and traversal,
  apply with its deletions, the four ways of destroying a table, copy and merge, sort, compare,
  minimum and maximum, and the change of the current key.

  A callback of the C code is a function parameter. One that receives a data pointer may change
  the data, so \<open>apply_func\<close> returns its result bits, the new data and its own state. Callbacks
  do not change the table's structure; copies and merges are between two different tables.
\<close>

subsection \<open>Recursion protection\<close>

definition HASH_PROTECT_RECURSION :: "'v hashtable \<Rightarrow> 'v hashtable guarded" where
  "HASH_PROTECT_RECURSION ht =
     (if bApplyProtection ht
      then if nApplyCount ht \<ge> 3 then Bailout
           else Returned (ht\<lparr>nApplyCount := nApplyCount ht + 1\<rparr>)
      else Returned ht)"

definition HASH_UNPROTECT_RECURSION :: "'v hashtable \<Rightarrow> 'v hashtable" where
  "HASH_UNPROTECT_RECURSION ht =
     (if bApplyProtection ht then ht\<lparr>nApplyCount := nApplyCount ht - 1\<rparr> else ht)"

definition run_protected ::
    "('v hashtable \<Rightarrow> ('s \<times> 'v hashtable) option) \<Rightarrow> 'v hashtable \<Rightarrow> ('s \<times> 'v hashtable) guarded option" where
  "run_protected body ht =
     (case HASH_PROTECT_RECURSION ht of
        Bailout \<Rightarrow> Some Bailout
      | Returned ht1 \<Rightarrow>
          map_option (\<lambda>(s, ht2). Returned (s, HASH_UNPROTECT_RECURSION ht2)) (body ht1))"

subsection \<open>Destruction\<close>

partial_function (option) destroy_loop :: "addr option \<Rightarrow> 'v hashtable \<Rightarrow> 'v hashtable option" where
  "destroy_loop p ht =
     (case p of None \<Rightarrow> Some ht
      | Some q \<Rightarrow> (case cells ht q of None \<Rightarrow> None
          | Some b \<Rightarrow> destroy_loop (pListNext b) (free_bucket q b ht)))"

definition free_slots :: "'v hashtable \<Rightarrow> 'v hashtable" where
  "free_slots ht = (if nTableMask ht \<noteq> 0 then ht\<lparr>arBuckets := []\<rparr> else ht)"

definition zend_hash_destroy :: "'v hashtable \<Rightarrow> 'v hashtable option" where
  "zend_hash_destroy ht = map_option free_slots (destroy_loop (pListHead ht) ht)"

definition zend_hash_clean :: "'v hashtable \<Rightarrow> 'v hashtable option" where
  "zend_hash_clean ht =
     destroy_loop (pListHead ht)
       (ht\<lparr>arBuckets := (if nTableMask ht \<noteq> 0 then replicate (unat (nTableSize ht)) None
                        else arBuckets ht),
           pListHead := None, pListTail := None, nNumOfElements := 0,
           nNextFreeElement := 0, pInternalPointer := None\<rparr>)"

partial_function (option) graceful_loop :: "addr option \<Rightarrow> 'v hashtable \<Rightarrow> 'v hashtable option" where
  "graceful_loop p ht =
     (case p of None \<Rightarrow> Some ht
      | Some q \<Rightarrow> Option.bind (zend_hash_apply_deleter ht q) (\<lambda>r. graceful_loop (fst r) (snd r)))"

definition zend_hash_graceful_destroy :: "'v hashtable \<Rightarrow> 'v hashtable option" where
  "zend_hash_graceful_destroy ht = map_option free_slots (graceful_loop (pListHead ht) ht)"

partial_function (option) graceful_reverse_loop :: "'v hashtable \<Rightarrow> 'v hashtable option" where
  "graceful_reverse_loop ht =
     (case pListTail ht of None \<Rightarrow> Some ht
      | Some q \<Rightarrow> Option.bind (zend_hash_apply_deleter ht q) (\<lambda>r. graceful_reverse_loop (snd r)))"

definition zend_hash_graceful_reverse_destroy :: "'v hashtable \<Rightarrow> 'v hashtable option" where
  "zend_hash_graceful_reverse_destroy ht = map_option free_slots (graceful_reverse_loop ht)"

subsection \<open>Apply\<close>

definition ZEND_HASH_APPLY_REMOVE :: uint where "ZEND_HASH_APPLY_REMOVE = 1"
definition ZEND_HASH_APPLY_STOP :: uint where "ZEND_HASH_APPLY_STOP = 2"

definition call_apply ::
    "('s \<Rightarrow> 'v bucket \<Rightarrow> uint \<times> 'v \<times> 's) \<Rightarrow> 's \<Rightarrow> addr \<Rightarrow> 'v bucket \<Rightarrow> 'v hashtable \<Rightarrow>
      uint \<times> 's \<times> 'v hashtable" where
  "call_apply f s p b ht = (case f s b of (result, d, s') \<Rightarrow>
     (result, s', ht\<lparr>cells := (cells ht)(p \<mapsto> b\<lparr>pData := d\<rparr>)\<rparr>))"

text \<open>One round of the loop: the callback, then the deletion it asked for.\<close>

definition apply_step ::
    "('s \<Rightarrow> 'v bucket \<Rightarrow> uint \<times> 'v \<times> 's) \<Rightarrow> 's \<Rightarrow> addr \<Rightarrow> 'v hashtable \<Rightarrow>
      (uint \<times> 's \<times> addr option \<times> 'v hashtable) option" where
  "apply_step f s p ht = do {
     b \<leftarrow> cells ht p;
     let (result, s', ht1) = call_apply f s p b ht;
     (next, ht2) \<leftarrow> (if result AND ZEND_HASH_APPLY_REMOVE \<noteq> 0 then zend_hash_apply_deleter ht1 p
                     else Some (pListNext b, ht1));
     Some (result, s', next, ht2) }"

partial_function (option) apply_loop ::
    "('s \<Rightarrow> 'v bucket \<Rightarrow> uint \<times> 'v \<times> 's) \<Rightarrow> 's \<Rightarrow> addr option \<Rightarrow> 'v hashtable \<Rightarrow>
      ('s \<times> 'v hashtable) option" where
  "apply_loop f s p ht =
     (case p of None \<Rightarrow> Some (s, ht)
      | Some a \<Rightarrow> Option.bind (apply_step f s a ht)
          (\<lambda>r. if fst r AND ZEND_HASH_APPLY_STOP \<noteq> 0
               then Some (fst (snd r), snd (snd (snd r)))
               else apply_loop f (fst (snd r)) (fst (snd (snd r))) (snd (snd (snd r)))))"

definition zend_hash_apply ::
    "('s \<Rightarrow> 'v \<Rightarrow> uint \<times> 'v \<times> 's) \<Rightarrow> 's \<Rightarrow> 'v hashtable \<Rightarrow> ('s \<times> 'v hashtable) guarded option" where
  "zend_hash_apply apply_func s ht =
     run_protected (\<lambda>ht. apply_loop (\<lambda>s b. apply_func s (pData b)) s (pListHead ht) ht) ht"

definition zend_hash_apply_with_argument ::
    "('s \<Rightarrow> 'v \<Rightarrow> 'a \<Rightarrow> uint \<times> 'v \<times> 's) \<Rightarrow> 'a \<Rightarrow> 's \<Rightarrow> 'v hashtable \<Rightarrow>
      ('s \<times> 'v hashtable) guarded option" where
  "zend_hash_apply_with_argument apply_func argument s ht =
     run_protected (\<lambda>ht. apply_loop (\<lambda>s b. apply_func s (pData b) argument) s (pListHead ht) ht) ht"

record zend_hash_key =
  hk_arKey :: cstr
  hk_nKeyLength :: nat
  hk_h :: ulong

definition hash_key_of :: "'v bucket \<Rightarrow> zend_hash_key" where
  "hash_key_of p = \<lparr>hk_arKey = arKey p, hk_nKeyLength = nKeyLength p, hk_h = bh p\<rparr>"

definition zend_hash_apply_with_arguments ::
    "('s \<Rightarrow> 'v \<Rightarrow> 'a list \<Rightarrow> zend_hash_key \<Rightarrow> uint \<times> 'v \<times> 's) \<Rightarrow> 'a list \<Rightarrow> 's \<Rightarrow> 'v hashtable \<Rightarrow>
      ('s \<times> 'v hashtable) guarded option" where
  "zend_hash_apply_with_arguments apply_func args s ht =
     run_protected (\<lambda>ht. apply_loop (\<lambda>s b. apply_func s (pData b) args (hash_key_of b)) s
       (pListHead ht) ht) ht"

definition reverse_apply_step ::
    "('s \<Rightarrow> 'v bucket \<Rightarrow> uint \<times> 'v \<times> 's) \<Rightarrow> 's \<Rightarrow> addr \<Rightarrow> 'v hashtable \<Rightarrow>
      (uint \<times> 's \<times> addr option \<times> 'v hashtable) option" where
  "reverse_apply_step f s q ht = do {
     b \<leftarrow> cells ht q;
     let (result, s', ht1) = call_apply f s q b ht;
     ht2 \<leftarrow> (if result AND ZEND_HASH_APPLY_REMOVE \<noteq> 0
             then map_option snd (zend_hash_apply_deleter ht1 q) else Some ht1);
     Some (result, s', pListLast b, ht2) }"

partial_function (option) reverse_apply_loop ::
    "('s \<Rightarrow> 'v bucket \<Rightarrow> uint \<times> 'v \<times> 's) \<Rightarrow> 's \<Rightarrow> addr option \<Rightarrow> 'v hashtable \<Rightarrow>
      ('s \<times> 'v hashtable) option" where
  "reverse_apply_loop f s p ht =
     (case p of None \<Rightarrow> Some (s, ht)
      | Some a \<Rightarrow> Option.bind (reverse_apply_step f s a ht)
          (\<lambda>r. if fst r AND ZEND_HASH_APPLY_STOP \<noteq> 0
               then Some (fst (snd r), snd (snd (snd r)))
               else reverse_apply_loop f (fst (snd r)) (fst (snd (snd r))) (snd (snd (snd r)))))"

definition zend_hash_reverse_apply ::
    "('s \<Rightarrow> 'v \<Rightarrow> uint \<times> 'v \<times> 's) \<Rightarrow> 's \<Rightarrow> 'v hashtable \<Rightarrow> ('s \<times> 'v hashtable) guarded option" where
  "zend_hash_reverse_apply apply_func s ht =
     run_protected (\<lambda>ht. reverse_apply_loop (\<lambda>s b. apply_func s (pData b)) s (pListTail ht) ht) ht"

subsection \<open>Copy and merge\<close>

text \<open>
  The key of a source bucket as the target's functions receive it: a pointer behind a bucket of
  the source is none of the target's own pointers.
\<close>

definition key_arg :: "'v bucket \<Rightarrow> cstr" where
  "key_arg b = \<lparr>ptr = (case ptr (arKey b) of KeyOf a \<Rightarrow> Caller a | q \<Rightarrow> q),
                bytes = take (nKeyLength b) (bytes (arKey b))\<rparr>"

definition run_ctor :: "('v \<Rightarrow> 'v) option \<Rightarrow> addr option \<Rightarrow> 'v hashtable \<Rightarrow> 'v hashtable option" where
  "run_ctor ctor entry ht =
     (case ctor of None \<Rightarrow> Some ht
      | Some c \<Rightarrow> do {
          q \<leftarrow> entry;
          m \<leftarrow> poke q (\<lambda>b. b\<lparr>pData := c (pData b)\<rparr>) (cells ht);
          Some (ht\<lparr>cells := m\<rparr>) })"

definition copy_step ::
    "('v \<Rightarrow> 'v) option \<Rightarrow> bool \<Rightarrow> bool \<Rightarrow> 'v hashtable \<Rightarrow> addr \<Rightarrow> 'v bucket \<Rightarrow> 'v hashtable \<Rightarrow>
      'v hashtable option" where
  "copy_step ctor ptr_sized setTargetPointer source p b target = do {
     let t1 = (if setTargetPointer \<and> pInternalPointer source = Some p
               then target\<lparr>pInternalPointer := None\<rparr> else target);
     (_, new_entry, t2) \<leftarrow>
       (if nKeyLength b \<noteq> 0
        then zend_hash_quick_add_or_update t1 (key_arg b) (bh b) (pData b) ptr_sized HASH_UPDATE
        else zend_hash_index_update_or_next_insert t1 (bh b) (pData b) ptr_sized HASH_UPDATE);
     run_ctor ctor new_entry t2 }"

partial_function (option) copy_loop ::
    "('v \<Rightarrow> 'v) option \<Rightarrow> bool \<Rightarrow> bool \<Rightarrow> 'v hashtable \<Rightarrow> addr option \<Rightarrow> 'v hashtable \<Rightarrow>
      'v hashtable option" where
  "copy_loop ctor ptr_sized setTargetPointer source p target =
     (case p of None \<Rightarrow> Some target
      | Some a \<Rightarrow> (case cells source a of None \<Rightarrow> None
          | Some b \<Rightarrow> Option.bind (copy_step ctor ptr_sized setTargetPointer source a b target)
              (copy_loop ctor ptr_sized setTargetPointer source (pListNext b))))"

definition zend_hash_copy ::
    "'v hashtable \<Rightarrow> 'v hashtable \<Rightarrow> ('v \<Rightarrow> 'v) option \<Rightarrow> bool \<Rightarrow> 'v hashtable option" where
  "zend_hash_copy target source pCopyConstructor ptr_sized = do {
     let setTargetPointer = (pInternalPointer target = None);
     t \<leftarrow> copy_loop pCopyConstructor ptr_sized setTargetPointer source (pListHead source) target;
     Some (if pInternalPointer t = None then t\<lparr>pInternalPointer := pListHead t\<rparr> else t) }"

definition merge_step ::
    "('v \<Rightarrow> 'v) option \<Rightarrow> bool \<Rightarrow> hash_flag \<Rightarrow> 'v bucket \<Rightarrow> 'v hashtable \<Rightarrow> 'v hashtable option" where
  "merge_step ctor ptr_sized mode b target =
     (if nKeyLength b > 0 then do {
        (r, t, target1) \<leftarrow>
          zend_hash_quick_add_or_update target (key_arg b) (bh b) (pData b) ptr_sized mode;
        (if r = SUCCESS then run_ctor ctor t target1 else Some target1) }
      else do {
        ex \<leftarrow> (if mode = HASH_UPDATE then Some False else zend_hash_index_exists target (bh b));
        (if \<not> ex then do {
           (r, t, target1) \<leftarrow>
             zend_hash_index_update_or_next_insert target (bh b) (pData b) ptr_sized HASH_UPDATE;
           (if r = SUCCESS then run_ctor ctor t target1 else Some target1) }
         else Some target) })"

partial_function (option) merge_loop ::
    "('v bucket \<Rightarrow> 'v hashtable \<Rightarrow> 'v hashtable option) \<Rightarrow> 'v hashtable \<Rightarrow> addr option \<Rightarrow>
      'v hashtable \<Rightarrow> 'v hashtable option" where
  "merge_loop step source p target =
     (case p of None \<Rightarrow> Some target
      | Some a \<Rightarrow> (case cells source a of None \<Rightarrow> None
          | Some b \<Rightarrow> Option.bind (step b target) (merge_loop step source (pListNext b))))"

definition zend_hash_merge ::
    "'v hashtable \<Rightarrow> 'v hashtable \<Rightarrow> ('v \<Rightarrow> 'v) option \<Rightarrow> bool \<Rightarrow> bool \<Rightarrow> 'v hashtable option" where
  "zend_hash_merge target source pCopyConstructor ptr_sized overwrite = do {
     let mode = (if overwrite then HASH_UPDATE else HASH_ADD);
     t \<leftarrow> merge_loop (merge_step pCopyConstructor ptr_sized mode) source (pListHead source) target;
     Some (t\<lparr>pInternalPointer := pListHead t\<rparr>) }"

definition merge_ex_step ::
    "('v hashtable \<Rightarrow> 'v \<Rightarrow> zend_hash_key \<Rightarrow> bool) \<Rightarrow> ('v \<Rightarrow> 'v) option \<Rightarrow> bool \<Rightarrow> 'v bucket \<Rightarrow>
      'v hashtable \<Rightarrow> 'v hashtable option" where
  "merge_ex_step pMergeSource ctor ptr_sized b target =
     (if pMergeSource target (pData b) (hash_key_of b) then do {
        (r, t, target1) \<leftarrow>
          zend_hash_quick_add_or_update target (key_arg b) (bh b) (pData b) ptr_sized HASH_UPDATE;
        (if r = SUCCESS then run_ctor ctor t target1 else Some target1) }
      else Some target)"

definition zend_hash_merge_ex ::
    "'v hashtable \<Rightarrow> 'v hashtable \<Rightarrow> ('v \<Rightarrow> 'v) option \<Rightarrow> bool \<Rightarrow>
      ('v hashtable \<Rightarrow> 'v \<Rightarrow> zend_hash_key \<Rightarrow> bool) \<Rightarrow> 'v hashtable option" where
  "zend_hash_merge_ex target source pCopyConstructor ptr_sized pMergeSource = do {
     t \<leftarrow> merge_loop (merge_ex_step pMergeSource pCopyConstructor ptr_sized) source
            (pListHead source) target;
     Some (t\<lparr>pInternalPointer := pListHead t\<rparr>) }"

subsection \<open>Traversal\<close>

text \<open>
  The optional \<open>pos\<close> argument is \<open>None\<close> for a NULL pointer (the table's own internal pointer is
  used) and \<open>Some q\<close> for a caller's position holding \<open>q\<close>.
\<close>

record hash_pointer =
  hp_pos :: "addr option"
  hp_h :: ulong

definition zend_hash_get_pointer :: "'v hashtable \<Rightarrow> (bool \<times> hash_pointer) option" where
  "zend_hash_get_pointer ht =
     (case pInternalPointer ht of
        Some a \<Rightarrow> do { b \<leftarrow> cells ht a; Some (True, \<lparr>hp_pos = Some a, hp_h = bh b\<rparr>) }
      | None \<Rightarrow> Some (False, \<lparr>hp_pos = None, hp_h = 0\<rparr>))"

partial_function (option) chain_has :: "addr \<Rightarrow> (addr \<rightharpoonup> 'v bucket) \<Rightarrow> addr option \<Rightarrow> bool option" where
  "chain_has q m p =
     (case p of None \<Rightarrow> Some False
      | Some a \<Rightarrow> if a = q then Some True
          else (case m a of None \<Rightarrow> None | Some b \<Rightarrow> chain_has q m (pNext b)))"

definition zend_hash_set_pointer :: "'v hashtable \<Rightarrow> hash_pointer \<Rightarrow> (bool \<times> 'v hashtable) option" where
  "zend_hash_set_pointer ht hptr =
     (case hp_pos hptr of
        None \<Rightarrow> Some (True, ht\<lparr>pInternalPointer := None\<rparr>)
      | Some q \<Rightarrow>
          if pInternalPointer ht \<noteq> Some q then do {
            head \<leftarrow> slot ht (bucket_index (hp_h hptr) (nTableMask ht));
            found \<leftarrow> chain_has q (cells ht) head;
            Some (if found then (True, ht\<lparr>pInternalPointer := Some q\<rparr>) else (False, ht)) }
          else Some (True, ht))"

definition current_pos :: "'v hashtable \<Rightarrow> addr option option \<Rightarrow> addr option" where
  "current_pos ht pos = (case pos of Some q \<Rightarrow> q | None \<Rightarrow> pInternalPointer ht)"

definition store_pos ::
    "addr option \<Rightarrow> addr option option \<Rightarrow> 'v hashtable \<Rightarrow> addr option option \<times> 'v hashtable" where
  "store_pos q pos ht =
     (case pos of Some _ \<Rightarrow> (Some q, ht) | None \<Rightarrow> (None, ht\<lparr>pInternalPointer := q\<rparr>))"

definition zend_hash_internal_pointer_reset_ex ::
    "'v hashtable \<Rightarrow> addr option option \<Rightarrow> addr option option \<times> 'v hashtable" where
  "zend_hash_internal_pointer_reset_ex ht pos = store_pos (pListHead ht) pos ht"

definition zend_hash_internal_pointer_end_ex ::
    "'v hashtable \<Rightarrow> addr option option \<Rightarrow> addr option option \<times> 'v hashtable" where
  "zend_hash_internal_pointer_end_ex ht pos = store_pos (pListTail ht) pos ht"

definition zend_hash_move_forward_ex ::
    "'v hashtable \<Rightarrow> addr option option \<Rightarrow> (zresult \<times> addr option option \<times> 'v hashtable) option" where
  "zend_hash_move_forward_ex ht pos =
     (case current_pos ht pos of
        Some a \<Rightarrow> do { b \<leftarrow> cells ht a; Some (SUCCESS, store_pos (pListNext b) pos ht) }
      | None \<Rightarrow> Some (FAILURE, pos, ht))"

definition zend_hash_move_backwards_ex ::
    "'v hashtable \<Rightarrow> addr option option \<Rightarrow> (zresult \<times> addr option option \<times> 'v hashtable) option" where
  "zend_hash_move_backwards_ex ht pos =
     (case current_pos ht pos of
        Some a \<Rightarrow> do { b \<leftarrow> cells ht a; Some (SUCCESS, store_pos (pListLast b) pos ht) }
      | None \<Rightarrow> Some (FAILURE, pos, ht))"

datatype key_result = HASH_KEY_IS_STRING "byte list" nat | HASH_KEY_IS_LONG ulong | HASH_KEY_NON_EXISTANT

datatype key_type = KEY_STRING | KEY_LONG | KEY_NON_EXISTANT

text \<open>
  The string handed out is the key's bytes; a duplicate is a fresh copy of the key without its
  NUL, again terminated, so both variants present the same bytes.
\<close>

definition zend_hash_get_current_key_ex ::
    "'v hashtable \<Rightarrow> addr option option \<Rightarrow> key_result option" where
  "zend_hash_get_current_key_ex ht pos =
     (case current_pos ht pos of
        Some a \<Rightarrow> do {
          b \<leftarrow> cells ht a;
          Some (if nKeyLength b \<noteq> 0
                then HASH_KEY_IS_STRING (take (nKeyLength b) (bytes (arKey b))) (nKeyLength b)
                else HASH_KEY_IS_LONG (bh b)) }
      | None \<Rightarrow> Some HASH_KEY_NON_EXISTANT)"

definition zend_hash_get_current_key_type_ex ::
    "'v hashtable \<Rightarrow> addr option option \<Rightarrow> key_type option" where
  "zend_hash_get_current_key_type_ex ht pos =
     (case current_pos ht pos of
        Some a \<Rightarrow> do { b \<leftarrow> cells ht a; Some (if nKeyLength b \<noteq> 0 then KEY_STRING else KEY_LONG) }
      | None \<Rightarrow> Some KEY_NON_EXISTANT)"

definition zend_hash_get_current_data_ex ::
    "'v hashtable \<Rightarrow> addr option option \<Rightarrow> (zresult \<times> 'v option) option" where
  "zend_hash_get_current_data_ex ht pos =
     (case current_pos ht pos of
        Some a \<Rightarrow> do { b \<leftarrow> cells ht a; Some (SUCCESS, Some (pData b)) }
      | None \<Rightarrow> Some (FAILURE, None))"

subsection \<open>Changing the current key\<close>

text \<open>The requested key; the mode is a bit set, \<open>BEFORE\<close> 1 and \<open>AFTER\<close> 2.\<close>

datatype new_key = NEW_LONG ulong | NEW_STRING "byte list" | NEW_OTHER

definition HASH_UPDATE_KEY_IF_NONE :: nat where "HASH_UPDATE_KEY_IF_NONE = 0"
definition HASH_UPDATE_KEY_IF_BEFORE :: nat where "HASH_UPDATE_KEY_IF_BEFORE = 1"
definition HASH_UPDATE_KEY_IF_AFTER :: nat where "HASH_UPDATE_KEY_IF_AFTER = 2"
definition HASH_UPDATE_KEY_ANYWAY :: nat where "HASH_UPDATE_KEY_ANYWAY = 3"

text \<open>
  The search for another bucket under the new key: \<open>Some True\<close> when it stands on the side of \<open>p\<close>
  in the chain that the mode does not allow.
\<close>

partial_function (option) key_conflict ::
    "('v bucket \<Rightarrow> bool) \<Rightarrow> nat \<Rightarrow> addr \<Rightarrow> bool \<Rightarrow> (addr \<rightharpoonup> 'v bucket) \<Rightarrow> addr option \<Rightarrow> bool option" where
  "key_conflict P mode p found m q =
     (case q of None \<Rightarrow> Some False
      | Some a \<Rightarrow> (case m a of None \<Rightarrow> None
          | Some b \<Rightarrow>
              if a = p then key_conflict P mode p True m (pNext b)
              else if P b then
                Some (if found then mode AND HASH_UPDATE_KEY_IF_BEFORE = 0
                      else mode AND HASH_UPDATE_KEY_IF_AFTER = 0)
              else key_conflict P mode p found m (pNext b)))"

definition delete_self :: "'v bucket \<Rightarrow> 'v hashtable \<Rightarrow> 'v hashtable option" where
  "delete_self b ht =
     (if nKeyLength b \<noteq> 0
      then map_option snd (zend_hash_del ht (take (nKeyLength b) (bytes (arKey b))))
      else map_option snd (zend_hash_index_del ht (bh b)))"

text \<open>\<open>p\<close> leaves its chain; the slot is the one of its old hash.\<close>

definition leave_chain :: "addr \<Rightarrow> 'v hashtable \<Rightarrow> 'v hashtable option" where
  "leave_chain p ht = do {
     b \<leftarrow> cells ht p;
     m1 \<leftarrow> poke_opt (pNext b) (\<lambda>c. c\<lparr>pLast := pLast b\<rparr>) (cells ht);
     (case pLast b of
        Some l \<Rightarrow> do {
          m2 \<leftarrow> poke l (\<lambda>c. c\<lparr>pNext := pNext b\<rparr>) m1;
          Some (ht\<lparr>cells := m2\<rparr>) }
      | None \<Rightarrow> do {
          let i = bucket_index (bh b) (nTableMask ht);
          _ \<leftarrow> slot ht i;
          Some (ht\<lparr>cells := m1, arBuckets := (arBuckets ht)[i := pNext b]\<rparr>) }) }"

text \<open>
  A key of another length needs a bucket of another size: \<open>q\<close> takes over the data and the place
  in the global list. Its \<open>h\<close>, \<open>arKey\<close> and chain links are not written here.
\<close>

definition replace_bucket :: "addr \<Rightarrow> nat \<Rightarrow> 'v hashtable \<Rightarrow> (addr \<times> 'v hashtable) option" where
  "replace_bucket p str_length ht = do {
     b \<leftarrow> cells ht p;
     let q = brk ht;
     let c = \<lparr>bh = 0, nKeyLength = str_length, pData = pData b, pInline = pInline b,
              pListNext = pListNext b, pListLast = pListLast b, pNext = None, pLast = None,
              arKey = \<lparr>ptr = Indet, bytes = []\<rparr>, kroom = str_length\<rparr>;
     m1 \<leftarrow> poke_opt (pListNext b) (\<lambda>c. c\<lparr>pListLast := Some q\<rparr>) ((cells ht)(q \<mapsto> c));
     m2 \<leftarrow> poke_opt (pListLast b) (\<lambda>c. c\<lparr>pListNext := Some q\<rparr>) m1;
     Some (q, ht\<lparr>cells := m2(p := None), brk := Suc q,
       pListTail := (if pListNext b = None then Some q else pListTail ht),
       pListHead := (if pListLast b = None then Some q else pListHead ht),
       pInternalPointer :=
         (if pInternalPointer ht = Some p then Some q else pInternalPointer ht)\<rparr>) }"

text \<open>Writing the key: \<open>memcpy\<close> puts \<open>str\<close> behind the bucket, where there must be room for it.\<close>

definition set_key :: "addr \<Rightarrow> new_key \<Rightarrow> 'v bucket \<Rightarrow> 'v bucket option" where
  "set_key p k b = (case k of
       NEW_LONG n \<Rightarrow> Some (b\<lparr>bh := n\<rparr>)
     | NEW_STRING str \<Rightarrow>
         if length str \<le> kroom b
         then Some (b\<lparr>arKey := \<lparr>ptr = KeyOf p, bytes = str\<rparr>, bh := zend_inline_hash_func str\<rparr>)
         else None
     | NEW_OTHER \<Rightarrow> Some b)"

definition rename_bucket :: "addr \<Rightarrow> new_key \<Rightarrow> nat \<Rightarrow> 'v hashtable \<Rightarrow> (addr \<times> 'v hashtable) option" where
  "rename_bucket p0 k str_length ht = do {
     ht1 \<leftarrow> leave_chain p0 ht;
     b0 \<leftarrow> cells ht1 p0;
     (p, ht2) \<leftarrow> (if nKeyLength b0 \<noteq> str_length then replace_bucket p0 str_length ht1
                else Some (p0, ht1));
     b \<leftarrow> cells ht2 p;
     b' \<leftarrow> set_key p k b;
     let i = bucket_index (bh b') (nTableMask ht2);
     head \<leftarrow> slot ht2 i;
     m \<leftarrow> CONNECT_TO_BUCKET_DLLIST p head ((cells ht2)(p \<mapsto> b'));
     Some (p, ht2\<lparr>cells := m, arBuckets := (arBuckets ht2)[i := Some p]\<rparr>) }"

definition zend_hash_update_current_key_ex ::
    "'v hashtable \<Rightarrow> new_key \<Rightarrow> nat \<Rightarrow> addr option option \<Rightarrow>
      (zresult \<times> addr option option \<times> 'v hashtable) option" where
  "zend_hash_update_current_key_ex ht k mode pos =
     (case current_pos ht pos of
        None \<Rightarrow> Some (FAILURE, pos, ht)
      | Some p \<Rightarrow> do {
          b \<leftarrow> cells ht p;
          let go = (\<lambda>P h n same del.
            if same then Some (SUCCESS, pos, ht)
            else do {
              head \<leftarrow> slot ht (bucket_index h (nTableMask ht));
              bad \<leftarrow> (if mode \<noteq> HASH_UPDATE_KEY_ANYWAY
                     then key_conflict P mode p False (cells ht) head else Some False);
              (if bad then map_option (\<lambda>t. (FAILURE, pos, t)) (delete_self b ht)
               else do {
                 (_, ht1) \<leftarrow> del ht;
                 (q, ht2) \<leftarrow> rename_bucket p k n ht1;
                 Some (SUCCESS,
                   (if nKeyLength b \<noteq> n then map_option (\<lambda>_. Some q) pos else pos), ht2) }) });
          (case k of
             NEW_LONG n \<Rightarrow>
               go (\<lambda>c. nKeyLength c = 0 \<and> bh c = n) n 0 (nKeyLength b = 0 \<and> bh b = n)
                 (\<lambda>t. zend_hash_index_del t n)
           | NEW_STRING s \<Rightarrow>
               go (\<lambda>c. bh c = zend_inline_hash_func s \<and> nKeyLength c = length s \<and>
                       take (length s) (bytes (arKey c)) = s)
                 (zend_inline_hash_func s) (length s)
                 (nKeyLength b = length s \<and> take (length s) (bytes (arKey b)) = s)
                 (\<lambda>t. zend_hash_del t s)
           | NEW_OTHER \<Rightarrow> Some (FAILURE, pos, ht)) })"

text \<open>The loops are executable by their equations.\<close>

declare destroy_loop.simps [code]
  graceful_loop.simps [code]
  graceful_reverse_loop.simps [code]
  apply_loop.simps [code]
  reverse_apply_loop.simps [code]
  copy_loop.simps [code]
  merge_loop.simps [code]
  chain_has.simps [code]
  key_conflict.simps [code]

end
