(* ===== verification/ZendQsort.thy ===== *)
theory ZendQsort
  imports Prelude "HOL-Library.Multiset"
begin

text \<open>
  The engine's sorting routine (Zend/zend_qsort.c), used by \<open>zend_hash_sort\<close> and
  \<open>zend_llist_sort\<close>: an iterative quicksort with two pivot scans and an explicit stack of
  segments still to sort.

  The array is a list of elements of \<open>siz\<close> bytes each; a pointer into it is the index of its
  element, as an \<open>int\<close> because an empty segment ends just before it begins. An access outside the
  array is \<open>None\<close>. The two fixed arrays \<open>begin_stack\<close> and \<open>end_stack\<close> are one stack with its top
  first; pushing on a stack of \<open>QSORT_STACK_SIZE\<close> segments is \<open>None\<close> as well.
\<close>

definition QSORT_STACK_SIZE :: nat where "QSORT_STACK_SIZE = 64"

definition at :: "'a list \<Rightarrow> int \<Rightarrow> 'a option" where
  "at xs i = (if 0 \<le> i \<and> i < int (length xs) then Some (xs ! nat i) else None)"

definition zend_qsort_swap :: "'a list \<Rightarrow> int \<Rightarrow> int \<Rightarrow> 'a list option" where
  "zend_qsort_swap xs i j = do {
     x \<leftarrow> at xs i;
     y \<leftarrow> at xs j;
     Some (xs[nat i := y, nat j := x]) }"

text \<open>\<open>for (; seg1 < seg2 && compare(begin, seg1) > 0; seg1 += siz);\<close>\<close>

partial_function (option) scan_up :: "('a \<Rightarrow> 'a \<Rightarrow> int) \<Rightarrow> 'a list \<Rightarrow> int \<Rightarrow> int \<Rightarrow> int \<Rightarrow> int option" where
  "scan_up cmp xs bgn seg1 seg2 =
     (if seg1 < seg2 then
        Option.bind (at xs bgn) (\<lambda>p. Option.bind (at xs seg1) (\<lambda>x.
          if cmp p x > 0 then scan_up cmp xs bgn (seg1 + 1) seg2 else Some seg1))
      else Some seg1)"

text \<open>\<open>for (; seg2 >= seg1 && compare(seg2, begin) > 0; seg2 -= siz);\<close>\<close>

partial_function (option) scan_down :: "('a \<Rightarrow> 'a \<Rightarrow> int) \<Rightarrow> 'a list \<Rightarrow> int \<Rightarrow> int \<Rightarrow> int \<Rightarrow> int option" where
  "scan_down cmp xs bgn seg1 seg2 =
     (if seg2 \<ge> seg1 then
        Option.bind (at xs seg2) (\<lambda>x. Option.bind (at xs bgn) (\<lambda>p.
          if cmp x p > 0 then scan_down cmp xs bgn seg1 (seg2 - 1) else Some seg2))
      else Some seg2)"

partial_function (option) partition_loop ::
    "('a \<Rightarrow> 'a \<Rightarrow> int) \<Rightarrow> int \<Rightarrow> 'a list \<Rightarrow> int \<Rightarrow> int \<Rightarrow> ('a list \<times> int) option" where
  "partition_loop cmp bgn xs seg1 seg2 =
     Option.bind (scan_up cmp xs bgn seg1 seg2) (\<lambda>s1.
     Option.bind (scan_down cmp xs bgn s1 seg2) (\<lambda>s2.
       if s1 \<ge> s2 then Some (xs, s2)
       else Option.bind (zend_qsort_swap xs s1 s2) (\<lambda>ys.
         partition_loop cmp bgn ys (s1 + 1) (s2 - 1))))"

text \<open>\<open>offset\<close> is an unsigned 32-bit number of bytes, rounded down to a whole element.\<close>

definition pivot_offset :: "int \<Rightarrow> int \<Rightarrow> int" where
  "pivot_offset siz len = ((len * siz) div 2 mod 4294967296) div siz"

type_synonym segments = "(int \<times> int) list"

definition push_segment :: "int \<times> int \<Rightarrow> segments \<Rightarrow> segments option" where
  "push_segment s stk = (if length stk < QSORT_STACK_SIZE then Some (s # stk) else None)"

text \<open>
  One round of \<open>while (begin < end)\<close>: partition, put the longer side on the stack, go on with the
  shorter one. The result is the array, the segment to go on with and the stack.
\<close>

definition sort_round ::
    "('a \<Rightarrow> 'a \<Rightarrow> int) \<Rightarrow> int \<Rightarrow> 'a list \<Rightarrow> int \<Rightarrow> int \<Rightarrow> segments \<Rightarrow>
      ('a list \<times> int \<times> int \<times> segments) option" where
  "sort_round cmp siz xs bgn end stk = do {
     xs1 \<leftarrow> zend_qsort_swap xs bgn (bgn + pivot_offset siz (end - bgn));
     (xs2, seg2) \<leftarrow> partition_loop cmp bgn xs1 (bgn + 1) end;
     xs3 \<leftarrow> zend_qsort_swap xs2 bgn seg2;
     (if seg2 - bgn \<le> end - seg2 then do {
        stk1 \<leftarrow> (if seg2 + 1 < end then push_segment (seg2 + 1, end) stk else Some stk);
        Some (xs3, bgn, seg2 - 1, stk1) }
      else do {
        stk1 \<leftarrow> (if seg2 - 1 > bgn then push_segment (bgn, seg2 - 1) stk else Some stk);
        Some (xs3, seg2 + 1, end, stk1) }) }"

partial_function (option) sort_loop ::
    "('a \<Rightarrow> 'a \<Rightarrow> int) \<Rightarrow> int \<Rightarrow> 'a list \<Rightarrow> int \<Rightarrow> int \<Rightarrow> segments \<Rightarrow> 'a list option" where
  "sort_loop cmp siz xs bgn end stk =
     (if bgn < end
      then Option.bind (sort_round cmp siz xs bgn end stk)
             (\<lambda>r. sort_loop cmp siz (fst r) (fst (snd r)) (fst (snd (snd r))) (snd (snd (snd r))))
      else (case stk of [] \<Rightarrow> Some xs
            | s # stk' \<Rightarrow> sort_loop cmp siz xs (fst s) (snd s) stk'))"

text \<open>The loops are executable by their equations.\<close>

declare scan_up.simps [code]
  scan_down.simps [code]
  partition_loop.simps [code]
  sort_loop.simps [code]

definition zend_qsort :: "int \<Rightarrow> ('a \<Rightarrow> 'a \<Rightarrow> int) \<Rightarrow> 'a list \<Rightarrow> 'a list option" where
  "zend_qsort siz cmp base = sort_loop cmp siz base 0 (int (length base) - 1) []"


subsection \<open>Rearranging a segment\<close>

lemma at_Some [simp]: "\<lbrakk>0 \<le> i; i < int (length xs)\<rbrakk> \<Longrightarrow> at xs i = Some (xs ! nat i)"
  by (simp add: at_def)

lemma swap_eq:
  "\<lbrakk>0 \<le> i; i < int (length xs); 0 \<le> j; j < int (length xs)\<rbrakk> \<Longrightarrow>
    zend_qsort_swap xs i j = Some (xs[nat i := xs ! nat j, nat j := xs ! nat i])"
  by (simp add: zend_qsort_swap_def)

lemma swap_SomeD:
  assumes "zend_qsort_swap xs i j = Some ys"
  shows "0 \<le> i" "i < int (length xs)" "0 \<le> j" "j < int (length xs)"
    and "ys = xs[nat i := xs ! nat j, nat j := xs ! nat i]"
  using assms by (auto simp: zend_qsort_swap_def at_def bind_eq_Some_iff split: if_splits)

text \<open>Everything the sort does to a segment is a sequence of swaps inside it.\<close>

inductive shuffled :: "int \<Rightarrow> int \<Rightarrow> 'a list \<Rightarrow> 'a list \<Rightarrow> bool" for b e where
  none: "shuffled b e xs xs"
| exchange: "\<lbrakk>shuffled b e xs ys; b \<le> i; i \<le> e; b \<le> j; j \<le> e; zend_qsort_swap ys i j = Some zs\<rbrakk> \<Longrightarrow>
    shuffled b e xs zs"

lemma shuffled_trans: "\<lbrakk>shuffled b e ys zs; shuffled b e xs ys\<rbrakk> \<Longrightarrow> shuffled b e xs zs"
  by (induction rule: shuffled.induct) (auto intro: shuffled.exchange)

lemma shuffled_mono: "\<lbrakk>shuffled b e xs ys; b' \<le> b; e \<le> e'\<rbrakk> \<Longrightarrow> shuffled b' e' xs ys"
proof (induction rule: shuffled.induct)
  case (exchange xs ys i j zs)
  show ?case by (rule shuffled.exchange [of _ _ _ ys i j]) (use exchange in auto)
qed (rule shuffled.none)

lemma shuffled_length: "shuffled b e xs ys \<Longrightarrow> length ys = length xs"
  by (induction rule: shuffled.induct) (auto dest: swap_SomeD)

lemma shuffled_mset: "shuffled b e xs ys \<Longrightarrow> mset ys = mset xs"
proof (induction rule: shuffled.induct)
  case (exchange xs ys i j zs)
  have "nat i < length ys" "nat j < length ys" using swap_SomeD [OF exchange.hyps(6)] by auto
  then have "mset zs = mset ys"
    unfolding swap_SomeD(5) [OF exchange.hyps(6)] by (simp add: mset_swap)
  then show ?case using exchange.IH by simp
qed simp

lemma shuffled_outside:
  "\<lbrakk>shuffled b e xs ys; 0 \<le> k; k < b \<or> e < k\<rbrakk> \<Longrightarrow> ys ! nat k = xs ! nat k"
proof (induction rule: shuffled.induct)
  case (exchange xs ys i j zs)
  have "nat i \<noteq> nat k" "nat j \<noteq> nat k"
    using exchange swap_SomeD [OF exchange.hyps(6)] by auto
  then show ?case using exchange.IH exchange.prems unfolding swap_SomeD(5) [OF exchange.hyps(6)] by simp
qed simp

lemma shuffled_all:
  assumes "shuffled b e xs ys" "0 \<le> b" "e < int (length xs)"
    and "\<And>k. \<lbrakk>b \<le> k; k \<le> e\<rbrakk> \<Longrightarrow> P (xs ! nat k)" "b \<le> k" "k \<le> e"
  shows "P (ys ! nat k)"
  using assms
proof (induction arbitrary: k rule: shuffled.induct)
  case (exchange xs ys i j zs)
  have l: "length ys = length xs" using exchange.hyps(1) by (rule shuffled_length)
  have "P (ys ! nat i)" "P (ys ! nat j)" "P (ys ! nat k)"
    using exchange.IH [OF exchange.prems(1-3)] exchange.hyps exchange.prems by blast+
  then show ?case
    using exchange.prems swap_SomeD [OF exchange.hyps(6)] l
    by (auto simp: nth_list_update)
qed simp

subsection \<open>The two scans\<close>

definition left_ok :: "('a \<Rightarrow> 'a \<Rightarrow> int) \<Rightarrow> 'a \<Rightarrow> 'a \<Rightarrow> bool" where
  "left_ok cmp p x \<longleftrightarrow> cmp p x > 0 \<or> \<not> cmp x p > 0"

definition right_ok :: "('a \<Rightarrow> 'a \<Rightarrow> int) \<Rightarrow> 'a \<Rightarrow> 'a \<Rightarrow> bool" where
  "right_ok cmp p x \<longleftrightarrow> cmp x p > 0 \<or> \<not> cmp p x > 0"

lemma scan_up_ok:
  assumes "0 \<le> bgn" "bgn < int (length xs)" "0 \<le> seg1" "seg2 < int (length xs)"
  shows "\<exists>s. scan_up cmp xs bgn seg1 seg2 = Some s \<and> seg1 \<le> s \<and> s \<le> max seg1 seg2 \<and>
    (\<forall>k. seg1 \<le> k \<and> k < s \<longrightarrow> left_ok cmp (xs ! nat bgn) (xs ! nat k)) \<and>
    (s < seg2 \<longrightarrow> right_ok cmp (xs ! nat bgn) (xs ! nat s))"
  using assms
proof (induction "nat (seg2 - seg1)" arbitrary: seg1)
  case 0
  then show ?case by (subst scan_up.simps) auto
next
  case (Suc n)
  then have lt: "seg1 < seg2" by simp
  have n: "n = nat (seg2 - (seg1 + 1))" using Suc.hyps(2) by simp
  show ?case
  proof (cases "cmp (xs ! nat bgn) (xs ! nat seg1) > 0")
    case False
    then show ?thesis using Suc.prems lt by (subst scan_up.simps) (auto simp: right_ok_def)
  next
    case True
    obtain s where s: "scan_up cmp xs bgn (seg1 + 1) seg2 = Some s" "seg1 + 1 \<le> s"
      "s \<le> max (seg1 + 1) seg2"
      "\<forall>k. seg1 + 1 \<le> k \<and> k < s \<longrightarrow> left_ok cmp (xs ! nat bgn) (xs ! nat k)"
      "s < seg2 \<longrightarrow> right_ok cmp (xs ! nat bgn) (xs ! nat s)"
      using Suc.hyps(1) [OF n] Suc.prems by auto
    have "left_ok cmp (xs ! nat bgn) (xs ! nat seg1)" using True by (simp add: left_ok_def)
    then have "\<forall>k. seg1 \<le> k \<and> k < s \<longrightarrow> left_ok cmp (xs ! nat bgn) (xs ! nat k)"
      using s(4) by (metis add1_zle_eq order_le_less)
    then show ?thesis using s True Suc.prems lt by (subst scan_up.simps) auto
  qed
qed

lemma scan_down_ok:
  assumes "0 \<le> bgn" "bgn < int (length xs)" "0 \<le> seg1" "seg2 < int (length xs)" "seg1 \<le> seg2 + 1"
  shows "\<exists>s. scan_down cmp xs bgn seg1 seg2 = Some s \<and> seg1 - 1 \<le> s \<and> s \<le> seg2 \<and>
    (\<forall>k. s < k \<and> k \<le> seg2 \<longrightarrow> right_ok cmp (xs ! nat bgn) (xs ! nat k)) \<and>
    (seg1 \<le> s \<longrightarrow> left_ok cmp (xs ! nat bgn) (xs ! nat s))"
  using assms
proof (induction "nat (seg2 + 1 - seg1)" arbitrary: seg2)
  case 0
  then show ?case by (subst scan_down.simps) auto
next
  case (Suc n)
  then have le: "seg1 \<le> seg2" by simp
  show ?case
  proof (cases "cmp (xs ! nat seg2) (xs ! nat bgn) > 0")
    case False
    then show ?thesis using Suc.prems le by (subst scan_down.simps) (auto simp: left_ok_def)
  next
    case True
    have "seg1 \<le> (seg2 - 1) + 1" "n = nat (seg2 - 1 + 1 - seg1)" using Suc.hyps(2) le by auto
    then obtain s where s: "scan_down cmp xs bgn seg1 (seg2 - 1) = Some s" "seg1 - 1 \<le> s"
      "s \<le> seg2 - 1"
      "\<forall>k. s < k \<and> k \<le> seg2 - 1 \<longrightarrow> right_ok cmp (xs ! nat bgn) (xs ! nat k)"
      "seg1 \<le> s \<longrightarrow> left_ok cmp (xs ! nat bgn) (xs ! nat s)"
      using Suc.hyps(1) [of "seg2 - 1"] Suc.prems by auto
    have "right_ok cmp (xs ! nat bgn) (xs ! nat seg2)" using True by (simp add: right_ok_def)
    then have "\<forall>k. s < k \<and> k \<le> seg2 \<longrightarrow> right_ok cmp (xs ! nat bgn) (xs ! nat k)"
      using s(4) by (metis zle_diff1_eq order_le_less)
    then show ?thesis using s True Suc.prems le by (subst scan_down.simps) auto
  qed
qed

subsection \<open>Partitioning\<close>

lemma swap_shuffled:
  assumes "b \<le> i" "i \<le> e" "b \<le> j" "j \<le> e" "0 \<le> b" "e < int (length xs)"
  obtains ys where "zend_qsort_swap xs i j = Some ys" "shuffled b e xs ys"
    and "ys ! nat i = xs ! nat j" "ys ! nat j = xs ! nat i"
proof -
  let ?ys = "xs[nat i := xs ! nat j, nat j := xs ! nat i]"
  have sw: "zend_qsort_swap xs i j = Some ?ys" using assms by (intro swap_eq) auto
  then have "shuffled b e xs ?ys" using assms by (intro shuffled.exchange [OF shuffled.none]) auto
  moreover have "?ys ! nat i = xs ! nat j" "?ys ! nat j = xs ! nat i"
    using assms by (auto simp: nth_list_update)
  ultimately show ?thesis using sw that by blast
qed

lemma partition_ok:
  assumes "0 \<le> bgn" "bgn < seg1" "seg1 \<le> seg2 + 1" "seg2 < int (length xs)" "bgn < int (length xs)"
  shows "\<exists>ys s. partition_loop cmp bgn xs seg1 seg2 = Some (ys, s) \<and> shuffled seg1 seg2 xs ys \<and>
    seg1 - 1 \<le> s \<and> s \<le> seg2 \<and>
    (\<forall>k. seg1 \<le> k \<and> k \<le> s \<longrightarrow> left_ok cmp (xs ! nat bgn) (ys ! nat k)) \<and>
    (\<forall>k. s < k \<and> k \<le> seg2 \<longrightarrow> right_ok cmp (xs ! nat bgn) (ys ! nat k))"
  using assms
proof (induction "nat (seg2 + 1 - seg1)" arbitrary: seg1 seg2 xs rule: less_induct)
  case less
  have seg1: "0 \<le> seg1" using less.prems by simp
  obtain s1 where u: "scan_up cmp xs bgn seg1 seg2 = Some s1" "seg1 \<le> s1" "s1 \<le> max seg1 seg2"
    "\<forall>k. seg1 \<le> k \<and> k < s1 \<longrightarrow> left_ok cmp (xs ! nat bgn) (xs ! nat k)"
    "s1 < seg2 \<longrightarrow> right_ok cmp (xs ! nat bgn) (xs ! nat s1)"
    using scan_up_ok [OF less.prems(1,5) seg1 less.prems(4)] by blast
  have s1: "0 \<le> s1" "s1 \<le> seg2 + 1" using u less.prems by auto
  obtain s2 where d: "scan_down cmp xs bgn s1 seg2 = Some s2" "s1 - 1 \<le> s2" "s2 \<le> seg2"
    "\<forall>k. s2 < k \<and> k \<le> seg2 \<longrightarrow> right_ok cmp (xs ! nat bgn) (xs ! nat k)"
    "s1 \<le> s2 \<longrightarrow> left_ok cmp (xs ! nat bgn) (xs ! nat s2)"
    using scan_down_ok [OF less.prems(1,5) s1(1) less.prems(4) s1(2)] by blast
  show ?case
  proof (cases "s1 \<ge> s2")
    case True
    have "left_ok cmp (xs ! nat bgn) (xs ! nat k)" if "seg1 \<le> k" "k \<le> s2" for k
    proof (cases "k < s1")
      case False
      then have "k = s2" "s1 \<le> s2" using that True by simp_all
      then show ?thesis using d(5) by simp
    qed (use that u(4) in simp)
    then show ?thesis
      using u(1,2) d True by (subst partition_loop.simps) (auto intro: shuffled.none)
  next
    case False
    obtain ys where sw: "zend_qsort_swap xs s1 s2 = Some ys" "shuffled seg1 seg2 xs ys"
      "ys ! nat s1 = xs ! nat s2" "ys ! nat s2 = xs ! nat s1"
      by (rule swap_shuffled [of seg1 s1 seg2 s2 xs]) (use u d False seg1 less.prems in auto)
    have len: "length ys = length xs" using sw(2) by (rule shuffled_length)
    have same: "ys ! nat k = xs ! nat k" if "0 \<le> k" "k \<noteq> s1" "k \<noteq> s2" for k
      using that swap_SomeD [OF sw(1)] by (auto simp: nth_list_update)
    have pv: "ys ! nat bgn = xs ! nat bgn" by (rule same) (use u False less.prems in auto)
    have "nat (s2 - 1 + 1 - (s1 + 1)) < nat (seg2 + 1 - seg1)" "bgn < s1 + 1" "s1 + 1 \<le> s2 - 1 + 1"
      "s2 - 1 < int (length ys)" "bgn < int (length ys)"
      using u d False less.prems len by auto
    then obtain zs s where r: "partition_loop cmp bgn ys (s1 + 1) (s2 - 1) = Some (zs, s)"
      "shuffled (s1 + 1) (s2 - 1) ys zs" "s1 + 1 - 1 \<le> s" "s \<le> s2 - 1"
      "\<forall>k. s1 + 1 \<le> k \<and> k \<le> s \<longrightarrow> left_ok cmp (ys ! nat bgn) (zs ! nat k)"
      "\<forall>k. s < k \<and> k \<le> s2 - 1 \<longrightarrow> right_ok cmp (ys ! nat bgn) (zs ! nat k)"
      using less.hyps [of "s2 - 1" "s1 + 1" ys] less.prems(1) by blast
    have out: "zs ! nat k = ys ! nat k" if "0 \<le> k" "k \<le> s1 \<or> s2 \<le> k" for k
      using shuffled_outside [OF r(2), of k] that by auto
    have "left_ok cmp (xs ! nat bgn) (zs ! nat k)" if "seg1 \<le> k" "k \<le> s" for k
    proof -
      consider "k < s1" | "k = s1" | "s1 + 1 \<le> k" by linarith
      then show ?thesis
      proof cases
        case 1
        then show ?thesis using out [of k] same [of k] u(4) that seg1 False by auto
      next
        case 2
        then show ?thesis using out [of k] sw(3) d(5) that seg1 False by auto
      next
        case 3
        then show ?thesis using r(5) that pv by auto
      qed
    qed
    moreover have "right_ok cmp (xs ! nat bgn) (zs ! nat k)" if "s < k" "k \<le> seg2" for k
    proof -
      consider "s2 < k" | "k = s2" | "k \<le> s2 - 1" by linarith
      then show ?thesis
      proof cases
        case 1
        then show ?thesis using out [of k] same [of k] d(4) that s1 False by auto
      next
        case 2
        then show ?thesis using out [of k] sw(4) u(5) d(3) that s1 False by auto
      next
        case 3
        then show ?thesis using r(6) that pv by auto
      qed
    qed
    moreover have "shuffled seg1 seg2 xs zs"
      by (rule shuffled_trans [OF shuffled_mono [OF r(2)] sw(2)]) (use u d in auto)
    moreover have "partition_loop cmp bgn xs seg1 seg2 = Some (zs, s)"
      using u(1) d(1) sw(1) r(1) False by (subst partition_loop.simps) simp
    ultimately show ?thesis using r(3,4) u(2) d(3) by auto
  qed
qed

subsection \<open>The sort\<close>

text \<open>A comparison function is usable when it describes a total preorder.\<close>

definition total_order :: "('a \<Rightarrow> 'a \<Rightarrow> int) \<Rightarrow> bool" where
  "total_order cmp \<longleftrightarrow> (\<forall>x y. cmp x y \<le> 0 \<or> cmp y x \<le> 0) \<and>
     (\<forall>x y z. cmp x y \<le> 0 \<longrightarrow> cmp y z \<le> 0 \<longrightarrow> cmp x z \<le> 0)"

definition sorted_seg :: "('a \<Rightarrow> 'a \<Rightarrow> int) \<Rightarrow> int \<Rightarrow> int \<Rightarrow> 'a list \<Rightarrow> bool" where
  "sorted_seg cmp b e xs \<longleftrightarrow> (\<forall>i j. b \<le> i \<and> i \<le> j \<and> j \<le> e \<longrightarrow> cmp (xs ! nat i) (xs ! nat j) \<le> 0)"

lemma left_ok_le: "\<lbrakk>total_order cmp; left_ok cmp p x\<rbrakk> \<Longrightarrow> cmp x p \<le> 0"
  by (auto simp: total_order_def left_ok_def not_less) (meson not_less)

lemma right_ok_le: "\<lbrakk>total_order cmp; right_ok cmp p x\<rbrakk> \<Longrightarrow> cmp p x \<le> 0"
  by (auto simp: total_order_def right_ok_def not_less) (meson not_less)

lemma pivot_offset_range:
  assumes "0 < siz" "0 \<le> len"
  shows "0 \<le> pivot_offset siz len" "pivot_offset siz len \<le> len"
proof -
  have "0 \<le> (len * siz) div 2 mod 4294967296" by simp
  then show "0 \<le> pivot_offset siz len" using assms by (simp add: pivot_offset_def pos_imp_zdiv_nonneg_iff)
  have "(len * siz) div 2 mod 4294967296 \<le> (len * siz) div 2"
    using assms by (intro zmod_le_nonneg_dividend) (simp add: pos_imp_zdiv_nonneg_iff)
  also have "\<dots> \<le> len * siz" using zdiv_mono2 [of "len * siz" 1 2] assms by simp
  finally have "pivot_offset siz len \<le> (len * siz) div siz"
    unfolding pivot_offset_def by (rule zdiv_mono1) (rule assms(1))
  then show "pivot_offset siz len \<le> len" using assms by simp
qed

text \<open>One round: the pivot ends at \<open>s\<close>, everything left of it is not above, right of it not below.\<close>

definition split_at :: "('a \<Rightarrow> 'a \<Rightarrow> int) \<Rightarrow> int \<Rightarrow> int \<Rightarrow> int \<Rightarrow> 'a list \<Rightarrow> bool" where
  "split_at cmp b s e xs \<longleftrightarrow>
     (\<forall>k. b \<le> k \<and> k < s \<longrightarrow> left_ok cmp (xs ! nat s) (xs ! nat k)) \<and>
     (\<forall>k. s < k \<and> k \<le> e \<longrightarrow> right_ok cmp (xs ! nat s) (xs ! nat k))"

lemma round_ok:
  assumes "0 \<le> b" "b < e" "e < int (length xs)" "0 < siz"
  obtains ys s where "b \<le> s" "s \<le> e" "shuffled b e xs ys" "split_at cmp b s e ys"
    and "\<And>stk. sort_round cmp siz xs b e stk =
      (if s - b \<le> e - s
       then map_option (\<lambda>stk1. (ys, b, s - 1, stk1))
              (if s + 1 < e then push_segment (s + 1, e) stk else Some stk)
       else map_option (\<lambda>stk1. (ys, s + 1, e, stk1))
              (if s - 1 > b then push_segment (b, s - 1) stk else Some stk))"
proof -
  have pv: "0 \<le> pivot_offset siz (e - b)" "pivot_offset siz (e - b) \<le> e - b"
    using pivot_offset_range assms by simp_all
  obtain xs1 where s1: "zend_qsort_swap xs b (b + pivot_offset siz (e - b)) = Some xs1"
    "shuffled b e xs xs1"
    by (rule swap_shuffled [of b b e "b + pivot_offset siz (e - b)" xs]) (use pv assms in auto)
  have l1: "length xs1 = length xs" using s1(2) by (rule shuffled_length)
  obtain xs2 s where p: "partition_loop cmp b xs1 (b + 1) e = Some (xs2, s)"
    "shuffled (b + 1) e xs1 xs2" "b + 1 - 1 \<le> s" "s \<le> e"
    "\<forall>k. b + 1 \<le> k \<and> k \<le> s \<longrightarrow> left_ok cmp (xs1 ! nat b) (xs2 ! nat k)"
    "\<forall>k. s < k \<and> k \<le> e \<longrightarrow> right_ok cmp (xs1 ! nat b) (xs2 ! nat k)"
    using partition_ok [of b "b + 1" e xs1 cmp] assms l1 by auto
  have l2: "length xs2 = length xs" using shuffled_length [OF p(2)] l1 by simp
  have piv: "xs2 ! nat b = xs1 ! nat b" using shuffled_outside [OF p(2), of b] assms by simp
  obtain xs3 where s3: "zend_qsort_swap xs2 b s = Some xs3" "shuffled b e xs2 xs3"
    "xs3 ! nat b = xs2 ! nat s" "xs3 ! nat s = xs2 ! nat b"
    by (rule swap_shuffled [of b b e s xs2]) (use p assms l2 in auto)
  have same: "xs3 ! nat k = xs2 ! nat k" if "0 \<le> k" "k \<noteq> b" "k \<noteq> s" for k
    using that swap_SomeD [OF s3(1)] by (auto simp: nth_list_update)
  have "left_ok cmp (xs3 ! nat s) (xs3 ! nat k)" if "b \<le> k" "k < s" for k
    using that p(5) same [of k] s3(3,4) piv assms by (cases "k = b") auto
  moreover have "right_ok cmp (xs3 ! nat s) (xs3 ! nat k)" if "s < k" "k \<le> e" for k
    using that p(3,6) same [of k] s3(3,4) piv assms by auto
  ultimately have sp: "split_at cmp b s e xs3" by (simp add: split_at_def)
  have sh: "shuffled b e xs xs3"
    by (rule shuffled_trans [OF s3(2) shuffled_trans [OF shuffled_mono [OF p(2)] s1(2)]]) simp_all
  have "sort_round cmp siz xs b e stk =
      (if s - b \<le> e - s
       then map_option (\<lambda>stk1. (xs3, b, s - 1, stk1))
              (if s + 1 < e then push_segment (s + 1, e) stk else Some stk)
       else map_option (\<lambda>stk1. (xs3, s + 1, e, stk1))
              (if s - 1 > b then push_segment (b, s - 1) stk else Some stk))" for stk
    using s1(1) p(1) s3(1) by (simp add: sort_round_def map_option_case split: option.splits)
  then show ?thesis using that p(3,4) sh sp by simp
qed

text \<open>What comes after a segment is sorted: the next segment of the stack, or the end.\<close>

definition finish_sort ::
    "('a \<Rightarrow> 'a \<Rightarrow> int) \<Rightarrow> int \<Rightarrow> 'a list \<Rightarrow> segments \<Rightarrow> 'a list option" where
  "finish_sort cmp siz xs stk = (case stk of [] \<Rightarrow> Some xs
     | s # stk' \<Rightarrow> sort_loop cmp siz xs (fst s) (snd s) stk')"

lemma sorted_seg_join:
  assumes "total_order cmp" "split_at cmp b s e xs" "sorted_seg cmp b (s - 1) xs" "sorted_seg cmp (s + 1) e xs"
  shows "sorted_seg cmp b e xs"
  unfolding sorted_seg_def
proof (intro allI impI)
  fix i j assume ij: "b \<le> i \<and> i \<le> j \<and> j \<le> e"
  have le: "cmp (xs ! nat k) (xs ! nat s) \<le> 0" if "b \<le> k" "k \<le> s" for k
    using that assms(1,2) left_ok_le [OF assms(1)]
    by (cases "k = s") (auto simp: split_at_def total_order_def)
  have ge: "cmp (xs ! nat s) (xs ! nat k) \<le> 0" if "s \<le> k" "k \<le> e" for k
    using that assms(1,2) right_ok_le [OF assms(1)]
    by (cases "k = s") (auto simp: split_at_def total_order_def)
  consider "j < s" | "i \<le> s" "s \<le> j" | "s < i" by linarith
  then show "cmp (xs ! nat i) (xs ! nat j) \<le> 0"
  proof cases
    case 1
    then show ?thesis using assms(3) ij by (simp add: sorted_seg_def)
  next
    case 2
    then show ?thesis using le [of i] ge [of j] ij assms(1) unfolding total_order_def by blast
  next
    case 3
    then show ?thesis using assms(4) ij by (simp add: sorted_seg_def)
  qed
qed

text \<open>Sorting the two sides keeps the split and what the other side already has.\<close>

lemma split_shuffled:
  assumes "split_at cmp b s e xs" "shuffled b' e' xs ys" "0 \<le> b" "e < int (length xs)" "b \<le> s" "s \<le> e"
    and "b' = b \<and> e' = s - 1 \<or> b' = s + 1 \<and> e' = e"
  shows "split_at cmp b s e ys"
proof -
  have piv: "ys ! nat s = xs ! nat s" using shuffled_outside [OF assms(2), of s] assms by auto
  have "left_ok cmp (ys ! nat s) (ys ! nat k)" if "b \<le> k" "k < s" for k
    using assms(7)
  proof
    assume "b' = b \<and> e' = s - 1"
    then have "left_ok cmp (xs ! nat s) (ys ! nat k)"
      using shuffled_all [OF assms(2), of "left_ok cmp (xs ! nat s)" k] that assms
      by (simp add: split_at_def)
    then show ?thesis using piv by simp
  next
    assume "b' = s + 1 \<and> e' = e"
    then show ?thesis using shuffled_outside [OF assms(2), of k] that assms piv
      by (simp add: split_at_def)
  qed
  moreover have "right_ok cmp (ys ! nat s) (ys ! nat k)" if "s < k" "k \<le> e" for k
    using assms(7)
  proof
    assume "b' = s + 1 \<and> e' = e"
    then have "right_ok cmp (xs ! nat s) (ys ! nat k)"
      using shuffled_all [OF assms(2), of "right_ok cmp (xs ! nat s)" k] that assms
      by (simp add: split_at_def)
    then show ?thesis using piv by simp
  next
    assume "b' = b \<and> e' = s - 1"
    then show ?thesis using shuffled_outside [OF assms(2), of k] that assms piv
      by (simp add: split_at_def)
  qed
  ultimately show ?thesis by (simp add: split_at_def)
qed

lemma sorted_seg_shuffled:
  assumes "sorted_seg cmp b e xs" "shuffled b' e' xs ys" "0 \<le> b" "e < b' \<or> e' < b"
  shows "sorted_seg cmp b e ys"
  using assms shuffled_outside [OF assms(2)] by (fastforce simp: sorted_seg_def)

text \<open>The room on the stack covers a segment: it halves with every segment waiting.\<close>

definition roomy :: "int \<Rightarrow> int \<Rightarrow> segments \<Rightarrow> bool" where
  "roomy b e stk \<longleftrightarrow> length stk \<le> QSORT_STACK_SIZE \<and> e + 1 - b \<le> 2 ^ (QSORT_STACK_SIZE - length stk)"

lemma roomy_push:
  assumes "roomy b e stk" "b < e"
  shows "push_segment s stk = Some (s # stk)"
    and "\<And>b' e'. 2 * (e' + 1 - b') \<le> e + 1 - b \<Longrightarrow> roomy b' e' (s # stk)"
proof -
  have "length stk < QSORT_STACK_SIZE"
    using assms by (cases "length stk = QSORT_STACK_SIZE") (auto simp: roomy_def)
  moreover from this have "QSORT_STACK_SIZE - length stk = Suc (QSORT_STACK_SIZE - Suc (length stk))"
    by simp
  ultimately show "push_segment s stk = Some (s # stk)"
    and "\<And>b' e'. 2 * (e' + 1 - b') \<le> e + 1 - b \<Longrightarrow> roomy b' e' (s # stk)"
    using assms by (auto simp: push_segment_def roomy_def)
qed

lemma sorted_seg_trivial: "\<lbrakk>total_order cmp; e \<le> b\<rbrakk> \<Longrightarrow> sorted_seg cmp b e xs"
  unfolding sorted_seg_def
proof (intro allI impI)
  fix i j assume "total_order cmp" "e \<le> b" "b \<le> i \<and> i \<le> j \<and> j \<le> e"
  then have "i = j" by linarith
  then show "cmp (xs ! nat i) (xs ! nat j) \<le> 0"
    using \<open>total_order cmp\<close> unfolding total_order_def by blast
qed

definition seg_done ::
    "('a \<Rightarrow> 'a \<Rightarrow> int) \<Rightarrow> int \<Rightarrow> 'a list \<Rightarrow> int \<Rightarrow> int \<Rightarrow> segments \<Rightarrow> 'a list \<Rightarrow> bool" where
  "seg_done cmp siz xs b e stk ys \<longleftrightarrow>
     sort_loop cmp siz xs b e stk = finish_sort cmp siz ys stk \<and> shuffled b e xs ys \<and>
     (total_order cmp \<longrightarrow> sorted_seg cmp b e ys)"

text \<open>One side now, the other one afterwards unless it is too short to need it.\<close>

lemma both_sides:
  assumes side: "\<And>b' e' xs' stk'. \<lbrakk>(b', e') = (b1, e1) \<or> (b', e') = (b2, e2); roomy b' e' stk';
      length xs' = length xs\<rbrakk> \<Longrightarrow> \<exists>ys. seg_done cmp siz xs' b' e' stk' ys"
    and r: "roomy b e stk" "b < e" "2 * (e1 + 1 - b1) \<le> e + 1 - b" "e2 + 1 - b2 \<le> e + 1 - b"
      "e1 + 1 - b1 \<le> e + 1 - b"
  obtains stk1 ys zs where "(if b2 < e2 then push_segment (b2, e2) stk else Some stk) = Some stk1"
    and "sort_loop cmp siz xs b1 e1 stk1 = finish_sort cmp siz zs stk"
    and "shuffled b1 e1 xs ys" "shuffled b2 e2 ys zs"
    and "total_order cmp \<Longrightarrow> sorted_seg cmp b1 e1 ys \<and> sorted_seg cmp b2 e2 zs"
proof (cases "b2 < e2")
  case True
  let ?stk = "(b2, e2) # stk"
  have "roomy b1 e1 ?stk" using roomy_push(2) [OF r(1,2)] r(3) by blast
  then obtain ys where ys: "seg_done cmp siz xs b1 e1 ?stk ys" using side by blast
  have len: "length ys = length xs" using ys shuffled_length unfolding seg_done_def by blast
  have "roomy b2 e2 stk" using r by (auto simp: roomy_def)
  then obtain zs where zs: "seg_done cmp siz ys b2 e2 stk zs" using side len by blast
  show ?thesis
    by (rule that [of ?stk zs ys])
      (use ys zs True roomy_push(1) [OF r(1,2)] in \<open>auto simp: seg_done_def finish_sort_def\<close>)
next
  case False
  have "roomy b1 e1 stk" using r by (auto simp: roomy_def)
  then obtain ys where ys: "seg_done cmp siz xs b1 e1 stk ys" using side by blast
  show ?thesis
    by (rule that [of stk ys ys])
      (use ys False in \<open>auto simp: seg_done_def intro: shuffled.none sorted_seg_trivial\<close>)
qed

lemma seg_ok:
  assumes "0 \<le> b" "e < int (length xs)" "roomy b e stk" "0 < siz"
  shows "\<exists>ys. seg_done cmp siz xs b e stk ys"
  using assms
proof (induction "nat (e + 1 - b)" arbitrary: b e xs stk rule: less_induct)
  case less
  show ?case
  proof (cases "b < e")
    case False
    have "sort_loop cmp siz xs b e stk = finish_sort cmp siz xs stk"
      using False by (subst sort_loop.simps) (simp add: finish_sort_def)
    then show ?thesis
      using False by (intro exI [of _ xs]) (auto simp: seg_done_def intro: shuffled.none sorted_seg_trivial)
  next
    case True
    obtain xs3 s where rd: "b \<le> s" "s \<le> e" "shuffled b e xs xs3" "split_at cmp b s e xs3"
      "\<And>stk. sort_round cmp siz xs b e stk =
        (if s - b \<le> e - s
         then map_option (\<lambda>stk1. (xs3, b, s - 1, stk1))
                (if s + 1 < e then push_segment (s + 1, e) stk else Some stk)
         else map_option (\<lambda>stk1. (xs3, s + 1, e, stk1))
                (if s - 1 > b then push_segment (b, s - 1) stk else Some stk))"
      using round_ok [OF less.prems(1) True less.prems(2,4), of cmp] by blast
    have len: "length xs3 = length xs" using rd(3) by (rule shuffled_length)
    have side: "\<exists>ys. seg_done cmp siz xs' b' e' stk' ys"
      if "(b', e') = (b, s - 1) \<or> (b', e') = (s + 1, e)" "roomy b' e' stk'" "length xs' = length xs3"
      for b' e' stk' xs'
      using less.hyps [of e' b' xs' stk'] that rd(1,2) less.prems len by auto
    have join: "\<exists>ys. seg_done cmp siz xs b e stk ys"
      if "sort_loop cmp siz xs b e stk = finish_sort cmp siz zs stk"
        and "shuffled b1 e1 xs3 ys" "shuffled b2 e2 ys zs"
        and "total_order cmp \<Longrightarrow> sorted_seg cmp b1 e1 ys \<and> sorted_seg cmp b2 e2 zs"
        and sides: "(b1, e1, b2, e2) = (b, s - 1, s + 1, e) \<or> (b1, e1, b2, e2) = (s + 1, e, b, s - 1)"
      for ys zs b1 e1 b2 e2
    proof -
      have sub: "b \<le> b1" "e1 \<le> e" "b \<le> b2" "e2 \<le> e" using sides rd(1,2) by auto
      have "shuffled b e xs zs"
        using shuffled_trans [OF shuffled_mono [OF that(3) sub(3,4)]
            shuffled_trans [OF shuffled_mono [OF that(2) sub(1,2)] rd(3)]] .
      moreover have "sorted_seg cmp b e zs" if t: "total_order cmp"
      proof -
        have ly: "length ys = length xs" using shuffled_length [OF \<open>shuffled b1 e1 xs3 ys\<close>] len by simp
        have "split_at cmp b s e ys"
          by (rule split_shuffled [OF rd(4) \<open>shuffled b1 e1 xs3 ys\<close>])
            (use sides rd less.prems len in auto)
        then have sp: "split_at cmp b s e zs"
          by (rule split_shuffled [OF _ \<open>shuffled b2 e2 ys zs\<close>])
            (use sides rd less.prems ly in auto)
        have "sorted_seg cmp b1 e1 ys" "sorted_seg cmp b2 e2 zs" using that(1) \<open>total_order cmp \<Longrightarrow> _\<close> by auto
        moreover from this(1) have "sorted_seg cmp b1 e1 zs"
          by (rule sorted_seg_shuffled [OF _ \<open>shuffled b2 e2 ys zs\<close>])
            (use sides rd less.prems in auto)
        ultimately show ?thesis using sorted_seg_join [OF t sp] sides by auto
      qed
      ultimately show ?thesis using that(1) by (auto simp: seg_done_def)
    qed
    note loop = sort_loop.simps [of cmp siz xs b e stk]
    show ?thesis
    proof (cases "s - b \<le> e - s")
      case small: True
      obtain stk1 ys zs where z: "(if s + 1 < e then push_segment (s + 1, e) stk else Some stk) = Some stk1"
        "sort_loop cmp siz xs3 b (s - 1) stk1 = finish_sort cmp siz zs stk"
        "shuffled b (s - 1) xs3 ys" "shuffled (s + 1) e ys zs"
        "total_order cmp \<Longrightarrow> sorted_seg cmp b (s - 1) ys \<and> sorted_seg cmp (s + 1) e zs"
        by (rule both_sides [where b = b and e = e and ?b1.0 = b and ?e1.0 = "s - 1" and
              ?b2.0 = "s + 1" and ?e2.0 = e and xs = xs3, OF side less.prems(3) True])
          (use small rd(1,2) in auto)
      show ?thesis by (rule join [OF _ z(3,4,5)]) (use loop z(1,2) rd(5) True small in auto)
    next
      case small: False
      obtain stk1 ys zs where z: "(if b < s - 1 then push_segment (b, s - 1) stk else Some stk) = Some stk1"
        "sort_loop cmp siz xs3 (s + 1) e stk1 = finish_sort cmp siz zs stk"
        "shuffled (s + 1) e xs3 ys" "shuffled b (s - 1) ys zs"
        "total_order cmp \<Longrightarrow> sorted_seg cmp (s + 1) e ys \<and> sorted_seg cmp b (s - 1) zs"
        by (rule both_sides [where b = b and e = e and ?b1.0 = "s + 1" and ?e1.0 = e and
              ?b2.0 = b and ?e2.0 = "s - 1" and xs = xs3, OF side less.prems(3) True])
          (use small rd(1,2) in auto)
      show ?thesis by (rule join [OF _ z(3,4,5)]) (use loop z(1,2) rd(5) True small in auto)
    qed
  qed
qed

subsection \<open>The whole array\<close>

lemma zend_qsort_ok:
  assumes "0 < siz" "length xs \<le> 2 ^ 64"
  shows "\<exists>ys. zend_qsort siz cmp xs = Some ys \<and> mset ys = mset xs \<and>
    (total_order cmp \<longrightarrow> sorted_wrt (\<lambda>x y. cmp x y \<le> 0) ys)"
proof -
  have "roomy 0 (int (length xs) - 1) []"
    using assms(2) by (simp add: roomy_def QSORT_STACK_SIZE_def)
  then obtain ys where ys: "seg_done cmp siz xs 0 (int (length xs) - 1) [] ys"
    using seg_ok [of 0 "int (length xs) - 1" xs "[]" siz cmp] assms(1) by auto
  then have sh: "shuffled 0 (int (length xs) - 1) xs ys" by (simp add: seg_done_def)
  have "sorted_wrt (\<lambda>x y. cmp x y \<le> 0) ys" if "total_order cmp"
    unfolding sorted_wrt_iff_nth_less
  proof (intro allI impI)
    fix i j assume ij: "i < j" "j < length ys"
    have "sorted_seg cmp 0 (int (length xs) - 1) ys" using ys that by (simp add: seg_done_def)
    then have "cmp (ys ! nat (int i)) (ys ! nat (int j)) \<le> 0"
      unfolding sorted_seg_def using ij shuffled_length [OF sh] by (simp del: nat_int)
    then show "cmp (ys ! i) (ys ! j) \<le> 0" by simp
  qed
  moreover have "zend_qsort siz cmp xs = Some ys"
    using ys by (simp add: zend_qsort_def seg_done_def finish_sort_def)
  ultimately show ?thesis using shuffled_mset [OF sh] by blast
qed

text \<open>
  C21. \<open>zend_qsort\<close> returns for every comparison function, consistent or not, without leaving the
  array or overflowing its segment stack, and its result is a permutation of the input; when the
  comparison is a total preorder the result is sorted.
\<close>

theorem zend_qsort_sorts:
  assumes "0 < siz" "length xs \<le> 2 ^ 64"
  shows "\<exists>ys. zend_qsort siz cmp xs = Some ys \<and> mset ys = mset xs \<and>
    (total_order cmp \<longrightarrow> sorted_wrt (\<lambda>x y. cmp x y \<le> 0) ys)"
  using assms by (rule zend_qsort_ok)

theorem zend_qsort_sorts_witness:
  "\<exists>ys. zend_qsort 8 (\<lambda>x y. x - y) [3, 1, 2 :: int] = Some ys \<and> mset ys = mset [3, 1, 2] \<and>
    sorted_wrt (\<lambda>x y. x - y \<le> 0) ys"
proof -
  have "total_order (\<lambda>x y. x - y :: int)" by (auto simp: total_order_def)
  then show ?thesis using zend_qsort_sorts [of 8 "[3, 1, 2 :: int]" "\<lambda>x y. x - y"] by simp
qed

end
