(* ===== verification/ZendHashSort.thy ===== *)
theory ZendHashSort
  imports ZendHashBulk ZendQsort
begin

text \<open>
  Sorting and comparing whole hash tables (Zend/zend_hash.c): \<open>zend_hash_sort\<close>,
  \<open>zend_hash_compare\<close> and \<open>zend_hash_minmax\<close>. The sort function is a parameter; it sees the store
  the bucket pointers refer to, because the comparison it calls dereferences them.
\<close>

subsection \<open>Sort\<close>

text \<open>\<open>while (p) { arTmp[i] = p; p = p->pListNext; i++; }\<close>\<close>

partial_function (option) collect_loop ::
    "(addr \<rightharpoonup> 'v bucket) \<Rightarrow> addr option \<Rightarrow> addr list \<Rightarrow> addr list option" where
  "collect_loop m p arTmp =
     (case p of None \<Rightarrow> Some arTmp
      | Some a \<Rightarrow> (case m a of None \<Rightarrow> None
          | Some b \<Rightarrow> collect_loop m (pListNext b) (arTmp @ [a])))"

text \<open>\<open>for (j = 1; j < i-1; j++)\<close>, \<open>k\<close> rounds from \<open>j\<close> on.\<close>

fun relink_loop ::
    "nat \<Rightarrow> nat \<Rightarrow> addr list \<Rightarrow> (addr \<rightharpoonup> 'v bucket) \<Rightarrow> (addr \<rightharpoonup> 'v bucket) option" where
  "relink_loop 0 j arTmp m = Some m"
| "relink_loop (Suc k) j arTmp m =
     Option.bind (poke (arTmp ! j)
         (\<lambda>b. b\<lparr>pListLast := Some (arTmp ! (j - 1)), pListNext := Some (arTmp ! (j + 1))\<rparr>) m)
       (relink_loop k (j + 1) arTmp)"

definition relink :: "addr list \<Rightarrow> (addr \<rightharpoonup> 'v bucket) \<Rightarrow> (addr \<rightharpoonup> 'v bucket) option" where
  "relink arTmp m = do {
     let i = length arTmp;
     m1 \<leftarrow> poke (arTmp ! 0) (\<lambda>b. b\<lparr>pListLast := None\<rparr>) m;
     (if i > 1 then do {
        m2 \<leftarrow> poke (arTmp ! 0) (\<lambda>b. b\<lparr>pListNext := Some (arTmp ! 1)\<rparr>) m1;
        m3 \<leftarrow> relink_loop (i - 2) 1 arTmp m2;
        poke (arTmp ! (i - 1))
          (\<lambda>b. b\<lparr>pListLast := Some (arTmp ! (i - 2)), pListNext := None\<rparr>) m3 }
      else poke (arTmp ! 0) (\<lambda>b. b\<lparr>pListNext := None\<rparr>) m1) }"

text \<open>\<open>p->nKeyLength = 0; p->h = i++;\<close> for every bucket: the key pointer stays.\<close>

partial_function (option) renumber_loop ::
    "addr option \<Rightarrow> int \<Rightarrow> (addr \<rightharpoonup> 'v bucket) \<Rightarrow> (int \<times> (addr \<rightharpoonup> 'v bucket)) option" where
  "renumber_loop p i m =
     (case p of None \<Rightarrow> Some (i, m)
      | Some a \<Rightarrow> (case m a of None \<Rightarrow> None
          | Some b \<Rightarrow> renumber_loop (pListNext b) (i32 (i + 1))
              (m(a \<mapsto> b\<lparr>nKeyLength := 0, bh := word_of_int i\<rparr>))))"

definition zend_hash_sort ::
    "((addr \<rightharpoonup> 'v bucket) \<Rightarrow> addr list \<Rightarrow> addr list option) \<Rightarrow> bool \<Rightarrow> 'v hashtable \<Rightarrow>
      (zresult \<times> 'v hashtable) option" where
  "zend_hash_sort sort_func renumber ht =
     (if \<not> (nNumOfElements ht > 1) \<and> \<not> (renumber \<and> nNumOfElements ht > 0) then Some (SUCCESS, ht)
      else do {
        arTmp0 \<leftarrow> collect_loop (cells ht) (pListHead ht) [];
        arTmp \<leftarrow> sort_func (cells ht) arTmp0;
        m \<leftarrow> relink arTmp (cells ht);
        let ht1 = ht\<lparr>cells := m, pListHead := Some (arTmp ! 0),
                     pInternalPointer := Some (arTmp ! 0),
                     pListTail := Some (arTmp ! (length arTmp - 1))\<rparr>;
        (if renumber then do {
           (i, m') \<leftarrow> renumber_loop (pListHead ht1) 0 (cells ht1);
           ht2 \<leftarrow> zend_hash_rehash (ht1\<lparr>cells := m', nNextFreeElement := word_of_int i\<rparr>);
           Some (SUCCESS, ht2) }
         else Some (SUCCESS, ht1)) })"

text \<open>The sort function the engine passes: \<open>zend_qsort\<close> on an array of 8-byte bucket pointers.\<close>

definition qsort_buckets ::
    "('v bucket \<Rightarrow> 'v bucket \<Rightarrow> int) \<Rightarrow> (addr \<rightharpoonup> 'v bucket) \<Rightarrow> addr list \<Rightarrow> addr list option" where
  "qsort_buckets compar m = zend_qsort 8 (\<lambda>a b. compar (the (m a)) (the (m b)))"

subsection \<open>Comparison\<close>

text \<open>\<open>memcmp\<close>: the sign is that of the first difference of unsigned bytes.\<close>

fun memcmp :: "byte list \<Rightarrow> byte list \<Rightarrow> int" where
  "memcmp (x # xs) (y # ys) = (if x = y then memcmp xs ys else uint x - uint y)"
| "memcmp _ _ = 0"

text \<open>The comparison of two keys in ordered mode, each difference stored in an \<open>int\<close>.\<close>

definition compare_keys :: "'v bucket \<Rightarrow> 'v bucket \<Rightarrow> int" where
  "compare_keys p1 p2 =
     (if nKeyLength p1 = 0 \<and> nKeyLength p2 = 0 then sint (ucast (bh p1 - bh p2) :: uint)
      else let result = i32 (int (nKeyLength p1) - int (nKeyLength p2)) in
        if result \<noteq> 0 then result
        else memcmp (take (nKeyLength p1) (bytes (arKey p1))) (take (nKeyLength p1) (bytes (arKey p2))))"

partial_function (option) compare_loop ::
    "('v \<Rightarrow> 'v \<Rightarrow> int) \<Rightarrow> bool \<Rightarrow> 'v hashtable \<Rightarrow> 'v hashtable \<Rightarrow> addr option \<Rightarrow> addr option \<Rightarrow> int option" where
  "compare_loop compar ordered ht1 ht2 p1 p2 =
     (case p1 of None \<Rightarrow> Some 0
      | Some a1 \<Rightarrow> (case cells ht1 a1 of None \<Rightarrow> None
          | Some b1 \<Rightarrow>
              if ordered then
                (case p2 of None \<Rightarrow> Some 1
                 | Some a2 \<Rightarrow> (case cells ht2 a2 of None \<Rightarrow> None
                     | Some b2 \<Rightarrow>
                         if compare_keys b1 b2 \<noteq> 0 then Some (compare_keys b1 b2)
                         else if compar (pData b1) (pData b2) \<noteq> 0
                         then Some (compar (pData b1) (pData b2))
                         else compare_loop compar ordered ht1 ht2 (pListNext b1) (pListNext b2)))
              else
                Option.bind (if nKeyLength b1 = 0 then zend_hash_index_find ht2 (bh b1)
                             else zend_hash_quick_find ht2 (key_arg b1) (bh b1))
                  (\<lambda>found. case found of None \<Rightarrow> Some 1
                   | Some a2 \<Rightarrow> (case cells ht2 a2 of None \<Rightarrow> None
                       | Some b2 \<Rightarrow>
                           if compar (pData b1) (pData b2) \<noteq> 0
                           then Some (compar (pData b1) (pData b2))
                           else compare_loop compar ordered ht1 ht2 (pListNext b1) p2))))"

definition zend_hash_compare ::
    "'v hashtable \<Rightarrow> 'v hashtable \<Rightarrow> ('v \<Rightarrow> 'v \<Rightarrow> int) \<Rightarrow> bool \<Rightarrow>
      (int \<times> 'v hashtable \<times> 'v hashtable) guarded option" where
  "zend_hash_compare ht1 ht2 compar ordered =
     (case HASH_PROTECT_RECURSION ht1 of Bailout \<Rightarrow> Some Bailout
      | Returned t1 \<Rightarrow> (case HASH_PROTECT_RECURSION ht2 of Bailout \<Rightarrow> Some Bailout
          | Returned t2 \<Rightarrow> do {
              let result = sint (nNumOfElements t1 - nNumOfElements t2);
              r \<leftarrow> (if result \<noteq> 0 then Some result
                   else compare_loop compar ordered t1 t2 (pListHead t1)
                          (if ordered then pListHead t2 else None));
              Some (Returned (r, HASH_UNPROTECT_RECURSION t1, HASH_UNPROTECT_RECURSION t2)) }))"

partial_function (option) minmax_loop ::
    "('v bucket \<Rightarrow> 'v bucket \<Rightarrow> int) \<Rightarrow> bool \<Rightarrow> (addr \<rightharpoonup> 'v bucket) \<Rightarrow> addr \<Rightarrow> addr option \<Rightarrow> addr option" where
  "minmax_loop compar flag m res p =
     (case p of None \<Rightarrow> Some res
      | Some a \<Rightarrow> Option.bind (m a) (\<lambda>b. Option.bind (m res) (\<lambda>r.
          minmax_loop compar flag m
            (if flag then if compar r b < 0 then a else res
             else if compar r b > 0 then a else res)
            (pListNext b))))"

definition zend_hash_minmax ::
    "'v hashtable \<Rightarrow> ('v bucket \<Rightarrow> 'v bucket \<Rightarrow> int) \<Rightarrow> bool \<Rightarrow> (zresult \<times> 'v option) option" where
  "zend_hash_minmax ht compar flag =
     (if nNumOfElements ht = 0 then Some (FAILURE, None)
      else do {
        p \<leftarrow> pListHead ht;
        b \<leftarrow> cells ht p;
        res \<leftarrow> minmax_loop compar flag (cells ht) p (pListNext b);
        r \<leftarrow> cells ht res;
        Some (SUCCESS, Some (pData r)) })"

text \<open>The loops are executable by their equations.\<close>

declare collect_loop.simps [code]
  renumber_loop.simps [code]
  compare_loop.simps [code]
  minmax_loop.simps [code]

end
