(* ===== verification/ZendHashTables.thy ===== *)
theory ZendHashTables
  imports ZendHashDelete ZendHashSort
begin

text \<open>
  What the whole-table operations of the hash table do to the represented list: destruction and
  cleaning, apply in both directions, copy and merge, sort.
\<close>

subsection \<open>Destruction\<close>

lemma entries_Cons: "entries ht (a # as) = the (view bentry (cells ht) a) # entries ht as"
  by (simp add: entries_def)

lemma entries_Nil [simp]: "entries ht [] = []"
  by (simp add: entries_def)

definition destructed :: "'v hashtable \<Rightarrow> addr list \<Rightarrow> 'v list" where
  "destructed ht ps = (if pDestructor ht then map snd (entries ht ps) else [])"

lemma destroy_loop_ok:
  assumes "path (view pListNext (cells ht)) p ps None"
  shows "destroy_loop p ht = Some (ht\<lparr>cells := (cells ht) |` (- set ps),
    dtor_log := dtor_log ht @ destructed ht ps\<rparr>)"
  using assms
proof (induction ps arbitrary: p ht)
  case Nil
  then show ?case by (simp add: destroy_loop.simps destructed_def)
next
  case (Cons q qs)
  then obtain b where b: "p = Some q" "cells ht q = Some b" "path (view pListNext (cells ht)) (pListNext b) qs None"
    unfolding path_view_Cons by blast
  have d: "q \<notin> set qs" using path_distinct [OF Cons.prems] by simp
  let ?ht = "free_bucket q b ht"
  have c: "cells ?ht = (cells ht)(q := None)" by (simp add: free_bucket_def call_dtor_def Let_def)
  have p: "path (view pListNext (cells ?ht)) (pListNext b) qs None" using b(3) d by (simp add: c)
  have e: "entries ?ht qs = entries ht qs"
    using d by (auto simp: entries_def c)
  have "destroy_loop p ht = Some (?ht\<lparr>cells := (cells ?ht) |` (- set qs),
    dtor_log := dtor_log ?ht @ destructed ?ht qs\<rparr>)"
    using Cons.IH [OF p] b(1,2) by (subst destroy_loop.simps) simp
  moreover have "(cells ?ht) |` (- set qs) = (cells ht) |` (- set (q # qs))"
    unfolding c by (auto simp: restrict_map_def)
  moreover have "dtor_log ?ht @ destructed ?ht qs = dtor_log ht @ destructed ht (q # qs)"
    using b(2) e unfolding destructed_def
    by (cases "pDestructor ht")
      (simp_all add: free_bucket_def call_dtor_def Let_def entries_Cons view_apply bentry_def)
  moreover have "?ht\<lparr>cells := x, dtor_log := y\<rparr> = ht\<lparr>cells := x, dtor_log := y\<rparr>" for x y
    by (simp add: free_bucket_def call_dtor_def Let_def)
  ultimately show ?case by simp
qed

lemma hash_ok_path: "hash_ok ht ps \<Longrightarrow> path (view pListNext (cells ht)) (pListHead ht) ps None"
  by (simp add: hash_ok_def order_ok_def dll_def)

lemma hash_ok_cells: "hash_ok ht ps \<Longrightarrow> (cells ht) |` (- set ps) = Map.empty"
  by (auto simp: hash_ok_def order_ok_def restrict_map_def fun_eq_iff dom_def)

lemma hash_ok_head: "hash_ok ht ps \<Longrightarrow> pListHead ht = head_opt ps"
  by (auto dest: hash_ok_path path_head)

lemma hash_ok_tail: "hash_ok ht ps \<Longrightarrow> pListTail ht = last_opt ps"
  by (auto simp: hash_ok_def order_ok_def dest: dll_tail)

lemma hash_ok_distinct: "hash_ok ht ps \<Longrightarrow> distinct ps"
  by (auto dest: hash_ok_path path_distinct)

lemma hash_ok_count: "hash_ok ht ps \<Longrightarrow> nNumOfElements ht = of_nat (length ps)"
  by (simp add: hash_ok_def order_ok_def)

text \<open>Every bucket is freed once, and its data went through the destructor in list order.\<close>

lemma zend_hash_destroy_ok:
  assumes "hash_ok ht ps"
  obtains ht' where "zend_hash_destroy ht = Some ht'" "cells ht' = Map.empty"
    and "dtor_log ht' = dtor_log ht @ destructed ht ps"
  using destroy_loop_ok [OF hash_ok_path [OF assms]] hash_ok_cells [OF assms] that
  by (simp add: zend_hash_destroy_def free_slots_def split: if_splits)

lemma zend_hash_clean_ok:
  assumes ok: "hash_ok ht ps"
  obtains ht' where "zend_hash_clean ht = Some ht'" "hash_ok ht' []"
    and "dtor_log ht' = dtor_log ht @ destructed ht ps" "nNextFreeElement ht' = 0"
    and "same_control ht' ht"
proof -
  let ?ht = "ht\<lparr>arBuckets := (if nTableMask ht \<noteq> 0 then replicate (unat (nTableSize ht)) None
      else arBuckets ht), pListHead := None, pListTail := None, nNumOfElements := 0,
      nNextFreeElement := 0, pInternalPointer := None\<rparr>"
  have p: "path (view pListNext (cells ?ht)) (pListHead ht) ps None"
    using hash_ok_path [OF ok] by simp
  let ?ht' = "?ht\<lparr>cells := Map.empty, dtor_log := dtor_log ht @ destructed ht ps\<rparr>"
  have e: "destructed ?ht ps = destructed ht ps" by (simp add: destructed_def entries_def)
  have "zend_hash_clean ht = Some ?ht'"
    using destroy_loop_ok [OF p] hash_ok_cells [OF ok] e by (simp add: zend_hash_clean_def)
  moreover have "hash_ok ?ht' []"
    using ok chains_ok_empty [where n = 1] chains_ok_empty
    by (auto simp: hash_ok_def order_ok_def)
  ultimately show ?thesis by (rule that) (simp_all add: same_control_def)
qed

lemma graceful_loop_ok:
  assumes "hash_ok ht ps"
  shows "\<exists>ht'. graceful_loop (head_opt ps) ht = Some ht' \<and> hash_ok ht' [] \<and>
    dtor_log ht' = dtor_log ht @ destructed ht ps"
  using assms
proof (induction ps arbitrary: ht)
  case Nil
  then show ?case by (subst graceful_loop.simps) (simp add: destructed_def)
next
  case (Cons p ps)
  have o: "order_ok ht (p # ps)" using Cons.prems by (rule order_ok_of)
  obtain ht1 where d: "zend_hash_apply_deleter ht p = Some (head_opt ps, ht1)" "del_done ht [] p ps ht1"
    using apply_deleter_ok [of ht "[]" p ps] Cons.prems by auto
  then have h: "hash_ok ht1 ps" "entries ht1 ps = entries ht ps" "pDestructor ht1 = pDestructor ht"
    by (auto simp: del_done_def same_control_def)
  obtain ht' where r: "graceful_loop (head_opt ps) ht1 = Some ht'" "hash_ok ht' []"
    "dtor_log ht' = dtor_log ht1 @ destructed ht1 ps"
    using Cons.IH [OF h(1)] by blast
  have "dtor_log ht' = dtor_log ht @ destructed ht (p # ps)"
    using r(3) d(2) h by (simp add: del_done_def destructed_def entries_Cons)
  then show ?case using r d(1) by (subst graceful_loop.simps) simp
qed

lemma graceful_reverse_loop_ok:
  assumes "hash_ok ht ps"
  shows "\<exists>ht'. graceful_reverse_loop ht = Some ht' \<and> hash_ok ht' [] \<and>
    dtor_log ht' = dtor_log ht @ rev (destructed ht ps)"
  using assms
proof (induction ps arbitrary: ht rule: rev_induct)
  case Nil
  then show ?case
    by (subst graceful_reverse_loop.simps) (simp add: destructed_def hash_ok_tail)
next
  case (snoc p ps)
  obtain ht1 where d: "zend_hash_apply_deleter ht p = Some (None, ht1)" "del_done ht ps p [] ht1"
    using apply_deleter_ok [of ht ps p "[]"] snoc.prems by auto
  then have h: "hash_ok ht1 ps" "entries ht1 ps = entries ht ps" "pDestructor ht1 = pDestructor ht"
    by (auto simp: del_done_def same_control_def)
  obtain ht' where r: "graceful_reverse_loop ht1 = Some ht'" "hash_ok ht' []"
    "dtor_log ht' = dtor_log ht1 @ rev (destructed ht1 ps)"
    using snoc.IH [OF h(1)] by blast
  have "dtor_log ht' = dtor_log ht @ rev (destructed ht (ps @ [p]))"
    using r(3) d(2) h by (simp add: del_done_def destructed_def entries_append entries_Cons)
  then show ?case using r d(1) hash_ok_tail [OF snoc.prems]
    by (subst graceful_reverse_loop.simps) simp
qed

subsection \<open>Apply\<close>

text \<open>
  The effect on the represented list: result state, what is left, and the data destructed.
\<close>

fun apply_spec ::
    "('s \<Rightarrow> hkey \<Rightarrow> 'v \<Rightarrow> uint \<times> 'v \<times> 's) \<Rightarrow> 's \<Rightarrow> (hkey \<times> 'v) list \<Rightarrow>
      's \<times> (hkey \<times> 'v) list \<times> 'v list" where
  "apply_spec g s [] = (s, [], [])"
| "apply_spec g s ((k, v) # kvs) = (case g s k v of (r, d, s1) \<Rightarrow>
     let keep = (if r AND ZEND_HASH_APPLY_REMOVE \<noteq> 0 then [] else [(k, d)]);
         gone = (if r AND ZEND_HASH_APPLY_REMOVE \<noteq> 0 then [d] else [])
     in if r AND ZEND_HASH_APPLY_STOP \<noteq> 0 then (s1, keep @ kvs, gone)
        else (case apply_spec g s1 kvs of (s2, kvs', gone') \<Rightarrow> (s2, keep @ kvs', gone @ gone')))"

definition apply_done ::
    "'v hashtable \<Rightarrow> 'v list \<Rightarrow> 'v hashtable \<Rightarrow> bool" where
  "apply_done ht gone ht' \<longleftrightarrow> same_control ht' ht \<and> nNextFreeElement ht' = nNextFreeElement ht \<and>
     dtor_log ht' = dtor_log ht @ (if pDestructor ht then gone else [])"

lemma apply_done_trans:
  "\<lbrakk>apply_done ht g1 ht1; apply_done ht1 g2 ht2\<rbrakk> \<Longrightarrow> apply_done ht (g1 @ g2) ht2"
  by (auto simp: apply_done_def same_control_def)

text \<open>The callback's change of the data, in place.\<close>

lemma call_apply_ok:
  fixes ht :: "'v hashtable" and d :: 'v
  assumes ok: "hash_ok ht (us @ p # vs)" and b: "cells ht p = Some b"
  defines "ht1 \<equiv> ht\<lparr>cells := (cells ht)(p \<mapsto> b\<lparr>pData := d\<rparr>)\<rparr>"
  shows "hash_ok ht1 (us @ p # vs)" "entries ht1 us = entries ht us" "entries ht1 vs = entries ht vs"
    and "the (view bentry (cells ht1) p) = (bkey b, d)" "apply_done ht [] ht1"
proof -
  have u: "UPDATE_DATA p d (pInline b) ht = Some ht1"
    using b by (simp add: UPDATE_DATA_def poke_eq ht1_def)
  show "hash_ok ht1 (us @ p # vs)"
    using update_in_place_ok [OF ok b, of d "pInline b"] u by auto
  have "distinct (us @ p # vs)" using ok by (rule hash_ok_distinct)
  then show "entries ht1 us = entries ht us" "entries ht1 vs = entries ht vs"
    by (auto simp: entries_def ht1_def)
  show "the (view bentry (cells ht1) p) = (bkey b, d)"
    by (simp add: ht1_def bentry_def bkey_def)
  show "apply_done ht [] ht1" by (simp add: ht1_def apply_done_def same_control_def)
qed

lemma apply_step_ok:
  assumes ok: "hash_ok ht (us @ p # vs)" and b: "cells ht p = Some b"
    and f: "f s b = (r, d, s1)"
  obtains ht' qs where "apply_step f s p ht = Some (r, s1, head_opt vs, ht')"
    and "hash_ok ht' (us @ qs @ vs)" "entries ht' us = entries ht us" "entries ht' vs = entries ht vs"
    and "entries ht' qs = (if r AND ZEND_HASH_APPLY_REMOVE \<noteq> 0 then [] else [(bkey b, d)])"
    and "apply_done ht (if r AND ZEND_HASH_APPLY_REMOVE \<noteq> 0 then [d] else []) ht'"
proof -
  let ?ht1 = "ht\<lparr>cells := (cells ht)(p \<mapsto> b\<lparr>pData := d\<rparr>)\<rparr>"
  note c = call_apply_ok [OF ok b, of d]
  have nx: "pListNext b = head_opt vs"
    using ok b by (auto simp: hash_ok_def order_ok_def intro: dll_next)
  show ?thesis
  proof (cases "r AND ZEND_HASH_APPLY_REMOVE \<noteq> 0")
    case True
    obtain ht' where d: "zend_hash_apply_deleter ?ht1 p = Some (head_opt vs, ht')" "del_done ?ht1 us p vs ht'"
      using c(1) by (rule apply_deleter_ok)
    have "apply_done ?ht1 [d] ht'" using d(2) c(4) by (simp add: del_done_def apply_done_def)
    then have "apply_done ht [d] ht'" using apply_done_trans [OF c(5)] by fastforce
    then show ?thesis using d c(2,3) True b f
      by (intro that [of ht' "[]"]) (simp_all add: apply_step_def call_apply_def del_done_def)
  next
    case False
    then show ?thesis using c b f nx
      by (intro that [of ?ht1 "[p]"]) (simp_all add: apply_step_def call_apply_def entries_Cons)
  qed
qed

lemma apply_loop_ok:
  assumes "hash_ok ht (us @ vs)" and f: "\<And>s b. f s b = g s (bkey b) (pData b)"
  shows "\<exists>ht' vs' s' kvs' gone. apply_spec g s (entries ht vs) = (s', kvs', gone) \<and>
    apply_loop f s (head_opt vs) ht = Some (s', ht') \<and> hash_ok ht' (us @ vs') \<and>
    entries ht' us = entries ht us \<and> entries ht' vs' = kvs' \<and> apply_done ht gone ht'"
  using assms(1)
proof (induction vs arbitrary: us ht s)
  case Nil
  then show ?case
    by (subst apply_loop.simps) (auto simp: apply_done_def intro: exI [of _ "[]"])
next
  case (Cons p vs)
  obtain b where b: "cells ht p = Some b" using live_cell [OF order_ok_of [OF Cons.prems], of p] by auto
  obtain r d s1 where fs: "f s b = (r, d, s1)" by (rule prod_cases3)
  obtain ht1 qs where st: "apply_step f s p ht = Some (r, s1, head_opt vs, ht1)"
    "hash_ok ht1 (us @ qs @ vs)" "entries ht1 us = entries ht us" "entries ht1 vs = entries ht vs"
    "entries ht1 qs = (if r AND ZEND_HASH_APPLY_REMOVE \<noteq> 0 then [] else [(bkey b, d)])"
    "apply_done ht (if r AND ZEND_HASH_APPLY_REMOVE \<noteq> 0 then [d] else []) ht1"
    using Cons.prems b fs by (rule apply_step_ok)
  have e: "entries ht (p # vs) = (bkey b, pData b) # entries ht vs"
    using b by (simp add: entries_Cons view_apply bentry_def)
  have gs: "g s (bkey b) (pData b) = (r, d, s1)" using fs f by simp
  show ?case
  proof (cases "r AND ZEND_HASH_APPLY_STOP \<noteq> 0")
    case True
    then show ?thesis using st gs
      by (subst apply_loop.simps) (auto simp: e entries_append Let_def intro!: exI [of _ "qs @ vs"])
  next
    case False
    have "hash_ok ht1 ((us @ qs) @ vs)" using st(2) by simp
    then obtain ht' vs' s' kvs' gone where ih: "apply_spec g s1 (entries ht1 vs) = (s', kvs', gone)"
      "apply_loop f s1 (head_opt vs) ht1 = Some (s', ht')" "hash_ok ht' ((us @ qs) @ vs')"
      "entries ht' (us @ qs) = entries ht1 (us @ qs)" "entries ht' vs' = kvs'" "apply_done ht1 gone ht'"
      using Cons.IH [of ht1 "us @ qs" s1] by blast
    have "length (entries ht' us) = length (entries ht1 us)" by (simp add: entries_def)
    then have "entries ht' us = entries ht1 us" "entries ht' qs = entries ht1 qs"
      using ih(4) by (simp_all add: entries_append)
    moreover have "apply_loop f s (head_opt (p # vs)) ht = Some (s', ht')"
      using st(1) False ih(2) by (subst apply_loop.simps) simp
    ultimately show ?thesis
      using st(3-) gs False ih(1,3,5) apply_done_trans [OF st(6) ih(6)]
      by (intro exI [of _ ht'] exI [of _ "qs @ vs'"]) (simp add: e entries_append Let_def)
  qed
qed

end
