(* ===== verification/ZendHashReorder.thy ===== *)
theory ZendHashReorder
  imports ZendHashTables
begin

text \<open>
  \<open>zend_hash_sort\<close> on the represented list: threading the sorted array back into the global list,
  renumbering the keys, and the rehash that renumbering needs.
\<close>

subsection \<open>Threading the array\<close>

lemma collect_loop_ok:
  assumes "path (view pListNext m) p ps None"
  shows "collect_loop m p acc = Some (acc @ ps)"
  using assms
proof (induction ps arbitrary: p acc)
  case Nil
  then show ?case by (simp add: collect_loop.simps)
next
  case (Cons q qs)
  then show ?case unfolding path_view_Cons by (subst collect_loop.simps) auto
qed

definition link_to :: "addr list \<Rightarrow> nat \<Rightarrow> (addr \<rightharpoonup> 'v bucket) \<Rightarrow> bool" where
  "link_to qs i m \<longleftrightarrow>
     view pListNext m (qs ! i) = Some (if Suc i < length qs then Some (qs ! Suc i) else None) \<and>
     view pListLast m (qs ! i) = Some (if 0 < i then Some (qs ! (i - 1)) else None)"

lemma relink_loop_ok:
  assumes "distinct qs" "set qs \<subseteq> dom m" "1 \<le> j" "j + k < length qs"
  shows "\<exists>m'. relink_loop k j qs m = Some m' \<and> view no_global m' = view no_global m \<and>
    (\<forall>i < length qs. if j \<le> i \<and> i < j + k then link_to qs i m' else m' (qs ! i) = m (qs ! i))"
  using assms
proof (induction k arbitrary: j m)
  case 0
  then show ?case by auto
next
  case (Suc k)
  have "qs ! j \<in> dom m" using Suc.prems by (auto simp: subset_iff)
  then obtain b where b: "m (qs ! j) = Some b" by auto
  let ?b = "b\<lparr>pListLast := Some (qs ! (j - 1)), pListNext := Some (qs ! (j + 1))\<rparr>"
  let ?m = "m(qs ! j \<mapsto> ?b)"
  have p: "poke (qs ! j) (\<lambda>b. b\<lparr>pListLast := Some (qs ! (j - 1)), pListNext := Some (qs ! (j + 1))\<rparr>) m = Some ?m"
    using b by (simp add: poke_eq)
  have sub: "set qs \<subseteq> dom ?m" using Suc.prems(2) by auto
  obtain m' where r: "relink_loop k (j + 1) qs ?m = Some m'" "view no_global m' = view no_global ?m"
    "\<forall>i < length qs. if j + 1 \<le> i \<and> i < j + 1 + k then link_to qs i m' else m' (qs ! i) = ?m (qs ! i)"
    using Suc.IH [OF Suc.prems(1) sub] Suc.prems(3,4) by fastforce
  have "no_global ?b = no_global b" by (simp add: no_global_def)
  then have v: "view no_global m' = view no_global m"
    using r(2) b by (auto simp: view_apply fun_eq_iff)
  have "if j \<le> i \<and> i < j + Suc k then link_to qs i m' else m' (qs ! i) = m (qs ! i)"
    if i: "i < length qs" for i
  proof (cases "i = j")
    case True
    then have "m' (qs ! i) = Some ?b" using r(3) i by auto
    then show ?thesis using True Suc.prems by (simp add: link_to_def view_apply)
  next
    case False
    then have "qs ! i \<noteq> qs ! j" using Suc.prems i by (simp add: nth_eq_iff_index_eq)
    then show ?thesis using r(3) [rule_format, OF i] False by (auto split: if_splits)
  qed
  then show ?case using r(1) p v by auto
qed

lemma relink_ok:
  assumes "distinct qs" "set qs \<subseteq> dom m" "qs \<noteq> []"
  obtains m' where "relink qs m = Some m'" "view no_global m' = view no_global m"
    and "dll pListNext pListLast m' (head_opt qs) (last_opt qs) qs"
proof -
  let ?n = "length qs"
  have "qs ! 0 \<in> dom m" using assms by (auto simp: subset_iff)
  then obtain b where b: "m (qs ! 0) = Some b" by auto
  have "\<exists>m'. relink qs m = Some m' \<and> view no_global m' = view no_global m \<and>
    (\<forall>i < ?n. link_to qs i m')"
  proof (cases "?n > 1")
    case False
    then have "?n = 1" using assms(3) by (cases qs) auto
    then show ?thesis using b
      by (intro exI [of _ "m(qs ! 0 \<mapsto> b\<lparr>pListLast := None, pListNext := None\<rparr>)"])
        (auto simp: relink_def poke_eq link_to_def view_apply fun_eq_iff no_global_def Let_def)
  next
    case True
    let ?b = "b\<lparr>pListLast := None, pListNext := Some (qs ! 1)\<rparr>"
    let ?m2 = "m(qs ! 0 \<mapsto> ?b)"
    have "set qs \<subseteq> dom ?m2" "1 + (?n - 2) < ?n" using assms(2) True by auto
    then obtain m3 where r: "relink_loop (?n - 2) 1 qs ?m2 = Some m3" "view no_global m3 = view no_global ?m2"
      "\<forall>i < ?n. if 1 \<le> i \<and> i < 1 + (?n - 2) then link_to qs i m3 else m3 (qs ! i) = ?m2 (qs ! i)"
      using relink_loop_ok [OF assms(1), of ?m2 1 "?n - 2"] by auto
    have "no_global ?b = no_global b" by (simp add: no_global_def)
    then have v3: "view no_global m3 = view no_global m"
      using r(2) b by (auto simp: view_apply fun_eq_iff)
    have "qs ! (?n - 1) \<in> dom m3"
      unfolding view_eq_dom [OF v3] using assms(2,3) by (auto simp: subset_iff)
    then obtain c where c: "m3 (qs ! (?n - 1)) = Some c" by auto
    let ?c = "c\<lparr>pListLast := Some (qs ! (?n - 2)), pListNext := None\<rparr>"
    let ?m4 = "m3(qs ! (?n - 1) \<mapsto> ?c)"
    have m4: "relink qs m = Some ?m4"
      using True b c r(1) by (simp add: relink_def poke_eq Let_def)
    have "no_global ?c = no_global c" by (simp add: no_global_def)
    moreover have "view no_global m3 (qs ! (?n - 1)) = Some (no_global c)"
      using c by (rule view_SomeI)
    ultimately have "view no_global ?m4 = view no_global m3"
      by (simp only: view_upd fun_upd_idem)
    then have v4: "view no_global ?m4 = view no_global m" using v3 by simp
    have "link_to qs i ?m4" if i: "i < ?n" for i
    proof -
      consider "i = ?n - 1" | "i = 0" "i \<noteq> ?n - 1" | "1 \<le> i" "i < 1 + (?n - 2)" "i \<noteq> ?n - 1"
        using i True by linarith
      then show ?thesis
      proof cases
        case 1
        then show ?thesis using True by (simp add: link_to_def view_apply numeral_2_eq_2)
      next
        case 2
        have "m3 (qs ! 0) = Some ?b" using r(3) i 2 by auto
        moreover have "qs ! 0 \<noteq> qs ! (?n - 1)" using assms(1) i 2 True by (simp add: nth_eq_iff_index_eq)
        ultimately show ?thesis using 2 True by (simp add: link_to_def view_apply)
      next
        case 3
        have "qs ! i \<noteq> qs ! (?n - 1)" using assms(1) i 3 True by (simp add: nth_eq_iff_index_eq)
        then show ?thesis using r(3) i 3 by (auto simp: link_to_def view_apply)
      qed
    qed
    then show ?thesis using m4 v4 by blast
  qed
  then obtain m' where m': "relink qs m = Some m'" "view no_global m' = view no_global m"
    "\<forall>i < ?n. link_to qs i m'" by blast
  have "dll pListNext pListLast m' (head_opt qs) (last_opt qs) qs"
    using m'(3) by (intro dll_nthI) (auto simp: link_to_def)
  with m' show ?thesis using that by blast
qed

subsection \<open>Sorting without renumbering\<close>

lemma few_elements:
  assumes "hash_ok ht ps" "length ps < 2 ^ 31"
  shows "nNumOfElements ht > 1 \<longleftrightarrow> length ps > 1" "nNumOfElements ht > 0 \<longleftrightarrow> length ps > 0"
    "nNumOfElements ht \<noteq> 0 \<longleftrightarrow> ps \<noteq> []"
proof -
  have "unat (nNumOfElements ht) = length ps"
    using assms hash_ok_count [OF assms(1)] by (simp add: unat_of_nat)
  then show "nNumOfElements ht > 1 \<longleftrightarrow> length ps > 1" "nNumOfElements ht > 0 \<longleftrightarrow> length ps > 0"
    "nNumOfElements ht \<noteq> 0 \<longleftrightarrow> ps \<noteq> []"
    by (auto simp: word_less_nat_alt word_neq_0_conv)
qed

text \<open>The table with its global list threaded through \<open>qs\<close>.\<close>

definition reordered :: "addr list \<Rightarrow> (addr \<rightharpoonup> 'v bucket) \<Rightarrow> 'v hashtable \<Rightarrow> 'v hashtable" where
  "reordered qs m ht = ht\<lparr>cells := m, pListHead := Some (qs ! 0), pInternalPointer := Some (qs ! 0),
     pListTail := Some (qs ! (length qs - 1))\<rparr>"

lemma reordered_ok:
  assumes ok: "hash_ok ht ps" and q: "mset qs = mset ps" "qs \<noteq> []"
    and m: "view no_global m = view no_global (cells ht)"
    "dll pListNext pListLast m (head_opt qs) (last_opt qs) qs"
  shows "hash_ok (reordered qs m ht) qs" "entries (reordered qs m ht) qs = entries ht qs"
    and "same_control (reordered qs m ht) ht" "dtor_log (reordered qs m ht) = dtor_log ht"
proof -
  have o: "order_ok ht ps" and c: "chains_ok (cells ht) (nTableMask ht) (arBuckets ht) (set ps)"
    using ok by (auto simp: hash_ok_def)
  have st: "set qs = set ps" "length qs = length ps"
    using q(1) mset_eq_setD mset_eq_length by blast+
  have hd: "head_opt qs = Some (qs ! 0)" "last_opt qs = Some (qs ! (length qs - 1))"
    using q(2) by (cases qs; simp add: last_opt_def last_conv_nth)+
  have "view pNext m = view pNext (cells ht)" "view pLast m = view pLast (cells ht)"
    "view bh m = view bh (cells ht)" "view bkey m = view bkey (cells ht)"
    "view bentry m = view bentry (cells ht)"
    using m(1) by (rule view_via, simp)+
  note vs = this
  have bo: "\<And>a b. m a = Some b \<Longrightarrow> bucket_ok a b"
    by (rule view_bucket_ok [OF m(1)]) (use o in \<open>simp_all add: order_ok_def\<close>)
  have dm: "dom m = set qs" using view_eq_dom [OF m(1)] o st by (simp add: order_ok_def)
  have keys: "distinct (map (view bkey m) qs)"
  proof -
    have "mset (map (view bkey (cells ht)) qs) = mset (map (view bkey (cells ht)) ps)"
      using q(1) by simp
    then show ?thesis using o unfolding vs order_ok_def by (metis mset_eq_imp_distinct_iff)
  qed
  have "qs ! 0 \<in> set ps" using q(2) st by (metis length_greater_0_conv nth_mem)
  then have "order_ok (reordered qs m ht) qs"
    using o st hd m(2) bo dm keys q(2) unfolding order_ok_def reordered_def
    by (auto split: if_splits)
  then show "hash_ok (reordered qs m ht) qs"
    using c st chains_ok_cong [OF vs(1-3)] by (simp add: hash_ok_def reordered_def)
  show "entries (reordered qs m ht) qs = entries ht qs"
    by (simp add: entries_def reordered_def vs)
  show "same_control (reordered qs m ht) ht" "dtor_log (reordered qs m ht) = dtor_log ht"
    by (simp_all add: same_control_def reordered_def)
qed

lemma sort_reorders:
  assumes ok: "hash_ok ht ps" and q: "mset qs = mset ps" "ps \<noteq> []"
  obtains m where "collect_loop (cells ht) (pListHead ht) [] = Some ps" "relink qs (cells ht) = Some m"
    and "hash_ok (reordered qs m ht) qs" "entries (reordered qs m ht) qs = entries ht qs"
    and "same_control (reordered qs m ht) ht" "dtor_log (reordered qs m ht) = dtor_log ht"
proof -
  have st: "set qs = set ps" "distinct qs" "qs \<noteq> []"
    using q hash_ok_distinct [OF ok] mset_eq_setD mset_eq_imp_distinct_iff by (blast, blast, auto)
  have "set qs \<subseteq> dom (cells ht)" using ok st by (simp add: hash_ok_def order_ok_def)
  then obtain m where m: "relink qs (cells ht) = Some m" "view no_global m = view no_global (cells ht)"
    "dll pListNext pListLast m (head_opt qs) (last_opt qs) qs"
    using relink_ok st(2,3) by blast
  have "collect_loop (cells ht) (pListHead ht) [] = Some ps"
    using collect_loop_ok [OF hash_ok_path [OF ok], of "[]"] by simp
  then show ?thesis using that [OF _ m(1)] reordered_ok [OF ok q(1) st(3) m(2,3)] by blast
qed

lemma zend_hash_sort_ok:
  assumes ok: "hash_ok ht ps" and few: "length ps < 2 ^ 31"
    and q: "sort_func (cells ht) ps = Some qs" "mset qs = mset ps"
  shows "\<exists>ht' rs. zend_hash_sort sort_func False ht = Some (SUCCESS, ht') \<and> hash_ok ht' rs \<and>
    entries ht' rs = entries ht qs \<and> same_control ht' ht \<and> dtor_log ht' = dtor_log ht"
proof (cases "length ps > 1")
  case False
  then have "qs = ps" using q(2) by (cases ps; cases "tl ps") auto
  then show ?thesis using False ok few_elements [OF ok few] by (auto simp: zend_hash_sort_def)
next
  case True
  then have "ps \<noteq> []" by auto
  then obtain m where m: "collect_loop (cells ht) (pListHead ht) [] = Some ps" "relink qs (cells ht) = Some m"
    "hash_ok (reordered qs m ht) qs" "entries (reordered qs m ht) qs = entries ht qs"
    "same_control (reordered qs m ht) ht" "dtor_log (reordered qs m ht) = dtor_log ht"
    using sort_reorders [OF ok q(2)] by blast
  have "zend_hash_sort sort_func False ht = Some (SUCCESS, reordered qs m ht)"
    using True few_elements [OF ok few] m(1,2) q(1) by (simp add: zend_hash_sort_def reordered_def)
  then show ?thesis using m(3-) by blast
qed

subsection \<open>Sorting with renumbering\<close>

definition renumbered :: "int \<Rightarrow> 'v bucket \<Rightarrow> 'v bucket" where
  "renumbered i b = b\<lparr>nKeyLength := 0, bh := word_of_int i\<rparr>"

lemma renumbered_simps [simp]:
  "pListNext (renumbered i b) = pListNext b" "pListLast (renumbered i b) = pListLast b"
  "pData (renumbered i b) = pData b" "bkey (renumbered i b) = KInt (word_of_int i)"
  "bucket_ok a b \<Longrightarrow> bucket_ok a (renumbered i b)"
  by (simp_all add: renumbered_def bkey_def bucket_ok_def)

lemma renumber_loop_ok:
  assumes "path (view pListNext m) p qs None" "0 \<le> i" "i + int (length qs) < 2 ^ 31"
  shows "\<exists>m'. renumber_loop p i m = Some (i + int (length qs), m') \<and> (\<forall>x. x \<notin> set qs \<longrightarrow> m' x = m x) \<and>
    (\<forall>j < length qs. m' (qs ! j) = map_option (renumbered (i + int j)) (m (qs ! j)))"
  using assms
proof (induction qs arbitrary: p i m)
  case Nil
  then show ?case by (simp add: renumber_loop.simps)
next
  case (Cons q qs)
  obtain b where b: "p = Some q" "m q = Some b" "path (view pListNext m) (pListNext b) qs None"
    using Cons.prems(1) unfolding path_view_Cons by blast
  have d: "q \<notin> set qs" using path_distinct [OF Cons.prems(1)] by simp
  let ?m = "m(q \<mapsto> renumbered i b)"
  have i: "i32 (i + 1) = i + 1" using Cons.prems(2,3) by (intro i32_id) simp_all
  have "path (view pListNext ?m) (pListNext b) qs None" using b(3) d by simp
  moreover have "0 \<le> i + 1" "i + 1 + int (length qs) < 2 ^ 31" using Cons.prems(2,3) by simp_all
  ultimately obtain m' where r: "renumber_loop (pListNext b) (i + 1) ?m = Some (i + 1 + int (length qs), m')"
    "\<forall>x. x \<notin> set qs \<longrightarrow> m' x = ?m x"
    "\<forall>j < length qs. m' (qs ! j) = map_option (renumbered (i + 1 + int j)) (?m (qs ! j))"
    using Cons.IH by blast
  have "m' ((q # qs) ! j) = map_option (renumbered (i + int j)) (m ((q # qs) ! j))"
    if j: "j < length (q # qs)" for j
  proof (cases j)
    case 0
    then show ?thesis using r(2) d b(2) by simp
  next
    case (Suc k)
    then have "qs ! k \<noteq> q" "k < length qs" using d j by auto
    then show ?thesis using r(3) Suc by (simp add: algebra_simps)
  qed
  moreover have "renumber_loop p i m = Some (i + int (length (q # qs)), m')"
    using b(1,2) r(1) i by (subst renumber_loop.simps) (simp add: renumbered_def)
  ultimately show ?case using r(2) by auto
qed

text \<open>The keys a renumbering hands out.\<close>

definition number_keys :: "(hkey \<times> 'v) list \<Rightarrow> (hkey \<times> 'v) list" where
  "number_keys kvs = map (\<lambda>j. (KInt (of_nat j), snd (kvs ! j))) [0..<length kvs]"

lemma renumber_ok:
  assumes ok: "hash_ok ht qs" and few: "length qs < 2 ^ 31" and ne: "qs \<noteq> []"
  obtains m where "renumber_loop (pListHead ht) 0 (cells ht) = Some (int (length qs), m)"
    and "\<And>n. order_ok (ht\<lparr>cells := m, nNextFreeElement := n\<rparr>) qs"
    and "\<And>n. entries (ht\<lparr>cells := m, nNextFreeElement := n\<rparr>) qs = number_keys (entries ht qs)"
proof -
  have o: "order_ok ht qs" using ok by (rule order_ok_of)
  have few': "0 + int (length qs) < 2 ^ 31" using few by simp
  obtain m where m: "renumber_loop (pListHead ht) 0 (cells ht) = Some (int (length qs), m)"
    "\<forall>x. x \<notin> set qs \<longrightarrow> m x = cells ht x"
    "\<forall>j < length qs. m (qs ! j) = map_option (renumbered (int j)) (cells ht (qs ! j))"
    using renumber_loop_ok [OF hash_ok_path [OF ok] _ few'] by auto
  have cell: "\<exists>b. cells ht (qs ! j) = Some b \<and> m (qs ! j) = Some (renumbered (int j) b)"
    if "j < length qs" for j
    using live_cell [OF o, of "qs ! j"] m(3) that by auto
  have each: "map_option f (m x) = map_option f (cells ht x)"
    if "\<And>i b. f (renumbered i b) = f b" for f :: "'a bucket \<Rightarrow> 'z" and x
  proof (cases "x \<in> set qs")
    case True
    then obtain j where "j < length qs" "x = qs ! j" by (auto simp: in_set_conv_nth)
    then show ?thesis using cell [of j] that by auto
  qed (use m(2) in simp)
  have vs: "view pListNext m = view pListNext (cells ht)" "view pListLast m = view pListLast (cells ht)"
    by (rule ext, simp only: view_apply, rule each, simp)+
  have dm: "dom m = dom (cells ht)" using view_eq_dom [OF vs(1)] .
  have bo: "bucket_ok a b" if "m a = Some b" for a b
  proof -
    have "a \<in> set qs" using that dm o by (auto simp: order_ok_def)
    then obtain j where "j < length qs" "a = qs ! j" by (auto simp: in_set_conv_nth)
    then show ?thesis using cell [of j] that o by (auto simp: order_ok_def)
  qed
  have keys: "map (view bkey m) qs = map (\<lambda>j. Some (KInt (of_nat j))) [0..<length qs]"
    by (intro nth_equalityI) (auto simp: view_apply dest!: cell)
  have "inj_on (\<lambda>j. Some (KInt (of_nat j :: ulong))) {..<length qs}"
  proof (rule inj_onI)
    fix i j assume "i \<in> {..<length qs}" "j \<in> {..<length qs}"
      and eq: "Some (KInt (of_nat i :: ulong)) = Some (KInt (of_nat j))"
    then have "i < 2 ^ 64" "j < 2 ^ 64" using few by auto
    then show "i = j" using eq by (simp add: word_of_nat_eq_iff take_bit_nat_eq_self)
  qed
  then have di: "distinct (map (view bkey m) qs)"
    unfolding keys by (simp add: distinct_map lessThan_atLeast0)
  have "order_ok (ht\<lparr>cells := m, nNextFreeElement := n\<rparr>) qs" for n
    using o dm bo di dll_view_cong [OF vs] by (simp add: order_ok_def)
  moreover have "entries (ht\<lparr>cells := m, nNextFreeElement := n\<rparr>) qs = number_keys (entries ht qs)" for n
  proof (rule nth_equalityI)
    fix j assume "j < length (entries (ht\<lparr>cells := m, nNextFreeElement := n\<rparr>) qs)"
    then have j: "j < length qs" by (simp add: entries_def)
    then obtain b where "cells ht (qs ! j) = Some b" "m (qs ! j) = Some (renumbered (int j) b)"
      using cell by blast
    then show "entries (ht\<lparr>cells := m, nNextFreeElement := n\<rparr>) qs ! j = number_keys (entries ht qs) ! j"
      using j by (simp add: entries_def number_keys_def view_apply bentry_def)
  qed (simp add: entries_def number_keys_def)
  ultimately show ?thesis using m(1) that by blast
qed

lemma zend_hash_sort_renumber_ok:
  assumes ok: "hash_ok ht ps" and few: "length ps < 2 ^ 31" and ne: "ps \<noteq> []"
    and q: "sort_func (cells ht) ps = Some qs" "mset qs = mset ps"
  shows "\<exists>ht'. zend_hash_sort sort_func True ht = Some (SUCCESS, ht') \<and> hash_ok ht' qs \<and>
    entries ht' qs = number_keys (entries ht qs) \<and> nNextFreeElement ht' = of_nat (length qs) \<and>
    same_control ht' ht \<and> dtor_log ht' = dtor_log ht"
proof -
  have st: "length qs < 2 ^ 31" "qs \<noteq> []" using q(2) few ne mset_eq_length by (metis, auto)
  obtain m where m: "collect_loop (cells ht) (pListHead ht) [] = Some ps" "relink qs (cells ht) = Some m"
    "hash_ok (reordered qs m ht) qs" "entries (reordered qs m ht) qs = entries ht qs"
    "same_control (reordered qs m ht) ht" "dtor_log (reordered qs m ht) = dtor_log ht"
    using sort_reorders [OF ok q(2) ne] by blast
  let ?ht1 = "reordered qs m ht"
  obtain m' where m': "renumber_loop (pListHead ?ht1) 0 (cells ?ht1) = Some (int (length qs), m')"
    "\<And>n. order_ok (?ht1\<lparr>cells := m', nNextFreeElement := n\<rparr>) qs"
    "\<And>n. entries (?ht1\<lparr>cells := m', nNextFreeElement := n\<rparr>) qs = number_keys (entries ?ht1 qs)"
    using renumber_ok [OF m(3) st] by blast
  let ?ht2 = "?ht1\<lparr>cells := m', nNextFreeElement := word_of_int (int (length qs))\<rparr>"
  have "nNumOfElements ?ht2 \<noteq> 0" "nTableMask ?ht2 \<noteq> 0"
    using few_elements [OF ok few] ne ok by (auto simp: reordered_def hash_ok_def order_ok_def)
  then obtain ht' where h: "zend_hash_rehash ?ht2 = Some ht'" "hash_ok ht' qs" "quiet ht' ?ht2"
    using zend_hash_rehash_ok [OF m'(2)] by blast
  have "zend_hash_sort sort_func True ht = Some (SUCCESS, ht')"
    using few_elements [OF ok few] ne m(1,2) q(1) m'(1) h(1)
    by (simp add: zend_hash_sort_def reordered_def Let_def)
  moreover have "entries ht' qs = number_keys (entries ht qs)"
    using quiet_same(1) [OF h(3)] m'(3) m(4) by simp
  ultimately show ?thesis
    using h(2,3) m(5,6) by (simp add: quiet_def same_control_def)
qed

text \<open>With \<open>zend_qsort\<close> as the sort function.\<close>

lemma qsort_buckets_ok:
  assumes "length ps \<le> 2 ^ 64"
  obtains qs where "qsort_buckets compar m ps = Some qs" "mset qs = mset ps"
    and "total_order (\<lambda>a b. compar (the (m a)) (the (m b))) \<Longrightarrow>
      sorted_wrt (\<lambda>a b. compar (the (m a)) (the (m b)) \<le> 0) qs"
  using zend_qsort_ok [of 8 ps "\<lambda>a b. compar (the (m a)) (the (m b))"] assms that
  by (auto simp: qsort_buckets_def)

end
