(* ===== verification/ZendHashKeys.thy ===== *)
theory ZendHashKeys
  imports ZendHashDelete
begin

text \<open>
  The discipline behind the key pointers. The engine interns a string once, so an interned
  pointer determines its bytes; \<open>pool\<close> is that map. A table is \<open>pooled\<close> when its buckets keep to
  it, a caller's key is \<open>arg_ok\<close> when it does. Then the pointer comparison of the lookups is
  harmless, and insertion keeps the table pooled.
\<close>

definition kid :: "'v bucket \<Rightarrow> cptr \<times> hkey" where
  "kid b = (ptr (arKey b), bkey b)"

definition kid_ok :: "(nat \<Rightarrow> byte list) \<Rightarrow> cptr \<times> hkey \<Rightarrow> bool" where
  "kid_ok pool pk = (case pk of (p, k) \<Rightarrow> (case p of
       Interned n \<Rightarrow> k = KStr (pool n)
     | KeyOf _ \<Rightarrow> (case k of KStr _ \<Rightarrow> True | KInt _ \<Rightarrow> False)
     | NullP \<Rightarrow> (case k of KStr _ \<Rightarrow> False | KInt _ \<Rightarrow> True)
     | _ \<Rightarrow> False))"

definition pooled :: "(nat \<Rightarrow> byte list) \<Rightarrow> 'v hashtable \<Rightarrow> bool" where
  "pooled pool ht \<longleftrightarrow> (\<forall>b \<in> ran (cells ht). kid_ok pool (kid b))"

definition arg_ok :: "(nat \<Rightarrow> byte list) \<Rightarrow> cstr \<Rightarrow> bool" where
  "arg_ok pool k \<longleftrightarrow> bytes k \<noteq> [] \<and>
     (case ptr k of Interned n \<Rightarrow> bytes k = pool n | Caller _ \<Rightarrow> True | _ \<Rightarrow> False)"

lemma pooled_coherent: "\<lbrakk>pooled pool ht; arg_ok pool k\<rbrakk> \<Longrightarrow> coherent ht k"
  by (fastforce simp: pooled_def arg_ok_def coherent_def kid_def kid_ok_def split: cptr.splits)

text \<open>Every key of \<open>ht'\<close> is one of \<open>ht\<close> or among \<open>new\<close>.\<close>

definition keys_from :: "(cptr \<times> hkey) set \<Rightarrow> (addr \<rightharpoonup> 'v bucket) \<Rightarrow> (addr \<rightharpoonup> 'v bucket) \<Rightarrow> bool" where
  "keys_from new m m' \<longleftrightarrow> (\<forall>b \<in> ran m'. kid b \<in> kid ` ran m \<union> new)"

lemma keys_from_pooled:
  assumes "keys_from new (cells ht) (cells ht')" "pooled pool ht" "\<And>pk. pk \<in> new \<Longrightarrow> kid_ok pool pk"
  shows "pooled pool ht'"
  unfolding pooled_def
proof
  fix b assume "b \<in> ran (cells ht')"
  then have "kid b \<in> kid ` ran (cells ht) \<union> new" using assms(1) by (simp add: keys_from_def)
  then show "kid_ok pool (kid b)"
    using assms(2) assms(3) [of "kid b"] by (auto simp: pooled_def simp del: split_paired_All)
qed

lemma keys_from_refl [simp]: "keys_from new m m"
  by (auto simp: keys_from_def)

lemma keys_from_trans: "\<lbrakk>keys_from n1 m m1; keys_from n2 m1 m2\<rbrakk> \<Longrightarrow> keys_from (n1 \<union> n2) m m2"
  by (fastforce simp: keys_from_def)

lemma keys_from_view: "view kid m' = view kid m \<Longrightarrow> keys_from new m m'"
proof -
  assume v: "view kid m' = view kid m"
  have "kid b \<in> kid ` ran m" if b: "m' a = Some b" for a b
  proof -
    obtain b' where "m a = Some b'" "kid b' = kid b" using v b by (rule view_eq_SomeE)
    then show ?thesis by (metis imageI ranI)
  qed
  then show ?thesis by (auto simp: keys_from_def ran_def)
qed

lemma keys_from_upd: "keys_from {kid b} m (m(a \<mapsto> b))"
  by (fastforce simp: keys_from_def ran_def)

lemma keys_from_sub: "m' \<subseteq>\<^sub>m m \<Longrightarrow> keys_from new m m'"
  by (fastforce simp: keys_from_def ran_def map_le_def dom_def)

lemma kid_simps [simp]: "kid (no_chain b) = kid b" "kid (no_global b) = kid b"
  by (simp_all add: kid_def)

lemma kid_upd [simp]:
  "kid (b\<lparr>pNext := x\<rparr>) = kid b" "kid (b\<lparr>pLast := x\<rparr>) = kid b"
  "kid (b\<lparr>pListNext := x\<rparr>) = kid b" "kid (b\<lparr>pListLast := x\<rparr>) = kid b"
  "kid (b\<lparr>pData := d\<rparr>) = kid b" "kid (b\<lparr>pInline := i\<rparr>) = kid b"
  by (simp_all add: kid_def bkey_def)

lemma rehash_loop_view:
  assumes "rehash_loop msk p m bks = Some r"
  shows "view no_chain (fst r) = view no_chain m"
  by (rule rehash_loop.raw_induct [where P = "\<lambda>_ _ m _ r. view no_chain (fst r) = view no_chain m",
        OF _ assms])
    (auto simp: Let_def bind_eq_Some_iff split: option.splits if_splits dest: CONNECT_chain_frame(1))

lemma resize_view:
  "ZEND_HASH_IF_FULL_DO_RESIZE ht = Some ht' \<Longrightarrow> view no_chain (cells ht') = view no_chain (cells ht)"
  by (auto simp: ZEND_HASH_IF_FULL_DO_RESIZE_def zend_hash_do_resize_def zend_hash_rehash_def Let_def
      bind_eq_Some_iff split: if_splits dest: rehash_loop_view)

lemma CONNECT_global_view:
  assumes "CONNECT_TO_GLOBAL_DLLIST p ht = Some ht'"
  shows "view kid (cells ht') = view kid (cells ht)"
proof -
  obtain m1 m2 where m1: "poke p (\<lambda>b. b\<lparr>pListLast := pListTail ht, pListNext := None\<rparr>) (cells ht) = Some m1"
    and m2: "poke_opt (pListTail ht) (\<lambda>b. b\<lparr>pListNext := Some p\<rparr>) m1 = Some m2" "cells ht' = m2"
    using assms by (auto simp: CONNECT_TO_GLOBAL_DLLIST_def bind_eq_Some_iff)
  show ?thesis using poke_view [OF m1, of kid] poke_opt_view [OF m2(1), of kid] m2(2) by simp
qed

lemma link_new_bucket_keys:
  assumes "link_new_bucket b i ht = Some (p, ht')"
  shows "keys_from {kid b} (cells ht) (cells ht')"
proof -
  obtain hp m ht1 where s: "slot ht i = Some hp"
    "CONNECT_TO_BUCKET_DLLIST (brk ht) hp ((cells ht)(brk ht \<mapsto> b)) = Some m"
    "CONNECT_TO_GLOBAL_DLLIST (brk ht) (ht\<lparr>cells := m, brk := Suc (brk ht)\<rparr>) = Some ht1"
    "cells ht' = cells ht1"
    using assms by (auto simp: link_new_bucket_def Let_def bind_eq_Some_iff)
  have "view kid m = view kid ((cells ht)(brk ht \<mapsto> b))"
    using CONNECT_chain_frame(1) [OF s(2)] by (rule view_via) simp
  then have "view kid (cells ht') = view kid ((cells ht)(brk ht \<mapsto> b))"
    using CONNECT_global_view [OF s(3)] s(4) by simp
  then have "keys_from {} ((cells ht)(brk ht \<mapsto> b)) (cells ht')" by (rule keys_from_view)
  then show ?thesis using keys_from_trans [OF keys_from_upd] by fastforce
qed

lemma UPDATE_DATA_keys:
  "UPDATE_DATA p d i ht = Some ht' \<Longrightarrow> keys_from new (cells ht) (cells ht')"
  by (auto simp: UPDATE_DATA_def bind_eq_Some_iff dest!: poke_view [where g = kid] intro: keys_from_view)

lemma put_keys:
  assumes "link_new_bucket b i ht = Some (p, ht1)"
    and "ZEND_HASH_IF_FULL_DO_RESIZE (ht1\<lparr>nNextFreeElement := n\<rparr>) = Some ht2"
  shows "keys_from {kid b} (cells ht) (cells ht2)"
proof -
  have "view kid (cells ht2) = view kid (cells (ht1\<lparr>nNextFreeElement := n\<rparr>))"
    using resize_view [OF assms(2)] by (rule view_via) simp
  then have "view kid (cells ht2) = view kid (cells ht1)" by simp
  then have "keys_from {} (cells ht1) (cells ht2)" by (rule keys_from_view)
  then show ?thesis using keys_from_trans [OF link_new_bucket_keys [OF assms(1)]] by fastforce
qed

text \<open>The key a new string bucket gets.\<close>

definition str_kid :: "cstr \<Rightarrow> addr \<Rightarrow> cptr \<times> hkey" where
  "str_kid k a = (if IS_INTERNED (ptr k) then ptr k else KeyOf a, KStr (bytes k))"

lemma kid_new_str_bucket: "bytes k \<noteq> [] \<Longrightarrow> kid (new_str_bucket a k h d i) = str_kid k a"
  by (simp add: kid_def str_kid_def new_str_bucket_ok(2)) (simp add: new_str_bucket_def)

lemma kid_new_index_bucket: "kid (new_index_bucket h d i) = (NullP, KInt h)"
  by (simp add: kid_def new_index_bucket_ok(2)) (simp add: new_index_bucket_def)

lemma put_str_keys:
  assumes "put_str ht k h d i flag = Some (r, dest, ht')" "bytes k \<noteq> []"
  shows "keys_from {str_kid k (brk ht)} (cells ht) (cells ht')"
proof -
  have same: "ht1\<lparr>nNextFreeElement := nNextFreeElement ht1\<rparr> = ht1" for ht1 :: "'a hashtable" by simp
  have new: "keys_from {str_kid k (brk ht)} (cells ht) (cells ht2)"
    if "link_new_bucket (new_str_bucket (brk ht) k h d i) j ht = Some (p, ht1)"
      "ZEND_HASH_IF_FULL_DO_RESIZE ht1 = Some ht2" for j p ht1 ht2
    using put_keys [OF that(1), of "nNextFreeElement ht1" ht2] that(2)
    by (simp add: same kid_new_str_bucket [OF assms(2)])
  have upd: "keys_from {str_kid k (brk ht)} (cells ht) (cells ht2)"
    if "UPDATE_DATA p d i (call_dtor x ht) = Some ht2" for p x ht2
    using UPDATE_DATA_keys [OF that] by (simp only: call_dtor_ok(3) CHECK_INIT_same)
  show ?thesis
    using assms(1) unfolding put_str_def Let_def
    by (auto simp: bind_eq_Some_iff split: option.splits if_splits intro: new upd)
qed

lemma index_update_keys:
  assumes "zend_hash_index_update_or_next_insert ht h0 d i flag = Some (r, dest, ht')"
  shows "keys_from {(NullP, KInt (if flag = HASH_NEXT_INSERT then nNextFreeElement ht else h0))}
    (cells ht) (cells ht')"
proof -
  let ?c = "CHECK_INIT ht"
  let ?new = "{(NullP, KInt (if flag = HASH_NEXT_INSERT then nNextFreeElement ht else h0))}"
  have new: "keys_from {(NullP, KInt h)} (cells ht) (cells ht2)"
    if "link_new_bucket (new_index_bucket h d i) j ?c = Some (p, ht1)"
      "ZEND_HASH_IF_FULL_DO_RESIZE (ht1\<lparr>nNextFreeElement := n\<rparr>) = Some ht2" for h j p ht1 ht2 n
    using put_keys [OF that] by (simp add: kid_new_index_bucket)
  have upd: "keys_from ?new (cells ht) (cells ht2)"
    if "UPDATE_DATA p d i (call_dtor x ?c) = Some ht2" for p x ht2
    using UPDATE_DATA_keys [OF that] by (simp only: call_dtor_ok(3) CHECK_INIT_same)
  define h where "h = (if flag = HASH_NEXT_INSERT then nNextFreeElement ht else h0)"
  define n where "n = next_free (nNextFreeElement ?c) h"
  obtain found where rest: "(case found of
        Some p \<Rightarrow>
          if flag = HASH_NEXT_INSERT \<or> flag = HASH_ADD then Some (FAILURE, None, ?c)
          else do {
            b \<leftarrow> cells ?c p;
            ht' \<leftarrow> UPDATE_DATA p d i (call_dtor (pData b) ?c);
            Some (SUCCESS, Some p, ht'\<lparr>nNextFreeElement := n\<rparr>) }
      | None \<Rightarrow> do {
          (p, ht1) \<leftarrow> link_new_bucket (new_index_bucket h d i) (bucket_index h (nTableMask ?c)) ?c;
          ht2 \<leftarrow> ZEND_HASH_IF_FULL_DO_RESIZE (ht1\<lparr>nNextFreeElement := n\<rparr>);
          Some (SUCCESS, Some p, ht2) }) = Some (r, dest, ht')"
    using assms
    unfolding zend_hash_index_update_or_next_insert_def Let_def bind_eq_Some_iff n_def h_def next_free_def
      CHECK_INIT_same
    by blast
  show ?thesis
  proof (cases found)
    case None
    then obtain p ht1 where "link_new_bucket (new_index_bucket h d i) (bucket_index h (nTableMask ?c)) ?c = Some (p, ht1)"
      "ZEND_HASH_IF_FULL_DO_RESIZE (ht1\<lparr>nNextFreeElement := n\<rparr>) = Some ht'"
      using rest by (auto simp: bind_eq_Some_iff)
    then show ?thesis using new unfolding h_def by blast
  next
    case (Some p)
    then show ?thesis using rest
      by (auto simp: bind_eq_Some_iff split: if_splits dest!: upd)
  qed
qed

lemma str_kid_ok: "arg_ok pool k \<Longrightarrow> kid_ok pool (str_kid k a)"
  by (cases "ptr k") (auto simp: arg_ok_def str_kid_def kid_ok_def)

end
