(* ===== verification/ZendHashSpec.thy ===== *)
theory ZendHashSpec
  imports ZendHashKeys
begin

text \<open>
  The contract of the hash table over the ordered association list it represents, and the
  properties of its one-element operations. \<open>represents pool ht kvs\<close> is the client's view: the
  invariant holds, the entries are \<open>kvs\<close> in insertion order, and key pointers keep to the pool of
  interned strings. \<open>ordered_table\<close> is the interface the clients of the hash rely on.
\<close>

definition represents :: "(nat \<Rightarrow> byte list) \<Rightarrow> 'v hashtable \<Rightarrow> (hkey \<times> 'v) list \<Rightarrow> bool" where
  "represents pool ht kvs \<longleftrightarrow> hash_repr ht kvs \<and> pooled pool ht"

lemma representsI: "\<lbrakk>hash_ok ht ps; entries ht ps = kvs; pooled pool ht\<rbrakk> \<Longrightarrow> represents pool ht kvs"
  by (auto simp: represents_def hash_repr_def)

lemma representsE:
  assumes "represents pool ht kvs"
  obtains ps where "hash_ok ht ps" "kvs = entries ht ps" "pooled pool ht"
  using assms by (auto simp: represents_def hash_repr_def)

lemma represents_distinct: "represents pool ht kvs \<Longrightarrow> distinct (map fst kvs)"
proof (erule representsE)
  fix ps assume ok: "hash_ok ht ps" and kvs: "kvs = entries ht ps"
  have "map Some (map fst kvs) = map (view bkey (cells ht)) ps"
    unfolding kvs entries_def
    by (auto simp: view_apply bentry_def dest!: live_cell [OF order_ok_of [OF ok]])
  then have "distinct (map Some (map fst kvs))" using ok by (simp add: hash_ok_def order_ok_def)
  then show ?thesis unfolding distinct_map by (simp add: inj_on_def)
qed

lemma represents_count: "represents pool ht kvs \<Longrightarrow> nNumOfElements ht = of_nat (length kvs)"
  by (auto simp: represents_def hash_repr_def hash_ok_def order_ok_def entries_def)

subsection \<open>Creation\<close>

lemma init_shift_range: "\<lbrakk>i \<le> 31; n < 0x80000000\<rbrakk> \<Longrightarrow>
  i \<le> init_shift i n \<and> init_shift i n \<le> 31 \<and> n \<le> push_bit (init_shift i n) 1"
proof (induction i n rule: init_shift.induct)
  case (1 i n)
  show ?case
  proof (cases "(push_bit i 1 :: uint) < n")
    case True
    then have "i \<noteq> 31" using 1(3) by auto
    then show ?thesis using 1 True by (auto simp: init_shift.simps [of i])
  qed (use 1 in \<open>auto simp: init_shift.simps [of i]\<close>)
qed

lemma zend_hash_init_ok:
  "table_size_ok (nTableSize (zend_hash_init n dtor persist grow))"
  "n \<le> 0x80000000 \<Longrightarrow> n \<le> nTableSize (zend_hash_init n dtor persist grow)"
proof -
  show "table_size_ok (nTableSize (zend_hash_init n dtor persist grow))"
  proof (cases "n \<ge> 0x80000000")
    case True
    then show ?thesis by (auto simp: zend_hash_init_def table_size_ok_def intro: exI [of _ 31])
  next
    case False
    then show ?thesis using init_shift_range [of 3 n]
      by (auto simp: zend_hash_init_def table_size_ok_def not_le)
  qed
  show "n \<le> nTableSize (zend_hash_init n dtor persist grow)" if "n \<le> 0x80000000"
    using that init_shift_range [of 3 n] by (auto simp: zend_hash_init_def not_le)
qed

lemma zend_hash_init_represents: "represents pool (zend_hash_init n dtor persist grow) []"
proof (rule representsI [where ps = "[]"])
  have "order_ok (zend_hash_init n dtor persist grow) []"
    using zend_hash_init_ok(1) unfolding order_ok_def by (simp add: zend_hash_init_def)
  moreover have "chains_ok Map.empty 0 [None] {}"
    using chains_ok_empty [where n = 1] by simp
  ultimately show "hash_ok (zend_hash_init n dtor persist grow) []"
    by (simp add: hash_ok_def) (simp add: zend_hash_init_def)
qed (simp_all add: entries_def pooled_def zend_hash_init_def)

subsection \<open>Insertion\<close>

definition put_spec ::
    "(nat \<Rightarrow> byte list) \<Rightarrow> 'v hashtable \<Rightarrow> (hkey \<times> 'v) list \<Rightarrow> hkey \<Rightarrow> 'v \<Rightarrow> addr option \<Rightarrow>
      'v hashtable \<Rightarrow> bool" where
  "put_spec pool ht kvs key d dest ht' \<longleftrightarrow>
     represents pool ht' (AList.update key d kvs) \<and>
     Option.bind dest (view bentry (cells ht')) = Some (key, d) \<and> same_control ht' ht \<and>
     dtor_log ht' = dtor_log ht @
       (case map_of kvs key of Some old \<Rightarrow> if pDestructor ht then [old] else [] | None \<Rightarrow> [])"

lemma map_fst_update: "k \<in> fst ` set kvs \<Longrightarrow> map fst (AList.update k v kvs) = map fst kvs"
  by (induction kvs) auto

text \<open>The address a put returns is that of the bucket with the key.\<close>

lemma put_done_key:
  assumes ok: "hash_ok ht ps" and p: "put_done ht ps key d dest ht' ps'"
  shows "Option.bind dest (view bentry (cells ht')) = Some (key, d)"
proof -
  have e: "entries ht' ps' = AList.update key d (entries ht ps)" and ok': "hash_ok ht' ps'"
    and dt: "Option.bind dest (data_at ht') = Some d"
    using p by (auto simp: put_done_def)
  obtain q where q: "dest = Some q" using dt by (cases dest) auto
  then obtain b where b: "cells ht' q = Some b" "pData b = d" using dt by (auto simp: data_at_def view_apply)
  have "bkey b = key"
  proof (cases "pos_of ht ps key")
    case None
    then have "AList.update key d (entries ht ps) = entries ht ps @ [(key, d)]"
      using pos_of_None [OF order_ok_of [OF ok]] by (simp add: update_new)
    then have "entries ht' [q] = [(key, d)]"
      using e p None q by (simp add: put_done_def entries_def)
    then show ?thesis using b by (simp add: entries_def view_apply bentry_def)
  next
    case (Some a)
    then have a: "a = q" "ps' = ps" using p q by (simp_all add: put_done_def)
    obtain c where c: "a \<in> set ps" "cells ht a = Some c" "bkey c = key" using Some by (rule pos_of_Some)
    have "key \<in> fst ` set (entries ht ps)" using Some pos_of_None [OF order_ok_of [OF ok], of key] by auto
    then have m: "map fst (entries ht' ps) = map fst (entries ht ps)"
      using e a by (simp add: map_fst_update)
    have "fst (the (view bentry (cells ht') x)) = fst (the (view bentry (cells ht) x))" if "x \<in> set ps" for x
      using m that by (simp add: entries_def)
    from this [of q] show ?thesis using b c a by (simp add: view_apply bentry_def)
  qed
  then show ?thesis using q b by (simp add: view_apply bentry_def)
qed

lemma put_done_spec:
  assumes "hash_ok ht ps" "put_done ht ps key d dest ht' ps'" "pooled pool ht'"
  shows "put_spec pool ht (entries ht ps) key d dest ht'"
  using assms(2,3) put_done_key [OF assms(1,2)]
  by (auto simp: put_done_def put_spec_def intro: representsI)

lemma put_spec_data: "put_spec pool ht kvs key d dest ht' \<Longrightarrow> Option.bind dest (data_at ht') = Some d"
  by (cases dest) (auto simp: put_spec_def data_at_def view_apply bentry_def)

lemma put_spec_CHECK_INIT [simp]:
  "put_spec pool (CHECK_INIT ht) kvs key d dest ht' = put_spec pool ht kvs key d dest ht'"
proof -
  have "same_control ht' (CHECK_INIT ht) = same_control ht' ht"
    by (simp add: same_control_def) (simp add: CHECK_INIT_def)
  then show ?thesis by (simp add: put_spec_def split: option.splits)
qed

lemma put_str_spec:
  assumes r: "represents pool ht kvs" and k: "arg_ok pool k"
    and h: "h = zend_inline_hash_func (bytes k)"
  shows "if flag = HASH_ADD \<and> map_of kvs (KStr (bytes k)) \<noteq> None
    then put_str (CHECK_INIT ht) k h d i flag = Some (FAILURE, None, CHECK_INIT ht)
    else \<exists>dest ht'. put_str (CHECK_INIT ht) k h d i flag = Some (SUCCESS, dest, ht') \<and>
      put_spec pool ht kvs (KStr (bytes k)) d dest ht' \<and> nNextFreeElement ht' = nNextFreeElement ht"
proof -
  obtain ps where ok: "hash_ok ht ps" and kvs: "kvs = entries ht ps" and p: "pooled pool ht"
    using r by (rule representsE)
  have ne: "bytes k \<noteq> []" using k by (simp add: arg_ok_def)
  let ?c = "CHECK_INIT ht"
  have co: "coherent ?c k" using pooled_coherent [OF p k] by simp
  note put = put_str_ok [OF CHECK_INIT_ok [OF ok] co ne h, of flag d i]
  have pos: "pos_of ht ps (KStr (bytes k)) = None \<longleftrightarrow> map_of kvs (KStr (bytes k)) = None"
    using pos_of_None [OF order_ok_of [OF ok]] by (simp add: kvs map_of_eq_None_iff)
  show ?thesis
  proof (cases "flag = HASH_ADD \<and> map_of kvs (KStr (bytes k)) \<noteq> None")
    case True
    then show ?thesis using put pos by simp
  next
    case False
    then have "\<not> (flag = HASH_ADD \<and> pos_of ?c ps (KStr (bytes k)) \<noteq> None)" using pos by simp
    then obtain dest ht' ps' where e: "put_str ?c k h d i flag = Some (SUCCESS, dest, ht')"
      "put_done ?c ps (KStr (bytes k)) d dest ht' ps'" "nNextFreeElement ht' = nNextFreeElement ?c"
      using put by auto
    have "keys_from {str_kid k (brk ?c)} (cells ht) (cells ht')"
      using put_str_keys [OF e(1) ne] by simp
    then have "pooled pool ht'"
      using p by (rule keys_from_pooled) (simp add: str_kid_ok [OF k])
    then have "put_spec pool ?c (entries ?c ps) (KStr (bytes k)) d dest ht'"
      by (rule put_done_spec [OF CHECK_INIT_ok(1) [OF ok] e(2)])
    then show ?thesis using e(1,3) False by (subst if_not_P) (simp_all add: kvs)
  qed
qed

lemma index_update_spec:
  assumes r: "represents pool ht kvs"
    and h: "h = (if flag = HASH_NEXT_INSERT then nNextFreeElement ht else h0)"
  shows "if (flag = HASH_ADD \<or> flag = HASH_NEXT_INSERT) \<and> map_of kvs (KInt h) \<noteq> None
    then zend_hash_index_update_or_next_insert ht h0 d i flag = Some (FAILURE, None, CHECK_INIT ht)
    else \<exists>dest ht'. zend_hash_index_update_or_next_insert ht h0 d i flag = Some (SUCCESS, dest, ht') \<and>
      put_spec pool ht kvs (KInt h) d dest ht' \<and>
      nNextFreeElement ht' = next_free (nNextFreeElement ht) h"
proof -
  obtain ps where ok: "hash_ok ht ps" and kvs: "kvs = entries ht ps" and p: "pooled pool ht"
    using r by (rule representsE)
  note put = index_update_ok [OF ok h, of d i]
  let ?c = "CHECK_INIT ht"
  have pos: "pos_of ht ps (KInt h) = None \<longleftrightarrow> map_of kvs (KInt h) = None"
    using pos_of_None [OF order_ok_of [OF ok]] by (simp add: kvs map_of_eq_None_iff)
  show ?thesis
  proof (cases "(flag = HASH_ADD \<or> flag = HASH_NEXT_INSERT) \<and> map_of kvs (KInt h) \<noteq> None")
    case True
    then show ?thesis using put pos by simp
  next
    case False
    then have "\<not> ((flag = HASH_ADD \<or> flag = HASH_NEXT_INSERT) \<and> pos_of ht ps (KInt h) \<noteq> None)"
      using pos by simp
    then obtain dest ht' ps' where
      e: "zend_hash_index_update_or_next_insert ht h0 d i flag = Some (SUCCESS, dest, ht')"
      "put_done ?c ps (KInt h) d dest ht' ps'"
      "nNextFreeElement ht' = next_free (nNextFreeElement ht) h"
      using put by auto
    have "pooled pool ht'"
      using index_update_keys [OF e(1)] p by (rule keys_from_pooled) (auto simp: kid_ok_def)
    then have "put_spec pool ?c (entries ?c ps) (KInt h) d dest ht'"
      by (rule put_done_spec [OF CHECK_INIT_ok(1) [OF ok] e(2)])
    then show ?thesis using e(1,3) False by (subst if_not_P) (simp_all add: kvs)
  qed
qed

subsection \<open>Lookup\<close>

text \<open>The address a lookup returns holds what the list has under the key.\<close>

definition found_spec :: "'v hashtable \<Rightarrow> (hkey \<times> 'v) list \<Rightarrow> hkey \<Rightarrow> addr option \<Rightarrow> bool" where
  "found_spec ht kvs key r \<longleftrightarrow> Option.bind r (data_at ht) = map_of kvs key \<and>
     (r = None \<longleftrightarrow> key \<notin> fst ` set kvs)"

lemma pos_of_found: "hash_ok ht ps \<Longrightarrow> found_spec ht (entries ht ps) key (pos_of ht ps key)"
  by (simp add: found_spec_def map_of_entries [OF order_ok_of] pos_of_None [OF order_ok_of])

lemma find_spec:
  assumes r: "represents pool ht kvs" and k: "arg_ok pool k"
  obtains r where "zend_hash_find ht k = Some r" "zend_hash_exists ht k = Some (r \<noteq> None)"
    and "zend_hash_quick_find ht k (zend_inline_hash_func (bytes k)) = Some r"
    and "found_spec ht kvs (KStr (bytes k)) r"
proof -
  obtain ps where ok: "hash_ok ht ps" and kvs: "kvs = entries ht ps" and p: "pooled pool ht"
    using r by (rule representsE)
  have ne: "bytes k \<noteq> []" using k by (simp add: arg_ok_def)
  note look = str_chain_lookup [OF ok pooled_coherent [OF p k] ne refl] slot_ok [OF order_ok_of [OF ok]]
  show ?thesis
    by (rule that [of "pos_of ht ps (KStr (bytes k))"])
      (use look pos_of_found [OF ok] ne in
        \<open>simp_all add: zend_hash_find_def zend_hash_exists_def zend_hash_quick_find_def Let_def kvs\<close>)
qed

lemma index_find_spec:
  assumes r: "represents pool ht kvs"
  obtains r where "zend_hash_index_find ht h = Some r" "zend_hash_index_exists ht h = Some (r \<noteq> None)"
    and "found_spec ht kvs (KInt h) r"
proof -
  obtain ps where ok: "hash_ok ht ps" and kvs: "kvs = entries ht ps" using r by (rule representsE)
  note look = index_chain_lookup [OF ok] slot_ok [OF order_ok_of [OF ok]]
  show ?thesis
    by (rule that [of "pos_of ht ps (KInt h)"])
      (use look pos_of_found [OF ok] in
        \<open>simp_all add: zend_hash_index_find_def zend_hash_index_exists_def kvs\<close>)
qed

subsection \<open>Deletion\<close>

text \<open>A deletion only takes cells away, so it keeps the table pooled.\<close>

lemma del_key_keys:
  assumes "zend_hash_del_key_or_index ht key h0 flag = Some (r, ht')"
  shows "keys_from new (cells ht) (cells ht')"
proof -
  have free: "keys_from new (cells ht) (cells (free_bucket p b t))" if "view kid (cells t) = view kid (cells ht)"
    for p b t
  proof -
    have "keys_from new (cells ht) (cells t)" using that by (rule keys_from_view)
    moreover have "cells (free_bucket p b t) \<subseteq>\<^sub>m cells t"
      by (auto simp: free_bucket_def call_dtor_def Let_def map_le_def)
    then have "keys_from {} (cells t) (cells (free_bucket p b t))" by (rule keys_from_sub)
    ultimately show ?thesis using keys_from_trans by fastforce
  qed
  have pn: "view kid m' = view kid m" if "poke_opt a (\<lambda>c. c\<lparr>pListNext := x\<rparr>) m = Some m'" for a x m m'
    using that by (rule poke_opt_view) simp
  have pp: "view kid m' = view kid m" if "poke_opt a (\<lambda>c. c\<lparr>pListLast := x\<rparr>) m = Some m'" for a x m m'
    using that by (rule poke_opt_view) simp
  have ug: "view kid (cells t') = view kid (cells t)" if "unlink_global p b t = Some t'" for p b t t'
    using that by (auto simp: unlink_global_def bind_eq_Some_iff dest!: pn pp)
  have pv: "view kid m' = view kid m" if "poke a (\<lambda>c. c\<lparr>pNext := x\<rparr>) m = Some m'" for a x m m'
    using that by (rule poke_view) simp
  have pl: "view kid m' = view kid m" if "poke_opt a (\<lambda>c. c\<lparr>pLast := x\<rparr>) m = Some m'" for a x m m'
    using that by (rule poke_opt_view) simp
  show ?thesis
    using assms
    by (auto simp: zend_hash_del_key_or_index_def Let_def bind_eq_Some_iff free_bucket_count
        split: option.splits if_splits dest!: ug pv pl intro!: free)
qed

lemma del_spec:
  assumes r: "represents pool ht kvs"
    and k: "key \<noteq> [] \<and> (flag = HASH_DEL_KEY \<or> h0 = zend_inline_hash_func key) \<and> k = KStr key \<or>
      key = [] \<and> flag \<noteq> HASH_DEL_KEY \<and> k = KInt h0"
  shows "case map_of kvs k of
      None \<Rightarrow> zend_hash_del_key_or_index ht key h0 flag = Some (FAILURE, ht)
    | Some d \<Rightarrow> \<exists>ht'. zend_hash_del_key_or_index ht key h0 flag = Some (SUCCESS, ht') \<and>
        represents pool ht' (AList.delete k kvs) \<and> same_control ht' ht \<and>
        nNextFreeElement ht' = nNextFreeElement ht \<and>
        dtor_log ht' = dtor_log ht @ (if pDestructor ht then [d] else [])"
proof -
  obtain ps where ok: "hash_ok ht ps" and kvs: "kvs = entries ht ps" and p: "pooled pool ht"
    using r by (rule representsE)
  have o: "order_ok ht ps" using ok by (rule order_ok_of)
  note d = del_key_or_index_ok [OF ok k]
  show ?thesis
  proof (cases "pos_of ht ps k")
    case None
    then show ?thesis using d map_of_entries [OF o] by (simp add: kvs)
  next
    case (Some a)
    obtain b where b: "cells ht a = Some b" "bkey b = k" using Some by (rule pos_of_Some)
    obtain us vs ht' where e: "ps = us @ a # vs"
      "zend_hash_del_key_or_index ht key h0 flag = Some (SUCCESS, ht')" "del_done ht us a vs ht'"
      using d Some by auto
    have "pooled pool ht'" using del_key_keys [OF e(2)] p by (rule keys_from_pooled [where new = "{}"]) simp
    then have "represents pool ht' (AList.delete k kvs)"
      using e(3) del_done_entries [OF o [unfolded e(1)] b(1) e(3)] b(2)
      by (intro representsI [where ps = "us @ vs"]) (simp_all add: del_done_def kvs e(1))
    moreover have "map_of kvs k = Some (pData b)"
      using map_of_entries [OF o, of k] Some b by (simp add: kvs data_at_def view_apply)
    ultimately show ?thesis using e(2,3) b
      by (simp add: del_done_def view_apply bentry_def)
  qed
qed

subsection \<open>The interface of an ordered table\<close>

text \<open>
  What the hash promises its clients: puts, deletions and lookups over the represented list. A
  sequence of operations is folded once, here.
\<close>

datatype ('k, 'v) table_op = Put 'k 'v | Del 'k

fun spec_op :: "('k, 'v) table_op \<Rightarrow> ('k \<times> 'v) list \<Rightarrow> ('k \<times> 'v) list" where
  "spec_op (Put k v) kvs = AList.update k v kvs"
| "spec_op (Del k) kvs = AList.delete k kvs"

locale ordered_table =
  fixes rep :: "'t \<Rightarrow> ('k \<times> 'v) list \<Rightarrow> bool" and key_ok :: "'k \<Rightarrow> bool"
    and put :: "'t \<Rightarrow> 'k \<Rightarrow> 'v \<Rightarrow> 't option" and get :: "'t \<Rightarrow> 'k \<Rightarrow> 'v option option"
    and del :: "'t \<Rightarrow> 'k \<Rightarrow> 't option"
  assumes put_law: "\<lbrakk>rep t kvs; key_ok k\<rbrakk> \<Longrightarrow> \<exists>t'. put t k v = Some t' \<and> rep t' (AList.update k v kvs)"
    and get_law: "\<lbrakk>rep t kvs; key_ok k\<rbrakk> \<Longrightarrow> get t k = Some (map_of kvs k)"
    and del_law: "\<lbrakk>rep t kvs; key_ok k\<rbrakk> \<Longrightarrow> \<exists>t'. del t k = Some t' \<and> rep t' (AList.delete k kvs)"
begin

definition op_ok :: "('k, 'v) table_op \<Rightarrow> bool" where
  "op_ok x = (case x of Put k v \<Rightarrow> key_ok k | Del k \<Rightarrow> key_ok k)"

fun run :: "('k, 'v) table_op list \<Rightarrow> 't \<Rightarrow> 't option" where
  "run [] t = Some t"
| "run (Put k v # xs) t = Option.bind (put t k v) (run xs)"
| "run (Del k # xs) t = Option.bind (del t k) (run xs)"

lemma run_refines:
  "\<lbrakk>rep t kvs; \<forall>x \<in> set xs. op_ok x\<rbrakk> \<Longrightarrow> \<exists>t'. run xs t = Some t' \<and> rep t' (fold spec_op xs kvs)"
proof (induction xs arbitrary: t kvs)
  case (Cons x xs)
  show ?case
  proof (cases x)
    case (Put k v)
    then obtain t' where "put t k v = Some t'" "rep t' (AList.update k v kvs)"
      using put_law [OF Cons.prems(1), of k v] Cons.prems(2) by (auto simp: op_ok_def)
    then show ?thesis using Cons.IH [of t'] Cons.prems(2) Put by simp
  next
    case (Del k)
    then obtain t' where "del t k = Some t'" "rep t' (AList.delete k kvs)"
      using del_law [OF Cons.prems(1), of k] Cons.prems(2) by (auto simp: op_ok_def)
    then show ?thesis using Cons.IH [of t'] Cons.prems(2) Del by simp
  qed
qed simp

lemma get_after_put:
  assumes "rep t kvs" "key_ok k" "key_ok k'" "put t k v = Some t'"
  shows "get t' k' = Some (if k' = k then Some v else map_of kvs k')"
  using put_law [OF assms(1,2), of v] get_law [OF _ assms(3)] assms(4)
  by (auto simp: update_conv')

lemma get_after_del:
  assumes "rep t kvs" "key_ok k" "key_ok k'" "del t k = Some t'"
  shows "get t' k' = Some (if k' = k then None else map_of kvs k')"
  using del_law [OF assms(1,2)] get_law [OF _ assms(3)] assms(4)
  by (auto simp: delete_conv')

end

text \<open>
  The operations of the hash in that form: string keys as a caller's C string, replacing updates,
  and a failed deletion of an absent key counted as done.
\<close>

definition caller_key :: "byte list \<Rightarrow> cstr" where
  "caller_key s = \<lparr>ptr = Caller 0, bytes = s\<rparr>"

definition hash_put :: "'v hashtable \<Rightarrow> hkey \<Rightarrow> 'v \<Rightarrow> 'v hashtable option" where
  "hash_put ht k v = map_option (\<lambda>(_, _, t). t) (case k of
       KStr s \<Rightarrow> zend_hash_add_or_update ht (caller_key s) v False HASH_UPDATE
     | KInt h \<Rightarrow> zend_hash_index_update_or_next_insert ht h v False HASH_UPDATE)"

definition hash_get :: "'v hashtable \<Rightarrow> hkey \<Rightarrow> 'v option option" where
  "hash_get ht k = map_option (\<lambda>r. Option.bind r (data_at ht)) (case k of
       KStr s \<Rightarrow> zend_hash_find ht (caller_key s)
     | KInt h \<Rightarrow> zend_hash_index_find ht h)"

definition hash_delete :: "'v hashtable \<Rightarrow> hkey \<Rightarrow> 'v hashtable option" where
  "hash_delete ht k = map_option snd (case k of
       KStr s \<Rightarrow> zend_hash_del ht s | KInt h \<Rightarrow> zend_hash_index_del ht h)"

definition hash_key_ok :: "hkey \<Rightarrow> bool" where
  "hash_key_ok k \<longleftrightarrow> k \<noteq> KStr []"

lemma delete_absent: "map_of kvs k = None \<Longrightarrow> AList.delete k kvs = kvs"
  by (induction kvs) (auto split: if_splits)

interpretation hash: ordered_table "represents pool" hash_key_ok hash_put hash_get hash_delete for pool
proof
  fix t :: "'a hashtable" and kvs k v
  assume r: "represents pool t kvs" and k: "hash_key_ok k"
  show "\<exists>t'. hash_put t k v = Some t' \<and> represents pool t' (AList.update k v kvs)"
  proof (cases k)
    case (KInt h)
    then show ?thesis using index_update_spec [OF r refl, of HASH_UPDATE h v False]
      by (auto simp: hash_put_def put_spec_def)
  next
    case (KStr s)
    then have s: "s \<noteq> []" and a: "arg_ok pool (caller_key s)"
      using k by (simp_all add: hash_key_ok_def arg_ok_def caller_key_def)
    show ?thesis using put_str_spec [OF r a refl, of HASH_UPDATE v False] KStr s
      by (auto simp: hash_put_def put_spec_def zend_hash_add_or_update_def caller_key_def)
  qed
next
  fix t :: "'a hashtable" and kvs k
  assume r: "represents pool t kvs" and k: "hash_key_ok k"
  show "hash_get t k = Some (map_of kvs k)"
  proof (cases k)
    case (KInt h)
    then show ?thesis using index_find_spec [OF r, of h] by (auto simp: hash_get_def found_spec_def)
  next
    case (KStr s)
    then have a: "arg_ok pool (caller_key s)"
      using k by (simp add: hash_key_ok_def arg_ok_def caller_key_def)
    show ?thesis using find_spec [OF r a] KStr
      by (auto simp: hash_get_def found_spec_def caller_key_def)
  qed
  show "\<exists>t'. hash_delete t k = Some t' \<and> represents pool t' (AList.delete k kvs)"
  proof (cases k)
    case (KInt h)
    show ?thesis using del_spec [OF r, of "[]" HASH_DEL_INDEX h k] KInt r
      by (auto simp: hash_delete_def zend_hash_index_del_def delete_absent split: option.splits)
  next
    case (KStr s)
    then have s: "s \<noteq> []" using k by (simp add: hash_key_ok_def)
    show ?thesis using del_spec [OF r, of s HASH_DEL_KEY 0 k] KStr s r
      by (auto simp: hash_delete_def zend_hash_del_def delete_absent split: option.splits)
  qed
qed

end
