(* ===== verification/ZendHashCopy.thy ===== *)
theory ZendHashCopy
  imports ZendHashSpec ZendHashTables
begin

text \<open>
  Copy and merge (Zend/zend_hash.c) on the represented lists: the target takes over the entries of
  the source in order, each through the copy constructor.
\<close>

definition ctor_fun :: "('v \<Rightarrow> 'v) option \<Rightarrow> 'v \<Rightarrow> 'v" where
  "ctor_fun ctor d = (case ctor of None \<Rightarrow> d | Some c \<Rightarrow> c d)"

definition take_over :: "bool \<Rightarrow> ('v \<Rightarrow> 'v) option \<Rightarrow> (hkey \<times> 'v) list \<Rightarrow> (hkey \<times> 'v) list \<Rightarrow> (hkey \<times> 'v) list" where
  "take_over overwrite ctor = fold (\<lambda>(k, d) kvs.
     if overwrite \<or> map_of kvs k = None then AList.update k (ctor_fun ctor d) kvs else kvs)"

lemma update_update: "AList.update k v (AList.update k w kvs) = AList.update k v kvs"
  by (induction kvs) auto

lemma represents_CHECK_INIT: "represents pool ht kvs \<Longrightarrow> represents pool (CHECK_INIT ht) kvs"
  by (erule representsE) (rule representsI, auto simp: CHECK_INIT_ok(1) pooled_def)

lemma represents_internal:
  "represents pool ht kvs \<Longrightarrow> represents pool (ht\<lparr>pInternalPointer := None\<rparr>) kvs"
  "represents pool ht kvs \<Longrightarrow> represents pool (ht\<lparr>pInternalPointer := pListHead ht\<rparr>) kvs"
proof -
  assume "represents pool ht kvs"
  then obtain ps where ok: "hash_ok ht ps" "kvs = entries ht ps" "pooled pool ht" by (rule representsE)
  have "hash_ok (ht\<lparr>pInternalPointer := None\<rparr>) ps" "hash_ok (ht\<lparr>pInternalPointer := pListHead ht\<rparr>) ps"
    using ok(1) hash_ok_head [OF ok(1)] by (auto simp: hash_ok_def order_ok_def dest: head_opt_in)
  then show "represents pool (ht\<lparr>pInternalPointer := None\<rparr>) kvs"
    "represents pool (ht\<lparr>pInternalPointer := pListHead ht\<rparr>) kvs"
    using ok(2,3) by (auto simp: pooled_def entries_def intro!: representsI)
qed

text \<open>The key of a source bucket is a fair argument for the target.\<close>

lemma key_arg_ok:
  assumes "bucket_ok a b" "kid_ok pool (kid b)" "nKeyLength b \<noteq> 0"
  shows "arg_ok pool (key_arg b)" "KStr (bytes (key_arg b)) = bkey b"
    "zend_inline_hash_func (bytes (key_arg b)) = bh b" "bytes (key_arg b) \<noteq> []"
proof -
  show k: "KStr (bytes (key_arg b)) = bkey b" using assms(3) by (simp add: key_arg_def bkey_def)
  show ne: "bytes (key_arg b) \<noteq> []" using assms(1,3) by (auto simp: key_arg_def bucket_ok_def)
  show "zend_inline_hash_func (bytes (key_arg b)) = bh b"
    using assms(1,3) by (simp add: key_arg_def bucket_ok_def)
  show "arg_ok pool (key_arg b)"
    using ne assms(2) k [symmetric]
    by (auto simp: arg_ok_def kid_ok_def kid_def split: cptr.splits)
      (auto simp: key_arg_def split: cptr.splits)
qed

text \<open>The copy constructor runs on the data of the new bucket.\<close>

lemma run_ctor_ok:
  assumes p: "put_spec pool ht kvs key d dest ht'"
  obtains ht2 where "run_ctor ctor dest ht' = Some ht2"
    and "represents pool ht2 (AList.update key (ctor_fun ctor d) kvs)" "same_control ht2 ht"
proof (cases ctor)
  case None
  then show ?thesis using p that by (simp add: run_ctor_def ctor_fun_def put_spec_def)
next
  case (Some c)
  obtain q b where q: "dest = Some q" "cells ht' q = Some b" "bentry b = (key, d)"
    using p by (cases dest) (auto simp: put_spec_def view_apply)
  obtain ps where ok: "hash_ok ht' ps" and e: "AList.update key d kvs = entries ht' ps"
    and pl: "pooled pool ht'"
    using p unfolding put_spec_def by (blast elim: representsE)
  obtain ht2 where u: "UPDATE_DATA q (c d) (pInline b) ht' = Some ht2" "hash_ok ht2 ps"
    "entries ht2 ps = AList.update (bkey b) (c d) (entries ht' ps)" "same_control ht2 ht'"
    using update_in_place_ok [OF ok q(2), of "c d" "pInline b"] by metis
  have "run_ctor ctor dest ht' = Some ht2"
    using u(1) q Some by (simp add: run_ctor_def UPDATE_DATA_def poke_eq bentry_def)
  moreover have "pooled pool ht2"
    using UPDATE_DATA_keys [OF u(1), of "{}"] pl by (rule keys_from_pooled) simp
  moreover have "entries ht2 ps = AList.update key (ctor_fun ctor d) kvs"
    using u(3) e [symmetric] q(3) Some by (simp add: update_update ctor_fun_def bentry_def)
  moreover have "same_control ht2 ht" using u(4) p by (auto simp: put_spec_def same_control_def)
  ultimately show ?thesis using u(2) that by (blast intro: representsI)
qed

lemma copy_put_ok:
  assumes r: "represents pool t kvs" and b: "bucket_ok a b" "kid_ok pool (kid b)"
  shows "\<exists>dest t'. (if nKeyLength b \<noteq> 0
      then zend_hash_quick_add_or_update t (key_arg b) (bh b) (pData b) i HASH_UPDATE
      else zend_hash_index_update_or_next_insert t (bh b) (pData b) i HASH_UPDATE) =
        Some (SUCCESS, dest, t') \<and> put_spec pool t kvs (bkey b) (pData b) dest t'"
proof (cases "nKeyLength b = 0")
  case True
  then show ?thesis using index_update_spec [OF r refl, of HASH_UPDATE "bh b" "pData b" i]
    by (auto simp: bkey_def)
next
  case False
  note k = key_arg_ok [OF b False]
  show ?thesis
    using put_str_spec [OF r k(1) k(3) [symmetric], of HASH_UPDATE "pData b" i] False k(2,4)
    by (auto simp: zend_hash_quick_add_or_update_def)
qed

lemma copy_step_ok:
  assumes r: "represents pool t kvs" and b: "bucket_ok a b" "kid_ok pool (kid b)"
  obtains t' where "copy_step ctor i stp source a b t = Some t'"
    and "represents pool t' (AList.update (bkey b) (ctor_fun ctor (pData b)) kvs)" "same_control t' t"
proof -
  let ?t1 = "if stp \<and> pInternalPointer source = Some a then t\<lparr>pInternalPointer := None\<rparr> else t"
  have r1: "represents pool ?t1 kvs" using represents_internal(1) [OF r] r by simp
  obtain dest t2 where p: "(if nKeyLength b \<noteq> 0
      then zend_hash_quick_add_or_update ?t1 (key_arg b) (bh b) (pData b) i HASH_UPDATE
      else zend_hash_index_update_or_next_insert ?t1 (bh b) (pData b) i HASH_UPDATE) =
        Some (SUCCESS, dest, t2)" "put_spec pool ?t1 kvs (bkey b) (pData b) dest t2"
    using copy_put_ok [OF r1 b] by blast
  obtain t3 where t3: "run_ctor ctor dest t2 = Some t3"
    "represents pool t3 (AList.update (bkey b) (ctor_fun ctor (pData b)) kvs)" "same_control t3 ?t1"
    using p(2) by (rule run_ctor_ok)
  have "copy_step ctor i stp source a b t = Some t3"
    unfolding copy_step_def Let_def p(1) using t3(1) by simp
  moreover have "same_control t3 t" using t3(3) by (auto simp: same_control_def split: if_splits)
  ultimately show ?thesis using t3(2) that by blast
qed

text \<open>The source entries still to come, walked along the list.\<close>

definition source_ok :: "(nat \<Rightarrow> byte list) \<Rightarrow> 'v hashtable \<Rightarrow> addr option \<Rightarrow> addr list \<Rightarrow> bool" where
  "source_ok pool s p ps \<longleftrightarrow> path (view pListNext (cells s)) p ps None \<and>
     (\<forall>a b. cells s a = Some b \<longrightarrow> bucket_ok a b \<and> kid_ok pool (kid b))"

lemma represents_source:
  assumes "hash_ok s ps" "pooled pool s"
  shows "source_ok pool s (pListHead s) ps"
  using hash_ok_path [OF assms(1)] hash_ok_bucket [OF assms(1)] assms(2)
  by (auto simp: source_ok_def pooled_def ran_def)

lemma copy_loop_ok:
  assumes "represents pool t kvs" "source_ok pool s p ps"
  shows "\<exists>t'. copy_loop ctor i stp s p t = Some t' \<and>
    represents pool t' (take_over True ctor (entries s ps) kvs) \<and> same_control t' t"
  using assms
proof (induction ps arbitrary: p t kvs)
  case Nil
  then show ?case by (subst copy_loop.simps) (simp add: source_ok_def take_over_def)
next
  case (Cons a ps)
  obtain b where b: "p = Some a" "cells s a = Some b" "source_ok pool s (pListNext b) ps"
    "bucket_ok a b" "kid_ok pool (kid b)"
    using Cons.prems(2) unfolding source_ok_def path_view_Cons by blast
  obtain t1 where t1: "copy_step ctor i stp s a b t = Some t1"
    "represents pool t1 (AList.update (bkey b) (ctor_fun ctor (pData b)) kvs)" "same_control t1 t"
    using Cons.prems(1) b(4,5) by (rule copy_step_ok)
  obtain t' where t': "copy_loop ctor i stp s (pListNext b) t1 = Some t'"
    "represents pool t' (take_over True ctor (entries s ps) (AList.update (bkey b) (ctor_fun ctor (pData b)) kvs))"
    "same_control t' t1"
    using Cons.IH [OF t1(2) b(3)] by blast
  have "copy_loop ctor i stp s p t = Some t'"
    using b(1,2) t1(1) t'(1) by (subst copy_loop.simps) simp
  then show ?case using t'(2) same_control_trans [OF t'(3) t1(3)] b(2)
    by (simp add: take_over_def entries_Cons view_apply bentry_def)
qed

lemma zend_hash_copy_ok:
  assumes "represents pool t kvs" "represents pool s skvs"
  shows "\<exists>t'. zend_hash_copy t s ctor i = Some t' \<and>
    represents pool t' (take_over True ctor skvs kvs) \<and> same_control t' t"
proof -
  obtain ps where s: "hash_ok s ps" "skvs = entries s ps" "pooled pool s"
    using assms(2) by (rule representsE)
  obtain t1 where t1: "copy_loop ctor i (pInternalPointer t = None) s (pListHead s) t = Some t1"
    "represents pool t1 (take_over True ctor skvs kvs)" "same_control t1 t"
    using copy_loop_ok [OF assms(1) represents_source [OF s(1,3)]] s(2) by blast
  show ?thesis
    using t1 represents_internal(2) [OF t1(2)] by (auto simp: zend_hash_copy_def same_control_def)
qed

subsection \<open>Merge\<close>

lemma merge_loop_ok:
  assumes step: "\<And>t kvs a b. \<lbrakk>represents pool t kvs; bucket_ok a b; kid_ok pool (kid b)\<rbrakk> \<Longrightarrow>
      \<exists>t'. step b t = Some t' \<and> represents pool t' (f (bentry b) kvs) \<and> same_control t' t"
    and "represents pool t kvs" "source_ok pool s p ps"
  shows "\<exists>t'. merge_loop step s p t = Some t' \<and>
    represents pool t' (fold f (entries s ps) kvs) \<and> same_control t' t"
  using assms(2,3)
proof (induction ps arbitrary: p t kvs)
  case Nil
  then show ?case by (subst merge_loop.simps) (simp add: source_ok_def)
next
  case (Cons a ps)
  obtain b where b: "p = Some a" "cells s a = Some b" "source_ok pool s (pListNext b) ps"
    "bucket_ok a b" "kid_ok pool (kid b)"
    using Cons.prems(2) unfolding source_ok_def path_view_Cons by blast
  obtain t1 where t1: "step b t = Some t1" "represents pool t1 (f (bentry b) kvs)" "same_control t1 t"
    using step [OF Cons.prems(1) b(4,5)] by blast
  obtain t' where t': "merge_loop step s (pListNext b) t1 = Some t'"
    "represents pool t' (fold f (entries s ps) (f (bentry b) kvs))" "same_control t' t1"
    using Cons.IH [OF t1(2) b(3)] by blast
  have "merge_loop step s p t = Some t'"
    using b(1,2) t1(1) t'(1) by (subst merge_loop.simps) simp
  then show ?case using t'(2) same_control_trans [OF t'(3) t1(3)] b(2)
    by (simp add: entries_Cons view_apply)
qed

lemma merge_step_ok:
  assumes r: "represents pool t kvs" and b: "bucket_ok a b" "kid_ok pool (kid b)"
    and mode: "mode = (if overwrite then HASH_UPDATE else HASH_ADD)"
  shows "\<exists>t'. merge_step ctor i mode b t = Some t' \<and>
    represents pool t' (take_over overwrite ctor [bentry b] kvs) \<and> same_control t' t"
proof -
  have ent: "take_over overwrite ctor [bentry b] kvs = (if overwrite \<or> map_of kvs (bkey b) = None
      then AList.update (bkey b) (ctor_fun ctor (pData b)) kvs else kvs)"
    by (simp add: take_over_def bentry_def)
  have ctor: "\<exists>t'. run_ctor ctor dest t2 = Some t' \<and>
      represents pool t' (AList.update (bkey b) (ctor_fun ctor (pData b)) kvs) \<and> same_control t' t"
    if "put_spec pool t kvs (bkey b) (pData b) dest t2" for dest t2
    using run_ctor_ok [OF that] by metis
  show ?thesis
  proof (cases "nKeyLength b = 0")
    case True
    then have k: "bkey b = KInt (bh b)" by (simp add: bkey_def)
    obtain q where q: "zend_hash_index_exists t (bh b) = Some (q \<noteq> None)" "found_spec t kvs (KInt (bh b)) q"
      using index_find_spec [OF r] by metis
    have q': "(q \<noteq> None) = (map_of kvs (bkey b) \<noteq> None)"
      using q(2) k by (simp add: found_spec_def map_of_eq_None_iff)
    obtain dest t2 where p: "zend_hash_index_update_or_next_insert t (bh b) (pData b) i HASH_UPDATE =
        Some (SUCCESS, dest, t2)" "put_spec pool t kvs (bkey b) (pData b) dest t2"
      using copy_put_ok [OF r b, of i] True by auto
    show ?thesis
    proof (cases "overwrite \<or> map_of kvs (bkey b) = None")
      case ins: True
      obtain t' where t': "run_ctor ctor dest t2 = Some t'"
        "represents pool t' (AList.update (bkey b) (ctor_fun ctor (pData b)) kvs)" "same_control t' t"
        using ctor [OF p(2)] by blast
      then show ?thesis
        using True ins q(1) q' p(1) unfolding ent by (auto simp: merge_step_def mode)
    next
      case False
      then show ?thesis using True q(1) q' r unfolding ent by (auto simp: merge_step_def mode)
    qed
  next
    case False
    note k = key_arg_ok [OF b False]
    have put: "zend_hash_quick_add_or_update t (key_arg b) (bh b) (pData b) i mode =
        put_str (CHECK_INIT t) (key_arg b) (bh b) (pData b) i mode"
      using k(4) by (simp add: zend_hash_quick_add_or_update_def)
    note spec = put_str_spec [OF r k(1) k(3) [symmetric], of mode "pData b" i, unfolded k(2)]
    show ?thesis
    proof (cases "overwrite \<or> map_of kvs (bkey b) = None")
      case True
      then obtain dest t2 where p: "put_str (CHECK_INIT t) (key_arg b) (bh b) (pData b) i mode =
          Some (SUCCESS, dest, t2)" "put_spec pool t kvs (bkey b) (pData b) dest t2"
        using spec mode by auto
      then show ?thesis using ctor [OF p(2)] False True put unfolding ent by (auto simp: merge_step_def)
    next
      case keep: False
      then have "put_str (CHECK_INIT t) (key_arg b) (bh b) (pData b) i mode = Some (FAILURE, None, CHECK_INIT t)"
        using spec mode by auto
      then show ?thesis using False keep put represents_CHECK_INIT [OF r] unfolding ent
        by (auto simp: merge_step_def)
    qed
  qed
qed

lemma take_over_fold: "fold (\<lambda>e. take_over overwrite ctor [e]) xs = take_over overwrite ctor xs"
  by (simp add: take_over_def)

lemma zend_hash_merge_ok:
  assumes "represents pool t kvs" "represents pool s skvs"
  shows "\<exists>t'. zend_hash_merge t s ctor i overwrite = Some t' \<and>
    represents pool t' (take_over overwrite ctor skvs kvs) \<and> same_control t' t"
proof -
  obtain ps where s: "hash_ok s ps" "skvs = entries s ps" "pooled pool s"
    using assms(2) by (rule representsE)
  let ?step = "merge_step ctor i (if overwrite then HASH_UPDATE else HASH_ADD)"
  have step: "\<exists>t'. ?step b t = Some t' \<and> represents pool t' (take_over overwrite ctor [bentry b] kvs) \<and>
      same_control t' t" if "represents pool t kvs" "bucket_ok a b" "kid_ok pool (kid b)" for t kvs a b
    using merge_step_ok [OF that refl] .
  have "\<exists>t1. merge_loop ?step s (pListHead s) t = Some t1 \<and>
      represents pool t1 (fold (\<lambda>e. take_over overwrite ctor [e]) (entries s ps) kvs) \<and> same_control t1 t"
    by (rule merge_loop_ok [OF _ assms(1) represents_source [OF s(1,3)]]) (rule step)
  then obtain t1 where t1: "merge_loop ?step s (pListHead s) t = Some t1"
    "represents pool t1 (fold (\<lambda>e. take_over overwrite ctor [e]) (entries s ps) kvs)" "same_control t1 t"
    by blast
  show ?thesis
    using t1 represents_internal(2) [OF t1(2)] s(2)
    by (auto simp: zend_hash_merge_def take_over_fold same_control_def)
qed

end
