(* ===== verification/ZendSymtable.thy ===== *)
theory ZendSymtable
  imports ZendHashSpec ZendHashBulk
begin

text \<open>
  Symbol tables (Zend/zend_hash.h): a string key that looks like an integer is stored under that
  integer. \<open>ZEND_HANDLE_NUMERIC_EX\<close> decides it; \<open>zend_symtable_*\<close> dispatch on the answer.

  The macro reads \<open>key[0 \<dots> length-1]\<close>, the last byte being the NUL of a C string; a read past
  the end is \<open>None\<close>.
\<close>

definition MAX_LENGTH_OF_LONG :: nat where "MAX_LENGTH_OF_LONG = 20"

definition key_at :: "byte list \<Rightarrow> nat \<Rightarrow> byte option" where
  "key_at key i = (if i < length key then Some (key ! i) else None)"

definition is_digit :: "byte \<Rightarrow> bool" where
  "is_digit c \<longleftrightarrow> 48 \<le> c \<and> c \<le> 57"

text \<open>\<open>while (++tmp != end && *tmp >= '0' && *tmp <= '9') idx = idx * 10 + (*tmp - '0');\<close>\<close>

fun digits_loop :: "ulong \<Rightarrow> byte list \<Rightarrow> ulong \<times> bool" where
  "digits_loop idx [] = (idx, True)"
| "digits_loop idx (c # cs) =
     (if is_digit c then digits_loop (idx * 10 + ucast (c - 48)) cs else (idx, False))"

definition ZEND_HANDLE_NUMERIC_EX :: "byte list \<Rightarrow> ulong option option" where
  "ZEND_HANDLE_NUMERIC_EX key = do {
     c \<leftarrow> key_at key 0;
     let tmp = (if c = 45 then 1 else 0);
     let end = length key - 1;
     d \<leftarrow> key_at key tmp;
     (if is_digit d then
        if key ! end \<noteq> 0 \<or> (d = 48 \<and> length key > 2) \<or> end - tmp > MAX_LENGTH_OF_LONG - 1
        then Some None
        else (case digits_loop (ucast (d - 48)) (drop (tmp + 1) (take end key)) of (idx, at_end) \<Rightarrow>
          if \<not> at_end then Some None
          else if c = 45
          then if idx - 1 > 0x7FFFFFFFFFFFFFFF then Some None else Some (Some (- idx))
          else if idx > 0x7FFFFFFFFFFFFFFF then Some None else Some (Some idx))
      else Some None) }"

definition zend_symtable_update ::
    "'v hashtable \<Rightarrow> cstr \<Rightarrow> 'v \<Rightarrow> bool \<Rightarrow> (zresult \<times> addr option \<times> 'v hashtable) option" where
  "zend_symtable_update ht k d ptr_sized = do {
     n \<leftarrow> ZEND_HANDLE_NUMERIC_EX (bytes k);
     (case n of
        Some idx \<Rightarrow> zend_hash_index_update_or_next_insert ht idx d ptr_sized HASH_UPDATE
      | None \<Rightarrow> zend_hash_add_or_update ht k d ptr_sized HASH_UPDATE) }"

definition zend_symtable_del :: "'v hashtable \<Rightarrow> byte list \<Rightarrow> (zresult \<times> 'v hashtable) option" where
  "zend_symtable_del ht key = do {
     n \<leftarrow> ZEND_HANDLE_NUMERIC_EX key;
     (case n of Some idx \<Rightarrow> zend_hash_index_del ht idx | None \<Rightarrow> zend_hash_del ht key) }"

definition zend_symtable_find :: "'v hashtable \<Rightarrow> cstr \<Rightarrow> addr option option" where
  "zend_symtable_find ht k = do {
     n \<leftarrow> ZEND_HANDLE_NUMERIC_EX (bytes k);
     (case n of Some idx \<Rightarrow> zend_hash_index_find ht idx | None \<Rightarrow> zend_hash_find ht k) }"

definition zend_symtable_exists :: "'v hashtable \<Rightarrow> cstr \<Rightarrow> bool option" where
  "zend_symtable_exists ht k = do {
     n \<leftarrow> ZEND_HANDLE_NUMERIC_EX (bytes k);
     (case n of Some idx \<Rightarrow> zend_hash_index_exists ht idx | None \<Rightarrow> zend_hash_exists ht k) }"

definition zend_symtable_update_current_key_ex ::
    "'v hashtable \<Rightarrow> byte list \<Rightarrow> nat \<Rightarrow> addr option option \<Rightarrow>
      (zresult \<times> addr option option \<times> 'v hashtable) option" where
  "zend_symtable_update_current_key_ex ht key mode pos = do {
     n \<leftarrow> ZEND_HANDLE_NUMERIC_EX key;
     zend_hash_update_current_key_ex ht
       (case n of Some idx \<Rightarrow> NEW_LONG idx | None \<Rightarrow> NEW_STRING key) mode pos }"

subsection \<open>Decimal notation\<close>

fun nat_digits :: "nat \<Rightarrow> byte list" where
  "nat_digits n = (if n < 10 then [of_nat (48 + n)] else nat_digits (n div 10) @ [of_nat (48 + n mod 10)])"

declare nat_digits.simps [simp del]

lemma nat_digits_small: "n < 10 \<Longrightarrow> nat_digits n = [of_nat (48 + n)]"
  by (subst nat_digits.simps) simp

lemma nat_digits_large: "\<not> n < 10 \<Longrightarrow> nat_digits n = nat_digits (n div 10) @ [of_nat (48 + n mod 10)]"
  by (subst nat_digits.simps) simp

definition decimal :: "int \<Rightarrow> byte list" where
  "decimal i = (if i < 0 then 45 # nat_digits (nat (- i)) else nat_digits (nat i))"

definition digit_value :: "byte \<Rightarrow> nat" where
  "digit_value c = unat c - 48"

definition value_of :: "byte list \<Rightarrow> nat" where
  "value_of ds = foldl (\<lambda>n c. n * 10 + digit_value c) 0 ds"

lemma value_of_snoc: "value_of (ds @ [c]) = value_of ds * 10 + digit_value c"
  by (simp add: value_of_def)

lemma is_digit_iff: "is_digit c \<longleftrightarrow> 48 \<le> unat c \<and> unat c \<le> 57"
  by (simp add: is_digit_def word_le_nat_alt)

lemma digit_value_less: "is_digit c \<Longrightarrow> digit_value c < 10"
  unfolding is_digit_iff digit_value_def by linarith

lemma digit_of_nat: "n < 10 \<Longrightarrow> is_digit (of_nat (48 + n)) \<and> digit_value (of_nat (48 + n)) = n"
  by (simp add: is_digit_iff digit_value_def unat_of_nat del: of_nat_add)

lemma of_nat_digit: "is_digit c \<Longrightarrow> of_nat (48 + digit_value c) = c"
  by (simp add: is_digit_iff digit_value_def)

lemma nat_digits_value: "value_of (nat_digits n) = n \<and> (\<forall>c \<in> set (nat_digits n). is_digit c) \<and> nat_digits n \<noteq> []"
proof (induction n rule: nat_digits.induct)
  case (1 n)
  show ?case
  proof (cases "n < 10")
    case True
    then show ?thesis
      using digit_of_nat [OF True] by (simp add: nat_digits_small value_of_def del: of_nat_add)
  next
    case False
    then show ?thesis
      using 1 digit_of_nat [of "n mod 10"] by (simp add: nat_digits_large value_of_snoc del: of_nat_add)
  qed
qed

text \<open>Canonical digit strings are the printed ones.\<close>

lemma nat_digits_canonical:
  assumes "\<forall>c \<in> set ds. is_digit c" "ds \<noteq> []" "hd ds \<noteq> 48 \<or> length ds = 1"
  shows "nat_digits (value_of ds) = ds"
  using assms
proof (induction ds rule: rev_induct)
  case (snoc c ds)
  have c: "is_digit c" using snoc.prems by simp
  show ?case
  proof (cases "ds = []")
    case True
    then show ?thesis using digit_value_less [OF c] of_nat_digit [OF c]
      by (simp add: nat_digits_small value_of_def del: of_nat_add)
  next
    case False
    then have hd: "hd ds \<noteq> 48" using snoc.prems by (cases ds) auto
    then have ih: "nat_digits (value_of ds) = ds" using snoc False by simp
    have pos: "value_of ds \<noteq> 0"
    proof
      assume "value_of ds = 0"
      then have "ds = [48]" using ih by (simp add: nat_digits_small)
      then show False using hd by simp
    qed
    have "\<not> value_of (ds @ [c]) < 10" using pos by (simp add: value_of_snoc)
    then have "nat_digits (value_of (ds @ [c])) =
        nat_digits (value_of ds) @ [of_nat (48 + digit_value c)]"
      using digit_value_less [OF c] by (simp add: nat_digits_large value_of_snoc)
    then show ?thesis using ih of_nat_digit [OF c] by simp
  qed
qed simp

lemma nat_digits_head: "hd (nat_digits n) = 48 \<longleftrightarrow> n = 0"
proof (induction n rule: nat_digits.induct)
  case (1 n)
  show ?case
  proof (cases "n < 10")
    case True
    have "(of_nat (48 + n) :: byte) = 48 \<longleftrightarrow> n = 0"
      using True by (auto simp: word_unat_eq_iff unat_of_nat simp del: of_nat_add)
    then show ?thesis using True by (simp add: nat_digits_small del: of_nat_add)
  next
    case False
    then show ?thesis using 1 nat_digits_value [of "n div 10"]
      by (simp add: nat_digits_large hd_append)
  qed
qed

lemma value_of_bound: "\<forall>c \<in> set ds. is_digit c \<Longrightarrow> value_of ds < 10 ^ length ds"
proof (induction ds rule: rev_induct)
  case (snoc c ds)
  then have "value_of ds < 10 ^ length ds" "digit_value c < 10" by (simp_all add: digit_value_less)
  then show ?case by (simp add: value_of_snoc)
qed (simp add: value_of_def)

lemma value_of_lower:
  assumes "\<forall>c \<in> set ds. is_digit c" "ds \<noteq> []" "hd ds \<noteq> 48"
  shows "10 ^ (length ds - 1) \<le> value_of ds"
  using assms
proof (induction ds rule: rev_induct)
  case (snoc c ds)
  show ?case
  proof (cases "ds = []")
    case True
    then have "unat c \<noteq> 48" using snoc.prems(3) by (auto simp: word_unat_eq_iff)
    then have "1 \<le> digit_value c" using snoc.prems(1) by (auto simp: is_digit_iff digit_value_def)
    then show ?thesis using True by (simp add: value_of_def)
  next
    case False
    then have "10 ^ (length ds - 1) \<le> value_of ds" using snoc by simp
    then have "10 * 10 ^ (length ds - 1) \<le> value_of (ds @ [c])" by (simp add: value_of_snoc)
    then show ?thesis using False by (cases ds) simp_all
  qed
qed simp

lemma nat_digits_length: "n < 10 ^ k \<Longrightarrow> 0 < k \<Longrightarrow> length (nat_digits n) \<le> k"
proof (cases "n = 0")
  case False
  assume n: "n < 10 ^ k" and "0 < k"
  have "10 ^ (length (nat_digits n) - 1) \<le> n"
    using value_of_lower [of "nat_digits n"] nat_digits_value [of n] False by (simp add: nat_digits_head)
  then have "(10::nat) ^ (length (nat_digits n) - 1) < 10 ^ k" using n by linarith
  then show ?thesis by (simp add: power_less_imp_less_exp)
qed (simp add: nat_digits_small)

subsection \<open>What the macro accepts\<close>

lemma digit_ucast: "is_digit c \<Longrightarrow> (ucast (c - 48) :: ulong) = of_nat (digit_value c)"
proof -
  assume c: "is_digit c"
  then have "unat (c - 48) = digit_value c"
    by (simp add: is_digit_iff digit_value_def unat_sub word_le_nat_alt)
  then show ?thesis by (metis of_nat_unat)
qed

lemma digits_loop_value:
  assumes "idx = of_nat (value_of us)"
  shows "digits_loop idx ds = (i, b) \<Longrightarrow>
    (b \<longleftrightarrow> (\<forall>c \<in> set ds. is_digit c)) \<and> (b \<longrightarrow> i = of_nat (value_of (us @ ds)))"
  using assms
proof (induction ds arbitrary: idx us)
  case (Cons c cs)
  show ?case
  proof (cases "is_digit c")
    case True
    have "idx * 10 + ucast (c - 48) = of_nat (value_of (us @ [c]))"
      using True Cons.prems(2) by (simp add: digit_ucast value_of_snoc)
    then show ?thesis using Cons.IH [of _ "us @ [c]"] Cons.prems(1) True by simp
  qed (use Cons.prems in auto)
qed auto

text \<open>The decision after the sign, for the digits \<open>ds\<close> that should follow it.\<close>

lemma handle_core:
  assumes "is_digit d" "b = (\<forall>c \<in> set ds. is_digit c)" "i = of_nat (value_of (d # ds))" "b"
    "length (d # ds) \<le> 19"
  shows "unat (i :: ulong) = value_of (d # ds)"
proof -
  have "value_of (d # ds) < 10 ^ length (d # ds)" using assms by (intro value_of_bound) simp
  also have "(10::nat) ^ length (d # ds) \<le> 10 ^ 19" by (rule power_increasing) (use assms(5) in simp_all)
  finally have "value_of (d # ds) < 2 ^ 64" by simp
  then show ?thesis using assms(3) by (simp add: unat_of_nat)
qed

definition long_range :: "int \<Rightarrow> bool" where
  "long_range n \<longleftrightarrow> -9223372036854775808 \<le> n \<and> n < 9223372036854775808"

lemma decimal_positive:
  "(\<exists>n. long_range n \<and> d # ds = decimal n \<and> idx = word_of_int n) \<longleftrightarrow>
    (\<forall>c \<in> set (d # ds). is_digit c) \<and> (d \<noteq> 48 \<or> ds = []) \<and> value_of (d # ds) < 2 ^ 63 \<and>
    idx = of_nat (value_of (d # ds))" (is "?L \<longleftrightarrow> ?R") if "d \<noteq> 45"
proof
  assume ?L
  then obtain n where n: "long_range n" "d # ds = decimal n" "idx = word_of_int n" by blast
  then have pos: "0 \<le> n" "d # ds = nat_digits (nat n)" using that by (auto simp: decimal_def split: if_splits)
  have v: "value_of (d # ds) = nat n" "\<forall>c \<in> set (d # ds). is_digit c"
    using nat_digits_value [of "nat n"] pos(2) by simp_all
  have "d = 48 \<longleftrightarrow> nat n = 0" using nat_digits_head [of "nat n"] by (simp flip: pos(2))
  then have "d \<noteq> 48 \<or> ds = []"
    using pos nat_digits_small [of "nat n"] by (cases "n = 0") auto
  moreover have "idx = of_nat (value_of (d # ds))" using n(3) pos(1) v(1) by (metis of_nat_nat of_int_of_nat_eq word_of_int_nat)
  ultimately show ?R using v n(1) pos(1) by (simp add: long_range_def)
next
  assume r: ?R
  then have "nat_digits (value_of (d # ds)) = d # ds" by (intro nat_digits_canonical) auto
  then show ?L using r by (intro exI [of _ "int (value_of (d # ds))"]) (simp add: long_range_def decimal_def)
qed

lemma decimal_negative:
  "(\<exists>n. long_range n \<and> 45 # d # ds = decimal n \<and> idx = word_of_int n) \<longleftrightarrow>
    (\<forall>c \<in> set (d # ds). is_digit c) \<and> d \<noteq> 48 \<and> value_of (d # ds) \<le> 2 ^ 63 \<and>
    idx = - of_nat (value_of (d # ds))" (is "?L \<longleftrightarrow> ?R")
proof
  assume ?L
  then obtain n where n: "long_range n" "45 # d # ds = decimal n" "idx = word_of_int n" by blast
  have "n < 0"
  proof (rule ccontr)
    assume "\<not> n < 0"
    then have "is_digit 45" using n(2) nat_digits_value [of "nat n"] by (metis decimal_def list.set_intros(1))
    then show False by (simp add: is_digit_def)
  qed
  then have neg: "n < 0" "d # ds = nat_digits (nat (- n))" using n(2) by (simp_all add: decimal_def)
  have v: "value_of (d # ds) = nat (- n)" "\<forall>c \<in> set (d # ds). is_digit c"
    using nat_digits_value [of "nat (- n)"] neg(2) by simp_all
  have "d = 48 \<longleftrightarrow> nat (- n) = 0" using nat_digits_head [of "nat (- n)"] by (simp flip: neg(2))
  then have "d \<noteq> 48" using neg(1) by simp
  moreover have "idx = - of_nat (value_of (d # ds))"
  proof -
    have "- n = int (value_of (d # ds))" using v(1) neg(1) by simp
    then have "n = - int (value_of (d # ds))" by simp
    then show ?thesis using n(3) by simp
  qed
  ultimately show ?R using v n(1) neg(1) by (simp add: long_range_def)
next
  assume r: ?R
  then have c: "nat_digits (value_of (d # ds)) = d # ds" by (intro nat_digits_canonical) auto
  have "value_of (d # ds) \<noteq> 0"
    using nat_digits_head [of "value_of (d # ds)"] c r by simp
  then show ?L using r c
    by (intro exI [of _ "- int (value_of (d # ds))"]) (simp add: long_range_def decimal_def)
qed

lemma handle_numeric_positive:
  assumes "d \<noteq> 45"
  shows "\<exists>r. ZEND_HANDLE_NUMERIC_EX (d # ds @ [0]) = Some r \<and>
    (r = Some idx \<longleftrightarrow> (\<exists>n. long_range n \<and> d # ds = decimal n \<and> idx = word_of_int n))"
proof (cases "is_digit d")
  case False
  then show ?thesis using assms unfolding decimal_positive [OF assms]
    by (simp add: ZEND_HANDLE_NUMERIC_EX_def key_at_def)
next
  case dig: True
  obtain i b where l: "digits_loop (ucast (d - 48)) ds = (i, b)" by (rule prod.exhaust)
  have "(ucast (d - 48) :: ulong) = of_nat (value_of [d])" using dig by (simp add: digit_ucast value_of_def)
  then have lv: "b = (\<forall>c \<in> set ds. is_digit c)" "b \<longrightarrow> i = of_nat (value_of (d # ds))"
    using digits_loop_value [OF _ l, of "[d]"] by auto
  have e: "ZEND_HANDLE_NUMERIC_EX (d # ds @ [0]) = Some (if (d = 48 \<and> ds \<noteq> []) \<or> length ds + 1 > 19 \<or> \<not> b
      then None else if i > 0x7FFFFFFFFFFFFFFF then None else Some i)"
    using dig assms l
    by (auto simp: ZEND_HANDLE_NUMERIC_EX_def key_at_def Let_def MAX_LENGTH_OF_LONG_def nth_append)
  show ?thesis
  proof (cases "b \<and> length (d # ds) \<le> 19")
    case True
    then have u: "unat i = value_of (d # ds)"
      using handle_core [OF dig lv(1) _ _ , of i] lv by auto
    then show ?thesis using True lv dig unfolding e decimal_positive [OF assms]
      by (auto simp: word_less_nat_alt)
  next
    case False
    have "\<not> value_of (d # ds) < 2 ^ 63" if "b" "d \<noteq> 48 \<or> ds = []" "length (d # ds) > 19"
    proof -
      have "10 ^ (length (d # ds) - 1) \<le> value_of (d # ds)"
        using that lv dig by (intro value_of_lower) auto
      moreover have "(10::nat) ^ 19 \<le> 10 ^ (length (d # ds) - 1)"
        by (rule power_increasing) (use that in simp_all)
      ultimately show ?thesis by simp
    qed
    then show ?thesis using False lv dig unfolding e decimal_positive [OF assms] by auto
  qed
qed

lemma handle_numeric_negative:
  "\<exists>r. ZEND_HANDLE_NUMERIC_EX (45 # d # ds @ [0]) = Some r \<and>
    (r = Some idx \<longleftrightarrow> (\<exists>n. long_range n \<and> 45 # d # ds = decimal n \<and> idx = word_of_int n))"
proof (cases "is_digit d")
  case False
  then show ?thesis unfolding decimal_negative
    by (simp add: ZEND_HANDLE_NUMERIC_EX_def key_at_def)
next
  case dig: True
  obtain i b where l: "digits_loop (ucast (d - 48)) ds = (i, b)" by (rule prod.exhaust)
  have "(ucast (d - 48) :: ulong) = of_nat (value_of [d])" using dig by (simp add: digit_ucast value_of_def)
  then have lv: "b = (\<forall>c \<in> set ds. is_digit c)" "b \<longrightarrow> i = of_nat (value_of (d # ds))"
    using digits_loop_value [OF _ l, of "[d]"] by auto
  have e: "ZEND_HANDLE_NUMERIC_EX (45 # d # ds @ [0]) = Some (if d = 48 \<or> length ds + 1 > 19 \<or> \<not> b
      then None else if i - 1 > 0x7FFFFFFFFFFFFFFF then None else Some (- i))"
    using dig l
    by (auto simp: ZEND_HANDLE_NUMERIC_EX_def key_at_def Let_def MAX_LENGTH_OF_LONG_def nth_append)
  show ?thesis
  proof (cases "b \<and> length (d # ds) \<le> 19 \<and> d \<noteq> 48")
    case True
    then have u: "unat i = value_of (d # ds)"
      using handle_core [OF dig lv(1) _ _ , of i] lv by auto
    have "nat_digits (value_of (d # ds)) = d # ds" using True lv dig by (intro nat_digits_canonical) auto
    then have "value_of (d # ds) \<noteq> 0" using nat_digits_head [of "value_of (d # ds)"] True by simp
    then have "unat (i - 1) = value_of (d # ds) - 1"
      using u by (metis unat_0 unat_minus_one)
    then show ?thesis using True lv dig u \<open>value_of (d # ds) \<noteq> 0\<close> unfolding e decimal_negative
      by (auto simp: word_less_nat_alt)
  next
    case False
    have "\<not> value_of (d # ds) \<le> 2 ^ 63" if "b" "d \<noteq> 48" "length (d # ds) > 19"
    proof -
      have "10 ^ (length (d # ds) - 1) \<le> value_of (d # ds)"
        using that lv dig by (intro value_of_lower) auto
      moreover have "(10::nat) ^ 19 \<le> 10 ^ (length (d # ds) - 1)"
        by (rule power_increasing) (use that in simp_all)
      ultimately show ?thesis by simp
    qed
    then show ?thesis using False lv dig unfolding e decimal_negative by auto
  qed
qed

lemma handle_numeric_ok:
  "\<exists>r. ZEND_HANDLE_NUMERIC_EX (s @ [0]) = Some r \<and>
    (\<forall>idx. r = Some idx \<longleftrightarrow> (\<exists>n. long_range n \<and> s = decimal n \<and> idx = word_of_int n))"
proof -
  have one: "\<exists>r. ZEND_HANDLE_NUMERIC_EX (s @ [0]) = Some r \<and>
      (r = Some idx \<longleftrightarrow> (\<exists>n. long_range n \<and> s = decimal n \<and> idx = word_of_int n))" for idx
  proof (cases s)
    case Nil
    have "\<not> is_digit 0" by (simp add: is_digit_def)
    moreover have "decimal n \<noteq> []" for n
      using nat_digits_value [of "nat n"] by (simp add: decimal_def)
    then have "\<not> (\<exists>n. s = decimal n)" using Nil by metis
    ultimately show ?thesis using Nil by (auto simp: ZEND_HANDLE_NUMERIC_EX_def key_at_def)
  next
    case (Cons d ds)
    show ?thesis
    proof (cases "d = 45")
      case False
      then show ?thesis using handle_numeric_positive [OF False] Cons by simp
    next
      case True
      show ?thesis
      proof (cases ds)
        case Nil
        have "\<not> is_digit 0" by (simp add: is_digit_def)
        moreover have "[45] \<noteq> decimal n" for n
        proof
          assume "[45] = decimal n"
          then have "nat_digits (nat n) = [45] \<or> nat_digits (nat (- n)) = []"
            by (auto simp: decimal_def split: if_splits)
          then have "is_digit 45"
            using nat_digits_value [of "nat n"] nat_digits_value [of "nat (- n)"] by auto
          then show False by (simp add: is_digit_def)
        qed
        ultimately show ?thesis using Cons True Nil
          by (auto simp: ZEND_HANDLE_NUMERIC_EX_def key_at_def)
      next
        case (Cons d' ds')
        then show ?thesis using handle_numeric_negative \<open>s = d # ds\<close> True by simp
      qed
    qed
  qed
  then obtain r where r: "ZEND_HANDLE_NUMERIC_EX (s @ [0]) = Some r" by blast
  then show ?thesis using one by auto
qed

end
