(* ===== verification/ZendHashContract.thy ===== *)
theory ZendHashContract
  imports ZendHashReorder ZendHashCopy ZendSymtable
begin

text \<open>
  The properties of the hash table, stated over the list of entries a table represents, and a
  concrete table on which their hypotheses hold. The lemmas they rest on are in the theories this
  one imports.
\<close>

subsection \<open>Sequences of operations\<close>

fun hash_run :: "(hkey, 'v) table_op list \<Rightarrow> 'v hashtable \<Rightarrow> 'v hashtable option" where
  "hash_run [] ht = Some ht"
| "hash_run (Put k v # xs) ht = Option.bind (hash_put ht k v) (hash_run xs)"
| "hash_run (Del k # xs) ht = Option.bind (hash_delete ht k) (hash_run xs)"

lemma hash_run_eq: "hash_run xs ht = hash.run xs ht"
  by (induction xs ht rule: hash_run.induct) (auto simp: bind_eq_Some_iff split: Option.bind_splits)

lemmas hash_run_refines = hash.run_refines [folded hash_run_eq]

text \<open>Keys \<open>"a\0"\<close>, 5 and \<open>"b\0"\<close>, entered in that order into a table with a destructor.\<close>

definition demo_ops :: "(hkey, nat) table_op list" where
  "demo_ops = [Put (KStr [97, 0]) 10, Put (KInt 5) 20, Put (KStr [98, 0]) 30]"

definition demo_table :: "nat hashtable" where
  "demo_table = the (hash_run demo_ops (zend_hash_init 8 True False (\<lambda>_. True)))"

definition demo_entries :: "(hkey \<times> nat) list" where
  "demo_entries = [(KStr [97, 0], 10), (KInt 5, 20), (KStr [98, 0], 30)]"

abbreviation no_pool :: "nat \<Rightarrow> byte list" where
  "no_pool \<equiv> \<lambda>_. [120, 0]"

lemma demo_ops_ok: "\<forall>x \<in> set demo_ops. hash.op_ok x"
  by (simp add: demo_ops_def hash.op_ok_def hash_key_ok_def)

lemma demo_represents: "represents no_pool demo_table demo_entries"
proof -
  obtain t where "hash_run demo_ops (zend_hash_init 8 True False (\<lambda>_. True)) = Some t"
    and "represents no_pool t (fold spec_op demo_ops [])"
    using hash_run_refines [OF zend_hash_init_represents demo_ops_ok] by blast
  moreover have "fold spec_op demo_ops [] = demo_entries"
    by (simp add: demo_ops_def demo_entries_def)
  ultimately show ?thesis by (simp add: demo_table_def)
qed

lemma demo_control: "pDestructor demo_table" "nApplyCount demo_table = 0" "nNextFreeElement demo_table = 6"
  by code_simp+

subsection \<open>The hash function\<close>

lemma hash_tail_fold: "length cs < 8 \<Longrightarrow> hash_tail h cs = foldl hash_step h cs"
  by (cases "(h, cs)" rule: hash_tail.cases) auto

lemma hash_loop_fold: "hash_loop h cs = foldl hash_step h cs"
  by (induction h cs rule: hash_loop.induct) (auto simp: hash_tail_fold)

text \<open>
  C26. The hash function, unrolled eight bytes at a time with a switch for the rest, computes
  \<open>h * 33 + c\<close> over all bytes of the key from 5381.
\<close>

theorem zend_inline_hash_func_fold:
  "zend_inline_hash_func key = foldl (\<lambda>h c. h * 33 + scast c) 5381 key"
proof -
  have "hash_step = (\<lambda>h c. h * 33 + scast c)"
    by (intro ext) (simp add: hash_step_def push_bit_eq_mult algebra_simps)
  then show ?thesis by (simp add: zend_inline_hash_func_def hash_loop_fold)
qed

subsection \<open>Operations on one element\<close>

text \<open>
  C4. From a fresh table of any initial size, every sequence of updates and deletions (string keys
  nonempty) runs without undefined behaviour and returns, and the table then represents exactly
  what the same operations make of an insertion-ordered association list: lookups, the element
  count and the absence of duplicate keys follow it. Resizes and collisions do not show.
\<close>

theorem hash_refines_assoc_list:
  assumes "\<forall>k v. Put k v \<in> set xs \<or> Del k \<in> set xs \<longrightarrow> k \<noteq> KStr []"
  shows "\<exists>ht. hash_run xs (zend_hash_init n dtor persist grow) = Some ht \<and>
    represents pool ht (fold spec_op xs []) \<and> nNumOfElements ht = of_nat (length (fold spec_op xs [])) \<and>
    distinct (map fst (fold spec_op xs [])) \<and>
    (\<forall>k. k \<noteq> KStr [] \<longrightarrow> hash_get ht k = Some (map_of (fold spec_op xs []) k))"
proof -
  have "\<forall>x \<in> set xs. hash.op_ok x"
    using assms by (auto simp: hash.op_ok_def hash_key_ok_def split: table_op.split)
  then obtain ht where ht: "hash_run xs (zend_hash_init n dtor persist grow) = Some ht"
    "represents pool ht (fold spec_op xs [])"
    using hash_run_refines [OF zend_hash_init_represents] by blast
  then show ?thesis
    using represents_count [OF ht(2)] represents_distinct [OF ht(2)] hash.get_law [OF ht(2)]
    by (auto simp: hash_key_ok_def)
qed

theorem hash_refines_assoc_list_witness:
  "\<exists>ht. hash_run demo_ops (zend_hash_init 8 True False (\<lambda>_. True)) = Some ht \<and>
    represents no_pool ht demo_entries \<and> nNumOfElements ht = 3 \<and> hash_get ht (KInt 5) = Some (Some 20) \<and>
    hash_get ht (KInt 6) = Some None"
proof -
  have "\<forall>k v. Put k v \<in> set demo_ops \<or> Del k \<in> set demo_ops \<longrightarrow> k \<noteq> KStr []"
    by (auto simp: demo_ops_def)
  from hash_refines_assoc_list [OF this, of 8 True False "\<lambda>_. True" no_pool]
  obtain ht where "hash_run demo_ops (zend_hash_init 8 True False (\<lambda>_. True)) = Some ht"
    "represents no_pool ht demo_entries" "nNumOfElements ht = of_nat (length demo_entries)"
    "\<forall>k. k \<noteq> KStr [] \<longrightarrow> hash_get ht k = Some (map_of demo_entries k)"
    by (auto simp: demo_ops_def demo_entries_def)
  then show ?thesis by (auto simp: demo_entries_def)
qed

text \<open>
  C17. \<open>_zend_hash_add_or_update\<close> with a string key: \<open>HASH_ADD\<close> of a present key fails and changes no
  entry; every other call succeeds, updates the entry in place or appends it, hands out the address
  of that entry's data, runs the destructor on the replaced data and on nothing else, and leaves
  the next free index alone. The same holds of the variant that takes the hash from its caller.
\<close>

theorem zend_hash_add_or_update_spec:
  assumes "represents pool ht kvs" "arg_ok pool k"
  defines "key \<equiv> KStr (bytes k)"
  shows "if flag = HASH_ADD \<and> map_of kvs key \<noteq> None
    then zend_hash_add_or_update ht k d i flag = Some (FAILURE, None, CHECK_INIT ht) \<and>
      represents pool (CHECK_INIT ht) kvs
    else \<exists>dest ht'. zend_hash_add_or_update ht k d i flag = Some (SUCCESS, dest, ht') \<and>
      zend_hash_quick_add_or_update ht k (zend_inline_hash_func (bytes k)) d i flag = Some (SUCCESS, dest, ht') \<and>
      put_spec pool ht kvs key d dest ht' \<and> nNextFreeElement ht' = nNextFreeElement ht"
proof -
  have ne: "bytes k \<noteq> []" using assms(2) by (simp add: arg_ok_def)
  have q: "zend_hash_quick_add_or_update ht k (zend_inline_hash_func (bytes k)) d i flag =
      zend_hash_add_or_update ht k d i flag"
    and a: "zend_hash_add_or_update ht k d i flag = put_str (CHECK_INIT ht) k (zend_inline_hash_func (bytes k)) d i flag"
    using ne by (simp_all add: zend_hash_quick_add_or_update_def zend_hash_add_or_update_def Let_def)
  have "represents pool (CHECK_INIT ht) kvs"
    using assms(1) CHECK_INIT_ok(1) by (auto simp: pooled_def elim!: representsE intro!: representsI)
  then show ?thesis
    using put_str_spec [OF assms(1,2) refl, of flag d i] unfolding q a key_def by auto
qed

theorem zend_hash_add_or_update_spec_witness:
  "zend_hash_add_or_update demo_table (caller_key [97, 0]) 99 False HASH_ADD =
     Some (FAILURE, None, CHECK_INIT demo_table) \<and>
   (\<exists>dest ht'. zend_hash_add_or_update demo_table (caller_key [97, 0]) 99 False HASH_UPDATE = Some (SUCCESS, dest, ht') \<and>
     represents no_pool ht' [(KStr [97, 0], 99), (KInt 5, 20), (KStr [98, 0], 30)] \<and>
     dtor_log ht' = dtor_log demo_table @ [10])"
proof -
  have k: "arg_ok no_pool (caller_key [97, 0])" by (simp add: arg_ok_def caller_key_def)
  show ?thesis
    using zend_hash_add_or_update_spec [OF demo_represents k, of HASH_ADD 99 False]
      zend_hash_add_or_update_spec [OF demo_represents k, of HASH_UPDATE 99 False]
    by (auto simp: demo_entries_def put_spec_def caller_key_def demo_control)
qed

text \<open>
  C18. \<open>_zend_hash_index_update_or_next_insert\<close>: with \<open>HASH_NEXT_INSERT\<close> the index is
  \<open>nNextFreeElement\<close>; an insertion under a taken index fails and changes no entry, an update replaces
  the data and destructs the old one. \<open>nNextFreeElement\<close> moves past the index when that is not
  below it (as a signed comparison), and stops at \<open>LONG_MAX\<close>.
\<close>

theorem zend_hash_index_update_spec:
  fixes flag :: hash_flag and h0 :: ulong
  assumes "represents pool ht kvs"
  defines "h \<equiv> if flag = HASH_NEXT_INSERT then nNextFreeElement ht else h0"
  shows "if (flag = HASH_ADD \<or> flag = HASH_NEXT_INSERT) \<and> map_of kvs (KInt h) \<noteq> None
    then zend_hash_index_update_or_next_insert ht h0 d i flag = Some (FAILURE, None, CHECK_INIT ht)
    else \<exists>dest ht'. zend_hash_index_update_or_next_insert ht h0 d i flag = Some (SUCCESS, dest, ht') \<and>
      put_spec pool ht kvs (KInt h) d dest ht' \<and>
      nNextFreeElement ht' = next_free (nNextFreeElement ht) h"
  using assms(1) meta_eq_to_obj_eq [OF h_def] by (rule index_update_spec)

theorem zend_hash_index_update_spec_witness:
  "zend_hash_index_update_or_next_insert demo_table 5 99 False HASH_ADD = Some (FAILURE, None, CHECK_INIT demo_table) \<and>
   (\<exists>dest ht'. zend_hash_index_update_or_next_insert demo_table 0 99 False HASH_NEXT_INSERT = Some (SUCCESS, dest, ht') \<and>
     represents no_pool ht' (demo_entries @ [(KInt 6, 99)]) \<and> nNextFreeElement ht' = 7)"
  using zend_hash_index_update_spec [OF demo_represents, of HASH_ADD 5 99 False]
    zend_hash_index_update_spec [OF demo_represents, of HASH_NEXT_INSERT 0 99 False]
  by (auto simp: demo_entries_def put_spec_def demo_control next_free_def word_sle_eq)

text \<open>
  C20. The lookups return the address of the entry with the key, and NULL exactly for an absent key;
  \<open>zend_hash_exists\<close> and \<open>zend_hash_quick_find\<close> agree with \<open>zend_hash_find\<close>.
\<close>

theorem zend_hash_find_spec:
  assumes "represents pool ht kvs" "arg_ok pool k"
  shows "\<exists>r. zend_hash_find ht k = Some r \<and> zend_hash_exists ht k = Some (r \<noteq> None) \<and>
    zend_hash_quick_find ht k (zend_inline_hash_func (bytes k)) = Some r \<and>
    found_spec ht kvs (KStr (bytes k)) r"
  using find_spec [OF assms] by metis

theorem zend_hash_find_spec_witness:
  "\<exists>r. zend_hash_find demo_table (caller_key [98, 0]) = Some r \<and>
    Option.bind r (data_at demo_table) = Some 30 \<and> zend_hash_exists demo_table (caller_key [98, 0]) = Some True"
proof -
  have "arg_ok no_pool (caller_key [98, 0])" by (simp add: arg_ok_def caller_key_def)
  from zend_hash_find_spec [OF demo_represents this] show ?thesis
    by (auto simp: found_spec_def demo_entries_def caller_key_def)
qed

text \<open>
  C19. \<open>zend_hash_del_key_or_index\<close> takes out exactly the entry with the key, keeps the order of the
  others, and runs the destructor once, on its data; an absent key is \<open>FAILURE\<close> and leaves the
  table as it was.
\<close>

theorem zend_hash_del_spec:
  assumes "represents pool ht kvs"
    and "key \<noteq> [] \<and> (flag = HASH_DEL_KEY \<or> h = zend_inline_hash_func key) \<and> k = KStr key \<or>
      key = [] \<and> flag \<noteq> HASH_DEL_KEY \<and> k = KInt h"
  shows "case map_of kvs k of
      None \<Rightarrow> zend_hash_del_key_or_index ht key h flag = Some (FAILURE, ht)
    | Some d \<Rightarrow> \<exists>ht'. zend_hash_del_key_or_index ht key h flag = Some (SUCCESS, ht') \<and>
        represents pool ht' (AList.delete k kvs) \<and> same_control ht' ht \<and>
        nNextFreeElement ht' = nNextFreeElement ht \<and>
        dtor_log ht' = dtor_log ht @ (if pDestructor ht then [d] else [])"
  using assms by (rule del_spec)

theorem zend_hash_del_spec_witness:
  "(\<exists>ht'. zend_hash_del_key_or_index demo_table [97, 0] 0 HASH_DEL_KEY = Some (SUCCESS, ht') \<and>
     represents no_pool ht' [(KInt 5, 20), (KStr [98, 0], 30)] \<and> dtor_log ht' = dtor_log demo_table @ [10]) \<and>
   zend_hash_del_key_or_index demo_table [] 7 HASH_DEL_INDEX = Some (FAILURE, demo_table)"
  using zend_hash_del_spec [OF demo_represents, of "[97, 0]" HASH_DEL_KEY 0 "KStr [97, 0]"]
    zend_hash_del_spec [OF demo_represents, of "[]" HASH_DEL_INDEX 7 "KInt 7"]
  by (auto simp: demo_entries_def demo_control)

subsection \<open>Whole tables\<close>

lemma hash_ok_nil: "hash_ok ht [] \<Longrightarrow> cells ht = Map.empty"
  by (simp add: hash_ok_def order_ok_def)

lemma free_slots_sel [simp]: "cells (free_slots ht) = cells ht" "dtor_log (free_slots ht) = dtor_log ht"
  by (simp_all add: free_slots_def)

lemma demo_repr: "hash_repr demo_table demo_entries"
  using demo_represents by (simp add: represents_def)

text \<open>
  C24. The four ways to end a table run the destructor exactly once per entry: \<open>zend_hash_destroy\<close>,
  \<open>zend_hash_clean\<close> and \<open>zend_hash_graceful_destroy\<close> in insertion order,
  \<open>zend_hash_graceful_reverse_destroy\<close> in the opposite one. \<open>zend_hash_destroy\<close> frees every bucket;
  \<open>zend_hash_clean\<close> leaves a well-formed empty table with its next index back at 0.
\<close>

theorem zend_hash_destroy_spec:
  assumes "hash_repr ht kvs"
  defines "data \<equiv> if pDestructor ht then map snd kvs else []"
  shows "\<exists>h1 h2 h3 h4. zend_hash_destroy ht = Some h1 \<and> cells h1 = Map.empty \<and>
    dtor_log h1 = dtor_log ht @ data \<and>
    zend_hash_clean ht = Some h2 \<and> hash_repr h2 [] \<and> nNextFreeElement h2 = 0 \<and>
    dtor_log h2 = dtor_log ht @ data \<and>
    zend_hash_graceful_destroy ht = Some h3 \<and> cells h3 = Map.empty \<and>
    dtor_log h3 = dtor_log ht @ data \<and>
    zend_hash_graceful_reverse_destroy ht = Some h4 \<and> cells h4 = Map.empty \<and>
    dtor_log h4 = dtor_log ht @ rev data"
proof -
  obtain ps where ok: "hash_ok ht ps" and kvs: "kvs = entries ht ps" using assms(1) by (auto simp: hash_repr_def)
  have d: "data = destructed ht ps" by (simp add: data_def kvs destructed_def)
  obtain h1 where h1: "zend_hash_destroy ht = Some h1" "cells h1 = Map.empty"
    "dtor_log h1 = dtor_log ht @ destructed ht ps" using ok by (rule zend_hash_destroy_ok)
  obtain h2 where h2: "zend_hash_clean ht = Some h2" "hash_ok h2 []"
    "dtor_log h2 = dtor_log ht @ destructed ht ps" "nNextFreeElement h2 = 0" using ok by (rule zend_hash_clean_ok)
  have r2: "hash_repr h2 []" using h2(2) entries_Nil [of h2] by (auto simp: hash_repr_def)
  obtain h3 where h3: "graceful_loop (pListHead ht) ht = Some h3" "hash_ok h3 []"
    "dtor_log h3 = dtor_log ht @ destructed ht ps" using graceful_loop_ok [OF ok] hash_ok_head [OF ok] by auto
  obtain h4 where h4: "graceful_reverse_loop ht = Some h4" "hash_ok h4 []"
    "dtor_log h4 = dtor_log ht @ rev (destructed ht ps)" using graceful_reverse_loop_ok [OF ok] by auto
  show ?thesis
    unfolding d zend_hash_graceful_destroy_def zend_hash_graceful_reverse_destroy_def h3(1) h4(1)
    using h1 h2(1,3,4) r2 h3 h4
    by - (rule exI [of _ h1], rule exI [of _ h2], rule exI [of _ "free_slots h3"],
        rule exI [of _ "free_slots h4"], simp add: hash_ok_nil)
qed

theorem zend_hash_destroy_spec_witness:
  "\<exists>h1 h4. zend_hash_destroy demo_table = Some h1 \<and> dtor_log h1 = dtor_log demo_table @ [10, 20, 30] \<and>
    zend_hash_graceful_reverse_destroy demo_table = Some h4 \<and> dtor_log h4 = dtor_log demo_table @ [30, 20, 10]"
  using zend_hash_destroy_spec [OF demo_repr] by (auto simp: demo_control demo_entries_def)

text \<open>The callback of an apply under the recursion guard.\<close>

lemma zend_hash_apply_ok:
  fixes ht :: "'v hashtable"
  assumes r: "hash_repr ht kvs" and few: "bApplyProtection ht \<longrightarrow> nApplyCount ht < 3"
  shows "\<exists>ht' kvs' gone s'. apply_spec (\<lambda>s _ d. f s d) s kvs = (s', kvs', gone) \<and>
    zend_hash_apply f s ht = Some (Returned (s', ht')) \<and> hash_repr ht' kvs' \<and> apply_done ht gone ht'"
proof -
  obtain ps where ok: "hash_ok ht ps" and kvs: "kvs = entries ht ps" using r by (auto simp: hash_repr_def)
  define ht1 where "ht1 = (if bApplyProtection ht then ht\<lparr>nApplyCount := nApplyCount ht + 1\<rparr> else ht)"
  have p: "HASH_PROTECT_RECURSION ht = Returned ht1"
    using few by (auto simp: HASH_PROTECT_RECURSION_def ht1_def not_le)
  have ok1: "hash_ok ht1 ([] @ ps)" "entries ht1 ps = kvs" "pListHead ht1 = head_opt ps"
    using ok hash_ok_head [OF ok] by (auto simp: ht1_def kvs)
  obtain ht2 vs s' kvs' gone where a: "apply_spec (\<lambda>s _ d. f s d) s kvs = (s', kvs', gone)"
    "apply_loop (\<lambda>s b. f s (pData b)) s (head_opt ps) ht1 = Some (s', ht2)" "hash_ok ht2 vs"
    "entries ht2 vs = kvs'" "apply_done ht1 gone ht2"
    using apply_loop_ok [OF ok1(1), of "\<lambda>s b. f s (pData b)" "\<lambda>s _ d. f s d" s] ok1(2) by auto
  let ?t = "HASH_UNPROTECT_RECURSION ht2"
  have "zend_hash_apply f s ht = Some (Returned (s', ?t))"
    by (simp add: zend_hash_apply_def run_protected_def p ok1(3) a(2))
  moreover have "hash_repr ?t kvs'"
    using a(3,4) by (auto simp: hash_repr_def HASH_UNPROTECT_RECURSION_def)
  moreover have "apply_done ht gone ?t"
    using a(5) by (auto simp: apply_done_def same_control_def HASH_UNPROTECT_RECURSION_def ht1_def split: if_splits)
  ultimately show ?thesis using a(1) by blast
qed

text \<open>
  C23. \<open>zend_hash_apply\<close> with a callback that may rewrite the data: the entries are visited in order,
  \<open>ZEND_HASH_APPLY_REMOVE\<close> deletes the current one (with its destructor) without losing the rest,
  \<open>ZEND_HASH_APPLY_STOP\<close> ends the walk, and the recursion count is back where it was. At a
  recursion depth of 3 a protected table is left by a bailout instead.
\<close>

theorem zend_hash_apply_spec:
  assumes "hash_repr ht kvs"
  shows "if bApplyProtection ht \<and> nApplyCount ht \<ge> 3 then zend_hash_apply f s ht = Some Bailout
    else \<exists>ht' kvs' gone s'. apply_spec (\<lambda>s _ d. f s d) s kvs = (s', kvs', gone) \<and>
      zend_hash_apply f s ht = Some (Returned (s', ht')) \<and> hash_repr ht' kvs' \<and>
      nApplyCount ht' = nApplyCount ht \<and>
      dtor_log ht' = dtor_log ht @ (if pDestructor ht then gone else [])"
proof (cases "bApplyProtection ht \<and> nApplyCount ht \<ge> 3")
  case True
  then show ?thesis by (simp add: zend_hash_apply_def run_protected_def HASH_PROTECT_RECURSION_def)
next
  case False
  then show ?thesis using zend_hash_apply_ok [OF assms, of f s]
    by (subst if_not_P) (auto simp: apply_done_def same_control_def not_le)
qed

theorem zend_hash_apply_spec_witness:
  "\<exists>ht'. zend_hash_apply (\<lambda>s d. if d = 20 then (ZEND_HASH_APPLY_REMOVE, d, s) else (0, d + 1, s + d)) 0 demo_table =
      Some (Returned (40, ht')) \<and> hash_repr ht' [(KStr [97, 0], 11), (KStr [98, 0], 31)] \<and>
    dtor_log ht' = dtor_log demo_table @ [20]"
  using zend_hash_apply_spec [OF demo_repr,
      of "\<lambda>s d. if d = 20 then (ZEND_HASH_APPLY_REMOVE, d, s) else (0, d + 1, s + d)" 0]
  by (auto simp: demo_control demo_entries_def ZEND_HASH_APPLY_REMOVE_def ZEND_HASH_APPLY_STOP_def)

subsection \<open>Order, copy and merge\<close>

lemma sort_entries:
  assumes "sorted_wrt (\<lambda>a b. compar (the (cells ht a)) (the (cells ht b)) \<le> (0 :: int)) qs"
    and "\<And>b b'. compar b b' = c (bentry b) (bentry b')" and "set qs \<subseteq> dom (cells ht)"
  shows "sorted_wrt (\<lambda>x y. c x y \<le> 0) (entries ht qs)"
proof -
  have "the (view bentry (cells ht) x) = bentry (the (cells ht x))" if "x \<in> set qs" for x
    using assms(3) that by (auto simp: view_apply)
  then show ?thesis
    unfolding entries_def sorted_wrt_map
    by (intro sorted_wrt_mono_rel [OF _ assms(1)]) (simp add: assms(2))
qed

lemma total_order_pull: "total_order c \<Longrightarrow> total_order (\<lambda>a b. c (f a) (f b))"
  by (fastforce simp: total_order_def)

lemma mset_entries: "mset qs = mset ps \<Longrightarrow> mset (entries ht qs) = mset (entries ht ps)"
  by (simp add: entries_def)

text \<open>
  C22. \<open>zend_hash_sort\<close> with \<open>zend_qsort\<close> and a comparison that looks at keys and data: the table then
  represents a permutation of its entries, sorted when the comparison is a total preorder; with
  \<open>renumber\<close> the keys become 0, 1, 2, \<open>\<dots>\<close> in that order and the next index is the element count.
  No destructor runs.
\<close>

theorem zend_hash_sort_spec:
  fixes renumber :: bool
  assumes "hash_repr ht kvs" "length kvs < 2 ^ 31"
    and "\<forall>b b'. compar b b' = c (bentry b) (bentry b')"
  shows "\<exists>ht' rs. zend_hash_sort (qsort_buckets compar) renumber ht = Some (SUCCESS, ht') \<and>
    mset rs = mset kvs \<and> (total_order c \<longrightarrow> sorted_wrt (\<lambda>x y. c x y \<le> 0) rs) \<and>
    hash_repr ht' (if renumber then number_keys rs else rs) \<and> dtor_log ht' = dtor_log ht \<and>
    (renumber \<and> kvs \<noteq> [] \<longrightarrow> nNextFreeElement ht' = of_nat (length kvs))"
proof -
  obtain ps where ok: "hash_ok ht ps" and kvs: "kvs = entries ht ps" using assms(1) by (auto simp: hash_repr_def)
  have few: "length ps < 2 ^ 31" using assms(2) by (simp add: kvs entries_def)
  then have "length ps \<le> 2 ^ 64" by simp
  then obtain qs where qs: "qsort_buckets compar (cells ht) ps = Some qs" "mset qs = mset ps"
    "total_order (\<lambda>a b. compar (the (cells ht a)) (the (cells ht b))) \<longrightarrow>
      sorted_wrt (\<lambda>a b. compar (the (cells ht a)) (the (cells ht b)) \<le> 0) qs"
    by (rule qsort_buckets_ok [where compar = compar and m = "cells ht"]) blast
  have dom: "set qs \<subseteq> dom (cells ht)"
    using ok mset_eq_setD [OF qs(2)] by (simp add: hash_ok_def order_ok_def)
  have srt: "sorted_wrt (\<lambda>x y. c x y \<le> 0) (entries ht qs)" if "total_order c"
  proof (rule sort_entries [OF qs(3) [rule_format] _ dom])
    show "total_order (\<lambda>a b. compar (the (cells ht a)) (the (cells ht b)))"
      using total_order_pull [OF that, of "\<lambda>a. bentry (the (cells ht a))"] assms(3) by simp
  qed (use assms(3) in simp)
  have ms: "mset (entries ht qs) = mset kvs" using mset_entries [OF qs(2)] by (simp add: kvs)
  have len: "length qs = length kvs" using mset_eq_length [OF qs(2)] by (simp add: kvs entries_def)
  show ?thesis
  proof (cases "renumber \<and> ps \<noteq> []")
    case True
    then obtain ht' where "zend_hash_sort (qsort_buckets compar) True ht = Some (SUCCESS, ht')" "hash_ok ht' qs"
      "entries ht' qs = number_keys (entries ht qs)" "nNextFreeElement ht' = of_nat (length qs)"
      "dtor_log ht' = dtor_log ht"
      using zend_hash_sort_renumber_ok [where sort_func = "qsort_buckets compar", OF ok few _ qs(1,2)] by blast
    then show ?thesis using True srt ms len by (auto simp: hash_repr_def intro!: exI [of _ "entries ht qs"])
  next
    case False
    obtain ht' rs where s: "zend_hash_sort (qsort_buckets compar) False ht = Some (SUCCESS, ht')" "hash_ok ht' rs"
      "entries ht' rs = entries ht qs" "dtor_log ht' = dtor_log ht"
      using zend_hash_sort_ok [where sort_func = "qsort_buckets compar", OF ok few qs(1,2)] by blast
    have "zend_hash_sort (qsort_buckets compar) renumber ht = zend_hash_sort (qsort_buckets compar) False ht"
      using False hash_ok_count [OF ok] by (auto simp: zend_hash_sort_def)
    moreover have "number_keys (entries ht qs) = entries ht qs" if renumber
      using that False len by (simp add: kvs number_keys_def)
    ultimately show ?thesis using s srt ms False
      by (auto simp: hash_repr_def kvs intro!: exI [of _ "entries ht qs"])
  qed
qed

theorem zend_hash_sort_spec_witness:
  "\<exists>ht' rs. zend_hash_sort (qsort_buckets (\<lambda>b b'. int (pData b') - int (pData b))) True demo_table = Some (SUCCESS, ht') \<and>
    mset rs = mset demo_entries \<and> sorted_wrt (\<lambda>x y. int (snd y) - int (snd x) \<le> 0) rs \<and>
    hash_repr ht' (number_keys rs) \<and> nNextFreeElement ht' = 3"
proof -
  have "total_order (\<lambda>x y. int (snd y) - int (snd x) :: int)" by (auto simp: total_order_def)
  then show ?thesis
    using zend_hash_sort_spec [OF demo_repr, of "\<lambda>b b'. int (pData b') - int (pData b)"
        "\<lambda>x y. int (snd y) - int (snd x)" True]
    by (auto simp: demo_entries_def bentry_def)
qed

text \<open>
  C25. \<open>zend_hash_copy\<close> and \<open>zend_hash_merge\<close> between two tables that share no buckets: the target takes
  over the source's entries in the source's order, each passed through the copy constructor; a copy
  and an overwriting merge replace entries under the same key, a merge without \<open>overwrite\<close> leaves
  them as they are and constructs nothing for them.
\<close>

theorem zend_hash_copy_merge_spec:
  assumes "represents pool t kvs" "represents pool s skvs"
  shows "\<exists>t1 t2. zend_hash_copy t s ctor i = Some t1 \<and> represents pool t1 (take_over True ctor skvs kvs) \<and>
    zend_hash_merge t s ctor i overwrite = Some t2 \<and> represents pool t2 (take_over overwrite ctor skvs kvs)"
  using zend_hash_copy_ok [OF assms] zend_hash_merge_ok [OF assms] by blast

theorem zend_hash_copy_merge_spec_witness:
  "\<exists>t1 t2. zend_hash_copy demo_table demo_table (Some Suc) False = Some t1 \<and>
    represents no_pool t1 [(KStr [97, 0], 11), (KInt 5, 21), (KStr [98, 0], 31)] \<and>
    zend_hash_merge (zend_hash_init 8 False False (\<lambda>_. True)) demo_table (Some Suc) False False = Some t2 \<and>
    represents no_pool t2 [(KStr [97, 0], 11), (KInt 5, 21), (KStr [98, 0], 31)]"
  using zend_hash_copy_merge_spec [OF demo_represents demo_represents, of "Some Suc" False]
    zend_hash_copy_merge_spec [OF zend_hash_init_represents demo_represents, of 8 False False "\<lambda>_. True" "Some Suc" False False]
  by (auto simp: demo_entries_def take_over_def ctor_fun_def)

subsection \<open>Numeric string keys\<close>

text \<open>
  C27. \<open>ZEND_HANDLE_NUMERIC_EX\<close> reads within the key and takes a NUL-terminated string for an index
  exactly when it is the canonical decimal of a value of type \<open>long\<close>: no leading zeros, no \<open>-0\<close>, no
  overflow, and the minus sign only in front of a number. The index is that value.
\<close>

theorem zend_handle_numeric_spec:
  "\<exists>r. ZEND_HANDLE_NUMERIC_EX (s @ [0]) = Some r \<and>
    (\<forall>idx. r = Some idx \<longleftrightarrow> (\<exists>n. long_range n \<and> s = decimal n \<and> idx = word_of_int n))"
  by (rule handle_numeric_ok)

text \<open>The symbol table operations send such a key to the index operations and every other key to the
  string operations, so \<open>"5"\<close> and 5 name the same element and \<open>"05"\<close> another one.
\<close>

theorem zend_symtable_dispatch:
  assumes "bytes k = s @ [0]"
  shows "if \<exists>n. long_range n \<and> s = decimal n
    then \<exists>n. long_range n \<and> s = decimal n \<and> zend_symtable_find ht k = zend_hash_index_find ht (word_of_int n) \<and>
      zend_symtable_exists ht k = zend_hash_index_exists ht (word_of_int n) \<and>
      zend_symtable_update ht k d i = zend_hash_index_update_or_next_insert ht (word_of_int n) d i HASH_UPDATE \<and>
      zend_symtable_del ht (bytes k) = zend_hash_index_del ht (word_of_int n)
    else zend_symtable_find ht k = zend_hash_find ht k \<and> zend_symtable_exists ht k = zend_hash_exists ht k \<and>
      zend_symtable_update ht k d i = zend_hash_add_or_update ht k d i HASH_UPDATE \<and>
      zend_symtable_del ht (bytes k) = zend_hash_del ht (bytes k)"
proof -
  note defs = zend_symtable_find_def zend_symtable_exists_def zend_symtable_update_def zend_symtable_del_def
  obtain r where r: "ZEND_HANDLE_NUMERIC_EX (bytes k) = Some r"
    "\<And>idx. r = Some idx \<longleftrightarrow> (\<exists>n. long_range n \<and> s = decimal n \<and> idx = word_of_int n)"
    using handle_numeric_ok [of s] assms by auto
  show ?thesis
  proof (cases "\<exists>n. long_range n \<and> s = decimal n")
    case True
    then obtain n where n: "long_range n" "s = decimal n" by blast
    then have "r = Some (word_of_int n)" using r(2) by blast
    then show ?thesis using n r(1) by (subst if_P) (auto simp: defs)
  next
    case False
    then have "r = None" using r(2) by (cases r) auto
    then show ?thesis using r(1) by (subst if_not_P [OF False]) (simp add: defs)
  qed
qed

theorem zend_symtable_dispatch_witness:
  "zend_symtable_find demo_table (caller_key [53, 0]) = zend_hash_index_find demo_table 5 \<and>
   zend_symtable_find demo_table (caller_key [48, 53, 0]) = zend_hash_find demo_table (caller_key [48, 53, 0])"
proof -
  have "ZEND_HANDLE_NUMERIC_EX ([53] @ [0]) = Some (Some 5)" "ZEND_HANDLE_NUMERIC_EX ([48, 53] @ [0]) = Some None"
    by code_simp+
  then have n: "\<And>n. \<lbrakk>long_range n; [53] = decimal n\<rbrakk> \<Longrightarrow> word_of_int n = (5 :: ulong)"
    "\<exists>n. long_range n \<and> [53] = decimal n" "\<not> (\<exists>n. long_range n \<and> [48, 53] = decimal n)"
    using handle_numeric_ok [of "[53]"] handle_numeric_ok [of "[48, 53]"] by auto
  have b: "bytes (caller_key [53, 0]) = [53] @ [0]" "bytes (caller_key [48, 53, 0]) = [48, 53] @ [0]"
    by (simp_all add: caller_key_def)
  show ?thesis
    using zend_symtable_dispatch [OF b(1), of demo_table 0 False] zend_symtable_dispatch [OF b(2), of demo_table 0 False]
    unfolding if_P [OF n(2)] if_not_P [OF n(3)] using n(1) by fastforce
qed

subsection \<open>Where the code falls short\<close>

text \<open>
  The ordered comparison keeps the difference of two indices in an \<open>int\<close>, so tables whose only
  entries have the keys 0 and \<open>2 ^ 32\<close> compare as equal.
\<close>

definition one_entry :: "hkey \<Rightarrow> nat hashtable" where
  "one_entry k = the (hash_put (zend_hash_init 8 False False (\<lambda>_. True)) k 7)"

lemma zend_hash_compare_truncates:
  "map_option (\<lambda>g. case g of Returned (r, _) \<Rightarrow> r | Bailout \<Rightarrow> 1)
     (zend_hash_compare (one_entry (KInt 0)) (one_entry (KInt 0x100000000)) (\<lambda>x y. int x - int y) True) = Some 0"
  by code_simp

text \<open>
  A sort that renumbers leaves the key pointers in the buckets. With an interned key whose slot is
  that of its new index, a lookup of the old string by the same pointer returns the element, which
  now has the key 0.
\<close>

definition interned_key :: cstr where
  "interned_key = \<lparr>ptr = Interned 0, bytes = [99, 0]\<rparr>"

definition interned_table :: "nat hashtable" where
  "interned_table = snd (snd (the (zend_hash_add_or_update (zend_hash_init 8 False False (\<lambda>_. True))
     interned_key 7 False HASH_ADD)))"

lemma renumbered_key_still_found:
  "Option.bind (zend_hash_sort (qsort_buckets (\<lambda>b b'. 0)) True interned_table)
     (\<lambda>(_, ht). zend_hash_find ht interned_key) = Some (Some 0)"
  by code_simp

text \<open>
  A bucket made with an interned key has no room for key bytes behind it, and a change of its key to
  one of the same length copies the new key there: past the end of the allocation.
\<close>

lemma rename_interned_overruns:
  "zend_hash_update_current_key_ex interned_table (NEW_STRING [120, 0]) HASH_UPDATE_KEY_ANYWAY None = None"
  by code_simp

end
