(* ===== verification/ZendLlist.thy ===== *)
theory ZendLlist
  imports Linked ZendQsort
begin

text \<open>
  The engine's doubly linked list (Zend/zend_llist.c, Zend/zend_llist.h). The elements a list owns
  live in its store \<open>lcells\<close>; \<open>lbrk\<close> is the next address its allocator hands out, \<open>llog\<close> the data
  handed to \<open>dtor\<close>, in order. A traversal position that is NULL in the call means the list's own
  \<open>traverse_ptr\<close>, as in the hash table. The data of an element is one value; a data pointer is the
  address of its element.
\<close>

record 'd zend_llist_element =
  lnext :: "addr option"
  lprev :: "addr option"
  ldata :: 'd

record 'd zend_llist =
  lhead :: "addr option"
  ltail :: "addr option"
  count :: ulong
  ldtor :: bool
  lpersistent :: bool
  traverse_ptr :: "addr option"
  lcells :: "addr \<rightharpoonup> 'd zend_llist_element"
  lbrk :: addr
  llog :: "'d list"

definition zend_llist_init :: "'d zend_llist \<Rightarrow> bool \<Rightarrow> bool \<Rightarrow> 'd zend_llist" where
  "zend_llist_init l dtor persist =
     l\<lparr>lhead := None, ltail := None, count := 0, ldtor := dtor, lpersistent := persist\<rparr>"

definition zend_llist_add_element :: "'d zend_llist \<Rightarrow> 'd \<Rightarrow> 'd zend_llist option" where
  "zend_llist_add_element l element = do {
     let tmp = lbrk l;
     let m = (lcells l)(tmp \<mapsto> \<lparr>lnext = None, lprev = ltail l, ldata = element\<rparr>);
     m' \<leftarrow> poke_opt (ltail l) (\<lambda>e. e\<lparr>lnext := Some tmp\<rparr>) m;
     Some (l\<lparr>lcells := m', lbrk := Suc tmp,
             lhead := (if ltail l = None then Some tmp else lhead l),
             ltail := Some tmp, count := count l + 1\<rparr>) }"

definition zend_llist_prepend_element :: "'d zend_llist \<Rightarrow> 'd \<Rightarrow> 'd zend_llist option" where
  "zend_llist_prepend_element l element = do {
     let tmp = lbrk l;
     let m = (lcells l)(tmp \<mapsto> \<lparr>lnext = lhead l, lprev = None, ldata = element\<rparr>);
     m' \<leftarrow> poke_opt (lhead l) (\<lambda>e. e\<lparr>lprev := Some tmp\<rparr>) m;
     Some (l\<lparr>lcells := m', lbrk := Suc tmp,
             ltail := (if lhead l = None then Some tmp else ltail l),
             lhead := Some tmp, count := count l + 1\<rparr>) }"

definition llist_dtor :: "'d \<Rightarrow> 'd zend_llist \<Rightarrow> 'd zend_llist" where
  "llist_dtor d l = (if ldtor l then l\<lparr>llog := llog l @ [d]\<rparr> else l)"

definition DEL_LLIST_ELEMENT :: "addr \<Rightarrow> 'd zend_llist \<Rightarrow> 'd zend_llist option" where
  "DEL_LLIST_ELEMENT current l = do {
     e \<leftarrow> lcells l current;
     m1 \<leftarrow> poke_opt (lprev e) (\<lambda>c. c\<lparr>lnext := lnext e\<rparr>) (lcells l);
     m2 \<leftarrow> poke_opt (lnext e) (\<lambda>c. c\<lparr>lprev := lprev e\<rparr>) m1;
     let l1 = llist_dtor (ldata e) (l\<lparr>lcells := m2,
                lhead := (if lprev e = None then lnext e else lhead l),
                ltail := (if lnext e = None then lprev e else ltail l)\<rparr>);
     Some (l1\<lparr>lcells := (lcells l1)(current := None), count := count l1 - 1\<rparr>) }"

partial_function (option) del_element_loop ::
    "('d \<Rightarrow> bool) \<Rightarrow> addr option \<Rightarrow> 'd zend_llist \<Rightarrow> 'd zend_llist option" where
  "del_element_loop compare current l =
     (case current of None \<Rightarrow> Some l
      | Some a \<Rightarrow> (case lcells l a of None \<Rightarrow> None
          | Some e \<Rightarrow> if compare (ldata e) then DEL_LLIST_ELEMENT a l
              else del_element_loop compare (lnext e) l))"

definition zend_llist_del_element ::
    "'d zend_llist \<Rightarrow> 'e \<Rightarrow> ('d \<Rightarrow> 'e \<Rightarrow> bool) \<Rightarrow> 'd zend_llist option" where
  "zend_llist_del_element l element compare =
     del_element_loop (\<lambda>d. compare d element) (lhead l) l"

partial_function (option) llist_destroy_loop ::
    "addr option \<Rightarrow> 'd zend_llist \<Rightarrow> 'd zend_llist option" where
  "llist_destroy_loop current l =
     (case current of None \<Rightarrow> Some l
      | Some a \<Rightarrow> (case lcells l a of None \<Rightarrow> None
          | Some e \<Rightarrow> llist_destroy_loop (lnext e)
              (let l1 = llist_dtor (ldata e) l in l1\<lparr>lcells := (lcells l1)(a := None)\<rparr>)))"

text \<open>\<open>zend_llist_destroy\<close> leaves \<open>head\<close> and \<open>tail\<close> as they were.\<close>

definition zend_llist_destroy :: "'d zend_llist \<Rightarrow> 'd zend_llist option" where
  "zend_llist_destroy l = map_option (\<lambda>l. l\<lparr>count := 0\<rparr>) (llist_destroy_loop (lhead l) l)"

definition zend_llist_clean :: "'d zend_llist \<Rightarrow> 'd zend_llist option" where
  "zend_llist_clean l = map_option (\<lambda>l. l\<lparr>lhead := None, ltail := None\<rparr>) (zend_llist_destroy l)"

text \<open>The result is the data pointer into the element that was just freed.\<close>

definition zend_llist_remove_tail :: "'d zend_llist \<Rightarrow> (addr option \<times> 'd zend_llist) option" where
  "zend_llist_remove_tail l =
     (case ltail l of
        None \<Rightarrow> Some (None, l)
      | Some old_tail \<Rightarrow> do {
          e \<leftarrow> lcells l old_tail;
          m \<leftarrow> poke_opt (lprev e) (\<lambda>c. c\<lparr>lnext := None\<rparr>) (lcells l);
          let l1 = llist_dtor (ldata e) (l\<lparr>lcells := m,
                     lhead := (if lprev e = None then None else lhead l), ltail := lprev e\<rparr>);
          Some (Some old_tail, l1\<lparr>lcells := (lcells l1)(old_tail := None), count := count l1 - 1\<rparr>) })"

partial_function (option) llist_copy_loop ::
    "'d zend_llist \<Rightarrow> addr option \<Rightarrow> 'd zend_llist \<Rightarrow> 'd zend_llist option" where
  "llist_copy_loop src p dst =
     (case p of None \<Rightarrow> Some dst
      | Some a \<Rightarrow> (case lcells src a of None \<Rightarrow> None
          | Some e \<Rightarrow> Option.bind (zend_llist_add_element dst (ldata e)) (llist_copy_loop src (lnext e))))"

definition zend_llist_copy :: "'d zend_llist \<Rightarrow> 'd zend_llist \<Rightarrow> 'd zend_llist option" where
  "zend_llist_copy dst src =
     llist_copy_loop src (lhead src) (zend_llist_init dst (ldtor src) (lpersistent src))"

partial_function (option) apply_with_del_loop ::
    "('s \<Rightarrow> 'd \<Rightarrow> bool \<times> 'd \<times> 's) \<Rightarrow> 's \<Rightarrow> addr option \<Rightarrow> 'd zend_llist \<Rightarrow> ('s \<times> 'd zend_llist) option" where
  "apply_with_del_loop func s element l =
     (case element of None \<Rightarrow> Some (s, l)
      | Some a \<Rightarrow> (case lcells l a of None \<Rightarrow> None
          | Some e \<Rightarrow> (case func s (ldata e) of (del, d, s') \<Rightarrow>
              Option.bind (let l1 = l\<lparr>lcells := (lcells l)(a \<mapsto> e\<lparr>ldata := d\<rparr>)\<rparr> in
                           if del then DEL_LLIST_ELEMENT a l1 else Some l1)
                (apply_with_del_loop func s' (lnext e)))))"

definition zend_llist_apply_with_del ::
    "'d zend_llist \<Rightarrow> ('s \<Rightarrow> 'd \<Rightarrow> bool \<times> 'd \<times> 's) \<Rightarrow> 's \<Rightarrow> ('s \<times> 'd zend_llist) option" where
  "zend_llist_apply_with_del l func s = apply_with_del_loop func s (lhead l) l"

partial_function (option) llist_apply_loop ::
    "('s \<Rightarrow> 'd \<Rightarrow> 'd \<times> 's) \<Rightarrow> 's \<Rightarrow> addr option \<Rightarrow> 'd zend_llist \<Rightarrow> ('s \<times> 'd zend_llist) option" where
  "llist_apply_loop func s element l =
     (case element of None \<Rightarrow> Some (s, l)
      | Some a \<Rightarrow> (case lcells l a of None \<Rightarrow> None
          | Some e \<Rightarrow> (case func s (ldata e) of (d, s') \<Rightarrow>
              llist_apply_loop func s' (lnext e) (l\<lparr>lcells := (lcells l)(a \<mapsto> e\<lparr>ldata := d\<rparr>)\<rparr>))))"

definition zend_llist_apply ::
    "'d zend_llist \<Rightarrow> ('s \<Rightarrow> 'd \<Rightarrow> 'd \<times> 's) \<Rightarrow> 's \<Rightarrow> ('s \<times> 'd zend_llist) option" where
  "zend_llist_apply l func s = llist_apply_loop func s (lhead l) l"

definition zend_llist_apply_with_argument ::
    "'d zend_llist \<Rightarrow> ('s \<Rightarrow> 'd \<Rightarrow> 'a \<Rightarrow> 'd \<times> 's) \<Rightarrow> 'a \<Rightarrow> 's \<Rightarrow> ('s \<times> 'd zend_llist) option" where
  "zend_llist_apply_with_argument l func arg s = llist_apply_loop (\<lambda>s d. func s d arg) s (lhead l) l"

definition zend_llist_apply_with_arguments ::
    "'d zend_llist \<Rightarrow> ('s \<Rightarrow> 'd \<Rightarrow> 'a list \<Rightarrow> 'd \<times> 's) \<Rightarrow> 'a list \<Rightarrow> 's \<Rightarrow> ('s \<times> 'd zend_llist) option" where
  "zend_llist_apply_with_arguments l func args s = llist_apply_loop (\<lambda>s d. func s d args) s (lhead l) l"

text \<open>Sorting: the element pointers are collected, sorted, and linked pairwise.\<close>

partial_function (option) llist_collect_loop ::
    "(addr \<rightharpoonup> 'd zend_llist_element) \<Rightarrow> addr option \<Rightarrow> addr list \<Rightarrow> addr list option" where
  "llist_collect_loop m p elements =
     (case p of None \<Rightarrow> Some elements
      | Some a \<Rightarrow> (case m a of None \<Rightarrow> None
          | Some e \<Rightarrow> llist_collect_loop m (lnext e) (elements @ [a])))"

fun link_pairs :: "addr list \<Rightarrow> (addr \<rightharpoonup> 'd zend_llist_element) \<Rightarrow> (addr \<rightharpoonup> 'd zend_llist_element) option" where
  "link_pairs (x # y # ys) m =
     Option.bind (poke y (\<lambda>e. e\<lparr>lprev := Some x\<rparr>) m) (\<lambda>m1.
     Option.bind (poke x (\<lambda>e. e\<lparr>lnext := Some y\<rparr>) m1) (link_pairs (y # ys)))"
| "link_pairs [x] m = poke x (\<lambda>e. e\<lparr>lnext := None\<rparr>) m"
| "link_pairs [] m = None"

definition zend_llist_sort ::
    "'d zend_llist \<Rightarrow> ('d zend_llist_element \<Rightarrow> 'd zend_llist_element \<Rightarrow> int) \<Rightarrow> 'd zend_llist option" where
  "zend_llist_sort l comp_func =
     (if count l = 0 then Some l
      else do {
        es \<leftarrow> llist_collect_loop (lcells l) (lhead l) [];
        elements \<leftarrow> zend_qsort 8 (\<lambda>a b. comp_func (the (lcells l a)) (the (lcells l b))) es;
        m1 \<leftarrow> poke (hd elements) (\<lambda>e. e\<lparr>lprev := None\<rparr>) (lcells l);
        m2 \<leftarrow> link_pairs elements m1;
        Some (l\<lparr>lhead := Some (hd elements), ltail := Some (last elements), lcells := m2\<rparr>) })"

definition zend_llist_count :: "'d zend_llist \<Rightarrow> int" where
  "zend_llist_count l = sint (ucast (count l) :: uint)"

subsection \<open>Traversal\<close>

definition set_pos :: "addr option \<Rightarrow> addr option option \<Rightarrow> 'd zend_llist \<Rightarrow> addr option option \<times> 'd zend_llist" where
  "set_pos q pos l = (case pos of Some _ \<Rightarrow> (Some q, l) | None \<Rightarrow> (None, l\<lparr>traverse_ptr := q\<rparr>))"

definition zend_llist_get_first_ex ::
    "'d zend_llist \<Rightarrow> addr option option \<Rightarrow> addr option \<times> addr option option \<times> 'd zend_llist" where
  "zend_llist_get_first_ex l pos = (lhead l, set_pos (lhead l) pos l)"

definition zend_llist_get_last_ex ::
    "'d zend_llist \<Rightarrow> addr option option \<Rightarrow> addr option \<times> addr option option \<times> 'd zend_llist" where
  "zend_llist_get_last_ex l pos = (ltail l, set_pos (ltail l) pos l)"

definition zend_llist_get_next_ex ::
    "'d zend_llist \<Rightarrow> addr option option \<Rightarrow> (addr option \<times> addr option option \<times> 'd zend_llist) option" where
  "zend_llist_get_next_ex l pos =
     (case (case pos of Some q \<Rightarrow> q | None \<Rightarrow> traverse_ptr l) of
        None \<Rightarrow> Some (None, pos, l)
      | Some a \<Rightarrow> do { e \<leftarrow> lcells l a; Some (lnext e, set_pos (lnext e) pos l) })"

definition zend_llist_get_prev_ex ::
    "'d zend_llist \<Rightarrow> addr option option \<Rightarrow> (addr option \<times> addr option option \<times> 'd zend_llist) option" where
  "zend_llist_get_prev_ex l pos =
     (case (case pos of Some q \<Rightarrow> q | None \<Rightarrow> traverse_ptr l) of
        None \<Rightarrow> Some (None, pos, l)
      | Some a \<Rightarrow> do { e \<leftarrow> lcells l a; Some (lprev e, set_pos (lprev e) pos l) })"

declare del_element_loop.simps [code]
  llist_destroy_loop.simps [code]
  llist_copy_loop.simps [code]
  apply_with_del_loop.simps [code]
  llist_apply_loop.simps [code]
  llist_collect_loop.simps [code]

end
