(* ===== verification/ZendLlistOps.thy ===== *)
theory ZendLlistOps
  imports ZendLlist
begin

text \<open>
  The linked list against plain lists: \<open>llist_ok l ps\<close> is the invariant for the element addresses
  \<open>ps\<close>, \<open>llist_repr l ds\<close> says that the list holds the data \<open>ds\<close>. Every operation is the list
  function one expects.
\<close>

interpretation ll: links lnext lprev "\<lambda>v e. e\<lparr>lnext := v\<rparr>" "\<lambda>v e. e\<lparr>lprev := v\<rparr>"
  by unfold_locales simp_all

definition llist_ok :: "'d zend_llist \<Rightarrow> addr list \<Rightarrow> bool" where
  "llist_ok l ps \<longleftrightarrow> dll lnext lprev (lcells l) (lhead l) (ltail l) ps \<and>
     dom (lcells l) = set ps \<and> (\<forall>a \<in> set ps. a < lbrk l) \<and> count l = of_nat (length ps)"

definition llist_data :: "'d zend_llist \<Rightarrow> addr list \<Rightarrow> 'd list" where
  "llist_data l ps = map (\<lambda>a. the (view ldata (lcells l) a)) ps"

definition llist_repr :: "'d zend_llist \<Rightarrow> 'd list \<Rightarrow> bool" where
  "llist_repr l ds \<longleftrightarrow> (\<exists>ps. llist_ok l ps \<and> ds = llist_data l ps)"

lemma llist_ok_cell: "llist_ok l ps \<Longrightarrow> a \<in> set ps \<Longrightarrow> \<exists>e. lcells l a = Some e"
  by (auto simp: llist_ok_def dom_def)

lemma llist_ok_head: "llist_ok l ps \<Longrightarrow> lhead l = head_opt ps"
  by (auto simp: llist_ok_def dest: dll_head)

lemma llist_ok_tail: "llist_ok l ps \<Longrightarrow> ltail l = last_opt ps"
  by (auto simp: llist_ok_def dest: dll_tail)

lemma llist_ok_distinct: "llist_ok l ps \<Longrightarrow> distinct ps"
  by (auto simp: llist_ok_def dest: dll_distinct)

lemma llist_data_append: "llist_data l (us @ vs) = llist_data l us @ llist_data l vs"
  by (simp add: llist_data_def)

lemma llist_data_Cons: "llist_data l (a # as) = the (view ldata (lcells l) a) # llist_data l as"
  by (simp add: llist_data_def)

lemma llist_data_Nil [simp]: "llist_data l [] = []"
  by (simp add: llist_data_def)

lemma llist_next:
  assumes "llist_ok l (us @ a # vs)" "lcells l a = Some e"
  shows "lnext e = head_opt vs" "lprev e = last_opt us"
  using assms by (auto simp: llist_ok_def intro: dll_next dll_prev)

lemma llist_dtor_simps [simp]:
  "lcells (llist_dtor d l) = lcells l" "lhead (llist_dtor d l) = lhead l"
  "ltail (llist_dtor d l) = ltail l" "count (llist_dtor d l) = count l"
  "lbrk (llist_dtor d l) = lbrk l" "ldtor (llist_dtor d l) = ldtor l"
  "llog (llist_dtor d l) = llog l @ (if ldtor l then [d] else [])"
  by (simp_all add: llist_dtor_def)

subsection \<open>Adding\<close>

lemma zend_llist_init_ok:
  assumes "lcells l = Map.empty"
  shows "llist_ok (zend_llist_init l dtor persist) []"
  using assms by (simp add: llist_ok_def zend_llist_init_def)

lemma zend_llist_add_element_ok:
  assumes ok: "llist_ok l ps"
  obtains l' where "zend_llist_add_element l d = Some l'" "llist_ok l' (ps @ [lbrk l])"
    and "llist_data l' (ps @ [lbrk l]) = llist_data l ps @ [d]" "llog l' = llog l" "ldtor l' = ldtor l"
proof -
  let ?tmp = "lbrk l"
  let ?e = "\<lparr>lnext = None, lprev = ltail l, ldata = d\<rparr>"
  let ?m = "(lcells l)(?tmp \<mapsto> ?e)"
  have new: "?tmp \<notin> set ps" using ok by (auto simp: llist_ok_def)
  have "\<And>x. ltail l = Some x \<Longrightarrow> x \<in> dom ?m"
    using ok llist_ok_tail [OF ok] by (auto simp: llist_ok_def dest: last_opt_in)
  then obtain m' where m': "poke_opt (ltail l) (\<lambda>e. e\<lparr>lnext := Some ?tmp\<rparr>) ?m = Some m'"
    using poke_opt_exists by blast
  let ?l = "l\<lparr>lcells := m', lbrk := Suc ?tmp, lhead := (if ltail l = None then Some ?tmp else lhead l),
    ltail := Some ?tmp, count := count l + 1\<rparr>"
  have "dll lnext lprev ?m (lhead l) (ltail l) ps"
    using ok new by (simp add: llist_ok_def dll_def)
  then have "dll lnext lprev m' (if ps = [] then Some ?tmp else lhead l) (Some ?tmp) (ps @ [?tmp])"
    by (rule ll.push_back [where b = ?e, OF _ _ new _ m']) simp_all
  moreover have "dom m' = insert ?tmp (set ps)" using poke_opt_dom [OF m'] ok by (simp add: llist_ok_def)
  ultimately have "llist_ok ?l (ps @ [?tmp])"
    using ok llist_ok_tail [OF ok] by (auto simp: llist_ok_def)
  moreover have "llist_data ?l (ps @ [?tmp]) = llist_data l ps @ [d]"
  proof -
    have "view ldata m' = (view ldata (lcells l))(?tmp \<mapsto> d)"
      using poke_opt_view [OF m', of ldata] by simp
    then show ?thesis using new by (auto simp: llist_data_def)
  qed
  moreover have "zend_llist_add_element l d = Some ?l"
    using m' by (simp add: zend_llist_add_element_def Let_def)
  ultimately show ?thesis using that [of ?l] by simp
qed

lemma zend_llist_prepend_element_ok:
  assumes ok: "llist_ok l ps"
  obtains l' where "zend_llist_prepend_element l d = Some l'" "llist_ok l' (lbrk l # ps)"
    and "llist_data l' (lbrk l # ps) = d # llist_data l ps" "llog l' = llog l" "ldtor l' = ldtor l"
proof -
  let ?tmp = "lbrk l"
  let ?e = "\<lparr>lnext = lhead l, lprev = None, ldata = d\<rparr>"
  let ?m = "(lcells l)(?tmp \<mapsto> ?e)"
  have new: "?tmp \<notin> set ps" using ok by (auto simp: llist_ok_def)
  have "\<And>x. lhead l = Some x \<Longrightarrow> x \<in> dom ?m"
    using ok llist_ok_head [OF ok] by (auto simp: llist_ok_def dest: head_opt_in)
  then obtain m' where m': "poke_opt (lhead l) (\<lambda>e. e\<lparr>lprev := Some ?tmp\<rparr>) ?m = Some m'"
    using poke_opt_exists by blast
  let ?l = "l\<lparr>lcells := m', lbrk := Suc ?tmp, ltail := (if lhead l = None then Some ?tmp else ltail l),
    lhead := Some ?tmp, count := count l + 1\<rparr>"
  have "dll lnext lprev ?m (lhead l) (ltail l) ps"
    using ok new by (simp add: llist_ok_def dll_def)
  then have "dll lnext lprev m' (Some ?tmp) (if ps = [] then Some ?tmp else ltail l) (?tmp # ps)"
    by (rule ll.push_front [where b = ?e, OF _ _ new _ m']) simp_all
  moreover have "dom m' = insert ?tmp (set ps)" using poke_opt_dom [OF m'] ok by (simp add: llist_ok_def)
  ultimately have "llist_ok ?l (?tmp # ps)"
    using ok llist_ok_head [OF ok] by (auto simp: llist_ok_def)
  moreover have "llist_data ?l (?tmp # ps) = d # llist_data l ps"
  proof -
    have "view ldata m' = (view ldata (lcells l))(?tmp \<mapsto> d)"
      using poke_opt_view [OF m', of ldata] by simp
    then show ?thesis using new by (auto simp: llist_data_def)
  qed
  moreover have "zend_llist_prepend_element l d = Some ?l"
    using m' by (simp add: zend_llist_prepend_element_def Let_def)
  ultimately show ?thesis using that [of ?l] by simp
qed

subsection \<open>Deleting\<close>

definition del_ok :: "'d zend_llist \<Rightarrow> addr list \<Rightarrow> addr \<Rightarrow> addr list \<Rightarrow> 'd zend_llist \<Rightarrow> bool" where
  "del_ok l us a vs l' \<longleftrightarrow> llist_ok l' (us @ vs) \<and> llist_data l' us = llist_data l us \<and>
     llist_data l' vs = llist_data l vs \<and> ldtor l' = ldtor l \<and> lcells l' a = None \<and>
     llog l' = llog l @ (if ldtor l then [the (view ldata (lcells l) a)] else [])"

lemma DEL_LLIST_ELEMENT_ok:
  assumes ok: "llist_ok l (us @ a # vs)"
  obtains l' where "DEL_LLIST_ELEMENT a l = Some l'" "del_ok l us a vs l'"
proof -
  obtain e where e: "lcells l a = Some e" using llist_ok_cell [OF ok, of a] by auto
  have d: "dll lnext lprev (lcells l) (lhead l) (ltail l) (us @ a # vs)"
    using ok by (simp add: llist_ok_def)
  have dist: "distinct (us @ a # vs)" using ok by (rule llist_ok_distinct)
  note nx = llist_next [OF ok e]
  obtain m1 m2 where m1: "poke_opt (lprev e) (\<lambda>c. c\<lparr>lnext := lnext e\<rparr>) (lcells l) = Some m1"
    and m2: "poke_opt (lnext e) (\<lambda>c. c\<lparr>lprev := lprev e\<rparr>) m1 = Some m2"
    using ll.unlink_defined [OF d e] by blast
  let ?l1 = "llist_dtor (ldata e) (l\<lparr>lcells := m2,
    lhead := (if lprev e = None then lnext e else lhead l),
    ltail := (if lnext e = None then lprev e else ltail l)\<rparr>)"
  let ?l = "?l1\<lparr>lcells := (lcells ?l1)(a := None), count := count ?l1 - 1\<rparr>"
  have "dll lnext lprev m2 (if us = [] then lnext e else lhead l) (if vs = [] then lprev e else ltail l) (us @ vs)"
    by (rule ll.unlink [OF d e m1 m2])
  then have d2: "dll lnext lprev (m2(a := None)) (if us = [] then lnext e else lhead l)
      (if vs = [] then lprev e else ltail l) (us @ vs)"
    by (subst dll_cong_on [where m = m2]) (use dist in auto)
  have "dom m2 = set (us @ a # vs)" using poke_opt_dom [OF m1] poke_opt_dom [OF m2] ok by (simp add: llist_ok_def)
  then have "dom (m2(a := None)) = set (us @ vs)" using dist by auto
  then have "llist_ok ?l (us @ vs)"
    using ok d2 nx by (auto simp: llist_ok_def)
  moreover have "view ldata m2 = view ldata (lcells l)"
    using poke_opt_view [OF m1, of ldata] poke_opt_view [OF m2, of ldata] by simp
  then have "llist_data ?l qs = llist_data l qs" if "a \<notin> set qs" for qs
    using that by (auto simp: llist_data_def)
  ultimately have "del_ok l us a vs ?l"
    using dist e by (auto simp: del_ok_def view_apply)
  moreover have "DEL_LLIST_ELEMENT a l = Some ?l"
    using e m1 m2 by (simp add: DEL_LLIST_ELEMENT_def Let_def)
  ultimately show ?thesis using that by blast
qed

fun remove_first :: "('a \<Rightarrow> bool) \<Rightarrow> 'a list \<Rightarrow> 'a list" where
  "remove_first P [] = []"
| "remove_first P (x # xs) = (if P x then xs else x # remove_first P xs)"

lemma del_element_loop_ok:
  assumes "llist_ok l (us @ vs)"
  shows "\<exists>l' ws. del_element_loop P (head_opt vs) l = Some l' \<and> llist_ok l' (us @ ws) \<and>
    llist_data l' us = llist_data l us \<and> llist_data l' ws = remove_first P (llist_data l vs) \<and>
    ldtor l' = ldtor l \<and>
    llog l' = llog l @ (case List.find P (llist_data l vs) of Some d \<Rightarrow> if ldtor l then [d] else [] | None \<Rightarrow> [])"
  using assms
proof (induction vs arbitrary: us)
  case Nil
  then show ?case by (subst del_element_loop.simps) (auto intro: exI [of _ "[]"])
next
  case (Cons a vs)
  obtain e where e: "lcells l a = Some e" using llist_ok_cell [OF Cons.prems, of a] by auto
  note nx = llist_next [OF Cons.prems e]
  show ?case
  proof (cases "P (ldata e)")
    case True
    obtain l' where l': "DEL_LLIST_ELEMENT a l = Some l'" "del_ok l us a vs l'"
      using Cons.prems by (rule DEL_LLIST_ELEMENT_ok)
    then show ?thesis using e True
      by (intro exI [of _ l'] exI [of _ vs], subst del_element_loop.simps)
        (auto simp: del_ok_def llist_data_Cons view_apply)
  next
    case False
    have "llist_ok l ((us @ [a]) @ vs)" using Cons.prems by simp
    then obtain l' ws where ih: "del_element_loop P (head_opt vs) l = Some l'" "llist_ok l' ((us @ [a]) @ ws)"
      "llist_data l' (us @ [a]) = llist_data l (us @ [a])" "llist_data l' ws = remove_first P (llist_data l vs)"
      "ldtor l' = ldtor l"
      "llog l' = llog l @ (case List.find P (llist_data l vs) of Some d \<Rightarrow> if ldtor l then [d] else [] | None \<Rightarrow> [])"
      using Cons.IH by blast
    have "llist_data l' us = llist_data l us" "the (view ldata (lcells l') a) = ldata e"
      using ih(3) e by (simp_all add: llist_data_append llist_data_Cons view_apply)
    then show ?thesis using ih e False nx
      by (intro exI [of _ l'] exI [of _ "a # ws"], subst del_element_loop.simps)
        (simp add: llist_data_Cons view_apply)
  qed
qed

lemma zend_llist_remove_tail_ok:
  assumes ok: "llist_ok l (us @ [a])"
  obtains l' where "zend_llist_remove_tail l = Some (Some a, l')" "del_ok l us a [] l'"
proof -
  obtain e where e: "lcells l a = Some e" using llist_ok_cell [OF ok, of a] by auto
  have "lnext e = None" using llist_next(1) [of l us a "[]" e] ok e by simp
  then have "zend_llist_remove_tail l = map_option (\<lambda>l'. (Some a, l')) (DEL_LLIST_ELEMENT a l)"
    using e llist_ok_tail [OF ok]
    by (cases "lprev e") (simp_all add: zend_llist_remove_tail_def DEL_LLIST_ELEMENT_def Let_def
        bind_map_option split: bind_split)
  then show ?thesis using DEL_LLIST_ELEMENT_ok [of l us a "[]"] ok that by auto
qed

lemma llist_destroy_loop_ok:
  assumes "path (view lnext (lcells l)) p ps None"
  shows "llist_destroy_loop p l = Some (l\<lparr>lcells := (lcells l) |` (- set ps),
    llog := llog l @ (if ldtor l then llist_data l ps else [])\<rparr>)"
  using assms
proof (induction ps arbitrary: p l)
  case Nil
  then show ?case by (simp add: llist_destroy_loop.simps)
next
  case (Cons a ps)
  obtain e where e: "p = Some a" "lcells l a = Some e" "path (view lnext (lcells l)) (lnext e) ps None"
    using Cons.prems unfolding path_view_Cons by blast
  have d: "a \<notin> set ps" using path_distinct [OF Cons.prems] by simp
  let ?l = "(llist_dtor (ldata e) l)\<lparr>lcells := (lcells l)(a := None)\<rparr>"
  have "path (view lnext (lcells ?l)) (lnext e) ps None" using e(3) d by simp
  then have "llist_destroy_loop (lnext e) ?l = Some (?l\<lparr>lcells := (lcells ?l) |` (- set ps),
      llog := llog ?l @ (if ldtor ?l then llist_data ?l ps else [])\<rparr>)" by (rule Cons.IH)
  moreover have "(lcells l)(a := None) |` (- set ps) = (lcells l) |` (- set (a # ps))"
    by (auto simp: restrict_map_def)
  moreover have "llist_data ?l ps = llist_data l ps" using d by (auto simp: llist_data_def)
  ultimately show ?case using e
    by (subst llist_destroy_loop.simps)
      (auto simp: llist_data_Cons view_apply Let_def llist_dtor_def simp del: fun_upd_restrict_conv)
qed

lemma zend_llist_clean_ok:
  assumes ok: "llist_ok l ps"
  obtains l' where "zend_llist_clean l = Some l'" "llist_ok l' []" "lcells l' = Map.empty"
    and "llog l' = llog l @ (if ldtor l then llist_data l ps else [])" "ldtor l' = ldtor l"
proof -
  have p: "path (view lnext (lcells l)) (lhead l) ps None" using ok by (simp add: llist_ok_def dll_def)
  have "(lcells l) |` (- set ps) = Map.empty"
    using ok by (auto simp: llist_ok_def restrict_map_def fun_eq_iff dom_def)
  then show ?thesis
    using llist_destroy_loop_ok [OF p] that
    by (simp add: zend_llist_clean_def zend_llist_destroy_def llist_ok_def)
qed

subsection \<open>Copying and applying\<close>

lemma llist_copy_loop_ok:
  assumes "path (view lnext (lcells src)) p ps None" "llist_ok dst qs"
  shows "\<exists>dst' qs'. llist_copy_loop src p dst = Some dst' \<and> llist_ok dst' (qs @ qs') \<and>
    llist_data dst' (qs @ qs') = llist_data dst qs @ llist_data src ps \<and> ldtor dst' = ldtor dst \<and>
    llog dst' = llog dst"
  using assms
proof (induction ps arbitrary: p dst qs)
  case Nil
  then show ?case by (auto simp: llist_copy_loop.simps intro: exI [of _ "[]"])
next
  case (Cons a ps)
  obtain e where e: "p = Some a" "lcells src a = Some e" "path (view lnext (lcells src)) (lnext e) ps None"
    using Cons.prems(1) unfolding path_view_Cons by blast
  obtain d1 where d1: "zend_llist_add_element dst (ldata e) = Some d1" "llist_ok d1 (qs @ [lbrk dst])"
    "llist_data d1 (qs @ [lbrk dst]) = llist_data dst qs @ [ldata e]" "llog d1 = llog dst" "ldtor d1 = ldtor dst"
    using Cons.prems(2) by (rule zend_llist_add_element_ok)
  obtain dst' qs' where r: "llist_copy_loop src (lnext e) d1 = Some dst'"
    "llist_ok dst' ((qs @ [lbrk dst]) @ qs')"
    "llist_data dst' ((qs @ [lbrk dst]) @ qs') = llist_data d1 (qs @ [lbrk dst]) @ llist_data src ps"
    "ldtor dst' = ldtor d1" "llog dst' = llog d1"
    using Cons.IH [OF e(3) d1(2)] by blast
  have "llist_copy_loop src p dst = Some dst'"
    using e(1,2) d1(1) r(1) by (subst llist_copy_loop.simps) simp
  moreover have "llist_data src (a # ps) = ldata e # llist_data src ps"
    using e(2) by (simp add: llist_data_Cons view_apply)
  ultimately show ?case
    using r(2-5) d1(3-5) by (intro exI [of _ dst'] exI [of _ "lbrk dst # qs'"]) simp
qed

lemma set_data_ok:
  fixes l :: "'d zend_llist" and d :: 'd
  assumes ok: "llist_ok l (us @ a # vs)" and e: "lcells l a = Some e"
  defines "l1 \<equiv> l\<lparr>lcells := (lcells l)(a \<mapsto> e\<lparr>ldata := d\<rparr>)\<rparr>"
  shows "llist_ok l1 (us @ a # vs)" "llist_data l1 us = llist_data l us"
    and "llist_data l1 vs = llist_data l vs" "the (view ldata (lcells l1) a) = d"
proof -
  have "view lnext (lcells l1) = view lnext (lcells l)" "view lprev (lcells l1) = view lprev (lcells l)"
    using e by (auto simp: l1_def view_apply fun_eq_iff)
  then show "llist_ok l1 (us @ a # vs)"
    using ok e by (auto simp: llist_ok_def dll_def l1_def dom_def)
  have "distinct (us @ a # vs)" using ok by (rule llist_ok_distinct)
  then show "llist_data l1 us = llist_data l us" "llist_data l1 vs = llist_data l vs"
    by (auto simp: llist_data_def l1_def)
  show "the (view ldata (lcells l1) a) = d" by (simp add: l1_def)
qed

text \<open>State, kept data and deleted data after a traversal with deletions.\<close>

fun with_del_spec :: "('s \<Rightarrow> 'd \<Rightarrow> bool \<times> 'd \<times> 's) \<Rightarrow> 's \<Rightarrow> 'd list \<Rightarrow> 's \<times> 'd list \<times> 'd list" where
  "with_del_spec f s [] = (s, [], [])"
| "with_del_spec f s (x # xs) = (case f s x of (del, d, s1) \<Rightarrow>
     (case with_del_spec f s1 xs of (s2, kept, gone) \<Rightarrow>
        if del then (s2, kept, d # gone) else (s2, d # kept, gone)))"

lemma apply_with_del_loop_ok:
  assumes "llist_ok l (us @ vs)"
  shows "\<exists>l' ws s' kept gone. with_del_spec f s (llist_data l vs) = (s', kept, gone) \<and>
    apply_with_del_loop f s (head_opt vs) l = Some (s', l') \<and> llist_ok l' (us @ ws) \<and>
    llist_data l' us = llist_data l us \<and> llist_data l' ws = kept \<and> ldtor l' = ldtor l \<and>
    llog l' = llog l @ (if ldtor l then gone else [])"
  using assms
proof (induction vs arbitrary: us l s)
  case Nil
  then show ?case by (subst apply_with_del_loop.simps) (auto intro: exI [of _ "[]"])
next
  case (Cons a vs)
  obtain e where e: "lcells l a = Some e" using llist_ok_cell [OF Cons.prems, of a] by auto
  obtain del d s1 where f: "f s (ldata e) = (del, d, s1)" by (rule prod_cases3)
  let ?l1 = "l\<lparr>lcells := (lcells l)(a \<mapsto> e\<lparr>ldata := d\<rparr>)\<rparr>"
  note l1 = set_data_ok [OF Cons.prems e, of d]
  obtain l2 qs where l2: "(if del then DEL_LLIST_ELEMENT a ?l1 else Some ?l1) = Some l2"
    "llist_ok l2 ((us @ qs) @ vs)" "llist_data l2 us = llist_data l us" "llist_data l2 vs = llist_data l vs"
    "llist_data l2 qs = (if del then [] else [d])" "ldtor l2 = ldtor l"
    "llog l2 = llog l @ (if ldtor l \<and> del then [d] else [])"
  proof (cases del)
    case True
    obtain l2 where d2: "DEL_LLIST_ELEMENT a ?l1 = Some l2" "del_ok ?l1 us a vs l2"
      using l1(1) by (rule DEL_LLIST_ELEMENT_ok)
    then show ?thesis using True l1 by (intro that [of l2 "[]"]) (auto simp: del_ok_def)
  next
    case False
    then show ?thesis using l1 by (intro that [of ?l1 "[a]"]) (simp_all add: llist_data_Cons)
  qed
  obtain l' ws s' kept gone where r: "with_del_spec f s1 (llist_data l2 vs) = (s', kept, gone)"
    "apply_with_del_loop f s1 (head_opt vs) l2 = Some (s', l')" "llist_ok l' ((us @ qs) @ ws)"
    "llist_data l' (us @ qs) = llist_data l2 (us @ qs)" "llist_data l' ws = kept" "ldtor l' = ldtor l2"
    "llog l' = llog l2 @ (if ldtor l2 then gone else [])"
    using Cons.IH [OF l2(2)] by blast
  have "length (llist_data l' us) = length (llist_data l2 us)" by (simp add: llist_data_def)
  then have sp: "llist_data l' us = llist_data l2 us" "llist_data l' qs = llist_data l2 qs"
    using r(4) by (simp_all add: llist_data_append)
  have "apply_with_del_loop f s (head_opt (a # vs)) l = Some (s', l')"
    using e f l2(1) r(2) llist_next(1) [OF Cons.prems e]
    by (subst apply_with_del_loop.simps) (simp add: Let_def)
  then show ?case
    using r(1,3,5-7) sp l2(3-7) e f
    by (intro exI [of _ l'] exI [of _ "qs @ ws"]) (simp add: llist_data_Cons llist_data_append view_apply)
qed

subsection \<open>Sorting\<close>

lemma llist_collect_loop_ok:
  assumes "path (view lnext m) p ps None"
  shows "llist_collect_loop m p acc = Some (acc @ ps)"
  using assms
proof (induction ps arbitrary: p acc)
  case Nil
  then show ?case by (simp add: llist_collect_loop.simps)
next
  case (Cons q qs)
  then show ?case unfolding path_view_Cons by (subst llist_collect_loop.simps) auto
qed

lemma link_pairs_ok:
  assumes "distinct xs" "xs \<noteq> []" "set xs \<subseteq> dom m"
  shows "\<exists>m'. link_pairs xs m = Some m' \<and> view ldata m' = view ldata m \<and> (\<forall>y. y \<notin> set xs \<longrightarrow> m' y = m y) \<and>
    (\<forall>i < length xs. view lnext m' (xs ! i) = Some (if Suc i < length xs then Some (xs ! Suc i) else None)) \<and>
    (\<forall>i < length xs. view lprev m' (xs ! i) =
      (if 0 < i then Some (Some (xs ! (i - 1))) else view lprev m (xs ! 0)))"
  using assms
proof (induction xs m rule: link_pairs.induct)
  case (1 x y ys m)
  obtain ex ey where e: "m x = Some ex" "m y = Some ey" "x \<noteq> y" using 1(2,4) by auto
  let ?m1 = "m(y \<mapsto> ey\<lparr>lprev := Some x\<rparr>)"
  let ?m2 = "?m1(x \<mapsto> ex\<lparr>lnext := Some y\<rparr>)"
  have p1: "poke y (\<lambda>e. e\<lparr>lprev := Some x\<rparr>) m = Some ?m1" using e by (simp add: poke_eq)
  have p2: "poke x (\<lambda>e. e\<lparr>lnext := Some y\<rparr>) ?m1 = Some ?m2" using e by (simp add: poke_eq)
  have "distinct (y # ys)" "y # ys \<noteq> []" "set (y # ys) \<subseteq> dom ?m2" using 1(2,4) by auto
  then obtain m' where m': "link_pairs (y # ys) ?m2 = Some m'" "view ldata m' = view ldata ?m2"
    "\<forall>z. z \<notin> set (y # ys) \<longrightarrow> m' z = ?m2 z"
    "\<forall>i < length (y # ys). view lnext m' ((y # ys) ! i) =
      Some (if Suc i < length (y # ys) then Some ((y # ys) ! Suc i) else None)"
    "\<forall>i < length (y # ys). view lprev m' ((y # ys) ! i) =
      (if 0 < i then Some (Some ((y # ys) ! (i - 1))) else view lprev ?m2 ((y # ys) ! 0))"
    using 1(1) [OF p1 p2] by blast
  have x: "m' x = Some (ex\<lparr>lnext := Some y\<rparr>)" using m'(3) 1(2) by auto
  have "view ldata m' = view ldata m" using m'(2) e by (auto simp: view_apply fun_eq_iff)
  moreover have "view lnext m' ((x # y # ys) ! i) =
      Some (if Suc i < length (x # y # ys) then Some ((x # y # ys) ! Suc i) else None)"
    if "i < length (x # y # ys)" for i
    using that x m'(4) by (cases i) (auto simp: view_apply [of _ m' x])
  moreover have "view lprev m' ((x # y # ys) ! i) =
      (if 0 < i then Some (Some ((x # y # ys) ! (i - 1))) else view lprev m ((x # y # ys) ! 0))"
    if i: "i < length (x # y # ys)" for i
  proof (cases i)
    case 0
    then show ?thesis using x e(1) by (simp add: view_apply)
  next
    case (Suc j)
    then have "view lprev m' ((y # ys) ! j) =
        (if 0 < j then Some (Some ((y # ys) ! (j - 1))) else view lprev ?m2 y)"
      using m'(5) i by simp
    then show ?thesis using Suc e(3) by (cases j) simp_all
  qed
  moreover have "link_pairs (x # y # ys) m = Some m'" using p1 p2 m'(1) by simp
  ultimately show ?case using m'(3) by auto
next
  case (2 x m)
  then obtain ex where "m x = Some ex" by auto
  then show ?case by (auto simp: poke_eq view_apply fun_eq_iff intro!: exI [of _ "m(x \<mapsto> ex\<lparr>lnext := None\<rparr>)"])
qed simp

lemma zend_llist_sort_ok:
  assumes ok: "llist_ok l ps" and few: "length ps < 2 ^ 64"
    and f: "\<And>e1 e2. comp_func e1 e2 = c (ldata e1) (ldata e2)"
  shows "\<exists>l' qs. zend_llist_sort l comp_func = Some l' \<and> llist_ok l' qs \<and> mset qs = mset ps \<and>
    mset (llist_data l' qs) = mset (llist_data l ps) \<and>
    (total_order c \<longrightarrow> sorted_wrt (\<lambda>x y. c x y \<le> 0) (llist_data l' qs)) \<and> llog l' = llog l \<and> ldtor l' = ldtor l"
proof (cases "ps = []")
  case True
  then show ?thesis using ok
    by (intro exI [of _ l] exI [of _ "[]"]) (simp add: zend_llist_sort_def llist_ok_def)
next
  case False
  let ?cmp = "\<lambda>a b. comp_func (the (lcells l a)) (the (lcells l b))"
  have cnt: "count l \<noteq> 0"
  proof
    assume "count l = 0"
    then have "unat (of_nat (length ps) :: ulong) = 0" using ok by (simp add: llist_ok_def)
    then show False using few False by (simp add: unat_of_nat)
  qed
  obtain qs where q: "zend_qsort 8 ?cmp ps = Some qs" "mset qs = mset ps"
    "total_order ?cmp \<longrightarrow> sorted_wrt (\<lambda>a b. ?cmp a b \<le> 0) qs"
    using zend_qsort_ok [of 8 ps ?cmp] few by auto
  have st: "set qs = set ps" "distinct qs" "qs \<noteq> []" "length qs = length ps"
    using q(2) llist_ok_distinct [OF ok] False mset_eq_setD mset_eq_imp_distinct_iff mset_eq_length
    by (blast, blast, auto)
  have dm: "set qs \<subseteq> dom (lcells l)" using ok st by (simp add: llist_ok_def)
  obtain e where e: "lcells l (hd qs) = Some e" using dm st(3) by (cases qs) auto
  let ?m1 = "(lcells l)(hd qs \<mapsto> e\<lparr>lprev := None\<rparr>)"
  have m1: "poke (hd qs) (\<lambda>e. e\<lparr>lprev := None\<rparr>) (lcells l) = Some ?m1" using e by (simp add: poke_eq)
  have "set qs \<subseteq> dom ?m1" using dm by auto
  then obtain m2 where m2: "link_pairs qs ?m1 = Some m2" "view ldata m2 = view ldata ?m1"
    "\<forall>i < length qs. view lnext m2 (qs ! i) = Some (if Suc i < length qs then Some (qs ! Suc i) else None)"
    "\<forall>i < length qs. view lprev m2 (qs ! i) =
      (if 0 < i then Some (Some (qs ! (i - 1))) else view lprev ?m1 (qs ! 0))"
    using link_pairs_ok [OF st(2,3)] by blast
  have v: "view ldata m2 = view ldata (lcells l)" using m2(2) e by (auto simp: view_apply fun_eq_iff)
  have hl: "head_opt qs = Some (hd qs)" "last_opt qs = Some (last qs)" "qs ! 0 = hd qs"
    using st(3) by (cases qs; simp add: last_opt_def)+
  have "dll lnext lprev m2 (Some (hd qs)) (Some (last qs)) qs"
    unfolding hl(1,2) [symmetric] by (rule dll_nthI) (use m2(3,4) hl(3) in auto)
  let ?l = "l\<lparr>lhead := Some (hd qs), ltail := Some (last qs), lcells := m2\<rparr>"
  have dom2: "dom m2 = set qs" using view_eq_dom [OF v] ok st by (simp add: llist_ok_def)
  have "llist_ok ?l qs"
    using ok st dom2 \<open>dll lnext lprev m2 _ _ qs\<close> by (simp add: llist_ok_def)
  moreover have data: "llist_data ?l qs = llist_data l qs" by (simp add: llist_data_def v)
  moreover have "mset (llist_data l qs) = mset (llist_data l ps)" by (simp add: llist_data_def q(2))
  moreover have "sorted_wrt (\<lambda>x y. c x y \<le> 0) (llist_data l qs)" if t: "total_order c"
  proof -
    have "total_order ?cmp" using t unfolding total_order_def f by blast
    then have "sorted_wrt (\<lambda>a b. ?cmp a b \<le> 0) qs" using q(3) by blast
    moreover have "the (view ldata (lcells l) a) = ldata (the (lcells l a))" if "a \<in> set qs" for a
      using llist_ok_cell [OF ok, of a] that st(1) by (auto simp: view_apply)
    ultimately show ?thesis
      unfolding llist_data_def sorted_wrt_map f
      by (auto elim!: sorted_wrt_mono_rel [rotated])
  qed
  moreover have "zend_llist_sort l comp_func = Some ?l"
  proof -
    have "path (view lnext (lcells l)) (lhead l) ps None" using ok by (simp add: llist_ok_def dll_def)
    then show ?thesis using cnt q(1) m1 m2(1) llist_collect_loop_ok [of "lcells l" "lhead l" ps "[]"]
      by (simp add: zend_llist_sort_def)
  qed
  ultimately show ?thesis using q(2) by (intro exI [of _ ?l] exI [of _ qs]) simp
qed

subsection \<open>Properties\<close>

lemma llist_reprI: "\<lbrakk>llist_ok l ps; llist_data l ps = ds\<rbrakk> \<Longrightarrow> llist_repr l ds"
  by (auto simp: llist_repr_def)

definition empty_llist :: "nat zend_llist" where
  "empty_llist = zend_llist_init \<lparr>lhead = None, ltail = None, count = 0, ldtor = False, lpersistent = False,
     traverse_ptr = None, lcells = Map.empty, lbrk = 0, llog = []\<rparr> True False"

definition demo_llist :: "nat zend_llist" where
  "demo_llist = the (Option.bind (zend_llist_add_element empty_llist 3)
     (\<lambda>l. Option.bind (zend_llist_add_element l 1) (\<lambda>l. zend_llist_add_element l 2)))"

lemma demo_llist_repr: "llist_repr demo_llist [3, 1, 2]" "ldtor demo_llist" "llog demo_llist = []"
proof -
  have e: "llist_ok empty_llist []" unfolding empty_llist_def by (rule zend_llist_init_ok) simp
  obtain l1 where l1: "zend_llist_add_element empty_llist 3 = Some l1" "llist_ok l1 ([] @ [lbrk empty_llist])"
    "llist_data l1 ([] @ [lbrk empty_llist]) = llist_data empty_llist [] @ [3]" "llog l1 = llog empty_llist"
    "ldtor l1 = ldtor empty_llist"
    using e by (rule zend_llist_add_element_ok)
  obtain l2 where l2: "zend_llist_add_element l1 1 = Some l2" "llist_ok l2 (([] @ [lbrk empty_llist]) @ [lbrk l1])"
    "llist_data l2 (([] @ [lbrk empty_llist]) @ [lbrk l1]) = llist_data l1 ([] @ [lbrk empty_llist]) @ [1]"
    "llog l2 = llog l1" "ldtor l2 = ldtor l1"
    using l1(2) by (rule zend_llist_add_element_ok)
  obtain l3 where l3: "zend_llist_add_element l2 2 = Some l3" "llist_ok l3 ((([] @ [lbrk empty_llist]) @ [lbrk l1]) @ [lbrk l2])"
    "llist_data l3 ((([] @ [lbrk empty_llist]) @ [lbrk l1]) @ [lbrk l2]) =
      llist_data l2 (([] @ [lbrk empty_llist]) @ [lbrk l1]) @ [2]"
    "llog l3 = llog l2" "ldtor l3 = ldtor l2"
    using l2(2) by (rule zend_llist_add_element_ok)
  have d: "demo_llist = l3" using l1(1) l2(1) l3(1) by (simp add: demo_llist_def)
  show "llist_repr demo_llist [3, 1, 2]"
    unfolding d by (rule llist_reprI [OF l3(2)]) (use l1(3) l2(3) l3(3) in \<open>simp add: llist_data_def\<close>)
  show "ldtor demo_llist" "llog demo_llist = []"
    using l1(4,5) l2(4,5) l3(4,5) unfolding d by (simp_all add: empty_llist_def zend_llist_init_def)
qed

text \<open>Adding appends, prepending prepends, a copy has the same data in the same order, cleaning
  runs the destructor once per element in order and leaves an empty list; none of them leaves the
  list's links or its count inconsistent.
\<close>

theorem zend_llist_basic_spec:
  assumes "llist_repr l ds" "llist_repr dst0 []"
  shows "\<exists>l1 l2 l3 l4. zend_llist_add_element l d = Some l1 \<and> llist_repr l1 (ds @ [d]) \<and>
    zend_llist_prepend_element l d = Some l2 \<and> llist_repr l2 (d # ds) \<and>
    zend_llist_copy dst0 l = Some l3 \<and> llist_repr l3 ds \<and>
    zend_llist_clean l = Some l4 \<and> llist_repr l4 [] \<and> llog l4 = llog l @ (if ldtor l then ds else [])"
proof -
  obtain ps where ok: "llist_ok l ps" and ds: "ds = llist_data l ps" using assms(1) by (auto simp: llist_repr_def)
  obtain l1 where l1: "zend_llist_add_element l d = Some l1" "llist_repr l1 (ds @ [d])"
    using zend_llist_add_element_ok [OF ok] ds llist_reprI by metis
  obtain l2 where l2: "zend_llist_prepend_element l d = Some l2" "llist_repr l2 (d # ds)"
    using zend_llist_prepend_element_ok [OF ok] ds llist_reprI by metis
  have "lcells dst0 = Map.empty" using assms(2) by (auto simp: llist_repr_def llist_ok_def llist_data_def)
  then have e: "llist_ok (zend_llist_init dst0 (ldtor l) (lpersistent l)) []" by (rule zend_llist_init_ok)
  have path: "path (view lnext (lcells l)) (lhead l) ps None" using ok by (simp add: llist_ok_def dll_def)
  obtain l3 where l3: "zend_llist_copy dst0 l = Some l3" "llist_repr l3 ds"
    using llist_copy_loop_ok [OF path e] ds by (auto simp: zend_llist_copy_def intro: llist_reprI)
  obtain l4 where l4: "zend_llist_clean l = Some l4" "llist_ok l4 []"
    "llog l4 = llog l @ (if ldtor l then llist_data l ps else [])"
    using ok by (rule zend_llist_clean_ok)
  have "llist_repr l4 []" using l4(2) by (rule llist_reprI) (simp add: llist_data_def)
  then show ?thesis using l1 l2 l3 l4(1,3) ds by blast
qed

theorem zend_llist_basic_spec_witness:
  "\<exists>l2 l4. zend_llist_prepend_element demo_llist 9 = Some l2 \<and> llist_repr l2 [9, 3, 1, 2] \<and>
    zend_llist_clean demo_llist = Some l4 \<and> llog l4 = [3, 1, 2]"
proof -
  have "llist_repr empty_llist []"
    by (rule llist_reprI [of _ "[]"]) (auto simp: llist_ok_def llist_data_def empty_llist_def zend_llist_init_def dll_def)
  from zend_llist_basic_spec [OF demo_llist_repr(1) this, of 9] show ?thesis
    using demo_llist_repr(2,3) by auto
qed

text \<open>
  C33. \<open>zend_llist_del_element\<close> removes the first element the comparison accepts, and only that one;
  its data is what the destructor gets.
\<close>

theorem zend_llist_del_element_spec:
  assumes "llist_repr l ds"
  shows "\<exists>l'. zend_llist_del_element l element compare = Some l' \<and>
    llist_repr l' (remove_first (\<lambda>d. compare d element) ds) \<and>
    llog l' = llog l @ (case List.find (\<lambda>d. compare d element) ds of
      Some d \<Rightarrow> if ldtor l then [d] else [] | None \<Rightarrow> [])"
proof -
  obtain ps where ok: "llist_ok l ps" and ds: "ds = llist_data l ps" using assms(1) by (auto simp: llist_repr_def)
  have "lhead l = head_opt ps" using ok by (auto simp: llist_ok_def dest: dll_head)
  then show ?thesis
    using del_element_loop_ok [of l "[]" ps "\<lambda>d. compare d element"] ok ds
    by (auto simp: zend_llist_del_element_def intro: llist_reprI)
qed

theorem zend_llist_del_element_spec_witness:
  "\<exists>l'. zend_llist_del_element demo_llist 1 (\<lambda>d e. d = e) = Some l' \<and> llist_repr l' [3, 2] \<and> llog l' = [1]"
  using zend_llist_del_element_spec [OF demo_llist_repr(1), of "1 :: nat" "\<lambda>d e. d = e"] demo_llist_repr(2,3) by simp

text \<open>\<open>zend_llist_apply_with_del\<close> calls the function on every element in order, the one after a
  deleted element included, and deletes exactly those it asks for.
\<close>

theorem zend_llist_apply_with_del_spec:
  assumes "llist_repr l ds" "with_del_spec f s ds = (s', kept, gone)"
  shows "\<exists>l'. zend_llist_apply_with_del l f s = Some (s', l') \<and> llist_repr l' kept \<and>
    llog l' = llog l @ (if ldtor l then gone else [])"
proof -
  obtain ps where ok: "llist_ok l ps" and ds: "ds = llist_data l ps" using assms(1) by (auto simp: llist_repr_def)
  have "lhead l = head_opt ps" using ok by (auto simp: llist_ok_def dest: dll_head)
  then show ?thesis
    using apply_with_del_loop_ok [of l "[]" ps f s] ok ds assms(2)
    by (auto simp: zend_llist_apply_with_del_def intro: llist_reprI)
qed

theorem zend_llist_apply_with_del_spec_witness:
  "\<exists>l'. zend_llist_apply_with_del demo_llist (\<lambda>s d. (2 \<le> d, d, s + d)) 0 = Some (6, l') \<and> llist_repr l' [1] \<and>
    llog l' = [3, 2]"
  using zend_llist_apply_with_del_spec [OF demo_llist_repr(1), of "\<lambda>s d. (2 \<le> d, d, s + d)" 0 6 "[1]" "[3, 2]"]
    demo_llist_repr(2,3) by simp

text \<open>\<open>zend_llist_sort\<close> keeps the elements, relinks them consistently in both directions, and orders
  their data when the comparison is a total preorder on data.
\<close>

theorem zend_llist_sort_spec:
  assumes "llist_repr l ds" "length ds < 2 ^ 64" "\<forall>e1 e2. comp_func e1 e2 = c (ldata e1) (ldata e2)"
  shows "\<exists>l' ds'. zend_llist_sort l comp_func = Some l' \<and> llist_repr l' ds' \<and> mset ds' = mset ds \<and>
    (total_order c \<longrightarrow> sorted_wrt (\<lambda>x y. c x y \<le> 0) ds') \<and> llog l' = llog l"
proof -
  obtain ps where ok: "llist_ok l ps" and ds: "ds = llist_data l ps" using assms(1) by (auto simp: llist_repr_def)
  have "length ps < 2 ^ 64" using assms(2) by (simp add: ds llist_data_def)
  from zend_llist_sort_ok [OF ok this, of comp_func c] show ?thesis
    using assms(3) ds by (auto simp: llist_repr_def)
qed

theorem zend_llist_sort_spec_witness:
  "\<exists>l' ds'. zend_llist_sort demo_llist (\<lambda>e1 e2. int (ldata e1) - int (ldata e2)) = Some l' \<and> llist_repr l' ds' \<and>
    mset ds' = mset [3, 1, 2] \<and> sorted_wrt (\<lambda>x y. int x - int y \<le> 0) ds'"
proof -
  have "total_order (\<lambda>x y. int x - int y)" by (auto simp: total_order_def)
  then show ?thesis
    using zend_llist_sort_spec [OF demo_llist_repr(1), of "\<lambda>e1 e2. int (ldata e1) - int (ldata e2)" "\<lambda>x y. int x - int y"]
    by auto
qed

text \<open>The pointer \<open>zend_llist_remove_tail\<close> returns is into an element that is already freed.\<close>

lemma zend_llist_remove_tail_dangling:
  "map_option (\<lambda>(p, l). map_option (\<lambda>a. lcells l a = None) p) (zend_llist_remove_tail demo_llist) = Some (Some True)"
  by code_simp

end
