(* ===== verification/ZendStack.thy ===== *)
theory ZendStack
  imports Prelude
begin

text \<open>
  The engine's two stacks: \<open>zend_stack\<close> (Zend/zend_stack.c), an array of separately allocated
  copies, and \<open>zend_ptr_stack\<close> (Zend/zend_ptr_stack.c, zend_ptr_stack.h), an array of pointers with
  a running \<open>top_element\<close> pointer. An array is \<open>None\<close> for NULL, otherwise the list of its slots; a
  slot is \<open>None\<close> while it holds no live value. Accesses outside an array or of a dead slot are
  \<open>None\<close>. The element counts are \<open>int\<close>; they are bounded by the memory the arrays take and stay
  in range.
\<close>

subsection \<open>zend_stack\<close>

record 'a zend_stack =
  top :: int
  smax :: int
  elements :: "'a option list option"

definition STACK_BLOCK_SIZE :: int where "STACK_BLOCK_SIZE = 64"

definition read_slot :: "'a option list option \<Rightarrow> int \<Rightarrow> 'a option" where
  "read_slot arr i = do {
     xs \<leftarrow> arr;
     (if 0 \<le> i \<and> i < int (length xs) then xs ! nat i else None) }"

definition write_slot ::
    "'a option list option \<Rightarrow> int \<Rightarrow> 'a option \<Rightarrow> 'a option list option option" where
  "write_slot arr i v = do {
     xs \<leftarrow> arr;
     (if 0 \<le> i \<and> i < int (length xs) then Some (Some (xs[nat i := v])) else None) }"

definition realloc_slots :: "'a option list option \<Rightarrow> int \<Rightarrow> 'a option list option" where
  "realloc_slots arr n = Some (let xs = (case arr of None \<Rightarrow> [] | Some xs \<Rightarrow> xs) in
     take (nat n) (xs @ replicate (nat n - length xs) None))"

definition zend_stack_init :: "'a zend_stack" where
  "zend_stack_init = \<lparr>top = 0, smax = 0, elements = None\<rparr>"

definition zend_stack_push :: "'a zend_stack \<Rightarrow> 'a \<Rightarrow> (int \<times> 'a zend_stack) option" where
  "zend_stack_push stack element = do {
     let s = (if top stack \<ge> smax stack
              then stack\<lparr>smax := smax stack + STACK_BLOCK_SIZE,
                         elements := realloc_slots (elements stack) (smax stack + STACK_BLOCK_SIZE)\<rparr>
              else stack);
     arr \<leftarrow> write_slot (elements s) (top s) (Some element);
     Some (top s, s\<lparr>elements := arr, top := top s + 1\<rparr>) }"

definition zend_stack_top :: "'a zend_stack \<Rightarrow> (zresult \<times> 'a option) option" where
  "zend_stack_top stack =
     (if top stack > 0 then do {
        e \<leftarrow> read_slot (elements stack) (top stack - 1);
        Some (SUCCESS, Some e) }
      else Some (FAILURE, None))"

definition zend_stack_del_top :: "'a zend_stack \<Rightarrow> (zresult \<times> 'a zend_stack) option" where
  "zend_stack_del_top stack =
     (if top stack > 0 then do {
        _ \<leftarrow> read_slot (elements stack) (top stack - 1);
        arr \<leftarrow> write_slot (elements stack) (top stack - 1) None;
        Some (SUCCESS, stack\<lparr>top := top stack - 1, elements := arr\<rparr>) }
      else Some (SUCCESS, stack))"

text \<open>\<open>FAILURE\<close> is -1.\<close>

definition zend_stack_int_top :: "int zend_stack \<Rightarrow> int option" where
  "zend_stack_int_top stack = do {
     (r, e) \<leftarrow> zend_stack_top stack;
     (if r = FAILURE then Some (-1) else e) }"

definition zend_stack_is_empty :: "'a zend_stack \<Rightarrow> bool" where
  "zend_stack_is_empty stack \<longleftrightarrow> top stack = 0"

text \<open>\<open>efree(stack->elements[i])\<close> for \<open>i\<close> from 0 to \<open>top - 1\<close>; freeing a dead slot is \<open>None\<close>.\<close>

fun free_elements :: "nat \<Rightarrow> nat \<Rightarrow> 'a option list \<Rightarrow> 'a option list option" where
  "free_elements 0 i xs = Some xs"
| "free_elements (Suc n) i xs = Option.bind (read_slot (Some xs) (int i))
     (\<lambda>_. free_elements n (Suc i) (xs[i := None]))"

definition zend_stack_destroy :: "'a zend_stack \<Rightarrow> (zresult \<times> 'a option list \<times> 'a zend_stack) option" where
  "zend_stack_destroy stack =
     (case elements stack of
        None \<Rightarrow> Some (SUCCESS, [], stack)
      | Some xs \<Rightarrow> do {
          ys \<leftarrow> free_elements (nat (top stack)) 0 xs;
          Some (SUCCESS, ys, stack\<lparr>elements := None\<rparr>) })"

definition zend_stack_base :: "'a zend_stack \<Rightarrow> 'a option list option" where
  "zend_stack_base stack = elements stack"

definition zend_stack_count :: "'a zend_stack \<Rightarrow> int" where
  "zend_stack_count stack = top stack"

datatype apply_type = ZEND_STACK_APPLY_TOPDOWN | ZEND_STACK_APPLY_BOTTOMUP

text \<open>\<open>for (i=stack->top-1; i>=0; i--)\<close> with \<open>n = i + 1\<close> rounds left, and the loop upwards.\<close>

fun apply_down :: "('s \<Rightarrow> 'a \<Rightarrow> bool \<times> 's) \<Rightarrow> 'a option list option \<Rightarrow> nat \<Rightarrow> 's \<Rightarrow> 's option" where
  "apply_down f arr 0 s = Some s"
| "apply_down f arr (Suc i) s = Option.bind (read_slot arr (int i))
     (\<lambda>e. case f s e of (stop, s') \<Rightarrow> if stop then Some s' else apply_down f arr i s')"

fun apply_up :: "('s \<Rightarrow> 'a \<Rightarrow> bool \<times> 's) \<Rightarrow> 'a option list option \<Rightarrow> nat \<Rightarrow> nat \<Rightarrow> 's \<Rightarrow> 's option" where
  "apply_up f arr 0 i s = Some s"
| "apply_up f arr (Suc n) i s = Option.bind (read_slot arr (int i))
     (\<lambda>e. case f s e of (stop, s') \<Rightarrow> if stop then Some s' else apply_up f arr n (Suc i) s')"

definition zend_stack_apply ::
    "'a zend_stack \<Rightarrow> apply_type \<Rightarrow> ('s \<Rightarrow> 'a \<Rightarrow> bool \<times> 's) \<Rightarrow> 's \<Rightarrow> 's option" where
  "zend_stack_apply stack type apply_function s =
     (case type of
        ZEND_STACK_APPLY_TOPDOWN \<Rightarrow> apply_down apply_function (elements stack) (nat (top stack)) s
      | ZEND_STACK_APPLY_BOTTOMUP \<Rightarrow> apply_up apply_function (elements stack) (nat (top stack)) 0 s)"

definition zend_stack_apply_with_argument ::
    "'a zend_stack \<Rightarrow> apply_type \<Rightarrow> ('s \<Rightarrow> 'a \<Rightarrow> 'b \<Rightarrow> bool \<times> 's) \<Rightarrow> 'b \<Rightarrow> 's \<Rightarrow> 's option" where
  "zend_stack_apply_with_argument stack type apply_function arg s =
     (case type of
        ZEND_STACK_APPLY_TOPDOWN \<Rightarrow>
          apply_down (\<lambda>s e. apply_function s e arg) (elements stack) (nat (top stack)) s
      | ZEND_STACK_APPLY_BOTTOMUP \<Rightarrow>
          apply_up (\<lambda>s e. apply_function s e arg) (elements stack) (nat (top stack)) 0 s)"

subsection \<open>zend_ptr_stack\<close>

record 'p zend_ptr_stack =
  ptop :: int
  pmax :: int
  pelements :: "'p option list option"
  top_element :: int
  ppersistent :: bool

definition PTR_STACK_BLOCK_SIZE :: int where "PTR_STACK_BLOCK_SIZE = 64"

definition zend_ptr_stack_init_ex :: "bool \<Rightarrow> 'p zend_ptr_stack" where
  "zend_ptr_stack_init_ex persist =
     \<lparr>ptop = 0, pmax = 0, pelements = None, top_element = 0, ppersistent = persist\<rparr>"

definition zend_ptr_stack_init :: "'p zend_ptr_stack" where
  "zend_ptr_stack_init = zend_ptr_stack_init_ex False"

function grow_max :: "int \<Rightarrow> int \<Rightarrow> int" where
  "grow_max need m = (if need > m then grow_max need (m + PTR_STACK_BLOCK_SIZE) else m)"
  by auto
termination
  by (relation "measure (\<lambda>(need, m). nat (need - m))") (auto simp: PTR_STACK_BLOCK_SIZE_def)

declare grow_max.simps [simp del]

definition ZEND_PTR_STACK_RESIZE_IF_NEEDED :: "int \<Rightarrow> 'p zend_ptr_stack \<Rightarrow> 'p zend_ptr_stack" where
  "ZEND_PTR_STACK_RESIZE_IF_NEEDED n stack =
     (if ptop stack + n > pmax stack
      then let m = grow_max (ptop stack + n) (pmax stack) in
        stack\<lparr>pmax := m, pelements := realloc_slots (pelements stack) m, top_element := ptop stack\<rparr>
      else stack)"

text \<open>\<open>*(stack->top_element++) = elem;\<close>\<close>

definition put_top :: "'p \<Rightarrow> 'p zend_ptr_stack \<Rightarrow> 'p zend_ptr_stack option" where
  "put_top elem stack = do {
     arr \<leftarrow> write_slot (pelements stack) (top_element stack) (Some elem);
     Some (stack\<lparr>pelements := arr, top_element := top_element stack + 1\<rparr>) }"

text \<open>\<open>elem = *(--stack->top_element);\<close>\<close>

definition take_top :: "'p zend_ptr_stack \<Rightarrow> ('p \<times> 'p zend_ptr_stack) option" where
  "take_top stack = do {
     elem \<leftarrow> read_slot (pelements stack) (top_element stack - 1);
     Some (elem, stack\<lparr>top_element := top_element stack - 1\<rparr>) }"

fun n_push_loop :: "'p list \<Rightarrow> 'p zend_ptr_stack \<Rightarrow> 'p zend_ptr_stack option" where
  "n_push_loop [] stack = Some stack"
| "n_push_loop (elem # elems) stack =
     Option.bind (put_top elem (stack\<lparr>ptop := ptop stack + 1\<rparr>)) (n_push_loop elems)"

definition zend_ptr_stack_n_push :: "'p zend_ptr_stack \<Rightarrow> 'p list \<Rightarrow> 'p zend_ptr_stack option" where
  "zend_ptr_stack_n_push stack elems =
     n_push_loop elems (ZEND_PTR_STACK_RESIZE_IF_NEEDED (int (length elems)) stack)"

fun n_pop_loop :: "nat \<Rightarrow> 'p zend_ptr_stack \<Rightarrow> ('p list \<times> 'p zend_ptr_stack) option" where
  "n_pop_loop 0 stack = Some ([], stack)"
| "n_pop_loop (Suc n) stack = do {
     (elem, s) \<leftarrow> take_top stack;
     (elems, s') \<leftarrow> n_pop_loop n (s\<lparr>ptop := ptop s - 1\<rparr>);
     Some (elem # elems, s') }"

definition zend_ptr_stack_n_pop :: "'p zend_ptr_stack \<Rightarrow> nat \<Rightarrow> ('p list \<times> 'p zend_ptr_stack) option" where
  "zend_ptr_stack_n_pop stack n = n_pop_loop n stack"

definition zend_ptr_stack_push :: "'p zend_ptr_stack \<Rightarrow> 'p \<Rightarrow> 'p zend_ptr_stack option" where
  "zend_ptr_stack_push stack p = do {
     let s = ZEND_PTR_STACK_RESIZE_IF_NEEDED 1 stack;
     put_top p (s\<lparr>ptop := ptop s + 1\<rparr>) }"

definition zend_ptr_stack_pop :: "'p zend_ptr_stack \<Rightarrow> ('p \<times> 'p zend_ptr_stack) option" where
  "zend_ptr_stack_pop stack = take_top (stack\<lparr>ptop := ptop stack - 1\<rparr>)"

definition zend_ptr_stack_2_push :: "'p zend_ptr_stack \<Rightarrow> 'p \<Rightarrow> 'p \<Rightarrow> 'p zend_ptr_stack option" where
  "zend_ptr_stack_2_push stack a b = do {
     let s = ZEND_PTR_STACK_RESIZE_IF_NEEDED 2 stack;
     s1 \<leftarrow> put_top a (s\<lparr>ptop := ptop s + 2\<rparr>);
     put_top b s1 }"

definition zend_ptr_stack_3_push :: "'p zend_ptr_stack \<Rightarrow> 'p \<Rightarrow> 'p \<Rightarrow> 'p \<Rightarrow> 'p zend_ptr_stack option" where
  "zend_ptr_stack_3_push stack a b c = do {
     let s = ZEND_PTR_STACK_RESIZE_IF_NEEDED 3 stack;
     s1 \<leftarrow> put_top a (s\<lparr>ptop := ptop s + 3\<rparr>);
     s2 \<leftarrow> put_top b s1;
     put_top c s2 }"

definition zend_ptr_stack_2_pop :: "'p zend_ptr_stack \<Rightarrow> ('p \<times> 'p \<times> 'p zend_ptr_stack) option" where
  "zend_ptr_stack_2_pop stack = do {
     (a, s1) \<leftarrow> take_top stack;
     (b, s2) \<leftarrow> take_top s1;
     Some (a, b, s2\<lparr>ptop := ptop s2 - 2\<rparr>) }"

definition zend_ptr_stack_3_pop :: "'p zend_ptr_stack \<Rightarrow> ('p \<times> 'p \<times> 'p \<times> 'p zend_ptr_stack) option" where
  "zend_ptr_stack_3_pop stack = do {
     (a, s1) \<leftarrow> take_top stack;
     (b, s2) \<leftarrow> take_top s1;
     (c, s3) \<leftarrow> take_top s2;
     Some (a, b, c, s3\<lparr>ptop := ptop s3 - 3\<rparr>) }"

text \<open>The elements passed to \<open>func\<close>, in order: from the top down.\<close>

fun ptr_apply_loop :: "('s \<Rightarrow> 'p \<Rightarrow> 's) \<Rightarrow> 'p option list option \<Rightarrow> nat \<Rightarrow> 's \<Rightarrow> 's option" where
  "ptr_apply_loop func arr 0 s = Some s"
| "ptr_apply_loop func arr (Suc i) s =
     Option.bind (read_slot arr (int i)) (\<lambda>e. ptr_apply_loop func arr i (func s e))"

definition zend_ptr_stack_apply :: "'p zend_ptr_stack \<Rightarrow> ('s \<Rightarrow> 'p \<Rightarrow> 's) \<Rightarrow> 's \<Rightarrow> 's option" where
  "zend_ptr_stack_apply stack func s = ptr_apply_loop func (pelements stack) (nat (ptop stack)) s"

text \<open>The third component lists the pointers freed.\<close>

definition zend_ptr_stack_clean ::
    "'p zend_ptr_stack \<Rightarrow> ('s \<Rightarrow> 'p \<Rightarrow> 's) \<Rightarrow> bool \<Rightarrow> 's \<Rightarrow> ('s \<times> 'p list \<times> 'p zend_ptr_stack) option" where
  "zend_ptr_stack_clean stack func free_them s = do {
     s1 \<leftarrow> zend_ptr_stack_apply stack func s;
     freed \<leftarrow> (if free_them
              then ptr_apply_loop (\<lambda>ps p. ps @ [p]) (pelements stack) (nat (ptop stack)) []
              else Some []);
     Some (s1, freed, stack\<lparr>ptop := 0, top_element := 0\<rparr>) }"

definition zend_ptr_stack_num_elements :: "'p zend_ptr_stack \<Rightarrow> int" where
  "zend_ptr_stack_num_elements stack = ptop stack"

definition zend_ptr_stack_destroy :: "'p zend_ptr_stack \<Rightarrow> bool" where
  "zend_ptr_stack_destroy stack \<longleftrightarrow> pelements stack \<noteq> None"

subsection \<open>The stacks as lists, top first\<close>

definition slots_hold :: "'a option list option \<Rightarrow> int \<Rightarrow> 'a list \<Rightarrow> bool" where
  "slots_hold arr m xs \<longleftrightarrow> (\<exists>ys. ys = (case arr of None \<Rightarrow> [] | Some ys \<Rightarrow> ys) \<and> m = int (length ys) \<and>
     length xs \<le> length ys \<and> take (length xs) ys = map Some (rev xs))"

definition stack_repr :: "'a zend_stack \<Rightarrow> 'a list \<Rightarrow> bool" where
  "stack_repr s xs \<longleftrightarrow> top s = int (length xs) \<and> slots_hold (elements s) (smax s) xs"

definition ptr_stack_repr :: "'p zend_ptr_stack \<Rightarrow> 'p list \<Rightarrow> bool" where
  "ptr_stack_repr s xs \<longleftrightarrow> ptop s = int (length xs) \<and> top_element s = ptop s \<and>
     slots_hold (pelements s) (pmax s) xs"

lemma slots_hold_realloc:
  "\<lbrakk>slots_hold arr m xs; m \<le> n\<rbrakk> \<Longrightarrow> slots_hold (realloc_slots arr n) n xs"
  by (auto simp: slots_hold_def realloc_slots_def Let_def min_def)

lemma slots_hold_read:
  assumes "slots_hold arr m xs" "i < length xs"
  shows "read_slot arr (int i) = Some (rev xs ! i)"
proof -
  obtain ys where ys: "arr = Some ys" "length xs \<le> length ys" "take (length xs) ys = map Some (rev xs)"
    using assms by (cases arr) (auto simp: slots_hold_def)
  have "ys ! i = take (length xs) ys ! i" using assms(2) by simp
  also have "\<dots> = Some (rev xs ! i)" unfolding ys(3) using assms(2) by simp
  finally show ?thesis using ys assms(2) by (simp add: read_slot_def)
qed

lemma slots_hold_write:
  assumes "slots_hold arr m xs" "int (length xs) < m"
  obtains arr' where "write_slot arr (int (length xs)) (Some x) = Some arr'" "slots_hold arr' m (x # xs)"
proof -
  obtain ys where ys: "arr = Some ys" "m = int (length ys)" "take (length xs) ys = map Some (rev xs)"
    using assms by (cases arr) (auto simp: slots_hold_def)
  have "take (Suc (length xs)) (ys[length xs := Some x]) = map Some (rev xs) @ [Some x]"
    using assms(2) ys(2,3) by (simp add: take_Suc_conv_app_nth)
  then show ?thesis using assms(2) ys that by (simp add: write_slot_def slots_hold_def)
qed

lemma slots_hold_tl:
  assumes "slots_hold arr m (x # xs)"
  shows "slots_hold arr m xs"
proof -
  obtain ys where ys: "ys = (case arr of None \<Rightarrow> [] | Some ys \<Rightarrow> ys)" "m = int (length ys)"
    "length (x # xs) \<le> length ys" "take (Suc (length xs)) ys = map Some (rev xs) @ [Some x]"
    using assms by (auto simp: slots_hold_def)
  have "take (length xs) ys = take (length xs) (take (Suc (length xs)) ys)" by simp
  also have "\<dots> = map Some (rev xs)" unfolding ys(4) by simp
  finally show ?thesis using ys by (auto simp: slots_hold_def)
qed

lemma slots_hold_kill:
  assumes "slots_hold arr m (x # xs)"
  obtains arr' where "write_slot arr (int (length xs)) None = Some arr'" "slots_hold arr' m xs"
proof -
  obtain ys where ys: "arr = Some ys" "m = int (length ys)" "Suc (length xs) \<le> length ys"
    using assms by (cases arr) (auto simp: slots_hold_def)
  have "slots_hold arr m xs" using assms by (rule slots_hold_tl)
  then have "take (length xs) ys = map Some (rev xs)" using ys by (simp add: slots_hold_def)
  then show ?thesis using ys that by (simp add: write_slot_def slots_hold_def)
qed

subsection \<open>zend_stack\<close>

lemma zend_stack_push_ok:
  assumes "stack_repr s xs"
  obtains s' where "zend_stack_push s x = Some (int (length xs), s')" "stack_repr s' (x # xs)"
proof -
  let ?s = "if top s \<ge> smax s then s\<lparr>smax := smax s + STACK_BLOCK_SIZE,
      elements := realloc_slots (elements s) (smax s + STACK_BLOCK_SIZE)\<rparr> else s"
  have h: "slots_hold (elements ?s) (smax ?s) xs" "top ?s = int (length xs)"
    using assms slots_hold_realloc [of "elements s" "smax s" xs "smax s + STACK_BLOCK_SIZE"]
    by (auto simp: stack_repr_def STACK_BLOCK_SIZE_def)
  have "int (length xs) < smax ?s"
    using assms by (auto simp: stack_repr_def slots_hold_def STACK_BLOCK_SIZE_def)
  then obtain arr where w: "write_slot (elements ?s) (int (length xs)) (Some x) = Some arr"
    "slots_hold arr (smax ?s) (x # xs)"
    using slots_hold_write [OF h(1)] by blast
  show ?thesis
  proof (rule that)
    show "zend_stack_push s x = Some (int (length xs), ?s\<lparr>elements := arr, top := top ?s + 1\<rparr>)"
      unfolding zend_stack_push_def Let_def h(2) using w(1) by simp
    show "stack_repr (?s\<lparr>elements := arr, top := top ?s + 1\<rparr>) (x # xs)"
      using w(2) h(2) by (simp add: stack_repr_def)
  qed
qed

lemma zend_stack_top_ok:
  assumes "stack_repr s xs"
  shows "zend_stack_top s = Some (case xs of [] \<Rightarrow> (FAILURE, None) | x # _ \<Rightarrow> (SUCCESS, Some x))"
proof (cases xs)
  case (Cons x ys)
  then have "read_slot (elements s) (int (length ys)) = Some x"
    using slots_hold_read [of "elements s" "smax s" xs "length ys"] assms
    by (simp add: stack_repr_def nth_append)
  then show ?thesis using assms Cons by (simp add: stack_repr_def zend_stack_top_def)
qed (use assms in \<open>simp add: stack_repr_def zend_stack_top_def\<close>)

lemma zend_stack_del_top_ok:
  assumes "stack_repr s xs"
  obtains s' where "zend_stack_del_top s = Some (SUCCESS, s')" "stack_repr s' (tl xs)"
proof (cases xs)
  case Nil
  then show ?thesis using assms that by (simp add: stack_repr_def zend_stack_del_top_def)
next
  case (Cons x ys)
  then have h: "slots_hold (elements s) (smax s) (x # ys)" "top s = int (length ys) + 1"
    using assms by (simp_all add: stack_repr_def)
  have "read_slot (elements s) (int (length ys)) = Some x"
    using slots_hold_read [OF h(1), of "length ys"] by (simp add: nth_append)
  moreover obtain arr where "write_slot (elements s) (int (length ys)) None = Some arr"
    "slots_hold arr (smax s) ys"
    using h(1) by (rule slots_hold_kill)
  ultimately show ?thesis using h(2) Cons that
    by (simp add: zend_stack_del_top_def stack_repr_def)
qed

text \<open>The loop visits the elements in order until the callback asks to stop.\<close>

fun visit :: "('s \<Rightarrow> 'a \<Rightarrow> bool \<times> 's) \<Rightarrow> 's \<Rightarrow> 'a list \<Rightarrow> 's" where
  "visit f s [] = s"
| "visit f s (x # xs) = (case f s x of (stop, s') \<Rightarrow> if stop then s' else visit f s' xs)"

lemma apply_down_ok:
  assumes "\<And>i. i < n \<Longrightarrow> read_slot arr (int i) = Some (ys ! i)" "n \<le> length ys"
  shows "apply_down f arr n s = Some (visit f s (rev (take n ys)))"
  using assms
proof (induction n arbitrary: s)
  case (Suc n)
  then have "rev (take (Suc n) ys) = ys ! n # rev (take n ys)" by (simp add: take_Suc_conv_app_nth)
  then show ?case using Suc by (simp split: prod.splits)
qed simp

lemma apply_up_ok:
  assumes "\<And>j. i \<le> j \<Longrightarrow> j < i + n \<Longrightarrow> read_slot arr (int j) = Some (ys ! j)" "i + n = length ys"
  shows "apply_up f arr n i s = Some (visit f s (drop i ys))"
  using assms
proof (induction n arbitrary: i s)
  case (Suc n)
  have "drop i ys = ys ! i # drop (Suc i) ys" using Suc.prems(2) by (simp add: Cons_nth_drop_Suc)
  moreover have "apply_up f arr n (Suc i) s' = Some (visit f s' (drop (Suc i) ys))" for s'
    using Suc.prems by (intro Suc.IH) simp_all
  ultimately show ?case using Suc.prems(1) [of i] by (simp split: prod.splits)
qed simp

lemma zend_stack_apply_ok:
  assumes "stack_repr s xs"
  shows "zend_stack_apply s ZEND_STACK_APPLY_TOPDOWN f u = Some (visit f u xs)"
    and "zend_stack_apply s ZEND_STACK_APPLY_BOTTOMUP f u = Some (visit f u (rev xs))"
proof -
  have t: "nat (top s) = length xs" using assms by (simp add: stack_repr_def)
  have r: "read_slot (elements s) (int i) = Some (rev xs ! i)" if "i < length xs" for i
    using assms that slots_hold_read by (auto simp: stack_repr_def)
  show "zend_stack_apply s ZEND_STACK_APPLY_TOPDOWN f u = Some (visit f u xs)"
    using apply_down_ok [of "length xs" "elements s" "rev xs" f u] r t by (simp add: zend_stack_apply_def)
  show "zend_stack_apply s ZEND_STACK_APPLY_BOTTOMUP f u = Some (visit f u (rev xs))"
    using apply_up_ok [of 0 "length xs" "elements s" "rev xs" f u] r t by (simp add: zend_stack_apply_def)
qed

lemma free_elements_ok:
  assumes "\<And>j. i \<le> j \<Longrightarrow> j < i + n \<Longrightarrow> \<exists>x. read_slot (Some ys) (int j) = Some x"
  shows "\<exists>zs. free_elements n i ys = Some zs \<and> length zs = length ys \<and>
    (\<forall>j < length ys. zs ! j = (if i \<le> j \<and> j < i + n then None else ys ! j))"
  using assms
proof (induction n arbitrary: i ys)
  case (Suc n)
  have "\<exists>x. read_slot (Some (ys[i := None])) (int j) = Some x" if "Suc i \<le> j" "j < Suc i + n" for j
    using Suc.prems [of j] that by (auto simp: read_slot_def split: if_splits)
  then obtain zs where "free_elements n (Suc i) (ys[i := None]) = Some zs" "length zs = length (ys[i := None])"
    "\<forall>j < length (ys[i := None]). zs ! j = (if Suc i \<le> j \<and> j < Suc i + n then None else (ys[i := None]) ! j)"
    using Suc.IH [of "Suc i" "ys[i := None]"] by blast
  then show ?case using Suc.prems [of i]
    by (intro exI [of _ zs]) (auto simp: nth_list_update)
qed auto

lemma zend_stack_destroy_ok:
  assumes "stack_repr s xs"
  obtains ys s' where "zend_stack_destroy s = Some (SUCCESS, ys, s')" "elements s' = None"
    and "length xs \<le> length ys" "\<forall>i < length xs. ys ! i = None"
proof (cases "elements s")
  case None
  then have "xs = []" using assms by (simp add: stack_repr_def slots_hold_def)
  then show ?thesis using that None by (simp add: zend_stack_destroy_def)
next
  case (Some arr)
  have t: "nat (top s) = length xs" using assms by (simp add: stack_repr_def)
  have l: "length xs \<le> length arr" using assms Some by (simp add: stack_repr_def slots_hold_def)
  have r: "\<exists>x. read_slot (Some arr) (int j) = Some x" if "0 \<le> j" "j < 0 + length xs" for j
    using slots_hold_read [of "elements s" "smax s" xs j] assms that Some by (auto simp: stack_repr_def)
  have "\<exists>zs. free_elements (length xs) 0 arr = Some zs \<and> length zs = length arr \<and>
      (\<forall>j < length arr. zs ! j = (if 0 \<le> j \<and> j < 0 + length xs then None else arr ! j))"
    by (rule free_elements_ok) (rule r)
  then obtain zs where z: "free_elements (length xs) 0 arr = Some zs" "length zs = length arr"
    "\<forall>j < length arr. zs ! j = (if 0 \<le> j \<and> j < 0 + length xs then None else arr ! j)"
    by (elim exE conjE)
  show ?thesis
    by (rule that [of zs "s\<lparr>elements := None\<rparr>"]) (use z l t Some in \<open>simp_all add: zend_stack_destroy_def\<close>)
qed

subsection \<open>zend_ptr_stack\<close>

lemma grow_max_ge: "need \<le> grow_max need m \<and> m \<le> grow_max need m"
proof (induction need m rule: grow_max.induct)
  case (1 need m)
  show ?case
  proof (cases "need > m")
    case True
    then have "grow_max need m = grow_max need (m + PTR_STACK_BLOCK_SIZE)"
      by (subst grow_max.simps) simp
    then show ?thesis using 1 True by (simp add: PTR_STACK_BLOCK_SIZE_def)
  next
    case False
    then have "grow_max need m = m" by (subst grow_max.simps) simp
    then show ?thesis using False by simp
  qed
qed

lemma resize_needed_ok:
  assumes "ptr_stack_repr s xs" "0 \<le> n"
  shows "ptr_stack_repr (ZEND_PTR_STACK_RESIZE_IF_NEEDED n s) xs"
    and "int (length xs) + n \<le> pmax (ZEND_PTR_STACK_RESIZE_IF_NEEDED n s)"
  using assms grow_max_ge [of "ptop s + n" "pmax s"]
  by (auto simp: ptr_stack_repr_def ZEND_PTR_STACK_RESIZE_IF_NEEDED_def Let_def intro!: slots_hold_realloc)

text \<open>
  The macros advance \<open>top_element\<close> and \<open>top\<close> separately; in between only the array and
  \<open>top_element\<close> describe the stack.
\<close>

definition mid_repr :: "'p zend_ptr_stack \<Rightarrow> 'p list \<Rightarrow> bool" where
  "mid_repr s xs \<longleftrightarrow> top_element s = int (length xs) \<and> slots_hold (pelements s) (pmax s) xs"

lemma ptr_stack_repr_mid: "ptr_stack_repr s xs \<longleftrightarrow> mid_repr s xs \<and> ptop s = int (length xs)"
  by (auto simp: ptr_stack_repr_def mid_repr_def)

lemma mid_repr_top [simp]: "mid_repr (s\<lparr>ptop := n\<rparr>) xs = mid_repr s xs"
  by (simp add: mid_repr_def)

lemma put_top_ok:
  assumes "mid_repr s xs" "int (length xs) < pmax s"
  obtains s' where "put_top x s = Some s'" "mid_repr s' (x # xs)" "pmax s' = pmax s" "ptop s' = ptop s"
proof -
  obtain arr where "write_slot (pelements s) (int (length xs)) (Some x) = Some arr"
    "slots_hold arr (pmax s) (x # xs)"
    using slots_hold_write [of "pelements s" "pmax s" xs x] assms unfolding mid_repr_def by blast
  then show ?thesis using assms that by (simp add: put_top_def mid_repr_def)
qed

lemma take_top_ok:
  assumes "mid_repr s (x # xs)"
  obtains s' where "take_top s = Some (x, s')" "mid_repr s' xs" "ptop s' = ptop s"
proof -
  have "read_slot (pelements s) (int (length xs)) = Some x"
    using slots_hold_read [of "pelements s" "pmax s" "x # xs" "length xs"] assms
    by (simp add: mid_repr_def nth_append)
  moreover have "slots_hold (pelements s) (pmax s) xs"
    by (rule slots_hold_tl [of _ _ x]) (use assms in \<open>simp add: mid_repr_def\<close>)
  ultimately show ?thesis using assms that by (simp add: take_top_def mid_repr_def)
qed

lemma n_push_loop_ok:
  assumes "ptr_stack_repr s xs" "int (length xs + length es) \<le> pmax s"
  shows "\<exists>s'. n_push_loop es s = Some s' \<and> ptr_stack_repr s' (rev es @ xs)"
  using assms
proof (induction es arbitrary: s xs)
  case (Cons e es)
  then have m: "mid_repr (s\<lparr>ptop := ptop s + 1\<rparr>) xs" "int (length xs) < pmax (s\<lparr>ptop := ptop s + 1\<rparr>)"
    by (simp_all add: ptr_stack_repr_mid)
  obtain s1 where s1: "put_top e (s\<lparr>ptop := ptop s + 1\<rparr>) = Some s1" "mid_repr s1 (e # xs)"
    "pmax s1 = pmax s" "ptop s1 = ptop s + 1"
    using m by (rule put_top_ok) simp
  have "ptr_stack_repr s1 (e # xs)" "int (length (e # xs) + length es) \<le> pmax s1"
    using s1 Cons.prems by (simp_all add: ptr_stack_repr_mid)
  then show ?case using Cons.IH [of s1 "e # xs"] s1(1) by simp
qed simp

lemma zend_ptr_stack_n_push_ok:
  assumes "ptr_stack_repr s xs"
  shows "\<exists>s'. zend_ptr_stack_n_push s es = Some s' \<and> ptr_stack_repr s' (rev es @ xs)"
  using n_push_loop_ok [OF resize_needed_ok(1) [OF assms]] resize_needed_ok(2) [OF assms, of "int (length es)"]
  by (simp add: zend_ptr_stack_n_push_def)

lemma zend_ptr_stack_n_pop_ok:
  assumes "ptr_stack_repr s (es @ xs)"
  shows "\<exists>s'. zend_ptr_stack_n_pop s (length es) = Some (es, s') \<and> ptr_stack_repr s' xs"
  unfolding zend_ptr_stack_n_pop_def using assms
proof (induction es arbitrary: s)
  case (Cons e es)
  then have "mid_repr s (e # es @ xs)" by (simp add: ptr_stack_repr_mid)
  then obtain s1 where s1: "take_top s = Some (e, s1)" "mid_repr s1 (es @ xs)" "ptop s1 = ptop s"
    by (rule take_top_ok)
  have "ptr_stack_repr (s1\<lparr>ptop := ptop s1 - 1\<rparr>) (es @ xs)"
    using s1 Cons.prems by (simp add: ptr_stack_repr_mid)
  then show ?case using Cons.IH [of "s1\<lparr>ptop := ptop s1 - 1\<rparr>"] s1(1) by auto
qed simp

lemma zend_ptr_stack_push_ok:
  assumes "ptr_stack_repr s xs"
  shows "\<exists>s'. zend_ptr_stack_push s x = Some s' \<and> ptr_stack_repr s' (x # xs)"
  using zend_ptr_stack_n_push_ok [OF assms, of "[x]"]
  by (auto simp: zend_ptr_stack_n_push_def zend_ptr_stack_push_def Let_def bind_eq_Some_iff)

lemma zend_ptr_stack_pop_ok:
  assumes "ptr_stack_repr s (x # xs)"
  shows "\<exists>s'. zend_ptr_stack_pop s = Some (x, s') \<and> ptr_stack_repr s' xs"
proof -
  have "mid_repr (s\<lparr>ptop := ptop s - 1\<rparr>) (x # xs)" using assms by (simp add: ptr_stack_repr_mid)
  then obtain s' where "take_top (s\<lparr>ptop := ptop s - 1\<rparr>) = Some (x, s')" "mid_repr s' xs"
    "ptop s' = ptop (s\<lparr>ptop := ptop s - 1\<rparr>)" by (rule take_top_ok)
  then show ?thesis using assms by (simp add: zend_ptr_stack_pop_def ptr_stack_repr_mid)
qed

lemma ptr_apply_loop_ok:
  assumes "\<And>i. i < n \<Longrightarrow> read_slot arr (int i) = Some (ys ! i)" "n \<le> length ys"
  shows "ptr_apply_loop f arr n s = Some (foldl f s (rev (take n ys)))"
  using assms
proof (induction n arbitrary: s)
  case (Suc n)
  then have "rev (take (Suc n) ys) = ys ! n # rev (take n ys)" by (simp add: take_Suc_conv_app_nth)
  then show ?case using Suc by simp
qed simp

lemma zend_ptr_stack_clean_ok:
  assumes "ptr_stack_repr s xs"
  shows "\<exists>s'. zend_ptr_stack_clean s f free_them u =
      Some (foldl f u xs, if free_them then xs else [], s') \<and> ptr_stack_repr s' []"
proof -
  have t: "nat (ptop s) = length xs" using assms by (simp add: ptr_stack_repr_def)
  have r: "read_slot (pelements s) (int i) = Some (rev xs ! i)" if "i < length xs" for i
    using assms that slots_hold_read by (auto simp: ptr_stack_repr_def)
  have l: "ptr_apply_loop f (pelements s) (length xs) u = Some (foldl f u xs)"
    using ptr_apply_loop_ok [of "length xs" "pelements s" "rev xs" f u] r by simp
  have "foldl (\<lambda>ps p. ps @ [p]) qs xs = qs @ xs" for qs
    by (induction xs arbitrary: qs) simp_all
  then have l2: "ptr_apply_loop (\<lambda>ps p. ps @ [p]) (pelements s) (length xs) [] = Some xs"
    using ptr_apply_loop_ok [of "length xs" "pelements s" "rev xs" "\<lambda>ps p. ps @ [p]" "[]"] r by simp
  have "slots_hold (pelements s) (pmax s) []" using assms by (auto simp: ptr_stack_repr_def slots_hold_def)
  then show ?thesis
    using l l2 t by (simp add: zend_ptr_stack_clean_def zend_ptr_stack_apply_def ptr_stack_repr_def)
qed

subsection \<open>Properties\<close>

fun push_all :: "'a list \<Rightarrow> 'a zend_stack \<Rightarrow> 'a zend_stack option" where
  "push_all [] s = Some s"
| "push_all (x # xs) s = Option.bind (zend_stack_push s x) (\<lambda>(_, s'). push_all xs s')"

lemma push_all_ok: "stack_repr s xs \<Longrightarrow> \<exists>s'. push_all ys s = Some s' \<and> stack_repr s' (rev ys @ xs)"
proof (induction ys arbitrary: s xs)
  case (Cons y ys)
  obtain s1 where s1: "zend_stack_push s y = Some (int (length xs), s1)" "stack_repr s1 (y # xs)"
    using Cons.prems by (rule zend_stack_push_ok)
  then show ?case using Cons.IH [OF s1(2)] by simp
qed simp

text \<open>A stack gives back what was pushed last first: after any pushes, the top is the last of them,
  removing it uncovers the one before, a push returns the index it wrote to, and the element block
  grows as needed, so no access leaves it. An empty stack has no top and loses nothing.
\<close>

theorem zend_stack_lifo:
  assumes "stack_repr s xs"
  shows "\<exists>s1 s2. zend_stack_push s x = Some (int (length xs), s1) \<and> stack_repr s1 (x # xs) \<and>
    zend_stack_top s1 = Some (SUCCESS, Some x) \<and>
    zend_stack_del_top s1 = Some (SUCCESS, s2) \<and> stack_repr s2 xs \<and>
    zend_stack_count s1 = int (length xs) + 1 \<and>
    (xs = [] \<longrightarrow> zend_stack_top s = Some (FAILURE, None) \<and> zend_stack_is_empty s)"
proof -
  obtain s1 where s1: "zend_stack_push s x = Some (int (length xs), s1)" "stack_repr s1 (x # xs)"
    using assms by (rule zend_stack_push_ok)
  obtain s2 where s2: "zend_stack_del_top s1 = Some (SUCCESS, s2)" "stack_repr s2 (tl (x # xs))"
    using s1(2) by (rule zend_stack_del_top_ok)
  show ?thesis
    using s1 s2 zend_stack_top_ok [OF s1(2)] zend_stack_top_ok [OF assms] assms
    by (auto simp: zend_stack_count_def zend_stack_is_empty_def stack_repr_def)
qed

theorem zend_stack_lifo_witness:
  "\<exists>s1 s2. zend_stack_push zend_stack_init (7 :: nat) = Some (0, s1) \<and> zend_stack_top s1 = Some (SUCCESS, Some 7) \<and>
    zend_stack_del_top s1 = Some (SUCCESS, s2) \<and> zend_stack_is_empty (zend_stack_init :: nat zend_stack)"
proof -
  have "stack_repr (zend_stack_init :: nat zend_stack) []"
    by (simp add: stack_repr_def slots_hold_def zend_stack_init_def)
  from zend_stack_lifo [OF this, of 7] show ?thesis by auto
qed

text \<open>\<open>zend_stack_apply\<close> visits the elements from the top or from the bottom and stops after the
  first that answers with a true value; \<open>zend_stack_destroy\<close> releases every element and the block.
\<close>

theorem zend_stack_apply_spec:
  assumes "stack_repr s xs"
  shows "zend_stack_apply s ZEND_STACK_APPLY_TOPDOWN f u = Some (visit f u xs) \<and>
    zend_stack_apply s ZEND_STACK_APPLY_BOTTOMUP f u = Some (visit f u (rev xs)) \<and>
    (\<exists>ys s'. zend_stack_destroy s = Some (SUCCESS, ys, s') \<and> elements s' = None \<and>
      (\<forall>i < length xs. ys ! i = None))"
  using zend_stack_apply_ok [OF assms] zend_stack_destroy_ok [OF assms] by metis

theorem zend_stack_apply_spec_witness:
  "\<exists>s. push_all [1, 2, 3] zend_stack_init = Some s \<and>
    zend_stack_apply s ZEND_STACK_APPLY_TOPDOWN (\<lambda>u x. (x = 2, u @ [x])) [] = Some [3, 2] \<and>
    zend_stack_apply s ZEND_STACK_APPLY_BOTTOMUP (\<lambda>u x. (x = 2, u @ [x])) [] = Some [1, 2 :: nat]"
proof -
  have "stack_repr (zend_stack_init :: nat zend_stack) []"
    by (simp add: stack_repr_def slots_hold_def zend_stack_init_def)
  from push_all_ok [OF this, of "[1, 2, 3 :: nat]"]
  obtain s where s: "push_all [1, 2, 3 :: nat] zend_stack_init = Some s" "stack_repr s [3, 2, 1]"
    by (auto simp del: push_all.simps)
  from zend_stack_apply_spec [OF s(2), of "\<lambda>u x. (x = 2, u @ [x])" "[]"] s(1) show ?thesis by auto
qed

text \<open>On a pointer stack, a multiple push leaves its last argument on top and a multiple pop hands
  the pointers out from the top, so that it reverses the push; the running top pointer and the count
  stay in step through every reallocation.
\<close>

theorem zend_ptr_stack_push_pop:
  assumes "ptr_stack_repr s xs"
  shows "\<exists>s1 s2. zend_ptr_stack_n_push s es = Some s1 \<and> ptr_stack_repr s1 (rev es @ xs) \<and>
    zend_ptr_stack_n_pop s1 (length es) = Some (rev es, s2) \<and> ptr_stack_repr s2 xs"
proof -
  obtain s1 where s1: "zend_ptr_stack_n_push s es = Some s1" "ptr_stack_repr s1 (rev es @ xs)"
    using zend_ptr_stack_n_push_ok [OF assms] by blast
  then show ?thesis using zend_ptr_stack_n_pop_ok [OF s1(2)] by auto
qed

theorem zend_ptr_stack_push_pop_witness:
  "\<exists>s1 s2. zend_ptr_stack_n_push (zend_ptr_stack_init :: nat zend_ptr_stack) [1, 2, 3] = Some s1 \<and>
    zend_ptr_stack_n_pop s1 3 = Some ([3, 2, 1], s2)"
proof -
  have "ptr_stack_repr (zend_ptr_stack_init :: nat zend_ptr_stack) []"
    by (simp add: ptr_stack_repr_def slots_hold_def zend_ptr_stack_init_def zend_ptr_stack_init_ex_def)
  from zend_ptr_stack_push_pop [OF this, of "[1, 2, 3]"] show ?thesis by (auto simp: numeral_3_eq_3)
qed

end
