(* ===== verification/ZendList.thy ===== *)
theory ZendList
  imports ZendHashSpec ZendHashTables
begin

text \<open>
  Resource lists (Zend/zend_list.c, Zend/zend_list.h): handles are the integer keys of a hash
  table of reference-counted entries. Handles and types are C \<open>int\<close>s; they reach the hash as
  \<open>ulong\<close> keys by sign extension, and \<open>zend_list_insert\<close> cuts the next free key down to an \<open>int\<close>.
  A resource pointer is an option, \<open>None\<close> for NULL. Warnings are values.
\<close>

record 'p zend_rsrc_list_entry =
  le_ptr :: "'p option"
  le_type :: int
  le_refcount :: int

type_synonym 'p rsrc_list = "'p zend_rsrc_list_entry hashtable"

definition int_key :: "int \<Rightarrow> ulong" where
  "int_key rid = word_of_int rid"

definition key_int :: "ulong \<Rightarrow> int" where
  "key_int h = sint (ucast h :: uint)"

definition zend_list_insert :: "'p option \<Rightarrow> int \<Rightarrow> 'p rsrc_list \<Rightarrow> (int \<times> 'p rsrc_list) option" where
  "zend_list_insert p type ht = do {
     let le = \<lparr>le_ptr = p, le_type = type, le_refcount = 1\<rparr>;
     let index = key_int (zend_hash_next_free_element ht);
     (_, _, ht') \<leftarrow> zend_hash_index_update_or_next_insert ht (int_key index) le False HASH_UPDATE;
     Some (index, ht') }"

text \<open>Changing the reference count of the entry at an address.\<close>

definition set_refcount :: "addr \<Rightarrow> int \<Rightarrow> 'p rsrc_list \<Rightarrow> 'p rsrc_list option" where
  "set_refcount a n ht = do {
     m \<leftarrow> poke a (\<lambda>b. b\<lparr>pData := (pData b)\<lparr>le_refcount := n\<rparr>\<rparr>) (cells ht);
     Some (ht\<lparr>cells := m\<rparr>) }"

definition zend_list_delete :: "int \<Rightarrow> 'p rsrc_list \<Rightarrow> (zresult \<times> 'p rsrc_list) option" where
  "zend_list_delete rid ht = do {
     r \<leftarrow> zend_hash_index_find ht (int_key rid);
     (case r of
        None \<Rightarrow> Some (FAILURE, ht)
      | Some a \<Rightarrow> do {
          le \<leftarrow> data_at ht a;
          let n = i32 (le_refcount le - 1);
          ht1 \<leftarrow> set_refcount a n ht;
          (if n \<le> 0 then zend_hash_index_del ht1 (int_key rid) else Some (SUCCESS, ht1)) }) }"

definition zend_list_find :: "int \<Rightarrow> 'p rsrc_list \<Rightarrow> ('p option \<times> int) option" where
  "zend_list_find rid ht = do {
     r \<leftarrow> zend_hash_index_find ht (int_key rid);
     (case r of
        None \<Rightarrow> Some (None, -1)
      | Some a \<Rightarrow> do { le \<leftarrow> data_at ht a; Some (le_ptr le, le_type le) }) }"

definition zend_list_addref :: "int \<Rightarrow> 'p rsrc_list \<Rightarrow> (zresult \<times> 'p rsrc_list) option" where
  "zend_list_addref rid ht = do {
     r \<leftarrow> zend_hash_index_find ht (int_key rid);
     (case r of
        None \<Rightarrow> Some (FAILURE, ht)
      | Some a \<Rightarrow> do {
          le \<leftarrow> data_at ht a;
          ht1 \<leftarrow> set_refcount a (i32 (le_refcount le + 1)) ht;
          Some (SUCCESS, ht1) }) }"

text \<open>The parts of a \<open>zval\<close> that resources use.\<close>

datatype ztype = IS_RESOURCE | OTHER_TYPE

record rsrc_zval =
  lval :: int
  ztype :: ztype

definition zend_register_resource ::
    "rsrc_zval option \<Rightarrow> 'p option \<Rightarrow> int \<Rightarrow> 'p rsrc_list \<Rightarrow> (int \<times> rsrc_zval option \<times> 'p rsrc_list) option" where
  "zend_register_resource rsrc_result rsrc_pointer rsrc_type ht = do {
     (rsrc_id, ht') \<leftarrow> zend_list_insert rsrc_pointer rsrc_type ht;
     Some (rsrc_id, map_option (\<lambda>z. z\<lparr>lval := rsrc_id, ztype := IS_RESOURCE\<rparr>) rsrc_result, ht') }"

datatype fetch_warning =
    NoResourceSupplied | NotAResource | NotValidResource int | WrongResourceType

record 'p fetched =
  fresource :: "'p option"
  ftype :: "int option"
  fwarning :: "fetch_warning option"

definition fetch_failed :: "bool \<Rightarrow> fetch_warning \<Rightarrow> 'p fetched" where
  "fetch_failed named w = \<lparr>fresource = None, ftype = None, fwarning = (if named then Some w else None)\<rparr>"

definition zend_fetch_resource ::
    "rsrc_zval option \<Rightarrow> int \<Rightarrow> bool \<Rightarrow> int list \<Rightarrow> 'p rsrc_list \<Rightarrow> 'p fetched option" where
  "zend_fetch_resource passed_id default_id named resource_types ht =
     (let go = (\<lambda>rid. do {
        (resource, actual) \<leftarrow> zend_list_find rid ht;
        Some (case resource of
            None \<Rightarrow> fetch_failed named (NotValidResource rid)
          | Some p \<Rightarrow> if actual \<in> set resource_types
              then \<lparr>fresource = Some p, ftype = Some actual, fwarning = None\<rparr>
              else fetch_failed named WrongResourceType) })
      in if default_id = -1
         then (case passed_id of
             None \<Rightarrow> Some (fetch_failed named NoResourceSupplied)
           | Some z \<Rightarrow> if ztype z \<noteq> IS_RESOURCE then Some (fetch_failed named NotAResource)
               else go (i32 (lval z)))
         else go default_id)"

subsection \<open>Destructors\<close>

definition ZEND_RESOURCE_LIST_TYPE_STD :: nat where "ZEND_RESOURCE_LIST_TYPE_STD = 1"
definition ZEND_RESOURCE_LIST_TYPE_EX :: nat where "ZEND_RESOURCE_LIST_TYPE_EX = 2"

record 'f zend_rsrc_list_dtors_entry =
  list_dtor :: "'f option"
  plist_dtor :: "'f option"
  list_dtor_ex :: "'f option"
  plist_dtor_ex :: "'f option"
  type_name :: "byte list option"
  module_number :: int
  resource_id :: int
  dtor_type :: nat

type_synonym 'f dtor_table = "'f zend_rsrc_list_dtors_entry hashtable"

text \<open>What a destructor entry does with a resource entry.\<close>

datatype ('f, 'p) dtor_action =
    CallOnPointer 'f "'p option" | CallOnEntry 'f "'p zend_rsrc_list_entry" | CallNothing
  | UnknownEntryType int

definition run_dtor ::
    "('f zend_rsrc_list_dtors_entry \<Rightarrow> 'f option) \<Rightarrow> ('f zend_rsrc_list_dtors_entry \<Rightarrow> 'f option) \<Rightarrow>
      'f dtor_table \<Rightarrow> 'p zend_rsrc_list_entry \<Rightarrow> ('f, 'p) dtor_action option" where
  "run_dtor std ex list_destructors le = do {
     r \<leftarrow> zend_hash_index_find list_destructors (int_key (le_type le));
     (case r of
        None \<Rightarrow> Some (UnknownEntryType (le_type le))
      | Some a \<Rightarrow> do {
          ld \<leftarrow> data_at list_destructors a;
          (if dtor_type ld = ZEND_RESOURCE_LIST_TYPE_STD
           then Some (case std ld of Some f \<Rightarrow> CallOnPointer f (le_ptr le) | None \<Rightarrow> CallNothing)
           else if dtor_type ld = ZEND_RESOURCE_LIST_TYPE_EX
           then Some (case ex ld of Some f \<Rightarrow> CallOnEntry f le | None \<Rightarrow> CallNothing)
           else None) }) }"

definition list_entry_destructor ::
    "'f dtor_table \<Rightarrow> 'p zend_rsrc_list_entry \<Rightarrow> ('f, 'p) dtor_action option" where
  "list_entry_destructor = run_dtor list_dtor list_dtor_ex"

definition plist_entry_destructor ::
    "'f dtor_table \<Rightarrow> 'p zend_rsrc_list_entry \<Rightarrow> ('f, 'p) dtor_action option" where
  "plist_entry_destructor = run_dtor plist_dtor plist_dtor_ex"

definition zend_init_rsrc_list :: "(nat \<Rightarrow> bool) \<Rightarrow> 'p rsrc_list" where
  "zend_init_rsrc_list grow = (zend_hash_init 0 True False grow)\<lparr>nNextFreeElement := 1\<rparr>"

definition zend_init_rsrc_plist :: "(nat \<Rightarrow> bool) \<Rightarrow> 'p rsrc_list" where
  "zend_init_rsrc_plist grow = zend_hash_init_ex 0 True True False grow"

definition zend_destroy_rsrc_list :: "'p rsrc_list \<Rightarrow> 'p rsrc_list option" where
  "zend_destroy_rsrc_list = zend_hash_graceful_reverse_destroy"

text \<open>
  Unloading a module: its destructor entries go, and before each goes, the persistent resources
  of its type. The callback's state is the persistent list.
\<close>

definition clean_module_resource :: "unit \<Rightarrow> 'p zend_rsrc_list_entry \<Rightarrow> int \<Rightarrow> uint \<times> 'p zend_rsrc_list_entry \<times> unit" where
  "clean_module_resource s le rsrc = ((if le_type le = rsrc then 1 else 0), le, s)"

text \<open>The state is \<open>None\<close> once the inner traversal has failed or left by a bailout.\<close>

definition clean_module_rsrc_dtors_cb ::
    "'p rsrc_list option \<Rightarrow> 'f zend_rsrc_list_dtors_entry \<Rightarrow> int \<Rightarrow>
      uint \<times> 'f zend_rsrc_list_dtors_entry \<times> 'p rsrc_list option" where
  "clean_module_rsrc_dtors_cb s ld module =
     (if module_number ld = module
      then (1, ld, Option.bind s (\<lambda>plist.
        case zend_hash_apply_with_argument clean_module_resource (resource_id ld) () plist of
          Some (Returned (_, plist')) \<Rightarrow> Some plist' | _ \<Rightarrow> None))
      else (0, ld, s))"

definition zend_clean_module_rsrc_dtors ::
    "int \<Rightarrow> 'f dtor_table \<Rightarrow> 'p rsrc_list \<Rightarrow> ('p rsrc_list option \<times> 'f dtor_table) guarded option" where
  "zend_clean_module_rsrc_dtors module list_destructors plist =
     zend_hash_apply_with_argument clean_module_rsrc_dtors_cb module (Some plist) list_destructors"

definition register_dtors ::
    "'f zend_rsrc_list_dtors_entry \<Rightarrow> 'f dtor_table \<Rightarrow> (int \<times> 'f dtor_table) option" where
  "register_dtors lde list_destructors = do {
     (r, _, t) \<leftarrow> zend_hash_index_update_or_next_insert list_destructors 0 lde False HASH_NEXT_INSERT;
     Some (if r = FAILURE then -1 else key_int (nNextFreeElement t - 1), t) }"

definition zend_register_list_destructors ::
    "'f option \<Rightarrow> 'f option \<Rightarrow> int \<Rightarrow> 'f dtor_table \<Rightarrow> (int \<times> 'f dtor_table) option" where
  "zend_register_list_destructors ld pld module t = register_dtors
     \<lparr>list_dtor = ld, plist_dtor = pld, list_dtor_ex = None, plist_dtor_ex = None, type_name = None,
      module_number = module, resource_id = key_int (nNextFreeElement t),
      dtor_type = ZEND_RESOURCE_LIST_TYPE_STD\<rparr> t"

definition zend_register_list_destructors_ex ::
    "'f option \<Rightarrow> 'f option \<Rightarrow> byte list option \<Rightarrow> int \<Rightarrow> 'f dtor_table \<Rightarrow> (int \<times> 'f dtor_table) option" where
  "zend_register_list_destructors_ex ld pld name module t = register_dtors
     \<lparr>list_dtor = None, plist_dtor = None, list_dtor_ex = ld, plist_dtor_ex = pld, type_name = name,
      module_number = module, resource_id = key_int (nNextFreeElement t),
      dtor_type = ZEND_RESOURCE_LIST_TYPE_EX\<rparr> t"

partial_function (option) fetch_dtor_loop ::
    "byte list \<Rightarrow> 'f dtor_table \<Rightarrow> addr option \<Rightarrow> int option" where
  "fetch_dtor_loop name t pos =
     (case pos of None \<Rightarrow> Some 0
      | Some a \<Rightarrow> Option.bind (zend_hash_get_current_data_ex t (Some pos)) (\<lambda>r.
          Option.bind (snd r) (\<lambda>lde.
            if type_name lde = Some name then Some (resource_id lde)
            else Option.bind (zend_hash_move_forward_ex t (Some pos)) (\<lambda>m.
              Option.bind (fst (snd m)) (fetch_dtor_loop name t)))))"

declare fetch_dtor_loop.simps [code]

definition zend_fetch_list_dtor_id :: "byte list \<Rightarrow> 'f dtor_table \<Rightarrow> int option" where
  "zend_fetch_list_dtor_id name t =
     Option.bind (fst (zend_hash_internal_pointer_reset_ex t (Some None))) (fetch_dtor_loop name t)"

definition zend_rsrc_list_get_rsrc_type ::
    "int \<Rightarrow> 'p rsrc_list \<Rightarrow> 'f dtor_table \<Rightarrow> byte list option option" where
  "zend_rsrc_list_get_rsrc_type resource ht t = do {
     (p, rsrc_type) \<leftarrow> zend_list_find resource ht;
     (if p = None then Some None
      else do {
        r \<leftarrow> zend_hash_index_find t (int_key rsrc_type);
        (case r of
           None \<Rightarrow> Some None
         | Some a \<Rightarrow> map_option type_name (data_at t a)) }) }"

definition zend_init_rsrc_list_dtors :: "(nat \<Rightarrow> bool) \<Rightarrow> 'f dtor_table" where
  "zend_init_rsrc_list_dtors grow = (zend_hash_init 50 False True grow)\<lparr>nNextFreeElement := 1\<rparr>"

definition zend_destroy_rsrc_list_dtors :: "'f dtor_table \<Rightarrow> 'f dtor_table option" where
  "zend_destroy_rsrc_list_dtors = zend_hash_destroy"

subsection \<open>Entries and their reference counts\<close>

lemma index_find_at:
  assumes r: "represents pool ht kvs"
  shows "case map_of kvs (KInt h) of
      None \<Rightarrow> zend_hash_index_find ht h = Some None
    | Some d \<Rightarrow> \<exists>a b. zend_hash_index_find ht h = Some (Some a) \<and> cells ht a = Some b \<and>
        bkey b = KInt h \<and> pData b = d"
proof -
  obtain ps where ok: "hash_ok ht ps" and kvs: "kvs = entries ht ps" using r by (rule representsE)
  have f: "zend_hash_index_find ht h = Some (pos_of ht ps (KInt h))"
    using index_chain_lookup [OF ok] slot_ok [OF order_ok_of [OF ok]] by (simp add: zend_hash_index_find_def)
  show ?thesis
  proof (cases "pos_of ht ps (KInt h)")
    case None
    then show ?thesis using f map_of_entries [OF order_ok_of [OF ok], of "KInt h"] by (simp add: kvs)
  next
    case (Some a)
    obtain b where "cells ht a = Some b" "bkey b = KInt h" using Some by (rule pos_of_Some)
    then show ?thesis using f Some map_of_entries [OF order_ok_of [OF ok], of "KInt h"]
      by (simp add: kvs data_at_def view_apply)
  qed
qed

text \<open>What may change when an entry is changed in place.\<close>

definition in_place :: "'v hashtable \<Rightarrow> 'v hashtable \<Rightarrow> bool" where
  "in_place ht' ht \<longleftrightarrow> same_control ht' ht \<and> nNextFreeElement ht' = nNextFreeElement ht \<and>
     dtor_log ht' = dtor_log ht"

lemma set_refcount_ok:
  assumes r: "represents pool ht kvs" and b: "cells ht a = Some b"
  obtains ht' where "set_refcount a n ht = Some ht'" "in_place ht' ht"
    and "represents pool ht' (AList.update (bkey b) ((pData b)\<lparr>le_refcount := n\<rparr>) kvs)"
proof -
  obtain ps where ok: "hash_ok ht ps" and kvs: "kvs = entries ht ps" and pl: "pooled pool ht"
    using r by (rule representsE)
  let ?d = "(pData b)\<lparr>le_refcount := n\<rparr>"
  obtain ht' where u: "UPDATE_DATA a ?d (pInline b) ht = Some ht'" "hash_ok ht' ps"
    "entries ht' ps = AList.update (bkey b) ?d (entries ht ps)" "same_control ht' ht"
    "nNextFreeElement ht' = nNextFreeElement ht" "dtor_log ht' = dtor_log ht"
    using update_in_place_ok [OF ok b, of ?d "pInline b"] by metis
  have "pooled pool ht'"
    using UPDATE_DATA_keys [OF u(1), of "{}"] pl by (rule keys_from_pooled) simp
  moreover have "set_refcount a n ht = Some ht'"
    using u(1) b by (simp add: set_refcount_def UPDATE_DATA_def poke_eq)
  ultimately show ?thesis using u that by (auto simp: kvs in_place_def intro!: representsI)
qed

text \<open>
  A list is sound when its handles are positive and below the next one. The reference counts are
  the clients' business; each operation below says what it does to one.
\<close>

definition rsrc_repr :: "'p rsrc_list \<Rightarrow> (hkey \<times> 'p zend_rsrc_list_entry) list \<Rightarrow> bool" where
  "rsrc_repr ht kvs \<longleftrightarrow> represents (\<lambda>_. []) ht kvs \<and> pDestructor ht \<and>
     1 \<le> uint (nNextFreeElement ht) \<and> uint (nNextFreeElement ht) < 2 ^ 63 \<and>
     (\<forall>k \<in> fst ` set kvs. \<exists>n. k = KInt (int_key n) \<and> 1 \<le> n \<and> n < uint (nNextFreeElement ht))"

lemma uint_int_key: "\<lbrakk>0 \<le> n; n < 2 ^ 63\<rbrakk> \<Longrightarrow> uint (int_key n) = n"
  by (simp add: int_key_def uint_word_of_int)

lemma key_int_key: "-2147483648 \<le> n \<Longrightarrow> n < 2147483648 \<Longrightarrow> key_int (int_key n) = n"
proof -
  assume n: "-2147483648 \<le> n" "n < 2147483648"
  have "signed_take_bit 31 (take_bit 64 n) = signed_take_bit 31 n"
    by (simp add: signed_take_bit_take_bit)
  also have "\<dots> = n" using n by (intro signed_take_bit_int_eq_self) simp_all
  finally show ?thesis
    by (simp add: key_int_def int_key_def signed_ucast_eq uint_word_of_int take_bit_eq_mod)
qed

lemma int_key_inj: "\<lbrakk>0 \<le> n; n < 2 ^ 63; 0 \<le> m; m < 2 ^ 63\<rbrakk> \<Longrightarrow> int_key n = int_key m \<longleftrightarrow> n = m"
  using uint_int_key by metis

lemma rsrc_init_ok: "rsrc_repr (zend_init_rsrc_list grow) []"
proof -
  have "represents (\<lambda>_. []) (ht\<lparr>nNextFreeElement := n\<rparr>) kvs" if "represents (\<lambda>_. []) ht kvs"
    for ht :: "'a rsrc_list" and n kvs
    using that by (auto simp: represents_def hash_repr_def pooled_def)
  then have "represents (\<lambda>_. []) (zend_init_rsrc_list grow :: 'a rsrc_list) []"
    unfolding zend_init_rsrc_list_def using zend_hash_init_represents by blast
  then show ?thesis
    by (simp add: rsrc_repr_def) (simp add: zend_init_rsrc_list_def zend_hash_init_def)
qed

lemma rsrc_repr_step:
  assumes "rsrc_repr ht kvs" "represents (\<lambda>_. []) ht' kvs'" "same_control ht' ht"
    and "nNextFreeElement ht' = nNextFreeElement ht" "fst ` set kvs' \<subseteq> fst ` set kvs"
  shows "rsrc_repr ht' kvs'"
  using assms unfolding rsrc_repr_def same_control_def by (metis (no_types, lifting) subsetD)

lemma zend_list_insert_ok:
  assumes r: "rsrc_repr ht kvs" and few: "uint (nNextFreeElement ht) < 2 ^ 31"
  defines "i \<equiv> uint (nNextFreeElement ht)"
  obtains ht' where "zend_list_insert p type ht = Some (i, ht')"
    and "rsrc_repr ht' (kvs @ [(KInt (int_key i), \<lparr>le_ptr = p, le_type = type, le_refcount = 1\<rparr>)])"
    and "dtor_log ht' = dtor_log ht" "KInt (int_key i) \<notin> fst ` set kvs"
    and "uint (nNextFreeElement ht') = i + 1"
proof -
  let ?le = "\<lparr>le_ptr = p, le_type = type, le_refcount = 1\<rparr>"
  have rep: "represents (\<lambda>_. []) ht kvs" and i: "1 \<le> i" "i < 2 ^ 31"
    using r few by (simp_all add: rsrc_repr_def i_def)
  have n: "nNextFreeElement ht = int_key i" by (simp add: i_def int_key_def)
  have idx: "key_int (nNextFreeElement ht) = i" unfolding n by (rule key_int_key) (use i in simp_all)
  have new: "KInt (int_key i) \<notin> fst ` set kvs"
  proof
    assume "KInt (int_key i) \<in> fst ` set kvs"
    then obtain m where m: "int_key i = int_key m" "1 \<le> m" "m < i"
      using r unfolding rsrc_repr_def i_def by blast
    then show False using int_key_inj [of i m] i by simp
  qed
  then have "map_of kvs (KInt (int_key i)) = None" by (simp add: map_of_eq_None_iff)
  then obtain dest ht' where put: "zend_hash_index_update_or_next_insert ht (int_key i) ?le False HASH_UPDATE =
      Some (SUCCESS, dest, ht')" "put_spec (\<lambda>_. []) ht kvs (KInt (int_key i)) ?le dest ht'"
    "nNextFreeElement ht' = next_free (nNextFreeElement ht) (int_key i)"
    using index_update_spec [OF rep refl, of HASH_UPDATE "int_key i" ?le False] by auto
  have u: "uint (int_key i) = i" by (rule uint_int_key) (use i in simp_all)
  have "int_key i < 0x7FFFFFFFFFFFFFFF" using u i by (simp add: word_less_def)
  then have "next_free (nNextFreeElement ht) (int_key i) = int_key (i + 1)"
    unfolding n by (simp add: next_free_def) (simp add: int_key_def)
  then have nx: "uint (nNextFreeElement ht') = i + 1"
    unfolding put(3) using uint_int_key [of "i + 1"] i by simp
  have keys: "\<exists>m. k = KInt (int_key m) \<and> 1 \<le> m \<and> m < i + 1"
    if "k \<in> fst ` set (kvs @ [(KInt (int_key i), ?le)])" for k
    using that r i unfolding rsrc_repr_def i_def by fastforce
  have "rsrc_repr ht' (kvs @ [(KInt (int_key i), ?le)])"
    using put(2) update_new [OF new] r nx i keys
    by (auto simp: rsrc_repr_def put_spec_def same_control_def)
  moreover have "zend_list_insert p type ht = Some (i, ht')"
    unfolding zend_list_insert_def Let_def zend_hash_next_free_element_def idx using put(1) by simp
  moreover have "dtor_log ht' = dtor_log ht"
    using put(2) \<open>map_of kvs _ = None\<close> by (simp add: put_spec_def)
  ultimately show ?thesis using new nx that by blast
qed

lemma rsrc_keys_update:
  assumes "map_of kvs k = Some d"
  shows "fst ` set (AList.update k v kvs) = fst ` set kvs"
  using assms map_fst_update [of k kvs v] by (metis map_of_eq_None_iff option.distinct(1) set_map)

lemma zend_list_addref_ok:
  assumes r: "rsrc_repr ht kvs" and le: "map_of kvs (KInt (int_key i)) = Some le"
  obtains ht' where "zend_list_addref i ht = Some (SUCCESS, ht')" "dtor_log ht' = dtor_log ht"
    and "rsrc_repr ht' (AList.update (KInt (int_key i)) (le\<lparr>le_refcount := i32 (le_refcount le + 1)\<rparr>) kvs)"
proof -
  have rep: "represents (\<lambda>_. []) ht kvs" using r by (simp add: rsrc_repr_def)
  obtain a b where ab: "zend_hash_index_find ht (int_key i) = Some (Some a)" "cells ht a = Some b"
    "bkey b = KInt (int_key i)" "pData b = le"
    using index_find_at [OF rep, of "int_key i"] le by auto
  obtain ht' where ht': "set_refcount a (i32 (le_refcount le + 1)) ht = Some ht'" "in_place ht' ht"
    "represents (\<lambda>_. []) ht' (AList.update (bkey b) ((pData b)\<lparr>le_refcount := i32 (le_refcount le + 1)\<rparr>) kvs)"
    using rep ab(2) by (rule set_refcount_ok)
  have "zend_list_addref i ht = Some (SUCCESS, ht')"
    using ab ht'(1) by (simp add: zend_list_addref_def data_at_def view_apply)
  moreover have "rsrc_repr ht' (AList.update (KInt (int_key i)) (le\<lparr>le_refcount := i32 (le_refcount le + 1)\<rparr>) kvs)"
    using ht'(2,3) ab(3,4) r rsrc_keys_update [OF le]
    by (simp add: rsrc_repr_def in_place_def same_control_def)
  ultimately show ?thesis using ht'(2) that by (simp add: in_place_def)
qed

text \<open>The destructor sees the entry with the count it ended with.\<close>

lemma zend_list_delete_ok:
  assumes r: "rsrc_repr ht kvs" and le: "map_of kvs (KInt (int_key i)) = Some le"
  defines "n \<equiv> i32 (le_refcount le - 1)"
  obtains ht' where "zend_list_delete i ht = Some (SUCCESS, ht')"
    and "if n \<le> 0
      then rsrc_repr ht' (AList.delete (KInt (int_key i)) kvs) \<and>
        dtor_log ht' = dtor_log ht @ [le\<lparr>le_refcount := n\<rparr>]
      else rsrc_repr ht' (AList.update (KInt (int_key i)) (le\<lparr>le_refcount := n\<rparr>) kvs) \<and>
        dtor_log ht' = dtor_log ht"
proof -
  let ?k = "KInt (int_key i)"
  let ?kvs = "AList.update ?k (le\<lparr>le_refcount := n\<rparr>) kvs"
  have rep: "represents (\<lambda>_. []) ht kvs" using r by (simp add: rsrc_repr_def)
  obtain a b where ab: "zend_hash_index_find ht (int_key i) = Some (Some a)" "cells ht a = Some b"
    "bkey b = ?k" "pData b = le"
    using index_find_at [OF rep, of "int_key i"] le by auto
  obtain ht1 where ht1: "set_refcount a n ht = Some ht1" "in_place ht1 ht"
    "represents (\<lambda>_. []) ht1 (AList.update (bkey b) ((pData b)\<lparr>le_refcount := n\<rparr>) kvs)"
    using rep ab(2) by (rule set_refcount_ok)
  then have r1: "represents (\<lambda>_. []) ht1 ?kvs" using ab by simp
  have rr1: "rsrc_repr ht1 ?kvs"
    using ht1(2) r1 r rsrc_keys_update [OF le] by (simp add: rsrc_repr_def in_place_def same_control_def)
  show ?thesis
  proof (cases "n \<le> 0")
    case False
    then have "zend_list_delete i ht = Some (SUCCESS, ht1)"
      using ab ht1(1) by (simp add: zend_list_delete_def data_at_def view_apply n_def Let_def)
    then show ?thesis using False rr1 ht1(2) that by (simp add: in_place_def)
  next
    case True
    have "map_of ?kvs ?k = Some (le\<lparr>le_refcount := n\<rparr>)" by (simp add: update_conv')
    then obtain ht' where d: "zend_hash_index_del ht1 (int_key i) = Some (SUCCESS, ht')"
      "represents (\<lambda>_. []) ht' (AList.delete ?k ?kvs)" "same_control ht' ht1"
      "nNextFreeElement ht' = nNextFreeElement ht1"
      "dtor_log ht' = dtor_log ht1 @ (if pDestructor ht1 then [le\<lparr>le_refcount := n\<rparr>] else [])"
      using del_spec [OF r1, of "[]" HASH_DEL_INDEX "int_key i" ?k]
      by (auto simp: zend_hash_index_del_def)
    have e: "AList.delete ?k ?kvs = AList.delete ?k kvs"
      by (induction kvs) auto
    have "zend_list_delete i ht = Some (SUCCESS, ht')"
      using ab ht1(1) d(1) True by (simp add: zend_list_delete_def data_at_def view_apply n_def Let_def)
    moreover have "rsrc_repr ht' (AList.delete ?k kvs)"
    proof (rule rsrc_repr_step [OF r])
      show "represents (\<lambda>_. []) ht' (AList.delete ?k kvs)" using d(2) e by simp
      show "same_control ht' ht" using d(3) ht1(2) by (auto simp: in_place_def same_control_def)
      show "nNextFreeElement ht' = nNextFreeElement ht" using d(4) ht1(2) by (simp add: in_place_def)
      show "fst ` set (AList.delete ?k kvs) \<subseteq> fst ` set kvs" by (auto simp: AList.delete_eq)
    qed
    ultimately show ?thesis
      using True d(5) ht1(2) r that by (simp add: in_place_def same_control_def rsrc_repr_def)
  qed
qed

lemma zend_list_find_ok:
  assumes r: "rsrc_repr ht kvs"
  shows "zend_list_find i ht = Some (case map_of kvs (KInt (int_key i)) of
    None \<Rightarrow> (None, -1) | Some le \<Rightarrow> (le_ptr le, le_type le))"
proof -
  have "represents (\<lambda>_. []) ht kvs" using r by (simp add: rsrc_repr_def)
  from index_find_at [OF this, of "int_key i"] show ?thesis
    by (cases "map_of kvs (KInt (int_key i))") (auto simp: zend_list_find_def data_at_def view_apply)
qed

subsection \<open>Properties\<close>

text \<open>While the handles fit an \<open>int\<close>, \<open>zend_list_insert\<close> hands out a fresh one: no live resource had
  it, none is destructed, and the entry joins the list with one reference.
\<close>

theorem zend_list_insert_fresh:
  assumes "rsrc_repr ht kvs" "uint (nNextFreeElement ht) < 2 ^ 31"
  shows "\<exists>i ht'. zend_list_insert p type ht = Some (i, ht') \<and> 0 < i \<and>
    KInt (int_key i) \<notin> fst ` set kvs \<and>
    rsrc_repr ht' (kvs @ [(KInt (int_key i), \<lparr>le_ptr = p, le_type = type, le_refcount = 1\<rparr>)]) \<and>
    dtor_log ht' = dtor_log ht \<and> nNextFreeElement ht' = nNextFreeElement ht + 1"
proof -
  obtain ht' where "zend_list_insert p type ht = Some (uint (nNextFreeElement ht), ht')"
    "rsrc_repr ht' (kvs @ [(KInt (int_key (uint (nNextFreeElement ht))),
      \<lparr>le_ptr = p, le_type = type, le_refcount = 1\<rparr>)])"
    "dtor_log ht' = dtor_log ht" "KInt (int_key (uint (nNextFreeElement ht))) \<notin> fst ` set kvs"
    and n: "uint (nNextFreeElement ht') = uint (nNextFreeElement ht) + 1"
    using assms by (rule zend_list_insert_ok)
  moreover have "nNextFreeElement ht' = nNextFreeElement ht + 1"
    using n assms(2) by (intro word_uint_eqI) (simp add: uint_word_ariths)
  moreover have "0 < uint (nNextFreeElement ht)" using assms(1) by (simp add: rsrc_repr_def)
  ultimately show ?thesis by blast
qed

theorem zend_list_insert_fresh_witness:
  "\<exists>i ht'. zend_list_insert (Some ()) 3 (zend_init_rsrc_list (\<lambda>_. True)) = Some (i, ht') \<and> 0 < i \<and>
    rsrc_repr ht' [(KInt (int_key i), \<lparr>le_ptr = Some (), le_type = 3, le_refcount = 1\<rparr>)]"
proof -
  have "uint (nNextFreeElement (zend_init_rsrc_list (\<lambda>_. True) :: unit rsrc_list)) < 2 ^ 31"
    by (simp add: zend_init_rsrc_list_def)
  from zend_list_insert_fresh [OF rsrc_init_ok this, of "Some ()" 3] show ?thesis by auto
qed

text \<open>
  C32. A reference taken is a reference to drop: \<open>zend_list_addref\<close> raises the count, \<open>zend_list_delete\<close>
  lowers it, and only when it reaches 0 does the entry leave the list, its destructor run exactly
  once; \<open>zend_list_find\<close> returns the pointer and the type of the live handle.
\<close>

theorem zend_list_refcount_spec:
  assumes "rsrc_repr ht kvs" "map_of kvs (KInt (int_key i)) = Some le" "0 < le_refcount le" "le_refcount le < 2 ^ 31 - 1"
  shows "zend_list_find i ht = Some (le_ptr le, le_type le) \<and>
    (\<exists>h1. zend_list_addref i ht = Some (SUCCESS, h1) \<and> dtor_log h1 = dtor_log ht \<and>
      rsrc_repr h1 (AList.update (KInt (int_key i)) (le\<lparr>le_refcount := le_refcount le + 1\<rparr>) kvs)) \<and>
    (\<exists>h2. zend_list_delete i ht = Some (SUCCESS, h2) \<and>
      (if le_refcount le = 1
       then rsrc_repr h2 (AList.delete (KInt (int_key i)) kvs) \<and>
         dtor_log h2 = dtor_log ht @ [le\<lparr>le_refcount := 0\<rparr>]
       else rsrc_repr h2 (AList.update (KInt (int_key i)) (le\<lparr>le_refcount := le_refcount le - 1\<rparr>) kvs) \<and>
         dtor_log h2 = dtor_log ht))"
proof -
  have c: "i32 (le_refcount le + 1) = le_refcount le + 1" "i32 (le_refcount le - 1) = le_refcount le - 1"
    using assms(3,4) by (simp_all add: i32_id)
  obtain h1 where "zend_list_addref i ht = Some (SUCCESS, h1)" "dtor_log h1 = dtor_log ht"
    "rsrc_repr h1 (AList.update (KInt (int_key i)) (le\<lparr>le_refcount := i32 (le_refcount le + 1)\<rparr>) kvs)"
    using assms(1,2) by (rule zend_list_addref_ok)
  moreover obtain h2 where "zend_list_delete i ht = Some (SUCCESS, h2)"
    "if i32 (le_refcount le - 1) \<le> 0
     then rsrc_repr h2 (AList.delete (KInt (int_key i)) kvs) \<and>
       dtor_log h2 = dtor_log ht @ [le\<lparr>le_refcount := i32 (le_refcount le - 1)\<rparr>]
     else rsrc_repr h2 (AList.update (KInt (int_key i)) (le\<lparr>le_refcount := i32 (le_refcount le - 1)\<rparr>) kvs) \<and>
       dtor_log h2 = dtor_log ht"
    using assms(1,2) by (rule zend_list_delete_ok)
  ultimately show ?thesis
    using zend_list_find_ok [OF assms(1), of i] assms(2,3) unfolding c by (auto split: if_splits)
qed

theorem zend_list_refcount_spec_witness:
  "\<exists>i ht h2. zend_list_insert (Some ()) 3 (zend_init_rsrc_list (\<lambda>_. True)) = Some (i, ht) \<and>
    zend_list_find i ht = Some (Some (), 3) \<and> zend_list_delete i ht = Some (SUCCESS, h2) \<and> rsrc_repr h2 [] \<and>
    dtor_log h2 = dtor_log ht @ [\<lparr>le_ptr = Some (), le_type = 3, le_refcount = 0\<rparr>]"
proof -
  have "uint (nNextFreeElement (zend_init_rsrc_list (\<lambda>_. True) :: unit rsrc_list)) < 2 ^ 31"
    by (simp add: zend_init_rsrc_list_def)
  then obtain i ht where i: "zend_list_insert (Some ()) 3 (zend_init_rsrc_list (\<lambda>_. True)) = Some (i, ht)"
    "rsrc_repr ht [(KInt (int_key i), \<lparr>le_ptr = Some (), le_type = 3, le_refcount = 1\<rparr>)]"
    using zend_list_insert_ok [OF rsrc_init_ok] by (metis append_Nil)
  from zend_list_refcount_spec [OF i(2), of i "\<lparr>le_ptr = Some (), le_type = 3, le_refcount = 1\<rparr>"] i(1)
  show ?thesis by auto
qed

text \<open>
  Handles are cut to an \<open>int\<close>. Once the next index is \<open>2 ^ 31\<close>, the entry goes under a negative index,
  the next index stays, and the following insertion destructs the live resource it replaces.
\<close>

definition full_list :: "unit rsrc_list" where
  "full_list = (zend_init_rsrc_list (\<lambda>_. True))\<lparr>nNextFreeElement := 0x80000000\<rparr>"

lemma zend_list_insert_reuses_handle:
  "Option.bind (zend_list_insert (Some ()) 1 full_list) (\<lambda>(i, ht). Option.bind (zend_list_insert None 2 ht)
     (\<lambda>(j, ht'). Some (i = j, map le_ptr (dtor_log ht')))) = Some (True, [Some ()])"
  by code_simp

end
