(* ===== verification/ZendObjects.thy ===== *)
theory ZendObjects
  imports Prelude
begin

text \<open>
  The object store (Zend/zend_objects_API.c, Zend/zend_objects_API.h): an array of buckets indexed
  by handle, with the free buckets threaded into a list through the union inside them.

  The union overlays \<open>free_list.next\<close> with \<open>obj.object\<close>; \<open>ovl\<close> says which of the two was written
  last, and reading the other one is \<open>None\<close>. An index outside the array is \<open>None\<close> as well.
  Destructors and the release of storage are parameters: one receives the object (a destructor also its
  handle) and the store, and returns the store it leaves behind, since it may run any operation on it,
  and whether it left by a bailout; a function that calls one returns both in the same way. Cloning is a
  parameter that works on the objects. \<open>released\<close> is no field of the store but a record of the objects
  whose storage was released. The collector's root buffer is not part of the model.
\<close>

datatype 'o overlay = Object "'o option" | Next int | Unwritten

record 'o bucket_obj =
  destructor_called :: bool
  valid :: bool
  ovl :: "'o overlay"
  has_free_storage :: bool
  has_clone :: bool
  handlers :: "nat option"
  refcount :: uint

record 'o objects_store =
  object_buckets :: "'o bucket_obj list option"
  otop :: uint
  osize :: uint
  free_list_head :: int
  released :: "'o option list"

text \<open>Reading and writing \<open>object_buckets[i]\<close>.\<close>

definition bucket_at :: "'o objects_store \<Rightarrow> uint \<Rightarrow> 'o bucket_obj option" where
  "bucket_at s i = Option.bind (object_buckets s)
     (\<lambda>bs. if unat i < length bs then Some (bs ! unat i) else None)"

definition set_bucket :: "uint \<Rightarrow> 'o bucket_obj \<Rightarrow> 'o objects_store \<Rightarrow> 'o objects_store" where
  "set_bucket i b s = s\<lparr>object_buckets := map_option (\<lambda>bs. bs[unat i := b]) (object_buckets s)\<rparr>"

definition fresh_bucket :: "'o bucket_obj" where
  "fresh_bucket = \<lparr>destructor_called = False, valid = False, ovl = Unwritten, has_free_storage = False,
     has_clone = False, handlers = None, refcount = 0\<rparr>"

definition object_of :: "'o bucket_obj \<Rightarrow> 'o option option" where
  "object_of b = (case ovl b of Object p \<Rightarrow> Some p | _ \<Rightarrow> None)"

definition next_of :: "'o bucket_obj \<Rightarrow> int option" where
  "next_of b = (case ovl b of Next n \<Rightarrow> Some n | _ \<Rightarrow> None)"

definition zend_objects_store_init :: "uint \<Rightarrow> 'o objects_store option" where
  "zend_objects_store_init init_size =
     (if init_size = 0 then None
      else Some \<lparr>object_buckets = Some ((replicate (unat init_size) fresh_bucket)
                   [0 := fresh_bucket\<lparr>ovl := Object None\<rparr>]),
                 otop = 1, osize = init_size, free_list_head = -1, released = []\<rparr>)"

definition zend_objects_store_destroy :: "'o objects_store \<Rightarrow> 'o objects_store" where
  "zend_objects_store_destroy s = s\<lparr>object_buckets := None\<rparr>"

type_synonym 'o dtor_fun = "'o option \<Rightarrow> uint \<Rightarrow> 'o objects_store \<Rightarrow> ('o objects_store \<times> bool) option"

type_synonym 'o free_fun = "'o option \<Rightarrow> 'o objects_store \<Rightarrow> ('o objects_store \<times> bool) option"

text \<open>
  Shutdown: every live object's destructor runs once, under a reference of its own; a destructor may
  create objects, which the loop then reaches too. A bailout leaves the loop.
\<close>

partial_function (option) call_destructors_loop ::
    "'o dtor_fun \<Rightarrow> uint \<Rightarrow> 'o objects_store \<Rightarrow> ('o objects_store \<times> bool) option" where
  "call_destructors_loop dtor i s =
     (if i < otop s then do {
        b \<leftarrow> bucket_at s i;
        (if valid b \<and> \<not> destructor_called b then do {
           obj \<leftarrow> object_of b;
           (if obj \<noteq> None then do {
              r \<leftarrow> dtor obj i (set_bucket i (b\<lparr>destructor_called := True, refcount := refcount b + 1\<rparr>) s);
              (if snd r then Some r
               else do {
                 b1 \<leftarrow> bucket_at (fst r) i;
                 call_destructors_loop dtor (i + 1) (set_bucket i (b1\<lparr>refcount := refcount b1 - 1\<rparr>) (fst r)) }) }
            else call_destructors_loop dtor (i + 1) (set_bucket i (b\<lparr>destructor_called := True\<rparr>) s)) }
         else call_destructors_loop dtor (i + 1) s) }
      else Some (s, False))"

definition zend_objects_store_call_destructors ::
    "'o dtor_fun \<Rightarrow> 'o objects_store \<Rightarrow> ('o objects_store \<times> bool) option" where
  "zend_objects_store_call_destructors dtor s = call_destructors_loop dtor 1 s"

text \<open>The loop that does not call out runs over \<open>1 \<dots> top - 1\<close>.\<close>

fun for_buckets :: "nat \<Rightarrow> uint \<Rightarrow> ('o bucket_obj \<Rightarrow> 'o bucket_obj) \<Rightarrow> 'o objects_store \<Rightarrow> 'o objects_store option" where
  "for_buckets 0 i f s = Some s"
| "for_buckets (Suc n) i f s = do {
     b \<leftarrow> bucket_at s i;
     for_buckets n (i + 1) f (if valid b then set_bucket i (f b) s else s) }"

definition zend_objects_store_mark_destructed :: "'o objects_store \<Rightarrow> 'o objects_store option" where
  "zend_objects_store_mark_destructed s =
     (if object_buckets s = None then Some s
      else for_buckets (unat (otop s) - 1) 1 (\<lambda>b. b\<lparr>destructor_called := True\<rparr>) s)"

text \<open>\<open>if (obj->free_storage) obj->free_storage(obj->object)\<close>.\<close>

definition release_storage :: "'o free_fun \<Rightarrow> 'o bucket_obj \<Rightarrow> 'o objects_store \<Rightarrow> ('o objects_store \<times> bool) option" where
  "release_storage free b s =
     (if has_free_storage b
      then do { obj \<leftarrow> object_of b; free obj (s\<lparr>released := released s @ [obj]\<rparr>) } else Some (s, False))"

text \<open>Here a bailout is not caught.\<close>

partial_function (option) free_storage_loop ::
    "'o free_fun \<Rightarrow> uint \<Rightarrow> 'o objects_store \<Rightarrow> ('o objects_store \<times> bool) option" where
  "free_storage_loop free i s =
     (if i < otop s then do {
        b \<leftarrow> bucket_at s i;
        (if valid b then do {
           r \<leftarrow> release_storage free b (set_bucket i (b\<lparr>valid := False\<rparr>) s);
           (if snd r then Some r else free_storage_loop free (i + 1) (fst r)) }
         else free_storage_loop free (i + 1) s) }
      else Some (s, False))"

definition zend_objects_store_free_object_storage ::
    "'o free_fun \<Rightarrow> 'o objects_store \<Rightarrow> ('o objects_store \<times> bool) option" where
  "zend_objects_store_free_object_storage free s = free_storage_loop free 1 s"

definition zend_objects_store_put ::
    "'o option \<Rightarrow> bool \<Rightarrow> bool \<Rightarrow> 'o objects_store \<Rightarrow> (uint \<times> 'o objects_store) option" where
  "zend_objects_store_put object free_storage clone s = do {
     (handle, s1) \<leftarrow>
       (if free_list_head s \<noteq> -1 then do {
          let handle = word_of_int (free_list_head s);
          b \<leftarrow> bucket_at s handle;
          n \<leftarrow> next_of b;
          Some (handle, s\<lparr>free_list_head := n\<rparr>) }
        else do {
          let s0 = (if otop s = osize s
            then let size = push_bit 1 (osize s) in
              s\<lparr>osize := size,
                object_buckets := map_option
                  (\<lambda>bs. take (unat size) (bs @ replicate (unat size - length bs) fresh_bucket))
                  (object_buckets s)\<rparr>
            else s);
          Some (otop s0, s0\<lparr>otop := otop s0 + 1\<rparr>) });
     _ \<leftarrow> bucket_at s1 handle;
     Some (handle, set_bucket handle \<lparr>destructor_called = False, valid = True, ovl = Object object,
       has_free_storage = free_storage, has_clone = clone, handlers = None, refcount = 1\<rparr> s1) }"

definition zend_objects_store_get_refcount :: "uint \<Rightarrow> 'o objects_store \<Rightarrow> uint option" where
  "zend_objects_store_get_refcount handle s = map_option refcount (bucket_at s handle)"

definition zend_objects_store_add_ref_by_handle :: "uint \<Rightarrow> 'o objects_store \<Rightarrow> 'o objects_store option" where
  "zend_objects_store_add_ref_by_handle handle s = do {
     b \<leftarrow> bucket_at s handle;
     Some (set_bucket handle (b\<lparr>refcount := refcount b + 1\<rparr>) s) }"

definition zend_objects_store_add_ref :: "uint \<Rightarrow> 'o objects_store \<Rightarrow> 'o objects_store option" where
  "zend_objects_store_add_ref = zend_objects_store_add_ref_by_handle"

definition ZEND_OBJECTS_STORE_ADD_TO_FREE_LIST :: "uint \<Rightarrow> 'o bucket_obj \<Rightarrow> 'o objects_store \<Rightarrow> 'o objects_store" where
  "ZEND_OBJECTS_STORE_ADD_TO_FREE_LIST handle b s =
     set_bucket handle (b\<lparr>ovl := Next (free_list_head s), valid := False\<rparr>)
       (s\<lparr>free_list_head := sint handle\<rparr>)"

text \<open>
  The last reference: the destructor runs first, once; if the count is still 1 afterwards, the
  storage is released and the bucket joins the free list. Both calls are made under \<open>zend_try\<close>; a bailout
  of either is passed on at the end. \<open>obj\<close> is read again behind the destructor but not behind the
  release of the storage, where the array may have been moved to grow: the last \<open>obj->refcount--\<close> is
  then a write to released memory.
\<close>

definition run_destructor ::
    "'o dtor_fun \<Rightarrow> uint \<Rightarrow> nat option \<Rightarrow> 'o bucket_obj \<Rightarrow> 'o objects_store \<Rightarrow> ('o objects_store \<times> bool) option" where
  "run_destructor dtor handle hs b s =
     (if destructor_called b then Some (s, False)
      else do {
        obj \<leftarrow> object_of b;
        dtor obj handle (set_bucket handle (b\<lparr>destructor_called := True,
          handlers := (if handlers b = None then hs else handlers b)\<rparr>) s) })"

definition drop_ref :: "uint \<Rightarrow> bool \<Rightarrow> 'o objects_store \<Rightarrow> ('o objects_store \<times> bool) option" where
  "drop_ref handle failure s = do {
     b \<leftarrow> bucket_at s handle;
     Some (set_bucket handle (b\<lparr>refcount := refcount b - 1\<rparr>) s, failure) }"

definition zend_objects_store_del_ref_by_handle_ex ::
    "'o dtor_fun \<Rightarrow> 'o free_fun \<Rightarrow> uint \<Rightarrow> nat option \<Rightarrow> 'o objects_store \<Rightarrow> ('o objects_store \<times> bool) option" where
  "zend_objects_store_del_ref_by_handle_ex dtor free handle hs s =
     (if object_buckets s = None then Some (s, False)
      else do {
        b \<leftarrow> bucket_at s handle;
        (if valid b \<and> refcount b = 1 then do {
           (s1, failure) \<leftarrow> run_destructor dtor handle hs b s;
           b1 \<leftarrow> bucket_at s1 handle;
           (if refcount b1 = 1 then do {
              (s2, failed) \<leftarrow> release_storage free b1 s1;
              b2 \<leftarrow> bucket_at s2 handle;
              (if osize s2 \<noteq> osize s1 then None
               else drop_ref handle (failure \<or> failed) (ZEND_OBJECTS_STORE_ADD_TO_FREE_LIST handle b2 s2)) }
            else drop_ref handle failure s1) }
         else drop_ref handle False s) })"

text \<open>The \<open>zval\<close>'s own count is raised and lowered around the call.\<close>

definition zend_objects_store_del_ref ::
    "'o dtor_fun \<Rightarrow> 'o free_fun \<Rightarrow> uint \<Rightarrow> nat option \<Rightarrow> 'o objects_store \<Rightarrow> ('o objects_store \<times> bool) option" where
  "zend_objects_store_del_ref = zend_objects_store_del_ref_by_handle_ex"

definition zend_objects_store_clone_obj ::
    "('o option \<Rightarrow> 'o option) \<Rightarrow> uint \<Rightarrow> nat \<Rightarrow> 'o objects_store \<Rightarrow> (uint \<times> 'o objects_store) guarded option" where
  "zend_objects_store_clone_obj clone handle hs s = do {
     b \<leftarrow> bucket_at s handle;
     (if \<not> has_clone b then Some Bailout
      else do {
        obj \<leftarrow> object_of b;
        (h, s1) \<leftarrow> zend_objects_store_put (clone obj) (has_free_storage b) (has_clone b) s;
        b1 \<leftarrow> bucket_at s1 handle;
        Some (Returned (h, set_bucket handle (b1\<lparr>handlers := Some hs\<rparr>) s1)) }) }"

definition zend_object_store_get_object_by_handle :: "uint \<Rightarrow> 'o objects_store \<Rightarrow> 'o option option" where
  "zend_object_store_get_object_by_handle handle s = Option.bind (bucket_at s handle) object_of"

definition zend_object_store_get_object :: "uint \<Rightarrow> 'o objects_store \<Rightarrow> 'o option option" where
  "zend_object_store_get_object = zend_object_store_get_object_by_handle"

definition zend_object_store_set_object :: "uint \<Rightarrow> 'o option \<Rightarrow> 'o objects_store \<Rightarrow> 'o objects_store option" where
  "zend_object_store_set_object handle object s = do {
     b \<leftarrow> bucket_at s handle;
     Some (set_bucket handle (b\<lparr>ovl := Object object\<rparr>) s) }"

definition zend_object_store_ctor_failed :: "uint \<Rightarrow> nat \<Rightarrow> 'o objects_store \<Rightarrow> 'o objects_store option" where
  "zend_object_store_ctor_failed handle hs s = do {
     b \<leftarrow> bucket_at s handle;
     Some (set_bucket handle (b\<lparr>handlers := Some hs, destructor_called := True\<rparr>) s) }"

subsection \<open>Invariant\<close>

fun free_list :: "'o bucket_obj list \<Rightarrow> int \<Rightarrow> nat list \<Rightarrow> bool" where
  "free_list bs h [] \<longleftrightarrow> h = -1"
| "free_list bs h (i # is) \<longleftrightarrow> h = int i \<and> i < length bs \<and>
     (\<exists>n. next_of (bs ! i) = Some n \<and> free_list bs n is)"

text \<open>
  The free list holds exactly the dead buckets below \<open>top\<close>, each once; live buckets carry an
  object.
\<close>

definition store_ok :: "'o objects_store \<Rightarrow> nat list \<Rightarrow> bool" where
  "store_ok s fl \<longleftrightarrow> (\<exists>bs. object_buckets s = Some bs \<and> length bs = unat (osize s) \<and>
     1 \<le> unat (otop s) \<and> unat (otop s) \<le> unat (osize s) \<and> unat (osize s) < 2 ^ 31 \<and>
     free_list bs (free_list_head s) fl \<and> distinct fl \<and>
     set fl = {i. 1 \<le> i \<and> i < unat (otop s) \<and> \<not> valid (bs ! i)} \<and>
     (\<forall>i. 1 \<le> i \<and> i < unat (otop s) \<and> valid (bs ! i) \<longrightarrow> object_of (bs ! i) \<noteq> None))"

definition buckets :: "'o objects_store \<Rightarrow> 'o bucket_obj list" where
  "buckets s = (case object_buckets s of None \<Rightarrow> [] | Some bs \<Rightarrow> bs)"

definition live :: "'o objects_store \<Rightarrow> nat set" where
  "live s = {i. 1 \<le> i \<and> i < unat (otop s) \<and> valid (buckets s ! i)}"

lemma free_list_upd: "\<lbrakk>free_list bs h fl; i \<notin> set fl\<rbrakk> \<Longrightarrow> free_list (bs[i := b]) h fl"
  by (induction bs h fl rule: free_list.induct) auto

lemma free_list_append: "free_list bs h fl \<Longrightarrow> free_list (bs @ xs) h fl"
  by (induction bs h fl rule: free_list.induct) (auto simp: nth_append)

lemma bucket_at_ok: "\<lbrakk>object_buckets s = Some bs; unat h < length bs\<rbrakk> \<Longrightarrow> bucket_at s h = Some (bs ! unat h)"
  by (simp add: bucket_at_def)

lemma buckets_Some [simp]: "object_buckets s = Some bs \<Longrightarrow> buckets s = bs"
  by (simp add: buckets_def)

lemma buckets_upd [simp]:
  "buckets (s\<lparr>otop := t\<rparr>) = buckets s" "buckets (s\<lparr>free_list_head := h\<rparr>) = buckets s"
  "buckets (s\<lparr>released := r\<rparr>) = buckets s" "buckets (set_bucket i b s) = (buckets s)[unat i := b]"
  by (auto simp: buckets_def set_bucket_def split: option.splits)

lemma set_bucket_sel [simp]:
  "otop (set_bucket i b s) = otop s" "osize (set_bucket i b s) = osize s"
  "free_list_head (set_bucket i b s) = free_list_head s" "released (set_bucket i b s) = released s"
  "object_buckets (set_bucket i b s) = map_option (\<lambda>bs. bs[unat i := b]) (object_buckets s)"
  by (simp_all add: set_bucket_def)

lemma store_okE:
  assumes "store_ok s fl"
  obtains bs where "object_buckets s = Some bs" "length bs = unat (osize s)" "1 \<le> unat (otop s)"
    "unat (otop s) \<le> unat (osize s)" "unat (osize s) < 2 ^ 31" "free_list bs (free_list_head s) fl"
    "distinct fl" "set fl = {i. 1 \<le> i \<and> i < unat (otop s) \<and> \<not> valid (bs ! i)}"
    "\<forall>i. 1 \<le> i \<and> i < unat (otop s) \<and> valid (bs ! i) \<longrightarrow> object_of (bs ! i) \<noteq> None"
  using assms unfolding store_ok_def by blast

lemma zend_objects_store_init_ok:
  assumes "0 < unat n" "unat n < 2 ^ 31"
  obtains s where "zend_objects_store_init n = Some s" "store_ok s []" "live s = {}"
proof -
  have n: "n \<noteq> 0" using assms by auto
  let ?bs = "(replicate (unat n) fresh_bucket)[0 := fresh_bucket\<lparr>ovl := Object None\<rparr>]"
  let ?s = "\<lparr>object_buckets = Some ?bs, otop = 1, osize = n, free_list_head = -1, released = []\<rparr> :: 'a objects_store"
  have "store_ok ?s []" using assms by (auto simp: store_ok_def)
  moreover have "live ?s = {}" by (auto simp: live_def)
  moreover have "zend_objects_store_init n = Some ?s" using n by (simp add: zend_objects_store_init_def)
  ultimately show ?thesis using that by blast
qed

text \<open>Making bucket \<open>i\<close> live.\<close>

lemma make_live_ok:
  assumes bs: "object_buckets s = Some bs" "length bs = unat (osize s)" "unat (otop s) \<le> unat (osize s)"
    "unat (osize s) < 2 ^ 31" "free_list bs (free_list_head s) fl" "distinct fl"
    and i: "1 \<le> unat h" "unat h < unat (otop s)" "unat h \<notin> set fl"
    and fl: "insert (unat h) (set fl) = {j. 1 \<le> j \<and> j < unat (otop s) \<and> (j = unat h \<or> \<not> valid (bs ! j))}"
    and ob: "\<forall>j. 1 \<le> j \<and> j < unat (otop s) \<and> j \<noteq> unat h \<and> valid (bs ! j) \<longrightarrow> object_of (bs ! j) \<noteq> None"
    and b: "valid b" "object_of b \<noteq> None"
  shows "store_ok (set_bucket h b s) fl"
proof -
  have "free_list (bs[unat h := b]) (free_list_head s) fl" using bs(5) i(3) by (rule free_list_upd)
  moreover have "set fl = {j. 1 \<le> j \<and> j < unat (otop s) \<and> \<not> valid (bs[unat h := b] ! j)}"
  proof -
    have "j \<in> set fl \<longleftrightarrow> j \<noteq> unat h \<and> j \<in> insert (unat h) (set fl)" for j using i(3) by auto
    then show ?thesis unfolding fl using b(1) i(2) bs(2,3) by (auto simp: nth_list_update)
  qed
  moreover have "\<forall>j. 1 \<le> j \<and> j < unat (otop s) \<and> valid (bs[unat h := b] ! j) \<longrightarrow>
      object_of (bs[unat h := b] ! j) \<noteq> None"
    using ob b(2) i(2) bs(2,3) by (auto simp: nth_list_update)
  ultimately show ?thesis using bs i unfolding store_ok_def by auto
qed

definition put_bucket :: "'o option \<Rightarrow> bool \<Rightarrow> bool \<Rightarrow> 'o bucket_obj" where
  "put_bucket object free_storage clone = \<lparr>destructor_called = False, valid = True, ovl = Object object,
     has_free_storage = free_storage, has_clone = clone, handlers = None, refcount = 1\<rparr>"

definition put_ok :: "'o objects_store \<Rightarrow> uint \<Rightarrow> 'o bucket_obj \<Rightarrow> 'o objects_store \<Rightarrow> bool" where
  "put_ok s h b s' \<longleftrightarrow> h \<noteq> 0 \<and> unat h \<notin> live s \<and> live s' = insert (unat h) (live s) \<and>
     bucket_at s' h = Some b \<and>
     (\<forall>g. unat g \<in> live s \<longrightarrow> bucket_at s' g = bucket_at s g) \<and> released s' = released s"

lemma zend_objects_store_put_ok:
  assumes ok: "store_ok s fl" and room: "unat (osize s) < 2 ^ 30"
  shows "\<exists>h s' fl'. zend_objects_store_put object fs cl s = Some (h, s') \<and> store_ok s' fl' \<and>
    put_ok s h (put_bucket object fs cl) s'"
proof -
  obtain bs where bs: "object_buckets s = Some bs" "length bs = unat (osize s)" "1 \<le> unat (otop s)"
    "unat (otop s) \<le> unat (osize s)" "unat (osize s) < 2 ^ 31" "free_list bs (free_list_head s) fl"
    "distinct fl" "set fl = {i. 1 \<le> i \<and> i < unat (otop s) \<and> \<not> valid (bs ! i)}"
    "\<forall>i. 1 \<le> i \<and> i < unat (otop s) \<and> valid (bs ! i) \<longrightarrow> object_of (bs ! i) \<noteq> None"
    using ok by (rule store_okE)
  let ?b = "put_bucket object fs cl"
  have b: "valid ?b" "object_of ?b \<noteq> None" by (simp_all add: put_bucket_def object_of_def)
  show ?thesis
  proof (cases fl)
    case (Cons i rest)
    then obtain n where n: "free_list_head s = int i" "i < length bs" "next_of (bs ! i) = Some n" "free_list bs n rest"
      using bs(6) by auto
    let ?h = "word_of_int (int i) :: uint"
    have h: "unat ?h = i" using n(2) bs(2,5) by (simp add: unat_of_nat)
    have i: "1 \<le> i" "i < unat (otop s)" "\<not> valid (bs ! i)" using Cons bs(8) by auto
    let ?s1 = "s\<lparr>free_list_head := n\<rparr>"
    have "store_ok (set_bucket ?h ?b ?s1) rest"
    proof (rule make_live_ok)
      show "object_buckets ?s1 = Some bs" "length bs = unat (osize ?s1)" "unat (otop ?s1) \<le> unat (osize ?s1)"
        "unat (osize ?s1) < 2 ^ 31" "free_list bs (free_list_head ?s1) rest" "distinct rest"
        using bs n(4) Cons by simp_all
      show "insert (unat ?h) (set rest) = {j. 1 \<le> j \<and> j < unat (otop ?s1) \<and> (j = unat ?h \<or> \<not> valid (bs ! j))}"
        using bs(8) Cons i unfolding h by auto
      show "unat ?h \<notin> set rest" using bs(7) Cons unfolding h by simp
    qed (use i b bs(9) in \<open>simp_all only: h, simp_all\<close>)
    moreover have "put_ok s ?h ?b (set_bucket ?h ?b ?s1)"
      using i h n(2) bs(1,2,4) b(1) by (auto simp: put_ok_def live_def bucket_at_def nth_list_update)
    moreover have "zend_objects_store_put object fs cl s = Some (?h, set_bucket ?h ?b ?s1)"
      using n h bs(1) by (simp add: zend_objects_store_put_def bucket_at_def put_bucket_def)
    ultimately show ?thesis by blast
  next
    case Nil
    then have hd: "free_list_head s = -1" using bs(6) by simp
    let ?size = "push_bit 1 (osize s)"
    have sz: "unat ?size = 2 * unat (osize s)"
      using room by (simp add: push_bit_eq_mult unat_word_ariths(2))
    let ?s0 = "if otop s = osize s then s\<lparr>osize := ?size, object_buckets := map_option
        (\<lambda>bs. take (unat ?size) (bs @ replicate (unat ?size - length bs) fresh_bucket)) (object_buckets s)\<rparr> else s"
    let ?xs = "if otop s = osize s then replicate (unat (osize s)) fresh_bucket else []"
    let ?bs = "bs @ ?xs"
    have s0: "object_buckets ?s0 = Some ?bs" "length ?bs = unat (osize ?s0)" "unat (osize ?s0) < 2 ^ 31"
      "unat (otop s) < unat (osize ?s0)" "otop ?s0 = otop s" "free_list_head ?s0 = -1" "released ?s0 = released s"
      using bs(1-5) sz room hd by (auto simp: word_unat_eq_iff)
    let ?s1 = "?s0\<lparr>otop := otop ?s0 + 1\<rparr>"
    let ?h = "otop s"
    have top1: "unat (otop s + 1) = unat (otop s) + 1"
      using s0(3,4) by (simp add: unat_word_ariths(1))
    have old: "?bs ! j = bs ! j" if "j < unat (otop s)" for j
      using that bs(2,4) by (simp add: nth_append)
    have "store_ok (set_bucket ?h ?b ?s1) []"
    proof (rule make_live_ok)
      show "object_buckets ?s1 = Some ?bs" "length ?bs = unat (osize ?s1)" "unat (osize ?s1) < 2 ^ 31"
        "unat (otop ?s1) \<le> unat (osize ?s1)" "free_list ?bs (free_list_head ?s1) []"
        using s0 top1 by simp_all
      have "valid (bs ! j)" if "1 \<le> j" "j < unat (otop s)" for j using bs(8) Nil that by auto
      then show "insert (unat ?h) (set []) = {j. 1 \<le> j \<and> j < unat (otop ?s1) \<and> (j = unat ?h \<or> \<not> valid (?bs ! j))}"
        using s0(5) top1 bs(3) old by (auto simp: less_Suc_eq)
      show "\<forall>j. 1 \<le> j \<and> j < unat (otop ?s1) \<and> j \<noteq> unat ?h \<and> valid (?bs ! j) \<longrightarrow> object_of (?bs ! j) \<noteq> None"
        using s0(5) top1 bs(9) old by (auto simp: less_Suc_eq)
      show "1 \<le> unat ?h" "unat ?h < unat (otop ?s1)" using bs(3) s0(5) top1 by simp_all
    qed (use b in simp_all)
    moreover have "put_ok s ?h ?b (set_bucket ?h ?b ?s1)"
    proof -
      have "buckets (set_bucket ?h ?b ?s1) = ?bs[unat ?h := ?b]" using s0(1) by simp
      moreover have "bucket_at (set_bucket ?h ?b ?s1) g = Some (?bs[unat ?h := ?b] ! unat g)"
        if "unat g \<le> unat ?h" for g using that s0(1-4) by (simp add: bucket_at_def)
      moreover have "bucket_at s g = Some (bs ! unat g)" if "unat g < unat ?h" for g
        using that bs by (simp add: bucket_at_def)
      ultimately show ?thesis
        using bs(1-4) s0(2,4,5,7) top1 old b(1) by (auto simp: put_ok_def live_def nth_list_update less_Suc_eq)
    qed
    moreover have "zend_objects_store_put object fs cl s = Some (?h, set_bucket ?h ?b ?s1)"
    proof -
      have "bucket_at ?s1 ?h \<noteq> None" using s0(1-4) by (simp add: bucket_at_def)
      then have "zend_objects_store_put object fs cl s = Some (otop ?s0, set_bucket (otop ?s0) ?b ?s1)"
        unfolding zend_objects_store_put_def Let_def put_bucket_def using hd s0(5)
        by (cases "otop s = osize s") auto
      then show ?thesis unfolding s0(5) .
    qed
    ultimately show ?thesis by blast
  qed
qed

subsection \<open>Dropping references\<close>

lemma live_bucket:
  assumes "store_ok s fl" "unat h \<in> live s"
  obtains b where "bucket_at s h = Some b" "valid b" "b = buckets s ! unat h" "object_of b \<noteq> None" "h \<noteq> 0"
proof -
  obtain bs where bs: "object_buckets s = Some bs" "length bs = unat (osize s)" "unat (otop s) \<le> unat (osize s)"
    "\<forall>i. 1 \<le> i \<and> i < unat (otop s) \<and> valid (bs ! i) \<longrightarrow> object_of (bs ! i) \<noteq> None"
    using assms(1) by (rule store_okE)
  show ?thesis
    by (rule that [of "bs ! unat h"]) (use bs assms(2) in \<open>auto simp: live_def bucket_at_def\<close>)
qed

text \<open>A live bucket may change everything but its being live and having an object.\<close>

lemma touch_ok:
  assumes ok: "store_ok s fl" and h: "unat h \<in> live s" and b: "valid b" "object_of b \<noteq> None"
  shows "store_ok (set_bucket h b s) fl" "live (set_bucket h b s) = live s"
proof -
  obtain bs where bs: "object_buckets s = Some bs" "length bs = unat (osize s)" "1 \<le> unat (otop s)"
    "unat (otop s) \<le> unat (osize s)" "unat (osize s) < 2 ^ 31" "free_list bs (free_list_head s) fl"
    "distinct fl" "set fl = {i. 1 \<le> i \<and> i < unat (otop s) \<and> \<not> valid (bs ! i)}"
    "\<forall>i. 1 \<le> i \<and> i < unat (otop s) \<and> valid (bs ! i) \<longrightarrow> object_of (bs ! i) \<noteq> None"
    using ok by (rule store_okE)
  have i: "1 \<le> unat h" "unat h < unat (otop s)" "valid (bs ! unat h)" using h bs(1) by (auto simp: live_def)
  show "store_ok (set_bucket h b s) fl"
    by (rule make_live_ok [OF bs(1,2,4-7) i(1,2)]) (use bs(8,9) i b in auto)
  show "live (set_bucket h b s) = live s"
    using i b bs(1,2,4) by (auto simp: live_def nth_list_update)
qed

lemma add_ref_ok:
  assumes ok: "store_ok s fl" and h: "unat h \<in> live s"
  obtains b s' where "bucket_at s h = Some b" "zend_objects_store_add_ref_by_handle h s = Some s'"
    and "store_ok s' fl" "live s' = live s" "bucket_at s' h = Some (b\<lparr>refcount := refcount b + 1\<rparr>)"
proof -
  obtain b where b: "bucket_at s h = Some b" "valid b" "object_of b \<noteq> None"
    using live_bucket [OF ok h] by metis
  let ?b = "b\<lparr>refcount := refcount b + 1\<rparr>"
  have "valid ?b" "object_of ?b \<noteq> None" using b by (simp_all add: object_of_def)
  note t = touch_ok [OF ok h this]
  have "bucket_at (set_bucket h ?b s) h = Some ?b"
    using b(1) by (auto simp: bucket_at_def bind_eq_Some_iff split: if_splits)
  then show ?thesis using b(1) t that by (simp add: zend_objects_store_add_ref_by_handle_def)
qed





lemma live_buckets_ok: "\<lbrakk>store_ok s fl; unat h \<in> live s\<rbrakk> \<Longrightarrow> object_buckets s \<noteq> None"
  by (auto simp: store_ok_def)



text \<open>
  The last one. \<open>s1\<close> is the store the destructor leaves, in which the object is still alive: its
  bucket cannot have been freed, since the caller's reference is held across the call.
\<close>

lemma del_ref_last:
  assumes ok: "store_ok s fl" and h: "unat h \<in> live s" and b: "bucket_at s h = Some b" "refcount b = 1"
    and d: "run_destructor dtor h hs b s = Some (s1, failure)" and b1: "bucket_at s1 h = Some b1"
  shows "zend_objects_store_del_ref_by_handle_ex dtor free h hs s =
    (if refcount b1 = 1 then do {
       (s2, failed) \<leftarrow> release_storage free b1 s1;
       b2 \<leftarrow> bucket_at s2 h;
       (if osize s2 \<noteq> osize s1 then None
        else drop_ref h (failure \<or> failed) (ZEND_OBJECTS_STORE_ADD_TO_FREE_LIST h b2 s2)) }
     else drop_ref h failure s1)"
proof -
  have "valid b" using live_bucket [OF ok h] b(1) by auto
  then show ?thesis
    using b d b1 live_buckets_ok [OF ok h] by (simp add: zend_objects_store_del_ref_by_handle_ex_def del: not_None_eq)
qed


subsection \<open>Properties\<close>

text \<open>
  C30. \<open>zend_objects_store_put\<close> hands out a handle that is not 0 and that no live object has, whether
  it comes from the free list or from the end of the (possibly doubled) array; the object is found
  under it with one reference, every other live object keeps its bucket, and the free list still
  holds exactly the dead buckets.
\<close>

theorem zend_objects_store_put_spec:
  assumes "store_ok s fl" "unat (osize s) < 2 ^ 30"
  shows "\<exists>h s' fl'. zend_objects_store_put object free_storage clone s = Some (h, s') \<and> store_ok s' fl' \<and>
    h \<noteq> 0 \<and> unat h \<notin> live s \<and> live s' = insert (unat h) (live s) \<and>
    zend_object_store_get_object_by_handle h s' = Some object \<and> zend_objects_store_get_refcount h s' = Some 1 \<and>
    (\<forall>g. unat g \<in> live s \<longrightarrow> bucket_at s' g = bucket_at s g) \<and> released s' = released s"
  using zend_objects_store_put_ok [OF assms, of object free_storage clone]
  by (auto simp: put_ok_def put_bucket_def zend_object_store_get_object_by_handle_def object_of_def
      zend_objects_store_get_refcount_def)

definition demo_store :: "nat objects_store" where
  "demo_store = the (Option.bind (zend_objects_store_init 1)
     (\<lambda>s. map_option snd (zend_objects_store_put (Some 7) True False s)))"

lemma demo_store_ok: "\<exists>fl. store_ok demo_store fl"
proof -
  obtain s :: "nat objects_store" where s: "zend_objects_store_init 1 = Some s" "store_ok s []"
    by (rule zend_objects_store_init_ok [of 1]) auto
  have "osize s = 1" using s(1) by (auto simp: zend_objects_store_init_def split: if_splits)
  then show ?thesis
    using zend_objects_store_put_ok [OF s(2), of "Some 7" True False] s(1) by (auto simp: demo_store_def)
qed

lemma demo_store_values:
  "osize demo_store = 2" "otop demo_store = 2" "released demo_store = []"
  "bucket_at demo_store 1 = Some (put_bucket (Some 7) True False)"
  by code_simp+

lemma demo_store_live: "unat (1 :: uint) \<in> live demo_store"
proof -
  have "buckets demo_store ! 1 = put_bucket (Some 7) True False" "otop demo_store = 2"
    by code_simp+
  then show ?thesis by (simp add: live_def put_bucket_def)
qed

theorem zend_objects_store_put_spec_witness:
  "\<exists>h s'. zend_objects_store_put (Some 8) True False demo_store = Some (h, s') \<and> h \<noteq> 1 \<and>
    zend_object_store_get_object_by_handle h s' = Some (Some 8) \<and> bucket_at s' 1 = bucket_at demo_store 1"
proof -
  obtain fl where "store_ok demo_store fl" using demo_store_ok by blast
  from zend_objects_store_put_spec [OF this, of "Some 8" True False] demo_store_live
  show ?thesis by (auto simp: demo_store_values)
qed



subsection \<open>The pointer behind the release\<close>

text \<open>
  If the release of the storage has grown the array of buckets, the pointer to the object is stale and
  the last decrement writes to released memory.
\<close>

lemma del_ref_dangling:
  assumes "store_ok s fl" "unat h \<in> live s" "bucket_at s h = Some b" "refcount b = 1"
    and "run_destructor dtor h hs b s = Some (s1, failure)" "bucket_at s1 h = Some b1" "refcount b1 = 1"
    and "release_storage free b1 s1 = Some (s2, failed)" "osize s2 \<noteq> osize s1"
  shows "zend_objects_store_del_ref_by_handle_ex dtor free h hs s = None"
  using del_ref_last [OF assms(1-6), of free] assms(7-9) by simp

end
