(* ===== verification/ZendGc.thy ===== *)
theory ZendGc
  imports Prelude
begin

text \<open>
  The garbage collector (Zend/zend_gc.c, zend_gc.h, without \<open>GC_BENCH\<close> and \<open>ZTS\<close>): values that may be
  part of a cycle wait in a buffer of possible roots; a collection subtracts the references from
  within the values reachable from the roots (grey), gives them back to everything reachable from a
  value that still has references (black), and collects the rest (white).

  A zval keeps its colour in the two low bits of the pointer to its root buffer; the pair \<open>gc_word\<close> is
  that pointer and the colour. While a zval waits for release the same field is the link to the next
  one, which reads as colour black. A hash table is the list of the zvals it holds, in order; the
  property tables of objects are lists too. The getters of objects that do not use the standard one
  are a parameter: a function of the object's handle, which may give NULL.
\<close>

subsection \<open>State\<close>

datatype gc_color = GC_BLACK | GC_WHITE | GC_GREY | GC_PURPLE

datatype root_ptr = Roots | Buf nat

datatype gc_address = No_Address | Root nat | Next addr | FREE_LIST_END

type_synonym gc_word = "gc_address \<times> gc_color"

datatype get_properties = No_Getter | Std_Getter | Other_Getter nat

datatype zvalue = Scalar | IS_ARRAY addr | IS_OBJECT nat get_properties

record zval =
  zvalue :: zvalue
  refcount__gc :: uint
  z_buffered :: gc_word

record store_object =
  valid :: bool
  destructor_called :: bool
  has_dtor :: bool
  o_refcount :: uint
  o_buffered :: gc_word
  properties :: "addr option"
  properties_table :: "addr option list"

datatype root_target = Pz addr | Handlers get_properties

record gc_root_buffer =
  rb_prev :: "root_ptr option"
  rb_next :: root_ptr
  rb_handle :: nat
  rb_u :: root_target

record gc_state =
  zvals :: "addr \<rightharpoonup> zval"
  tables :: "addr \<rightharpoonup> addr list"
  symbol_table :: addr
  object_buckets :: "store_object list option"
  other_props :: "nat \<Rightarrow> nat \<Rightarrow> addr list option"
  gc_enabled :: bool
  gc_active :: bool
  has_buf :: bool
  buf :: "nat \<rightharpoonup> gc_root_buffer"
  roots_prev :: root_ptr
  roots_next :: root_ptr
  unused :: "root_ptr option"
  first_unused :: nat
  last_unused :: nat
  zval_to_free :: gc_address
  free_list :: gc_address
  next_to_free :: gc_address
  gc_runs :: uint
  collected :: uint

definition GC_ROOT_BUFFER_MAX_ENTRIES :: nat where "GC_ROOT_BUFFER_MAX_ENTRIES = 10000"

subsection \<open>Access\<close>

definition upd_zval :: "addr \<Rightarrow> (zval \<Rightarrow> zval) \<Rightarrow> gc_state \<Rightarrow> gc_state option" where
  "upd_zval a f g = (case zvals g a of None \<Rightarrow> None | Some z \<Rightarrow> Some (g\<lparr>zvals := (zvals g)(a \<mapsto> f z)\<rparr>))"

definition get_obj :: "nat \<Rightarrow> gc_state \<Rightarrow> store_object option" where
  "get_obj h g = (case object_buckets g of None \<Rightarrow> None | Some bs \<Rightarrow> if h < length bs then Some (bs ! h) else None)"

definition upd_obj :: "nat \<Rightarrow> (store_object \<Rightarrow> store_object) \<Rightarrow> gc_state \<Rightarrow> gc_state option" where
  "upd_obj h f g = (case object_buckets g of None \<Rightarrow> None
     | Some bs \<Rightarrow> if h < length bs then Some (g\<lparr>object_buckets := Some (bs[h := f (bs ! h)])\<rparr>) else None)"

definition GC_ZVAL_SET_COLOR :: "addr \<Rightarrow> gc_color \<Rightarrow> gc_state \<Rightarrow> gc_state option" where
  "GC_ZVAL_SET_COLOR a c = upd_zval a (\<lambda>z. z\<lparr>z_buffered := (fst (z_buffered z), c)\<rparr>)"

definition GC_ZVAL_SET_ADDRESS :: "addr \<Rightarrow> gc_address \<Rightarrow> gc_state \<Rightarrow> gc_state option" where
  "GC_ZVAL_SET_ADDRESS a p = upd_zval a (\<lambda>z. z\<lparr>z_buffered := (p, snd (z_buffered z))\<rparr>)"

definition GC_SET_COLOR :: "nat \<Rightarrow> gc_color \<Rightarrow> gc_state \<Rightarrow> gc_state option" where
  "GC_SET_COLOR h c = upd_obj h (\<lambda>b. b\<lparr>o_buffered := (fst (o_buffered b), c)\<rparr>)"

definition GC_SET_ADDRESS :: "nat \<Rightarrow> gc_address \<Rightarrow> gc_state \<Rightarrow> gc_state option" where
  "GC_SET_ADDRESS h p = upd_obj h (\<lambda>b. b\<lparr>o_buffered := (p, snd (o_buffered b))\<rparr>)"

text \<open>The elements behind an object: \<open>Some None\<close> if its getter gives NULL.\<close>

definition object_elements :: "nat \<Rightarrow> get_properties \<Rightarrow> gc_state \<Rightarrow> addr list option option" where
  "object_elements h get_props g = do {
     obj \<leftarrow> get_obj h g;
     (if \<not> valid obj then Some (Some [])
      else (case get_props of
          No_Getter \<Rightarrow> Some (Some [])
        | Std_Getter \<Rightarrow>
            (case properties obj of
               None \<Rightarrow> Some (Some (concat (map (case_option [] (\<lambda>a. [a])) (properties_table obj))))
             | Some ht \<Rightarrow> map_option Some (tables g ht))
        | Other_Getter k \<Rightarrow> Some (other_props g k h))) }"

definition is_symbol_table :: "zval \<Rightarrow> gc_state \<Rightarrow> bool" where
  "is_symbol_table z g \<longleftrightarrow> zvalue z = IS_ARRAY (symbol_table g)"

definition add_refcount :: "uint \<Rightarrow> addr \<Rightarrow> gc_state \<Rightarrow> gc_state option" where
  "add_refcount d pz g = do {
     z \<leftarrow> zvals g pz;
     (if is_symbol_table z g then Some g
      else upd_zval pz (\<lambda>z. z\<lparr>refcount__gc := refcount__gc z + d\<rparr>) g) }"

subsection \<open>Walking the values\<close>

text \<open>
  The four walks share one shape. The body of the recursive function treats one zval (and the object
  it stands for) and gives the elements to go through; for each of them the loop changes the
  reference count and calls the function again. The tail calls of the C code are such calls.
\<close>

partial_function (option) visit_elements ::
    "(addr \<Rightarrow> gc_state \<Rightarrow> gc_state option) \<Rightarrow> (addr \<Rightarrow> gc_state \<Rightarrow> (addr list \<times> gc_state) option) \<Rightarrow>
     addr list \<Rightarrow> gc_state \<Rightarrow> gc_state option" where
  "visit_elements touch body todo g = (case todo of
       [] \<Rightarrow> Some g
     | pz # rest \<Rightarrow> do {
         g \<leftarrow> touch pz g;
         r \<leftarrow> body pz g;
         g \<leftarrow> visit_elements touch body (fst r) (snd r);
         visit_elements touch body rest g })"

definition or_empty :: "'a list option \<Rightarrow> 'a list" where
  "or_empty x = (case x of None \<Rightarrow> [] | Some xs \<Rightarrow> xs)"

subsubsection \<open>Black\<close>

definition scan_black_body :: "addr \<Rightarrow> gc_state \<Rightarrow> (addr list \<times> gc_state) option" where
  "scan_black_body pz g = do {
     g \<leftarrow> GC_ZVAL_SET_COLOR pz GC_BLACK g;
     z \<leftarrow> zvals g pz;
     (case zvalue z of
        IS_OBJECT h get_props \<Rightarrow>
          (if object_buckets g = None then Some ([], g)
           else do {
             g \<leftarrow> upd_obj h (\<lambda>b. b\<lparr>o_refcount := o_refcount b + 1\<rparr>) g;
             obj \<leftarrow> get_obj h g;
             (if snd (o_buffered obj) \<noteq> GC_BLACK then do {
                g \<leftarrow> GC_SET_COLOR h GC_BLACK g;
                xs \<leftarrow> object_elements h get_props g;
                Some (or_empty xs, g) }
              else Some ([], g)) })
      | IS_ARRAY ht \<Rightarrow>
          (if ht \<noteq> symbol_table g then do { xs \<leftarrow> tables g ht; Some (xs, g) } else Some ([], g))
      | Scalar \<Rightarrow> Some ([], g)) }"

definition scan_black_element :: "addr \<Rightarrow> gc_state \<Rightarrow> (addr list \<times> gc_state) option" where
  "scan_black_element pz g = do {
     z \<leftarrow> zvals g pz;
     (if snd (z_buffered z) \<noteq> GC_BLACK then scan_black_body pz g else Some ([], g)) }"

definition zval_scan_black :: "addr \<Rightarrow> gc_state \<Rightarrow> gc_state option" where
  "zval_scan_black pz g = do {
     (xs, g) \<leftarrow> scan_black_body pz g;
     visit_elements (add_refcount 1) scan_black_element xs g }"

definition zobj_scan_black :: "nat \<Rightarrow> get_properties \<Rightarrow> gc_state \<Rightarrow> gc_state option" where
  "zobj_scan_black h get_props g = do {
     g \<leftarrow> GC_SET_COLOR h GC_BLACK g;
     xs \<leftarrow> object_elements h get_props g;
     visit_elements (add_refcount 1) scan_black_element (or_empty xs) g }"

subsubsection \<open>Grey\<close>

definition mark_grey_body :: "addr \<Rightarrow> gc_state \<Rightarrow> (addr list \<times> gc_state) option" where
  "mark_grey_body pz g = do {
     z \<leftarrow> zvals g pz;
     (if snd (z_buffered z) = GC_GREY then Some ([], g)
      else do {
        g \<leftarrow> GC_ZVAL_SET_COLOR pz GC_GREY g;
        (case zvalue z of
           IS_OBJECT h get_props \<Rightarrow>
             (if object_buckets g = None then Some ([], g)
              else do {
                g \<leftarrow> upd_obj h (\<lambda>b. b\<lparr>o_refcount := o_refcount b - 1\<rparr>) g;
                obj \<leftarrow> get_obj h g;
                (if snd (o_buffered obj) \<noteq> GC_GREY then do {
                   g \<leftarrow> GC_SET_COLOR h GC_GREY g;
                   xs \<leftarrow> object_elements h get_props g;
                   Some (or_empty xs, g) }
                 else Some ([], g)) })
         | IS_ARRAY ht \<Rightarrow>
             (if ht = symbol_table g then do { g \<leftarrow> GC_ZVAL_SET_COLOR pz GC_BLACK g; Some ([], g) }
              else do { xs \<leftarrow> tables g ht; Some (xs, g) })
         | Scalar \<Rightarrow> Some ([], g)) }) }"

definition zval_mark_grey :: "addr \<Rightarrow> gc_state \<Rightarrow> gc_state option" where
  "zval_mark_grey pz g = do {
     (xs, g) \<leftarrow> mark_grey_body pz g;
     visit_elements (add_refcount (- 1)) mark_grey_body xs g }"

definition zobj_mark_grey :: "nat \<Rightarrow> get_properties \<Rightarrow> gc_state \<Rightarrow> gc_state option" where
  "zobj_mark_grey h get_props g = do {
     obj \<leftarrow> get_obj h g;
     (if snd (o_buffered obj) \<noteq> GC_GREY then do {
        g \<leftarrow> GC_SET_COLOR h GC_GREY g;
        xs \<leftarrow> object_elements h get_props g;
        visit_elements (add_refcount (- 1)) mark_grey_body (or_empty xs) g }
      else Some g) }"

subsubsection \<open>White\<close>

definition scan_body :: "addr \<Rightarrow> gc_state \<Rightarrow> (addr list \<times> gc_state) option" where
  "scan_body pz g = do {
     z \<leftarrow> zvals g pz;
     (if snd (z_buffered z) \<noteq> GC_GREY then Some ([], g)
      else if refcount__gc z > 0 then do { g \<leftarrow> zval_scan_black pz g; Some ([], g) }
      else do {
        g \<leftarrow> GC_ZVAL_SET_COLOR pz GC_WHITE g;
        (case zvalue z of
           IS_OBJECT h get_props \<Rightarrow>
             (if object_buckets g = None then Some ([], g)
              else do {
                obj \<leftarrow> get_obj h g;
                (if snd (o_buffered obj) = GC_GREY then
                   (if o_refcount obj > 0 then do { g \<leftarrow> zobj_scan_black h get_props g; Some ([], g) }
                    else do {
                      g \<leftarrow> GC_SET_COLOR h GC_WHITE g;
                      xs \<leftarrow> object_elements h get_props g;
                      Some (or_empty xs, g) })
                 else Some ([], g)) })
         | IS_ARRAY ht \<Rightarrow>
             (if ht = symbol_table g then do { g \<leftarrow> GC_ZVAL_SET_COLOR pz GC_BLACK g; Some ([], g) }
              else do { xs \<leftarrow> tables g ht; Some (xs, g) })
         | Scalar \<Rightarrow> Some ([], g)) }) }"

definition zval_scan :: "addr \<Rightarrow> gc_state \<Rightarrow> gc_state option" where
  "zval_scan pz g = do { (xs, g) \<leftarrow> scan_body pz g; visit_elements (\<lambda>_ g. Some g) scan_body xs g }"

definition zobj_scan :: "nat \<Rightarrow> get_properties \<Rightarrow> gc_state \<Rightarrow> gc_state option" where
  "zobj_scan h get_props g =
     (if object_buckets g = None then Some g
      else do {
        obj \<leftarrow> get_obj h g;
        (if snd (o_buffered obj) = GC_GREY then
           (if o_refcount obj > 0 then zobj_scan_black h get_props g
            else do {
              g \<leftarrow> GC_SET_COLOR h GC_WHITE g;
              xs \<leftarrow> object_elements h get_props g;
              visit_elements (\<lambda>_ g. Some g) scan_body (or_empty xs) g })
         else Some g) })"

subsubsection \<open>Collecting the white values\<close>

text \<open>The link to the next value to be freed takes the place of the root buffer and the colour.\<close>

definition put_to_free :: "addr \<Rightarrow> gc_state \<Rightarrow> gc_state option" where
  "put_to_free pz g = do {
     g1 \<leftarrow> upd_zval pz (\<lambda>z. z\<lparr>refcount__gc := refcount__gc z + 1, z_buffered := (zval_to_free g, GC_BLACK)\<rparr>) g;
     Some (g1\<lparr>zval_to_free := Next pz\<rparr>) }"

text \<open>If a getter gives NULL the function returns before it has put the value into the list.\<close>

definition collect_body :: "addr \<Rightarrow> gc_state \<Rightarrow> (addr list \<times> gc_state) option" where
  "collect_body pz g = do {
     z \<leftarrow> zvals g pz;
     (if z_buffered z \<noteq> (No_Address, GC_WHITE) then Some ([], g)
      else do {
        g \<leftarrow> GC_ZVAL_SET_COLOR pz GC_BLACK g;
        (case zvalue z of
           IS_OBJECT h get_props \<Rightarrow>
             (if object_buckets g = None then do { g \<leftarrow> put_to_free pz g; Some ([], g) }
              else do {
                obj \<leftarrow> get_obj h g;
                (if o_buffered obj = (No_Address, GC_WHITE) then do {
                   g \<leftarrow> GC_SET_COLOR h GC_BLACK g;
                   elements \<leftarrow> object_elements h get_props g;
                   (case elements of
                      None \<Rightarrow> Some ([], g)
                    | Some xs \<Rightarrow> do { g \<leftarrow> put_to_free pz g; Some (xs, g) }) }
                 else do { g \<leftarrow> put_to_free pz g; Some ([], g) }) })
         | IS_ARRAY ht \<Rightarrow> do { xs \<leftarrow> tables g ht; g \<leftarrow> put_to_free pz g; Some (xs, g) }
         | Scalar \<Rightarrow> do { g \<leftarrow> put_to_free pz g; Some ([], g) }) }) }"

definition zval_collect_white :: "addr \<Rightarrow> gc_state \<Rightarrow> gc_state option" where
  "zval_collect_white pz g = do { (xs, g) \<leftarrow> collect_body pz g; visit_elements (add_refcount 1) collect_body xs g }"

definition zobj_collect_white :: "nat \<Rightarrow> get_properties \<Rightarrow> gc_state \<Rightarrow> gc_state option" where
  "zobj_collect_white h get_props g =
     (if object_buckets g = None then Some g
      else do {
        obj \<leftarrow> get_obj h g;
        (if o_buffered obj = (No_Address, GC_WHITE) then do {
           g \<leftarrow> GC_SET_COLOR h GC_BLACK g;
           xs \<leftarrow> object_elements h get_props g;
           visit_elements (add_refcount 1) collect_body (or_empty xs) g }
         else Some g) })"

subsection \<open>The root buffer\<close>

definition set_next :: "root_ptr \<Rightarrow> root_ptr \<Rightarrow> gc_state \<Rightarrow> gc_state option" where
  "set_next p q g = (case p of
       Roots \<Rightarrow> Some (g\<lparr>roots_next := q\<rparr>)
     | Buf i \<Rightarrow> (case buf g i of None \<Rightarrow> None | Some r \<Rightarrow> Some (g\<lparr>buf := (buf g)(i \<mapsto> r\<lparr>rb_next := q\<rparr>)\<rparr>)))"

definition set_prev :: "root_ptr \<Rightarrow> root_ptr \<Rightarrow> gc_state \<Rightarrow> gc_state option" where
  "set_prev p q g = (case p of
       Roots \<Rightarrow> Some (g\<lparr>roots_prev := q\<rparr>)
     | Buf i \<Rightarrow> (case buf g i of None \<Rightarrow> None | Some r \<Rightarrow> Some (g\<lparr>buf := (buf g)(i \<mapsto> r\<lparr>rb_prev := Some q\<rparr>)\<rparr>)))"

definition gc_remove_from_buffer :: "nat \<Rightarrow> gc_state \<Rightarrow> gc_state option" where
  "gc_remove_from_buffer root g = do {
     r \<leftarrow> buf g root;
     prev \<leftarrow> rb_prev r;
     g \<leftarrow> set_prev (rb_next r) prev g;
     r \<leftarrow> buf g root;
     prev \<leftarrow> rb_prev r;
     g \<leftarrow> set_next prev (rb_next r) g;
     r \<leftarrow> buf g root;
     Some (g\<lparr>buf := (buf g)(root \<mapsto> r\<lparr>rb_prev := unused g\<rparr>), unused := Some (Buf root)\<rparr>) }"

text \<open>Whether the zval waits for release in the collection under way.\<close>

definition in_root_buffer :: "gc_address \<Rightarrow> gc_state \<Rightarrow> bool" where
  "in_root_buffer p g \<longleftrightarrow> has_buf g \<and> (case p of Root i \<Rightarrow> i < last_unused g | _ \<Rightarrow> False)"

definition waits_for_release :: "zval \<Rightarrow> gc_state \<Rightarrow> bool" where
  "waits_for_release z g \<longleftrightarrow> free_list g \<noteq> No_Address \<and> snd (z_buffered z) = GC_BLACK \<and> \<not> in_root_buffer (fst (z_buffered z)) g"

definition gc_remove_zval_from_buffer :: "addr \<Rightarrow> gc_state \<Rightarrow> gc_state option" where
  "gc_remove_zval_from_buffer zv g = do {
     z \<leftarrow> zvals g zv;
     (if waits_for_release z g
      then Some (if next_to_free g = Next zv then g\<lparr>next_to_free := fst (z_buffered z)\<rparr> else g)
      else (case fst (z_buffered z) of
          Root i \<Rightarrow> do {
            g \<leftarrow> gc_remove_from_buffer i g;
            upd_zval zv (\<lambda>z. z\<lparr>z_buffered := (No_Address, GC_BLACK)\<rparr>) g }
        | _ \<Rightarrow> None)) }"

subsection \<open>The phases of a collection\<close>

text \<open>\<open>walk_roots\<close> is the loop over the buffered roots; the step may take the root out of the list, and the
  loop then goes on at the \<open>next\<close> pointer that is left in it.\<close>

partial_function (option) walk_roots ::
    "(nat \<Rightarrow> gc_root_buffer \<Rightarrow> gc_state \<Rightarrow> gc_state option) \<Rightarrow> root_ptr \<Rightarrow> gc_state \<Rightarrow> gc_state option" where
  "walk_roots step current g = (case current of
       Roots \<Rightarrow> Some g
     | Buf i \<Rightarrow> do {
         r \<leftarrow> buf g i;
         g \<leftarrow> step i r g;
         r \<leftarrow> buf g i;
         walk_roots step (rb_next r) g })"

definition mark_root :: "nat \<Rightarrow> gc_root_buffer \<Rightarrow> gc_state \<Rightarrow> gc_state option" where
  "mark_root i current g =
     (if rb_handle current \<noteq> 0 then
        (if object_buckets g = None then Some g
         else do {
           obj \<leftarrow> get_obj (rb_handle current) g;
           (if snd (o_buffered obj) = GC_PURPLE
            then (case rb_u current of Handlers h \<Rightarrow> zobj_mark_grey (rb_handle current) h g | Pz _ \<Rightarrow> None)
            else do {
              g \<leftarrow> GC_SET_ADDRESS (rb_handle current) No_Address g;
              gc_remove_from_buffer i g }) })
      else (case rb_u current of
          Handlers _ \<Rightarrow> None
        | Pz pz \<Rightarrow> do {
            z \<leftarrow> zvals g pz;
            (if snd (z_buffered z) = GC_PURPLE then zval_mark_grey pz g
             else do {
               g \<leftarrow> GC_ZVAL_SET_ADDRESS pz No_Address g;
               gc_remove_from_buffer i g }) }))"

definition gc_mark_roots :: "gc_state \<Rightarrow> gc_state option" where
  "gc_mark_roots g = walk_roots mark_root (roots_next g) g"

definition scan_root :: "nat \<Rightarrow> gc_root_buffer \<Rightarrow> gc_state \<Rightarrow> gc_state option" where
  "scan_root i current g =
     (if rb_handle current \<noteq> 0
      then (case rb_u current of Handlers h \<Rightarrow> zobj_scan (rb_handle current) h g | Pz _ \<Rightarrow> None)
      else (case rb_u current of Pz pz \<Rightarrow> zval_scan pz g | Handlers _ \<Rightarrow> None))"

definition gc_scan_roots :: "gc_state \<Rightarrow> gc_state option" where
  "gc_scan_roots g = walk_roots scan_root (roots_next g) g"

definition collect_root :: "nat \<Rightarrow> gc_root_buffer \<Rightarrow> gc_state \<Rightarrow> gc_state option" where
  "collect_root i current g = do {
     g \<leftarrow> (if rb_handle current \<noteq> 0
       then (if object_buckets g = None then Some g
             else do {
               g \<leftarrow> GC_SET_ADDRESS (rb_handle current) No_Address g;
               (case rb_u current of Handlers h \<Rightarrow> zobj_collect_white (rb_handle current) h g | Pz _ \<Rightarrow> None) })
       else (case rb_u current of
           Handlers _ \<Rightarrow> None
         | Pz pz \<Rightarrow> do {
             g \<leftarrow> GC_ZVAL_SET_ADDRESS pz No_Address g;
             zval_collect_white pz g }));
     gc_remove_from_buffer i g }"

definition gc_collect_roots :: "gc_state \<Rightarrow> gc_state option" where
  "gc_collect_roots g = walk_roots collect_root (roots_next g) g"

subsection \<open>A collection\<close>

text \<open>
  What the collector calls to release: the destructor of an object, the deletion of a reference to an
  object, the destruction of a hash table with the release of its memory, and the destruction of a
  scalar. They are parameters that take and give the whole state. The memory of a zval itself is
  released by \<open>efree\<close>: the zval is gone, and to release it twice is an error.
\<close>

record gc_env =
  call_dtor :: "nat \<Rightarrow> gc_state \<Rightarrow> gc_state option"
  del_ref_by_handle :: "nat \<Rightarrow> gc_state \<Rightarrow> gc_state option"
  destroy_table :: "addr \<Rightarrow> gc_state \<Rightarrow> gc_state option"
  zval_dtor :: "addr \<Rightarrow> gc_state \<Rightarrow> gc_state option"

definition destruct_object :: "gc_env \<Rightarrow> nat \<Rightarrow> gc_state \<Rightarrow> gc_state option" where
  "destruct_object env h g =
     (if object_buckets g = None then Some g
      else do {
        obj \<leftarrow> get_obj h g;
        (if valid obj \<and> o_refcount obj \<le> 0 \<and> has_dtor obj \<and> \<not> destructor_called obj then do {
           g \<leftarrow> upd_obj h (\<lambda>b. b\<lparr>destructor_called := True, o_refcount := o_refcount b + 1\<rparr>) g;
           g \<leftarrow> call_dtor env h g;
           upd_obj h (\<lambda>b. b\<lparr>o_refcount := o_refcount b - 1\<rparr>) g }
         else Some g) })"

text \<open>The three loops follow the links of the list, which ends in \<open>FREE_LIST_END\<close>.\<close>

partial_function (option) destructor_loop :: "gc_env \<Rightarrow> gc_address \<Rightarrow> nat \<Rightarrow> gc_state \<Rightarrow> (nat \<times> gc_state) option" where
  "destructor_loop env p count g = (case p of
       FREE_LIST_END \<Rightarrow> Some (count, g)
     | Next a \<Rightarrow> do {
         z \<leftarrow> zvals g a;
         g \<leftarrow> (case zvalue z of IS_OBJECT h _ \<Rightarrow> destruct_object env h g | _ \<Rightarrow> Some g);
         z \<leftarrow> zvals g a;
         destructor_loop env (fst (z_buffered z)) (count + 1) g }
     | _ \<Rightarrow> None)"

definition destroy_zval :: "gc_env \<Rightarrow> addr \<Rightarrow> gc_state \<Rightarrow> gc_state option" where
  "destroy_zval env a g = do {
     z \<leftarrow> zvals g a;
     (case zvalue z of
        IS_OBJECT h _ \<Rightarrow>
          (if object_buckets g = None then Some g
           else do {
             obj \<leftarrow> get_obj h g;
             (if valid obj \<and> o_refcount obj \<le> 0 then do {
                g \<leftarrow> upd_obj h (\<lambda>b. b\<lparr>o_refcount := 1\<rparr>) g;
                g \<leftarrow> upd_zval a (\<lambda>z. z\<lparr>zvalue := Scalar\<rparr>) g;
                del_ref_by_handle env h g }
              else Some g) })
      | IS_ARRAY ht \<Rightarrow> do { g \<leftarrow> upd_zval a (\<lambda>z. z\<lparr>zvalue := Scalar\<rparr>) g; destroy_table env ht g }
      | Scalar \<Rightarrow> do { g \<leftarrow> zval_dtor env a g; upd_zval a (\<lambda>z. z\<lparr>zvalue := Scalar\<rparr>) g }) }"

text \<open>The release of a value may take further values out of the list, through \<open>next_to_free\<close>.\<close>

partial_function (option) destroy_loop :: "gc_env \<Rightarrow> gc_address \<Rightarrow> gc_state \<Rightarrow> gc_state option" where
  "destroy_loop env p g = (case p of
       FREE_LIST_END \<Rightarrow> Some g
     | Next a \<Rightarrow> do {
         z \<leftarrow> zvals g a;
         g \<leftarrow> destroy_zval env a (g\<lparr>next_to_free := fst (z_buffered z)\<rparr>);
         destroy_loop env (next_to_free g) g }
     | _ \<Rightarrow> None)"

definition FREE_ZVAL_EX :: "addr \<Rightarrow> gc_state \<Rightarrow> gc_state option" where
  "FREE_ZVAL_EX a g = (if zvals g a = None then None else Some (g\<lparr>zvals := (zvals g)(a := None)\<rparr>))"

partial_function (option) free_loop :: "gc_address \<Rightarrow> gc_state \<Rightarrow> gc_state option" where
  "free_loop p g = (case p of
       FREE_LIST_END \<Rightarrow> Some g
     | Next a \<Rightarrow> do {
         z \<leftarrow> zvals g a;
         g \<leftarrow> FREE_ZVAL_EX a g;
         free_loop (fst (z_buffered z)) g }
     | _ \<Rightarrow> None)"

definition gc_collect_cycles :: "gc_env \<Rightarrow> gc_state \<Rightarrow> (nat \<times> gc_state) option" where
  "gc_collect_cycles env g =
     (if roots_next g = Roots \<or> gc_active g then Some (0, g)
      else do {
        g \<leftarrow> gc_mark_roots (g\<lparr>gc_runs := gc_runs g + 1, zval_to_free := FREE_LIST_END, gc_active := True\<rparr>);
        g \<leftarrow> gc_scan_roots g;
        g \<leftarrow> gc_collect_roots g;
        let orig_free_list = free_list g;
        let orig_next_to_free = next_to_free g;
        let list = zval_to_free g;
        (count, g) \<leftarrow> destructor_loop env list 0
          (g\<lparr>free_list := list, zval_to_free := No_Address, gc_active := False\<rparr>);
        g \<leftarrow> destroy_loop env (free_list g) g;
        g \<leftarrow> free_loop (free_list g) g;
        Some (count, g\<lparr>collected := collected g + of_nat count, free_list := orig_free_list,
          next_to_free := orig_next_to_free\<rparr>) })"

subsection \<open>Start, reset and end\<close>

text \<open>Without a buffer the two bounds are NULL, here the same index. A fresh buffer has no contents.\<close>

definition gc_globals_ctor_ex :: "gc_state \<Rightarrow> gc_state" where
  "gc_globals_ctor_ex g = g\<lparr>gc_enabled := False, gc_active := False, has_buf := False, buf := Map.empty,
     roots_next := Roots, roots_prev := Roots, unused := None, zval_to_free := No_Address, free_list := No_Address,
     next_to_free := No_Address, gc_runs := 0, collected := 0\<rparr>"

definition root_buffer_dtor :: "gc_state \<Rightarrow> gc_state" where
  "root_buffer_dtor g = (if has_buf g then g\<lparr>has_buf := False, buf := Map.empty\<rparr> else g)"

definition gc_reset :: "gc_state \<Rightarrow> gc_state" where
  "gc_reset g = (let g = g\<lparr>gc_runs := 0, collected := 0, roots_next := Roots, roots_prev := Roots\<rparr> in
     if has_buf g then g\<lparr>unused := None, first_unused := 0, zval_to_free := No_Address\<rparr>
     else g\<lparr>unused := None, first_unused := 0, last_unused := 0\<rparr>)"

definition gc_init :: "gc_state \<Rightarrow> gc_state" where
  "gc_init g = (if \<not> has_buf g \<and> gc_enabled g
     then gc_reset (g\<lparr>has_buf := True, buf := Map.empty, last_unused := GC_ROOT_BUFFER_MAX_ENTRIES\<rparr>) else g)"

subsection \<open>Registering possible roots\<close>

definition take_unused :: "gc_state \<Rightarrow> (nat option \<times> gc_state) option" where
  "take_unused g = (case unused g of
       Some (Buf i) \<Rightarrow> do { r \<leftarrow> buf g i; Some (Some i, g\<lparr>unused := rb_prev r\<rparr>) }
     | _ \<Rightarrow> None)"

text \<open>A buffer for a new root: a returned one, the next fresh one, or, after a collection, a returned one.
  \<open>again\<close> restores the colour that the collection has changed.\<close>

definition new_root :: "gc_env \<Rightarrow> addr \<Rightarrow> (gc_state \<Rightarrow> gc_state option) \<Rightarrow> gc_state \<Rightarrow> (nat option \<times> gc_state) option" where
  "new_root env zv again g =
     (if unused g \<noteq> None then take_unused g
      else if first_unused g \<noteq> last_unused g
        then Some (Some (first_unused g), g\<lparr>first_unused := first_unused g + 1\<rparr>)
      else if \<not> gc_enabled g then do { g \<leftarrow> GC_ZVAL_SET_COLOR zv GC_BLACK g; Some (None, g) }
      else do {
        g \<leftarrow> upd_zval zv (\<lambda>z. z\<lparr>refcount__gc := refcount__gc z + 1\<rparr>) g;
        (_, g) \<leftarrow> gc_collect_cycles env g;
        g \<leftarrow> upd_zval zv (\<lambda>z. z\<lparr>refcount__gc := refcount__gc z - 1\<rparr>) g;
        (if unused g = None then Some (None, g)
         else do { g \<leftarrow> again g; take_unused g }) })"

definition insert_root :: "nat \<Rightarrow> nat \<Rightarrow> root_target \<Rightarrow> gc_state \<Rightarrow> gc_state option" where
  "insert_root i h u g = do {
     let nx = roots_next g;
     g \<leftarrow> set_prev nx (Buf i) (g\<lparr>buf := (buf g)(i \<mapsto> \<lparr>rb_prev = Some Roots, rb_next = nx, rb_handle = h, rb_u = u\<rparr>)\<rparr>);
     Some (g\<lparr>roots_next := Buf i\<rparr>) }"

definition zobj_of :: "addr \<Rightarrow> gc_state \<Rightarrow> (nat \<times> get_properties) option" where
  "zobj_of zv g = do { z \<leftarrow> zvals g zv; (case zvalue z of IS_OBJECT h get_props \<Rightarrow> Some (h, get_props) | _ \<Rightarrow> None) }"

definition gc_zobj_possible_root :: "gc_env \<Rightarrow> addr \<Rightarrow> gc_state \<Rightarrow> gc_state option" where
  "gc_zobj_possible_root env zv g = do {
     (h, get_props) \<leftarrow> zobj_of zv g;
     (if get_props = No_Getter \<or> object_buckets g = None then Some g
      else do {
        obj \<leftarrow> get_obj h g;
        (if snd (o_buffered obj) = GC_PURPLE then Some g
         else do {
           g \<leftarrow> GC_SET_COLOR h GC_PURPLE g;
           (if fst (o_buffered obj) \<noteq> No_Address then Some g
            else do {
              (newRoot, g) \<leftarrow> new_root env zv (\<lambda>g. do { (h, _) \<leftarrow> zobj_of zv g; GC_SET_COLOR h GC_PURPLE g }) g;
              (case newRoot of
                 None \<Rightarrow> Some g
               | Some i \<Rightarrow> do {
                   (h, get_props) \<leftarrow> zobj_of zv g;
                   g \<leftarrow> insert_root i h (Handlers get_props) g;
                   GC_SET_ADDRESS h (Root i) g }) }) }) }) }"

definition gc_zval_possible_root :: "gc_env \<Rightarrow> addr \<Rightarrow> gc_state \<Rightarrow> gc_state option" where
  "gc_zval_possible_root env zv g = do {
     z \<leftarrow> zvals g zv;
     (if fst (z_buffered z) \<noteq> No_Address \<and> waits_for_release z g then Some g
      else (case zvalue z of
          IS_OBJECT h _ \<Rightarrow>
            (if object_buckets g = None then Some g
             else do { obj \<leftarrow> get_obj h g; (if valid obj then gc_zobj_possible_root env zv g else Some g) })
        | _ \<Rightarrow>
            (if snd (z_buffered z) = GC_PURPLE then Some g
             else do {
               g \<leftarrow> GC_ZVAL_SET_COLOR zv GC_PURPLE g;
               (if fst (z_buffered z) \<noteq> No_Address then Some g
                else do {
                  (newRoot, g) \<leftarrow> new_root env zv (GC_ZVAL_SET_COLOR zv GC_PURPLE) g;
                  (case newRoot of
                     None \<Rightarrow> Some g
                   | Some i \<Rightarrow> do {
                       g \<leftarrow> insert_root i 0 (Pz zv) g;
                       GC_ZVAL_SET_ADDRESS zv (Root i) g }) }) }))) }"

definition gc_zval_check_possible_root :: "gc_env \<Rightarrow> addr \<Rightarrow> gc_state \<Rightarrow> gc_state option" where
  "gc_zval_check_possible_root env zv g = do {
     z \<leftarrow> zvals g zv;
     (case zvalue z of Scalar \<Rightarrow> Some g | _ \<Rightarrow> gc_zval_possible_root env zv g) }"

text \<open>The macros that take a zval or an object out of the buffer when it is released.\<close>

definition GC_REMOVE_ZVAL_FROM_BUFFER :: "addr \<Rightarrow> gc_state \<Rightarrow> gc_state option" where
  "GC_REMOVE_ZVAL_FROM_BUFFER zv g = do {
     z \<leftarrow> zvals g zv;
     (if fst (z_buffered z) \<noteq> No_Address then gc_remove_zval_from_buffer zv g else Some g) }"

definition GC_REMOVE_ZOBJ_FROM_BUFFER :: "nat \<Rightarrow> gc_state \<Rightarrow> gc_state option" where
  "GC_REMOVE_ZOBJ_FROM_BUFFER h g = do {
     obj \<leftarrow> get_obj h g;
     (if fst (o_buffered obj) \<noteq> No_Address \<and> \<not> gc_active g
      then (case fst (o_buffered obj) of
          Root i \<Rightarrow> do {
            g \<leftarrow> gc_remove_from_buffer i g;
            upd_obj h (\<lambda>b. b\<lparr>o_buffered := (No_Address, GC_BLACK)\<rparr>) g }
        | _ \<Rightarrow> None)
      else Some g) }"

end
