(* ===== verification/ZendGcGraph.thy ===== *)
theory ZendGcGraph
  imports ZendGc "HOL-Library.Multiset"
begin

text \<open>
  Trial deletion on a graph of references: \<open>kids\<close> gives the references a node holds, with repetitions.
  The locale \<open>refgraph\<close> has what the collector's walks rest on: depth-first visits of the nodes that are
  reachable within a set, and the invariant of the scan that separates the nodes with references from
  outside from those without.
\<close>

locale refgraph =
  fixes kids :: "'n \<Rightarrow> 'n list"
begin

subsection \<open>Reachable nodes\<close>

definition edges :: "('n \<times> 'n) set" where
  "edges = {(m, n). n \<in> set (kids m)}"

definition reach :: "'n set \<Rightarrow> 'n set" where
  "reach S = edges\<^sup>* `` S"

definition closed :: "'n set \<Rightarrow> bool" where
  "closed S \<longleftrightarrow> (\<forall>m \<in> S. set (kids m) \<subseteq> S)"

lemma reach_base: "S \<subseteq> reach S"
  by (auto simp: reach_def)

lemma reach_closed: "closed (reach S)"
  by (auto simp: closed_def reach_def edges_def intro: rtrancl_into_rtrancl)

lemma reach_least: "\<lbrakk>S \<subseteq> R; closed R\<rbrakk> \<Longrightarrow> reach S \<subseteq> R"
proof
  fix n assume "S \<subseteq> R" "closed R" "n \<in> reach S"
  then obtain s where "s \<in> S" "(s, n) \<in> edges\<^sup>*" by (auto simp: reach_def)
  from this(2,1) show "n \<in> R"
    by (induction rule: rtrancl_induct) (use \<open>S \<subseteq> R\<close> \<open>closed R\<close> in \<open>auto simp: closed_def edges_def\<close>)
qed

lemma reach_mono: "S \<subseteq> reach T \<Longrightarrow> reach S \<subseteq> reach T"
  by (rule reach_least [OF _ reach_closed])

lemma reach_kids: "reach (set (kids n)) \<subseteq> reach {n}"
proof (rule reach_mono)
  have "n \<in> reach {n}" using reach_base [of "{n}"] by simp
  then show "set (kids n) \<subseteq> reach {n}" using reach_closed by (simp add: closed_def)
qed

subsection \<open>Depth-first visits\<close>

text \<open>\<open>L\<close> are the nodes a visit enters that starts at \<open>T\<close> and may enter the nodes of \<open>A\<close>.\<close>

definition visited :: "'n list \<Rightarrow> 'n set \<Rightarrow> 'n list \<Rightarrow> bool" where
  "visited T A L \<longleftrightarrow> distinct L \<and> set L \<subseteq> A \<and> set T \<inter> A \<subseteq> set L \<and> (\<forall>m \<in> set L. set (kids m) \<inter> A \<subseteq> set L) \<and>
     set L \<subseteq> reach (set T)"

lemma visited_Nil: "visited [] A []"
  by (simp add: visited_def)

lemma visited_skip: "n \<notin> A \<Longrightarrow> visited [n] A []"
  by (simp add: visited_def)

lemma visited_pass: "\<lbrakk>n \<notin> A; visited [] A L\<rbrakk> \<Longrightarrow> visited [n] A L"
  by (simp add: visited_def reach_def)

lemma visited_append:
  assumes "visited T1 A L1" "visited T2 (A - set L1) L2"
  shows "visited (T1 @ T2) A (L1 @ L2)"
proof -
  have "reach (set T1) \<subseteq> reach (set (T1 @ T2))" "reach (set T2) \<subseteq> reach (set (T1 @ T2))"
    using reach_base [of "set (T1 @ T2)"] by (auto intro!: reach_mono)
  then show ?thesis using assms unfolding visited_def by (auto; blast)
qed

lemma visited_enter:
  assumes "n \<in> A" "visited (kids n) (A - {n}) L"
  shows "visited [n] A (n # L)"
  using assms reach_kids [of n] reach_base [of "{n}"] unfolding visited_def by (auto; blast)

subsection \<open>Counting references\<close>

definition in_refs :: "'n set \<Rightarrow> 'n \<Rightarrow> nat" where
  "in_refs M n = (\<Sum>m \<in> M. count_list (kids m) n)"

lemma count_kids: "distinct L \<Longrightarrow> count_list (concat (map kids L)) n = in_refs (set L) n"
  by (induction L) (simp_all add: in_refs_def)

lemma in_refs_union: "\<lbrakk>finite A; finite B; A \<inter> B = {}\<rbrakk> \<Longrightarrow> in_refs (A \<union> B) n = in_refs A n + in_refs B n"
  by (simp add: in_refs_def sum.union_disjoint)

lemma in_refs_zero: "(\<And>m. m \<in> M \<Longrightarrow> n \<notin> set (kids m)) \<Longrightarrow> in_refs M n = 0"
  by (simp add: in_refs_def)

subsection \<open>The scan\<close>

text \<open>
  \<open>M\<close> are the marked nodes and \<open>rc0\<close> the reference counts before the collection. A node is kept for its
  own sake if it has references that do not come from marked nodes.
\<close>

definition kept :: "'n set \<Rightarrow> ('n \<Rightarrow> uint) \<Rightarrow> 'n set" where
  "kept M rc0 = {x \<in> M. rc0 x \<noteq> of_nat (in_refs M x)}"

definition scan_inv :: "'n set \<Rightarrow> ('n \<Rightarrow> uint) \<Rightarrow> ('n \<Rightarrow> gc_color) \<Rightarrow> ('n \<Rightarrow> uint) \<Rightarrow> bool" where
  "scan_inv M rc0 col rc \<longleftrightarrow>
     (\<forall>n \<in> M. col n \<noteq> GC_PURPLE) \<and>
     (\<forall>n. rc n = rc0 n - of_nat (in_refs {m \<in> M. col m \<noteq> GC_BLACK} n)) \<and>
     (\<forall>m \<in> M. col m = GC_BLACK \<longrightarrow> (\<forall>k \<in> set (kids m). col k = GC_BLACK)) \<and>
     (\<forall>n \<in> M. col n = GC_WHITE \<longrightarrow> rc n = 0) \<and>
     (\<forall>n \<in> M. col n = GC_BLACK \<longrightarrow> n \<in> reach (kept M rc0))"

lemma scan_start:
  assumes "\<And>n. n \<in> M \<Longrightarrow> col n = GC_GREY" "\<And>n. rc n = rc0 n - of_nat (in_refs M n)"
  shows "scan_inv M rc0 col rc"
proof -
  have "{m \<in> M. col m \<noteq> GC_BLACK} = M" using assms(1) by auto
  then show ?thesis using assms by (auto simp: scan_inv_def)
qed

lemma scan_white:
  assumes "scan_inv M rc0 col rc" "col n = GC_GREY" "rc n = 0"
  shows "scan_inv M rc0 (col(n := GC_WHITE)) rc"
proof -
  have "{m \<in> M. (col(n := GC_WHITE)) m \<noteq> GC_BLACK} = {m \<in> M. col m \<noteq> GC_BLACK}" using assms(2) by auto
  then show ?thesis using assms unfolding scan_inv_def by (auto split: if_splits)
qed

lemma in_refs_split:
  assumes "finite M" "S \<subseteq> M"
  shows "in_refs M n = in_refs S n + in_refs (M - S) n"
proof -
  have "M = S \<union> (M - S)" using assms(2) by blast
  then show ?thesis using in_refs_union [of S "M - S"] assms finite_subset by (metis Diff_disjoint finite_Diff)
qed

lemma grey_kept:
  assumes "scan_inv M rc0 col rc" "finite M" "n \<in> M" "col n \<noteq> GC_BLACK"
  shows "n \<in> kept M rc0 \<longleftrightarrow> rc n \<noteq> 0"
proof -
  let ?N = "{m \<in> M. col m \<noteq> GC_BLACK}"
  have rc: "rc n = rc0 n - of_nat (in_refs ?N n)"
    and closed: "\<And>m k. \<lbrakk>m \<in> M; col m = GC_BLACK; k \<in> set (kids m)\<rbrakk> \<Longrightarrow> col k = GC_BLACK"
    using assms(1) unfolding scan_inv_def by blast+
  have "in_refs (M - ?N) n = 0"
    by (rule in_refs_zero) (use assms(4) closed in auto)
  then have "in_refs M n = in_refs ?N n" using in_refs_split [OF assms(2), of ?N n] by simp
  then show ?thesis using assms(3) rc by (simp add: kept_def)
qed

lemma scan_black:
  assumes inv: "scan_inv M rc0 col rc" and M: "finite M" "closed M" and n: "n \<in> M" "col n = GC_GREY" "rc n \<noteq> 0"
    and A: "\<And>x. x \<in> M \<Longrightarrow> x \<in> A \<longleftrightarrow> col x \<noteq> GC_BLACK" and L: "visited [n] A L"
  shows "scan_inv M rc0 (\<lambda>x. if x \<in> set L then GC_BLACK else col x)
    (\<lambda>x. rc x + of_nat (count_list (concat (map kids L)) x))"
proof -
  let ?N = "{m \<in> M. col m \<noteq> GC_BLACK}"
  have dist: "distinct L" and entered: "set L \<subseteq> A" "set L \<subseteq> reach {n}"
    and L_kids: "\<And>m. m \<in> set L \<Longrightarrow> set (kids m) \<inter> A \<subseteq> set L"
    using L by (simp_all add: visited_def)
  have rc: "\<And>x. rc x = rc0 x - of_nat (in_refs ?N x)"
    and black: "\<And>m k. \<lbrakk>m \<in> M; col m = GC_BLACK; k \<in> set (kids m)\<rbrakk> \<Longrightarrow> col k = GC_BLACK"
    and white: "\<And>x. \<lbrakk>x \<in> M; col x = GC_WHITE\<rbrakk> \<Longrightarrow> rc x = 0"
    and purple: "\<And>x. x \<in> M \<Longrightarrow> col x \<noteq> GC_PURPLE"
    and why: "\<And>x. \<lbrakk>x \<in> M; col x = GC_BLACK\<rbrakk> \<Longrightarrow> x \<in> reach (kept M rc0)"
    using inv unfolding scan_inv_def by blast+
  have LM: "set L \<subseteq> M" using entered(2) reach_least [of "{n}" M] n(1) M(2) by blast
  have LN: "set L \<subseteq> ?N" using LM entered(1) A by blast
  have kids_L: "k \<in> set L \<or> col k = GC_BLACK" if "m \<in> set L" "k \<in> set (kids m)" for m k
    using L_kids [OF that(1)] that LM M(2) A [of k] unfolding closed_def by blast
  have N': "{m \<in> M. (if m \<in> set L then GC_BLACK else col m) \<noteq> GC_BLACK} = ?N - set L" by auto
  have count: "count_list (concat (map kids L)) x = in_refs (set L) x" for x using count_kids [OF dist] .
  have "finite ?N" using M(1) by simp
  then have split: "in_refs ?N x = in_refs (set L) x + in_refs (?N - set L) x" for x using in_refs_split LN by blast
  have none: "in_refs (set L) x = 0" if "x \<in> M" "x \<notin> set L" "col x \<noteq> GC_BLACK" for x
    by (rule in_refs_zero) (use kids_L that in blast)
  have kept: "set L \<subseteq> reach (kept M rc0)"
  proof -
    have "n \<in> kept M rc0" using grey_kept [OF inv M(1) n(1)] n(2,3) by simp
    then show ?thesis using entered(2) reach_mono [of "{n}" "kept M rc0"] reach_base [of "kept M rc0"] by blast
  qed
  show ?thesis
    unfolding scan_inv_def N' count
  proof (intro conjI ballI allI impI)
    fix x show "rc x + of_nat (in_refs (set L) x) = rc0 x - of_nat (in_refs (?N - set L) x)"
      using rc [of x] split [of x] by simp
  next
    fix m k assume "m \<in> M" "(if m \<in> set L then GC_BLACK else col m) = GC_BLACK" "k \<in> set (kids m)"
    then show "(if k \<in> set L then GC_BLACK else col k) = GC_BLACK" using kids_L black by (auto split: if_splits)
  next
    fix x assume "x \<in> M" "(if x \<in> set L then GC_BLACK else col x) = GC_WHITE"
    then show "rc x + of_nat (in_refs (set L) x) = 0" using white [of x] none [of x] by (auto split: if_splits)
  next
    fix x assume "x \<in> M" "(if x \<in> set L then GC_BLACK else col x) = GC_BLACK"
    then show "x \<in> reach (kept M rc0)" using why kept by (auto split: if_splits)
  qed (use purple in auto)
qed

text \<open>The references of white nodes that the scan has still to look at lead to nodes of \<open>P\<close>.\<close>

definition settled :: "'n set \<Rightarrow> ('n \<Rightarrow> gc_color) \<Rightarrow> 'n set \<Rightarrow> bool" where
  "settled M col P \<longleftrightarrow> (\<forall>m \<in> M. col m = GC_WHITE \<longrightarrow> (\<forall>k \<in> set (kids m). col k = GC_GREY \<longrightarrow> k \<in> P))"

lemma no_grey:
  assumes "scan_inv M rc0 col rc" "settled M col {}" "closed M" "R \<subseteq> M" "\<And>r. r \<in> R \<Longrightarrow> col r \<noteq> GC_GREY" "M \<subseteq> reach R"
  shows "n \<in> M \<Longrightarrow> col n \<noteq> GC_GREY"
proof -
  have "closed {n \<in> M. col n \<noteq> GC_GREY}"
    unfolding closed_def
  proof safe
    fix m k assume m: "m \<in> M" "col m \<noteq> GC_GREY" "k \<in> set (kids m)"
    then show "k \<in> M" using assms(3) by (auto simp: closed_def)
    assume grey: "col k = GC_GREY"
    have "col m = GC_BLACK \<or> col m = GC_WHITE"
      using assms(1) m(1,2) unfolding scan_inv_def by (cases "col m") auto
    then show False
    proof
      assume "col m = GC_BLACK"
      then have "col k = GC_BLACK" using assms(1) m(1,3) unfolding scan_inv_def by blast
      then show False using grey by simp
    next
      assume "col m = GC_WHITE"
      then show False using assms(2) m(1,3) grey unfolding settled_def by blast
    qed
  qed
  then have "reach R \<subseteq> {n \<in> M. col n \<noteq> GC_GREY}" using assms(4,5) by (intro reach_least) auto
  then show "n \<in> M \<Longrightarrow> col n \<noteq> GC_GREY" using assms(6) by blast
qed

text \<open>When nothing is grey any more the white nodes are those no kept node reaches.\<close>

lemma scan_end:
  assumes inv: "scan_inv M rc0 col rc" and M: "finite M" "closed M" and grey: "\<And>n. n \<in> M \<Longrightarrow> col n \<noteq> GC_GREY"
  shows "{n \<in> M. col n = GC_WHITE} = M - reach (kept M rc0)"
proof -
  let ?B = "{n \<in> M. col n = GC_BLACK}"
  have cases: "col n = GC_WHITE \<or> col n = GC_BLACK" if "n \<in> M" for n
    using inv grey [OF that] that unfolding scan_inv_def by (cases "col n") auto
  have "kept M rc0 \<subseteq> ?B"
  proof
    fix x assume x: "x \<in> kept M rc0"
    then have "x \<in> M" by (simp add: kept_def)
    have "col x \<noteq> GC_WHITE"
    proof
      assume w: "col x = GC_WHITE"
      then have "rc x = 0" using inv \<open>x \<in> M\<close> unfolding scan_inv_def by blast
      then show False using grey_kept [OF inv M(1) \<open>x \<in> M\<close>] w x by simp
    qed
    then show "x \<in> ?B" using cases \<open>x \<in> M\<close> by blast
  qed
  moreover have "closed ?B"
    unfolding closed_def
  proof safe
    fix m k assume "m \<in> M" "col m = GC_BLACK" "k \<in> set (kids m)"
    then show "k \<in> M" "col k = GC_BLACK" using M(2) inv unfolding closed_def scan_inv_def by blast+
  qed
  ultimately have "reach (kept M rc0) \<subseteq> ?B" by (rule reach_least)
  moreover have "?B \<subseteq> reach (kept M rc0)" using inv unfolding scan_inv_def by blast
  ultimately show ?thesis using cases by fastforce
qed

subsection \<open>References from outside\<close>

text \<open>\<open>ext\<close> counts the references to a node that no node of \<open>N\<close> holds; the counts fit into their type.\<close>

definition counted :: "'n set \<Rightarrow> ('n \<Rightarrow> uint) \<Rightarrow> ('n \<Rightarrow> nat) \<Rightarrow> bool" where
  "counted N rc ext \<longleftrightarrow> (\<forall>n \<in> N. rc n = of_nat (in_refs N n + ext n) \<and> in_refs N n + ext n < 2 ^ 32)"

lemma kept_iff:
  assumes "counted N rc ext" "finite N" "M \<subseteq> N" "n \<in> M"
  shows "n \<in> kept M rc \<longleftrightarrow> 0 < in_refs (N - M) n + ext n"
proof -
  have s: "in_refs N n = in_refs M n + in_refs (N - M) n" by (rule in_refs_split [OF assms(2,3)])
  have c: "rc n = of_nat (in_refs N n + ext n)" "in_refs N n + ext n < 2 ^ 32"
    using assms(1,3,4) unfolding counted_def by blast+
  have "rc n = of_nat (in_refs M n) \<longleftrightarrow> in_refs N n + ext n = in_refs M n"
    unfolding c(1) word_of_nat_eq_iff using c(2) s by (simp add: take_bit_nat_eq_self)
  then show ?thesis using assms(4) s by (simp add: kept_def)
qed

lemma in_refs_pos: "\<lbrakk>finite S; m \<in> S; n \<in> set (kids m)\<rbrakk> \<Longrightarrow> 0 < in_refs S n"
  using member_le_sum [of m S "\<lambda>m. count_list (kids m) n"] count_list_0_iff [of "kids m" n]
  by (simp add: in_refs_def)

text \<open>What a node with references from outside reaches is never among the nodes to be collected.\<close>

lemma live_kept:
  assumes c: "counted N rc ext" "finite N" "closed N" "M \<subseteq> N" and m: "m \<in> N" "0 < ext m" "n \<in> reach {m}" "n \<in> M"
  shows "n \<in> reach (kept M rc)"
proof -
  have "(m, n) \<in> edges\<^sup>*" using m(3) by (simp add: reach_def)
  then have "n \<in> N \<and> (n \<in> M \<longrightarrow> n \<in> reach (kept M rc))"
  proof (induction rule: rtrancl_induct)
    case base
    then show ?case using m(1,2) kept_iff [OF c(1,2,4), of m] reach_base [of "kept M rc"] by auto
  next
    case (step y z)
    then have z: "z \<in> set (kids y)" by (simp add: edges_def)
    then have "z \<in> N" using step.IH c(3) by (auto simp: closed_def)
    moreover have "z \<in> reach (kept M rc)" if "z \<in> M"
    proof (cases "y \<in> M")
      case True
      then show ?thesis using step.IH z reach_closed [of "kept M rc"] by (auto simp: closed_def)
    next
      case False
      then have "0 < in_refs (N - M) z" using in_refs_pos [of "N - M" y z] step.IH z c(2) by simp
      then show ?thesis using kept_iff [OF c(1,2,4) that] reach_base [of "kept M rc"] by auto
    qed
    ultimately show ?case by blast
  qed
  then show ?thesis using m(4) by blast
qed

text \<open>And what is kept has a reason: a reference from outside or from a node that was not marked.\<close>

lemma kept_reason:
  assumes c: "counted N rc ext" "finite N" "M \<subseteq> N" and n: "n \<in> reach (kept M rc)"
  shows "\<exists>m \<in> M. n \<in> reach {m} \<and> (0 < ext m \<or> (\<exists>p \<in> N - M. m \<in> set (kids p)))"
proof -
  obtain m where m: "m \<in> kept M rc" "(m, n) \<in> edges\<^sup>*" using n unfolding reach_def by blast
  then have r: "n \<in> reach {m}" unfolding reach_def by blast
  have M: "m \<in> M" using m(1) by (simp add: kept_def)
  have "0 < in_refs (N - M) m + ext m" using kept_iff [OF c M] m(1) by (rule iffD1)
  then have "0 < ext m \<or> (\<exists>p \<in> N - M. m \<in> set (kids p))" using in_refs_zero [of "N - M" m] by auto
  then show ?thesis using r M by blast
qed

end

end
