(* ===== verification/ZendGcWalk.thy ===== *)
theory ZendGcWalk
  imports ZendGcGraph
begin

text \<open>
  The walk over elements of the collector as a depth-first visit. The locale \<open>element_walk\<close> is the contract
  between the loop \<open>visit_elements\<close> and the body of a walk: \<open>eff E L g g'\<close> says that \<open>g'\<close> is \<open>g\<close> with the
  references \<open>E\<close> counted and the nodes \<open>L\<close> entered, and \<open>A g\<close> are the nodes that may still be entered.
\<close>

locale element_walk = refgraph kids for kids :: "'n \<Rightarrow> 'n list" +
  fixes elem :: "addr list \<Rightarrow> 'n list"
    and touch :: "addr \<Rightarrow> gc_state \<Rightarrow> gc_state option"
    and body :: "addr \<Rightarrow> gc_state \<Rightarrow> (addr list \<times> gc_state) option"
    and adm :: "addr set"
    and ok :: "gc_state \<Rightarrow> bool"
    and A :: "gc_state \<Rightarrow> 'n set"
    and eff :: "'n multiset \<Rightarrow> 'n list \<Rightarrow> gc_state \<Rightarrow> gc_state \<Rightarrow> bool"
  assumes elem_append: "elem (xs @ ys) = elem xs @ elem ys"
    and eff_refl: "eff {#} [] g g"
    and eff_trans: "\<lbrakk>ok g1; eff E1 L1 g1 g2; eff E2 L2 g2 g3; set L1 \<subseteq> A g1; set L2 \<subseteq> A g2\<rbrakk> \<Longrightarrow>
      eff (E1 + E2) (L1 @ L2) g1 g3"
    and eff_ok: "\<lbrakk>ok g; eff E L g g'\<rbrakk> \<Longrightarrow> ok g'"
    and eff_A: "\<lbrakk>ok g; eff E L g g'\<rbrakk> \<Longrightarrow> A g' = A g - set L"
    and finite_A: "ok g \<Longrightarrow> finite (A g)"
    and step: "\<lbrakk>ok g; a \<in> adm\<rbrakk> \<Longrightarrow> \<exists>g1 g2 ks E L. touch a g = Some g1 \<and> body a g1 = Some (ks, g2) \<and>
      set ks \<subseteq> adm \<and> eff E L g g2 \<and> (L = [] \<longrightarrow> ks = []) \<and>
      E + mset (elem ks) = mset (elem [a]) + mset (concat (map kids L)) \<and> set L \<subseteq> A g \<and>
      (\<forall>L2. visited (elem ks) (A g - set L) L2 \<longrightarrow> visited (elem [a]) (A g) (L @ L2))"
begin

lemma elem_Nil [simp]: "elem [] = []"
  using elem_append [of "[]" "[]"] by simp

lemma visit_elements_Nil [simp]: "visit_elements t b [] g = Some g"
  by (subst visit_elements.simps) simp

lemma visit:
  "\<lbrakk>ok g; set todo \<subseteq> adm; card (A g) = c\<rbrakk> \<Longrightarrow> \<exists>g' L. visit_elements touch body todo g = Some g' \<and>
     eff (mset (elem todo) + mset (concat (map kids L))) L g g' \<and> visited (elem todo) (A g) L"
proof (induction c arbitrary: g todo rule: less_induct)
  case (less c)
  show ?case
    using less.prems
  proof (induction todo arbitrary: g)
    case Nil
    then show ?case using eff_refl [of g] visited_Nil by (intro exI [of _ g] exI [of _ "[]"]) simp
  next
    case (Cons a rest)
    obtain g1 g2 ks E L where s: "touch a g = Some g1" "body a g1 = Some (ks, g2)" "set ks \<subseteq> adm" "eff E L g g2"
      "L = [] \<longrightarrow> ks = []" "E + mset (elem ks) = mset (elem [a]) + mset (concat (map kids L))" "set L \<subseteq> A g"
      "\<forall>L2. visited (elem ks) (A g - set L) L2 \<longrightarrow> visited (elem [a]) (A g) (L @ L2)"
      using step [OF Cons.prems(1), of a] Cons.prems(2) by auto
    have g2: "ok g2" "A g2 = A g - set L" using eff_ok eff_A Cons.prems(1) s(4) by blast+
    have "\<exists>g3 L2. visit_elements touch body ks g2 = Some g3 \<and>
      eff (mset (elem ks) + mset (concat (map kids L2))) L2 g2 g3 \<and> visited (elem ks) (A g2) L2"
    proof (cases "L = []")
      case True
      then show ?thesis using s(5) eff_refl [of g2] visited_Nil by (intro exI [of _ g2] exI [of _ "[]"]) simp
    next
      case False
      then have "card (A g2) < c" using g2(2) s(7) finite_A [OF Cons.prems(1)] Cons.prems(3)
        by (metis Diff_subset finite_Diff inf.orderE inf_bot_right psubsetI psubset_card_mono set_empty Diff_disjoint)
      then show ?thesis using less.IH g2(1) s(3) by blast
    qed
    then obtain g3 L2 where k: "visit_elements touch body ks g2 = Some g3"
      "eff (mset (elem ks) + mset (concat (map kids L2))) L2 g2 g3" "visited (elem ks) (A g2) L2" by blast
    have g3: "ok g3" "A g3 = A g - set (L @ L2)" using eff_ok eff_A g2 k(2) by auto
    have e3: "eff (mset (elem [a]) + mset (concat (map kids (L @ L2)))) (L @ L2) g g3"
    proof -
      have eq: "E + (mset (elem ks) + mset (concat (map kids L2))) = mset (elem [a]) + mset (concat (map kids (L @ L2)))"
        using s(6) by (simp add: add.assoc [symmetric])
      have "set L2 \<subseteq> A g2" using k(3) by (simp add: visited_def)
      then show ?thesis using eff_trans [OF Cons.prems(1) s(4) k(2) s(7)] unfolding eq by blast
    qed
    have v3: "visited (elem [a]) (A g) (L @ L2)" using s(8) k(3) g2(2) by simp
    have "card (A g3) \<le> c" using g3(2) Cons.prems(3) card_mono [OF finite_A [OF Cons.prems(1)], of "A g3"] by blast
    then have "\<exists>g4 L3. visit_elements touch body rest g3 = Some g4 \<and>
      eff (mset (elem rest) + mset (concat (map kids L3))) L3 g3 g4 \<and> visited (elem rest) (A g3) L3"
    proof (cases "card (A g3) = c")
      case True
      then show ?thesis using Cons.IH [OF g3(1)] Cons.prems(2) by simp
    next
      case False
      then have "card (A g3) < c" using \<open>card (A g3) \<le> c\<close> by simp
      then show ?thesis using less.IH g3(1) Cons.prems(2) by (metis set_subset_Cons subset_trans)
    qed
    then obtain g4 L3 where r: "visit_elements touch body rest g3 = Some g4"
      "eff (mset (elem rest) + mset (concat (map kids L3))) L3 g3 g4" "visited (elem rest) (A g3) L3" by blast
    have "visit_elements touch body (a # rest) g = Some g4"
      using s(1,2) k(1) r(1) by (subst visit_elements.simps) simp
    moreover have "eff (mset (elem (a # rest)) + mset (concat (map kids (L @ L2 @ L3)))) (L @ L2 @ L3) g g4"
      using eff_trans [OF Cons.prems(1) e3 r(2)] v3 r(3) elem_append [of "[a]" rest]
      by (simp add: visited_def ac_simps)
    moreover have "visited (elem (a # rest)) (A g) (L @ L2 @ L3)"
      using visited_append [OF v3, of "elem rest" L3] r(3) g3(2) elem_append [of "[a]" rest] by simp
    ultimately show ?case by blast
  qed
qed

text \<open>The walk after a first step that has entered \<open>L\<close> and left the elements \<open>ks\<close> to go through.\<close>

lemma visit_rest:
  assumes "ok g" "eff E L g g2" "set L \<subseteq> A g" "set ks \<subseteq> adm" "E + mset (elem ks) = mset (concat (map kids L))"
    "\<forall>L2. visited (elem ks) (A g - set L) L2 \<longrightarrow> visited T (A g) (L @ L2)"
  shows "\<exists>g' L'. visit_elements touch body ks g2 = Some g' \<and> eff (mset (concat (map kids L'))) L' g g' \<and>
    visited T (A g) L'"
proof -
  have g2: "ok g2" "A g2 = A g - set L" using eff_ok eff_A assms(1,2) by blast+
  obtain g3 L2 where k: "visit_elements touch body ks g2 = Some g3"
    "eff (mset (elem ks) + mset (concat (map kids L2))) L2 g2 g3" "visited (elem ks) (A g2) L2"
    using visit [OF g2(1) assms(4) refl] by blast
  have "set L2 \<subseteq> A g2" using k(3) by (simp add: visited_def)
  then have "eff (E + (mset (elem ks) + mset (concat (map kids L2)))) (L @ L2) g g3"
    using eff_trans [OF assms(1,2) k(2) assms(3)] by blast
  moreover have "E + (mset (elem ks) + mset (concat (map kids L2))) = mset (concat (map kids (L @ L2)))"
    using assms(5) by (simp add: add.assoc [symmetric])
  ultimately show ?thesis using k(1,3) assms(6) g2(2) by metis
qed

end

end
