(* ===== verification/ZendGcNodes.thy ===== *)
theory ZendGcNodes
  imports ZendGcWalk
begin

text \<open>
  The heap of the collector as a graph: its nodes are the zvals that do not stand for the symbol table
  and the objects; an object zval refers to its object, an array to its elements, an object to what its
  getter gives. Colours and reference counts are functions on nodes; the rest of the heap is its shape,
  which no walk changes.
\<close>

subsection \<open>Nodes, colours, counts\<close>

datatype node = ZV addr | OB nat

definition sym :: "gc_state \<Rightarrow> addr \<Rightarrow> bool" where
  "sym g a \<longleftrightarrow> (case zvals g a of None \<Rightarrow> False | Some z \<Rightarrow> is_symbol_table z g)"

definition nodes :: "gc_state \<Rightarrow> node set" where
  "nodes g = ZV ` {a \<in> dom (zvals g). \<not> sym g a} \<union> OB ` {h. get_obj h g \<noteq> None}"

fun ncol :: "gc_state \<Rightarrow> node \<Rightarrow> gc_color" where
  "ncol g (ZV a) = (case zvals g a of None \<Rightarrow> GC_BLACK | Some z \<Rightarrow> if sym g a then GC_BLACK else snd (z_buffered z))"
| "ncol g (OB h) = (case get_obj h g of None \<Rightarrow> GC_BLACK | Some b \<Rightarrow> snd (o_buffered b))"

fun nrc :: "gc_state \<Rightarrow> node \<Rightarrow> uint" where
  "nrc g (ZV a) = (case zvals g a of None \<Rightarrow> 0 | Some z \<Rightarrow> refcount__gc z)"
| "nrc g (OB h) = (case get_obj h g of None \<Rightarrow> 0 | Some b \<Rightarrow> o_refcount b)"

fun naddr :: "gc_state \<Rightarrow> node \<Rightarrow> gc_address" where
  "naddr g (ZV a) = (case zvals g a of None \<Rightarrow> No_Address | Some z \<Rightarrow> fst (z_buffered z))"
| "naddr g (OB h) = (case get_obj h g of None \<Rightarrow> No_Address | Some b \<Rightarrow> fst (o_buffered b))"

definition elem :: "gc_state \<Rightarrow> addr list \<Rightarrow> node list" where
  "elem g xs = map ZV (filter (\<lambda>a. \<not> sym g a) xs)"

text \<open>\<open>getter h\<close> is the getter of the object with handle \<open>h\<close>.\<close>

fun nkids :: "(nat \<Rightarrow> get_properties) \<Rightarrow> gc_state \<Rightarrow> node \<Rightarrow> node list" where
  "nkids getter g (ZV a) = (case zvals g a of None \<Rightarrow> [] | Some z \<Rightarrow>
     (case zvalue z of
        Scalar \<Rightarrow> []
      | IS_ARRAY ht \<Rightarrow> (if sym g a then [] else elem g (or_empty (tables g ht)))
      | IS_OBJECT h _ \<Rightarrow> (if object_buckets g = None then [] else [OB h])))"
| "nkids getter g (OB h) = (case object_elements h (getter h) g of Some (Some xs) \<Rightarrow> elem g xs | _ \<Rightarrow> [])"

subsection \<open>What the walks leave alone\<close>

definition shape :: "gc_state \<Rightarrow> (addr \<Rightarrow> zvalue option) \<times> (addr \<rightharpoonup> addr list) \<times> addr \<times>
    (bool \<times> addr option \<times> addr option list) list option \<times> (nat \<Rightarrow> nat \<Rightarrow> addr list option)" where
  "shape g = (\<lambda>a. map_option zvalue (zvals g a), tables g, symbol_table g,
     map_option (map (\<lambda>b. (valid b, properties b, properties_table b))) (object_buckets g), other_props g)"

definition other :: "gc_state \<Rightarrow> gc_state" where
  "other g = g\<lparr>zvals := Map.empty, object_buckets := None, zval_to_free := No_Address\<rparr>"

definition sym_safe :: "gc_state \<Rightarrow> bool" where
  "sym_safe g \<longleftrightarrow> (\<forall>a z. zvals g a = Some z \<longrightarrow> sym g a \<longrightarrow> snd (z_buffered z) \<in> {GC_BLACK, GC_PURPLE})"

text \<open>Every reference leads to something that is there, and no getter gives NULL.\<close>

definition wf_object :: "gc_state \<Rightarrow> nat \<Rightarrow> get_properties \<Rightarrow> bool" where
  "wf_object g h getter \<longleftrightarrow> (\<exists>xs. object_elements h getter g = Some (Some xs) \<and> set xs \<subseteq> dom (zvals g))"

definition wf_value :: "(nat \<Rightarrow> get_properties) \<Rightarrow> gc_state \<Rightarrow> zvalue \<Rightarrow> bool" where
  "wf_value getter g v \<longleftrightarrow> (case v of
     Scalar \<Rightarrow> True
   | IS_ARRAY ht \<Rightarrow> \<exists>xs. tables g ht = Some xs \<and> set xs \<subseteq> dom (zvals g)
   | IS_OBJECT h hs \<Rightarrow> hs = getter h \<and> (object_buckets g \<noteq> None \<longrightarrow> get_obj h g \<noteq> None))"

definition wf_heap :: "(nat \<Rightarrow> get_properties) \<Rightarrow> gc_state \<Rightarrow> bool" where
  "wf_heap getter g \<longleftrightarrow> finite (dom (zvals g)) \<and>
     (\<forall>a. pred_option (wf_value getter g) (map_option zvalue (zvals g a))) \<and>
     (\<forall>h. get_obj h g \<noteq> None \<longrightarrow> wf_object g h (getter h))"

lemma shape_fields:
  assumes "shape g' = shape g"
  shows "map_option zvalue (zvals g' a) = map_option zvalue (zvals g a)" "tables g' = tables g"
    "symbol_table g' = symbol_table g" "other_props g' = other_props g"
    "object_buckets g' = None \<longleftrightarrow> object_buckets g = None"
    "map_option (\<lambda>b. (valid b, properties b, properties_table b)) (get_obj h g') =
       map_option (\<lambda>b. (valid b, properties b, properties_table b)) (get_obj h g)"
proof -
  show "map_option zvalue (zvals g' a) = map_option zvalue (zvals g a)" "tables g' = tables g"
    "symbol_table g' = symbol_table g" "other_props g' = other_props g"
    using assms by (simp_all add: shape_def fun_eq_iff)
  have b: "map_option (map (\<lambda>b. (valid b, properties b, properties_table b))) (object_buckets g') =
      map_option (map (\<lambda>b. (valid b, properties b, properties_table b))) (object_buckets g)"
    using assms by (simp add: shape_def)
  then show "object_buckets g' = None \<longleftrightarrow> object_buckets g = None"
    by (cases "object_buckets g"; cases "object_buckets g'") simp_all
  show "map_option (\<lambda>b. (valid b, properties b, properties_table b)) (get_obj h g') =
      map_option (\<lambda>b. (valid b, properties b, properties_table b)) (get_obj h g)"
  proof (cases "object_buckets g")
    case None
    then have "object_buckets g' = None" using b by simp
    then show ?thesis using None by (simp add: get_obj_def)
  next
    case (Some bs)
    then obtain bs' where bs': "object_buckets g' = Some bs'" using b by auto
    then have m: "map (\<lambda>b. (valid b, properties b, properties_table b)) bs' =
        map (\<lambda>b. (valid b, properties b, properties_table b)) bs" using b Some by simp
    have len: "length bs' = length bs" using arg_cong [OF m, of length] by simp
    show ?thesis
    proof (cases "h < length bs")
      case True
      then show ?thesis using arg_cong [OF m, of "\<lambda>l. l ! h"] len by (simp add: get_obj_def Some bs')
    qed (use len in \<open>simp add: get_obj_def Some bs'\<close>)
  qed
qed

lemma shape_dom:
  assumes "shape g' = shape g"
  shows "dom (zvals g') = dom (zvals g)"
proof -
  have "zvals g' a = None \<longleftrightarrow> zvals g a = None" for a using shape_fields(1) [OF assms, of a] by (metis map_option_is_None)
  then show ?thesis by (auto simp: dom_def)
qed

lemma shape_get_obj:
  assumes "shape g' = shape g"
  shows "get_obj h g' = None \<longleftrightarrow> get_obj h g = None"
  using shape_fields(6) [OF assms, of h] by (cases "get_obj h g"; cases "get_obj h g'") simp_all

lemma shape_sym:
  assumes "shape g' = shape g"
  shows "sym g' a = sym g a"
  using shape_fields(1) [OF assms, of a]
  by (cases "zvals g a"; cases "zvals g' a") (simp_all add: sym_def is_symbol_table_def shape_fields(3) [OF assms])

lemma shape_elem:
  assumes "shape g' = shape g"
  shows "elem g' xs = elem g xs"
  by (simp add: elem_def shape_sym [OF assms])

lemma shape_object_elements:
  assumes "shape g' = shape g"
  shows "object_elements h getter g' = object_elements h getter g"
  unfolding object_elements_def shape_fields(2,4) [OF assms]
  using shape_fields(6) [OF assms, of h]
  by (cases "get_obj h g"; cases "get_obj h g'") (auto split: get_properties.split option.split)

lemma shape_nkids:
  assumes "shape g' = shape g"
  shows "nkids getter g' n = nkids getter g n"
proof (cases n)
  case (ZV a)
  show ?thesis
    unfolding ZV nkids.simps shape_elem [OF assms] shape_sym [OF assms] shape_fields(2,5) [OF assms]
    using shape_fields(1) [OF assms, of a] by (cases "zvals g a"; cases "zvals g' a") simp_all
next
  case (OB h)
  show ?thesis unfolding OB nkids.simps shape_elem [OF assms] shape_object_elements [OF assms] ..
qed

lemma shape_nodes:
  assumes "shape g' = shape g"
  shows "nodes g' = nodes g"
  by (simp add: nodes_def shape_dom [OF assms] shape_sym [OF assms] shape_get_obj [OF assms])

lemma shape_wf:
  assumes "shape g' = shape g"
  shows "wf_heap getter g' \<longleftrightarrow> wf_heap getter g"
proof -
  have "wf_value getter g' = wf_value getter g"
    unfolding fun_eq_iff wf_value_def shape_dom [OF assms] shape_get_obj [OF assms] shape_fields(2,5) [OF assms] by simp
  then show ?thesis
    by (simp add: wf_heap_def wf_object_def shape_dom [OF assms] shape_get_obj [OF assms]
        shape_object_elements [OF assms] shape_fields(1) [OF assms])
qed

text \<open>What the collector's own fields have no part in.\<close>

definition heap_of :: "gc_state \<Rightarrow> (addr \<rightharpoonup> zval) \<times> (addr \<rightharpoonup> addr list) \<times> addr \<times> store_object list option \<times>
    (nat \<Rightarrow> nat \<Rightarrow> addr list option)" where
  "heap_of g = (zvals g, tables g, symbol_table g, object_buckets g, other_props g)"

lemma same_heap:
  assumes "heap_of g' = heap_of g"
  shows "shape g' = shape g" "ncol g' = ncol g" "nrc g' = nrc g" "naddr g' = naddr g" "sym_safe g' = sym_safe g"
    "zvals g' = zvals g" "object_buckets g' = object_buckets g" "get_obj h g' = get_obj h g"
proof -
  have f: "zvals g' = zvals g" "tables g' = tables g" "symbol_table g' = symbol_table g"
    "object_buckets g' = object_buckets g" "other_props g' = other_props g"
    using assms by (simp_all add: heap_of_def)
  have s: "sym g' a = sym g a" "get_obj h g' = get_obj h g" for a h
    by (simp_all add: sym_def is_symbol_table_def get_obj_def f split: option.split)
  have "ncol g' n = ncol g n \<and> nrc g' n = nrc g n \<and> naddr g' n = naddr g n" for n
    by (cases n) (simp_all add: s f split: option.split)
  then show "ncol g' = ncol g" "nrc g' = nrc g" "naddr g' = naddr g" by blast+
  show "shape g' = shape g" "sym_safe g' = sym_safe g" "zvals g' = zvals g" "object_buckets g' = object_buckets g"
    "get_obj h g' = get_obj h g"
    using f s by (simp_all add: shape_def sym_safe_def)
qed

end
