(* ===== verification/ZendGcSteps.thy ===== *)
theory ZendGcSteps
  imports ZendGcNodes
begin

text \<open>
  The single steps of the walks on the graph of ZendGcNodes, and the walks that mark grey and black as
  depth-first visits: both are interpretations of the locale \<open>element_walk\<close>.
\<close>

subsection \<open>Changing one zval or object\<close>

lemma upd_zval_ok:
  assumes "zvals g a = Some z" "zvalue (f z) = zvalue z"
  shows "upd_zval a f g = Some (g\<lparr>zvals := (zvals g)(a \<mapsto> f z)\<rparr>)"
    "shape (g\<lparr>zvals := (zvals g)(a \<mapsto> f z)\<rparr>) = shape g"
    "other (g\<lparr>zvals := (zvals g)(a \<mapsto> f z)\<rparr>) = other g"
    "nrc (g\<lparr>zvals := (zvals g)(a \<mapsto> f z)\<rparr>) = (nrc g)(ZV a := refcount__gc (f z))"
    "naddr (g\<lparr>zvals := (zvals g)(a \<mapsto> f z)\<rparr>) = (naddr g)(ZV a := fst (z_buffered (f z)))"
    "ncol (g\<lparr>zvals := (zvals g)(a \<mapsto> f z)\<rparr>) = (if sym g a then ncol g else (ncol g)(ZV a := snd (z_buffered (f z))))"
    "sym_safe g \<Longrightarrow> \<not> sym g a \<or> snd (z_buffered (f z)) \<in> {GC_BLACK, GC_PURPLE} \<Longrightarrow> sym_safe (g\<lparr>zvals := (zvals g)(a \<mapsto> f z)\<rparr>)"
proof -
  let ?g = "g\<lparr>zvals := (zvals g)(a \<mapsto> f z)\<rparr>"
  show s: "shape ?g = shape g" using assms by (simp add: shape_def fun_eq_iff)
  have o: "get_obj h ?g = get_obj h g" for h by (simp add: get_obj_def)
  show "upd_zval a f g = Some ?g" using assms(1) by (simp add: upd_zval_def)
  show "other ?g = other g" by (simp add: other_def)
  have nodes: "nrc ?g n = ((nrc g)(ZV a := refcount__gc (f z))) n \<and>
    naddr ?g n = ((naddr g)(ZV a := fst (z_buffered (f z)))) n \<and>
    ncol ?g n = (if sym g a then ncol g else (ncol g)(ZV a := snd (z_buffered (f z)))) n" for n
    by (cases n, simp_all add: o assms(1) shape_sym [OF s] split: option.split)
  show "nrc ?g = (nrc g)(ZV a := refcount__gc (f z))" "naddr ?g = (naddr g)(ZV a := fst (z_buffered (f z)))"
    "ncol ?g = (if sym g a then ncol g else (ncol g)(ZV a := snd (z_buffered (f z))))"
    using nodes by blast+
  show "sym_safe g \<Longrightarrow> \<not> sym g a \<or> snd (z_buffered (f z)) \<in> {GC_BLACK, GC_PURPLE} \<Longrightarrow> sym_safe ?g"
    unfolding sym_safe_def shape_sym [OF s] by auto
qed

lemma upd_obj_ok:
  assumes "get_obj h g = Some b" "valid (f b) = valid b" "properties (f b) = properties b"
    "properties_table (f b) = properties_table b"
  obtains g' where "upd_obj h f g = Some g'" "shape g' = shape g" "other g' = other g" "zvals g' = zvals g"
    "zval_to_free g' = zval_to_free g" "nrc g' = (nrc g)(OB h := o_refcount (f b))"
    "naddr g' = (naddr g)(OB h := fst (o_buffered (f b)))" "ncol g' = (ncol g)(OB h := snd (o_buffered (f b)))"
    "sym_safe g \<longrightarrow> sym_safe g'" "get_obj h g' = Some (f b)" "object_buckets g' \<noteq> None"
proof -
  obtain bs where bs: "object_buckets g = Some bs" "h < length bs" "bs ! h = b"
    using assms(1) by (auto simp: get_obj_def split: option.splits if_splits)
  let ?g = "g\<lparr>object_buckets := Some (bs[h := f (bs ! h)])\<rparr>"
  have m: "map (\<lambda>b. (valid b, properties b, properties_table b)) (bs[h := f b]) =
      map (\<lambda>b. (valid b, properties b, properties_table b)) bs"
    using assms(2-4) bs(2,3) by (simp add: map_update list_update_same_conv)
  have s: "shape ?g = shape g" using bs m by (simp add: shape_def)
  have o: "get_obj k ?g = (if k = h then Some (f b) else get_obj k g)" for k
    using bs by (simp add: get_obj_def)
  have nodes: "nrc ?g n = ((nrc g)(OB h := o_refcount (f b))) n \<and>
    naddr ?g n = ((naddr g)(OB h := fst (o_buffered (f b)))) n \<and>
    ncol ?g n = ((ncol g)(OB h := snd (o_buffered (f b)))) n" for n
    by (cases n, simp_all add: o shape_sym [OF s] split: option.split)
  show ?thesis
  proof (rule that [of ?g])
    show "sym_safe g \<longrightarrow> sym_safe ?g" unfolding sym_safe_def shape_sym [OF s] by simp
  qed (use s o bs nodes in \<open>auto simp: upd_obj_def other_def\<close>)
qed

subsection \<open>Walks that count and paint\<close>

definition walked :: "gc_color \<Rightarrow> uint \<Rightarrow> node multiset \<Rightarrow> node list \<Rightarrow> gc_state \<Rightarrow> gc_state \<Rightarrow> bool" where
  "walked c w E L g g' \<longleftrightarrow> shape g' = shape g \<and> other g' = other g \<and> zval_to_free g' = zval_to_free g \<and>
     naddr g' = naddr g \<and> (sym_safe g \<longrightarrow> sym_safe g') \<and>
     ncol g' = (\<lambda>n. if n \<in> set L then c else ncol g n) \<and> nrc g' = (\<lambda>n. nrc g n + w * of_nat (count E n))"

lemma walked_refl: "walked c w {#} [] g g"
  by (simp add: walked_def)

lemma walked_trans: "\<lbrakk>walked c w E1 L1 g1 g2; walked c w E2 L2 g2 g3\<rbrakk> \<Longrightarrow> walked c w (E1 + E2) (L1 @ L2) g1 g3"
  by (auto simp: walked_def fun_eq_iff algebra_simps)

lemma walked_shape: "walked c w E L g g' \<Longrightarrow> shape g' = shape g"
  by (simp add: walked_def)

text \<open>The steps; a zval of the symbol table is not a node.\<close>

lemma walked_zval_color:
  assumes "zvals g a = Some z" "c \<in> {GC_BLACK, GC_PURPLE} \<or> \<not> sym g a"
  shows "\<exists>g'. GC_ZVAL_SET_COLOR a c g = Some g' \<and> walked c w {#} (elem g [a]) g g' \<and>
    zvals g' a = Some (z\<lparr>z_buffered := (fst (z_buffered z), c)\<rparr>) \<and> object_buckets g' = object_buckets g"
proof -
  let ?f = "\<lambda>z. z\<lparr>z_buffered := (fst (z_buffered z), c)\<rparr>"
  have nf: "naddr g (ZV a) = fst (z_buffered z)" "nrc g (ZV a) = refcount__gc z" using assms(1) by simp_all
  note u = upd_zval_ok [where f = ?f and g = g and a = a and z = z, OF assms(1)]
  have "walked c w {#} (elem g [a]) g (g\<lparr>zvals := (zvals g)(a \<mapsto> ?f z)\<rparr>)"
    unfolding walked_def elem_def
    using u nf assms(2) by (auto simp: fun_eq_iff)
  then show ?thesis using u(1) by (auto simp: GC_ZVAL_SET_COLOR_def)
qed

lemma walked_zval_count:
  assumes "zvals g a = Some z"
  shows "\<exists>g'. add_refcount w a g = Some g' \<and> walked c w (mset (elem g [a])) [] g g' \<and>
    (\<exists>z'. zvals g' a = Some z' \<and> zvalue z' = zvalue z \<and> z_buffered z' = z_buffered z) \<and> object_buckets g' = object_buckets g"
proof (cases "sym g a")
  case True
  then show ?thesis using assms walked_refl by (simp add: add_refcount_def sym_def elem_def)
next
  case False
  let ?f = "\<lambda>z. z\<lparr>refcount__gc := refcount__gc z + w\<rparr>"
  have nf: "naddr g (ZV a) = fst (z_buffered z)" "nrc g (ZV a) = refcount__gc z" "ncol g (ZV a) = snd (z_buffered z)"
    using assms False by simp_all
  note u = upd_zval_ok [where f = ?f and g = g and a = a and z = z, OF assms]
  have "walked c w (mset (elem g [a])) [] g (g\<lparr>zvals := (zvals g)(a \<mapsto> ?f z)\<rparr>)"
    unfolding walked_def elem_def
    using u nf False by (auto simp: fun_eq_iff)
  then show ?thesis using u(1) assms False by (auto simp: add_refcount_def sym_def)
qed

lemma walked_obj_color:
  assumes "get_obj h g = Some b"
  shows "\<exists>g'. GC_SET_COLOR h c g = Some g' \<and> walked c w {#} [OB h] g g' \<and> zvals g' = zvals g"
proof -
  let ?f = "\<lambda>b. b\<lparr>o_buffered := (fst (o_buffered b), c)\<rparr>"
  obtain g' where "upd_obj h ?f g = Some g'" "shape g' = shape g" "other g' = other g" "zvals g' = zvals g"
    "zval_to_free g' = zval_to_free g" "nrc g' = (nrc g)(OB h := o_refcount (?f b))"
    "naddr g' = (naddr g)(OB h := fst (o_buffered (?f b)))" "ncol g' = (ncol g)(OB h := snd (o_buffered (?f b)))"
    "sym_safe g \<longrightarrow> sym_safe g'"
    by (rule upd_obj_ok [where f = ?f, OF assms]) auto
  moreover have "naddr g (OB h) = fst (o_buffered b)" "nrc g (OB h) = o_refcount b" using assms by simp_all
  ultimately show ?thesis by (auto simp: GC_SET_COLOR_def walked_def fun_eq_iff)
qed

lemma walked_obj_count:
  assumes "get_obj h g = Some b"
  shows "\<exists>g'. upd_obj h (\<lambda>b. b\<lparr>o_refcount := o_refcount b + w\<rparr>) g = Some g' \<and> walked c w {#OB h#} [] g g' \<and> zvals g' = zvals g \<and>
    get_obj h g' = Some (b\<lparr>o_refcount := o_refcount b + w\<rparr>)"
proof -
  let ?f = "\<lambda>b. b\<lparr>o_refcount := o_refcount b + w\<rparr>"
  obtain g' where "upd_obj h ?f g = Some g'" "shape g' = shape g" "other g' = other g" "zvals g' = zvals g"
    "zval_to_free g' = zval_to_free g" "nrc g' = (nrc g)(OB h := o_refcount (?f b))"
    "naddr g' = (naddr g)(OB h := fst (o_buffered (?f b)))" "ncol g' = (ncol g)(OB h := snd (o_buffered (?f b)))"
    "sym_safe g \<longrightarrow> sym_safe g'" "get_obj h g' = Some (?f b)"
    by (rule upd_obj_ok [where f = ?f, OF assms]) auto
  moreover have "naddr g (OB h) = fst (o_buffered b)" "nrc g (OB h) = o_refcount b" "ncol g (OB h) = snd (o_buffered b)"
    using assms by simp_all
  ultimately show ?thesis by (auto simp: walked_def fun_eq_iff)
qed

subsection \<open>The bodies of the walks that mark grey and black\<close>

interpretation gc: refgraph "nkids getter g0" for getter g0 .

text \<open>What both bodies do once they have painted the zval.\<close>

definition object_step :: "uint \<Rightarrow> gc_color \<Rightarrow> nat \<Rightarrow> get_properties \<Rightarrow> gc_state \<Rightarrow> (addr list \<times> gc_state) option" where
  "object_step w c h get_props g = do {
     g \<leftarrow> upd_obj h (\<lambda>b. b\<lparr>o_refcount := o_refcount b + w\<rparr>) g;
     obj \<leftarrow> get_obj h g;
     (if snd (o_buffered obj) \<noteq> c then do {
        g \<leftarrow> GC_SET_COLOR h c g;
        xs \<leftarrow> object_elements h get_props g;
        Some (or_empty xs, g) }
      else Some ([], g)) }"

definition value_step :: "uint \<Rightarrow> gc_color \<Rightarrow> zvalue \<Rightarrow> gc_state \<Rightarrow> (addr list \<times> gc_state) option" where
  "value_step w c v g = (case v of
       IS_OBJECT h get_props \<Rightarrow> (if object_buckets g = None then Some ([], g) else object_step w c h get_props g)
     | IS_ARRAY ht \<Rightarrow> do { xs \<leftarrow> tables g ht; Some (xs, g) }
     | Scalar \<Rightarrow> Some ([], g))"

lemma wf_elements:
  assumes "wf_heap getter g0" "shape g = shape g0" "get_obj h g0 \<noteq> None"
  shows "\<exists>xs. object_elements h (getter h) g = Some (Some xs) \<and> set xs \<subseteq> dom (zvals g0) \<and>
    elem g0 xs = nkids getter g0 (OB h)"
  using assms shape_object_elements [OF assms(2)] by (fastforce simp: wf_heap_def wf_object_def)

lemma object_step_ok:
  assumes "wf_heap getter g0" "shape g = shape g0" "get_obj h g0 \<noteq> None"
  shows "\<exists>ks g2 L. object_step w c h (getter h) g = Some (ks, g2) \<and> set ks \<subseteq> dom (zvals g0) \<and> walked c w {#OB h#} L g g2 \<and>
    (if ncol g (OB h) = c then L = [] \<and> ks = [] else L = [OB h] \<and> elem g0 ks = nkids getter g0 (OB h))"
proof -
  obtain b where b: "get_obj h g = Some b" using assms(3) shape_get_obj [OF assms(2), of h] by auto
  obtain g1 where g1: "upd_obj h (\<lambda>b. b\<lparr>o_refcount := o_refcount b + w\<rparr>) g = Some g1" "walked c w {#OB h#} [] g g1"
    "get_obj h g1 = Some (b\<lparr>o_refcount := o_refcount b + w\<rparr>)"
    using walked_obj_count [OF b] by blast
  show ?thesis
  proof (cases "snd (o_buffered b) = c")
    case True
    then show ?thesis using g1 b by (auto simp: object_step_def)
  next
    case False
    obtain g2 where g2: "GC_SET_COLOR h c g1 = Some g2" "walked c w {#} [OB h] g1 g2"
      using walked_obj_color [OF g1(3)] by blast
    have w: "walked c w {#OB h#} [OB h] g g2" using walked_trans [OF g1(2) g2(2)] by simp
    then have "shape g2 = shape g0" using assms(2) by (simp add: walked_def)
    then obtain xs where "object_elements h (getter h) g2 = Some (Some xs)" "set xs \<subseteq> dom (zvals g0)"
      "elem g0 xs = nkids getter g0 (OB h)" using wf_elements [OF assms(1) _ assms(3)] by blast
    then show ?thesis using g1 g2 w b False by (auto simp: object_step_def or_empty_def)
  qed
qed

lemma value_step_ok:
  assumes wf: "wf_heap getter g0" "shape g = shape g0" and a: "zvals g0 a = Some z" "\<not> sym g0 a"
  shows "\<exists>ks g2 E L. value_step w c (zvalue z) g = Some (ks, g2) \<and> set ks \<subseteq> dom (zvals g0) \<and> walked c w E L g g2 \<and>
    E + mset (elem g0 ks) = mset (nkids getter g0 (ZV a)) + mset (concat (map (nkids getter g0) L)) \<and>
    set L \<subseteq> {n \<in> nodes g0. ncol g n \<noteq> c} - {ZV a} \<and>
    (\<forall>A L2. ZV a \<in> A \<longrightarrow> (\<forall>h. OB h \<in> A \<longleftrightarrow> OB h \<in> nodes g0 \<and> ncol g (OB h) \<noteq> c) \<longrightarrow>
       gc.visited getter g0 (elem g0 ks) (A - set (ZV a # L)) L2 \<longrightarrow> gc.visited getter g0 [ZV a] A (ZV a # L @ L2))"
proof -
  have "pred_option (wf_value getter g0) (map_option zvalue (zvals g0 a))" using wf(1) unfolding wf_heap_def by blast
  then have v: "wf_value getter g0 (zvalue z)" using a(1) by simp
  have plain: ?thesis if ks: "value_step w c (zvalue z) g = Some (ks, g)" "set ks \<subseteq> dom (zvals g0)"
    "nkids getter g0 (ZV a) = elem g0 ks" for ks
  proof (intro exI [of _ ks] exI [of _ g] exI [of _ "{#}"] exI [of _ "[]"] conjI allI impI)
    fix A L2 assume "ZV a \<in> A" "gc.visited getter g0 (elem g0 ks) (A - set [ZV a]) L2"
    then show "gc.visited getter g0 [ZV a] A (ZV a # [] @ L2)" using gc.visited_enter ks(3) by simp
  qed (use ks walked_refl in simp_all)
  show ?thesis
  proof (cases "zvalue z")
    case Scalar
    then show ?thesis using a by (intro plain [of "[]"]) (simp_all add: value_step_def elem_def)
  next
    case (IS_ARRAY ht)
    then obtain xs where xs: "tables g0 ht = Some xs" "set xs \<subseteq> dom (zvals g0)" using v by (auto simp: wf_value_def)
    have "tables g ht = Some xs" using xs(1) shape_fields(2) [OF wf(2)] by simp
    then show ?thesis using a xs IS_ARRAY by (intro plain [of xs]) (simp_all add: value_step_def or_empty_def)
  next
    case (IS_OBJECT h hs)
    show ?thesis
    proof (cases "object_buckets g0 = None")
      case True
      then show ?thesis using a IS_OBJECT shape_fields(5) [OF wf(2)]
        by (intro plain [of "[]"]) (simp_all add: value_step_def elem_def)
    next
      case False
      then have h: "get_obj h g0 \<noteq> None" "hs = getter h" using v IS_OBJECT by (auto simp: wf_value_def)
      have kids: "nkids getter g0 (ZV a) = [OB h]" using a IS_OBJECT False by simp
      have node: "OB h \<in> nodes g0" using h(1) by (simp add: nodes_def)
      obtain ks g2 L where s: "object_step w c h (getter h) g = Some (ks, g2)" "set ks \<subseteq> dom (zvals g0)"
        "walked c w {#OB h#} L g g2"
        "if ncol g (OB h) = c then L = [] \<and> ks = [] else L = [OB h] \<and> elem g0 ks = nkids getter g0 (OB h)"
        using object_step_ok [OF wf h(1)] by blast
      have step: "value_step w c (zvalue z) g = Some (ks, g2)"
        using IS_OBJECT False shape_fields(5) [OF wf(2)] s(1) h(2) by (simp add: value_step_def del: not_None_eq)
      have v2: "gc.visited getter g0 [ZV a] A (ZV a # L @ L2)"
        if A: "ZV a \<in> A" "\<forall>h. OB h \<in> A \<longleftrightarrow> OB h \<in> nodes g0 \<and> ncol g (OB h) \<noteq> c"
          and k: "gc.visited getter g0 (elem g0 ks) (A - set (ZV a # L)) L2" for A L2
      proof (rule gc.visited_enter [OF A(1)], unfold kids)
        show "gc.visited getter g0 [OB h] (A - {ZV a}) (L @ L2)"
        proof (cases "ncol g (OB h) = c")
          case True
          then have "OB h \<notin> A - {ZV a}" "L = []" "ks = []" using s(4) A(2) by simp_all
          then show ?thesis using k gc.visited_pass by (simp add: elem_def)
        next
          case False
          then have L: "L = [OB h]" "elem g0 ks = nkids getter g0 (OB h)" using s(4) by (simp_all split: if_splits)
          have "OB h \<in> A - {ZV a}" using False A(2) node by blast
          moreover have "gc.visited getter g0 (nkids getter g0 (OB h)) (A - {ZV a} - {OB h}) L2"
            using k unfolding L by (simp only: set_simps Diff_insert [symmetric] insert_commute)
          ultimately show ?thesis unfolding L append_Cons append_Nil by (rule gc.visited_enter)
        qed
      qed
      have "{#OB h#} + mset (elem g0 ks) = mset (nkids getter g0 (ZV a)) + mset (concat (map (nkids getter g0) L))"
        using s(4) kids by (cases "ncol g (OB h) = c") (simp_all add: elem_def)
      moreover have "set L \<subseteq> {n \<in> nodes g0. ncol g n \<noteq> c} - {ZV a}"
        using s(4) node by (cases "ncol g (OB h) = c") simp_all
      ultimately show ?thesis using step s(2,3) v2
        by (intro exI [of _ ks] exI [of _ g2] exI [of _ "{#OB h#}"] exI [of _ L] conjI allI impI) assumption+
    qed
  qed
qed

lemma paint_body:
  assumes wf: "wf_heap getter g0" "shape g = shape g0" and a: "a \<in> dom (zvals g0)"
    and plain: "\<And>z. \<lbrakk>zvals g a = Some z; \<not> sym g0 a\<rbrakk> \<Longrightarrow>
      body a g = (if ncol g (ZV a) = c then Some ([], g)
        else do { g \<leftarrow> GC_ZVAL_SET_COLOR a c g; value_step w c (zvalue z) g })"
    and symbol: "\<And>z. \<lbrakk>zvals g a = Some z; sym g0 a\<rbrakk> \<Longrightarrow> \<exists>g'. body a g = Some ([], g') \<and> walked c w {#} [] g g'"
  shows "\<exists>g2 ks E L. body a g = Some (ks, g2) \<and> set ks \<subseteq> dom (zvals g0) \<and>
    walked c w E L g g2 \<and> (L = [] \<longrightarrow> ks = []) \<and>
    E + mset (elem g0 ks) = mset (concat (map (nkids getter g0) L)) \<and>
    set L \<subseteq> {n \<in> nodes g0. ncol g n \<noteq> c} \<and>
    (\<forall>L2. gc.visited getter g0 (elem g0 ks) ({n \<in> nodes g0. ncol g n \<noteq> c} - set L) L2 \<longrightarrow>
       gc.visited getter g0 (elem g0 [a]) {n \<in> nodes g0. ncol g n \<noteq> c} (L @ L2))"
proof -
  obtain z where z: "zvals g a = Some z" using a shape_dom [OF wf(2)] by blast
  let ?A = "{n \<in> nodes g0. ncol g n \<noteq> c}"
  have nil: "elem g0 [] = []" by (simp add: elem_def)
  show ?thesis
  proof (cases "sym g0 a")
    case True
    obtain g2 where g2: "body a g = Some ([], g2)" "walked c w {#} [] g g2" using symbol [OF z True] by blast
    have e: "elem g0 [a] = []" using True by (simp add: elem_def)
    show ?thesis using g2 e nil
      by (intro exI [of _ g2] exI [of _ "[]"] exI [of _ "{#}"]) simp
  next
    case False
    have e: "elem g0 [a] = [ZV a]" using False by (simp add: elem_def)
    have node: "ZV a \<in> nodes g0" using a False by (simp add: nodes_def)
    show ?thesis
    proof (cases "ncol g (ZV a) = c")
      case True
      then have "body a g = Some ([], g)" using plain [OF z False] by simp
      moreover have "gc.visited getter g0 [ZV a] ?A L2" if "gc.visited getter g0 [] ?A L2" for L2
        using gc.visited_pass that True by simp
      ultimately show ?thesis using e nil walked_refl [of c w g]
        by (intro exI [of _ g] exI [of _ "[]"] exI [of _ "{#}"]) simp
    next
      case no: False
      have ns: "\<not> sym g a" using False shape_sym [OF wf(2)] by simp
      obtain g2 where g2: "GC_ZVAL_SET_COLOR a c g = Some g2" "walked c w {#} (elem g [a]) g g2"
        using walked_zval_color [OF z, of c w] ns by blast
      have w2: "walked c w {#} [ZV a] g g2" using g2(2) unfolding shape_elem [OF wf(2)] e .
      have s2: "shape g2 = shape g0" using w2 wf(2) by (simp add: walked_def)
      obtain z0 where z0: "zvals g0 a = Some z0" using a by blast
      have val: "zvalue z = zvalue z0" using shape_fields(1) [OF wf(2), of a] z z0 by simp
      obtain ks g3 E L where v: "value_step w c (zvalue z0) g2 = Some (ks, g3)" "set ks \<subseteq> dom (zvals g0)"
        "walked c w E L g2 g3"
        "E + mset (elem g0 ks) = mset (nkids getter g0 (ZV a)) + mset (concat (map (nkids getter g0) L))"
        "set L \<subseteq> {n \<in> nodes g0. ncol g2 n \<noteq> c} - {ZV a}"
        "\<forall>A L2. ZV a \<in> A \<longrightarrow> (\<forall>h. OB h \<in> A \<longleftrightarrow> OB h \<in> nodes g0 \<and> ncol g2 (OB h) \<noteq> c) \<longrightarrow>
          gc.visited getter g0 (elem g0 ks) (A - set (ZV a # L)) L2 \<longrightarrow> gc.visited getter g0 [ZV a] A (ZV a # L @ L2)"
        using value_step_ok [OF wf(1) s2 z0 False, of w c] by (elim exE conjE) (rule that; assumption)
      have col2: "ncol g2 n = (if n = ZV a then c else ncol g n)" for n using w2 by (simp add: walked_def)
      have "body a g = Some (ks, g3)" using plain [OF z False] no g2(1) v(1) val by simp
      moreover have "walked c w E (ZV a # L) g g3" using walked_trans [OF w2 v(3)] by simp
      moreover have "E + mset (elem g0 ks) = mset (concat (map (nkids getter g0) (ZV a # L)))"
        using v(4) by simp
      moreover have "set (ZV a # L) \<subseteq> ?A" using v(5) node no col2 by (auto split: if_splits)
      moreover have "\<forall>L2. gc.visited getter g0 (elem g0 ks) (?A - set (ZV a # L)) L2 \<longrightarrow>
          gc.visited getter g0 (elem g0 [a]) ?A ((ZV a # L) @ L2)"
        using v(6) [rule_format, of ?A] node no col2 e by (simp del: ncol.simps)
      ultimately show ?thesis using v(2) by blast
    qed
  qed
qed

text \<open>The same with the reference counted that led to the zval.\<close>

lemma paint_step:
  assumes wf: "wf_heap getter g0" "shape g = shape g0" and a: "a \<in> dom (zvals g0)"
    and body: "\<And>g. shape g = shape g0 \<Longrightarrow> \<exists>g2 ks E L. body a g = Some (ks, g2) \<and> set ks \<subseteq> dom (zvals g0) \<and>
      walked c w E L g g2 \<and> (L = [] \<longrightarrow> ks = []) \<and>
      E + mset (elem g0 ks) = mset (concat (map (nkids getter g0) L)) \<and>
      set L \<subseteq> {n \<in> nodes g0. ncol g n \<noteq> c} \<and>
      (\<forall>L2. gc.visited getter g0 (elem g0 ks) ({n \<in> nodes g0. ncol g n \<noteq> c} - set L) L2 \<longrightarrow>
         gc.visited getter g0 (elem g0 [a]) {n \<in> nodes g0. ncol g n \<noteq> c} (L @ L2))"
  shows "\<exists>g1 g2 ks E L. add_refcount w a g = Some g1 \<and> body a g1 = Some (ks, g2) \<and> set ks \<subseteq> dom (zvals g0) \<and>
    walked c w E L g g2 \<and> (L = [] \<longrightarrow> ks = []) \<and>
    E + mset (elem g0 ks) = mset (elem g0 [a]) + mset (concat (map (nkids getter g0) L)) \<and>
    set L \<subseteq> {n \<in> nodes g0. ncol g n \<noteq> c} \<and>
    (\<forall>L2. gc.visited getter g0 (elem g0 ks) ({n \<in> nodes g0. ncol g n \<noteq> c} - set L) L2 \<longrightarrow>
       gc.visited getter g0 (elem g0 [a]) {n \<in> nodes g0. ncol g n \<noteq> c} (L @ L2))"
proof -
  obtain z where z: "zvals g a = Some z" using a shape_dom [OF wf(2)] by blast
  obtain g1 where g1: "add_refcount w a g = Some g1" "walked c w (mset (elem g [a])) [] g g1"
    using walked_zval_count [OF z] by blast
  have w1: "walked c w (mset (elem g0 [a])) [] g g1" using g1(2) unfolding shape_elem [OF wf(2)] .
  have s1: "shape g1 = shape g0" and col1: "ncol g1 = ncol g" using w1 wf(2) by (simp_all add: walked_def)
  obtain g2 ks E L where b: "body a g1 = Some (ks, g2)" "set ks \<subseteq> dom (zvals g0)" "walked c w E L g1 g2"
    "L = [] \<longrightarrow> ks = []" "E + mset (elem g0 ks) = mset (concat (map (nkids getter g0) L))"
    "set L \<subseteq> {n \<in> nodes g0. ncol g n \<noteq> c}"
    "\<forall>L2. gc.visited getter g0 (elem g0 ks) ({n \<in> nodes g0. ncol g n \<noteq> c} - set L) L2 \<longrightarrow>
       gc.visited getter g0 (elem g0 [a]) {n \<in> nodes g0. ncol g n \<noteq> c} (L @ L2)"
    using body [OF s1] unfolding col1 by (elim exE conjE) (rule that; assumption)
  have "walked c w (mset (elem g0 [a]) + E) L g g2" using walked_trans [OF w1 b(3)] by simp
  moreover have "mset (elem g0 [a]) + E + mset (elem g0 ks) = mset (elem g0 [a]) + mset (concat (map (nkids getter g0) L))"
    using b(5) by (simp only: add.assoc)
  ultimately show ?thesis using g1(1) b(1,2,4,6,7) by blast
qed

lemma not_symbol:
  assumes "shape g = shape g0" "zvals g a = Some z" "\<not> sym g0 a"
  shows "\<not> sym g a" "zvalue z \<noteq> IS_ARRAY (symbol_table g)"
proof -
  show "\<not> sym g a" using shape_sym [OF assms(1), of a] assms(3) by simp
  then show "zvalue z \<noteq> IS_ARRAY (symbol_table g)" using assms(2) by (simp add: sym_def is_symbol_table_def)
qed

lemma mark_grey_body_eq:
  assumes "shape g = shape g0" "zvals g a = Some z" "\<not> sym g0 a"
  shows "mark_grey_body a g = (if ncol g (ZV a) = GC_GREY then Some ([], g)
    else do { g \<leftarrow> GC_ZVAL_SET_COLOR a GC_GREY g; value_step (- 1) GC_GREY (zvalue z) g })"
proof -
  note n = not_symbol [OF assms]
  obtain g1 where g1: "GC_ZVAL_SET_COLOR a GC_GREY g = Some g1" "walked GC_GREY 1 {#} (elem g [a]) g g1"
    using walked_zval_color [OF assms(2), of GC_GREY] n(1) by blast
  then have "symbol_table g1 = symbol_table g" by (simp add: walked_def shape_def)
  then show ?thesis using assms(2) n g1(1)
    by (auto simp: mark_grey_body_def value_step_def object_step_def split: zvalue.split)
qed

lemma scan_black_element_eq:
  assumes "shape g = shape g0" "zvals g a = Some z" "\<not> sym g0 a"
  shows "scan_black_element a g = (if ncol g (ZV a) = GC_BLACK then Some ([], g)
    else do { g \<leftarrow> GC_ZVAL_SET_COLOR a GC_BLACK g; value_step 1 GC_BLACK (zvalue z) g })"
proof -
  note n = not_symbol [OF assms]
  obtain g1 where g1: "GC_ZVAL_SET_COLOR a GC_BLACK g = Some g1" "walked GC_BLACK 1 {#} (elem g [a]) g g1"
    "zvals g1 a = Some (z\<lparr>z_buffered := (fst (z_buffered z), GC_BLACK)\<rparr>)"
    using walked_zval_color [OF assms(2), of GC_BLACK] by blast
  then have "symbol_table g1 = symbol_table g" by (simp add: walked_def shape_def)
  then show ?thesis using assms(2) n g1(1,3)
    by (auto simp: scan_black_element_def scan_black_body_def value_step_def object_step_def split: zvalue.split)
qed

end
