(* ===== verification/ZendGcPhases.thy ===== *)
theory ZendGcPhases
  imports ZendGcSteps
begin

text \<open>
  The recursive walks of the collector from one value: marking grey and black, and the scan.
\<close>

subsection \<open>Grey and black\<close>

lemma finite_nodes: "wf_heap getter g \<Longrightarrow> finite (nodes g)"
proof -
  assume wf: "wf_heap getter g"
  have "{h. get_obj h g \<noteq> None} \<subseteq> {..<length (the (object_buckets g))}"
    by (auto simp: get_obj_def split: option.splits if_splits)
  then have "finite {h. get_obj h g \<noteq> None}" using finite_subset by blast
  then show ?thesis using wf by (simp add: nodes_def wf_heap_def)
qed

lemma elem_append: "elem g (xs @ ys) = elem g xs @ elem g ys"
  by (simp add: elem_def)

lemma mark_body_ok:
  assumes "wf_heap getter g0" "shape g = shape g0" "a \<in> dom (zvals g0)"
  shows "\<exists>g2 ks E L. mark_grey_body a g = Some (ks, g2) \<and> set ks \<subseteq> dom (zvals g0) \<and>
    walked GC_GREY (- 1) E L g g2 \<and> (L = [] \<longrightarrow> ks = []) \<and>
    E + mset (elem g0 ks) = mset (concat (map (nkids getter g0) L)) \<and> set L \<subseteq> {n \<in> nodes g0. ncol g n \<noteq> GC_GREY} \<and>
    (\<forall>L2. gc.visited getter g0 (elem g0 ks) ({n \<in> nodes g0. ncol g n \<noteq> GC_GREY} - set L) L2 \<longrightarrow>
       gc.visited getter g0 (elem g0 [a]) {n \<in> nodes g0. ncol g n \<noteq> GC_GREY} (L @ L2))"
proof (rule paint_body [OF assms])
  fix z assume z: "zvals g a = Some z" "sym g0 a"
  then have s: "sym g a" "zvalue z = IS_ARRAY (symbol_table g)"
    using shape_sym [OF assms(2), of a] by (simp_all add: sym_def is_symbol_table_def)
  show "\<exists>g'. mark_grey_body a g = Some ([], g') \<and> walked GC_GREY (- 1) {#} [] g g'"
  proof (cases "snd (z_buffered z) = GC_GREY")
    case True
    then show ?thesis using z(1) walked_refl by (simp add: mark_grey_body_def)
  next
    case False
    let ?f = "\<lambda>c z. z\<lparr>z_buffered := (fst (z_buffered z), c)\<rparr>"
    let ?g1 = "g\<lparr>zvals := (zvals g)(a \<mapsto> ?f GC_GREY z)\<rparr>" and ?g2 = "g\<lparr>zvals := (zvals g)(a \<mapsto> ?f GC_BLACK z)\<rparr>"
    have "upd_zval a (?f GC_GREY) g = Some ?g1" "upd_zval a (?f GC_BLACK) ?g1 = Some ?g2"
      using z(1) by (simp_all add: upd_zval_def)
    then have "mark_grey_body a g = Some ([], ?g2)"
      using z(1) False s(2) by (simp add: mark_grey_body_def GC_ZVAL_SET_COLOR_def)
    moreover have "naddr g (ZV a) = fst (z_buffered z)" "nrc g (ZV a) = refcount__gc z" using z(1) by simp_all
    then have "walked GC_GREY (- 1) {#} [] g ?g2"
      using upd_zval_ok [where f = "?f GC_BLACK", OF z(1)] s(1) by (auto simp: walked_def fun_eq_iff)
    ultimately show ?thesis by blast
  qed
qed (use mark_grey_body_eq [OF assms(2)] in blast)

lemma black_element_ok:
  assumes "wf_heap getter g0" "shape g = shape g0" "a \<in> dom (zvals g0)"
  shows "\<exists>g2 ks E L. scan_black_element a g = Some (ks, g2) \<and> set ks \<subseteq> dom (zvals g0) \<and>
    walked GC_BLACK 1 E L g g2 \<and> (L = [] \<longrightarrow> ks = []) \<and>
    E + mset (elem g0 ks) = mset (concat (map (nkids getter g0) L)) \<and> set L \<subseteq> {n \<in> nodes g0. ncol g n \<noteq> GC_BLACK} \<and>
    (\<forall>L2. gc.visited getter g0 (elem g0 ks) ({n \<in> nodes g0. ncol g n \<noteq> GC_BLACK} - set L) L2 \<longrightarrow>
       gc.visited getter g0 (elem g0 [a]) {n \<in> nodes g0. ncol g n \<noteq> GC_BLACK} (L @ L2))"
proof (rule paint_body [OF assms])
  fix z assume z: "zvals g a = Some z" "sym g0 a"
  then have s: "sym g a" "zvalue z = IS_ARRAY (symbol_table g)"
    using shape_sym [OF assms(2), of a] by (simp_all add: sym_def is_symbol_table_def)
  obtain g1 where g1: "GC_ZVAL_SET_COLOR a GC_BLACK g = Some g1" "walked GC_BLACK 1 {#} (elem g [a]) g g1"
    "zvals g1 a = Some (z\<lparr>z_buffered := (fst (z_buffered z), GC_BLACK)\<rparr>)"
    using walked_zval_color [OF z(1), of GC_BLACK] by blast
  then have "symbol_table g1 = symbol_table g" using shape_fields(3) [OF walked_shape [OF g1(2)]] by simp
  moreover have "walked GC_BLACK 1 {#} [] g g1" using g1(2) s(1) by (simp add: elem_def)
  ultimately show "\<exists>g'. scan_black_element a g = Some ([], g') \<and> walked GC_BLACK 1 {#} [] g g'"
    using z(1) s(2) g1(1,3) walked_refl [of GC_BLACK 1 g]
    by (simp add: scan_black_element_def scan_black_body_def)
qed (use scan_black_element_eq [OF assms(2)] in blast)

lemma walked_nodes:
  "\<lbrakk>walked c w E L g g'; shape g = shape g0\<rbrakk> \<Longrightarrow> {n \<in> nodes g0. ncol g' n \<noteq> c} = {n \<in> nodes g0. ncol g n \<noteq> c} - set L"
  by (auto simp: walked_def)

interpretation mark: element_walk "nkids getter g0" "elem g0" "add_refcount (- 1)" mark_grey_body "dom (zvals g0)"
    "\<lambda>g. wf_heap getter g0 \<and> shape g = shape g0" "\<lambda>g. {n \<in> nodes g0. ncol g n \<noteq> GC_GREY}" "walked GC_GREY (- 1)"
  for getter g0
proof (unfold_locales, goal_cases)
  case (7 g a)
  note wf = conjunct1 [OF 7(1)] and sh = conjunct2 [OF 7(1)]
  show ?case by (rule paint_step [OF wf sh 7(2)], rule mark_body_ok [OF wf _ 7(2)])
qed (use walked_refl walked_trans walked_shape walked_nodes finite_nodes elem_append in auto)

interpretation black: element_walk "nkids getter g0" "elem g0" "add_refcount 1" scan_black_element "dom (zvals g0)"
    "\<lambda>g. wf_heap getter g0 \<and> shape g = shape g0" "\<lambda>g. {n \<in> nodes g0. ncol g n \<noteq> GC_BLACK}" "walked GC_BLACK 1"
  for getter g0
proof (unfold_locales, goal_cases)
  case (7 g a)
  note wf = conjunct1 [OF 7(1)] and sh = conjunct2 [OF 7(1)]
  show ?case by (rule paint_step [OF wf sh 7(2)], rule black_element_ok [OF wf _ 7(2)])
qed (use walked_refl walked_trans walked_shape walked_nodes finite_nodes elem_append in auto)

subsection \<open>The walks from one zval or object\<close>

text \<open>What a walk does: it counts the references that the entered nodes hold.\<close>

definition painted :: "(nat \<Rightarrow> get_properties) \<Rightarrow> gc_state \<Rightarrow> gc_color \<Rightarrow> uint \<Rightarrow> node list \<Rightarrow> gc_state \<Rightarrow> gc_state \<Rightarrow> node list \<Rightarrow> bool" where
  "painted getter g0 c w T g g' L \<longleftrightarrow> walked c w (mset (concat (map (nkids getter g0) L))) L g g' \<and>
     gc.visited getter g0 T {n \<in> nodes g0. ncol g n \<noteq> c} L"

lemma zval_mark_grey_ok:
  assumes "wf_heap getter g0" "shape g = shape g0" "a \<in> dom (zvals g0)"
  shows "\<exists>g' L. zval_mark_grey a g = Some g' \<and> painted getter g0 GC_GREY (- 1) (elem g0 [a]) g g' L"
proof -
  obtain g2 ks E L where b: "mark_grey_body a g = Some (ks, g2)" "set ks \<subseteq> dom (zvals g0)" "walked GC_GREY (- 1) E L g g2"
    "E + mset (elem g0 ks) = mset (concat (map (nkids getter g0) L))" "set L \<subseteq> {n \<in> nodes g0. ncol g n \<noteq> GC_GREY}"
    "\<forall>L2. gc.visited getter g0 (elem g0 ks) ({n \<in> nodes g0. ncol g n \<noteq> GC_GREY} - set L) L2 \<longrightarrow>
       gc.visited getter g0 (elem g0 [a]) {n \<in> nodes g0. ncol g n \<noteq> GC_GREY} (L @ L2)"
    using mark_body_ok [OF assms] by blast
  show ?thesis
    using mark.visit_rest [OF conjI [OF assms(1,2)] b(3,5,2,4,6)] b(1) by (auto simp: zval_mark_grey_def painted_def)
qed

lemma zval_scan_black_ok:
  assumes "wf_heap getter g0" "shape g = shape g0" "a \<in> dom (zvals g0)" "ncol g (ZV a) \<noteq> GC_BLACK"
  shows "\<exists>g' L. zval_scan_black a g = Some g' \<and> painted getter g0 GC_BLACK 1 (elem g0 [a]) g g' L"
proof -
  obtain g2 ks E L where b: "scan_black_element a g = Some (ks, g2)" "set ks \<subseteq> dom (zvals g0)" "walked GC_BLACK 1 E L g g2"
    "E + mset (elem g0 ks) = mset (concat (map (nkids getter g0) L))" "set L \<subseteq> {n \<in> nodes g0. ncol g n \<noteq> GC_BLACK}"
    "\<forall>L2. gc.visited getter g0 (elem g0 ks) ({n \<in> nodes g0. ncol g n \<noteq> GC_BLACK} - set L) L2 \<longrightarrow>
       gc.visited getter g0 (elem g0 [a]) {n \<in> nodes g0. ncol g n \<noteq> GC_BLACK} (L @ L2)"
    using black_element_ok [OF assms(1-3)] by blast
  have "scan_black_body a g = scan_black_element a g"
    using assms(4) by (auto simp: scan_black_element_def scan_black_body_def split: option.splits if_splits)
  then show ?thesis
    using black.visit_rest [OF conjI [OF assms(1,2)] b(3,5,2,4,6)] b(1) by (auto simp: zval_scan_black_def painted_def)
qed

text \<open>An object is painted and its elements are gone through.\<close>

lemma object_start:
  assumes "wf_heap getter g0" "shape g = shape g0" "get_obj h g0 \<noteq> None" "ncol g (OB h) \<noteq> c"
  shows "\<exists>g2 xs. GC_SET_COLOR h c g = Some g2 \<and> object_elements h (getter h) g2 = Some (Some xs) \<and>
    set xs \<subseteq> dom (zvals g0) \<and> walked c w {#} [OB h] g g2 \<and> set [OB h] \<subseteq> {n \<in> nodes g0. ncol g n \<noteq> c} \<and>
    {#} + mset (elem g0 xs) = mset (concat (map (nkids getter g0) [OB h])) \<and>
    (\<forall>L2. gc.visited getter g0 (elem g0 xs) ({n \<in> nodes g0. ncol g n \<noteq> c} - set [OB h]) L2 \<longrightarrow>
       gc.visited getter g0 [OB h] {n \<in> nodes g0. ncol g n \<noteq> c} ([OB h] @ L2))"
proof -
  obtain b where b: "get_obj h g = Some b" using assms(3) shape_get_obj [OF assms(2), of h] by auto
  obtain g2 where g2: "GC_SET_COLOR h c g = Some g2" "walked c w {#} [OB h] g g2" using walked_obj_color [OF b] by blast
  have "shape g2 = shape g0" using walked_shape [OF g2(2)] assms(2) by simp
  then obtain xs where xs: "object_elements h (getter h) g2 = Some (Some xs)" "set xs \<subseteq> dom (zvals g0)"
    "elem g0 xs = nkids getter g0 (OB h)" using wf_elements [OF assms(1) _ assms(3)] by blast
  have "OB h \<in> {n \<in> nodes g0. ncol g n \<noteq> c}" using assms(3,4) by (simp add: nodes_def)
  then show ?thesis using g2 xs gc.visited_enter
    by (intro exI [of _ g2] exI [of _ xs]) (simp del: nkids.simps ncol.simps)
qed

lemma zobj_mark_grey_ok:
  assumes "wf_heap getter g0" "shape g = shape g0" "get_obj h g0 \<noteq> None"
  shows "\<exists>g' L. zobj_mark_grey h (getter h) g = Some g' \<and> painted getter g0 GC_GREY (- 1) [OB h] g g' L"
proof -
  obtain b where b: "get_obj h g = Some b" using assms(3) shape_get_obj [OF assms(2), of h] by auto
  show ?thesis
  proof (cases "ncol g (OB h) = GC_GREY")
    case True
    then show ?thesis using b walked_refl gc.visited_skip
      by (intro exI [of _ g] exI [of _ "[]"]) (simp add: zobj_mark_grey_def painted_def)
  next
    case False
    obtain g2 xs where g2: "GC_SET_COLOR h GC_GREY g = Some g2" "object_elements h (getter h) g2 = Some (Some xs)"
      "set xs \<subseteq> dom (zvals g0)" "walked GC_GREY (- 1) {#} [OB h] g g2"
      "set [OB h] \<subseteq> {n \<in> nodes g0. ncol g n \<noteq> GC_GREY}"
      "{#} + mset (elem g0 xs) = mset (concat (map (nkids getter g0) [OB h]))"
      "\<forall>L2. gc.visited getter g0 (elem g0 xs) ({n \<in> nodes g0. ncol g n \<noteq> GC_GREY} - set [OB h]) L2 \<longrightarrow>
         gc.visited getter g0 [OB h] {n \<in> nodes g0. ncol g n \<noteq> GC_GREY} ([OB h] @ L2)"
      using object_start [OF assms False, of "- 1"] by (elim exE conjE) (rule that; assumption)
    show ?thesis
      using mark.visit_rest [OF conjI [OF assms(1,2)] g2(4,5,3,6,7)] g2(1,2) b False
      by (auto simp: zobj_mark_grey_def painted_def or_empty_def)
  qed
qed

lemma zobj_scan_black_ok:
  assumes "wf_heap getter g0" "shape g = shape g0" "get_obj h g0 \<noteq> None" "ncol g (OB h) \<noteq> GC_BLACK"
  shows "\<exists>g' L. zobj_scan_black h (getter h) g = Some g' \<and> painted getter g0 GC_BLACK 1 [OB h] g g' L"
proof -
  obtain g2 xs where g2: "GC_SET_COLOR h GC_BLACK g = Some g2" "object_elements h (getter h) g2 = Some (Some xs)"
    "set xs \<subseteq> dom (zvals g0)" "walked GC_BLACK 1 {#} [OB h] g g2"
    "set [OB h] \<subseteq> {n \<in> nodes g0. ncol g n \<noteq> GC_BLACK}"
    "{#} + mset (elem g0 xs) = mset (concat (map (nkids getter g0) [OB h]))"
    "\<forall>L2. gc.visited getter g0 (elem g0 xs) ({n \<in> nodes g0. ncol g n \<noteq> GC_BLACK} - set [OB h]) L2 \<longrightarrow>
       gc.visited getter g0 [OB h] {n \<in> nodes g0. ncol g n \<noteq> GC_BLACK} ([OB h] @ L2)"
    using object_start [OF assms, of 1] by (elim exE conjE) (rule that; assumption)
  show ?thesis
    using black.visit_rest [OF conjI [OF assms(1,2)] g2(4,5,3,6,7)] g2(1,2)
    by (auto simp: zobj_scan_black_def painted_def or_empty_def)
qed

end
