(* ===== verification/ZendGcScan.thy ===== *)
theory ZendGcScan
  imports ZendGcPhases
begin

text \<open>
  The scan from one value: the invariant of the graph theory holds through it, no value that was gone
  through stays grey, and the white values have no grey elements but those still to be gone through.
\<close>

text \<open>\<open>g0\<close> is the state after marking, \<open>M\<close> the marked nodes and \<open>rc0\<close> the counts before it.\<close>

definition scanning :: "(nat \<Rightarrow> get_properties) \<Rightarrow> gc_state \<Rightarrow> node set \<Rightarrow> (node \<Rightarrow> uint) \<Rightarrow> gc_state \<Rightarrow> bool" where
  "scanning getter g0 M rc0 g \<longleftrightarrow> wf_heap getter g0 \<and> M \<subseteq> nodes g0 \<and> gc.closed getter g0 M \<and>
     shape g = shape g0 \<and> other g = other g0 \<and> zval_to_free g = zval_to_free g0 \<and> naddr g = naddr g0 \<and>
     sym_safe g \<and> (\<forall>n. n \<notin> M \<longrightarrow> ncol g n = ncol g0 n) \<and> gc.scan_inv getter g0 M rc0 (ncol g) (nrc g)"

text \<open>\<open>T\<close> has been looked at, which leaves \<open>K\<close> to look at.\<close>

definition scanned :: "(nat \<Rightarrow> get_properties) \<Rightarrow> gc_state \<Rightarrow> node set \<Rightarrow> node list \<Rightarrow> node list \<Rightarrow> gc_state \<Rightarrow> gc_state \<Rightarrow> bool" where
  "scanned getter g0 M T K g g' \<longleftrightarrow> set K \<subseteq> M \<and>
     (\<forall>n. ncol g n \<noteq> GC_GREY \<longrightarrow> ncol g' n \<noteq> GC_GREY) \<and> (\<forall>n \<in> set T. ncol g' n \<noteq> GC_GREY) \<and>
     (\<forall>P. gc.settled getter g0 M (ncol g) (set T \<union> P) \<longrightarrow> gc.settled getter g0 M (ncol g') (set K \<union> P))"

definition fewer_grey :: "node set \<Rightarrow> gc_state \<Rightarrow> gc_state \<Rightarrow> bool" where
  "fewer_grey M g g' \<longleftrightarrow> (\<exists>n \<in> M. ncol g n = GC_GREY \<and> ncol g' n \<noteq> GC_GREY)"

lemma scanned_comp:
  assumes "scanned getter g0 M T K g g1" "scanned getter g0 M K K' g1 g2"
  shows "scanned getter g0 M T K' g g2"
  using assms unfolding scanned_def by blast

lemma scanned_append:
  assumes "scanned getter g0 M T1 [] g g1" "scanned getter g0 M T2 [] g1 g2"
  shows "scanned getter g0 M (T1 @ T2) [] g g2"
  unfolding scanned_def
proof (intro conjI allI impI ballI)
  fix P assume "gc.settled getter g0 M (ncol g) (set (T1 @ T2) \<union> P)"
  then have "gc.settled getter g0 M (ncol g) (set T1 \<union> (set T2 \<union> P))" by (simp add: Un_assoc)
  then have "gc.settled getter g0 M (ncol g1) (set [] \<union> (set T2 \<union> P))" using assms(1) unfolding scanned_def by blast
  then have "gc.settled getter g0 M (ncol g1) (set T2 \<union> P)" by simp
  then show "gc.settled getter g0 M (ncol g2) (set [] \<union> P)" using assms(2) unfolding scanned_def by blast
qed (use assms in \<open>auto simp: scanned_def\<close>)

lemma scanned_Nil: "scanned getter g0 M [] [] g g"
  by (simp add: scanned_def)

lemma scanned_skip: "(\<And>n. n \<in> set T \<Longrightarrow> ncol g n \<noteq> GC_GREY) \<Longrightarrow> scanned getter g0 M T [] g g"
  by (auto simp: scanned_def gc.settled_def)

text \<open>The part of the invariant that no step touches.\<close>

lemma scanning_walked:
  assumes "scanning getter g0 M rc0 g" "walked c w E L g g'" "set L \<subseteq> M"
    "gc.scan_inv getter g0 M rc0 (ncol g') (nrc g')"
  shows "scanning getter g0 M rc0 g'"
  using assms unfolding scanning_def walked_def by auto

lemma scanning_wf:
  assumes "scanning getter g0 M rc0 g"
  shows "wf_heap getter g0" "shape g = shape g0" "M \<subseteq> nodes g0" "gc.closed getter g0 M" "finite M"
    "gc.scan_inv getter g0 M rc0 (ncol g) (nrc g)"
  using assms finite_nodes [of getter g0] finite_subset [of M "nodes g0"] unfolding scanning_def by blast+

subsection \<open>The steps\<close>

text \<open>A grey node with references: everything it reaches becomes black.\<close>

lemma scan_black_step:
  assumes sc: "scanning getter g0 M rc0 g" and n: "n \<in> M" "ncol g n = GC_GREY" "nrc g n \<noteq> 0"
    and p: "painted getter g0 GC_BLACK 1 [n] g g' L"
  shows "scanning getter g0 M rc0 g'" "scanned getter g0 M [n] [] g g'"
proof -
  note wf = scanning_wf [OF sc]
  have w: "walked GC_BLACK 1 (mset (concat (map (nkids getter g0) L))) L g g'"
    and v: "gc.visited getter g0 [n] {n \<in> nodes g0. ncol g n \<noteq> GC_BLACK} L"
    using p by (simp_all add: painted_def)
  have L: "set L \<subseteq> gc.reach getter g0 {n}" "n \<in> set L"
    using v n(1,2) wf(3) unfolding gc.visited_def by auto
  then have LM: "set L \<subseteq> M" using gc.reach_least [of "{n}" M getter g0] n(1) wf(4) by blast
  have col: "ncol g' = (\<lambda>x. if x \<in> set L then GC_BLACK else ncol g x)"
    and rc: "nrc g' = (\<lambda>x. nrc g x + of_nat (count_list (concat (map (nkids getter g0) L)) x))"
    using w by (simp_all add: walked_def count_mset)
  have "gc.scan_inv getter g0 M rc0 (ncol g') (nrc g')"
    unfolding col rc by (rule gc.scan_black [OF wf(6,5,4) n _ v]) (use wf(3) in blast)
  then show "scanning getter g0 M rc0 g'" using scanning_walked [OF sc w LM] by blast
  show "scanned getter g0 M [n] [] g g'"
    unfolding scanned_def gc.settled_def col using L(2) by (auto split: if_splits)
qed

text \<open>A grey node without references becomes white, and its elements are to be looked at.\<close>

lemma scan_white_step:
  assumes sc: "scanning getter g0 M rc0 g" and n: "n \<in> M" "ncol g n = GC_GREY" "nrc g n = 0"
    and w: "walked GC_WHITE w {#} [n] g g'"
  shows "scanning getter g0 M rc0 g'" "scanned getter g0 M [n] (nkids getter g0 n) g g'"
    "fewer_grey M g g'"
proof -
  note wf = scanning_wf [OF sc]
  have col: "ncol g' = (ncol g)(n := GC_WHITE)" and rc: "nrc g' = nrc g"
    using w by (auto simp: walked_def)
  have "gc.scan_inv getter g0 M rc0 (ncol g') (nrc g')"
    unfolding col rc by (rule gc.scan_white [OF wf(6) n(2,3)])
  then show "scanning getter g0 M rc0 g'" using scanning_walked [OF sc w] n(1) by simp
  have "set (nkids getter g0 n) \<subseteq> M" using wf(4) n(1) unfolding gc.closed_def by blast
  then show "scanned getter g0 M [n] (nkids getter g0 n) g g'"
    unfolding scanned_def gc.settled_def col using n(1,2) by (auto split: if_splits)
  show "fewer_grey M g g'" using n(1,2) col by (auto simp: fewer_grey_def)
qed

text \<open>What \<open>scan_body\<close> and \<open>zobj_scan\<close> do with an object.\<close>

definition scan_object :: "nat \<Rightarrow> get_properties \<Rightarrow> gc_state \<Rightarrow> (addr list \<times> gc_state) option" where
  "scan_object h get_props g = do {
     obj \<leftarrow> get_obj h g;
     (if snd (o_buffered obj) = GC_GREY then
        (if o_refcount obj > 0 then do { g \<leftarrow> zobj_scan_black h get_props g; Some ([], g) }
         else do {
           g \<leftarrow> GC_SET_COLOR h GC_WHITE g;
           xs \<leftarrow> object_elements h get_props g;
           Some (or_empty xs, g) })
      else Some ([], g)) }"

lemma scan_object_ok:
  assumes sc: "scanning getter g0 M rc0 g" and h: "OB h \<in> M"
  shows "\<exists>ks g'. scan_object h (getter h) g = Some (ks, g') \<and> set ks \<subseteq> dom (zvals g0) \<and>
    scanning getter g0 M rc0 g' \<and> scanned getter g0 M [OB h] (elem g0 ks) g g' \<and>
    (ks = [] \<or> fewer_grey M g g')"
proof -
  note wf = scanning_wf [OF sc]
  have h0: "get_obj h g0 \<noteq> None" using h wf(3) by (auto simp: nodes_def)
  then obtain b where b: "get_obj h g = Some b" using shape_get_obj [OF wf(2), of h] by auto
  have nil: "elem g0 [] = []" by (simp add: elem_def)
  consider "snd (o_buffered b) \<noteq> GC_GREY" | "snd (o_buffered b) = GC_GREY" "o_refcount b > 0"
    | "snd (o_buffered b) = GC_GREY" "o_refcount b = 0"
    by (metis word_gt_0)
  then show ?thesis
  proof cases
    case 1
    then show ?thesis using b sc scanned_skip [of "[OB h]" g getter g0 M] nil by (simp add: scan_object_def)
  next
    case 2
    then have "ncol g (OB h) \<noteq> GC_BLACK" using b by simp
    then obtain g' L where p: "zobj_scan_black h (getter h) g = Some g'" "painted getter g0 GC_BLACK 1 [OB h] g g' L"
      using zobj_scan_black_ok [OF wf(1,2) h0] by blast
    show ?thesis using scan_black_step [OF sc h _ _ p(2)] 2 b p(1) nil by (simp add: scan_object_def)
  next
    case 3
    obtain g' where g': "GC_SET_COLOR h GC_WHITE g = Some g'" "walked GC_WHITE 1 {#} [OB h] g g'"
      using walked_obj_color [OF b, of GC_WHITE 1] by blast
    have s: "scanning getter g0 M rc0 g'" "scanned getter g0 M [OB h] (nkids getter g0 (OB h)) g g'" "fewer_grey M g g'"
      using scan_white_step [OF sc h _ _ g'(2)] 3 b by simp_all
    obtain xs where "object_elements h (getter h) g' = Some (Some xs)" "set xs \<subseteq> dom (zvals g0)"
      "elem g0 xs = nkids getter g0 (OB h)" using wf_elements [OF wf(1) scanning_wf(2) [OF s(1)] h0] by blast
    then show ?thesis using 3 b g'(1) s by (simp add: scan_object_def or_empty_def del: nkids.simps)
  qed
qed

lemma scan_body_ok:
  assumes sc: "scanning getter g0 M rc0 g" and a: "a \<in> dom (zvals g0)" "set (elem g0 [a]) \<subseteq> M"
  shows "\<exists>ks g'. scan_body a g = Some (ks, g') \<and> set ks \<subseteq> dom (zvals g0) \<and>
    scanning getter g0 M rc0 g' \<and> scanned getter g0 M (elem g0 [a]) (elem g0 ks) g g' \<and>
    (ks = [] \<or> fewer_grey M g g')"
proof -
  note wf = scanning_wf [OF sc]
  have nil: "elem g0 [] = []" by (simp add: elem_def)
  obtain z where z: "zvals g a = Some z" using a(1) shape_dom [OF wf(2)] by blast
  show ?thesis
  proof (cases "sym g0 a")
    case True
    then have "snd (z_buffered z) \<noteq> GC_GREY"
      using sc z shape_sym [OF wf(2), of a] unfolding scanning_def sym_safe_def by fastforce
    then show ?thesis using True z sc nil scanned_Nil by (simp add: scan_body_def elem_def)
  next
    case False
    then have e: "elem g0 [a] = [ZV a]" by (simp add: elem_def)
    have n: "ZV a \<in> M" using a(2) e by simp
    note ns = not_symbol [OF wf(2) z False]
    have col: "ncol g (ZV a) = snd (z_buffered z)" "nrc g (ZV a) = refcount__gc z" using z ns(1) by simp_all
    consider "snd (z_buffered z) \<noteq> GC_GREY" | "snd (z_buffered z) = GC_GREY" "refcount__gc z > 0"
      | "snd (z_buffered z) = GC_GREY" "refcount__gc z = 0"
      by (metis word_gt_0)
    then show ?thesis
    proof cases
      case 1
      then show ?thesis using z sc col nil scanned_skip [of "[ZV a]" g getter g0 M] e
        by (simp add: scan_body_def del: ncol.simps)
    next
      case 2
      then have "ncol g (ZV a) \<noteq> GC_BLACK" using col by simp
      then obtain g' L where p: "zval_scan_black a g = Some g'" "painted getter g0 GC_BLACK 1 [ZV a] g g' L"
        using zval_scan_black_ok [OF wf(1,2) a(1)] e by auto
      show ?thesis using scan_black_step [OF sc n _ _ p(2)] 2 z col p(1) nil e
        by (simp add: scan_body_def del: ncol.simps nrc.simps)
    next
      case 3
      obtain g1 where g1: "GC_ZVAL_SET_COLOR a GC_WHITE g = Some g1" "walked GC_WHITE 1 {#} (elem g [a]) g g1"
        "object_buckets g1 = object_buckets g"
        using walked_zval_color [OF z, of GC_WHITE 1] ns(1) by blast
      have w: "walked GC_WHITE 1 {#} [ZV a] g g1" using g1(2) shape_elem [OF wf(2)] e by simp
      have s: "scanning getter g0 M rc0 g1" "scanned getter g0 M [ZV a] (nkids getter g0 (ZV a)) g g1" "fewer_grey M g g1"
        using scan_white_step [OF sc n _ _ w] 3 col by simp_all
      note wf1 = scanning_wf [OF s(1)]
      obtain z0 where z0: "zvals g0 a = Some z0" using a(1) by blast
      have val: "zvalue z = zvalue z0" using shape_fields(1) [OF wf(2), of a] z z0 by simp
      have "pred_option (wf_value getter g0) (map_option zvalue (zvals g0 a))" using wf(1) unfolding wf_heap_def by blast
      then have v: "wf_value getter g0 (zvalue z)" using z0 val by simp
      have sym1: "symbol_table g1 = symbol_table g" using shape_fields(3) [OF walked_shape [OF w]] .
      have eq: "scan_body a g = (case zvalue z of
           IS_OBJECT h hs \<Rightarrow> (if object_buckets g = None then Some ([], g1) else scan_object h hs g1)
         | IS_ARRAY ht \<Rightarrow> do { xs \<leftarrow> tables g1 ht; Some (xs, g1) }
         | Scalar \<Rightarrow> Some ([], g1))"
        using 3 z g1(1,3) ns(2) sym1 by (auto simp: scan_body_def scan_object_def split: zvalue.split)
      show ?thesis
      proof (cases "zvalue z")
        case Scalar
        then have "nkids getter g0 (ZV a) = []" using z0 val by simp
        then show ?thesis using s eq Scalar e nil by (simp del: nkids.simps)
      next
        case (IS_ARRAY ht)
        then obtain xs where xs: "tables g0 ht = Some xs" "set xs \<subseteq> dom (zvals g0)" using v val [symmetric] by (auto simp: wf_value_def)
        have "nkids getter g0 (ZV a) = elem g0 xs" using z0 val [symmetric] IS_ARRAY xs(1) False by (simp add: or_empty_def)
        then show ?thesis using s eq IS_ARRAY e xs shape_fields(2) [OF wf1(2)] by (simp del: nkids.simps)
      next
        case (IS_OBJECT h hs)
        show ?thesis
        proof (cases "object_buckets g0 = None")
          case True
          then have "nkids getter g0 (ZV a) = []" using z0 val [symmetric] IS_OBJECT by simp
          then show ?thesis using s eq IS_OBJECT True e nil shape_fields(5) [OF wf(2)] by (simp del: nkids.simps)
        next
          case False
          then have h: "hs = getter h" "nkids getter g0 (ZV a) = [OB h]"
            using v z0 val [symmetric] IS_OBJECT by (auto simp: wf_value_def)
          then have "OB h \<in> M" using wf(4) n unfolding gc.closed_def by (metis list.set_intros(1) subsetD)
          then obtain ks g' where k: "scan_object h (getter h) g1 = Some (ks, g')" "set ks \<subseteq> dom (zvals g0)"
            "scanning getter g0 M rc0 g'" "scanned getter g0 M [OB h] (elem g0 ks) g1 g'"
            using scan_object_ok [OF s(1)] by blast
          have "scan_body a g = Some (ks, g')" using eq IS_OBJECT False shape_fields(5) [OF wf(2)] h(1) k(1) by simp
          moreover have "scanned getter g0 M [ZV a] (elem g0 ks) g g'" using scanned_comp s(2) k(4) h(2) by metis
          moreover have "fewer_grey M g g'" using s(3) k(4) unfolding fewer_grey_def scanned_def by blast
          ultimately show ?thesis using k(2,3) e by auto
        qed
      qed
    qed
  qed
qed

subsection \<open>The scan of elements, of a zval and of an object\<close>

lemma scan_visit_ok:
  "\<lbrakk>scanning getter g0 M rc0 g; set todo \<subseteq> dom (zvals g0); set (elem g0 todo) \<subseteq> M;
    card {n \<in> M. ncol g n = GC_GREY} = c\<rbrakk> \<Longrightarrow>
   \<exists>g'. visit_elements (\<lambda>_ g. Some g) scan_body todo g = Some g' \<and> scanning getter g0 M rc0 g' \<and>
     scanned getter g0 M (elem g0 todo) [] g g'"
proof (induction c arbitrary: g todo rule: less_induct)
  case (less c)
  have grey: "{n \<in> M. ncol g2 n = GC_GREY} \<subseteq> {n \<in> M. ncol g1 n = GC_GREY}" if "scanned getter g0 M T K g1 g2" for T K g1 g2
    using that unfolding scanned_def by blast
  have fewer: "card {n \<in> M. ncol g2 n = GC_GREY} < card {n \<in> M. ncol g1 n = GC_GREY}"
    if s: "scanned getter g0 M T K g1 g2" "fewer_grey M g1 g2" for T K g1 g2
  proof (rule psubset_card_mono)
    show "finite {n \<in> M. ncol g1 n = GC_GREY}" using scanning_wf(5) [OF less.prems(1)] by simp
    obtain n where "n \<in> M" "ncol g1 n = GC_GREY" "ncol g2 n \<noteq> GC_GREY"
      using s(2) unfolding fewer_grey_def by blast
    then show "{n \<in> M. ncol g2 n = GC_GREY} \<subset> {n \<in> M. ncol g1 n = GC_GREY}" using grey [OF s(1)] by blast
  qed
  show ?case
    using less.prems
  proof (induction todo arbitrary: g)
    case Nil
    then show ?case using scanned_Nil by (subst visit_elements.simps) (simp add: elem_def)
  next
    case (Cons a rest)
    have split: "elem g0 (a # rest) = elem g0 [a] @ elem g0 rest" using elem_append [of g0 "[a]" rest] by simp
    obtain ks g1 where s: "scan_body a g = Some (ks, g1)" "set ks \<subseteq> dom (zvals g0)"
      "scanning getter g0 M rc0 g1" "scanned getter g0 M (elem g0 [a]) (elem g0 ks) g g1" "ks = [] \<or> fewer_grey M g g1"
      using scan_body_ok [OF Cons.prems(1), of a] Cons.prems(2,3) unfolding split by auto
    have ks: "set (elem g0 ks) \<subseteq> M" using s(4) unfolding scanned_def by blast
    have "\<exists>g2. visit_elements (\<lambda>_ g. Some g) scan_body ks g1 = Some g2 \<and> scanning getter g0 M rc0 g2 \<and>
      scanned getter g0 M (elem g0 [a]) [] g g2"
    proof (cases "ks = []")
      case True
      then show ?thesis using s(3,4) by (subst visit_elements.simps) (simp add: elem_def)
    next
      case False
      then have "card {n \<in> M. ncol g1 n = GC_GREY} < c" using fewer [OF s(4)] s(5) Cons.prems(4) by blast
      then show ?thesis using less.IH [OF _ s(3,2) ks refl] scanned_comp [OF s(4)] by blast
    qed
    then obtain g2 where k: "visit_elements (\<lambda>_ g. Some g) scan_body ks g1 = Some g2" "scanning getter g0 M rc0 g2"
      "scanned getter g0 M (elem g0 [a]) [] g g2" by blast
    have "card {n \<in> M. ncol g2 n = GC_GREY} \<le> c"
      using card_mono [OF _ grey [OF k(3)]] scanning_wf(5) [OF Cons.prems(1)] Cons.prems(4) by simp
    then have "\<exists>g3. visit_elements (\<lambda>_ g. Some g) scan_body rest g2 = Some g3 \<and> scanning getter g0 M rc0 g3 \<and>
      scanned getter g0 M (elem g0 rest) [] g2 g3"
    proof (cases "card {n \<in> M. ncol g2 n = GC_GREY} = c")
      case True
      then show ?thesis using Cons.IH [OF k(2)] Cons.prems(2,3) unfolding split by simp
    next
      case False
      then have "card {n \<in> M. ncol g2 n = GC_GREY} < c" using \<open>_ \<le> c\<close> by simp
      then show ?thesis using less.IH [OF _ k(2)] Cons.prems(2,3) unfolding split by simp
    qed
    then obtain g3 where r: "visit_elements (\<lambda>_ g. Some g) scan_body rest g2 = Some g3" "scanning getter g0 M rc0 g3"
      "scanned getter g0 M (elem g0 rest) [] g2 g3" by blast
    have "visit_elements (\<lambda>_ g. Some g) scan_body (a # rest) g = Some g3"
      using s(1) k(1) r(1) by (subst visit_elements.simps) simp
    then show ?case using r(2) scanned_append [OF k(3) r(3)] unfolding split by blast
  qed
qed

text \<open>The scan after a first step.\<close>

lemma scan_rest:
  assumes "set ks \<subseteq> dom (zvals g0)" "scanning getter g0 M rc0 g1" "scanned getter g0 M T (elem g0 ks) g g1"
  shows "\<exists>g'. visit_elements (\<lambda>_ g. Some g) scan_body ks g1 = Some g' \<and> scanning getter g0 M rc0 g' \<and>
    scanned getter g0 M T [] g g'"
proof -
  have "set (elem g0 ks) \<subseteq> M" using assms(3) unfolding scanned_def by blast
  then show ?thesis using scan_visit_ok [OF assms(2,1) _ refl] scanned_comp [OF assms(3)] by blast
qed

lemma zval_scan_ok:
  assumes "scanning getter g0 M rc0 g" "a \<in> dom (zvals g0)" "set (elem g0 [a]) \<subseteq> M"
  shows "\<exists>g'. zval_scan a g = Some g' \<and> scanning getter g0 M rc0 g' \<and> scanned getter g0 M (elem g0 [a]) [] g g'"
proof -
  obtain ks g1 where "scan_body a g = Some (ks, g1)" "set ks \<subseteq> dom (zvals g0)"
    "scanning getter g0 M rc0 g1" "scanned getter g0 M (elem g0 [a]) (elem g0 ks) g g1"
    using scan_body_ok [OF assms] by blast
  then show ?thesis using scan_rest by (simp add: zval_scan_def)
qed

lemma zobj_scan_ok:
  assumes "scanning getter g0 M rc0 g" "OB h \<in> M"
  shows "\<exists>g'. zobj_scan h (getter h) g = Some g' \<and> scanning getter g0 M rc0 g' \<and> scanned getter g0 M [OB h] [] g g'"
proof -
  have "get_obj h g \<noteq> None"
    using assms(2) scanning_wf(3) [OF assms(1)] shape_get_obj [OF scanning_wf(2) [OF assms(1)], of h] by (auto simp: nodes_def)
  then obtain b where b: "get_obj h g = Some b" "object_buckets g \<noteq> None" by (auto simp: get_obj_def split: option.splits)
  obtain ks g1 where s: "scan_object h (getter h) g = Some (ks, g1)" "set ks \<subseteq> dom (zvals g0)"
    "scanning getter g0 M rc0 g1" "scanned getter g0 M [OB h] (elem g0 ks) g g1"
    using scan_object_ok [OF assms] by blast
  have nil: "visit_elements (\<lambda>_ g. Some g) scan_body [] g = Some g" for g by (subst visit_elements.simps) simp
  have "zobj_scan h (getter h) g = do {
      (xs, g) \<leftarrow> scan_object h (getter h) g; visit_elements (\<lambda>_ g. Some g) scan_body xs g }"
    using b by (auto simp: zobj_scan_def scan_object_def nil split: Option.bind_splits)
  then show ?thesis using scan_rest [OF s(2,3,4)] s(1) by simp
qed

end
