(* ===== verification/ZendGcCollect.thy ===== *)
theory ZendGcCollect
  imports ZendGcScan
begin

text \<open>
  Collecting the white values from one zval or object: the third interpretation of \<open>element_walk\<close>. The
  collected zvals go to the front of the list to free, and they and their elements get back one
  reference each; objects get nothing back.
\<close>

subsection \<open>The list to free\<close>

fun free_chain :: "gc_state \<Rightarrow> gc_address \<Rightarrow> addr list \<Rightarrow> bool" where
  "free_chain g p [] \<longleftrightarrow> p = FREE_LIST_END"
| "free_chain g p (a # xs) \<longleftrightarrow> p = Next a \<and> zvals g a \<noteq> None \<and> free_chain g (naddr g (ZV a)) xs"

definition zvals_of :: "node list \<Rightarrow> addr list" where
  "zvals_of L = concat (map (case_node (\<lambda>a. [a]) (\<lambda>_. [])) L)"

lemma zvals_of_simps [simp]:
  "zvals_of [] = []" "zvals_of (ZV a # L) = a # zvals_of L" "zvals_of (OB h # L) = zvals_of L"
  "zvals_of (L @ L') = zvals_of L @ zvals_of L'"
  by (simp_all add: zvals_of_def)

lemma set_zvals_of [simp]: "set (zvals_of L) = {a. ZV a \<in> set L}"
proof (induction L)
  case (Cons n L)
  then show ?case by (cases n) auto
qed simp

lemma distinct_zvals_of: "distinct L \<Longrightarrow> distinct (zvals_of L)"
proof (induction L)
  case (Cons n L)
  then show ?case by (cases n) simp_all
qed simp

lemma free_chain_link: "free_chain g p xs \<Longrightarrow> a \<in> set xs \<Longrightarrow> naddr g (ZV a) \<noteq> No_Address"
proof (induction xs arbitrary: p)
  case (Cons x xs)
  show ?case
  proof (cases "a = x")
    case True
    then show ?thesis using Cons.prems(1) by (cases xs) (auto simp del: naddr.simps)
  next
    case False
    then show ?thesis using Cons by (auto simp del: naddr.simps)
  qed
qed simp

lemma free_chain_cong:
  "\<lbrakk>free_chain g p xs; \<And>a. a \<in> set xs \<Longrightarrow> naddr g' (ZV a) = naddr g (ZV a); dom (zvals g') = dom (zvals g)\<rbrakk> \<Longrightarrow>
     free_chain g' p xs"
  by (induction xs arbitrary: p) (auto simp del: naddr.simps simp: dom_def set_eq_iff)

subsection \<open>What a walk has collected\<close>

definition gathered :: "node multiset \<Rightarrow> node list \<Rightarrow> gc_state \<Rightarrow> gc_state \<Rightarrow> bool" where
  "gathered E L g g' \<longleftrightarrow> shape g' = shape g \<and> other g' = other g \<and> (sym_safe g \<longrightarrow> sym_safe g') \<and>
     ncol g' = (\<lambda>n. if n \<in> set L then GC_BLACK else ncol g n) \<and>
     (\<forall>n. n \<notin> set L \<longrightarrow> naddr g' n = naddr g n) \<and> (\<forall>h. naddr g' (OB h) = naddr g (OB h)) \<and>
     (\<forall>a. nrc g' (ZV a) = nrc g (ZV a) + of_nat (count E (ZV a)) + of_nat (count_list L (ZV a))) \<and>
     (\<forall>h. nrc g' (OB h) = nrc g (OB h)) \<and>
     (\<forall>xs. free_chain g (zval_to_free g) xs \<longrightarrow> free_chain g' (zval_to_free g') (rev (zvals_of L) @ xs))"

definition collectable :: "gc_state \<Rightarrow> gc_state \<Rightarrow> node set" where
  "collectable g0 g = {n \<in> nodes g0. ncol g n = GC_WHITE \<and> naddr g n = No_Address}"

lemma gathered_refl: "gathered {#} [] g g"
  by (simp add: gathered_def)

lemma gathered_trans:
  assumes "gathered E1 L1 g1 g2" "gathered E2 L2 g2 g3"
  shows "gathered (E1 + E2) (L1 @ L2) g1 g3"
  using assms unfolding gathered_def by (auto simp del: ncol.simps nrc.simps naddr.simps)

lemma gathered_shape: "gathered E L g g' \<Longrightarrow> shape g' = shape g"
  by (simp add: gathered_def)

lemma gathered_collectable: "gathered E L g g' \<Longrightarrow> collectable g0 g' = collectable g0 g - set L"
  by (auto simp: gathered_def collectable_def simp del: ncol.simps nrc.simps naddr.simps)

lemma gathered_OB: "gathered E L g g' \<Longrightarrow> gathered (E + {#OB h#}) L g g'"
  by (simp add: gathered_def)

text \<open>The list is no part of what the other definitions look at.\<close>

lemma to_free_fields:
  "shape (g\<lparr>zval_to_free := p\<rparr>) = shape g" "other (g\<lparr>zval_to_free := p\<rparr>) = other g"
  "ncol (g\<lparr>zval_to_free := p\<rparr>) = ncol g" "nrc (g\<lparr>zval_to_free := p\<rparr>) = nrc g"
  "naddr (g\<lparr>zval_to_free := p\<rparr>) = naddr g" "sym_safe (g\<lparr>zval_to_free := p\<rparr>) = sym_safe g"
proof -
  have h: "heap_of (g\<lparr>zval_to_free := p\<rparr>) = heap_of g" by (simp add: heap_of_def)
  show "shape (g\<lparr>zval_to_free := p\<rparr>) = shape g" "ncol (g\<lparr>zval_to_free := p\<rparr>) = ncol g"
    "nrc (g\<lparr>zval_to_free := p\<rparr>) = nrc g" "naddr (g\<lparr>zval_to_free := p\<rparr>) = naddr g"
    "sym_safe (g\<lparr>zval_to_free := p\<rparr>) = sym_safe g"
    by (rule same_heap [OF h])+
qed (simp add: other_def)

text \<open>The steps that leave the list alone.\<close>

lemma gathered_walked:
  assumes "walked GC_BLACK 1 E L g g'" "\<And>h. OB h \<notin># E" "\<And>a. ZV a \<notin> set L"
  shows "gathered E L g g'"
proof -
  have w: "shape g' = shape g" "other g' = other g" "zval_to_free g' = zval_to_free g" "naddr g' = naddr g"
    "sym_safe g \<longrightarrow> sym_safe g'" "ncol g' = (\<lambda>n. if n \<in> set L then GC_BLACK else ncol g n)"
    "nrc g' = (\<lambda>n. nrc g n + of_nat (count E n))"
    using assms(1) by (simp_all add: walked_def)
  have "count E (OB h) = 0" for h using assms(2) by (simp add: not_in_iff)
  moreover have "count_list L (ZV a) = 0" for a using assms(3) by (simp add: count_list_0_iff)
  moreover have "zvals_of L = []" using assms(3) set_zvals_of [of L] set_empty [of "zvals_of L"] by simp
  moreover have "free_chain g' p xs" if "free_chain g p xs" for p xs
    by (rule free_chain_cong [OF that]) (use w(4) shape_dom [OF w(1)] in simp_all)
  ultimately show ?thesis using w(5) unfolding gathered_def w(1-4,6,7) by (simp del: ncol.simps nrc.simps naddr.simps)
qed

lemma gathered_put:
  assumes w: "walked GC_BLACK 1 {#} L g g1" and a: "zvals g a \<noteq> None" "\<not> sym g a" "naddr g (ZV a) = No_Address"
    and L: "zvals_of L = [a]"
  shows "\<exists>g2. put_to_free a g1 = Some g2 \<and> gathered {#} L g g2"
proof -
  have w: "shape g1 = shape g" "other g1 = other g" "zval_to_free g1 = zval_to_free g" "naddr g1 = naddr g"
    "sym_safe g \<longrightarrow> sym_safe g1" "ncol g1 = (\<lambda>n. if n \<in> set L then GC_BLACK else ncol g n)"
    "nrc g1 = nrc g"
    using w by (simp_all add: walked_def)
  obtain z where z: "zvals g1 a = Some z" using a(1) shape_dom [OF w(1)] by blast
  let ?f = "\<lambda>z. z\<lparr>refcount__gc := refcount__gc z + 1, z_buffered := (zval_to_free g1, GC_BLACK)\<rparr>"
  let ?g = "g1\<lparr>zvals := (zvals g1)(a \<mapsto> ?f z)\<rparr>"
  note u = upd_zval_ok [where f = ?f, OF z, simplified]
  have s1: "\<not> sym g1 a" using a(2) shape_sym [OF w(1)] by simp
  have in_L: "ZV b \<in> set L \<longleftrightarrow> b = a" for b using set_zvals_of [of L] L by auto
  have one: "count_list L (ZV b) = (if b = a then 1 else 0)" for b
  proof -
    have "count_list (zvals_of L) b = count_list L (ZV b)"
    proof (induction L)
      case (Cons n L)
      then show ?case by (cases n) simp_all
    qed simp
    then show ?thesis using L by auto
  qed
  let ?g2 = "?g\<lparr>zval_to_free := Next a\<rparr>"
  note g2 = to_free_fields [where p = "Next a" and g = ?g]
  have nrc1: "refcount__gc z = nrc g (ZV a)" using z fun_cong [OF w(7), of "ZV a"] by simp
  have "put_to_free a g1 = Some ?g2" using u(1) by (simp add: put_to_free_def)
  moreover have "gathered {#} L g ?g2"
    unfolding gathered_def g2
  proof (intro conjI allI impI)
    fix xs assume c: "free_chain g (zval_to_free g) xs"
    then have "a \<notin> set xs" using free_chain_link a(3) by blast
    then have "free_chain ?g2 (zval_to_free g) xs"
      using c g2(5) u(5) w(4) shape_dom [OF w(1)] z
      by (intro free_chain_cong [OF c]) (auto simp del: naddr.simps)
    then show "free_chain ?g2 (zval_to_free ?g2) (rev (zvals_of L) @ xs)"
      using L g2(5) u(5) w(3) by (simp del: naddr.simps)
  qed (use u w s1 in_L one nrc1 in \<open>auto simp del: ncol.simps nrc.simps naddr.simps\<close>)
  ultimately show ?thesis by blast
qed

subsection \<open>The body\<close>

lemma collect_body_object:
  assumes wf: "wf_heap getter g0" "shape g = shape g0" "zvals g a = Some z" "\<not> sym g0 a" "ncol g (ZV a) = GC_WHITE"
    "naddr g (ZV a) = No_Address"
    and h: "zvalue z = IS_OBJECT h (getter h)" "get_obj h g0 \<noteq> None"
  shows "\<exists>g2 ks L. collect_body a g = Some (ks, g2) \<and> set ks \<subseteq> dom (zvals g0) \<and> gathered {#} L g g2 \<and>
    (if OB h \<in> collectable g0 g then L = [ZV a, OB h] \<and> elem g0 ks = nkids getter g0 (OB h) else L = [ZV a] \<and> ks = [])"
proof -
  note ns = not_symbol [OF wf(2,3,4)]
  have zw: "z_buffered z = (No_Address, GC_WHITE)"
    using wf(3,5,6) ns(1) by (cases "z_buffered z") simp
  obtain g1 where g1: "GC_ZVAL_SET_COLOR a GC_BLACK g = Some g1" "walked GC_BLACK 1 {#} (elem g [a]) g g1"
    "zvals g1 a = Some (z\<lparr>z_buffered := (fst (z_buffered z), GC_BLACK)\<rparr>)" "object_buckets g1 = object_buckets g"
    using walked_zval_color [OF wf(3), of GC_BLACK 1] by blast
  have w1: "walked GC_BLACK 1 {#} [ZV a] g g1" using g1(2) ns(1) by (simp add: elem_def)
  have s1: "shape g1 = shape g0" using walked_shape [OF w1] wf(2) by simp
  obtain b where b: "get_obj h g1 = Some b" using h(2) shape_get_obj [OF s1, of h] by auto
  have b0: "get_obj h g = Some b" using b g1(4) by (simp add: get_obj_def)
  then have buckets: "object_buckets g \<noteq> None" by (auto simp: get_obj_def split: option.splits)
  have col: "OB h \<in> collectable g0 g \<longleftrightarrow> o_buffered b = (No_Address, GC_WHITE)"
    using h(2) b0 by (cases "o_buffered b") (auto simp: collectable_def nodes_def)
  have put: "\<exists>g3. put_to_free a g2 = Some g3 \<and> gathered {#} L g g3"
    if "walked GC_BLACK 1 {#} L g g2" "zvals_of L = [a]" for L g2
    by (rule gathered_put [OF that(1) _ ns(1) wf(6) that(2)]) (use wf(3) in simp)
  show ?thesis
  proof (cases "o_buffered b = (No_Address, GC_WHITE)")
    case True
    obtain g2 where g2: "GC_SET_COLOR h GC_BLACK g1 = Some g2" "walked GC_BLACK 1 {#} [OB h] g1 g2"
      using walked_obj_color [OF b, of GC_BLACK 1] by blast
    have w2: "walked GC_BLACK 1 {#} [ZV a, OB h] g g2" using walked_trans [OF w1 g2(2)] by simp
    obtain g3 where g3: "put_to_free a g2 = Some g3" "gathered {#} [ZV a, OB h] g g3" using put [OF w2] by auto
    have "shape g2 = shape g0" using walked_shape [OF w2] wf(2) by simp
    then obtain xs where "object_elements h (getter h) g2 = Some (Some xs)" "set xs \<subseteq> dom (zvals g0)"
      "elem g0 xs = nkids getter g0 (OB h)" using wf_elements [OF wf(1) _ h(2)] by blast
    then show ?thesis using True col wf(3) zw h(1) g1(1,3,4) buckets b g2(1) g3
      by (simp add: collect_body_def del: nkids.simps not_None_eq)
  next
    case False
    obtain g3 where g3: "put_to_free a g1 = Some g3" "gathered {#} [ZV a] g g3" using put [OF w1] by auto
    then show ?thesis using False col wf(3) zw h(1) g1(1,3,4) buckets b
      by (simp add: collect_body_def del: nkids.simps not_None_eq)
  qed
qed

lemma collect_body_ok:
  assumes wf: "wf_heap getter g0" "shape g = shape g0" "sym_safe g" and a: "a \<in> dom (zvals g0)"
  shows "\<exists>g2 ks E L. collect_body a g = Some (ks, g2) \<and> set ks \<subseteq> dom (zvals g0) \<and> gathered E L g g2 \<and>
    (L = [] \<longrightarrow> ks = []) \<and> E + mset (elem g0 ks) = mset (concat (map (nkids getter g0) L)) \<and>
    set L \<subseteq> collectable g0 g \<and>
    (\<forall>L2. gc.visited getter g0 (elem g0 ks) (collectable g0 g - set L) L2 \<longrightarrow>
       gc.visited getter g0 (elem g0 [a]) (collectable g0 g) (L @ L2))"
proof -
  obtain z where z: "zvals g a = Some z" using a shape_dom [OF wf(2)] by blast
  let ?A = "collectable g0 g"
  have nil: "elem g0 [] = []" by (simp add: elem_def)
  show ?thesis
  proof (cases "ZV a \<in> ?A")
    case False
    have "z_buffered z \<noteq> (No_Address, GC_WHITE)"
    proof
      assume zb: "z_buffered z = (No_Address, GC_WHITE)"
      then have "\<not> sym g a" using wf(3) z unfolding sym_safe_def by fastforce
      then show False using False zb z a shape_sym [OF wf(2), of a] by (simp add: collectable_def nodes_def dom_def)
    qed
    then have "collect_body a g = Some ([], g)" using z by (simp add: collect_body_def)
    moreover have "gc.visited getter g0 (elem g0 [a]) ?A L2" if "gc.visited getter g0 [] ?A L2" for L2
      using that False gc.visited_pass by (simp add: elem_def)
    ultimately show ?thesis using nil gathered_refl [of g]
      by (intro exI [of _ g] exI [of _ "[]"] exI [of _ "{#}"]) simp
  next
    case True
    then have ns: "\<not> sym g0 a" and white: "ncol g (ZV a) = GC_WHITE" "naddr g (ZV a) = No_Address"
      by (auto simp: collectable_def nodes_def simp del: ncol.simps naddr.simps)
    note ns1 = not_symbol [OF wf(2) z ns]
    have e: "elem g0 [a] = [ZV a]" using ns by (simp add: elem_def)
    obtain z0 where z0: "zvals g0 a = Some z0" using a by blast
    have val: "zvalue z0 = zvalue z" using shape_fields(1) [OF wf(2), of a] z z0 by simp
    have "pred_option (wf_value getter g0) (map_option zvalue (zvals g0 a))" using wf(1) unfolding wf_heap_def by blast
    then have v: "wf_value getter g0 (zvalue z)" using z0 val by simp
    have zw: "z_buffered z = (No_Address, GC_WHITE)"
      using z white ns1(1) by (cases "z_buffered z") simp
    have plain: ?thesis if ks: "\<And>g1. shape g1 = shape g \<Longrightarrow> object_buckets g1 = object_buckets g \<Longrightarrow>
         zvals g1 a = Some (z\<lparr>z_buffered := (No_Address, GC_BLACK)\<rparr>) \<Longrightarrow> GC_ZVAL_SET_COLOR a GC_BLACK g = Some g1 \<Longrightarrow>
         collect_body a g = do { g \<leftarrow> put_to_free a g1; Some (ks, g) }"
      "set ks \<subseteq> dom (zvals g0)" "nkids getter g0 (ZV a) = elem g0 ks" for ks
    proof -
      obtain g1 where g1: "GC_ZVAL_SET_COLOR a GC_BLACK g = Some g1" "walked GC_BLACK 1 {#} (elem g [a]) g g1"
        "zvals g1 a = Some (z\<lparr>z_buffered := (fst (z_buffered z), GC_BLACK)\<rparr>)" "object_buckets g1 = object_buckets g"
        using walked_zval_color [OF z, of GC_BLACK 1] by blast
      have w1: "walked GC_BLACK 1 {#} [ZV a] g g1" using g1(2) ns1(1) by (simp add: elem_def)
      obtain g2 where g2: "put_to_free a g1 = Some g2" "gathered {#} [ZV a] g g2"
        using gathered_put [OF w1 _ ns1(1) white(2)] z by auto
      have "collect_body a g = Some (ks, g2)"
        using ks(1) [OF walked_shape [OF w1] g1(4) _ g1(1)] g1(3) zw g2(1) by simp
      moreover have "gc.visited getter g0 (elem g0 [a]) ?A ([ZV a] @ L2)"
        if "gc.visited getter g0 (elem g0 ks) (?A - set [ZV a]) L2" for L2
        using gc.visited_enter [OF True] that ks(3) e by simp
      ultimately show ?thesis using g2(2) ks(2,3) True
        by (intro exI [of _ g2] exI [of _ ks] exI [of _ "{#}"] exI [of _ "[ZV a]"]) (simp del: nkids.simps)
    qed
    show ?thesis
    proof (cases "zvalue z")
      case Scalar
      then show ?thesis using z0 val z zw nil
        by (intro plain [of "[]"]) (simp_all add: collect_body_def)
    next
      case (IS_ARRAY ht)
      then obtain xs where xs: "tables g0 ht = Some xs" "set xs \<subseteq> dom (zvals g0)" using v by (auto simp: wf_value_def)
      have "tables g1 ht = Some xs" if "shape g1 = shape g" for g1
        using shape_fields(2) [OF that] shape_fields(2) [OF wf(2)] xs(1) by simp
      then show ?thesis using z0 val z zw nil IS_ARRAY ns xs
        by (intro plain [of xs]) (simp_all add: collect_body_def or_empty_def)
    next
      case (IS_OBJECT h hs)
      show ?thesis
      proof (cases "object_buckets g0 = None")
        case True
        then show ?thesis using z0 val z zw nil IS_OBJECT shape_fields(5) [OF wf(2)]
          by (intro plain [of "[]"]) (simp_all add: collect_body_def)
      next
        case False
        then have h: "get_obj h g0 \<noteq> None" "hs = getter h" using v IS_OBJECT by (auto simp: wf_value_def)
        have kids: "nkids getter g0 (ZV a) = [OB h]" using z0 val IS_OBJECT False by simp
        obtain g2 ks L where s: "collect_body a g = Some (ks, g2)" "set ks \<subseteq> dom (zvals g0)" "gathered {#} L g g2"
          "if OB h \<in> collectable g0 g then L = [ZV a, OB h] \<and> elem g0 ks = nkids getter g0 (OB h) else L = [ZV a] \<and> ks = []"
          using collect_body_object [OF wf(1,2) z ns white _ h(1)] IS_OBJECT h(2) by blast
        have "gathered {#OB h#} L g g2" using gathered_OB [OF s(3), of h] by simp
        moreover have "{#OB h#} + mset (elem g0 ks) = mset (concat (map (nkids getter g0) L))"
          using s(4) kids nil by (simp split: if_splits)
        moreover have "set L \<subseteq> ?A" using s(4) True by (simp split: if_splits)
        moreover have "gc.visited getter g0 (elem g0 [a]) ?A (L @ L2)"
          if k: "gc.visited getter g0 (elem g0 ks) (?A - set L) L2" for L2
        proof (cases "OB h \<in> ?A")
          case O: True
          then have L: "L = [ZV a, OB h]" "elem g0 ks = nkids getter g0 (OB h)" using s(4) by simp_all
          have "gc.visited getter g0 (nkids getter g0 (OB h)) (?A - {ZV a} - {OB h}) L2"
            using k unfolding L by (simp only: set_simps Diff_insert [symmetric] insert_commute)
          then have "gc.visited getter g0 [OB h] (?A - {ZV a}) (OB h # L2)" using gc.visited_enter O by simp
          then show ?thesis unfolding e L using gc.visited_enter [OF True] kids by simp
        next
          case O: False
          then have L: "L = [ZV a]" "ks = []" using s(4) by simp_all
          have "gc.visited getter g0 [OB h] (?A - {ZV a}) L2" using gc.visited_pass O k L nil by simp
          then show ?thesis unfolding e L using gc.visited_enter [OF True] kids by simp
        qed
        moreover have "L = [] \<longrightarrow> ks = []" using s(4) by (simp split: if_splits)
        ultimately show ?thesis using s(1,2) by blast
      qed
    qed
  qed
qed

subsection \<open>The walks\<close>

lemma collect_step:
  assumes wf: "wf_heap getter g0" "shape g = shape g0" "sym_safe g" and a: "a \<in> dom (zvals g0)"
  shows "\<exists>g1 g2 ks E L. add_refcount 1 a g = Some g1 \<and> collect_body a g1 = Some (ks, g2) \<and>
    set ks \<subseteq> dom (zvals g0) \<and> gathered E L g g2 \<and> (L = [] \<longrightarrow> ks = []) \<and>
    E + mset (elem g0 ks) = mset (elem g0 [a]) + mset (concat (map (nkids getter g0) L)) \<and>
    set L \<subseteq> collectable g0 g \<and>
    (\<forall>L2. gc.visited getter g0 (elem g0 ks) (collectable g0 g - set L) L2 \<longrightarrow>
       gc.visited getter g0 (elem g0 [a]) (collectable g0 g) (L @ L2))"
proof -
  obtain z where z: "zvals g a = Some z" using a shape_dom [OF wf(2)] by blast
  obtain g1 where g1: "add_refcount 1 a g = Some g1" "walked GC_BLACK 1 (mset (elem g [a])) [] g g1"
    using walked_zval_count [OF z, of 1 GC_BLACK] by blast
  have w: "gathered (mset (elem g [a])) [] g g1"
    by (rule gathered_walked [OF g1(2)]) (auto simp: elem_def)
  have s1: "shape g1 = shape g0" "sym_safe g1" using w wf(2,3) by (simp_all add: gathered_def)
  have c: "collectable g0 g1 = collectable g0 g" using gathered_collectable [OF w] by simp
  have e: "elem g [a] = elem g0 [a]" using shape_elem [OF wf(2)] by simp
  obtain g2 ks E L where b: "collect_body a g1 = Some (ks, g2)" "set ks \<subseteq> dom (zvals g0)" "gathered E L g1 g2"
    "L = [] \<longrightarrow> ks = []" "E + mset (elem g0 ks) = mset (concat (map (nkids getter g0) L))" "set L \<subseteq> collectable g0 g"
    "\<forall>L2. gc.visited getter g0 (elem g0 ks) (collectable g0 g - set L) L2 \<longrightarrow>
       gc.visited getter g0 (elem g0 [a]) (collectable g0 g) (L @ L2)"
    using collect_body_ok [OF wf(1) s1 a] unfolding c by (elim exE conjE) (rule that; assumption)
  have "gathered (mset (elem g0 [a]) + E) L g g2" using gathered_trans [OF w b(3)] e by simp
  moreover have "mset (elem g0 [a]) + E + mset (elem g0 ks) = mset (elem g0 [a]) + mset (concat (map (nkids getter g0) L))"
    using b(5) by (simp only: add.assoc)
  ultimately show ?thesis using g1(1) b(1,2,4,6,7) by blast
qed

interpretation collect: element_walk "nkids getter g0" "elem g0" "add_refcount 1" collect_body "dom (zvals g0)"
    "\<lambda>g. wf_heap getter g0 \<and> shape g = shape g0 \<and> sym_safe g" "collectable g0" gathered
  for getter g0
proof (unfold_locales, goal_cases)
  case (6 g)
  then show ?case using finite_nodes finite_subset [of "collectable g0 g" "nodes g0"] by (auto simp: collectable_def)
next
  case (7 g a)
  then show ?case by (intro collect_step) simp_all
next
  case (4 g E L g')
  then have "shape g' = shape g" "sym_safe g \<longrightarrow> sym_safe g'" unfolding gathered_def by blast+
  then show ?case using 4 by simp
qed (simp_all add: elem_append gathered_refl gathered_trans gathered_collectable)

definition collects :: "(nat \<Rightarrow> get_properties) \<Rightarrow> gc_state \<Rightarrow> node list \<Rightarrow> gc_state \<Rightarrow> gc_state \<Rightarrow> node list \<Rightarrow> bool" where
  "collects getter g0 T g g' L \<longleftrightarrow> gathered (mset (concat (map (nkids getter g0) L))) L g g' \<and>
     gc.visited getter g0 T (collectable g0 g) L"

lemma zval_collect_white_ok:
  assumes "wf_heap getter g0" "shape g = shape g0" "sym_safe g" "a \<in> dom (zvals g0)"
  shows "\<exists>g' L. zval_collect_white a g = Some g' \<and> collects getter g0 (elem g0 [a]) g g' L"
proof -
  obtain g2 ks E L where b: "collect_body a g = Some (ks, g2)" "set ks \<subseteq> dom (zvals g0)" "gathered E L g g2"
    "E + mset (elem g0 ks) = mset (concat (map (nkids getter g0) L))" "set L \<subseteq> collectable g0 g"
    "\<forall>L2. gc.visited getter g0 (elem g0 ks) (collectable g0 g - set L) L2 \<longrightarrow>
       gc.visited getter g0 (elem g0 [a]) (collectable g0 g) (L @ L2)"
    using collect_body_ok [OF assms] by (elim exE conjE) (rule that; assumption)
  show ?thesis
    using collect.visit_rest [OF _ b(3,5,2,4,6)] assms b(1) by (auto simp: zval_collect_white_def collects_def)
qed

lemma zobj_collect_white_ok:
  assumes "wf_heap getter g0" "shape g = shape g0" "sym_safe g" "get_obj h g0 \<noteq> None"
  shows "\<exists>g' L. zobj_collect_white h (getter h) g = Some g' \<and> collects getter g0 [OB h] g g' L"
proof -
  obtain b where b: "get_obj h g = Some b" using assms(4) shape_get_obj [OF assms(2), of h] by auto
  then have buckets: "object_buckets g \<noteq> None" by (auto simp: get_obj_def split: option.splits)
  show ?thesis
  proof (cases "OB h \<in> collectable g0 g")
    case False
    then have "o_buffered b \<noteq> (No_Address, GC_WHITE)" using assms(4) b by (auto simp: collectable_def nodes_def)
    then have "zobj_collect_white h (getter h) g = Some g" using b buckets by (auto simp: zobj_collect_white_def)
    then show ?thesis using False gathered_refl [of g] gc.visited_skip [of "OB h" "collectable g0 g"]
      by (intro exI [of _ g] exI [of _ "[]"]) (simp add: collects_def)
  next
    case True
    then have white: "o_buffered b = (No_Address, GC_WHITE)" using b by (cases "o_buffered b") (simp add: collectable_def)
    obtain g2 where g2: "GC_SET_COLOR h GC_BLACK g = Some g2" "walked GC_BLACK 1 {#} [OB h] g g2"
      using walked_obj_color [OF b, of GC_BLACK 1] by blast
    have gt: "gathered {#} [OB h] g g2" by (rule gathered_walked [OF g2(2)]) simp_all
    have "shape g2 = shape g0" using gathered_shape [OF gt] assms(2) by simp
    then obtain xs where xs: "object_elements h (getter h) g2 = Some (Some xs)" "set xs \<subseteq> dom (zvals g0)"
      "elem g0 xs = nkids getter g0 (OB h)" using wf_elements [OF assms(1) _ assms(4)] by blast
    have v: "\<forall>L2. gc.visited getter g0 (elem g0 xs) (collectable g0 g - set [OB h]) L2 \<longrightarrow>
        gc.visited getter g0 [OB h] (collectable g0 g) ([OB h] @ L2)"
      using gc.visited_enter [OF True] xs(3) by simp
    show ?thesis
      using collect.visit_rest [OF _ gt _ xs(2) _ v] True xs assms g2(1) b buckets white
      by (auto simp: zobj_collect_white_def collects_def or_empty_def simp del: nkids.simps)
  qed
qed

end
