(* ===== verification/ZendGcRoots.thy ===== *)
theory ZendGcRoots
  imports ZendGcCollect
begin

text \<open>
  The buffer of possible roots: a doubly linked ring of buffers in use through \<open>roots\<close>, and a chain of
  returned buffers. Taking a root out leaves its \<open>next\<close> pointer, so that the loops over the roots may
  take out the root they are at.
\<close>

subsection \<open>The ring\<close>

fun nxt :: "gc_state \<Rightarrow> root_ptr \<Rightarrow> root_ptr option" where
  "nxt g Roots = Some (roots_next g)"
| "nxt g (Buf i) = map_option rb_next (buf g i)"

fun prv :: "gc_state \<Rightarrow> root_ptr \<Rightarrow> root_ptr option" where
  "prv g Roots = Some (roots_prev g)"
| "prv g (Buf i) = Option.bind (buf g i) rb_prev"

definition rtarget :: "gc_state \<Rightarrow> nat \<Rightarrow> (nat \<times> root_target) option" where
  "rtarget g i = map_option (\<lambda>r. (rb_handle r, rb_u r)) (buf g i)"

fun linked :: "gc_state \<Rightarrow> root_ptr list \<Rightarrow> bool" where
  "linked g (p # q # ps) \<longleftrightarrow> nxt g p = Some q \<and> prv g q = Some p \<and> linked g (q # ps)"
| "linked g _ \<longleftrightarrow> True"

definition root_list :: "gc_state \<Rightarrow> nat list \<Rightarrow> bool" where
  "root_list g is \<longleftrightarrow> distinct is \<and> linked g (Roots # map Buf is @ [Roots])"

fun unused_chain :: "gc_state \<Rightarrow> root_ptr option \<Rightarrow> nat list \<Rightarrow> bool" where
  "unused_chain g p [] \<longleftrightarrow> p = None"
| "unused_chain g p (u # us) \<longleftrightarrow> p = Some (Buf u) \<and> buf g u \<noteq> None \<and> unused_chain g (prv g (Buf u)) us"

definition first_root :: "nat list \<Rightarrow> root_ptr" where
  "first_root is = (case is of [] \<Rightarrow> Roots | i # _ \<Rightarrow> Buf i)"

definition buffers :: "gc_state \<Rightarrow> nat list \<Rightarrow> nat list \<Rightarrow> bool" where
  "buffers g is us \<longleftrightarrow> root_list g is \<and> unused_chain g (unused g) us \<and> distinct (is @ us) \<and>
     set (is @ us) = {..<first_unused g} \<and> first_unused g \<le> last_unused g"

definition buffer_only :: "gc_state \<Rightarrow> gc_state \<Rightarrow> bool" where
  "buffer_only g g' \<longleftrightarrow> (\<exists>b p n u. g' = g\<lparr>buf := b, roots_prev := p, roots_next := n, unused := u\<rparr>)"

lemma buffer_onlyI:
  "g' = g\<lparr>buf := buf g', roots_prev := roots_prev g', roots_next := roots_next g', unused := unused g'\<rparr> \<Longrightarrow> buffer_only g g'"
  unfolding buffer_only_def by blast

lemma linked_split: "linked g (xs @ p # ys) \<longleftrightarrow> linked g (xs @ [p]) \<and> linked g (p # ys)"
proof (induction xs)
  case (Cons x xs)
  then show ?case by (cases xs) auto
qed simp

lemma linked_cong:
  "\<lbrakk>linked g ps; \<And>p. p \<in> set (butlast ps) \<Longrightarrow> nxt g' p = nxt g p; \<And>p. p \<in> set (tl ps) \<Longrightarrow> prv g' p = prv g p\<rbrakk> \<Longrightarrow>
     linked g' ps"
proof (induction g ps rule: linked.induct)
  case (1 g p q ps)
  have "set (tl (q # ps)) \<subseteq> set (tl (p # q # ps))" by auto
  then have "linked g' (q # ps)" using 1 by (auto split: if_splits)
  then show ?case using 1 by (auto split: if_splits)
qed simp_all

lemma linked_same:
  assumes "buf g' = buf g" "roots_next g' = roots_next g" "roots_prev g' = roots_prev g"
  shows "linked g' ps = linked g ps" "root_list g' is = root_list g is"
proof -
  have n: "nxt g' p = nxt g p" "prv g' p = prv g p" for p by (cases p; simp add: assms)+
  show l: "linked g' ps = linked g ps" for ps
  proof (induction ps)
    case (Cons p ps)
    then show ?case by (cases ps) (simp_all add: n del: nxt.simps prv.simps)
  qed simp
  show "root_list g' is = root_list g is" by (simp add: root_list_def l del: linked.simps)
qed

lemma unused_chain_cong:
  "\<lbrakk>unused_chain g p us; \<And>u. u \<in> set us \<Longrightarrow> buf g' u = buf g u\<rbrakk> \<Longrightarrow> unused_chain g' p us"
  by (induction us arbitrary: p) auto

lemma root_list_next:
  assumes "root_list g (pre @ i # post)"
  shows "nxt g (Buf i) = Some (first_root post)" "buf g i \<noteq> None"
proof -
  have "linked g ((Roots # map Buf pre) @ Buf i # (map Buf post @ [Roots]))" using assms by (simp add: root_list_def)
  then have "linked g (Buf i # (map Buf post @ [Roots]))" using linked_split by blast
  then show n: "nxt g (Buf i) = Some (first_root post)" by (cases post) (auto simp: first_root_def)
  then show "buf g i \<noteq> None" by auto
qed

lemma root_list_first: "root_list g is \<Longrightarrow> roots_next g = first_root is"
  by (cases "is") (auto simp: root_list_def first_root_def)

subsection \<open>Only the buffer changes\<close>

lemma buffer_only_refl: "buffer_only g g"
  by (rule buffer_onlyI) simp

lemma buffer_only_trans: "\<lbrakk>buffer_only g1 g2; buffer_only g2 g3\<rbrakk> \<Longrightarrow> buffer_only g1 g3"
  by (rule buffer_onlyI) (auto simp: buffer_only_def)

lemma buffer_fields:
  assumes "buffer_only g g'"
  shows "shape g' = shape g" "ncol g' = ncol g" "nrc g' = nrc g" "naddr g' = naddr g" "sym_safe g' = sym_safe g"
    "zvals g' = zvals g" "zval_to_free g' = zval_to_free g" "object_buckets g' = object_buckets g"
    "first_unused g' = first_unused g" "last_unused g' = last_unused g"
proof -
  have h: "heap_of g' = heap_of g" using assms by (auto simp: buffer_only_def heap_of_def)
  show "shape g' = shape g" "ncol g' = ncol g" "nrc g' = nrc g" "naddr g' = naddr g" "sym_safe g' = sym_safe g"
    "zvals g' = zvals g" "object_buckets g' = object_buckets g"
    by (rule same_heap [OF h])+
  show "zval_to_free g' = zval_to_free g" "first_unused g' = first_unused g" "last_unused g' = last_unused g"
    using assms by (auto simp: buffer_only_def)
qed

lemma set_next_ok:
  assumes "nxt g p \<noteq> None"
  shows "\<exists>g'. set_next p q g = Some g' \<and> buffer_only g g' \<and> nxt g' = (nxt g)(p := Some q) \<and> prv g' = prv g \<and>
    rtarget g' = rtarget g \<and> unused g' = unused g \<and> (\<forall>i. Buf i \<noteq> p \<longrightarrow> buf g' i = buf g i)"
proof (cases p)
  case Roots
  let ?g = "g\<lparr>roots_next := q\<rparr>"
  have "nxt ?g x = ((nxt g)(Roots := Some q)) x \<and> prv ?g x = prv g x" for x by (cases x) simp_all
  then have "nxt ?g = (nxt g)(Roots := Some q)" "prv ?g = prv g" by blast+
  then show ?thesis using Roots by (simp add: set_next_def buffer_onlyI rtarget_def fun_eq_iff)
next
  case (Buf i)
  then obtain r where r: "buf g i = Some r" using assms by auto
  let ?g = "g\<lparr>buf := (buf g)(i \<mapsto> r\<lparr>rb_next := q\<rparr>)\<rparr>"
  have "nxt ?g x = ((nxt g)(Buf i := Some q)) x \<and> prv ?g x = prv g x" for x using r by (cases x) simp_all
  then have "nxt ?g = (nxt g)(Buf i := Some q)" "prv ?g = prv g" by blast+
  then show ?thesis using Buf r by (simp add: set_next_def buffer_onlyI rtarget_def fun_eq_iff)
qed

lemma set_prev_ok:
  assumes "nxt g p \<noteq> None"
  shows "\<exists>g'. set_prev p q g = Some g' \<and> buffer_only g g' \<and> prv g' = (prv g)(p := Some q) \<and> nxt g' = nxt g \<and>
    rtarget g' = rtarget g \<and> unused g' = unused g \<and> (\<forall>i. Buf i \<noteq> p \<longrightarrow> buf g' i = buf g i)"
proof (cases p)
  case Roots
  let ?g = "g\<lparr>roots_prev := q\<rparr>"
  have "nxt ?g x = nxt g x \<and> prv ?g x = ((prv g)(Roots := Some q)) x" for x by (cases x) simp_all
  then have "nxt ?g = nxt g" "prv ?g = (prv g)(Roots := Some q)" by blast+
  then show ?thesis using Roots by (simp add: set_prev_def buffer_onlyI rtarget_def fun_eq_iff)
next
  case (Buf i)
  then obtain r where r: "buf g i = Some r" using assms by auto
  let ?g = "g\<lparr>buf := (buf g)(i \<mapsto> r\<lparr>rb_prev := Some q\<rparr>)\<rparr>"
  have "nxt ?g x = nxt g x \<and> prv ?g x = ((prv g)(Buf i := Some q)) x" for x using r by (cases x) simp_all
  then have "nxt ?g = nxt g" "prv ?g = (prv g)(Buf i := Some q)" by blast+
  then show ?thesis using Buf r by (simp add: set_prev_def buffer_onlyI rtarget_def fun_eq_iff)
qed

subsection \<open>Taking a root out\<close>

lemma gc_remove_from_buffer_ok:
  assumes b: "buffers g (pre @ i # post) us"
  shows "\<exists>g'. gc_remove_from_buffer i g = Some g' \<and> buffer_only g g' \<and> rtarget g' = rtarget g \<and>
    nxt g' (Buf i) = Some (first_root post) \<and> buffers g' (pre @ post) (i # us)"
proof -
  let ?P = "Roots # map Buf pre" and ?Q = "map Buf post @ [Roots]"
  define p q where "p = last ?P" and "q = hd ?Q"
  have dist: "distinct (pre @ i # post)" "distinct (pre @ i # post @ us)" "unused_chain g (unused g) us"
    and lk: "linked g (?P @ Buf i # ?Q)"
    using b by (auto simp: buffers_def root_list_def)
  have PQ: "?P = butlast ?P @ [p]" "?Q = q # tl ?Q" by (simp_all add: p_def q_def)
  have l1: "linked g ?P" "nxt g p = Some (Buf i)" "prv g (Buf i) = Some p" "nxt g (Buf i) = Some q" "linked g ?Q"
  proof -
    have a: "linked g (?P @ [Buf i])" "linked g (Buf i # ?Q)" using lk linked_split [of g ?P "Buf i" ?Q] by simp_all
    have "linked g ((butlast ?P) @ p # [Buf i])" using a(1) PQ(1) by (metis append.assoc append_Cons append_Nil)
    then have b: "linked g (butlast ?P @ [p])" "linked g [p, Buf i]" using linked_split by blast+
    show "linked g ?P" using b(1) PQ(1) by simp
    show "nxt g p = Some (Buf i)" "prv g (Buf i) = Some p" using b(2) by simp_all
    have "linked g (Buf i # q # tl ?Q)" using a(2) PQ(2) by simp
    then have "nxt g (Buf i) = Some q \<and> linked g (q # tl ?Q)" by (simp only: linked.simps)
    then show "nxt g (Buf i) = Some q" "linked g ?Q" using PQ(2) by simp_all
  qed
  have q: "q = first_root post" by (cases post) (simp_all add: q_def first_root_def)
  have p_in: "p \<in> set ?P" "p \<notin> set (butlast ?P)" "p \<noteq> Buf i" "q \<noteq> Buf i"
  proof -
    have d: "distinct ?P" using dist(1) by (auto simp: distinct_map inj_on_def)
    show "p \<in> set ?P" unfolding p_def by (rule last_in_set) simp
    then show "p \<noteq> Buf i" using dist(1) by auto
    show "p \<notin> set (butlast ?P)" using d PQ(1) by (metis distinct_append disjoint_iff list.set_intros(1))
    show "q \<noteq> Buf i" using dist(1) by (cases post) (auto simp: q_def)
  qed
  have q_in: "q \<notin> set (map Buf pre)" "q \<notin> set (tl ?Q)"
    using dist(1) by (cases post; auto simp: q_def)+
  obtain r where r: "buf g i = Some r" "rb_prev r = Some p" "rb_next r = q" using l1(3,4) by (auto split: bind_splits)
  have "nxt g q \<noteq> None"
  proof (cases post)
    case (Cons j js)
    then have "linked g (Buf j # (map Buf js @ [Roots]))" using l1(5) by simp
    then show ?thesis using Cons by (cases js) (auto simp: q_def)
  qed (simp add: q_def)
  then obtain g1 where g1: "set_prev q p g = Some g1" "buffer_only g g1" "prv g1 = (prv g)(q := Some p)" "nxt g1 = nxt g"
    "rtarget g1 = rtarget g" "unused g1 = unused g" "\<forall>j. Buf j \<noteq> q \<longrightarrow> buf g1 j = buf g j"
    using set_prev_ok by blast
  have "nxt g1 p \<noteq> None" using l1(2) g1(4) by simp
  then obtain g2 where g2: "set_next p q g1 = Some g2" "buffer_only g1 g2" "nxt g2 = (nxt g1)(p := Some q)" "prv g2 = prv g1"
    "rtarget g2 = rtarget g1" "unused g2 = unused g1" "\<forall>j. Buf j \<noteq> p \<longrightarrow> buf g2 j = buf g1 j"
    using set_next_ok by blast
  have bi: "buf g1 i = Some r" "buf g2 i = Some r" using r(1) g1(7) g2(7) p_in(3,4) by auto
  let ?g = "g2\<lparr>buf := (buf g2)(i \<mapsto> r\<lparr>rb_prev := unused g2\<rparr>), unused := Some (Buf i)\<rparr>"
  have "gc_remove_from_buffer i g = Some ?g"
    using r bi g1(1) g2(1) by (simp add: gc_remove_from_buffer_def)
  moreover have only: "buffer_only g ?g"
    by (rule buffer_only_trans [OF g1(2)], rule buffer_only_trans [OF g2(2)], rule buffer_onlyI) simp
  moreover have "rtarget ?g = rtarget g"
  proof
    fix x
    have "rtarget ?g x = rtarget g2 x" using bi(2) by (simp add: rtarget_def)
    then show "rtarget ?g x = rtarget g x" using g1(5) g2(5) by simp
  qed
  moreover have nx: "nxt ?g x = ((nxt g)(p := Some q)) x" for x
  proof -
    have "nxt ?g x = nxt g2 x" using bi(2) by (cases x) simp_all
    then show ?thesis using g2(3) g1(4) by simp
  qed
  moreover have pv: "prv ?g x = ((prv g)(q := Some p)) x" if "x \<noteq> Buf i" for x
  proof -
    have "prv ?g x = prv g2 x" using bi(2) that by (cases x) simp_all
    then show ?thesis using g2(4) g1(3) by simp
  qed
  moreover have "linked ?g (?P @ ?Q)"
  proof -
    have "linked ?g ?P"
    proof (rule linked_cong [OF l1(1)])
      fix x assume "x \<in> set (butlast ?P)"
      then have "x \<noteq> p" using p_in(2) by blast
      then show "nxt ?g x = nxt g x" using nx by simp
    next
      fix x assume "x \<in> set (tl ?P)"
      then have "x \<noteq> q" "x \<noteq> Buf i" using q_in(1) dist(1) by auto
      then show "prv ?g x = prv g x" using pv by simp
    qed
    moreover have "linked ?g ?Q"
    proof (rule linked_cong [OF l1(5)])
      fix x assume "x \<in> set (butlast ?Q)"
      then have "x \<noteq> p" using p_in(1) dist(1) by auto
      then show "nxt ?g x = nxt g x" using nx by simp
    next
      fix x assume "x \<in> set (tl ?Q)"
      moreover then have "x \<noteq> Buf i" using dist(1) by (cases post) auto
      ultimately show "prv ?g x = prv g x" using pv q_in(2) by auto
    qed
    moreover have np: "nxt ?g p = Some q" "prv ?g q = Some p" using nx pv p_in(4) by auto
    ultimately have "linked ?g (butlast ?P @ [p])" "linked ?g (q # tl ?Q)" using PQ by metis+
    then have "linked ?g (butlast ?P @ [p])" "linked ?g (p # q # tl ?Q)" using np by (simp_all only: linked.simps)
    then have "linked ?g (butlast ?P @ p # q # tl ?Q)" using linked_split by blast
    then show ?thesis using PQ by (metis append.assoc append_Cons append_Nil)
  qed
  moreover have "unused_chain ?g (unused ?g) (i # us)"
  proof -
    have "unused_chain ?g (unused g) us"
    proof (rule unused_chain_cong [OF dist(3)])
      fix u assume u: "u \<in> set us"
      then have "Buf u \<noteq> p" "Buf u \<noteq> q" "u \<noteq> i" using p_in(1) dist(2) by (auto simp: q first_root_def split: list.splits)
      then show "buf ?g u = buf g u" using g1(7) g2(7) by simp
    qed
    then show ?thesis using bi(2) g1(6) g2(6) by simp
  qed
  moreover have "nxt ?g (Buf i) = Some (first_root post)" using r(3) q by simp
  ultimately show ?thesis
    using b buffer_fields(9,10) [OF only] by (intro exI [of _ ?g]) (auto simp: buffers_def root_list_def)
qed

subsection \<open>The loop over the roots\<close>

text \<open>\<open>Inv done todo g\<close>: the roots \<open>done\<close> have been kept, the roots \<open>todo\<close> are still to come.\<close>

lemma walk_roots_ok:
  assumes step: "\<And>ks i rest g. Inv ks (i # rest) g \<Longrightarrow> \<exists>r g' r'. buf g i = Some r \<and> step i r g = Some g' \<and>
      buf g' i = Some r' \<and> rb_next r' = first_root rest \<and> (Inv (ks @ [i]) rest g' \<or> Inv ks rest g')"
  shows "Inv ks todo g \<Longrightarrow> \<exists>g' ks'. walk_roots step (first_root todo) g = Some g' \<and> Inv ks' [] g'"
proof (induction todo arbitrary: ks g)
  case Nil
  then show ?case by (intro exI [of _ g] exI [of _ ks]) (simp add: walk_roots.simps first_root_def)
next
  case (Cons i rest)
  obtain r g' r' where s: "buf g i = Some r" "step i r g = Some g'" "buf g' i = Some r'" "rb_next r' = first_root rest"
    "Inv (ks @ [i]) rest g' \<or> Inv ks rest g'"
    using step [OF Cons.prems] by blast
  have eq: "walk_roots step (first_root (i # rest)) g = walk_roots step (first_root rest) g'"
    using s(1-4) by (subst walk_roots.simps) (simp add: first_root_def)
  show ?case using s(5) Cons.IH unfolding eq by blast
qed

end
