(* ===== verification/ZendGcMarking.thy ===== *)
theory ZendGcMarking
  imports ZendGcRoots
begin

text \<open>
  The first phase of a collection: what can be reached from a purple root becomes grey and loses the
  references from within; every other root leaves the buffer.
\<close>

subsection \<open>Roots and their nodes\<close>

definition rnodes :: "gc_state \<Rightarrow> nat \<Rightarrow> node list" where
  "rnodes g i = (case rtarget g i of None \<Rightarrow> [] | Some (h, u) \<Rightarrow>
     if h \<noteq> 0 then (if object_buckets g = None then [] else [OB h])
     else (case u of Pz a \<Rightarrow> elem g [a] | Handlers _ \<Rightarrow> []))"

definition root_ok :: "(nat \<Rightarrow> get_properties) \<Rightarrow> gc_state \<Rightarrow> nat \<Rightarrow> bool" where
  "root_ok getter g i \<longleftrightarrow> (case rtarget g i of None \<Rightarrow> False | Some (h, u) \<Rightarrow>
     if h \<noteq> 0 then u = Handlers (getter h) \<and> (object_buckets g \<noteq> None \<longrightarrow> get_obj h g \<noteq> None)
     else (case u of Pz a \<Rightarrow> a \<in> dom (zvals g) | Handlers _ \<Rightarrow> False))"

text \<open>The roots of \<open>l\<close> are the addresses of their nodes, and no node outside \<open>X\<close> has another address.\<close>

definition addressed :: "gc_state \<Rightarrow> node set \<Rightarrow> nat list \<Rightarrow> gc_state \<Rightarrow> bool" where
  "addressed g0 X l g \<longleftrightarrow> (\<forall>i \<in> set l. \<forall>n \<in> set (rnodes g0 i). naddr g n = Root i) \<and>
     (\<forall>n \<in> nodes g0. n \<notin> X \<longrightarrow> naddr g n \<noteq> No_Address \<longrightarrow> (\<exists>i \<in> set l. n \<in> set (rnodes g0 i)))"

definition outside :: "gc_state \<Rightarrow> gc_state" where
  "outside g = (other g)\<lparr>buf := Map.empty, roots_prev := Roots, roots_next := Roots, unused := None\<rparr>"

text \<open>The state between two operations of the collector.\<close>

definition gc_ready :: "(nat \<Rightarrow> get_properties) \<Rightarrow> gc_state \<Rightarrow> nat list \<Rightarrow> nat list \<Rightarrow> bool" where
  "gc_ready getter g is us \<longleftrightarrow> wf_heap getter g \<and> sym_safe g \<and> (\<forall>n \<in> nodes g. ncol g n \<in> {GC_BLACK, GC_PURPLE}) \<and>
     buffers g is us \<and> (\<forall>i \<in> set is. root_ok getter g i) \<and> addressed g {} is g"

lemma rnodes_nodes: "root_ok getter g i \<Longrightarrow> set (rnodes g i) \<subseteq> nodes g"
proof (cases "rtarget g i")
  case (Some t)
  obtain h u where t: "t = (h, u)" by (cases t)
  assume ok: "root_ok getter g i"
  show ?thesis
  proof (cases "h = 0")
    case True
    then show ?thesis using ok Some t by (cases u) (auto simp: root_ok_def rnodes_def nodes_def elem_def)
  next
    case False
    then have "object_buckets g \<noteq> None \<longrightarrow> get_obj h g \<noteq> None" using ok Some t by (simp add: root_ok_def)
    then have "object_buckets g \<noteq> None \<longrightarrow> OB h \<in> nodes g" by (simp add: nodes_def)
    then show ?thesis using False Some t by (auto simp: rnodes_def)
  qed
qed (simp add: rnodes_def)

lemma outside_buffer: "buffer_only g g' \<Longrightarrow> outside g' = outside g"
  by (auto simp: buffer_only_def outside_def other_def)

lemma other_fields:
  assumes "other g' = other g"
  shows "outside g' = outside g" "buf g' = buf g" "rtarget g' = rtarget g" "buffers g' = buffers g"
proof -
  have f: "buf g' = buf g" "roots_next g' = roots_next g" "roots_prev g' = roots_prev g" "unused g' = unused g"
    "first_unused g' = first_unused g" "last_unused g' = last_unused g"
    using arg_cong [OF assms, of buf] arg_cong [OF assms, of roots_next] arg_cong [OF assms, of roots_prev]
      arg_cong [OF assms, of unused] arg_cong [OF assms, of first_unused] arg_cong [OF assms, of last_unused]
    by (simp_all add: other_def)
  show "outside g' = outside g" using assms by (simp add: outside_def)
  show "buf g' = buf g" by (rule f)
  show "rtarget g' = rtarget g" by (simp add: fun_eq_iff rtarget_def f)
  have "root_list g' is = root_list g is" for "is" by (rule linked_same(2)) (simp_all add: f)
  moreover have "unused_chain g' p us = unused_chain g p us" for p us
    by (induction us arbitrary: p) (simp_all add: f)
  ultimately show "buffers g' = buffers g" by (simp add: fun_eq_iff buffers_def f)
qed

subsection \<open>Taking back the address of a node\<close>

definition readdressed :: "node \<Rightarrow> gc_address \<Rightarrow> gc_state \<Rightarrow> gc_state \<Rightarrow> bool" where
  "readdressed n p g g' \<longleftrightarrow> shape g' = shape g \<and> other g' = other g \<and> zval_to_free g' = zval_to_free g \<and>
     (sym_safe g \<longrightarrow> sym_safe g') \<and> ncol g' = ncol g \<and> nrc g' = nrc g \<and> naddr g' = (naddr g)(n := p)"

lemma zval_readdressed:
  assumes "zvals g a = Some z"
  shows "\<exists>g'. GC_ZVAL_SET_ADDRESS a p g = Some g' \<and> readdressed (ZV a) p g g'"
proof -
  let ?f = "\<lambda>z. z\<lparr>z_buffered := (p, snd (z_buffered z))\<rparr>"
  note u = upd_zval_ok [where f = ?f and g = g and a = a and z = z, OF assms]
  have "sym_safe g \<longrightarrow> sym_safe (g\<lparr>zvals := (zvals g)(a \<mapsto> ?f z)\<rparr>)"
    using u(7) assms unfolding sym_safe_def by auto
  moreover have "(ncol g)(ZV a := snd (z_buffered z)) = ncol g" if "\<not> sym g a" using assms that by (auto simp: fun_eq_iff)
  moreover have "(nrc g)(ZV a := refcount__gc z) = nrc g" using assms by (auto simp: fun_eq_iff)
  ultimately have "readdressed (ZV a) p g (g\<lparr>zvals := (zvals g)(a \<mapsto> ?f z)\<rparr>)"
    unfolding readdressed_def using u by auto
  then show ?thesis using u(1) by (auto simp: GC_ZVAL_SET_ADDRESS_def)
qed

lemma obj_readdressed:
  assumes "get_obj h g = Some b"
  shows "\<exists>g'. GC_SET_ADDRESS h p g = Some g' \<and> readdressed (OB h) p g g'"
proof -
  let ?f = "\<lambda>b. b\<lparr>o_buffered := (p, snd (o_buffered b))\<rparr>"
  obtain g' where "upd_obj h ?f g = Some g'" "shape g' = shape g" "other g' = other g" "zvals g' = zvals g"
    "zval_to_free g' = zval_to_free g" "nrc g' = (nrc g)(OB h := o_refcount (?f b))"
    "naddr g' = (naddr g)(OB h := fst (o_buffered (?f b)))" "ncol g' = (ncol g)(OB h := snd (o_buffered (?f b)))"
    "sym_safe g \<longrightarrow> sym_safe g'"
    by (rule upd_obj_ok [where f = ?f, OF assms]) auto
  moreover have "(ncol g)(OB h := snd (o_buffered b)) = ncol g" "(nrc g)(OB h := o_refcount b) = nrc g"
    using assms by (auto simp: fun_eq_iff)
  ultimately show ?thesis by (auto simp: GC_SET_ADDRESS_def readdressed_def)
qed

lemma addressed_drop:
  assumes "addressed g0 X (ks @ i # rest) g" "distinct (ks @ i # rest)" "readdressed n0 No_Address g g1"
    and n0: "n0 \<in> nodes g0 \<Longrightarrow> n0 \<in> set (rnodes g0 i)" "set (rnodes g0 i) \<subseteq> {n0}"
    and ok: "\<And>j. j \<in> set (ks @ i # rest) \<Longrightarrow> set (rnodes g0 j) \<subseteq> nodes g0"
  shows "addressed g0 X (ks @ rest) g1"
proof -
  have na: "naddr g1 = (naddr g)(n0 := No_Address)" using assms(3) by (simp add: readdressed_def)
  have at: "naddr g n = Root j" if "j \<in> set (ks @ i # rest)" "n \<in> set (rnodes g0 j)" for j n
    using assms(1) that unfolding addressed_def by blast
  have other: "n \<noteq> n0" if j: "j \<in> set (ks @ rest)" "n \<in> set (rnodes g0 j)" for j n
  proof
    assume "n = n0"
    moreover have "n \<in> nodes g0" using ok [of j] j by auto
    ultimately have "n \<in> set (rnodes g0 i)" using n0(1) by blast
    then have "naddr g n = Root i" by (intro at) simp_all
    moreover have "naddr g n = Root j" by (rule at) (use j in auto)
    ultimately show False using j(1) assms(2) by auto
  qed
  show ?thesis
    unfolding addressed_def na
  proof (intro conjI ballI impI)
    fix j n assume j: "j \<in> set (ks @ rest)" "n \<in> set (rnodes g0 j)"
    then show "((naddr g)(n0 := No_Address)) n = Root j" using other [OF j] at [of j n] by auto
  next
    fix n assume n: "n \<in> nodes g0" "n \<notin> X" "((naddr g)(n0 := No_Address)) n \<noteq> No_Address"
    then have "n \<noteq> n0" "naddr g n \<noteq> No_Address" by (auto split: if_splits)
    then obtain j where "j \<in> set (ks @ i # rest)" "n \<in> set (rnodes g0 j)" using assms(1) n(1,2) unfolding addressed_def by blast
    then show "\<exists>j \<in> set (ks @ rest). n \<in> set (rnodes g0 j)" using n0(2) \<open>n \<noteq> n0\<close> by auto
  qed
qed

lemma addressed_none:
  "\<lbrakk>addressed g0 X (ks @ i # rest) g; rnodes g0 i = []\<rbrakk> \<Longrightarrow> addressed g0 X (ks @ rest) g"
  unfolding addressed_def by fastforce

text \<open>The step of a loop that takes out its root.\<close>

lemma drop_root:
  assumes "buffers g (ks @ i # rest) us"
  shows "\<exists>g' r'. gc_remove_from_buffer i g = Some g' \<and> buffer_only g g' \<and> rtarget g' = rtarget g \<and>
    buf g' i = Some r' \<and> rb_next r' = first_root rest \<and> buffers g' (ks @ rest) (i # us)"
  using gc_remove_from_buffer_ok [OF assms] by fastforce

subsection \<open>Marking\<close>

text \<open>\<open>g0\<close> is the state before, with the roots \<open>roots\<close>.\<close>

definition marking :: "(nat \<Rightarrow> get_properties) \<Rightarrow> gc_state \<Rightarrow> nat list \<Rightarrow> nat list \<Rightarrow> nat list \<Rightarrow> gc_state \<Rightarrow> bool" where
  "marking getter g0 roots ks rest g \<longleftrightarrow>
     shape g = shape g0 \<and> outside g = outside g0 \<and> zval_to_free g = zval_to_free g0 \<and> sym_safe g \<and> rtarget g = rtarget g0 \<and>
     (\<exists>us. buffers g (ks @ rest) us) \<and> addressed g0 {} (ks @ rest) g \<and> set (ks @ rest) \<subseteq> set roots \<and>
     (\<forall>i \<in> set ks. \<forall>n \<in> set (rnodes g0 i). ncol g0 n = GC_PURPLE) \<and>
     (\<exists>L. ncol g = (\<lambda>n. if n \<in> set L then GC_GREY else ncol g0 n) \<and>
        nrc g = (\<lambda>n. nrc g0 n - of_nat (count_list (concat (map (nkids getter g0) L)) n)) \<and>
        gc.visited getter g0 (concat (map (rnodes g0) ks)) (nodes g0) L \<and>
        (\<forall>i \<in> set roots - set rest. \<forall>n \<in> set (rnodes g0 i). ncol g0 n = GC_PURPLE \<longrightarrow> n \<in> set L))"

lemma marking_keep:
  assumes ready: "gc_ready getter g0 roots us0" and m: "marking getter g0 roots ks (i # rest) g"
    and p: "painted getter g0 GC_GREY (- 1) (rnodes g0 i) g g' L2"
    and purple: "\<And>n. n \<in> set (rnodes g0 i) \<Longrightarrow> ncol g n = GC_PURPLE"
  shows "marking getter g0 roots (ks @ [i]) rest g'"
proof -
  obtain L where L: "ncol g = (\<lambda>n. if n \<in> set L then GC_GREY else ncol g0 n)"
    "nrc g = (\<lambda>n. nrc g0 n - of_nat (count_list (concat (map (nkids getter g0) L)) n))"
    "gc.visited getter g0 (concat (map (rnodes g0) ks)) (nodes g0) L"
    "\<forall>j \<in> set roots - set (i # rest). \<forall>n \<in> set (rnodes g0 j). ncol g0 n = GC_PURPLE \<longrightarrow> n \<in> set L"
    using m unfolding marking_def by (elim exE conjE) (rule that; assumption)
  have w: "shape g' = shape g" "other g' = other g" "zval_to_free g' = zval_to_free g" "naddr g' = naddr g"
    "sym_safe g \<longrightarrow> sym_safe g'" "ncol g' = (\<lambda>n. if n \<in> set L2 then GC_GREY else ncol g n)"
    "nrc g' = (\<lambda>n. nrc g n - of_nat (count_list (concat (map (nkids getter g0) L2)) n))"
    and v: "gc.visited getter g0 (rnodes g0 i) {n \<in> nodes g0. ncol g n \<noteq> GC_GREY} L2"
    using p by (simp_all add: painted_def walked_def count_mset)
  note o = other_fields [OF w(2)]
  have grey: "ncol g0 n \<noteq> GC_GREY" if "n \<in> nodes g0" for n using ready that by (auto simp: gc_ready_def)
  then have A: "{n \<in> nodes g0. ncol g n \<noteq> GC_GREY} = nodes g0 - set L" using L(1) by auto
  have new: "ncol g0 n = GC_PURPLE" "n \<in> set (L @ L2)" if n: "n \<in> set (rnodes g0 i)" for n
  proof -
    have "i \<in> set roots" using m by (simp add: marking_def)
    then have "root_ok getter g0 i" using ready by (simp add: gc_ready_def)
    then have "n \<in> nodes g0" using rnodes_nodes n by blast
    then show "ncol g0 n = GC_PURPLE" "n \<in> set (L @ L2)"
      using purple [OF n] L(1) v n unfolding gc.visited_def by (auto split: if_splits)
  qed
  have "gc.visited getter g0 (concat (map (rnodes g0) (ks @ [i]))) (nodes g0) (L @ L2)"
    using gc.visited_append [OF L(3) v [unfolded A]] by simp
  moreover have "ncol g' = (\<lambda>n. if n \<in> set (L @ L2) then GC_GREY else ncol g0 n)" using w(6) L(1) by auto
  moreover have "nrc g' = (\<lambda>n. nrc g0 n - of_nat (count_list (concat (map (nkids getter g0) (L @ L2))) n))"
    using w(7) L(2) by (simp add: algebra_simps)
  moreover have "\<forall>j \<in> set roots - set rest. \<forall>n \<in> set (rnodes g0 j). ncol g0 n = GC_PURPLE \<longrightarrow> n \<in> set (L @ L2)"
    using L(4) new(2) by (metis Diff_iff UnI1 set_ConsD set_append)
  ultimately have "\<exists>L. ncol g' = (\<lambda>n. if n \<in> set L then GC_GREY else ncol g0 n) \<and>
      nrc g' = (\<lambda>n. nrc g0 n - of_nat (count_list (concat (map (nkids getter g0) L)) n)) \<and>
      gc.visited getter g0 (concat (map (rnodes g0) (ks @ [i]))) (nodes g0) L \<and>
      (\<forall>j \<in> set roots - set rest. \<forall>n \<in> set (rnodes g0 j). ncol g0 n = GC_PURPLE \<longrightarrow> n \<in> set L)"
    by blast
  moreover have "addressed g0 {} ((ks @ [i]) @ rest) g'" using m w(4) by (simp add: marking_def addressed_def)
  ultimately show ?thesis
    using m w(1,3,5) o new(1) unfolding marking_def by auto
qed

lemma marking_drop:
  assumes ready: "gc_ready getter g0 roots us0" and m: "marking getter g0 roots ks (i # rest) g"
    and r: "readdressed n0 No_Address g g1"
    and n0: "n0 \<in> nodes g0 \<Longrightarrow> n0 \<in> set (rnodes g0 i)" "set (rnodes g0 i) \<subseteq> {n0}"
    and purple: "\<And>n. n \<in> set (rnodes g0 i) \<Longrightarrow> ncol g n \<noteq> GC_PURPLE"
  shows "\<exists>g' r'. gc_remove_from_buffer i g1 = Some g' \<and> buf g' i = Some r' \<and> rb_next r' = first_root rest \<and>
    marking getter g0 roots ks rest g'"
proof -
  have r1: "shape g1 = shape g" "other g1 = other g" "zval_to_free g1 = zval_to_free g" "sym_safe g \<longrightarrow> sym_safe g1"
    "ncol g1 = ncol g" "nrc g1 = nrc g"
    using r by (simp_all add: readdressed_def)
  note o = other_fields [OF r1(2)]
  have sub: "set (ks @ i # rest) \<subseteq> set roots" and addr: "addressed g0 {} (ks @ i # rest) g"
    using m by (simp_all add: marking_def)
  obtain us where us: "buffers g (ks @ i # rest) us" using m by (auto simp: marking_def)
  then have dist: "distinct (ks @ i # rest)" by (auto simp: buffers_def)
  have "buffers g1 (ks @ i # rest) us" using us o(4) by simp
  then obtain g' r' where g': "gc_remove_from_buffer i g1 = Some g'" "buffer_only g1 g'" "rtarget g' = rtarget g1"
    "buf g' i = Some r'" "rb_next r' = first_root rest" "buffers g' (ks @ rest) (i # us)"
    using drop_root by blast
  note f = buffer_fields [OF g'(2)]
  have "addressed g0 {} (ks @ rest) g1"
  proof (rule addressed_drop [OF addr dist r n0])
    fix j assume "j \<in> set (ks @ i # rest)"
    then have "root_ok getter g0 j" using ready sub by (auto simp: gc_ready_def)
    then show "set (rnodes g0 j) \<subseteq> nodes g0" by (rule rnodes_nodes)
  qed
  then have a: "addressed g0 {} (ks @ rest) g'" using f(4) by (simp add: addressed_def)
  obtain L where L: "ncol g = (\<lambda>n. if n \<in> set L then GC_GREY else ncol g0 n)"
    "nrc g = (\<lambda>n. nrc g0 n - of_nat (count_list (concat (map (nkids getter g0) L)) n))"
    "gc.visited getter g0 (concat (map (rnodes g0) ks)) (nodes g0) L"
    "\<forall>j \<in> set roots - set (i # rest). \<forall>n \<in> set (rnodes g0 j). ncol g0 n = GC_PURPLE \<longrightarrow> n \<in> set L"
    using m unfolding marking_def by (elim exE conjE) (rule that; assumption)
  have "\<forall>j \<in> set roots - set rest. \<forall>n \<in> set (rnodes g0 j). ncol g0 n = GC_PURPLE \<longrightarrow> n \<in> set L"
  proof (intro ballI impI)
    fix j n assume j: "j \<in> set roots - set rest" "n \<in> set (rnodes g0 j)" "ncol g0 n = GC_PURPLE"
    then show "n \<in> set L" using L(1,4) purple [of n] by (cases "j = i") (auto split: if_splits)
  qed
  then have "\<exists>L. ncol g' = (\<lambda>n. if n \<in> set L then GC_GREY else ncol g0 n) \<and>
      nrc g' = (\<lambda>n. nrc g0 n - of_nat (count_list (concat (map (nkids getter g0) L)) n)) \<and>
      gc.visited getter g0 (concat (map (rnodes g0) ks)) (nodes g0) L \<and>
      (\<forall>j \<in> set roots - set rest. \<forall>n \<in> set (rnodes g0 j). ncol g0 n = GC_PURPLE \<longrightarrow> n \<in> set L)"
    using L r1(5,6) f(2,3) by (intro exI [of _ L]) simp
  then have "marking getter g0 roots ks rest g'"
    using m a g'(3,6) f(1,5,7) r1(1,3,4) o(1,3) outside_buffer [OF g'(2)] unfolding marking_def by auto
  then show ?thesis using g'(1,4,5) by blast
qed

lemma mark_root_ok:
  assumes ready: "gc_ready getter g0 roots us0" and m: "marking getter g0 roots ks (i # rest) g"
  shows "\<exists>r g' r'. buf g i = Some r \<and> mark_root i r g = Some g' \<and> buf g' i = Some r' \<and> rb_next r' = first_root rest \<and>
    (marking getter g0 roots (ks @ [i]) rest g' \<or> marking getter g0 roots ks rest g')"
proof -
  have wf: "wf_heap getter g0" "shape g = shape g0" "rtarget g = rtarget g0" and "root_ok getter g0 i"
    using ready m by (auto simp: gc_ready_def marking_def)
  then have ok: "root_ok getter g0 i" by simp
  obtain us where us: "buffers g (ks @ i # rest) us" using m by (auto simp: marking_def)
  obtain r where r: "buf g i = Some r" "rb_next r = first_root rest"
    using root_list_next [of g ks i rest] us by (auto simp: buffers_def)
  have t: "rtarget g0 i = Some (rb_handle r, rb_u r)" using r(1) wf(3) by (metis rtarget_def option.map(2))
  have keep: ?thesis if p: "mark_root i r g = Some g'" "painted getter g0 GC_GREY (- 1) (rnodes g0 i) g g' L"
    "\<And>n. n \<in> set (rnodes g0 i) \<Longrightarrow> ncol g n = GC_PURPLE" for g' L
  proof -
    have "other g' = other g" using p(2) by (simp add: painted_def walked_def)
    then have "buf g' i = Some r" using other_fields(2) [of g' g] r(1) by metis
    then show ?thesis using r p(1) marking_keep [OF ready m p(2,3)] by blast
  qed
  show ?thesis
  proof (cases "rb_handle r = 0")
    case True
    obtain a where a: "rb_u r = Pz a" "a \<in> dom (zvals g0)"
      using ok t True by (cases "rb_u r") (simp_all add: root_ok_def)
    have rn: "rnodes g0 i = elem g0 [a]" using t True a(1) by (simp add: rnodes_def)
    obtain z where z: "zvals g a = Some z" using a(2) shape_dom [OF wf(2)] by blast
    have col: "ncol g n = snd (z_buffered z)" if "n \<in> set (rnodes g0 i)" for n
      using that z shape_sym [OF wf(2), of a] by (auto simp: rn elem_def split: if_splits)
    show ?thesis
    proof (cases "snd (z_buffered z) = GC_PURPLE")
      case p: True
      obtain g' L where "zval_mark_grey a g = Some g'" "painted getter g0 GC_GREY (- 1) (elem g0 [a]) g g' L"
        using zval_mark_grey_ok [OF wf(1,2) a(2)] by blast
      then show ?thesis using keep [of g' L] True a(1) z p col rn by (simp add: mark_root_def)
    next
      case p: False
      obtain g1 where g1: "GC_ZVAL_SET_ADDRESS a No_Address g = Some g1" "readdressed (ZV a) No_Address g g1"
        using zval_readdressed [OF z] by blast
      have "ZV a \<in> nodes g0 \<Longrightarrow> ZV a \<in> set (rnodes g0 i)" "set (rnodes g0 i) \<subseteq> {ZV a}"
        by (auto simp: rn elem_def nodes_def)
      then obtain g' r' where d: "gc_remove_from_buffer i g1 = Some g'" "buf g' i = Some r'" "rb_next r' = first_root rest"
        "marking getter g0 roots ks rest g'"
        using marking_drop [OF ready m g1(2)] col p by metis
      then have "mark_root i r g = Some g'" using True a(1) z p g1(1) by (simp add: mark_root_def)
      then show ?thesis using r(1) d by blast
    qed
  next
    case False
    have u: "rb_u r = Handlers (getter (rb_handle r))" "object_buckets g0 \<noteq> None \<longrightarrow> get_obj (rb_handle r) g0 \<noteq> None"
      using ok t False by (simp_all add: root_ok_def)
    show ?thesis
    proof (cases "object_buckets g0 = None")
      case True
      then have "rnodes g0 i = []" "object_buckets g = None"
        using t False shape_fields(5) [OF wf(2)] by (simp_all add: rnodes_def)
      then show ?thesis using keep [of g "[]"] False walked_refl gc.visited_Nil
        by (simp add: mark_root_def painted_def)
    next
      case objects: False
      then have h: "get_obj (rb_handle r) g0 \<noteq> None" using u(2) by blast
      have rn: "rnodes g0 i = [OB (rb_handle r)]" using t False objects by (simp add: rnodes_def)
      obtain b where b: "get_obj (rb_handle r) g = Some b" using h shape_get_obj [OF wf(2), of "rb_handle r"] by auto
      have buckets: "object_buckets g \<noteq> None" using objects shape_fields(5) [OF wf(2)] by simp
      show ?thesis
      proof (cases "snd (o_buffered b) = GC_PURPLE")
        case p: True
        obtain g' L where "zobj_mark_grey (rb_handle r) (getter (rb_handle r)) g = Some g'"
          "painted getter g0 GC_GREY (- 1) [OB (rb_handle r)] g g' L"
          using zobj_mark_grey_ok [OF wf(1,2) h] by blast
        then show ?thesis using keep [of g' L] False u(1) b p rn buckets by (simp add: mark_root_def)
      next
        case p: False
        obtain g1 where g1: "GC_SET_ADDRESS (rb_handle r) No_Address g = Some g1"
          "readdressed (OB (rb_handle r)) No_Address g g1"
          using obj_readdressed [OF b] by blast
        obtain g' r' where d: "gc_remove_from_buffer i g1 = Some g'" "buf g' i = Some r'" "rb_next r' = first_root rest"
          "marking getter g0 roots ks rest g'"
          using marking_drop [OF ready m g1(2)] rn b p by auto
        then have "mark_root i r g = Some g'" using False b p g1(1) buckets by (simp add: mark_root_def del: not_None_eq)
        then show ?thesis using r(1) d by blast
      qed
    qed
  qed
qed

subsection \<open>The phase\<close>

definition purple :: "gc_state \<Rightarrow> nat list \<Rightarrow> node set" where
  "purple g roots = {n. ncol g n = GC_PURPLE \<and> (\<exists>i \<in> set roots. n \<in> set (rnodes g i))}"

text \<open>The marked nodes: what the purple roots reach.\<close>

definition marked :: "(nat \<Rightarrow> get_properties) \<Rightarrow> gc_state \<Rightarrow> nat list \<Rightarrow> node set" where
  "marked getter g roots = gc.reach getter g (purple g roots)"

lemma nodes_closed:
  assumes "wf_heap getter g"
  shows "gc.closed getter g (nodes g)"
  unfolding gc.closed_def
proof
  have elem: "set (elem g xs) \<subseteq> nodes g" if "set xs \<subseteq> dom (zvals g)" for xs
    using that by (auto simp: elem_def nodes_def)
  fix n assume node: "n \<in> nodes g"
  show "set (nkids getter g n) \<subseteq> nodes g"
  proof (cases n)
    case (OB h)
    then have "get_obj h g \<noteq> None" using node by (auto simp: nodes_def)
    then obtain xs where "object_elements h (getter h) g = Some (Some xs)" "set xs \<subseteq> dom (zvals g)"
      using assms unfolding wf_heap_def wf_object_def by blast
    then show ?thesis using OB elem by simp
  next
    case (ZV a)
    then have a: "\<not> sym g a" "a \<in> dom (zvals g)" using node by (auto simp: nodes_def)
    then obtain z where z: "zvals g a = Some z" by blast
    have "pred_option (wf_value getter g) (map_option zvalue (zvals g a))" using assms unfolding wf_heap_def by blast
    then have v: "wf_value getter g (zvalue z)" using z by simp
    show ?thesis
    proof (cases "zvalue z")
      case (IS_OBJECT h hs)
      then have "object_buckets g = None \<or> OB h \<in> nodes g" using v by (auto simp: wf_value_def nodes_def)
      then show ?thesis using ZV z IS_OBJECT by auto
    next
      case (IS_ARRAY ht)
      then obtain xs where "tables g ht = Some xs" "set xs \<subseteq> dom (zvals g)" using v by (auto simp: wf_value_def)
      then show ?thesis using ZV z IS_ARRAY elem [of xs] a by (simp add: or_empty_def)
    qed (use ZV z in simp)
  qed
qed

lemma marked_nodes:
  assumes "gc_ready getter g roots us"
  shows "marked getter g roots \<subseteq> nodes g" "gc.closed getter g (marked getter g roots)" "finite (marked getter g roots)"
proof -
  have "purple g roots \<subseteq> nodes g" using assms rnodes_nodes unfolding gc_ready_def purple_def by blast
  moreover have wf: "wf_heap getter g" using assms by (simp add: gc_ready_def)
  ultimately show n: "marked getter g roots \<subseteq> nodes g"
    unfolding marked_def using gc.reach_least nodes_closed by blast
  show "gc.closed getter g (marked getter g roots)" unfolding marked_def by (rule gc.reach_closed)
  show "finite (marked getter g roots)" using n finite_nodes [OF wf] by (rule finite_subset)
qed

lemma gc_mark_roots_ok:
  assumes ready: "gc_ready getter g0 roots us0"
  defines "M \<equiv> marked getter g0 roots"
  shows "\<exists>g ks us. gc_mark_roots g0 = Some g \<and> shape g = shape g0 \<and> outside g = outside g0 \<and>
    zval_to_free g = zval_to_free g0 \<and> sym_safe g \<and> rtarget g = rtarget g0 \<and> buffers g ks us \<and>
    addressed g0 {} ks g \<and> set ks \<subseteq> set roots \<and>
    ncol g = (\<lambda>n. if n \<in> M then GC_GREY else ncol g0 n) \<and>
    nrc g = (\<lambda>n. nrc g0 n - of_nat (gc.in_refs getter g0 M n)) \<and>
    (\<forall>i \<in> set ks. set (rnodes g0 i) \<subseteq> M) \<and> M \<subseteq> gc.reach getter g0 (\<Union>i \<in> set ks. set (rnodes g0 i))"
proof -
  have "marking getter g0 roots [] roots g0"
    using ready gc.visited_Nil unfolding marking_def gc_ready_def
    by (intro conjI exI [of _ us0] exI [of _ "[]"]) auto
  then obtain g ks where g: "walk_roots mark_root (first_root roots) g0 = Some g" "marking getter g0 roots ks [] g"
    using walk_roots_ok [where Inv = "marking getter g0 roots" and step = mark_root, OF mark_root_ok [OF ready]] by blast
  have run: "gc_mark_roots g0 = Some g"
    using g(1) ready root_list_first [of g0 roots] by (simp add: gc_mark_roots_def gc_ready_def buffers_def)
  obtain L where L: "ncol g = (\<lambda>n. if n \<in> set L then GC_GREY else ncol g0 n)"
    "nrc g = (\<lambda>n. nrc g0 n - of_nat (count_list (concat (map (nkids getter g0) L)) n))"
    "gc.visited getter g0 (concat (map (rnodes g0) ks)) (nodes g0) L"
    "\<forall>i \<in> set roots. \<forall>n \<in> set (rnodes g0 i). ncol g0 n = GC_PURPLE \<longrightarrow> n \<in> set L"
    using g(2) unfolding marking_def by auto
  have ks: "set ks \<subseteq> set roots" "\<And>i n. \<lbrakk>i \<in> set ks; n \<in> set (rnodes g0 i)\<rbrakk> \<Longrightarrow> ncol g0 n = GC_PURPLE"
    using g(2) by (auto simp: marking_def simp del: ncol.simps)
  have reached: "set L \<subseteq> gc.reach getter g0 (\<Union>i \<in> set ks. set (rnodes g0 i))" and dist: "distinct L"
    using L(3) by (simp_all add: gc.visited_def)
  have sub: "(\<Union>i \<in> set ks. set (rnodes g0 i)) \<subseteq> purple g0 roots" using ks by (auto simp: purple_def)
  have "set L = M"
  proof
    have "(\<Union>i \<in> set ks. set (rnodes g0 i)) \<subseteq> gc.reach getter g0 (purple g0 roots)"
      using sub gc.reach_base [of "purple g0 roots" getter g0] by blast
    then show "set L \<subseteq> M" unfolding M_def marked_def by (intro subset_trans [OF reached] gc.reach_mono)
    have "gc.closed getter g0 (set L)"
      unfolding gc.closed_def
    proof
      fix m assume m: "m \<in> set L"
      have "gc.closed getter g0 (nodes g0)" using nodes_closed ready by (simp add: gc_ready_def)
      moreover have "m \<in> nodes g0" using L(3) m unfolding gc.visited_def by blast
      ultimately show "set (nkids getter g0 m) \<subseteq> set L" using L(3) m unfolding gc.visited_def gc.closed_def by blast
    qed
    moreover have "purple g0 roots \<subseteq> set L" using L(4) unfolding purple_def by blast
    ultimately show "M \<subseteq> set L" unfolding M_def marked_def by (intro gc.reach_least)
  qed
  moreover have "count_list (concat (map (nkids getter g0) L)) n = gc.in_refs getter g0 (set L) n" for n
    by (rule gc.count_kids [OF dist])
  moreover have "\<forall>i \<in> set ks. set (rnodes g0 i) \<subseteq> M"
    using sub gc.reach_base [of "purple g0 roots" getter g0] unfolding M_def marked_def by blast
  moreover obtain us where "buffers g ks us" using g(2) by (auto simp: marking_def simp del: ncol.simps nrc.simps)
  moreover have "shape g = shape g0" "outside g = outside g0" "zval_to_free g = zval_to_free g0" "sym_safe g"
    "rtarget g = rtarget g0" "addressed g0 {} ks g"
    using g(2) by (simp_all add: marking_def)
  ultimately show ?thesis using run ks(1) L(1,2) reached
    by (intro exI [of _ g] exI [of _ ks] exI [of _ us] conjI) simp_all
qed

end
