(* ===== verification/ZendGcCollection.thy ===== *)
theory ZendGcCollection
  imports ZendGcMarking
begin

text \<open>
  The second and third phase of a collection, and the three of them in a row: the values that are left
  in the list to free are exactly the marked values that no marked value with references from elsewhere
  reaches, and every count is what it was, up to what the garbage refers to.
\<close>

subsection \<open>The scan of the roots\<close>

lemma gc_scan_roots_ok:
  assumes wf: "wf_heap getter g1" "sym_safe g1" and ring: "buffers g1 roots us"
    and ok: "\<And>i. i \<in> set roots \<Longrightarrow> root_ok getter g1 i" "\<And>i. i \<in> set roots \<Longrightarrow> set (rnodes g1 i) \<subseteq> M"
    and M: "M \<subseteq> nodes g1" "gc.closed getter g1 M" "M \<subseteq> gc.reach getter g1 (\<Union>i \<in> set roots. set (rnodes g1 i))"
    and col: "\<And>n. n \<in> M \<Longrightarrow> ncol g1 n = GC_GREY"
    and rc: "nrc g1 = (\<lambda>n. rc0 n - of_nat (gc.in_refs getter g1 M n))"
  defines "W \<equiv> M - gc.reach getter g1 (gc.kept getter g1 M rc0)"
  shows "\<exists>g. gc_scan_roots g1 = Some g \<and> shape g = shape g1 \<and> other g = other g1 \<and> zval_to_free g = zval_to_free g1 \<and>
    naddr g = naddr g1 \<and> sym_safe g \<and>
    ncol g = (\<lambda>n. if n \<in> W then GC_WHITE else if n \<in> M then GC_BLACK else ncol g1 n) \<and>
    nrc g = (\<lambda>n. rc0 n - of_nat (gc.in_refs getter g1 W n))"
proof -
  define Inv where "Inv ks rest g \<longleftrightarrow> ks @ rest = roots \<and> scanning getter g1 M rc0 g \<and>
    gc.settled getter g1 M (ncol g) {} \<and> (\<forall>i \<in> set ks. \<forall>n \<in> set (rnodes g1 i). ncol g n \<noteq> GC_GREY)" for ks rest g
  have fin: "finite M" using finite_subset [OF M(1) finite_nodes [OF wf(1)]] .
  have start: "Inv [] roots g1"
  proof -
    have "gc.scan_inv getter g1 M rc0 (ncol g1) (nrc g1)" by (rule gc.scan_start) (use col rc in simp_all)
    then show ?thesis using wf M col by (auto simp: Inv_def scanning_def gc.settled_def)
  qed
  have step: "\<exists>r g' r'. buf g i = Some r \<and> scan_root i r g = Some g' \<and> buf g' i = Some r' \<and> rb_next r' = first_root rest \<and>
      (Inv (ks @ [i]) rest g' \<or> Inv ks rest g')" if inv: "Inv ks (i # rest) g" for ks i rest g
  proof -
    have split: "roots = ks @ i # rest" and sc: "scanning getter g1 M rc0 g" and set: "gc.settled getter g1 M (ncol g) {}"
      and old: "\<forall>j \<in> set ks. \<forall>n \<in> set (rnodes g1 j). ncol g n \<noteq> GC_GREY"
      using inv by (simp_all add: Inv_def)
    obtain r where r: "buf g1 i = Some r" "rb_next r = first_root rest"
      using root_list_next [of g1 ks i rest] ring by (auto simp: buffers_def split)
    have sh: "shape g = shape g1" using sc by (simp add: scanning_def)
    have i: "root_ok getter g1 i" "set (rnodes g1 i) \<subseteq> M" using ok split by auto
    have t: "rtarget g1 i = Some (rb_handle r, rb_u r)" using r(1) by (simp add: rtarget_def)
    have same_buf: "buf g' = buf g1" if "scanning getter g1 M rc0 g'" for g'
      using that other_fields(2) [of g' g1] by (simp add: scanning_def)
    have run: "\<exists>g'. scan_root i r g = Some g' \<and> scanning getter g1 M rc0 g' \<and> scanned getter g1 M (rnodes g1 i) [] g g'"
    proof (cases "rb_handle r = 0")
      case True
      obtain a where a: "rb_u r = Pz a" "a \<in> dom (zvals g1)"
        using i(1) t True by (cases "rb_u r") (simp_all add: root_ok_def)
      then have "rnodes g1 i = elem g1 [a]" using t True by (simp add: rnodes_def)
      then show ?thesis using zval_scan_ok [OF sc a(2)] i(2) True a(1) by (simp add: scan_root_def)
    next
      case False
      then have u: "rb_u r = Handlers (getter (rb_handle r))" using i(1) t by (simp add: root_ok_def)
      show ?thesis
      proof (cases "object_buckets g1 = None")
        case True
        then have "rnodes g1 i = []" "object_buckets g = None"
          using t False shape_fields(5) [OF sh] by (simp_all add: rnodes_def)
        then show ?thesis using sc scanned_Nil False u by (simp add: scan_root_def zobj_scan_def)
      next
        case objects: False
        then have rn: "rnodes g1 i = [OB (rb_handle r)]" using t False by (simp add: rnodes_def)
        show ?thesis using zobj_scan_ok [OF sc, of "rb_handle r"] i(2) rn False u by (simp add: scan_root_def)
      qed
    qed
    then obtain g' where g': "scan_root i r g = Some g'" "scanning getter g1 M rc0 g'"
      "scanned getter g1 M (rnodes g1 i) [] g g'" by blast
    have "gc.settled getter g1 M (ncol g) (set (rnodes g1 i) \<union> {})" using set by (auto simp: gc.settled_def)
    then have "gc.settled getter g1 M (ncol g') (set [] \<union> {})" using g'(3) unfolding scanned_def by blast
    then have "gc.settled getter g1 M (ncol g') {}" by simp
    moreover have "\<forall>j \<in> set (ks @ [i]). \<forall>n \<in> set (rnodes g1 j). ncol g' n \<noteq> GC_GREY"
      using old g'(3) by (auto simp: scanned_def simp del: ncol.simps)
    ultimately have "Inv (ks @ [i]) rest g'" using g'(2) split by (simp add: Inv_def)
    then show ?thesis using r g'(1) same_buf [OF sc] same_buf [OF g'(2)] by simp
  qed
  obtain g ks where g: "walk_roots scan_root (first_root roots) g1 = Some g" "Inv ks [] g"
    using walk_roots_ok [where Inv = Inv and step = scan_root, OF step start] by blast
  have run: "gc_scan_roots g1 = Some g"
    using g(1) ring root_list_first [of g1 roots] by (simp add: gc_scan_roots_def buffers_def)
  have sc: "scanning getter g1 M rc0 g" and set: "gc.settled getter g1 M (ncol g) {}"
    and rts: "\<And>i n. \<lbrakk>i \<in> set roots; n \<in> set (rnodes g1 i)\<rbrakk> \<Longrightarrow> ncol g n \<noteq> GC_GREY"
    using g(2) by (auto simp: Inv_def simp del: ncol.simps)
  have inv: "gc.scan_inv getter g1 M rc0 (ncol g) (nrc g)" using sc by (simp add: scanning_def)
  have grey: "ncol g n \<noteq> GC_GREY" if "n \<in> M" for n
    by (rule gc.no_grey [OF inv set M(2) _ _ M(3) that]) (use ok(2) rts in auto)
  have white: "{n \<in> M. ncol g n = GC_WHITE} = W" unfolding W_def by (rule gc.scan_end [OF inv fin M(2) grey])
  have cases: "ncol g n = GC_WHITE \<or> ncol g n = GC_BLACK" if "n \<in> M" for n
    using inv grey [OF that] that unfolding gc.scan_inv_def by (cases "ncol g n") auto
  have "ncol g n = (if n \<in> W then GC_WHITE else if n \<in> M then GC_BLACK else ncol g1 n)" for n
    using white cases [of n] sc unfolding scanning_def by auto
  moreover have "nrc g n = rc0 n - of_nat (gc.in_refs getter g1 W n)" for n
  proof -
    have "{m \<in> M. ncol g m \<noteq> GC_BLACK} = W" using white cases by force
    then show ?thesis using inv unfolding gc.scan_inv_def by simp
  qed
  ultimately show ?thesis using run sc unfolding scanning_def by (intro exI [of _ g]) (simp add: fun_eq_iff)
qed

subsection \<open>Collecting from the roots\<close>

text \<open>\<open>g2\<close> is the state after the scan, \<open>W\<close> its white nodes; \<open>bl\<close> are the roots in the buffer and \<open>rest\<close>
  those whose nodes still have their address.\<close>

definition collecting :: "(nat \<Rightarrow> get_properties) \<Rightarrow> gc_state \<Rightarrow> node set \<Rightarrow> nat list \<Rightarrow> nat list \<Rightarrow> nat list \<Rightarrow> gc_state \<Rightarrow> node list \<Rightarrow> bool" where
  "collecting getter g2 W roots bl rest g L \<longleftrightarrow>
     shape g = shape g2 \<and> outside g = outside g2 \<and> sym_safe g \<and> rtarget g = rtarget g2 \<and> (\<exists>us. buffers g bl us) \<and>
     set bl \<subseteq> set roots \<and> distinct L \<and> set L \<subseteq> W \<and>
     ncol g = (\<lambda>n. if n \<in> set L then GC_BLACK else ncol g2 n) \<and> addressed g2 (set L) rest g \<and>
     (\<forall>a. nrc g (ZV a) = nrc g2 (ZV a) + of_nat (count_list (concat (map (nkids getter g2) L)) (ZV a)) +
        of_nat (count_list L (ZV a))) \<and>
     (\<forall>h. nrc g (OB h) = nrc g2 (OB h)) \<and> free_chain g (zval_to_free g) (rev (zvals_of L)) \<and>
     (\<forall>m \<in> set L. \<forall>k \<in> set (nkids getter g2 m) \<inter> W. k \<in> set L \<or> naddr g k \<noteq> No_Address) \<and>
     (\<forall>i \<in> set roots - set rest. set (rnodes g2 i) \<inter> W \<subseteq> set L)"

lemma free_chain_no_root:
  "free_chain g p xs \<Longrightarrow> a \<in> set xs \<Longrightarrow> naddr g (ZV a) \<noteq> Root i"
proof (induction xs arbitrary: p)
  case (Cons x xs)
  show ?case
  proof (cases "a = x")
    case True
    then show ?thesis using Cons.prems(1) by (cases xs) (auto simp del: naddr.simps)
  next
    case False
    then show ?thesis using Cons by (auto simp del: naddr.simps)
  qed
qed simp

lemma count_list_distinct: "distinct xs \<Longrightarrow> count_list xs x = (if x \<in> set xs then 1 else 0)"
  by (induction xs) auto

text \<open>Collecting from one root whose node \<open>n0\<close> has lost its address.\<close>

lemma collecting_visit:
  assumes c: "collecting getter g2 W roots (i # rest) (i # rest) g L"
    and W: "W = {n \<in> nodes g2. ncol g2 n = GC_WHITE}"
    and ok: "\<And>j. j \<in> set roots \<Longrightarrow> set (rnodes g2 j) \<subseteq> nodes g2"
    and r: "readdressed n0 No_Address g g1"
    and n0: "n0 \<in> nodes g2 \<Longrightarrow> n0 \<in> set (rnodes g2 i)" "set (rnodes g2 i) \<subseteq> {n0}"
    and v: "collects getter g2 (rnodes g2 i) g1 g' L2"
  shows "collecting getter g2 W roots (i # rest) rest g' (L @ L2)"
proof -
  have r1: "shape g1 = shape g" "other g1 = other g" "zval_to_free g1 = zval_to_free g" "sym_safe g \<longrightarrow> sym_safe g1"
    "ncol g1 = ncol g" "nrc g1 = nrc g" "naddr g1 = (naddr g)(n0 := No_Address)"
    using r by (simp_all add: readdressed_def)
  note o1 = other_fields [OF r1(2)]
  have ga: "shape g' = shape g1" "other g' = other g1" "sym_safe g1 \<longrightarrow> sym_safe g'"
    "ncol g' = (\<lambda>n. if n \<in> set L2 then GC_BLACK else ncol g1 n)"
    "\<And>n. n \<notin> set L2 \<Longrightarrow> naddr g' n = naddr g1 n"
    "\<And>a. nrc g' (ZV a) = nrc g1 (ZV a) + of_nat (count_list (concat (map (nkids getter g2) L2)) (ZV a)) + of_nat (count_list L2 (ZV a))"
    "\<And>h. nrc g' (OB h) = nrc g1 (OB h)"
    "\<And>xs. free_chain g1 (zval_to_free g1) xs \<Longrightarrow> free_chain g' (zval_to_free g') (rev (zvals_of L2) @ xs)"
    using v by (simp_all add: collects_def gathered_def count_mset del: ncol.simps nrc.simps naddr.simps)
  note o2 = other_fields [OF ga(2)]
  have vis: "distinct L2" "set L2 \<subseteq> collectable g2 g1" "set (rnodes g2 i) \<inter> collectable g2 g1 \<subseteq> set L2"
    "\<And>m. m \<in> set L2 \<Longrightarrow> set (nkids getter g2 m) \<inter> collectable g2 g1 \<subseteq> set L2"
    using v by (simp_all add: collects_def gc.visited_def)
  have L: "distinct L" "set L \<subseteq> W" "ncol g = (\<lambda>n. if n \<in> set L then GC_BLACK else ncol g2 n)"
    "addressed g2 (set L) (i # rest) g"
    "\<And>a. nrc g (ZV a) = nrc g2 (ZV a) + of_nat (count_list (concat (map (nkids getter g2) L)) (ZV a)) + of_nat (count_list L (ZV a))"
    "\<And>h. nrc g (OB h) = nrc g2 (OB h)" "free_chain g (zval_to_free g) (rev (zvals_of L))"
    "\<And>m k. \<lbrakk>m \<in> set L; k \<in> set (nkids getter g2 m) \<inter> W\<rbrakk> \<Longrightarrow> k \<in> set L \<or> naddr g k \<noteq> No_Address"
    "\<And>j. j \<in> set roots - set (i # rest) \<Longrightarrow> set (rnodes g2 j) \<inter> W \<subseteq> set L"
    using c unfolding collecting_def by blast+
  have sub: "set (i # rest) \<subseteq> set roots" using c by (simp add: collecting_def)
  have dist: "distinct (i # rest)" using c by (auto simp: collecting_def buffers_def)
  have A: "n \<in> collectable g2 g1 \<longleftrightarrow> n \<in> W \<and> n \<notin> set L \<and> naddr g1 n = No_Address" for n
    unfolding collectable_def W r1(5) L(3) by auto
  have addr1: "addressed g2 (set L) ([] @ rest) g1"
    by (rule addressed_drop [OF _ _ r n0]) (use L(4) dist ok sub in auto)
  have chain1: "free_chain g1 (zval_to_free g1) (rev (zvals_of L))"
  proof (unfold r1(3), rule free_chain_cong [OF L(7)])
    fix a assume a: "a \<in> set (rev (zvals_of L))"
    then have "ZV a \<in> nodes g2" using L(2) W by auto
    moreover have "naddr g (ZV a) \<noteq> Root i" using free_chain_no_root [OF L(7) a] .
    moreover have "naddr g n = Root i" if "n \<in> set (rnodes g2 i)" for n using L(4) that unfolding addressed_def by simp
    ultimately have "ZV a \<noteq> n0" using n0(1) by metis
    then show "naddr g1 (ZV a) = naddr g (ZV a)" using r1(7) by simp
  qed (use shape_dom [OF r1(1)] in simp)
  show ?thesis
    unfolding collecting_def
  proof (intro conjI)
    show "shape g' = shape g2" "outside g' = outside g2" "sym_safe g'" "rtarget g' = rtarget g2"
      "\<exists>us. buffers g' (i # rest) us" "set (i # rest) \<subseteq> set roots"
      using c ga(1,3) r1(1,4) o1 o2 by (simp_all add: collecting_def)
    show "distinct (L @ L2)" using L(1) vis(1,2) A by auto
    show "set (L @ L2) \<subseteq> W" using L(2) vis(2) A by auto
    show "ncol g' = (\<lambda>n. if n \<in> set (L @ L2) then GC_BLACK else ncol g2 n)" using ga(4) r1(5) L(3) by auto
    show "\<forall>h. nrc g' (OB h) = nrc g2 (OB h)" using ga(7) r1(6) L(6) by simp
    show "\<forall>a. nrc g' (ZV a) = nrc g2 (ZV a) + of_nat (count_list (concat (map (nkids getter g2) (L @ L2))) (ZV a)) +
        of_nat (count_list (L @ L2) (ZV a))"
      using ga(6) r1(6) L(5) by (simp add: algebra_simps del: nrc.simps nkids.simps)
    show "free_chain g' (zval_to_free g') (rev (zvals_of (L @ L2)))" using ga(8) [OF chain1] by simp
    show "addressed g2 (set (L @ L2)) rest g'"
      unfolding addressed_def
    proof (intro conjI ballI impI)
      fix j n assume "j \<in> set rest" "n \<in> set (rnodes g2 j)"
      then have "naddr g1 n = Root j" using addr1 unfolding addressed_def by simp
      moreover then have "n \<notin> set L2" using vis(2) A by auto
      ultimately show "naddr g' n = Root j" using ga(5) by simp
    next
      fix n assume n: "n \<in> nodes g2" "n \<notin> set (L @ L2)" "naddr g' n \<noteq> No_Address"
      then have "naddr g1 n \<noteq> No_Address" using ga(5) by auto
      then show "\<exists>j \<in> set rest. n \<in> set (rnodes g2 j)" using addr1 n(1,2) unfolding addressed_def by simp
    qed
    show "\<forall>m \<in> set (L @ L2). \<forall>k \<in> set (nkids getter g2 m) \<inter> W. k \<in> set (L @ L2) \<or> naddr g' k \<noteq> No_Address"
    proof (intro ballI)
      fix m k assume m: "m \<in> set (L @ L2)" and k: "k \<in> set (nkids getter g2 m) \<inter> W"
      have "k \<in> set (L @ L2) \<or> naddr g1 k \<noteq> No_Address"
      proof (cases "m \<in> set L2")
        case True
        then show ?thesis using vis(4) k A by auto
      next
        case False
        then have "k \<in> set L \<or> naddr g k \<noteq> No_Address" using L(8) m k by auto
        moreover have "k \<in> set (L @ L2) \<or> naddr g1 k \<noteq> No_Address" if "k = n0"
        proof -
          have "k \<in> set (rnodes g2 i)" using that n0(1) k W by blast
          then show ?thesis using vis(3) A k by auto
        qed
        ultimately show ?thesis using r1(7) by (cases "k = n0") auto
      qed
      then show "k \<in> set (L @ L2) \<or> naddr g' k \<noteq> No_Address" using ga(5) by (metis UnCI set_append)
    qed
    show "\<forall>j \<in> set roots - set rest. set (rnodes g2 j) \<inter> W \<subseteq> set (L @ L2)"
    proof
      fix j assume j: "j \<in> set roots - set rest"
      show "set (rnodes g2 j) \<inter> W \<subseteq> set (L @ L2)"
      proof (cases "j = i")
        case True
        have "naddr g1 n = No_Address" if "n \<in> set (rnodes g2 i)" for n using that n0(2) r1(7) by auto
        then show ?thesis using True vis(3) A by auto
      qed (use L(9) j in auto)
    qed
  qed
qed

text \<open>The root leaves the buffer.\<close>

lemma collecting_remove:
  assumes "collecting getter g2 W roots (i # rest) rest g L"
  shows "\<exists>g' r'. gc_remove_from_buffer i g = Some g' \<and> buf g' i = Some r' \<and> rb_next r' = first_root rest \<and>
    collecting getter g2 W roots rest rest g' L"
proof -
  obtain us where "buffers g ([] @ i # rest) us" using assms by (auto simp: collecting_def)
  then obtain g' r' where g': "gc_remove_from_buffer i g = Some g'" "buffer_only g g'" "rtarget g' = rtarget g"
    "buf g' i = Some r'" "rb_next r' = first_root rest" "buffers g' ([] @ rest) (i # us)"
    using drop_root by blast
  note f = buffer_fields [OF g'(2)]
  have "free_chain g' (zval_to_free g) xs = free_chain g (zval_to_free g) xs" for xs
    using f(4,6) free_chain_cong [of g "zval_to_free g" xs g'] free_chain_cong [of g' "zval_to_free g" xs g] by auto
  moreover have "\<exists>us. buffers g' rest us" using g'(6) by auto
  moreover have "addressed g2 (set L) rest g' = addressed g2 (set L) rest g" using f(4) by (simp add: addressed_def)
  ultimately have "collecting getter g2 W roots rest rest g' L"
    using assms f outside_buffer [OF g'(2)] g'(3) unfolding collecting_def by (simp del: ncol.simps nrc.simps naddr.simps nkids.simps)
  then show ?thesis using g'(1,4,5) by blast
qed

lemma collect_root_ok:
  assumes wf: "wf_heap getter g2" and W: "W = {n \<in> nodes g2. ncol g2 n = GC_WHITE}"
    and ok: "\<And>j. j \<in> set roots \<Longrightarrow> root_ok getter g2 j"
    and c: "collecting getter g2 W roots (i # rest) (i # rest) g L"
  shows "\<exists>r g' r' L'. buf g i = Some r \<and> collect_root i r g = Some g' \<and> buf g' i = Some r' \<and> rb_next r' = first_root rest \<and>
    collecting getter g2 W roots rest rest g' L'"
proof -
  have sh: "shape g = shape g2" "rtarget g = rtarget g2" "sym_safe g" and "i \<in> set roots"
    using c by (simp_all add: collecting_def)
  then have ri: "root_ok getter g2 i" using ok by blast
  obtain us where "buffers g ([] @ i # rest) us" using c by (auto simp: collecting_def)
  then obtain r where r: "buf g i = Some r" using root_list_next(2) [of g "[]" i rest] by (auto simp: buffers_def)
  have t: "rtarget g2 i = Some (rb_handle r, rb_u r)" using r sh(2) by (metis rtarget_def option.map(2))
  have rn: "\<And>j. j \<in> set roots \<Longrightarrow> set (rnodes g2 j) \<subseteq> nodes g2" using ok rnodes_nodes by blast
  have finish: ?thesis if "collecting getter g2 W roots (i # rest) rest g3 L'"
    "collect_root i r g = gc_remove_from_buffer i g3" for g3 L'
    using collecting_remove [OF that(1)] that(2) r by auto
  have visit: "collecting getter g2 W roots (i # rest) rest g3 (L @ L2)"
    if "readdressed n0 No_Address g g1" "n0 \<in> nodes g2 \<Longrightarrow> n0 \<in> set (rnodes g2 i)" "set (rnodes g2 i) \<subseteq> {n0}"
      "collects getter g2 (rnodes g2 i) g1 g3 L2" for n0 g1 g3 L2
    using collecting_visit [OF c W rn that] .
  show ?thesis
  proof (cases "rb_handle r = 0")
    case True
    obtain a where a: "rb_u r = Pz a" "a \<in> dom (zvals g2)"
      using ri t True by (cases "rb_u r") (simp_all add: root_ok_def)
    have n: "rnodes g2 i = elem g2 [a]" using t True a(1) by (simp add: rnodes_def)
    obtain z where z: "zvals g a = Some z" using a(2) shape_dom [OF sh(1)] by blast
    obtain g1 where g1: "GC_ZVAL_SET_ADDRESS a No_Address g = Some g1" "readdressed (ZV a) No_Address g g1"
      using zval_readdressed [OF z] by blast
    have sh1: "shape g1 = shape g2" "sym_safe g1" using g1(2) sh(1,3) by (simp_all add: readdressed_def)
    obtain g3 L2 where g3: "zval_collect_white a g1 = Some g3" "collects getter g2 (elem g2 [a]) g1 g3 L2"
      using zval_collect_white_ok [OF wf sh1 a(2)] by blast
    have e: "ZV a \<in> nodes g2 \<Longrightarrow> ZV a \<in> set (rnodes g2 i)" "set (rnodes g2 i) \<subseteq> {ZV a}"
      by (auto simp: n elem_def nodes_def)
    show ?thesis using finish [OF visit [OF g1(2) e g3(2) [folded n]]] True a(1) g1(1) g3(1)
      by (simp add: collect_root_def)
  next
    case False
    have u: "rb_u r = Handlers (getter (rb_handle r))" "object_buckets g2 \<noteq> None \<longrightarrow> get_obj (rb_handle r) g2 \<noteq> None"
      using ri t False by (simp_all add: root_ok_def)
    show ?thesis
    proof (cases "object_buckets g2 = None")
      case True
      then have n: "rnodes g2 i = []" "object_buckets g = None"
        using t False shape_fields(5) [OF sh(1)] by (simp_all add: rnodes_def)
      have "addressed g2 (set L) rest g"
        using addressed_none [of g2 "set L" "[]" i rest g] n(1) c by (simp add: collecting_def)
      moreover have "\<forall>j \<in> set roots - set rest. set (rnodes g2 j) \<inter> W \<subseteq> set L"
        using c n(1) unfolding collecting_def by (metis (no_types, lifting) Diff_iff Int_lower1 empty_set order_trans set_ConsD empty_subsetI)
      ultimately have "collecting getter g2 W roots (i # rest) rest g L" using c unfolding collecting_def by blast
      then show ?thesis using finish False n(2) by (simp add: collect_root_def)
    next
      case objects: False
      then have h: "get_obj (rb_handle r) g2 \<noteq> None" using u(2) by blast
      have n: "rnodes g2 i = [OB (rb_handle r)]" using t False objects by (simp add: rnodes_def)
      obtain b where b: "get_obj (rb_handle r) g = Some b" using h shape_get_obj [OF sh(1), of "rb_handle r"] by auto
      have buckets: "object_buckets g \<noteq> None" using objects shape_fields(5) [OF sh(1)] by simp
      obtain g1 where g1: "GC_SET_ADDRESS (rb_handle r) No_Address g = Some g1"
        "readdressed (OB (rb_handle r)) No_Address g g1"
        using obj_readdressed [OF b] by blast
      have sh1: "shape g1 = shape g2" "sym_safe g1" using g1(2) sh(1,3) by (simp_all add: readdressed_def)
      obtain g3 L2 where g3: "zobj_collect_white (rb_handle r) (getter (rb_handle r)) g1 = Some g3"
        "collects getter g2 [OB (rb_handle r)] g1 g3 L2"
        using zobj_collect_white_ok [OF wf sh1 h] by blast
      have e: "OB (rb_handle r) \<in> nodes g2 \<Longrightarrow> OB (rb_handle r) \<in> set (rnodes g2 i)" "set (rnodes g2 i) \<subseteq> {OB (rb_handle r)}"
        by (simp_all add: n)
      have "collect_root i r g = gc_remove_from_buffer i g3"
        using False u(1) g1(1) g3(1) buckets by (simp add: collect_root_def del: not_None_eq)
      then show ?thesis using finish [OF visit [OF g1(2) e g3(2) [folded n]]] by simp
    qed
  qed
qed

lemma gc_collect_roots_ok:
  assumes wf: "wf_heap getter g2" "sym_safe g2" and W: "W = {n \<in> nodes g2. ncol g2 n = GC_WHITE}"
    and ring: "buffers g2 roots us" and ok: "\<And>i. i \<in> set roots \<Longrightarrow> root_ok getter g2 i"
    and addr: "addressed g2 {} roots g2" and free: "zval_to_free g2 = FREE_LIST_END"
    and R: "W = M - R" "gc.closed getter g2 R" "gc.closed getter g2 M"
      "\<And>i. i \<in> set roots \<Longrightarrow> set (rnodes g2 i) \<subseteq> M" "M \<subseteq> gc.reach getter g2 (\<Union>i \<in> set roots. set (rnodes g2 i))"
  shows "\<exists>g L us. gc_collect_roots g2 = Some g \<and> shape g = shape g2 \<and> outside g = outside g2 \<and> sym_safe g \<and>
    buffers g [] us \<and> distinct L \<and> set L = W \<and>
    ncol g = (\<lambda>n. if n \<in> W then GC_BLACK else ncol g2 n) \<and> addressed g2 W [] g \<and>
    (\<forall>a. nrc g (ZV a) = nrc g2 (ZV a) + of_nat (gc.in_refs getter g2 W (ZV a)) + (if ZV a \<in> W then 1 else 0)) \<and>
    (\<forall>h. nrc g (OB h) = nrc g2 (OB h)) \<and> free_chain g (zval_to_free g) (rev (zvals_of L))"
proof -
  have start: "collecting getter g2 W roots roots roots g2 []"
    using wf ring addr free unfolding collecting_def by (intro conjI exI [of _ us]) simp_all
  define Inv where "Inv ks rest g \<longleftrightarrow> (\<exists>L. collecting getter g2 W roots rest rest g L)" for ks :: "nat list" and rest g
  have step: "\<exists>r g' r'. buf g i = Some r \<and> collect_root i r g = Some g' \<and> buf g' i = Some r' \<and> rb_next r' = first_root rest \<and>
      (Inv (ks @ [i]) rest g' \<or> Inv ks rest g')" if inv: "Inv ks (i # rest) g" for ks i rest g
    using collect_root_ok [OF wf(1) W ok] inv unfolding Inv_def by blast
  have "Inv [] roots g2" using start by (auto simp: Inv_def)
  then obtain g where g: "walk_roots collect_root (first_root roots) g2 = Some g" "Inv [] [] g"
    using walk_roots_ok [where Inv = Inv and step = collect_root, OF step] by (metis Inv_def)
  have run: "gc_collect_roots g2 = Some g"
    using g(1) ring root_list_first [of g2 roots] by (simp add: gc_collect_roots_def buffers_def)
  obtain L where c: "collecting getter g2 W roots [] [] g L" using g(2) by (auto simp: Inv_def)
  have L: "distinct L" "set L \<subseteq> W" "addressed g2 (set L) [] g"
    "\<And>m k. \<lbrakk>m \<in> set L; k \<in> set (nkids getter g2 m) \<inter> W\<rbrakk> \<Longrightarrow> k \<in> set L \<or> naddr g k \<noteq> No_Address"
    "\<And>i. i \<in> set roots \<Longrightarrow> set (rnodes g2 i) \<inter> W \<subseteq> set L"
    using c unfolding collecting_def by auto
  have W_nodes: "W \<subseteq> nodes g2" using W by blast
  have "gc.closed getter g2 (R \<union> set L)"
    unfolding gc.closed_def
  proof
    fix m assume m: "m \<in> R \<union> set L"
    show "set (nkids getter g2 m) \<subseteq> R \<union> set L"
    proof (cases "m \<in> R")
      case True
      then show ?thesis using R(2) unfolding gc.closed_def by blast
    next
      case False
      then have "m \<in> set L" using m by blast
      show ?thesis
      proof
        fix k assume k: "k \<in> set (nkids getter g2 m)"
        have "m \<in> M" using \<open>m \<in> set L\<close> L(2) R(1) by blast
        then have "k \<in> M" using R(3) k unfolding gc.closed_def by blast
        show "k \<in> R \<union> set L"
        proof (cases "k \<in> R")
          case False
          then have "k \<in> W" using \<open>k \<in> M\<close> R(1) by blast
          then have "k \<in> set L \<or> naddr g k \<noteq> No_Address" using L(4) \<open>m \<in> set L\<close> k by blast
          moreover have "k \<notin> set L \<Longrightarrow> naddr g k = No_Address"
            using L(3) W_nodes \<open>k \<in> W\<close> unfolding addressed_def by auto
          ultimately show ?thesis by blast
        qed simp
      qed
    qed
  qed
  moreover have "(\<Union>i \<in> set roots. set (rnodes g2 i)) \<subseteq> R \<union> set L" using L(5) R(1,4) by blast
  ultimately have "gc.reach getter g2 (\<Union>i \<in> set roots. set (rnodes g2 i)) \<subseteq> R \<union> set L" by (intro gc.reach_least)
  then have LW: "set L = W" using R(1,5) L(2) by blast
  have "count_list (concat (map (nkids getter g2) L)) n = gc.in_refs getter g2 W n" for n
    using gc.count_kids [OF L(1)] LW by simp
  moreover have "count_list L n = (if n \<in> W then 1 else 0)" for n
    using count_list_distinct [OF L(1), of n] LW by simp
  ultimately show ?thesis
    using run c LW unfolding collecting_def by (intro exI [of _ g] exI [of _ L]) auto
qed

subsection \<open>The three phases\<close>

definition garbage :: "(nat \<Rightarrow> get_properties) \<Rightarrow> gc_state \<Rightarrow> nat list \<Rightarrow> node set" where
  "garbage getter g roots =
     marked getter g roots - gc.reach getter g (gc.kept getter g (marked getter g roots) (nrc g))"

definition gc_phases :: "gc_state \<Rightarrow> gc_state option" where
  "gc_phases g = do { g \<leftarrow> gc_mark_roots g; g \<leftarrow> gc_scan_roots g; gc_collect_roots g }"

text \<open>What the three phases make of the state \<open>g\<close>: \<open>xs\<close> is the list to free.\<close>

definition phases_result :: "(nat \<Rightarrow> get_properties) \<Rightarrow> gc_state \<Rightarrow> nat list \<Rightarrow> gc_state \<Rightarrow> addr list \<Rightarrow> bool" where
  "phases_result getter g roots g' xs \<longleftrightarrow>
     free_chain g' (zval_to_free g') xs \<and> distinct xs \<and> set xs = {a. ZV a \<in> garbage getter g roots} \<and>
     shape g' = shape g \<and> outside g' = outside g \<and> sym_safe g' \<and> (\<exists>us. buffers g' [] us) \<and>
     ncol g' = (\<lambda>n. if n \<in> marked getter g roots then GC_BLACK else ncol g n) \<and>
     (\<forall>n \<in> nodes g - garbage getter g roots. naddr g' n = No_Address) \<and>
     (\<forall>a. nrc g' (ZV a) = nrc g (ZV a) + (if ZV a \<in> garbage getter g roots then 1 else 0)) \<and>
     (\<forall>h. nrc g' (OB h) = nrc g (OB h) - of_nat (gc.in_refs getter g (garbage getter g roots) (OB h)))"

lemma shape_kids: "shape g' = shape g \<Longrightarrow> nkids getter g' = nkids getter g"
  using shape_nkids by (intro ext) blast

lemma shape_root_ok: "\<lbrakk>shape g' = shape g; rtarget g' = rtarget g\<rbrakk> \<Longrightarrow> root_ok getter g' i = root_ok getter g i"
  unfolding root_ok_def by (simp only: shape_dom [of g' g] shape_fields(5) [of g' g] shape_get_obj [of g' g])

lemma shape_rnodes: "\<lbrakk>shape g' = shape g; rtarget g' = rtarget g\<rbrakk> \<Longrightarrow> rnodes g' i = rnodes g i"
  unfolding rnodes_def by (simp only: shape_elem [of g' g] shape_fields(5) [of g' g])

lemma shape_addressed: "\<lbrakk>shape g' = shape g; rtarget g' = rtarget g\<rbrakk> \<Longrightarrow> addressed g' X l h = addressed g X l h"
  unfolding addressed_def by (simp only: shape_rnodes [of g' g] shape_nodes [of g' g])

lemma gc_phases_ok:
  assumes ready: "gc_ready getter g0 roots us" and free: "zval_to_free g0 = FREE_LIST_END"
  shows "\<exists>g xs. gc_phases g0 = Some g \<and> phases_result getter g0 roots g xs"
proof -
  let ?M = "marked getter g0 roots" and ?W = "garbage getter g0 roots"
  note M = marked_nodes [OF ready]
  have wf: "wf_heap getter g0" and ok: "\<And>i. i \<in> set roots \<Longrightarrow> root_ok getter g0 i"
    using ready by (simp_all add: gc_ready_def)
  obtain g1 ks us1 where g1: "gc_mark_roots g0 = Some g1" "shape g1 = shape g0" "outside g1 = outside g0"
    "zval_to_free g1 = zval_to_free g0" "sym_safe g1" "rtarget g1 = rtarget g0" "buffers g1 ks us1" "addressed g0 {} ks g1"
    "set ks \<subseteq> set roots" "ncol g1 = (\<lambda>n. if n \<in> ?M then GC_GREY else ncol g0 n)"
    "nrc g1 = (\<lambda>n. nrc g0 n - of_nat (gc.in_refs getter g0 ?M n))" "\<forall>i \<in> set ks. set (rnodes g0 i) \<subseteq> ?M"
    "?M \<subseteq> gc.reach getter g0 (\<Union>i \<in> set ks. set (rnodes g0 i))"
    using gc_mark_roots_ok [OF ready] by (elim exE conjE) (rule that; assumption)
  note k1 = shape_kids [OF g1(2), of getter] and n1 = shape_rnodes [OF g1(2,6)] and o1 = shape_root_ok [OF g1(2,6), of getter]
  have wf1: "wf_heap getter g1" using wf shape_wf [OF g1(2)] by simp
  have W1: "?M - gc.reach getter g1 (gc.kept getter g1 ?M (nrc g0)) = ?W" by (simp add: garbage_def k1)
  have "\<exists>g. gc_scan_roots g1 = Some g \<and> shape g = shape g1 \<and> other g = other g1 \<and> zval_to_free g = zval_to_free g1 \<and>
    naddr g = naddr g1 \<and> sym_safe g \<and>
    ncol g = (\<lambda>n. if n \<in> ?W then GC_WHITE else if n \<in> ?M then GC_BLACK else ncol g1 n) \<and>
    nrc g = (\<lambda>n. nrc g0 n - of_nat (gc.in_refs getter g1 ?W n))"
    unfolding W1 [symmetric]
  proof (rule gc_scan_roots_ok [OF wf1 g1(5,7)])
    show "nrc g1 = (\<lambda>n. nrc g0 n - of_nat (gc.in_refs getter g1 ?M n))" using g1(11) by (simp add: k1)
    show "?M \<subseteq> gc.reach getter g1 (\<Union>i \<in> set ks. set (rnodes g1 i))" using g1(13) by (simp add: k1 n1)
    show "?M \<subseteq> nodes g1" using M(1) shape_nodes [OF g1(2)] by simp
    show "gc.closed getter g1 ?M" using M(2) by (simp add: k1)
  qed (use ok o1 n1 g1(9,10,12) in auto)
  then obtain g2 where g2: "gc_scan_roots g1 = Some g2" "shape g2 = shape g1" "other g2 = other g1"
    "zval_to_free g2 = zval_to_free g1" "naddr g2 = naddr g1" "sym_safe g2"
    "ncol g2 = (\<lambda>n. if n \<in> ?W then GC_WHITE else if n \<in> ?M then GC_BLACK else ncol g1 n)"
    "nrc g2 = (\<lambda>n. nrc g0 n - of_nat (gc.in_refs getter g1 ?W n))"
    by (elim exE conjE) (rule that; assumption)
  note f2 = other_fields [OF g2(3)]
  have s2: "shape g2 = shape g0" "rtarget g2 = rtarget g0" using g1(2,6) g2(2) f2(3) by simp_all
  note k2 = shape_kids [OF s2(1), of getter] and n2 = shape_rnodes [OF s2] and o2 = shape_root_ok [OF s2, of getter]
  have wf2: "wf_heap getter g2" using wf shape_wf [OF s2(1)] by simp
  have white: "?W = {n \<in> nodes g2. ncol g2 n = GC_WHITE}"
  proof -
    have "n \<in> nodes g0 \<and> ncol g2 n = GC_WHITE \<longleftrightarrow> n \<in> ?W" for n
      using M(1) ready g2(7) g1(10) unfolding garbage_def gc_ready_def by auto
    then show ?thesis using shape_nodes [OF s2(1)] by auto
  qed
  have "\<exists>g L us. gc_collect_roots g2 = Some g \<and> shape g = shape g2 \<and> outside g = outside g2 \<and> sym_safe g \<and>
    buffers g [] us \<and> distinct L \<and> set L = ?W \<and>
    ncol g = (\<lambda>n. if n \<in> ?W then GC_BLACK else ncol g2 n) \<and> addressed g2 ?W [] g \<and>
    (\<forall>a. nrc g (ZV a) = nrc g2 (ZV a) + of_nat (gc.in_refs getter g2 ?W (ZV a)) + (if ZV a \<in> ?W then 1 else 0)) \<and>
    (\<forall>h. nrc g (OB h) = nrc g2 (OB h)) \<and> free_chain g (zval_to_free g) (rev (zvals_of L))"
  proof (rule gc_collect_roots_ok [where R = "gc.reach getter g0 (gc.kept getter g0 ?M (nrc g0))" and M = ?M])
    show "buffers g2 ks us1" using g1(7) f2(4) by simp
    show "addressed g2 {} ks g2" 
    proof -
      have "addressed g0 {} ks g2" using g1(8) unfolding addressed_def g2(5) .
      then show ?thesis using shape_addressed [OF s2] by blast
    qed
    show "zval_to_free g2 = FREE_LIST_END" using free g1(4) g2(4) by simp
    show "?W = ?M - gc.reach getter g0 (gc.kept getter g0 ?M (nrc g0))" by (simp add: garbage_def)
    show "gc.closed getter g2 (gc.reach getter g0 (gc.kept getter g0 ?M (nrc g0)))" unfolding k2 by (rule gc.reach_closed)
    show "gc.closed getter g2 ?M" unfolding k2 by (rule M(2))
    show "?M \<subseteq> gc.reach getter g2 (\<Union>i \<in> set ks. set (rnodes g2 i))" using g1(13) by (simp add: k2 n2)
  qed (use wf2 g2(6) white ok o2 n2 g1(9,12) in auto)
  then obtain g3 L us3 where g3: "gc_collect_roots g2 = Some g3" "shape g3 = shape g2" "outside g3 = outside g2" "sym_safe g3"
    "buffers g3 [] us3" "distinct L" "set L = ?W" "ncol g3 = (\<lambda>n. if n \<in> ?W then GC_BLACK else ncol g2 n)" "addressed g2 ?W [] g3"
    "\<forall>a. nrc g3 (ZV a) = nrc g2 (ZV a) + of_nat (gc.in_refs getter g2 ?W (ZV a)) + (if ZV a \<in> ?W then 1 else 0)"
    "\<forall>h. nrc g3 (OB h) = nrc g2 (OB h)" "free_chain g3 (zval_to_free g3) (rev (zvals_of L))"
    by (elim exE conjE) (rule that; assumption)
  have "gc_phases g0 = Some g3" using g1(1) g2(1) g3(1) by (simp add: gc_phases_def)
  moreover have "phases_result getter g0 roots g3 (rev (zvals_of L))"
    unfolding phases_result_def
  proof (intro conjI)
    show "ncol g3 = (\<lambda>n. if n \<in> ?M then GC_BLACK else ncol g0 n)"
      using g3(8) g2(7) g1(10) by (auto simp: garbage_def)
    show "\<forall>n \<in> nodes g0 - ?W. naddr g3 n = No_Address"
      using g3(9) shape_nodes [OF s2(1)] unfolding addressed_def by auto
    show "\<forall>a. nrc g3 (ZV a) = nrc g0 (ZV a) + (if ZV a \<in> ?W then 1 else 0)"
      using g3(10) g2(8) by (simp add: k1 k2)
    show "\<forall>h. nrc g3 (OB h) = nrc g0 (OB h) - of_nat (gc.in_refs getter g0 ?W (OB h))"
      using g3(11) g2(8) by (simp add: k1)
    show "distinct (rev (zvals_of L))" using distinct_zvals_of [OF g3(6)] by simp
    show "set (rev (zvals_of L)) = {a. ZV a \<in> ?W}" using g3(7) by simp
  qed (use g3 s2 g1(3) f2(1) in auto)
  ultimately show ?thesis by blast
qed

end
