(* ===== verification/ZendGcBuffer.thy ===== *)
theory ZendGcBuffer
  imports ZendGcCollection
begin

text \<open>
  The operations on the buffer of possible roots: starting and resetting the collector, registering a
  value as a possible root, and taking a value out of the buffer when it is released.
\<close>

subsection \<open>A buffer for a new root\<close>

text \<open>\<open>i\<close> is a buffer that is neither in the ring nor in the chain \<open>us\<close>.\<close>

definition spare :: "gc_state \<Rightarrow> nat list \<Rightarrow> nat \<Rightarrow> nat list \<Rightarrow> bool" where
  "spare g is i us \<longleftrightarrow> root_list g is \<and> unused_chain g (unused g) us \<and> distinct (i # is @ us) \<and>
     set (i # is @ us) = {..<first_unused g} \<and> first_unused g \<le> last_unused g"

definition room :: "gc_state \<Rightarrow> bool" where
  "room g \<longleftrightarrow> unused g \<noteq> None \<or> first_unused g \<noteq> last_unused g"

lemma new_root_ok:
  assumes b: "buffers g is us" and room: "room g"
  shows "\<exists>i g1 us1. new_root env zv again g = Some (Some i, g1) \<and> spare g1 is i us1 \<and> heap_of g1 = heap_of g \<and>
    rtarget g1 = rtarget g \<and> free_list g1 = free_list g"
proof (cases "unused g")
  case None
  then have us: "us = []" using b by (cases us) (auto simp: buffers_def)
  let ?g = "g\<lparr>first_unused := first_unused g + 1\<rparr>"
  have facts: "root_list g is" "distinct is" "set is = {..<first_unused g}" "first_unused g < last_unused g"
    using b us None room by (auto simp: buffers_def room_def)
  have "first_unused g \<notin> set is" using facts(3) by simp
  moreover have "root_list ?g is" using facts(1) linked_same(2) [of ?g g "is"] by simp
  moreover have "set (first_unused g # is) = {..<Suc (first_unused g)}" using facts(3) by (simp add: lessThan_Suc)
  ultimately have "spare ?g is (first_unused g) []"
    using facts(2,4) None by (simp add: spare_def)
  moreover have "new_root env zv again g = Some (Some (first_unused g), ?g)"
    using None room by (simp add: new_root_def room_def)
  ultimately show ?thesis
    by (intro exI [of _ "first_unused g"] exI [of _ ?g] exI [of _ "[]"]) (simp add: heap_of_def rtarget_def fun_eq_iff)
next
  case (Some p)
  obtain i us1 where us: "us = i # us1" "p = Buf i" using b Some by (cases us) (auto simp: buffers_def)
  then obtain r where r: "buf g i = Some r" "unused_chain g (rb_prev r) us1"
    using b Some by (auto simp: buffers_def)
  let ?g = "g\<lparr>unused := rb_prev r\<rparr>"
  have facts: "root_list g is" "distinct (is @ i # us1)" "set (is @ i # us1) = {..<first_unused g}"
    "first_unused g \<le> last_unused g"
    using b us by (simp_all add: buffers_def)
  have "root_list ?g is" using facts(1) linked_same(2) [of ?g g "is"] by simp
  moreover have "unused_chain ?g (rb_prev r) us1" by (rule unused_chain_cong [OF r(2)]) simp
  moreover have "distinct (i # is @ us1)" using facts(2) by auto
  moreover have "set (i # is @ us1) = {..<first_unused g}" using facts(3) by auto
  ultimately have "spare ?g is i us1" using facts(4) by (simp add: spare_def)
  moreover have "new_root env zv again g = Some (Some i, ?g)"
    using Some us r by (simp add: new_root_def take_unused_def)
  ultimately show ?thesis
    by (intro exI [of _ i] exI [of _ ?g] exI [of _ us1]) (simp add: heap_of_def rtarget_def fun_eq_iff)
qed

lemma insert_root_ok:
  assumes "spare g is i us"
  shows "\<exists>g'. insert_root i h u g = Some g' \<and> buffers g' (i # is) us \<and> heap_of g' = heap_of g \<and>
    rtarget g' = (rtarget g)(i \<mapsto> (h, u)) \<and> free_list g' = free_list g"
proof -
  let ?Q = "map Buf is @ [Roots]"
  define q where "q = first_root is"
  have ring: "root_list g is" and ch: "unused_chain g (unused g) us" and dist: "distinct (i # is @ us)"
    using assms by (simp_all add: spare_def)
  have q: "roots_next g = q" using root_list_first [OF ring] by (simp add: q_def)
  have Q: "?Q = q # tl ?Q" by (cases "is") (simp_all add: q_def first_root_def)
  have lQ: "linked g ?Q" using ring Q unfolding root_list_def by (metis append_Cons linked.simps(1))
  let ?r = "\<lparr>rb_prev = Some Roots, rb_next = q, rb_handle = h, rb_u = u\<rparr>"
  let ?g = "g\<lparr>buf := (buf g)(i \<mapsto> ?r)\<rparr>"
  have n1: "nxt ?g x = ((nxt g)(Buf i := Some q)) x" "prv ?g x = ((prv g)(Buf i := Some Roots)) x" for x
    by (cases x; simp)+
  have q_ne: "q \<noteq> Buf i" using dist by (cases "is") (auto simp: q_def first_root_def)
  have "nxt ?g q \<noteq> None"
  proof (cases "is")
    case (Cons j js)
    then have "linked g (Buf j # (map Buf js @ [Roots]))" using lQ by simp
    then have "nxt g q \<noteq> None" using Cons by (cases js) (auto simp: q_def first_root_def)
    then show ?thesis using n1(1) q_ne by simp
  qed (simp add: q_def first_root_def)
  then obtain g1 where g1: "set_prev q (Buf i) ?g = Some g1" "buffer_only ?g g1" "prv g1 = (prv ?g)(q := Some (Buf i))"
    "nxt g1 = nxt ?g" "rtarget g1 = rtarget ?g" "unused g1 = unused ?g" "\<forall>j. Buf j \<noteq> q \<longrightarrow> buf g1 j = buf ?g j"
    using set_prev_ok by blast
  let ?g2 = "g1\<lparr>roots_next := Buf i\<rparr>"
  have b2: "buf ?g2 j = buf g j" if "Buf j \<noteq> q" "j \<noteq> i" for j using g1(7) that by simp
  have n2: "nxt ?g2 Roots = Some (Buf i)" "\<And>j. j \<noteq> i \<Longrightarrow> nxt ?g2 (Buf j) = nxt g (Buf j)" "nxt ?g2 (Buf i) = Some q"
  proof -
    have e: "nxt ?g2 (Buf j) = nxt g1 (Buf j)" for j by simp
    show "nxt ?g2 Roots = Some (Buf i)" by simp
    show "nxt ?g2 (Buf i) = Some q" unfolding e g1(4) n1(1) by simp
    show "nxt ?g2 (Buf j) = nxt g (Buf j)" if "j \<noteq> i" for j using that unfolding e g1(4) n1(1) by simp
  qed
  have p2: "prv ?g2 x = (if x = q then Some (Buf i) else if x = Buf i then Some Roots else prv g x)" for x
  proof -
    have "prv ?g2 x = prv g1 x" by (cases x) simp_all
    then show ?thesis unfolding g1(3) using n1(2) by simp
  qed
  have "linked ?g2 ?Q"
  proof (rule linked_cong [OF lQ])
    fix x assume "x \<in> set (butlast ?Q)"
    then obtain j where "x = Buf j" "j \<noteq> i" using dist by auto
    then show "nxt ?g2 x = nxt g x" using n2(2) by blast
  next
    fix x assume x: "x \<in> set (tl ?Q)"
    then have "x \<noteq> q" using dist by (cases "is") (auto simp: q_def first_root_def)
    moreover have "x \<noteq> Buf i" using x dist by (cases "is") auto
    ultimately show "prv ?g2 x = prv g x" using p2 by simp
  qed
  then have "linked ?g2 (q # tl ?Q)" using Q by simp
  then have "linked ?g2 (Roots # Buf i # q # tl ?Q)" using n2(1,3) p2 q_ne by (simp del: nxt.simps prv.simps)
  then have ring2: "root_list ?g2 (i # is)" using dist Q by (simp add: root_list_def)
  have "unused_chain ?g2 (unused ?g2) us"
  proof -
    have "buf ?g2 v = buf g v" if "v \<in> set us" for v
      by (rule b2) (use that dist in \<open>auto simp: q_def first_root_def split: list.splits\<close>)
    then show ?thesis using unused_chain_cong [OF ch, of ?g2] g1(6) by simp
  qed
  moreover have hp: "heap_of ?g2 = heap_of g" "first_unused ?g2 = first_unused g" "last_unused ?g2 = last_unused g"
    "free_list ?g2 = free_list g"
    using g1(2) by (auto simp: buffer_only_def heap_of_def)
  ultimately have "buffers ?g2 (i # is) us" using ring2 assms by (simp add: buffers_def spare_def)
  moreover have "rtarget ?g2 = (rtarget g)(i \<mapsto> (h, u))"
  proof -
    have "rtarget ?g2 = rtarget g1" "rtarget ?g = (rtarget g)(i \<mapsto> (h, u))" by (simp_all add: rtarget_def fun_eq_iff)
    then show ?thesis using g1(5) by simp
  qed
  moreover have "insert_root i h u g = Some ?g2" using g1(1) q by (simp add: insert_root_def)
  ultimately show ?thesis using hp by blast
qed

subsection \<open>Registering\<close>

text \<open>A node \<open>n0\<close> that has become purple gets a root of its own; \<open>setp\<close> stores its address.\<close>

lemma register_ok:
  assumes ready: "gc_ready getter g is us" and room: "room g" and fresh: "n0 \<in> nodes g \<Longrightarrow> naddr g n0 = No_Address"
    and w: "walked GC_PURPLE 1 {#} L g ga"
    and tgt: "\<And>g' i. \<lbrakk>shape g' = shape g; rtarget g' i = Some (h, u)\<rbrakk> \<Longrightarrow>
      root_ok getter g' i \<and> set (rnodes g' i) = {n0} \<inter> nodes g"
    and addr: "\<And>g' p. shape g' = shape g \<Longrightarrow> \<exists>g''. setp p g' = Some g'' \<and> readdressed n0 p g' g''"
  shows "\<exists>i g1 g2 g3 us'. new_root env zv again ga = Some (Some i, g1) \<and> heap_of g1 = heap_of ga \<and>
    insert_root i h u g1 = Some g2 \<and> heap_of g2 = heap_of ga \<and> setp (Root i) g2 = Some g3 \<and> gc_ready getter g3 (i # is) us' \<and>
    shape g3 = shape g \<and> ncol g3 = ncol ga \<and> nrc g3 = nrc g \<and> naddr g3 = (naddr g)(n0 := Root i)"
proof -
  have wa: "shape ga = shape g" "other ga = other g" "naddr ga = naddr g" "sym_safe g \<longrightarrow> sym_safe ga" "nrc ga = nrc g"
    "ncol ga = (\<lambda>n. if n \<in> set L then GC_PURPLE else ncol g n)"
    using w by (simp_all add: walked_def)
  note oa = other_fields [OF wa(2)]
  have old: "wf_heap getter g" "sym_safe g" "\<And>n. n \<in> nodes g \<Longrightarrow> ncol g n \<in> {GC_BLACK, GC_PURPLE}" "buffers g is us"
    "\<And>j. j \<in> set is \<Longrightarrow> root_ok getter g j" "addressed g {} is g"
    using ready by (simp_all add: gc_ready_def)
  have "room ga"
    using room arg_cong [OF wa(2), of unused] arg_cong [OF wa(2), of first_unused] arg_cong [OF wa(2), of last_unused]
    by (simp add: room_def other_def)
  then obtain i g1 us1 where g1: "new_root env zv again ga = Some (Some i, g1)" "spare g1 is i us1" "heap_of g1 = heap_of ga"
    "rtarget g1 = rtarget ga"
    using new_root_ok [OF old(4) [folded oa(4)]] by blast
  note h1 = same_heap [OF g1(3)]
  obtain g2 where g2: "insert_root i h u g1 = Some g2" "buffers g2 (i # is) us1" "heap_of g2 = heap_of g1"
    "rtarget g2 = (rtarget g1)(i \<mapsto> (h, u))"
    using insert_root_ok [OF g1(2)] by blast
  note h2 = same_heap [OF g2(3)]
  have s2: "shape g2 = shape g" using h1 h2 wa(1) by simp
  obtain g3 where g3: "setp (Root i) g2 = Some g3" "readdressed n0 (Root i) g2 g3" using addr [OF s2] by blast
  have r3: "shape g3 = shape g2" "other g3 = other g2" "sym_safe g2 \<longrightarrow> sym_safe g3" "ncol g3 = ncol g2" "nrc g3 = nrc g2"
    "naddr g3 = (naddr g2)(n0 := Root i)"
    using g3(2) by (simp_all add: readdressed_def)
  note o3 = other_fields [OF r3(2)]
  have s3: "shape g3 = shape g" and col3: "ncol g3 = ncol ga" and na3: "naddr g3 = (naddr g)(n0 := Root i)"
    and rt3: "rtarget g3 = (rtarget g)(i \<mapsto> (h, u))"
    using r3 s2 h1 h2 wa oa(3) o3(3) g1(4) g2(4) by simp_all
  have i: "i \<notin> set is" using g1(2) by (simp add: spare_def)
  have new: "root_ok getter g3 i" "set (rnodes g3 i) = {n0} \<inter> nodes g" using tgt [OF s3] rt3 by simp_all
  have same: "root_ok getter g3 j = root_ok getter g j" "rnodes g3 j = rnodes g j" if "j \<noteq> i" for j
  proof -
    have "rtarget g3 j = rtarget g j" using rt3 that by simp
    then show "root_ok getter g3 j = root_ok getter g j" "rnodes g3 j = rnodes g j"
      unfolding root_ok_def rnodes_def
      by (simp_all only: shape_dom [OF s3] shape_fields(5) [OF s3] shape_get_obj [OF s3] shape_elem [OF s3])
  qed
  have "addressed g3 {} (i # is) g3"
    unfolding addressed_def
  proof (intro conjI ballI impI)
    fix j n assume j: "j \<in> set (i # is)" and n: "n \<in> set (rnodes g3 j)"
    show "naddr g3 n = Root j"
    proof (cases "j = i")
      case True
      then show ?thesis using n new(2) na3 by auto
    next
      case False
      then have "j \<in> set is" and n': "n \<in> set (rnodes g j)" using j n same by auto
      then have "naddr g n = Root j" "n \<in> nodes g"
        using old(5,6) rnodes_nodes [of getter g j] unfolding addressed_def by blast+
      then show ?thesis using na3 fresh by auto
    qed
  next
    fix n assume n: "n \<in> nodes g3" "naddr g3 n \<noteq> No_Address"
    then have node: "n \<in> nodes g" using shape_nodes [OF s3] by simp
    show "\<exists>j \<in> set (i # is). n \<in> set (rnodes g3 j)"
    proof (cases "n = n0")
      case True
      then show ?thesis using node new(2) by auto
    next
      case False
      then have "naddr g n \<noteq> No_Address" using n(2) na3 by simp
      then obtain j where "j \<in> set is" "n \<in> set (rnodes g j)" using old(6) node unfolding addressed_def by blast
      moreover then have "j \<noteq> i" using i by blast
      ultimately show ?thesis using same(2) [of j] by (intro bexI [of _ j]) simp_all
    qed
  qed
  moreover have "buffers g3 (i # is) us1" using g2(2) o3(4) by simp
  moreover have "root_ok getter g3 j" if "j \<in> set (i # is)" for j
    using that new(1) same(1) old(5) by (cases "j = i") auto
  moreover have "\<forall>n \<in> nodes g3. ncol g3 n \<in> {GC_BLACK, GC_PURPLE}"
    using old(3) shape_nodes [OF s3] col3 wa(6) by auto
  moreover have "sym_safe g3" using old(2) wa(4) h1 h2 r3(3) by simp
  moreover have "wf_heap getter g3" using old(1) shape_wf [OF s3] by simp
  ultimately have "gc_ready getter g3 (i # is) us1" by (simp add: gc_ready_def)
  moreover have "nrc g3 = nrc g" using r3(5) h1 h2 wa(5) by simp
  ultimately show ?thesis using g1(1,3) g2(1,3) g3(1) s3 col3 na3 by metis
qed

text \<open>A purple node keeps the state ready when it is registered already.\<close>

lemma ready_purple:
  assumes ready: "gc_ready getter g is us" and w: "walked GC_PURPLE 1 {#} L g ga"
  shows "gc_ready getter ga is us"
proof -
  have wa: "shape ga = shape g" "other ga = other g" "naddr ga = naddr g" "sym_safe g \<longrightarrow> sym_safe ga"
    "ncol ga = (\<lambda>n. if n \<in> set L then GC_PURPLE else ncol g n)"
    using w by (simp_all add: walked_def)
  note oa = other_fields [OF wa(2)]
  have "addressed g {} is ga" using ready unfolding gc_ready_def addressed_def wa(3) by blast
  then have "addressed ga {} is ga" using shape_addressed [OF wa(1) oa(3)] by blast
  then show ?thesis
    using ready wa(4,5) shape_wf [OF wa(1)] shape_nodes [OF wa(1)] shape_root_ok [OF wa(1) oa(3)] oa(4)
    by (auto simp: gc_ready_def simp del: ncol.simps)
qed

lemma gc_zval_possible_root_ok:
  assumes ready: "gc_ready getter g is us" and room: "room g" and idle: "free_list g = No_Address"
    and z: "zvals g zv = Some z" "\<And>h hs. zvalue z \<noteq> IS_OBJECT h hs"
  shows "\<exists>g' is' us'. gc_zval_possible_root env zv g = Some g' \<and> gc_ready getter g' is' us' \<and>
    shape g' = shape g \<and> nrc g' = nrc g \<and> (\<exists>z'. zvals g' zv = Some z' \<and> snd (z_buffered z') = GC_PURPLE \<and>
      (snd (z_buffered z) \<noteq> GC_PURPLE \<longrightarrow> fst (z_buffered z') \<noteq> No_Address))"
proof -
  obtain ga where ga: "GC_ZVAL_SET_COLOR zv GC_PURPLE g = Some ga" "walked GC_PURPLE 1 {#} (elem g [zv]) g ga"
    "zvals ga zv = Some (z\<lparr>z_buffered := (fst (z_buffered z), GC_PURPLE)\<rparr>)"
    using walked_zval_color [OF z(1), of GC_PURPLE 1] by blast
  have run: "gc_zval_possible_root env zv g = (if snd (z_buffered z) = GC_PURPLE then Some g
    else if fst (z_buffered z) \<noteq> No_Address then Some ga
    else do {
      (newRoot, g) \<leftarrow> new_root env zv (GC_ZVAL_SET_COLOR zv GC_PURPLE) ga;
      (case newRoot of None \<Rightarrow> Some g | Some i \<Rightarrow> do { g \<leftarrow> insert_root i 0 (Pz zv) g; GC_ZVAL_SET_ADDRESS zv (Root i) g }) })"
    using z ga(1) idle by (auto simp: gc_zval_possible_root_def waits_for_release_def split: zvalue.split)
  have sga: "shape ga = shape g" "nrc ga = nrc g" using ga(2) by (simp_all add: walked_def)
  consider "snd (z_buffered z) = GC_PURPLE" | "snd (z_buffered z) \<noteq> GC_PURPLE" "fst (z_buffered z) \<noteq> No_Address"
    | "snd (z_buffered z) \<noteq> GC_PURPLE" "fst (z_buffered z) = No_Address" by blast
  then show ?thesis
  proof cases
    case 1
    then show ?thesis using ready z(1) run by auto
  next
    case 2
    then show ?thesis using ready_purple [OF ready ga(2)] ga(3) run sga by auto
  next
    case 3
    have "\<exists>i g1 g2 g3 us'. new_root env zv (GC_ZVAL_SET_COLOR zv GC_PURPLE) ga = Some (Some i, g1) \<and> heap_of g1 = heap_of ga \<and>
      insert_root i 0 (Pz zv) g1 = Some g2 \<and> heap_of g2 = heap_of ga \<and> GC_ZVAL_SET_ADDRESS zv (Root i) g2 = Some g3 \<and> gc_ready getter g3 (i # is) us' \<and>
      shape g3 = shape g \<and> ncol g3 = ncol ga \<and> nrc g3 = nrc g \<and> naddr g3 = (naddr g)(ZV zv := Root i)"
    proof (rule register_ok [OF ready room _ ga(2)])
      show "naddr g (ZV zv) = No_Address" using z(1) 3 by simp
      show "root_ok getter g' i \<and> set (rnodes g' i) = {ZV zv} \<inter> nodes g"
        if s: "shape g' = shape g" "rtarget g' i = Some (0, Pz zv)" for g' i
      proof -
        have "zv \<in> dom (zvals g')" using z(1) shape_dom [OF s(1)] by blast
        moreover have "set (elem g' [zv]) = {ZV zv} \<inter> nodes g"
          using z(1) unfolding shape_elem [OF s(1)] by (auto simp: elem_def nodes_def)
        ultimately show ?thesis using s(2) by (simp add: root_ok_def rnodes_def)
      qed
      show "\<exists>g''. GC_ZVAL_SET_ADDRESS zv p g' = Some g'' \<and> readdressed (ZV zv) p g' g''" if s: "shape g' = shape g" for g' p
      proof -
        have "zv \<in> dom (zvals g')" using z(1) shape_dom [OF s] by blast
        then show ?thesis using zval_readdressed by blast
      qed
    qed
    then obtain i g1 g2 g3 us' where r: "new_root env zv (GC_ZVAL_SET_COLOR zv GC_PURPLE) ga = Some (Some i, g1)"
      "heap_of g1 = heap_of ga" "insert_root i 0 (Pz zv) g1 = Some g2" "heap_of g2 = heap_of ga" "GC_ZVAL_SET_ADDRESS zv (Root i) g2 = Some g3"
      "gc_ready getter g3 (i # is) us'" "shape g3 = shape g" "nrc g3 = nrc g" "naddr g3 = (naddr g)(ZV zv := Root i)"
      by (elim exE conjE) (rule that; assumption)
    have "\<exists>z'. zvals g3 zv = Some z' \<and> snd (z_buffered z') = GC_PURPLE \<and> fst (z_buffered z') \<noteq> No_Address"
    proof -
      have "zvals g2 zv = Some (z\<lparr>z_buffered := (fst (z_buffered z), GC_PURPLE)\<rparr>)"
        using same_heap(6) [OF r(4)] ga(3) by simp
      then show ?thesis using r(5) by (auto simp: GC_ZVAL_SET_ADDRESS_def upd_zval_def)
    qed
    then show ?thesis using run 3 r by auto
  qed
qed

lemma gc_zobj_possible_root_ok:
  assumes ready: "gc_ready getter g is us" and room: "room g"
    and z: "zvals g zv = Some z" "zvalue z = IS_OBJECT h hs" "hs \<noteq> No_Getter" "h \<noteq> 0" and b: "get_obj h g = Some b"
  shows "\<exists>g' is' us' b'. gc_zobj_possible_root env zv g = Some g' \<and> gc_ready getter g' is' us' \<and>
    shape g' = shape g \<and> nrc g' = nrc g \<and> get_obj h g' = Some b' \<and> snd (o_buffered b') = GC_PURPLE \<and>
    (snd (o_buffered b) \<noteq> GC_PURPLE \<longrightarrow> fst (o_buffered b') \<noteq> No_Address)"
proof -
  have buckets: "object_buckets g \<noteq> None" using b by (auto simp: get_obj_def split: option.splits)
  have "pred_option (wf_value getter g) (map_option zvalue (zvals g zv))"
    using ready unfolding gc_ready_def wf_heap_def by blast
  then have hs: "hs = getter h" using z by (simp add: wf_value_def)
  let ?f = "\<lambda>b. b\<lparr>o_buffered := (fst (o_buffered b), GC_PURPLE)\<rparr>"
  obtain ga where color: "GC_SET_COLOR h GC_PURPLE g = Some ga" and ga: "walked GC_PURPLE 1 {#} [OB h] g ga" "zvals ga = zvals g"
    using walked_obj_color [OF b, of GC_PURPLE 1] by blast
  have ga4: "get_obj h ga = Some (?f b)"
    using color b by (auto simp: GC_SET_COLOR_def upd_obj_def get_obj_def split: option.splits if_splits)
  have of: "zobj_of zv g' = Some (h, hs)" if "zvals g' = zvals g" for g' using z that by (simp add: zobj_of_def)
  define again where "again = (\<lambda>g. do { (h, _) \<leftarrow> zobj_of zv g; GC_SET_COLOR h GC_PURPLE g })"
  have run: "gc_zobj_possible_root env zv g = (if snd (o_buffered b) = GC_PURPLE then Some g
    else if fst (o_buffered b) \<noteq> No_Address then Some ga
    else do {
      (newRoot, g) \<leftarrow> new_root env zv again ga;
      (case newRoot of None \<Rightarrow> Some g
       | Some i \<Rightarrow> do { (h, hs) \<leftarrow> zobj_of zv g; g \<leftarrow> insert_root i h (Handlers hs) g; GC_SET_ADDRESS h (Root i) g }) })"
    using z(3) buckets b color of [of g] unfolding gc_zobj_possible_root_def again_def by (simp del: not_None_eq)
  have sga: "shape ga = shape g" "nrc ga = nrc g" using ga(1) by (simp_all add: walked_def)
  consider "snd (o_buffered b) = GC_PURPLE" | "snd (o_buffered b) \<noteq> GC_PURPLE" "fst (o_buffered b) \<noteq> No_Address"
    | "snd (o_buffered b) \<noteq> GC_PURPLE" "fst (o_buffered b) = No_Address" by blast
  then show ?thesis
  proof cases
    case 1
    then show ?thesis using ready b run by auto
  next
    case 2
    then show ?thesis using ready_purple [OF ready ga(1)] ga4 run sga by auto
  next
    case 3
    have "\<exists>i g1 g2 g3 us'. new_root env zv again ga = Some (Some i, g1) \<and> heap_of g1 = heap_of ga \<and>
      insert_root i h (Handlers hs) g1 = Some g2 \<and> heap_of g2 = heap_of ga \<and> GC_SET_ADDRESS h (Root i) g2 = Some g3 \<and>
      gc_ready getter g3 (i # is) us' \<and> shape g3 = shape g \<and> ncol g3 = ncol ga \<and> nrc g3 = nrc g \<and>
      naddr g3 = (naddr g)(OB h := Root i)"
    proof (rule register_ok [OF ready room _ ga(1)])
      show "naddr g (OB h) = No_Address" using b 3 by simp
      show "root_ok getter g' i \<and> set (rnodes g' i) = {OB h} \<inter> nodes g"
        if s: "shape g' = shape g" "rtarget g' i = Some (h, Handlers hs)" for g' i
      proof -
        have "get_obj h g' \<noteq> None" using b shape_get_obj [OF s(1), of h] by simp
        moreover have "object_buckets g' \<noteq> None" using buckets shape_fields(5) [OF s(1)] by simp
        moreover have "OB h \<in> nodes g" using b by (simp add: nodes_def)
        ultimately show ?thesis using s(2) z(4) hs by (simp add: root_ok_def rnodes_def)
      qed
      show "\<exists>g''. GC_SET_ADDRESS h p g' = Some g'' \<and> readdressed (OB h) p g' g''" if s: "shape g' = shape g" for g' p
        using obj_readdressed [of h g'] b shape_get_obj [OF s, of h] by (cases "get_obj h g'") auto
    qed
    then obtain i g1 g2 g3 us' where r: "new_root env zv again ga = Some (Some i, g1)"
      "heap_of g1 = heap_of ga" "insert_root i h (Handlers hs) g1 = Some g2" "heap_of g2 = heap_of ga"
      "GC_SET_ADDRESS h (Root i) g2 = Some g3" "gc_ready getter g3 (i # is) us'" "shape g3 = shape g" "nrc g3 = nrc g"
      by (elim exE conjE) (rule that; assumption)
    have "get_obj h g2 = Some (?f b)" using same_heap(8) [OF r(4)] ga4 by simp
    then have "\<exists>b'. get_obj h g3 = Some b' \<and> snd (o_buffered b') = GC_PURPLE \<and> fst (o_buffered b') \<noteq> No_Address"
      using r(5) by (auto simp: GC_SET_ADDRESS_def upd_obj_def get_obj_def split: option.splits if_splits)
    moreover have "gc_zobj_possible_root env zv g = Some g3"
      using run 3 r(1,3,5) of [of g1] same_heap(6) [OF r(2)] ga(2) by simp
    ultimately show ?thesis using r(6-8) by blast
  qed
qed

subsection \<open>Taking a value out\<close>

lemma rnodes_one: "rnodes g i = [] \<or> (\<exists>n. rnodes g i = [n])"
proof (cases "rtarget g i")
  case (Some t)
  then show ?thesis by (cases t; cases "snd t") (simp_all add: rnodes_def elem_def)
qed (simp add: rnodes_def)

lemma unregister_ok:
  assumes ready: "gc_ready getter g is us" and n0: "n0 \<in> nodes g" "naddr g n0 = Root i"
    and set: "\<And>g'. heap_of g' = heap_of g \<Longrightarrow> \<exists>g''. setp g' = Some g'' \<and> shape g'' = shape g' \<and> other g'' = other g' \<and>
      (sym_safe g' \<longrightarrow> sym_safe g'') \<and> ncol g'' = (ncol g')(n0 := GC_BLACK) \<and> nrc g'' = nrc g' \<and>
      naddr g'' = (naddr g')(n0 := No_Address)"
  shows "\<exists>g1 g2 is'. gc_remove_from_buffer i g = Some g1 \<and> heap_of g1 = heap_of g \<and> setp g1 = Some g2 \<and>
    gc_ready getter g2 is' (i # us) \<and> set is' = set is - {i} \<and> nrc g2 = nrc g \<and>
    naddr g2 = (naddr g)(n0 := No_Address) \<and> ncol g2 = (ncol g)(n0 := GC_BLACK)"
proof -
  have old: "wf_heap getter g" "sym_safe g" "\<And>n. n \<in> nodes g \<Longrightarrow> ncol g n \<in> {GC_BLACK, GC_PURPLE}" "buffers g is us"
    "\<And>j. j \<in> set is \<Longrightarrow> root_ok getter g j" "addressed g {} is g"
    using ready by (simp_all add: gc_ready_def)
  obtain j where j: "j \<in> set is" "n0 \<in> set (rnodes g j)" using old(6) n0 unfolding addressed_def by fastforce
  moreover then have "naddr g n0 = Root j" using old(6) unfolding addressed_def by blast
  ultimately have i: "i \<in> set is" "n0 \<in> set (rnodes g i)" using n0(2) by simp_all
  have one: "set (rnodes g i) \<subseteq> {n0}" using i(2) rnodes_one [of g i] by auto
  obtain pre post where split: "is = pre @ i # post" using i(1) by (meson split_list)
  obtain g1 r' where g1: "gc_remove_from_buffer i g = Some g1" "buffer_only g g1" "rtarget g1 = rtarget g"
    "buffers g1 (pre @ post) (i # us)"
    using drop_root [of g pre i post us] old(4) split by blast
  note f = buffer_fields [OF g1(2)]
  have h1: "heap_of g1 = heap_of g" using g1(2) by (auto simp: buffer_only_def heap_of_def)
  obtain g2 where g2: "setp g1 = Some g2" "shape g2 = shape g1" "other g2 = other g1" "sym_safe g1 \<longrightarrow> sym_safe g2"
    "ncol g2 = (ncol g1)(n0 := GC_BLACK)" "nrc g2 = nrc g1" "naddr g2 = (naddr g1)(n0 := No_Address)"
    using set [OF h1] by blast
  note o2 = other_fields [OF g2(3)]
  have s2: "shape g2 = shape g" and rt2: "rtarget g2 = rtarget g" using g2(2) f(1) o2(3) g1(3) by simp_all
  have na2: "naddr g2 = (naddr g)(n0 := No_Address)" using g2(7) f(4) by simp
  have dist: "distinct (pre @ i # post)" using old(4) split by (auto simp: buffers_def)
  have "addressed g {} (pre @ post) g2"
    unfolding addressed_def
  proof (intro conjI ballI impI)
    fix k n assume k: "k \<in> set (pre @ post)" "n \<in> set (rnodes g k)"
    then have "k \<in> set is" "k \<noteq> i" using split dist by auto
    then have "naddr g n = Root k" using old(6) k(2) unfolding addressed_def by blast
    then show "naddr g2 n = Root k" using na2 n0(2) \<open>k \<noteq> i\<close> by auto
  next
    fix n assume n: "n \<in> nodes g" "naddr g2 n \<noteq> No_Address"
    then have "n \<noteq> n0" "naddr g n \<noteq> No_Address" unfolding na2 by (auto split: if_splits)
    then obtain k where "k \<in> set is" "n \<in> set (rnodes g k)" using old(6) n(1) unfolding addressed_def by blast
    then show "\<exists>k \<in> set (pre @ post). n \<in> set (rnodes g k)" using one \<open>n \<noteq> n0\<close> split by auto
  qed
  then have "addressed g2 {} (pre @ post) g2" using shape_addressed [OF s2 rt2] by blast
  moreover have "buffers g2 (pre @ post) (i # us)" using g1(4) o2(4) by simp
  moreover have "\<forall>n \<in> nodes g2. ncol g2 n \<in> {GC_BLACK, GC_PURPLE}"
    using old(3) shape_nodes [OF s2] g2(5) f(2) by auto
  moreover have "\<forall>k \<in> set (pre @ post). root_ok getter g2 k" using old(5) shape_root_ok [OF s2 rt2] split by auto
  moreover have "sym_safe g2" "wf_heap getter g2" using old(1,2) g2(4) f(5) shape_wf [OF s2] by simp_all
  ultimately have "gc_ready getter g2 (pre @ post) (i # us)" by (simp add: gc_ready_def)
  moreover have "set (pre @ post) = set is - {i}" using split dist by auto
  ultimately show ?thesis using g1(1) h1 g2(1,5,6) f(2,3) na2 by metis
qed

lemma gc_remove_zval_from_buffer_ok:
  assumes ready: "gc_ready getter g is us" and idle: "free_list g = No_Address"
    and z: "zvals g a = Some z" "\<not> sym g a" "fst (z_buffered z) = Root i"
  shows "\<exists>g' is'. gc_remove_zval_from_buffer a g = Some g' \<and> gc_ready getter g' is' (i # us) \<and> set is' = set is - {i} \<and>
    nrc g' = nrc g \<and> naddr g' = (naddr g)(ZV a := No_Address) \<and> ncol g' = (ncol g)(ZV a := GC_BLACK)"
proof -
  let ?f = "\<lambda>z. z\<lparr>z_buffered := (No_Address, GC_BLACK)\<rparr>"
  have "\<exists>g1 g2 is'. gc_remove_from_buffer i g = Some g1 \<and> heap_of g1 = heap_of g \<and> upd_zval a ?f g1 = Some g2 \<and>
    gc_ready getter g2 is' (i # us) \<and> set is' = set is - {i} \<and> nrc g2 = nrc g \<and>
    naddr g2 = (naddr g)(ZV a := No_Address) \<and> ncol g2 = (ncol g)(ZV a := GC_BLACK)"
  proof (rule unregister_ok [OF ready])
    show "ZV a \<in> nodes g" "naddr g (ZV a) = Root i" using z by (auto simp: nodes_def)
    fix g' assume h: "heap_of g' = heap_of g"
    have z': "zvals g' a = Some z" "\<not> sym g' a"
      using z same_heap(6) [OF h] shape_sym [OF same_heap(1) [OF h], of a] by simp_all
    note u = upd_zval_ok [where f = ?f and g = g' and a = a and z = z, OF z'(1)]
    have "(nrc g')(ZV a := refcount__gc z) = nrc g'" using z'(1) by (auto simp: fun_eq_iff)
    then show "\<exists>g''. upd_zval a ?f g' = Some g'' \<and> shape g'' = shape g' \<and> other g'' = other g' \<and>
      (sym_safe g' \<longrightarrow> sym_safe g'') \<and> ncol g'' = (ncol g')(ZV a := GC_BLACK) \<and> nrc g'' = nrc g' \<and>
      naddr g'' = (naddr g')(ZV a := No_Address)"
      using u z'(2) by auto
  qed
  then show ?thesis using z idle by (auto simp: gc_remove_zval_from_buffer_def waits_for_release_def)
qed

lemma GC_REMOVE_ZOBJ_FROM_BUFFER_ok:
  assumes ready: "gc_ready getter g is us" and idle: "\<not> gc_active g"
    and b: "get_obj h g = Some b" "fst (o_buffered b) = Root i"
  shows "\<exists>g' is'. GC_REMOVE_ZOBJ_FROM_BUFFER h g = Some g' \<and> gc_ready getter g' is' (i # us) \<and> set is' = set is - {i} \<and>
    nrc g' = nrc g \<and> naddr g' = (naddr g)(OB h := No_Address) \<and> ncol g' = (ncol g)(OB h := GC_BLACK)"
proof -
  let ?f = "\<lambda>b. b\<lparr>o_buffered := (No_Address, GC_BLACK)\<rparr>"
  have "\<exists>g1 g2 is'. gc_remove_from_buffer i g = Some g1 \<and> heap_of g1 = heap_of g \<and> upd_obj h ?f g1 = Some g2 \<and>
    gc_ready getter g2 is' (i # us) \<and> set is' = set is - {i} \<and> nrc g2 = nrc g \<and>
    naddr g2 = (naddr g)(OB h := No_Address) \<and> ncol g2 = (ncol g)(OB h := GC_BLACK)"
  proof (rule unregister_ok [OF ready])
    show "OB h \<in> nodes g" "naddr g (OB h) = Root i" using b by (simp_all add: nodes_def)
    fix g' assume h: "heap_of g' = heap_of g"
    have b': "get_obj h g' = Some b" using b(1) same_heap(8) [OF h] by simp
    have "(nrc g')(OB h := o_refcount b) = nrc g'" using b' by (auto simp: fun_eq_iff)
    moreover obtain g'' where "upd_obj h ?f g' = Some g''" "shape g'' = shape g'" "other g'' = other g'"
      "nrc g'' = (nrc g')(OB h := o_refcount (?f b))" "naddr g'' = (naddr g')(OB h := fst (o_buffered (?f b)))"
      "ncol g'' = (ncol g')(OB h := snd (o_buffered (?f b)))" "sym_safe g' \<longrightarrow> sym_safe g''"
      by (rule upd_obj_ok [where f = ?f, OF b']) auto
    ultimately show "\<exists>g''. upd_obj h ?f g' = Some g'' \<and> shape g'' = shape g' \<and> other g'' = other g' \<and>
      (sym_safe g' \<longrightarrow> sym_safe g'') \<and> ncol g'' = (ncol g')(OB h := GC_BLACK) \<and> nrc g'' = nrc g' \<and>
      naddr g'' = (naddr g')(OB h := No_Address)"
      by (intro exI [of _ g'']) simp
  qed
  then show ?thesis using b idle by (auto simp: GC_REMOVE_ZOBJ_FROM_BUFFER_def)
qed

subsection \<open>Start and reset\<close>

lemma gc_reset_buffers: "buffers (gc_reset g) [] []"
  by (simp add: gc_reset_def Let_def buffers_def root_list_def)

lemma gc_init_room:
  assumes "\<not> has_buf g" "gc_enabled g"
  shows "buffers (gc_init g) [] []" "room (gc_init g)" "heap_of (gc_init g) = heap_of g"
  using assms by (simp_all add: gc_init_def gc_reset_buffers)
    (simp_all add: gc_reset_def Let_def room_def heap_of_def GC_ROOT_BUFFER_MAX_ENTRIES_def)

text \<open>The state is ready when nothing is registered.\<close>

lemma ready_fresh:
  assumes "wf_heap getter g" "\<And>n. n \<in> nodes g \<Longrightarrow> ncol g n = GC_BLACK \<and> naddr g n = No_Address" "sym_safe g" "buffers g [] us"
  shows "gc_ready getter g [] us"
  using assms by (auto simp: gc_ready_def addressed_def simp del: ncol.simps naddr.simps)

end
