(* ===== verification/ZendGcRelease.thy ===== *)
theory ZendGcRelease
  imports ZendGcBuffer
begin

text \<open>
  The end of a collection: the destructors are called, the values destroyed and their memory released.
  What the release functions of the environment are relied on for is that they return and leave the list
  of the values to free as it is.
\<close>

subsection \<open>The list of the values to free\<close>

definition chain_addr :: "addr list \<Rightarrow> gc_address" where
  "chain_addr ys = (case ys of [] \<Rightarrow> FREE_LIST_END | a # _ \<Rightarrow> Next a)"

lemma free_chain_addr: "free_chain g p ys \<Longrightarrow> p = chain_addr ys"
  by (cases ys) (simp_all add: chain_addr_def)

lemma free_chain_at:
  assumes "free_chain g p (zs @ a # ys)"
  obtains z where "zvals g a = Some z" "fst (z_buffered z) = chain_addr ys"
proof -
  have "free_chain g (Next a) (a # ys)"
    using assms by (induction zs arbitrary: p) (auto simp del: naddr.simps)
  then have "zvals g a \<noteq> None" "free_chain g (naddr g (ZV a)) ys" by (simp_all del: naddr.simps)
  then show ?thesis using that free_chain_addr by fastforce
qed

definition list_ready :: "addr list \<Rightarrow> gc_state \<Rightarrow> bool" where
  "list_ready xs g \<longleftrightarrow> free_chain g (free_list g) xs \<and>
     (\<forall>a \<in> set xs. \<forall>z h hs. zvals g a = Some z \<longrightarrow> zvalue z = IS_OBJECT h hs \<longrightarrow> object_buckets g \<noteq> None \<longrightarrow>
        get_obj h g \<noteq> None)"

definition leaves_list :: "(gc_state \<Rightarrow> gc_state option) \<Rightarrow> bool" where
  "leaves_list f \<longleftrightarrow> (\<forall>xs g. list_ready xs g \<longrightarrow> (\<exists>g'. f g = Some g' \<and> list_ready xs g' \<and>
     free_list g' = free_list g \<and> next_to_free g' = next_to_free g \<and> (\<forall>h. get_obj h g \<noteq> None \<longrightarrow> get_obj h g' \<noteq> None)))"

definition quiet :: "gc_env \<Rightarrow> bool" where
  "quiet env \<longleftrightarrow> (\<forall>h. leaves_list (call_dtor env h)) \<and> (\<forall>h. leaves_list (del_ref_by_handle env h)) \<and>
     (\<forall>ht. leaves_list (destroy_table env ht)) \<and> (\<forall>a. leaves_list (zval_dtor env a))"

lemma leaves_listE:
  assumes "leaves_list f" "list_ready xs g"
  obtains g' where "f g = Some g'" "list_ready xs g'" "free_list g' = free_list g" "next_to_free g' = next_to_free g"
    "\<And>h. get_obj h g \<noteq> None \<Longrightarrow> get_obj h g' \<noteq> None"
  using assms unfolding leaves_list_def by blast

lemma upd_obj_list:
  assumes "list_ready xs g" "get_obj h g \<noteq> None"
  obtains g' where "upd_obj h f g = Some g'" "list_ready xs g'" "free_list g' = free_list g"
    "next_to_free g' = next_to_free g" "get_obj h g' = map_option f (get_obj h g)" "zvals g' = zvals g"
proof -
  obtain bs where bs: "object_buckets g = Some bs" "h < length bs"
    using assms(2) by (auto simp: get_obj_def split: option.splits if_splits)
  let ?g = "g\<lparr>object_buckets := Some (bs[h := f (bs ! h)])\<rparr>"
  have chain: "free_chain ?g (free_list g) xs"
    by (rule free_chain_cong [of g]) (use assms(1) in \<open>simp_all add: list_ready_def\<close>)
  have o: "get_obj k ?g = (if k = h then Some (f (bs ! h)) else get_obj k g)" for k using bs by (simp add: get_obj_def)
  have "list_ready xs ?g" using assms(1) chain bs(1) o by (auto simp: list_ready_def)
  then show ?thesis using that [of ?g] bs o [of h] by (simp add: upd_obj_def get_obj_def)
qed

lemma upd_zval_list:
  assumes "list_ready xs g" "zvals g a = Some z"
  shows "upd_zval a (\<lambda>z. z\<lparr>zvalue := Scalar\<rparr>) g = Some (g\<lparr>zvals := (zvals g)(a \<mapsto> z\<lparr>zvalue := Scalar\<rparr>)\<rparr>)"
    "list_ready xs (g\<lparr>zvals := (zvals g)(a \<mapsto> z\<lparr>zvalue := Scalar\<rparr>)\<rparr>)"
proof -
  let ?g = "g\<lparr>zvals := (zvals g)(a \<mapsto> z\<lparr>zvalue := Scalar\<rparr>)\<rparr>"
  show "upd_zval a (\<lambda>z. z\<lparr>zvalue := Scalar\<rparr>) g = Some ?g" using assms(2) by (simp add: upd_zval_def)
  have "free_chain ?g (free_list g) xs"
    by (rule free_chain_cong [of g]) (use assms in \<open>auto simp: list_ready_def\<close>)
  moreover have "get_obj h ?g = get_obj h g" for h by (simp add: get_obj_def)
  ultimately show "list_ready xs ?g" using assms(1) by (auto simp: list_ready_def)
qed

subsection \<open>Destructors\<close>

lemma destruct_object_ok:
  assumes env: "quiet env" and l: "list_ready xs g" and h: "object_buckets g \<noteq> None \<Longrightarrow> get_obj h g \<noteq> None"
  shows "\<exists>g'. destruct_object env h g = Some g' \<and> list_ready xs g' \<and> free_list g' = free_list g"
proof (cases "object_buckets g = None")
  case False
  then obtain b where b: "get_obj h g = Some b" using h by blast
  show ?thesis
  proof (cases "valid b \<and> o_refcount b \<le> 0 \<and> has_dtor b \<and> \<not> destructor_called b")
    case True
    obtain g1 where g1: "upd_obj h (\<lambda>b. b\<lparr>destructor_called := True, o_refcount := o_refcount b + 1\<rparr>) g = Some g1"
      "list_ready xs g1" "free_list g1 = free_list g" "get_obj h g1 \<noteq> None"
      by (rule upd_obj_list [OF l, of h "\<lambda>b. b\<lparr>destructor_called := True, o_refcount := o_refcount b + 1\<rparr>"]) (use b in auto)
    have "leaves_list (call_dtor env h)" using env by (simp add: quiet_def)
    then obtain g2 where g2: "call_dtor env h g1 = Some g2" "list_ready xs g2" "free_list g2 = free_list g1" "get_obj h g2 \<noteq> None"
      by (rule leaves_listE [OF _ g1(2)]) (use g1(4) in auto)
    obtain g3 where g3: "upd_obj h (\<lambda>b. b\<lparr>o_refcount := o_refcount b - 1\<rparr>) g2 = Some g3" "list_ready xs g3" "free_list g3 = free_list g2"
      by (rule upd_obj_list [OF g2(2,4)])
    then show ?thesis using False b True g1 g2 by (simp add: destruct_object_def del: not_None_eq)
  next
    case no: False
    then show ?thesis using False b l by (auto simp: destruct_object_def)
  qed
qed (use l in \<open>simp add: destruct_object_def\<close>)

lemma list_object:
  assumes "list_ready xs g" "a \<in> set xs" "zvals g a = Some z" "zvalue z = IS_OBJECT h hs" "object_buckets g \<noteq> None"
  shows "get_obj h g \<noteq> None"
  using assms unfolding list_ready_def by blast

lemma destructor_loop_ok:
  "\<lbrakk>quiet env; list_ready (zs @ ys) g\<rbrakk> \<Longrightarrow> \<exists>g'. destructor_loop env (chain_addr ys) n g = Some (n + length ys, g') \<and>
     list_ready (zs @ ys) g' \<and> free_list g' = free_list g"
proof (induction ys arbitrary: zs n g)
  case Nil
  then show ?case by (simp add: destructor_loop.simps chain_addr_def)
next
  case (Cons a ys)
  let ?xs = "zs @ a # ys"
  have chain: "free_chain g (free_list g) ?xs" using Cons.prems(2) by (simp add: list_ready_def)
  obtain z where z: "zvals g a = Some z" using free_chain_at [OF chain] .
  have "\<exists>g1. (case zvalue z of IS_OBJECT h _ \<Rightarrow> destruct_object env h g | _ \<Rightarrow> Some g) = Some g1 \<and> list_ready ?xs g1 \<and>
      free_list g1 = free_list g"
  proof (cases "zvalue z")
    case (IS_OBJECT h hs)
    then show ?thesis
      using destruct_object_ok [OF Cons.prems, of h] list_object [OF Cons.prems(2) _ z IS_OBJECT] by simp
  qed (use Cons.prems in simp_all)
  then obtain g1 where g1: "(case zvalue z of IS_OBJECT h _ \<Rightarrow> destruct_object env h g | _ \<Rightarrow> Some g) = Some g1"
    "list_ready ?xs g1" "free_list g1 = free_list g" by blast
  have "free_chain g1 (free_list g1) ?xs" using g1(2) by (simp add: list_ready_def)
  then obtain z1 where z1: "zvals g1 a = Some z1" "fst (z_buffered z1) = chain_addr ys" by (rule free_chain_at)
  have "list_ready ((zs @ [a]) @ ys) g1" using g1(2) by simp
  then obtain g' where g': "destructor_loop env (chain_addr ys) (n + 1) g1 = Some (n + 1 + length ys, g')"
    "list_ready ((zs @ [a]) @ ys) g'" "free_list g' = free_list g1"
    using Cons.IH [OF Cons.prems(1)] by blast
  have "destructor_loop env (chain_addr (a # ys)) n g = destructor_loop env (chain_addr ys) (n + 1) g1"
    using z g1(1) z1 by (subst destructor_loop.simps) (simp add: chain_addr_def)
  then show ?case using g' g1(3) by simp
qed

subsection \<open>Destruction\<close>

lemma destroy_zval_ok:
  assumes env: "quiet env" and l: "list_ready xs g" and a: "a \<in> set xs" "zvals g a = Some z"
  shows "\<exists>g'. destroy_zval env a g = Some g' \<and> list_ready xs g' \<and> free_list g' = free_list g \<and> next_to_free g' = next_to_free g"
proof (cases "zvalue z")
  case Scalar
  have "leaves_list (zval_dtor env a)" using env by (simp add: quiet_def)
  then obtain g1 where g1: "zval_dtor env a g = Some g1" "list_ready xs g1" "free_list g1 = free_list g"
    "next_to_free g1 = next_to_free g"
    using l by (metis leaves_listE)
  obtain zs ys where "xs = zs @ a # ys" using a(1) by (meson split_list)
  then obtain z1 where z1: "zvals g1 a = Some z1" using free_chain_at g1(2) unfolding list_ready_def by metis
  show ?thesis using upd_zval_list [OF g1(2) z1] a(2) Scalar g1 by (simp add: destroy_zval_def)
next
  case (IS_ARRAY ht)
  have "leaves_list (destroy_table env ht)" using env by (simp add: quiet_def)
  then show ?thesis using upd_zval_list [OF l a(2)] a(2) IS_ARRAY
    by (auto simp: destroy_zval_def elim!: leaves_listE [OF _ upd_zval_list(2) [OF l a(2)]])
next
  case (IS_OBJECT h hs)
  show ?thesis
  proof (cases "object_buckets g = None")
    case True
    then show ?thesis using a(2) IS_OBJECT l by (simp add: destroy_zval_def)
  next
    case False
    then obtain b where b: "get_obj h g = Some b" using list_object [OF l a IS_OBJECT] by blast
    show ?thesis
    proof (cases "valid b \<and> o_refcount b \<le> 0")
      case True
      obtain g1 where g1: "upd_obj h (\<lambda>b. b\<lparr>o_refcount := 1\<rparr>) g = Some g1" "list_ready xs g1" "free_list g1 = free_list g"
        "next_to_free g1 = next_to_free g" "zvals g1 = zvals g"
        by (rule upd_obj_list [OF l, of h "\<lambda>b. b\<lparr>o_refcount := 1\<rparr>"]) (use b in auto)
      have z1: "zvals g1 a = Some z" using a(2) g1(5) by simp
      have "leaves_list (del_ref_by_handle env h)" using env by (simp add: quiet_def)
      then obtain g2 where "del_ref_by_handle env h (g1\<lparr>zvals := (zvals g1)(a \<mapsto> z\<lparr>zvalue := Scalar\<rparr>)\<rparr>) = Some g2"
        "list_ready xs g2" "free_list g2 = free_list g" "next_to_free g2 = next_to_free g"
        by (rule leaves_listE [OF _ upd_zval_list(2) [OF g1(2) z1]]) (use g1(3,4) in simp)
      then show ?thesis using a(2) IS_OBJECT False b True g1(1) upd_zval_list(1) [OF g1(2) z1]
        by (simp add: destroy_zval_def del: not_None_eq)
    next
      case no: False
      then show ?thesis using a(2) IS_OBJECT False b l by (auto simp: destroy_zval_def)
    qed
  qed
qed

lemma gc_destroy_loop_ok:
  "\<lbrakk>quiet env; list_ready (zs @ ys) g\<rbrakk> \<Longrightarrow> \<exists>g'. destroy_loop env (chain_addr ys) g = Some g' \<and>
     list_ready (zs @ ys) g' \<and> free_list g' = free_list g"
proof (induction ys arbitrary: zs g)
  case Nil
  then show ?case by (simp add: destroy_loop.simps chain_addr_def)
next
  case (Cons a ys)
  let ?xs = "zs @ a # ys"
  have chain: "free_chain g (free_list g) ?xs" using Cons.prems(2) by (simp add: list_ready_def)
  then obtain z where z: "zvals g a = Some z" "fst (z_buffered z) = chain_addr ys" by (rule free_chain_at)
  let ?g = "g\<lparr>next_to_free := chain_addr ys\<rparr>"
  have "free_chain ?g (free_list g) ?xs" by (rule free_chain_cong [OF chain]) simp_all
  then have l: "list_ready ?xs ?g" using Cons.prems(2) by (simp add: list_ready_def get_obj_def)
  obtain g1 where g1: "destroy_zval env a ?g = Some g1" "list_ready ?xs g1" "free_list g1 = free_list g"
    "next_to_free g1 = chain_addr ys"
    using destroy_zval_ok [OF Cons.prems(1) l, of a z] z(1) by auto
  have "list_ready ((zs @ [a]) @ ys) g1" using g1(2) by simp
  then obtain g' where g': "destroy_loop env (chain_addr ys) g1 = Some g'" "list_ready ((zs @ [a]) @ ys) g'"
    "free_list g' = free_list g1"
    using Cons.IH [OF Cons.prems(1)] by blast
  have "destroy_loop env (chain_addr (a # ys)) g = destroy_loop env (chain_addr ys) g1"
    using z g1(1,4) by (subst destroy_loop.simps) (simp add: chain_addr_def)
  then show ?case using g' g1(3) by simp
qed

subsection \<open>Release\<close>

lemma free_loop_ok:
  "\<lbrakk>free_chain g p ys; distinct ys\<rbrakk> \<Longrightarrow>
     free_loop p g = Some (g\<lparr>zvals := (\<lambda>a. if a \<in> set ys then None else zvals g a)\<rparr>)"
proof (induction ys arbitrary: p g)
  case Nil
  then show ?case by (simp add: free_loop.simps)
next
  case (Cons a ys)
  then obtain z where z: "zvals g a = Some z" "p = Next a" "free_chain g (fst (z_buffered z)) ys" by auto
  let ?g = "g\<lparr>zvals := (zvals g)(a := None)\<rparr>"
  have "free_chain ?g q xs" if "free_chain g q xs" "a \<notin> set xs" for q xs
    using that by (induction xs arbitrary: q) auto
  then have "free_chain ?g (fst (z_buffered z)) ys" using z(3) Cons.prems(2) by simp
  then have "free_loop (fst (z_buffered z)) ?g = Some (?g\<lparr>zvals := (\<lambda>b. if b \<in> set ys then None else zvals ?g b)\<rparr>)"
    using Cons.IH Cons.prems(2) by simp
  moreover have "(\<lambda>b. if b \<in> set ys then None else zvals ?g b) = (\<lambda>b. if b \<in> set (a # ys) then None else zvals g b)"
    by auto
  ultimately show ?case using z(1,2) by (subst free_loop.simps) (simp add: FREE_ZVAL_EX_def)
qed

subsection \<open>A whole collection\<close>

lemma same_garbage:
  assumes "heap_of g' = heap_of g" "rtarget g' = rtarget g"
  shows "garbage getter g' roots = garbage getter g roots"
proof -
  note h = same_heap [OF assms(1)]
  have "purple g' roots = purple g roots" by (simp add: purple_def h(2) shape_rnodes [OF h(1) assms(2)])
  then show ?thesis by (simp add: garbage_def marked_def shape_kids [OF h(1)] h(3))
qed

lemma gc_ready_cong:
  assumes "heap_of g' = heap_of g" "buf g' = buf g" "roots_next g' = roots_next g" "roots_prev g' = roots_prev g"
    "unused g' = unused g" "first_unused g' = first_unused g" "last_unused g' = last_unused g"
  shows "gc_ready getter g' is us = gc_ready getter g is us"
proof -
  note h = same_heap [OF assms(1)]
  have rt: "rtarget g' = rtarget g" by (simp add: rtarget_def fun_eq_iff assms(2))
  have n: "prv g' (Buf i) = prv g (Buf i)" for i by (simp add: assms(2))
  have "unused_chain g' p us = unused_chain g p us" for p
    by (induction us arbitrary: p) (simp_all add: assms(2) n del: prv.simps)
  then have b: "buffers g' is us = buffers g is us"
    by (simp add: buffers_def linked_same(2) [OF assms(2-4)] assms(5-7))
  have "addressed g' {} is g' = addressed g {} is g"
    unfolding shape_addressed [OF h(1) rt] by (simp add: addressed_def h(4))
  then show ?thesis
    unfolding gc_ready_def b by (simp add: shape_wf [OF h(1)] shape_nodes [OF h(1)] shape_root_ok [OF h(1) rt] h(2,5))
qed

lemma gc_collect_cycles_ok:
  assumes ready: "gc_ready getter g roots us" and roots: "roots \<noteq> []" "\<not> gc_active g" and env: "quiet env"
  shows "\<exists>g' xs. gc_collect_cycles env g = Some (length xs, g') \<and> distinct xs \<and>
    set xs = {a. ZV a \<in> garbage getter g roots} \<and> (\<forall>a \<in> set xs. zvals g' a = None) \<and>
    free_list g' = free_list g \<and> next_to_free g' = next_to_free g"
proof -
  let ?g = "g\<lparr>gc_runs := gc_runs g + 1, zval_to_free := FREE_LIST_END, gc_active := True\<rparr>"
  have h: "heap_of ?g = heap_of g" by (simp add: heap_of_def)
  have rdy: "gc_ready getter ?g roots us" using gc_ready_cong [OF h, of getter roots us] ready by simp
  have gar: "garbage getter ?g roots = garbage getter g roots"
    by (rule same_garbage [OF h]) (simp add: rtarget_def fun_eq_iff)
  obtain g1 xs where g1: "gc_phases ?g = Some g1" "phases_result getter ?g roots g1 xs"
    using gc_phases_ok [OF rdy] by auto
  have r: "free_chain g1 (zval_to_free g1) xs" "distinct xs" "set xs = {a. ZV a \<in> garbage getter g roots}"
    "shape g1 = shape ?g" "outside g1 = outside ?g"
    using g1(2) gar unfolding phases_result_def by blast+
  have lists: "free_list g1 = free_list g" "next_to_free g1 = next_to_free g"
    using arg_cong [OF r(5), of free_list] arg_cong [OF r(5), of next_to_free] by (simp_all add: outside_def other_def)
  let ?g1 = "g1\<lparr>free_list := zval_to_free g1, zval_to_free := No_Address, gc_active := False\<rparr>"
  have wf: "wf_heap getter g1" using rdy shape_wf [OF r(4)] by (simp add: gc_ready_def)
  have l1: "list_ready xs ?g1"
    unfolding list_ready_def
  proof (intro conjI ballI allI impI)
    show "free_chain ?g1 (free_list ?g1) xs" using free_chain_cong [OF r(1), of ?g1] by simp
    fix a z h hs assume z: "zvals ?g1 a = Some z" "zvalue z = IS_OBJECT h hs" and o: "object_buckets ?g1 \<noteq> None"
    have "pred_option (wf_value getter g1) (map_option zvalue (zvals g1 a))" using wf unfolding wf_heap_def by blast
    then have "get_obj h g1 \<noteq> None" using z o by (simp add: wf_value_def)
    then show "get_obj h ?g1 \<noteq> None" by (simp add: get_obj_def)
  qed
  have p: "zval_to_free g1 = chain_addr xs" using free_chain_addr [OF r(1)] .
  obtain g2 where g2: "destructor_loop env (chain_addr xs) 0 ?g1 = Some (length xs, g2)" "list_ready xs g2"
    "free_list g2 = chain_addr xs"
    using destructor_loop_ok [OF env, of "[]" xs ?g1 0] l1 p by auto
  obtain g3 where g3: "destroy_loop env (chain_addr xs) g2 = Some g3" "list_ready xs g3" "free_list g3 = chain_addr xs"
    using gc_destroy_loop_ok [OF env, of "[]" xs g2] g2(2,3) by auto
  have "free_chain g3 (chain_addr xs) xs" using g3(2,3) by (simp add: list_ready_def)
  then have f: "free_loop (chain_addr xs) g3 = Some (g3\<lparr>zvals := (\<lambda>a. if a \<in> set xs then None else zvals g3 a)\<rparr>)"
    using free_loop_ok r(2) by blast
  have nonempty: "roots_next g \<noteq> Roots"
    using ready roots(1) root_list_first [of g roots] by (cases roots) (auto simp: gc_ready_def buffers_def first_root_def)
  let ?g4 = "g3\<lparr>zvals := (\<lambda>a. if a \<in> set xs then None else zvals g3 a),
    collected := collected g3 + of_nat (length xs), free_list := free_list g, next_to_free := next_to_free g\<rparr>"
  have "gc_collect_cycles env g = Some (length xs, ?g4)"
  proof -
    obtain gm gs where "gc_mark_roots ?g = Some gm" "gc_scan_roots gm = Some gs" "gc_collect_roots gs = Some g1"
      using g1(1) by (auto simp: gc_phases_def bind_eq_Some_conv)
    then show ?thesis
      using nonempty roots(2) g2 g3 f p lists by (simp add: gc_collect_cycles_def Let_def)
  qed
  then show ?thesis using r(2,3) by (intro exI [of _ ?g4] exI [of _ xs]) simp
qed

end
