(* ===== verification/ZendGcSpec.thy ===== *)
theory ZendGcSpec
  imports ZendGcRelease
begin

text \<open>
  What the garbage collector promises: it frees what it may free and nothing else, gives every other
  value its references back, and keeps the buffer of possible roots in order.
\<close>

subsection \<open>A heap with one dead and one live cycle\<close>

definition gc_example :: gc_state where
  "gc_example = \<lparr>
     zvals = [0 \<mapsto> \<lparr>zvalue = IS_ARRAY 1, refcount__gc = 1, z_buffered = (Root 0, GC_PURPLE)\<rparr>,
              2 \<mapsto> \<lparr>zvalue = IS_ARRAY 3, refcount__gc = 2, z_buffered = (Root 1, GC_PURPLE)\<rparr>],
     tables = [1 \<mapsto> [0], 3 \<mapsto> [2]], symbol_table = 9, object_buckets = None, other_props = (\<lambda>_ _. None),
     gc_enabled = True, gc_active = False, has_buf = True,
     buf = [0 \<mapsto> \<lparr>rb_prev = Some Roots, rb_next = Buf 1, rb_handle = 0, rb_u = Pz 0\<rparr>,
            1 \<mapsto> \<lparr>rb_prev = Some (Buf 0), rb_next = Roots, rb_handle = 0, rb_u = Pz 2\<rparr>],
     roots_prev = Buf 1, roots_next = Buf 0, unused = None, first_unused = 2, last_unused = 10000,
     zval_to_free = FREE_LIST_END, free_list = No_Address, next_to_free = No_Address, gc_runs = 0, collected = 0\<rparr>"

definition quiet_env :: gc_env where
  "quiet_env = \<lparr>call_dtor = (\<lambda>_. Some), del_ref_by_handle = (\<lambda>_. Some), destroy_table = (\<lambda>_. Some), zval_dtor = (\<lambda>_. Some)\<rparr>"

lemma example_fields:
  "zvals gc_example = [0 \<mapsto> \<lparr>zvalue = IS_ARRAY 1, refcount__gc = 1, z_buffered = (Root 0, GC_PURPLE)\<rparr>,
     2 \<mapsto> \<lparr>zvalue = IS_ARRAY 3, refcount__gc = 2, z_buffered = (Root 1, GC_PURPLE)\<rparr>]"
  "tables gc_example = [1 \<mapsto> [0], 3 \<mapsto> [2]]" "symbol_table gc_example = 9" "object_buckets gc_example = None"
  "rtarget gc_example = [0 \<mapsto> (0, Pz 0), 1 \<mapsto> (0, Pz 2)]"
  by (simp_all add: gc_example_def rtarget_def fun_eq_iff)

lemma example_sym: "sym gc_example a = False"
  by (simp add: sym_def is_symbol_table_def example_fields)

lemma example_elem: "elem gc_example xs = map ZV xs"
  by (simp add: elem_def example_sym)

lemma example_get_obj: "get_obj h gc_example = None"
  by (simp add: get_obj_def example_fields)

lemma example_nodes: "nodes gc_example = {ZV 0, ZV 2}"
  by (auto simp: nodes_def example_sym example_get_obj example_fields)

lemma example_rnodes: "rnodes gc_example 0 = [ZV 0]" "rnodes gc_example 1 = [ZV 2]"
  by (simp_all add: rnodes_def example_elem example_fields)

lemma example_kids: "nkids getter gc_example (ZV 0) = [ZV 0]" "nkids getter gc_example (ZV 2) = [ZV 2]"
  by (simp_all add: example_elem example_sym example_fields or_empty_def)

lemma example_ready: "gc_ready getter gc_example [0, 1] []"
proof -
  have wf: "wf_heap getter gc_example"
    unfolding wf_heap_def by (simp add: example_get_obj) (simp add: example_fields wf_value_def)
  have "addressed gc_example {} [0, 1] gc_example"
    unfolding addressed_def example_nodes using example_rnodes by (simp add: example_fields)
  moreover have "buffers gc_example [0, 1] []"
    by (auto simp: buffers_def root_list_def gc_example_def)
  moreover have "sym_safe gc_example" by (simp add: sym_safe_def example_sym)
  moreover have "root_ok getter gc_example 0" "root_ok getter gc_example 1"
    by (simp_all add: root_ok_def example_fields)
  moreover have "\<forall>n \<in> nodes gc_example. ncol gc_example n \<in> {GC_BLACK, GC_PURPLE}"
    by (simp add: example_nodes example_sym example_fields)
  ultimately show ?thesis using wf by (simp add: gc_ready_def)
qed

lemma example_in_refs: "gc.in_refs getter gc_example {ZV 0, ZV 2} (ZV 0) = 1" "gc.in_refs getter gc_example {ZV 0, ZV 2} (ZV 2) = 1"
  unfolding gc.in_refs_def using example_kids by (simp_all del: nkids.simps)

lemma example_reach: "S \<subseteq> {ZV 0, ZV 2} \<Longrightarrow> gc.reach getter gc_example S = S"
proof
  assume S: "S \<subseteq> {ZV 0, ZV 2}"
  show "gc.reach getter gc_example S \<subseteq> S"
    by (rule gc.reach_least) (use S example_kids in \<open>auto simp: gc.closed_def simp del: nkids.simps\<close>)
qed (rule gc.reach_base)

lemma example_marked: "marked getter gc_example [0, 1] = {ZV 0, ZV 2}"
proof -
  have "purple gc_example [0, 1] = {ZV 0, ZV 2}"
    using example_rnodes by (auto simp: purple_def example_sym example_fields)
  then show ?thesis by (simp add: marked_def example_reach)
qed

lemma example_garbage: "garbage getter gc_example [0, 1] = {ZV 0}"
proof -
  have kept: "gc.kept getter gc_example {ZV 0, ZV 2} (nrc gc_example) = {ZV 2}"
  proof -
    have "ZV 0 \<notin> gc.kept getter gc_example {ZV 0, ZV 2} (nrc gc_example)"
      unfolding gc.kept_def mem_Collect_eq example_in_refs by (simp add: example_fields)
    moreover have "ZV 2 \<in> gc.kept getter gc_example {ZV 0, ZV 2} (nrc gc_example)"
      unfolding gc.kept_def mem_Collect_eq example_in_refs by (simp add: example_fields)
    moreover have "gc.kept getter gc_example {ZV 0, ZV 2} (nrc gc_example) \<subseteq> {ZV 0, ZV 2}"
      unfolding gc.kept_def by blast
    ultimately show ?thesis by blast
  qed
  have reach: "gc.reach getter gc_example {ZV 2} = {ZV 2}" by (rule example_reach) simp
  show ?thesis unfolding garbage_def example_marked kept reach by auto
qed

lemma example_counted: "gc.counted getter gc_example (nodes gc_example) (nrc gc_example) (\<lambda>n. if n = ZV 2 then 1 else 0)"
  unfolding gc.counted_def example_nodes using example_in_refs [of getter] by (simp add: example_fields)

lemma quiet_quiet_env: "quiet quiet_env"
  by (simp add: quiet_def quiet_env_def leaves_list_def)

subsection \<open>A collection\<close>

lemma buffered_purple_marked:
  assumes "gc_ready getter g roots us" "n \<in> nodes g" "naddr g n \<noteq> No_Address" "ncol g n = GC_PURPLE"
  shows "n \<in> marked getter g roots"
proof -
  obtain j where "j \<in> set roots" "n \<in> set (rnodes g j)"
    using assms(1-3) by (auto simp: gc_ready_def addressed_def simp del: naddr.simps)
  then have "n \<in> purple g roots" using assms(4) by (auto simp: purple_def simp del: ncol.simps)
  then show ?thesis using gc.reach_base [of "purple g roots" getter g] by (auto simp: marked_def)
qed

text \<open>A whole collection returns, whatever the values refer to and however deep they nest, as long as the functions that
  release leave its list alone. It gives the number of the zvals it has freed; these are the marked ones no kept value
  reaches, each freed once, and the lists of an interrupted collection are back in place.\<close>

lemma gc_collect_cycles_returns:
  "\<exists>g' xs. gc_collect_cycles quiet_env gc_example = Some (length xs, g') \<and> distinct xs \<and> set xs = {0 :: addr} \<and> zvals g' 0 = None"
proof -
  have "\<not> gc_active gc_example" by (simp add: gc_example_def)
  then obtain g' xs where x: "gc_collect_cycles quiet_env gc_example = Some (length xs, g')" "distinct xs"
    "set xs = {a. ZV a \<in> garbage (\<lambda>_. Std_Getter) gc_example [0, 1]}" "\<forall>a \<in> set xs. zvals g' a = None"
    using gc_collect_cycles_ok [OF example_ready [of "\<lambda>_. Std_Getter"] _ _ quiet_quiet_env] by blast
  have xs: "set xs = {0}" using x(3) unfolding example_garbage by simp
  then have "zvals g' 0 = None" using x(4) by simp
  then show ?thesis using x(1,2) xs by blast
qed

text \<open>C5. Safety. If the reference counts count the references from the heap and those from elsewhere (variables, the
  stack, extensions), no zval in the list to free can be reached from a value with a reference from elsewhere.\<close>

theorem gc_collects_nothing_live:
  assumes "gc_ready getter g roots us" "zval_to_free g = FREE_LIST_END"
    and "gc.counted getter g (nodes g) (nrc g) ext"
  shows "\<exists>g' xs. gc_phases g = Some g' \<and> free_chain g' (zval_to_free g') xs \<and>
    (\<forall>a \<in> set xs. \<forall>m \<in> nodes g. 0 < ext m \<longrightarrow> ZV a \<notin> gc.reach getter g {m})"
proof -
  note M = marked_nodes [OF assms(1)]
  have wf: "wf_heap getter g" using assms(1) by (simp add: gc_ready_def)
  obtain g' xs where g': "gc_phases g = Some g'" "phases_result getter g roots g' xs"
    using gc_phases_ok [OF assms(1,2)] by blast
  have "ZV a \<notin> gc.reach getter g {m}" if a: "a \<in> set xs" and m: "m \<in> nodes g" "0 < ext m" for a m
  proof
    assume "ZV a \<in> gc.reach getter g {m}"
    moreover have "ZV a \<in> garbage getter g roots" using g'(2) a by (simp add: phases_result_def)
    ultimately show False
      using gc.live_kept [OF assms(3) finite_nodes [OF wf] nodes_closed [OF wf] M(1) m] by (auto simp: garbage_def)
  qed
  then show ?thesis using g' by (auto simp: phases_result_def)
qed

theorem gc_collects_nothing_live_witness:
  "\<exists>g' xs. gc_phases gc_example = Some g' \<and> free_chain g' (zval_to_free g') xs \<and>
    (\<forall>a \<in> set xs. ZV a \<notin> gc.reach (\<lambda>_. Std_Getter) gc_example {ZV 2})"
proof -
  have "zval_to_free gc_example = FREE_LIST_END" by (simp add: gc_example_def)
  then obtain g' xs where "gc_phases gc_example = Some g'" "free_chain g' (zval_to_free g') xs"
    "\<forall>a \<in> set xs. \<forall>m \<in> nodes gc_example. 0 < (if m = ZV 2 then 1 else 0 :: nat) \<longrightarrow>
      ZV a \<notin> gc.reach (\<lambda>_. Std_Getter) gc_example {m}"
    using gc_collects_nothing_live [OF example_ready _ example_counted [of "\<lambda>_. Std_Getter"]] by blast
  then show ?thesis unfolding example_nodes by auto
qed

text \<open>C6. Liveness. Every marked zval that no value with a reference from elsewhere or from an unmarked value reaches is
  in the list to free: a dead cycle goes with the first collection after it has been noticed.\<close>

theorem gc_collects_every_dead_value:
  assumes "gc_ready getter g roots us" "zval_to_free g = FREE_LIST_END"
    and "gc.counted getter g (nodes g) (nrc g) ext"
  shows "\<exists>g' xs. gc_phases g = Some g' \<and> free_chain g' (zval_to_free g') xs \<and>
    (\<forall>a. ZV a \<in> marked getter g roots \<longrightarrow>
       (\<forall>m \<in> marked getter g roots. ZV a \<in> gc.reach getter g {m} \<longrightarrow>
          ext m = 0 \<and> (\<forall>p \<in> nodes g - marked getter g roots. m \<notin> set (nkids getter g p))) \<longrightarrow>
       a \<in> set xs)"
proof -
  note M = marked_nodes [OF assms(1)]
  have wf: "wf_heap getter g" using assms(1) by (simp add: gc_ready_def)
  obtain g' xs where g': "gc_phases g = Some g'" "phases_result getter g roots g' xs"
    using gc_phases_ok [OF assms(1,2)] by blast
  have "a \<in> set xs" if a: "ZV a \<in> marked getter g roots"
    and dead: "\<And>m. \<lbrakk>m \<in> marked getter g roots; ZV a \<in> gc.reach getter g {m}\<rbrakk> \<Longrightarrow>
      ext m = 0 \<and> (\<forall>p \<in> nodes g - marked getter g roots. m \<notin> set (nkids getter g p))" for a
  proof (rule ccontr)
    assume "a \<notin> set xs"
    then have "ZV a \<in> gc.reach getter g (gc.kept getter g (marked getter g roots) (nrc g))"
      using g'(2) a by (simp add: phases_result_def garbage_def)
    then obtain m where "m \<in> marked getter g roots" "ZV a \<in> gc.reach getter g {m}"
      "0 < ext m \<or> (\<exists>p \<in> nodes g - marked getter g roots. m \<in> set (nkids getter g p))"
      using gc.kept_reason [OF assms(3) finite_nodes [OF wf] M(1)] by blast
    then show False using dead by fastforce
  qed
  then show ?thesis using g' unfolding phases_result_def by blast
qed

theorem gc_collects_every_dead_value_witness:
  "\<exists>g' xs. gc_phases gc_example = Some g' \<and> free_chain g' (zval_to_free g') xs \<and> 0 \<in> set xs"
proof -
  have "zval_to_free gc_example = FREE_LIST_END" by (simp add: gc_example_def)
  then obtain g' xs where g': "gc_phases gc_example = Some g'" "free_chain g' (zval_to_free g') xs"
    "\<forall>a. ZV a \<in> {ZV 0, ZV 2} \<longrightarrow>
       (\<forall>m \<in> {ZV 0, ZV 2}. ZV a \<in> gc.reach (\<lambda>_. Std_Getter) gc_example {m} \<longrightarrow>
          (if m = ZV 2 then 1 else 0 :: nat) = 0 \<and>
          (\<forall>p \<in> nodes gc_example - {ZV 0, ZV 2}. m \<notin> set (nkids (\<lambda>_. Std_Getter) gc_example p))) \<longrightarrow> a \<in> set xs"
    using gc_collects_every_dead_value [OF example_ready _ example_counted [of "\<lambda>_. Std_Getter"]]
    unfolding example_marked by blast
  have r: "gc.reach (\<lambda>_. Std_Getter) gc_example {ZV 2} = {ZV 2}" "nodes gc_example - {ZV 0, ZV 2} = {}"
    by (simp_all add: example_reach example_nodes)
  have "0 \<in> set xs" by (rule g'(3) [rule_format]) (use r in auto)
  then show ?thesis using g'(1,2) by blast
qed

text \<open>C8. Whatever a collection finds, it gives every value back what trial deletion took from it: a zval has its
  reference count from before (one in the list to free has one more, for its destruction), an object lacks exactly
  the references from the garbage; everything reached from a purple root is black, every other value has
  the colour it had, so that no value is grey or white and none that was in the buffer is left purple;
  the buffer is empty, and every value outside the list has lost its address in it.\<close>

theorem gc_collection_restores_counts:
  assumes "gc_ready getter g roots us" "zval_to_free g = FREE_LIST_END"
  shows "\<exists>g' xs us'. gc_phases g = Some g' \<and> free_chain g' (zval_to_free g') xs \<and>
    set xs = {a. ZV a \<in> garbage getter g roots} \<and> shape g' = shape g \<and> buffers g' [] us' \<and>
    (\<forall>a. nrc g' (ZV a) = nrc g (ZV a) + (if a \<in> set xs then 1 else 0)) \<and>
    (\<forall>h. nrc g' (OB h) = nrc g (OB h) - of_nat (gc.in_refs getter g (garbage getter g roots) (OB h))) \<and>
    (\<forall>n. ncol g' n = (if n \<in> marked getter g roots then GC_BLACK else ncol g n)) \<and>
    (\<forall>n \<in> nodes g. ncol g' n = GC_BLACK \<or> ncol g' n = GC_PURPLE \<and> ncol g n = GC_PURPLE \<and> naddr g n = No_Address) \<and>
    (\<forall>n \<in> nodes g - garbage getter g roots. naddr g' n = No_Address)"
proof -
  obtain g' xs where g': "gc_phases g = Some g'" "phases_result getter g roots g' xs"
    using gc_phases_ok [OF assms] by blast
  obtain us' where "buffers g' [] us'" using g'(2) by (auto simp: phases_result_def)
  moreover have col: "ncol g' n = (if n \<in> marked getter g roots then GC_BLACK else ncol g n)" for n
    using g'(2) by (simp add: phases_result_def del: ncol.simps)
  moreover have "ncol g' n = GC_BLACK \<or> ncol g' n = GC_PURPLE \<and> ncol g n = GC_PURPLE \<and> naddr g n = No_Address" if "n \<in> nodes g" for n
    unfolding col using buffered_purple_marked [OF assms(1) that] assms(1) that by (auto simp: gc_ready_def simp del: ncol.simps naddr.simps)
  ultimately show ?thesis
    using g' unfolding phases_result_def
    by (intro exI [of _ g'] exI [of _ xs] exI [of _ us']) (simp del: ncol.simps naddr.simps nrc.simps)
qed

theorem gc_collection_restores_counts_witness:
  "\<exists>g' us'. gc_phases gc_example = Some g' \<and> buffers g' [] us' \<and> nrc g' (ZV 0) = 2 \<and> nrc g' (ZV 2) = 2 \<and>
    naddr g' (ZV 2) = No_Address"
proof -
  have "zval_to_free gc_example = FREE_LIST_END" by (simp add: gc_example_def)
  then obtain g' xs us' where g': "gc_phases gc_example = Some g'" "buffers g' [] us'" "set xs = {a. ZV a \<in> {ZV 0}}"
    "\<forall>a. nrc g' (ZV a) = nrc gc_example (ZV a) + (if a \<in> set xs then 1 else 0)"
    "\<forall>n \<in> nodes gc_example - {ZV 0}. naddr g' n = No_Address"
    using gc_collection_restores_counts [OF example_ready [of "\<lambda>_. Std_Getter"]] unfolding example_garbage by blast
  then have "nrc g' (ZV 0) = 2" "nrc g' (ZV 2) = 2" "naddr g' (ZV 2) = No_Address"
    by (simp_all add: example_nodes example_fields del: naddr.simps)
  then show ?thesis using g'(1,2) by blast
qed

subsection \<open>The buffer of possible roots\<close>

text \<open>C28. While no collection frees and a buffer is left, registering an array keeps the buffer in order (ring,
  returned buffers, addresses in both directions), changes no reference count, and leaves the value purple, with a
  buffer of its own if it was not purple before.\<close>

theorem gc_zval_possible_root_registers:
  assumes "gc_ready getter g is us" "room g" "free_list g = No_Address"
    and "zvals g zv = Some z" "\<And>h hs. zvalue z \<noteq> IS_OBJECT h hs"
  shows "\<exists>g' is' us'. gc_zval_possible_root env zv g = Some g' \<and> gc_ready getter g' is' us' \<and>
    shape g' = shape g \<and> nrc g' = nrc g \<and> (\<exists>z'. zvals g' zv = Some z' \<and> snd (z_buffered z') = GC_PURPLE \<and>
      (snd (z_buffered z) \<noteq> GC_PURPLE \<longrightarrow> fst (z_buffered z') \<noteq> No_Address))"
  using gc_zval_possible_root_ok [OF assms] .

theorem gc_zval_possible_root_registers_witness:
  "\<exists>g' is' us'. gc_zval_possible_root quiet_env 0 gc_example = Some g' \<and> gc_ready (\<lambda>_. Std_Getter) g' is' us'"
  using gc_zval_possible_root_registers [OF example_ready [of "\<lambda>_. Std_Getter"], of 0 _ quiet_env]
  by (fastforce simp: example_fields room_def gc_example_def)

text \<open>C29. The exception: when the buffer is full and the collector disabled, an object is left purple without a
  buffer (the function resets the colour of the zval instead), so that no later call registers it, even if there is
  room again: a cycle through it is never collected.\<close>

theorem gc_zobj_possible_root_forgets:
  assumes "\<not> room g" "\<not> gc_enabled g"
    and "zvals g zv = Some z" "zvalue z = IS_OBJECT h hs" "hs \<noteq> No_Getter"
    and "get_obj h g = Some b" "o_buffered b = (No_Address, c)" "c \<noteq> GC_PURPLE"
  shows "\<exists>g' b'. gc_zobj_possible_root env zv g = Some g' \<and> outside g' = outside g \<and> get_obj h g' = Some b' \<and>
    o_buffered b' = (No_Address, GC_PURPLE) \<and>
    (\<forall>g'' z''. zvals g'' zv = Some z'' \<longrightarrow> zvalue z'' = IS_OBJECT h hs \<longrightarrow> get_obj h g'' = Some b' \<longrightarrow>
       gc_zobj_possible_root env zv g'' = Some g'')"
proof -
  let ?f = "\<lambda>b. b\<lparr>o_buffered := (fst (o_buffered b), GC_PURPLE)\<rparr>"
  obtain ga where color: "GC_SET_COLOR h GC_PURPLE g = Some ga" and ga: "walked GC_PURPLE 1 {#} [OB h] g ga" "zvals ga = zvals g"
    using walked_obj_color [OF assms(6), of GC_PURPLE 1] by blast
  have ga4: "get_obj h ga = Some (?f b)"
    using color assms(6) by (auto simp: GC_SET_COLOR_def upd_obj_def get_obj_def split: option.splits if_splits)
  have oth: "other ga = other g" using ga(1) by (simp add: walked_def)
  have fields: "unused ga = unused g" "first_unused ga = first_unused g" "last_unused ga = last_unused g" "gc_enabled ga = gc_enabled g"
    using arg_cong [OF oth, of unused] arg_cong [OF oth, of first_unused] arg_cong [OF oth, of last_unused]
      arg_cong [OF oth, of gc_enabled] by (simp_all add: other_def)
  have za: "zvals ga zv = Some z" using ga(2) assms(3) by simp
  let ?z = "\<lambda>z. z\<lparr>z_buffered := (fst (z_buffered z), GC_BLACK)\<rparr>"
  obtain g' where g': "GC_ZVAL_SET_COLOR zv GC_BLACK ga = Some g'" "walked GC_BLACK 1 {#} (elem ga [zv]) ga g'"
    "object_buckets g' = object_buckets ga"
    using walked_zval_color [OF za, of GC_BLACK 1] by blast
  have "get_obj h g' = Some (?f b)" using ga4 g'(3) by (simp add: get_obj_def)
  moreover have "outside g' = outside g"
    using g'(2) oth other_fields(1) by (simp add: walked_def outside_def)
  moreover have "object_buckets g \<noteq> None" using assms(6) by (auto simp: get_obj_def split: option.splits)
  then have "gc_zobj_possible_root env zv g = Some g'"
    using assms color g'(1) fields
    by (simp add: gc_zobj_possible_root_def zobj_of_def new_root_def room_def del: not_None_eq)
  moreover have "gc_zobj_possible_root env zv g'' = Some g''"
    if "zvals g'' zv = Some z''" "zvalue z'' = IS_OBJECT h hs" "get_obj h g'' = Some (?f b)" for g'' z''
    using that by (simp add: gc_zobj_possible_root_def zobj_of_def)
  ultimately show ?thesis using assms(7) by (intro exI [of _ g'] exI [of _ "?f b"]) simp
qed

definition gc_full_example :: gc_state where
  "gc_full_example = gc_example\<lparr>
     zvals := [5 \<mapsto> \<lparr>zvalue = IS_OBJECT 1 Std_Getter, refcount__gc = 1, z_buffered = (No_Address, GC_BLACK)\<rparr>],
     object_buckets := Some [\<lparr>valid = False, destructor_called = False, has_dtor = False, o_refcount = 0,
         o_buffered = (No_Address, GC_BLACK), properties = None, properties_table = []\<rparr>,
       \<lparr>valid = True, destructor_called = False, has_dtor = False, o_refcount = 1,
         o_buffered = (No_Address, GC_BLACK), properties = None, properties_table = [Some 5]\<rparr>],
     first_unused := 10000, gc_enabled := False\<rparr>"

theorem gc_zobj_possible_root_forgets_witness:
  "\<exists>g' b'. gc_zobj_possible_root quiet_env 5 gc_full_example = Some g' \<and> get_obj 1 g' = Some b' \<and>
    o_buffered b' = (No_Address, GC_PURPLE)"
  using gc_zobj_possible_root_forgets [of gc_full_example 5 _ 1 Std_Getter _ GC_BLACK quiet_env]
  by (fastforce simp: gc_full_example_def gc_example_def room_def get_obj_def)

text \<open>If the getter of a white object gives NULL, \<open>zval_collect_white\<close> returns before it has put the zval into the
  list: the zval is neither freed nor given its reference back.\<close>

lemma collect_white_forgets:
  assumes "zvals g pz = Some z" "\<not> sym g pz" "z_buffered z = (No_Address, GC_WHITE)"
    and "zvalue z = IS_OBJECT h (Other_Getter k)" "get_obj h g = Some b" "valid b"
    and "o_buffered b = (No_Address, GC_WHITE)" "other_props g k h = None"
  shows "\<exists>g'. collect_body pz g = Some ([], g') \<and> zval_to_free g' = zval_to_free g \<and> nrc g' = nrc g \<and>
    ncol g' (ZV pz) = GC_BLACK"
proof -
  obtain g1 where g1: "GC_ZVAL_SET_COLOR pz GC_BLACK g = Some g1" "walked GC_BLACK 1 {#} (elem g [pz]) g g1"
    "object_buckets g1 = object_buckets g"
    using walked_zval_color [OF assms(1), of GC_BLACK 1] by blast
  have b1: "get_obj h g1 = Some b" using assms(5) g1(3) by (simp add: get_obj_def)
  obtain g2 where g2: "GC_SET_COLOR h GC_BLACK g1 = Some g2" "walked GC_BLACK 1 {#} [OB h] g1 g2"
    using walked_obj_color [OF b1, of GC_BLACK 1] by blast
  have w: "walked GC_BLACK 1 {#} [ZV pz, OB h] g g2"
    using walked_trans [OF g1(2) g2(2)] assms(2) by (simp add: elem_def)
  have "object_buckets g \<noteq> None" using assms(5) by (auto simp: get_obj_def split: option.splits)
  moreover have "object_elements h (Other_Getter k) g2 = Some None"
    using assms(5,6,8) shape_object_elements [OF walked_shape [OF w]] by (simp add: object_elements_def)
  ultimately have "collect_body pz g = Some ([], g2)"
    using assms(1,3,4,7) g1(1,3) g2(1) b1 by (simp add: collect_body_def del: not_None_eq)
  then show ?thesis using w by (simp add: walked_def del: ncol.simps nrc.simps)
qed

end
