(* ===== verification/ZendAlloc.thy ===== *)
theory ZendAlloc
  imports Prelude
begin

text \<open>
  The memory manager (Zend/zend_alloc.c) in the release build on a 64-bit machine with GCC: alignment 8, no
  \<open>ZEND_DEBUG\<close>, so no heap protection and no cookies, with safe unlinking, the block cache and no statistics.

  Segments come from the storage handlers. A segment is a 16-byte head, blocks without gaps, and a
  guard block of 16 bytes. A block starts with its size and the size of the block in front of it,
  the low bits of both telling used and free ones apart. Free blocks carry their links in their own bytes:
  small ones lie on one ring per size, large ones in one binary trie per power of two, with a ring for
  each node, and the rest of a big segment on a ring of its own. Freed small blocks first
  go to a cache and still count as used there.

  Every field of a structure in memory is a map from the address of the structure; \<open>None\<close> is a cell that
  was never written or has been released, and reading it is undefined. Links lie in the bytes behind the
  header, and only large blocks have tree links. \<open>payload\<close> is what the callers of the manager see: the data part of the
  blocks they hold. \<open>None\<close> as the result of a function is undefined behaviour, or the exit in \<open>zend_mm_panic\<close> that
  safe unlinking takes when it finds the heap corrupted. Sizes are natural numbers, taken modulo
  \<open>2 ^ 64\<close> where the code can overflow; the counters of the heap are words. The conversion to \<open>int\<close> in
  \<open>ZEND_MM_PREV_BLOCK\<close> is kept.
\<close>

subsection \<open>Sizes\<close>

definition ZEND_MM_NUM_BUCKETS :: nat where "ZEND_MM_NUM_BUCKETS = 64"
definition ZEND_MM_CACHE_SIZE :: nat where "ZEND_MM_CACHE_SIZE = ZEND_MM_NUM_BUCKETS * 4 * 1024"
definition ZEND_MM_MAX_REST_BLOCKS :: int where "ZEND_MM_MAX_REST_BLOCKS = 16"
definition ZEND_MM_SEG_SIZE :: ulong where "ZEND_MM_SEG_SIZE = 256 * 1024"
definition ZEND_MM_RESERVE_SIZE :: nat where "ZEND_MM_RESERVE_SIZE = 8 * 1024"

definition ZEND_MM_FREE_BLOCK :: nat where "ZEND_MM_FREE_BLOCK = 0"
definition ZEND_MM_USED_BLOCK :: nat where "ZEND_MM_USED_BLOCK = 1"
definition ZEND_MM_GUARD_BLOCK :: nat where "ZEND_MM_GUARD_BLOCK = 3"

definition ZEND_MM_ALIGNED_SIZE :: "nat \<Rightarrow> nat" where
  "ZEND_MM_ALIGNED_SIZE sz = (sz + 7) mod 2 ^ 64 div 8 * 8"

definition ZEND_MM_ALIGNED_HEADER_SIZE :: nat where
  "ZEND_MM_ALIGNED_HEADER_SIZE = ZEND_MM_ALIGNED_SIZE 16"

definition ZEND_MM_ALIGNED_MIN_HEADER_SIZE :: nat where
  "ZEND_MM_ALIGNED_MIN_HEADER_SIZE =
     (if ZEND_MM_ALIGNED_SIZE ZEND_MM_ALIGNED_HEADER_SIZE > ZEND_MM_ALIGNED_SIZE 32
      then ZEND_MM_ALIGNED_SIZE ZEND_MM_ALIGNED_HEADER_SIZE else ZEND_MM_ALIGNED_SIZE 32)"

definition ZEND_MM_ALIGNED_SEGMENT_SIZE :: nat where
  "ZEND_MM_ALIGNED_SEGMENT_SIZE = ZEND_MM_ALIGNED_SIZE 16"

definition ZEND_MM_MIN_SIZE :: nat where
  "ZEND_MM_MIN_SIZE = (if ZEND_MM_ALIGNED_MIN_HEADER_SIZE > ZEND_MM_ALIGNED_HEADER_SIZE
     then ZEND_MM_ALIGNED_MIN_HEADER_SIZE - ZEND_MM_ALIGNED_HEADER_SIZE else 0)"

definition ZEND_MM_MAX_SMALL_SIZE :: nat where
  "ZEND_MM_MAX_SMALL_SIZE = ZEND_MM_NUM_BUCKETS * 2 ^ 3 + ZEND_MM_ALIGNED_MIN_HEADER_SIZE"

definition ZEND_MM_TRUE_SIZE :: "nat \<Rightarrow> nat" where
  "ZEND_MM_TRUE_SIZE sz = (if sz < ZEND_MM_MIN_SIZE then ZEND_MM_ALIGNED_MIN_HEADER_SIZE
     else ZEND_MM_ALIGNED_SIZE ((sz + ZEND_MM_ALIGNED_HEADER_SIZE) mod 2 ^ 64))"

definition ZEND_MM_BUCKET_INDEX :: "nat \<Rightarrow> nat" where
  "ZEND_MM_BUCKET_INDEX true_size =
     (true_size div 2 ^ 3 + 2 ^ 64 - ZEND_MM_ALIGNED_MIN_HEADER_SIZE div 2 ^ 3) mod 2 ^ 64"

definition ZEND_MM_SMALL_SIZE :: "nat \<Rightarrow> bool" where
  "ZEND_MM_SMALL_SIZE true_size \<longleftrightarrow> true_size < ZEND_MM_MAX_SMALL_SIZE"

subsection \<open>Bit scans\<close>

text \<open>The portable versions; \<open>bsr\<close> and \<open>bsf\<close> give the same for nonzero arguments. For 0 the second one never ends.\<close>

function high_bit_loop :: "nat \<Rightarrow> nat \<Rightarrow> nat" where
  "high_bit_loop sz n = (if sz \<noteq> 0 then high_bit_loop (sz div 2) (Suc n) else n)"
  by pat_completeness auto
termination
  by (relation "measure fst") auto

declare high_bit_loop.simps [simp del]

definition zend_mm_high_bit :: "nat \<Rightarrow> nat" where
  "zend_mm_high_bit sz = (let n = high_bit_loop sz 0 in if n = 0 then 2 ^ 32 - 1 else n - 1)"

definition low_bit_offset :: "nat list" where
  "low_bit_offset = [4, 0, 1, 0, 2, 0, 1, 0, 3, 0, 1, 0, 2, 0, 1, 0]"

function zend_mm_low_bit_loop :: "nat \<Rightarrow> nat \<Rightarrow> nat option" where
  "zend_mm_low_bit_loop sz index =
     (if sz = 0 then None
      else let n = low_bit_offset ! (sz mod 16) in
        if n = 4 then zend_mm_low_bit_loop (sz div 16) (index + n) else Some (index + n))"
  by pat_completeness auto
termination
  by (relation "measure fst") auto

declare zend_mm_low_bit_loop.simps [simp del]

definition zend_mm_low_bit :: "ulong \<Rightarrow> nat option" where
  "zend_mm_low_bit sz = zend_mm_low_bit_loop (unat sz) 0"

subsection \<open>The heap\<close>

text \<open>
  A pointer to a free block can also point to the list heads in the heap structure, which the macros
  \<open>ZEND_MM_SMALL_FREE_BUCKET\<close> and \<open>ZEND_MM_REST_BUCKET\<close> dress as blocks: \<open>free_buckets[2 * i]\<close> and
  \<open>free_buckets[2 * i + 1]\<close> are the links of \<open>Small_Bucket i\<close>. A \<open>slot\<close> is a place that holds a tree pointer.
\<close>

datatype block_ptr = NULL_Block | Blk addr | Small_Bucket nat | Rest_Bucket

datatype slot = Large_Bucket nat | Child addr bool

datatype parent = NULL_Parent | REST_BLOCK | In_Slot slot

record mm_heap =
  info_size :: "addr \<Rightarrow> nat option"
  info_prev :: "addr \<Rightarrow> nat option"
  prev_free :: "block_ptr \<Rightarrow> block_ptr option"
  next_free :: "block_ptr \<Rightarrow> block_ptr option"
  block_parent :: "addr \<Rightarrow> parent option"
  block_child :: "addr \<times> bool \<Rightarrow> addr option option"
  segment_size :: "addr \<Rightarrow> nat option"
  next_segment :: "addr \<Rightarrow> addr option option"
  payload :: "addr \<Rightarrow> byte"
  free_bitmap :: ulong
  large_free_bitmap :: ulong
  block_size :: ulong
  compact_size :: ulong
  segments_list :: "addr option"
  real_size :: ulong
  real_peak :: ulong
  mm_limit :: ulong
  mm_size :: ulong
  mm_peak :: ulong
  reserve_size :: nat
  reserve :: "addr option"
  overflow :: nat
  cached :: uint
  cache :: "nat \<Rightarrow> addr option"
  large_free_buckets :: "nat \<Rightarrow> addr option"
  rest_count :: int

text \<open>The storage handlers: what they return may depend on everything.\<close>

record mm_storage =
  storage_alloc :: "mm_heap \<Rightarrow> nat \<Rightarrow> addr option"
  storage_realloc :: "mm_heap \<Rightarrow> addr \<Rightarrow> nat \<Rightarrow> addr option"

text \<open>How a call ends: \<open>zend_mm_safe_error\<close> reports and leaves by a long jump.\<close>

datatype mm_error = Limit_Exhausted | Out_Of_Memory

datatype 'a mm_outcome = Done 'a mm_heap | Fatal mm_error mm_heap

subsection \<open>Block headers\<close>

definition ZEND_MM_BLOCK_SIZE :: "nat \<Rightarrow> nat" where "ZEND_MM_BLOCK_SIZE s = s - (s AND 3)"
definition ZEND_MM_IS_FREE_BLOCK :: "nat \<Rightarrow> bool" where "ZEND_MM_IS_FREE_BLOCK s \<longleftrightarrow> s AND ZEND_MM_USED_BLOCK = 0"
definition ZEND_MM_IS_GUARD_BLOCK :: "nat \<Rightarrow> bool" where "ZEND_MM_IS_GUARD_BLOCK s \<longleftrightarrow> s AND 3 = ZEND_MM_GUARD_BLOCK"

definition ZEND_MM_BLOCK :: "addr \<Rightarrow> nat \<Rightarrow> nat \<Rightarrow> mm_heap \<Rightarrow> mm_heap" where
  "ZEND_MM_BLOCK b type sz h =
     h\<lparr>info_size := (info_size h)(b \<mapsto> type OR sz), info_prev := (info_prev h)(b + sz \<mapsto> type OR sz)\<rparr>"

definition ZEND_MM_LAST_BLOCK :: "addr \<Rightarrow> mm_heap \<Rightarrow> mm_heap" where
  "ZEND_MM_LAST_BLOCK b h = h\<lparr>info_size := (info_size h)(b \<mapsto> ZEND_MM_GUARD_BLOCK OR ZEND_MM_ALIGNED_HEADER_SIZE)\<rparr>"

definition ZEND_MM_MARK_FIRST_BLOCK :: "addr \<Rightarrow> mm_heap \<Rightarrow> mm_heap" where
  "ZEND_MM_MARK_FIRST_BLOCK b h = h\<lparr>info_prev := (info_prev h)(b \<mapsto> ZEND_MM_GUARD_BLOCK)\<rparr>"

definition ZEND_MM_IS_FIRST_BLOCK :: "addr \<Rightarrow> mm_heap \<Rightarrow> bool option" where
  "ZEND_MM_IS_FIRST_BLOCK b h = map_option (\<lambda>p. p = ZEND_MM_GUARD_BLOCK) (info_prev h b)"

definition ZEND_MM_PREV_BLOCK_IS_FREE :: "addr \<Rightarrow> mm_heap \<Rightarrow> bool option" where
  "ZEND_MM_PREV_BLOCK_IS_FREE b h = map_option ZEND_MM_IS_FREE_BLOCK (info_prev h b)"

definition ZEND_MM_PREV_BLOCK :: "addr \<Rightarrow> mm_heap \<Rightarrow> addr option" where
  "ZEND_MM_PREV_BLOCK b h = do {
     p \<leftarrow> info_prev h b;
     let a = int b - i32 (int (ZEND_MM_BLOCK_SIZE p));
     if a < 0 then None else Some (nat a) }"

definition ZEND_MM_DATA_OF :: "addr \<Rightarrow> addr" where "ZEND_MM_DATA_OF b = b + ZEND_MM_ALIGNED_HEADER_SIZE"

definition ZEND_MM_HEADER_OF :: "addr \<Rightarrow> addr option" where
  "ZEND_MM_HEADER_OF p = (if p < ZEND_MM_ALIGNED_HEADER_SIZE then None else Some (p - ZEND_MM_ALIGNED_HEADER_SIZE))"

definition is_guard_at :: "addr \<Rightarrow> mm_heap \<Rightarrow> bool option" where
  "is_guard_at b h = map_option ZEND_MM_IS_GUARD_BLOCK (info_size h b)"

text \<open>Both macros as one condition, the second header read only behind a first block.\<close>

definition spans_segment :: "addr \<Rightarrow> addr \<Rightarrow> mm_heap \<Rightarrow> bool option" where
  "spans_segment b e h = do {
     first \<leftarrow> ZEND_MM_IS_FIRST_BLOCK b h;
     if first then is_guard_at e h else Some False }"

definition ZEND_MM_CHECK_BLOCK_LINKAGE :: "addr \<Rightarrow> mm_heap \<Rightarrow> unit option" where
  "ZEND_MM_CHECK_BLOCK_LINKAGE b h = do {
     s \<leftarrow> info_size h b;
     p \<leftarrow> info_prev h (b + s);
     if s \<noteq> p then None
     else do {
       first \<leftarrow> ZEND_MM_IS_FIRST_BLOCK b h;
       if first then Some ()
       else do {
         q \<leftarrow> ZEND_MM_PREV_BLOCK b h;
         qs \<leftarrow> info_size h q;
         bp \<leftarrow> info_prev h b;
         if qs \<noteq> bp then None else Some () } } }"

subsection \<open>Links\<close>

definition block_of :: "block_ptr \<Rightarrow> addr option" where
  "block_of p = (case p of Blk b \<Rightarrow> Some b | _ \<Rightarrow> None)"

definition set_prev_free :: "block_ptr \<Rightarrow> block_ptr \<Rightarrow> mm_heap \<Rightarrow> mm_heap" where
  "set_prev_free p q h = h\<lparr>prev_free := (prev_free h)(p \<mapsto> q)\<rparr>"

definition set_next_free :: "block_ptr \<Rightarrow> block_ptr \<Rightarrow> mm_heap \<Rightarrow> mm_heap" where
  "set_next_free p q h = h\<lparr>next_free := (next_free h)(p \<mapsto> q)\<rparr>"

definition set_parent :: "addr \<Rightarrow> parent \<Rightarrow> mm_heap \<Rightarrow> mm_heap" where
  "set_parent b p h = h\<lparr>block_parent := (block_parent h)(b \<mapsto> p)\<rparr>"

definition slot_value :: "slot \<Rightarrow> mm_heap \<Rightarrow> addr option option" where
  "slot_value sl h = (case sl of Large_Bucket i \<Rightarrow> if i < ZEND_MM_NUM_BUCKETS then Some (large_free_buckets h i) else None
     | Child b c \<Rightarrow> block_child h (b, c))"

definition set_slot :: "slot \<Rightarrow> addr option \<Rightarrow> mm_heap \<Rightarrow> mm_heap" where
  "set_slot sl v h = (case sl of Large_Bucket i \<Rightarrow> h\<lparr>large_free_buckets := (large_free_buckets h)(i := v)\<rparr>
     | Child b c \<Rightarrow> h\<lparr>block_child := (block_child h)((b, c) \<mapsto> v)\<rparr>)"

definition parent_slot :: "addr \<Rightarrow> mm_heap \<Rightarrow> slot option" where
  "parent_slot b h = do {
     p \<leftarrow> block_parent h b;
     (case p of In_Slot sl \<Rightarrow> Some sl | _ \<Rightarrow> None) }"

text \<open>The block goes between \<open>prev\<close> and \<open>next\<close>.\<close>

definition link_between :: "block_ptr \<Rightarrow> block_ptr \<Rightarrow> block_ptr \<Rightarrow> mm_heap \<Rightarrow> mm_heap" where
  "link_between prev b nx h =
     set_next_free prev b (set_prev_free nx b (set_next_free b nx (set_prev_free b prev h)))"

subsection \<open>Free lists\<close>

text \<open>The descent of the insertion; \<open>p\<close> holds a block on entry.\<close>

partial_function (option) add_to_tree :: "addr \<Rightarrow> nat \<Rightarrow> ulong \<Rightarrow> slot \<Rightarrow> mm_heap \<Rightarrow> mm_heap option" where
  "add_to_tree b sz m p h = do {
     v \<leftarrow> slot_value p h;
     prev \<leftarrow> v;
     s \<leftarrow> info_size h prev;
     if s \<noteq> sz then do {
       let p = Child prev (bit m 63);
       w \<leftarrow> slot_value p h;
       (case w of
          None \<Rightarrow> Some (link_between (Blk b) (Blk b) (Blk b) (set_parent b (In_Slot p) (set_slot p (Some b) h)))
        | Some _ \<Rightarrow> add_to_tree b sz (push_bit 1 m) p h) }
     else do {
       nx \<leftarrow> next_free h (Blk prev);
       Some (set_parent b NULL_Parent (link_between (Blk prev) (Blk b) nx h)) } }"

definition zend_mm_add_to_free_list :: "addr \<Rightarrow> mm_heap \<Rightarrow> mm_heap option" where
  "zend_mm_add_to_free_list b h = do {
     sz \<leftarrow> info_size h b;
     (if \<not> ZEND_MM_SMALL_SIZE sz then do {
        let index = zend_mm_high_bit sz;
        let p = Large_Bucket index;
        let h = set_slot (Child b True) None (set_slot (Child b False) None h);
        v \<leftarrow> slot_value p h;
        (if v = None then do {
           let h = link_between (Blk b) (Blk b) (Blk b) (set_parent b (In_Slot p) (set_slot p (Some b) h));
           Some (h\<lparr>large_free_bitmap := large_free_bitmap h OR push_bit index 1\<rparr>) }
         else add_to_tree b sz (push_bit (ZEND_MM_NUM_BUCKETS - index) (of_nat sz)) p h) }
      else do {
        let index = ZEND_MM_BUCKET_INDEX sz;
        let prev = Small_Bucket index;
        pp \<leftarrow> prev_free h prev;
        let h = (if pp = prev then h\<lparr>free_bitmap := free_bitmap h OR push_bit index 1\<rparr> else h);
        nx \<leftarrow> next_free h prev;
        Some (link_between prev (Blk b) nx h) }) }"

text \<open>The block at the bottom below \<open>prev\<close>, with the slot that holds it.\<close>

partial_function (option) deepest :: "slot \<Rightarrow> addr \<Rightarrow> mm_heap \<Rightarrow> (slot \<times> addr) option" where
  "deepest rp prev h = do {
     c1 \<leftarrow> block_child h (prev, True);
     let cp = Child prev (c1 \<noteq> None);
     v \<leftarrow> slot_value cp h;
     (case v of None \<Rightarrow> Some (rp, prev) | Some q \<Rightarrow> deepest cp q h) }"

definition ZEND_MM_CHECK_TREE :: "addr \<Rightarrow> mm_heap \<Rightarrow> unit option" where
  "ZEND_MM_CHECK_TREE b h = do {
     sl \<leftarrow> parent_slot b h;
     v \<leftarrow> slot_value sl h;
     if v \<noteq> Some b then None else Some () }"

definition move_child :: "addr \<Rightarrow> addr \<Rightarrow> bool \<Rightarrow> mm_heap \<Rightarrow> mm_heap option" where
  "move_child b prev c h = do {
     v \<leftarrow> block_child h (b, c);
     let h = set_slot (Child prev c) v h;
     (case v of None \<Rightarrow> Some h
      | Some x \<Rightarrow> do {
          _ \<leftarrow> ZEND_MM_CHECK_TREE x h;
          Some (set_parent x (In_Slot (Child prev c)) h) }) }"

text \<open>The label \<open>subst_block\<close>: \<open>prev\<close> takes the place of the block in the tree.\<close>

definition subst_block :: "addr \<Rightarrow> addr \<Rightarrow> mm_heap \<Rightarrow> mm_heap option" where
  "subst_block b prev h = do {
     _ \<leftarrow> ZEND_MM_CHECK_TREE b h;
     sl \<leftarrow> parent_slot b h;
     let h = set_parent prev (In_Slot sl) (set_slot sl (Some prev) h);
     h \<leftarrow> move_child b prev False h;
     move_child b prev True h }"

definition zend_mm_remove_from_free_list :: "addr \<Rightarrow> mm_heap \<Rightarrow> mm_heap option" where
  "zend_mm_remove_from_free_list b h = do {
     prev \<leftarrow> prev_free h (Blk b);
     nx \<leftarrow> next_free h (Blk b);
     (if prev = Blk b then
        if nx \<noteq> Blk b then None
        else do {
          c1 \<leftarrow> block_child h (b, True);
          let rp = Child b (c1 \<noteq> None);
          v \<leftarrow> slot_value rp h;
          (case v of
             None \<Rightarrow> do {
               sz \<leftarrow> info_size h b;
               let index = zend_mm_high_bit sz;
               _ \<leftarrow> ZEND_MM_CHECK_TREE b h;
               sl \<leftarrow> parent_slot b h;
               let h = set_slot sl None h;
               Some (if sl = Large_Bucket index
                     then h\<lparr>large_free_bitmap := large_free_bitmap h AND NOT (push_bit index 1)\<rparr> else h) }
           | Some prev \<Rightarrow> do {
               (rp, prev) \<leftarrow> deepest rp prev h;
               subst_block b prev (set_slot rp None h) }) }
      else do {
        pn \<leftarrow> next_free h prev;
        np \<leftarrow> prev_free h nx;
        (if pn \<noteq> Blk b \<or> np \<noteq> Blk b then None
         else do {
           let h = set_prev_free nx prev (set_next_free prev nx h);
           sz \<leftarrow> info_size h b;
           (if ZEND_MM_SMALL_SIZE sz then
              if prev = nx then do {
                let index = ZEND_MM_BUCKET_INDEX sz;
                p \<leftarrow> prev_free h (Small_Bucket index);
                n \<leftarrow> next_free h (Small_Bucket index);
                Some (if p = n then h\<lparr>free_bitmap := free_bitmap h AND NOT (push_bit index 1)\<rparr> else h) }
              else Some h
            else do {
              par \<leftarrow> block_parent h b;
              (case par of
                 REST_BLOCK \<Rightarrow> Some (h\<lparr>rest_count := rest_count h - 1\<rparr>)
               | NULL_Parent \<Rightarrow> Some h
               | In_Slot _ \<Rightarrow> do { q \<leftarrow> block_of prev; subst_block b q h }) }) }) }) }"

text \<open>The loop that moves the oldest rest blocks to the free lists.\<close>

partial_function (option) flush_rest :: "mm_heap \<Rightarrow> mm_heap option" where
  "flush_rest h =
     (if rest_count h \<ge> ZEND_MM_MAX_REST_BLOCKS then do {
        p \<leftarrow> next_free h Rest_Bucket;
        b \<leftarrow> block_of p;
        sz \<leftarrow> info_size h b;
        let h = (if \<not> ZEND_MM_SMALL_SIZE sz then h\<lparr>rest_count := rest_count h - 1\<rparr> else h);
        prev \<leftarrow> prev_free h p;
        nx \<leftarrow> next_free h p;
        h \<leftarrow> zend_mm_add_to_free_list b (set_prev_free nx prev (set_next_free prev nx h));
        flush_rest h }
      else Some h)"

definition zend_mm_add_to_rest_list :: "addr \<Rightarrow> mm_heap \<Rightarrow> mm_heap option" where
  "zend_mm_add_to_rest_list b h = do {
     h \<leftarrow> flush_rest h;
     sz \<leftarrow> info_size h b;
     let h = (if \<not> ZEND_MM_SMALL_SIZE sz
              then set_parent b REST_BLOCK h\<lparr>rest_count := rest_count h + 1\<rparr> else h);
     prev \<leftarrow> prev_free h Rest_Bucket;
     nx \<leftarrow> next_free h prev;
     Some (link_between prev (Blk b) nx h) }"

text \<open>The heads of the lists are the fields behind them, so \<open>rest_buckets[0]\<close> is \<open>prev_free\<close> of \<open>Rest_Bucket\<close>.\<close>

definition zend_mm_init :: "mm_heap \<Rightarrow> mm_heap" where
  "zend_mm_init h = h\<lparr>
     free_bitmap := 0, large_free_bitmap := 0, cached := 0, cache := (\<lambda>_. None),
     prev_free := (\<lambda>p. case p of Small_Bucket i \<Rightarrow> if i < ZEND_MM_NUM_BUCKETS then Some p else prev_free h p
       | Rest_Bucket \<Rightarrow> Some p | _ \<Rightarrow> prev_free h p),
     next_free := (\<lambda>p. case p of Small_Bucket i \<Rightarrow> if i < ZEND_MM_NUM_BUCKETS then Some p else next_free h p
       | Rest_Bucket \<Rightarrow> Some p | _ \<Rightarrow> next_free h p),
     large_free_buckets := (\<lambda>_. None), rest_count := 0\<rparr>"

end
