(* ===== verification/ZendAllocOps.thy ===== *)
theory ZendAllocOps
  imports ZendAlloc
begin

text \<open>
  The memory manager, continued: segments, the cache, allocation, release and reallocation, start and end, and the
  functions of the allocation manager on top.
\<close>

subsection \<open>Segments\<close>

text \<open>The pointer the search for a segment moves along the list; \<open>Segments_List\<close> is the field of the heap.\<close>

datatype segment_ref = Segments_List | Next_Of addr

definition segment_at :: "segment_ref \<Rightarrow> mm_heap \<Rightarrow> addr option option" where
  "segment_at r h = (case r of Segments_List \<Rightarrow> Some (segments_list h) | Next_Of s \<Rightarrow> next_segment h s)"

definition set_segment_at :: "segment_ref \<Rightarrow> addr option \<Rightarrow> mm_heap \<Rightarrow> mm_heap" where
  "set_segment_at r v h = (case r of Segments_List \<Rightarrow> h\<lparr>segments_list := v\<rparr>
     | Next_Of s \<Rightarrow> h\<lparr>next_segment := (next_segment h)(s \<mapsto> v)\<rparr>)"

partial_function (option) find_segment :: "segment_ref \<Rightarrow> addr \<Rightarrow> mm_heap \<Rightarrow> segment_ref option" where
  "find_segment p segment h = do {
     v \<leftarrow> segment_at p h;
     (if v = Some segment then Some p
      else do { s \<leftarrow> v; find_segment (Next_Of s) segment h }) }"

text \<open>\<open>ZEND_MM_STORAGE_FREE\<close>: everything the segment held is gone.\<close>

definition forget :: "addr \<Rightarrow> nat \<Rightarrow> mm_heap \<Rightarrow> mm_heap" where
  "forget a n h = h\<lparr>
     info_size := (info_size h) |` (- {a..<a + n}), info_prev := (info_prev h) |` (- {a..<a + n}),
     prev_free := (prev_free h) |` (- Blk ` {a..<a + n}), next_free := (next_free h) |` (- Blk ` {a..<a + n}),
     block_parent := (block_parent h) |` (- {a..<a + n}), block_child := (block_child h) |` (- ({a..<a + n} \<times> UNIV))\<rparr>"

definition ZEND_MM_STORAGE_FREE :: "addr \<Rightarrow> mm_heap \<Rightarrow> mm_heap option" where
  "ZEND_MM_STORAGE_FREE segment h = do {
     n \<leftarrow> segment_size h segment;
     let h = forget segment n h;
     Some (h\<lparr>segment_size := (segment_size h)(segment := None), next_segment := (next_segment h)(segment := None)\<rparr>) }"

definition zend_mm_del_segment :: "addr \<Rightarrow> mm_heap \<Rightarrow> mm_heap option" where
  "zend_mm_del_segment segment h = do {
     p \<leftarrow> find_segment Segments_List segment h;
     nx \<leftarrow> next_segment h segment;
     let h = set_segment_at p nx h;
     n \<leftarrow> segment_size h segment;
     ZEND_MM_STORAGE_FREE segment (h\<lparr>real_size := real_size h - of_nat n\<rparr>) }"

text \<open>\<open>(char *) block - ZEND_MM_ALIGNED_SEGMENT_SIZE\<close>\<close>

definition segment_of :: "addr \<Rightarrow> addr option" where
  "segment_of b = (if b < ZEND_MM_ALIGNED_SEGMENT_SIZE then None else Some (b - ZEND_MM_ALIGNED_SEGMENT_SIZE))"

subsection \<open>Emptying the cache\<close>

text \<open>The cache links its blocks by \<open>prev_free_block\<close>; the last one points to NULL.\<close>

definition cache_next :: "addr \<Rightarrow> mm_heap \<Rightarrow> addr option option" where
  "cache_next b h = do {
     q \<leftarrow> prev_free h (Blk b);
     (case q of NULL_Block \<Rightarrow> Some None | Blk x \<Rightarrow> Some (Some x) | _ \<Rightarrow> None) }"

definition cache_ptr :: "addr option \<Rightarrow> block_ptr" where
  "cache_ptr v = (case v of None \<Rightarrow> NULL_Block | Some b \<Rightarrow> Blk b)"

definition free_cached_block :: "addr \<Rightarrow> mm_heap \<Rightarrow> mm_heap option" where
  "free_cached_block b h = do {
     s \<leftarrow> info_size h b;
     let sz = ZEND_MM_BLOCK_SIZE s;
     let next_block = b + sz;
     let h = h\<lparr>cached := cached h - of_nat sz\<rparr>;
     prev_is_free \<leftarrow> ZEND_MM_PREV_BLOCK_IS_FREE b h;
     (mm_block, sz, h) \<leftarrow>
       (if prev_is_free then do {
          q \<leftarrow> ZEND_MM_PREV_BLOCK b h;
          qs \<leftarrow> info_size h q;
          h \<leftarrow> zend_mm_remove_from_free_list q h;
          Some (q, sz + qs, h) }
        else Some (b, sz, h));
     ns \<leftarrow> info_size h next_block;
     (sz, h) \<leftarrow>
       (if ZEND_MM_IS_FREE_BLOCK ns then do {
          h \<leftarrow> zend_mm_remove_from_free_list next_block h;
          Some (sz + ns, h) }
        else Some (sz, h));
     let h = ZEND_MM_BLOCK mm_block ZEND_MM_FREE_BLOCK sz h;
     spans \<leftarrow> spans_segment mm_block (mm_block + sz) h;
     (if spans then do { segment \<leftarrow> segment_of mm_block; zend_mm_del_segment segment h }
      else zend_mm_add_to_free_list mm_block h) }"

partial_function (option) free_cache_list :: "addr option \<Rightarrow> mm_heap \<Rightarrow> mm_heap option" where
  "free_cache_list v h =
     (case v of
        None \<Rightarrow> Some h
      | Some b \<Rightarrow> do {
          q \<leftarrow> cache_next b h;
          h \<leftarrow> free_cached_block b h;
          free_cache_list q h })"

fun free_cache_loop :: "nat list \<Rightarrow> mm_heap \<Rightarrow> mm_heap option" where
  "free_cache_loop [] h = Some h"
| "free_cache_loop (i # is) h = do {
     h \<leftarrow> (if cache h i \<noteq> None then do {
              h \<leftarrow> free_cache_list (cache h i) h;
              Some (h\<lparr>cache := (cache h)(i := None)\<rparr>) }
           else Some h);
     free_cache_loop is h }"

definition zend_mm_free_cache :: "mm_heap \<Rightarrow> mm_heap option" where
  "zend_mm_free_cache h = free_cache_loop [0..<ZEND_MM_NUM_BUCKETS] h"

subsection \<open>Release\<close>

text \<open>A freed small block goes on top of its list in the cache.\<close>

definition push_cache :: "nat \<Rightarrow> addr \<Rightarrow> mm_heap \<Rightarrow> mm_heap option" where
  "push_cache index b h =
     (if index \<ge> ZEND_MM_NUM_BUCKETS then None
      else Some ((set_prev_free (Blk b) (cache_ptr (cache h index)) h)\<lparr>cache := (cache h)(index \<mapsto> b)\<rparr>))"

definition zend_mm_free_int :: "addr option \<Rightarrow> mm_heap \<Rightarrow> mm_heap option" where
  "zend_mm_free_int ptr h =
     (case ptr of
        None \<Rightarrow> Some h
      | Some p \<Rightarrow> do {
          mm_block \<leftarrow> ZEND_MM_HEADER_OF p;
          s \<leftarrow> info_size h mm_block;
          let sz = ZEND_MM_BLOCK_SIZE s;
          (if ZEND_MM_SMALL_SIZE sz \<and> unat (cached h) < ZEND_MM_CACHE_SIZE
           then do {
             h \<leftarrow> push_cache (ZEND_MM_BUCKET_INDEX sz) mm_block h;
             Some (h\<lparr>cached := cached h + of_nat sz\<rparr>) }
           else do {
             let h = h\<lparr>mm_size := mm_size h - of_nat sz\<rparr>;
             let next_block = mm_block + sz;
             ns \<leftarrow> info_size h next_block;
             (sz, h) \<leftarrow>
               (if ZEND_MM_IS_FREE_BLOCK ns then do {
                  h \<leftarrow> zend_mm_remove_from_free_list next_block h;
                  Some (sz + ns, h) }
                else Some (sz, h));
             prev_is_free \<leftarrow> ZEND_MM_PREV_BLOCK_IS_FREE mm_block h;
             (mm_block, sz, h) \<leftarrow>
               (if prev_is_free then do {
                  q \<leftarrow> ZEND_MM_PREV_BLOCK mm_block h;
                  h \<leftarrow> zend_mm_remove_from_free_list q h;
                  qs \<leftarrow> info_size h q;
                  Some (q, sz + qs, h) }
                else Some (mm_block, sz, h));
             spans \<leftarrow> spans_segment mm_block (mm_block + sz) h;
             (if spans then do { segment \<leftarrow> segment_of mm_block; zend_mm_del_segment segment h }
              else zend_mm_add_to_free_list mm_block (ZEND_MM_BLOCK mm_block ZEND_MM_FREE_BLOCK sz h)) }) })"

text \<open>The report itself (\<open>zend_error_noreturn\<close> and its output) is left out; the call never returns.\<close>

definition zend_mm_safe_error :: "mm_error \<Rightarrow> mm_heap \<Rightarrow> 'a mm_outcome option" where
  "zend_mm_safe_error e h = do {
     h \<leftarrow> (if reserve h \<noteq> None then do {
              h \<leftarrow> zend_mm_free_int (reserve h) h;
              Some (h\<lparr>reserve := None\<rparr>) }
           else Some h);
     Some (Fatal e (h\<lparr>overflow := (if overflow h = 0 then 1 else 2)\<rparr>)) }"

subsection \<open>Search\<close>

text \<open>
  \<open>pick\<close> updates the best block so far, \<open>best_size\<close> starting at the greatest number. The first descent
  follows the bits of the size and keeps in \<open>rst\<close> the last right child it passed on the left.
\<close>

definition pick :: "bool \<Rightarrow> nat \<Rightarrow> addr \<Rightarrow> addr option \<times> nat \<Rightarrow> addr option \<times> nat" where
  "pick big_enough s p best = (if big_enough \<and> s < snd best then (Some p, s) else best)"

partial_function (option) search_path ::
    "nat \<Rightarrow> ulong \<Rightarrow> addr \<Rightarrow> addr option \<Rightarrow> addr option \<times> nat \<Rightarrow> mm_heap \<Rightarrow>
     (addr + addr option \<times> addr option \<times> nat) option" where
  "search_path true_size m p rst best h = do {
     s \<leftarrow> info_size h p;
     (if s = true_size then Some (Inl p)
      else do {
        let best = pick (s \<ge> true_size) s p best;
        (if \<not> bit m 63 then do {
           c1 \<leftarrow> block_child h (p, True);
           let rst = (if c1 \<noteq> None then c1 else rst);
           c0 \<leftarrow> block_child h (p, False);
           (case c0 of None \<Rightarrow> Some (Inr (rst, best))
            | Some q \<Rightarrow> search_path true_size (push_bit 1 m) q rst best h) }
         else do {
           c1 \<leftarrow> block_child h (p, True);
           (case c1 of None \<Rightarrow> Some (Inr (rst, best))
            | Some q \<Rightarrow> search_path true_size (push_bit 1 m) q rst best h) }) }) }"

text \<open>\<open>p->child[p->child[0] != NULL]\<close>\<close>

definition leftmost_step :: "addr \<Rightarrow> mm_heap \<Rightarrow> addr option option" where
  "leftmost_step p h = do {
     c0 \<leftarrow> block_child h (p, False);
     block_child h (p, c0 \<noteq> None) }"

partial_function (option) search_rest ::
    "nat \<Rightarrow> addr option \<Rightarrow> addr option \<times> nat \<Rightarrow> mm_heap \<Rightarrow> (addr + addr option \<times> nat) option" where
  "search_rest true_size v best h =
     (case v of
        None \<Rightarrow> Some (Inr best)
      | Some p \<Rightarrow> do {
          s \<leftarrow> info_size h p;
          (if s = true_size then Some (Inl p)
           else do {
             let best = pick (s > true_size) s p best;
             q \<leftarrow> leftmost_step p h;
             search_rest true_size q best h }) })"

partial_function (option) search_smallest :: "addr \<Rightarrow> addr \<Rightarrow> mm_heap \<Rightarrow> addr option" where
  "search_smallest best_fit p h = do {
     v \<leftarrow> leftmost_step p h;
     (case v of
        None \<Rightarrow> Some best_fit
      | Some q \<Rightarrow> do {
          s \<leftarrow> info_size h q;
          bs \<leftarrow> info_size h best_fit;
          search_smallest (if s < bs then q else best_fit) q h }) }"

definition zend_mm_search_large_block :: "nat \<Rightarrow> mm_heap \<Rightarrow> addr option option" where
  "zend_mm_search_large_block true_size h = do {
     let index = zend_mm_high_bit true_size;
     let bitmap = drop_bit index (large_free_bitmap h);
     let ring_next = (\<lambda>p. do { q \<leftarrow> next_free h (Blk p); b \<leftarrow> block_of q; Some (Some b) });
     let smallest = (\<lambda>bitmap index. do {
       low \<leftarrow> zend_mm_low_bit bitmap;
       v \<leftarrow> slot_value (Large_Bucket (index + low)) h;
       p \<leftarrow> v;
       best_fit \<leftarrow> search_smallest p p h;
       ring_next best_fit });
     (if bitmap = 0 then Some None
      else if bit bitmap 0 then do {
        v \<leftarrow> slot_value (Large_Bucket index) h;
        p \<leftarrow> v;
        r \<leftarrow> search_path true_size (push_bit (ZEND_MM_NUM_BUCKETS - index) (of_nat true_size)) p None (None, 2 ^ 64 - 1) h;
        (case r of
           Inl p \<Rightarrow> ring_next p
         | Inr (rst, best) \<Rightarrow> do {
             r \<leftarrow> search_rest true_size rst best h;
             (case r of
                Inl p \<Rightarrow> ring_next p
              | Inr (Some p, _) \<Rightarrow> ring_next p
              | Inr (None, _) \<Rightarrow>
                  let bitmap = drop_bit 1 bitmap in
                  if bitmap = 0 then Some None else smallest bitmap (index + 1)) }) }
      else smallest bitmap index) }"

text \<open>The search among the rest blocks, from the newest to the oldest.\<close>

partial_function (option) search_rest_list ::
    "nat \<Rightarrow> block_ptr \<Rightarrow> addr option \<times> nat \<Rightarrow> mm_heap \<Rightarrow> addr option option" where
  "search_rest_list true_size p best h =
     (if p = Rest_Bucket then Some (fst best)
      else do {
        b \<leftarrow> block_of p;
        s \<leftarrow> info_size h b;
        (if s = true_size then Some (Some b)
         else do {
           let best = pick (s > true_size) s b best;
           q \<leftarrow> prev_free h p;
           search_rest_list true_size q best h }) })"

subsection \<open>Allocation\<close>

text \<open>The size of the segment for a block, and whether what is left of it goes to the rest list.\<close>

definition needs_large_segment :: "nat \<Rightarrow> mm_heap \<Rightarrow> bool" where
  "needs_large_segment true_size h \<longleftrightarrow>
     of_nat true_size > block_size h - of_nat (ZEND_MM_ALIGNED_SEGMENT_SIZE + ZEND_MM_ALIGNED_HEADER_SIZE)"

definition segment_size_for :: "nat \<Rightarrow> mm_heap \<Rightarrow> ulong" where
  "segment_size_for true_size h =
     (if needs_large_segment true_size h
      then (of_nat true_size + of_nat (ZEND_MM_ALIGNED_SEGMENT_SIZE + ZEND_MM_ALIGNED_HEADER_SIZE) + (block_size h - 1))
        AND NOT (block_size h - 1)
      else block_size h)"

text \<open>The end of the allocation: the block is cut to size. Blocks kept for growing go to the rest list.\<close>

definition split_block :: "addr \<Rightarrow> nat \<Rightarrow> nat \<Rightarrow> bool \<Rightarrow> mm_heap \<Rightarrow> (nat \<times> mm_heap) option" where
  "split_block b block_sz true_size keep_rest h =
     (let remaining_size = block_sz - true_size in
      if remaining_size < ZEND_MM_ALIGNED_MIN_HEADER_SIZE
      then Some (block_sz, ZEND_MM_BLOCK b ZEND_MM_USED_BLOCK block_sz h)
      else do {
        let new_free_block = b + true_size;
        let h = ZEND_MM_BLOCK new_free_block ZEND_MM_FREE_BLOCK remaining_size
                  (ZEND_MM_BLOCK b ZEND_MM_USED_BLOCK true_size h);
        h \<leftarrow> (if keep_rest then zend_mm_add_to_rest_list new_free_block h
              else zend_mm_add_to_free_list new_free_block h);
        Some (true_size, h) })"

definition raise_peak :: "mm_heap \<Rightarrow> mm_heap" where
  "raise_peak h = (if mm_peak h < mm_size h then h\<lparr>mm_peak := mm_size h\<rparr> else h)"

definition raise_real_peak :: "mm_heap \<Rightarrow> mm_heap" where
  "raise_real_peak h = (if real_size h > real_peak h then h\<lparr>real_peak := real_size h\<rparr> else h)"

definition finish_alloc :: "addr \<Rightarrow> nat \<Rightarrow> nat \<Rightarrow> bool \<Rightarrow> mm_heap \<Rightarrow> addr mm_outcome option" where
  "finish_alloc best_fit block_sz true_size keep_rest h = do {
     (true_size, h) \<leftarrow> split_block best_fit block_sz true_size keep_rest h;
     let h = raise_peak (h\<lparr>mm_size := mm_size h + of_nat true_size\<rparr>);
     Some (Done (ZEND_MM_DATA_OF best_fit) h) }"

definition alloc_found :: "addr \<Rightarrow> nat \<Rightarrow> mm_heap \<Rightarrow> addr mm_outcome option" where
  "alloc_found best_fit true_size h = do {
     _ \<leftarrow> ZEND_MM_CHECK_BLOCK_LINKAGE best_fit h;
     h \<leftarrow> zend_mm_remove_from_free_list best_fit h;
     block_sz \<leftarrow> info_size h best_fit;
     finish_alloc best_fit block_sz true_size False h }"

definition alloc_segment :: "mm_storage \<Rightarrow> nat \<Rightarrow> mm_heap \<Rightarrow> addr mm_outcome option" where
  "alloc_segment st true_size h = do {
     let keep_rest = needs_large_segment true_size h;
     let seg_size = segment_size_for true_size h;
     (if unat seg_size < true_size \<or> real_size h + seg_size > mm_limit h then do {
        h \<leftarrow> zend_mm_free_cache h;
        zend_mm_safe_error Limit_Exhausted h }
      else
        (case storage_alloc st h (unat seg_size) of
           None \<Rightarrow> do {
             h \<leftarrow> zend_mm_free_cache h;
             zend_mm_safe_error Out_Of_Memory h }
         | Some segment \<Rightarrow> do {
             let h = raise_real_peak (h\<lparr>real_size := real_size h + seg_size\<rparr>);
             let h = h\<lparr>segment_size := (segment_size h)(segment \<mapsto> unat seg_size),
                       next_segment := (next_segment h)(segment \<mapsto> segments_list h), segments_list := Some segment\<rparr>;
             let best_fit = segment + ZEND_MM_ALIGNED_SEGMENT_SIZE;
             let block_sz = unat seg_size - ZEND_MM_ALIGNED_SEGMENT_SIZE - ZEND_MM_ALIGNED_HEADER_SIZE;
             let h = ZEND_MM_LAST_BLOCK (best_fit + block_sz) (ZEND_MM_MARK_FIRST_BLOCK best_fit h);
             finish_alloc best_fit block_sz true_size keep_rest h })) }"

definition alloc_large :: "mm_storage \<Rightarrow> nat \<Rightarrow> mm_heap \<Rightarrow> addr mm_outcome option" where
  "alloc_large st true_size h = do {
     best_fit \<leftarrow> zend_mm_search_large_block true_size h;
     best_fit \<leftarrow> (if best_fit = None \<and> real_size h \<ge> mm_limit h - block_size h then do {
         p \<leftarrow> prev_free h Rest_Bucket;
         search_rest_list true_size p (None, 2 ^ 64 - 1) h }
       else Some best_fit);
     (case best_fit of
        Some b \<Rightarrow> alloc_found b true_size h
      | None \<Rightarrow> alloc_segment st true_size h) }"

definition zend_mm_alloc_int :: "mm_storage \<Rightarrow> nat \<Rightarrow> mm_heap \<Rightarrow> addr mm_outcome option" where
  "zend_mm_alloc_int st sz h =
     (let true_size = ZEND_MM_TRUE_SIZE sz in
      if ZEND_MM_SMALL_SIZE true_size then
        let index = ZEND_MM_BUCKET_INDEX true_size in
        if true_size < sz then zend_mm_safe_error Out_Of_Memory h
        else if index \<ge> ZEND_MM_NUM_BUCKETS then None
        else
          (case cache h index of
             Some best_fit \<Rightarrow> do {
               q \<leftarrow> cache_next best_fit h;
               Some (Done (ZEND_MM_DATA_OF best_fit)
                 (h\<lparr>cache := (cache h)(index := q), cached := cached h - of_nat true_size\<rparr>)) }
           | None \<Rightarrow>
               let bitmap = drop_bit index (free_bitmap h) in
               if bitmap \<noteq> 0 then do {
                 low \<leftarrow> zend_mm_low_bit bitmap;
                 p \<leftarrow> prev_free h (Small_Bucket (index + low));
                 best_fit \<leftarrow> block_of p;
                 alloc_found best_fit true_size h }
               else alloc_large st true_size h)
      else alloc_large st true_size h)"

subsection \<open>Reallocation\<close>

definition copy_payload :: "addr \<Rightarrow> addr \<Rightarrow> nat \<Rightarrow> mm_heap \<Rightarrow> mm_heap" where
  "copy_payload dst src n h =
     h\<lparr>payload := (\<lambda>a. if dst \<le> a \<and> a < dst + n then payload h (src + (a - dst)) else payload h a)\<rparr>"

definition realloc_shrink :: "addr \<Rightarrow> addr \<Rightarrow> nat \<Rightarrow> nat \<Rightarrow> mm_heap \<Rightarrow> addr mm_outcome option" where
  "realloc_shrink p mm_block true_size orig_size h = do {
     let remaining_size = orig_size - true_size;
     h \<leftarrow> (if remaining_size \<ge> ZEND_MM_ALIGNED_MIN_HEADER_SIZE then do {
         let next_block = mm_block + orig_size;
         ns \<leftarrow> info_size h next_block;
         (remaining_size, h) \<leftarrow>
           (if ZEND_MM_IS_FREE_BLOCK ns then do {
              h \<leftarrow> zend_mm_remove_from_free_list next_block h;
              Some (remaining_size + ns, h) }
            else Some (remaining_size, h));
         let new_free_block = mm_block + true_size;
         let h = ZEND_MM_BLOCK new_free_block ZEND_MM_FREE_BLOCK remaining_size
                   (ZEND_MM_BLOCK mm_block ZEND_MM_USED_BLOCK true_size h);
         h \<leftarrow> zend_mm_add_to_free_list new_free_block h;
         Some (h\<lparr>mm_size := mm_size h + (of_nat true_size - of_nat orig_size)\<rparr>) }
       else Some h);
     Some (Done p h) }"

text \<open>A cached block of the right size takes the data; the old block goes to the cache.\<close>

definition realloc_cached :: "addr \<Rightarrow> addr \<Rightarrow> addr \<Rightarrow> nat \<Rightarrow> nat \<Rightarrow> mm_heap \<Rightarrow> addr mm_outcome option" where
  "realloc_cached p mm_block best_fit true_size orig_size h = do {
     q \<leftarrow> cache_next best_fit h;
     let h = h\<lparr>cache := (cache h)(ZEND_MM_BUCKET_INDEX true_size := q)\<rparr>;
     let ptr = ZEND_MM_DATA_OF best_fit;
     let h = copy_payload ptr p (orig_size - ZEND_MM_ALIGNED_HEADER_SIZE) h;
     let h = h\<lparr>cached := cached h - (of_nat true_size - of_nat orig_size)\<rparr>;
     h \<leftarrow> push_cache (ZEND_MM_BUCKET_INDEX orig_size) mm_block h;
     Some (Done ptr h) }"

text \<open>The block grows into the free block behind it.\<close>

definition realloc_extend ::
    "addr \<Rightarrow> addr \<Rightarrow> addr \<Rightarrow> nat \<Rightarrow> nat \<Rightarrow> nat \<Rightarrow> mm_heap \<Rightarrow> addr mm_outcome option" where
  "realloc_extend p mm_block next_block block_sz true_size orig_size h = do {
     h \<leftarrow> zend_mm_remove_from_free_list next_block h;
     (true_size, h) \<leftarrow>
       (if block_sz - true_size < ZEND_MM_ALIGNED_MIN_HEADER_SIZE
        then split_block mm_block block_sz true_size False h
        else do {
          keep_rest \<leftarrow> spans_segment mm_block (mm_block + block_sz) h;
          split_block mm_block block_sz true_size keep_rest h });
     let h = raise_peak (h\<lparr>mm_size := mm_size h + of_nat true_size - of_nat orig_size\<rparr>);
     Some (Done p h) }"

text \<open>
  \<open>ZEND_MM_STORAGE_REALLOC\<close>: in place, or everything moves to the new address. The links that lay in the
  segment are not followed; they were bytes of blocks that are in use or off the lists.
\<close>

definition move_cells :: "addr \<Rightarrow> addr \<Rightarrow> nat \<Rightarrow> (addr \<Rightarrow> 'a option) \<Rightarrow> addr \<Rightarrow> 'a option" where
  "move_cells src dst n f = (\<lambda>a. if dst \<le> a \<and> a < dst + n then f (src + (a - dst))
     else if src \<le> a \<and> a < src + n then None else f a)"

definition move_segment :: "addr \<Rightarrow> addr \<Rightarrow> mm_heap \<Rightarrow> mm_heap option" where
  "move_segment src dst h =
     (if dst = src then Some h
      else do {
        n \<leftarrow> segment_size h src;
        nx \<leftarrow> next_segment h src;
        let h1 = forget src n h;
        Some (copy_payload dst src n (h1\<lparr>
          info_size := move_cells src dst n (info_size h), info_prev := move_cells src dst n (info_prev h),
          segment_size := (segment_size h)(src := None, dst \<mapsto> n),
          next_segment := (next_segment h)(src := None, dst \<mapsto> nx)\<rparr>)) })"

definition realloc_segment ::
    "mm_storage \<Rightarrow> addr \<Rightarrow> addr \<Rightarrow> nat \<Rightarrow> nat \<Rightarrow> mm_heap \<Rightarrow> addr mm_outcome option" where
  "realloc_segment st mm_block next_block true_size orig_size h = do {
     let seg_size = segment_size_for true_size h;
     segment_copy \<leftarrow> segment_of mm_block;
     old_size \<leftarrow> segment_size h segment_copy;
     (if unat seg_size < true_size \<or> real_size h + seg_size - of_nat old_size > mm_limit h then do {
        ns \<leftarrow> info_size h next_block;
        h \<leftarrow> (if ZEND_MM_IS_FREE_BLOCK ns then zend_mm_add_to_free_list next_block h else Some h);
        h \<leftarrow> zend_mm_free_cache h;
        zend_mm_safe_error Limit_Exhausted h }
      else
        (case storage_realloc st h segment_copy (unat seg_size) of
           None \<Rightarrow> do {
             h \<leftarrow> zend_mm_free_cache h;
             zend_mm_safe_error Out_Of_Memory h }
         | Some segment \<Rightarrow> do {
             h \<leftarrow> move_segment segment_copy segment h;
             n \<leftarrow> segment_size h segment;
             let h = raise_real_peak (h\<lparr>real_size := real_size h + (seg_size - of_nat n)\<rparr>);
             let h = h\<lparr>segment_size := (segment_size h)(segment \<mapsto> unat seg_size)\<rparr>;
             (mm_block, h) \<leftarrow>
               (if segment \<noteq> segment_copy then do {
                  seg \<leftarrow> find_segment Segments_List segment_copy h;
                  let h = set_segment_at seg (Some segment) h;
                  let mm_block = segment + ZEND_MM_ALIGNED_SEGMENT_SIZE;
                  Some (mm_block, ZEND_MM_MARK_FIRST_BLOCK mm_block h) }
                else Some (mm_block, h));
             let block_sz = unat seg_size - ZEND_MM_ALIGNED_SEGMENT_SIZE - ZEND_MM_ALIGNED_HEADER_SIZE;
             let h = ZEND_MM_LAST_BLOCK (mm_block + block_sz) h;
             (true_size, h) \<leftarrow> split_block mm_block block_sz true_size True h;
             let h = raise_peak (h\<lparr>mm_size := mm_size h + of_nat true_size - of_nat orig_size\<rparr>);
             Some (Done (ZEND_MM_DATA_OF mm_block) h) })) }"

definition realloc_move :: "mm_storage \<Rightarrow> addr \<Rightarrow> nat \<Rightarrow> nat \<Rightarrow> mm_heap \<Rightarrow> addr mm_outcome option" where
  "realloc_move st p sz orig_size h = do {
     r \<leftarrow> zend_mm_alloc_int st sz h;
     (case r of
        Fatal e h \<Rightarrow> Some (Fatal e h)
      | Done ptr h \<Rightarrow> do {
          h \<leftarrow> zend_mm_free_int (Some p) (copy_payload ptr p (orig_size - ZEND_MM_ALIGNED_HEADER_SIZE) h);
          Some (Done ptr h) }) }"

definition realloc_grow ::
    "mm_storage \<Rightarrow> addr \<Rightarrow> addr \<Rightarrow> nat \<Rightarrow> nat \<Rightarrow> nat \<Rightarrow> mm_heap \<Rightarrow> addr mm_outcome option" where
  "realloc_grow st p mm_block sz true_size orig_size h = do {
     let next_block = mm_block + orig_size;
     ns \<leftarrow> info_size h next_block;
     (if ZEND_MM_IS_FREE_BLOCK ns then do {
        _ \<leftarrow> ZEND_MM_CHECK_BLOCK_LINKAGE next_block h;
        (if orig_size + ns \<ge> true_size
         then realloc_extend p mm_block next_block (orig_size + ns) true_size orig_size h
         else do {
           spans \<leftarrow> spans_segment mm_block (next_block + ns) h;
           (if spans then do {
              h \<leftarrow> zend_mm_remove_from_free_list next_block h;
              realloc_segment st mm_block next_block true_size orig_size h }
            else realloc_move st p sz orig_size h) }) }
      else do {
        spans \<leftarrow> spans_segment mm_block next_block h;
        (if spans then realloc_segment st mm_block next_block true_size orig_size h
         else realloc_move st p sz orig_size h) }) }"

definition zend_mm_realloc_int :: "mm_storage \<Rightarrow> addr option \<Rightarrow> nat \<Rightarrow> mm_heap \<Rightarrow> addr mm_outcome option" where
  "zend_mm_realloc_int st ptr sz h =
     (case ptr of
        None \<Rightarrow> zend_mm_alloc_int st sz h
      | Some p \<Rightarrow> do {
          mm_block \<leftarrow> ZEND_MM_HEADER_OF p;
          let true_size = ZEND_MM_TRUE_SIZE sz;
          s \<leftarrow> info_size h mm_block;
          let orig_size = ZEND_MM_BLOCK_SIZE s;
          (if true_size < sz then zend_mm_safe_error Out_Of_Memory h
           else if true_size \<le> orig_size then realloc_shrink p mm_block true_size orig_size h
           else if ZEND_MM_SMALL_SIZE true_size then
             if ZEND_MM_BUCKET_INDEX true_size \<ge> ZEND_MM_NUM_BUCKETS then None
             else (case cache h (ZEND_MM_BUCKET_INDEX true_size) of
                 Some best_fit \<Rightarrow> realloc_cached p mm_block best_fit true_size orig_size h
               | None \<Rightarrow> realloc_grow st p mm_block sz true_size orig_size h)
           else realloc_grow st p mm_block sz true_size orig_size h) })"

definition zend_mm_block_size :: "addr option \<Rightarrow> mm_heap \<Rightarrow> nat option" where
  "zend_mm_block_size ptr h =
     (case ptr of None \<Rightarrow> Some 0
      | Some p \<Rightarrow> do {
          mm_block \<leftarrow> ZEND_MM_HEADER_OF p;
          s \<leftarrow> info_size h mm_block;
          Some (ZEND_MM_BLOCK_SIZE s) })"

subsection \<open>Start and end\<close>

text \<open>Memory before the first segment. The exit for a wrong block size is \<open>None\<close>; \<open>internal\<close> is 0.\<close>

definition no_memory :: "mm_heap \<Rightarrow> mm_heap" where
  "no_memory h = h\<lparr>info_size := (\<lambda>_. None), info_prev := (\<lambda>_. None), prev_free := (\<lambda>_. None), next_free := (\<lambda>_. None),
     block_parent := (\<lambda>_. None), block_child := (\<lambda>_. None), segment_size := (\<lambda>_. None), next_segment := (\<lambda>_. None)\<rparr>"

definition zend_mm_startup_ex :: "mm_storage \<Rightarrow> ulong \<Rightarrow> nat \<Rightarrow> mm_heap \<Rightarrow> unit mm_outcome option" where
  "zend_mm_startup_ex st block_sz reserve_sz h0 = do {
     low \<leftarrow> zend_mm_low_bit block_sz;
     (if low \<noteq> zend_mm_high_bit (unat block_sz) then None
      else do {
        let h = zend_mm_init ((no_memory h0)\<lparr>block_size := block_sz, compact_size := 0, segments_list := None\<rparr>);
        let h = h\<lparr>real_size := 0, overflow := 0, real_peak := 0, mm_limit := push_bit 62 1, mm_size := 0, mm_peak := 0,
                  reserve := None, reserve_size := reserve_sz\<rparr>;
        (if reserve_sz > 0 then do {
           r \<leftarrow> zend_mm_alloc_int st reserve_sz h;
           (case r of Fatal e h \<Rightarrow> Some (Fatal e h)
            | Done p h \<Rightarrow> Some (Done () (h\<lparr>reserve := Some p\<rparr>))) }
         else Some (Done () h)) }) }"

text \<open>The two arguments are what \<open>zend_atoi\<close> makes of \<open>ZEND_MM_SEG_SIZE\<close> and \<open>ZEND_MM_COMPACT\<close>, where they are set.\<close>

definition zend_mm_startup :: "mm_storage \<Rightarrow> ulong option \<Rightarrow> ulong option \<Rightarrow> mm_heap \<Rightarrow> unit mm_outcome option" where
  "zend_mm_startup st seg_env compact_env h0 = do {
     seg_size \<leftarrow>
       (case seg_env of
          None \<Rightarrow> Some ZEND_MM_SEG_SIZE
        | Some n \<Rightarrow> do {
            low \<leftarrow> zend_mm_low_bit n;
            (if low \<noteq> zend_mm_high_bit (unat n) then None
             else if unat n < ZEND_MM_ALIGNED_SEGMENT_SIZE + ZEND_MM_ALIGNED_HEADER_SIZE then None
             else Some n) });
     r \<leftarrow> zend_mm_startup_ex st seg_size ZEND_MM_RESERVE_SIZE h0;
     (case r of Fatal e h \<Rightarrow> Some (Fatal e h)
      | Done u h \<Rightarrow> Some (Done u (h\<lparr>compact_size := (case compact_env of None \<Rightarrow> 2 * 1024 * 1024 | Some n \<Rightarrow> n)\<rparr>))) }"

text \<open>The segments are released from the front; \<open>keep_last\<close> spares the last one.\<close>

partial_function (option) free_segments :: "bool \<Rightarrow> addr option \<Rightarrow> mm_heap \<Rightarrow> (addr option \<times> mm_heap) option" where
  "free_segments keep_last v h =
     (case v of
        None \<Rightarrow> Some (None, h)
      | Some segment \<Rightarrow> do {
          nx \<leftarrow> next_segment h segment;
          (if keep_last \<and> nx = None then Some (Some segment, h)
           else do {
             h \<leftarrow> ZEND_MM_STORAGE_FREE segment h;
             free_segments keep_last nx h }) })"

definition zend_mm_shutdown :: "mm_storage \<Rightarrow> bool \<Rightarrow> mm_heap \<Rightarrow> unit mm_outcome option" where
  "zend_mm_shutdown st full_shutdown h0 = do {
     let h = h0\<lparr>reserve := None\<rparr>;
     (if full_shutdown then do {
        (_, h) \<leftarrow> free_segments False (segments_list h) h;
        Some (Done () (h\<lparr>segments_list := None\<rparr>)) }
      else do {
        (v, h) \<leftarrow> free_segments (reserve_size h > 0) (segments_list h) h;
        let h = zend_mm_init (h\<lparr>segments_list := v\<rparr>);
        h \<leftarrow> (case v of
             None \<Rightarrow> Some (h\<lparr>real_size := 0, real_peak := 0, mm_size := 0, mm_peak := 0\<rparr>)
           | Some segment \<Rightarrow> do {
               n \<leftarrow> segment_size h segment;
               let h = h\<lparr>real_size := of_nat n, real_peak := of_nat n, mm_size := 0, mm_peak := 0\<rparr>;
               let b = segment + ZEND_MM_ALIGNED_SEGMENT_SIZE;
               let block_sz = n - ZEND_MM_ALIGNED_SEGMENT_SIZE - ZEND_MM_ALIGNED_HEADER_SIZE;
               let h = ZEND_MM_LAST_BLOCK (b + block_sz) (ZEND_MM_MARK_FIRST_BLOCK b h);
               zend_mm_add_to_free_list b (ZEND_MM_BLOCK b ZEND_MM_FREE_BLOCK block_sz h) });
        r \<leftarrow> (if reserve_size h > 0 then do {
             r \<leftarrow> zend_mm_alloc_int st (reserve_size h) h;
             (case r of Fatal e h \<Rightarrow> Some (Fatal e h)
              | Done p h \<Rightarrow> Some (Done () (h\<lparr>reserve := Some p\<rparr>))) }
           else Some (Done () h));
        (case r of Fatal e h \<Rightarrow> Some (Fatal e h)
         | Done u h \<Rightarrow> Some (Done u (h\<lparr>overflow := 0\<rparr>))) }) }"

subsection \<open>Limit and usage\<close>

definition zend_set_memory_limit :: "ulong \<Rightarrow> mm_heap \<Rightarrow> zresult \<times> mm_heap" where
  "zend_set_memory_limit memory_limit h =
     (SUCCESS, h\<lparr>mm_limit := (if memory_limit \<ge> block_size h then memory_limit else block_size h)\<rparr>)"

definition zend_memory_usage :: "bool \<Rightarrow> mm_heap \<Rightarrow> ulong" where
  "zend_memory_usage real_usage h = (if real_usage then real_size h else mm_size h - ucast (cached h))"

definition zend_memory_peak_usage :: "bool \<Rightarrow> mm_heap \<Rightarrow> ulong" where
  "zend_memory_peak_usage real_usage h = (if real_usage then real_peak h else mm_peak h)"

end
