(* ===== verification/ZendAllocSizes.thy ===== *)
theory ZendAllocSizes
  imports ZendAllocOps
begin

text \<open>
  Arithmetic of the memory manager: the sizes of headers, the size a request is rounded to, the index
  of a size in the lists, the tags in the headers, and the two bit scans.
\<close>

subsection \<open>Constants\<close>

lemma mm_sizes [simp]:
  "ZEND_MM_ALIGNED_HEADER_SIZE = 16" "ZEND_MM_ALIGNED_SEGMENT_SIZE = 16" "ZEND_MM_ALIGNED_MIN_HEADER_SIZE = 32"
  "ZEND_MM_MIN_SIZE = 16" "ZEND_MM_NUM_BUCKETS = 64" "ZEND_MM_MAX_SMALL_SIZE = 544" "ZEND_MM_CACHE_SIZE = 262144"
  "ZEND_MM_MAX_REST_BLOCKS = 16" "ZEND_MM_RESERVE_SIZE = 8192"
  by (simp_all add: ZEND_MM_ALIGNED_HEADER_SIZE_def ZEND_MM_ALIGNED_SEGMENT_SIZE_def ZEND_MM_ALIGNED_MIN_HEADER_SIZE_def
      ZEND_MM_MIN_SIZE_def ZEND_MM_NUM_BUCKETS_def ZEND_MM_MAX_SMALL_SIZE_def ZEND_MM_CACHE_SIZE_def
      ZEND_MM_MAX_REST_BLOCKS_def ZEND_MM_RESERVE_SIZE_def ZEND_MM_ALIGNED_SIZE_def)

lemma small_size [simp]: "ZEND_MM_SMALL_SIZE n \<longleftrightarrow> n < 544"
  by (simp add: ZEND_MM_SMALL_SIZE_def)

lemma data_of [simp]: "ZEND_MM_DATA_OF b = b + 16"
  by (simp add: ZEND_MM_DATA_OF_def)

lemma header_of [simp]: "ZEND_MM_HEADER_OF (b + 16) = Some b"
  by (simp add: ZEND_MM_HEADER_OF_def)

lemma segment_of_first [simp]: "segment_of (s + 16) = Some s"
  by (simp add: segment_of_def)

subsection \<open>Requests\<close>

text \<open>A size a block can have.\<close>

definition block_sized :: "nat \<Rightarrow> bool" where
  "block_sized n \<longleftrightarrow> 32 \<le> n \<and> 8 dvd n \<and> n < 2 ^ 31"

lemma aligned_size: "n + 7 < 2 ^ 64 \<Longrightarrow> n \<le> ZEND_MM_ALIGNED_SIZE n \<and> ZEND_MM_ALIGNED_SIZE n \<le> n + 7"
  by (simp add: ZEND_MM_ALIGNED_SIZE_def)

lemma true_size_ok:
  assumes "sz < 2 ^ 64" "\<not> ZEND_MM_TRUE_SIZE sz < sz"
  shows "sz + 16 \<le> ZEND_MM_TRUE_SIZE sz" "8 dvd ZEND_MM_TRUE_SIZE sz" "32 \<le> ZEND_MM_TRUE_SIZE sz"
    "ZEND_MM_TRUE_SIZE sz < 2 ^ 64"
proof -
  have d: "8 dvd ZEND_MM_TRUE_SIZE sz" by (simp add: ZEND_MM_TRUE_SIZE_def ZEND_MM_ALIGNED_SIZE_def)
  have l: "ZEND_MM_TRUE_SIZE sz < 2 ^ 64"
  proof -
    have "(x :: nat) mod 2 ^ 64 div 8 * 8 < 2 ^ 64" for x
    proof -
      have "x mod 2 ^ 64 div 8 * 8 \<le> x mod 2 ^ 64" by (rule div_times_less_eq_dividend)
      also have "x mod 2 ^ 64 < 2 ^ 64" by simp
      finally show ?thesis .
    qed
    then show ?thesis by (simp add: ZEND_MM_TRUE_SIZE_def ZEND_MM_ALIGNED_SIZE_def)
  qed
  show "8 dvd ZEND_MM_TRUE_SIZE sz" "ZEND_MM_TRUE_SIZE sz < 2 ^ 64" by (fact d, fact l)
  have "sz + 16 \<le> ZEND_MM_TRUE_SIZE sz \<and> 32 \<le> ZEND_MM_TRUE_SIZE sz"
  proof (cases "sz < 16")
    case True
    then show ?thesis by (simp add: ZEND_MM_TRUE_SIZE_def)
  next
    case False
    have t: "ZEND_MM_TRUE_SIZE sz = ZEND_MM_ALIGNED_SIZE ((sz + 16) mod 2 ^ 64)"
      using False by (simp add: ZEND_MM_TRUE_SIZE_def)
    have no: "sz + 16 + 7 < 2 ^ 64"
    proof (rule ccontr)
      assume o: "\<not> ?thesis"
      have e: "((sz + 16) mod 2 ^ 64 + 7) mod 2 ^ 64 = (sz + 23) mod 2 ^ 64" by (simp add: mod_simps add.commute)
      have "(sz + 23) mod 2 ^ 64 = sz + 23 - 2 ^ 64" using o assms(1) by (simp add: le_mod_geq)
      then have "ZEND_MM_TRUE_SIZE sz \<le> sz + 23 - 2 ^ 64"
        unfolding t ZEND_MM_ALIGNED_SIZE_def e by (metis div_times_less_eq_dividend)
      also have "\<dots> < sz" using assms(1) False by simp
      finally show False using assms(2) by simp
    qed
    then have m: "(sz + 16) mod 2 ^ 64 = sz + 16" by simp
    show ?thesis using aligned_size [OF no] False unfolding t m by simp
  qed
  then show "sz + 16 \<le> ZEND_MM_TRUE_SIZE sz" "32 \<le> ZEND_MM_TRUE_SIZE sz" by simp_all
qed

lemma true_size_large: "\<lbrakk>sz < 2 ^ 64; \<not> ZEND_MM_TRUE_SIZE sz < 544\<rbrakk> \<Longrightarrow> \<not> ZEND_MM_TRUE_SIZE sz < sz"
proof -
  assume a: "sz < 2 ^ 64" "\<not> ZEND_MM_TRUE_SIZE sz < 544"
  have "sz + 23 < 2 ^ 64"
  proof (rule ccontr)
    assume o: "\<not> ?thesis"
    have e: "((sz + 16) mod 2 ^ 64 + 7) mod 2 ^ 64 = (sz + 23) mod 2 ^ 64" by (simp add: mod_simps add.commute)
    have m: "(sz + 23) mod 2 ^ 64 = sz + 23 - 2 ^ 64" using o a(1) by (simp add: le_mod_geq)
    have "ZEND_MM_TRUE_SIZE sz = (sz + 23 - 2 ^ 64) div 8 * 8 \<or> ZEND_MM_TRUE_SIZE sz = 32"
      unfolding ZEND_MM_TRUE_SIZE_def ZEND_MM_ALIGNED_SIZE_def by (simp add: e [simplified] m [simplified])
    moreover have "(sz + 23 - 2 ^ 64) div 8 * 8 < 544" using a(1) by simp
    ultimately show False using a(2) by auto
  qed
  moreover have "16 \<le> sz" using a(2) by (cases "sz < 16") (simp_all add: ZEND_MM_TRUE_SIZE_def)
  ultimately show ?thesis using aligned_size [of "sz + 16"] by (simp add: ZEND_MM_TRUE_SIZE_def)
qed

subsection \<open>The index of a small size\<close>

lemma bucket_index:
  assumes "32 \<le> n" "n < 544"
  shows "ZEND_MM_BUCKET_INDEX n = n div 8 - 4" "ZEND_MM_BUCKET_INDEX n < 64"
proof -
  have "4 \<le> n div 8" "n div 8 < 68" using assms by auto
  then have e: "n div 2 ^ 3 + 2 ^ 64 - ZEND_MM_ALIGNED_MIN_HEADER_SIZE div 2 ^ 3 = n div 8 - 4 + 2 ^ 64" and l: "n div 8 - 4 < 64"
    by simp_all
  have "(n div 8 - 4 + 2 ^ 64) mod 2 ^ 64 = n div 8 - 4" using l by (subst mod_add_self2) simp
  then have "ZEND_MM_BUCKET_INDEX n = n div 8 - 4 \<and> n div 8 - 4 < 64"
    using l unfolding ZEND_MM_BUCKET_INDEX_def e by simp
  then show "ZEND_MM_BUCKET_INDEX n = n div 8 - 4" "ZEND_MM_BUCKET_INDEX n < 64" by simp_all
qed

lemma bucket_index_inj:
  assumes "block_sized n" "block_sized m" "n < 544" "m < 544" "ZEND_MM_BUCKET_INDEX n = ZEND_MM_BUCKET_INDEX m"
  shows "n = m"
proof -
  have "n div 8 = m div 8" using assms bucket_index(1) [of n] bucket_index(1) [of m] by (auto simp: block_sized_def)
  then show ?thesis using assms(1,2) unfolding block_sized_def by (metis dvd_div_mult_self)
qed

lemma bucket_index_mono:
  assumes "32 \<le> n" "n \<le> m" "m < 544"
  shows "ZEND_MM_BUCKET_INDEX n \<le> ZEND_MM_BUCKET_INDEX m"
  using assms by (simp add: bucket_index div_le_mono diff_le_mono)

lemma bucket_index_le:
  assumes "block_sized n" "block_sized m" "n < 544" "m < 544" "ZEND_MM_BUCKET_INDEX n \<le> ZEND_MM_BUCKET_INDEX m"
  shows "n \<le> m"
proof -
  have "4 \<le> n div 8" "4 \<le> m div 8" using assms(1,2) by (auto simp: block_sized_def)
  then have "n div 8 \<le> m div 8"
    using assms bucket_index(1) [of n] bucket_index(1) [of m] by (auto simp: block_sized_def)
  then show ?thesis using assms(1,2) unfolding block_sized_def by (metis dvd_div_mult_self mult_le_mono1)
qed

subsection \<open>Tags\<close>

lemma tag_mod: "8 dvd (n :: nat) \<Longrightarrow> n mod 4 = 0" "8 dvd (n :: nat) \<Longrightarrow> n mod 2 = 0"
  by (auto elim!: dvdE)

lemma tag_and_3: "(n :: nat) AND 3 = n mod 4"
proof -
  have "mask 2 = (3 :: nat)" by (simp add: mask_eq_exp_minus_1)
  then show ?thesis using take_bit_eq_mask [of 2 n] by (simp add: take_bit_eq_mod)
qed

lemma and_1: "(n :: nat) AND 1 = n mod 2"
  by (simp add: and_one_eq)

lemma tag_or: "8 dvd n \<Longrightarrow> (0 :: nat) OR n = n" "8 dvd n \<Longrightarrow> (1 :: nat) OR n = Suc n"
proof -
  show "(0 :: nat) OR n = n" by simp
  assume "8 dvd n"
  then have "even n" by (auto elim!: dvdE)
  then show "(1 :: nat) OR n = Suc n" using one_or_eq [of n] by simp
qed

lemma used_tag [simp]: "8 dvd n \<Longrightarrow> ZEND_MM_USED_BLOCK OR n = Suc n" "ZEND_MM_FREE_BLOCK OR n = n"
  "ZEND_MM_GUARD_BLOCK OR ZEND_MM_ALIGNED_HEADER_SIZE = 19"
  by (simp_all add: ZEND_MM_USED_BLOCK_def ZEND_MM_FREE_BLOCK_def ZEND_MM_GUARD_BLOCK_def tag_or [unfolded One_nat_def])

lemma block_size_tag [simp]: "8 dvd n \<Longrightarrow> ZEND_MM_BLOCK_SIZE n = n" "8 dvd n \<Longrightarrow> ZEND_MM_BLOCK_SIZE (Suc n) = n"
proof -
  assume d: "8 dvd n"
  then have "n mod 4 = 0" by (rule tag_mod)
  then show "ZEND_MM_BLOCK_SIZE n = n" "ZEND_MM_BLOCK_SIZE (Suc n) = n"
    by (simp_all add: ZEND_MM_BLOCK_SIZE_def tag_and_3 mod_Suc)
qed

lemma is_free_tag [simp]: "8 dvd n \<Longrightarrow> ZEND_MM_IS_FREE_BLOCK n" "8 dvd n \<Longrightarrow> \<not> ZEND_MM_IS_FREE_BLOCK (Suc n)"
  "\<not> ZEND_MM_IS_FREE_BLOCK 19" "\<not> ZEND_MM_IS_FREE_BLOCK 3"
  using tag_mod(2) [of n] by (simp_all add: ZEND_MM_IS_FREE_BLOCK_def ZEND_MM_USED_BLOCK_def and_1 mod_Suc)

lemma is_guard_tag [simp]: "8 dvd n \<Longrightarrow> \<not> ZEND_MM_IS_GUARD_BLOCK n" "8 dvd n \<Longrightarrow> \<not> ZEND_MM_IS_GUARD_BLOCK (Suc n)"
  "ZEND_MM_IS_GUARD_BLOCK 19"
  using tag_mod(1) [of n] by (simp_all add: ZEND_MM_IS_GUARD_BLOCK_def ZEND_MM_GUARD_BLOCK_def tag_and_3 mod_Suc)

subsection \<open>Bit scans\<close>

lemma high_bit_loop: "2 ^ k \<le> sz \<Longrightarrow> sz < 2 ^ Suc k \<Longrightarrow> high_bit_loop sz n = n + Suc k"
proof (induction k arbitrary: sz n)
  case 0
  then have "sz = 1" by simp
  then show ?case by (simp add: high_bit_loop.simps)
next
  case (Suc k)
  have "2 ^ k \<le> sz div 2" "sz div 2 < 2 ^ Suc k" using Suc.prems by auto
  from Suc.IH [OF this, of "Suc n"] show ?case
    using Suc.prems by (subst high_bit_loop.simps) auto
qed

lemma high_bit: "2 ^ k \<le> sz \<Longrightarrow> sz < 2 ^ Suc k \<Longrightarrow> zend_mm_high_bit sz = k"
  using high_bit_loop [of k sz 0] by (simp add: zend_mm_high_bit_def)

lemma high_bit_bounds:
  assumes "0 < sz"
  shows "2 ^ zend_mm_high_bit sz \<le> sz" "sz < 2 ^ Suc (zend_mm_high_bit sz)"
proof -
  obtain k where k: "2 ^ k \<le> sz" "sz < 2 ^ Suc k" using ex_power_ivl1 [of 2 sz] assms by auto
  then show "2 ^ zend_mm_high_bit sz \<le> sz" "sz < 2 ^ Suc (zend_mm_high_bit sz)" by (simp_all add: high_bit)
qed

lemma high_bit_div: "0 < sz \<Longrightarrow> sz div 2 ^ zend_mm_high_bit sz = 1"
  using high_bit_bounds [of sz] by (intro div_nat_eqI) simp_all

lemma high_bit_less: "\<lbrakk>0 < sz; sz < 2 ^ k\<rbrakk> \<Longrightarrow> zend_mm_high_bit sz < k"
  using high_bit_bounds(1) [of sz] by (metis le_less_trans nat_power_less_imp_less zero_less_numeral)

lemma high_bit_mono:
  assumes "0 < a" "a \<le> b"
  shows "zend_mm_high_bit a \<le> zend_mm_high_bit b"
proof -
  have "2 ^ zend_mm_high_bit a \<le> a" "b < 2 ^ Suc (zend_mm_high_bit b)" using high_bit_bounds assms by simp_all
  then have "(2 :: nat) ^ zend_mm_high_bit a < 2 ^ Suc (zend_mm_high_bit b)" using assms(2) by linarith
  then have "zend_mm_high_bit a < Suc (zend_mm_high_bit b)" by (rule nat_power_less_imp_less [rotated]) simp
  then show ?thesis by simp
qed

lemma large_high_bit: "\<lbrakk>544 \<le> sz; sz < 2 ^ 31\<rbrakk> \<Longrightarrow> zend_mm_high_bit sz < 31 \<and> 9 \<le> zend_mm_high_bit sz"
proof -
  assume a: "544 \<le> sz" "sz < 2 ^ 31"
  have "zend_mm_high_bit 544 = 9" by (rule high_bit) simp_all
  then show ?thesis using a high_bit_less [of sz 31] high_bit_mono [of 544 sz] by simp
qed

lemma low_bit_table:
  assumes "r < 16"
  shows "low_bit_offset ! r = 4 \<longleftrightarrow> r = 0" "r \<noteq> 0 \<Longrightarrow> bit r (low_bit_offset ! r) \<and> low_bit_offset ! r < 4 \<and>
    (\<forall>j < low_bit_offset ! r. \<not> bit r j)"
proof -
  have "list_all (\<lambda>r. (low_bit_offset ! r = 4 \<longleftrightarrow> r = 0) \<and> (r \<noteq> 0 \<longrightarrow> bit r (low_bit_offset ! r) \<and>
    low_bit_offset ! r < 4 \<and> list_all (\<lambda>j. \<not> bit r j) [0..<low_bit_offset ! r])) [0..<16]"
    by code_simp
  then show "low_bit_offset ! r = 4 \<longleftrightarrow> r = 0" "r \<noteq> 0 \<Longrightarrow> bit r (low_bit_offset ! r) \<and> low_bit_offset ! r < 4 \<and>
    (\<forall>j < low_bit_offset ! r. \<not> bit r j)"
    using assms by (auto simp: list_all_iff)
qed

lemma bit_mod_16: "j < 4 \<Longrightarrow> bit ((n :: nat) mod 16) j \<longleftrightarrow> bit n j"
  using bit_take_bit_iff [of 4 n j] by (simp add: take_bit_eq_mod)

lemma bit_div_16: "bit ((n :: nat) div 16) j \<longleftrightarrow> bit n (j + 4)"
  using bit_drop_bit_eq [of 4 n] by (simp add: drop_bit_eq_div fun_eq_iff add.commute)

lemma low_bit_loop:
  "sz \<noteq> 0 \<Longrightarrow> \<exists>k. zend_mm_low_bit_loop sz i = Some (i + k) \<and> bit sz k \<and> (\<forall>j < k. \<not> bit sz j)"
proof (induction sz i rule: zend_mm_low_bit_loop.induct)
  case (1 sz i)
  let ?n = "low_bit_offset ! (sz mod 16)"
  have r: "sz mod 16 < 16" by simp
  show ?case
  proof (cases "?n = 4")
    case True
    then have m: "sz mod 16 = 0" using low_bit_table(1) [OF r] by simp
    then have "sz div 16 \<noteq> 0" using "1.prems" by (metis mod_div_trivial div_mult_mod_eq mult_0 add_0)
    then obtain k where k: "zend_mm_low_bit_loop (sz div 16) (i + 4) = Some (i + 4 + k)" "bit (sz div 16) k"
      "\<forall>j < k. \<not> bit (sz div 16) j"
      using "1.IH" [OF "1.prems" refl True] True by auto
    have lo: "\<not> bit sz j" if "j < 4" for j using bit_mod_16 [OF that, of sz] m by simp
    have "\<not> bit sz j" if "j < k + 4" for j
      using lo [of j] k(3) that bit_div_16 [of sz "j - 4"] by (cases "j < 4") auto
    then show ?thesis
      using True k(1,2) "1.prems" bit_div_16 [of sz k]
      by (intro exI [of _ "k + 4"]) (simp add: zend_mm_low_bit_loop.simps [of sz] add.commute add.left_commute)
  next
    case False
    then have "sz mod 16 \<noteq> 0" using low_bit_table(1) [OF r] by simp
    from low_bit_table(2) [OF r this] have "bit sz ?n" "\<forall>j < ?n. \<not> bit sz j" "?n < 4"
      using bit_mod_16 [of _ sz] by auto
    then show ?thesis
      using False "1.prems" by (intro exI [of _ ?n]) (simp add: zend_mm_low_bit_loop.simps [of sz] Let_def)
  qed
qed

lemma low_bit: "w \<noteq> 0 \<Longrightarrow> \<exists>k. zend_mm_low_bit w = Some k \<and> bit w k \<and> (\<forall>j < k. \<not> bit w j)"
  using low_bit_loop [of "unat w" 0] by (auto simp: zend_mm_low_bit_def unsigned_eq_0_iff bit_unsigned_iff)

lemma low_bit_less: "zend_mm_low_bit w = Some k \<Longrightarrow> w \<noteq> 0 \<Longrightarrow> bit w k \<and> k < 64"
  using low_bit [of w] bit_imp_le_length by fastforce

subsection \<open>Bitmaps\<close>

lemma bit_set_bitmap: "bit (w OR push_bit i 1 :: ulong) j \<longleftrightarrow> bit w j \<or> i = j \<and> j < 64"
  by (auto simp: bit_simps)

lemma bit_clear_bitmap: "bit (w AND NOT (push_bit i 1) :: ulong) j \<longleftrightarrow> bit w j \<and> i \<noteq> j"
  using bit_imp_le_length [of w j] by (auto simp: bit_simps)

end
