(* ===== verification/ZendAllocRings.thy ===== *)
theory ZendAllocRings
  imports ZendAllocSizes
begin

text \<open>
  Circular lists of blocks, and what a change of the links leaves alone. \<open>ring h a xs\<close> says that the links lead from
  \<open>a\<close> through \<open>xs\<close> back to \<open>a\<close>, in both directions.
\<close>

subsection \<open>Rings\<close>

fun linked :: "(block_ptr \<Rightarrow> block_ptr option) \<Rightarrow> (block_ptr \<Rightarrow> block_ptr option) \<Rightarrow> block_ptr \<Rightarrow> block_ptr list \<Rightarrow> block_ptr \<Rightarrow> bool" where
  "linked nx pv a [] e \<longleftrightarrow> nx a = Some e \<and> pv e = Some a"
| "linked nx pv a (x # xs) e \<longleftrightarrow> nx a = Some x \<and> pv x = Some a \<and> linked nx pv x xs e"

definition ring :: "mm_heap \<Rightarrow> block_ptr \<Rightarrow> block_ptr list \<Rightarrow> bool" where
  "ring h a xs \<longleftrightarrow> distinct (a # xs) \<and> linked (next_free h) (prev_free h) a xs a"

lemma linked_append: "linked nx pv a (xs @ y # ys) e \<longleftrightarrow> linked nx pv a xs y \<and> linked nx pv y ys e"
  by (induction xs arbitrary: a) auto

lemma linked_links_cong:
  assumes "\<And>x. x \<in> insert a (set xs) \<Longrightarrow> nx' x = nx x" "\<And>x. x \<in> insert e (set xs) \<Longrightarrow> pv' x = pv x"
  shows "linked nx' pv' a xs e \<longleftrightarrow> linked nx pv a xs e"
  using assms by (induction xs arbitrary: a) auto

lemma linked_upd [simp]:
  "x \<notin> insert a (set xs) \<Longrightarrow> linked (nx(x := v)) pv a xs e \<longleftrightarrow> linked nx pv a xs e"
  "x \<notin> insert e (set xs) \<Longrightarrow> linked nx (pv(x := v)) a xs e \<longleftrightarrow> linked nx pv a xs e"
  by (rule linked_links_cong; auto)+

lemma linked_ends:
  "linked nx pv a xs e \<Longrightarrow> nx a = Some (hd (xs @ [e])) \<and> pv e = Some (last (a # xs))"
  by (induction xs arbitrary: a) auto

lemma ring_cong:
  assumes "\<And>x. x \<in> insert a (set xs) \<Longrightarrow> next_free h' x = next_free h x \<and> prev_free h' x = prev_free h x"
  shows "ring h' a xs \<longleftrightarrow> ring h a xs"
  unfolding ring_def using linked_links_cong [of a xs "next_free h'" "next_free h" a "prev_free h'" "prev_free h"] assms by auto

lemma ring_rotate: "ring h a (xs @ x # ys) \<Longrightarrow> ring h x (ys @ a # xs)"
  by (auto simp: ring_def linked_append)

lemma ring_ends: "ring h a xs \<Longrightarrow> next_free h a = Some (hd (xs @ [a])) \<and> prev_free h a = Some (last (a # xs))"
  unfolding ring_def using linked_ends by blast

lemma link_between_simps [simp]:
  "next_free (link_between p c n h) = (next_free h)(c \<mapsto> n, p \<mapsto> c)"
  "prev_free (link_between p c n h) = (prev_free h)(c \<mapsto> p, n \<mapsto> c)"
  by (simp_all add: link_between_def set_next_free_def set_prev_free_def)

lemma ring_insert:
  assumes "ring h p xs" "c \<notin> insert p (set xs)" "n = hd (xs @ [p])"
  shows "ring (link_between p c n h) p (c # xs)"
proof (cases xs)
  case Nil
  then show ?thesis using assms by (auto simp: ring_def)
next
  case (Cons x ys)
  have "linked (next_free (link_between p c n h)) (prev_free (link_between p c n h)) x ys p"
    using assms Cons
    by (auto simp: ring_def)
  then show ?thesis using assms Cons by (auto simp: ring_def)
qed

lemma ring_single: "ring (link_between c c c h) c []"
  by (simp add: ring_def)

lemma ring_insert_last:
  assumes "ring h a xs" "c \<notin> insert a (set xs)"
  shows "ring (link_between (last (a # xs)) c a h) a (xs @ [c])"
proof (cases xs rule: rev_cases)
  case Nil
  then show ?thesis using ring_insert [OF assms] by simp
next
  case (snoc ys x)
  have "ring h x (a # ys)" using assms(1) ring_rotate [of h a ys x "[]"] by (simp add: snoc)
  then have "ring (link_between x c a h) x (c # a # ys)" using assms(2) by (intro ring_insert) (auto simp: snoc)
  then show ?thesis using ring_rotate [of _ x "[c]" a ys] by (simp add: snoc)
qed

text \<open>Removal, with the tests of safe unlinking.\<close>

definition unlink :: "block_ptr \<Rightarrow> block_ptr \<Rightarrow> mm_heap \<Rightarrow> mm_heap" where
  "unlink prev nx h = set_prev_free nx prev (set_next_free prev nx h)"

lemma unlink_simps [simp]:
  "next_free (unlink p n h) = (next_free h)(p \<mapsto> n)" "prev_free (unlink p n h) = (prev_free h)(n \<mapsto> p)"
  by (simp_all add: unlink_def set_next_free_def set_prev_free_def)

lemma ring_remove:
  assumes "ring h a (xs @ c # ys)"
  defines "p \<equiv> last (a # xs)" and "n \<equiv> hd (ys @ [a])"
  shows "prev_free h c = Some p" "next_free h c = Some n" "next_free h p = Some c" "prev_free h n = Some c"
    "p \<noteq> c" "n \<noteq> c" "ring (unlink p n h) a (xs @ ys)"
proof -
  have d: "distinct (a # xs @ c # ys)" and l: "linked (next_free h) (prev_free h) a xs c"
    "linked (next_free h) (prev_free h) c ys a"
    using assms(1) by (simp_all add: ring_def linked_append)
  show "prev_free h c = Some p" "next_free h c = Some n"
    using linked_ends [OF l(1)] linked_ends [OF l(2)] by (simp_all add: p_def n_def)
  show "next_free h p = Some c"
  proof (cases xs rule: rev_cases)
    case (snoc zs z)
    then show ?thesis using l(1) by (simp add: p_def linked_append)
  qed (use l(1) in \<open>simp add: p_def\<close>)
  show "prev_free h n = Some c" using l(2) by (cases ys) (simp_all add: n_def)
  show "p \<noteq> c" "n \<noteq> c" using d by (cases xs rule: rev_cases; cases ys; auto simp: p_def n_def)+
  have "linked (next_free (unlink p n h)) (prev_free (unlink p n h)) a (xs @ ys) a"
  proof (cases ys)
    case Nil
    then show ?thesis
    proof (cases xs rule: rev_cases)
      case (snoc zs z)
      have "linked (next_free (unlink p n h)) (prev_free (unlink p n h)) a zs z"
        using l(1) d
        by (auto simp: snoc Nil p_def n_def linked_append)
      then show ?thesis by (simp add: snoc Nil p_def n_def linked_append)
    qed (simp add: p_def n_def)
  next
    case (Cons y zs)
    have y: "linked (next_free (unlink p n h)) (prev_free (unlink p n h)) y zs a"
    proof -
      have "p \<notin> insert y (set zs)" using d by (cases xs rule: rev_cases) (auto simp: Cons p_def)
      moreover have "n \<notin> insert a (set zs)" using d by (auto simp: Cons n_def)
      ultimately show ?thesis
        using l(2)
        by (auto simp: Cons)
    qed
    have "linked (next_free (unlink p n h)) (prev_free (unlink p n h)) a xs y"
    proof (cases xs rule: rev_cases)
      case (snoc us u)
      have "linked (next_free (unlink p n h)) (prev_free (unlink p n h)) a us u"
        using l(1) d
        by (auto simp: snoc Cons p_def n_def linked_append)
      then show ?thesis by (simp add: snoc Cons p_def n_def linked_append)
    qed (simp add: p_def n_def Cons)
    then show ?thesis using y by (simp add: Cons linked_append)
  qed
  then show "ring (unlink p n h) a (xs @ ys)" using d by (simp add: ring_def)
qed

subsection \<open>What a change of links leaves alone\<close>

text \<open>The heap without links, list heads, bitmaps and the count of rest blocks.\<close>

definition core :: "mm_heap \<Rightarrow> mm_heap" where
  "core h = h\<lparr>prev_free := (\<lambda>_. None), next_free := (\<lambda>_. None), block_parent := (\<lambda>_. None), block_child := (\<lambda>_. None),
     free_bitmap := 0, large_free_bitmap := 0, large_free_buckets := (\<lambda>_. None), rest_count := 0\<rparr>"

lemma core_updates [simp]:
  "core (set_prev_free p q h) = core h" "core (set_next_free p q h) = core h" "core (set_parent b r h) = core h"
  "core (set_slot sl v h) = core h" "core (link_between p c n h) = core h" "core (unlink p n h) = core h"
  "core (h\<lparr>free_bitmap := w\<rparr>) = core h" "core (h\<lparr>large_free_bitmap := w\<rparr>) = core h" "core (h\<lparr>rest_count := k\<rparr>) = core h"
  by (simp_all add: core_def set_prev_free_def set_next_free_def set_parent_def set_slot_def link_between_def unlink_def
      split: slot.split)

lemma core_fields:
  assumes "core h' = core h"
  shows "info_size h' = info_size h" "info_prev h' = info_prev h" "segment_size h' = segment_size h"
    "next_segment h' = next_segment h" "payload h' = payload h" "block_size h' = block_size h"
    "segments_list h' = segments_list h" "real_size h' = real_size h" "real_peak h' = real_peak h"
    "mm_limit h' = mm_limit h" "mm_size h' = mm_size h" "mm_peak h' = mm_peak h" "reserve_size h' = reserve_size h"
    "reserve h' = reserve h" "overflow h' = overflow h" "cached h' = cached h" "cache h' = cache h"
    "compact_size h' = compact_size h"
proof -
  have f: "f (core h') = f (core h)" for f :: "mm_heap \<Rightarrow> 'b" using assms by simp
  have f2: "f (core h') = f (core h)" for f :: "mm_heap \<Rightarrow> 'c" using assms by simp
  show "info_size h' = info_size h" "info_prev h' = info_prev h" "segment_size h' = segment_size h"
    "next_segment h' = next_segment h" "payload h' = payload h" "block_size h' = block_size h"
    "segments_list h' = segments_list h" "real_size h' = real_size h" "real_peak h' = real_peak h"
    "mm_limit h' = mm_limit h" "mm_size h' = mm_size h" "mm_peak h' = mm_peak h" "reserve_size h' = reserve_size h"
    "reserve h' = reserve h" "overflow h' = overflow h" "cached h' = cached h" "cache h' = cache h"
    "compact_size h' = compact_size h"
    using arg_cong [OF assms, of info_size] arg_cong [OF assms, of info_prev] arg_cong [OF assms, of segment_size]
      arg_cong [OF assms, of next_segment] arg_cong [OF assms, of payload] arg_cong [OF assms, of block_size]
      arg_cong [OF assms, of segments_list] arg_cong [OF assms, of real_size] arg_cong [OF assms, of real_peak]
      arg_cong [OF assms, of mm_limit] arg_cong [OF assms, of mm_size] arg_cong [OF assms, of mm_peak]
      arg_cong [OF assms, of reserve_size] arg_cong [OF assms, of reserve] arg_cong [OF assms, of overflow]
      arg_cong [OF assms, of cached] arg_cong [OF assms, of cache] arg_cong [OF assms, of compact_size]
    by (simp_all add: core_def)
qed

text \<open>Fields the setters of links do not touch.\<close>

lemma setter_fields [simp]:
  "block_parent (set_prev_free p q h) = block_parent h" "block_parent (set_next_free p q h) = block_parent h"
  "block_child (set_prev_free p q h) = block_child h" "block_child (set_next_free p q h) = block_child h"
  "large_free_buckets (set_prev_free p q h) = large_free_buckets h" "large_free_buckets (set_next_free p q h) = large_free_buckets h"
  "block_child (set_parent b r h) = block_child h" "large_free_buckets (set_parent b r h) = large_free_buckets h"
  "prev_free (set_parent b r h) = prev_free h" "next_free (set_parent b r h) = next_free h"
  "block_parent (set_parent b r h) = (block_parent h)(b \<mapsto> r)"
  "prev_free (set_slot sl v h) = prev_free h" "next_free (set_slot sl v h) = next_free h"
  "block_parent (set_slot sl v h) = block_parent h"
  "block_child (set_slot (Child x c) v h) = (block_child h)((x, c) \<mapsto> v)"
  "block_child (set_slot (Large_Bucket i) v h) = block_child h"
  "large_free_buckets (set_slot (Child x c) v h) = large_free_buckets h"
  "large_free_buckets (set_slot (Large_Bucket i) v h) = (large_free_buckets h)(i := v)"
  "block_parent (link_between p q n h) = block_parent h" "block_child (link_between p q n h) = block_child h"
  "large_free_buckets (link_between p q n h) = large_free_buckets h"
  "block_parent (unlink p n h) = block_parent h" "block_child (unlink p n h) = block_child h"
  "large_free_buckets (unlink p n h) = large_free_buckets h"
  by (simp_all add: set_prev_free_def set_next_free_def set_parent_def set_slot_def link_between_def unlink_def split: slot.split)

lemma setter_bitmaps [simp]:
  "free_bitmap (set_prev_free p q h) = free_bitmap h" "free_bitmap (set_next_free p q h) = free_bitmap h"
  "free_bitmap (set_parent b r h) = free_bitmap h" "free_bitmap (set_slot sl v h) = free_bitmap h"
  "free_bitmap (link_between p c n h) = free_bitmap h" "free_bitmap (unlink p n h) = free_bitmap h"
  "large_free_bitmap (set_prev_free p q h) = large_free_bitmap h" "large_free_bitmap (set_next_free p q h) = large_free_bitmap h"
  "large_free_bitmap (set_parent b r h) = large_free_bitmap h" "large_free_bitmap (set_slot sl v h) = large_free_bitmap h"
  "large_free_bitmap (link_between p c n h) = large_free_bitmap h" "large_free_bitmap (unlink p n h) = large_free_bitmap h"
  "rest_count (set_prev_free p q h) = rest_count h" "rest_count (set_next_free p q h) = rest_count h"
  "rest_count (set_parent b r h) = rest_count h" "rest_count (set_slot sl v h) = rest_count h"
  "rest_count (link_between p c n h) = rest_count h" "rest_count (unlink p n h) = rest_count h"
  by (simp_all add: set_prev_free_def set_next_free_def set_parent_def set_slot_def link_between_def unlink_def split: slot.split)

lemma setter_core [simp]:
  "info_size (set_prev_free p q h) = info_size h" "info_size (set_next_free p q h) = info_size h"
  "info_size (set_parent b r h) = info_size h" "info_size (set_slot sl v h) = info_size h"
  "info_size (link_between p c n h) = info_size h" "info_size (unlink p n h) = info_size h"
  by (simp_all add: set_prev_free_def set_next_free_def set_parent_def set_slot_def link_between_def unlink_def split: slot.split)

lemma slot_value_updates [simp]:
  "slot_value sl (set_prev_free p q h) = slot_value sl h" "slot_value sl (set_next_free p q h) = slot_value sl h"
  "slot_value sl (set_parent b r h) = slot_value sl h" "slot_value sl (link_between p c n h) = slot_value sl h"
  "slot_value sl (unlink p n h) = slot_value sl h" "slot_value sl (h\<lparr>large_free_bitmap := w\<rparr>) = slot_value sl h"
  "slot_value sl (h\<lparr>free_bitmap := w\<rparr>) = slot_value sl h" "slot_value sl (h\<lparr>rest_count := k\<rparr>) = slot_value sl h"
  by (simp_all add: slot_value_def split: slot.split)

lemma slot_value_set_other [simp]: "sl \<noteq> sl' \<Longrightarrow> slot_value sl (set_slot sl' v h) = slot_value sl h"
  by (cases sl; cases sl') (auto simp: slot_value_def set_slot_def)

lemma slot_value_set_same: "slot_value sl h \<noteq> None \<Longrightarrow> slot_value sl (set_slot sl v h) = Some v"
  by (cases sl) (auto simp: slot_value_def set_slot_def split: if_splits)

lemma slot_value_child [simp]: "slot_value (Child b c) h = block_child h (b, c)"
  by (simp add: slot_value_def)

text \<open>\<open>framed A S h h'\<close>: from \<open>h\<close> to \<open>h'\<close> only links of the blocks in \<open>A\<close> and the slots in \<open>S\<close> changed, besides bitmaps and count.\<close>

definition framed :: "addr set \<Rightarrow> slot set \<Rightarrow> mm_heap \<Rightarrow> mm_heap \<Rightarrow> bool" where
  "framed A S h h' \<longleftrightarrow> core h' = core h \<and>
     (\<forall>x. x \<notin> Blk ` A \<longrightarrow> next_free h' x = next_free h x \<and> prev_free h' x = prev_free h x) \<and>
     (\<forall>x. x \<notin> A \<longrightarrow> block_parent h' x = block_parent h x) \<and>
     (\<forall>sl. sl \<notin> S \<and> (\<forall>x \<in> A. \<forall>c. sl \<noteq> Child x c) \<longrightarrow> slot_value sl h' = slot_value sl h)"

lemma framed_refl: "framed A S h h"
  by (simp add: framed_def)

lemma framed_trans: "\<lbrakk>framed A S h h1; framed B T h1 h2\<rbrakk> \<Longrightarrow> framed (A \<union> B) (S \<union> T) h h2"
  by (auto simp: framed_def image_Un)

lemma framed_mono: "\<lbrakk>framed A S h h'; A \<subseteq> B; S \<subseteq> T\<rbrakk> \<Longrightarrow> framed B T h h'"
  unfolding framed_def by (safe; (blast | metis subsetD imageE image_eqI)?)

lemma framed_info: "framed A S h h' \<Longrightarrow> info_size h' = info_size h"
  unfolding framed_def by (blast dest: core_fields(1))

lemma framed_links:
  "\<lbrakk>framed A S h h'; x \<notin> A\<rbrakk> \<Longrightarrow> next_free h' (Blk x) = next_free h (Blk x) \<and> prev_free h' (Blk x) = prev_free h (Blk x) \<and>
     block_parent h' x = block_parent h x"
  by (auto simp: framed_def)

lemma framed_heads:
  assumes "framed A S h h'"
  shows "next_free h' (Small_Bucket i) = next_free h (Small_Bucket i)" "prev_free h' (Small_Bucket i) = prev_free h (Small_Bucket i)"
    "next_free h' Rest_Bucket = next_free h Rest_Bucket" "prev_free h' Rest_Bucket = prev_free h Rest_Bucket"
  using assms by (auto simp: framed_def)

lemma framed_slot: "\<lbrakk>framed A S h h'; sl \<notin> S; \<forall>x \<in> A. \<forall>c. sl \<noteq> Child x c\<rbrakk> \<Longrightarrow> slot_value sl h' = slot_value sl h"
  by (auto simp: framed_def)

lemma framed_ring:
  assumes "framed A S h h'" "x \<notin> A" "set xs \<inter> A = {}"
  shows "ring h' (Blk x) (map Blk xs) = ring h (Blk x) (map Blk xs)"
  using assms by (intro ring_cong) (auto simp: framed_def)

end
