(* ===== verification/ZendAllocTries.thy ===== *)
theory ZendAllocTries
  imports ZendAllocRings
begin

text \<open>
  The tries of large free blocks. A trie is described by a datatype: a node is a block with the ring of the
  further blocks of its size, and the block of the node alone has a parent. A node at depth \<open>d\<close> of bucket \<open>i\<close> holds a size that
  agrees with its whole subtree on the \<open>d\<close> bits behind the highest one, bit \<open>i\<close>.
\<close>

datatype trie = Leaf | Node addr "addr list" trie trie

fun trie_blocks :: "trie \<Rightarrow> addr list" where
  "trie_blocks Leaf = []"
| "trie_blocks (Node a as l r) = a # as @ trie_blocks l @ trie_blocks r"

fun tree_at :: "mm_heap \<Rightarrow> slot \<Rightarrow> trie \<Rightarrow> bool" where
  "tree_at h sl Leaf \<longleftrightarrow> slot_value sl h = Some None"
| "tree_at h sl (Node a as l r) \<longleftrightarrow> slot_value sl h = Some (Some a) \<and> block_parent h a = Some (In_Slot sl) \<and>
     (\<forall>x \<in> set as. block_parent h x = Some NULL_Parent) \<and> ring h (Blk a) (map Blk as) \<and>
     tree_at h (Child a False) l \<and> tree_at h (Child a True) r"

fun trie_ok :: "(addr \<Rightarrow> nat option) \<Rightarrow> nat \<Rightarrow> nat \<Rightarrow> trie \<Rightarrow> bool" where
  "trie_ok sz k p Leaf = True"
| "trie_ok sz k p (Node a as l r) \<longleftrightarrow>
     (\<exists>n. sz a = Some n \<and> n div 2 ^ k = p \<and> (\<forall>x \<in> set as. sz x = Some n)) \<and>
     (case k of 0 \<Rightarrow> l = Leaf \<and> r = Leaf | Suc j \<Rightarrow> trie_ok sz j (2 * p) l \<and> trie_ok sz j (2 * p + 1) r)"

lemma trie_blocks_Nil [simp]: "trie_blocks t = [] \<longleftrightarrow> t = Leaf"
  by (cases t) auto

lemma div_half: "(n :: nat) div 2 ^ k = n div 2 ^ Suc k * 2 + of_bool (bit n k)"
proof -
  have "n div 2 ^ k = n div 2 ^ k div 2 * 2 + n div 2 ^ k mod 2" by simp
  also have "n div 2 ^ k div 2 = n div 2 ^ Suc k" by (simp add: div_mult2_eq [symmetric] mult.commute)
  also have "n div 2 ^ k mod 2 = of_bool (bit n k)" by (simp add: bit_iff_odd mod2_eq_if)
  finally show ?thesis .
qed

lemma div_halves: "(n :: nat) div 2 ^ k = 2 * p \<or> n div 2 ^ k = 2 * p + 1 \<Longrightarrow> n div 2 ^ Suc k = p"
  using div_half [of n k] by (auto simp: of_bool_def split: if_splits)

lemma trie_ok_size:
  "\<lbrakk>trie_ok sz k p t; x \<in> set (trie_blocks t)\<rbrakk> \<Longrightarrow> \<exists>n. sz x = Some n \<and> n div 2 ^ k = p"
proof (induction t arbitrary: k p)
  case (Node a as l r)
  show ?case
  proof (cases "x \<in> insert a (set as)")
    case True
    then show ?thesis using Node.prems by auto
  next
    case False
    then obtain j where k: "k = Suc j" using Node.prems by (cases k) auto
    have "\<exists>n. sz x = Some n \<and> (n div 2 ^ j = 2 * p \<or> n div 2 ^ j = 2 * p + 1)"
      using Node.prems False Node.IH(1) [of j "2 * p"] Node.IH(2) [of j "2 * p + 1"] k by auto
    then show ?thesis using div_halves k by blast
  qed
qed simp

text \<open>Which slots belong to the blocks of a trie.\<close>

definition outside :: "slot \<Rightarrow> addr set \<Rightarrow> bool" where
  "outside sl A \<longleftrightarrow> (\<forall>x \<in> A. \<forall>c. sl \<noteq> Child x c)"

lemma outside_simps [simp]: "outside (Large_Bucket i) A" "outside (Child a c) A \<longleftrightarrow> a \<notin> A"
  by (auto simp: outside_def)

lemma outside_mono: "\<lbrakk>outside sl A; B \<subseteq> A\<rbrakk> \<Longrightarrow> outside sl B"
  by (auto simp: outside_def)

lemma outside_Un [simp]: "outside sl (A \<union> B) \<longleftrightarrow> outside sl A \<and> outside sl B"
  "outside sl (insert x A) \<longleftrightarrow> (\<forall>c. sl \<noteq> Child x c) \<and> outside sl A" "outside sl {}"
  by (auto simp: outside_def)

lemma outside_child: "outside sl {a} \<Longrightarrow> sl \<noteq> Child a c"
  by (auto simp: outside_def)

lemma tree_frame:
  assumes "framed A S h h'" "set (trie_blocks t) \<inter> A = {}" "\<forall>x \<in> set (trie_blocks t). \<forall>c. Child x c \<notin> S"
    "slot_value sl h' = slot_value sl h"
  shows "tree_at h' sl t = tree_at h sl t"
  using assms(2-)
proof (induction t arbitrary: sl)
  case (Node a as l r)
  have a: "a \<notin> A" "set as \<inter> A = {}" using Node.prems(1) by auto
  have par: "block_parent h' x = block_parent h x" if "x \<in> insert a (set as)" for x
    using framed_links [OF assms(1)] a that by blast
  have "slot_value (Child a c) h' = slot_value (Child a c) h" for c
    using Node.prems a(1) by (intro framed_slot [OF assms(1)]) auto
  then have "tree_at h' (Child a False) l = tree_at h (Child a False) l" "tree_at h' (Child a True) r = tree_at h (Child a True) r"
    using Node.prems by (intro Node.IH; force)+
  then show ?case using Node.prems(3) par framed_ring [OF assms(1) a] by auto
qed simp

lemma tree_children:
  "tree_at h sl t \<Longrightarrow> x \<in> set (trie_blocks t) \<Longrightarrow> slot_value sl h \<noteq> None"
  by (cases t) auto

lemma tree_slot: "tree_at h sl t \<Longrightarrow> slot_value sl h = Some (case t of Leaf \<Rightarrow> None | Node a as l r \<Rightarrow> Some a)"
  by (cases t) auto

text \<open>A change in the links of a subtree's own blocks and in its slot.\<close>

lemma node_children:
  assumes "tree_at h sl (Node a as l r)" "framed A S h h'" "a \<notin> A" "set as \<inter> A = {}"
    "slot_value sl h' = slot_value sl h" "tree_at h' (Child a False) l'" "tree_at h' (Child a True) r'"
  shows "tree_at h' sl (Node a as l' r')"
proof -
  have "block_parent h' x = block_parent h x" if "x \<in> insert a (set as)" for x
    using framed_links [OF assms(2)] assms(3,4) that by blast
  then show ?thesis using assms(1,5-) framed_ring [OF assms(2-4)] by auto
qed

subsection \<open>Insertion\<close>

lemma set_slot_framed: "outside sl A \<Longrightarrow> framed A {sl} h (set_slot sl v h)"
  by (auto simp: framed_def)

lemma set_parent_framed: "b \<in> A \<Longrightarrow> framed A S h (set_parent b p h)"
  by (auto simp: framed_def)

lemma link_between_framed: "\<lbrakk>p \<in> Blk ` A; c \<in> Blk ` A; n \<in> Blk ` A\<rbrakk> \<Longrightarrow> framed A S h (link_between p c n h)"
  by (auto simp: framed_def)

lemma unlink_framed: "\<lbrakk>p \<in> Blk ` A; n \<in> Blk ` A\<rbrakk> \<Longrightarrow> framed A S h (unlink p n h)"
  by (auto simp: framed_def)

text \<open>A block becomes a tree of its own in an empty slot.\<close>

definition plant :: "addr \<Rightarrow> slot \<Rightarrow> mm_heap \<Rightarrow> mm_heap" where
  "plant b sl h = link_between (Blk b) (Blk b) (Blk b) (set_parent b (In_Slot sl) (set_slot sl (Some b) h))"

lemma plant_ok:
  assumes "slot_value sl h \<noteq> None" "outside sl {b}" "\<forall>c. block_child h (b, c) = Some None"
  shows "tree_at (plant b sl h) sl (Node b [] Leaf Leaf)" "framed {b} {sl} h (plant b sl h)"
proof -
  have n: "Child b c \<noteq> sl" for c using outside_child [OF assms(2)] by blast
  have "block_child (plant b sl h) (b, c) = Some None" for c
    using assms(3) n [of c] by (cases sl) (auto simp: plant_def)
  then show "tree_at (plant b sl h) sl (Node b [] Leaf Leaf)"
    using slot_value_set_same [OF assms(1)] ring_single by (simp add: plant_def)
  show "framed {b} {sl} h (plant b sl h)"
    using n by (auto simp: plant_def framed_def)
qed

text \<open>A block joins the ring of a node.\<close>

lemma join_ring:
  assumes "tree_at h sl (Node a as l r)" "distinct (trie_blocks (Node a as l r))" "b \<notin> set (trie_blocks (Node a as l r))"
    "outside sl (insert b (set (trie_blocks (Node a as l r))))" "next_free h (Blk a) = Some n"
  defines "h' \<equiv> set_parent b NULL_Parent (link_between (Blk a) (Blk b) n h)"
  shows "tree_at h' sl (Node a (b # as) l r)" "framed (insert b (insert a (set as))) {} h h'"
proof -
  have ring: "ring h (Blk a) (map Blk as)" using assms(1) by simp
  have n: "n = hd (map Blk as @ [Blk a])" using ring_ends [OF ring] assms(5) by simp
  then have "n \<in> Blk ` insert a (set as)" by (cases as) auto
  then show f: "framed (insert b (insert a (set as))) {} h h'"
    unfolding h'_def by (auto simp: framed_def)
  have "ring (link_between (Blk a) (Blk b) n h) (Blk a) (Blk b # map Blk as)"
    using ring assms(3) n by (intro ring_insert) auto
  then have r: "ring h' (Blk a) (map Blk (b # as))"
    unfolding h'_def by (simp add: ring_def)
  have "tree_at h' (Child a c) t = tree_at h (Child a c) t" if "t = l \<or> t = r" for c t
    using assms(2,3) that by (intro tree_frame [OF f]) (auto simp: h'_def)
  then show "tree_at h' sl (Node a (b # as) l r)"
    using assms(1-3) r by (auto simp: h'_def)
qed

lemma shift_top: "i < 63 \<Longrightarrow> bit (push_bit 1 m :: ulong) (63 - i) \<longleftrightarrow> bit m (63 - Suc i)"
  unfolding bit_push_bit_iff by (auto simp: Suc_diff_Suc)

lemma add_to_tree_ok:
  assumes "tree_at h sl t" "t \<noteq> Leaf" "trie_ok (info_size h) k p t" "info_size h b = Some n" "n div 2 ^ k = p" "k < 64"
    "distinct (trie_blocks t)" "b \<notin> set (trie_blocks t)" "\<forall>j < k. bit m (63 - j) = bit n (k - 1 - j)"
    "outside sl (insert b (set (trie_blocks t)))" "\<forall>c. block_child h (b, c) = Some None"
  shows "\<exists>h' t'. add_to_tree b n m sl h = Some h' \<and> tree_at h' sl t' \<and> t' \<noteq> Leaf \<and> trie_ok (info_size h) k p t' \<and>
    set (trie_blocks t') = insert b (set (trie_blocks t)) \<and> distinct (trie_blocks t') \<and>
    framed (insert b (set (trie_blocks t))) {} h h' \<and> free_bitmap h' = free_bitmap h \<and>
    large_free_bitmap h' = large_free_bitmap h \<and> rest_count h' = rest_count h"
  using assms
proof (induction t arbitrary: sl k p m h)
  case (Node a as l r)
  note prems = Node.prems
  obtain s where s: "info_size h a = Some s" "s div 2 ^ k = p" "\<forall>x \<in> set as. info_size h x = Some s"
    using prems(3) by auto
  have v: "slot_value sl h = Some (Some a)" using prems(1) by simp
  show ?case
  proof (cases "s = n")
    case True
    obtain x where x: "next_free h (Blk a) = Some x" using prems(1) ring_ends by fastforce
    let ?h = "set_parent b NULL_Parent (link_between (Blk a) (Blk b) x h)"
    have e: "add_to_tree b n m sl h = Some ?h"
      using v s(1) True x by (subst add_to_tree.simps) simp
    have "trie_ok (info_size h) k p (Node a (b # as) l r)" using prems(3,4) s True by auto
    moreover have "framed (insert b (set (trie_blocks (Node a as l r)))) {} h ?h"
      by (rule framed_mono [OF join_ring(2) [OF prems(1,7,8,10) x]]) auto
    ultimately show ?thesis
      using e join_ring(1) [OF prems(1,7,8,10) x] prems(7,8)
      by (intro exI [of _ ?h] exI [of _ "Node a (b # as) l r"]) auto
  next
    case False
    obtain j where k: "k = Suc j" using False s(2) prems(5) by (cases k) auto
    let ?c = "bit m 63"
    have bit: "?c = bit n j" using prems(9) by (auto simp: k)
    let ?t = "if ?c then r else l" and ?q = "2 * p + of_bool ?c"
    have nj: "n div 2 ^ j = ?q" using div_half [of n j] prems(5) bit by (simp add: k mult.commute)
    have ok: "trie_ok (info_size h) j ?q ?t" using prems(3) by (auto simp: k)
    have at: "tree_at h (Child a ?c) ?t" using prems(1) by auto
    have sub: "set (trie_blocks ?t) \<subseteq> set (trie_blocks (Node a as l r))" by auto
    have dis: "distinct (trie_blocks ?t)" "b \<notin> set (trie_blocks ?t)" "a \<notin> set (trie_blocks ?t)" "a \<noteq> b"
      "set as \<inter> set (trie_blocks ?t) = {}" "b \<notin> set as" "set (trie_blocks l) \<inter> set (trie_blocks r) = {}"
      using prems(7,8) by auto
    have m: "\<forall>i < j. bit (push_bit 1 m) (63 - i) = bit n (j - 1 - i)"
    proof (intro allI impI)
      fix i assume "i < j"
      then have "bit (push_bit 1 m) (63 - i) = bit m (63 - Suc i)" "j - 1 - i = k - 1 - Suc i"
        using prems(6) k shift_top [of i m] by simp_all
      then show "bit (push_bit 1 m) (63 - i) = bit n (j - 1 - i)" using prems(9) [rule_format, of "Suc i"] \<open>i < j\<close> k by simp
    qed
    have step: "\<exists>h' t'. add_to_tree b n m sl h = Some h' \<and> tree_at h' (Child a ?c) t' \<and> t' \<noteq> Leaf \<and>
        trie_ok (info_size h) j ?q t' \<and> set (trie_blocks t') = insert b (set (trie_blocks ?t)) \<and> distinct (trie_blocks t') \<and>
        framed (insert b (set (trie_blocks ?t))) {Child a ?c} h h' \<and> free_bitmap h' = free_bitmap h \<and>
        large_free_bitmap h' = large_free_bitmap h \<and> rest_count h' = rest_count h"
    proof (cases "?t = Leaf")
      case True
      then have w: "slot_value (Child a ?c) h = Some None" using at by simp
      have e: "add_to_tree b n m sl h = Some (plant b (Child a ?c) h)"
        unfolding plant_def by (subst add_to_tree.simps)
          (simp only: v s(1) False w Option.bind.simps Let_def option.case if_True not_False_eq_True)
      have "outside (Child a ?c) {b}" using dis(4) by simp
      note pl = plant_ok [OF _ this prems(11)]
      have w': "slot_value (Child a ?c) h \<noteq> None" using w by simp
      have "trie_ok (info_size h) j ?q (Node b [] Leaf Leaf)" using prems(4) nj by (cases j) auto
      then show ?thesis
        using e pl(1) [OF w'] pl(2) [OF w'] True
        by (intro exI [of _ "plant b (Child a ?c) h"] exI [of _ "Node b [] Leaf Leaf"]) (auto simp: plant_def)
    next
      case nl: False
      then obtain x where w: "slot_value (Child a ?c) h = Some (Some x)" using tree_slot [OF at] by (cases ?t) auto
      have e: "add_to_tree b n m sl h = add_to_tree b n (push_bit 1 m) (Child a ?c) h"
        by (subst add_to_tree.simps) (simp only: v s(1) False w Option.bind.simps Let_def option.case if_True not_False_eq_True)
      have o: "outside (Child a ?c) (insert b (set (trie_blocks ?t)))" using dis(3,4) by simp
      have "j < 64" using prems(6) k by simp
      have "\<exists>h' t'. add_to_tree b n (push_bit 1 m) (Child a ?c) h = Some h' \<and> tree_at h' (Child a ?c) t' \<and> t' \<noteq> Leaf \<and>
        trie_ok (info_size h) j ?q t' \<and> set (trie_blocks t') = insert b (set (trie_blocks ?t)) \<and> distinct (trie_blocks t') \<and>
        framed (insert b (set (trie_blocks ?t))) {} h h' \<and> free_bitmap h' = free_bitmap h \<and>
        large_free_bitmap h' = large_free_bitmap h \<and> rest_count h' = rest_count h"
      proof (cases ?c)
        case True
        show ?thesis
          using Node.IH(2) [of h "Child a ?c" j ?q "push_bit 1 m"] at nl ok prems(4) nj \<open>j < 64\<close> dis m o prems(11) True
          by (simp del: tree_at.simps trie_ok.simps trie_blocks.simps)
      next
        case f: False
        show ?thesis
          using Node.IH(1) [of h "Child a ?c" j ?q "push_bit 1 m"] at nl ok prems(4) nj \<open>j < 64\<close> dis m o prems(11) f
          by (simp del: tree_at.simps trie_ok.simps trie_blocks.simps)
      qed
      then show ?thesis unfolding e by (blast intro: framed_mono)
    qed
    then obtain h' t' where h': "add_to_tree b n m sl h = Some h'" "tree_at h' (Child a ?c) t'" "t' \<noteq> Leaf"
      "trie_ok (info_size h) j ?q t'" "set (trie_blocks t') = insert b (set (trie_blocks ?t))" "distinct (trie_blocks t')"
      "framed (insert b (set (trie_blocks ?t))) {Child a ?c} h h'" "free_bitmap h' = free_bitmap h"
      "large_free_bitmap h' = large_free_bitmap h" "rest_count h' = rest_count h" by blast
    let ?l = "if ?c then l else t'" and ?r = "if ?c then t' else r" and ?o = "if ?c then l else r"
    have slv: "slot_value sl h' = slot_value sl h"
    proof (rule framed_slot [OF h'(7)])
      show "sl \<notin> {Child a ?c}" using prems(10) by (auto simp: outside_def)
      show "\<forall>x \<in> insert b (set (trie_blocks ?t)). \<forall>c. sl \<noteq> Child x c"
        using prems(10) sub by (auto simp: outside_def)
    qed
    have other: "tree_at h' (Child a (\<not> ?c)) ?o"
    proof -
      have "tree_at h (Child a (\<not> ?c)) ?o" using prems(1) by auto
      moreover have "slot_value (Child a (\<not> ?c)) h' = slot_value (Child a (\<not> ?c)) h"
        using dis(3,4) by (intro framed_slot [OF h'(7)]) auto
      moreover have "set (trie_blocks ?o) \<inter> insert b (set (trie_blocks ?t)) = {}"
        "\<forall>x \<in> set (trie_blocks ?o). \<forall>c. Child x c \<notin> {Child a ?c}"
        using prems(7,8) by auto
      ultimately show ?thesis using tree_frame [OF h'(7)] by blast
    qed
    have an: "a \<notin> insert b (set (trie_blocks ?t))" "set as \<inter> insert b (set (trie_blocks ?t)) = {}" using dis by auto
    have "tree_at h' (Child a False) ?l" "tree_at h' (Child a True) ?r" using h'(2) other by (cases ?c; simp)+
    then have "tree_at h' sl (Node a as ?l ?r)" by (rule node_children [OF prems(1) h'(7) an slv])
    moreover have "trie_ok (info_size h) k p (Node a as ?l ?r)"
      using prems(3) h'(4) by (cases ?c) (auto simp: k)
    moreover have "set (trie_blocks (Node a as ?l ?r)) = insert b (set (trie_blocks (Node a as l r)))"
      using h'(5) by (cases ?c) auto
    moreover have "distinct (trie_blocks (Node a as ?l ?r))"
      using h'(5,6) prems(7,8) by (cases ?c) auto
    moreover have "framed (insert b (set (trie_blocks (Node a as l r)))) {} h h'"
    proof -
      have "framed (insert b (set (trie_blocks (Node a as l r)))) {Child a ?c} h h'"
        using h'(7) by (rule framed_mono) (use sub in auto)
      then show ?thesis by (auto simp: framed_def)
    qed
    ultimately show ?thesis using h'(1,8-10) by blast
  qed
qed simp

end
