(* ===== verification/ZendAllocPrune.thy ===== *)
theory ZendAllocPrune
  imports ZendAllocTries
begin

text \<open>
  Removal from the tries: the member of a ring is unlinked, a node with a ring is replaced by the last block of the
  ring, a node without one by a block from the bottom of its subtree.
\<close>

text \<open>Bitmaps and count stay.\<close>

definition same_counts :: "mm_heap \<Rightarrow> mm_heap \<Rightarrow> bool" where
  "same_counts h h' \<longleftrightarrow> free_bitmap h' = free_bitmap h \<and> large_free_bitmap h' = large_free_bitmap h \<and> rest_count h' = rest_count h"

lemma same_counts_setters [simp]: "same_counts h h"
  "same_counts h (set_slot sl v g) = same_counts h g" "same_counts h (set_parent b p g) = same_counts h g"
  "same_counts h (unlink q n g) = same_counts h g"
  by (simp_all add: same_counts_def)

lemma same_counts_trans: "\<lbrakk>same_counts a b; same_counts b c\<rbrakk> \<Longrightarrow> same_counts a c"
  by (simp add: same_counts_def)

lemma move_child_ok:
  assumes "tree_at h (Child b c) t" "q \<noteq> b" "q \<notin> set (trie_blocks t)" "b \<notin> set (trie_blocks t)" "distinct (trie_blocks t)"
  shows "\<exists>h'. move_child b q c h = Some h' \<and> tree_at h' (Child q c) t \<and> framed (set (trie_blocks t)) {Child q c} h h' \<and>
    same_counts h h'"
proof (cases t)
  case Leaf
  then have "block_child h (b, c) = Some None" using assms(1) by simp
  then show ?thesis using Leaf by (auto simp: move_child_def framed_def)
next
  case (Node x xs l r)
  let ?h1 = "set_slot (Child q c) (Some x) h"
  let ?h = "set_parent x (In_Slot (Child q c)) ?h1"
  have v: "block_child h (b, c) = Some (Some x)" "block_parent h x = Some (In_Slot (Child b c))"
    using assms(1) Node by auto
  have "ZEND_MM_CHECK_TREE x ?h1 = Some ()"
    using v assms(2) by (simp add: ZEND_MM_CHECK_TREE_def parent_slot_def)
  then have e: "move_child b q c h = Some ?h" using v(1) by (simp add: move_child_def)
  have f: "framed {x} {Child q c} h ?h" by (auto simp: framed_def)
  have d: "x \<noteq> q" "x \<notin> set xs" "set (trie_blocks l) \<inter> {x} = {}" "set (trie_blocks r) \<inter> {x} = {}"
    "set xs \<inter> {x} = {}" "q \<notin> set (trie_blocks l)" "q \<notin> set (trie_blocks r)"
    using assms(3,5) Node by auto
  have ring: "ring ?h (Blk x) (map Blk xs)"
    using assms(1) Node by (subst ring_cong [of _ _ _ h]) auto
  have "tree_at ?h (Child x False) l" "tree_at ?h (Child x True) r"
    using assms(1) Node d by (subst tree_frame [OF f]; auto)+
  then have "tree_at ?h (Child q c) t" using assms(1) Node d ring by auto
  moreover have "framed (set (trie_blocks t)) {Child q c} h ?h"
    using f by (rule framed_mono) (auto simp: Node)
  ultimately show ?thesis using e by (simp add: same_counts_def)
qed

lemma subst_ok:
  assumes "slot_value sl h = Some (Some b)" "block_parent h b = Some (In_Slot sl)" "tree_at h (Child b False) l" "tree_at h (Child b True) r"
    "ring h (Blk q) (map Blk qs)" "\<forall>x \<in> set qs. block_parent h x = Some NULL_Parent"
    "distinct (b # q # qs @ trie_blocks l @ trie_blocks r)"
    "outside sl (insert b (insert q (set qs \<union> set (trie_blocks l) \<union> set (trie_blocks r))))"
  shows "\<exists>h'. subst_block b q h = Some h' \<and> tree_at h' sl (Node q qs l r) \<and>
    framed (insert q (set (trie_blocks l) \<union> set (trie_blocks r))) {sl} h h' \<and> same_counts h h'"
proof -
  let ?h1 = "set_parent q (In_Slot sl) (set_slot sl (Some q) h)"
  have sl: "sl \<noteq> Child x c" if "x \<in> insert b (insert q (set qs \<union> set (trie_blocks l) \<union> set (trie_blocks r)))" for x c
    using assms(8) that unfolding outside_def by blast
  have f1: "framed {q} {sl} h ?h1" by (auto simp: framed_def)
  have v1: "slot_value sl ?h1 = Some (Some q)" using slot_value_set_same [of sl h] assms(1) by simp
  have vb: "slot_value (Child b c) ?h1 = slot_value (Child b c) h" for c
    using sl [of b c] by (simp del: slot_value_child)
  have t1: "tree_at ?h1 (Child b False) l" "tree_at ?h1 (Child b True) r"
    using assms(3,4,7) sl by (subst tree_frame [OF f1 _ _ vb]; auto)+
  obtain h2 where h2: "move_child b q False ?h1 = Some h2" "tree_at h2 (Child q False) l"
    "framed (set (trie_blocks l)) {Child q False} ?h1 h2" "same_counts ?h1 h2"
    using move_child_ok [OF t1(1), of q] assms(7) by auto
  have v2: "slot_value (Child b True) h2 = slot_value (Child b True) ?h1"
    using assms(7) by (intro framed_slot [OF h2(3)]) auto
  have t2: "tree_at h2 (Child b True) r"
    using t1(2) assms(7) by (subst tree_frame [OF h2(3) _ _ v2]) auto
  obtain h3 where h3: "move_child b q True h2 = Some h3" "tree_at h3 (Child q True) r"
    "framed (set (trie_blocks r)) {Child q True} h2 h3" "same_counts h2 h3"
    using move_child_ok [OF t2, of q] assms(7) by auto
  have v3': "slot_value (Child q False) h3 = slot_value (Child q False) h2"
    using assms(7) by (intro framed_slot [OF h3(3)]) auto
  have t3: "tree_at h3 (Child q False) l"
    using h2(2) assms(7) by (subst tree_frame [OF h3(3) _ _ v3']) auto
  have chk: "ZEND_MM_CHECK_TREE b h = Some ()" "parent_slot b h = Some sl"
    using assms(1,2) by (simp_all add: ZEND_MM_CHECK_TREE_def parent_slot_def)
  have e: "subst_block b q h = Some h3"
    using h2(1) h3(1) by (simp add: subst_block_def chk Let_def)
  have f: "framed (insert q (set (trie_blocks l) \<union> set (trie_blocks r))) {sl} h h3"
  proof -
    have "framed ({q} \<union> (set (trie_blocks l) \<union> set (trie_blocks r))) ({sl} \<union> ({Child q False} \<union> {Child q True})) h h3"
      by (rule framed_trans [OF f1 framed_trans [OF h2(3) h3(3)]])
    then show ?thesis by (auto simp: framed_def)
  qed
  have f12: "framed (set (trie_blocks l) \<union> set (trie_blocks r)) ({Child q False} \<union> {Child q True}) ?h1 h3"
    by (rule framed_trans [OF h2(3) h3(3)])
  have q: "q \<notin> set (trie_blocks l) \<union> set (trie_blocks r)" "set qs \<inter> (set (trie_blocks l) \<union> set (trie_blocks r)) = {}"
    using assms(7) by auto
  have v3: "slot_value sl h3 = Some (Some q)"
    using v1 framed_slot [OF f12] sl by auto
  have p3: "block_parent h3 q = Some (In_Slot sl)" using framed_links [OF f12 q(1)] by simp
  have "block_parent h3 x = Some NULL_Parent" if "x \<in> set qs" for x
  proof -
    have "x \<notin> set (trie_blocks l) \<union> set (trie_blocks r)" "x \<noteq> q" using that q(2) assms(7) by auto
    then show ?thesis using framed_links [OF f12, of x] that assms(6) by simp
  qed
  moreover have "ring h3 (Blk q) (map Blk qs)"
    using framed_ring [OF f12 q] ring_cong [of "Blk q" "map Blk qs" ?h1 h] assms(5) by simp
  moreover have "same_counts h h3" using same_counts_trans [OF h2(4) h3(4)] by (simp add: same_counts_def)
  ultimately show ?thesis using e f v3 p3 t3 h3(2) by auto
qed

subsection \<open>The block at the bottom\<close>

lemma deepest_ok:
  assumes "tree_at h sl t" "t = Node a as l r" "trie_ok sz k p t" "distinct (trie_blocks t)" "outside sl (set (trie_blocks t))"
  shows "\<exists>rp q qs t'. deepest sl a h = Some (rp, q) \<and> (\<forall>c. block_child h (q, c) = Some None) \<and> ring h (Blk q) (map Blk qs) \<and>
    (\<forall>x \<in> set qs. block_parent h x = Some NULL_Parent) \<and> (\<exists>n. n div 2 ^ k = p \<and> (\<forall>x \<in> insert q (set qs). sz x = Some n)) \<and>
    tree_at (set_slot rp None h) sl t' \<and> trie_ok sz k p t' \<and> set (trie_blocks t) = insert q (set qs \<union> set (trie_blocks t')) \<and>
    distinct (q # qs @ trie_blocks t') \<and> (rp = sl \<or> (\<exists>y c. rp = Child y c \<and> y \<in> set (trie_blocks t')))"
  using assms
proof (induction t arbitrary: sl a as l r k p)
  case (Node a' as' l' r')
  have eq: "a' = a" "as' = as" "l' = l" "r' = r" using Node.prems(2) by simp_all
  note t = Node.prems(1) [unfolded eq] and ok = Node.prems(3) [unfolded eq] and dis = Node.prems(4) [unfolded eq]
    and out = Node.prems(5) [unfolded eq]
  obtain n where n: "n div 2 ^ k = p" "\<forall>x \<in> insert a (set as). sz x = Some n" using ok by auto
  define c where "c = (r \<noteq> Leaf)"
  define u where "u = (if c then r else l)"
  have c1: "block_child h (a, True) = Some (case r of Leaf \<Rightarrow> None | Node x _ _ _ \<Rightarrow> Some x)"
    using tree_slot [of h "Child a True" r] t by simp
  have cu: "block_child h (a, c) = Some (case u of Leaf \<Rightarrow> None | Node x _ _ _ \<Rightarrow> Some x)"
    using tree_slot [of h "Child a c" u] t by (cases c) (simp_all add: u_def)
  have step: "deepest sl a h = (case u of Leaf \<Rightarrow> Some (sl, a) | Node x _ _ _ \<Rightarrow> deepest (Child a c) x h)"
  proof -
    have "((case r of Leaf \<Rightarrow> None | Node x _ _ _ \<Rightarrow> Some x) \<noteq> None) = c" by (cases r) (auto simp: c_def)
    then show ?thesis by (subst deepest.simps) (simp add: c1 cu Let_def split: trie.split)
  qed
  show ?case
  proof (cases u)
    case Leaf
    then have lr: "l = Leaf" "r = Leaf" by (auto simp: u_def c_def split: if_splits)
    have ch: "block_child h (a, b) = Some None" for b using t lr by (cases b) auto
    have "slot_value sl (set_slot sl None h) = Some None" using t by (intro slot_value_set_same) simp
    then show ?thesis
      unfolding step Leaf trie.case eq using t n ch dis lr
      by (intro exI [of _ sl] exI [of _ a] exI [of _ as] exI [of _ Leaf]) auto
  next
    case (Node x xs ul ur)
    obtain j where k: "k = Suc j" using ok Node by (cases k) (auto simp: u_def split: if_splits)
    let ?p = "2 * p + of_bool c"
    have ut: "tree_at h (Child a c) u" using t by (auto simp: u_def)
    have uok: "trie_ok sz j ?p u" using ok by (auto simp: u_def k)
    have udis: "distinct (trie_blocks u)" and ua: "a \<notin> set (trie_blocks u)" using dis by (auto simp: u_def)
    have uout: "outside (Child a c) (set (trie_blocks u))" using ua by simp
    have IH: "\<exists>rp q qs t'. deepest (Child a c) x h = Some (rp, q) \<and> (\<forall>c. block_child h (q, c) = Some None) \<and> ring h (Blk q) (map Blk qs) \<and>
      (\<forall>x \<in> set qs. block_parent h x = Some NULL_Parent) \<and> (\<exists>n. n div 2 ^ j = ?p \<and> (\<forall>x \<in> insert q (set qs). sz x = Some n)) \<and>
      tree_at (set_slot rp None h) (Child a c) t' \<and> trie_ok sz j ?p t' \<and> set (trie_blocks u) = insert q (set qs \<union> set (trie_blocks t')) \<and>
      distinct (q # qs @ trie_blocks t') \<and> (rp = Child a c \<or> (\<exists>y b. rp = Child y b \<and> y \<in> set (trie_blocks t')))"
    proof (cases c)
      case True
      then show ?thesis
        using Node.IH(2) [of "Child a c" x xs ul ur j ?p] ut uok udis uout Node unfolding eq u_def by simp
    next
      case False
      then show ?thesis
        using Node.IH(1) [of "Child a c" x xs ul ur j ?p] ut uok udis uout Node unfolding eq u_def by simp
    qed
    obtain rp q qs t' where d: "deepest (Child a c) x h = Some (rp, q)" "\<forall>c. block_child h (q, c) = Some None" "ring h (Blk q) (map Blk qs)"
      "\<forall>x \<in> set qs. block_parent h x = Some NULL_Parent" "\<exists>n. n div 2 ^ j = ?p \<and> (\<forall>x \<in> insert q (set qs). sz x = Some n)"
      "tree_at (set_slot rp None h) (Child a c) t'" "trie_ok sz j ?p t'" "set (trie_blocks u) = insert q (set qs \<union> set (trie_blocks t'))"
      "distinct (q # qs @ trie_blocks t')" "rp = Child a c \<or> (\<exists>y b. rp = Child y b \<and> y \<in> set (trie_blocks t'))"
      using IH by (elim exE conjE) (rule that; (assumption | blast))
    let ?h = "set_slot rp None h"
    have sub: "set (trie_blocks u) \<subseteq> set (trie_blocks (Node a as l r))" by (auto simp: u_def)
    have f: "framed (set (trie_blocks u)) {Child a c} h ?h"
      using d(8,10) ua by (auto simp: framed_def)
    have rp: "rp \<noteq> sl"
    proof -
      have "y \<in> set (trie_blocks (Node a as l r))" if "y \<in> set (trie_blocks t')" for y using that d(8) sub by blast
      then show ?thesis using d(10) out by (fastforce simp: outside_def)
    qed
    have slv: "slot_value sl ?h = slot_value sl h" using rp by simp
    let ?l = "if c then l else t'" and ?r = "if c then t' else r"
    have other: "tree_at ?h (Child a (\<not> c)) (if c then l else r)"
    proof -
      have "slot_value (Child a (\<not> c)) ?h = slot_value (Child a (\<not> c)) h"
        using d(10) ua d(8) by (intro slot_value_set_other) auto
      moreover have "set (trie_blocks (if c then l else r)) \<inter> set (trie_blocks u) = {}"
        "\<forall>x \<in> set (trie_blocks (if c then l else r)). \<forall>b. Child x b \<notin> {Child a c}"
        using dis by (auto simp: u_def)
      ultimately show ?thesis using tree_frame [OF f] t by (cases c) auto
    qed
    have an: "set as \<inter> set (trie_blocks u) = {}" using dis by (auto simp: u_def)
    have ch: "tree_at ?h (Child a False) ?l" "tree_at ?h (Child a True) ?r" using other d(6) by (cases c; simp)+
    have node: "tree_at ?h sl (Node a as ?l ?r)" by (rule node_children [OF t f ua an slv ch])
    have "trie_ok sz k p (Node a as ?l ?r)" using ok d(7) by (cases c) (auto simp: k)
    moreover have "set (trie_blocks (Node a as l r)) = insert q (set qs \<union> set (trie_blocks (Node a as ?l ?r)))"
      using d(8) by (cases c) (auto simp: u_def)
    moreover have "distinct (q # qs @ trie_blocks (Node a as ?l ?r))"
      using d(8,9) dis by (cases c) (auto simp: u_def)
    moreover have "\<exists>n. n div 2 ^ k = p \<and> (\<forall>x \<in> insert q (set qs). sz x = Some n)"
    proof -
      obtain m where m: "m div 2 ^ j = ?p" "\<forall>x \<in> insert q (set qs). sz x = Some m" using d(5) by blast
      then have "m div 2 ^ k = p" using div_halves [of m j p] unfolding k by (cases c) auto
      then show ?thesis using m(2) by blast
    qed
    moreover have "\<exists>y b. rp = Child y b \<and> y \<in> set (trie_blocks (Node a as ?l ?r))"
      using d(10) by (cases c) auto
    ultimately show ?thesis
      unfolding step Node trie.case eq using d(1-4) node by blast
  qed
qed simp

subsection \<open>Removal\<close>

text \<open>What the removal of a block from a trie comes to.\<close>

definition pruned :: "mm_heap \<Rightarrow> slot \<Rightarrow> nat \<Rightarrow> nat \<Rightarrow> trie \<Rightarrow> addr \<Rightarrow> mm_heap \<Rightarrow> trie \<Rightarrow> bool" where
  "pruned h sl k p t b h' t' \<longleftrightarrow> zend_mm_remove_from_free_list b h = Some h' \<and> tree_at h' sl t' \<and> trie_ok (info_size h) k p t' \<and>
     set (trie_blocks t') = set (trie_blocks t) - {b} \<and> distinct (trie_blocks t') \<and> framed (set (trie_blocks t)) {sl} h h' \<and>
     free_bitmap h' = free_bitmap h \<and> rest_count h' = rest_count h \<and>
     large_free_bitmap h' = (if t' = Leaf \<and> sl = Large_Bucket (zend_mm_high_bit (the (info_size h b)))
       then large_free_bitmap h AND NOT (push_bit (zend_mm_high_bit (the (info_size h b))) 1) else large_free_bitmap h)"

lemma remove_linked:
  assumes "prev_free h (Blk b) = Some p" "next_free h (Blk b) = Some n" "p \<noteq> Blk b"
    "next_free h p = Some (Blk b)" "prev_free h n = Some (Blk b)" "info_size h b = Some s"
  shows "zend_mm_remove_from_free_list b h =
    (if s < 544 then
       if p = n then do {
         x \<leftarrow> prev_free (unlink p n h) (Small_Bucket (ZEND_MM_BUCKET_INDEX s));
         y \<leftarrow> next_free (unlink p n h) (Small_Bucket (ZEND_MM_BUCKET_INDEX s));
         Some (if x = y then (unlink p n h)\<lparr>free_bitmap := free_bitmap h AND NOT (push_bit (ZEND_MM_BUCKET_INDEX s) 1)\<rparr>
               else unlink p n h) }
       else Some (unlink p n h)
     else do {
       par \<leftarrow> block_parent h b;
       (case par of REST_BLOCK \<Rightarrow> Some ((unlink p n h)\<lparr>rest_count := rest_count h - 1\<rparr>)
        | NULL_Parent \<Rightarrow> Some (unlink p n h)
        | In_Slot _ \<Rightarrow> do { q \<leftarrow> block_of p; subst_block b q (unlink p n h) }) })"
proof -
  have u: "set_prev_free n p (set_next_free p n h) = unlink p n h" by (simp add: unlink_def)
  have b: "block_parent (unlink p n h) b = block_parent h b" "info_size (unlink p n h) b = Some s" using assms(6) by simp_all
  show ?thesis
    unfolding zend_mm_remove_from_free_list_def
    by (simp only: assms Option.bind.simps Let_def if_False simp_thms u b small_size setter_bitmaps)
qed

lemma remove_member:
  assumes "tree_at h sl (Node a (xs @ b # ys) l r)" "trie_ok (info_size h) k p (Node a (xs @ b # ys) l r)"
    "distinct (trie_blocks (Node a (xs @ b # ys) l r))" "\<not> the (info_size h b) < 544"
  shows "\<exists>h'. pruned h sl k p (Node a (xs @ b # ys) l r) b h' (Node a (xs @ ys) l r)"
proof -
  let ?p = "last (Blk a # map Blk xs)" and ?n = "hd (map Blk ys @ [Blk a])"
  let ?h = "unlink ?p ?n h"
  have ring: "ring h (Blk a) (map Blk xs @ Blk b # map Blk ys)" using assms(1) by simp
  note rr = ring_remove [OF ring]
  obtain n where sz: "info_size h b = Some n" using assms(2) by auto
  have par: "block_parent h b = Some NULL_Parent" using assms(1) by simp
  have e: "zend_mm_remove_from_free_list b h = Some ?h"
    unfolding remove_linked [OF rr(1,2,5,3,4) sz] using sz assms(4) par by simp
  have "?p \<in> Blk ` insert a (set xs)" by (cases xs rule: rev_cases) auto
  moreover have "?n \<in> Blk ` insert a (set ys)" by (cases ys) auto
  ultimately have f: "framed (insert a (set xs \<union> set ys)) {} h ?h" by (auto simp: framed_def)
  have "tree_at ?h (Child a False) l" "tree_at ?h (Child a True) r"
    using assms(1,3) by (subst tree_frame [OF f]; auto)+
  then have "tree_at ?h sl (Node a (xs @ ys) l r)" using assms(1) rr(7) by auto
  moreover have "framed (set (trie_blocks (Node a (xs @ b # ys) l r))) {sl} h ?h"
    using f by (rule framed_mono) auto
  moreover have "trie_ok (info_size h) k p (Node a (xs @ ys) l r)" using assms(2) by auto
  ultimately show ?thesis
    unfolding pruned_def using e assms(3) by (intro exI [of _ ?h]) auto
qed

lemma remove_ring_node:
  assumes "tree_at h sl (Node b (ys @ [z]) l r)" "trie_ok (info_size h) k p (Node b (ys @ [z]) l r)"
    "distinct (trie_blocks (Node b (ys @ [z]) l r))" "\<not> the (info_size h b) < 544"
    "outside sl (set (trie_blocks (Node b (ys @ [z]) l r)))"
  shows "\<exists>h'. pruned h sl k p (Node b (ys @ [z]) l r) b h' (Node z ys l r)"
proof -
  let ?n = "hd (map Blk ys @ [Blk z])"
  let ?h = "unlink (Blk z) ?n h"
  have "ring h (Blk b) (map Blk ys @ Blk z # [])" using assms(1) by simp
  then have "ring h (Blk z) ([] @ Blk b # map Blk ys)" using ring_rotate [of h "Blk b" "map Blk ys" "Blk z" "[]"] by simp
  note rr = ring_remove [OF this, simplified]
  obtain n where sz: "info_size h b = Some n" using assms(2) by auto
  have par: "block_parent h b = Some (In_Slot sl)" using assms(1) by simp
  have e: "zend_mm_remove_from_free_list b h = subst_block b z ?h"
    using remove_linked [OF rr(1,2) _ rr(3,4) sz] rr(5) sz assms(4) par by (simp add: block_of_def)
  have "?n \<in> Blk ` insert z (set ys)" by (cases ys) auto
  then have f: "framed (insert z (set ys)) {} h ?h" by (auto simp: framed_def)
  have t: "tree_at ?h (Child b False) l" "tree_at ?h (Child b True) r"
    using assms(1,3) by (subst tree_frame [OF f]; auto)+
  have "\<exists>h'. subst_block b z ?h = Some h' \<and> tree_at h' sl (Node z ys l r) \<and>
    framed (insert z (set (trie_blocks l) \<union> set (trie_blocks r))) {sl} ?h h' \<and> same_counts ?h h'"
    using assms(1,3,5) rr(7) par by (intro subst_ok t) auto
  then obtain h' where h': "subst_block b z ?h = Some h'" "tree_at h' sl (Node z ys l r)"
    "framed (insert z (set (trie_blocks l) \<union> set (trie_blocks r))) {sl} ?h h'" "same_counts ?h h'" by blast
  have "framed (set (trie_blocks (Node b (ys @ [z]) l r))) {sl} h h'"
    using framed_trans [OF f h'(3)] by (rule framed_mono) auto
  moreover have "trie_ok (info_size h) k p (Node z ys l r)" using assms(2) by auto
  ultimately show ?thesis
    unfolding pruned_def using e h' assms(3) by (intro exI [of _ h']) (auto simp: same_counts_def)
qed

lemma remove_single_node:
  assumes "tree_at h sl (Node b [] l r)" "trie_ok (info_size h) k p (Node b [] l r)"
    "distinct (trie_blocks (Node b [] l r))" "outside sl (set (trie_blocks (Node b [] l r)))"
  shows "\<exists>h' t'. pruned h sl k p (Node b [] l r) b h' t'"
proof -
  define c where "c = (r \<noteq> Leaf)"
  define u where "u = (if c then r else l)"
  have links: "prev_free h (Blk b) = Some (Blk b)" "next_free h (Blk b) = Some (Blk b)"
    using assms(1) ring_ends [of h "Blk b" "[]"] by simp_all
  have c1: "block_child h (b, True) = Some (case r of Leaf \<Rightarrow> None | Node x _ _ _ \<Rightarrow> Some x)"
    using tree_slot [of h "Child b True" r] assms(1) by simp
  have cu: "block_child h (b, c) = Some (case u of Leaf \<Rightarrow> None | Node x _ _ _ \<Rightarrow> Some x)"
    using tree_slot [of h "Child b c" u] assms(1) by (cases c) (simp_all add: u_def)
  have cc: "((case r of Leaf \<Rightarrow> None | Node x _ _ _ \<Rightarrow> Some x) \<noteq> None) = c" by (cases r) (auto simp: c_def)
  obtain n where sz: "info_size h b = Some n" using assms(2) by auto
  have chk: "ZEND_MM_CHECK_TREE b h = Some ()" "parent_slot b h = Some sl"
    using assms(1) by (simp_all add: ZEND_MM_CHECK_TREE_def parent_slot_def)
  show ?thesis
  proof (cases u)
    case Leaf
    then have lr: "l = Leaf" "r = Leaf" by (auto simp: u_def c_def split: if_splits)
    let ?i = "zend_mm_high_bit (the (info_size h b))"
    let ?h1 = "set_slot sl None h"
    let ?h = "if sl = Large_Bucket ?i then ?h1\<lparr>large_free_bitmap := large_free_bitmap ?h1 AND NOT (push_bit ?i 1)\<rparr> else ?h1"
    have e: "zend_mm_remove_from_free_list b h = Some ?h"
      using links sz c1 cu Leaf lr
      by (simp add: zend_mm_remove_from_free_list_def chk Let_def c_def split: option.split)
    have "slot_value sl ?h1 = Some None" using assms(1) by (intro slot_value_set_same) simp
    moreover have "framed {b} {sl} h ?h" by (auto simp: framed_def)
    ultimately show ?thesis
      unfolding pruned_def using e lr by (intro exI [of _ ?h] exI [of _ Leaf]) auto
  next
    case (Node x xs ul ur)
    have ut: "tree_at h (Child b c) u" using assms(1) by (auto simp: u_def)
    obtain j where k: "k = Suc j" using assms(2) Node by (cases k) (auto simp: u_def split: if_splits)
    let ?p = "2 * p + of_bool c"
    have uok: "trie_ok (info_size h) j ?p u" using assms(2) by (auto simp: u_def k)
    have udis: "distinct (trie_blocks u)" and ub: "b \<notin> set (trie_blocks u)" using assms(3) by (auto simp: u_def)
    have uout: "outside (Child b c) (set (trie_blocks u))" using ub by simp
    obtain rp q qs t' where d: "deepest (Child b c) x h = Some (rp, q)" "\<forall>c. block_child h (q, c) = Some None" "ring h (Blk q) (map Blk qs)"
      "\<forall>x \<in> set qs. block_parent h x = Some NULL_Parent" "\<exists>n. n div 2 ^ j = ?p \<and> (\<forall>x \<in> insert q (set qs). info_size h x = Some n)"
      "tree_at (set_slot rp None h) (Child b c) t'" "trie_ok (info_size h) j ?p t'" "set (trie_blocks u) = insert q (set qs \<union> set (trie_blocks t'))"
      "distinct (q # qs @ trie_blocks t')" "rp = Child b c \<or> (\<exists>y b. rp = Child y b \<and> y \<in> set (trie_blocks t'))"
      using deepest_ok [OF ut Node uok udis uout] by (elim exE conjE) (rule that; (assumption | blast))
    let ?h1 = "set_slot rp None h"
    let ?l = "if c then l else t'" and ?r = "if c then t' else r" and ?o = "if c then l else r"
    have v: "slot_value (Child b c) h = Some (Some x)" using cu Node by simp
    have v': "slot_value (Child b ((case r of Leaf \<Rightarrow> None | Node x _ _ _ \<Rightarrow> Some x) \<noteq> None)) h = Some (Some x)"
      unfolding cc by (rule v)
    have e: "zend_mm_remove_from_free_list b h = subst_block b q ?h1"
      using links c1 d(1)
      unfolding zend_mm_remove_from_free_list_def
      by (simp only: Option.bind.simps Let_def if_True if_False simp_thms c1 cc v option.case prod.case)
    have f: "framed (set (trie_blocks u)) {Child b c} h ?h1" using d(8,10) ub by (auto simp: framed_def)
    have sub: "set (trie_blocks u) \<subseteq> set (trie_blocks (Node b [] l r))" by (auto simp: u_def)
    have sl: "sl \<noteq> Child y c" if "y \<in> set (trie_blocks (Node b [] l r))" for y c
      using assms(4) that unfolding outside_def by blast
    have rp: "rp \<noteq> sl"
    proof -
      have "y \<in> set (trie_blocks (Node b [] l r))" if "y \<in> set (trie_blocks t')" for y using that d(8) sub by blast
      then have "rp = Child y a \<Longrightarrow> y \<in> set (trie_blocks t') \<Longrightarrow> rp \<noteq> sl" for y a using sl by blast
      then show ?thesis using d(10) sl [of b c] by auto
    qed
    have odis: "set (trie_blocks ?o) \<inter> set (trie_blocks u) = {}" using assms(3) by (auto simp: u_def)
    have other: "tree_at ?h1 (Child b (\<not> c)) ?o"
    proof -
      have "slot_value (Child b (\<not> c)) ?h1 = slot_value (Child b (\<not> c)) h"
        using d(10) ub d(8) by (intro slot_value_set_other) auto
      moreover have "\<forall>x \<in> set (trie_blocks ?o). \<forall>a. Child x a \<notin> {Child b c}"
        using assms(3) by (auto simp: u_def)
      ultimately show ?thesis using tree_frame [OF f odis] assms(1) by (cases c) auto
    qed
    have lr: "tree_at ?h1 (Child b False) ?l" "tree_at ?h1 (Child b True) ?r" using other d(6) by (cases c; simp)+
    have lrs: "set (trie_blocks ?l) \<union> set (trie_blocks ?r) = set (trie_blocks t') \<union> set (trie_blocks ?o)" by auto
    have sub2: "insert b (insert q (set qs \<union> set (trie_blocks ?l) \<union> set (trie_blocks ?r))) = set (trie_blocks (Node b [] l r))"
      using d(8) by (cases c) (auto simp: u_def)
    have dis2: "distinct (b # q # qs @ trie_blocks ?l @ trie_blocks ?r)"
      using d(8,9) assms(3) by (cases c) (auto simp: u_def)
    have "slot_value sl ?h1 = Some (Some b)" "block_parent ?h1 b = Some (In_Slot sl)"
      using assms(1) rp by simp_all
    moreover have "ring ?h1 (Blk q) (map Blk qs)" using d(3) by (subst ring_cong [of _ _ _ h]) auto
    moreover have "outside sl (insert b (insert q (set qs \<union> set (trie_blocks ?l) \<union> set (trie_blocks ?r))))"
      unfolding sub2 by (rule assms(4))
    ultimately obtain h' where h': "subst_block b q ?h1 = Some h'" "tree_at h' sl (Node q qs ?l ?r)"
      "framed (insert q (set (trie_blocks ?l) \<union> set (trie_blocks ?r))) {sl} ?h1 h'" "same_counts ?h1 h'"
      using subst_ok [of sl ?h1 b ?l ?r q qs] lr d(4) dis2 by auto
    have "framed (set (trie_blocks (Node b [] l r))) {sl} h h'"
    proof -
      have "framed (set (trie_blocks (Node b [] l r))) ({Child b c} \<union> {sl}) h h'"
        using framed_trans [OF f h'(3)] by (rule framed_mono) (use sub sub2 in auto)
      then show ?thesis by (auto simp: framed_def)
    qed
    moreover have "trie_ok (info_size h) k p (Node q qs ?l ?r)"
    proof -
      obtain m where m: "m div 2 ^ j = ?p" "\<forall>x \<in> insert q (set qs). info_size h x = Some m" using d(5) by blast
      then have "m div 2 ^ k = p" using div_halves [of m j p] unfolding k by (cases c) auto
      then show ?thesis using m(2) assms(2) d(7) by (cases c) (auto simp: k)
    qed
    moreover have "set (trie_blocks (Node q qs ?l ?r)) = set (trie_blocks (Node b [] l r)) - {b}"
      using sub2 dis2 by auto
    moreover have "distinct (trie_blocks (Node q qs ?l ?r))" using dis2 by auto
    ultimately show ?thesis
      unfolding pruned_def using e h'
      by (intro exI [of _ h'] exI [of _ "Node q qs ?l ?r"]) (auto simp: same_counts_def)
  qed
qed

lemma remove_tree_ok:
  assumes "tree_at h sl t" "trie_ok (info_size h) k p t" "distinct (trie_blocks t)" "b \<in> set (trie_blocks t)"
    "\<not> the (info_size h b) < 544" "outside sl (set (trie_blocks t))"
  shows "\<exists>h' t'. pruned h sl k p t b h' t'"
  using assms
proof (induction t arbitrary: sl k p)
  case (Node a as l r)
  note t = Node.prems(1) and ok = Node.prems(2) and dis = Node.prems(3) and out = Node.prems(6)
  consider "b = a" "as = []" | ys z where "b = a" "as = ys @ [z]" | "b \<noteq> a" "b \<in> set as"
    | "b \<noteq> a" "b \<notin> set as" "b \<in> set (trie_blocks l) \<or> b \<in> set (trie_blocks r)"
    using Node.prems(4) by (cases as rule: rev_cases) auto
  then show ?case
  proof cases
    case 1
    then show ?thesis using remove_single_node [of h sl b l r] t ok dis out by blast
  next
    case 2
    then show ?thesis using remove_ring_node [of h sl b ys z l r] t ok dis out Node.prems(5) by blast
  next
    case 3
    then obtain xs ys where "as = xs @ b # ys" by (meson split_list)
    then show ?thesis using remove_member [of h sl a xs b ys l r] t ok dis Node.prems(5) by blast
  next
    case 4
    define c where "c = (b \<in> set (trie_blocks r))"
    define u where "u = (if c then r else l)"
    have bu: "b \<in> set (trie_blocks u)" using 4 by (auto simp: u_def c_def)
    obtain j where k: "k = Suc j" using ok bu by (cases k) (auto simp: u_def split: if_splits)
    let ?p = "2 * p + of_bool c"
    have ut: "tree_at h (Child a c) u" using t by (auto simp: u_def)
    have uok: "trie_ok (info_size h) j ?p u" using ok by (auto simp: u_def k)
    have udis: "distinct (trie_blocks u)" and ua: "a \<notin> set (trie_blocks u)" using dis by (auto simp: u_def)
    have uout: "outside (Child a c) (set (trie_blocks u))" using ua by simp
    have "\<exists>h' t'. pruned h (Child a c) j ?p u b h' t'"
    proof (cases c)
      case True
      then show ?thesis using Node.IH(2) [of "Child a c" j ?p] ut uok udis bu Node.prems(5) uout unfolding u_def by simp
    next
      case False
      then show ?thesis using Node.IH(1) [of "Child a c" j ?p] ut uok udis bu Node.prems(5) uout unfolding u_def by simp
    qed
    then obtain h' t' where h': "zend_mm_remove_from_free_list b h = Some h'" "tree_at h' (Child a c) t'" "trie_ok (info_size h) j ?p t'"
      "set (trie_blocks t') = set (trie_blocks u) - {b}" "distinct (trie_blocks t')" "framed (set (trie_blocks u)) {Child a c} h h'"
      "free_bitmap h' = free_bitmap h" "rest_count h' = rest_count h" "large_free_bitmap h' = large_free_bitmap h"
      unfolding pruned_def by auto
    let ?l = "if c then l else t'" and ?r = "if c then t' else r" and ?o = "if c then l else r"
    have sub: "set (trie_blocks u) \<subseteq> set (trie_blocks (Node a as l r))" by (auto simp: u_def)
    have slv: "slot_value sl h' = slot_value sl h"
      using out sub by (intro framed_slot [OF h'(6)]) (auto simp: outside_def)
    have other: "tree_at h' (Child a (\<not> c)) ?o"
    proof -
      have "slot_value (Child a (\<not> c)) h' = slot_value (Child a (\<not> c)) h"
        using ua by (intro framed_slot [OF h'(6)]) auto
      moreover have "set (trie_blocks ?o) \<inter> set (trie_blocks u) = {}" "\<forall>x \<in> set (trie_blocks ?o). \<forall>b. Child x b \<notin> {Child a c}"
        using dis by (auto simp: u_def)
      ultimately show ?thesis using tree_frame [OF h'(6)] t by (cases c) auto
    qed
    have an: "set as \<inter> set (trie_blocks u) = {}" using dis by (auto simp: u_def)
    have ch: "tree_at h' (Child a False) ?l" "tree_at h' (Child a True) ?r" using other h'(2) by (cases c; simp)+
    have "tree_at h' sl (Node a as ?l ?r)" by (rule node_children [OF t h'(6) ua an slv ch])
    moreover have "trie_ok (info_size h) k p (Node a as ?l ?r)" using ok h'(3) by (cases c) (auto simp: k)
    moreover have "set (trie_blocks (Node a as ?l ?r)) = set (trie_blocks (Node a as l r)) - {b}"
      using h'(4) 4 bu dis by (cases c) (auto simp: u_def)
    moreover have "distinct (trie_blocks (Node a as ?l ?r))"
      using h'(4,5) dis by (cases c) (auto simp: u_def)
    moreover have "framed (set (trie_blocks (Node a as l r))) {sl} h h'"
    proof -
      have "framed (set (trie_blocks (Node a as l r))) {Child a c} h h'"
        using h'(6) by (rule framed_mono) (use sub in auto)
      then show ?thesis by (auto simp: framed_def)
    qed
    ultimately show ?thesis
      unfolding pruned_def using h'(1,7-9) by (intro exI [of _ h'] exI [of _ "Node a as ?l ?r"]) auto
  qed
qed simp

end
