(* ===== verification/ZendAllocFree.thy ===== *)
theory ZendAllocFree
  imports ZendAllocPrune
begin

text \<open>
  The free blocks as a whole: the rings of small ones, the tries of large ones and the ring of rest blocks. A bit of
  \<open>free_bitmap\<close> that is set tells of a ring with blocks, but a ring with blocks may have lost its bit; the bits of
  \<open>large_free_bitmap\<close> are exact.
\<close>

record free_lists =
  small :: "nat \<Rightarrow> addr list"
  tree :: "nat \<Rightarrow> trie"
  rest :: "addr list"

definition sized_small :: "mm_heap \<Rightarrow> nat \<Rightarrow> addr \<Rightarrow> bool" where
  "sized_small h i x \<longleftrightarrow> (\<exists>n. info_size h x = Some n \<and> block_sized n \<and> n < 544 \<and> ZEND_MM_BUCKET_INDEX n = i)"

definition sized_large :: "mm_heap \<Rightarrow> addr \<Rightarrow> bool" where
  "sized_large h x \<longleftrightarrow> (\<exists>n. info_size h x = Some n \<and> block_sized n \<and> 544 \<le> n)"

definition small_ok :: "mm_heap \<Rightarrow> nat \<Rightarrow> addr list \<Rightarrow> bool" where
  "small_ok h i xs \<longleftrightarrow> ring h (Small_Bucket i) (map Blk xs) \<and> (\<forall>x \<in> set xs. sized_small h i x) \<and>
     (bit (free_bitmap h) i \<longrightarrow> xs \<noteq> [])"

definition large_ok :: "mm_heap \<Rightarrow> nat \<Rightarrow> trie \<Rightarrow> bool" where
  "large_ok h i t \<longleftrightarrow> tree_at h (Large_Bucket i) t \<and> trie_ok (info_size h) i 1 t \<and> distinct (trie_blocks t) \<and>
     (\<forall>x \<in> set (trie_blocks t). sized_large h x) \<and> (bit (large_free_bitmap h) i \<longleftrightarrow> t \<noteq> Leaf)"

definition large_count :: "mm_heap \<Rightarrow> addr list \<Rightarrow> int" where
  "large_count h xs = int (length (filter (\<lambda>x. 544 \<le> the (info_size h x)) xs))"

definition rest_ok :: "mm_heap \<Rightarrow> addr list \<Rightarrow> bool" where
  "rest_ok h xs \<longleftrightarrow> ring h Rest_Bucket (map Blk xs) \<and>
     (\<forall>x \<in> set xs. \<exists>n. info_size h x = Some n \<and> block_sized n \<and> (544 \<le> n \<longrightarrow> block_parent h x = Some REST_BLOCK)) \<and>
     rest_count h = large_count h xs"

definition small_blocks :: "free_lists \<Rightarrow> addr set" where
  "small_blocks F = (\<Union>i<64. set (small F i))"

definition large_blocks :: "free_lists \<Rightarrow> addr set" where
  "large_blocks F = (\<Union>i<64. set (trie_blocks (tree F i)))"

definition free_blocks :: "free_lists \<Rightarrow> addr set" where
  "free_blocks F = small_blocks F \<union> large_blocks F \<union> set (rest F)"

definition lists_ok :: "mm_heap \<Rightarrow> free_lists \<Rightarrow> bool" where
  "lists_ok h F \<longleftrightarrow> (\<forall>i<64. small_ok h i (small F i)) \<and> (\<forall>i<64. large_ok h i (tree F i)) \<and> rest_ok h (rest F) \<and>
     set (rest F) \<inter> (small_blocks F \<union> large_blocks F) = {}"

text \<open>What the operations on the lists leave alone.\<close>

definition relinked :: "addr set \<Rightarrow> mm_heap \<Rightarrow> mm_heap \<Rightarrow> bool" where
  "relinked A h h' \<longleftrightarrow> core h' = core h \<and> (\<forall>x. x \<notin> A \<longrightarrow> prev_free h' (Blk x) = prev_free h (Blk x))"

lemma relinked_refl: "relinked A h h"
  by (simp add: relinked_def)

lemma relinked_trans: "\<lbrakk>relinked A h h1; relinked B h1 h2; A \<subseteq> C; B \<subseteq> C\<rbrakk> \<Longrightarrow> relinked C h h2"
  unfolding relinked_def by (metis subsetD)

lemma framed_relinked: "framed A S h h' \<Longrightarrow> A \<subseteq> B \<Longrightarrow> relinked B h h'"
  unfolding framed_def relinked_def by (metis block_ptr.inject(1) imageE subsetD)

subsection \<open>Parts that stay as they are\<close>

lemma small_cong:
  assumes "\<And>x. x \<in> insert (Small_Bucket i) (Blk ` set xs) \<Longrightarrow> next_free h' x = next_free h x \<and> prev_free h' x = prev_free h x"
    "info_size h' = info_size h" "bit (free_bitmap h') i \<Longrightarrow> bit (free_bitmap h) i" "small_ok h i xs"
  shows "small_ok h' i xs"
  using assms ring_cong [of "Small_Bucket i" "map Blk xs" h' h] by (auto simp: small_ok_def sized_small_def)

lemma tree_cong:
  assumes "\<And>x. x \<in> set (trie_blocks t) \<Longrightarrow> next_free h' (Blk x) = next_free h (Blk x) \<and> prev_free h' (Blk x) = prev_free h (Blk x) \<and>
      block_parent h' x = block_parent h x \<and> (\<forall>c. block_child h' (x, c) = block_child h (x, c))"
    "slot_value sl h' = slot_value sl h"
  shows "tree_at h' sl t = tree_at h sl t"
  using assms
proof (induction t arbitrary: sl)
  case (Node a as l r)
  have "ring h' (Blk a) (map Blk as) = ring h (Blk a) (map Blk as)"
    using Node.prems(1) by (intro ring_cong) auto
  moreover have "tree_at h' (Child a False) l = tree_at h (Child a False) l" "tree_at h' (Child a True) r = tree_at h (Child a True) r"
    using Node.prems(1) by (intro Node.IH; simp)+
  ultimately show ?case using Node.prems by auto
qed simp

lemma large_cong:
  assumes "\<And>x. x \<in> set (trie_blocks t) \<Longrightarrow> next_free h' (Blk x) = next_free h (Blk x) \<and> prev_free h' (Blk x) = prev_free h (Blk x) \<and>
      block_parent h' x = block_parent h x \<and> (\<forall>c. block_child h' (x, c) = block_child h (x, c))"
    "large_free_buckets h' i = large_free_buckets h i" "info_size h' = info_size h"
    "bit (large_free_bitmap h') i = bit (large_free_bitmap h) i" "large_ok h i t"
  shows "large_ok h' i t"
  using assms tree_cong [of t h' h "Large_Bucket i"] by (auto simp: large_ok_def sized_large_def slot_value_def)

lemma rest_cong:
  assumes "\<And>x. x \<in> insert Rest_Bucket (Blk ` set xs) \<Longrightarrow> next_free h' x = next_free h x \<and> prev_free h' x = prev_free h x"
    "\<And>x. x \<in> set xs \<Longrightarrow> block_parent h' x = block_parent h x" "info_size h' = info_size h" "rest_count h' = rest_count h" "rest_ok h xs"
  shows "rest_ok h' xs"
  using assms ring_cong [of Rest_Bucket "map Blk xs" h' h] by (auto simp: rest_ok_def large_count_def)

lemma framed_small:
  assumes "framed A S h h'" "set xs \<inter> A = {}" "free_bitmap h' = free_bitmap h" "small_ok h i xs"
  shows "small_ok h' i xs"
  using assms framed_heads [OF assms(1)] framed_links [OF assms(1)]
  by (intro small_cong [OF _ framed_info [OF assms(1)] _ assms(4)]) auto

lemma framed_large:
  assumes "framed A S h h'" "set (trie_blocks t) \<inter> A = {}" "\<forall>x \<in> set (trie_blocks t). \<forall>c. Child x c \<notin> S" "Large_Bucket i \<notin> S"
    "bit (large_free_bitmap h') i = bit (large_free_bitmap h) i" "large_ok h i t" "i < 64"
  shows "large_ok h' i t"
proof -
  have "slot_value (Large_Bucket i) h' = slot_value (Large_Bucket i) h" using assms(1,4) by (auto simp: framed_def)
  then have "tree_at h' (Large_Bucket i) t" using assms(6) tree_frame [OF assms(1-3)] by (simp add: large_ok_def)
  then show ?thesis using assms(5,6) framed_info [OF assms(1)] by (simp add: large_ok_def sized_large_def)
qed

lemma framed_rest:
  assumes "framed A S h h'" "set xs \<inter> A = {}" "rest_count h' = rest_count h" "rest_ok h xs"
  shows "rest_ok h' xs"
proof (rule rest_cong [OF _ _ framed_info [OF assms(1)] assms(3,4)])
  fix x assume "x \<in> insert Rest_Bucket (Blk ` set xs)"
  then show "next_free h' x = next_free h x \<and> prev_free h' x = prev_free h x"
    using framed_heads [OF assms(1)] framed_links [OF assms(1)] assms(2) by auto
next
  fix x assume "x \<in> set xs"
  then show "block_parent h' x = block_parent h x" using framed_links [OF assms(1)] assms(2) by blast
qed

subsection \<open>Which list a block is on\<close>

lemma sized_small_index: "\<lbrakk>sized_small h i x; sized_small h j x\<rbrakk> \<Longrightarrow> i = j"
  by (auto simp: sized_small_def)

lemma sized_not_both: "sized_small h i x \<Longrightarrow> \<not> sized_large h x"
  by (auto simp: sized_small_def sized_large_def)

lemma large_index:
  assumes "large_ok h i t" "x \<in> set (trie_blocks t)"
  shows "i = zend_mm_high_bit (the (info_size h x))"
proof -
  obtain n where n: "info_size h x = Some n" "n div 2 ^ i = 1"
    using assms trie_ok_size [of "info_size h" i 1 t x] by (auto simp: large_ok_def)
  have "2 ^ i \<le> n" "n < 2 ^ Suc i"
  proof -
    show "2 ^ i \<le> n" using n(2) by (metis div_less less_one linorder_not_less zero_neq_one)
    have "n div 2 ^ i < 2" using n(2) by simp
    then show "n < 2 ^ Suc i" by (simp add: div_less_iff_less_mult)
  qed
  then show ?thesis using high_bit n(1) by simp
qed

lemma lists_sized:
  assumes "lists_ok h F"
  shows "\<lbrakk>x \<in> set (small F i); i < 64\<rbrakk> \<Longrightarrow> sized_small h i x"
    "\<lbrakk>x \<in> set (trie_blocks (tree F i)); i < 64\<rbrakk> \<Longrightarrow> sized_large h x"
    "x \<in> set (rest F) \<Longrightarrow> \<exists>n. info_size h x = Some n \<and> block_sized n"
  using assms unfolding lists_ok_def small_ok_def large_ok_def rest_ok_def by blast+

lemma small_disjoint:
  assumes "lists_ok h F" "i < 64" "j < 64" "i \<noteq> j"
  shows "set (small F i) \<inter> set (small F j) = {}"
  using lists_sized(1) [OF assms(1)] sized_small_index assms(2-) by blast

lemma large_disjoint:
  assumes "lists_ok h F" "i < 64" "j < 64" "i \<noteq> j"
  shows "set (trie_blocks (tree F i)) \<inter> set (trie_blocks (tree F j)) = {}"
proof -
  have "large_ok h i (tree F i)" "large_ok h j (tree F j)" using assms(1-3) by (simp_all add: lists_ok_def)
  then show ?thesis using large_index assms(4) by blast
qed

lemma small_large_disjoint:
  assumes "lists_ok h F"
  shows "small_blocks F \<inter> large_blocks F = {}"
  using lists_sized(1,2) [OF assms] sized_not_both unfolding small_blocks_def large_blocks_def by blast

lemma free_sized:
  assumes "lists_ok h F" "b \<in> free_blocks F"
  shows "\<exists>n. info_size h b = Some n \<and> block_sized n"
proof -
  consider i where "b \<in> set (small F i)" "i < 64" | i where "b \<in> set (trie_blocks (tree F i))" "i < 64" | "b \<in> set (rest F)"
    using assms(2) unfolding free_blocks_def small_blocks_def large_blocks_def by blast
  then show ?thesis
    using lists_sized [OF assms(1)] unfolding sized_small_def sized_large_def by cases blast+
qed

lemma mem_small: "\<lbrakk>x \<in> set (small F i); i < 64\<rbrakk> \<Longrightarrow> x \<in> small_blocks F"
  by (auto simp: small_blocks_def)

lemma mem_large: "\<lbrakk>x \<in> set (trie_blocks (tree F i)); i < 64\<rbrakk> \<Longrightarrow> x \<in> large_blocks F"
  by (auto simp: large_blocks_def)

text \<open>One ring or trie is exchanged.\<close>

lemma small_blocks_upd: "i < 64 \<Longrightarrow> small_blocks (F\<lparr>small := (small F)(i := xs)\<rparr>) = set xs \<union> (\<Union>j\<in>{..<64} - {i}. set (small F j))"
  by (auto simp: small_blocks_def split: if_splits)

lemma large_blocks_upd:
  "i < 64 \<Longrightarrow> large_blocks (F\<lparr>tree := (tree F)(i := t)\<rparr>) = set (trie_blocks t) \<union> (\<Union>j\<in>{..<64} - {i}. set (trie_blocks (tree F j)))"
  by (auto simp: large_blocks_def split: if_splits)

lemma small_blocks_change:
  assumes "lists_ok h F" "i < 64"
  shows "set xs = insert b (set (small F i)) \<Longrightarrow> small_blocks (F\<lparr>small := (small F)(i := xs)\<rparr>) = insert b (small_blocks F)"
    "\<lbrakk>set xs = set (small F i) - {b}; b \<in> set (small F i)\<rbrakk> \<Longrightarrow> small_blocks (F\<lparr>small := (small F)(i := xs)\<rparr>) = small_blocks F - {b}"
proof -
  show "set xs = insert b (set (small F i)) \<Longrightarrow> small_blocks (F\<lparr>small := (small F)(i := xs)\<rparr>) = insert b (small_blocks F)"
    unfolding small_blocks_upd [OF assms(2)] using assms(2) by (auto simp: small_blocks_def)
  assume a: "set xs = set (small F i) - {b}" "b \<in> set (small F i)"
  have "b \<notin> set (small F j)" if "j < 64" "j \<noteq> i" for j using small_disjoint [OF assms(1), of i j] assms(2) that a(2) by blast
  then show "small_blocks (F\<lparr>small := (small F)(i := xs)\<rparr>) = small_blocks F - {b}"
    unfolding small_blocks_upd [OF assms(2)] using assms(2) a(1) by (fastforce simp: small_blocks_def)
qed

lemma large_blocks_change:
  assumes "lists_ok h F" "i < 64"
  shows "set (trie_blocks t) = insert b (set (trie_blocks (tree F i))) \<Longrightarrow>
      large_blocks (F\<lparr>tree := (tree F)(i := t)\<rparr>) = insert b (large_blocks F)"
    "\<lbrakk>set (trie_blocks t) = set (trie_blocks (tree F i)) - {b}; b \<in> set (trie_blocks (tree F i))\<rbrakk> \<Longrightarrow>
      large_blocks (F\<lparr>tree := (tree F)(i := t)\<rparr>) = large_blocks F - {b}"
proof -
  show "set (trie_blocks t) = insert b (set (trie_blocks (tree F i))) \<Longrightarrow>
      large_blocks (F\<lparr>tree := (tree F)(i := t)\<rparr>) = insert b (large_blocks F)"
    unfolding large_blocks_upd [OF assms(2)] using assms(2) by (auto simp: large_blocks_def)
  assume a: "set (trie_blocks t) = set (trie_blocks (tree F i)) - {b}" "b \<in> set (trie_blocks (tree F i))"
  have "b \<notin> set (trie_blocks (tree F j))" if "j < 64" "j \<noteq> i" for j
    using large_disjoint [OF assms(1), of i j] assms(2) that a(2) by blast
  then show "large_blocks (F\<lparr>tree := (tree F)(i := t)\<rparr>) = large_blocks F - {b}"
    unfolding large_blocks_upd [OF assms(2)] using assms(2) a(1) by (fastforce simp: large_blocks_def)
qed

lemma other_blocks [simp]:
  "small_blocks (F\<lparr>tree := f\<rparr>) = small_blocks F" "small_blocks (F\<lparr>rest := xs\<rparr>) = small_blocks F"
  "large_blocks (F\<lparr>small := g\<rparr>) = large_blocks F" "large_blocks (F\<lparr>rest := xs\<rparr>) = large_blocks F"
  by (simp_all add: small_blocks_def large_blocks_def)

text \<open>The trie of one bucket changes, and nothing else.\<close>

lemma change_tree:
  assumes "lists_ok h F" "i < 64" "framed A S h h'" "A \<inter> (small_blocks F \<union> set (rest F)) = {}"
    "\<And>j. j < 64 \<Longrightarrow> j \<noteq> i \<Longrightarrow> A \<inter> set (trie_blocks (tree F j)) = {}" "S \<subseteq> {Large_Bucket i} \<union> {Child x c | x c. x \<in> A}"
    "free_bitmap h' = free_bitmap h" "rest_count h' = rest_count h"
    "\<And>j. j \<noteq> i \<Longrightarrow> bit (large_free_bitmap h') j = bit (large_free_bitmap h) j"
    "large_ok h' i t" "set (trie_blocks t) \<subseteq> A"
  shows "lists_ok h' (F\<lparr>tree := (tree F)(i := t)\<rparr>)"
proof -
  have s: "small_ok h' j (small F j)" if "j < 64" for j
    using assms(1,4,7) that by (intro framed_small [OF assms(3)]) (auto simp: lists_ok_def small_blocks_def)
  have l: "large_ok h' j (tree F j)" if "j < 64" "j \<noteq> i" for j
    using assms(1,5,6,9) that by (intro framed_large [OF assms(3)]) (fastforce simp: lists_ok_def)+
  have r: "rest_ok h' (rest F)"
    using assms(1,4,8) by (intro framed_rest [OF assms(3)]) (auto simp: lists_ok_def)
  have "set (rest F) \<inter> large_blocks (F\<lparr>tree := (tree F)(i := t)\<rparr>) = {}"
    unfolding large_blocks_upd [OF assms(2)] using assms(1,4,11) by (auto simp: lists_ok_def large_blocks_def)
  then show ?thesis using s l r assms(1,10) by (auto simp: lists_ok_def)
qed

text \<open>One small ring changes, or the ring of rest blocks.\<close>

lemma change_small:
  assumes "lists_ok h F" "i < 64" "core h' = core h"
    "\<And>x. x \<notin> insert (Small_Bucket i) (Blk ` A) \<Longrightarrow> next_free h' x = next_free h x \<and> prev_free h' x = prev_free h x"
    "block_parent h' = block_parent h" "block_child h' = block_child h" "large_free_buckets h' = large_free_buckets h"
    "large_free_bitmap h' = large_free_bitmap h" "rest_count h' = rest_count h"
    "\<And>j. j \<noteq> i \<Longrightarrow> bit (free_bitmap h') j \<Longrightarrow> bit (free_bitmap h) j" "small_ok h' i xs" "set xs \<subseteq> A"
    "A \<inter> (large_blocks F \<union> set (rest F)) = {}" "\<And>j. j < 64 \<Longrightarrow> j \<noteq> i \<Longrightarrow> A \<inter> set (small F j) = {}"
  shows "lists_ok h' (F\<lparr>small := (small F)(i := xs)\<rparr>)"
proof -
  note info = core_fields(1) [OF assms(3)]
  have s: "small_ok h' j (small F j)" if "j < 64" "j \<noteq> i" for j
  proof (rule small_cong [OF _ info])
    fix x assume "x \<in> insert (Small_Bucket j) (Blk ` set (small F j))"
    then have "x \<notin> insert (Small_Bucket i) (Blk ` A)" using assms(14) [OF that] that(2) by blast
    then show "next_free h' x = next_free h x \<and> prev_free h' x = prev_free h x" by (rule assms(4))
  qed (use assms(1) assms(10) [of j] that in \<open>simp_all add: lists_ok_def\<close>)
  have l: "large_ok h' j (tree F j)" if "j < 64" for j
  proof (rule large_cong [OF _ _ info])
    fix x assume "x \<in> set (trie_blocks (tree F j))"
    then have "x \<notin> A" using mem_large [OF _ that] assms(13) by blast
    then show "next_free h' (Blk x) = next_free h (Blk x) \<and> prev_free h' (Blk x) = prev_free h (Blk x) \<and>
        block_parent h' x = block_parent h x \<and> (\<forall>c. block_child h' (x, c) = block_child h (x, c))"
      using assms(4) [of "Blk x"] assms(5,6) by auto
  qed (use assms(1,7,8) that in \<open>simp_all add: lists_ok_def\<close>)
  have r: "rest_ok h' (rest F)"
    using assms(1,4,5,9,13) by (intro rest_cong [OF _ _ info]) (auto simp: lists_ok_def)
  have "set (rest F) \<inter> small_blocks (F\<lparr>small := (small F)(i := xs)\<rparr>) = {}"
    unfolding small_blocks_upd [OF assms(2)] using assms(1,12,13) by (auto simp: lists_ok_def small_blocks_def)
  then show ?thesis using s l r assms(1,11) by (auto simp: lists_ok_def)
qed

lemma change_rest:
  assumes "lists_ok h F" "core h' = core h"
    "\<And>x. x \<notin> insert Rest_Bucket (Blk ` A) \<Longrightarrow> next_free h' x = next_free h x \<and> prev_free h' x = prev_free h x"
    "\<And>x. x \<notin> A \<Longrightarrow> block_parent h' x = block_parent h x" "block_child h' = block_child h"
    "large_free_buckets h' = large_free_buckets h" "large_free_bitmap h' = large_free_bitmap h"
    "\<And>j. bit (free_bitmap h') j \<Longrightarrow> bit (free_bitmap h) j" "rest_ok h' xs" "set xs \<subseteq> A"
    "A \<inter> (small_blocks F \<union> large_blocks F) = {}"
  shows "lists_ok h' (F\<lparr>rest := xs\<rparr>)"
proof -
  note info = core_fields(1) [OF assms(2)]
  have s: "small_ok h' j (small F j)" if "j < 64" for j
  proof (rule small_cong [OF _ info assms(8)])
    fix x assume "x \<in> insert (Small_Bucket j) (Blk ` set (small F j))"
    then have "x \<notin> insert Rest_Bucket (Blk ` A)" using mem_small [OF _ that] assms(11) by blast
    then show "next_free h' x = next_free h x \<and> prev_free h' x = prev_free h x" by (rule assms(3))
  qed (use assms(1) that in \<open>simp_all add: lists_ok_def\<close>)
  have l: "large_ok h' j (tree F j)" if "j < 64" for j
  proof (rule large_cong [OF _ _ info])
    fix x assume "x \<in> set (trie_blocks (tree F j))"
    then have "x \<notin> A" using mem_large [OF _ that] assms(11) by blast
    then show "next_free h' (Blk x) = next_free h (Blk x) \<and> prev_free h' (Blk x) = prev_free h (Blk x) \<and>
        block_parent h' x = block_parent h x \<and> (\<forall>c. block_child h' (x, c) = block_child h (x, c))"
      using assms(3) [of "Blk x"] assms(4,5) by auto
  qed (use assms(1,6,7) that in \<open>simp_all add: lists_ok_def\<close>)
  show ?thesis using s l assms(9-11) by (auto simp: lists_ok_def)
qed

subsection \<open>Insertion\<close>

definition added :: "mm_heap \<Rightarrow> free_lists \<Rightarrow> addr \<Rightarrow> mm_heap \<Rightarrow> free_lists \<Rightarrow> bool" where
  "added h F b h' F' \<longleftrightarrow> lists_ok h' F' \<and> free_blocks F' = insert b (free_blocks F) \<and> rest F' = rest F \<and>
     rest_count h' = rest_count h \<and> relinked (insert b (free_blocks F)) h h'"

lemma add_small_ok:
  assumes "lists_ok h F" "info_size h b = Some n" "block_sized n" "n < 544" "b \<notin> free_blocks F"
  shows "\<exists>h' F'. zend_mm_add_to_free_list b h = Some h' \<and> added h F b h' F'"
proof -
  define i where "i = ZEND_MM_BUCKET_INDEX n"
  have i: "i < 64" using assms(3,4) by (auto simp: i_def block_sized_def intro: bucket_index(2))
  let ?xs = "small F i"
  have so: "small_ok h i ?xs" using assms(1) i by (simp add: lists_ok_def)
  then have r: "ring h (Small_Bucket i) (map Blk ?xs)" by (simp add: small_ok_def)
  define nx where "nx = hd (map Blk ?xs @ [Small_Bucket i])"
  obtain pp where e: "prev_free h (Small_Bucket i) = Some pp" "next_free h (Small_Bucket i) = Some nx"
      "pp = last (Small_Bucket i # map Blk ?xs)"
    using ring_ends [OF r] by (simp add: nx_def)
  have pp: "pp = Small_Bucket i \<longleftrightarrow> ?xs = []" using e(3) by (cases ?xs rule: rev_cases) auto
  define g where "g = (if pp = Small_Bucket i then h\<lparr>free_bitmap := free_bitmap h OR push_bit i 1\<rparr> else h)"
  define h' where "h' = link_between (Small_Bucket i) (Blk b) nx g"
  have add: "zend_mm_add_to_free_list b h = Some h'"
    using assms(2,4) e(1,2) by (simp add: zend_mm_add_to_free_list_def Let_def g_def h'_def i_def [symmetric])
  have b: "b \<notin> small_blocks F" "b \<notin> large_blocks F" "b \<notin> set (rest F)" "b \<notin> set ?xs"
    using assms(5) mem_small [of b F i] i by (auto simp: free_blocks_def)
  have g: "next_free g = next_free h" "prev_free g = prev_free h" "core g = core h" by (simp_all add: g_def)
  have core: "core h' = core h" by (simp add: h'_def g(3))
  have nx: "nx \<in> insert (Small_Bucket i) (Blk ` set ?xs)" by (cases ?xs) (simp_all add: nx_def)
  have fr: "next_free h' x = next_free h x \<and> prev_free h' x = prev_free h x"
    if "x \<notin> insert (Small_Bucket i) (Blk ` insert b (set ?xs))" for x
    using that nx by (auto simp: h'_def g)
  have bits: "bit (free_bitmap h') j \<longleftrightarrow> bit (free_bitmap h) j \<or> j = i \<and> ?xs = []" for j
    using i pp by (auto simp: h'_def g_def bit_set_bitmap simp del: push_bit_of_1)
  have "ring g (Small_Bucket i) (map Blk ?xs)" using r ring_cong [of "Small_Bucket i" "map Blk ?xs" g h] g by simp
  then have "ring h' (Small_Bucket i) (map Blk (b # ?xs))"
    using b(4) ring_insert [of g "Small_Bucket i" "map Blk ?xs" "Blk b" nx] by (auto simp: h'_def nx_def)
  moreover have "sized_small h' i x" if "x \<in> set (b # ?xs)" for x
    using that so assms(2-4) core_fields(1) [OF core] by (auto simp: small_ok_def sized_small_def i_def)
  ultimately have so': "small_ok h' i (b # ?xs)" by (simp add: small_ok_def)
  have "lists_ok h' (F\<lparr>small := (small F)(i := b # ?xs)\<rparr>)"
  proof (rule change_small [OF assms(1) i core fr])
    show "insert b (set ?xs) \<inter> (large_blocks F \<union> set (rest F)) = {}"
      using b small_large_disjoint [OF assms(1)] mem_small [of _ F i] i assms(1) by (auto simp: lists_ok_def)
    show "insert b (set ?xs) \<inter> set (small F j) = {}" if "j < 64" "j \<noteq> i" for j
      using small_disjoint [OF assms(1) i that(1)] that b(1) mem_small [of b F j] by blast
  qed (use bits so' in \<open>auto simp: h'_def g_def\<close>)
  moreover have "small_blocks (F\<lparr>small := (small F)(i := b # ?xs)\<rparr>) = insert b (small_blocks F)"
    by (rule small_blocks_change(1) [OF assms(1) i]) simp
  moreover have "relinked (insert b (free_blocks F)) h h'"
    using core fr mem_small [OF _ i] by (fastforce simp: relinked_def free_blocks_def)
  ultimately have "added h F b h' (F\<lparr>small := (small F)(i := b # ?xs)\<rparr>)"
    by (simp add: added_def free_blocks_def h'_def g_def)
  then show ?thesis using add by blast
qed

lemma clear_children:
  fixes b :: addr and h :: mm_heap
  defines "h1 \<equiv> set_slot (Child b True) None (set_slot (Child b False) None h)"
  shows "framed {b} {} h h1" "block_child h1 (b, c) = Some None" "free_bitmap h1 = free_bitmap h"
    "large_free_bitmap h1 = large_free_bitmap h" "rest_count h1 = rest_count h" "large_free_buckets h1 = large_free_buckets h"
  unfolding h1_def by (cases c; auto simp: framed_def set_slot_def slot_value_def core_def split: slot.split)+

lemma framed_bitmap: "framed A S h h' \<Longrightarrow> framed A S h (h'\<lparr>large_free_bitmap := w\<rparr>)"
  by (simp add: framed_def)

lemma add_large_ok:
  assumes "lists_ok h F" "info_size h b = Some n" "block_sized n" "544 \<le> n" "b \<notin> free_blocks F"
  shows "\<exists>h' F'. zend_mm_add_to_free_list b h = Some h' \<and> added h F b h' F'"
proof -
  define i where "i = zend_mm_high_bit n"
  have i: "i < 64" "0 < n" and n1: "n div 2 ^ i = 1"
    using assms(3,4) large_high_bit [of n] high_bit_div [of n] by (auto simp: i_def block_sized_def)
  let ?t = "tree F i" and ?sl = "Large_Bucket i"
  let ?A = "insert b (set (trie_blocks ?t))"
  have lo: "large_ok h i ?t" using assms(1) i by (simp add: lists_ok_def)
  have b: "b \<notin> small_blocks F" "b \<notin> large_blocks F" "b \<notin> set (rest F)" "b \<notin> set (trie_blocks ?t)"
    using assms(5) mem_large [of b F i] i by (auto simp: free_blocks_def)
  define h1 where "h1 = set_slot (Child b True) None (set_slot (Child b False) None h)"
  note c1 = clear_children [of b h, folded h1_def]
  have t1: "tree_at h1 ?sl ?t"
    using lo tree_frame [OF c1(1), of ?t ?sl] b(4) c1(6) by (simp add: large_ok_def slot_value_def)
  have sv: "slot_value ?sl h1 = Some (large_free_buckets h i)" using i c1(6) by (simp add: slot_value_def)
  have info1: "info_size h1 = info_size h" by (rule framed_info [OF c1(1)])
  have "\<exists>h' t'. zend_mm_add_to_free_list b h = Some h' \<and> tree_at h' ?sl t' \<and> t' \<noteq> Leaf \<and> trie_ok (info_size h) i 1 t' \<and>
      set (trie_blocks t') = ?A \<and> distinct (trie_blocks t') \<and> framed ?A {?sl} h h' \<and> free_bitmap h' = free_bitmap h \<and>
      (\<forall>j. bit (large_free_bitmap h') j \<longleftrightarrow> bit (large_free_bitmap h) j \<or> j = i) \<and> rest_count h' = rest_count h"
  proof (cases ?t)
    case Leaf
    let ?h' = "plant b ?sl h1"
    have v: "large_free_buckets h i = None" using t1 Leaf sv by simp
    have p: "tree_at ?h' ?sl (Node b [] Leaf Leaf)" "framed {b} {?sl} h1 ?h'"
      using plant_ok [of ?sl h1 b] sv c1(2) by simp_all
    let ?g = "?h'\<lparr>large_free_bitmap := large_free_bitmap ?h' OR push_bit i 1\<rparr>"
    have "framed ({b} \<union> {b}) ({} \<union> {?sl}) h ?g" by (rule framed_bitmap [OF framed_trans [OF c1(1) p(2)]])
    moreover have "tree_at ?g ?sl (Node b [] Leaf Leaf)"
      using p(1) tree_cong [of "Node b [] Leaf Leaf" ?g ?h' ?sl] by simp
    moreover have "zend_mm_add_to_free_list b h = Some ?g"
      using assms(2,4) sv v
      by (simp add: zend_mm_add_to_free_list_def Let_def i_def [symmetric] h1_def [symmetric] plant_def)
    moreover have "trie_ok (info_size h) i 1 (Node b [] Leaf Leaf)"
      using assms(2) n1 by (simp split: nat.split)
    moreover have "rest_count ?g = rest_count h" "free_bitmap ?g = free_bitmap h"
      "large_free_bitmap ?h' = large_free_bitmap h" using c1 by (simp_all add: plant_def)
    ultimately show ?thesis using Leaf i
      by (intro exI [of _ ?g] exI [of _ "Node b [] Leaf Leaf"]) (simp add: bit_set_bitmap del: push_bit_of_1; blast)
  next
    case (Node a as l r)
    then have v: "large_free_buckets h i \<noteq> None" and tn: "?t \<noteq> Leaf" using t1 sv by auto
    have k: "bit (push_bit (64 - i) (of_nat n) :: ulong) (63 - j) = bit n (i - 1 - j)" if "j < i" for j
    proof -
      have "63 - j - (64 - i) = i - 1 - j" "64 - i \<le> 63 - j" "63 - j < 64" "i - 1 - j < 64" using that i by auto
      then show ?thesis by (simp add: bit_simps bit_push_bit_iff bit_of_nat_iff)
    qed
    obtain h' t' where a: "add_to_tree b n (push_bit (64 - i) (of_nat n)) ?sl h1 = Some h'" "tree_at h' ?sl t'" "t' \<noteq> Leaf"
        "trie_ok (info_size h1) i 1 t'" "set (trie_blocks t') = ?A" "distinct (trie_blocks t')" "framed ?A {} h1 h'"
        "free_bitmap h' = free_bitmap h1" "large_free_bitmap h' = large_free_bitmap h1" "rest_count h' = rest_count h1"
      using add_to_tree_ok [of h1 ?sl ?t i 1 b n "push_bit (64 - i) (of_nat n)"] t1 tn lo assms(2) n1 i(1) b(4) k c1(2) info1
      by (auto simp: large_ok_def)
    have "framed ?A {?sl} h h'" by (rule framed_mono [OF framed_trans [OF c1(1) a(7)]]) auto
    moreover have "zend_mm_add_to_free_list b h = Some h'"
      using assms(2,4) sv v a(1)
      by (auto simp: zend_mm_add_to_free_list_def Let_def i_def [symmetric] h1_def [symmetric])
    moreover have "bit (large_free_bitmap h) i" using lo tn by (simp add: large_ok_def)
    ultimately show ?thesis using a c1 info1 by (intro exI [of _ h'] exI [of _ t']) (simp; blast)
  qed
  then obtain h' t' where a: "zend_mm_add_to_free_list b h = Some h'" "tree_at h' ?sl t'" "t' \<noteq> Leaf" "trie_ok (info_size h) i 1 t'"
      "set (trie_blocks t') = ?A" "distinct (trie_blocks t')" "framed ?A {?sl} h h'" "free_bitmap h' = free_bitmap h"
      "\<forall>j. bit (large_free_bitmap h') j \<longleftrightarrow> bit (large_free_bitmap h) j \<or> j = i" "rest_count h' = rest_count h"
    by (elim exE conjE) (rule that; assumption)
  note info = framed_info [OF a(7)]
  have lo': "large_ok h' i t'"
    using a info lo assms(2-4) by (auto simp: large_ok_def sized_large_def)
  have "lists_ok h' (F\<lparr>tree := (tree F)(i := t')\<rparr>)"
  proof (rule change_tree [OF assms(1) i(1) a(7) _ _ _ a(8,10) _ lo'])
    show "?A \<inter> (small_blocks F \<union> set (rest F)) = {}"
      using b small_large_disjoint [OF assms(1)] mem_large [of _ F i] i assms(1) by (auto simp: lists_ok_def)
    show "?A \<inter> set (trie_blocks (tree F j)) = {}" if "j < 64" "j \<noteq> i" for j
      using large_disjoint [OF assms(1) i(1) that(1)] that b(2) mem_large [of b F j] by blast
  qed (use a in auto)
  moreover have "large_blocks (F\<lparr>tree := (tree F)(i := t')\<rparr>) = insert b (large_blocks F)"
    by (rule large_blocks_change(1) [OF assms(1) i(1) a(5)])
  moreover have "relinked (insert b (free_blocks F)) h h'"
    by (rule framed_relinked [OF a(7)]) (use mem_large [OF _ i(1)] in \<open>auto simp: free_blocks_def\<close>)
  ultimately have "added h F b h' (F\<lparr>tree := (tree F)(i := t')\<rparr>)" using a(10) by (simp add: added_def free_blocks_def)
  then show ?thesis using a(1) by blast
qed

lemma add_free_ok:
  assumes "lists_ok h F" "info_size h b = Some n" "block_sized n" "b \<notin> free_blocks F"
  shows "\<exists>h' F'. zend_mm_add_to_free_list b h = Some h' \<and> added h F b h' F'"
  using add_small_ok [OF assms(1-3) _ assms(4)] add_large_ok [OF assms(1-3) _ assms(4)] by (cases "n < 544") auto

subsection \<open>Removal\<close>

definition removed :: "mm_heap \<Rightarrow> free_lists \<Rightarrow> addr \<Rightarrow> mm_heap \<Rightarrow> free_lists \<Rightarrow> bool" where
  "removed h F b h' F' \<longleftrightarrow> lists_ok h' F' \<and> free_blocks F' = free_blocks F - {b} \<and> set (rest F') = set (rest F) - {b} \<and>
     relinked (free_blocks F) h h'"

lemma ring_neighbours:
  assumes "ring h a (map Blk (xs @ b # ys))" "\<forall>x. a \<noteq> Blk x"
  defines "p \<equiv> last (a # map Blk xs)" and "n \<equiv> hd (map Blk ys @ [a])"
  shows "prev_free h (Blk b) = Some p" "next_free h (Blk b) = Some n" "next_free h p = Some (Blk b)" "prev_free h n = Some (Blk b)"
    "p \<noteq> Blk b" "ring (unlink p n h) a (map Blk (xs @ ys))" "p = n \<longleftrightarrow> xs @ ys = []"
    "p \<in> insert a (Blk ` set (xs @ ys))" "n \<in> insert a (Blk ` set (xs @ ys))"
proof -
  have r: "ring h a (map Blk xs @ Blk b # map Blk ys)" using assms(1) by simp
  note rr = ring_remove [OF r, folded p_def n_def]
  show "prev_free h (Blk b) = Some p" "next_free h (Blk b) = Some n" "next_free h p = Some (Blk b)" "prev_free h n = Some (Blk b)"
    "p \<noteq> Blk b" "ring (unlink p n h) a (map Blk (xs @ ys))" using rr by simp_all
  have d: "set xs \<inter> set ys = {}" using r unfolding ring_def by auto
  show "p = n \<longleftrightarrow> xs @ ys = []"
    using d assms(2) by (cases xs rule: rev_cases; cases ys) (auto simp: p_def n_def)
  show "p \<in> insert a (Blk ` set (xs @ ys))" "n \<in> insert a (Blk ` set (xs @ ys))"
    by (cases xs rule: rev_cases; simp add: p_def) (cases ys; simp add: n_def)
qed

lemma remove_small_ok:
  assumes "lists_ok h F" "b \<in> set (small F i)" "i < 64"
  shows "\<exists>h' F'. zend_mm_remove_from_free_list b h = Some h' \<and> removed h F b h' F'"
proof -
  have so: "small_ok h i (small F i)" using assms(1,3) by (simp add: lists_ok_def)
  obtain n where n: "info_size h b = Some n" "n < 544" "ZEND_MM_BUCKET_INDEX n = i"
    using lists_sized(1) [OF assms] by (auto simp: sized_small_def)
  obtain xs ys where sp: "small F i = xs @ b # ys" using assms(2) by (meson split_list)
  have r: "ring h (Small_Bucket i) (map Blk (xs @ b # ys))" using so sp by (simp add: small_ok_def)
  define p q where "p = last (Small_Bucket i # map Blk xs)" and "q = hd (map Blk ys @ [Small_Bucket i])"
  have nb: "\<forall>x. Small_Bucket i \<noteq> Blk x" by simp
  note rn = ring_neighbours [OF r nb, folded p_def q_def]
  have d: "distinct (xs @ b # ys)" using r by (auto simp: ring_def distinct_map)
  let ?h = "unlink p q h"
  define h' where "h' = (if p = q then ?h\<lparr>free_bitmap := free_bitmap h AND NOT (push_bit i 1)\<rparr> else ?h)"
  have rem: "zend_mm_remove_from_free_list b h = Some h'"
  proof (cases "p = q")
    case True
    then have "xs @ ys = []" using rn(7) by simp
    then show ?thesis using True n(2,3) ring_ends [OF rn(6)] remove_linked [OF rn(1,2,5,3,4) n(1)] by (simp add: h'_def)
  next
    case False
    then show ?thesis using n(2) remove_linked [OF rn(1,2,5,3,4) n(1)] by (simp add: h'_def)
  qed
  have core: "core h' = core h" by (simp add: h'_def)
  have fr: "next_free h' x = next_free h x \<and> prev_free h' x = prev_free h x"
    if "x \<notin> insert (Small_Bucket i) (Blk ` set (small F i))" for x
    using that rn(8,9) by (auto simp: h'_def sp)
  have bits: "bit (free_bitmap h') j \<longleftrightarrow> bit (free_bitmap h) j \<and> (xs @ ys = [] \<longrightarrow> j \<noteq> i)" for j
    using rn(7) by (auto simp: h'_def bit_clear_bitmap simp del: push_bit_of_1)
  have "ring h' (Small_Bucket i) (map Blk (xs @ ys))"
    using rn(6) ring_cong [of "Small_Bucket i" "map Blk (xs @ ys)" h' ?h] by (simp add: h'_def)
  moreover have "sized_small h' i x" if "x \<in> set (xs @ ys)" for x
    using that so core_fields(1) [OF core] by (auto simp: small_ok_def sized_small_def sp)
  ultimately have so': "small_ok h' i (xs @ ys)" using bits by (auto simp: small_ok_def)
  have "lists_ok h' (F\<lparr>small := (small F)(i := xs @ ys)\<rparr>)"
  proof (rule change_small [OF assms(1,3) core fr])
    show "set (small F i) \<inter> (large_blocks F \<union> set (rest F)) = {}"
      using small_large_disjoint [OF assms(1)] mem_small [of _ F i] assms(1,3) by (auto simp: lists_ok_def)
    show "set (small F i) \<inter> set (small F j) = {}" if "j < 64" "j \<noteq> i" for j
      using small_disjoint [OF assms(1,3) that(1)] that by blast
  qed (use bits so' in \<open>auto simp: h'_def sp\<close>)
  moreover have "small_blocks (F\<lparr>small := (small F)(i := xs @ ys)\<rparr>) = small_blocks F - {b}"
    by (rule small_blocks_change(2) [OF assms(1,3) _ assms(2)]) (use d sp in auto)
  moreover have "b \<notin> large_blocks F" "b \<notin> set (rest F)"
    using small_large_disjoint [OF assms(1)] mem_small [OF assms(2,3)] assms(1) by (auto simp: lists_ok_def)
  moreover have "relinked (free_blocks F) h h'"
    using core fr mem_small [OF _ assms(3)] by (fastforce simp: relinked_def free_blocks_def)
  ultimately have "removed h F b h' (F\<lparr>small := (small F)(i := xs @ ys)\<rparr>)"
    by (auto simp: removed_def free_blocks_def)
  then show ?thesis using rem by blast
qed

lemma remove_large_ok:
  assumes "lists_ok h F" "b \<in> set (trie_blocks (tree F i))" "i < 64"
  shows "\<exists>h' F'. zend_mm_remove_from_free_list b h = Some h' \<and> removed h F b h' F'"
proof -
  let ?t = "tree F i" and ?sl = "Large_Bucket i"
  have lo: "large_ok h i ?t" using assms(1,3) by (simp add: lists_ok_def)
  obtain n where n: "info_size h b = Some n" "544 \<le> n"
    using lists_sized(2) [OF assms] by (auto simp: sized_large_def)
  have i: "zend_mm_high_bit n = i" using large_index [OF lo assms(2)] n(1) by simp
  obtain h' t' where "pruned h ?sl i 1 ?t b h' t'"
    using remove_tree_ok [of h ?sl ?t i 1 b] lo assms(2) n by (auto simp: large_ok_def)
  then have a: "zend_mm_remove_from_free_list b h = Some h'" "tree_at h' ?sl t'" "trie_ok (info_size h) i 1 t'"
     "set (trie_blocks t') = set (trie_blocks ?t) - {b}" "distinct (trie_blocks t')" "framed (set (trie_blocks ?t)) {?sl} h h'"
     "free_bitmap h' = free_bitmap h" "rest_count h' = rest_count h"
     "large_free_bitmap h' = (if t' = Leaf then large_free_bitmap h AND NOT (push_bit i 1) else large_free_bitmap h)"
    using n(1) i by (simp_all add: pruned_def)
  note info = framed_info [OF a(6)]
  have tn: "?t \<noteq> Leaf" using assms(2) by auto
  have bits: "bit (large_free_bitmap h') j \<longleftrightarrow> bit (large_free_bitmap h) j \<and> (t' = Leaf \<longrightarrow> j \<noteq> i)" for j
    using a(9) by (auto simp: bit_clear_bitmap simp del: push_bit_of_1)
  have lo': "large_ok h' i t'"
    using a info lo bits tn by (auto simp: large_ok_def sized_large_def)
  have "lists_ok h' (F\<lparr>tree := (tree F)(i := t')\<rparr>)"
  proof (rule change_tree [OF assms(1,3) a(6) _ _ _ a(7,8) _ lo'])
    show "set (trie_blocks ?t) \<inter> (small_blocks F \<union> set (rest F)) = {}"
      using small_large_disjoint [OF assms(1)] mem_large [of _ F i] assms(1,3) by (auto simp: lists_ok_def)
    show "set (trie_blocks ?t) \<inter> set (trie_blocks (tree F j)) = {}" if "j < 64" "j \<noteq> i" for j
      using large_disjoint [OF assms(1,3) that(1)] that by blast
  qed (use a(4) bits in auto)
  moreover have "large_blocks (F\<lparr>tree := (tree F)(i := t')\<rparr>) = large_blocks F - {b}"
    by (rule large_blocks_change(2) [OF assms(1,3) a(4) assms(2)])
  moreover have "b \<notin> small_blocks F" "b \<notin> set (rest F)"
    using small_large_disjoint [OF assms(1)] mem_large [OF assms(2,3)] assms(1) by (auto simp: lists_ok_def)
  moreover have "relinked (free_blocks F) h h'"
    by (rule framed_relinked [OF a(6)]) (use mem_large [OF _ assms(3)] in \<open>auto simp: free_blocks_def\<close>)
  ultimately have "removed h F b h' (F\<lparr>tree := (tree F)(i := t')\<rparr>)" by (auto simp: removed_def free_blocks_def)
  then show ?thesis using a(1) by blast
qed

text \<open>Taking a block out of the ring of rest blocks.\<close>

definition uncount :: "nat \<Rightarrow> mm_heap \<Rightarrow> mm_heap" where
  "uncount n h = (if 544 \<le> n then h\<lparr>rest_count := rest_count h - 1\<rparr> else h)"

lemma uncount_simps [simp]:
  "next_free (uncount n h) = next_free h" "prev_free (uncount n h) = prev_free h" "core (uncount n h) = core h"
  "block_parent (uncount n h) = block_parent h" "block_child (uncount n h) = block_child h"
  "large_free_buckets (uncount n h) = large_free_buckets h" "large_free_bitmap (uncount n h) = large_free_bitmap h"
  "free_bitmap (uncount n h) = free_bitmap h" "info_size (uncount n h) = info_size h"
  by (simp_all add: uncount_def)

lemma take_rest:
  assumes "lists_ok h F" "rest F = xs @ b # ys" "info_size h b = Some n"
  defines "p \<equiv> last (Rest_Bucket # map Blk xs)" and "q \<equiv> hd (map Blk ys @ [Rest_Bucket])"
  shows "lists_ok (uncount n (unlink p q h)) (F\<lparr>rest := xs @ ys\<rparr>)" (is "lists_ok ?g _")
    "relinked (free_blocks F) h (uncount n (unlink p q h))" "free_blocks (F\<lparr>rest := xs @ ys\<rparr>) = free_blocks F - {b}"
proof -
  have ro: "rest_ok h (xs @ b # ys)" using assms(1,2) by (simp add: lists_ok_def)
  then have r: "ring h Rest_Bucket (map Blk (xs @ b # ys))" by (simp add: rest_ok_def)
  have "\<forall>x. Rest_Bucket \<noteq> Blk x" by simp
  note rn = ring_neighbours [OF r this, folded p_def q_def]
  have d: "distinct (xs @ b # ys)" using r by (auto simp: ring_def distinct_map)
  have core: "core ?g = core h" by simp
  have fr: "next_free ?g x = next_free h x \<and> prev_free ?g x = prev_free h x"
    if "x \<notin> insert Rest_Bucket (Blk ` set (rest F))" for x
    using that rn(8,9) by (auto simp: assms(2))
  have "ring ?g Rest_Bucket (map Blk (xs @ ys))"
    using rn(6) ring_cong [of Rest_Bucket "map Blk (xs @ ys)" ?g "unlink p q h"] by simp
  moreover have "rest_count ?g = large_count ?g (xs @ ys)"
    using ro assms(3) by (auto simp: rest_ok_def large_count_def uncount_def unlink_def set_prev_free_def set_next_free_def)
  ultimately have ro': "rest_ok ?g (xs @ ys)" using ro by (simp add: rest_ok_def unlink_def set_prev_free_def set_next_free_def)
  show "lists_ok ?g (F\<lparr>rest := xs @ ys\<rparr>)"
    by (rule change_rest [where A = "set (rest F)", OF assms(1) core fr]) (use ro' assms(1,2) in \<open>simp_all add: lists_ok_def, auto\<close>)
  show "relinked (free_blocks F) h ?g" using core fr by (fastforce simp: relinked_def free_blocks_def)
  have "b \<notin> small_blocks F" "b \<notin> large_blocks F" using assms(1,2) by (auto simp: lists_ok_def)
  then show "free_blocks (F\<lparr>rest := xs @ ys\<rparr>) = free_blocks F - {b}"
    using d assms(2) by (auto simp: free_blocks_def)
qed

lemma fewer_bits:
  assumes "lists_ok h F" "\<And>j. bit w j \<Longrightarrow> bit (free_bitmap h) j"
  shows "lists_ok (h\<lparr>free_bitmap := w\<rparr>) F"
  using change_rest [of h F "h\<lparr>free_bitmap := w\<rparr>" "set (rest F)" "rest F"] assms rest_cong [of "rest F" "h\<lparr>free_bitmap := w\<rparr>" h]
  by (auto simp: lists_ok_def core_def)

lemma remove_rest_ok:
  assumes "lists_ok h F" "b \<in> set (rest F)"
  shows "\<exists>h' F'. zend_mm_remove_from_free_list b h = Some h' \<and> removed h F b h' F'"
proof -
  obtain n where n: "info_size h b = Some n" "block_sized n" using lists_sized(3) [OF assms] by blast
  obtain xs ys where sp: "rest F = xs @ b # ys" using assms(2) by (meson split_list)
  define p q where "p = last (Rest_Bucket # map Blk xs)" and "q = hd (map Blk ys @ [Rest_Bucket])"
  have ro: "rest_ok h (xs @ b # ys)" using assms(1) sp by (simp add: lists_ok_def)
  then have r: "ring h Rest_Bucket (map Blk (xs @ b # ys))" by (simp add: rest_ok_def)
  have nb: "\<forall>x. Rest_Bucket \<noteq> Blk x" by simp
  note rn = ring_neighbours [OF r nb, folded p_def q_def]
  note rem = remove_linked [OF rn(1,2,5,3,4) n(1)]
  note tr = take_rest [OF assms(1) sp n(1), folded p_def q_def]
  let ?F = "F\<lparr>rest := xs @ ys\<rparr>" and ?g = "uncount n (unlink p q h)"
  have dn: "removed h F b ?g ?F"
    using tr ro sp by (auto simp: removed_def rest_ok_def ring_def distinct_map)
  show ?thesis
  proof (cases "n < 544")
    case True
    let ?i = "ZEND_MM_BUCKET_INDEX n"
    have i: "?i < 64" using n(2) True by (auto simp: block_sized_def intro: bucket_index(2))
    have "small_ok ?g ?i (small F ?i)" using tr(1) i by (simp add: lists_ok_def)
    then obtain x y where xy: "prev_free (unlink p q h) (Small_Bucket ?i) = Some x" "next_free (unlink p q h) (Small_Bucket ?i) = Some y"
      using ring_ends [of ?g "Small_Bucket ?i"] by (fastforce simp: small_ok_def)
    have g: "?g = unlink p q h" using True by (simp add: uncount_def)
    let ?k = "?g\<lparr>free_bitmap := free_bitmap ?g AND NOT (push_bit ?i 1)\<rparr>"
    have "lists_ok ?k ?F"
      by (rule fewer_bits [OF tr(1)]) (simp add: bit_clear_bitmap del: push_bit_of_1)
    then have "removed h F b ?k ?F" using dn by (simp add: removed_def relinked_def)
    then show ?thesis using rem True xy dn g by (cases "p = q"; cases "x = y") auto
  next
    case False
    then have "block_parent h b = Some REST_BLOCK" using ro n(1) by (auto simp: rest_ok_def)
    moreover have "rest_count (unlink p q h) = rest_count h" by (simp add: unlink_def set_prev_free_def set_next_free_def)
    ultimately show ?thesis using rem False dn by (auto simp: uncount_def)
  qed
qed

lemma remove_free_ok:
  assumes "lists_ok h F" "b \<in> free_blocks F"
  shows "\<exists>h' F'. zend_mm_remove_from_free_list b h = Some h' \<and> removed h F b h' F'"
proof -
  consider i where "b \<in> set (small F i)" "i < 64" | i where "b \<in> set (trie_blocks (tree F i))" "i < 64" | "b \<in> set (rest F)"
    using assms(2) unfolding free_blocks_def small_blocks_def large_blocks_def by blast
  then show ?thesis
    using remove_small_ok [OF assms(1)] remove_large_ok [OF assms(1)] remove_rest_ok [OF assms(1)] by cases blast+
qed

end
