(* ===== verification/ZendAllocSearch.thy ===== *)
theory ZendAllocSearch
  imports ZendAllocFree
begin

text \<open>
  The rest blocks, the empty lists, and the searches: what a search finds is a free block that is big enough, and
  a large block of exactly the size asked for is always found.
\<close>

definition relists :: "addr set \<Rightarrow> mm_heap \<Rightarrow> free_lists \<Rightarrow> mm_heap \<Rightarrow> free_lists \<Rightarrow> bool" where
  "relists X h F h' F' \<longleftrightarrow> lists_ok h' F' \<and> free_blocks F' = X \<and> relinked (free_blocks F \<union> X) h h'"

lemma added_relists: "added h F b h' F' \<Longrightarrow> relists (insert b (free_blocks F)) h F h' F'"
  by (simp add: added_def relists_def relinked_def)

lemma removed_relists: "removed h F b h' F' \<Longrightarrow> relists (free_blocks F - {b}) h F h' F'"
  unfolding removed_def relists_def by (metis Diff_subset sup.absorb1)

lemma relists_core: "relists X h F h' F' \<Longrightarrow> core h' = core h"
  by (simp add: relists_def relinked_def)

lemma relists_trans:
  "\<lbrakk>relists X h F h1 F1; relists Y h1 F1 h2 F2; X \<subseteq> free_blocks F \<union> Y\<rbrakk> \<Longrightarrow> relists Y h F h2 F2"
  unfolding relists_def using relinked_trans [of "free_blocks F \<union> X" h h1 "free_blocks F1 \<union> Y" h2 "free_blocks F \<union> Y"] by auto

subsection \<open>Rest blocks\<close>

lemma ring_last: "ring h a xs \<Longrightarrow> next_free h (last (a # xs)) = Some a"
  by (cases xs rule: rev_cases) (auto simp: ring_def linked_append)

lemma flush_rest_ok:
  "lists_ok h F \<Longrightarrow> \<exists>h' F'. flush_rest h = Some h' \<and> relists (free_blocks F) h F h' F'"
proof (induction "length (rest F)" arbitrary: h F)
  case 0
  then have "rest_count h = 0" by (simp add: lists_ok_def rest_ok_def large_count_def)
  then have "flush_rest h = Some h" by (subst flush_rest.simps) simp
  then show ?case using 0 by (auto simp: relists_def relinked_refl)
next
  case (Suc k)
  then obtain b ys where sp: "rest F = b # ys" by (cases "rest F") auto
  show ?case
  proof (cases "rest_count h \<ge> 16")
    case False
    then have "flush_rest h = Some h" by (subst flush_rest.simps) simp
    then show ?thesis using Suc.prems by (auto simp: relists_def relinked_refl)
  next
    case True
    obtain n where n: "info_size h b = Some n" "block_sized n" using lists_sized(3) [OF Suc.prems, of b] sp by auto
    let ?q = "hd (map Blk ys @ [Rest_Bucket])"
    have r: "ring h Rest_Bucket (map Blk ([] @ b # ys))" using Suc.prems sp by (simp add: lists_ok_def rest_ok_def)
    have nb: "\<forall>x. Rest_Bucket \<noteq> Blk x" by simp
    note rn = ring_neighbours [OF r nb]
    let ?g = "uncount n (unlink Rest_Bucket ?q h)"
    have sp': "rest F = [] @ b # ys" using sp by simp
    note tr = take_rest [OF Suc.prems sp' n(1), simplified]
    have bn: "b \<notin> free_blocks (F\<lparr>rest := ys\<rparr>)" using tr(3) by simp
    have ig: "info_size ?g b = Some n" using n(1) by simp
    obtain h1 F1 where a: "zend_mm_add_to_free_list b ?g = Some h1" "added ?g (F\<lparr>rest := ys\<rparr>) b h1 F1"
      using add_free_ok [OF tr(1) ig n(2) bn] by blast
    have bF: "b \<in> free_blocks F" using sp by (simp add: free_blocks_def)
    have r1: "relists (free_blocks F) h F h1 F1"
      using a(2) tr(2,3) bF relinked_trans [OF tr(2), of "free_blocks F" h1 "free_blocks F"]
      by (simp add: added_def relists_def insert_absorb)
    have "rest F1 = ys" using a(2) by (simp add: added_def)
    then obtain h' F' where f: "flush_rest h1 = Some h'" "relists (free_blocks F1) h1 F1 h' F'"
      using Suc.hyps(1) [of F1 h1] Suc.hyps(2) sp r1 by (auto simp: relists_def)
    have "relists (free_blocks F) h F h' F'"
      using r1 f(2) relists_trans [OF r1, of "free_blocks F" h' F'] by (simp add: relists_def)
    moreover have "set_prev_free ?q Rest_Bucket (set_next_free Rest_Bucket ?q (uncount n h)) = ?g"
      by (simp add: uncount_def unlink_def set_prev_free_def set_next_free_def)
    moreover have "next_free h Rest_Bucket = Some (Blk b)" using ring_ends [OF r] by simp
    ultimately have "flush_rest h = Some h' \<and> relists (free_blocks F) h F h' F'"
      using True n(1) rn(1,2) a(1) f(1)
      by (subst flush_rest.simps) (cases "n < 544"; simp add: block_of_def Let_def uncount_def)
    then show ?thesis by blast
  qed
qed

lemma add_rest_ok:
  assumes "lists_ok h F" "info_size h b = Some n" "block_sized n" "b \<notin> free_blocks F"
  shows "\<exists>h' F'. zend_mm_add_to_rest_list b h = Some h' \<and> relists (insert b (free_blocks F)) h F h' F'"
proof -
  obtain h1 F1 where f: "flush_rest h = Some h1" "relists (free_blocks F) h F h1 F1" using flush_rest_ok [OF assms(1)] by blast
  note info = core_fields(1) [OF relists_core [OF f(2)]]
  have n: "info_size h1 b = Some n" using assms(2) info by simp
  have l1: "lists_ok h1 F1" "free_blocks F1 = free_blocks F" using f(2) by (simp_all add: relists_def)
  then have ro: "rest_ok h1 (rest F1)" by (simp add: lists_ok_def)
  then have r: "ring h1 Rest_Bucket (map Blk (rest F1))" by (simp add: rest_ok_def)
  let ?p = "last (Rest_Bucket # map Blk (rest F1))"
  define h2 where "h2 = (if \<not> n < 544 then set_parent b REST_BLOCK h1\<lparr>rest_count := rest_count h1 + 1\<rparr> else h1)"
  define h' where "h' = link_between ?p (Blk b) Rest_Bucket h2"
  have h2l: "next_free h2 = next_free h1" "prev_free h2 = prev_free h1" by (simp_all add: h2_def set_parent_def)
  have e: "prev_free h2 Rest_Bucket = Some ?p" "next_free h2 ?p = Some Rest_Bucket"
    unfolding h2l using ring_ends [OF r] ring_last [OF r] by blast+
  have add: "zend_mm_add_to_rest_list b h = Some h'"
    unfolding zend_mm_add_to_rest_list_def h'_def
    by (simp only: f(1) n Option.bind.simps Let_def small_size h2_def [symmetric] e)
  have b: "b \<notin> set (rest F1)" "b \<notin> small_blocks F1" "b \<notin> large_blocks F1"
    using assms(4) l1(2) by (auto simp: free_blocks_def)
  have core: "core h' = core h1" by (simp add: h'_def h2_def)
  have p: "?p \<in> insert Rest_Bucket (Blk ` set (rest F1))" by (cases "rest F1" rule: rev_cases) simp_all
  have fr: "next_free h' x = next_free h1 x \<and> prev_free h' x = prev_free h1 x"
    if "x \<notin> insert Rest_Bucket (Blk ` insert b (set (rest F1)))" for x
    using that p by (auto simp: h'_def h2l)
  have "ring h2 Rest_Bucket (map Blk (rest F1))"
    using r ring_cong [of Rest_Bucket "map Blk (rest F1)" h2 h1] h2l by simp
  moreover have bl: "Blk b \<notin> insert Rest_Bucket (set (map Blk (rest F1)))" using b(1) by auto
  ultimately have r': "ring h' Rest_Bucket (map Blk (rest F1 @ [b]))"
    using ring_insert_last [of h2 Rest_Bucket "map Blk (rest F1)" "Blk b"] bl by (simp only: h'_def map_append list.map)
  have rc: "rest_count h' = rest_count h1 + (if n < 544 then 0 else 1)"
    by (simp add: h'_def h2_def link_between_def set_next_free_def set_prev_free_def)
  have bp: "block_parent h' x = (if x = b \<and> \<not> n < 544 then Some REST_BLOCK else block_parent h1 x)" for x
    by (simp add: h'_def h2_def)
  have fl: "block_child h' = block_child h1" "large_free_buckets h' = large_free_buckets h1"
    "large_free_bitmap h' = large_free_bitmap h1" "free_bitmap h' = free_bitmap h1"
    by (simp_all add: h'_def h2_def set_parent_def)
  have "rest_ok h' (rest F1 @ [b])"
    using r' ro n assms(3) b(1) core_fields(1) [OF core] rc bp by (auto simp: rest_ok_def large_count_def)
  then have "lists_ok h' (F1\<lparr>rest := rest F1 @ [b]\<rparr>)"
    using b l1(1) bp fl
    by (intro change_rest [where A = "insert b (set (rest F1))", OF l1(1) core fr]) (auto simp: lists_ok_def)
  moreover have "free_blocks (F1\<lparr>rest := rest F1 @ [b]\<rparr>) = insert b (free_blocks F)"
    using l1(2) by (auto simp: free_blocks_def)
  moreover have "relinked (insert b (free_blocks F1)) h1 h'" using core fr by (fastforce simp: relinked_def free_blocks_def)
  ultimately have "relists (insert b (free_blocks F)) h1 F1 h' (F1\<lparr>rest := rest F1 @ [b]\<rparr>)"
    using l1(2) by (simp add: relists_def)
  then have "relists (insert b (free_blocks F)) h F h' (F1\<lparr>rest := rest F1 @ [b]\<rparr>)"
    by (rule relists_trans [OF f(2)]) auto
  then show ?thesis using add by blast
qed

definition no_lists :: free_lists where
  "no_lists = \<lparr>small = (\<lambda>_. []), tree = (\<lambda>_. Leaf), rest = []\<rparr>"

lemma no_blocks [simp]: "free_blocks no_lists = {}"
  by (simp add: no_lists_def free_blocks_def small_blocks_def large_blocks_def)

lemma init_lists: "lists_ok (zend_mm_init h) no_lists"
  by (simp add: lists_ok_def no_lists_def zend_mm_init_def small_ok_def large_ok_def rest_ok_def large_count_def ring_def
      slot_value_def small_blocks_def large_blocks_def)

subsection \<open>Search in the tries\<close>

text \<open>A trie of the heap whose blocks belong to \<open>T\<close>, and a block that is a node of one.\<close>

definition subtrie :: "mm_heap \<Rightarrow> addr set \<Rightarrow> slot \<Rightarrow> trie \<Rightarrow> bool" where
  "subtrie h T sl t \<longleftrightarrow> tree_at h sl t \<and> (\<exists>k p. trie_ok (info_size h) k p t) \<and> set (trie_blocks t) \<subseteq> T"

definition node_of :: "mm_heap \<Rightarrow> addr set \<Rightarrow> addr \<Rightarrow> nat \<Rightarrow> bool" where
  "node_of h T x n \<longleftrightarrow> x \<in> T \<and> info_size h x = Some n \<and> (\<exists>y \<in> T. next_free h (Blk x) = Some (Blk y) \<and> info_size h y = Some n)"

lemma subtrie_node:
  assumes "subtrie h T sl (Node a as l r)"
  shows "subtrie h T (Child a False) l" "subtrie h T (Child a True) r" "slot_value sl h = Some (Some a)"
    "\<exists>n. node_of h T a n" "block_child h (a, False) = Some (case l of Leaf \<Rightarrow> None | Node x _ _ _ \<Rightarrow> Some x)"
    "block_child h (a, True) = Some (case r of Leaf \<Rightarrow> None | Node x _ _ _ \<Rightarrow> Some x)"
proof -
  obtain k p where t: "tree_at h sl (Node a as l r)" "trie_ok (info_size h) k p (Node a as l r)" "set (trie_blocks (Node a as l r)) \<subseteq> T"
    using assms by (auto simp: subtrie_def)
  have "(\<exists>k p. trie_ok (info_size h) k p l) \<and> (\<exists>k p. trie_ok (info_size h) k p r)"
    using t(2) by (cases k) (auto intro: exI [of _ 0])
  then show "subtrie h T (Child a False) l" "subtrie h T (Child a True) r"
    using t by (auto simp: subtrie_def)
  show "slot_value sl h = Some (Some a)" using t(1) by simp
  show "block_child h (a, False) = Some (case l of Leaf \<Rightarrow> None | Node x _ _ _ \<Rightarrow> Some x)"
    "block_child h (a, True) = Some (case r of Leaf \<Rightarrow> None | Node x _ _ _ \<Rightarrow> Some x)"
    using t(1) tree_slot [of h "Child a False" l] tree_slot [of h "Child a True" r] by simp_all
  obtain n where n: "info_size h a = Some n" "\<forall>x \<in> set as. info_size h x = Some n" using t(2) by auto
  have "next_free h (Blk a) = Some (hd (map Blk as @ [Blk a]))" using t(1) ring_ends by simp
  then show "\<exists>n. node_of h T a n" using n t(3) by (cases as) (auto simp: node_of_def)
qed

text \<open>The best block so far is none, or a node that is big enough.\<close>

definition fits :: "mm_heap \<Rightarrow> addr set \<Rightarrow> nat \<Rightarrow> addr option \<times> nat \<Rightarrow> bool" where
  "fits h T n best \<longleftrightarrow> (\<forall>x. fst best = Some x \<longrightarrow> (\<exists>s \<ge> n. node_of h T x s))"

lemma fits_pick: "\<lbrakk>fits h T n best; node_of h T a s; big \<Longrightarrow> n \<le> s\<rbrakk> \<Longrightarrow> fits h T n (pick big s a best)"
  by (auto simp: fits_def pick_def)

definition start_of :: "mm_heap \<Rightarrow> addr set \<Rightarrow> addr option \<Rightarrow> bool" where
  "start_of h T v \<longleftrightarrow> (\<forall>x. v = Some x \<longrightarrow> (\<exists>sl as l r. subtrie h T sl (Node x as l r)))"

lemma search_path_ok:
  assumes "subtrie h T sl (Node a as l r)" "start_of h T rst" "fits h T n best"
  shows "\<exists>x. search_path n m a rst best h = Some (Inl x) \<and> node_of h T x n \<or>
    (\<exists>v best'. search_path n m a rst best h = Some (Inr (v, best')) \<and> start_of h T v \<and> fits h T n best')"
  using assms
proof (induction "Node a as l r" arbitrary: sl a as l r m rst best)
  case (Node a as l r)
  note sn = subtrie_node [OF Node.prems(1)]
  obtain s where s: "node_of h T a s" using sn(4) by blast
  then have i: "info_size h a = Some s" by (simp add: node_of_def)
  let ?best = "pick (s \<ge> n) s a best"
  have f: "fits h T n ?best" by (rule fits_pick [OF Node.prems(3) s])
  show ?case
  proof (cases "s = n")
    case True
    then show ?thesis using i s by (subst (1 2) search_path.simps) simp
  next
    case False
    define c where "c = bit m 63"
    define u where "u = (if c then r else l)"
    define rst' where "rst' = (if \<not> c \<and> r \<noteq> Leaf then (case r of Leaf \<Rightarrow> None | Node x _ _ _ \<Rightarrow> Some x) else rst)"
    have rs: "start_of h T rst'"
      using Node.prems(2) sn(2) by (auto simp: rst'_def start_of_def split: trie.splits)
    have step: "search_path n m a rst best h = (case u of Leaf \<Rightarrow> Some (Inr (rst', ?best))
        | Node q _ _ _ \<Rightarrow> search_path n (push_bit 1 m) q rst' ?best h)"
      by (subst search_path.simps)
        (cases l; cases r; simp add: i False sn(5,6) c_def [symmetric] u_def rst'_def Let_def)
    show ?thesis
    proof (cases u)
      case Leaf
      then show ?thesis using step rs f by simp
    next
      case (Node q qs ql qr)
      have "subtrie h T (Child a c) (Node q qs ql qr)" using sn(1,2) Node by (cases c) (simp_all add: u_def)
      then show ?thesis
        using Node.hyps [of q qs ql qr "Child a c"] step rs f Node
        by (cases c) (simp_all add: u_def)
    qed
  qed
qed

lemma search_path_exact:
  assumes "subtrie h T sl (Node a as l r)" "trie_ok (info_size h) k p (Node a as l r)" "n div 2 ^ k = p" "k < 64"
    "\<forall>j < k. bit m (63 - j) = bit n (k - 1 - j)" "x \<in> set (trie_blocks (Node a as l r))" "info_size h x = Some n"
  shows "\<exists>y. search_path n m a rst best h = Some (Inl y) \<and> node_of h T y n"
  using assms
proof (induction "Node a as l r" arbitrary: sl a as l r k p m rst best)
  case (Node a as l r)
  note prems = Node.prems
  note sn = subtrie_node [OF prems(1)]
  obtain s where s: "node_of h T a s" using sn(4) by blast
  then have i: "info_size h a = Some s" by (simp add: node_of_def)
  show ?case
  proof (cases "s = n")
    case True
    then show ?thesis using i s by (subst search_path.simps) simp
  next
    case False
    have sp: "s div 2 ^ k = p" "\<forall>x \<in> set as. info_size h x = Some s" using prems(2) i by auto
    obtain j where k: "k = Suc j" using False sp(1) prems(3) by (cases k) auto
    define c where "c = bit m 63"
    have bit: "c = bit n j" using prems(5) by (auto simp: k c_def)
    define u where "u = (if c then r else l)"
    have nj: "n div 2 ^ j = 2 * p + of_bool c" using div_half [of n j] prems(3) bit by (simp add: k mult.commute)
    have ok: "trie_ok (info_size h) j (2 * p + of_bool c) u" "trie_ok (info_size h) j (2 * p) l" "trie_ok (info_size h) j (2 * p + 1) r"
      using prems(2) by (auto simp: k u_def)
    have "x \<notin> insert a (set as)" using prems(7) i sp(2) False by auto
    moreover have "x \<notin> set (trie_blocks (if c then l else r))"
    proof
      assume "x \<in> set (trie_blocks (if c then l else r))"
      then have "n div 2 ^ j = 2 * p + of_bool (\<not> c)"
        using trie_ok_size [OF ok(2), of x] trie_ok_size [OF ok(3), of x] prems(7) by (cases c) auto
      then show False using nj by (cases c) simp_all
    qed
    ultimately have xu: "x \<in> set (trie_blocks u)" using prems(6) by (cases c) (auto simp: u_def)
    then obtain q qs ql qr where un: "u = Node q qs ql qr" by (cases u) auto
    have m: "\<forall>i < j. bit (push_bit 1 m) (63 - i) = bit n (j - 1 - i)"
    proof (intro allI impI)
      fix i assume "i < j"
      then have "bit (push_bit 1 m) (63 - i) = bit m (63 - Suc i)" "j - 1 - i = k - 1 - Suc i"
        using prems(4) k shift_top [of i m] by simp_all
      then show "bit (push_bit 1 m) (63 - i) = bit n (j - 1 - i)" using prems(5) [rule_format, of "Suc i"] \<open>i < j\<close> k by simp
    qed
    define rst' where "rst' = (if \<not> c \<and> r \<noteq> Leaf then (case r of Leaf \<Rightarrow> None | Node x _ _ _ \<Rightarrow> Some x) else rst)"
    have "search_path n m a rst best h = search_path n (push_bit 1 m) q rst' (pick (s \<ge> n) s a best) h"
      using un by (subst search_path.simps)
        (cases l; cases r; cases c; simp add: i False sn(5,6) c_def [symmetric] u_def rst'_def Let_def)
    then have step: "\<exists>rst' best'. search_path n m a rst best h = search_path n (push_bit 1 m) q rst' best' h" by blast
    have su: "subtrie h T (Child a c) (Node q qs ql qr)" using sn(1,2) un by (cases c) (simp_all add: u_def)
    have "\<exists>y. search_path n (push_bit 1 m) q rst' best' h = Some (Inl y) \<and> node_of h T y n" for rst' best'
      using Node.hyps [of q qs ql qr "Child a c" j "2 * p + of_bool c" "push_bit 1 m"] un su ok(1) nj prems(4,7) m xu k
      by (cases c) (simp_all add: u_def del: trie_ok.simps trie_blocks.simps)
    then show ?thesis using step by metis
  qed
qed

lemma leftmost_step_node:
  assumes "subtrie h T sl (Node a as l r)"
  shows "\<exists>u c. leftmost_step a h = Some (case u of Leaf \<Rightarrow> None | Node x _ _ _ \<Rightarrow> Some x) \<and> (u = l \<or> u = r) \<and> subtrie h T (Child a c) u"
proof (cases l)
  case Leaf
  then show ?thesis using subtrie_node [OF assms] by (intro exI [of _ l] exI [of _ False]) (simp add: leftmost_step_def)
next
  case (Node x xs xl xr)
  then show ?thesis using subtrie_node [OF assms] by (intro exI [of _ r] exI [of _ True]) (simp add: leftmost_step_def)
qed

lemma search_rest_ok:
  assumes "subtrie h T sl t" "fits h T n best"
  shows "\<exists>z. search_rest n (case t of Leaf \<Rightarrow> None | Node x _ _ _ \<Rightarrow> Some x) best h = Some z \<and>
    (case z of Inl x \<Rightarrow> node_of h T x n | Inr best' \<Rightarrow> fits h T n best')"
  using assms
proof (induction t arbitrary: sl best)
  case Leaf
  then show ?case by (subst search_rest.simps) simp
next
  case (Node a as l r)
  obtain s where s: "node_of h T a s" using subtrie_node(4) [OF Node.prems(1)] by blast
  then have i: "info_size h a = Some s" by (simp add: node_of_def)
  let ?best = "pick (s > n) s a best"
  have f: "fits h T n ?best" by (rule fits_pick [OF Node.prems(2) s]) simp
  obtain u c where u: "leftmost_step a h = Some (case u of Leaf \<Rightarrow> None | Node x _ _ _ \<Rightarrow> Some x)" "u = l \<or> u = r"
      "subtrie h T (Child a c) u"
    using leftmost_step_node [OF Node.prems(1)] by blast
  have "\<exists>z. search_rest n (case u of Leaf \<Rightarrow> None | Node x _ _ _ \<Rightarrow> Some x) ?best h = Some z \<and>
      (case z of Inl x \<Rightarrow> node_of h T x n | Inr best' \<Rightarrow> fits h T n best')"
    using u(2) Node.IH [OF _ f] u(3) by blast
  then show ?case using s i u(1) by (subst search_rest.simps) (auto simp: Let_def)
qed

lemma search_rest_start:
  assumes "start_of h T v" "fits h T n best"
  shows "\<exists>z. search_rest n v best h = Some z \<and> (case z of Inl x \<Rightarrow> node_of h T x n | Inr best' \<Rightarrow> fits h T n best')"
proof (cases v)
  case None
  then show ?thesis using assms(2) by (subst search_rest.simps) simp
next
  case (Some x)
  then obtain sl as l r where "subtrie h T sl (Node x as l r)" using assms(1) by (auto simp: start_of_def)
  from search_rest_ok [OF this assms(2)] show ?thesis using Some by simp
qed

lemma search_smallest_ok:
  assumes "subtrie h T sl (Node a as l r)" "node_of h T best m"
  shows "\<exists>x s. search_smallest best a h = Some x \<and> node_of h T x s"
  using assms
proof (induction "Node a as l r" arbitrary: sl a as l r best m)
  case (Node a as l r)
  obtain u c where u: "leftmost_step a h = Some (case u of Leaf \<Rightarrow> None | Node x _ _ _ \<Rightarrow> Some x)" "u = l \<or> u = r"
      "subtrie h T (Child a c) u"
    using leftmost_step_node [OF Node.prems(1)] by blast
  show ?case
  proof (cases u)
    case Leaf
    then show ?thesis using u(1) Node.prems(2) by (subst search_smallest.simps) auto
  next
    case (Node q qs ql qr)
    then obtain s where s: "node_of h T q s" using subtrie_node(4) u(3) by blast
    have "info_size h q = Some s" "info_size h best = Some m" using s Node.prems(2) by (simp_all add: node_of_def)
    then have "search_smallest best a h = search_smallest (if s < m then q else best) q h"
      using u(1) Node by (subst search_smallest.simps) simp
    moreover have "\<exists>m'. node_of h T (if s < m then q else best) m'" using s Node.prems(2) by auto
    ultimately show ?thesis using Node.hyps [of q qs ql qr "Child a c"] Node u(2,3) by auto
  qed
qed

lemma bucket_subtrie:
  assumes "lists_ok h F" "i < 64"
  shows "subtrie h (set (trie_blocks (tree F i))) (Large_Bucket i) (tree F i)"
  using assms by (auto simp: lists_ok_def large_ok_def subtrie_def)

text \<open>The last step of the search takes the next block of the ring.\<close>

definition found :: "mm_heap \<Rightarrow> free_lists \<Rightarrow> nat \<Rightarrow> addr \<Rightarrow> bool" where
  "found h F n b \<longleftrightarrow> b \<in> free_blocks F \<and> (\<exists>s \<ge> n. info_size h b = Some s)"

lemma node_found:
  assumes "node_of h T x s" "T \<subseteq> free_blocks F" "n \<le> s"
  shows "\<exists>b. do { q \<leftarrow> next_free h (Blk x); b \<leftarrow> block_of q; Some (Some b) } = Some (Some b) \<and> found h F n b \<and> info_size h b = Some s"
  using assms by (auto simp: node_of_def found_def block_of_def)

lemma bucket_free: "i < 64 \<Longrightarrow> set (trie_blocks (tree F i)) \<subseteq> free_blocks F"
  by (auto simp: free_blocks_def large_blocks_def)

lemma smallest_found:
  assumes "lists_ok h F" "drop_bit i (large_free_bitmap h) \<noteq> 0"
    "\<And>j. bit (large_free_bitmap h) (i + j) \<Longrightarrow> zend_mm_high_bit n < i + j" "0 < n"
  shows "\<exists>low p x b. zend_mm_low_bit (drop_bit i (large_free_bitmap h)) = Some low \<and>
    slot_value (Large_Bucket (i + low)) h = Some (Some p) \<and> search_smallest p p h = Some x \<and>
    do { q \<leftarrow> next_free h (Blk x); b \<leftarrow> block_of q; Some (Some b) } = Some (Some b) \<and> found h F n b"
proof -
  obtain low where low: "zend_mm_low_bit (drop_bit i (large_free_bitmap h)) = Some low" "bit (drop_bit i (large_free_bitmap h)) low"
    using low_bit [OF assms(2)] by blast
  let ?j = "i + low" and ?t = "tree F (i + low)"
  have bj: "bit (large_free_bitmap h) ?j" using low(2) by (simp add: bit_drop_bit_eq)
  then have j: "?j < 64" using bit_imp_le_length [OF bj] by simp
  have lo: "large_ok h ?j ?t" using assms(1) j by (simp add: lists_ok_def)
  then have "?t \<noteq> Leaf" using bj by (simp add: large_ok_def)
  then obtain a as l r where t: "?t = Node a as l r" by (cases ?t) auto
  have st: "subtrie h (set (trie_blocks ?t)) (Large_Bucket ?j) (Node a as l r)" using bucket_subtrie [OF assms(1) j] t by simp
  obtain m where m: "node_of h (set (trie_blocks ?t)) a m" using subtrie_node(4) [OF st] by blast
  obtain x s where x: "search_smallest a a h = Some x" "node_of h (set (trie_blocks ?t)) x s"
    using search_smallest_ok [OF st m] by blast
  have "info_size h x = Some s" "x \<in> set (trie_blocks ?t)" using x(2) by (simp_all add: node_of_def)
  then have "zend_mm_high_bit s = ?j" "sized_large h x"
    using large_index [OF lo, of x] lists_sized(2) [OF assms(1) _ j, of x] by simp_all
  then have "0 < s" using \<open>info_size h x = Some s\<close> by (auto simp: sized_large_def)
  have "n \<le> s"
  proof (rule ccontr)
    assume "\<not> n \<le> s"
    then have "zend_mm_high_bit s \<le> zend_mm_high_bit n" using \<open>0 < s\<close> by (intro high_bit_mono) simp_all
    then show False using \<open>zend_mm_high_bit s = ?j\<close> assms(3) [OF bj] by simp
  qed
  then show ?thesis
    using low(1) subtrie_node(3) [OF st] x(1) node_found [OF x(2) bucket_free [OF j]] by blast
qed

text \<open>The whole search. It fails only when no higher bucket has a block, and only when no block has exactly the size.\<close>

lemma search_large_ok:
  assumes "lists_ok h F" "0 < n" "n < 2 ^ 64"
  shows "zend_mm_search_large_block n h = Some None \<and> drop_bit (Suc (zend_mm_high_bit n)) (large_free_bitmap h) = 0 \<or>
    (\<exists>b. zend_mm_search_large_block n h = Some (Some b) \<and> found h F n b)"
proof -
  let ?i = "zend_mm_high_bit n" and ?bm = "drop_bit (zend_mm_high_bit n) (large_free_bitmap h)"
  have i: "?i < 64" by (rule high_bit_less [OF assms(2,3)])
  consider "?bm = 0" | "?bm \<noteq> 0" "\<not> bit ?bm 0" | "?bm \<noteq> 0" "bit ?bm 0" by blast
  then show ?thesis
  proof cases
    case 1
    have "drop_bit (Suc ?i) (large_free_bitmap h) = drop_bit 1 ?bm" by (simp only: drop_bit_drop_bit) simp
    then show ?thesis using 1 by (simp add: zend_mm_search_large_block_def Let_def)
  next
    case 2
    have "?i < ?i + j" if "bit (large_free_bitmap h) (?i + j)" for j
      using 2(2) that by (cases j) (simp_all add: bit_drop_bit_eq)
    from smallest_found [OF assms(1) 2(1) this assms(2)] obtain low p x b where
        s: "zend_mm_low_bit ?bm = Some low" "slot_value (Large_Bucket (?i + low)) h = Some (Some p)" "search_smallest p p h = Some x"
        "do { q \<leftarrow> next_free h (Blk x); b \<leftarrow> block_of q; Some (Some b) } = Some (Some b)" "found h F n b"
      by blast
    have "zend_mm_search_large_block n h = Some (Some b)"
      unfolding zend_mm_search_large_block_def by (simp only: Let_def 2 s if_False Option.bind.simps)
    then show ?thesis using s(5) by blast
  next
    case 3
    let ?t = "tree F ?i"
    have lo: "large_ok h ?i ?t" using assms(1) i by (simp add: lists_ok_def)
    have "bit (large_free_bitmap h) ?i" using 3(2) by (simp add: bit_drop_bit_eq)
    then have "?t \<noteq> Leaf" using lo by (simp add: large_ok_def)
    then obtain a as l r where t: "?t = Node a as l r" by (cases ?t) auto
    let ?T = "set (trie_blocks ?t)"
    have st: "subtrie h ?T (Large_Bucket ?i) (Node a as l r)" using bucket_subtrie [OF assms(1) i] t by simp
    note sv = subtrie_node(3) [OF st]
    let ?m = "push_bit (ZEND_MM_NUM_BUCKETS - ?i) (of_nat n) :: ulong"
    note nf = node_found [OF _ bucket_free [OF i]]
    have unfold: "zend_mm_search_large_block n h = do {
        z \<leftarrow> search_path n ?m a None (None, 2 ^ 64 - 1) h;
        (case z of Inl p \<Rightarrow> do { q \<leftarrow> next_free h (Blk p); b \<leftarrow> block_of q; Some (Some b) }
         | Inr (rst, best) \<Rightarrow> do {
             z \<leftarrow> search_rest n rst best h;
             (case z of Inl p \<Rightarrow> do { q \<leftarrow> next_free h (Blk p); b \<leftarrow> block_of q; Some (Some b) }
              | Inr (Some p, _) \<Rightarrow> do { q \<leftarrow> next_free h (Blk p); b \<leftarrow> block_of q; Some (Some b) }
              | Inr (None, _) \<Rightarrow>
                  if drop_bit (?i + 1) (large_free_bitmap h) = 0 then Some None
                  else do { low \<leftarrow> zend_mm_low_bit (drop_bit (?i + 1) (large_free_bitmap h));
                            v \<leftarrow> slot_value (Large_Bucket (?i + 1 + low)) h; p \<leftarrow> v; x \<leftarrow> search_smallest p p h;
                            q \<leftarrow> next_free h (Blk x); b \<leftarrow> block_of q; Some (Some b) }) }) }"
    proof -
      have "drop_bit 1 ?bm = drop_bit (?i + 1) (large_free_bitmap h)" by simp
      then show ?thesis
        unfolding zend_mm_search_large_block_def
        by (simp only: Let_def 3 sv if_False if_True Option.bind.simps)
    qed
    have "start_of h ?T None" "fits h ?T n (None, 2 ^ 64 - 1)" by (simp_all add: start_of_def fits_def)
    from search_path_ok [OF st this, of ?m] show ?thesis
    proof (elim disjE exE conjE)
      fix x assume x: "search_path n ?m a None (None, 2 ^ 64 - 1) h = Some (Inl x)" "node_of h ?T x n"
      then show ?thesis using nf [OF x(2)] by (auto simp: unfold)
    next
      fix v best assume p: "search_path n ?m a None (None, 2 ^ 64 - 1) h = Some (Inr (v, best))" "start_of h ?T v" "fits h ?T n best"
      obtain z where z: "search_rest n v best h = Some z" "case z of Inl x \<Rightarrow> node_of h ?T x n | Inr best' \<Rightarrow> fits h ?T n best'"
        using search_rest_start [OF p(2,3)] by blast
      consider x s where "z = Inl x \<or> (\<exists>k. z = Inr (Some x, k))" "node_of h ?T x s" "n \<le> s" | k where "z = Inr (None, k)"
      proof (cases z)
        case (Inr q)
        then show thesis using z(2) that by (cases q; cases "fst q") (auto simp: fits_def)
      qed (use z(2) that in auto)
      then show ?thesis
      proof cases
        case 1
        then show ?thesis using nf [OF 1(2,3)] p(1) z(1) by (auto simp: unfold)
      next
        case 2
        show ?thesis
        proof (cases "drop_bit (?i + 1) (large_free_bitmap h) = 0")
          case True
          then show ?thesis unfolding unfold by (simp only: p(1) z(1) 2 Suc_eq_plus1 Option.bind.simps sum.case prod.case option.case if_True simp_thms)
        next
          case False
          have "?i < ?i + 1 + j" for j by simp
          from smallest_found [OF assms(1) False this assms(2)] obtain low p x b where
              s: "zend_mm_low_bit (drop_bit (?i + 1) (large_free_bitmap h)) = Some low" "slot_value (Large_Bucket (?i + 1 + low)) h = Some (Some p)"
                "search_smallest p p h = Some x"
                "do { q \<leftarrow> next_free h (Blk x); b \<leftarrow> block_of q; Some (Some b) } = Some (Some b)" "found h F n b"
            by blast
          have "zend_mm_search_large_block n h = Some (Some b)"
            unfolding unfold
            by (simp only: p(1) z(1) 2 s False Option.bind.simps sum.case prod.case option.case if_False)
          then show ?thesis using s(5) by blast
        qed
      qed
    qed
  qed
qed

lemma path_bits:
  assumes "i < 64" "j < i"
  shows "bit (push_bit (64 - i) (of_nat n) :: ulong) (63 - j) = bit n (i - 1 - j)"
proof -
  have "63 - j - (64 - i) = i - 1 - j" "64 - i \<le> 63 - j" "63 - j < 64" "i - 1 - j < 64" using assms by auto
  then show ?thesis by (simp add: bit_push_bit_iff bit_of_nat_iff)
qed

lemma search_large_exact:
  assumes "lists_ok h F" "0 < n" "n < 2 ^ 64" "x \<in> large_blocks F" "info_size h x = Some n"
  shows "\<exists>b. zend_mm_search_large_block n h = Some (Some b) \<and> b \<in> free_blocks F \<and> info_size h b = Some n"
proof -
  let ?i = "zend_mm_high_bit n"
  have i: "?i < 64" by (rule high_bit_less [OF assms(2,3)])
  obtain j where j: "j < 64" "x \<in> set (trie_blocks (tree F j))" using assms(4) by (auto simp: large_blocks_def)
  have "large_ok h j (tree F j)" using assms(1) j by (simp add: lists_ok_def)
  from large_index [OF this j(2)] have ji: "j = ?i" using assms(5) by simp
  let ?t = "tree F ?i"
  have lo: "large_ok h ?i ?t" using assms(1) i by (simp add: lists_ok_def)
  obtain a as l r where t: "?t = Node a as l r" using j(2) ji by (cases ?t) auto
  have b: "bit (drop_bit ?i (large_free_bitmap h)) 0" using lo t by (simp add: large_ok_def bit_drop_bit_eq)
  then have b0: "drop_bit ?i (large_free_bitmap h) \<noteq> 0" by auto
  have st: "subtrie h (set (trie_blocks ?t)) (Large_Bucket ?i) (Node a as l r)" using bucket_subtrie [OF assms(1) i] t by simp
  have "trie_ok (info_size h) ?i 1 (Node a as l r)" "x \<in> set (trie_blocks (Node a as l r))"
    using lo t j(2) ji by (simp_all add: large_ok_def)
  from search_path_exact [OF st this(1) high_bit_div [OF assms(2)] i _ this(2) assms(5)]
  obtain y where y: "search_path n (push_bit (64 - ?i) (of_nat n)) a None (None, 2 ^ 64 - 1) h = Some (Inl y)"
      "node_of h (set (trie_blocks ?t)) y n"
    using path_bits [OF i] by metis
  have nz: "ZEND_MM_NUM_BUCKETS = 64" by simp
  have "zend_mm_search_large_block n h = do { q \<leftarrow> next_free h (Blk y); b \<leftarrow> block_of q; Some (Some b) }"
    unfolding zend_mm_search_large_block_def
    by (simp only: Let_def b b0 subtrie_node(3) [OF st] nz y(1) if_False if_True Option.bind.simps sum.case)
  then show ?thesis using node_found [OF y(2) bucket_free [OF i]] by (auto simp: found_def)
qed

text \<open>A search that fails: no bucket above has a block.\<close>

lemma search_large_none:
  assumes "lists_ok h F" "0 < n" "n < 2 ^ 64" "zend_mm_search_large_block n h = Some None" "x \<in> large_blocks F" "info_size h x = Some s"
  shows "s < 2 ^ Suc (zend_mm_high_bit n)"
proof (rule ccontr)
  assume big: "\<not> ?thesis"
  obtain j where j: "j < 64" "x \<in> set (trie_blocks (tree F j))" using assms(5) by (auto simp: large_blocks_def)
  have lo: "large_ok h j (tree F j)" using assms(1) j by (simp add: lists_ok_def)
  have js: "j = zend_mm_high_bit s" using large_index [OF lo j(2)] assms(6) by simp
  have "bit (large_free_bitmap h) j" using lo j(2) by (auto simp: large_ok_def)
  moreover have "Suc (zend_mm_high_bit n) \<le> j"
  proof -
    have "0 < s" using big by (cases s) auto
    then have "s < 2 ^ Suc j" using high_bit_bounds(2) js by simp
    then have "(2 :: nat) ^ Suc (zend_mm_high_bit n) < 2 ^ Suc j" using big by linarith
    then show ?thesis by (metis Suc_lessD Suc_less_eq less_Suc_eq_le nat_power_less_imp_less zero_less_numeral)
  qed
  ultimately have "bit (drop_bit (Suc (zend_mm_high_bit n)) (large_free_bitmap h)) (j - Suc (zend_mm_high_bit n))"
    by (simp add: bit_drop_bit_eq)
  then have "drop_bit (Suc (zend_mm_high_bit n)) (large_free_bitmap h) \<noteq> 0" by auto
  then show False using assms(4) search_large_ok [OF assms(1-3)] by auto
qed

subsection \<open>Search among the rest blocks\<close>

definition rest_fits :: "mm_heap \<Rightarrow> free_lists \<Rightarrow> nat \<Rightarrow> addr option \<Rightarrow> bool" where
  "rest_fits h F n best \<longleftrightarrow> (\<forall>b. best = Some b \<longrightarrow> found h F n b)"

lemma search_rest_list_ok:
  assumes "lists_ok h F" "rest F = xs @ ys" "rest_fits h F n (fst best)"
  shows "\<exists>z. search_rest_list n (last (Rest_Bucket # map Blk xs)) best h = Some z \<and> rest_fits h F n z"
  using assms(2,3)
proof (induction xs arbitrary: ys best rule: rev_induct)
  case Nil
  then show ?case by (subst search_rest_list.simps) simp
next
  case (snoc b xs)
  have m: "b \<in> set (rest F)" using snoc.prems(1) by simp
  obtain s where s: "info_size h b = Some s" using lists_sized(3) [OF assms(1) m] by blast
  have r: "ring h Rest_Bucket (map Blk (xs @ b # ys))" using assms(1) snoc.prems(1) by (simp add: lists_ok_def rest_ok_def)
  have nb: "\<forall>x. Rest_Bucket \<noteq> Blk x" by simp
  note pv = ring_neighbours(1) [OF r nb]
  have fb: "found h F n b" if "n \<le> s" using that m s by (simp add: found_def free_blocks_def)
  have "rest_fits h F n (fst (pick (s > n) s b best))" using snoc.prems(2) fb by (auto simp: rest_fits_def pick_def)
  from snoc.IH [OF _ this, of "b # ys"] obtain z where
    z: "search_rest_list n (last (Rest_Bucket # map Blk xs)) (pick (s > n) s b best) h = Some z" "rest_fits h F n z"
    using snoc.prems(1) by auto
  have "search_rest_list n (Blk b) best h = (if s = n then Some (Some b) else Some z)"
    by (subst search_rest_list.simps) (simp only: block_of_def block_ptr.case s pv z(1) Let_def Option.bind.simps block_ptr.simps if_False)
  then show ?case using z(2) fb by (auto simp: rest_fits_def)
qed

subsection \<open>Search among the small blocks\<close>

lemma small_found:
  assumes "lists_ok h F" "block_sized n" "n < 544" "drop_bit (ZEND_MM_BUCKET_INDEX n) (free_bitmap h) \<noteq> 0"
  shows "\<exists>low b. zend_mm_low_bit (drop_bit (ZEND_MM_BUCKET_INDEX n) (free_bitmap h)) = Some low \<and>
    prev_free h (Small_Bucket (ZEND_MM_BUCKET_INDEX n + low)) = Some (Blk b) \<and> found h F n b"
proof -
  obtain low where low: "zend_mm_low_bit (drop_bit (ZEND_MM_BUCKET_INDEX n) (free_bitmap h)) = Some low"
      "bit (drop_bit (ZEND_MM_BUCKET_INDEX n) (free_bitmap h)) low"
    using low_bit [OF assms(4)] by blast
  let ?j = "ZEND_MM_BUCKET_INDEX n + low"
  have bj: "bit (free_bitmap h) ?j" using low(2) by (simp add: bit_drop_bit_eq)
  then have j: "?j < 64" using bit_imp_le_length [OF bj] by simp
  have so: "small_ok h ?j (small F ?j)" using assms(1) j by (simp add: lists_ok_def)
  then have ne: "small F ?j \<noteq> []" using bj by (simp add: small_ok_def)
  let ?b = "last (small F ?j)"
  have b: "?b \<in> set (small F ?j)" using ne by simp
  have "prev_free h (Small_Bucket ?j) = Some (Blk ?b)"
    using so ne ring_ends [of h "Small_Bucket ?j" "map Blk (small F ?j)"] by (simp add: small_ok_def last_map)
  moreover obtain s where s: "info_size h ?b = Some s" "block_sized s" "s < 544" "ZEND_MM_BUCKET_INDEX s = ?j"
    using lists_sized(1) [OF assms(1) b j] by (auto simp: sized_small_def)
  moreover have "n \<le> s" using bucket_index_le [OF assms(2) s(2) assms(3) s(3)] s(4) by simp
  ultimately show ?thesis
    using low(1) mem_small [OF b j] by (auto simp: found_def free_blocks_def)
qed

end
