(* ===== verification/ZendAllocSpec.thy ===== *)
theory ZendAllocSpec
  imports ZendAllocOps ZendAllocSearch
begin

text \<open>The memory manager: what its free lists and its search promise.\<close>

text \<open>C34. The free lists of the memory manager hold exactly the blocks put on them. Adding a block that lies on no list, to its
  ring, its trie or the rest list, and removing any block that is on a list, always succeed on well formed lists: the
  consistency checks of safe unlinking never fire, the lists stay well formed, and exactly the one block joins or leaves
  them; nothing but links, bitmaps and list heads changes. The loop that makes room in the rest list ends.\<close>

theorem free_lists_hold_their_blocks:
  assumes "lists_ok h F"
  shows "(info_size h b = Some n \<and> block_sized n \<and> b \<notin> free_blocks F \<longrightarrow>
      (\<exists>h' F'. zend_mm_add_to_free_list b h = Some h' \<and> relists (insert b (free_blocks F)) h F h' F') \<and>
      (\<exists>h' F'. zend_mm_add_to_rest_list b h = Some h' \<and> relists (insert b (free_blocks F)) h F h' F')) \<and>
    (b \<in> free_blocks F \<longrightarrow>
      (\<exists>h' F'. zend_mm_remove_from_free_list b h = Some h' \<and> relists (free_blocks F - {b}) h F h' F'))"
  using add_free_ok [OF assms] add_rest_ok [OF assms] remove_free_ok [OF assms] added_relists removed_relists by blast

theorem free_lists_hold_their_blocks_witness:
  "\<forall>h0. let h = zend_mm_init (h0\<lparr>info_size := [64 \<mapsto> 600]\<rparr>) in
     \<exists>h' F'. zend_mm_add_to_free_list 64 h = Some h' \<and> relists {64} h no_lists h' F' \<and>
       (\<exists>h2 F2. zend_mm_remove_from_free_list 64 h' = Some h2 \<and> relists {} h' F' h2 F2)"
proof (intro allI, unfold Let_def)
  fix h0
  let ?h = "zend_mm_init (h0\<lparr>info_size := [64 \<mapsto> 600]\<rparr>)"
  have i: "info_size ?h 64 = Some 600" "block_sized 600" by (simp_all add: zend_mm_init_def block_sized_def)
  from free_lists_hold_their_blocks [OF init_lists, of "h0\<lparr>info_size := [64 \<mapsto> 600]\<rparr>" 64 600] i
  obtain h' F' where a: "zend_mm_add_to_free_list 64 ?h = Some h'" "relists {64} ?h no_lists h' F'" by auto
  then have f: "lists_ok h' F'" "64 \<in> free_blocks F'" "free_blocks F' - {64} = {}" by (auto simp: relists_def)
  from free_lists_hold_their_blocks [OF f(1), of 64 0] f(2,3) a
  show "\<exists>h' F'. zend_mm_add_to_free_list 64 ?h = Some h' \<and> relists {64} ?h no_lists h' F' \<and>
      (\<exists>h2 F2. zend_mm_remove_from_free_list 64 h' = Some h2 \<and> relists {} h' F' h2 F2)" by metis
qed

text \<open>C35. The search for a large block ends and stays inside the tries. What it finds is a free block of at least the size
  asked for, and of exactly that size if there is one; if it finds nothing, every large free block is smaller than
  twice the greatest power of two below the size. It does not always find the smallest block that fits.\<close>

theorem search_finds_large_block:
  assumes "lists_ok h F" "0 < n" "n < 2 ^ 64"
  shows "\<exists>r. zend_mm_search_large_block n h = Some r \<and>
    (\<forall>b. r = Some b \<longrightarrow> b \<in> free_blocks F \<and> (\<exists>s \<ge> n. info_size h b = Some s)) \<and>
    (\<forall>x \<in> large_blocks F. info_size h x = Some n \<longrightarrow> (\<exists>b. r = Some b \<and> info_size h b = Some n)) \<and>
    (r = None \<longrightarrow> (\<forall>x \<in> large_blocks F. the (info_size h x) < 2 ^ Suc (zend_mm_high_bit n)))"
proof -
  obtain r where r: "zend_mm_search_large_block n h = Some r" "\<forall>b. r = Some b \<longrightarrow> found h F n b"
    using search_large_ok [OF assms] by blast
  have "the (info_size h x) < 2 ^ Suc (zend_mm_high_bit n)" if "r = None" "x \<in> large_blocks F" for x
  proof -
    have "x \<in> free_blocks F" using that(2) by (simp add: free_blocks_def)
    then obtain s where "info_size h x = Some s" using free_sized [OF assms(1)] by blast
    then show ?thesis using search_large_none [OF assms, of x] r(1) that by simp
  qed
  moreover have "\<exists>b. r = Some b \<and> info_size h b = Some n" if "x \<in> large_blocks F" "info_size h x = Some n" for x
    using search_large_exact [OF assms that] r(1) by auto
  ultimately show ?thesis using r by (intro exI [of _ r]) (simp add: found_def)
qed

theorem search_finds_large_block_witness:
  "\<forall>h0. let h = zend_mm_init (h0\<lparr>info_size := [64 \<mapsto> 600]\<rparr>) in
     zend_mm_search_large_block 600 h = Some None \<and>
     (\<exists>h'. zend_mm_add_to_free_list 64 h = Some h' \<and> zend_mm_search_large_block 600 h' = Some (Some 64))"
proof (intro allI, unfold Let_def)
  fix h0
  let ?h = "zend_mm_init (h0\<lparr>info_size := [64 \<mapsto> 600]\<rparr>)"
  have i: "info_size ?h 64 = Some 600" "block_sized 600" by (simp_all add: zend_mm_init_def block_sized_def)
  obtain h' F' where a: "zend_mm_add_to_free_list 64 ?h = Some h'" "added ?h no_lists 64 h' F'"
    using add_free_ok [OF init_lists i] by auto
  then have f: "lists_ok h' F'" "free_blocks F' = {64}" "rest F' = []" and c: "core h' = core ?h"
    by (simp_all add: added_def relinked_def) (simp add: no_lists_def)
  note info = core_fields(1) [OF c]
  have "\<not> sized_small h' j 64" for j using info i(1) by (simp add: sized_small_def)
  then have "64 \<notin> small_blocks F'" using lists_sized(1) [OF f(1)] unfolding small_blocks_def by blast
  then have "64 \<in> large_blocks F'" using f(2,3) unfolding free_blocks_def by auto
  have n: "zend_mm_search_large_block 600 ?h = Some None"
    using search_finds_large_block [OF init_lists, of 600 "h0\<lparr>info_size := [64 \<mapsto> 600]\<rparr>"] by auto
  have "\<exists>r. zend_mm_search_large_block 600 h' = Some r \<and> r = Some 64"
    using search_finds_large_block [OF f(1), of 600] \<open>64 \<in> large_blocks F'\<close> f(2) info i(1) by auto
  then show "zend_mm_search_large_block 600 ?h = Some None \<and>
     (\<exists>h'. zend_mm_add_to_free_list 64 ?h = Some h' \<and> zend_mm_search_large_block 600 h' = Some (Some 64))"
    using n a(1) by auto
qed

end
