(* ===== verification/ZendAllocTiles.thy ===== *)
theory ZendAllocTiles
  imports ZendAllocSearch
begin

text \<open>
  The blocks of the segments. A segment at \<open>s\<close> with the tiles \<open>ts\<close> is its head, one block for each tile (its size, and whether
  it is in use), and the guard block; each header agrees with its neighbours.
\<close>

type_synonym tile = "nat \<times> bool"
type_synonym segment = "addr \<times> tile list"

definition tag :: "tile \<Rightarrow> nat" where
  "tag t = fst t + of_bool (snd t)"

definition extent :: "tile list \<Rightarrow> nat" where
  "extent ts = sum_list (map fst ts)"

fun part :: "mm_heap \<Rightarrow> addr \<Rightarrow> nat \<Rightarrow> tile list \<Rightarrow> bool" where
  "part h a p [] \<longleftrightarrow> True"
| "part h a p (t # ts) \<longleftrightarrow> info_size h a = Some (tag t) \<and> info_prev h a = Some p \<and> block_sized (fst t) \<and> part h (a + fst t) (tag t) ts"

fun tail :: "mm_heap \<Rightarrow> addr \<Rightarrow> nat \<Rightarrow> tile list \<Rightarrow> bool" where
  "tail h a p [] \<longleftrightarrow> info_size h a = Some 19 \<and> info_prev h a = Some p"
| "tail h a p (t # ts) \<longleftrightarrow> info_size h a = Some (tag t) \<and> info_prev h a = Some p \<and> block_sized (fst t) \<and> tail h (a + fst t) (tag t) ts"

fun last_tag :: "nat \<Rightarrow> tile list \<Rightarrow> nat" where
  "last_tag p [] = p"
| "last_tag p (t # ts) = last_tag (tag t) ts"

fun tiles_at :: "addr \<Rightarrow> tile list \<Rightarrow> (addr \<times> tile) list" where
  "tiles_at a [] = []"
| "tiles_at a (t # ts) = (a, t) # tiles_at (a + fst t) ts"

definition coalesced :: "tile list \<Rightarrow> bool" where
  "coalesced ts \<longleftrightarrow> successively (\<lambda>t u. snd t \<or> snd u) ts"

lemma tag_simps [simp]: "tag (n, True) = Suc n" "tag (n, False) = n"
  by (simp_all add: tag_def)

lemma extent_simps [simp]: "extent [] = 0" "extent (t # ts) = fst t + extent ts" "extent (xs @ ys) = extent xs + extent ys"
  by (simp_all add: extent_def)

lemma tag_inj: "\<lbrakk>tag t = tag u; block_sized (fst t); block_sized (fst u)\<rbrakk> \<Longrightarrow> t = u"
proof -
  assume a: "tag t = tag u" "block_sized (fst t)" "block_sized (fst u)"
  obtain m n where e: "fst t = 8 * m" "fst u = 8 * n" using a(2,3) by (auto simp: block_sized_def elim!: dvdE)
  have "8 * m + of_bool (snd t) = 8 * n + (of_bool (snd u) :: nat)" using a(1) e by (simp add: tag_def)
  then have "m = n \<and> snd t = snd u" by (cases "snd t"; cases "snd u"; simp; presburger?)
  then show ?thesis using e by (simp add: prod_eq_iff)
qed

lemma last_tag_append [simp]: "last_tag p (xs @ ys) = last_tag (last_tag p xs) ys"
  by (induction xs arbitrary: p) simp_all

lemma part_append [simp]: "part h a p (xs @ ys) \<longleftrightarrow> part h a p xs \<and> part h (a + extent xs) (last_tag p xs) ys"
  by (induction xs arbitrary: a p) (auto simp: add.assoc)

lemma tail_append: "tail h a p (xs @ ys) \<longleftrightarrow> part h a p xs \<and> tail h (a + extent xs) (last_tag p xs) ys"
  by (induction xs arbitrary: a p) (auto simp: add.assoc)

lemma tiles_at_append [simp]: "tiles_at a (xs @ ys) = tiles_at a xs @ tiles_at (a + extent xs) ys"
  by (induction xs arbitrary: a) (simp_all add: add.assoc)

lemma part_cong:
  assumes "part h a p ts" "\<And>x. a \<le> x \<Longrightarrow> x < a + extent ts \<Longrightarrow> info_size h' x = info_size h x \<and> info_prev h' x = info_prev h x"
  shows "part h' a p ts"
  using assms
proof (induction ts arbitrary: a p)
  case (Cons t ts)
  have "32 \<le> fst t" using Cons.prems(1) by (simp add: block_sized_def)
  then show ?case using Cons.prems Cons.IH [of "a + fst t" "tag t"] by simp
qed simp

lemma tail_cong:
  assumes "tail h a p ts" "\<And>x. a \<le> x \<Longrightarrow> x \<le> a + extent ts \<Longrightarrow> info_size h' x = info_size h x \<and> info_prev h' x = info_prev h x"
  shows "tail h' a p ts"
  using assms
proof (induction ts arbitrary: a p)
  case (Cons t ts)
  then show ?case using Cons.IH [of "a + fst t" "tag t"] by simp
qed simp

lemma tail_change:
  assumes "tail h a p ts" "info_prev h' a = Some q" "info_size h' a = info_size h a"
    "\<And>x. a < x \<Longrightarrow> x \<le> a + extent ts \<Longrightarrow> info_size h' x = info_size h x \<and> info_prev h' x = info_prev h x"
  shows "tail h' a q ts"
proof (cases ts)
  case (Cons t us)
  then have "32 \<le> fst t" using assms(1) by (simp add: block_sized_def)
  then show ?thesis
    using assms Cons tail_cong [of h "a + fst t" "tag t" us h'] by simp
qed (use assms in simp)

lemma tiles_split:
  "(b, t) \<in> set (tiles_at a ts) \<longleftrightarrow> (\<exists>xs ys. ts = xs @ t # ys \<and> b = a + extent xs)"
proof (induction ts arbitrary: a)
  case (Cons u ts)
  show ?case
  proof
    assume "(b, t) \<in> set (tiles_at a (u # ts))"
    then consider "b = a" "t = u" | "(b, t) \<in> set (tiles_at (a + fst u) ts)" by auto
    then show "\<exists>xs ys. u # ts = xs @ t # ys \<and> b = a + extent xs"
    proof cases
      case 1
      then show ?thesis by (intro exI [of _ "[]"] exI [of _ ts]) simp
    next
      case 2
      then obtain xs ys where "ts = xs @ t # ys" "b = a + fst u + extent xs" using Cons.IH by blast
      then show ?thesis by (intro exI [of _ "u # xs"] exI [of _ ys]) simp
    qed
  next
    assume "\<exists>xs ys. u # ts = xs @ t # ys \<and> b = a + extent xs"
    then obtain xs ys where x: "u # ts = xs @ t # ys" "b = a + extent xs" by blast
    then show "(b, t) \<in> set (tiles_at a (u # ts))" by (simp only: x tiles_at_append) simp
  qed
qed simp

lemma tiles_info:
  assumes "part h a p ts" "(b, t) \<in> set (tiles_at a ts)"
  shows "info_size h b = Some (tag t)" "block_sized (fst t)" "a \<le> b" "b + fst t \<le> a + extent ts"
proof -
  obtain xs ys where "ts = xs @ t # ys" "b = a + extent xs" using assms(2) tiles_split by blast
  then show "info_size h b = Some (tag t)" "block_sized (fst t)" "a \<le> b" "b + fst t \<le> a + extent ts" using assms(1) by simp_all
qed

lemma tail_part: "tail h a p ts \<Longrightarrow> part h a p ts"
  using tail_append [of h a p ts "[]"] by simp

lemma tiles_disjoint:
  assumes "part h a p ts" "(b, t) \<in> set (tiles_at a ts)" "(c, u) \<in> set (tiles_at a ts)" "b \<noteq> c"
  shows "b + fst t \<le> c \<or> c + fst u \<le> b"
  using assms
proof (induction ts arbitrary: a p)
  case (Cons v ts)
  have v: "block_sized (fst v)" and r: "part h (a + fst v) (tag v) ts" using Cons.prems(1) by simp_all
  show ?case
    using Cons.prems(2-4) Cons.IH [OF r] tiles_info(3) [OF r, of b t] tiles_info(3) [OF r, of c u] by auto
qed simp

subsection \<open>Segments\<close>

definition span :: "segment \<Rightarrow> addr set" where
  "span x = {fst x..<fst x + extent (snd x) + 32}"

definition seg_blocks :: "segment \<Rightarrow> (addr \<times> tile) set" where
  "seg_blocks x = set (tiles_at (fst x + 16) (snd x))"

definition blocks_of :: "segment list \<Rightarrow> (addr \<times> tile) set" where
  "blocks_of S = (\<Union>x \<in> set S. seg_blocks x)"

definition apart :: "segment list \<Rightarrow> bool" where
  "apart S \<longleftrightarrow> sorted_wrt (\<lambda>x y. span x \<inter> span y = {}) S"

definition mem_total :: "segment list \<Rightarrow> nat" where
  "mem_total S = sum_list (map (\<lambda>x. extent (snd x) + 32) S)"

fun chain :: "(addr \<Rightarrow> addr option option) \<Rightarrow> addr option \<Rightarrow> addr list \<Rightarrow> bool" where
  "chain nx v [] \<longleftrightarrow> v = None"
| "chain nx v (s # ss) \<longleftrightarrow> v = Some s \<and> (\<exists>w. nx s = Some w \<and> chain nx w ss)"

definition seg_ok :: "mm_heap \<Rightarrow> segment \<Rightarrow> bool" where
  "seg_ok h x \<longleftrightarrow> segment_size h (fst x) = Some (extent (snd x) + 32) \<and> tail h (fst x + 16) 3 (snd x) \<and> snd x \<noteq> [] \<and> coalesced (snd x)"

definition segs_ok :: "mm_heap \<Rightarrow> segment list \<Rightarrow> bool" where
  "segs_ok h S \<longleftrightarrow> chain (next_segment h) (segments_list h) (map fst S) \<and> (\<forall>x \<in> set S. seg_ok h x) \<and> apart S \<and>
     unat (real_size h) = mem_total S \<and> mem_total S < 2 ^ 31"

lemma blocks_of_simps [simp]:
  "blocks_of [] = {}" "blocks_of (x # S) = seg_blocks x \<union> blocks_of S" "blocks_of (S @ S') = blocks_of S \<union> blocks_of S'"
  by (auto simp: blocks_of_def)

lemma mem_total_simps [simp]: "mem_total [] = 0" "mem_total (x # S) = extent (snd x) + 32 + mem_total S" "mem_total (S @ S') = mem_total S + mem_total S'"
  by (simp_all add: mem_total_def)

lemma seg_block_info:
  assumes "seg_ok h x" "(b, t) \<in> seg_blocks x"
  shows "info_size h b = Some (tag t)" "block_sized (fst t)" "fst x + 16 \<le> b" "b + fst t + 16 \<le> fst x + extent (snd x) + 32"
proof -
  have p: "part h (fst x + 16) 3 (snd x)" using assms(1) by (simp add: seg_ok_def tail_part)
  note ti = tiles_info [OF p assms(2) [unfolded seg_blocks_def]]
  show "info_size h b = Some (tag t)" "block_sized (fst t)" "fst x + 16 \<le> b" "b + fst t + 16 \<le> fst x + extent (snd x) + 32"
    using ti by simp_all
qed

lemma block_info:
  assumes "segs_ok h S" "(b, t) \<in> blocks_of S"
  shows "info_size h b = Some (tag t)" "block_sized (fst t)"
proof -
  obtain x where "x \<in> set S" "(b, t) \<in> seg_blocks x" using assms(2) by (auto simp: blocks_of_def)
  then show "info_size h b = Some (tag t)" "block_sized (fst t)"
    using assms(1) seg_block_info(1,2) [of h x b t] by (auto simp: segs_ok_def)
qed

lemma block_unique:
  assumes "segs_ok h S" "(b, t) \<in> blocks_of S" "(b, u) \<in> blocks_of S"
  shows "t = u"
  using block_info [OF assms(1,2)] block_info [OF assms(1,3)] tag_inj by auto

lemma block_span: "\<lbrakk>seg_ok h x; (b, t) \<in> seg_blocks x; b \<le> y; y < b + fst t\<rbrakk> \<Longrightarrow> y \<in> span x"
  using seg_block_info(3,4) [of h x b t] by (simp add: span_def)

lemma apart_disjoint:
  assumes "apart S" "x \<in> set S" "y \<in> set S" "x \<noteq> y"
  shows "span x \<inter> span y = {}"
proof -
  obtain i j where "i < length S" "j < length S" "x = S ! i" "y = S ! j" using assms(2,3) by (metis in_set_conv_nth)
  then show ?thesis using assms(1,4) unfolding apart_def sorted_wrt_iff_nth_less by (metis Int_commute linorder_neqE_nat)
qed

lemma block_disjoint:
  assumes "segs_ok h S" "(b, t) \<in> blocks_of S" "(c, u) \<in> blocks_of S" "b \<noteq> c"
  shows "b + fst t \<le> c \<or> c + fst u \<le> b"
proof -
  obtain x y where x: "x \<in> set S" "(b, t) \<in> seg_blocks x" and y: "y \<in> set S" "(c, u) \<in> seg_blocks y"
    using assms(2,3) by (auto simp: blocks_of_def)
  have ok: "seg_ok h x" "seg_ok h y" using assms(1) x y by (auto simp: segs_ok_def)
  show ?thesis
  proof (cases "x = y")
    case True
    then have "part h (fst x + 16) 3 (snd x)" using ok by (simp add: seg_ok_def tail_part)
    from tiles_disjoint [OF this] show ?thesis using x y True assms(4) by (simp add: seg_blocks_def)
  next
    case False
    have d: "span x \<inter> span y = {}" using apart_disjoint [of S x y] assms(1) x y False by (simp add: segs_ok_def)
    note bi = seg_block_info [OF ok(1) x(2)] and ci = seg_block_info [OF ok(2) y(2)]
    show ?thesis
    proof (rule ccontr)
      assume "\<not> ?thesis"
      then have "max b c \<in> span x" "max b c \<in> span y" using bi(3,4) ci(3,4) by (auto simp: span_def max_def)
      then show False using d by blast
    qed
  qed
qed

subsection \<open>Changing a segment\<close>

lemma chain_cong: "(\<And>s. s \<in> set ss \<Longrightarrow> nx' s = nx s) \<Longrightarrow> chain nx' v ss = chain nx v ss"
  by (induction ss arbitrary: v) auto

lemma seg_ok_cong:
  assumes "seg_ok h x" "segment_size h' (fst x) = segment_size h (fst x)"
    "\<And>y. y \<in> span x \<Longrightarrow> info_size h' y = info_size h y \<and> info_prev h' y = info_prev h y"
  shows "seg_ok h' x"
  using assms(1,2) tail_cong [of h "fst x + 16" 3 "snd x" h'] assms(3) by (simp add: seg_ok_def span_def)

text \<open>Headers change only inside the tiles \<open>mid\<close>, and become those of the tiles \<open>mid'\<close>.\<close>

definition retiled :: "mm_heap \<Rightarrow> mm_heap \<Rightarrow> addr \<Rightarrow> nat \<Rightarrow> nat \<Rightarrow> tile list \<Rightarrow> bool" where
  "retiled h h' b p n ts \<longleftrightarrow> extent ts = n \<and> part h' b p ts \<and> info_prev h' (b + n) = Some (last_tag p ts) \<and>
     (\<forall>x. x < b \<or> b + n \<le> x \<longrightarrow> info_size h' x = info_size h x) \<and>
     (\<forall>x. x \<le> b \<or> b + n < x \<longrightarrow> info_prev h' x = info_prev h x)"

definition same_segments :: "mm_heap \<Rightarrow> mm_heap \<Rightarrow> bool" where
  "same_segments h h' \<longleftrightarrow> segment_size h' = segment_size h \<and> next_segment h' = next_segment h \<and>
     segments_list h' = segments_list h \<and> real_size h' = real_size h"

lemma retile_tail:
  assumes "tail h a p (xs @ mid @ ys)" "retiled h h' (a + extent xs) (last_tag p xs) (extent mid) mid'" "mid \<noteq> []"
  shows "tail h' a p (xs @ mid' @ ys)"
proof -
  let ?b = "a + extent xs" and ?q = "last_tag p xs"
  have t: "part h a p xs" "part h ?b ?q mid" "tail h (?b + extent mid) (last_tag ?q mid) ys"
    using assms(1) by (simp_all add: tail_append)
  obtain m ms where "mid = m # ms" using assms(3) by (cases mid) auto
  then have pos: "0 < extent mid" using t(2) by (simp add: block_sized_def)
  have "part h' a p xs"
    using part_cong [OF t(1), of h'] assms(2) by (simp add: retiled_def)
  moreover have "tail h' (?b + extent mid) (last_tag ?q mid') ys"
    using tail_change [OF t(3), of h' "last_tag ?q mid'"] assms(2) pos by (simp add: retiled_def)
  ultimately show ?thesis using assms(2) by (simp add: tail_append retiled_def)
qed

lemma retile_segs:
  assumes "segs_ok h (S1 @ (s, xs @ mid @ ys) # S2)" "same_segments h h'" "mid \<noteq> []" "mid' \<noteq> []"
    "retiled h h' (s + 16 + extent xs) (last_tag 3 xs) (extent mid) mid'" "coalesced (xs @ mid' @ ys)"
  shows "segs_ok h' (S1 @ (s, xs @ mid' @ ys) # S2)"
proof -
  let ?x = "(s, xs @ mid @ ys)" and ?x' = "(s, xs @ mid' @ ys)"
  have ext: "extent mid' = extent mid" using assms(5) by (simp add: retiled_def)
  have sp: "span ?x' = span ?x" by (simp add: span_def ext)
  have ok: "seg_ok h ?x" and ap: "apart (S1 @ ?x # S2)" using assms(1) by (simp_all add: segs_ok_def)
  have ok': "seg_ok h' ?x'"
    using ok assms(2,4,6) retile_tail [of h "s + 16" 3 xs mid ys h' mid'] assms(3,5) ext
    by (simp add: seg_ok_def same_segments_def)
  have "seg_ok h' y" if y: "y \<in> set S1 \<union> set S2" for y
  proof (rule seg_ok_cong)
    show "seg_ok h y" using assms(1) y by (auto simp: segs_ok_def)
    show "segment_size h' (fst y) = segment_size h (fst y)" using assms(2) by (simp add: same_segments_def)
    fix z assume z: "z \<in> span y"
    have "span y \<inter> span ?x = {}" using ap y by (fastforce simp: apart_def sorted_wrt_append Int_commute)
    then have "z < s \<or> s + extent (xs @ mid @ ys) + 32 \<le> z" using z by (auto simp: span_def)
    then have "z < s + 16 + extent xs \<or> s + 16 + extent xs + extent mid < z" by auto
    then show "info_size h' z = info_size h z \<and> info_prev h' z = info_prev h z"
      using assms(5) by (auto simp: retiled_def)
  qed
  moreover have "apart (S1 @ ?x' # S2)" using ap by (simp add: apart_def sorted_wrt_append sp)
  ultimately show ?thesis
    using assms(1,2) ok' by (auto simp: segs_ok_def same_segments_def ext)
qed

lemma blocks_retile:
  assumes "segs_ok h (S1 @ (s, xs @ mid @ ys) # S2)" "segs_ok h' (S1 @ (s, xs @ mid' @ ys) # S2)" "extent mid' = extent mid"
  shows "blocks_of (S1 @ (s, xs @ mid' @ ys) # S2) =
    blocks_of (S1 @ (s, xs @ mid @ ys) # S2) - set (tiles_at (s + 16 + extent xs) mid) \<union> set (tiles_at (s + 16 + extent xs) mid')"
proof -
  let ?S = "S1 @ (s, xs @ mid @ ys) # S2" and ?b = "s + 16 + extent xs"
  let ?O = "blocks_of S1 \<union> blocks_of S2 \<union> set (tiles_at (s + 16) xs) \<union> set (tiles_at (?b + extent mid) ys)"
  have t: "tail h (s + 16) 3 (xs @ mid @ ys)" using assms(1) by (simp add: segs_ok_def seg_ok_def)
  have "y \<notin> ?O" if y: "y \<in> set (tiles_at ?b mid)" for y
  proof
    assume o: "y \<in> ?O"
    have m: "part h ?b (last_tag 3 xs) mid" "part h (s + 16) 3 xs" "part h (?b + extent mid) (last_tag (last_tag 3 xs) mid) ys"
      using tail_part [OF t] by simp_all
    obtain c u where c: "y = (c, u)" by (cases y)
    have i: "?b \<le> c" "c + fst u \<le> ?b + extent mid" "block_sized (fst u)" using tiles_info [OF m(1)] y c by auto
    then have cx: "c \<in> span (s, xs @ mid @ ys)" by (simp add: span_def block_sized_def)
    have pos: "32 \<le> fst u" using i(3) by (simp add: block_sized_def)
    consider x where "x \<in> set S1 \<union> set S2" "y \<in> seg_blocks x" | "y \<in> set (tiles_at (s + 16) xs)" | "y \<in> set (tiles_at (?b + extent mid) ys)"
      using o by (auto simp: blocks_of_def)
    then show False
    proof cases
      case 1
      have "seg_ok h x" using assms(1) 1(1) by (auto simp: segs_ok_def)
      then have "c \<in> span x" using block_span [of h x c u c] 1(2) c pos by simp
      moreover have "span x \<inter> span (s, xs @ mid @ ys) = {}"
        using assms(1) 1(1) by (fastforce simp: segs_ok_def apart_def sorted_wrt_append Int_commute)
      ultimately show False using cx by blast
    next
      case 2
      then show False using tiles_info(4) [OF m(2), of c u] c i(1) pos by simp
    next
      case 3
      then show False using tiles_info(3) [OF m(3), of c u] c i(2) pos by simp
    qed
  qed
  then have "blocks_of ?S - set (tiles_at ?b mid) = ?O" by (auto simp: seg_blocks_def)
  then show ?thesis using assms(3) by (auto simp: seg_blocks_def)
qed

end
