(* ===== verification/ZendAllocLayout.thy ===== *)
theory ZendAllocLayout
  imports ZendAllocTiles
begin

text \<open>
  The heap as a whole: segments, free lists and cache agree. \<open>L\<close> are free blocks that are on no list for the moment, and
  \<open>K\<close> are the heads of the cache.
\<close>

subsection \<open>What the free lists depend on\<close>

lemma trie_ok_cong: "(\<And>x. x \<in> set (trie_blocks t) \<Longrightarrow> f x = g x) \<Longrightarrow> trie_ok f k p t = trie_ok g k p t"
proof (induction t arbitrary: k p)
  case (Node a as l r)
  have "trie_ok f j q l = trie_ok g j q l" "trie_ok f j q r = trie_ok g j q r" for j q
    using Node.IH Node.prems by auto
  then show ?case using Node.prems by (auto split: nat.splits)
qed simp

lemma lists_info:
  assumes "lists_ok h F" "\<And>x. x \<in> free_blocks F \<Longrightarrow> f x = info_size h x"
  shows "lists_ok (h\<lparr>info_size := f\<rparr>) F"
proof -
  let ?h = "h\<lparr>info_size := f\<rparr>"
  have s: "small_ok ?h i (small F i)" if i: "i < 64" for i
  proof -
    have "small_ok h i (small F i)" using assms(1) i by (simp add: lists_ok_def)
    moreover have "ring ?h (Small_Bucket i) (map Blk (small F i)) = ring h (Small_Bucket i) (map Blk (small F i))"
      by (rule ring_cong) simp
    moreover have "f x = info_size h x" if "x \<in> set (small F i)" for x
      using assms(2) mem_small [OF that i] by (simp add: free_blocks_def)
    ultimately show ?thesis by (simp add: small_ok_def sized_small_def)
  qed
  have l: "large_ok ?h i (tree F i)" if i: "i < 64" for i
  proof -
    have "large_ok h i (tree F i)" using assms(1) i by (simp add: lists_ok_def)
    moreover have "tree_at ?h (Large_Bucket i) (tree F i) = tree_at h (Large_Bucket i) (tree F i)"
      by (rule tree_cong) (simp_all add: slot_value_def)
    moreover have e: "f x = info_size h x" if "x \<in> set (trie_blocks (tree F i))" for x
      using assms(2) mem_large [OF that i] by (simp add: free_blocks_def)
    moreover have "trie_ok f i 1 (tree F i) = trie_ok (info_size h) i 1 (tree F i)" by (rule trie_ok_cong) (rule e)
    ultimately show ?thesis by (simp add: large_ok_def sized_large_def)
  qed
  have r: "rest_ok ?h (rest F)"
  proof -
    have "rest_ok h (rest F)" using assms(1) by (simp add: lists_ok_def)
    moreover have "ring ?h Rest_Bucket (map Blk (rest F)) = ring h Rest_Bucket (map Blk (rest F))" by (rule ring_cong) simp
    moreover have e: "f x = info_size h x" if "x \<in> set (rest F)" for x using assms(2) that by (simp add: free_blocks_def)
    moreover have "filter (\<lambda>x. 544 \<le> the (f x)) (rest F) = filter (\<lambda>x. 544 \<le> the (info_size h x)) (rest F)"
      by (rule filter_cong) (simp_all add: e)
    ultimately show ?thesis by (simp add: rest_ok_def large_count_def)
  qed
  show ?thesis using s l r assms(1) by (simp add: lists_ok_def)
qed

lemma lists_cong:
  assumes "lists_ok h F"
    "\<And>x. x \<in> free_blocks F \<Longrightarrow> info_size h' x = info_size h x \<and> next_free h' (Blk x) = next_free h (Blk x) \<and>
      prev_free h' (Blk x) = prev_free h (Blk x) \<and> block_parent h' x = block_parent h x \<and>
      (\<forall>c. block_child h' (x, c) = block_child h (x, c))"
    "\<And>i. next_free h' (Small_Bucket i) = next_free h (Small_Bucket i) \<and> prev_free h' (Small_Bucket i) = prev_free h (Small_Bucket i)"
    "next_free h' Rest_Bucket = next_free h Rest_Bucket" "prev_free h' Rest_Bucket = prev_free h Rest_Bucket"
    "large_free_buckets h' = large_free_buckets h" "free_bitmap h' = free_bitmap h"
    "large_free_bitmap h' = large_free_bitmap h" "rest_count h' = rest_count h"
  shows "lists_ok h' F"
proof -
  let ?g = "h\<lparr>info_size := info_size h'\<rparr>"
  have g: "lists_ok ?g F" using lists_info [OF assms(1), of "info_size h'"] assms(2) by simp
  have s: "small_ok h' i (small F i)" if i: "i < 64" for i
    by (rule small_cong [of _ _ h' ?g]) (use g assms(2-) mem_small [OF _ i] i in \<open>auto simp: lists_ok_def free_blocks_def\<close>)
  have l: "large_ok h' i (tree F i)" if i: "i < 64" for i
    by (rule large_cong [of _ h' ?g]) (use g assms(2-) mem_large [OF _ i] i in \<open>auto simp: lists_ok_def free_blocks_def\<close>)
  have r: "rest_ok h' (rest F)"
    by (rule rest_cong [of _ h' ?g]) (use g assms(2-) in \<open>auto simp: lists_ok_def free_blocks_def\<close>)
  show ?thesis using s l r g by (simp add: lists_ok_def)
qed

subsection \<open>The cache\<close>

fun cache_chain :: "(block_ptr \<Rightarrow> block_ptr option) \<Rightarrow> addr option \<Rightarrow> addr list \<Rightarrow> bool" where
  "cache_chain pv v [] \<longleftrightarrow> v = None"
| "cache_chain pv v (b # bs) \<longleftrightarrow> v = Some b \<and> (\<exists>w. pv (Blk b) = Some (cache_ptr w) \<and> cache_chain pv w bs)"

definition caches_ok :: "(nat \<Rightarrow> addr option) \<Rightarrow> mm_heap \<Rightarrow> segment list \<Rightarrow> (nat \<Rightarrow> addr list) \<Rightarrow> bool" where
  "caches_ok K h S C \<longleftrightarrow> (\<forall>i<64. cache_chain (prev_free h) (K i) (C i) \<and> distinct (C i) \<and>
     (\<forall>b \<in> set (C i). (b, 8 * i + 32, True) \<in> blocks_of S))"

definition cached_blocks :: "(nat \<Rightarrow> addr list) \<Rightarrow> addr set" where
  "cached_blocks C = (\<Union>i<64. set (C i))"

lemma cache_chain_cong:
  "(\<And>b. b \<in> set bs \<Longrightarrow> pv' (Blk b) = pv (Blk b)) \<Longrightarrow> cache_chain pv' v bs = cache_chain pv v bs"
  by (induction bs arbitrary: v) auto

lemma cache_next_ptr: "cache_next b h = Some w \<longleftrightarrow> prev_free h (Blk b) = Some (cache_ptr w)"
  by (cases w; cases "prev_free h (Blk b)") (auto simp: cache_next_def cache_ptr_def split: block_ptr.splits)

subsection \<open>The invariant\<close>

definition free_in :: "segment list \<Rightarrow> addr set" where
  "free_in S = {b. \<exists>n. (b, n, False) \<in> blocks_of S}"

definition used_in :: "segment list \<Rightarrow> addr set" where
  "used_in S = {b. \<exists>n. (b, n, True) \<in> blocks_of S}"

definition mm_good :: "(nat \<Rightarrow> addr option) \<Rightarrow> mm_heap \<Rightarrow> segment list \<Rightarrow> free_lists \<Rightarrow> (nat \<Rightarrow> addr list) \<Rightarrow> addr set \<Rightarrow> bool" where
  "mm_good K h S F C L \<longleftrightarrow> segs_ok h S \<and> lists_ok h F \<and> caches_ok K h S C \<and>
     free_blocks F \<union> L = free_in S \<and> free_blocks F \<inter> L = {}"

lemma cached_used: "caches_ok K h S C \<Longrightarrow> cached_blocks C \<subseteq> used_in S"
  unfolding caches_ok_def cached_blocks_def used_in_def by blast

lemma free_not_used: "segs_ok h S \<Longrightarrow> free_in S \<inter> used_in S = {}"
  using block_unique by (fastforce simp: free_in_def used_in_def)

text \<open>Blocks join and leave the lists.\<close>

lemma good_relists:
  assumes "mm_good K h S F C L" "relists X h F h' F'" "X \<union> L' = free_in S" "X \<inter> L' = {}"
  shows "mm_good K h' S F' C L'"
proof -
  have g: "segs_ok h S" "caches_ok K h S C" "free_blocks F \<union> L = free_in S" using assms(1) by (simp_all add: mm_good_def)
  have r: "lists_ok h' F'" "free_blocks F' = X" "core h' = core h" "\<And>x. x \<notin> free_blocks F \<union> X \<Longrightarrow> prev_free h' (Blk x) = prev_free h (Blk x)"
    using assms(2) by (auto simp: relists_def relinked_def)
  note cf = core_fields [OF r(3)]
  have sg: "seg_ok h' x = seg_ok h x" for x
    using seg_ok_cong [of h x h'] seg_ok_cong [of h' x h] cf by auto
  have "segs_ok h' S" using g(1) sg cf by (simp add: segs_ok_def)
  moreover have "caches_ok K h' S C"
    unfolding caches_ok_def
  proof (intro allI impI)
    fix i :: nat assume i: "i < 64"
    have "x \<notin> free_blocks F \<union> X" if "x \<in> set (C i)" for x
      using cached_used [OF g(2)] free_not_used [OF g(1)] that i g(3) assms(3) by (auto simp: cached_blocks_def)
    then have "cache_chain (prev_free h') (K i) (C i) = cache_chain (prev_free h) (K i) (C i)"
      by (intro cache_chain_cong r(4))
    then show "cache_chain (prev_free h') (K i) (C i) \<and> distinct (C i) \<and> (\<forall>b\<in>set (C i). (b, 8 * i + 32, True) \<in> blocks_of S)"
      using g(2) i by (simp add: caches_ok_def)
  qed
  ultimately show ?thesis using r assms(3,4) by (simp add: mm_good_def)
qed

lemma take_free:
  assumes "mm_good K h S F C L" "b \<in> free_in S" "b \<notin> L"
  shows "\<exists>h' F'. zend_mm_remove_from_free_list b h = Some h' \<and> mm_good K h' S F' C (insert b L) \<and> core h' = core h"
proof -
  have b: "b \<in> free_blocks F" and l: "lists_ok h F" using assms by (auto simp: mm_good_def)
  obtain h' F' where r: "zend_mm_remove_from_free_list b h = Some h'" "removed h F b h' F'" using remove_free_ok [OF l b] by blast
  have "mm_good K h' S F' C (insert b L)"
    by (rule good_relists [OF assms(1) removed_relists [OF r(2)]]) (use assms b in \<open>auto simp: mm_good_def\<close>)
  then show ?thesis using r relists_core [OF removed_relists [OF r(2)]] by blast
qed

lemma put_free:
  assumes "mm_good K h S F C L" "b \<in> L"
  shows "\<exists>h' F'. zend_mm_add_to_free_list b h = Some h' \<and> mm_good K h' S F' C (L - {b}) \<and> core h' = core h"
    "\<exists>h' F'. zend_mm_add_to_rest_list b h = Some h' \<and> mm_good K h' S F' C (L - {b}) \<and> core h' = core h"
proof -
  have g: "lists_ok h F" "segs_ok h S" "b \<in> free_in S" "b \<notin> free_blocks F" using assms by (auto simp: mm_good_def)
  obtain n where "(b, n, False) \<in> blocks_of S" using g(3) by (auto simp: free_in_def)
  then have n: "info_size h b = Some n" "block_sized n" using block_info [OF g(2)] by fastforce+
  have e: "insert b (free_blocks F) \<union> (L - {b}) = free_in S" "insert b (free_blocks F) \<inter> (L - {b}) = {}"
    using assms g(4) by (auto simp: mm_good_def)
  obtain h1 F1 where a: "zend_mm_add_to_free_list b h = Some h1" "added h F b h1 F1" using add_free_ok [OF g(1) n g(4)] by blast
  show "\<exists>h' F'. zend_mm_add_to_free_list b h = Some h' \<and> mm_good K h' S F' C (L - {b}) \<and> core h' = core h"
    using a(1) good_relists [OF assms(1) added_relists [OF a(2)] e] relists_core [OF added_relists [OF a(2)]] by blast
  obtain h2 F2 where r: "zend_mm_add_to_rest_list b h = Some h2" "relists (insert b (free_blocks F)) h F h2 F2"
    using add_rest_ok [OF g(1) n g(4)] by blast
  show "\<exists>h' F'. zend_mm_add_to_rest_list b h = Some h' \<and> mm_good K h' S F' C (L - {b}) \<and> core h' = core h"
    using r(1) good_relists [OF assms(1) r(2) e] relists_core [OF r(2)] by blast
qed

text \<open>The links and list heads, which writing headers does not touch.\<close>

definition same_links :: "mm_heap \<Rightarrow> mm_heap \<Rightarrow> bool" where
  "same_links h h' \<longleftrightarrow> next_free h' = next_free h \<and> prev_free h' = prev_free h \<and> block_parent h' = block_parent h \<and>
     block_child h' = block_child h \<and> large_free_buckets h' = large_free_buckets h \<and> free_bitmap h' = free_bitmap h \<and>
     large_free_bitmap h' = large_free_bitmap h \<and> rest_count h' = rest_count h"

lemma good_retile:
  assumes "mm_good K h (S1 @ (s, xs @ mid @ ys) # S2) F C L" "same_segments h h'" "same_links h h'" "mid \<noteq> []" "mid' \<noteq> []"
    "retiled h h' b (last_tag 3 xs) n mid'" "coalesced (xs @ mid' @ ys)" "b = s + 16 + extent xs" "n = extent mid"
    "\<And>c m. (c, m, False) \<in> set (tiles_at b mid) \<Longrightarrow> c \<in> L" "\<And>c m. (c, m, True) \<in> set (tiles_at b mid) \<Longrightarrow> c \<notin> cached_blocks C"
  shows "mm_good K h' (S1 @ (s, xs @ mid' @ ys) # S2) F C (L - fst ` set (tiles_at b mid) \<union> {c. \<exists>m. (c, m, False) \<in> set (tiles_at b mid')})"
    "blocks_of (S1 @ (s, xs @ mid' @ ys) # S2) = blocks_of (S1 @ (s, xs @ mid @ ys) # S2) - set (tiles_at b mid) \<union> set (tiles_at b mid')"
proof -
  let ?S = "S1 @ (s, xs @ mid @ ys) # S2" and ?S' = "S1 @ (s, xs @ mid' @ ys) # S2"
  let ?A = "fst ` set (tiles_at b mid)" and ?N = "{c. \<exists>m. (c, m, False) \<in> set (tiles_at b mid')}"
  have g: "segs_ok h ?S" "lists_ok h F" "caches_ok K h ?S C" "free_blocks F \<union> L = free_in ?S" "free_blocks F \<inter> L = {}"
    using assms(1) by (simp_all add: mm_good_def)
  have g': "segs_ok h' ?S'" by (rule retile_segs [OF g(1) assms(2,4,5) _ assms(7)]) (use assms(6,8,9) in simp)
  have ext: "extent mid' = extent mid" using assms(6,9) by (simp add: retiled_def)
  note bl = blocks_retile [OF g(1) g' ext, folded assms(8)]
  show "blocks_of ?S' = blocks_of ?S - set (tiles_at b mid) \<union> set (tiles_at b mid')" by (rule bl)
  have midS: "set (tiles_at b mid) \<subseteq> blocks_of ?S" by (auto simp: seg_blocks_def assms(8))
  have free_out: "c < b \<or> b + n \<le> c" if c: "c \<in> free_blocks F" for c
  proof (rule ccontr)
    assume inr: "\<not> ?thesis"
    obtain k where k: "(c, k, False) \<in> blocks_of ?S" using c g(4) by (auto simp: free_in_def)
    have nm: "(c, t) \<notin> set (tiles_at b mid)" for t
    proof
      assume t: "(c, t) \<in> set (tiles_at b mid)"
      then have "t = (k, False)" using block_unique [OF g(1) _ k] midS by blast
      then show False using t assms(10) c g(5) by blast
    qed
    have "part h b (last_tag 3 xs) mid" "part h (s + 16) 3 xs" "part h (b + n) (last_tag (last_tag 3 xs) mid) ys"
      using g(1) tail_part [of h "s + 16" 3 "xs @ mid @ ys"] by (simp_all add: segs_ok_def seg_ok_def assms(8,9))
    note p = this
    obtain y where y: "y \<in> set ?S" "(c, k, False) \<in> seg_blocks y" using k by (auto simp: blocks_of_def)
    have "seg_ok h y" using g(1) y(1) unfolding segs_ok_def by blast
    then have "c \<in> span y" using seg_block_info(3,4) [of h y c "(k, False)"] y(2) by (simp add: span_def)
    moreover have "c \<in> span (s, xs @ mid @ ys)" using inr assms(8,9) by (simp add: span_def)
    ultimately have "y = (s, xs @ mid @ ys)"
      using apart_disjoint [of ?S y "(s, xs @ mid @ ys)"] g(1) y(1) by (auto simp: segs_ok_def)
    then have "(c, k, False) \<in> set (tiles_at (s + 16) xs) \<union> set (tiles_at (b + n) ys)"
      using y(2) nm [of "(k, False)"] by (simp add: seg_blocks_def assms(8,9) add.assoc)
    then show False
    proof
      assume x: "(c, k, False) \<in> set (tiles_at (s + 16) xs)"
      show False using tiles_info(2,4) [OF p(2) x] inr assms(8) by (simp add: block_sized_def)
    next
      assume y: "(c, k, False) \<in> set (tiles_at (b + n) ys)"
      show False using tiles_info(3) [OF p(3) y] inr by simp
    qed
  qed
  have "lists_ok h' F"
    by (rule lists_cong [OF g(2)]) (use assms(3,6) free_out in \<open>auto simp: same_links_def retiled_def\<close>)
  moreover have "caches_ok K h' ?S' C"
    unfolding caches_ok_def
  proof (intro allI impI)
    fix i :: nat assume i: "i < 64"
    have "(c, 8 * i + 32, True) \<in> blocks_of ?S'" if c: "c \<in> set (C i)" for c
    proof -
      have "c \<in> cached_blocks C" using c i by (auto simp: cached_blocks_def)
      then have "(c, 8 * i + 32, True) \<notin> set (tiles_at b mid)" using assms(11) by blast
      then show ?thesis using g(3) c i unfolding bl caches_ok_def by blast
    qed
    then show "cache_chain (prev_free h') (K i) (C i) \<and> distinct (C i) \<and> (\<forall>b\<in>set (C i). (b, 8 * i + 32, True) \<in> blocks_of ?S')"
      using g(3) i assms(3) by (simp add: caches_ok_def same_links_def)
  qed
  moreover have fn: "c \<notin> ?A" if "c \<in> free_blocks F" for c
  proof
    assume "c \<in> ?A"
    then obtain t where "(c, t) \<in> set (tiles_at b mid)" by auto
    moreover have "part h b (last_tag 3 xs) mid"
      using g(1) tail_part [of h "s + 16" 3 "xs @ mid @ ys"] by (simp add: segs_ok_def seg_ok_def assms(8))
    ultimately show False using tiles_info(2-4) [of h b "last_tag 3 xs" mid c t] free_out [OF that] assms(9) by (auto simp: block_sized_def)
  qed
  moreover have nf: "c \<notin> ?N" if "c \<in> free_blocks F" for c
  proof
    assume "c \<in> ?N"
    then obtain m where "(c, m, False) \<in> set (tiles_at b mid')" by auto
    moreover have "part h' b (last_tag 3 xs) mid'" using assms(6) by (simp add: retiled_def)
    ultimately show False using tiles_info(2-4) [of h' b "last_tag 3 xs" mid' c "(m, False)"] free_out [OF that] ext assms(9)
      by (auto simp: block_sized_def)
  qed
  moreover have "free_blocks F \<union> (L - ?A \<union> ?N) = free_in ?S'"
  proof -
    have "free_in ?S' = {c. \<exists>m. (c, m, False) \<in> blocks_of ?S \<and> (c, m, False) \<notin> set (tiles_at b mid)} \<union> ?N"
      unfolding free_in_def bl by blast
    also have "{c. \<exists>m. (c, m, False) \<in> blocks_of ?S \<and> (c, m, False) \<notin> set (tiles_at b mid)} = free_in ?S - ?A"
    proof (intro set_eqI iffI)
      fix c assume "c \<in> {c. \<exists>m. (c, m, False) \<in> blocks_of ?S \<and> (c, m, False) \<notin> set (tiles_at b mid)}"
      then obtain m where m: "(c, m, False) \<in> blocks_of ?S" "(c, m, False) \<notin> set (tiles_at b mid)" by blast
      have "(c, t) \<notin> set (tiles_at b mid)" for t using block_unique [OF g(1) m(1), of t] midS m(2) by blast
      then show "c \<in> free_in ?S - ?A" using m(1) by (auto simp: free_in_def)
    next
      fix c assume "c \<in> free_in ?S - ?A"
      then show "c \<in> {c. \<exists>m. (c, m, False) \<in> blocks_of ?S \<and> (c, m, False) \<notin> set (tiles_at b mid)}"
        by (force simp: free_in_def)
    qed
    finally show ?thesis using g(4) fn by blast
  qed
  ultimately show "mm_good K h' ?S' F C (L - ?A \<union> ?N)" using g' g(5) unfolding mm_good_def by blast
qed

end
