(* ===== verification/ZendAllocSegments.thy ===== *)
theory ZendAllocSegments
  imports ZendAllocLayout
begin

text \<open>Segments come, go and move; blocks enter and leave the cache.\<close>

lemma unat_minus_nat:
  fixes w :: ulong
  shows "n \<le> unat w \<Longrightarrow> unat (w - of_nat n) = unat w - n"
proof -
  assume n: "n \<le> unat w"
  have "unat w < 2 ^ 64" using unsigned_less [of w] by simp
  with n have "n < 2 ^ 64" by (rule le_less_trans)
  then have e: "unat (of_nat n :: ulong) = n" by (simp add: unat_of_nat)
  then have "of_nat n \<le> w" using n by (simp add: word_le_nat_alt)
  then show ?thesis using e by (simp add: unat_sub)
qed

lemma unat_plus_nat:
  fixes w :: ulong
  shows "unat w + n < 2 ^ 64 \<Longrightarrow> unat (w + of_nat n) = unat w + n"
  by (simp add: unat_word_ariths unat_of_nat)

subsection \<open>Fields that do not matter\<close>

definition same_memory :: "mm_heap \<Rightarrow> mm_heap \<Rightarrow> bool" where
  "same_memory h h' \<longleftrightarrow> info_size h' = info_size h \<and> info_prev h' = info_prev h \<and> same_segments h h' \<and> same_links h h'"

lemma good_same:
  assumes "mm_good K h S F C L" "same_memory h h'"
  shows "mm_good K h' S F C L"
proof -
  have e: "info_size h' = info_size h" "info_prev h' = info_prev h" "same_segments h h'" "same_links h h'"
    using assms(2) by (simp_all add: same_memory_def)
  have g: "segs_ok h S" "lists_ok h F" "caches_ok K h S C" using assms(1) by (simp_all add: mm_good_def)
  have "seg_ok h' x" if "seg_ok h x" for x
    using seg_ok_cong [OF that, of h'] e by (simp add: same_segments_def)
  then have "segs_ok h' S" using g(1) e(3) by (simp add: segs_ok_def same_segments_def)
  moreover have "lists_ok h' F" by (rule lists_cong [OF g(2)]) (use e in \<open>simp_all add: same_links_def\<close>)
  moreover have "caches_ok K h' S C" using g(3) e(4) by (simp add: caches_ok_def same_links_def)
  ultimately show ?thesis using assms(1) by (simp add: mm_good_def)
qed

lemma same_memory_updates [simp]:
  "same_memory h (h\<lparr>mm_size := v\<rparr>)" "same_memory h (h\<lparr>mm_peak := v\<rparr>)" "same_memory h (h\<lparr>real_peak := v\<rparr>)"
  "same_memory h (h\<lparr>cached := w\<rparr>)" "same_memory h (h\<lparr>cache := k\<rparr>)" "same_memory h (h\<lparr>reserve := r\<rparr>)"
  "same_memory h (h\<lparr>overflow := n\<rparr>)" "same_memory h (h\<lparr>payload := p\<rparr>)" "same_memory h (h\<lparr>mm_limit := v\<rparr>)"
  "same_memory h (raise_peak h)" "same_memory h (raise_real_peak h)" "same_memory h (copy_payload d s n h)"
  by (simp_all add: same_memory_def same_segments_def same_links_def raise_peak_def raise_real_peak_def copy_payload_def)

lemma same_memory_trans: "\<lbrakk>same_memory h g; same_memory g k\<rbrakk> \<Longrightarrow> same_memory h k"
  by (simp add: same_memory_def same_segments_def same_links_def)

subsection \<open>Exchange of segments\<close>

lemma apart_fst: "apart S \<Longrightarrow> distinct (map fst S)"
proof (induction S)
  case (Cons x S)
  have "fst y \<noteq> fst x" if "y \<in> set S" for y
  proof
    assume "fst y = fst x"
    then have "fst x \<in> span x \<inter> span y" by (simp add: span_def)
    then show False using Cons.prems that by (auto simp: apart_def)
  qed
  then have "fst x \<notin> fst ` set S" by force
  then show ?case using Cons by (simp add: apart_def)
qed simp

lemma other_block_span:
  assumes "segs_ok h (S1 @ X @ S2)" "(c, t) \<in> blocks_of (S1 @ X @ S2)" "(c, t) \<notin> blocks_of X"
  shows "\<exists>y \<in> set S1 \<union> set S2. (c, t) \<in> seg_blocks y \<and> c \<in> span y"
proof -
  obtain y where y: "y \<in> set S1 \<union> set S2" "(c, t) \<in> seg_blocks y" using assms(2,3) by (auto simp: blocks_of_def)
  then have "seg_ok h y" using assms(1) by (auto simp: segs_ok_def)
  then have "c \<in> span y" using seg_block_info(3,4) [of h y c t] y(2) by (simp add: span_def)
  then show ?thesis using y by blast
qed

definition same_heads :: "mm_heap \<Rightarrow> mm_heap \<Rightarrow> bool" where
  "same_heads h h' \<longleftrightarrow> (\<forall>i. next_free h' (Small_Bucket i) = next_free h (Small_Bucket i) \<and> prev_free h' (Small_Bucket i) = prev_free h (Small_Bucket i)) \<and>
     next_free h' Rest_Bucket = next_free h Rest_Bucket \<and> prev_free h' Rest_Bucket = prev_free h Rest_Bucket \<and>
     large_free_buckets h' = large_free_buckets h \<and> free_bitmap h' = free_bitmap h \<and> large_free_bitmap h' = large_free_bitmap h \<and>
     rest_count h' = rest_count h"

definition same_at :: "mm_heap \<Rightarrow> mm_heap \<Rightarrow> addr \<Rightarrow> bool" where
  "same_at h h' x \<longleftrightarrow> info_size h' x = info_size h x \<and> info_prev h' x = info_prev h x \<and> next_free h' (Blk x) = next_free h (Blk x) \<and>
     prev_free h' (Blk x) = prev_free h (Blk x) \<and> block_parent h' x = block_parent h x \<and> (\<forall>c. block_child h' (x, c) = block_child h (x, c))"

lemma good_exchange:
  assumes "mm_good K h (S1 @ X @ S2) F C L" "chain (next_segment h') (segments_list h') (map fst (S1 @ Y @ S2))"
    "\<And>x. x \<in> set Y \<Longrightarrow> seg_ok h' x" "\<And>y. y \<in> set S1 \<union> set S2 \<Longrightarrow> segment_size h' (fst y) = segment_size h (fst y)"
    "\<And>y x. y \<in> set S1 \<union> set S2 \<Longrightarrow> x \<in> span y \<Longrightarrow> same_at h h' x" "same_heads h h'" "apart (S1 @ Y @ S2)"
    "unat (real_size h') = mem_total (S1 @ Y @ S2)" "mem_total (S1 @ Y @ S2) < 2 ^ 31"
    "\<And>c m. (c, m, False) \<in> blocks_of X \<Longrightarrow> c \<in> L" "\<And>c m. (c, m, True) \<in> blocks_of X \<Longrightarrow> c \<notin> cached_blocks C"
  shows "mm_good K h' (S1 @ Y @ S2) F C (L - fst ` blocks_of X \<union> free_in Y)"
proof -
  let ?S = "S1 @ X @ S2" and ?S' = "S1 @ Y @ S2"
  have g: "segs_ok h ?S" "lists_ok h F" "caches_ok K h ?S C" "free_blocks F \<union> L = free_in ?S" "free_blocks F \<inter> L = {}"
    using assms(1) by (simp_all add: mm_good_def)
  have old: "seg_ok h y" if "y \<in> set S1 \<union> set S2" for y using g(1) that by (auto simp: segs_ok_def)
  have keep: "seg_ok h' y" if y: "y \<in> set S1 \<union> set S2" for y
    using seg_ok_cong [OF old [OF y] assms(4) [OF y]] assms(5) [OF y] by (simp add: same_at_def)
  have g': "segs_ok h' ?S'" using assms(2,3,7-9) keep by (auto simp: segs_ok_def)
  have freeb: "\<exists>n. (c, n, False) \<in> blocks_of S1 \<union> blocks_of S2" and fspan: "\<exists>y \<in> set S1 \<union> set S2. c \<in> span y"
    if c: "c \<in> free_blocks F" for c
  proof -
    obtain n where n: "(c, n, False) \<in> blocks_of ?S" using c g(4) by (auto simp: free_in_def)
    have nx: "(c, n, False) \<notin> blocks_of X" using assms(10) c g(5) by blast
    then show "\<exists>n. (c, n, False) \<in> blocks_of S1 \<union> blocks_of S2" using n by auto
    show "\<exists>y \<in> set S1 \<union> set S2. c \<in> span y" using other_block_span [OF g(1) n nx] by blast
  qed
  have same: "same_at h h' c" if "c \<in> free_blocks F" for c using fspan [OF that] assms(5) by blast
  have "lists_ok h' F"
    by (rule lists_cong [OF g(2)]) (use assms(6) same in \<open>auto simp: same_heads_def same_at_def\<close>)
  moreover have "caches_ok K h' ?S' C"
    unfolding caches_ok_def
  proof (intro allI impI)
    fix i :: nat assume i: "i < 64"
    have c: "(c, 8 * i + 32, True) \<in> blocks_of S1 \<union> blocks_of S2 \<and> prev_free h' (Blk c) = prev_free h (Blk c)" if c: "c \<in> set (C i)" for c
    proof -
      have b: "(c, 8 * i + 32, True) \<in> blocks_of ?S" using g(3) i c by (auto simp: caches_ok_def)
      moreover have nx: "(c, 8 * i + 32, True) \<notin> blocks_of X" using assms(11) c i by (auto simp: cached_blocks_def)
      moreover obtain y where "y \<in> set S1 \<union> set S2" "c \<in> span y" using other_block_span [OF g(1) b nx] by blast
      ultimately show ?thesis using assms(5) [of y c] by (auto simp: same_at_def)
    qed
    then have "cache_chain (prev_free h') (K i) (C i) = cache_chain (prev_free h) (K i) (C i)" by (intro cache_chain_cong) blast
    then show "cache_chain (prev_free h') (K i) (C i) \<and> distinct (C i) \<and> (\<forall>b\<in>set (C i). (b, 8 * i + 32, True) \<in> blocks_of ?S')"
      using g(3) i c by (auto simp: caches_ok_def)
  qed
  moreover have "free_in ?S' = free_in S1 \<union> free_in S2 \<union> free_in Y" by (auto simp: free_in_def)
  moreover have "free_in S1 \<union> free_in S2 = free_blocks F \<union> (L - fst ` blocks_of X)"
  proof (intro set_eqI iffI)
    fix c assume "c \<in> free_in S1 \<union> free_in S2"
    then obtain n where n: "(c, n, False) \<in> blocks_of S1 \<union> blocks_of S2" by (auto simp: free_in_def)
    then have "c \<in> free_in ?S" by (auto simp: free_in_def)
    moreover have "c \<notin> fst ` blocks_of X"
    proof
      assume "c \<in> fst ` blocks_of X"
      then obtain t x where x: "x \<in> set X" "(c, t) \<in> seg_blocks x" by (auto simp: blocks_of_def)
      obtain y where y: "y \<in> set S1 \<union> set S2" "(c, n, False) \<in> seg_blocks y" using n by (auto simp: blocks_of_def)
      have "seg_ok h x" "seg_ok h y" using g(1) x y by (auto simp: segs_ok_def)
      then have "c \<in> span x \<inter> span y"
        using seg_block_info(3,4) [of h x c t] x(2) seg_block_info(3,4) [of h y c "(n, False)"] y(2) by (simp add: span_def)
      moreover have "span y \<inter> span x = {}"
        using g(1) x y by (fastforce simp: segs_ok_def apart_def sorted_wrt_append Int_commute)
      ultimately show False by blast
    qed
    ultimately show "c \<in> free_blocks F \<union> (L - fst ` blocks_of X)" using g(4) by blast
  next
    fix c assume c: "c \<in> free_blocks F \<union> (L - fst ` blocks_of X)"
    then show "c \<in> free_in S1 \<union> free_in S2"
    proof
      assume "c \<in> free_blocks F"
      then show ?thesis using freeb by (auto simp: free_in_def)
    next
      assume "c \<in> L - fst ` blocks_of X"
      moreover then obtain n where "(c, n, False) \<in> blocks_of ?S" using g(4) by (auto simp: free_in_def)
      ultimately show ?thesis by (force simp: free_in_def)
    qed
  qed
  moreover have "free_blocks F \<inter> free_in Y = {}"
  proof -
    have False if c: "c \<in> free_blocks F" "c \<in> free_in Y" for c
    proof -
      obtain n x where x: "x \<in> set Y" "(c, n, False) \<in> seg_blocks x" using c(2) by (auto simp: free_in_def blocks_of_def)
      obtain y where y: "y \<in> set S1 \<union> set S2" "c \<in> span y" using fspan [OF c(1)] by blast
      have "c \<in> span x" using seg_block_info(3,4) [OF assms(3) [OF x(1)] x(2)] by (simp add: span_def)
      moreover have "span y \<inter> span x = {}" using assms(7) x(1) y(1) by (fastforce simp: apart_def sorted_wrt_append Int_commute)
      ultimately show False using y(2) by blast
    qed
    then show ?thesis by blast
  qed
  ultimately show ?thesis using g' g(5) unfolding mm_good_def by auto
qed

subsection \<open>A segment is released\<close>

lemma chain_distinct_tl: "chain nx v (s # ss) \<Longrightarrow> \<exists>w. v = Some s \<and> nx s = Some w \<and> chain nx w ss"
  by simp

definition ref_of :: "addr list \<Rightarrow> segment_ref" where
  "ref_of as = (if as = [] then Segments_List else Next_Of (last as))"

lemma find_segment_from:
  assumes "chain (next_segment h) v (as @ s # bs)" "s \<notin> set as" "segment_at r h = Some v"
  shows "find_segment r s h = Some (if as = [] then r else Next_Of (last as))"
  using assms
proof (induction as arbitrary: v r)
  case Nil
  then show ?case by (subst find_segment.simps) simp
next
  case (Cons a as)
  then obtain w where w: "v = Some a" "next_segment h a = Some w" "chain (next_segment h) w (as @ s # bs)" by auto
  have "find_segment (Next_Of a) s h = Some (if as = [] then Next_Of a else Next_Of (last as))"
    using Cons.prems(2) w by (intro Cons.IH [OF w(3)]) (simp_all add: segment_at_def)
  then show ?case using Cons.prems w(1) by (subst find_segment.simps) auto
qed

lemma find_segment_ok:
  assumes "chain (next_segment h) (segments_list h) (as @ s # bs)" "s \<notin> set as"
  shows "find_segment Segments_List s h = Some (ref_of as)"
  using find_segment_from [OF assms, of Segments_List] by (simp add: segment_at_def ref_of_def)

lemma chain_mid: "chain nx v (as @ s # bs) \<Longrightarrow> \<exists>w. nx s = Some w \<and> chain nx w bs"
  by (induction as arbitrary: v) auto

lemma chain_redirect:
  assumes "chain nx v (as @ s # bs)" "chain nx w cs" "distinct as" "set as \<inter> set cs = {}" "as \<noteq> []"
  shows "chain (nx(last as \<mapsto> w)) v (as @ cs)"
  using assms(1,3-5)
proof (induction as arbitrary: v)
  case (Cons a as)
  obtain u where u: "v = Some a" "nx a = Some u" "chain nx u (as @ s # bs)" using Cons.prems(1) by auto
  show ?case
  proof (cases "as = []")
    case True
    have "chain (nx(a \<mapsto> w)) w cs = chain nx w cs" by (rule chain_cong) (use Cons.prems(3) in auto)
    then show ?thesis using True u(1) assms(2) by (simp add: fun_upd_def)
  next
    case False
    have "last as \<noteq> a" using False Cons.prems(2) by auto
    then show ?thesis using Cons.IH [OF u(3)] Cons.prems False u by simp
  qed
qed simp

lemma chain_set:
  assumes "chain (next_segment h) (segments_list h) (as @ s # bs)" "chain (next_segment h) w cs" "distinct as" "set as \<inter> set cs = {}"
  shows "chain (next_segment (set_segment_at (ref_of as) w h)) (segments_list (set_segment_at (ref_of as) w h)) (as @ cs)"
  using assms chain_redirect [OF assms]
  by (cases "as = []") (simp_all add: ref_of_def set_segment_at_def)

lemma del_segment_ok:
  assumes "mm_good K h (S1 @ (s, ts) # S2) F C L"
    "\<And>c m. (c, m, False) \<in> seg_blocks (s, ts) \<Longrightarrow> c \<in> L" "\<And>c m. (c, m, True) \<in> seg_blocks (s, ts) \<Longrightarrow> c \<notin> cached_blocks C"
  shows "\<exists>h'. zend_mm_del_segment s h = Some h' \<and> mm_good K h' (S1 @ S2) F C (L - fst ` seg_blocks (s, ts)) \<and>
    payload h' = payload h \<and> cache h' = cache h \<and> reserve h' = reserve h \<and> mm_limit h' = mm_limit h \<and> block_size h' = block_size h"
proof -
  let ?n = "extent ts + 32"
  have g: "segs_ok h (S1 @ (s, ts) # S2)" using assms(1) by (simp add: mm_good_def)
  then have ch: "chain (next_segment h) (segments_list h) (map fst S1 @ s # map fst S2)" and ap: "apart (S1 @ (s, ts) # S2)"
    and sz: "segment_size h s = Some ?n" and tot: "unat (real_size h) = mem_total (S1 @ (s, ts) # S2)" "mem_total (S1 @ (s, ts) # S2) < 2 ^ 31"
    by (simp_all add: segs_ok_def seg_ok_def)
  have d: "distinct (map fst S1 @ s # map fst S2)" using apart_fst [OF ap] by simp
  obtain w where w: "next_segment h s = Some w" "chain (next_segment h) w (map fst S2)" using chain_mid [OF ch] by blast
  let ?r = "ref_of (map fst S1)"
  let ?h1 = "set_segment_at ?r w h"
  let ?h2 = "?h1\<lparr>real_size := real_size ?h1 - of_nat ?n\<rparr>"
  let ?h3 = "forget s ?n ?h2"
  let ?h' = "?h3\<lparr>segment_size := (segment_size ?h3)(s := None), next_segment := (next_segment ?h3)(s := None)\<rparr>"
  have f: "find_segment Segments_List s h = Some ?r" by (rule find_segment_ok [OF ch]) (use d in simp)
  have sz1: "segment_size ?h1 = segment_size h" by (simp add: set_segment_at_def split: segment_ref.split)
  have del: "zend_mm_del_segment s h = Some ?h'"
    using f w(1) sz sz1 by (simp add: zend_mm_del_segment_def ZEND_MM_STORAGE_FREE_def Let_def)
  have ds: "set (map fst S1) \<inter> set (map fst S2) = {}" "distinct (map fst S1)" using d by auto
  note cs = chain_set [OF ch w(2) ds(2,1)]
  have ch': "chain (next_segment ?h') (segments_list ?h') (map fst (S1 @ S2))"
  proof -
    have "chain (next_segment ?h') (segments_list ?h1) (map fst S1 @ map fst S2) =
        chain (next_segment ?h1) (segments_list ?h1) (map fst S1 @ map fst S2)"
      by (rule chain_cong) (use d in \<open>auto simp: forget_def\<close>)
    then show ?thesis using cs by (simp add: forget_def)
  qed
  have flds: "info_size ?h1 = info_size h" "info_prev ?h1 = info_prev h" "next_free ?h1 = next_free h" "prev_free ?h1 = prev_free h"
    "block_parent ?h1 = block_parent h" "block_child ?h1 = block_child h" "large_free_buckets ?h1 = large_free_buckets h"
    "free_bitmap ?h1 = free_bitmap h" "large_free_bitmap ?h1 = large_free_bitmap h" "rest_count ?h1 = rest_count h" "real_size ?h1 = real_size h"
    by (simp_all add: set_segment_at_def split: segment_ref.split)
  have "mm_good K ?h' (S1 @ [] @ S2) F C (L - fst ` blocks_of [(s, ts)] \<union> free_in [])"
  proof (rule good_exchange)
    show "mm_good K h (S1 @ [(s, ts)] @ S2) F C L" using assms(1) by simp
    show "chain (next_segment ?h') (segments_list ?h') (map fst (S1 @ [] @ S2))" using ch' by simp
    show "segment_size ?h' (fst y) = segment_size h (fst y)" if "y \<in> set S1 \<union> set S2" for y
    proof -
      have "fst y \<noteq> s" using d that by auto
      then show ?thesis using sz1 by (simp add: forget_def)
    qed
    show "same_at h ?h' x" if "y \<in> set S1 \<union> set S2" "x \<in> span y" for y x
    proof -
      have "span y \<inter> span (s, ts) = {}" using ap that(1) by (fastforce simp: apart_def sorted_wrt_append Int_commute)
      then have "x \<notin> {s..<s + ?n}" using that(2) by (auto simp: span_def)
      then show ?thesis by (auto simp: same_at_def forget_def flds restrict_map_def)
    qed
    show "same_heads h ?h'" by (auto simp: same_heads_def forget_def flds restrict_map_def)
    show "apart (S1 @ [] @ S2)" using ap by (auto simp: apart_def sorted_wrt_append)
    have "?n \<le> unat (real_size h)" using tot by simp
    then have "unat (real_size h - of_nat ?n) = unat (real_size h) - ?n" by (rule unat_minus_nat)
    then show "unat (real_size ?h') = mem_total (S1 @ [] @ S2)" using tot by (simp add: forget_def flds)
    show "mem_total (S1 @ [] @ S2) < 2 ^ 31" using tot by simp
  qed (use assms(2,3) in simp_all)
  moreover have "payload ?h' = payload h \<and> cache ?h' = cache h \<and> reserve ?h' = reserve h \<and> mm_limit ?h' = mm_limit h \<and> block_size ?h' = block_size h"
    by (simp add: forget_def set_segment_at_def split: segment_ref.split)
  ultimately show ?thesis using del by (auto simp: free_in_def)
qed

subsection \<open>A segment comes\<close>

lemma new_segment_ok:
  assumes "mm_good K h S F C L" "seg_ok h' (s, ts)" "segments_list h' = Some s" "next_segment h' = (next_segment h)(s \<mapsto> segments_list h)"
    "segment_size h' = (segment_size h)(s \<mapsto> extent ts + 32)" "same_links h h'" "\<And>y. y \<in> set S \<Longrightarrow> span (s, ts) \<inter> span y = {}"
    "\<And>x. x \<notin> span (s, ts) \<Longrightarrow> info_size h' x = info_size h x \<and> info_prev h' x = info_prev h x"
    "real_size h' = real_size h + of_nat (extent ts + 32)" "mem_total S + extent ts + 32 < 2 ^ 31"
  shows "mm_good K h' ((s, ts) # S) F C (L \<union> free_in [(s, ts)])"
proof -
  have g: "segs_ok h S" using assms(1) by (simp add: mm_good_def)
  have ap: "apart ((s, ts) # S)" using g assms(7) by (simp add: apart_def segs_ok_def)
  then have d: "s \<notin> set (map fst S)" using apart_fst [OF ap] by simp
  have "mm_good K h' ([] @ [(s, ts)] @ S) F C (L - fst ` blocks_of [] \<union> free_in [(s, ts)])"
  proof (rule good_exchange)
    have "chain (next_segment h') (segments_list h) (map fst S) = chain (next_segment h) (segments_list h) (map fst S)"
      by (rule chain_cong) (use d assms(4) in auto)
    then show "chain (next_segment h') (segments_list h') (map fst ([] @ [(s, ts)] @ S))"
      using g assms(3,4) by (simp add: segs_ok_def)
    have "unat (real_size h + of_nat (extent ts + 32)) = unat (real_size h) + (extent ts + 32)"
      using g assms(10) by (intro unat_plus_nat) (simp add: segs_ok_def)
    then show "unat (real_size h') = mem_total ([] @ [(s, ts)] @ S)" using g assms(9) by (simp add: segs_ok_def)
    show "same_at h h' x" if "y \<in> set [] \<union> set S" "x \<in> span y" for y x
    proof -
      have "x \<notin> span (s, ts)" using assms(7) [of y] that by auto
      then show ?thesis using assms(6,8) by (auto simp: same_at_def same_links_def)
    qed
    show "segment_size h' (fst y) = segment_size h (fst y)" if "y \<in> set [] \<union> set S" for y
      using d assms(5) that by auto
  qed (use assms ap in \<open>auto simp: same_heads_def same_links_def\<close>)
  then show ?thesis by simp
qed

subsection \<open>The cache\<close>

lemma push_cache_ok:
  assumes "mm_good K h S F C L" "(b, n, True) \<in> blocks_of S" "n < 544" "b \<notin> cached_blocks C" "K = cache h"
  shows "\<exists>h'. push_cache (ZEND_MM_BUCKET_INDEX n) b h = Some h' \<and>
    mm_good (cache h') h' S F (C(ZEND_MM_BUCKET_INDEX n := b # C (ZEND_MM_BUCKET_INDEX n))) L \<and>
    h' = (set_prev_free (Blk b) (cache_ptr (cache h (ZEND_MM_BUCKET_INDEX n))) h)\<lparr>cache := (cache h)(ZEND_MM_BUCKET_INDEX n \<mapsto> b)\<rparr>"
proof -
  let ?i = "ZEND_MM_BUCKET_INDEX n"
  let ?h' = "(set_prev_free (Blk b) (cache_ptr (cache h ?i)) h)\<lparr>cache := (cache h)(?i \<mapsto> b)\<rparr>"
  have g: "segs_ok h S" "lists_ok h F" "caches_ok K h S C" "free_blocks F \<union> L = free_in S" using assms(1) by (simp_all add: mm_good_def)
  have sz: "block_sized n" using block_info(2) [OF g(1) assms(2)] by simp
  have i: "?i < 64" "n = 8 * ?i + 32"
  proof -
    show "?i < 64" using sz assms(3) by (auto simp: block_sized_def intro: bucket_index(2))
    have "?i = n div 8 - 4" using sz assms(3) by (auto simp: block_sized_def intro: bucket_index(1))
    moreover have "n div 8 * 8 = n" "4 \<le> n div 8" using sz by (auto simp: block_sized_def)
    ultimately show "n = 8 * ?i + 32" by simp
  qed
  have bf: "b \<notin> free_blocks F"
    using free_not_used [OF g(1)] assms(2) g(4) by (auto simp: used_in_def)
  have sm: "same_segments h ?h'" "info_size ?h' = info_size h" "info_prev ?h' = info_prev h"
    by (simp_all add: same_segments_def set_prev_free_def)
  have "seg_ok ?h' x" if "seg_ok h x" for x
    using seg_ok_cong [OF that, of ?h'] sm by (simp add: same_segments_def)
  then have "segs_ok ?h' S" using g(1) sm(1) by (simp add: segs_ok_def same_segments_def)
  moreover have "lists_ok ?h' F"
    by (rule lists_cong [OF g(2)]) (use bf in \<open>auto simp: set_prev_free_def\<close>)
  moreover have "caches_ok (cache ?h') ?h' S (C(?i := b # C ?i))"
    unfolding caches_ok_def
  proof (intro allI impI)
    fix j :: nat assume j: "j < 64"
    have nb: "b \<notin> set (C j)" using assms(4) j by (auto simp: cached_blocks_def)
    then have "cache_chain (prev_free ?h') (cache h j) (C j) = cache_chain (prev_free h) (cache h j) (C j)"
      by (intro cache_chain_cong) (auto simp: set_prev_free_def)
    then have "cache_chain (prev_free ?h') (cache h j) (C j)" "distinct (C j)" "\<forall>b\<in>set (C j). (b, 8 * j + 32, True) \<in> blocks_of S"
      using g(3) j assms(5) by (simp_all add: caches_ok_def)
    then show "cache_chain (prev_free ?h') (cache ?h' j) ((C(?i := b # C ?i)) j) \<and> distinct ((C(?i := b # C ?i)) j) \<and>
        (\<forall>c\<in>set ((C(?i := b # C ?i)) j). (c, 8 * j + 32, True) \<in> blocks_of S)"
      using nb assms(2) i(2) by (auto simp: set_prev_free_def)
  qed
  ultimately have "mm_good (cache ?h') ?h' S F (C(?i := b # C ?i)) L" using assms(1) by (simp add: mm_good_def)
  moreover have "push_cache ?i b h = Some ?h'" using i(1) by (simp add: push_cache_def)
  ultimately show ?thesis by blast
qed

lemma pop_cache_ok:
  assumes "mm_good K h S F C L" "i < 64" "K i = Some b"
  shows "\<exists>w bs. cache_next b h = Some w \<and> C i = b # bs \<and> mm_good (K(i := w)) h S F (C(i := bs)) L \<and>
    (b, 8 * i + 32, True) \<in> blocks_of S \<and> b \<notin> cached_blocks (C(i := bs))"
proof -
  have g: "segs_ok h S" "caches_ok K h S C" using assms(1) by (simp_all add: mm_good_def)
  have c: "cache_chain (prev_free h) (K i) (C i)" "distinct (C i)" "\<forall>b\<in>set (C i). (b, 8 * i + 32, True) \<in> blocks_of S"
    using g(2) assms(2) by (simp_all add: caches_ok_def)
  obtain bs where bs: "C i = b # bs" using c(1) assms(3) by (cases "C i") auto
  obtain w where w: "prev_free h (Blk b) = Some (cache_ptr w)" "cache_chain (prev_free h) w bs" using c(1) bs by auto
  have "caches_ok (K(i := w)) h S (C(i := bs))"
    using g(2) w(2) c(2,3) bs by (auto simp: caches_ok_def)
  moreover have m: "(b, 8 * i + 32, True) \<in> blocks_of S" using c(3) bs by simp
  moreover have "b \<notin> cached_blocks (C(i := bs))"
  proof
    assume "b \<in> cached_blocks (C(i := bs))"
    then obtain j where j: "j < 64" "b \<in> set ((C(i := bs)) j)" by (auto simp: cached_blocks_def)
    then have "j \<noteq> i" using c(2) bs by auto
    then have "(b, 8 * j + 32, True) \<in> blocks_of S" using g(2) j by (auto simp: caches_ok_def)
    from block_unique [OF g(1) this m] show False using \<open>j \<noteq> i\<close> by simp
  qed
  ultimately show ?thesis using assms(1) w(1) bs by (auto simp: mm_good_def cache_next_ptr)
qed

end
