(* ===== verification/ZendAllocBlocks.thy ===== *)
theory ZendAllocBlocks
  imports ZendAllocSegments
begin

text \<open>Blocks are released and merged, and cut to size.\<close>

definition used_blocks :: "segment list \<Rightarrow> (addr \<times> nat) set" where
  "used_blocks S = {(b, n). (b, n, True) \<in> blocks_of S}"

definition same_user :: "mm_heap \<Rightarrow> mm_heap \<Rightarrow> bool" where
  "same_user h h' \<longleftrightarrow> payload h' = payload h \<and> cache h' = cache h \<and> reserve h' = reserve h \<and> mm_limit h' = mm_limit h \<and>
     block_size h' = block_size h"

lemma same_user_core: "core h' = core h \<Longrightarrow> same_user h h'"
  using core_fields [of h' h] by (simp add: same_user_def)

lemma same_user_trans: "\<lbrakk>same_user h g; same_user g k\<rbrakk> \<Longrightarrow> same_user h k"
  by (simp add: same_user_def)

lemma header_updates [simp]:
  "info_size (ZEND_MM_BLOCK b ty n h) = (info_size h)(b \<mapsto> ty OR n)"
  "info_prev (ZEND_MM_BLOCK b ty n h) = (info_prev h)(b + n \<mapsto> ty OR n)"
  "same_segments h (ZEND_MM_BLOCK b ty n h)" "same_links h (ZEND_MM_BLOCK b ty n h)" "same_user h (ZEND_MM_BLOCK b ty n h)"
  by (simp_all add: ZEND_MM_BLOCK_def same_segments_def same_links_def same_user_def)

lemma same_segments_trans: "\<lbrakk>same_segments h g; same_segments g k\<rbrakk> \<Longrightarrow> same_segments h k"
  by (simp add: same_segments_def)

lemma same_links_trans: "\<lbrakk>same_links h g; same_links g k\<rbrakk> \<Longrightarrow> same_links h k"
  by (simp add: same_links_def)

lemma locate:
  assumes "(b, t) \<in> blocks_of S"
  shows "\<exists>S1 s xs ys S2. S = S1 @ (s, xs @ t # ys) # S2 \<and> b = s + 16 + extent xs"
proof -
  obtain s ts where x: "(s, ts) \<in> set S" "(b, t) \<in> set (tiles_at (s + 16) ts)" using assms by (auto simp: blocks_of_def seg_blocks_def)
  obtain S1 S2 where "S = S1 @ (s, ts) # S2" using split_list [OF x(1)] by blast
  moreover obtain xs ys where "ts = xs @ t # ys" "b = s + 16 + extent xs" using x(2) tiles_split by blast
  ultimately show ?thesis by blast
qed

lemma seg_parts:
  assumes "segs_ok h (S1 @ (s, xs @ t # ys) # S2)" "b = s + 16 + extent xs"
  shows "tail h (b + fst t) (tag t) ys" "part h (s + 16) 3 xs" "info_size h b = Some (tag t)" "info_prev h b = Some (last_tag 3 xs)"
    "block_sized (fst t)" "coalesced (xs @ t # ys)" "extent (xs @ t # ys) < 2 ^ 31"
  using assms by (simp_all add: segs_ok_def seg_ok_def tail_append)

lemma coalesced_append:
  "coalesced (xs @ ys) \<longleftrightarrow> coalesced xs \<and> coalesced ys \<and> (xs = [] \<or> ys = [] \<or> snd (last xs) \<or> snd (hd ys))"
  unfolding coalesced_def by (auto simp: successively_append_iff)

lemma coalesced_single [simp]: "coalesced []" "coalesced [t]"
  by (simp_all add: coalesced_def)

lemma coalesced_Cons: "coalesced (t # ts) \<longleftrightarrow> coalesced ts \<and> (ts = [] \<or> snd t \<or> snd (hd ts))"
  by (cases ts) (auto simp: coalesced_def)

text \<open>The free neighbours of a block.\<close>

lemma next_neighbour:
  assumes "mm_good K h S F C L" "S = S1 @ (s, xs @ (n, True) # ys) # S2" "b = s + 16 + extent xs" "b + n \<notin> L"
  shows "\<exists>ns zs ys' h' F'. ys = zs @ ys' \<and> info_size h (b + n) = Some ns \<and> (zs = [] \<or> (\<exists>k. zs = [(k, False)])) \<and>
    (ys' = [] \<or> snd (hd ys')) \<and> (ZEND_MM_IS_FREE_BLOCK ns \<longleftrightarrow> zs \<noteq> []) \<and>
    (zs \<noteq> [] \<longrightarrow> ns = extent zs \<and> zend_mm_remove_from_free_list (b + n) h = Some h') \<and> (zs = [] \<longrightarrow> h' = h \<and> F' = F) \<and>
    mm_good K h' S F' C (L \<union> fst ` set (tiles_at (b + n) zs)) \<and> core h' = core h"
proof -
  have g: "segs_ok h S" using assms(1) by (simp add: mm_good_def)
  note sp = seg_parts [OF g [unfolded assms(2)] assms(3)]
  show ?thesis
  proof (cases "\<exists>k ys'. ys = (k, False) # ys'")
    case True
    then obtain k ys' where ys: "ys = (k, False) # ys'" by blast
    have k: "info_size h (b + n) = Some k" "block_sized k" using sp(1) ys by simp_all
    have f: "b + n \<in> free_in S"
      unfolding free_in_def assms(2) using assms(3) ys by (auto simp: seg_blocks_def add.assoc)
    obtain h' F' where r: "zend_mm_remove_from_free_list (b + n) h = Some h'" "mm_good K h' S F' C (insert (b + n) L)" "core h' = core h"
      using take_free [OF assms(1) f assms(4)] by blast
    have "ys' = [] \<or> snd (hd ys')" using sp(6) ys by (auto simp: coalesced_append coalesced_Cons)
    then show ?thesis
      using k r ys by (intro exI [of _ k] exI [of _ "[(k, False)]"] exI [of _ ys'] exI [of _ h'] exI [of _ F']) (simp add: block_sized_def)
  next
    case False
    have "\<exists>ns. info_size h (b + n) = Some ns \<and> \<not> ZEND_MM_IS_FREE_BLOCK ns \<and> (ys = [] \<or> snd (hd ys))"
    proof (cases ys)
      case Nil
      then show ?thesis using sp(1) by simp
    next
      case (Cons y zs)
      then have "snd y" using False by (cases y) auto
      then have "info_size h (b + n) = Some (Suc (fst y))" "block_sized (fst y)" using sp(1) Cons by (simp_all add: tag_def)
      then show ?thesis using Cons \<open>snd y\<close> by (simp add: block_sized_def)
    qed
    then obtain ns where "info_size h (b + n) = Some ns" "\<not> ZEND_MM_IS_FREE_BLOCK ns" "ys = [] \<or> snd (hd ys)" by blast
    then show ?thesis
      using assms(1) by (intro exI [of _ ns] exI [of _ "[]"] exI [of _ ys] exI [of _ h] exI [of _ F]) simp
  qed
qed

lemma last_tag_snoc [simp]: "last_tag p (xs @ [t]) = tag t"
  by simp

lemma prev_neighbour:
  assumes "mm_good K h S F C L" "S = S1 @ (s, xs @ (n, True) # ys) # S2" "b = s + 16 + extent xs" "\<forall>c. c < b \<longrightarrow> c \<notin> L"
  shows "\<exists>xs' ws h' F'. xs = xs' @ ws \<and> (ws = [] \<or> (\<exists>k. ws = [(k, False)])) \<and> (xs' = [] \<or> snd (last xs')) \<and>
    ZEND_MM_PREV_BLOCK_IS_FREE b h = Some (ws \<noteq> []) \<and>
    (ws \<noteq> [] \<longrightarrow> ZEND_MM_PREV_BLOCK b h = Some (b - extent ws) \<and> info_size h (b - extent ws) = Some (extent ws) \<and>
       zend_mm_remove_from_free_list (b - extent ws) h = Some h') \<and> (ws = [] \<longrightarrow> h' = h \<and> F' = F) \<and>
    mm_good K h' S F' C (L \<union> fst ` set (tiles_at (b - extent ws) ws)) \<and> core h' = core h"
proof -
  have g: "segs_ok h S" using assms(1) by (simp add: mm_good_def)
  note sp = seg_parts [OF g [unfolded assms(2)] assms(3)]
  show ?thesis
  proof (cases "\<exists>k xs'. xs = xs' @ [(k, False)]")
    case True
    then obtain k xs' where xs: "xs = xs' @ [(k, False)]" by blast
    have bk: "b - k = s + 16 + extent xs'" using xs assms(3) by simp
    have k: "info_prev h b = Some k" "block_sized k" "info_size h (b - k) = Some k" unfolding bk using sp(2,4) xs by simp_all
    have kb: "k \<le> b" "b - k = s + 16 + extent xs'" "8 dvd k" "k < 2 ^ 31" using xs assms(3) k(2) bk by (auto simp: block_sized_def)
    have f: "b - k \<in> free_in S"
      unfolding free_in_def assms(2) using kb(2) xs by (auto simp: seg_blocks_def add.assoc)
    have "b - k \<notin> L" using assms(4) [rule_format, of "b - k"] k(2) kb(1) by (simp add: block_sized_def)
    then obtain h' F' where r: "zend_mm_remove_from_free_list (b - k) h = Some h'" "mm_good K h' S F' C (insert (b - k) L)" "core h' = core h"
      using take_free [OF assms(1) f] by blast
    have "i32 (int k) = int k" using kb(4) by (simp add: i32_def)
    then have "ZEND_MM_PREV_BLOCK b h = Some (b - k)" using k(1) kb by (simp add: ZEND_MM_PREV_BLOCK_def Let_def nat_diff_distrib)
    moreover have "ZEND_MM_PREV_BLOCK_IS_FREE b h = Some True" using k(1) kb(3) by (simp add: ZEND_MM_PREV_BLOCK_IS_FREE_def)
    moreover have "xs' = [] \<or> snd (last xs')" using sp(6) xs by (auto simp: coalesced_append)
    ultimately show ?thesis
      using k r xs by (intro exI [of _ xs'] exI [of _ "[(k, False)]"] exI [of _ h'] exI [of _ F']) simp
  next
    case False
    have "ZEND_MM_PREV_BLOCK_IS_FREE b h = Some False \<and> (xs = [] \<or> snd (last xs))"
    proof (cases xs rule: rev_cases)
      case Nil
      then show ?thesis using sp(4) by (simp add: ZEND_MM_PREV_BLOCK_IS_FREE_def)
    next
      case (snoc zs y)
      then have "snd y" using False by (cases y) auto
      then have "info_prev h b = Some (Suc (fst y))" "block_sized (fst y)" using sp(2,4) snoc by (simp_all add: tag_def)
      then show ?thesis using snoc \<open>snd y\<close> by (simp add: block_sized_def ZEND_MM_PREV_BLOCK_IS_FREE_def)
    qed
    then show ?thesis using assms(1) by (intro exI [of _ xs] exI [of _ "[]"] exI [of _ h] exI [of _ F]) simp
  qed
qed

subsection \<open>Release\<close>

lemma last_tag_first: "part h a p xs \<Longrightarrow> last_tag 3 xs = 3 \<longleftrightarrow> xs = []"
  by (cases xs rule: rev_cases) (auto simp: tag_def block_sized_def)

lemma spans_ok:
  assumes "segs_ok h (S1 @ (s, xs @ mid @ ys) # S2)" "a = s + 16 + extent xs" "mid \<noteq> []" "N = extent mid"
  shows "spans_segment a (a + N) h = Some (xs = [] \<and> ys = [])"
proof -
  obtain t ms where m: "mid = t # ms" using assms(3) by (cases mid) auto
  have t: "tail h (s + 16) 3 (xs @ mid @ ys)" using assms(1) by (simp add: segs_ok_def seg_ok_def)
  then have p: "part h (s + 16) 3 xs" "info_prev h a = Some (last_tag 3 xs)" "tail h (a + N) (last_tag (last_tag 3 xs) mid) ys"
    using m assms(2,4) by (simp_all add: tail_append add.assoc)
  have "ZEND_MM_IS_FIRST_BLOCK a h = Some (xs = [])"
    using p(2) last_tag_first [OF p(1)] by (simp add: ZEND_MM_IS_FIRST_BLOCK_def ZEND_MM_GUARD_BLOCK_def)
  moreover have "is_guard_at (a + N) h = Some (ys = [])"
  proof (cases ys)
    case (Cons y zs)
    then show ?thesis using p(3) by (cases "snd y") (simp_all add: is_guard_at_def tag_def block_sized_def)
  qed (use p(3) in \<open>simp add: is_guard_at_def\<close>)
  ultimately show ?thesis by (simp add: spans_segment_def)
qed

definition freed :: "(nat \<Rightarrow> addr option) \<Rightarrow> mm_heap \<Rightarrow> segment list \<Rightarrow> (nat \<Rightarrow> addr list) \<Rightarrow> addr \<times> nat \<Rightarrow> mm_heap \<Rightarrow> bool" where
  "freed K h S C x h' \<longleftrightarrow> (\<exists>S' F'. mm_good K h' S' F' C {} \<and> used_blocks S' = used_blocks S - {x} \<and> mem_total S' \<le> mem_total S) \<and>
     same_user h h'"

text \<open>A used block with the free ones around it, which are off the lists.\<close>

definition gathered :: "tile list \<Rightarrow> nat \<Rightarrow> tile list \<Rightarrow> bool" where
  "gathered ws n zs \<longleftrightarrow> (ws = [] \<or> (\<exists>k. ws = [(k, False)])) \<and> (zs = [] \<or> (\<exists>k. zs = [(k, False)]))"

lemma gathered_tiles:
  assumes "gathered ws n zs" "b = a + extent ws"
  shows "(c, m, True) \<in> set (tiles_at a (ws @ (n, True) # zs)) \<longleftrightarrow> c = b \<and> m = n"
    "fst ` set (tiles_at a (ws @ (n, True) # zs)) = insert b (fst ` set (tiles_at a ws) \<union> fst ` set (tiles_at (b + n) zs))"
    "(c, m, False) \<in> set (tiles_at a (ws @ (n, True) # zs)) \<Longrightarrow> c \<in> fst ` set (tiles_at a ws) \<union> fst ` set (tiles_at (b + n) zs)"
  using assms by (auto simp: gathered_def)

lemma merge_ok:
  assumes "mm_good K h S F C L" "S = S1 @ (s, xs @ (ws @ (n, True) # zs) @ ys) # S2" "gathered ws n zs" "a = s + 16 + extent xs"
    "b = a + extent ws" "L = fst ` set (tiles_at a ws) \<union> fst ` set (tiles_at (b + n) zs)" "b \<notin> cached_blocks C"
    "xs = [] \<or> snd (last xs)" "ys = [] \<or> snd (hd ys)" "N = extent ws + n + extent zs"
  shows "mm_good K (ZEND_MM_BLOCK a ZEND_MM_FREE_BLOCK N h) (S1 @ (s, xs @ [(N, False)] @ ys) # S2) F C {a}"
    "used_blocks (S1 @ (s, xs @ [(N, False)] @ ys) # S2) = used_blocks S - {(b, n)}"
proof -
  let ?mid = "ws @ (n, True) # zs" and ?h = "ZEND_MM_BLOCK a ZEND_MM_FREE_BLOCK N h"
  have g: "segs_ok h S" using assms(1) by (simp add: mm_good_def)
  have t: "tail h (s + 16) 3 (xs @ ?mid @ ys)" "coalesced (xs @ ?mid @ ys)" "extent (xs @ ?mid @ ys) < 2 ^ 31"
    using g unfolding assms(2) by (simp_all add: segs_ok_def seg_ok_def)
  have p: "part h a (last_tag 3 xs) ?mid" using t(1) assms(4) by (simp add: tail_append add.assoc)
  have N: "N = extent ?mid" using assms(10) by simp
  have ip: "info_prev h a = Some (last_tag 3 xs)"
  proof -
    obtain u us where u: "?mid = u # us" by (cases ?mid) auto
    show ?thesis using p unfolding u by simp
  qed
  have sz: "block_sized N"
  proof -
    have "\<forall>u \<in> set ?mid. block_sized (fst u)" using p assms(3) by (auto simp: gathered_def)
    then have "8 dvd N \<and> 32 \<le> N" using assms(3,10) by (auto simp: gathered_def block_sized_def)
    moreover have "N < 2 ^ 31" using t(3) N by simp
    ultimately show ?thesis by (simp add: block_sized_def)
  qed
  have rt: "retiled h ?h a (last_tag 3 xs) N [(N, False)]"
    using ip sz by (auto simp: retiled_def block_sized_def)
  have co: "coalesced (xs @ [(N, False)] @ ys)" using t(2) assms(8,9) by (auto simp: coalesced_append coalesced_Cons)
  have ne: "?mid \<noteq> []" "[(N, False)] \<noteq> []" by simp_all
  note gt = gathered_tiles [OF assms(3,5)]
  have a10: "\<And>c m. (c, m, False) \<in> set (tiles_at a ?mid) \<Longrightarrow> c \<in> L" using gt(3) assms(6) by blast
  have a11: "\<And>c m. (c, m, True) \<in> set (tiles_at a ?mid) \<Longrightarrow> c \<notin> cached_blocks C" using gt(1) assms(7) by metis
  note gr = good_retile [OF assms(1) [unfolded assms(2)] header_updates(3,4) ne rt co assms(4) N a10 a11]
  have e: "L - fst ` set (tiles_at a ?mid) \<union> {c. \<exists>m. (c, m, False) \<in> set (tiles_at a [(N, False)])} = {a}"
    unfolding gt(2) assms(6) by auto
  show "mm_good K ?h (S1 @ (s, xs @ [(N, False)] @ ys) # S2) F C {a}" using gr(1) unfolding e by simp
  show "used_blocks (S1 @ (s, xs @ [(N, False)] @ ys) # S2) = used_blocks S - {(b, n)}"
  proof -
    have "blocks_of (S1 @ (s, xs @ [(N, False)] @ ys) # S2) = blocks_of S - set (tiles_at a ?mid) \<union> {(a, N, False)}"
      using gr(2) unfolding assms(2) [symmetric] by (simp only: tiles_at.simps list.set)
    then have "(c, k, True) \<in> blocks_of (S1 @ (s, xs @ [(N, False)] @ ys) # S2) \<longleftrightarrow> (c, k, True) \<in> blocks_of S \<and> \<not> (c = b \<and> k = n)" for c k
      using gt(1) [of c k] by blast
    then show ?thesis unfolding used_blocks_def by auto
  qed
qed

lemma segment_of_tiles: "segment_of (s + 16 + extent []) = Some s"
  by simp

lemma release_int_ok:
  assumes "mm_good K h S F C L" "S = S1 @ (s, xs @ (ws @ (n, True) # zs) @ ys) # S2" "gathered ws n zs" "a = s + 16 + extent xs"
    "b = a + extent ws" "L = fst ` set (tiles_at a ws) \<union> fst ` set (tiles_at (b + n) zs)" "b \<notin> cached_blocks C"
    "xs = [] \<or> snd (last xs)" "ys = [] \<or> snd (hd ys)" "N = extent ws + n + extent zs"
  shows "\<exists>h'. do { spans \<leftarrow> spans_segment a (a + N) h;
       (if spans then do { segment \<leftarrow> segment_of a; zend_mm_del_segment segment h }
        else zend_mm_add_to_free_list a (ZEND_MM_BLOCK a ZEND_MM_FREE_BLOCK N h)) } = Some h' \<and> freed K h S C (b, n) h'"
proof -
  have g: "segs_ok h S" using assms(1) by (simp add: mm_good_def)
  have N: "N = extent (ws @ (n, True) # zs)" using assms(10) by simp
  note sp = spans_ok [OF g [unfolded assms(2)] assms(4) _ N]
  note gt = gathered_tiles [OF assms(3,5)]
  show ?thesis
  proof (cases "xs = [] \<and> ys = []")
    case True
    then have S: "S = S1 @ (s, ws @ (n, True) # zs) # S2" "a = s + 16" using assms(2,4) by simp_all
    have sb: "seg_blocks (s, ws @ (n, True) # zs) = set (tiles_at a (ws @ (n, True) # zs))"
      by (simp only: seg_blocks_def fst_conv snd_conv S(2))
    have a1: "\<And>c m. (c, m, False) \<in> seg_blocks (s, ws @ (n, True) # zs) \<Longrightarrow> c \<in> L"
      unfolding sb using gt(3) assms(6) by blast
    have a2: "\<And>c m. (c, m, True) \<in> seg_blocks (s, ws @ (n, True) # zs) \<Longrightarrow> c \<notin> cached_blocks C"
      unfolding sb using gt(1) assms(7) by metis
    obtain h' where d: "zend_mm_del_segment s h = Some h'" "mm_good K h' (S1 @ S2) F C (L - fst ` seg_blocks (s, ws @ (n, True) # zs))"
        "same_user h h'"
    proof -
      have "\<exists>h'. zend_mm_del_segment s h = Some h' \<and> mm_good K h' (S1 @ S2) F C (L - fst ` seg_blocks (s, ws @ (n, True) # zs)) \<and>
          payload h' = payload h \<and> cache h' = cache h \<and> reserve h' = reserve h \<and> mm_limit h' = mm_limit h \<and> block_size h' = block_size h"
        by (rule del_segment_ok [OF assms(1) [unfolded S(1)]]) (erule a1, erule a2)
      then show thesis using that by (auto simp: same_user_def)
    qed
    have e: "L - fst ` seg_blocks (s, ws @ (n, True) # zs) = {}" unfolding sb gt(2) assms(6) by blast
    have good: "mm_good K h' (S1 @ S2) F C {}" using d(2) unfolding e .
    have tot: "mem_total (S1 @ S2) \<le> mem_total S" unfolding S(1) by simp
    have "used_blocks (S1 @ S2) = used_blocks S - {(b, n)}"
    proof -
      have "used_blocks S = used_blocks (S1 @ S2) \<union> {(b, n)}"
        using gt(1) unfolding used_blocks_def S(1) blocks_of_simps sb by blast
      moreover have "(b, n) \<notin> used_blocks (S1 @ S2)"
      proof
        assume "(b, n) \<in> used_blocks (S1 @ S2)"
        then obtain y where y: "y \<in> set S1 \<union> set S2" "(b, n, True) \<in> seg_blocks y" by (auto simp: used_blocks_def blocks_of_def)
        have oky: "seg_ok h y" "seg_ok h (s, ws @ (n, True) # zs)" using g y(1) unfolding S(1) segs_ok_def by auto
        have "(b, n, True) \<in> seg_blocks (s, ws @ (n, True) # zs)" using gt(1) unfolding sb by blast
        then have "b \<in> span (s, ws @ (n, True) # zs)" "b \<in> span y"
          using seg_block_info(3,4) [OF oky(2), of b "(n, True)"] seg_block_info(3,4) [OF oky(1) y(2)] by (simp_all add: span_def)
        moreover have "span y \<inter> span (s, ws @ (n, True) # zs) = {}"
          using g y(1) unfolding S(1) by (fastforce simp: segs_ok_def apart_def sorted_wrt_append Int_commute)
        ultimately show False by blast
      qed
      ultimately show ?thesis by blast
    qed
    then have "freed K h S C (b, n) h'" using good tot d(3) unfolding freed_def by blast
    then show ?thesis using sp True d(1) S(2) by (simp add: segment_of_def)
  next
    case False
    note m = merge_ok [OF assms]
    obtain h' F' where a: "zend_mm_add_to_free_list a (ZEND_MM_BLOCK a ZEND_MM_FREE_BLOCK N h) = Some h'"
        "mm_good K h' (S1 @ (s, xs @ [(N, False)] @ ys) # S2) F' C ({a} - {a})" "core h' = core (ZEND_MM_BLOCK a ZEND_MM_FREE_BLOCK N h)"
      using put_free(1) [OF m(1), of a] by blast
    have "same_user h h'" by (rule same_user_trans [OF header_updates(5) same_user_core [OF a(3)]])
    moreover have "mem_total (S1 @ (s, xs @ [(N, False)] @ ys) # S2) = mem_total S" unfolding assms(2) using N by simp
    ultimately have "freed K h S C (b, n) h'" using a(2) m(2) unfolding freed_def by (metis Diff_cancel order_refl)
    then show ?thesis using sp False a(1) by auto
  qed
qed

lemma release_cached_ok:
  assumes "mm_good K h S F C L" "S = S1 @ (s, xs @ (ws @ (n, True) # zs) @ ys) # S2" "gathered ws n zs" "a = s + 16 + extent xs"
    "b = a + extent ws" "L = fst ` set (tiles_at a ws) \<union> fst ` set (tiles_at (b + n) zs)" "b \<notin> cached_blocks C"
    "xs = [] \<or> snd (last xs)" "ys = [] \<or> snd (hd ys)" "N = extent ws + n + extent zs"
  defines "h1 \<equiv> ZEND_MM_BLOCK a ZEND_MM_FREE_BLOCK N h"
  shows "\<exists>h'. do { spans \<leftarrow> spans_segment a (a + N) h1;
       (if spans then do { segment \<leftarrow> segment_of a; zend_mm_del_segment segment h1 }
        else zend_mm_add_to_free_list a h1) } = Some h' \<and> freed K h S C (b, n) h'"
proof -
  let ?S = "S1 @ (s, xs @ [(N, False)] @ ys) # S2"
  note m = merge_ok [OF assms(1-10), folded h1_def]
  have g: "segs_ok h1 ?S" using m(1) by (simp add: mm_good_def)
  have sp: "spans_segment a (a + N) h1 = Some (xs = [] \<and> ys = [])"
    using spans_ok [OF g assms(4), of N] by simp
  have su: "same_user h h1" by (simp add: h1_def)
  have tot: "mem_total ?S = mem_total S" unfolding assms(2,10) by simp
  show ?thesis
  proof (cases "xs = [] \<and> ys = []")
    case True
    then have S: "?S = S1 @ (s, [(N, False)]) # S2" "a = s + 16" using assms(4) by simp_all
    have sb: "seg_blocks (s, [(N, False)]) = {(a, N, False)}" by (simp add: seg_blocks_def S(2))
    obtain h' where d: "zend_mm_del_segment s h1 = Some h'" "mm_good K h' (S1 @ S2) F C ({a} - fst ` seg_blocks (s, [(N, False)]))"
        "same_user h1 h'"
      using del_segment_ok [OF m(1) [unfolded S(1)]] sb by (auto simp: same_user_def)
    have "used_blocks (S1 @ S2) = used_blocks ?S" unfolding S(1) used_blocks_def by (auto simp: sb)
    moreover have "mem_total (S1 @ S2) \<le> mem_total S" using tot S(1) by simp
    ultimately have "freed K h S C (b, n) h'"
      using d(2) m(2) same_user_trans [OF su d(3)] unfolding freed_def by (auto simp: sb)
    then show ?thesis using sp True d(1) S(2) by (simp add: segment_of_def)
  next
    case False
    obtain h' F' where a: "zend_mm_add_to_free_list a h1 = Some h'" "mm_good K h' ?S F' C ({a} - {a})" "core h' = core h1"
      using put_free(1) [OF m(1), of a] by blast
    have "same_user h h'" by (rule same_user_trans [OF su same_user_core [OF a(3)]])
    then have "freed K h S C (b, n) h'" using a(2) m(2) tot unfolding freed_def by (metis Diff_cancel order_refl)
    then show ?thesis using sp False a(1) by auto
  qed
qed

end
