(* ===== verification/ZendAllocRelease.thy ===== *)
theory ZendAllocRelease
  imports ZendAllocBlocks
begin

text \<open>The release of blocks: to the cache, to the free lists, or with the whole segment; and emptying the cache.\<close>

definition held_blocks :: "segment list \<Rightarrow> (nat \<Rightarrow> addr list) \<Rightarrow> (addr \<times> nat) set" where
  "held_blocks S C = {x \<in> used_blocks S. fst x \<notin> cached_blocks C}"

lemma used_info:
  assumes "segs_ok h S" "(b, n) \<in> used_blocks S"
  shows "info_size h b = Some (Suc n)" "block_sized n" "8 dvd n"
  using block_info [OF assms(1), of b "(n, True)"] assms(2) by (auto simp: used_blocks_def block_sized_def)

lemma used_unique: "\<lbrakk>segs_ok h S; (b, n) \<in> used_blocks S; (b, m) \<in> used_blocks S\<rbrakk> \<Longrightarrow> m = n"
  using block_unique [of h S b "(n, True)" "(m, True)"] by (simp add: used_blocks_def)

lemma held_insert:
  assumes "segs_ok h S" "(b, n) \<in> used_blocks S" "cached_blocks C' = insert b (cached_blocks C)"
  shows "held_blocks S C' = held_blocks S C - {(b, n)}"
proof -
  have u: "x = (b, n)" if x: "x \<in> used_blocks S" "fst x = b" for x
  proof -
    have "(b, snd x) \<in> used_blocks S" using x by (metis prod.collapse)
    then have "snd x = n" by (rule used_unique [OF assms(1,2)])
    then show ?thesis using x(2) by (simp add: prod_eq_iff)
  qed
  have "x \<in> held_blocks S C' \<longleftrightarrow> x \<in> held_blocks S C \<and> x \<noteq> (b, n)" for x
    unfolding held_blocks_def assms(3) using u [of x] by (cases "x = (b, n)") (simp, blast)
  then show ?thesis by blast
qed

lemma gather_ok:
  assumes "mm_good K h S F C {}" "(b, n) \<in> used_blocks S" "b \<notin> cached_blocks C"
  shows "\<exists>ns zs h1 ws a h2.
    info_size h (b + n) = Some ns \<and> (ZEND_MM_IS_FREE_BLOCK ns \<longleftrightarrow> zs \<noteq> []) \<and>
    (zs \<noteq> [] \<longrightarrow> ns = extent zs \<and> zend_mm_remove_from_free_list (b + n) h = Some h1) \<and> (zs = [] \<longrightarrow> h1 = h) \<and>
    ZEND_MM_PREV_BLOCK_IS_FREE b h1 = Some (ws \<noteq> []) \<and>
    (ws \<noteq> [] \<longrightarrow> ZEND_MM_PREV_BLOCK b h1 = Some a \<and> zend_mm_remove_from_free_list a h1 = Some h2 \<and> info_size h2 a = Some (extent ws)) \<and>
    (ws = [] \<longrightarrow> h2 = h1 \<and> a = b) \<and> same_user h h2 \<and>
    (\<exists>h'. do { spans \<leftarrow> spans_segment a (a + (n + extent zs + extent (ws :: tile list))) h2;
       (if spans then do { segment \<leftarrow> segment_of a; zend_mm_del_segment segment h2 }
        else zend_mm_add_to_free_list a (ZEND_MM_BLOCK a ZEND_MM_FREE_BLOCK (n + extent zs + extent ws) h2)) } = Some h' \<and> freed K h S C (b, n) h')"
proof -
  obtain S1 s xs ys S2 where S: "S = S1 @ (s, xs @ (n, True) # ys) # S2" "b = s + 16 + extent xs"
    using locate [of b "(n, True)" S] assms(2) by (auto simp: used_blocks_def)
  have "b + n \<notin> {}" by simp
  from next_neighbour [OF assms(1) S this] obtain ns zs ys' h1 F1 where
    nx: "ys = zs @ ys'" "info_size h (b + n) = Some ns" "zs = [] \<or> (\<exists>k. zs = [(k, False)])" "ys' = [] \<or> snd (hd ys')"
      "ZEND_MM_IS_FREE_BLOCK ns \<longleftrightarrow> zs \<noteq> []" "zs \<noteq> [] \<longrightarrow> ns = extent zs \<and> zend_mm_remove_from_free_list (b + n) h = Some h1"
      "zs = [] \<longrightarrow> h1 = h \<and> F1 = F" "mm_good K h1 S F1 C ({} \<union> fst ` set (tiles_at (b + n) zs))" "core h1 = core h"
    by (elim exE conjE) (rule that; assumption)
  have "\<forall>c. c < b \<longrightarrow> c \<notin> {} \<union> fst ` set (tiles_at (b + n) zs)" using nx(3) by auto
  from prev_neighbour [OF nx(8) S this] obtain xs' ws h2 F2 where
    pv: "xs = xs' @ ws" "ws = [] \<or> (\<exists>k. ws = [(k, False)])" "xs' = [] \<or> snd (last xs')"
      "ZEND_MM_PREV_BLOCK_IS_FREE b h1 = Some (ws \<noteq> [])"
      "ws \<noteq> [] \<longrightarrow> ZEND_MM_PREV_BLOCK b h1 = Some (b - extent ws) \<and> info_size h1 (b - extent ws) = Some (extent ws) \<and>
         zend_mm_remove_from_free_list (b - extent ws) h1 = Some h2"
      "ws = [] \<longrightarrow> h2 = h1 \<and> F2 = F1"
      "mm_good K h2 S F2 C ({} \<union> fst ` set (tiles_at (b + n) zs) \<union> fst ` set (tiles_at (b - extent ws) ws))" "core h2 = core h1"
    by (elim exE conjE) (rule that; assumption)
  let ?a = "b - extent ws" and ?N = "n + extent zs + extent ws"
  have a: "?a = s + 16 + extent xs'" "b = ?a + extent ws" using S(2) pv(1) by simp_all
  have S': "S = S1 @ (s, xs' @ (ws @ (n, True) # zs) @ ys') # S2" using S(1) nx(1) pv(1) by simp
  have gt: "gathered ws n zs" using nx(3) pv(2) by (simp add: gathered_def)
  have L: "{} \<union> fst ` set (tiles_at (b + n) zs) \<union> fst ` set (tiles_at ?a ws) = fst ` set (tiles_at ?a ws) \<union> fst ` set (tiles_at (b + n) zs)"
    by blast
  have N: "?N = extent ws + n + extent zs" by simp
  obtain h' where r: "do { spans \<leftarrow> spans_segment ?a (?a + ?N) h2;
       (if spans then do { segment \<leftarrow> segment_of ?a; zend_mm_del_segment segment h2 }
        else zend_mm_add_to_free_list ?a (ZEND_MM_BLOCK ?a ZEND_MM_FREE_BLOCK ?N h2)) } = Some h'" "freed K h2 S C (b, n) h'"
    using release_int_ok [OF pv(7) S' gt a L assms(3) pv(3) nx(4) N] by blast
  have "same_user h h2" by (rule same_user_core) (simp add: pv(8) nx(9))
  moreover have "ws \<noteq> [] \<longrightarrow> ZEND_MM_PREV_BLOCK b h1 = Some ?a \<and> zend_mm_remove_from_free_list ?a h1 = Some h2 \<and> info_size h2 ?a = Some (extent ws)"
    using pv(5) core_fields(1) [OF pv(8)] by metis
  moreover have "ws = [] \<longrightarrow> h2 = h1 \<and> ?a = b" using pv(6) by simp
  moreover have "zs = [] \<longrightarrow> h1 = h" using nx(7) by blast
  moreover have "freed K h S C (b, n) h'" using r(2) same_user_trans [OF \<open>same_user h h2\<close>] by (auto simp: freed_def)
  ultimately show ?thesis using nx(2,5,6) pv(4) r(1) by blast
qed

lemma good_fields:
  assumes "mm_good K h S F C L" "same_memory h h'" "freed K h' S C x k" "same_user h h'"
  shows "freed K h S C x k"
  using assms(3,4) same_user_trans [OF assms(4)] by (auto simp: freed_def)

lemma free_int_ok:
  assumes "mm_good (cache h) h S F C {}" "(b, n) \<in> held_blocks S C"
  shows "\<exists>h' S' F' C'. zend_mm_free_int (Some (b + 16)) h = Some h' \<and> mm_good (cache h') h' S' F' C' {} \<and>
    held_blocks S' C' = held_blocks S C - {(b, n)} \<and> mem_total S' \<le> mem_total S \<and>
    payload h' = payload h \<and> reserve h' = reserve h \<and> mm_limit h' = mm_limit h \<and> block_size h' = block_size h"
proof -
  have g: "segs_ok h S" using assms(1) by (simp add: mm_good_def)
  have b: "(b, n) \<in> used_blocks S" "b \<notin> cached_blocks C" using assms(2) by (simp_all add: held_blocks_def)
  note ui = used_info [OF g b(1)]
  have bn: "(b, n, True) \<in> blocks_of S" using b(1) by (simp add: used_blocks_def)
  show ?thesis
  proof (cases "n < 544 \<and> unat (cached h) < 262144")
    case True
    let ?i = "ZEND_MM_BUCKET_INDEX n"
    obtain h1 where p: "push_cache ?i b h = Some h1" "mm_good (cache h1) h1 S F (C(?i := b # C ?i)) {}"
        "h1 = (set_prev_free (Blk b) (cache_ptr (cache h ?i)) h)\<lparr>cache := (cache h)(?i \<mapsto> b)\<rparr>"
      using push_cache_ok [OF assms(1) bn _ b(2) refl] True by blast
    let ?h = "h1\<lparr>cached := cached h1 + of_nat n\<rparr>"
    have i: "?i < 64" using True ui(2) by (auto simp: block_sized_def intro: bucket_index(2))
    have "cached_blocks (C(?i := b # C ?i)) = insert b (cached_blocks C)" using i by (auto simp: cached_blocks_def split: if_splits)
    then have "held_blocks S (C(?i := b # C ?i)) = held_blocks S C - {(b, n)}" by (rule held_insert [OF g b(1)])
    moreover have "mm_good (cache ?h) ?h S F (C(?i := b # C ?i)) {}" using good_same [OF p(2), of ?h] by simp
    moreover have "zend_mm_free_int (Some (b + 16)) h = Some ?h"
      using True ui p(1) by (simp add: zend_mm_free_int_def)
    ultimately show ?thesis
      using p(3) by (intro exI [of _ ?h] exI [of _ S] exI [of _ F] exI [of _ "C(?i := b # C ?i)"]) (simp add: set_prev_free_def)
  next
    case False
    let ?h = "h\<lparr>mm_size := mm_size h - of_nat n\<rparr>"
    have good: "mm_good (cache h) ?h S F C {}" by (rule good_same [OF assms(1)]) simp
    from gather_ok [OF good b] obtain ns zs h1 ws a h2 h' where
      x: "info_size ?h (b + n) = Some ns" "ZEND_MM_IS_FREE_BLOCK ns \<longleftrightarrow> zs \<noteq> []"
        "zs \<noteq> [] \<longrightarrow> ns = extent zs \<and> zend_mm_remove_from_free_list (b + n) ?h = Some h1" "zs = [] \<longrightarrow> h1 = ?h"
        "ZEND_MM_PREV_BLOCK_IS_FREE b h1 = Some (ws \<noteq> [])"
        "ws \<noteq> [] \<longrightarrow> ZEND_MM_PREV_BLOCK b h1 = Some a \<and> zend_mm_remove_from_free_list a h1 = Some h2 \<and> info_size h2 a = Some (extent ws)"
        "ws = [] \<longrightarrow> h2 = h1 \<and> a = b"
        "do { spans \<leftarrow> spans_segment a (a + (n + extent zs + extent (ws :: tile list))) h2;
           (if spans then do { segment \<leftarrow> segment_of a; zend_mm_del_segment segment h2 }
            else zend_mm_add_to_free_list a (ZEND_MM_BLOCK a ZEND_MM_FREE_BLOCK (n + extent zs + extent ws) h2)) } = Some h'"
        "freed (cache h) ?h S C (b, n) h'"
      by (elim exE conjE) (rule that; assumption)
    have run: "zend_mm_free_int (Some (b + 16)) h = Some h'"
    proof -
      have nc: "\<not> (ZEND_MM_SMALL_SIZE n \<and> unat (cached h) < ZEND_MM_CACHE_SIZE)" using False by simp
      have hd: "ZEND_MM_HEADER_OF (b + 16) = Some b" "ZEND_MM_BLOCK_SIZE (Suc n) = n" using ui(3) by simp_all
      show ?thesis
        unfolding zend_mm_free_int_def
        using x(2-8)
        by (cases "zs = []"; cases "ws = []")
          (simp_all only: option.case Option.bind.simps Let_def hd ui(1) nc x(1) if_False if_True prod.case simp_thms not_True_eq_False
            not_False_eq_True extent_simps add_0_right)
    qed
    obtain S' F' where fr: "mm_good (cache h) h' S' F' C {}" "used_blocks S' = used_blocks S - {(b, n)}" "mem_total S' \<le> mem_total S"
        "same_user ?h h'"
      using x(9) by (auto simp: freed_def)
    moreover have "held_blocks S' C = held_blocks S C - {(b, n)}" using fr(2) by (auto simp: held_blocks_def)
    ultimately show ?thesis using run by (auto simp: same_user_def)
  qed
qed

subsection \<open>Emptying the cache\<close>

lemma gather_cached_ok:
  assumes "mm_good K h S F C {}" "(b, n) \<in> used_blocks S" "b \<notin> cached_blocks C"
  shows "\<exists>ws a h1 ns zs h2 h'.
    ZEND_MM_PREV_BLOCK_IS_FREE b h = Some (ws \<noteq> []) \<and>
    (ws \<noteq> [] \<longrightarrow> ZEND_MM_PREV_BLOCK b h = Some a \<and> info_size h a = Some (extent ws) \<and> zend_mm_remove_from_free_list a h = Some h1) \<and>
    (ws = [] \<longrightarrow> h1 = h \<and> a = b) \<and>
    info_size h1 (b + n) = Some ns \<and> (ZEND_MM_IS_FREE_BLOCK ns \<longleftrightarrow> zs \<noteq> []) \<and>
    (zs \<noteq> [] \<longrightarrow> ns = extent zs \<and> zend_mm_remove_from_free_list (b + n) h1 = Some h2) \<and> (zs = [] \<longrightarrow> h2 = h1) \<and>
    do { spans \<leftarrow> spans_segment a (a + (n + extent (ws :: tile list) + extent (zs :: tile list))) (ZEND_MM_BLOCK a ZEND_MM_FREE_BLOCK (n + extent ws + extent zs) h2);
       (if spans then do { segment \<leftarrow> segment_of a; zend_mm_del_segment segment (ZEND_MM_BLOCK a ZEND_MM_FREE_BLOCK (n + extent ws + extent zs) h2) }
        else zend_mm_add_to_free_list a (ZEND_MM_BLOCK a ZEND_MM_FREE_BLOCK (n + extent ws + extent zs) h2)) } = Some h' \<and>
    freed K h S C (b, n) h'"
proof -
  obtain S1 s xs ys S2 where S: "S = S1 @ (s, xs @ (n, True) # ys) # S2" "b = s + 16 + extent xs"
    using locate [of b "(n, True)" S] assms(2) by (auto simp: used_blocks_def)
  have "\<forall>c. c < b \<longrightarrow> c \<notin> {}" by simp
  from prev_neighbour [OF assms(1) S this] obtain xs' ws h1 F1 where
    pv: "xs = xs' @ ws" "ws = [] \<or> (\<exists>k. ws = [(k, False)])" "xs' = [] \<or> snd (last xs')"
      "ZEND_MM_PREV_BLOCK_IS_FREE b h = Some (ws \<noteq> [])"
      "ws \<noteq> [] \<longrightarrow> ZEND_MM_PREV_BLOCK b h = Some (b - extent ws) \<and> info_size h (b - extent ws) = Some (extent ws) \<and>
         zend_mm_remove_from_free_list (b - extent ws) h = Some h1"
      "ws = [] \<longrightarrow> h1 = h \<and> F1 = F"
      "mm_good K h1 S F1 C ({} \<union> fst ` set (tiles_at (b - extent ws) ws))" "core h1 = core h"
    by (elim exE conjE) (rule that; assumption)
  let ?a = "b - extent ws"
  have a: "?a = s + 16 + extent xs'" "b = ?a + extent ws" using S(2) pv(1) by simp_all
  have sg: "segs_ok h S" using assms(1) by (simp add: mm_good_def)
  have szn: "block_sized n" by (rule used_info(2) [OF sg assms(2)])
  have "b + n \<notin> {} \<union> fst ` set (tiles_at ?a ws)" using pv(2) szn by (auto simp: block_sized_def)
  from next_neighbour [OF pv(7) S this] obtain ns zs ys' h2 F2 where
    nx: "ys = zs @ ys'" "info_size h1 (b + n) = Some ns" "zs = [] \<or> (\<exists>k. zs = [(k, False)])" "ys' = [] \<or> snd (hd ys')"
      "ZEND_MM_IS_FREE_BLOCK ns \<longleftrightarrow> zs \<noteq> []" "zs \<noteq> [] \<longrightarrow> ns = extent zs \<and> zend_mm_remove_from_free_list (b + n) h1 = Some h2"
      "zs = [] \<longrightarrow> h2 = h1 \<and> F2 = F1" "mm_good K h2 S F2 C ({} \<union> fst ` set (tiles_at ?a ws) \<union> fst ` set (tiles_at (b + n) zs))" "core h2 = core h1"
    by (elim exE conjE) (rule that; assumption)
  let ?N = "n + extent ws + extent zs"
  have S': "S = S1 @ (s, xs' @ (ws @ (n, True) # zs) @ ys') # S2" using S(1) nx(1) pv(1) by simp
  have gt: "gathered ws n zs" using nx(3) pv(2) by (simp add: gathered_def)
  have L: "{} \<union> fst ` set (tiles_at ?a ws) \<union> fst ` set (tiles_at (b + n) zs) = fst ` set (tiles_at ?a ws) \<union> fst ` set (tiles_at (b + n) zs)"
    by simp
  have N: "?N = extent ws + n + extent zs" by simp
  obtain h' where r: "do { spans \<leftarrow> spans_segment ?a (?a + ?N) (ZEND_MM_BLOCK ?a ZEND_MM_FREE_BLOCK ?N h2);
       (if spans then do { segment \<leftarrow> segment_of ?a; zend_mm_del_segment segment (ZEND_MM_BLOCK ?a ZEND_MM_FREE_BLOCK ?N h2) }
        else zend_mm_add_to_free_list ?a (ZEND_MM_BLOCK ?a ZEND_MM_FREE_BLOCK ?N h2)) } = Some h'" "freed K h2 S C (b, n) h'"
    using release_cached_ok [OF nx(8) S' gt a L assms(3) pv(3) nx(4) N] by blast
  have "same_user h h2" by (rule same_user_core) (simp add: pv(8) nx(9))
  then have "freed K h S C (b, n) h'" using r(2) same_user_trans by (auto simp: freed_def)
  moreover have "ws = [] \<longrightarrow> h1 = h \<and> ?a = b" using pv(6) by simp
  moreover have "zs = [] \<longrightarrow> h2 = h1" using nx(7) by blast
  ultimately show ?thesis using nx(2,5,6) pv(4,5) r(1) by blast
qed

lemma free_cached_block_ok:
  assumes "mm_good K h S F C {}" "(b, n) \<in> used_blocks S" "b \<notin> cached_blocks C"
  shows "\<exists>h'. free_cached_block b h = Some h' \<and> freed K h S C (b, n) h'"
proof -
  have g: "segs_ok h S" using assms(1) by (simp add: mm_good_def)
  note ui = used_info [OF g assms(2)]
  let ?h = "h\<lparr>cached := cached h - of_nat n\<rparr>"
  have good: "mm_good K ?h S F C {}" by (rule good_same [OF assms(1)]) simp
  from gather_cached_ok [OF good assms(2,3)] obtain ws a h1 ns zs h2 h' where
    x: "ZEND_MM_PREV_BLOCK_IS_FREE b ?h = Some (ws \<noteq> [])"
      "ws \<noteq> [] \<longrightarrow> ZEND_MM_PREV_BLOCK b ?h = Some a \<and> info_size ?h a = Some (extent ws) \<and> zend_mm_remove_from_free_list a ?h = Some h1"
      "ws = [] \<longrightarrow> h1 = ?h \<and> a = b" "info_size h1 (b + n) = Some ns" "ZEND_MM_IS_FREE_BLOCK ns \<longleftrightarrow> zs \<noteq> []"
      "zs \<noteq> [] \<longrightarrow> ns = extent zs \<and> zend_mm_remove_from_free_list (b + n) h1 = Some h2" "zs = [] \<longrightarrow> h2 = h1"
      "do { spans \<leftarrow> spans_segment a (a + (n + extent (ws :: tile list) + extent (zs :: tile list))) (ZEND_MM_BLOCK a ZEND_MM_FREE_BLOCK (n + extent ws + extent zs) h2);
         (if spans then do { segment \<leftarrow> segment_of a; zend_mm_del_segment segment (ZEND_MM_BLOCK a ZEND_MM_FREE_BLOCK (n + extent ws + extent zs) h2) }
          else zend_mm_add_to_free_list a (ZEND_MM_BLOCK a ZEND_MM_FREE_BLOCK (n + extent ws + extent zs) h2)) } = Some h'"
      "freed K ?h S C (b, n) h'"
    by (elim exE conjE) (rule that; assumption)
  have hd: "ZEND_MM_BLOCK_SIZE (Suc n) = n" using ui(3) by simp
  have "free_cached_block b h = Some h'"
    unfolding free_cached_block_def
    using x(1-8)
    by (cases "ws = []"; cases "zs = []")
      (simp_all only: Option.bind.simps Let_def hd ui(1) x(1) if_False if_True prod.case simp_thms not_True_eq_False
        not_False_eq_True extent_simps add_0_right)
  moreover have "freed K h S C (b, n) h'" using x(9) by (auto simp: freed_def same_user_def)
  ultimately show ?thesis by blast
qed

lemma cached_pop:
  fixes C :: "nat \<Rightarrow> addr list"
  assumes "C i = b # bs" "i < 64"
  shows "cached_blocks C = insert b (cached_blocks (C(i := bs)))"
proof -
  have one: "x \<in> set (C j) \<longleftrightarrow> (j = i \<and> x = b) \<or> x \<in> set ((C(i := bs)) j)" for x j
    using assms(1) by (cases "j = i") simp_all
  show ?thesis
  proof (rule set_eqI)
    fix x
    have "x \<in> cached_blocks C \<longleftrightarrow> (\<exists>j. j < 64 \<and> x \<in> set (C j))" by (auto simp: cached_blocks_def)
    also have "\<dots> \<longleftrightarrow> (\<exists>j. j < 64 \<and> ((j = i \<and> x = b) \<or> x \<in> set ((C(i := bs)) j)))" by (simp only: one [symmetric])
    also have "\<dots> \<longleftrightarrow> x = b \<or> (\<exists>j. j < 64 \<and> x \<in> set ((C(i := bs)) j))" using assms(2) by blast
    also have "\<dots> \<longleftrightarrow> x \<in> insert b (cached_blocks (C(i := bs)))" unfolding cached_blocks_def by blast
    finally show "x \<in> cached_blocks C \<longleftrightarrow> x \<in> insert b (cached_blocks (C(i := bs)))" .
  qed
qed

lemma free_cache_list_ok:
  assumes "mm_good K h S F C {}" "i < 64"
  shows "\<exists>h' S' F'. free_cache_list (K i) h = Some h' \<and> mm_good (K(i := None)) h' S' F' (C(i := [])) {} \<and>
    held_blocks S' (C(i := [])) = held_blocks S C \<and> mem_total S' \<le> mem_total S \<and> same_user h h'"
  using assms(1)
proof (induction "length (C i)" arbitrary: K h S F C)
  case 0
  have "cache_chain (prev_free h) (K i) (C i)" using 0(2) assms(2) by (simp add: mm_good_def caches_ok_def)
  then have e: "K i = None" "C i = []" using 0(1) by simp_all
  then have "K(i := None) = K" "C(i := []) = C" by (simp_all add: fun_eq_iff)
  then show ?case using 0(2) e by (subst free_cache_list.simps) (auto simp: same_user_def)
next
  case (Suc l)
  have "cache_chain (prev_free h) (K i) (C i)" using Suc.prems assms(2) by (simp add: mm_good_def caches_ok_def)
  then obtain b where b: "K i = Some b" using Suc.hyps(2) by (cases "C i") auto
  obtain w bs where p: "cache_next b h = Some w" "C i = b # bs" "mm_good (K(i := w)) h S F (C(i := bs)) {}"
      "(b, 8 * i + 32, True) \<in> blocks_of S" "b \<notin> cached_blocks (C(i := bs))"
    using pop_cache_ok [OF Suc.prems assms(2) b] by blast
  have bu: "(b, 8 * i + 32) \<in> used_blocks S" using p(4) by (simp add: used_blocks_def)
  obtain h1 where f: "free_cached_block b h = Some h1" "freed (K(i := w)) h S (C(i := bs)) (b, 8 * i + 32) h1"
    using free_cached_block_ok [OF p(3) bu p(5)] by blast
  obtain S1 F1 where s: "mm_good (K(i := w)) h1 S1 F1 (C(i := bs)) {}" "used_blocks S1 = used_blocks S - {(b, 8 * i + 32)}"
      "mem_total S1 \<le> mem_total S" "same_user h h1"
    using f(2) by (auto simp: freed_def)
  have "l = length ((C(i := bs)) i)" using Suc.hyps(2) p(2) by simp
  from Suc.hyps(1) [OF this s(1)] obtain h' S' F' where r: "free_cache_list w h1 = Some h'"
      "mm_good (K(i := None)) h' S' F' (C(i := [])) {}" "held_blocks S' (C(i := [])) = held_blocks S1 (C(i := bs))"
      "mem_total S' \<le> mem_total S1" "same_user h1 h'"
    by auto
  have "free_cache_list (K i) h = Some h'" using b p(1) f(1) r(1) by (subst free_cache_list.simps) simp
  moreover have "held_blocks S1 (C(i := bs)) = held_blocks S C"
  proof -
    have cb: "cached_blocks C = insert b (cached_blocks (C(i := bs)))" by (rule cached_pop [of C i b bs, OF p(2) assms(2)])
    have g: "segs_ok h S" using Suc.prems by (simp add: mm_good_def)
    from held_insert [OF g bu cb] show ?thesis unfolding held_blocks_def s(2) by auto
  qed
  ultimately show ?case using r s(3) same_user_trans [OF s(4) r(5)]
    by (intro exI [of _ h'] exI [of _ S'] exI [of _ F']) simp
qed

definition no_cache :: "nat \<Rightarrow> addr list" where
  "no_cache = (\<lambda>_. [])"

lemma free_cache_loop_ok:
  assumes "mm_good (cache h) h S F C {}" "\<forall>i \<in> set is. i < 64" "\<And>i. i < 64 \<Longrightarrow> i \<notin> set is \<Longrightarrow> C i = []"
  shows "\<exists>h' S' F'. free_cache_loop is h = Some h' \<and> mm_good (cache h') h' S' F' no_cache {} \<and>
    held_blocks S' no_cache = held_blocks S C \<and> mem_total S' \<le> mem_total S \<and>
    payload h' = payload h \<and> reserve h' = reserve h \<and> mm_limit h' = mm_limit h \<and> block_size h' = block_size h"
  using assms
proof (induction "is" arbitrary: h S F C)
  case Nil
  have "caches_ok (cache h) h S no_cache" using Nil by (simp add: mm_good_def caches_ok_def no_cache_def)
  then have "mm_good (cache h) h S F no_cache {}" using Nil(1) by (simp add: mm_good_def)
  moreover have "cached_blocks no_cache = cached_blocks C" using Nil(3) by (simp add: cached_blocks_def no_cache_def)
  ultimately show ?case by (auto simp: held_blocks_def)
next
  case (Cons i "is")
  have i: "i < 64" using Cons.prems(2) by simp
  obtain h1 S1 F1 where r: "free_cache_list (cache h i) h = Some h1" "mm_good ((cache h)(i := None)) h1 S1 F1 (C(i := [])) {}"
      "held_blocks S1 (C(i := [])) = held_blocks S C" "mem_total S1 \<le> mem_total S" "same_user h h1"
    using free_cache_list_ok [OF Cons.prems(1) i] by blast
  define h2 where "h2 = (if cache h i \<noteq> None then h1\<lparr>cache := (cache h1)(i := None)\<rparr> else h)"
  have c1: "cache h1 = cache h" using r(5) by (simp add: same_user_def)
  have h1: "cache h i = None \<Longrightarrow> h1 = h" using r(1) by (simp add: free_cache_list.simps)
  have g2: "mm_good (cache h2) h2 S1 F1 (C(i := [])) {}"
  proof (cases "cache h i = None")
    case True
    then have "(cache h)(i := None) = cache h" by (simp add: fun_eq_iff)
    then show ?thesis using r(2) True h1 by (simp add: h2_def)
  next
    case False
    then show ?thesis using good_same [OF r(2), of h2] c1 by (simp add: h2_def)
  qed
  have rest: "(C(i := [])) j = []" if "j < 64" "j \<notin> set is" for j using Cons.prems(3) [of j] that by simp
  have all: "\<forall>j \<in> set is. j < 64" using Cons.prems(2) by simp
  have "\<exists>h' S' F'. free_cache_loop is h2 = Some h' \<and> mm_good (cache h') h' S' F' no_cache {} \<and>
    held_blocks S' no_cache = held_blocks S1 (C(i := [])) \<and> mem_total S' \<le> mem_total S1 \<and>
    payload h' = payload h2 \<and> reserve h' = reserve h2 \<and> mm_limit h' = mm_limit h2 \<and> block_size h' = block_size h2"
    by (rule Cons.IH [OF g2 all]) (rule rest)
  then obtain h' S' F' where x: "free_cache_loop is h2 = Some h'" "mm_good (cache h') h' S' F' no_cache {}"
      "held_blocks S' no_cache = held_blocks S1 (C(i := []))" "mem_total S' \<le> mem_total S1"
      "payload h' = payload h2" "reserve h' = reserve h2" "mm_limit h' = mm_limit h2" "block_size h' = block_size h2"
    by blast
  have "free_cache_loop (i # is) h = Some h'" using r(1) x(1) unfolding h2_def by (cases "cache h i") simp_all
  moreover have "payload h2 = payload h" "reserve h2 = reserve h" "mm_limit h2 = mm_limit h" "block_size h2 = block_size h"
    using r(5) by (simp_all add: h2_def same_user_def)
  ultimately show ?case using x r(3,4) by (intro exI [of _ h'] exI [of _ S'] exI [of _ F']) simp
qed

lemma free_cache_ok:
  assumes "mm_good (cache h) h S F C {}"
  shows "\<exists>h' S' F'. zend_mm_free_cache h = Some h' \<and> mm_good (cache h') h' S' F' no_cache {} \<and>
    held_blocks S' no_cache = held_blocks S C \<and> mem_total S' \<le> mem_total S \<and>
    payload h' = payload h \<and> reserve h' = reserve h \<and> mm_limit h' = mm_limit h \<and> block_size h' = block_size h"
  unfolding zend_mm_free_cache_def
  by (rule free_cache_loop_ok [OF assms]) simp_all

end
