(* ===== verification/ZendAllocSplit.thy ===== *)
theory ZendAllocSplit
  imports ZendAllocRelease
begin

text \<open>A block is cut to size and becomes a used block.\<close>

lemma part_dvd: "part h a p ts \<Longrightarrow> 8 dvd extent ts"
  by (induction ts arbitrary: a p) (auto simp: block_sized_def)

lemma split_headers:
  assumes "block_sized n" "block_sized (N - n)" "n \<le> N" "info_prev h b = Some p"
  shows "retiled h (ZEND_MM_BLOCK (b + n) ZEND_MM_FREE_BLOCK (N - n) (ZEND_MM_BLOCK b ZEND_MM_USED_BLOCK n h)) b p N [(n, True), (N - n, False)]"
    "block_sized N \<Longrightarrow> retiled h (ZEND_MM_BLOCK b ZEND_MM_USED_BLOCK N h) b p N [(N, True)]"
  using assms by (auto simp: retiled_def block_sized_def)

definition used_tiles :: "addr \<Rightarrow> tile list \<Rightarrow> (addr \<times> nat) set" where
  "used_tiles b ts = {(c, m). (c, m, True) \<in> set (tiles_at b ts)}"

definition free_tiles :: "addr \<Rightarrow> tile list \<Rightarrow> addr set" where
  "free_tiles b ts = {c. \<exists>m. (c, m, False) \<in> set (tiles_at b ts)}"

lemma used_retile:
  "blocks_of S' = blocks_of S - set (tiles_at b ts) \<union> set (tiles_at b us) \<Longrightarrow>
    used_blocks S' = used_blocks S - used_tiles b ts \<union> used_tiles b us"
  unfolding used_blocks_def used_tiles_def by auto

text \<open>The tiles \<open>mid\<close>, free ones off the lists and no cached ones among them, become one used block and perhaps a free one.\<close>

lemma split_block_ok:
  assumes good: "mm_good K h (S1 @ (s, xs @ mid @ ys) # S2) F C L" and mid: "mid \<noteq> []" and b: "b = s + 16 + extent xs"
    and N: "N = extent mid" and n: "block_sized n" "n \<le> N" and L: "L = free_tiles b mid"
    and C: "fst ` used_tiles b mid \<inter> cached_blocks C = {}" and ys: "ys = [] \<or> snd (hd ys)"
  shows "\<exists>k h' F' mid'. split_block b N n keep h = Some (k, h') \<and> n \<le> k \<and> k \<le> N \<and> block_sized k \<and> extent mid' = N \<and>
    mm_good K h' (S1 @ (s, xs @ mid' @ ys) # S2) F' C {} \<and> same_user h h' \<and>
    used_blocks (S1 @ (s, xs @ mid' @ ys) # S2) = used_blocks (S1 @ (s, xs @ mid @ ys) # S2) - used_tiles b mid \<union> {(b, k)}"
proof -
  let ?S = "S1 @ (s, xs @ mid @ ys) # S2"
  have g: "segs_ok h ?S" using good by (simp add: mm_good_def)
  have t: "tail h (s + 16) 3 (xs @ mid @ ys)" "coalesced (xs @ mid @ ys)" "extent (xs @ mid @ ys) < 2 ^ 31"
    using g by (simp_all add: segs_ok_def seg_ok_def)
  have p: "part h b (last_tag 3 xs) mid" using t(1) b by (simp add: tail_append add.assoc)
  obtain u us where u: "mid = u # us" using mid by (cases mid) auto
  have ip: "info_prev h b = Some (last_tag 3 xs)" using p u by simp
  have dN: "8 dvd N" "N < 2 ^ 31" using part_dvd [OF p] t(3) N by simp_all
  have a10: "\<And>c m. (c, m, False) \<in> set (tiles_at b mid) \<Longrightarrow> c \<in> L" unfolding L free_tiles_def by blast
  have a11: "\<And>c m. (c, m, True) \<in> set (tiles_at b mid) \<Longrightarrow> c \<notin> cached_blocks C" using C unfolding used_tiles_def by force
  have cx: "coalesced xs" "coalesced ys" using t(2) by (simp_all add: coalesced_append)
  have Lm: "L - fst ` set (tiles_at b mid) = {}" unfolding L free_tiles_def by force
  show ?thesis
  proof (cases "N - n < 32")
    case True
    let ?h = "ZEND_MM_BLOCK b ZEND_MM_USED_BLOCK N h"
    let ?S' = "S1 @ (s, xs @ [(N, True)] @ ys) # S2"
    have sN: "block_sized N" using n dN by (auto simp: block_sized_def)
    have rt: "retiled h ?h b (last_tag 3 xs) N [(N, True)]"
      using sN ip by (auto simp: retiled_def block_sized_def)
    have co: "coalesced (xs @ [(N, True)] @ ys)" using cx by (simp add: coalesced_append coalesced_Cons)
    have ne: "[(N, True)] \<noteq> []" by simp
    note gr = good_retile [OF good header_updates(3,4) mid ne rt co b N a10 a11]
    have e: "{c. \<exists>m. (c, m, False) \<in> set (tiles_at b [(N, True)])} = {}" by simp
    have good': "mm_good K ?h ?S' F C {}" using gr(1) unfolding Lm e by simp
    have "used_blocks ?S' = used_blocks ?S - used_tiles b mid \<union> {(b, N)}"
      using used_retile [OF gr(2)] by (simp add: used_tiles_def)
    moreover have "split_block b N n keep h = Some (N, ?h)" using True by (simp add: split_block_def)
    moreover have "extent [(N, True)] = N" by simp
    ultimately show ?thesis using good' n(2) sN header_updates(5) by blast
  next
    case False
    let ?h1 = "ZEND_MM_BLOCK b ZEND_MM_USED_BLOCK n h"
    let ?h = "ZEND_MM_BLOCK (b + n) ZEND_MM_FREE_BLOCK (N - n) ?h1" and ?ts = "[(n, True), (N - n, False)]"
    let ?S' = "S1 @ (s, xs @ ?ts @ ys) # S2"
    have sR: "block_sized (N - n)" using n dN False by (auto simp: block_sized_def)
    have rt: "retiled h ?h b (last_tag 3 xs) N ?ts" by (rule split_headers(1) [OF n(1) sR n(2) ip])
    have co: "coalesced (xs @ ?ts @ ys)" using cx ys by (auto simp: coalesced_append coalesced_Cons)
    have ne: "?ts \<noteq> []" by simp
    have ss: "same_segments h ?h" "same_links h ?h" "same_user h ?h"
      by (rule same_segments_trans [OF header_updates(3) header_updates(3)] same_links_trans [OF header_updates(4) header_updates(4)]
          same_user_trans [OF header_updates(5) header_updates(5)])+
    note gr = good_retile [OF good ss(1,2) mid ne rt co b N a10 a11]
    have e: "{c. \<exists>m. (c, m, False) \<in> set (tiles_at b ?ts)} = {b + n}" by auto
    have good': "mm_good K ?h ?S' F C {b + n}" using gr(1) unfolding Lm e by simp
    have ub: "used_blocks ?S' = used_blocks ?S - used_tiles b mid \<union> {(b, n)}"
      using used_retile [OF gr(2)] by (simp add: used_tiles_def)
    have "\<exists>h' F'. (if keep then zend_mm_add_to_rest_list (b + n) ?h else zend_mm_add_to_free_list (b + n) ?h) = Some h' \<and>
        mm_good K h' ?S' F' C {} \<and> core h' = core ?h"
      using put_free [OF good', of "b + n"] by (cases keep) simp_all
    then obtain h' F' where r: "(if keep then zend_mm_add_to_rest_list (b + n) ?h else zend_mm_add_to_free_list (b + n) ?h) = Some h'"
        "mm_good K h' ?S' F' C {}" "core h' = core ?h" by blast
    have "split_block b N n keep h = Some (n, h')" using False r(1) by (simp add: split_block_def)
    moreover have "same_user h h'" using same_user_trans [OF ss(3) same_user_core [OF r(3)]] .
    moreover have "extent ?ts = N" using n by simp
    ultimately show ?thesis using r(2) ub n by blast
  qed
qed

end
