(* ===== verification/ZendAllocAllocate.thy ===== *)
theory ZendAllocAllocate
  imports ZendAllocSplit
begin

text \<open>Allocation: a free block is cut, a cached block is taken, or a new segment comes.\<close>

subsection \<open>From the free lists\<close>

lemma used_in_used: "b \<in> used_in S \<longleftrightarrow> (\<exists>n. (b, n) \<in> used_blocks S)"
  by (simp add: used_in_def used_blocks_def)

lemma check_linkage:
  assumes "segs_ok h (S1 @ (s, xs @ (N, False) # ys) # S2)" "b = s + 16 + extent xs"
  shows "ZEND_MM_CHECK_BLOCK_LINKAGE b h = Some ()"
proof -
  note sp = seg_parts [OF assms]
  have i: "info_size h b = Some N" using sp(3) by simp
  have "info_prev h (b + N) = Some N" using sp(1) by (cases ys) simp_all
  moreover have "\<exists>q qs. ZEND_MM_PREV_BLOCK b h = Some q \<and> info_size h q = Some qs \<and> info_prev h b = Some qs" if x: "xs \<noteq> []"
  proof -
    obtain zs t where xs: "xs = zs @ [t]" using x by (cases xs rule: rev_cases) auto
    have bt: "b - fst t = s + 16 + extent zs" using xs assms(2) by simp
    have t: "info_size h (b - fst t) = Some (tag t)" "block_sized (fst t)" "info_prev h b = Some (tag t)" unfolding bt
      using sp(2,4) xs assms(2) by (simp_all add: add.assoc)
    have le: "fst t \<le> b" using xs assms(2) by simp
    have "i32 (int (fst t)) = int (fst t)" using t(2) by (simp add: i32_def block_sized_def)
    moreover have "ZEND_MM_BLOCK_SIZE (tag t) = fst t" using t(2) by (cases t; cases "snd t") (auto simp: block_sized_def)
    ultimately have "ZEND_MM_PREV_BLOCK b h = Some (b - fst t)"
      using t(3) le by (simp add: ZEND_MM_PREV_BLOCK_def Let_def nat_diff_distrib)
    then show ?thesis using t by blast
  qed
  moreover have "ZEND_MM_IS_FIRST_BLOCK b h = Some (xs = [])"
    using sp(4) last_tag_first [OF sp(2)] by (simp add: ZEND_MM_IS_FIRST_BLOCK_def ZEND_MM_GUARD_BLOCK_def)
  ultimately show ?thesis using i by (cases "xs = []") (auto simp: ZEND_MM_CHECK_BLOCK_LINKAGE_def)
qed

text \<open>What an allocation from the heap's own blocks does.\<close>

definition gained :: "(nat \<Rightarrow> addr option) \<Rightarrow> mm_heap \<Rightarrow> segment list \<Rightarrow> (nat \<Rightarrow> addr list) \<Rightarrow> addr \<Rightarrow> nat \<Rightarrow> mm_heap \<Rightarrow> bool" where
  "gained K h S C b n h' \<longleftrightarrow> (\<exists>k S' F'. n \<le> k \<and> mm_good K h' S' F' C {} \<and> used_blocks S' = insert (b, k) (used_blocks S)) \<and>
     b \<notin> used_in S \<and> same_user h h' \<and> unat (real_size h') \<le> max (unat (real_size h)) (unat (mm_limit h))"

lemma good_total: "mm_good K h S F C L \<Longrightarrow> unat (real_size h) = mem_total S"
  by (simp add: mm_good_def segs_ok_def)

lemma gained_later:
  "\<lbrakk>gained K h S C b n h1; same_memory h1 h'; same_user h1 h'\<rbrakk> \<Longrightarrow> gained K h S C b n h'"
proof -
  assume a: "gained K h S C b n h1" "same_memory h1 h'" "same_user h1 h'"
  obtain k S' F' where k: "n \<le> k" "mm_good K h1 S' F' C {}" "used_blocks S' = insert (b, k) (used_blocks S)"
    using a(1) unfolding gained_def by blast
  have "real_size h' = real_size h1" using a(2) by (simp add: same_memory_def same_segments_def)
  moreover have "mm_good K h' S' F' C {}" by (rule good_same [OF k(2) a(2)])
  moreover have "same_user h h'" using a(1,3) same_user_trans unfolding gained_def by blast
  ultimately show "gained K h S C b n h'" using a(1) k(1,3) unfolding gained_def by metis
qed

lemma peak_user [simp]: "same_user h (raise_peak (h\<lparr>mm_size := v\<rparr>))" "same_memory h (raise_peak (h\<lparr>mm_size := v\<rparr>))"
  by (simp_all add: same_user_def same_memory_def same_segments_def same_links_def raise_peak_def)

lemma alloc_found_ok:
  assumes good: "mm_good K h S F C {}" and f: "found h F n b" and n: "block_sized n"
  shows "\<exists>h'. alloc_found b n h = Some (Done (b + 16) h') \<and> gained K h S C b n h'"
proof -
  have g: "segs_ok h S" "free_blocks F = free_in S" "caches_ok K h S C" using good by (simp_all add: mm_good_def)
  have bf: "b \<in> free_in S" using f g(2) by (simp add: found_def)
  then obtain N where N: "(b, N, False) \<in> blocks_of S" by (auto simp: free_in_def)
  have i: "info_size h b = Some N" using block_info(1) [OF g(1) N] by simp
  have le: "n \<le> N" using f i by (auto simp: found_def)
  obtain S1 s xs ys S2 where S: "S = S1 @ (s, xs @ (N, False) # ys) # S2" "b = s + 16 + extent xs" using locate [OF N] by blast
  have link: "ZEND_MM_CHECK_BLOCK_LINKAGE b h = Some ()" by (rule check_linkage [OF g(1) [unfolded S(1)] S(2)])
  obtain h1 F1 where r: "zend_mm_remove_from_free_list b h = Some h1" "mm_good K h1 S F1 C {b}" "core h1 = core h"
    using take_free [OF good bf] by blast
  have i1: "info_size h1 b = Some N" using i core_fields(1) [OF r(3)] by simp
  have "coalesced (xs @ (N, False) # ys)" using seg_parts(6) [OF g(1) [unfolded S(1)] S(2)] .
  then have ys: "ys = [] \<or> snd (hd ys)" by (simp add: coalesced_append coalesced_Cons)
  have r2: "mm_good K h1 (S1 @ (s, xs @ [(N, False)] @ ys) # S2) F1 C {b}" using r(2) S(1) by simp
  have e: "{b} = free_tiles b [(N, False)]" "fst ` used_tiles b [(N, False)] \<inter> cached_blocks C = {}" "N = extent [(N, False)]" "[(N, False)] \<noteq> []"
    by (simp_all add: free_tiles_def used_tiles_def)
  obtain k h2 F2 mid where x: "split_block b N n False h1 = Some (k, h2)" "n \<le> k" "extent mid = N" "mm_good K h2 (S1 @ (s, xs @ mid @ ys) # S2) F2 C {}"
      "same_user h1 h2" "used_blocks (S1 @ (s, xs @ mid @ ys) # S2) = used_blocks (S1 @ (s, xs @ [(N, False)] @ ys) # S2) - used_tiles b [(N, False)] \<union> {(b, k)}"
    using split_block_ok [OF r2 e(4) S(2) e(3) n le e(1,2) ys, of False] by blast
  let ?h = "raise_peak (h2\<lparr>mm_size := mm_size h2 + of_nat k\<rparr>)"
  have "alloc_found b n h = Some (Done (b + 16) ?h)"
    using link r(1) i1 x(1) by (simp add: alloc_found_def finish_alloc_def Let_def)
  moreover have "used_blocks (S1 @ (s, xs @ mid @ ys) # S2) = insert (b, k) (used_blocks S)"
    using x(6) S(1) by (simp add: used_tiles_def)
  moreover have "unat (real_size h2) = unat (real_size h)"
    using good_total [OF x(4)] good_total [OF good] S(1) x(3) by simp
  moreover have "b \<notin> used_in S" using free_not_used [OF g(1)] bf by blast
  moreover have "same_user h h2" by (rule same_user_trans [OF same_user_core [OF r(3)] x(5)])
  ultimately have "gained K h S C b n h2" using x(2,4) unfolding gained_def by (metis max.cobounded1)
  then have "gained K h S C b n ?h" by (rule gained_later) simp_all
  then show ?thesis using \<open>alloc_found b n h = _\<close> by blast
qed

subsection \<open>From a new segment\<close>

lemma unat_clear_low:
  fixes x :: ulong
  shows "unat (x AND NOT (push_bit k 1 - 1)) = unat x div 2 ^ k * 2 ^ k"
proof -
  have m: "push_bit k 1 - 1 = (mask k :: ulong)" by (simp add: mask_eq_exp_minus_1)
  have "x AND NOT (mask k) = push_bit k (drop_bit k x)"
    by (rule bit_word_eqI) (auto simp: bit_simps)
  then have "unat (x AND NOT (mask k)) = take_bit 64 (push_bit k (unat (drop_bit k x)))"
    by (simp add: unsigned_push_bit_eq)
  also have "unat (drop_bit k x) = unat x div 2 ^ k" 
  proof -
    have "unat x < 2 ^ 64" using unsigned_less [of x] by simp
    then have "take_bit 64 (unat x) = unat x" by (rule take_bit_nat_eq_self)
    then show ?thesis by (simp only: unsigned_drop_bit_eq) (simp add: drop_bit_eq_div)
  qed
  also have "take_bit 64 (push_bit k (unat x div 2 ^ k)) = unat x div 2 ^ k * 2 ^ k"
  proof -
    have "unat x div 2 ^ k * 2 ^ k \<le> unat x" by simp
    moreover have "unat x < 2 ^ 64" using unsigned_less [of x] by simp
    ultimately have "unat x div 2 ^ k * 2 ^ k < 2 ^ 64" by linarith
    then show ?thesis by (simp add: take_bit_nat_eq_self push_bit_eq_mult)
  qed
  finally show ?thesis by (simp only: m)
qed

lemma floor_near: "(m :: nat) - (2 ^ k - 1) \<le> m div 2 ^ k * 2 ^ k"
proof -
  have "m mod 2 ^ k < 2 ^ k" by simp
  then show ?thesis using div_mult_mod_eq [of m "2 ^ k"] by linarith
qed

definition block_size_ok :: "mm_heap \<Rightarrow> bool" where
  "block_size_ok h \<longleftrightarrow> (\<exists>k. 5 \<le> k \<and> k < 64 \<and> block_size h = push_bit k 1)"

lemma segment_size_ok:
  assumes "block_size_ok h" "8 dvd n" "n < 2 ^ 64" "n \<le> unat (segment_size_for n h)"
  shows "n + 32 \<le> unat (segment_size_for n h)" "8 dvd unat (segment_size_for n h)"
proof -
  obtain k where k: "5 \<le> k" "k < 64" "block_size h = push_bit k 1" using assms(1) by (auto simp: block_size_ok_def)
  have dk: "8 dvd (2 :: nat) ^ k" using le_imp_power_dvd [of 3 k 2] k(1) by simp
  have big: "32 \<le> (2 :: nat) ^ k" using power_increasing [of 5 k "2 :: nat"] k(1) by simp
  have small: "(2 :: nat) ^ k \<le> 2 ^ 63" using power_increasing [of k 63 "2 :: nat"] k(2) by simp
  have bs: "block_size h = of_nat (2 ^ k)" by (simp add: k(3) push_bit_eq_mult)
  have u: "unat (block_size h) = 2 ^ k" unfolding bs unat_of_nat using small by simp
  have un: "unat (of_nat n :: ulong) = n" using assms(3) by (simp add: unat_of_nat)
  show "n + 32 \<le> unat (segment_size_for n h)" "8 dvd unat (segment_size_for n h)"
  proof -
    have "(32 :: ulong) \<le> block_size h" using u big by (simp add: word_le_nat_alt)
    then have ub: "unat (block_size h - 32) = 2 ^ k - 32" using u by (simp add: unat_sub)
    have nl: "needs_large_segment n h \<longleftrightarrow> 2 ^ k - 32 < n" using ub un by (simp add: needs_large_segment_def word_less_nat_alt)
    have "n + 32 \<le> unat (segment_size_for n h) \<and> 8 dvd unat (segment_size_for n h)"
    proof (cases "needs_large_segment n h")
      case False
      then show ?thesis using nl u big dk by (auto simp: segment_size_for_def)
    next
      case True
      let ?y = "of_nat n + 32 + (block_size h - 1) :: ulong"
      have sg: "unat (segment_size_for n h) = unat ?y div 2 ^ k * 2 ^ k"
        using True unat_clear_low [of ?y k] by (simp add: segment_size_for_def k(3))
      have "?y = of_nat (n + 32 + (2 ^ k - 1))"
      proof -
        have "(of_nat (2 ^ k - 1) :: ulong) = of_nat (2 ^ k) - 1" using big by (simp add: of_nat_diff)
        then show ?thesis unfolding bs by simp
      qed
      then have y: "unat ?y = (n + 32 + (2 ^ k - 1)) mod 2 ^ 64" by (simp only: unat_of_nat) simp
      show ?thesis
      proof (cases "n + 32 + (2 ^ k - 1) < 2 ^ 64")
        case True
        then have "unat ?y = n + 32 + (2 ^ k - 1)" using y by simp
        moreover have "unat ?y - (2 ^ k - 1) \<le> unat ?y div 2 ^ k * 2 ^ k"
          by (rule floor_near)
        ultimately show ?thesis using sg dk by simp
      next
        case False
        have wrap: "m mod 2 ^ 64 = m - 2 ^ 64" if "\<not> m < 2 ^ 64" "m < 2 ^ 65" for m :: nat using that by (simp add: mod_if)
        have "(n + 32 + (2 ^ k - 1)) mod 2 ^ 64 = n + 32 + (2 ^ k - 1) - 2 ^ 64"
          by (rule wrap) (use False assms(3) small in \<open>simp_all\<close>)
        moreover have "n + 32 + (2 ^ k - 1) - 2 ^ 64 < n" using small big False by (simp add: less_diff_conv2)
        ultimately have "unat ?y < n" using y by simp
        moreover have "unat ?y div 2 ^ k * 2 ^ k \<le> unat ?y" by simp
        ultimately show ?thesis using assms(4) sg by linarith
      qed
    qed
    then show "n + 32 \<le> unat (segment_size_for n h)" "8 dvd unat (segment_size_for n h)" by auto
  qed
qed

lemma block_over_block:
  "ZEND_MM_BLOCK b ZEND_MM_USED_BLOCK N (ZEND_MM_BLOCK b ZEND_MM_FREE_BLOCK N h) = ZEND_MM_BLOCK b ZEND_MM_USED_BLOCK N h"
  "n + r = N \<Longrightarrow> ZEND_MM_BLOCK (b + n) ZEND_MM_FREE_BLOCK r (ZEND_MM_BLOCK b ZEND_MM_USED_BLOCK n (ZEND_MM_BLOCK b ZEND_MM_FREE_BLOCK N h)) =
    ZEND_MM_BLOCK (b + n) ZEND_MM_FREE_BLOCK r (ZEND_MM_BLOCK b ZEND_MM_USED_BLOCK n h)"
proof -
  show "ZEND_MM_BLOCK b ZEND_MM_USED_BLOCK N (ZEND_MM_BLOCK b ZEND_MM_FREE_BLOCK N h) = ZEND_MM_BLOCK b ZEND_MM_USED_BLOCK N h"
    by (simp add: ZEND_MM_BLOCK_def)
  assume n: "n + r = N"
  have a: "b + n + r = b + N" using n by simp
  show "ZEND_MM_BLOCK (b + n) ZEND_MM_FREE_BLOCK r (ZEND_MM_BLOCK b ZEND_MM_USED_BLOCK n (ZEND_MM_BLOCK b ZEND_MM_FREE_BLOCK N h)) =
    ZEND_MM_BLOCK (b + n) ZEND_MM_FREE_BLOCK r (ZEND_MM_BLOCK b ZEND_MM_USED_BLOCK n h)"
    unfolding ZEND_MM_BLOCK_def a by (simp add: fun_upd_twist fun_eq_iff)
qed

lemma split_over_free:
  assumes "n \<le> N"
  shows "split_block b N n keep (ZEND_MM_BLOCK b ZEND_MM_FREE_BLOCK N h) = split_block b N n keep h"
  using block_over_block(2) [of n "N - n" N b h] assms
  by (simp only: split_block_def block_over_block(1) Let_def le_add_diff_inverse)

text \<open>What the storage handlers promise: fresh memory, and no request beyond the address space is met.\<close>

definition fresh_segment :: "mm_heap \<Rightarrow> addr \<Rightarrow> nat \<Rightarrow> bool" where
  "fresh_segment h s n \<longleftrightarrow> (\<forall>t m. segment_size h t = Some m \<longrightarrow> {s..<s + n} \<inter> {t..<t + m} = {})"

definition storage_ok :: "mm_storage \<Rightarrow> bool" where
  "storage_ok st \<longleftrightarrow>
     (\<forall>h n s. storage_alloc st h n = Some s \<longrightarrow> n < 2 ^ 47 \<and> fresh_segment h s n) \<and>
     (\<forall>h s n s'. storage_realloc st h s n = Some s' \<longrightarrow> n < 2 ^ 47 \<and> fresh_segment (h\<lparr>segment_size := (segment_size h)(s := None)\<rparr>) s' n)"

lemma guard_updates [simp]:
  "ZEND_MM_LAST_BLOCK b h = h\<lparr>info_size := (info_size h)(b \<mapsto> 19)\<rparr>"
  "ZEND_MM_MARK_FIRST_BLOCK b h = h\<lparr>info_prev := (info_prev h)(b \<mapsto> 3)\<rparr>"
  using used_tag(3) by (simp_all add: ZEND_MM_LAST_BLOCK_def ZEND_MM_MARK_FIRST_BLOCK_def ZEND_MM_GUARD_BLOCK_def)

lemma raise_real_fields [simp]:
  "info_size (raise_real_peak h) = info_size h" "info_prev (raise_real_peak h) = info_prev h" "segments_list (raise_real_peak h) = segments_list h"
  "segment_size (raise_real_peak h) = segment_size h" "next_segment (raise_real_peak h) = next_segment h" "real_size (raise_real_peak h) = real_size h"
  "next_free (raise_real_peak h) = next_free h" "prev_free (raise_real_peak h) = prev_free h" "block_parent (raise_real_peak h) = block_parent h"
  "block_child (raise_real_peak h) = block_child h" "large_free_buckets (raise_real_peak h) = large_free_buckets h"
  "free_bitmap (raise_real_peak h) = free_bitmap h" "large_free_bitmap (raise_real_peak h) = large_free_bitmap h"
  "rest_count (raise_real_peak h) = rest_count h" "payload (raise_real_peak h) = payload h" "cache (raise_real_peak h) = cache h"
  "reserve (raise_real_peak h) = reserve h" "mm_limit (raise_real_peak h) = mm_limit h" "block_size (raise_real_peak h) = block_size h"
  by (simp_all add: raise_real_peak_def)

lemma new_segment_good:
  assumes good: "mm_good K h S F C {}" and fresh: "fresh_segment h s (N + 32)" and N: "block_sized N"
    and room: "mem_total S + N + 32 < 2 ^ 31"
    and h1: "h1 = raise_real_peak (h\<lparr>real_size := real_size h + of_nat (N + 32)\<rparr>)"
    and h2: "h2 = h1\<lparr>segment_size := (segment_size h1)(s \<mapsto> N + 32), next_segment := (next_segment h1)(s \<mapsto> segments_list h1), segments_list := Some s\<rparr>"
    and h3: "h3 = ZEND_MM_LAST_BLOCK (s + 16 + N) (ZEND_MM_MARK_FIRST_BLOCK (s + 16) h2)"
  shows "mm_good K (ZEND_MM_BLOCK (s + 16) ZEND_MM_FREE_BLOCK N h3) ((s, [(N, False)]) # S) F C {s + 16}" "s + 16 \<notin> used_in S" "same_user h h3"
proof -
  let ?h = "ZEND_MM_BLOCK (s + 16) ZEND_MM_FREE_BLOCK N h3"
  have g: "segs_ok h S" using good by (simp add: mm_good_def)
  have apart: "span (s, [(N, False)]) \<inter> span y = {}" if y: "y \<in> set S" for y
  proof -
    have "segment_size h (fst y) = Some (extent (snd y) + 32)" using g y by (simp add: segs_ok_def seg_ok_def)
    then have "{s..<s + (N + 32)} \<inter> {fst y..<fst y + (extent (snd y) + 32)} = {}" using fresh unfolding fresh_segment_def by blast
    then show ?thesis by (simp add: span_def add.assoc)
  qed
  have flds: "info_size h3 = (info_size h)(s + 16 + N \<mapsto> 19)" "info_prev h3 = (info_prev h)(s + 16 \<mapsto> 3)" "segments_list h3 = Some s"
    "segment_size h3 = (segment_size h)(s \<mapsto> N + 32)" "next_segment h3 = (next_segment h)(s \<mapsto> segments_list h)"
    "real_size h3 = real_size h + of_nat (N + 32)" "same_links h h3" "same_user h h3"
    by (simp_all add: h1 h2 h3 same_links_def same_user_def)
  have nz: "N \<noteq> 0" using N by (simp add: block_sized_def)
  have blk: "segments_list ?h = segments_list h3" "segment_size ?h = segment_size h3" "next_segment ?h = next_segment h3" "real_size ?h = real_size h3"
    by (simp_all add: ZEND_MM_BLOCK_def)
  have "mm_good K ?h ((s, [(N, False)]) # S) F C ({} \<union> free_in [(s, [(N, False)])])"
  proof (rule new_segment_ok [OF good])
    show "seg_ok ?h (s, [(N, False)])" using N nz by (simp add: seg_ok_def blk flds block_sized_def)
    show "same_links h ?h" by (rule same_links_trans [OF flds(7) header_updates(4)])
    show "span (s, [(N, False)]) \<inter> span y = {}" if "y \<in> set S" for y using apart [OF that] .
    show "info_size ?h x = info_size h x \<and> info_prev ?h x = info_prev h x" if "x \<notin> span (s, [(N, False)])" for x
      using that by (auto simp: span_def flds)
  qed (use room in \<open>simp_all add: blk flds\<close>)
  moreover have "free_in [(s, [(N, False)])] = {s + 16}" by (simp add: free_in_def seg_blocks_def)
  ultimately show "mm_good K ?h ((s, [(N, False)]) # S) F C {s + 16}" by simp
  show "s + 16 \<notin> used_in S"
  proof
    assume "s + 16 \<in> used_in S"
    then obtain y n where y: "y \<in> set S" "(s + 16, n, True) \<in> seg_blocks y" by (auto simp: used_in_def blocks_of_def)
    have "seg_ok h y" using g y(1) by (simp add: segs_ok_def)
    then have "s + 16 \<in> span y" using seg_block_info(3,4) [of h y "s + 16" "(n, True)"] y(2) by (simp add: span_def)
    moreover have "s + 16 \<in> span (s, [(N, False)])" by (simp add: span_def)
    ultimately show False using apart [OF y(1)] by blast
  qed
  show "same_user h h3" by (rule flds(8))
qed

end
