(* ===== verification/ZendAllocUser.thy ===== *)
theory ZendAllocUser
  imports ZendAllocAllocate
begin

text \<open>The manager as its callers see it: the blocks they hold, allocation and its failures.\<close>

text \<open>\<open>H\<close> are the blocks the callers hold, the reserve among them: address of the header, and size with the header.\<close>

definition mm_state :: "mm_heap \<Rightarrow> (addr \<times> nat) set \<Rightarrow> bool" where
  "mm_state h H \<longleftrightarrow> (\<exists>S F C. mm_good (cache h) h S F C {} \<and> held_blocks S C = H) \<and> block_size_ok h \<and>
     (\<forall>p. reserve h = Some p \<longrightarrow> (\<exists>b n. p = b + 16 \<and> (b, n) \<in> H))"

definition reserved :: "mm_heap \<Rightarrow> (addr \<times> nat) set" where
  "reserved h = {x. reserve h = Some (fst x + 16)}"

lemma mm_stateI:
  "\<lbrakk>mm_good (cache h) h S F C {}; block_size_ok h; \<forall>p. reserve h = Some p \<longrightarrow> (\<exists>b n. p = b + 16 \<and> (b, n) \<in> H); held_blocks S C = H\<rbrakk> \<Longrightarrow>
    mm_state h H"
  unfolding mm_state_def by blast

text \<open>After an error the reserve is gone and nothing else.\<close>

definition mm_fails :: "mm_heap \<Rightarrow> (addr \<times> nat) set \<Rightarrow> mm_heap \<Rightarrow> bool" where
  "mm_fails h H h' \<longleftrightarrow> mm_state h' (H - reserved h) \<and> reserve h' = None \<and> payload h' = payload h \<and> mm_limit h' = mm_limit h \<and>
     unat (real_size h') \<le> unat (real_size h)"

lemma held_unique: "\<lbrakk>segs_ok h S; (b, n) \<in> held_blocks S C; (b, m) \<in> held_blocks S C\<rbrakk> \<Longrightarrow> n = m"
  using used_unique [of h S b m n] by (simp add: held_blocks_def)

lemma safe_error_ok:
  assumes good: "mm_good (cache h) h S F C {}" and bs: "block_size_ok h"
    and rs: "\<forall>p. reserve h = Some p \<longrightarrow> (\<exists>b n. p = b + 16 \<and> (b, n) \<in> held_blocks S C)"
  shows "\<exists>h'. zend_mm_safe_error e h = Some (Fatal e h') \<and> mm_fails h (held_blocks S C) h'"
proof (cases "reserve h")
  case None
  let ?h = "h\<lparr>overflow := (if overflow h = 0 then 1 else 2)\<rparr>"
  have "mm_good (cache ?h) ?h S F C {}" using good_same [OF good, of ?h] by simp
  moreover have "held_blocks S C - reserved h = held_blocks S C" using None by (simp add: reserved_def)
  moreover have "block_size_ok ?h" using bs by (simp add: block_size_ok_def)
  ultimately have "mm_state ?h (held_blocks S C - reserved h)" using None by (intro mm_stateI) simp_all
  then have "mm_fails h (held_blocks S C) ?h" using None by (simp add: mm_fails_def)
  then show ?thesis using None by (simp add: zend_mm_safe_error_def)
next
  case (Some p)
  obtain b n where b: "p = b + 16" "(b, n) \<in> held_blocks S C" using rs Some by blast
  obtain h1 S1 F1 C1 where r: "zend_mm_free_int (Some (b + 16)) h = Some h1" "mm_good (cache h1) h1 S1 F1 C1 {}"
      "held_blocks S1 C1 = held_blocks S C - {(b, n)}" "mem_total S1 \<le> mem_total S"
      "payload h1 = payload h" "reserve h1 = reserve h" "mm_limit h1 = mm_limit h" "block_size h1 = block_size h"
    using free_int_ok [OF good b(2)] by blast
  let ?h0 = "h1\<lparr>reserve := None\<rparr>"
  let ?h = "?h0\<lparr>overflow := (if overflow ?h0 = 0 then 1 else 2)\<rparr>"
  have g: "segs_ok h S" using good by (simp add: mm_good_def)
  have "held_blocks S C - reserved h = held_blocks S C - {(b, n)}"
  proof -
    have "x = (b, n)" if x: "x \<in> held_blocks S C" "fst x = b" for x
    proof -
      have "(b, snd x) \<in> held_blocks S C" using x by (metis prod.collapse)
      then have "n = snd x" by (rule held_unique [OF g b(2)])
      then show ?thesis using x(2) by (simp add: prod_eq_iff)
    qed
    moreover have "x \<in> reserved h \<longleftrightarrow> fst x = b" for x using Some b(1) by (auto simp: reserved_def)
    moreover have "fst (b, n) = b" by simp
    ultimately show ?thesis unfolding set_eq_iff Diff_iff singleton_iff by metis
  qed
  then have hb: "held_blocks S1 C1 = held_blocks S C - reserved h" using r(3) by simp
  have good2: "mm_good (cache ?h) ?h S1 F1 C1 {}"
  proof -
    have "same_memory h1 ?h" by (simp add: same_memory_def same_segments_def same_links_def)
    from good_same [OF r(2) this] show ?thesis by simp
  qed
  have "block_size_ok ?h" using bs r(8) by (simp add: block_size_ok_def)
  moreover have "unat (real_size ?h) \<le> unat (real_size h)" using good_total [OF good] good_total [OF r(2)] r(4) by simp
  moreover have "mm_state ?h (held_blocks S C - reserved h)"
    by (rule mm_stateI [OF good2 _ _ hb]) (use calculation(1) in simp_all)
  ultimately have "mm_fails h (held_blocks S C) ?h" using r(5,7) by (simp add: mm_fails_def)
  then show ?thesis using Some b(1) r(1) by (simp add: zend_mm_safe_error_def)
qed

text \<open>The cache is emptied first.\<close>

lemma give_up_ok:
  assumes good: "mm_good (cache h) h S F C {}" and bs: "block_size_ok h"
    and rs: "\<forall>p. reserve h = Some p \<longrightarrow> (\<exists>b n. p = b + 16 \<and> (b, n) \<in> held_blocks S C)"
  shows "\<exists>h'. do { h \<leftarrow> zend_mm_free_cache h; zend_mm_safe_error e h } = (Some (Fatal e h') :: 'a mm_outcome option) \<and> mm_fails h (held_blocks S C) h'"
proof -
  obtain h1 S1 F1 where r: "zend_mm_free_cache h = Some h1" "mm_good (cache h1) h1 S1 F1 no_cache {}"
      "held_blocks S1 no_cache = held_blocks S C" "mem_total S1 \<le> mem_total S"
      "payload h1 = payload h" "reserve h1 = reserve h" "mm_limit h1 = mm_limit h" "block_size h1 = block_size h"
    using free_cache_ok [OF good] by blast
  have "block_size_ok h1" "\<forall>p. reserve h1 = Some p \<longrightarrow> (\<exists>b n. p = b + 16 \<and> (b, n) \<in> held_blocks S1 no_cache)"
    using bs rs r(3,6,8) by (simp_all add: block_size_ok_def)
  then obtain h' where x: "zend_mm_safe_error e h1 = (Some (Fatal e h') :: 'a mm_outcome option)" "mm_fails h1 (held_blocks S C) h'"
    using safe_error_ok [OF r(2)] r(3) by metis
  have "mm_fails h (held_blocks S C) h'"
    using x(2) r good_total [OF good] good_total [OF r(2)] by (simp add: mm_fails_def reserved_def)
  moreover have "do { h \<leftarrow> zend_mm_free_cache h; zend_mm_safe_error e h } = (Some (Fatal e h') :: 'a mm_outcome option)" using r(1) x(1) by simp
  ultimately show ?thesis by blast
qed

subsection \<open>Allocation\<close>

definition seg_result :: "mm_heap \<Rightarrow> segment list \<Rightarrow> (nat \<Rightarrow> addr list) \<Rightarrow> nat \<Rightarrow> addr mm_outcome \<Rightarrow> bool" where
  "seg_result h S C n r \<longleftrightarrow> (case r of Done p h' \<Rightarrow> \<exists>b. p = b + 16 \<and> gained (cache h) h S C b n h'
     | Fatal e h' \<Rightarrow> mm_fails h (held_blocks S C) h')"

lemma word_unat_inv: "(of_nat (unat w) :: ulong) = w"
  by simp

lemma alloc_segment_ok:
  assumes good: "mm_good (cache h) h S F C {}" and bs: "block_size_ok h"
    and rs: "\<forall>p. reserve h = Some p \<longrightarrow> (\<exists>b n. p = b + 16 \<and> (b, n) \<in> held_blocks S C)"
    and st: "storage_ok st" and n: "32 \<le> n" "8 dvd n" "n < 2 ^ 64"
    and room: "unat (mm_limit h) < 2 ^ 31 \<or> unat (real_size h) + unat (segment_size_for n h) < 2 ^ 31"
  shows "\<exists>r. alloc_segment st n h = Some r \<and> seg_result h S C n r"
proof -
  let ?seg = "segment_size_for n h"
  have g: "segs_ok h S" using good by (simp add: mm_good_def)
  have tot: "unat (real_size h) = mem_total S" "mem_total S < 2 ^ 31" using g by (simp_all add: segs_ok_def)
  have fail: "\<exists>r. do { h \<leftarrow> zend_mm_free_cache h; zend_mm_safe_error e h } = Some r \<and> seg_result h S C n r" for e
    using give_up_ok [OF good bs rs, of e] by (auto simp: seg_result_def)
  show ?thesis
  proof (cases "unat ?seg < n \<or> real_size h + ?seg > mm_limit h")
    case True
    then show ?thesis using fail [of Limit_Exhausted] by (simp add: alloc_segment_def Let_def)
  next
    case lim: False
    show ?thesis
    proof (cases "storage_alloc st h (unat ?seg)")
      case None
      then show ?thesis using lim fail [of Out_Of_Memory] by (simp add: alloc_segment_def Let_def)
    next
      case (Some s)
      have st2: "unat ?seg < 2 ^ 47" "fresh_segment h s (unat ?seg)" using st Some unfolding storage_ok_def by blast+
      let ?N = "unat ?seg - 32"
      have sz: "n + 32 \<le> unat ?seg" "8 dvd unat ?seg" using segment_size_ok [OF bs n(2,3)] lim by auto
      have sum: "unat (real_size h + ?seg) = mem_total S + unat ?seg" using tot st2(1) by (simp add: unat_word_ariths)
      have le: "mem_total S + unat ?seg \<le> unat (mm_limit h)" using lim sum by (simp add: word_le_nat_alt not_less)
      have rm: "mem_total S + ?N + 32 < 2 ^ 31" using room le sz(1) tot by auto
      have N: "block_sized ?N" using sz n(1) rm by (auto simp: block_sized_def)
      have N32: "?N + 32 = unat ?seg" "(of_nat (?N + 32) :: ulong) = ?seg" using sz(1) by simp_all
      let ?h1 = "raise_real_peak (h\<lparr>real_size := real_size h + ?seg\<rparr>)"
      let ?h2 = "?h1\<lparr>segment_size := (segment_size ?h1)(s \<mapsto> unat ?seg), next_segment := (next_segment ?h1)(s \<mapsto> segments_list ?h1), segments_list := Some s\<rparr>"
      let ?h3 = "ZEND_MM_LAST_BLOCK (s + 16 + ?N) (ZEND_MM_MARK_FIRST_BLOCK (s + 16) ?h2)"
      let ?h4 = "ZEND_MM_BLOCK (s + 16) ZEND_MM_FREE_BLOCK ?N ?h3"
      have fr: "fresh_segment h s (?N + 32)" by (simp only: N32(1) st2(2))
      note nw = new_segment_good [OF good fr N rm refl refl refl, unfolded N32(1) word_unat_inv]
      have good4: "mm_good (cache h) ?h4 ([] @ (s, [] @ [(?N, False)] @ []) # S) F C {s + 16}" using nw(1) by simp
      have e: "[(?N, False)] \<noteq> []" "s + 16 = s + 16 + extent []" "?N = extent [(?N, False)]" "block_sized n" "n \<le> ?N"
        "{s + 16} = free_tiles (s + 16) [(?N, False)]" "fst ` used_tiles (s + 16) [(?N, False)] \<inter> cached_blocks C = {}"
        "([] :: tile list) = [] \<or> snd (hd ([] :: tile list))"
        using n sz(1) N by (auto simp: free_tiles_def used_tiles_def block_sized_def)
      obtain k h5 F5 mid where x: "split_block (s + 16) ?N n (needs_large_segment n h) ?h4 = Some (k, h5)" "n \<le> k" "extent mid = ?N"
          "mm_good (cache h) h5 ([] @ (s, [] @ mid @ []) # S) F5 C {}" "same_user ?h4 h5"
          "used_blocks ([] @ (s, [] @ mid @ []) # S) = used_blocks ([] @ (s, [] @ [(?N, False)] @ []) # S) - used_tiles (s + 16) [(?N, False)] \<union> {(s + 16, k)}"
        using split_block_ok [OF good4 e, of "needs_large_segment n h"] by blast
      let ?h = "raise_peak (h5\<lparr>mm_size := mm_size h5 + of_nat k\<rparr>)"
      have sp: "split_block (s + 16) ?N n (needs_large_segment n h) ?h3 = Some (k, h5)" using x(1) split_over_free [OF e(5)] by simp
      have "alloc_segment st n h = Some (Done (s + 16 + 16) ?h)"
        using lim Some sp by (simp add: alloc_segment_def finish_alloc_def Let_def)
      moreover have "gained (cache h) h S C (s + 16) n h5"
      proof -
        have "used_blocks ([] @ (s, [] @ mid @ []) # S) = insert (s + 16, k) (used_blocks S)"
          using x(6) by (simp add: used_tiles_def used_blocks_def seg_blocks_def)
        moreover have "same_user h h5" using same_user_trans [OF same_user_trans [OF nw(3) header_updates(5)] x(5)] .
        moreover have "unat (real_size h5) \<le> unat (mm_limit h)" using good_total [OF x(4)] x(3) N32(1) le by simp
        ultimately show ?thesis using x(2,4) nw(2) unfolding gained_def by (meson max.coboundedI2)
      qed
      then have "gained (cache h) h S C (s + 16) n ?h" by (rule gained_later) simp_all
      then have "seg_result h S C n (Done (s + 16 + 16) ?h)" unfolding seg_result_def mm_outcome.case by blast
      ultimately show ?thesis by blast
    qed
  qed
qed

lemma found_sized:
  assumes "mm_good K h S F C {}" "found h F n b" "32 \<le> n" "8 dvd n"
  shows "block_sized n"
proof -
  have l: "lists_ok h F" using assms(1) by (simp add: mm_good_def)
  obtain s where "n \<le> s" "info_size h b = Some s" "b \<in> free_blocks F" using assms(2) by (auto simp: found_def)
  moreover obtain m where "info_size h b = Some m" "block_sized m" using free_sized [OF l \<open>b \<in> free_blocks F\<close>] by blast
  ultimately show ?thesis using assms(3,4) by (auto simp: block_sized_def)
qed

lemma found_result:
  assumes "mm_good (cache h) h S F C {}" "found h F n b" "32 \<le> n" "8 dvd n"
  shows "\<exists>r. alloc_found b n h = Some r \<and> seg_result h S C n r"
proof -
  obtain h' where a: "alloc_found b n h = Some (Done (b + 16) h')" "gained (cache h) h S C b n h'"
    using alloc_found_ok [OF assms(1,2) found_sized [OF assms]] by blast
  have "seg_result h S C n (Done (b + 16) h')" unfolding seg_result_def mm_outcome.case using a(2) by blast
  then show ?thesis using a(1) by blast
qed

lemma alloc_large_ok:
  assumes good: "mm_good (cache h) h S F C {}" and bs: "block_size_ok h"
    and rs: "\<forall>p. reserve h = Some p \<longrightarrow> (\<exists>b n. p = b + 16 \<and> (b, n) \<in> held_blocks S C)"
    and st: "storage_ok st" and n: "32 \<le> n" "8 dvd n" "n < 2 ^ 64"
    and room: "unat (mm_limit h) < 2 ^ 31 \<or> unat (real_size h) + unat (segment_size_for n h) < 2 ^ 31"
  shows "\<exists>r. alloc_large st n h = Some r \<and> seg_result h S C n r"
proof -
  have l: "lists_ok h F" using good by (simp add: mm_good_def)
  obtain v where v: "zend_mm_search_large_block n h = Some v" "\<forall>b. v = Some b \<longrightarrow> found h F n b"
    using search_large_ok [OF l _ n(3)] n(1) by fastforce
  have "ring h Rest_Bucket (map Blk (rest F))" using l by (simp add: lists_ok_def rest_ok_def)
  then have p: "prev_free h Rest_Bucket = Some (last (Rest_Bucket # map Blk (rest F)))" using ring_ends by blast
  have "rest F = rest F @ []" "rest_fits h F n (fst (None, 2 ^ 64 - 1 :: nat))" by (simp_all add: rest_fits_def)
  then obtain z where z: "search_rest_list n (last (Rest_Bucket # map Blk (rest F))) (None, 2 ^ 64 - 1) h = Some z" "rest_fits h F n z"
    using search_rest_list_ok [OF l, of "rest F" "[]" n "(None, 2 ^ 64 - 1)"] by blast
  define w where "w = (if v = None \<and> real_size h \<ge> mm_limit h - block_size h then z else v)"
  have w: "\<forall>b. w = Some b \<longrightarrow> found h F n b" using v(2) z(2) by (auto simp: w_def rest_fits_def)
  have "alloc_large st n h = (case w of Some b \<Rightarrow> alloc_found b n h | None \<Rightarrow> alloc_segment st n h)"
    unfolding alloc_large_def w_def using v(1) p z(1) by (simp split: if_splits)
  then show ?thesis
    using found_result [OF good _ n(1,2)] alloc_segment_ok [OF good bs rs st n room] w by (cases w) auto
qed

text \<open>The outcome of an allocation of \<open>sz\<close> bytes.\<close>

definition mm_allocates :: "mm_heap \<Rightarrow> (addr \<times> nat) set \<Rightarrow> nat \<Rightarrow> addr mm_outcome \<Rightarrow> bool" where
  "mm_allocates h H sz r \<longleftrightarrow> (case r of
     Done p h' \<Rightarrow> \<exists>b k. p = b + 16 \<and> sz + 16 \<le> k \<and> ZEND_MM_TRUE_SIZE sz \<le> k \<and> b \<notin> fst ` H \<and> mm_state h' (insert (b, k) H) \<and> payload h' = payload h \<and>
       reserve h' = reserve h \<and> mm_limit h' = mm_limit h \<and> block_size h' = block_size h \<and>
       unat (real_size h') \<le> max (unat (real_size h)) (unat (mm_limit h))
   | Fatal e h' \<Rightarrow> mm_fails h H h')"

lemma seg_allocates:
  assumes good: "mm_good (cache h) h S F C {}" and bs: "block_size_ok h"
    and rs: "\<forall>p. reserve h = Some p \<longrightarrow> (\<exists>b n. p = b + 16 \<and> (b, n) \<in> held_blocks S C)"
    and r: "seg_result h S C n r" and n: "sz + 16 \<le> n" "n = ZEND_MM_TRUE_SIZE sz"
  shows "mm_allocates h (held_blocks S C) sz r"
proof (cases r)
  case (Done p h')
  obtain b where b: "p = b + 16" "gained (cache h) h S C b n h'" using r Done by (auto simp: seg_result_def)
  obtain k S' F' where k: "n \<le> k" "mm_good (cache h) h' S' F' C {}" "used_blocks S' = insert (b, k) (used_blocks S)"
      "b \<notin> used_in S" "same_user h h'" "unat (real_size h') \<le> max (unat (real_size h)) (unat (mm_limit h))"
    using b(2) by (auto simp: gained_def)
  have "caches_ok (cache h) h S C" using good by (simp add: mm_good_def)
  then have "b \<notin> cached_blocks C" using cached_used k(4) by blast
  then have held: "held_blocks S' C = insert (b, k) (held_blocks S C)" by (auto simp: held_blocks_def k(3))
  have "b \<notin> fst ` held_blocks S C" using k(4) by (auto simp: held_blocks_def used_in_used)
  moreover have "mm_state h' (insert (b, k) (held_blocks S C))"
    by (rule mm_stateI [OF _ _ _ held]) (use k(2,5) bs rs in \<open>auto simp: same_user_def block_size_ok_def\<close>)
  ultimately have "mm_allocates h (held_blocks S C) sz (Done (b + 16) h')"
    using k(1,5,6) n(1) unfolding n(2) mm_allocates_def same_user_def mm_outcome.case by (metis order_trans)
  then show ?thesis using Done b(1) by simp
qed (use r in \<open>simp add: seg_result_def mm_allocates_def\<close>)

lemma alloc_int_good:
  assumes good: "mm_good (cache h) h S F C {}" and bs: "block_size_ok h"
    and rs: "\<forall>p. reserve h = Some p \<longrightarrow> (\<exists>b n. p = b + 16 \<and> (b, n) \<in> held_blocks S C)"
    and st: "storage_ok st" and sz: "sz < 2 ^ 64"
    and room: "unat (mm_limit h) < 2 ^ 31 \<or> unat (real_size h) + unat (segment_size_for (ZEND_MM_TRUE_SIZE sz) h) < 2 ^ 31"
  shows "\<exists>r. zend_mm_alloc_int st sz h = Some r \<and> mm_allocates h (held_blocks S C) sz r"
proof -
  let ?n = "ZEND_MM_TRUE_SIZE sz" and ?i = "ZEND_MM_BUCKET_INDEX (ZEND_MM_TRUE_SIZE sz)"
  note lift = seg_allocates [OF good bs rs]
  have large: "\<exists>r. alloc_large st ?n h = Some r \<and> mm_allocates h (held_blocks S C) sz r" if le: "\<not> ?n < sz"
    using alloc_large_ok [OF good bs rs st true_size_ok(3,2,4) [OF sz le] room] lift true_size_ok(1) [OF sz le] refl by blast
  show ?thesis
  proof (cases "?n < 544")
    case False
    then show ?thesis using large true_size_large [OF sz False] by (simp add: zend_mm_alloc_int_def Let_def)
  next
    case small: True
    show ?thesis
    proof (cases "?n < sz")
      case True
      then show ?thesis
        using small safe_error_ok [OF good bs rs, of Out_Of_Memory] by (auto simp: zend_mm_alloc_int_def Let_def mm_allocates_def)
    next
      case False
      note ts = true_size_ok [OF sz False]
      have n: "block_sized ?n" using ts(2,3) small by (simp add: block_sized_def)
      have i: "?i < 64" "8 * ?i + 32 = ?n"
        using bucket_index [OF ts(3) small] ts(2,3) by auto
      show ?thesis
      proof (cases "cache h ?i")
        case None
        show ?thesis
        proof (cases "drop_bit ?i (free_bitmap h) = 0")
          case True
          then show ?thesis using small False i(1) None large by (simp add: zend_mm_alloc_int_def Let_def)
        next
          case nz: False
          have l: "lists_ok h F" using good by (simp add: mm_good_def)
          obtain low b where f: "zend_mm_low_bit (drop_bit ?i (free_bitmap h)) = Some low"
              "prev_free h (Small_Bucket (?i + low)) = Some (Blk b)" "found h F ?n b"
            using small_found [OF l n small nz] by blast
          have "zend_mm_alloc_int st sz h = alloc_found b ?n h"
            using small False i(1) None nz f(1,2) by (simp add: zend_mm_alloc_int_def Let_def block_of_def)
          then show ?thesis using found_result [OF good f(3) ts(3,2)] lift ts(1) refl by metis
        qed
      next
        case (Some b)
        obtain w bs' where p: "cache_next b h = Some w" "C ?i = b # bs'" "mm_good ((cache h)(?i := w)) h S F (C(?i := bs')) {}"
            "(b, 8 * ?i + 32, True) \<in> blocks_of S" "b \<notin> cached_blocks (C(?i := bs'))"
          using pop_cache_ok [OF good i(1) Some] by blast
        let ?h = "h\<lparr>cache := (cache h)(?i := w), cached := cached h - of_nat ?n\<rparr>"
        have g: "segs_ok h S" using good by (simp add: mm_good_def)
        have u: "(b, ?n) \<in> used_blocks S" using p(4) i(2) by (simp add: used_blocks_def)
        have cb: "cached_blocks C = insert b (cached_blocks (C(?i := bs')))" by (rule cached_pop [of C ?i b bs', OF p(2) i(1)])
        have he: "held_blocks S (C(?i := bs')) = insert (b, ?n) (held_blocks S C)"
        proof -
          have "(b, ?n) \<in> held_blocks S (C(?i := bs'))" using u p(5) by (simp add: held_blocks_def)
          then show ?thesis using held_insert [OF g u cb] by blast
        qed
        have "b \<notin> fst ` held_blocks S C" using cb by (auto simp: held_blocks_def)
        moreover have "mm_state ?h (insert (b, ?n) (held_blocks S C))"
        proof (rule mm_stateI [OF _ _ _ he])
          have "same_memory h ?h" by (simp add: same_memory_def same_segments_def same_links_def)
          from good_same [OF p(3) this] show "mm_good (cache ?h) ?h S F (C(?i := bs')) {}" by simp
        qed (use bs rs in \<open>auto simp: block_size_ok_def\<close>)
        ultimately have "mm_allocates h (held_blocks S C) sz (Done (b + 16) ?h)"
          using ts(1) by (auto simp: mm_allocates_def)
        moreover have "zend_mm_alloc_int st sz h = Some (Done (b + 16) ?h)"
          using small False i(1) Some p(1) by (simp add: zend_mm_alloc_int_def Let_def)
        ultimately show ?thesis by blast
      qed
    qed
  qed
qed

lemma alloc_int_ok:
  assumes "mm_state h H" "storage_ok st" "unat (mm_limit h) < 2 ^ 31" "sz < 2 ^ 64"
  shows "\<exists>r. zend_mm_alloc_int st sz h = Some r \<and> mm_allocates h H sz r"
  using assms(1) alloc_int_good [OF _ _ _ assms(2,4)] assms(3) unfolding mm_state_def by blast

subsection \<open>Release and the blocks held\<close>

lemma free_int_state:
  assumes "mm_state h H" "(b, n) \<in> H" "reserve h \<noteq> Some (b + 16)"
  shows "\<exists>h'. zend_mm_free_int (Some (b + 16)) h = Some h' \<and> mm_state h' (H - {(b, n)}) \<and> payload h' = payload h \<and>
    reserve h' = reserve h \<and> mm_limit h' = mm_limit h \<and> unat (real_size h') \<le> unat (real_size h)"
proof -
  obtain S F C where s: "mm_good (cache h) h S F C {}" "held_blocks S C = H" using assms(1) unfolding mm_state_def by blast
  obtain h' S' F' C' where r: "zend_mm_free_int (Some (b + 16)) h = Some h'" "mm_good (cache h') h' S' F' C' {}"
      "held_blocks S' C' = H - {(b, n)}" "mem_total S' \<le> mem_total S" "payload h' = payload h" "reserve h' = reserve h"
      "mm_limit h' = mm_limit h" "block_size h' = block_size h"
    using free_int_ok [OF s(1), of b n] assms(2) s(2) by blast
  have "\<exists>c m. p = c + 16 \<and> (c, m) \<in> H - {(b, n)}" if "reserve h' = Some p" for p
    using assms(1,3) that r(6) unfolding mm_state_def by fastforce
  then have "mm_state h' (H - {(b, n)})"
    using assms(1) r(8) by (intro mm_stateI [OF r(2) _ _ r(3)]) (auto simp: mm_state_def block_size_ok_def)
  then show ?thesis using r good_total [OF s(1)] good_total [OF r(2)] by auto
qed

lemma held_disjoint:
  assumes "mm_state h H" "(b, n) \<in> H" "(c, m) \<in> H"
  shows "(b, n) = (c, m) \<or> b + n \<le> c \<or> c + m \<le> b" "32 \<le> n"
proof -
  obtain S F C where s: "mm_good (cache h) h S F C {}" "held_blocks S C = H" using assms(1) unfolding mm_state_def by blast
  have g: "segs_ok h S" using s(1) by (simp add: mm_good_def)
  have u: "(b, n) \<in> used_blocks S" "(c, m) \<in> used_blocks S" using assms(2,3) s(2) by (auto simp: held_blocks_def)
  show "32 \<le> n" using used_info(2) [OF g u(1)] by (simp add: block_sized_def)
  show "(b, n) = (c, m) \<or> b + n \<le> c \<or> c + m \<le> b"
  proof (cases "b = c")
    case True
    then show ?thesis using used_unique [OF g u(1)] u(2) by blast
  next
    case False
    then show ?thesis using block_disjoint [OF g, of b "(n, True)" c "(m, True)"] u by (simp add: used_blocks_def)
  qed
qed

lemma state_same:
  assumes "mm_state h H" "same_memory h h'" "cache h' = cache h" "block_size h' = block_size h" "reserve h' = reserve h"
  shows "mm_state h' H"
proof -
  obtain S F C where s: "mm_good (cache h) h S F C {}" "held_blocks S C = H" using assms(1) unfolding mm_state_def by blast
  have "mm_good (cache h') h' S F C {}" using good_same [OF s(1) assms(2)] assms(3) by simp
  then show ?thesis using assms(1,4,5) s(2) by (intro mm_stateI [of h' S F C]) (auto simp: mm_state_def block_size_ok_def)
qed

lemma copy_payload_fields [simp]:
  "cache (copy_payload d s n h) = cache h" "block_size (copy_payload d s n h) = block_size h" "reserve (copy_payload d s n h) = reserve h"
  "mm_limit (copy_payload d s n h) = mm_limit h" "real_size (copy_payload d s n h) = real_size h"
  "payload (copy_payload d s n h) a = (if d \<le> a \<and> a < d + n then payload h (s + (a - d)) else payload h a)"
  by (simp_all add: copy_payload_def)

end
