(* ===== verification/ZendAllocRealloc.thy ===== *)
theory ZendAllocRealloc
  imports ZendAllocUser
begin

text \<open>Reallocation: the block is cut, grows in place, or its contents move to another block.\<close>

text \<open>The outcome of a reallocation: the data is in a block that is big enough, and nothing else has changed.\<close>

definition mm_reallocates :: "mm_heap \<Rightarrow> (addr \<times> nat) set \<Rightarrow> addr \<Rightarrow> nat \<Rightarrow> nat \<Rightarrow> addr mm_outcome \<Rightarrow> bool" where
  "mm_reallocates h H b n sz r \<longleftrightarrow> (case r of
     Done q h' \<Rightarrow> \<exists>c k. q = c + 16 \<and> sz + 16 \<le> k \<and> c \<notin> fst ` (H - {(b, n)}) \<and> mm_state h' (insert (c, k) (H - {(b, n)})) \<and>
       (\<forall>i. i + 16 < n \<and> i + 16 < k \<longrightarrow> payload h' (c + 16 + i) = payload h (b + 16 + i)) \<and>
       (\<forall>d m a. (d, m) \<in> H - {(b, n)} \<and> d + 16 \<le> a \<and> a < d + m \<longrightarrow> payload h' a = payload h a) \<and>
       reserve h' = reserve h \<and> mm_limit h' = mm_limit h \<and> unat (real_size h') \<le> max (unat (real_size h)) (unat (mm_limit h))
   | Fatal e h' \<Rightarrow> mm_fails h H h')"

lemma held_only: "\<lbrakk>mm_state h H; (b, n) \<in> H\<rbrakk> \<Longrightarrow> b \<notin> fst ` (H - {(b, n)})"
proof
  assume a: "mm_state h H" "(b, n) \<in> H" "b \<in> fst ` (H - {(b, n)})"
  then obtain x where x: "x \<in> H" "x \<noteq> (b, n)" "fst x = b" by blast
  define m where "m = snd x"
  have "x = (b, m)" using x(3) by (simp add: m_def prod_eq_iff)
  then have m: "(b, m) \<in> H" "m \<noteq> n" using x(1,2) by simp_all
  show False using held_disjoint(1) [OF a(1,2) m(1)] held_disjoint(2) [OF a(1,2,2)] held_disjoint(2) [OF a(1) m(1,1)] m(2) by simp
qed

lemma stays_ok:
  assumes "mm_state h H" "(b, n) \<in> H" "mm_state h' (insert (b, k) (H - {(b, n)}))" "sz + 16 \<le> k" "same_user h h'"
    "unat (real_size h') \<le> max (unat (real_size h)) (unat (mm_limit h))"
  shows "mm_reallocates h H b n sz (Done (b + 16) h')"
  unfolding mm_reallocates_def mm_outcome.case
  using assms(3-6) held_only [OF assms(1,2)] by (intro exI [of _ b] exI [of _ k]) (simp add: same_user_def)

lemma resize_block_ok:
  assumes good: "mm_good (cache h) h1 (S1 @ (s, xs @ ((n, True) # zs) @ ys) # S2) F1 C (fst ` set (tiles_at (b + n) zs))"
    and u: "same_user h h1" and zs: "zs = [] \<or> (\<exists>k. zs = [(k, False)])" and b: "b = s + 16 + extent xs" and c: "b \<notin> cached_blocks C"
    and t: "block_sized t" "t \<le> n + extent zs" and ys: "ys = [] \<or> snd (hd ys)"
  shows "\<exists>k h2 F2 mid. split_block b (n + extent zs) t keep h1 = Some (k, h2) \<and> t \<le> k \<and> same_user h h2 \<and>
    mm_good (cache h) h2 (S1 @ (s, xs @ mid @ ys) # S2) F2 C {} \<and> real_size h2 = real_size h1 \<and>
    held_blocks (S1 @ (s, xs @ mid @ ys) # S2) C = insert (b, k) (held_blocks (S1 @ (s, xs @ ((n, True) # zs) @ ys) # S2) C - {(b, n)})"
proof -
  let ?mid = "(n, True) # zs"
  have f: "fst ` set (tiles_at (b + n) zs) = free_tiles b ?mid" and ut: "used_tiles b ?mid = {(b, n)}"
    using zs by (auto simp: free_tiles_def used_tiles_def)
  have e: "?mid \<noteq> []" "n + extent zs = extent ?mid" "fst ` used_tiles b ?mid \<inter> cached_blocks C = {}" using c ut by simp_all
  obtain k h2 F2 mid where x: "split_block b (n + extent zs) t keep h1 = Some (k, h2)" "t \<le> k" "extent mid = n + extent zs"
      "mm_good (cache h) h2 (S1 @ (s, xs @ mid @ ys) # S2) F2 C {}" "same_user h1 h2"
      "used_blocks (S1 @ (s, xs @ mid @ ys) # S2) = used_blocks (S1 @ (s, xs @ ?mid @ ys) # S2) - used_tiles b ?mid \<union> {(b, k)}"
    using split_block_ok [OF good e(1) b e(2) t f e(3) ys, of keep] by blast
  have "held_blocks (S1 @ (s, xs @ mid @ ys) # S2) C = insert (b, k) (held_blocks (S1 @ (s, xs @ ?mid @ ys) # S2) C - {(b, n)})"
    unfolding held_blocks_def x(6) ut using c by auto
  moreover have "unat (real_size h2) = unat (real_size h1)" using good_total [OF good] good_total [OF x(4)] x(3) by simp
  then have "real_size h2 = real_size h1" by (metis word_unat_inv)
  ultimately show ?thesis using x(1,2,4) same_user_trans [OF u x(5)] by blast
qed

lemma held_locate:
  assumes "mm_state h H" "(b, n) \<in> H"
  shows "\<exists>S1 s xs ys S2 F C. mm_good (cache h) h (S1 @ (s, xs @ (n, True) # ys) # S2) F C {} \<and> b = s + 16 + extent xs \<and>
    held_blocks (S1 @ (s, xs @ (n, True) # ys) # S2) C = H \<and> b \<notin> cached_blocks C"
proof -
  obtain S F C where s: "mm_good (cache h) h S F C {}" "held_blocks S C = H" using assms(1) unfolding mm_state_def by blast
  have "(b, n, True) \<in> blocks_of S" "b \<notin> cached_blocks C" using assms(2) s(2) by (auto simp: held_blocks_def used_blocks_def)
  then show ?thesis using locate [of b "(n, True)" S] s by blast
qed

lemma resized_state:
  assumes "mm_state h H" "(b, n) \<in> H" "reserve h \<noteq> Some (b + 16)" "mm_good (cache h) h' S F C {}" "same_user h h'"
    "held_blocks S C = insert (b, k) (H - {(b, n)})"
  shows "mm_state h' (insert (b, k) (H - {(b, n)}))"
proof -
  have r: "\<exists>c m. p = c + 16 \<and> (c, m) \<in> insert (b, k) (H - {(b, n)})" if p: "reserve h' = Some p" for p
  proof -
    have "reserve h = Some p" using p assms(5) by (simp add: same_user_def)
    then obtain c m where "p = c + 16" "(c, m) \<in> H" using assms(1) unfolding mm_state_def by blast
    moreover have "(c, m) \<noteq> (b, n)" using \<open>reserve h = Some p\<close> assms(3) calculation(1) by auto
    ultimately show ?thesis by blast
  qed
  have "mm_good (cache h') h' S F C {}" using assms(4,5) by (simp add: same_user_def)
  then show ?thesis
    by (rule mm_stateI [OF _ _ _ assms(6)]) (use assms(1,5) r in \<open>auto simp: mm_state_def block_size_ok_def same_user_def\<close>)
qed

subsection \<open>In place\<close>

lemma split_block_big:
  "32 \<le> N - t \<Longrightarrow> split_block b N t False h = map_option (Pair t)
    (zend_mm_add_to_free_list (b + t) (ZEND_MM_BLOCK (b + t) ZEND_MM_FREE_BLOCK (N - t) (ZEND_MM_BLOCK b ZEND_MM_USED_BLOCK t h)))"
  by (simp add: split_block_def Let_def map_option_case split: option.split)

lemma shrink_ok:
  assumes st: "mm_state h H" and bn: "(b, n) \<in> H" and rs: "reserve h \<noteq> Some (b + 16)"
    and t: "32 \<le> t" "8 dvd t" "t \<le> n" and sz: "sz + 16 \<le> t"
  shows "\<exists>h'. realloc_shrink (b + 16) b t n h = Some (Done (b + 16) h') \<and> mm_reallocates h H b n sz (Done (b + 16) h')"
proof -
  obtain S1 s xs ys S2 F C where g: "mm_good (cache h) h (S1 @ (s, xs @ (n, True) # ys) # S2) F C {}" "b = s + 16 + extent xs"
      "held_blocks (S1 @ (s, xs @ (n, True) # ys) # S2) C = H" "b \<notin> cached_blocks C"
    using held_locate [OF st bn] by blast
  let ?S = "S1 @ (s, xs @ (n, True) # ys) # S2"
  have sg: "segs_ok h ?S" using g(1) by (simp add: mm_good_def)
  have sn: "block_sized n" using seg_parts(5) [OF sg g(2)] by simp
  have bt: "block_sized t" using t sn by (auto simp: block_sized_def)
  show ?thesis
  proof (cases "32 \<le> n - t")
    case False
    have "insert (b, n) (H - {(b, n)}) = H" using bn by blast
    then have "mm_reallocates h H b n sz (Done (b + 16) h)"
      using st t(3) sz by (intro stays_ok [OF st bn, of h n]) (simp_all add: same_user_def)
    moreover have "realloc_shrink (b + 16) b t n h = Some (Done (b + 16) h)" using False by (simp add: realloc_shrink_def)
    ultimately show ?thesis by blast
  next
    case True
    have "b + n \<notin> {}" by simp
    from next_neighbour [OF g(1) refl g(2) this] obtain ns zs ys' h1 F1 where
      nx: "ys = zs @ ys'" "info_size h (b + n) = Some ns" "zs = [] \<or> (\<exists>k. zs = [(k, False)])" "ys' = [] \<or> snd (hd ys')"
        "ZEND_MM_IS_FREE_BLOCK ns \<longleftrightarrow> zs \<noteq> []" "zs \<noteq> [] \<longrightarrow> ns = extent zs \<and> zend_mm_remove_from_free_list (b + n) h = Some h1"
        "zs = [] \<longrightarrow> h1 = h \<and> F1 = F" "mm_good (cache h) h1 ?S F1 C ({} \<union> fst ` set (tiles_at (b + n) zs))" "core h1 = core h"
      by (elim exE conjE) (rule that; assumption)
    have good1: "mm_good (cache h) h1 (S1 @ (s, xs @ ((n, True) # zs) @ ys') # S2) F1 C (fst ` set (tiles_at (b + n) zs))"
      using nx(8) unfolding nx(1) by simp
    have le: "t \<le> n + extent zs" using t(3) by simp
    obtain k h2 F2 mid where x: "split_block b (n + extent zs) t False h1 = Some (k, h2)" "t \<le> k" "same_user h h2"
        "mm_good (cache h) h2 (S1 @ (s, xs @ mid @ ys') # S2) F2 C {}" "real_size h2 = real_size h1"
        "held_blocks (S1 @ (s, xs @ mid @ ys') # S2) C = insert (b, k) (held_blocks (S1 @ (s, xs @ ((n, True) # zs) @ ys') # S2) C - {(b, n)})"
      using resize_block_ok [OF good1 same_user_core [OF nx(9)] nx(3) g(2,4) bt le nx(4), of False] by blast
    have S: "S1 @ (s, xs @ ((n, True) # zs) @ ys') # S2 = ?S" by (simp add: nx(1))
    have ms: "mm_state h2 (insert (b, k) (H - {(b, n)}))"
      by (rule resized_state [OF st bn rs x(4,3)]) (simp only: x(6) S g(3))
    have rz: "real_size h2 = real_size h" using x(5) core_fields [OF nx(9)] by simp
    have rem: "n + extent zs - t = n - t + extent zs" using t(3) by simp
    have sp: "zend_mm_add_to_free_list (b + t) (ZEND_MM_BLOCK (b + t) ZEND_MM_FREE_BLOCK (n - t + extent zs) (ZEND_MM_BLOCK b ZEND_MM_USED_BLOCK t h1)) = Some h2"
      using x(1) True split_block_big [of "n + extent zs" t b h1] unfolding rem by auto
    let ?h = "h2\<lparr>mm_size := mm_size h2 + (of_nat t - of_nat n)\<rparr>"
    have run: "realloc_shrink (b + 16) b t n h = Some (Done (b + 16) ?h)"
    proof (cases "zs = []")
      case True
      then show ?thesis using \<open>32 \<le> n - t\<close> nx(2,5,7) sp by (simp add: realloc_shrink_def Let_def)
    next
      case False
      then show ?thesis using \<open>32 \<le> n - t\<close> nx(2,5,6) sp by (simp add: realloc_shrink_def Let_def)
    qed
    have "mm_state ?h (insert (b, k) (H - {(b, n)}))" by (rule state_same [OF ms]) simp_all
    then have "mm_reallocates h H b n sz (Done (b + 16) ?h)"
      by (rule stays_ok [OF st bn]) (use x(2,3) sz rz in \<open>auto simp: same_user_def\<close>)
    then show ?thesis using run by blast
  qed
qed

text \<open>The block grows into the free one behind it.\<close>

lemma extend_ok:
  assumes st: "mm_state h H" and bn: "(b, n) \<in> H" and rs: "reserve h \<noteq> Some (b + 16)"
    and S: "mm_good (cache h) h (S1 @ (s, xs @ (n, True) # (ns, False) # ys) # S2) F C {}" "b = s + 16 + extent xs"
      "held_blocks (S1 @ (s, xs @ (n, True) # (ns, False) # ys) # S2) C = H" "b \<notin> cached_blocks C"
    and t: "32 \<le> t" "8 dvd t" "t \<le> n + ns" and sz: "sz + 16 \<le> t"
  shows "\<exists>h'. realloc_extend (b + 16) b (b + n) (n + ns) t n h = Some (Done (b + 16) h') \<and> mm_reallocates h H b n sz (Done (b + 16) h')"
proof -
  let ?S = "S1 @ (s, xs @ (n, True) # (ns, False) # ys) # S2"
  have sg: "segs_ok h ?S" using S(1) by (simp add: mm_good_def)
  note sp = seg_parts [OF sg S(2)]
  have ns: "block_sized ns" using sp(1) by simp
  have ys: "ys = [] \<or> snd (hd ys)" using sp(6) by (simp add: coalesced_append coalesced_Cons)
  have bt: "block_sized t" using t sp(7) by (auto simp: block_sized_def)
  have "b + n \<in> free_in ?S" unfolding free_in_def using S(2) by (auto simp: seg_blocks_def add.assoc)
  then obtain h1 F1 where r: "zend_mm_remove_from_free_list (b + n) h = Some h1" "mm_good (cache h) h1 ?S F1 C {b + n}" "core h1 = core h"
    using take_free [OF S(1), of "b + n"] by blast
  have good1: "mm_good (cache h) h1 (S1 @ (s, xs @ ((n, True) # [(ns, False)]) @ ys) # S2) F1 C (fst ` set (tiles_at (b + n) [(ns, False)]))"
    using r(2) by simp
  have z: "[(ns, False)] = [] \<or> (\<exists>k. [(ns, False)] = [(k, False)])" by simp
  have le: "t \<le> n + extent [(ns, False)]" using t(3) by simp
  have e: "S1 @ (s, xs @ ((n, True) # [(ns, False)]) @ ys) # S2 = ?S" by simp
  have rsz: "real_size h1 = real_size h" using core_fields [OF r(3)] by simp
  have main: "\<exists>h'. mm_reallocates h H b n sz (Done (b + 16) h') \<and> (\<exists>k h2. split_block b (n + ns) t keep h1 = Some (k, h2) \<and>
      h' = raise_peak (h2\<lparr>mm_size := mm_size h2 + of_nat k - of_nat n\<rparr>))" for keep
  proof -
    obtain k h2 F2 mid where x: "split_block b (n + extent [(ns, False)]) t keep h1 = Some (k, h2)" "t \<le> k" "same_user h h2"
        "mm_good (cache h) h2 (S1 @ (s, xs @ mid @ ys) # S2) F2 C {}" "real_size h2 = real_size h1"
        "held_blocks (S1 @ (s, xs @ mid @ ys) # S2) C = insert (b, k) (held_blocks (S1 @ (s, xs @ ((n, True) # [(ns, False)]) @ ys) # S2) C - {(b, n)})"
      using resize_block_ok [OF good1 same_user_core [OF r(3)] z S(2,4) bt le ys, of keep] by blast
    let ?h = "raise_peak (h2\<lparr>mm_size := mm_size h2 + of_nat k - of_nat n\<rparr>)"
    have ms: "mm_state h2 (insert (b, k) (H - {(b, n)}))"
      by (rule resized_state [OF st bn rs x(4,3)]) (simp only: x(6) e S(3))
    have su: "same_user h2 ?h" by simp
    have "real_size ?h = real_size h" using x(5) rsz by (simp add: raise_peak_def)
    moreover have "mm_state ?h (insert (b, k) (H - {(b, n)}))" by (rule state_same [OF ms]) (use su in \<open>simp_all add: same_user_def\<close>)
    moreover have "same_user h ?h" by (rule same_user_trans [OF x(3) su])
    ultimately have "mm_reallocates h H b n sz (Done (b + 16) ?h)"
      using x(2) sz by (intro stays_ok [OF st bn, of ?h k]) simp_all
    then show ?thesis using x(1) by auto
  qed
  have spn: "spans_segment b (b + (n + ns)) h1 = Some (xs = [] \<and> ys = [])"
  proof -
    have "segs_ok h1 (S1 @ (s, xs @ [(n, True), (ns, False)] @ ys) # S2)" using r(2) by (simp add: mm_good_def)
    from spans_ok [OF this S(2), of "n + ns"] show ?thesis by simp
  qed
  show ?thesis
  proof (cases "n + ns - t < 32")
    case True
    obtain h' k h2 where x: "mm_reallocates h H b n sz (Done (b + 16) h')" "split_block b (n + ns) t False h1 = Some (k, h2)"
        "h' = raise_peak (h2\<lparr>mm_size := mm_size h2 + of_nat k - of_nat n\<rparr>)"
      using main [of False] by blast
    have "realloc_extend (b + 16) b (b + n) (n + ns) t n h = Some (Done (b + 16) h')"
      using True r(1) x(2,3) by (simp add: realloc_extend_def Let_def)
    then show ?thesis using x(1) by blast
  next
    case False
    obtain h' k h2 where x: "mm_reallocates h H b n sz (Done (b + 16) h')" "split_block b (n + ns) t (xs = [] \<and> ys = []) h1 = Some (k, h2)"
        "h' = raise_peak (h2\<lparr>mm_size := mm_size h2 + of_nat k - of_nat n\<rparr>)"
      using main [of "xs = [] \<and> ys = []"] by blast
    have "realloc_extend (b + 16) b (b + n) (n + ns) t n h = Some (Done (b + 16) h')"
      using False r(1) x(2,3) spn by (simp add: realloc_extend_def Let_def)
    then show ?thesis using x(1) by blast
  qed
qed

subsection \<open>To another block\<close>

lemma moved_ok:
  assumes "mm_state h H" "(b, n) \<in> H" "mm_state h' (insert (c, k) (H - {(b, n)}))" "c \<notin> fst ` (H - {(b, n)})" "sz + 16 \<le> k" "n \<le> k"
    "payload h' = (\<lambda>a. if c + 16 \<le> a \<and> a < c + 16 + (n - 16) then payload h (b + 16 + (a - (c + 16))) else payload h a)"
    "reserve h' = reserve h" "mm_limit h' = mm_limit h" "unat (real_size h') \<le> max (unat (real_size h)) (unat (mm_limit h))"
  shows "mm_reallocates h H b n sz (Done (c + 16) h')"
proof -
  have "payload h' a = payload h a" if d: "(d, m) \<in> H - {(b, n)}" "d + 16 \<le> a" "a < d + m" for d m a
  proof -
    have "(d, m) \<in> insert (c, k) (H - {(b, n)})" "(c, k) \<in> insert (c, k) (H - {(b, n)})" using d(1) by blast+
    from held_disjoint(1) [OF assms(3) this] have "d + m \<le> c \<or> c + k \<le> d" using d(1) assms(4) by force
    then have "\<not> (c + 16 \<le> a \<and> a < c + 16 + (n - 16))" using d(2,3) assms(6) by auto
    then show ?thesis unfolding assms(7) by (rule if_not_P)
  qed
  then have o: "\<forall>d m a. (d, m) \<in> H - {(b, n)} \<and> d + 16 \<le> a \<and> a < d + m \<longrightarrow> payload h' a = payload h a" by blast
  have "\<forall>i. i + 16 < n \<and> i + 16 < k \<longrightarrow> payload h' (c + 16 + i) = payload h (b + 16 + i)" unfolding assms(7) by simp
  with o show ?thesis
    unfolding mm_reallocates_def mm_outcome.case using assms(3-5,8-10) by blast
qed

lemma cached_ok:
  assumes st: "mm_state h H" and bn: "(b, n) \<in> H" and rs: "reserve h \<noteq> Some (b + 16)"
    and t: "block_sized t" "t < 544" "n < t" and sz: "sz + 16 \<le> t" and best: "cache h (ZEND_MM_BUCKET_INDEX t) = Some c"
  shows "\<exists>r. realloc_cached (b + 16) b c t n h = Some r \<and> mm_reallocates h H b n sz r"
proof -
  let ?i = "ZEND_MM_BUCKET_INDEX t" and ?j = "ZEND_MM_BUCKET_INDEX n"
  obtain S F C where g: "mm_good (cache h) h S F C {}" "held_blocks S C = H" using st unfolding mm_state_def by blast
  have sg: "segs_ok h S" using g(1) by (simp add: mm_good_def)
  have b: "(b, n) \<in> used_blocks S" "b \<notin> cached_blocks C" using bn g(2) by (auto simp: held_blocks_def)
  have bi: "?i < 64" "8 * ?i + 32 = t"
    using bucket_index [of t] t(1,2) by (auto simp: block_sized_def)
  obtain w bs where p: "cache_next c h = Some w" "C ?i = c # bs" "mm_good ((cache h)(?i := w)) h S F (C(?i := bs)) {}"
      "(c, 8 * ?i + 32, True) \<in> blocks_of S" "c \<notin> cached_blocks (C(?i := bs))"
    using pop_cache_ok [OF g(1) bi(1) best] by blast
  let ?C1 = "C(?i := bs)"
  have c: "(c, t) \<in> used_blocks S" using p(4) bi(2) by (simp add: used_blocks_def)
  have cb: "cached_blocks C = insert c (cached_blocks ?C1)" by (rule cached_pop [of C ?i c bs, OF p(2) bi(1)])
  have h1: "held_blocks S ?C1 = insert (c, t) H"
  proof -
    have "(c, t) \<in> held_blocks S ?C1" using c p(5) by (simp add: held_blocks_def)
    then show ?thesis using held_insert [OF sg c cb] g(2) by blast
  qed
  let ?g = "copy_payload (c + 16) (b + 16) (n - 16) (h\<lparr>cache := (cache h)(?i := w)\<rparr>)"
  let ?h1 = "?g\<lparr>cached := cached h - (of_nat t - of_nat n)\<rparr>"
  have "same_memory h ?h1" by (simp add: same_memory_def same_segments_def same_links_def copy_payload_def)
  from good_same [OF p(3) this] have good1: "mm_good (cache ?h1) ?h1 S F ?C1 {}" by simp
  have bb: "(b, n, True) \<in> blocks_of S" "b \<notin> cached_blocks ?C1" using b cb by (auto simp: used_blocks_def)
  have n544: "n < 544" using t(2,3) by simp
  let ?C2 = "?C1(?j := b # ?C1 ?j)"
  obtain h2 where r: "push_cache ?j b ?h1 = Some h2" "mm_good (cache h2) h2 S F ?C2 {}"
      "h2 = (set_prev_free (Blk b) (cache_ptr (cache ?h1 ?j)) ?h1)\<lparr>cache := (cache ?h1)(?j \<mapsto> b)\<rparr>"
    using push_cache_ok [OF good1 bb(1) n544 bb(2) refl] by blast
  have sn: "block_sized n" using used_info(2) [OF sg b(1)] .
  have j: "?j < 64" using sn n544 by (auto simp: block_sized_def intro: bucket_index(2))
  have "cached_blocks ?C1 \<union> {b} = cached_blocks ?C2" 
  proof -
    have "?C2 ?j = b # ?C1 ?j" "?C2(?j := ?C1 ?j) = ?C1" by (simp_all add: fun_eq_iff)
    from cached_pop [of ?C2 ?j b "?C1 ?j", OF this(1) j] this(2) show ?thesis by simp
  qed
  then have cb2: "cached_blocks ?C2 = insert b (cached_blocks ?C1)" by simp
  have "(b, n) \<noteq> (c, t)" using t(3) by simp
  then have held: "held_blocks S ?C2 = insert (c, t) (H - {(b, n)})"
    using held_insert [OF sg b(1) cb2] h1 by auto
  have "reserve h2 = reserve h" "block_size h2 = block_size h" "mm_limit h2 = mm_limit h" "real_size h2 = real_size h"
    "payload h2 = payload ?g"
    using r(3) by (simp_all add: set_prev_free_def)
  note f = this
  have rv: "\<exists>d m. p = d + 16 \<and> (d, m) \<in> insert (c, t) (H - {(b, n)})" if "reserve h2 = Some p" for p
    using st rs that f(1) unfolding mm_state_def by fastforce
  have ms: "mm_state h2 (insert (c, t) (H - {(b, n)}))"
    by (rule mm_stateI [OF r(2) _ _ held]) (use st f rv in \<open>auto simp: mm_state_def block_size_ok_def\<close>)
  have "c \<notin> fst ` H" using cb g(2) by (auto simp: held_blocks_def)
  then have "c \<notin> fst ` (H - {(b, n)})" by blast
  then have "mm_reallocates h H b n sz (Done (c + 16) h2)"
    by (rule moved_ok [OF st bn ms]) (use sz t(3) f in \<open>simp_all add: fun_eq_iff\<close>)
  moreover have "realloc_cached (b + 16) b c t n h = Some (Done (c + 16) h2)"
    using p(1) r(1) by (simp add: realloc_cached_def Let_def copy_payload_def)
  ultimately show ?thesis by blast
qed

lemma realloc_move_ok:
  assumes st: "mm_state h H" and bn: "(b, n) \<in> H" and rs: "reserve h \<noteq> Some (b + 16)"
    and sto: "storage_ok sto" "unat (mm_limit h) < 2 ^ 31" "sz < 2 ^ 64" and t: "n < ZEND_MM_TRUE_SIZE sz"
  shows "\<exists>r. realloc_move sto (b + 16) sz n h = Some r \<and> mm_reallocates h H b n sz r"
proof -
  obtain r where r: "zend_mm_alloc_int sto sz h = Some r" "mm_allocates h H sz r" using alloc_int_ok [OF st sto] by blast
  show ?thesis
  proof (cases r)
    case (Fatal e h1)
    then show ?thesis using r by (simp add: realloc_move_def mm_allocates_def mm_reallocates_def)
  next
    case (Done q h1)
    obtain c k where c: "q = c + 16" "sz + 16 \<le> k" "ZEND_MM_TRUE_SIZE sz \<le> k" "c \<notin> fst ` H" "mm_state h1 (insert (c, k) H)" "payload h1 = payload h"
        "reserve h1 = reserve h" "mm_limit h1 = mm_limit h" "unat (real_size h1) \<le> max (unat (real_size h)) (unat (mm_limit h))"
      using r(2) Done by (auto simp: mm_allocates_def)
    let ?h = "copy_payload (c + 16) (b + 16) (n - 16) h1"
    have ms: "mm_state ?h (insert (c, k) H)" by (rule state_same [OF c(5)]) simp_all
    have "(b, n) \<in> insert (c, k) H" "reserve ?h \<noteq> Some (b + 16)" using bn rs c(7) by simp_all
    from free_int_state [OF ms this] obtain h2 where f: "zend_mm_free_int (Some (b + 16)) ?h = Some h2"
        "mm_state h2 (insert (c, k) H - {(b, n)})" "payload h2 = payload ?h" "reserve h2 = reserve ?h" "mm_limit h2 = mm_limit ?h"
        "unat (real_size h2) \<le> unat (real_size ?h)"
      by blast
    have "(c, k) \<noteq> (b, n)" using bn c(4) by force
    then have e: "insert (c, k) H - {(b, n)} = insert (c, k) (H - {(b, n)})" by auto
    have "c \<notin> fst ` (H - {(b, n)})" using c(4) by blast
    moreover have "mm_state h2 (insert (c, k) (H - {(b, n)}))" using f(2) e by simp
    ultimately have "mm_reallocates h H b n sz (Done (c + 16) h2)"
      using moved_ok [OF st bn, of h2 c k sz] c f(3-6) t by (simp add: fun_eq_iff)
    then show ?thesis using r(1) Done c(1) f(1) by (simp add: realloc_move_def)
  qed
qed

end
