(* ===== verification/ZendAllocMove.thy ===== *)
theory ZendAllocMove
  imports ZendAllocRealloc
begin

text \<open>Reallocation, continued: a block that fills its segment grows with it, and the segment may move.\<close>

subsection \<open>The pointer to a segment\<close>

fun leads :: "(addr \<Rightarrow> addr option option) \<Rightarrow> addr option \<Rightarrow> addr list \<Rightarrow> addr \<Rightarrow> bool" where
  "leads nx v [] s \<longleftrightarrow> v = Some s"
| "leads nx v (a # as) s \<longleftrightarrow> v = Some a \<and> (\<exists>w. nx a = Some w \<and> leads nx w as s)"

lemma chain_leads: "chain nx v (as @ s # bs) \<Longrightarrow> leads nx v as s"
  by (induction as arbitrary: v) auto

lemma leads_cong: "(\<And>a. a \<in> set as \<Longrightarrow> nx' a = nx a) \<Longrightarrow> leads nx' v as s = leads nx v as s"
  by (induction as arbitrary: v) auto

lemma find_leads_from:
  assumes "leads (next_segment h) v as s" "s \<notin> set as" "segment_at r h = Some v"
  shows "find_segment r s h = Some (if as = [] then r else Next_Of (last as))"
  using assms
proof (induction as arbitrary: v r)
  case Nil
  then show ?case by (subst find_segment.simps) simp
next
  case (Cons a as)
  then obtain w where w: "v = Some a" "next_segment h a = Some w" "leads (next_segment h) w as s" by auto
  have "find_segment (Next_Of a) s h = Some (if as = [] then Next_Of a else Next_Of (last as))"
    using Cons.prems(2) w by (intro Cons.IH [OF w(3)]) (simp_all add: segment_at_def)
  then show ?case using Cons.prems w(1) by (subst find_segment.simps) auto
qed

lemma find_leads: "\<lbrakk>leads (next_segment h) (segments_list h) as s; s \<notin> set as\<rbrakk> \<Longrightarrow> find_segment Segments_List s h = Some (ref_of as)"
  using find_leads_from [of h "segments_list h" as s Segments_List] by (simp add: segment_at_def ref_of_def)

lemma chain_replace:
  assumes "chain nx v (as @ s # bs)" "nx s = Some w" "distinct (as @ s # bs)" "d \<notin> set (as @ s # bs)"
  shows "as \<noteq> [] \<Longrightarrow> chain ((nx(s := None, d \<mapsto> w))(last as \<mapsto> Some d)) v (as @ d # bs)"
    "chain (nx(s := None, d \<mapsto> w)) (Some d) (d # bs)"
proof -
  have b: "chain nx w bs" using chain_mid [OF assms(1)] assms(2) by auto
  have "chain (nx(s := None, d \<mapsto> w)) w bs = chain nx w bs" by (rule chain_cong) (use assms(3,4) in auto)
  then show "chain (nx(s := None, d \<mapsto> w)) (Some d) (d # bs)" using b by simp
  assume ne: "as \<noteq> []"
  let ?m = "nx(d \<mapsto> w)"
  have "chain ?m v (as @ s # bs) = chain nx v (as @ s # bs)" by (rule chain_cong) (use assms(4) in auto)
  moreover have "chain ?m w bs = chain nx w bs" by (rule chain_cong) (use assms(4) in auto)
  ultimately have "chain ?m v (as @ s # bs)" "chain ?m (Some d) (d # bs)" using assms(1) b by simp_all
  from chain_redirect [OF this] have c: "chain (?m(last as \<mapsto> Some d)) v (as @ d # bs)" using assms(3,4) ne by auto
  have "chain ((nx(s := None, d \<mapsto> w))(last as \<mapsto> Some d)) v (as @ d # bs) = chain (?m(last as \<mapsto> Some d)) v (as @ d # bs)"
  proof (rule chain_cong)
    fix a assume "a \<in> set (as @ d # bs)"
    then have "a \<noteq> s" using assms(3,4) by auto
    then show "((nx(s := None, d \<mapsto> w))(last as \<mapsto> Some d)) a = (?m(last as \<mapsto> Some d)) a" by simp
  qed
  then show "chain ((nx(s := None, d \<mapsto> w))(last as \<mapsto> Some d)) v (as @ d # bs)" using c by simp
qed

subsection \<open>The segment with its new size\<close>

lemma grown_ok:
  assumes good: "mm_good K h (S1 @ (s, ts) # S2) F C L" and L: "L = free_tiles (s + 16) ts" "fst ` used_tiles (s + 16) ts \<inter> cached_blocks C = {}"
    and ch: "chain (next_segment h') (segments_list h') (map fst S1 @ d # map fst S2)"
    and sz: "segment_size h' d = Some (N + 32)" "\<And>y. y \<in> set S1 \<union> set S2 \<Longrightarrow> segment_size h' (fst y) = segment_size h (fst y)"
    and at: "\<And>x. x \<notin> {s..<s + extent ts + 32} \<Longrightarrow> x \<notin> {d..<d + N + 32} \<Longrightarrow> same_at h h' x" and hd: "same_heads h h'"
    and i: "info_size h' (d + 16) = Some N" "info_prev h' (d + 16) = Some 3" "info_size h' (d + 16 + N) = Some 19" "info_prev h' (d + 16 + N) = Some N"
    and N: "block_sized N" and fresh: "\<And>y. y \<in> set S1 \<union> set S2 \<Longrightarrow> {d..<d + N + 32} \<inter> span y = {}"
    and rz: "unat (real_size h') = mem_total (S1 @ S2) + N + 32" and room: "mem_total (S1 @ S2) + N + 32 < 2 ^ 31"
  shows "mm_good K h' (S1 @ (d, [(N, False)]) # S2) F C {d + 16}"
proof -
  have g: "segs_ok h (S1 @ (s, ts) # S2)" using good by (simp add: mm_good_def)
  have ap: "apart (S1 @ (s, ts) # S2)" using g by (simp add: segs_ok_def)
  have sb: "blocks_of [(s, ts)] = set (tiles_at (s + 16) ts)" by (simp add: seg_blocks_def)
  have dd: "span (d, [(N, False)]) = {d..<d + N + 32}" by (simp add: span_def)
  have g2: "mm_good K h' (S1 @ [(d, [(N, False)])] @ S2) F C (L - fst ` blocks_of [(s, ts)] \<union> free_in [(d, [(N, False)])])"
  proof (rule good_exchange)
    show "mm_good K h (S1 @ [(s, ts)] @ S2) F C L" using good by simp
    show "chain (next_segment h') (segments_list h') (map fst (S1 @ [(d, [(N, False)])] @ S2))" using ch by simp
    show "seg_ok h' x" if "x \<in> set [(d, [(N, False)])]" for x using that sz(1) i N by (simp add: seg_ok_def)
    show "segment_size h' (fst y) = segment_size h (fst y)" if "y \<in> set S1 \<union> set S2" for y using sz(2) [OF that] .
    show "same_at h h' x" if y: "y \<in> set S1 \<union> set S2" "x \<in> span y" for y x
    proof (rule at)
      have "span y \<inter> span (s, ts) = {}" using ap y(1) by (fastforce simp: apart_def sorted_wrt_append Int_commute)
      then show "x \<notin> {s..<s + extent ts + 32}" using y(2) by (auto simp: span_def)
      show "x \<notin> {d..<d + N + 32}" using fresh [OF y(1)] y(2) by blast
    qed
    show "apart (S1 @ [(d, [(N, False)])] @ S2)"
      using ap fresh dd by (auto simp: apart_def sorted_wrt_append)
    show "c \<in> L" if "(c, m, False) \<in> blocks_of [(s, ts)]" for c m using that unfolding sb L(1) free_tiles_def by blast
    show "c \<notin> cached_blocks C" if "(c, m, True) \<in> blocks_of [(s, ts)]" for c m using that L(2) unfolding sb used_tiles_def by force
  qed (use hd rz room in simp_all)
  have e1: "L - fst ` blocks_of [(s, ts)] = {}" unfolding sb L(1) free_tiles_def by force
  have e2: "free_in [(d, [(N, False)])] = {d + 16}" by (simp add: free_in_def seg_blocks_def)
  show ?thesis using g2 unfolding e1 e2 by simp
qed

text \<open>The heap after \<open>ZEND_MM_STORAGE_REALLOC\<close> and the update of the segment list, up to the headers.\<close>

definition moved_heap :: "addr \<Rightarrow> addr \<Rightarrow> nat \<Rightarrow> addr option \<Rightarrow> ulong \<Rightarrow> nat \<Rightarrow> mm_heap \<Rightarrow> mm_heap" where
  "moved_heap s d n nx rz m h = (raise_real_peak ((copy_payload d s n ((forget s n h)\<lparr>
      info_size := move_cells s d n (info_size h), info_prev := move_cells s d n (info_prev h),
      segment_size := (segment_size h)(s := None, d \<mapsto> n), next_segment := (next_segment h)(s := None, d \<mapsto> nx)\<rparr>))\<lparr>real_size := rz\<rparr>))
    \<lparr>segment_size := (segment_size h)(s := None, d \<mapsto> m)\<rparr>"

lemma moved_heap_fields:
  "segment_size (moved_heap s d n nx rz m h) = (segment_size h)(s := None, d \<mapsto> m)"
  "next_segment (moved_heap s d n nx rz m h) = (next_segment h)(s := None, d \<mapsto> nx)"
  "segments_list (moved_heap s d n nx rz m h) = segments_list h" "real_size (moved_heap s d n nx rz m h) = rz"
  "same_heads h (moved_heap s d n nx rz m h)"
  "same_user (copy_payload d s n h) (moved_heap s d n nx rz m h)"
  "x \<notin> {s..<s + n} \<Longrightarrow> x \<notin> {d..<d + n} \<Longrightarrow> same_at h (moved_heap s d n nx rz m h) x"
  by (auto simp: moved_heap_def copy_payload_def forget_def same_heads_def same_user_def same_at_def move_cells_def restrict_map_def)

lemma move_segment_run:
  assumes "segment_size h s = Some n" "next_segment h s = Some nx" "d \<noteq> s"
  shows "\<exists>h1. move_segment s d h = Some h1 \<and> segment_size h1 d = Some n \<and> real_size h1 = real_size h \<and>
    (raise_real_peak (h1\<lparr>real_size := rz\<rparr>))\<lparr>segment_size := (segment_size h1)(d \<mapsto> m)\<rparr> = moved_heap s d n nx rz m h"
  using assms by (auto simp: move_segment_def moved_heap_def Let_def copy_payload_def forget_def raise_real_peak_def cong: if_cong)

lemma moved_list:
  assumes "chain (next_segment h) (segments_list h) (as @ s # bs)" "next_segment h s = Some nx" "distinct (as @ s # bs)" "d \<notin> set (as @ s # bs)"
    and g_def: "g = moved_heap s d n nx rz m h"
  shows "find_segment Segments_List s g = Some (ref_of as)"
    "chain (next_segment (set_segment_at (ref_of as) (Some d) g)) (segments_list (set_segment_at (ref_of as) (Some d) g)) (as @ d # bs)"
proof -
  have "leads (next_segment g) (segments_list g) as s = leads (next_segment h) (segments_list h) as s"
    unfolding g_def moved_heap_fields by (rule leads_cong) (use assms(3,4) in auto)
  then show "find_segment Segments_List s g = Some (ref_of as)"
    using chain_leads [OF assms(1)] assms(3) by (intro find_leads) simp_all
  show "chain (next_segment (set_segment_at (ref_of as) (Some d) g)) (segments_list (set_segment_at (ref_of as) (Some d) g)) (as @ d # bs)"
    using chain_replace [OF assms(1-4)]
    by (cases "as = []") (simp_all add: ref_of_def set_segment_at_def g_def moved_heap_fields)
qed

text \<open>What the new segment needs: \<open>g\<close> is the heap before the guard and the block are written.\<close>

definition resized :: "mm_heap \<Rightarrow> segment list \<Rightarrow> segment list \<Rightarrow> addr \<Rightarrow> nat \<Rightarrow> addr \<Rightarrow> nat \<Rightarrow> ulong \<Rightarrow> mm_heap \<Rightarrow> bool" where
  "resized h S1 S2 s n d m rz g \<longleftrightarrow>
     chain (next_segment g) (segments_list g) (map fst S1 @ d # map fst S2) \<and> segment_size g d = Some m \<and>
     (\<forall>y \<in> set S1 \<union> set S2. segment_size g (fst y) = segment_size h (fst y)) \<and> same_heads h g \<and>
     (\<forall>x. x \<notin> {s..<s + n} \<longrightarrow> x \<notin> {d..<d + n} \<longrightarrow> x \<noteq> d + 16 \<longrightarrow> same_at h g x) \<and> info_prev g (d + 16) = Some 3 \<and>
     real_size g = rz \<and> same_user (copy_payload d s n h) g"

lemma copy_nowhere: "copy_payload s s n h = h"
proof -
  have "payload (copy_payload s s n h) = payload h" by (auto simp: fun_eq_iff)
  then show ?thesis by (simp add: copy_payload_def)
qed

lemma resized_here:
  assumes "segs_ok h (S1 @ (s, ts) # S2)"
  shows "resized h S1 S2 s n s m rz ((raise_real_peak (h\<lparr>real_size := rz\<rparr>))\<lparr>segment_size := (segment_size h)(s \<mapsto> m)\<rparr>)"
proof -
  have "distinct (map fst S1 @ s # map fst S2)" using apart_fst [of "S1 @ (s, ts) # S2"] assms by (simp add: segs_ok_def)
  then have "fst y \<noteq> s" if "y \<in> set S1 \<union> set S2" for y using that by auto
  moreover have "info_prev h (s + 16) = Some 3" using assms by (cases ts) (auto simp: segs_ok_def seg_ok_def)
  ultimately show ?thesis
    using assms by (simp add: resized_def segs_ok_def same_heads_def same_at_def copy_nowhere same_user_def)
qed

lemma set_segment_fields:
  "info_size (set_segment_at r v h) = info_size h" "info_prev (set_segment_at r v h) = info_prev h"
  "segment_size (set_segment_at r v h) = segment_size h" "real_size (set_segment_at r v h) = real_size h"
  "same_heads h (set_segment_at r v h)" "same_user h (set_segment_at r v h)" "same_at h (set_segment_at r v h) x"
  by (simp_all add: set_segment_at_def same_heads_def same_user_def same_at_def split: segment_ref.split)

lemma same_at_trans: "\<lbrakk>same_at h g x; same_at g k x\<rbrakk> \<Longrightarrow> same_at h k x"
  by (simp add: same_at_def)

lemma same_heads_trans: "\<lbrakk>same_heads h g; same_heads g k\<rbrakk> \<Longrightarrow> same_heads h k"
  by (simp add: same_heads_def)

lemma resized_moved:
  assumes "segs_ok h (S1 @ (s, ts) # S2)" "d \<notin> set (map fst S1 @ s # map fst S2)" "next_segment h s = Some nx"
  shows "resized h S1 S2 s n d m rz (ZEND_MM_MARK_FIRST_BLOCK (d + 16) (set_segment_at (ref_of (map fst S1)) (Some d) (moved_heap s d n nx rz m h)))"
    "find_segment Segments_List s (moved_heap s d n nx rz m h) = Some (ref_of (map fst S1))"
proof -
  let ?m = "moved_heap s d n nx rz m h"
  let ?g = "set_segment_at (ref_of (map fst S1)) (Some d) ?m"
  let ?k = "ZEND_MM_MARK_FIRST_BLOCK (d + 16) ?g"
  have d: "distinct (map fst S1 @ s # map fst S2)" using apart_fst [of "S1 @ (s, ts) # S2"] assms(1) by (simp add: segs_ok_def)
  have ch: "chain (next_segment h) (segments_list h) (map fst S1 @ s # map fst S2)" using assms(1) by (simp add: segs_ok_def)
  note ml = moved_list [OF ch assms(3) d assms(2) refl, of n rz m]
  show "find_segment Segments_List s ?m = Some (ref_of (map fst S1))" by (rule ml(1))
  have "segment_size ?k (fst y) = segment_size h (fst y)" if y: "y \<in> set S1 \<union> set S2" for y
  proof -
    have "fst y \<noteq> s" "fst y \<noteq> d" using d assms(2) y by auto
    then show ?thesis by (simp add: set_segment_fields moved_heap_fields)
  qed
  moreover have "same_at h ?k x" if "x \<notin> {s..<s + n}" "x \<notin> {d..<d + n}" "x \<noteq> d + 16" for x
  proof -
    have "same_at h ?g x" using same_at_trans [OF moved_heap_fields(7) [OF that(1,2)] set_segment_fields(7)] .
    then show ?thesis using that(3) by (simp add: same_at_def)
  qed
  moreover have "same_heads h ?g" by (rule same_heads_trans [OF moved_heap_fields(5) set_segment_fields(5)])
  then have "same_heads h ?k" by (simp add: same_heads_def)
  moreover have "same_user (copy_payload d s n h) ?g" by (rule same_user_trans [OF moved_heap_fields(6) set_segment_fields(6)])
  then have "same_user (copy_payload d s n h) ?k" by (simp add: same_user_def)
  ultimately show "resized h S1 S2 s n d m rz ?k"
    unfolding resized_def using ml(2) by (simp add: set_segment_fields moved_heap_fields)
qed

text \<open>The end of the reallocation: the block is written into the new segment and cut.\<close>

lemma resized_ok:
  assumes st: "mm_state h0 H" and bn: "(b, n) \<in> H" and rs: "reserve h0 \<noteq> Some (b + 16)"
    and good: "mm_good (cache h0) h (S1 @ (s, (n, True) # zs) # S2) F C (fst ` set (tiles_at (b + n) zs))"
    and zs: "zs = [] \<or> (\<exists>k. zs = [(k, False)])" and core: "core h = core h0" and b: "b = s + 16"
    and held: "held_blocks (S1 @ (s, (n, True) # zs) # S2) C = H" and cd: "b \<notin> cached_blocks C"
    and old: "old = n + extent zs + 32" and t: "block_sized t" "t \<le> N" "old < t + 32" and sz: "sz + 16 \<le> t" and N: "block_sized N"
    and g: "resized h S1 S2 s old d (N + 32) rz g" and fresh: "\<And>y. y \<in> set S1 \<union> set S2 \<Longrightarrow> {d..<d + N + 32} \<inter> span y = {}"
    and rz: "unat rz = mem_total (S1 @ S2) + N + 32" and room: "mem_total (S1 @ S2) + N + 32 < 2 ^ 31" "unat rz \<le> unat (mm_limit h0)"
  shows "\<exists>k h2. split_block (d + 16) N t True (ZEND_MM_LAST_BLOCK (d + 16 + N) g) = Some (k, h2) \<and>
    (\<forall>v. mm_reallocates h0 H b n sz (Done (d + 32) (raise_peak (h2\<lparr>mm_size := v\<rparr>))))"
proof -
  let ?g3 = "ZEND_MM_LAST_BLOCK (d + 16 + N) g"
  let ?g4 = "ZEND_MM_BLOCK (d + 16) ZEND_MM_FREE_BLOCK N ?g3"
  let ?S = "S1 @ (s, (n, True) # zs) # S2" and ?S4 = "S1 @ (d, [(N, False)]) # S2"
  have sg: "segs_ok h ?S" using good by (simp add: mm_good_def)
  have r: "chain (next_segment g) (segments_list g) (map fst S1 @ d # map fst S2)" "segment_size g d = Some (N + 32)"
    "\<And>y. y \<in> set S1 \<union> set S2 \<Longrightarrow> segment_size g (fst y) = segment_size h (fst y)" "same_heads h g"
    "\<And>x. x \<notin> {s..<s + old} \<Longrightarrow> x \<notin> {d..<d + old} \<Longrightarrow> x \<noteq> d + 16 \<Longrightarrow> same_at h g x" "info_prev g (d + 16) = Some 3"
    "real_size g = rz" "same_user (copy_payload d s old h) g"
    using g unfolding resized_def by blast+
  have nN: "N \<noteq> 0" "old \<le> N + 32" using N t(2,3) by (auto simp: block_sized_def)
  have good4: "mm_good (cache h0) ?g4 ?S4 F C {d + 16}"
  proof (rule grown_ok [OF good])
    show "fst ` set (tiles_at (b + n) zs) = free_tiles (s + 16) ((n, True) # zs)" using zs b by (auto simp: free_tiles_def)
    have "used_tiles (s + 16) ((n, True) # zs) = {(b, n)}" using zs b by (auto simp: used_tiles_def)
    then show "fst ` used_tiles (s + 16) ((n, True) # zs) \<inter> cached_blocks C = {}" using cd by simp
    show "chain (next_segment ?g4) (segments_list ?g4) (map fst S1 @ d # map fst S2)" using r(1) by (simp add: ZEND_MM_BLOCK_def)
    show "segment_size ?g4 d = Some (N + 32)" using r(2) by (simp add: ZEND_MM_BLOCK_def)
    show "segment_size ?g4 (fst y) = segment_size h (fst y)" if "y \<in> set S1 \<union> set S2" for y using r(3) [OF that] by (simp add: ZEND_MM_BLOCK_def)
    show "same_at h ?g4 x" if x: "x \<notin> {s..<s + extent ((n, True) # zs) + 32}" "x \<notin> {d..<d + N + 32}" for x
    proof -
      have "x \<notin> {s..<s + old}" "x \<notin> {d..<d + old}" "x \<noteq> d + 16" using x old nN(2) by auto
      from r(5) [OF this] show ?thesis using x(2) by (auto simp: same_at_def ZEND_MM_BLOCK_def)
    qed
    show "same_heads h ?g4" using r(4) by (simp add: same_heads_def ZEND_MM_BLOCK_def)
    show "info_size ?g4 (d + 16) = Some N" "info_prev ?g4 (d + 16) = Some 3" "info_size ?g4 (d + 16 + N) = Some 19" "info_prev ?g4 (d + 16 + N) = Some N"
      using r(6) nN(1) by simp_all
    show "unat (real_size ?g4) = mem_total (S1 @ S2) + N + 32" using r(7) rz by (simp add: ZEND_MM_BLOCK_def)
  qed (use N fresh room in simp_all)
  have good5: "mm_good (cache h0) ?g4 (S1 @ (d, [] @ [(N, False)] @ []) # S2) F C {d + 16}" using good4 by simp
  have e: "[(N, False)] \<noteq> []" "d + 16 = d + 16 + extent []" "N = extent [(N, False)]" "{d + 16} = free_tiles (d + 16) [(N, False)]"
    "fst ` used_tiles (d + 16) [(N, False)] \<inter> cached_blocks C = {}" "([] :: tile list) = [] \<or> snd (hd ([] :: tile list))"
    by (simp_all add: free_tiles_def used_tiles_def)
  obtain k h2 F2 mid where x: "split_block (d + 16) N t True ?g4 = Some (k, h2)" "t \<le> k" "extent mid = N"
      "mm_good (cache h0) h2 (S1 @ (d, [] @ mid @ []) # S2) F2 C {}" "same_user ?g4 h2"
      "used_blocks (S1 @ (d, [] @ mid @ []) # S2) = used_blocks (S1 @ (d, [] @ [(N, False)] @ []) # S2) - used_tiles (d + 16) [(N, False)] \<union> {(d + 16, k)}"
    using split_block_ok [OF good5 e(1-3) t(1,2) e(4-6), of True] by blast
  have run: "split_block (d + 16) N t True ?g3 = Some (k, h2)" using x(1) split_over_free [OF t(2)] by simp
  have others: "used_blocks ?S4 = used_blocks (S1 @ S2)" by (auto simp: used_blocks_def seg_blocks_def)
  have inside: "\<exists>y \<in> set S1 \<union> set S2. (c, u) \<in> seg_blocks y \<and> seg_ok h y" if "(c, u) \<in> blocks_of (S1 @ S2)" for c u
    using that sg by (auto simp: blocks_of_def segs_ok_def)
  have usedS: "used_blocks ?S = insert (b, n) (used_blocks (S1 @ S2))" using zs b by (auto simp: used_blocks_def seg_blocks_def)
  have nb: "(b, n) \<notin> used_blocks (S1 @ S2)"
  proof
    assume "(b, n) \<in> used_blocks (S1 @ S2)"
    then have "(b, n, True) \<in> blocks_of (S1 @ S2)" by (simp add: used_blocks_def)
    from inside [OF this] obtain y where y: "y \<in> set S1 \<union> set S2" "(b, n, True) \<in> seg_blocks y" "seg_ok h y" by blast
    have "b \<in> span y" using seg_block_info(3,4) [OF y(3,2)] by (simp add: span_def)
    moreover have "b \<in> span (s, (n, True) # zs)" using b by (simp add: span_def)
    moreover have "span y \<inter> span (s, (n, True) # zs) = {}"
      using sg y(1) by (fastforce simp: segs_ok_def apart_def sorted_wrt_append Int_commute)
    ultimately show False by blast
  qed
  have used4: "used_blocks ?S4 = used_blocks ?S - {(b, n)}" using others usedS nb by blast
  then have H4: "held_blocks ?S4 C = H - {(b, n)}" using held by (auto simp: held_blocks_def)
  have sg4: "segs_ok ?g4 ?S4" using good4 by (simp add: mm_good_def)
  have "d + 16 \<in> free_in ?S4" by (auto simp: free_in_def seg_blocks_def)
  then have nu: "d + 16 \<notin> used_in ?S4" using free_not_used [OF sg4] by blast
  have c4: "caches_ok (cache h0) ?g4 ?S4 C" using good4 by (simp add: mm_good_def)
  have nc: "d + 16 \<notin> cached_blocks C" using cached_used [OF c4] nu by blast
  have cH: "d + 16 \<notin> fst ` (H - {(b, n)})" using nu H4 by (auto simp: held_blocks_def used_in_used)
  have held2: "held_blocks (S1 @ (d, [] @ mid @ []) # S2) C = insert (d + 16, k) (H - {(b, n)})"
    unfolding H4 [symmetric] held_blocks_def x(6) using nc by (auto simp: used_tiles_def)
  have su: "same_user (copy_payload d s old h) h2"
  proof -
    have "same_user (copy_payload d s old h) ?g3" using r(8) by (simp add: same_user_def)
    from same_user_trans [OF same_user_trans [OF this header_updates(5)] x(5)] show ?thesis .
  qed
  have flds: "cache h2 = cache h0" "reserve h2 = reserve h0" "mm_limit h2 = mm_limit h0" "block_size h2 = block_size h0"
    "payload h2 = payload (copy_payload d s old h)" "payload h = payload h0"
    using su core_fields [OF core] by (simp_all add: same_user_def)
  have rv: "\<exists>c m. p = c + 16 \<and> (c, m) \<in> insert (d + 16, k) (H - {(b, n)})" if "reserve h2 = Some p" for p
    using st rs that flds(2) unfolding mm_state_def by fastforce
  have "mm_good (cache h2) h2 (S1 @ (d, [] @ mid @ []) # S2) F2 C {}" using x(4) flds(1) by simp
  then have ms: "mm_state h2 (insert (d + 16, k) (H - {(b, n)}))"
    by (rule mm_stateI [OF _ _ _ held2]) (use st flds(4) rv in \<open>auto simp: mm_state_def block_size_ok_def\<close>)
  have keep: "payload h2 (d + 16 + 16 + i) = payload h0 (b + 16 + i)" if "i + 16 < n" for i
    using that old b by (simp add: flds(5,6) ac_simps)
  have same: "payload h2 a = payload h0 a" if a: "(c, m) \<in> H - {(b, n)}" "c + 16 \<le> a" "a < c + m" for c m a
  proof -
    have "(c, m, True) \<in> blocks_of (S1 @ S2)" using a(1) held usedS by (auto simp: held_blocks_def used_blocks_def)
    then obtain y where y: "y \<in> set S1 \<union> set S2" "(c, m, True) \<in> seg_blocks y" "seg_ok h y" using inside by blast
    have "a \<in> span y" using block_span [OF y(3,2)] a(2,3) by simp
    then have "a \<notin> {d..<d + N + 32}" using fresh [OF y(1)] by blast
    then show ?thesis using nN(2) by (auto simp: flds(5,6))
  qed
  have rz2: "unat (real_size h2) \<le> unat (mm_limit h0)" using good_total [OF x(4)] x(3) rz room(2) by simp
  have "mm_reallocates h0 H b n sz (Done (d + 32) (raise_peak (h2\<lparr>mm_size := v\<rparr>)))" for v
  proof -
    let ?h = "raise_peak (h2\<lparr>mm_size := v\<rparr>)"
    have f: "payload ?h = payload h2" "reserve ?h = reserve h2" "mm_limit ?h = mm_limit h2" "real_size ?h = real_size h2"
      "cache ?h = cache h2" "block_size ?h = block_size h2"
      by (simp_all add: raise_peak_def)
    have "mm_state ?h (insert (d + 16, k) (H - {(b, n)}))" by (rule state_same [OF ms]) (simp_all add: f)
    moreover have "d + 32 = d + 16 + 16" "sz + 16 \<le> k" using x(2) sz by simp_all
    moreover have "unat (real_size ?h) \<le> max (unat (real_size h0)) (unat (mm_limit h0))" using rz2 by (simp add: f)
    ultimately show ?thesis
      unfolding mm_reallocates_def mm_outcome.case using keep same cH flds(2,3) f by metis
  qed
  then show ?thesis using run by blast
qed

lemma give_up_fails:
  assumes st: "mm_state h0 H" and good: "mm_good (cache h0) h S F C {}" and core: "core h = core h0" and held: "held_blocks S C = H"
  shows "\<exists>h'. do { h \<leftarrow> zend_mm_free_cache h; zend_mm_safe_error e h } = (Some (Fatal e h') :: 'a mm_outcome option) \<and> mm_fails h0 H h'"
proof -
  note cf = core_fields [OF core]
  have "mm_good (cache h) h S F C {}" "block_size_ok h" "\<forall>p. reserve h = Some p \<longrightarrow> (\<exists>b n. p = b + 16 \<and> (b, n) \<in> held_blocks S C)"
    using st good cf held by (auto simp: mm_state_def block_size_ok_def)
  from give_up_ok [OF this, of e] obtain h' where
    "do { h \<leftarrow> zend_mm_free_cache h; zend_mm_safe_error e h } = (Some (Fatal e h') :: 'a mm_outcome option)" "mm_fails h (held_blocks S C) h'"
    by blast
  moreover from this(2) have "mm_fails h0 H h'" using cf held by (simp add: mm_fails_def reserved_def)
  ultimately show ?thesis by blast
qed

lemma never_done: "do { h \<leftarrow> zend_mm_free_cache h; zend_mm_safe_error e h } \<noteq> Some (Done q h')"
  by (auto simp: zend_mm_safe_error_def split: Option.bind_splits)

lemma realloc_segment_ok:
  assumes st: "mm_state h0 H" and bn: "(b, n) \<in> H" and rs: "reserve h0 \<noteq> Some (b + 16)"
    and good: "mm_good (cache h0) h (S1 @ (s, (n, True) # zs) # S2) F C (fst ` set (tiles_at (b + n) zs))"
    and zs: "zs = [] \<or> (\<exists>k. zs = [(k, False)])" and core: "core h = core h0" and b: "b = s + 16"
    and held: "held_blocks (S1 @ (s, (n, True) # zs) # S2) C = H" and cd: "b \<notin> cached_blocks C"
    and sto: "storage_ok sto" and lim: "unat (mm_limit h0) < 2 ^ 31"
    and t: "32 \<le> t" "8 dvd t" "t < 2 ^ 64" "n + extent zs < t" and sz: "sz + 16 \<le> t"
  shows "(\<exists>r. realloc_segment sto b (b + n) t n h = Some r \<and> mm_reallocates h0 H b n sz r) \<or>
    (zs \<noteq> [] \<and> storage_realloc sto h s (unat (segment_size_for t h)) = None \<and> (\<forall>q h'. realloc_segment sto b (b + n) t n h \<noteq> Some (Done q h')))"
proof -
  let ?S = "S1 @ (s, (n, True) # zs) # S2" and ?seg = "segment_size_for t h"
  define old where "old = n + extent zs + 32"
  note cf = core_fields [OF core]
  have sg: "segs_ok h ?S" using good by (simp add: mm_good_def)
  have sof: "segment_of b = Some s" unfolding b by simp
  have ss: "segment_size h s = Some old" using sg by (simp add: segs_ok_def seg_ok_def old_def)
  have tot: "unat (real_size h) = mem_total (S1 @ S2) + old" "mem_total (S1 @ S2) + old < 2 ^ 31"
    using sg by (simp_all add: segs_ok_def old_def)
  have bs: "block_size_ok h" using st cf by (simp add: mm_state_def block_size_ok_def)
  show ?thesis
  proof (cases "unat ?seg < t \<or> real_size h + ?seg - of_nat old > mm_limit h")
    case True
    have "\<exists>ns h1 F1. info_size h (b + n) = Some ns \<and> (if ZEND_MM_IS_FREE_BLOCK ns then zend_mm_add_to_free_list (b + n) h else Some h) = Some h1 \<and>
        mm_good (cache h0) h1 ?S F1 C {} \<and> core h1 = core h"
    proof (cases "zs = []")
      case True
      have "info_size h (b + n) = Some 19" using sg True b by (simp add: segs_ok_def seg_ok_def)
      moreover have "mm_good (cache h0) h ?S F C {}" using good True by simp
      ultimately show ?thesis by (intro exI [of _ 19] exI [of _ h] exI [of _ F]) simp
    next
      case False
      then obtain k where k: "zs = [(k, False)]" using zs by blast
      have i: "info_size h (b + n) = Some k" "block_sized k" using sg k b by (simp_all add: segs_ok_def seg_ok_def)
      have "b + n \<in> fst ` set (tiles_at (b + n) zs)" "fst ` set (tiles_at (b + n) zs) - {b + n} = {}" using k by simp_all
      then obtain h1 F1 where "zend_mm_add_to_free_list (b + n) h = Some h1" "mm_good (cache h0) h1 ?S F1 C {}" "core h1 = core h"
        using put_free(1) [OF good, of "b + n"] by metis
      then show ?thesis using i by (intro exI [of _ k] exI [of _ h1] exI [of _ F1]) (simp add: block_sized_def)
    qed
    then obtain ns h1 F1 where x: "info_size h (b + n) = Some ns"
        "(if ZEND_MM_IS_FREE_BLOCK ns then zend_mm_add_to_free_list (b + n) h else Some h) = Some h1" "mm_good (cache h0) h1 ?S F1 C {}" "core h1 = core h"
      by blast
    have c1: "core h1 = core h0" using x(4) core by simp
    obtain h' where f: "do { h \<leftarrow> zend_mm_free_cache h1; zend_mm_safe_error Limit_Exhausted h } = (Some (Fatal Limit_Exhausted h') :: addr mm_outcome option)"
        "mm_fails h0 H h'"
      using give_up_fails [OF st x(3) c1 held] by blast
    have "realloc_segment sto b (b + n) t n h = Some (Fatal Limit_Exhausted h')"
      using True sof ss x(1,2) f(1) by (simp add: realloc_segment_def Let_def)
    then show ?thesis using f(2) by (simp add: mm_reallocates_def)
  next
    case ok: False
    show ?thesis
    proof (cases "storage_realloc sto h s (unat ?seg)")
      case None
      have e: "realloc_segment sto b (b + n) t n h = do { h \<leftarrow> zend_mm_free_cache h; zend_mm_safe_error Out_Of_Memory h }"
        using ok sof ss None by (simp add: realloc_segment_def Let_def)
      show ?thesis
      proof (cases "zs = []")
        case True
        then have g2: "mm_good (cache h0) h ?S F C {}" using good by simp
        obtain h' where "realloc_segment sto b (b + n) t n h = Some (Fatal Out_Of_Memory h')" "mm_fails h0 H h'"
          using give_up_fails [OF st g2 core held, of Out_Of_Memory] unfolding e by blast
        then show ?thesis by (simp add: mm_reallocates_def)
      next
        case False
        have "\<forall>q h'. realloc_segment sto b (b + n) t n h \<noteq> Some (Done q h')" unfolding e by (intro allI never_done)
        then show ?thesis using None False by blast
      qed
    next
      case (Some d)
      have st2: "unat ?seg < 2 ^ 47" "fresh_segment (h\<lparr>segment_size := (segment_size h)(s := None)\<rparr>) d (unat ?seg)"
        using sto Some unfolding storage_ok_def by blast+
      let ?N = "unat ?seg - 32"
      let ?rz = "real_size h + (?seg - of_nat old)"
      have sz2: "t + 32 \<le> unat ?seg" "8 dvd unat ?seg" using segment_size_ok [OF bs t(2,3)] ok by auto
      have rz0: "?rz = real_size h + ?seg - of_nat old" by simp
      have "unat (real_size h + ?seg) = mem_total (S1 @ S2) + old + unat ?seg" using tot st2(1) by (simp add: unat_word_ariths)
      then have rz: "unat ?rz = mem_total (S1 @ S2) + unat ?seg" unfolding rz0 by (subst unat_minus_nat) simp_all
      have le: "unat ?rz \<le> unat (mm_limit h)" using ok unfolding rz0 by (simp add: word_le_nat_alt not_less)
      have lim2: "unat (mm_limit h) < 2 ^ 31" "mm_limit h = mm_limit h0" using lim cf by simp_all
      have rm: "mem_total (S1 @ S2) + ?N + 32 < 2 ^ 31" using rz le lim2(1) sz2(1) by linarith
      have N: "block_sized ?N" using sz2 t(1) rm by (auto simp: block_sized_def)
      have N32: "?N + 32 = unat ?seg" using sz2(1) by simp
      have tN: "t \<le> ?N" "block_sized t" using sz2(1) N t by (auto simp: block_sized_def)
      have dist: "distinct (map fst S1 @ s # map fst S2)" using apart_fst [of ?S] sg by (simp add: segs_ok_def)
      have fresh: "{d..<d + ?N + 32} \<inter> span y = {}" if y: "y \<in> set S1 \<union> set S2" for y
      proof -
        have "fst y \<noteq> s" using dist y by auto
        moreover have "segment_size h (fst y) = Some (extent (snd y) + 32)" using sg y by (auto simp: segs_ok_def seg_ok_def)
        ultimately have "segment_size (h\<lparr>segment_size := (segment_size h)(s := None)\<rparr>) (fst y) = Some (extent (snd y) + 32)" by simp
        then have "{d..<d + unat ?seg} \<inter> {fst y..<fst y + (extent (snd y) + 32)} = {}"
          using st2(2) unfolding fresh_segment_def by blast
        then show ?thesis using N32 by (simp add: span_def add.assoc)
      qed
      have fin: "\<exists>k h2. split_block (d + 16) ?N t True (ZEND_MM_LAST_BLOCK (d + 16 + ?N) g) = Some (k, h2) \<and>
          (\<forall>v. mm_reallocates h0 H b n sz (Done (d + 32) (raise_peak (h2\<lparr>mm_size := v\<rparr>))))"
        if g: "resized h S1 S2 s old d (unat ?seg) ?rz g" for g
      proof (rule resized_ok [OF st bn rs good zs core b held cd old_def tN(2,1) _ sz N _ fresh])
        show "old < t + 32" using t(4) by (simp add: old_def)
        show "resized h S1 S2 s old d (?N + 32) ?rz g" using g unfolding N32 .
        show "unat ?rz = mem_total (S1 @ S2) + ?N + 32" using rz N32 by simp
        show "unat ?rz \<le> unat (mm_limit h0)" using le lim2(2) by simp
      qed (use rm in simp_all)
      show ?thesis
      proof (cases "d = s")
        case True
        let ?g = "(raise_real_peak (h\<lparr>real_size := ?rz\<rparr>))\<lparr>segment_size := (segment_size h)(s \<mapsto> unat ?seg)\<rparr>"
        have rg: "resized h S1 S2 s old d (unat ?seg) ?rz ?g" using resized_here [OF sg, where n = old and m = "unat ?seg" and rz = ?rz] True by simp
        obtain k h2 where x: "split_block (d + 16) ?N t True (ZEND_MM_LAST_BLOCK (d + 16 + ?N) ?g) = Some (k, h2)"
            "\<forall>v. mm_reallocates h0 H b n sz (Done (d + 32) (raise_peak (h2\<lparr>mm_size := v\<rparr>)))"
          using fin [OF rg] by blast
        have "realloc_segment sto b (b + n) t n h = Some (Done (d + 32) (raise_peak (h2\<lparr>mm_size := mm_size h2 + of_nat k - of_nat n\<rparr>)))"
          using ok sof ss Some True x(1) b by (simp add: realloc_segment_def move_segment_def Let_def)
        then show ?thesis using x(2) by blast
      next
        case False
        have "d \<notin> fst ` (set S1 \<union> set S2)"
        proof
          assume "d \<in> fst ` (set S1 \<union> set S2)"
          then obtain y where y: "y \<in> set S1 \<union> set S2" "d = fst y" by blast
          have "d \<in> {d..<d + ?N + 32} \<inter> span y" using y(2) by (simp add: span_def)
          then show False using fresh [OF y(1)] by blast
        qed
        then have dn: "d \<notin> set (map fst S1 @ s # map fst S2)" using False by auto
        obtain nx where nx: "next_segment h s = Some nx"
          using chain_mid [of "next_segment h" "segments_list h" "map fst S1" s "map fst S2"] sg by (auto simp: segs_ok_def)
        let ?m = "moved_heap s d old nx ?rz (unat ?seg) h"
        let ?g = "ZEND_MM_MARK_FIRST_BLOCK (d + 16) (set_segment_at (ref_of (map fst S1)) (Some d) ?m)"
        note rm2 = resized_moved [OF sg dn nx, where n = old and m = "unat ?seg" and rz = ?rz]
        obtain h1 where m: "move_segment s d h = Some h1" "segment_size h1 d = Some old" "real_size h1 = real_size h"
            "(raise_real_peak (h1\<lparr>real_size := ?rz\<rparr>))\<lparr>segment_size := (segment_size h1)(d \<mapsto> unat ?seg)\<rparr> = ?m"
          using move_segment_run [OF ss nx False] by blast
        obtain k h2 where x: "split_block (d + 16) ?N t True (ZEND_MM_LAST_BLOCK (d + 16 + ?N) ?g) = Some (k, h2)"
            "\<forall>v. mm_reallocates h0 H b n sz (Done (d + 32) (raise_peak (h2\<lparr>mm_size := v\<rparr>)))"
          using fin [OF rm2(1)] by blast
        have "realloc_segment sto b (b + n) t n h = Some (Done (d + 32) (raise_peak (h2\<lparr>mm_size := mm_size h2 + of_nat k - of_nat n\<rparr>)))"
          using ok sof ss Some False x(1) b m(1-3) m(4) rm2(2)
          by (simp add: realloc_segment_def Let_def del: guard_updates)
        then show ?thesis using x(2) by blast
      qed
    qed
  qed
qed

end
