(* ===== verification/ZendAllocResize.thy ===== *)
theory ZendAllocResize
  imports ZendAllocMove
begin

text \<open>Reallocation as a whole.\<close>

text \<open>
  The one case in which the state after an error is not well formed: the storage refuses to enlarge a segment whose last
  block is free. That block is then on no list.
\<close>

definition refused :: "mm_storage \<Rightarrow> mm_heap \<Rightarrow> addr \<Rightarrow> nat \<Rightarrow> nat \<Rightarrow> bool" where
  "refused sto h b n t \<longleftrightarrow> 16 \<le> b \<and> (\<exists>h1. zend_mm_remove_from_free_list (b + n) h = Some h1 \<and>
     storage_realloc sto h1 (b - 16) (unat (segment_size_for t h)) = None)"

lemma grow_ok:
  assumes st: "mm_state h H" and bn: "(b, n) \<in> H" and rs: "reserve h \<noteq> Some (b + 16)"
    and sto: "storage_ok sto" and lim: "unat (mm_limit h) < 2 ^ 31" and sz: "sz < 2 ^ 64" "\<not> ZEND_MM_TRUE_SIZE sz < sz" "n < ZEND_MM_TRUE_SIZE sz"
  defines "t \<equiv> ZEND_MM_TRUE_SIZE sz"
  shows "(\<exists>r. realloc_grow sto (b + 16) b sz t n h = Some r \<and> mm_reallocates h H b n sz r) \<or>
    refused sto h b n t \<and> (\<forall>q h'. realloc_grow sto (b + 16) b sz t n h \<noteq> Some (Done q h'))"
proof -
  note ts = true_size_ok [OF sz(1,2), folded t_def]
  obtain mv where mv: "realloc_move sto (b + 16) sz n h = Some mv" "mm_reallocates h H b n sz mv"
    using realloc_move_ok [OF st bn rs sto lim sz(1,3)] by blast
  obtain S1 s xs ys S2 F C where g: "mm_good (cache h) h (S1 @ (s, xs @ (n, True) # ys) # S2) F C {}" "b = s + 16 + extent xs"
      "held_blocks (S1 @ (s, xs @ (n, True) # ys) # S2) C = H" "b \<notin> cached_blocks C"
    using held_locate [OF st bn] by blast
  let ?S = "S1 @ (s, xs @ (n, True) # ys) # S2"
  have sg: "segs_ok h ?S" using g(1) by (simp add: mm_good_def)
  note sp = seg_parts [OF sg g(2)]
  have seg_same: "segment_size_for t h1 = segment_size_for t h" if "core h1 = core h" for h1
    using core_fields [OF that] by (simp add: segment_size_for_def needs_large_segment_def)
  show ?thesis
  proof (cases "\<exists>k ys'. ys = (k, False) # ys'")
    case True
    then obtain k ys' where ys: "ys = (k, False) # ys'" by blast
    have i: "info_size h (b + n) = Some k" "block_sized k" using sp(1) ys by simp_all
    have fr: "ZEND_MM_IS_FREE_BLOCK k" using i(2) by (simp add: block_sized_def)
    have link: "ZEND_MM_CHECK_BLOCK_LINKAGE (b + n) h = Some ()"
    proof (rule check_linkage)
      show "segs_ok h (S1 @ (s, (xs @ [(n, True)]) @ (k, False) # ys') # S2)" using sg ys by simp
      show "b + n = s + 16 + extent (xs @ [(n, True)])" using g(2) by simp
    qed
    show ?thesis
    proof (cases "t \<le> n + k")
      case True
      obtain h' where x: "realloc_extend (b + 16) b (b + n) (n + k) t n h = Some (Done (b + 16) h')" "mm_reallocates h H b n sz (Done (b + 16) h')"
        using extend_ok [OF st bn rs g(1) [unfolded ys] g(2) g(3) [unfolded ys] g(4) ts(3,2) True ts(1)] by blast
      have "realloc_grow sto (b + 16) b sz t n h = Some (Done (b + 16) h')"
        using True i(1) fr link x(1) by (simp add: realloc_grow_def Let_def)
      then show ?thesis using x(2) by blast
    next
      case False
      have spn: "spans_segment b (b + (n + k)) h = Some (xs = [] \<and> ys' = [])"
        using spans_ok [of h S1 s xs "[(n, True), (k, False)]" ys' S2 b "n + k"] sg g(2) ys by simp
      show ?thesis
      proof (cases "xs = [] \<and> ys' = []")
        case whole: True
        have b: "b = s + 16" using g(2) whole by simp
        have "b + n \<in> free_in ?S" unfolding free_in_def using g(2) ys by (auto simp: seg_blocks_def add.assoc)
        then obtain h1 F1 where r: "zend_mm_remove_from_free_list (b + n) h = Some h1" "mm_good (cache h) h1 ?S F1 C {b + n}" "core h1 = core h"
          using take_free [OF g(1), of "b + n"] by blast
        have good: "mm_good (cache h) h1 (S1 @ (s, (n, True) # [(k, False)]) # S2) F1 C (fst ` set (tiles_at (b + n) [(k, False)]))"
          using r(2) whole ys by simp
        have held: "held_blocks (S1 @ (s, (n, True) # [(k, False)]) # S2) C = H" using g(3) whole ys by simp
        have z: "[(k, False)] = [] \<or> (\<exists>j. [(k, False)] = [(j, False)])" by simp
        have nk: "n + extent [(k, False)] < t" using False by simp
        have e: "realloc_grow sto (b + 16) b sz t n h = realloc_segment sto b (b + n) t n h1"
          using False i(1) fr link spn whole r(1) by (simp add: realloc_grow_def Let_def add.assoc)
        have "b - 16 = s" "16 \<le> b" using b by simp_all
        then show ?thesis
          using realloc_segment_ok [OF st bn rs good z r(3) b held g(4) sto lim ts(3,2,4) nk ts(1)] r(1) seg_same [OF r(3)]
          unfolding e refused_def by metis
      next
        case nwhole: False
        have "realloc_grow sto (b + 16) b sz t n h = Some mv"
          using False i(1) fr link spn nwhole mv(1) by (auto simp: realloc_grow_def Let_def add.assoc)
        then show ?thesis using mv(2) by blast
      qed
    qed
  next
    case False
    obtain ns where ns: "info_size h (b + n) = Some ns" "\<not> ZEND_MM_IS_FREE_BLOCK ns"
    proof (cases ys)
      case Nil
      then show thesis using sp(1) that [of 19] by simp
    next
      case (Cons y zs)
      then have "snd y" using False by (cases y) auto
      then show thesis using sp(1) Cons that [of "Suc (fst y)"] by (simp add: tag_def block_sized_def)
    qed
    have spn: "spans_segment b (b + n) h = Some (xs = [] \<and> ys = [])"
      using spans_ok [of h S1 s xs "[(n, True)]" ys S2 b n] sg g(2) by simp
    show ?thesis
    proof (cases "xs = [] \<and> ys = []")
      case whole: True
      have b: "b = s + 16" using g(2) whole by simp
      have good: "mm_good (cache h) h (S1 @ (s, (n, True) # []) # S2) F C (fst ` set (tiles_at (b + n) []))" using g(1) whole by simp
      have held: "held_blocks (S1 @ (s, (n, True) # []) # S2) C = H" using g(3) whole by simp
      have z: "([] :: tile list) = [] \<or> (\<exists>j. [] = [(j, False)])" by simp
      have nk: "n + extent [] < t" using sz(3) by (simp add: t_def)
      have e: "realloc_grow sto (b + 16) b sz t n h = realloc_segment sto b (b + n) t n h"
        using ns spn whole by (simp add: realloc_grow_def Let_def)
      show ?thesis
        using realloc_segment_ok [OF st bn rs good z refl b held g(4) sto lim ts(3,2,4) nk ts(1)] unfolding e by blast
    next
      case nwhole: False
      have "realloc_grow sto (b + 16) b sz t n h = Some mv"
        using ns spn nwhole mv(1) by (auto simp: realloc_grow_def Let_def)
      then show ?thesis using mv(2) by blast
    qed
  qed
qed

lemma realloc_int_ok:
  assumes st: "mm_state h H" and bn: "(b, n) \<in> H" and rs: "reserve h \<noteq> Some (b + 16)"
    and sto: "storage_ok sto" and lim: "unat (mm_limit h) < 2 ^ 31" and sz: "sz < 2 ^ 64"
  shows "(\<exists>r. zend_mm_realloc_int sto (Some (b + 16)) sz h = Some r \<and> mm_reallocates h H b n sz r) \<or>
    refused sto h b n (ZEND_MM_TRUE_SIZE sz) \<and> (\<forall>q h'. zend_mm_realloc_int sto (Some (b + 16)) sz h \<noteq> Some (Done q h'))"
proof -
  let ?t = "ZEND_MM_TRUE_SIZE sz"
  obtain S F C where s: "mm_good (cache h) h S F C {}" "held_blocks S C = H" using st unfolding mm_state_def by blast
  have sg: "segs_ok h S" using s(1) by (simp add: mm_good_def)
  have "(b, n) \<in> used_blocks S" using bn s(2) by (auto simp: held_blocks_def)
  note ui = used_info [OF sg this]
  have run: "zend_mm_realloc_int sto (Some (b + 16)) sz h =
      (if ?t < sz then zend_mm_safe_error Out_Of_Memory h
       else if ?t \<le> n then realloc_shrink (b + 16) b ?t n h
       else if ?t < 544 then
         if ZEND_MM_BUCKET_INDEX ?t \<ge> 64 then None
         else (case cache h (ZEND_MM_BUCKET_INDEX ?t) of
             Some best_fit \<Rightarrow> realloc_cached (b + 16) b best_fit ?t n h
           | None \<Rightarrow> realloc_grow sto (b + 16) b sz ?t n h)
       else realloc_grow sto (b + 16) b sz ?t n h)"
    using ui by (simp add: zend_mm_realloc_int_def Let_def split: option.split)
  show ?thesis
  proof (cases "?t < sz")
    case True
    have "block_size_ok h" "\<forall>p. reserve h = Some p \<longrightarrow> (\<exists>b n. p = b + 16 \<and> (b, n) \<in> held_blocks S C)"
      using st s(2) by (auto simp: mm_state_def)
    from safe_error_ok [OF s(1) this, of Out_Of_Memory] obtain h' where
      "zend_mm_safe_error Out_Of_Memory h = (Some (Fatal Out_Of_Memory h') :: addr mm_outcome option)" "mm_fails h H h'" using s(2) by blast
    then show ?thesis unfolding run using True by (simp add: mm_reallocates_def)
  next
    case le: False
    note ts = true_size_ok [OF sz le]
    show ?thesis
    proof (cases "?t \<le> n")
      case True
      obtain h' where "realloc_shrink (b + 16) b ?t n h = Some (Done (b + 16) h')" "mm_reallocates h H b n sz (Done (b + 16) h')"
        using shrink_ok [OF st bn rs ts(3,2) True ts(1)] by blast
      then show ?thesis unfolding run using le True by simp
    next
      case gt: False
      have grow: "(\<exists>r. realloc_grow sto (b + 16) b sz ?t n h = Some r \<and> mm_reallocates h H b n sz r) \<or>
          refused sto h b n ?t \<and> (\<forall>q h'. realloc_grow sto (b + 16) b sz ?t n h \<noteq> Some (Done q h'))"
        by (rule grow_ok [OF st bn rs sto lim sz le]) (use gt in simp)
      show ?thesis
      proof (cases "?t < 544")
        case False
        then show ?thesis unfolding run using le gt grow by simp
      next
        case small: True
        have i: "ZEND_MM_BUCKET_INDEX ?t < 64" by (rule bucket_index(2) [OF ts(3) small])
        show ?thesis
        proof (cases "cache h (ZEND_MM_BUCKET_INDEX ?t)")
          case None
          then show ?thesis unfolding run using le gt small i grow by simp
        next
          case (Some c)
          have "block_sized ?t" "n < ?t" using ts(2,3) small gt by (simp_all add: block_sized_def)
          from cached_ok [OF st bn rs this(1) small this(2) ts(1) Some] show ?thesis
            unfolding run using le gt small i Some by simp
        qed
      qed
    qed
  qed
qed

end
