(* ===== verification/ZendAllocStart.thy ===== *)
theory ZendAllocStart
  imports ZendAllocResize
begin

text \<open>The manager starts, and its limit is set.\<close>

lemma block_size_power:
  assumes "zend_mm_low_bit w = Some (zend_mm_high_bit (unat w))"
  shows "\<exists>k<64. w = push_bit k 1"
proof -
  have nz: "w \<noteq> 0"
  proof
    assume "w = 0"
    then have "zend_mm_low_bit w = None" by (simp add: zend_mm_low_bit_def zend_mm_low_bit_loop.simps)
    then show False using assms by simp
  qed
  let ?k = "zend_mm_high_bit (unat w)"
  obtain k where "zend_mm_low_bit w = Some k" "bit w k" "\<forall>j<k. \<not> bit w j" using low_bit [OF nz] by blast
  then have k: "bit w ?k" "\<forall>j<?k. \<not> bit w j" using assms by simp_all
  have "0 < unat w" using nz by (simp add: unat_gt_0)
  then have "unat w < 2 ^ Suc ?k" by (rule high_bit_bounds(2))
  then have hi: "\<not> bit w j" if "?k < j" for j
  proof -
    have "unat w < 2 ^ j" using \<open>unat w < 2 ^ Suc ?k\<close> power_increasing [of "Suc ?k" j "2 :: nat"] that by simp
    then have "\<not> bit (unat w) j" by (simp add: bit_iff_odd)
    then show ?thesis by (simp add: bit_unsigned_iff)
  qed
  have "bit w j \<longleftrightarrow> bit (push_bit ?k (1 :: ulong)) j" if "j < 64" for j
  proof -
    have "bit w j \<longleftrightarrow> j = ?k" using k hi by (metis linorder_neqE_nat)
    then show ?thesis using that by (auto simp: bit_simps)
  qed
  then have "w = push_bit ?k 1" by (intro bit_word_eqI) simp
  moreover have "?k < 64" using k(1) bit_imp_le_length by force
  ultimately show ?thesis by blast
qed

lemma init_real: "zend_mm_init (h\<lparr>real_size := v\<rparr>) = (zend_mm_init h)\<lparr>real_size := v\<rparr>"
  by (simp add: zend_mm_init_def cong: block_ptr.case_cong if_cong)

lemma empty_good:
  assumes "segments_list h = None" "real_size h = 0"
  shows "mm_good (cache (zend_mm_init h)) (zend_mm_init h) [] no_lists no_cache {}"
proof -
  have "free_blocks no_lists = {}" by (simp add: free_blocks_def small_blocks_def large_blocks_def no_lists_def)
  moreover have "segs_ok (zend_mm_init h) []" using assms by (simp add: segs_ok_def apart_def zend_mm_init_def)
  moreover have "caches_ok (cache (zend_mm_init h)) (zend_mm_init h) [] no_cache"
    by (simp add: caches_ok_def no_cache_def zend_mm_init_def)
  ultimately show ?thesis using init_lists [of h] by (simp add: mm_good_def free_in_def)
qed

lemma segment_size_bound:
  assumes "block_size h = push_bit k 1" "k \<le> 30" "n < 2 ^ 29"
  shows "unat (segment_size_for n h) < 2 ^ 31"
proof -
  have le: "(2 :: nat) ^ k \<le> 2 ^ 30" by (rule power_increasing) (use assms(2) in simp_all)
  have bs: "block_size h = of_nat (2 ^ k)" by (simp add: assms(1) push_bit_eq_mult)
  have u: "unat (block_size h) = 2 ^ k" unfolding bs unat_of_nat using le by simp
  let ?y = "of_nat n + 32 + (block_size h - 1) :: ulong"
  have "?y = of_nat (n + 32 + (2 ^ k - 1))"
  proof -
    have "(of_nat (2 ^ k - 1) :: ulong) = of_nat (2 ^ k) - 1" by (simp add: of_nat_diff)
    then show ?thesis unfolding bs by simp
  qed
  then have "unat ?y = (n + 32 + (2 ^ k - 1)) mod 2 ^ 64" by (simp only: unat_of_nat) simp
  then have "unat ?y = n + 32 + (2 ^ k - 1)" using le assms(3) by simp
  moreover have "n + 32 + (2 ^ k - 1) < 2 ^ 31" using le assms(3) by simp
  ultimately have lt: "unat ?y < 2 ^ 31" by simp
  have "unat (?y AND NOT (block_size h - 1)) = unat ?y div 2 ^ k * 2 ^ k" unfolding assms(1) by (rule unat_clear_low)
  also have "\<dots> \<le> unat ?y" by simp
  finally have "unat (?y AND NOT (block_size h - 1)) < 2 ^ 31" using lt by (rule le_less_trans)
  then show ?thesis using u le by (simp add: segment_size_for_def)
qed

text \<open>The state after the start: one block is held, the reserve.\<close>

definition mm_started :: "ulong \<Rightarrow> unit mm_outcome \<Rightarrow> bool" where
  "mm_started bs r \<longleftrightarrow> (case r of
     Done _ h \<Rightarrow> \<exists>b n. reserve h = Some (b + 16) \<and> mm_state h {(b, n)} \<and> block_size h = bs \<and> mm_limit h = push_bit 62 1
   | Fatal e h \<Rightarrow> mm_state h {} \<and> reserve h = None)"

text \<open>The heap before the reserve is allocated.\<close>

definition start_heap :: "ulong \<Rightarrow> nat \<Rightarrow> mm_heap \<Rightarrow> mm_heap" where
  "start_heap bs rsz h0 = (zend_mm_init ((no_memory h0)\<lparr>block_size := bs, compact_size := 0, segments_list := None\<rparr>))
     \<lparr>real_size := 0, overflow := 0, real_peak := 0, mm_limit := push_bit 62 1, mm_size := 0, mm_peak := 0,
       reserve := None, reserve_size := rsz\<rparr>"

lemma start_heap_ok:
  "mm_good (cache (start_heap bs rsz h0)) (start_heap bs rsz h0) [] no_lists no_cache {}"
  "block_size (start_heap bs rsz h0) = bs" "reserve (start_heap bs rsz h0) = None" "mm_limit (start_heap bs rsz h0) = push_bit 62 1"
  "real_size (start_heap bs rsz h0) = 0" "segment_size (start_heap bs rsz h0) = Map.empty"
proof -
  define h1 where "h1 = (no_memory h0)\<lparr>block_size := bs, compact_size := 0, segments_list := None\<rparr>"
  let ?h = "start_heap bs rsz h0"
  have hz: "?h = (zend_mm_init (h1\<lparr>real_size := 0\<rparr>))\<lparr>overflow := 0, real_peak := 0, mm_limit := push_bit 62 1, mm_size := 0, mm_peak := 0,
                  reserve := None, reserve_size := rsz\<rparr>"
    by (simp add: start_heap_def h1_def [symmetric] init_real)
  have g0: "mm_good (cache (zend_mm_init (h1\<lparr>real_size := 0\<rparr>))) (zend_mm_init (h1\<lparr>real_size := 0\<rparr>)) [] no_lists no_cache {}"
    by (rule empty_good) (simp_all add: h1_def)
  have "same_memory (zend_mm_init (h1\<lparr>real_size := 0\<rparr>)) ?h" unfolding hz by (simp add: same_memory_def same_segments_def same_links_def)
  from good_same [OF g0 this] show "mm_good (cache ?h) ?h [] no_lists no_cache {}" by (simp add: hz)
  show "block_size ?h = bs" "reserve ?h = None" "mm_limit ?h = push_bit 62 1" "real_size ?h = 0" "segment_size ?h = Map.empty"
    by (simp_all add: start_heap_def zend_mm_init_def no_memory_def)
qed

lemma startup_ex_run:
  assumes "zend_mm_low_bit bs = Some (zend_mm_high_bit (unat bs))" "0 < rsz"
  shows "zend_mm_startup_ex st bs rsz h0 = map_option (\<lambda>r. case r of Fatal e h \<Rightarrow> Fatal e h | Done p h \<Rightarrow> Done () (h\<lparr>reserve := Some p\<rparr>))
    (zend_mm_alloc_int st rsz (start_heap bs rsz h0))"
  using assms unfolding zend_mm_startup_ex_def start_heap_def
  by (cases "zend_mm_alloc_int st rsz (start_heap bs rsz h0)") (auto simp: Let_def start_heap_def split: mm_outcome.split)

lemma startup_ex_ok:
  assumes sto: "storage_ok st" and bs: "zend_mm_low_bit bs = Some (zend_mm_high_bit (unat bs))" "bs = push_bit k 1" "5 \<le> k" "k \<le> 30"
    and rs: "0 < rsz" "rsz < 2 ^ 28"
  shows "\<exists>r. zend_mm_startup_ex st bs rsz h0 = Some r \<and> mm_started bs r"
proof -
  define h where "h = start_heap bs rsz h0"
  note good = start_heap_ok(1) [of bs rsz h0, folded h_def] and f = start_heap_ok(2-5) [of bs rsz h0, folded h_def]
  have bok: "block_size_ok h" unfolding block_size_ok_def f(1) using bs(2-4) by (intro exI [of _ k]) simp
  have r0: "\<forall>p. reserve h = Some p \<longrightarrow> (\<exists>b n. p = b + 16 \<and> (b, n) \<in> held_blocks [] no_cache)" using f(2) by simp
  have rz: "rsz < 2 ^ 64" using rs(2) by simp
  have "ZEND_MM_TRUE_SIZE rsz < 2 ^ 29"
    using rs(2) aligned_size [of "rsz + 16"] by (simp add: ZEND_MM_TRUE_SIZE_def)
  then have "unat (segment_size_for (ZEND_MM_TRUE_SIZE rsz) h) < 2 ^ 31"
    using segment_size_bound [of h k] f(1) bs(2,4) by simp
  then have room: "unat (mm_limit h) < 2 ^ 31 \<or> unat (real_size h) + unat (segment_size_for (ZEND_MM_TRUE_SIZE rsz) h) < 2 ^ 31"
    using f(4) by simp
  obtain r where r: "zend_mm_alloc_int st rsz h = Some r" "mm_allocates h (held_blocks [] no_cache) rsz r"
    using alloc_int_good [OF good bok r0 sto rz room] by blast
  have none: "held_blocks [] no_cache = {}" by (simp add: held_blocks_def used_blocks_def)
  have run: "zend_mm_startup_ex st bs rsz h0 = Some (case r of Fatal e h \<Rightarrow> Fatal e h | Done p h \<Rightarrow> Done () (h\<lparr>reserve := Some p\<rparr>))"
    using startup_ex_run [OF bs(1) rs(1)] r(1) by (simp add: h_def)
  show ?thesis
  proof (cases r)
    case (Fatal e h2)
    then show ?thesis using run r(2) none by (simp add: mm_allocates_def mm_fails_def mm_started_def)
  next
    case (Done p h2)
    obtain b n where b: "p = b + 16" "mm_state h2 {(b, n)}" "mm_limit h2 = mm_limit h" "block_size h2 = block_size h"
      using r(2) Done none by (auto simp: mm_allocates_def)
    let ?h = "h2\<lparr>reserve := Some p\<rparr>"
    obtain S F C where s: "mm_good (cache h2) h2 S F C {}" "held_blocks S C = {(b, n)}" using b(2) unfolding mm_state_def by blast
    have "mm_good (cache ?h) ?h S F C {}" using good_same [OF s(1), of ?h] by simp
    moreover have "block_size_ok ?h" using b(2) by (simp add: mm_state_def block_size_ok_def)
    ultimately have "mm_state ?h {(b, n)}" using b(1) s(2) by (intro mm_stateI [of ?h S F C]) simp_all
    then have "mm_started bs (Done () ?h)" using b f by (auto simp: mm_started_def)
    then show ?thesis using run Done by simp
  qed
qed

lemma default_block_size:
  "zend_mm_low_bit ZEND_MM_SEG_SIZE = Some (zend_mm_high_bit (unat ZEND_MM_SEG_SIZE))" "32 \<le> unat ZEND_MM_SEG_SIZE" "unat ZEND_MM_SEG_SIZE \<le> 2 ^ 30"
proof -
  have "zend_mm_high_bit 262144 = 18" by (rule high_bit) simp_all
  moreover have "zend_mm_low_bit 262144 = Some 18"
    by (simp add: zend_mm_low_bit_def zend_mm_low_bit_loop.simps low_bit_offset_def)
  ultimately show "zend_mm_low_bit ZEND_MM_SEG_SIZE = Some (zend_mm_high_bit (unat ZEND_MM_SEG_SIZE))" by (simp add: ZEND_MM_SEG_SIZE_def)
qed (simp_all add: ZEND_MM_SEG_SIZE_def)

lemma startup_ok:
  assumes sto: "storage_ok st" and env: "\<And>n. seg_env = Some n \<Longrightarrow> zend_mm_low_bit n = Some (zend_mm_high_bit (unat n)) \<and> 32 \<le> unat n \<and> unat n \<le> 2 ^ 30"
  shows "\<exists>r. zend_mm_startup st seg_env compact_env h0 = Some r \<and> mm_started (case seg_env of None \<Rightarrow> ZEND_MM_SEG_SIZE | Some n \<Rightarrow> n) r"
proof -
  let ?bs = "case seg_env of None \<Rightarrow> ZEND_MM_SEG_SIZE | Some n \<Rightarrow> n"
  have p: "zend_mm_low_bit ?bs = Some (zend_mm_high_bit (unat ?bs))" "32 \<le> unat ?bs" "unat ?bs \<le> 2 ^ 30"
    using default_block_size env by (auto split: option.split)
  obtain k where k: "k < 64" "?bs = push_bit k 1" using block_size_power [OF p(1)] by blast
  have u: "unat ?bs = 2 ^ k"
  proof -
    have "(2 :: nat) ^ k < 2 ^ 64" by (rule power_strict_increasing) (use k(1) in simp_all)
    then have "unat (of_nat (2 ^ k) :: ulong) = 2 ^ k" unfolding unat_of_nat by simp
    then show ?thesis unfolding k(2) by (simp add: push_bit_eq_mult)
  qed
  have k5: "5 \<le> k"
  proof (rule ccontr)
    assume "\<not> 5 \<le> k"
    then have "(2 :: nat) ^ k \<le> 2 ^ 4" by (intro power_increasing) simp_all
    then show False using p(2) u by simp
  qed
  have k30: "k \<le> 30" using p(3) u power_increasing_iff [of "2 :: nat" k 30] by simp
  obtain r where r: "zend_mm_startup_ex st ?bs ZEND_MM_RESERVE_SIZE h0 = Some r" "mm_started ?bs r"
    using startup_ex_ok [OF sto p(1) k(2) k5 k30, of ZEND_MM_RESERVE_SIZE] by auto
  have run: "zend_mm_startup st seg_env compact_env h0 = Some (case r of Fatal e h \<Rightarrow> Fatal e h
      | Done u h \<Rightarrow> Done u (h\<lparr>compact_size := (case compact_env of None \<Rightarrow> 2 * 1024 * 1024 | Some n \<Rightarrow> n)\<rparr>))"
    using r(1) env p(2) by (cases seg_env) (simp_all add: zend_mm_startup_def split: mm_outcome.split)
  show ?thesis
  proof (cases r)
    case (Fatal e h)
    then show ?thesis using run r(2) by (simp add: mm_started_def)
  next
    case (Done u h)
    let ?h = "h\<lparr>compact_size := (case compact_env of None \<Rightarrow> 2 * 1024 * 1024 | Some n \<Rightarrow> n)\<rparr>"
    have "mm_state ?h H" if "mm_state h H" for H
      by (rule state_same [OF that]) (simp_all add: same_memory_def same_segments_def same_links_def)
    then have "mm_started ?bs (Done u ?h)" using r(2) Done by (auto simp: mm_started_def)
    then show ?thesis using run Done by simp
  qed
qed

lemma limit_ok:
  assumes "mm_state h H" "unat m < 2 ^ 31" "unat (block_size h) < 2 ^ 31" "zend_set_memory_limit m h = (res, h')"
  shows "mm_state h' H" "unat (mm_limit h') < 2 ^ 31" "reserve h' = reserve h" "payload h' = payload h"
proof -
  have e: "h' = h\<lparr>mm_limit := (if m \<ge> block_size h then m else block_size h)\<rparr>" using assms(4) by (simp add: zend_set_memory_limit_def)
  show "mm_state h' H" by (rule state_same [OF assms(1)]) (simp_all add: e)
  show "unat (mm_limit h') < 2 ^ 31" "reserve h' = reserve h" "payload h' = payload h" using assms(2,3) by (simp_all add: e)
qed

end
