(* ===== verification/ZendAllocRuns.thy ===== *)
theory ZendAllocRuns
  imports ZendAllocStart
begin

text \<open>
  The manager and a program that uses it: the program allocates, resizes, releases and writes into its
  objects in any order, goes on after an allocation that failed, and finds in each object what it has
  written there.
\<close>

subsection \<open>Runs\<close>


definition contents :: "mm_heap \<Rightarrow> addr \<Rightarrow> nat \<Rightarrow> byte list" where
  "contents h p n = map (\<lambda>i. payload h (p + i)) [0..<n]"


subsection \<open>The invariant\<close>



lemma contents_props [simp]: "length (contents h p n) = n" "i < n \<Longrightarrow> contents h p n ! i = payload h (p + i)"
  by (simp_all add: contents_def)






subsection \<open>The steps keep the invariant\<close>






subsection \<open>When an allocation fails\<close>

lemma found_not_fatal: "alloc_found b n h \<noteq> Some (Fatal e h')"
  by (auto simp: alloc_found_def finish_alloc_def Let_def bind_eq_Some_iff)

text \<open>The reasons: the size or the segment for it does not fit a machine word, the limit, the storage.\<close>

definition cannot_have :: "mm_storage \<Rightarrow> nat \<Rightarrow> mm_heap \<Rightarrow> bool" where
  "cannot_have st n h \<longleftrightarrow> (let t = ZEND_MM_TRUE_SIZE n; s = segment_size_for t h in
     t < n \<or> unat s < t \<or> real_size h + s > mm_limit h \<or> storage_alloc st h (unat s) = None)"

lemma segment_fatal:
  "alloc_segment st t h = Some (Fatal e h') \<Longrightarrow> unat (segment_size_for t h) < t \<or>
     real_size h + segment_size_for t h > mm_limit h \<or> storage_alloc st h (unat (segment_size_for t h)) = None"
  by (auto simp: alloc_segment_def finish_alloc_def Let_def bind_eq_Some_iff split: if_splits option.splits)

lemma large_fatal:
  assumes "alloc_large st t h = Some (Fatal e h')"
  shows "alloc_segment st t h = Some (Fatal e h')"
proof -
  obtain v where "(case v of Some b \<Rightarrow> alloc_found b t h | None \<Rightarrow> alloc_segment st t h) = Some (Fatal e h')"
    using assms by (auto simp: alloc_large_def bind_eq_Some_iff)
  then show ?thesis using found_not_fatal by (cases v) auto
qed

lemma alloc_fatal:
  assumes "zend_mm_alloc_int st n h = Some (Fatal e h')"
  shows "cannot_have st n h"
proof -
  have "ZEND_MM_TRUE_SIZE n < n \<or> alloc_large st (ZEND_MM_TRUE_SIZE n) h = Some (Fatal e h')"
    using assms found_not_fatal
    by (auto simp: zend_mm_alloc_int_def Let_def bind_eq_Some_iff split: if_splits option.splits)
  then show ?thesis
    using segment_fatal [OF large_fatal, of st "ZEND_MM_TRUE_SIZE n" h e h'] by (auto simp: cannot_have_def Let_def)
qed

subsection \<open>The start and the limit\<close>

lemma startup_env:
  assumes "zend_mm_startup st seg_env compact_env h00 = Some r" "\<forall>n. seg_env = Some n \<longrightarrow> unat n \<le> 2 ^ 30" "seg_env = Some n"
  shows "zend_mm_low_bit n = Some (zend_mm_high_bit (unat n)) \<and> 32 \<le> unat n \<and> unat n \<le> 2 ^ 30"
  using assms by (auto simp: zend_mm_startup_def bind_eq_Some_iff split: if_splits)

lemma start_state:
  assumes sto: "storage_ok st" and env: "\<forall>n. seg_env = Some n \<longrightarrow> unat n \<le> 2 ^ 30"
    and r: "zend_mm_startup st seg_env compact_env h00 = Some (Done () h1)"
    and m: "zend_set_memory_limit m h1 = (res, h0)" "unat m < 2 ^ 31"
  shows "\<exists>H. mm_state h0 H" "unat (mm_limit h0) < 2 ^ 31"
proof -
  let ?bs = "case seg_env of None \<Rightarrow> ZEND_MM_SEG_SIZE | Some n \<Rightarrow> n"
  have "mm_started ?bs (Done () h1)"
    using startup_ok [OF sto startup_env [OF r env], where ?seg_env = seg_env and ?compact_env = compact_env and ?h0.0 = h00] r by auto
  then obtain b n where b: "mm_state h1 {(b, n)}" "block_size h1 = ?bs" by (auto simp: mm_started_def)
  have "unat ?bs < 2 ^ 31" using env default_block_size(3) by (auto split: option.split)
  then show "\<exists>H. mm_state h0 H" "unat (mm_limit h0) < 2 ^ 31" using limit_ok [OF b(1) m(2) _ m(1)] b(2) by auto
qed






subsection \<open>A storage\<close>

text \<open>It has all the addresses there are and takes the first that are free.\<close>

definition first_fresh :: mm_storage where
  "first_fresh = \<lparr>
     storage_alloc = (\<lambda>h n. if n < 2 ^ 47 \<and> (\<exists>s. fresh_segment h s n) then Some (LEAST s. fresh_segment h s n) else None),
     storage_realloc = (\<lambda>_ _ _. None)\<rparr>"

lemma first_fresh_ok: "storage_ok first_fresh"
  by (auto simp: storage_ok_def first_fresh_def intro: LeastI_ex split: if_splits)

lemma first_fresh_alloc:
  assumes "finite (dom (segment_size h))" "n < 2 ^ 47"
  shows "storage_alloc first_fresh h n \<noteq> None"
proof -
  let ?A = "(\<lambda>t. t + the (segment_size h t)) ` dom (segment_size h)"
  have "finite ?A" using assms(1) by simp
  then obtain s where s: "\<forall>x \<in> ?A. x \<le> s" by (meson finite_nat_set_iff_bounded_le)
  have "fresh_segment h s n"
    unfolding fresh_segment_def
  proof (intro allI impI)
    fix t m assume "segment_size h t = Some m"
    then have "t + m \<in> ?A" by force
    then have "t + m \<le> s" using s by blast
    then show "{s..<s + n} \<inter> {t..<t + m} = {}" by auto
  qed
  then show ?thesis using assms(2) by (auto simp: first_fresh_def)
qed

lemma add_to_tree_core:
  assumes "add_to_tree b sz m p h = Some h'"
  shows "core h' = core h"
  by (rule add_to_tree.raw_induct [where P = "\<lambda>_ _ _ _ h r. core r = core h", OF _ assms])
    (auto simp: Let_def bind_eq_Some_iff split: option.splits if_splits)

lemma add_to_free_core: "zend_mm_add_to_free_list b h = Some h' \<Longrightarrow> core h' = core h"
  by (auto simp: zend_mm_add_to_free_list_def Let_def bind_eq_Some_iff dest: add_to_tree_core split: if_splits)

text \<open>A new segment of the normal size.\<close>

lemma split_segments:
  assumes "split_block b N n False h = Some (k, h')"
  shows "segment_size h' = segment_size h" "real_size h' = real_size h"
proof -
  have "same_segments h h'"
  proof (cases "N - n < ZEND_MM_ALIGNED_MIN_HEADER_SIZE")
    case True
    then show ?thesis using assms by (auto simp: split_block_def Let_def)
  next
    case False
    let ?g = "ZEND_MM_BLOCK (b + n) ZEND_MM_FREE_BLOCK (N - n) (ZEND_MM_BLOCK b ZEND_MM_USED_BLOCK n h)"
    have "zend_mm_add_to_free_list (b + n) ?g = Some h'"
      using assms False by (auto simp: split_block_def Let_def bind_eq_Some_iff)
    then have c: "core h' = core ?g" by (rule add_to_free_core)
    have "same_segments ?g h'" unfolding same_segments_def
      using core_fields(3) [OF c] core_fields(4) [OF c] core_fields(7) [OF c] core_fields(8) [OF c] by simp
    moreover have "same_segments h ?g" by (rule same_segments_trans [OF header_updates(3) header_updates(3)])
    ultimately show ?thesis by (blast intro: same_segments_trans)
  qed
  then show "segment_size h' = segment_size h" "real_size h' = real_size h" by (simp_all add: same_segments_def)
qed

lemma finish_segments:
  assumes "finish_alloc b N n False h = Some (Done p h')"
  shows "segment_size h' = segment_size h" "real_size h' = real_size h"
proof -
  obtain k g where g: "split_block b N n False h = Some (k, g)" "h' = raise_peak (g\<lparr>mm_size := mm_size g + of_nat k\<rparr>)"
    using assms by (auto simp: finish_alloc_def bind_eq_Some_iff Let_def)
  show "segment_size h' = segment_size h" "real_size h' = real_size h"
    using split_segments [OF g(1)] by (simp_all add: g(2) raise_peak_def)
qed

lemma normal_segment:
  assumes "alloc_segment st n h = Some (Done p h')" "\<not> needs_large_segment n h"
  shows "real_size h' = real_size h + block_size h" "\<exists>s. segment_size h' = (segment_size h)(s \<mapsto> unat (block_size h))"
proof -
  have no: "zend_mm_safe_error e h \<noteq> Some (Done (p' :: addr) h')" for e :: mm_error and h p' and h' :: mm_heap
    by (auto simp: zend_mm_safe_error_def Let_def bind_eq_Some_iff split: option.splits)
  obtain g s b N where "finish_alloc b N n False g = Some (Done p h')" "real_size g = real_size h + block_size h"
    "segment_size g = (segment_size h)(s \<mapsto> unat (block_size h))"
    using assms no by (auto simp: alloc_segment_def Let_def segment_size_for_def bind_eq_Some_iff split: if_splits option.splits)
  then show "real_size h' = real_size h + block_size h" "\<exists>s. segment_size h' = (segment_size h)(s \<mapsto> unat (block_size h))"
    using finish_segments by auto
qed


subsection \<open>A start that succeeds\<close>

abbreviation first_heap :: "mm_heap \<Rightarrow> mm_heap" where
  "first_heap h \<equiv> start_heap ZEND_MM_SEG_SIZE 8192 h"

lemma reserve_size_rounded: "ZEND_MM_TRUE_SIZE 8192 = 8208" "ZEND_MM_TRUE_SIZE (Suc 0) = 32"
  by (simp_all add: ZEND_MM_TRUE_SIZE_def ZEND_MM_ALIGNED_SIZE_def)

lemma normal_size:
  assumes "block_size h = 262144" "n < 262112"
  shows "\<not> needs_large_segment n h" "unat (segment_size_for n h) = 262144"
proof -
  have "unat (of_nat n :: ulong) = n" using assms(2) by (simp add: unat_of_nat)
  then have "\<not> (262112 :: ulong) < of_nat n" using assms(2) by (simp add: word_less_nat_alt)
  then show "\<not> needs_large_segment n h" using assms(1) by (simp add: needs_large_segment_def)
  then show "unat (segment_size_for n h) = 262144" using assms(1) by (simp add: segment_size_for_def)
qed

lemma can_have:
  assumes "block_size h = 262144" "finite (dom (segment_size h))" "unat (real_size h) + 262144 \<le> unat (mm_limit h)"
    and "n \<le> ZEND_MM_TRUE_SIZE n" "ZEND_MM_TRUE_SIZE n < 262112"
  shows "\<not> cannot_have first_fresh n h"
proof -
  have u: "unat (segment_size_for (ZEND_MM_TRUE_SIZE n) h) = 262144" using normal_size(2) [OF assms(1,5)] .
  have "unat (mm_limit h) < 2 ^ 64" using unsigned_less [of "mm_limit h"] by simp
  then have "unat (real_size h + segment_size_for (ZEND_MM_TRUE_SIZE n) h) = unat (real_size h) + 262144"
    using assms(3) u by (simp add: unat_word_ariths)
  then have "\<not> real_size h + segment_size_for (ZEND_MM_TRUE_SIZE n) h > mm_limit h" using assms(3) by (simp add: word_less_nat_alt)
  then show ?thesis using u assms(4,5) first_fresh_alloc [OF assms(2)] by (simp add: cannot_have_def Let_def)
qed

lemma first_request: "zend_mm_alloc_int st 8192 (first_heap h) = alloc_segment st 8208 (first_heap h)"
proof -
  have "large_free_bitmap (first_heap h) = 0" by (simp add: start_heap_def zend_mm_init_def)
  then have "zend_mm_search_large_block 8208 (first_heap h) = Some None" by (simp add: zend_mm_search_large_block_def Let_def)
  moreover have "\<not> real_size (first_heap h) \<ge> mm_limit (first_heap h) - block_size (first_heap h)"
    by (simp add: start_heap_ok ZEND_MM_SEG_SIZE_def push_bit_eq_mult)
  ultimately show ?thesis by (simp add: zend_mm_alloc_int_def reserve_size_rounded Let_def alloc_large_def)
qed

lemma first_start:
  "\<exists>h1. zend_mm_startup first_fresh None None h = Some (Done () h1) \<and> block_size h1 = 262144 \<and> unat (real_size h1) = 262144 \<and>
     finite (dom (segment_size h1))"
proof -
  let ?a = "zend_mm_alloc_int first_fresh 8192 (first_heap h)"
  have f: "block_size (first_heap h) = 262144" "real_size (first_heap h) = 0" "segment_size (first_heap h) = Map.empty"
    "mm_limit (first_heap h) = push_bit 62 1" by (simp_all add: start_heap_ok ZEND_MM_SEG_SIZE_def)
  have ex: "zend_mm_startup_ex first_fresh ZEND_MM_SEG_SIZE ZEND_MM_RESERVE_SIZE h =
      map_option (\<lambda>r. case r of Fatal e h \<Rightarrow> Fatal e h | Done p h \<Rightarrow> Done () (h\<lparr>reserve := Some p\<rparr>)) ?a"
    using startup_ex_run [OF default_block_size(1), of ZEND_MM_RESERVE_SIZE first_fresh h] by simp
  obtain r where r: "zend_mm_startup first_fresh None None h = Some r"
    "mm_started ZEND_MM_SEG_SIZE r" using startup_ok [OF first_fresh_ok, of None None h] by auto
  then obtain x where x: "?a = Some x" using ex r(1) by (auto simp: zend_mm_startup_def bind_eq_Some_iff)
  have no: "\<not> cannot_have first_fresh 8192 (first_heap h)"
    by (rule can_have) (simp_all add: f reserve_size_rounded)
  obtain p g where g: "?a = Some (Done p g)" using x alloc_fatal no by (cases x) auto
  have n: "\<not> needs_large_segment 8208 (first_heap h)" by (rule normal_size(1) [OF f(1)]) simp
  have a: "alloc_segment first_fresh 8208 (first_heap h) = Some (Done p g)" using g first_request by simp
  note s = normal_segment [OF a n]
  have sz: "unat (real_size g) = 262144" "finite (dom (segment_size g))" using s f by auto
  obtain h1 where h1: "r = Done () h1" "real_size h1 = real_size g" "segment_size h1 = segment_size g"
    using r(1) ex g by (auto simp: zend_mm_startup_def)
  then have "block_size h1 = 262144" using r(2) by (auto simp: mm_started_def ZEND_MM_SEG_SIZE_def)
  then show ?thesis using r(1) h1 sz by simp
qed

lemma first_request_done:
  "\<exists>h1 h0 H p h2. zend_mm_startup first_fresh None None h00 = Some (Done () h1) \<and>
     zend_set_memory_limit (2 ^ 30) h1 = (SUCCESS, h0) \<and> zend_mm_alloc_int first_fresh 1 h0 = Some (Done p h2) \<and>
     mm_state h0 H \<and> unat (mm_limit h0) < 2 ^ 31"
proof -
  obtain h1 where h1: "zend_mm_startup first_fresh None None h00 = Some (Done () h1)" "block_size h1 = 262144"
    "unat (real_size h1) = 262144" "finite (dom (segment_size h1))" using first_start by blast
  define h0 where "h0 = h1\<lparr>mm_limit := 2 ^ 30\<rparr>"
  have lim: "zend_set_memory_limit (2 ^ 30) h1 = (SUCCESS, h0)" by (simp add: zend_set_memory_limit_def h0_def h1(2))
  have m: "unat (2 ^ 30 :: ulong) < 2 ^ 31" by simp
  obtain H where H: "mm_state h0 H" "unat (mm_limit h0) < 2 ^ 31"
    using start_state [OF first_fresh_ok _ h1(1) lim m] by auto
  obtain r where r: "zend_mm_alloc_int first_fresh 1 h0 = Some r" using alloc_int_ok [OF H(1) first_fresh_ok H(2), of 1] by auto
  have "\<not> cannot_have first_fresh 1 h0" by (rule can_have) (simp_all add: h0_def h1 reserve_size_rounded)
  then obtain p h2 where "r = Done p h2" using r alloc_fatal by (cases r) auto
  then show ?thesis using h1(1) lim r H by blast
qed

subsection \<open>The properties\<close>




text \<open>
  C15. Allocation, in every state the manager can be in (\<open>mm_state h H\<close>: the blocks \<open>H\<close> are in use): it returns. When
  it succeeds, the new block has room for the object and its header and overlaps no block in use, nobody's
  contents change, and the manager is in a proper state again, with this block in use and no other. When it
  reports an error, there was a reason (\<open>cannot_have\<close>): the rounded size or the size of the segment for it
  does not fit a machine word, that segment would exceed the limit, or the storage has none; then the reserve
  has been given up and every other block is still in use, with its contents.
\<close>

theorem zend_mm_alloc_int_spec:
  assumes "mm_state h H" "storage_ok st" "unat (mm_limit h) < 2 ^ 31" "n < 2 ^ 64"
  shows "\<exists>r. zend_mm_alloc_int st n h = Some r \<and>
    (case r of
       Done p h' \<Rightarrow> \<exists>b k. p = b + 16 \<and> n + 16 \<le> k \<and> (\<forall>(c, m) \<in> H. b + k \<le> c \<or> c + m \<le> b) \<and>
         mm_state h' (insert (b, k) H) \<and> payload h' = payload h \<and> reserve h' = reserve h \<and>
         unat (real_size h') \<le> max (unat (real_size h)) (unat (mm_limit h))
     | Fatal e h' \<Rightarrow> cannot_have st n h \<and> mm_state h' (H - reserved h) \<and> payload h' = payload h \<and> reserve h' = None \<and>
         unat (real_size h') \<le> unat (real_size h))"
proof -
  obtain r where r: "zend_mm_alloc_int st n h = Some r" "mm_allocates h H n r" using alloc_int_ok [OF assms] by blast
  show ?thesis
  proof (cases r)
    case (Fatal e h')
    then show ?thesis using r alloc_fatal by (auto simp: mm_allocates_def mm_fails_def)
  next
    case (Done p h')
    then obtain b k where b: "p = b + 16" "n + 16 \<le> k" "b \<notin> fst ` H" "mm_state h' (insert (b, k) H)" "payload h' = payload h"
      "reserve h' = reserve h" "unat (real_size h') \<le> max (unat (real_size h)) (unat (mm_limit h))"
      using r(2) by (auto simp: mm_allocates_def)
    have "b + k \<le> c \<or> c + m \<le> b" if "(c, m) \<in> H" for c m
      using held_disjoint(1) [OF b(4), of b k c m] that b(3) by force
    then show ?thesis using r(1) b by (auto simp: Done)
  qed
qed

theorem zend_mm_alloc_int_spec_witness:
  "\<forall>h00. \<exists>h1 h0 H p h2. zend_mm_startup first_fresh None None h00 = Some (Done () h1) \<and>
     zend_set_memory_limit (2 ^ 30) h1 = (SUCCESS, h0) \<and> mm_state h0 H \<and> zend_mm_alloc_int first_fresh 1 h0 = Some (Done p h2) \<and>
     (\<exists>b k. p = b + 16 \<and> 17 \<le> k \<and> mm_state h2 (insert (b, k) H))"
proof
  fix h00
  obtain h1 h0 H p h2 where s: "zend_mm_startup first_fresh None None h00 = Some (Done () h1)"
    "zend_set_memory_limit (2 ^ 30) h1 = (SUCCESS, h0)" "zend_mm_alloc_int first_fresh 1 h0 = Some (Done p h2)"
    "mm_state h0 H" "unat (mm_limit h0) < 2 ^ 31"
    using first_request_done by blast
  have "\<exists>b k. p = b + 16 \<and> 17 \<le> k \<and> mm_state h2 (insert (b, k) H)"
    using zend_mm_alloc_int_spec [OF s(4) first_fresh_ok s(5), of 1] s(3) by auto
  then show "\<exists>h1 h0 H p h2. zend_mm_startup first_fresh None None h00 = Some (Done () h1) \<and>
     zend_set_memory_limit (2 ^ 30) h1 = (SUCCESS, h0) \<and> mm_state h0 H \<and> zend_mm_alloc_int first_fresh 1 h0 = Some (Done p h2) \<and>
     (\<exists>b k. p = b + 16 \<and> 17 \<le> k \<and> mm_state h2 (insert (b, k) H))"
    using s by blast
qed

end
