(* ===== verification/Spec2Isabelle.thy ===== *)
theory Spec2Isabelle
  imports PhpDir Url Base64 SplHeapSpec ZendHashContract ZendLlistOps ZendStack ZendList ZendObjects ZendGcSpec ZendAllocSpec ZendAllocRuns
begin

text \<open>
  \<^bold>\<open>Verification library for the PHP engine in this repository\<close>

  The repository is the PHP 5.4 interpreter with one function of its own, \<open>glob_quote\<close>. The library
  models that function and everything it depends on, the data structures the engine is built on, and
  two self-contained parts of the extensions.

  \<^bold>\<open>The parts and how they interact.\<close>

  \<^enum> Pathname expansion. \<open>glob_quote\<close> (ext/standard/dir.c) turns a string into a pattern, and \<open>glob\<close>
    (same file) hands a pattern to the library function and filters the paths it returns. The library
    function that the repository brings is win32/glob.c: it copies the pattern and marks escaped
    characters, expands braces and a tilde, compiles each alternative, walks the directories with the
    compiled pattern, and sorts what it found.
  \<^enum> The hash table (Zend/zend_hash.c, zend_hash.h): the ordered dictionary behind PHP arrays, symbol
    tables and the engine's own registries. Its buckets are threaded on two doubly linked lists, one
    per slot and one in insertion order. zend_qsort.c sorts them; the symbol table macros send decimal
    strings to integer keys.
  \<^enum> Users of it and smaller containers: resource lists (zend_list.c) are hash tables of reference
    counted entries; the object store (zend_objects_API.c) hands out object handles through a free
    list; linked lists (zend_llist.c), stacks and pointer stacks (zend_stack.c, zend_ptr_stack.c)
    serve the compiler and the executor.
  \<^enum> The garbage collector (zend_gc.c, zend_gc.h): arrays and objects whose reference count went down
    wait in a buffer of possible roots; a collection takes the references within what they reach away,
    gives them back to everything a value with other references reaches, and releases the rest through
    the object store and the hash table.
  \<^enum> The memory manager (zend_alloc.c): it takes segments from the storage handlers and cuts them into blocks,
    keeps free blocks in rings and tries, freed small blocks in a cache, and enforces the memory limit.
  \<^enum> URL and Base64 encoding (ext/standard/url.c, base64.c), and the heaps and priority queues of the
    SPL extension (ext/spl/spl_heap.c), whose comparisons may call back into PHP code.

  \<^bold>\<open>Conventions.\<close> A function that dereferences pointers or indexes arrays returns an option; \<open>None\<close> is
  undefined behaviour (a NULL or dangling pointer, an access out of range, a read of an unwritten
  cell) or a loop that does not stop. That a call equals \<open>Some r\<close> therefore says it is memory safe and
  returns. Where the C code itself returns NULL or an error, that is a value inside: \<open>Some None\<close>, \<open>Inl e\<close>,
  \<open>FAILURE\<close>. Heap objects live in maps from addresses to records; a pointer is \<open>addr option\<close>. Unsigned
  integers are words of their width; signed ones are integers, narrowed by \<open>i32\<close> or \<open>i64\<close> where the code
  narrows. The build is 64 bit, not \<open>ZTS\<close>, not \<open>ZEND_DEBUG\<close>. For the other parts the allocators abort the process when memory
  is exhausted, so no branch handles that, except for the recoverable reallocation. Callbacks are
  parameters: functions on the data they get and on a state of their own.
\<close>

text \<open>
  \<^bold>\<open>Which theory models what.\<close>

  \<^item> Prelude: C integers, result codes, lemmas on options and lists. Linked: pointer paths and doubly
    linked lists over any two link fields; the locale \<open>links\<close> is the interface of such a list, and it is
    interpreted for both lists of the hash table and for zend_llist.
  \<^item> Glob: win32/glob.c from \<open>glob\<close> down to \<open>match\<close>, one definition per C function (\<open>glob2\<close> and \<open>glob3\<close>, and
    \<open>globexp1\<close> and \<open>globexp2\<close>, are one recursion each), over the 16-bit \<open>Char\<close> of the source. The file
    system, the home directory and the error callback are fields of the record \<open>glob_env\<close>. GlobMatch gives
    compiled patterns their meaning and relates compilation and matching to it; GlobSafe shows that no
    scan leaves its pattern and that every recursion ends; GlobWalk holds the invariants of the walk
    (what is added to the result, and that it exists) and of sorting; GlobSpec states the contract, and
    GlobTree describes the result of a pattern with separators by a walk over the tree of directories.
  \<^item> PhpDir: \<open>glob_quote\<close> and \<open>php_glob\<close>. The library function is an argument of \<open>php_glob\<close>; the locale
    \<open>glob_library\<close> states what PHP relies on, and it is interpreted for win32/glob.c.
  \<^item> ZendHash: the records \<open>bucket\<close> and \<open>hashtable\<close> and the operations on one element; ZendHashBulk: those on
    whole tables; ZendHashSort, ZendQsort: sorting and comparison; ZendSymtable: decimal string keys.
    ZendHashInv states the invariant of the representation; ZendHashOps, ZendHashDelete, ZendHashTables,
    ZendHashReorder and ZendHashKeys show that the operations keep it and what they do to the list of
    entries; ZendHashSpec and ZendHashCopy abstract a table to an association list in insertion order
    (the locale \<open>ordered_table\<close>, interpreted for the hash table); ZendHashContract states the contract.
  \<^item> ZendLlist and ZendLlistOps: zend_llist.c. ZendStack: zend_stack.c and zend_ptr_stack.c. ZendList:
    zend_list.c, over the hash table of ZendHash. ZendObjects: zend_objects_API.c, with the free list that
    the C code keeps inside the unused buckets.
  \<^item> ZendGc: zend_gc.c over a heap of its own (\<open>gc_state\<close>): zvals with their reference count, colour and
    root, objects, arrays as the lists of their zvals, the buffer of roots as pointers. What releases is
    the record \<open>gc_env\<close>. ZendGcGraph is trial deletion on an abstract graph (the locale \<open>refgraph\<close>);
    ZendGcNodes reads the heap as such a graph; ZendGcWalk states when a recursive walk is a depth-first
    visit (the locale \<open>element_walk\<close>), and ZendGcSteps, ZendGcPhases and ZendGcCollect interpret it for
    marking grey, marking black and collecting; ZendGcScan treats the scan, ZendGcRoots the ring of
    buffers and the loops over it, ZendGcMarking and ZendGcCollection the three phases, ZendGcBuffer the
    registration and removal of roots, ZendGcRelease destructors and release; ZendGcSpec states the contract.
  \<^item> ZendAlloc: the structures of zend_alloc.c, block headers, free lists; ZendAllocOps: segments, cache,
    search, allocation, release, reallocation, start and end. Structures in memory are maps from addresses, one
    per field, in the record \<open>mm_heap\<close>. ZendAllocSizes: arithmetic of sizes, tags and bitmaps; ZendAllocRings,
    ZendAllocTries, ZendAllocPrune: rings and tries in memory; ZendAllocFree: all free lists together;
    ZendAllocSearch: the rest list and the searches; ZendAllocSpec states what lists and searches promise.
    ZendAllocTiles describes a segment as the sequence of its blocks, ZendAllocLayout the heap as a whole: segments, free
    lists and cache agree (\<open>mm_good\<close>, the invariant of the heap). ZendAllocSegments, ZendAllocBlocks, ZendAllocRelease,
    ZendAllocSplit and ZendAllocAllocate show that it is kept when segments come, go and move, and when blocks are
    merged, released, cut and allocated; ZendAllocUser states them in terms of the blocks in use
    (\<open>mm_state\<close>); ZendAllocRealloc, ZendAllocMove and ZendAllocResize treat reallocation, ZendAllocStart the start.
    ZendAllocRuns lets a program use the manager and states the contract. The storage handlers are a parameter;
    \<open>storage_ok\<close> says that a segment they give overlaps none in use and is smaller than \<open>2^47\<close> bytes.
  \<^item> Url, Base64: the encoders and decoders with the buffers they write to. SplHeap, SplPqueue: the
    binary heap, the methods of SplHeap and SplPriorityQueue; SplHeapSpec: their contract.

  \<^bold>\<open>What the theorems show.\<close> For pathname expansion: quoting a string without NUL (and without
  backslash, unless escapes are off) makes a pattern that \<open>glob\<close> copies and compiles to a form that matches
  that string and nothing else, and globbing for a quoted path finds exactly that file, through all its directories;
  the result of a pattern is that of an abstract walk over the tree of directories; compilation followed by matching decides the
  meaning of the pattern; \<open>glob\<close> returns for every pattern, flag word and file system without writing behind the \<open>MAXPATHLEN\<close>
  characters of its buffers, and every path it reports exists. For the hash table: any sequence of updates and deletions
  implements an insertion-ordered association list, and each operation has a specification on all its
  branches, destructor calls included. For the smaller containers: their sequence behaviour, who is
  destructed when, and that handles are fresh. For the garbage collector: a collection returns and is
  memory safe on every well formed heap, puts no value on its list that anything alive can reach, but every marked
  value that nothing else reaches, and gives the others their counts and colours back; registering and
  removing roots keep the buffer in order. For the memory manager: from its start on, however a program allocates, resizes, frees and writes, every object
  keeps its contents, objects do not overlap, the limit holds and every call returns; an allocation is refused only
  for a reason; adding and removing free blocks always succeeds, and a search finds a free block that is big enough.
  For the encoders: decoding undoes encoding within the buffers, as far as the lengths fit an \<open>int\<close>. For the SPL heaps:
  no element leaks under any comparison that leaves the heap alone, and extraction sorts under one that orders
  its values.
\<close>

text \<open>
  \<^bold>\<open>Termination and bounds.\<close> No definition has fuel. Recursion that follows a list or a count is structural or
  has a measure (the length of the remaining pattern for \<open>glob2\<close>, \<open>compile\<close> and \<open>globexp1\<close>; the distance to the
  limit for sifting). The walks of the collector are loops in this sense; the number of values that may still be
  entered bounds them. Loops along pointers are \<open>partial_function (option)\<close>, so a cycle is the value \<open>None\<close>, and
  the theorems show \<open>Some\<close> under the invariant. Counts that the C code keeps in an \<open>int\<close> and that are bounded by
  memory (stack depth, heap size, list length, the number of paths \<open>globextend\<close> multiplies by the size of a pointer)
  are natural numbers; where a count can leave its type without
  exhausting memory (the next free index of a table, the handle of a resource, the difference of two keys, the
  result of a user's comparison, the lengths of encoded strings) the width is part of the model. The path
  buffers of \<open>glob\<close> have their size: a write behind it is \<open>None\<close>. The compiler of patterns stops at NUL in the C code and
  at the end of the list here, so its theorems about strings that may hold a NUL say so. The limit of the memory
  manager is taken to be below \<open>2^31\<close>, because \<open>ZEND_MM_PREV_BLOCK\<close> casts sizes to \<open>int\<close>.

  \<^bold>\<open>Not modelled.\<close> Directory handles and streams; the proxy objects of the object store; \<open>GLOB_ALTDIRFUNC\<close>;
  URL parsing; creation, storage and debug output of SPL objects, and comparisons that change the heap they are
  called from; getters of properties that change the heap while the collector runs. What the collector calls to
  release the values on its list (destructors, \<open>zend_objects_store_del_ref_by_handle_ex\<close>, \<open>zend_hash_destroy\<close>,
  \<open>zval_dtor\<close>) are functions in \<open>gc_env\<close> that may do anything to the collector's heap; the contract is about
  the phases in front of them, and \<open>gc_collect_cycles_ok\<close> about those that leave its list alone. Of the memory manager: the heap that lives in its own first segment, the
  platform's storage handlers, the debug build. Of the engine: the compiler, the executor, the scanners (largely
  generated), operators on values. Of the rest: the request life cycle, the server
  interfaces, the other extensions and the vendored libraries.
\<close>

end
